(* ===== verification/C_Prelude.thy ===== *)
theory C_Prelude
  imports Main "HOL-Library.Word" "HOL-Library.Signed_Division"
begin

unbundle bit_operations_syntax

text \<open>
  What the components of the development share: the result of a C call that may end the
  process, the conversions between C integer types, errno values, byte buffers with
  the memory copies the code performs on them, and the little-endian layout of the integers
  that the file system stores on disk.

  A call that ends the process is a value: \<open>Inl (Exit_with m)\<close> is the EXIT macro of
  fs/common.h (a message on stderr, then exit(1)), \<open>Inl Assert_failed\<close> a failed assert,
  \<open>Inl Bad_access\<close> a read or write outside the object it is made in, and \<open>Inl Out_of_fuel\<close> a
  loop that has not ended after the number of steps it was given, so that a result
  \<open>Inr\<close> always says that the call returns. A negative
  return code is an ordinary value, as it is in the code.
\<close>

section \<open>Results of calls that may end the process\<close>

datatype fault = Exit_with string | Assert_failed | Bad_access | Out_of_fuel

type_synonym 'a res = "fault + 'a"

definition rbind :: "'a res \<Rightarrow> ('a \<Rightarrow> 'b res) \<Rightarrow> 'b res" where
  "rbind m f = (case m of Inl e \<Rightarrow> Inl e | Inr x \<Rightarrow> f x)"

definition c_assert :: "bool \<Rightarrow> unit res" where
  "c_assert b = (if b then Inr () else Inl Assert_failed)"

named_theorems res_simps \<open>results: evaluation of rbind and c_assert\<close>

lemma rbind_Inr [simp, res_simps]: "rbind (Inr x) f = f x"
  by (simp add: rbind_def)

lemma rbind_Inl [simp, res_simps]: "rbind (Inl e) f = Inl e"
  by (simp add: rbind_def)

lemma rbind_eq_Inr [res_simps]: "rbind m f = Inr y \<longleftrightarrow> (\<exists>x. m = Inr x \<and> f x = Inr y)"
  by (cases m) auto

lemma rbind_eq_InrE:
  assumes "rbind m f = Inr y"
  obtains x where "m = Inr x" "f x = Inr y"
  using assms by (cases m) auto

lemma rbind_assoc: "rbind (rbind m f) g = rbind m (\<lambda>x. rbind (f x) g)"
  by (cases m) auto

lemma rbind_cong [fundef_cong]:
  "m = m' \<Longrightarrow> (\<And>x. m' = Inr x \<Longrightarrow> f x = f' x) \<Longrightarrow> rbind m f = rbind m' f'"
  by (cases m') auto

lemma c_assert_eq_Inr [simp, res_simps]: "c_assert b = Inr u \<longleftrightarrow> b"
  by (simp add: c_assert_def)

lemma c_assert_True [simp, res_simps]: "c_assert True = Inr ()"
  by (simp add: c_assert_def)

lemma c_assert_False [simp, res_simps]: "c_assert False = Inl Assert_failed"
  by (simp add: c_assert_def)

lemma rbind_c_assert: "rbind (c_assert b) f = (if b then f () else Inl Assert_failed)"
  by (simp add: c_assert_def)

section \<open>C integers\<close>

text \<open>
  A C \<open>int\<close> or \<open>long\<close> local is an \<open>int\<close> of HOL; where the code stores it in a field of
  fixed width, or converts it, the conversion is written out. \<open>c_int\<close> is the conversion of
  an integer to the 32-bit \<open>int\<close> of the platform (two's complement, as gcc defines it),
  \<open>c_long\<close> to a signed 64-bit integer and \<open>c_ulong\<close> to \<open>size_t\<close>.
\<close>

type_synonym u8 = "8 word"
type_synonym u32 = "32 word"
type_synonym u64 = "64 word"
type_synonym s32 = "32 word"
type_synonym s64 = "64 word"

definition c_int :: "int \<Rightarrow> int" where
  "c_int x = signed_take_bit 31 x"

definition c_long :: "int \<Rightarrow> int" where
  "c_long x = signed_take_bit 63 x"

definition c_ulong :: "int \<Rightarrow> nat" where
  "c_ulong x = nat (x mod 2 ^ 64)"

named_theorems cint_simps \<open>conversions between C integer types that change nothing\<close>

lemma c_int_id [cint_simps]: "- (2 ^ 31) \<le> x \<Longrightarrow> x < 2 ^ 31 \<Longrightarrow> c_int x = x"
  by (simp add: c_int_def signed_take_bit_int_eq_self)

lemma c_long_id [cint_simps]: "- (2 ^ 63) \<le> x \<Longrightarrow> x < 2 ^ 63 \<Longrightarrow> c_long x = x"
  by (simp add: c_long_def signed_take_bit_int_eq_self)

lemma c_ulong_id [cint_simps]: "0 \<le> x \<Longrightarrow> x < 2 ^ 64 \<Longrightarrow> c_ulong x = nat x"
  by (simp add: c_ulong_def)

lemma c_int_range: "- (2 ^ 31) \<le> c_int x \<and> c_int x < 2 ^ 31"
  using signed_take_bit_int_greater_eq_minus_exp [of 31 x] signed_take_bit_int_less_exp [of 31 x]
  by (simp add: c_int_def)

lemma sint_of_c_int: "sint (word_of_int x :: 32 word) = c_int x"
  by (simp add: c_int_def sint_sbintrunc')

lemma sint_of_c_long: "sint (word_of_int x :: 64 word) = c_long x"
  by (simp add: c_long_def sint_sbintrunc')

lemma c_int_sint [simp]: "c_int (sint (w :: 32 word)) = sint w"
  by (simp flip: sint_of_c_int)

lemma sint32_of_int [cint_simps]:
  "- (2 ^ 31) \<le> x \<Longrightarrow> x < 2 ^ 31 \<Longrightarrow> sint (word_of_int x :: 32 word) = x"
  by (simp add: sint_of_c_int c_int_id)

lemma sint64_of_int [cint_simps]:
  "- (2 ^ 63) \<le> x \<Longrightarrow> x < 2 ^ 63 \<Longrightarrow> sint (word_of_int x :: 64 word) = x"
  by (simp add: sint_of_c_long c_long_id)

lemma sint32_range: "- (2 ^ 31) \<le> sint (w :: 32 word) \<and> sint w < 2 ^ 31"
  using sint_greater_eq [of w] sint_less [of w] by simp

lemma sint64_range: "- (2 ^ 63) \<le> sint (w :: 64 word) \<and> sint w < 2 ^ 63"
  using sint_greater_eq [of w] sint_less [of w] by simp

text \<open>C's division truncates; on operands that are not negative it is HOL's.\<close>

lemma sdiv_nonneg [cint_simps]: "0 \<le> (a::int) \<Longrightarrow> 0 < b \<Longrightarrow> a sdiv b = a div b"
  by (cases "a = 0") (auto simp: signed_divide_int_def sgn_1_pos)

lemma smod_nonneg [cint_simps]: "0 \<le> (a::int) \<Longrightarrow> 0 < b \<Longrightarrow> a smod b = a mod b"
  by (cases "a = 0") (auto simp: signed_modulo_int_def sgn_1_pos)

abbreviation (input) ENOENT :: int where "ENOENT \<equiv> 2"
abbreviation (input) ENOMEM :: int where "ENOMEM \<equiv> 12"
abbreviation (input) EEXIST :: int where "EEXIST \<equiv> 17"
abbreviation (input) ENOTDIR :: int where "ENOTDIR \<equiv> 20"
abbreviation (input) EISDIR :: int where "EISDIR \<equiv> 21"
abbreviation (input) EINVAL :: int where "EINVAL \<equiv> 22"
abbreviation (input) EFBIG :: int where "EFBIG \<equiv> 27"
abbreviation (input) ENOSPC :: int where "ENOSPC \<equiv> 28"
abbreviation (input) ENOTEMPTY :: int where "ENOTEMPTY \<equiv> 39"

section \<open>Buffers\<close>

text \<open>
  A buffer is the list of its bytes. \<open>bslice off n b\<close> is the \<open>n\<close> bytes from \<open>off\<close>;
  \<open>blit b off src\<close> is the buffer after \<open>memcpy(b + off, src, length src)\<close>, and
  \<open>memcpy b off src\<close> is the same with the bounds of the destination checked.
\<close>

definition bslice :: "nat \<Rightarrow> nat \<Rightarrow> 'a list \<Rightarrow> 'a list" where
  "bslice off n xs = take n (drop off xs)"

definition blit :: "'a list \<Rightarrow> nat \<Rightarrow> 'a list \<Rightarrow> 'a list" where
  "blit dst off src = take off dst @ src @ drop (off + length src) dst"

definition memcpy :: "'a list \<Rightarrow> int \<Rightarrow> 'a list \<Rightarrow> 'a list res" where
  "memcpy dst off src =
     (if 0 \<le> off \<and> nat off + length src \<le> length dst then Inr (blit dst (nat off) src)
      else Inl Bad_access)"

named_theorems buf_simps \<open>slices of blitted buffers\<close>

lemma length_bslice [simp]: "length (bslice off n xs) = min n (length xs - off)"
  by (simp add: bslice_def)

lemma length_blit [simp]: "off + length src \<le> length dst \<Longrightarrow> length (blit dst off src) = length dst"
  by (simp add: blit_def)

lemma nth_bslice: "i < n \<Longrightarrow> off + i < length xs \<Longrightarrow> bslice off n xs ! i = xs ! (off + i)"
  by (simp add: bslice_def)

lemma nth_blit:
  assumes "off + length src \<le> length dst" "i < length dst"
  shows "blit dst off src ! i =
    (if off \<le> i \<and> i < off + length src then src ! (i - off) else dst ! i)"
  using assms by (auto simp: blit_def nth_append min_def)

lemma bslice_blit_same [buf_simps]:
  "off + length src \<le> length dst \<Longrightarrow> n = length src \<Longrightarrow> bslice off n (blit dst off src) = src"
  by (simp add: bslice_def blit_def min_def)

lemma bslice_eqI:
  assumes "length xs = length ys" "\<And>i. off \<le> i \<Longrightarrow> i < off + n \<Longrightarrow> i < length xs \<Longrightarrow> xs ! i = ys ! i"
  shows "bslice off n xs = bslice off n ys"
proof (rule nth_equalityI)
  show "length (bslice off n xs) = length (bslice off n ys)" using assms(1) by simp
  fix i assume "i < length (bslice off n xs)"
  then have "i < n" "off + i < length xs" by auto
  then show "bslice off n xs ! i = bslice off n ys ! i" using assms by (simp add: nth_bslice)
qed

lemma bslice_blit_other [buf_simps]:
  assumes "off + length src \<le> length dst" "off' + n \<le> off \<or> off + length src \<le> off'"
  shows "bslice off' n (blit dst off src) = bslice off' n dst"
  using assms by (intro bslice_eqI) (auto simp: nth_blit)

lemma cell_disjoint: "(i :: nat) \<noteq> j \<Longrightarrow> w * j + w \<le> w * i \<or> w * i + w \<le> w * j"
  using mult_le_mono2 [of "Suc i" j w] mult_le_mono2 [of "Suc j" i w] by (cases "i < j") auto

lemma bslice_all [simp]: "n = length xs \<Longrightarrow> bslice 0 n xs = xs"
  by (simp add: bslice_def)

lemma bslice_replicate: "off + n \<le> m \<Longrightarrow> bslice off n (replicate m x) = replicate n x"
  by (simp add: bslice_def min_def)

lemma blit_bslice_id: "off + n \<le> length dst \<Longrightarrow> blit dst off (bslice off n dst) = dst"
  by (rule nth_equalityI) (auto simp: nth_blit nth_bslice)

lemma blit_all [simp]: "length src = length dst \<Longrightarrow> blit dst 0 src = src"
  by (simp add: blit_def)

lemma memcpy_ok: "nat off + length src \<le> length dst \<Longrightarrow> 0 \<le> off \<Longrightarrow> memcpy dst off src = Inr (blit dst (nat off) src)"
  by (simp add: memcpy_def)

lemma memcpy_eq_Inr:
  "memcpy dst off src = Inr b \<longleftrightarrow>
     0 \<le> off \<and> nat off + length src \<le> length dst \<and> b = blit dst (nat off) src"
  by (auto simp: memcpy_def)

section \<open>Little-endian integers\<close>

definition le32 :: "32 word \<Rightarrow> u8 list" where
  "le32 w = [ucast w, ucast (drop_bit 8 w), ucast (drop_bit 16 w), ucast (drop_bit 24 w)]"

definition un_le32 :: "u8 list \<Rightarrow> 32 word" where
  "un_le32 bs = ucast (bs ! 0) OR push_bit 8 (ucast (bs ! 1)) OR push_bit 16 (ucast (bs ! 2))
     OR push_bit 24 (ucast (bs ! 3))"

definition le64 :: "64 word \<Rightarrow> u8 list" where
  "le64 w = le32 (ucast w) @ le32 (ucast (drop_bit 32 w))"

definition un_le64 :: "u8 list \<Rightarrow> 64 word" where
  "un_le64 bs = ucast (un_le32 (bslice 0 4 bs)) OR push_bit 32 (ucast (un_le32 (bslice 4 4 bs)))"

lemma length_le32 [simp]: "length (le32 w) = 4"
  by (simp add: le32_def)

lemma length_le64 [simp]: "length (le64 w) = 8"
  by (simp add: le64_def)

lemma un_le32_le32 [simp]: "un_le32 (le32 w) = w"
proof (rule bit_word_eqI)
  fix n assume "n < LENGTH(32)"
  then consider "n < 8" | "8 \<le> n \<and> n < 16" | "16 \<le> n \<and> n < 24" | "24 \<le> n \<and> n < 32"
    by force
  then show "bit (un_le32 (le32 w)) n = bit w n"
    by cases (simp_all add: un_le32_def le32_def bit_or_iff
        bit_push_bit_iff bit_ucast_iff bit_drop_bit_eq less_diff_conv2)
qed

lemma un_le64_le64 [simp]: "un_le64 (le64 w) = w"
proof -
  have "bslice 0 4 (le64 w) = le32 (ucast w)" and "bslice 4 4 (le64 w) = le32 (ucast (drop_bit 32 w))"
    by (simp_all add: bslice_def le64_def)
  then show ?thesis
    by (intro bit_word_eqI) (auto simp: un_le64_def bit_simps)
qed

lemma un_le32_zero: "un_le32 (replicate 4 0) = 0"
  by (simp add: un_le32_def eval_nat_numeral)

end
