(* ===== verification/C_String.thy ===== *)
theory C_String
  imports C_Prelude
begin

unbundle bit_operations_syntax

text \<open>
  The C strings the commands of the file system handle, and what they use of the standard library on
  them. A string of the program is the list of its bytes before the NUL, and has no NUL in it;
  a buffer that should hold one is the list of all its bytes. Reading on past the end of a buffer is the fault
  \<open>Bad_access\<close>. \<open>strtoll\<close> and \<open>strtoull\<close> are the functions of the C library in base 10.
\<close>

section \<open>Reading, comparing and copying\<close>

fun c_str :: "u8 list \<Rightarrow> u8 list res" where
  "c_str [] = Inl Bad_access"
| "c_str (x # xs) = (if x = 0 then Inr [] else rbind (c_str xs) (\<lambda>s. Inr (x # s)))"

text \<open>\<open>strcmp(buf, s) == 0\<close> for a buffer and a string of the program: it reads up to the first difference.\<close>

fun c_streq :: "u8 list \<Rightarrow> u8 list \<Rightarrow> bool res" where
  "c_streq [] s = Inl Bad_access"
| "c_streq (x # xs) [] = Inr (x = 0)"
| "c_streq (x # xs) (y # ys) = (if x = y then c_streq xs ys else Inr False)"

definition lit :: "string \<Rightarrow> u8 list" where
  "lit s = map of_char s"

definition c_string :: "u8 list \<Rightarrow> bool" where
  "c_string s \<longleftrightarrow> 0 \<notin> set s"

definition dot :: "u8 list" where "dot = [46]"
definition dotdot :: "u8 list" where "dotdot = [46, 46]"

lemma c_str_nul [simp]: "c_string s \<Longrightarrow> c_str (s @ 0 # r) = Inr s"
  by (induction s) (auto simp: c_string_def)

lemma c_streq_nul [simp]:
  assumes "c_string s" "c_string t" shows "c_streq (s @ 0 # r) t = Inr (s = t)"
  using assms
proof (induction s arbitrary: t)
  case Nil
  then show ?case by (cases t) (auto simp: c_string_def)
next
  case (Cons x s)
  then show ?case by (cases t) (auto simp: c_string_def)
qed

lemma c_string_dots [simp]: "c_string dot" "c_string dotdot" "dot \<noteq> dotdot" "dotdot \<noteq> dot"
  "length dot = 1" "length dotdot = 2"
  by (simp_all add: c_string_def dot_def dotdot_def)

section \<open>Numbers\<close>

fun dec_nat :: "nat \<Rightarrow> u8 list" where
  "dec_nat n = (if n < 10 then [48 + of_nat n] else dec_nat (n div 10) @ [48 + of_nat (n mod 10)])"

declare dec_nat.simps [simp del]

definition dec :: "int \<Rightarrow> u8 list" where
  "dec i = (if i < 0 then 45 # dec_nat (nat (- i)) else dec_nat (nat i))"

definition is_digit :: "u8 \<Rightarrow> bool" where "is_digit c \<longleftrightarrow> 48 \<le> c \<and> c \<le> 57"
definition is_space :: "u8 \<Rightarrow> bool" where "is_space c \<longleftrightarrow> c = 32 \<or> 9 \<le> c \<and> c \<le> 13"

definition digits_value :: "u8 list \<Rightarrow> nat" where
  "digits_value ds = foldl (\<lambda>n d. 10 * n + unat (d - 48)) 0 ds"

text \<open>The sign, the value of the digits, and where the scan of \<open>strtoll\<close> and \<open>strtoull\<close> ends.\<close>

definition scan_number :: "u8 list \<Rightarrow> bool \<times> nat \<times> u8 list" where
  "scan_number str =
     (let s = dropWhile is_space str;
          negative = (s \<noteq> [] \<and> hd s = 45);
          t = (if s \<noteq> [] \<and> (hd s = 43 \<or> hd s = 45) then tl s else s)
      in (negative, digits_value (takeWhile is_digit t),
          if takeWhile is_digit t = [] then str else dropWhile is_digit t))"

definition strtoll :: "u8 list \<Rightarrow> int \<times> u8 list" where
  "strtoll str =
     (case scan_number str of (negative, v, end) \<Rightarrow>
       (if negative then max (- (2 ^ 63)) (- int v) else min (2 ^ 63 - 1) (int v), end))"

definition strtoull :: "u8 list \<Rightarrow> nat \<times> u8 list" where
  "strtoull str =
     (case scan_number str of (negative, v, end) \<Rightarrow>
       (if 2 ^ 64 \<le> v then 2 ^ 64 - 1 else if negative then c_ulong (- int v) else v, end))"

text \<open>\<open>str_to_offset\<close> and \<open>str_to_size\<close> of fs/common.c.\<close>

definition str_to_offset :: "u8 list \<Rightarrow> int \<times> int option" where
  "str_to_offset str =
     (case strtoll str of (val, end) \<Rightarrow> if 0 < length end then (- EINVAL, None) else (0, Some val))"

definition str_to_size :: "u8 list \<Rightarrow> int \<times> nat option" where
  "str_to_size str =
     (case strtoull str of (val, end) \<Rightarrow> if 0 < length end then (- EINVAL, None) else (0, Some val))"

section \<open>Decimal numbers read back\<close>

lemma is_digit_dec_nat: "\<forall>c\<in>set (dec_nat n). is_digit c"
proof (induction n rule: dec_nat.induct)
  case (1 n)
  have d: "is_digit (48 + of_nat k)" if "k < 10" for k
    using that by (simp add: is_digit_def word_le_nat_alt unat_word_ariths unat_of_nat)
  show ?case using 1 d [of "n mod 10"] d [of n] by (subst dec_nat.simps) auto
qed

lemma digits_value_append: "digits_value (ds @ [d]) = 10 * digits_value ds + unat (d - 48)"
  by (simp add: digits_value_def)

lemma digits_value_dec_nat [simp]: "digits_value (dec_nat n) = n"
proof (induction n rule: dec_nat.induct)
  case (1 n)
  have d: "unat (48 + of_nat k - 48 :: u8) = k" if "k < 10" for k
    using that by (simp add: unat_of_nat)
  show ?case
  proof (cases "n < 10")
    case True
    then show ?thesis using d [of n] by (subst dec_nat.simps) (simp add: digits_value_def)
  next
    case False
    then show ?thesis using 1 d [of "n mod 10"] by (subst dec_nat.simps) (simp add: digits_value_append)
  qed
qed

lemma dec_nat_nonempty [simp]: "dec_nat n \<noteq> []"
  by (subst dec_nat.simps) simp

lemma scan_number_dec: "scan_number (dec_nat n) = (False, n, [])"
proof -
  obtain c cs where c: "dec_nat n = c # cs" by (cases "dec_nat n") auto
  then have "is_digit c" using is_digit_dec_nat [of n] by simp
  then have "\<not> is_space c" "c \<noteq> 43" "c \<noteq> 45"
    by (auto simp: is_digit_def is_space_def word_le_nat_alt)
  moreover have "takeWhile is_digit (dec_nat n) = dec_nat n" "dropWhile is_digit (dec_nat n) = []"
    using is_digit_dec_nat [of n] by (simp_all add: takeWhile_eq_all_conv)
  ultimately show ?thesis using c digits_value_dec_nat [of n] by (simp add: scan_number_def)
qed

lemma strto_dec:
  "n < 2 ^ 63 \<Longrightarrow> str_to_offset (dec_nat n) = (0, Some (int n))"
  "n < 2 ^ 64 \<Longrightarrow> str_to_size (dec_nat n) = (0, Some n)"
  by (simp_all add: str_to_offset_def str_to_size_def strtoll_def strtoull_def scan_number_dec)

text \<open>Numbers on the command line: the decimal form of a number that is in range is read back as that number by
  \<open>str_to_offset\<close> and \<open>str_to_size\<close>.\<close>

theorem str_to_number_roundtrip:
  assumes "n < 2 ^ 63"
  shows "str_to_offset (dec (int n)) = (0, Some (int n)) \<and> str_to_size (dec (int n)) = (0, Some n)"
  using assms strto_dec [of n] by (simp add: dec_def)

theorem str_to_number_roundtrip_witness:
  "str_to_offset (dec 1205) = (0, Some 1205) \<and> str_to_size (dec 1205) = (0, Some 1205)"
  using str_to_number_roundtrip [of 1205] by simp

end
