(* ===== verification/Chains.thy ===== *)
theory Chains
  imports C_Prelude
begin

text \<open>
  The interface of the linked lists of fs/list.h, for both of its kinds: a heap holds several
  lists, each belonging to a head; \<open>add\<close> puts a node that is on no list at the front of one,
  \<open>del\<close> takes a node out of the list it is on without being told which that is. \<open>rep h K t\<close>
  says that the heap \<open>h\<close> holds the list \<open>t k\<close> for every head \<open>k\<close> in \<open>K\<close>. The clients' lemmas
  (undoing an insertion, moving a node, emptying a list) follow from the two laws.
\<close>

locale chains =
  fixes rep :: "'h \<Rightarrow> 'k set \<Rightarrow> ('k \<Rightarrow> nat list) \<Rightarrow> bool"
    and fresh :: "nat \<Rightarrow> 'k set \<Rightarrow> ('k \<Rightarrow> nat list) \<Rightarrow> bool"
    and add :: "'h \<Rightarrow> nat \<Rightarrow> 'k \<Rightarrow> 'h res"
    and del :: "'h \<Rightarrow> nat \<Rightarrow> 'h res"
  assumes add_front: "rep h K t \<Longrightarrow> k \<in> K \<Longrightarrow> fresh n K t \<Longrightarrow>
      \<exists>h'. add h n k = Inr h' \<and> rep h' K (t(k := n # t k))"
    and del_node: "rep h K t \<Longrightarrow> k \<in> K \<Longrightarrow> t k = as @ n # bs \<Longrightarrow>
      \<exists>h'. del h n = Inr h' \<and> rep h' K (t(k := as @ bs))"
    and fresh_del: "rep h K t \<Longrightarrow> k \<in> K \<Longrightarrow> t k = as @ n # bs \<Longrightarrow> fresh n K (t(k := as @ bs))"
    and fresh_add: "fresh m K t \<Longrightarrow> m \<noteq> n \<Longrightarrow> k \<in> K \<Longrightarrow> fresh m K (t(k := n # t k))"
begin

lemma add_del:
  assumes "rep h K t" "k \<in> K" "fresh n K t"
  shows "\<exists>h'. rbind (add h n k) (\<lambda>h. del h n) = Inr h' \<and> rep h' K t"
proof -
  obtain h1 where a: "add h n k = Inr h1" "rep h1 K (t(k := n # t k))"
    using add_front [OF assms] by blast
  have "\<exists>h'. del h1 n = Inr h' \<and> rep h' K ((t(k := n # t k))(k := [] @ t k))"
    by (rule del_node [OF a(2) assms(2)]) simp
  then show ?thesis using a(1) by simp
qed

lemma move:
  assumes "rep h K t" "k \<in> K" "j \<in> K" "k \<noteq> j" "t k = as @ n # bs"
  shows "\<exists>h'. rbind (del h n) (\<lambda>h. add h n j) = Inr h' \<and> rep h' K (t(k := as @ bs, j := n # t j))"
proof -
  obtain h1 where d: "del h n = Inr h1" "rep h1 K (t(k := as @ bs))"
    using del_node [OF assms(1,2,5)] by blast
  have "\<exists>h'. add h1 n j = Inr h' \<and> rep h' K ((t(k := as @ bs))(j := n # (t(k := as @ bs)) j))"
    by (rule add_front [OF d(2) assms(3) fresh_del [OF assms(1,2,5)]])
  then show ?thesis using d(1) assms(4) by simp
qed

fun del_all :: "'h \<Rightarrow> nat list \<Rightarrow> 'h res" where
  "del_all h [] = Inr h"
| "del_all h (n # ns) = rbind (del h n) (\<lambda>h. del_all h ns)"

lemma del_all_empty:
  assumes "rep h K t" "k \<in> K"
  shows "\<exists>h'. del_all h (t k) = Inr h' \<and> rep h' K (t(k := []))"
  using assms
proof (induction "t k" arbitrary: h t)
  case Nil
  then show ?case by (simp add: fun_upd_idem)
next
  case (Cons n ns)
  obtain h1 where d: "del h n = Inr h1" "rep h1 K (t(k := ns))"
    using del_node [OF Cons.prems, of "[]" n ns] Cons.hyps(2) by auto
  have "\<exists>h'. del_all h1 ((t(k := ns)) k) = Inr h' \<and> rep h' K ((t(k := ns))(k := []))"
    using Cons.hyps(1) [of "t(k := ns)" h1] d(2) Cons.prems(2) by simp
  then show ?case using d(1) Cons.hyps(2) [symmetric] by simp
qed

end

end
