(* ===== verification/List_H.thy ===== *)
theory List_H
  imports Chains
begin

text \<open>
  fs/list.h: circular doubly linked lists with a list head (\<open>struct list_head\<close>), lists of nodes with a
  single-pointer head (\<open>struct hlist_head\<close>), and the hash function. A node is its address, a
  nonzero number; 0 is NULL. A heap of nodes is a record of functions from
  addresses, one per pointer field, and following NULL is the fault \<open>Bad_access\<close>;
  \<open>list_entry\<close> and \<open>hlist_entry\<close> are the identity, since a structure and the node inside it
  have the same address here. A \<open>pprev\<close> pointer is either a head's \<open>first\<close> field or a node's
  \<open>next\<close> field. Lemmas: every operation turns the lists that a heap represents into the expected ones
  (\<open>rings\<close> and \<open>hrep\<close>), and leaves every other list of the heap as it was.
\<close>

section \<open>Circular lists\<close>

record list_heap =
  nxt :: "nat \<Rightarrow> nat"
  prv :: "nat \<Rightarrow> nat"

definition get_next :: "list_heap \<Rightarrow> nat \<Rightarrow> nat res" where
  "get_next h a = (if a = 0 then Inl Bad_access else Inr (nxt h a))"

definition get_prev :: "list_heap \<Rightarrow> nat \<Rightarrow> nat res" where
  "get_prev h a = (if a = 0 then Inl Bad_access else Inr (prv h a))"

definition set_next :: "list_heap \<Rightarrow> nat \<Rightarrow> nat \<Rightarrow> list_heap res" where
  "set_next h a v = (if a = 0 then Inl Bad_access else Inr (h\<lparr>nxt := (nxt h)(a := v)\<rparr>))"

definition set_prev :: "list_heap \<Rightarrow> nat \<Rightarrow> nat \<Rightarrow> list_heap res" where
  "set_prev h a v = (if a = 0 then Inl Bad_access else Inr (h\<lparr>prv := (prv h)(a := v)\<rparr>))"

lemmas list_heap_access = get_next_def get_prev_def set_next_def set_prev_def

definition INIT_LIST_HEAD :: "list_heap \<Rightarrow> nat \<Rightarrow> list_heap res" where
  "INIT_LIST_HEAD h l = rbind (set_next h l l) (\<lambda>h. set_prev h l l)"

definition list_add_between :: "list_heap \<Rightarrow> nat \<Rightarrow> nat \<Rightarrow> nat \<Rightarrow> list_heap res" where
  "list_add_between h n p q =
     rbind (set_prev h q n) (\<lambda>h.
     rbind (set_next h n q) (\<lambda>h.
     rbind (set_prev h n p) (\<lambda>h.
     set_next h p n)))"

definition list_add :: "list_heap \<Rightarrow> nat \<Rightarrow> nat \<Rightarrow> list_heap res" where
  "list_add h n head = rbind (get_next h head) (\<lambda>q. list_add_between h n head q)"

definition list_add_tail :: "list_heap \<Rightarrow> nat \<Rightarrow> nat \<Rightarrow> list_heap res" where
  "list_add_tail h n head = rbind (get_prev h head) (\<lambda>p. list_add_between h n p head)"

definition list_del_between :: "list_heap \<Rightarrow> nat \<Rightarrow> nat \<Rightarrow> list_heap res" where
  "list_del_between h p q = rbind (set_prev h q p) (\<lambda>h. set_next h p q)"

definition list_del :: "list_heap \<Rightarrow> nat \<Rightarrow> list_heap res" where
  "list_del h e =
     rbind (get_prev h e) (\<lambda>p.
     rbind (c_assert (p \<noteq> 0)) (\<lambda>_.
     rbind (get_next h e) (\<lambda>q.
     rbind (c_assert (q \<noteq> 0)) (\<lambda>_.
     rbind (list_del_between h p q) (\<lambda>h.
     rbind (set_prev h e 0) (\<lambda>h.
     set_next h e 0))))))"

definition list_replace :: "list_heap \<Rightarrow> nat \<Rightarrow> nat \<Rightarrow> list_heap res" where
  "list_replace h old new =
     rbind (get_next h old) (\<lambda>q.
     rbind (set_next h new q) (\<lambda>h.
     rbind (set_prev h q new) (\<lambda>h.
     rbind (get_prev h old) (\<lambda>p.
     rbind (set_prev h new p) (\<lambda>h.
     set_next h p new)))))"

definition list_is_last :: "list_heap \<Rightarrow> nat \<Rightarrow> nat \<Rightarrow> bool res" where
  "list_is_last h l head = rbind (get_next h l) (\<lambda>q. Inr (q = head))"

definition list_empty :: "list_heap \<Rightarrow> nat \<Rightarrow> bool res" where
  "list_empty h head = rbind (get_next h head) (\<lambda>q. Inr (q = head))"

definition list_is_singular :: "list_heap \<Rightarrow> nat \<Rightarrow> bool res" where
  "list_is_singular h head =
     rbind (list_empty h head) (\<lambda>e.
     if e then Inr False
     else rbind (get_next h head) (\<lambda>q. rbind (get_prev h head) (\<lambda>p. Inr (q = p))))"

definition list_cut_position_inner :: "list_heap \<Rightarrow> nat \<Rightarrow> nat \<Rightarrow> nat \<Rightarrow> list_heap res" where
  "list_cut_position_inner h l head e =
     rbind (get_next h e) (\<lambda>new_first.
     rbind (get_next h head) (\<lambda>first.
     rbind (set_next h l first) (\<lambda>h.
     rbind (set_prev h first l) (\<lambda>h.
     rbind (set_prev h l e) (\<lambda>h.
     rbind (set_next h e l) (\<lambda>h.
     rbind (set_next h head new_first) (\<lambda>h.
     set_prev h new_first head)))))))"

definition list_cut_position :: "list_heap \<Rightarrow> nat \<Rightarrow> nat \<Rightarrow> nat \<Rightarrow> list_heap res" where
  "list_cut_position h l head e =
     rbind (list_empty h head) (\<lambda>empty.
     if empty then Inr h
     else rbind (list_is_singular h head) (\<lambda>singular.
       rbind (get_next h head) (\<lambda>first.
       if singular \<and> first \<noteq> e \<and> head \<noteq> e then Inr h
       else if e = head then INIT_LIST_HEAD h l
       else list_cut_position_inner h l head e)))"

definition list_splice_between :: "list_heap \<Rightarrow> nat \<Rightarrow> nat \<Rightarrow> nat \<Rightarrow> list_heap res" where
  "list_splice_between h l p q =
     rbind (get_next h l) (\<lambda>first.
     rbind (get_prev h l) (\<lambda>last.
     rbind (set_prev h first p) (\<lambda>h.
     rbind (set_next h p first) (\<lambda>h.
     rbind (set_next h last q) (\<lambda>h.
     set_prev h q last)))))"

definition list_splice :: "list_heap \<Rightarrow> nat \<Rightarrow> nat \<Rightarrow> list_heap res" where
  "list_splice h l head =
     rbind (list_empty h l) (\<lambda>e.
     if e then Inr h else rbind (get_next h head) (\<lambda>q. list_splice_between h l head q))"

definition list_splice_tail :: "list_heap \<Rightarrow> nat \<Rightarrow> nat \<Rightarrow> list_heap res" where
  "list_splice_tail h l head =
     rbind (list_empty h l) (\<lambda>e.
     if e then Inr h else rbind (get_prev h head) (\<lambda>p. list_splice_between h l p head))"

text \<open>
  The loops: the nodes that \<open>list_for_each_entry\<close> visits from \<open>pos\<close> on, and what its safe variant computes
  when the body is a function that may take the current node off the list.
\<close>

fun list_walk :: "nat \<Rightarrow> list_heap \<Rightarrow> nat \<Rightarrow> nat \<Rightarrow> nat list res" where
  "list_walk 0 h pos head = Inl Out_of_fuel"
| "list_walk (Suc fuel) h pos head =
     (if pos = head then Inr []
      else rbind (get_next h pos) (\<lambda>q.
        rbind (list_walk fuel h q head) (\<lambda>ns. Inr (pos # ns))))"

definition list_for_each_entry :: "nat \<Rightarrow> list_heap \<Rightarrow> nat \<Rightarrow> nat list res" where
  "list_for_each_entry fuel h head = rbind (get_next h head) (\<lambda>pos. list_walk fuel h pos head)"

fun list_walk_safe :: "nat \<Rightarrow> (list_heap \<Rightarrow> nat \<Rightarrow> list_heap res) \<Rightarrow> list_heap \<Rightarrow> nat \<Rightarrow> nat \<Rightarrow> nat \<Rightarrow> list_heap res" where
  "list_walk_safe 0 body h pos n head = Inl Out_of_fuel"
| "list_walk_safe (Suc fuel) body h pos n head =
     (if pos = head then Inr h
      else rbind (body h pos) (\<lambda>h.
        rbind (get_next h n) (\<lambda>n'. list_walk_safe fuel body h n n' head)))"

definition list_for_each_entry_safe ::
  "nat \<Rightarrow> (list_heap \<Rightarrow> nat \<Rightarrow> list_heap res) \<Rightarrow> list_heap \<Rightarrow> nat \<Rightarrow> list_heap res" where
  "list_for_each_entry_safe fuel body h head =
     rbind (get_next h head) (\<lambda>pos. rbind (get_next h pos) (\<lambda>n. list_walk_safe fuel body h pos n head))"

section \<open>Lists with a single-pointer head\<close>

datatype hptr = HNull | HFirst nat | HNext nat

record hlist_heap =
  hfirst :: "nat \<Rightarrow> nat"
  hnext :: "nat \<Rightarrow> nat"
  hpprev :: "nat \<Rightarrow> hptr"

fun hload :: "hlist_heap \<Rightarrow> hptr \<Rightarrow> nat res" where
  "hload h HNull = Inl Bad_access"
| "hload h (HFirst k) = Inr (hfirst h k)"
| "hload h (HNext n) = (if n = 0 then Inl Bad_access else Inr (hnext h n))"

fun hstore :: "hlist_heap \<Rightarrow> hptr \<Rightarrow> nat \<Rightarrow> hlist_heap res" where
  "hstore h HNull v = Inl Bad_access"
| "hstore h (HFirst k) v = Inr (h\<lparr>hfirst := (hfirst h)(k := v)\<rparr>)"
| "hstore h (HNext n) v = (if n = 0 then Inl Bad_access else Inr (h\<lparr>hnext := (hnext h)(n := v)\<rparr>))"

definition get_pprev :: "hlist_heap \<Rightarrow> nat \<Rightarrow> hptr res" where
  "get_pprev h n = (if n = 0 then Inl Bad_access else Inr (hpprev h n))"

definition set_pprev :: "hlist_heap \<Rightarrow> nat \<Rightarrow> hptr \<Rightarrow> hlist_heap res" where
  "set_pprev h n p = (if n = 0 then Inl Bad_access else Inr (h\<lparr>hpprev := (hpprev h)(n := p)\<rparr>))"

definition INIT_HLIST_HEAD :: "hlist_heap \<Rightarrow> nat \<Rightarrow> hlist_heap" where
  "INIT_HLIST_HEAD h k = h\<lparr>hfirst := (hfirst h)(k := 0)\<rparr>"

definition INIT_HLIST_NODE :: "hlist_heap \<Rightarrow> nat \<Rightarrow> hlist_heap res" where
  "INIT_HLIST_NODE h n = rbind (hstore h (HNext n) 0) (\<lambda>h. set_pprev h n HNull)"

definition hlist_empty :: "hlist_heap \<Rightarrow> nat \<Rightarrow> bool" where
  "hlist_empty h k \<longleftrightarrow> hfirst h k = 0"

definition hlist_add_head :: "hlist_heap \<Rightarrow> nat \<Rightarrow> nat \<Rightarrow> hlist_heap res" where
  "hlist_add_head h n k =
     rbind (hload h (HFirst k)) (\<lambda>first.
     rbind (hstore h (HNext n) first) (\<lambda>h.
     rbind (if first \<noteq> 0 then set_pprev h first (HNext n) else Inr h) (\<lambda>h.
     rbind (hstore h (HFirst k) n) (\<lambda>h.
     set_pprev h n (HFirst k)))))"

definition hlist_add_before :: "hlist_heap \<Rightarrow> nat \<Rightarrow> nat \<Rightarrow> hlist_heap res" where
  "hlist_add_before h n q =
     rbind (get_pprev h q) (\<lambda>pp.
     rbind (set_pprev h n pp) (\<lambda>h.
     rbind (hstore h (HNext n) q) (\<lambda>h.
     rbind (set_pprev h q (HNext n)) (\<lambda>h.
     rbind (get_pprev h n) (\<lambda>pp. hstore h pp n)))))"

definition hlist_add_after :: "hlist_heap \<Rightarrow> nat \<Rightarrow> nat \<Rightarrow> hlist_heap res" where
  "hlist_add_after h n q =
     rbind (hload h (HNext n)) (\<lambda>r.
     rbind (hstore h (HNext q) r) (\<lambda>h.
     rbind (hstore h (HNext n) q) (\<lambda>h.
     rbind (set_pprev h q (HNext n)) (\<lambda>h.
     rbind (hload h (HNext q)) (\<lambda>r.
     if r \<noteq> 0 then set_pprev h r (HNext q) else Inr h)))))"

definition hlist_del :: "hlist_heap \<Rightarrow> nat \<Rightarrow> hlist_heap res" where
  "hlist_del h n =
     rbind (hload h (HNext n)) (\<lambda>q.
     rbind (get_pprev h n) (\<lambda>pp.
     rbind (hstore h pp q) (\<lambda>h.
     rbind (if q \<noteq> 0 then set_pprev h q pp else Inr h) (\<lambda>h.
     INIT_HLIST_NODE h n))))"

definition hlist_replace :: "hlist_heap \<Rightarrow> nat \<Rightarrow> nat \<Rightarrow> hlist_heap res" where
  "hlist_replace h old new =
     rbind (hload h (HNext old)) (\<lambda>q.
     rbind (get_pprev h old) (\<lambda>pp.
     rbind (hstore h (HNext new) q) (\<lambda>h.
     rbind (set_pprev h new pp) (\<lambda>h.
     rbind (hstore h pp new) (\<lambda>h.
     if q \<noteq> 0 then set_pprev h q (HNext new) else Inr h)))))"

text \<open>The nodes that \<open>hlist_for_each_entry\<close> visits from \<open>pos\<close> on.\<close>

fun hlist_walk :: "nat \<Rightarrow> hlist_heap \<Rightarrow> nat \<Rightarrow> nat list res" where
  "hlist_walk 0 h pos = Inl Out_of_fuel"
| "hlist_walk (Suc fuel) h pos =
     (if pos = 0 then Inr []
      else rbind (hload h (HNext pos)) (\<lambda>q.
        rbind (hlist_walk fuel h q) (\<lambda>ns. Inr (pos # ns))))"

definition hlist_for_each_entry :: "nat \<Rightarrow> hlist_heap \<Rightarrow> nat \<Rightarrow> nat list res" where
  "hlist_for_each_entry fuel h k = rbind (hload h (HFirst k)) (\<lambda>pos. hlist_walk fuel h pos)"

definition hash_int :: "u32 \<Rightarrow> nat \<Rightarrow> u32" where
  "hash_int val nbits = drop_bit (32 - nbits) (ucast ((ucast val :: 64 word) * 0x9e370001) :: u32)"

section \<open>Rings\<close>

text \<open>\<open>fwd f xs\<close>: each element of \<open>xs\<close> but the last is mapped by \<open>f\<close> to the one after it.\<close>

fun fwd :: "('a \<Rightarrow> 'a) \<Rightarrow> 'a list \<Rightarrow> bool" where
  "fwd f (x # y # ys) \<longleftrightarrow> f x = y \<and> fwd f (y # ys)"
| "fwd f xs \<longleftrightarrow> True"

lemma fwd_append: "fwd f (xs @ y # ys) \<longleftrightarrow> fwd f (xs @ [y]) \<and> fwd f (y # ys)"
proof (induction xs)
  case (Cons x xs)
  then show ?case by (cases xs) auto
qed simp

lemma fwd_cong: "(\<And>x. x \<in> set (butlast xs) \<Longrightarrow> f x = g x) \<Longrightarrow> fwd f xs = fwd g xs"
  by (induction f xs rule: fwd.induct) auto

lemma fwd_upd [simp]: "a \<notin> set (butlast xs) \<Longrightarrow> fwd (f(a := v)) xs = fwd f xs"
  by (rule fwd_cong) auto

lemma fwd_nth: "fwd f (as @ x # y # bs) \<Longrightarrow> f x = y"
  by (simp add: fwd_append [of f as x "y # bs"])

lemma butlast_snoc_Cons: "butlast (xs @ y # ys) = xs @ butlast (y # ys)"
  by (simp add: butlast_append)

lemma fwd_insert:
  assumes "fwd f (as @ p # q # bs)" "distinct (as @ p # butlast (q # bs))"
    "n \<notin> set (as @ p # butlast (q # bs))"
  shows "fwd (f(n := q, p := n)) (as @ p # n # q # bs)"
  using assms fwd_append [of f as p "q # bs"] fwd_append [of "f(n := q, p := n)" as p "n # q # bs"]
  by auto

lemma fwd_delete:
  assumes "fwd f (as @ p # e # q # bs)" "distinct (as @ p # e # butlast (q # bs))"
  shows "fwd (f(p := q, e := v)) (as @ p # q # bs)"
  using assms fwd_append [of f as p "e # q # bs"] fwd_append [of "f(p := q, e := v)" as p "q # bs"]
  by auto

lemma fwd_splice:
  assumes "fwd f (as @ p # q # bs)" "distinct (as @ p # butlast (q # bs))"
    "fwd f (ys @ [l])" "ys \<noteq> []" "distinct ys" "set ys \<inter> set (as @ p # butlast (q # bs)) = {}"
  shows "fwd (f(p := hd ys, last ys := q)) (as @ p # ys @ q # bs)"
proof -
  obtain y ys' where y: "ys = y # ys'" using assms(4) by (cases ys) auto
  obtain zs z where z: "ys = zs @ [z]" using assms(4) by (cases ys rule: rev_cases) auto
  let ?g = "f(p := hd ys, last ys := q)"
  have 0: "fwd f (as @ [p])" "fwd f (q # bs)" using assms(1) fwd_append [of f as p "q # bs"] by auto
  have 1: "fwd ?g (as @ [p])" 
  proof -
    have "p \<notin> set as" "z \<notin> set as" using assms(2,6) z by auto
    then show ?thesis using 0(1) z by simp
  qed
  have 2: "fwd f (zs @ [z])" using assms(3) z fwd_append [of f zs z "[l]"] by simp
  have 3: "fwd ?g (zs @ [z])" using 2 assms(5,6) z by auto
  have 4: "fwd ?g (q # bs)" using 0 assms(2,6) z by auto
  have 5: "?g p = y" using assms(6) y z by auto
  have 6: "?g z = q" using z by simp
  have "fwd ?g (ys @ q # bs)"
    using 3 4 6 z fwd_append [of ?g zs z "q # bs"] by simp
  then show ?thesis
    using 1 5 y fwd_append [of ?g as p "ys @ q # bs"] by simp
qed

definition ring :: "list_heap \<Rightarrow> nat \<Rightarrow> nat list \<Rightarrow> bool" where
  "ring h k xs \<longleftrightarrow> fwd (nxt h) (k # xs @ [k]) \<and> fwd (prv h) (k # rev xs @ [k])
     \<and> distinct (k # xs) \<and> 0 \<notin> set (k # xs)"

text \<open>The rings of the heads \<open>K\<close>, no two of which share a node.\<close>

definition rings :: "list_heap \<Rightarrow> nat set \<Rightarrow> (nat \<Rightarrow> nat list) \<Rightarrow> bool" where
  "rings h K t \<longleftrightarrow> (\<forall>k\<in>K. ring h k (t k))
     \<and> (\<forall>k\<in>K. \<forall>j\<in>K. k \<noteq> j \<longrightarrow> set (k # t k) \<inter> set (j # t j) = {})"

definition unlinked :: "nat \<Rightarrow> nat set \<Rightarrow> (nat \<Rightarrow> nat list) \<Rightarrow> bool" where
  "unlinked n K t \<longleftrightarrow> n \<noteq> 0 \<and> (\<forall>k\<in>K. n \<notin> set (k # t k))"

lemma ring_nz: "ring h k xs \<Longrightarrow> x \<in> set (k # xs) \<Longrightarrow> x \<noteq> 0"
  by (metis ring_def)

lemma ring_first: "ring h k xs \<Longrightarrow> nxt h k = hd (xs @ [k])"
  by (cases xs) (auto simp: ring_def)

lemma ring_last: "ring h k xs \<Longrightarrow> prv h k = last (k # xs)"
  by (cases xs rule: rev_cases) (auto simp: ring_def)

lemma ring_cong:
  assumes "\<And>x. x \<in> set (k # xs) \<Longrightarrow> nxt h' x = nxt h x" "\<And>x. x \<in> set (k # xs) \<Longrightarrow> prv h' x = prv h x"
  shows "ring h' k xs = ring h k xs"
proof -
  have "fwd (nxt h') (k # xs @ [k]) = fwd (nxt h) (k # xs @ [k])"
    by (rule fwd_cong) (use assms(1) in \<open>auto simp: butlast_append\<close>)
  moreover have "fwd (prv h') (k # rev xs @ [k]) = fwd (prv h) (k # rev xs @ [k])"
    by (rule fwd_cong) (use assms(2) in \<open>auto simp: butlast_append\<close>)
  ultimately show ?thesis by (simp add: ring_def)
qed

text \<open>
  One ring changes, the others do not: what is left to show of an operation is its effect on
  the ring it works on and that it writes only nodes of it and nodes that are on no ring.
\<close>

lemma rings_update:
  assumes "rings h K t" "k \<in> K" "ring h' k ys"
    and "\<And>x j. j \<in> K \<Longrightarrow> j \<noteq> k \<Longrightarrow> x \<in> set (j # t j) \<Longrightarrow> nxt h' x = nxt h x \<and> prv h' x = prv h x"
    and "\<And>x. x \<in> set ys \<Longrightarrow> x \<in> set (t k) \<or> unlinked x K t"
  shows "rings h' K (t(k := ys))"
proof -
  have "ring h' j ((t(k := ys)) j)" if "j \<in> K" for j
  proof (cases "j = k")
    case False
    then show ?thesis using that assms(1,4) ring_cong [of j "t j" h' h] by (auto simp: rings_def)
  qed (use assms(3) in simp)
  moreover have "set (i # (t(k := ys)) i) \<inter> set (j # (t(k := ys)) j) = {}" if "i \<in> K" "j \<in> K" "i \<noteq> j" for i j
  proof -
    have d: "set (i # t i) \<inter> set (j # t j) = {}" using that assms(1) by (auto simp: rings_def)
    have y: "set ys \<inter> set (j' # t j') = {}" if "j' \<in> K" "j' \<noteq> k" for j'
    proof -
      have "set (k # t k) \<inter> set (j' # t j') = {}" using that assms(1,2) by (auto simp: rings_def)
      then show ?thesis using assms(5) that(1) by (auto simp: unlinked_def)
    qed
    show ?thesis using d y [of i] y [of j] that by (auto split: if_splits)
  qed
  ultimately show ?thesis by (simp add: rings_def)
qed

lemma ring_add_between:
  assumes "ring h k (as @ bs)" "n \<noteq> 0" "n \<notin> set (k # as @ bs)"
  shows "\<exists>h'. list_add_between h n (last (k # as)) (hd (bs @ [k])) = Inr h' \<and> ring h' k (as @ n # bs)
    \<and> (\<forall>x. x \<notin> set (n # k # as @ bs) \<longrightarrow> nxt h' x = nxt h x \<and> prv h' x = prv h x)"
proof -
  let ?p = "last (k # as)" and ?q = "hd (bs @ [k])"
  obtain us where us: "k # as = us @ [?p]" by (metis append_butlast_last_id list.distinct(1))
  obtain vs where vs: "bs @ [k] = ?q # vs" by (metis append_is_Nil_conv list.collapse list.distinct(1))
  have whole: "k # (as @ bs) @ [k] = us @ ?p # ?q # vs" using us vs by (metis append.assoc append_Cons append_Nil)
  have rw: "k # rev (as @ bs) @ [k] = rev vs @ ?q # ?p # rev us"
    using arg_cong [OF whole, of rev] by simp
  have nz: "?p \<noteq> 0" "?q \<noteq> 0"
    using ring_nz [OF assms(1)] by (auto simp: hd_append hd_conv_nth last_conv_nth)
  let ?h = "h\<lparr>nxt := (nxt h)(n := ?q, ?p := n), prv := (prv h)(?q := n, n := ?p)\<rparr>"
  have "list_add_between h n ?p ?q = Inr ?h"
    using nz assms(2) by (simp add: list_add_between_def list_heap_access)
  moreover have "fwd ((nxt h)(n := ?q, ?p := n)) (us @ ?p # n # ?q # vs)"
  proof (rule fwd_insert)
    show "fwd (nxt h) (us @ ?p # ?q # vs)" using assms(1) whole by (simp add: ring_def)
    have b: "us @ ?p # butlast (?q # vs) = k # as @ bs"
      using arg_cong [OF whole, of butlast] by (simp add: butlast_append split: if_splits)
    show "distinct (us @ ?p # butlast (?q # vs))" unfolding b using assms(1) by (simp add: ring_def)
    show "n \<notin> set (us @ ?p # butlast (?q # vs))" unfolding b using assms(3) .
  qed
  moreover have "fwd ((prv h)(n := ?p, ?q := n)) (rev vs @ ?q # n # ?p # rev us)"
  proof (rule fwd_insert)
    show "fwd (prv h) (rev vs @ ?q # ?p # rev us)" using assms(1) rw by (simp add: ring_def)
    have b: "rev vs @ ?q # butlast (?p # rev us) = k # rev (as @ bs)"
      using arg_cong [OF rw, of butlast] by (simp add: butlast_append split: if_splits)
    show "distinct (rev vs @ ?q # butlast (?p # rev us))" unfolding b using assms(1) by (auto simp: ring_def)
    show "n \<notin> set (rev vs @ ?q # butlast (?p # rev us))" unfolding b using assms(3) by simp
  qed
  moreover have "us @ ?p # n # ?q # vs = k # (as @ n # bs) @ [k]"
    using us vs by (metis append.assoc append_Cons append_Nil)
  moreover have "rev vs @ ?q # n # ?p # rev us = k # rev (as @ n # bs) @ [k]"
    using arg_cong [OF calculation(4), of rev] by simp
  moreover have "(prv h)(?q := n, n := ?p) = (prv h)(n := ?p, ?q := n)"
  proof (rule fun_upd_twist)
    show "?q \<noteq> n" using assms(3) by (cases bs) auto
  qed
  moreover have "x \<noteq> ?p \<and> x \<noteq> ?q \<and> x \<noteq> n" if "x \<notin> set (n # k # as @ bs)" for x
    using that by (cases bs) (auto simp: last_conv_nth)
  moreover have "distinct (k # as @ n # bs)" "0 \<notin> set (k # as @ n # bs)"
    using assms by (auto simp: ring_def)
  ultimately show ?thesis unfolding ring_def by auto
qed


lemma ring_del:
  assumes "ring h k (as @ n # bs)"
  shows "\<exists>h'. list_del h n = Inr h' \<and> ring h' k (as @ bs) \<and> nxt h' n = 0 \<and> prv h' n = 0
    \<and> (\<forall>x. x \<notin> set (k # as @ n # bs) \<longrightarrow> nxt h' x = nxt h x \<and> prv h' x = prv h x)"
proof -
  let ?p = "last (k # as)" and ?q = "hd (bs @ [k])"
  obtain us where us: "k # as = us @ [?p]" by (metis append_butlast_last_id list.distinct(1))
  obtain vs where vs: "bs @ [k] = ?q # vs" by (metis append_is_Nil_conv list.collapse list.distinct(1))
  have whole: "k # (as @ n # bs) @ [k] = us @ ?p # n # ?q # vs" using us vs by (metis append.assoc append_Cons append_Nil)
  have rw: "k # rev (as @ n # bs) @ [k] = rev vs @ ?q # n # ?p # rev us"
    using arg_cong [OF whole, of rev] by simp
  have f: "fwd (nxt h) (us @ ?p # n # ?q # vs)" "fwd (prv h) (rev vs @ ?q # n # ?p # rev us)"
    using assms whole rw by (simp_all add: ring_def)
  have l: "nxt h n = ?q" "prv h n = ?p"
    using fwd_nth [of "nxt h" "us @ [?p]" n ?q vs] fwd_nth [of "prv h" "rev vs @ [?q]" n ?p "rev us"] f by auto
  have nz: "?p \<noteq> 0" "?q \<noteq> 0" "n \<noteq> 0"
    using ring_nz [OF assms] by (auto simp: hd_append hd_conv_nth last_conv_nth)
  have d: "distinct (k # as @ n # bs)" using assms by (simp add: ring_def)
  have pq: "?p \<noteq> n" "?q \<noteq> n" using d by (cases bs; auto simp: last_conv_nth)+
  let ?h = "h\<lparr>nxt := (nxt h)(?p := ?q, n := 0), prv := (prv h)(?q := ?p, n := 0)\<rparr>"
  have "list_del h n = Inr ?h"
    using nz l pq by (simp add: list_del_def list_del_between_def list_heap_access)
  moreover have "fwd ((nxt h)(?p := ?q, n := 0)) (us @ ?p # ?q # vs)"
  proof (rule fwd_delete [OF f(1)])
    have "us @ ?p # n # butlast (?q # vs) = k # as @ n # bs"
      using arg_cong [OF whole, of butlast] by (simp add: butlast_append split: if_splits)
    then show "distinct (us @ ?p # n # butlast (?q # vs))" using d by simp
  qed
  moreover have "fwd ((prv h)(?q := ?p, n := 0)) (rev vs @ ?q # ?p # rev us)"
  proof (rule fwd_delete [OF f(2)])
    have b: "rev vs @ ?q # n # butlast (?p # rev us) = k # rev (as @ n # bs)"
      using arg_cong [OF rw, of butlast] by (simp add: butlast_append split: if_splits)
    show "distinct (rev vs @ ?q # n # butlast (?p # rev us))" unfolding b using d by auto
  qed
  moreover have a: "us @ ?p # ?q # vs = k # (as @ bs) @ [k]"
    using us vs by (metis append.assoc append_Cons append_Nil)
  moreover have "rev vs @ ?q # ?p # rev us = k # rev (as @ bs) @ [k]"
    using arg_cong [OF a, of rev] by simp
  moreover have "x \<noteq> ?p \<and> x \<noteq> ?q \<and> x \<noteq> n" if "x \<notin> set (k # as @ n # bs)" for x
    using that by (cases bs) (auto simp: last_conv_nth)
  moreover have "distinct (k # as @ bs)" "0 \<notin> set (k # as @ bs)" using assms by (auto simp: ring_def)
  ultimately show ?thesis unfolding ring_def by auto
qed

lemma ring_splice_between:
  assumes "ring h k (as @ bs)" "ring h l ys" "ys \<noteq> []" "set (l # ys) \<inter> set (k # as @ bs) = {}"
  shows "\<exists>h'. list_splice_between h l (last (k # as)) (hd (bs @ [k])) = Inr h' \<and> ring h' k (as @ ys @ bs)
    \<and> (\<forall>x. x \<notin> set (ys @ k # as @ bs) \<longrightarrow> nxt h' x = nxt h x \<and> prv h' x = prv h x)"
proof -
  let ?p = "last (k # as)" and ?q = "hd (bs @ [k])"
  obtain us where us: "k # as = us @ [?p]" by (metis append_butlast_last_id list.distinct(1))
  obtain vs where vs: "bs @ [k] = ?q # vs" by (metis append_is_Nil_conv list.collapse list.distinct(1))
  have whole: "k # (as @ bs) @ [k] = us @ ?p # ?q # vs" using us vs by (metis append.assoc append_Cons append_Nil)
  have rw: "k # rev (as @ bs) @ [k] = rev vs @ ?q # ?p # rev us"
    using arg_cong [OF whole, of rev] by simp
  have b: "us @ ?p # butlast (?q # vs) = k # as @ bs"
    using arg_cong [OF whole, of butlast] by (simp add: butlast_append split: if_splits)
  have b': "rev vs @ ?q # butlast (?p # rev us) = k # rev (as @ bs)"
    using arg_cong [OF rw, of butlast] by (simp add: butlast_append split: if_splits)
  have fl: "nxt h l = hd ys" "prv h l = last ys"
    using ring_first [OF assms(2)] ring_last [OF assms(2)] assms(3) by simp_all
  have nz: "?p \<noteq> 0" "?q \<noteq> 0" "l \<noteq> 0" "hd ys \<noteq> 0" "last ys \<noteq> 0"
    using ring_nz [OF assms(1)] ring_nz [OF assms(2)] assms(3)
    by (auto simp: hd_append hd_conv_nth last_conv_nth)
  have d1: "distinct (k # as @ bs)" "distinct ys" using assms(1,2) by (simp_all add: ring_def)
  have d2: "set ys \<inter> set (k # as @ bs) = {}" using assms(4) by auto
  let ?h = "h\<lparr>nxt := (nxt h)(?p := hd ys, last ys := ?q), prv := (prv h)(hd ys := ?p, ?q := last ys)\<rparr>"
  have "list_splice_between h l ?p ?q = Inr ?h"
    using nz fl by (simp add: list_splice_between_def list_heap_access)
  moreover have "fwd ((nxt h)(?p := hd ys, last ys := ?q)) (us @ ?p # ys @ ?q # vs)"
  proof (rule fwd_splice [OF _ _ _ assms(3) d1(2)])
    show "fwd (nxt h) (us @ ?p # ?q # vs)" using assms(1) whole by (simp add: ring_def)
    show "distinct (us @ ?p # butlast (?q # vs))" using d1 b by simp
    show "set ys \<inter> set (us @ ?p # butlast (?q # vs)) = {}" unfolding b by (rule d2)
    show "fwd (nxt h) (ys @ [l])" using assms(2) assms(3) by (cases ys) (simp_all add: ring_def)
  qed
  moreover have "fwd ((prv h)(?q := hd (rev ys), last (rev ys) := ?p)) (rev vs @ ?q # rev ys @ ?p # rev us)"
  proof (rule fwd_splice)
    show "fwd (prv h) (rev vs @ ?q # ?p # rev us)" using assms(1) rw by (simp add: ring_def)
    show "distinct (rev vs @ ?q # butlast (?p # rev us))" unfolding b' using d1 by auto
    show "set (rev ys) \<inter> set (rev vs @ ?q # butlast (?p # rev us)) = {}" unfolding b' using d2 by auto
    show "fwd (prv h) (rev ys @ [l])" using assms(2) assms(3) by (cases "rev ys") (simp_all add: ring_def)
    show "rev ys \<noteq> []" "distinct (rev ys)" using assms(3) d1 by simp_all
  qed
  moreover have "hd (rev ys) = last ys" "last (rev ys) = hd ys" using assms(3) by (simp_all add: hd_rev last_rev)
  moreover have "(prv h)(hd ys := ?p, ?q := last ys) = (prv h)(?q := last ys, hd ys := ?p)"
  proof (rule fun_upd_twist)
    have "?q \<in> set (k # as @ bs)" by (cases bs) auto
    then show "hd ys \<noteq> ?q" using d2 assms(3) by (metis disjoint_iff list.set_sel(1))
  qed
  moreover have a: "us @ ?p # ys @ ?q # vs = k # (as @ ys @ bs) @ [k]"
    using us vs by (metis append.assoc append_Cons append_Nil)
  moreover have "rev vs @ ?q # rev ys @ ?p # rev us = k # rev (as @ ys @ bs) @ [k]"
    using arg_cong [OF a, of rev] by simp
  moreover have "x \<noteq> ?p \<and> x \<noteq> ?q \<and> x \<noteq> hd ys \<and> x \<noteq> last ys" if "x \<notin> set (ys @ k # as @ bs)" for x
    using that assms(3) by (cases bs) (auto simp: last_conv_nth)
  moreover have "distinct (k # as @ ys @ bs)" "0 \<notin> set (k # as @ ys @ bs)"
    using assms d1 d2 by (auto simp: ring_def)
  ultimately show ?thesis unfolding ring_def by auto
qed

section \<open>The operations on rings\<close>

lemma rings_D: "rings h K t \<Longrightarrow> k \<in> K \<Longrightarrow> ring h k (t k)"
  by (simp add: rings_def)

lemma rings_disjoint:
  "rings h K t \<Longrightarrow> k \<in> K \<Longrightarrow> j \<in> K \<Longrightarrow> j \<noteq> k \<Longrightarrow> x \<in> set (j # t j) \<Longrightarrow> x \<notin> set (k # t k)"
  by (fastforce simp: rings_def)

lemma rings_insert:
  assumes "rings h K t" "k \<in> K" "unlinked n K t" "t k = as @ bs"
  shows "\<exists>h'. list_add_between h n (last (k # as)) (hd (bs @ [k])) = Inr h' \<and> rings h' K (t(k := as @ n # bs))"
proof -
  have "ring h k (as @ bs)" using rings_D [OF assms(1,2)] assms(4) by simp
  moreover have "n \<noteq> 0" "n \<notin> set (k # as @ bs)" using assms(2,3,4) by (auto simp: unlinked_def)
  ultimately obtain h' where h': "list_add_between h n (last (k # as)) (hd (bs @ [k])) = Inr h'"
      "ring h' k (as @ n # bs)"
      "\<And>x. x \<notin> set (n # k # as @ bs) \<Longrightarrow> nxt h' x = nxt h x \<and> prv h' x = prv h x"
    using ring_add_between by blast
  have "rings h' K (t(k := as @ n # bs))"
  proof (rule rings_update [OF assms(1,2) h'(2)])
    fix x j assume j: "j \<in> K" "j \<noteq> k" "x \<in> set (j # t j)"
    have "x \<notin> set (k # t k)" using rings_disjoint [OF assms(1,2)] j by blast
    moreover have "x \<noteq> n" using assms(3) j by (auto simp: unlinked_def)
    ultimately show "nxt h' x = nxt h x \<and> prv h' x = prv h x" using h'(3) assms(4) by auto
  qed (use assms(3,4) in auto)
  then show ?thesis using h'(1) by blast
qed

lemma list_add_rings:
  assumes "rings h K t" "k \<in> K" "unlinked n K t"
  shows "\<exists>h'. list_add h n k = Inr h' \<and> rings h' K (t(k := n # t k))"
proof -
  have "nxt h k = hd (t k @ [k])" "k \<noteq> 0"
    using ring_first [OF rings_D [OF assms(1,2)]] ring_nz [OF rings_D [OF assms(1,2)]] by auto
  then show ?thesis
    using rings_insert [OF assms, of "[]" "t k"] by (simp add: list_add_def get_next_def)
qed

lemma list_add_tail_rings:
  assumes "rings h K t" "k \<in> K" "unlinked n K t"
  shows "\<exists>h'. list_add_tail h n k = Inr h' \<and> rings h' K (t(k := t k @ [n]))"
proof -
  have "prv h k = last (k # t k)" "k \<noteq> 0"
    using ring_last [OF rings_D [OF assms(1,2)]] ring_nz [OF rings_D [OF assms(1,2)]] by auto
  then show ?thesis
    using rings_insert [OF assms, of "t k" "[]"] by (simp add: list_add_tail_def get_prev_def)
qed

lemma list_del_rings:
  assumes "rings h K t" "k \<in> K" "t k = as @ n # bs"
  shows "\<exists>h'. list_del h n = Inr h' \<and> rings h' K (t(k := as @ bs))"
proof -
  have "ring h k (as @ n # bs)" using rings_D [OF assms(1,2)] assms(3) by simp
  then obtain h' where h': "list_del h n = Inr h'" "ring h' k (as @ bs)"
      "\<And>x. x \<notin> set (k # as @ n # bs) \<Longrightarrow> nxt h' x = nxt h x \<and> prv h' x = prv h x"
    using ring_del by blast
  have "rings h' K (t(k := as @ bs))"
  proof (rule rings_update [OF assms(1,2) h'(2)])
    fix x j assume j: "j \<in> K" "j \<noteq> k" "x \<in> set (j # t j)"
    have "x \<notin> set (k # t k)" using rings_disjoint [OF assms(1,2)] j by blast
    then show "nxt h' x = nxt h x \<and> prv h' x = prv h x" using h'(3) assms(3) by auto
  qed (use assms(3) in auto)
  then show ?thesis using h'(1) by blast
qed

lemma unlinked_del:
  assumes "rings h K t" "k \<in> K" "t k = as @ n # bs"
  shows "unlinked n K (t(k := as @ bs))"
proof -
  have r: "ring h k (as @ n # bs)" using rings_D [OF assms(1,2)] assms(3) by simp
  have "n \<notin> set (j # t j)" if "j \<in> K" "j \<noteq> k" for j
    using rings_disjoint [OF assms(1) that(1) assms(2)] that assms(3) by auto
  then show ?thesis using r by (auto simp: unlinked_def ring_def)
qed

lemma unlinked_add:
  "unlinked m K t \<Longrightarrow> m \<noteq> n \<Longrightarrow> k \<in> K \<Longrightarrow> unlinked m K (t(k := n # t k))"
  by (auto simp: unlinked_def)

interpretation list_heads: chains rings unlinked list_add list_del
  by unfold_locales
    (rule list_add_rings list_del_rings unlinked_del unlinked_add; assumption)+

text \<open>A splice moves all nodes of one ring into another; the emptied head must be set up again.\<close>

lemma rings_splice:
  assumes "rings h K t" "k \<in> K" "l \<in> K" "k \<noteq> l" "t l \<noteq> []" "t k = as @ bs"
  shows "\<exists>h'. list_splice_between h l (last (k # as)) (hd (bs @ [k])) = Inr h'
    \<and> rings h' (K - {l}) (t(k := as @ t l @ bs))"
proof -
  have "ring h k (as @ bs)" "ring h l (t l)" using rings_D [OF assms(1,2)] rings_D [OF assms(1,3)] assms(6) by simp_all
  moreover have "set (l # t l) \<inter> set (k # as @ bs) = {}"
    using rings_disjoint [OF assms(1,2,3)] assms(4,6) by fastforce
  ultimately obtain h' where h': "list_splice_between h l (last (k # as)) (hd (bs @ [k])) = Inr h'"
      "ring h' k (as @ t l @ bs)"
      "\<And>x. x \<notin> set (t l @ k # as @ bs) \<Longrightarrow> nxt h' x = nxt h x \<and> prv h' x = prv h x"
    using ring_splice_between [OF _ _ assms(5)] by blast
  have K: "rings h (K - {l}) t" "k \<in> K - {l}" using assms(1,2,4) by (auto simp: rings_def)
  have "rings h' (K - {l}) (t(k := as @ t l @ bs))"
  proof (rule rings_update [OF K h'(2)])
    fix x j assume j: "j \<in> K - {l}" "j \<noteq> k" "x \<in> set (j # t j)"
    have "x \<notin> set (k # t k)" "x \<notin> set (l # t l)" using rings_disjoint [OF assms(1)] assms(2,3) j by blast+
    then show "nxt h' x = nxt h x \<and> prv h' x = prv h x" using h'(3) assms(6) by auto
  next
    fix x assume x: "x \<in> set (as @ t l @ bs)"
    show "x \<in> set (t k) \<or> unlinked x (K - {l}) t"
    proof (cases "x \<in> set (t l)")
      case True
      then have "x \<noteq> 0" using ring_nz [OF rings_D [OF assms(1,3)]] by simp
      moreover have "x \<notin> set (j # t j)" if "j \<in> K - {l}" for j
        using rings_disjoint [OF assms(1), of j l x] assms(3) that True by auto
      ultimately show ?thesis by (auto simp: unlinked_def)
    qed (use x assms(6) in auto)
  qed
  then show ?thesis using h'(1) by blast
qed

lemma list_empty_rings: "ring h k xs \<Longrightarrow> list_empty h k = Inr (xs = [])"
proof -
  assume r: "ring h k xs"
  have "k \<noteq> 0" "nxt h k = hd (xs @ [k])" using ring_first [OF r] ring_nz [OF r] by auto
  moreover have "k \<notin> set xs" using r by (simp add: ring_def)
  ultimately show ?thesis by (cases xs) (auto simp: list_empty_def get_next_def)
qed

lemma list_splice_rings:
  assumes "rings h K t" "k \<in> K" "l \<in> K" "k \<noteq> l"
  shows "\<exists>h'. list_splice h l k = Inr h' \<and> rings h' (K - {l}) (t(k := t l @ t k))"
proof (cases "t l = []")
  case True
  then have "list_splice h l k = Inr h"
    using list_empty_rings [OF rings_D [OF assms(1,3)]] by (simp add: list_splice_def)
  moreover have "rings h (K - {l}) t" using assms(1) by (auto simp: rings_def)
  ultimately show ?thesis using True by (simp add: fun_upd_idem)
next
  case False
  have "nxt h k = hd (t k @ [k])" "k \<noteq> 0"
    using ring_first [OF rings_D [OF assms(1,2)]] ring_nz [OF rings_D [OF assms(1,2)]] by auto
  then show ?thesis
    using rings_splice [OF assms False, of "[]" "t k"] False list_empty_rings [OF rings_D [OF assms(1,3)]]
    by (simp add: list_splice_def get_next_def)
qed

lemma list_splice_tail_rings:
  assumes "rings h K t" "k \<in> K" "l \<in> K" "k \<noteq> l"
  shows "\<exists>h'. list_splice_tail h l k = Inr h' \<and> rings h' (K - {l}) (t(k := t k @ t l))"
proof (cases "t l = []")
  case True
  then have "list_splice_tail h l k = Inr h"
    using list_empty_rings [OF rings_D [OF assms(1,3)]] by (simp add: list_splice_tail_def)
  moreover have "rings h (K - {l}) t" using assms(1) by (auto simp: rings_def)
  ultimately show ?thesis using True by (simp add: fun_upd_idem)
next
  case False
  have "prv h k = last (k # t k)" "k \<noteq> 0"
    using ring_last [OF rings_D [OF assms(1,2)]] ring_nz [OF rings_D [OF assms(1,2)]] by auto
  then show ?thesis
    using rings_splice [OF assms False, of "t k" "[]"] False list_empty_rings [OF rings_D [OF assms(1,3)]]
    by (simp add: list_splice_tail_def get_prev_def)
qed

lemma INIT_LIST_HEAD_rings:
  assumes "rings h K t" "unlinked l K t"
  shows "\<exists>h'. INIT_LIST_HEAD h l = Inr h' \<and> rings h' (insert l K) (t(l := []))"
proof -
  let ?h = "h\<lparr>nxt := (nxt h)(l := l), prv := (prv h)(l := l)\<rparr>"
  have "INIT_LIST_HEAD h l = Inr ?h"
    using assms(2) by (simp add: INIT_LIST_HEAD_def list_heap_access unlinked_def)
  moreover have "ring ?h k (t k)" if "k \<in> K" for k
  proof -
    have "ring ?h k (t k) = ring h k (t k)"
      by (rule ring_cong) (use assms(2) that in \<open>auto simp: unlinked_def\<close>)
    then show ?thesis using assms(1) that by (simp add: rings_D)
  qed
  moreover have "ring ?h l []" using assms(2) by (simp add: ring_def unlinked_def)
  moreover have "l \<notin> K" using assms(2) by (auto simp: unlinked_def)
  ultimately show ?thesis using assms by (auto simp: rings_def unlinked_def)
qed

text \<open>
  Cutting at a node of the list: the nodes up to it are the new list, the ones after it stay. The head
  \<open>l\<close> that receives them is a node on no ring, or an empty list.
\<close>

lemma ring_cut:
  assumes "ring h k (as @ e # bs)" "l \<noteq> 0" "l \<notin> set (k # as @ e # bs)"
  shows "\<exists>h'. list_cut_position_inner h l k e = Inr h' \<and> ring h' l (as @ [e]) \<and> ring h' k bs
    \<and> (\<forall>x. x \<notin> set (l # k # as @ e # bs) \<longrightarrow> nxt h' x = nxt h x \<and> prv h' x = prv h x)"
proof -
  let ?f = "hd (as @ [e])" and ?g = "hd (bs @ [k])"
  have d: "distinct (k # as @ e # bs)" "0 \<notin> set (k # as @ e # bs)" using assms(1) by (simp_all add: ring_def)
  have f: "fwd (nxt h) (k # as @ e # bs @ [k])" "fwd (prv h) (k # rev bs @ e # rev as @ [k])"
    using assms(1) by (simp_all add: ring_def)
  have nf: "nxt h k = ?f" using ring_first [OF assms(1)] by (simp add: hd_append)
  have ng: "nxt h e = ?g"
    using fwd_nth [of "nxt h" "k # as" e ?g "tl (bs @ [k])"] f(1) by (cases bs) simp_all
  have nz: "e \<noteq> 0" "k \<noteq> 0" "?f \<noteq> 0" "?g \<noteq> 0"
    using d(2) by (cases as; cases bs; auto)+
  have fg: "?f \<noteq> ?g" "?f \<noteq> l" "?f \<noteq> k" "?g \<noteq> l" "e \<noteq> k" "l \<noteq> k" "e \<noteq> l" "?g \<noteq> e"
    using d(1) assms(3) by (cases as; cases bs; auto)+
  let ?h = "h\<lparr>nxt := (nxt h)(l := ?f, e := l, k := ?g), prv := (prv h)(?f := l, l := e, ?g := k)\<rparr>"
  have "list_cut_position_inner h l k e = Inr ?h"
    using nz nf ng assms(2) by (simp add: list_cut_position_inner_def list_heap_access)
  moreover have "ring ?h l (as @ [e])"
  proof -
    have fa: "fwd (nxt h) (as @ [e])"
      using f(1) fwd_append [of "nxt h" "k # as" e "bs @ [k]"] by (cases as) auto
    have "fwd (nxt ?h) (as @ [e])"
      using fa d(1) assms(3) by (auto simp: butlast_append)
    moreover have "(as @ [e]) @ [l] = as @ e # [l]" by simp
    ultimately have 1: "fwd (nxt ?h) (l # (as @ [e]) @ [l])"
      using fwd_append [of "nxt ?h" as e "[l]"] fg by (cases as) auto
    have pa: "fwd (prv h) (e # rev as)"
      using f(2) fwd_append [of "prv h" "k # rev bs" e "rev as @ [k]"]
        fwd_append [of "prv h" "e # butlast (rev as)" "last (rev as)" "[k]"]
      by (cases "rev as" rule: rev_cases) auto
    have fl: "?f = last (e # rev as)" by (cases as) auto
    have "?g \<notin> set (e # as)" using d(1) by (cases bs) auto
    then have "fwd (prv ?h) (e # rev as)"
    proof -
      have "?f \<notin> set (butlast (e # rev as))" "l \<notin> set (butlast (e # rev as))" "?g \<notin> set (butlast (e # rev as))"
        using d(1) assms(3) \<open>?g \<notin> set (e # as)\<close> by (cases as; auto dest: in_set_butlastD)+
      then show ?thesis using pa by simp
    qed
    moreover have eq: "e # rev as @ [l] = butlast (e # rev as) @ ?f # [l]"
      unfolding fl by (metis append.assoc append_Cons append_Nil append_butlast_last_id list.distinct(1))
    moreover have "fwd (prv ?h) (butlast (e # rev as) @ [?f])"
      using calculation(1) unfolding fl by (metis append_butlast_last_id list.distinct(1))
    moreover have "prv ?h ?f = l" using fg by simp
    ultimately have "fwd (prv ?h) (butlast (e # rev as) @ ?f # [l])"
      using fwd_append [of "prv ?h" "butlast (e # rev as)" ?f "[l]"] by (simp only: fwd.simps simp_thms)
    then have "fwd (prv ?h) (e # rev as @ [l])" by (simp only: eq)
    then have 2: "fwd (prv ?h) (l # rev (as @ [e]) @ [l])" using fg by simp
    show ?thesis using 1 2 d assms(2,3) by (auto simp: ring_def)
  qed
  moreover have "ring ?h k bs"
  proof -
    have fb: "fwd (nxt h) (bs @ [k])"
      using f(1) fwd_append [of "nxt h" "k # as" e "bs @ [k]"] by (cases bs) auto
    have nb: "fwd (nxt ?h) (bs @ [k])" using fb d(1) assms(3) by auto
    have 1: "fwd (nxt ?h) (k # bs @ [k])" using nb by (cases bs) auto
    have pb: "fwd (prv h) (k # rev bs)"
    proof (cases bs)
      case (Cons b bs')
      then show ?thesis
        using f(2) fwd_append [of "prv h" "k # rev bs'" b "e # rev as @ [k]"] by simp
    qed simp
    have gl: "?g = last (k # rev bs)" by (cases bs) auto
    have "?f \<notin> set (butlast (k # rev bs))" "l \<notin> set (butlast (k # rev bs))" "?g \<notin> set (butlast (k # rev bs))"
      using d(1) assms(3) by (cases as; cases bs; auto dest: in_set_butlastD)+
    then have "fwd (prv ?h) (k # rev bs)" using pb by simp
    then have "fwd (prv ?h) (butlast (k # rev bs) @ [?g])"
      unfolding gl by (metis append_butlast_last_id list.distinct(1))
    moreover have "prv ?h ?g = k" by simp
    moreover have eq: "k # rev bs @ [k] = butlast (k # rev bs) @ ?g # [k]"
      unfolding gl by (metis append.assoc append_Cons append_Nil append_butlast_last_id list.distinct(1))
    ultimately have "fwd (prv ?h) (butlast (k # rev bs) @ ?g # [k])"
      using fwd_append [of "prv ?h" "butlast (k # rev bs)" ?g "[k]"] by (simp only: fwd.simps simp_thms)
    then have 2: "fwd (prv ?h) (k # rev bs @ [k])" by (simp only: eq)
    show ?thesis using 1 2 d by (auto simp: ring_def)
  qed
  moreover have "x \<noteq> ?f \<and> x \<noteq> ?g \<and> x \<noteq> e \<and> x \<noteq> l \<and> x \<noteq> k" if "x \<notin> set (l # k # as @ e # bs)" for x
    using that by (cases as; cases bs) auto
  ultimately show ?thesis by auto
qed

lemma list_cut_position_rings:
  assumes "rings h K t" "k \<in> K" "unlinked l K t" "t k = as @ e # bs"
  shows "\<exists>h'. list_cut_position h l k e = Inr h' \<and> rings h' (insert l K) (t(k := bs, l := as @ [e]))"
proof -
  have r: "ring h k (as @ e # bs)" using rings_D [OF assms(1,2)] assms(4) by simp
  have l: "l \<noteq> 0" "l \<notin> set (k # as @ e # bs)" "l \<notin> K" using assms(2,3,4) by (auto simp: unlinked_def)
  obtain h' where h': "list_cut_position_inner h l k e = Inr h'" "ring h' l (as @ [e])" "ring h' k bs"
      "\<And>x. x \<notin> set (l # k # as @ e # bs) \<Longrightarrow> nxt h' x = nxt h x \<and> prv h' x = prv h x"
    using ring_cut [OF r l(1,2)] by blast
  have ne: "k \<noteq> 0" "e \<noteq> k" using r by (auto simp: ring_def)
  have s: "nxt h k = prv h k \<Longrightarrow> nxt h k = e"
  proof -
    assume "nxt h k = prv h k"
    moreover have "nxt h k = hd (as @ [e])" using ring_first [OF r] by (cases as) simp_all
    moreover have "prv h k = last (e # bs)" using ring_last [OF r] by simp
    ultimately have "hd (as @ [e]) = last (e # bs)" by (simp only:)
    moreover have "distinct (as @ e # bs)" using r by (simp add: ring_def)
    ultimately have "as = []" by (cases as) (auto split: if_splits)
    then show ?thesis using ring_first [OF r] by simp
  qed
  have "list_cut_position h l k e = Inr h'"
    using ne s h'(1) list_empty_rings [OF r]
    by (auto simp: list_cut_position_def list_is_singular_def get_next_def get_prev_def)
  moreover have "rings h' K (t(k := bs))"
  proof (rule rings_update [OF assms(1,2) h'(3)])
    fix x j assume j: "j \<in> K" "j \<noteq> k" "x \<in> set (j # t j)"
    have "x \<notin> set (k # t k)" using rings_disjoint [OF assms(1,2)] j by blast
    moreover have "x \<noteq> l" using assms(3) j by (auto simp: unlinked_def)
    ultimately show "nxt h' x = nxt h x \<and> prv h' x = prv h x" using h'(4) assms(4) by auto
  qed (use assms(4) in auto)
  moreover have "x \<notin> set (l # as @ [e])" if "j \<in> K" "x \<in> set (j # (t(k := bs)) j)" for x j
  proof (cases "j = k")
    case True
    then show ?thesis using that l r by (auto simp: ring_def)
  next
    case False
    then have "x \<notin> set (k # t k)" using rings_disjoint [OF assms(1,2)] that by auto
    moreover have "x \<noteq> l" using assms(3) that False by (auto simp: unlinked_def)
    ultimately show ?thesis using assms(4) by auto
  qed
  ultimately show ?thesis using h'(2) l(3) by (fastforce simp: rings_def)
qed

text \<open>Replacing a node writes the new node and its two neighbours.\<close>

lemma fwd_replace:
  assumes "fwd f (as @ p # e # q # bs)" "distinct (as @ p # e # butlast (q # bs))"
    "n \<notin> set (as @ p # e # butlast (q # bs))"
  shows "fwd (f(n := q, p := n)) (as @ p # n # q # bs)"
  using assms fwd_append [of f as p "e # q # bs"] fwd_append [of "f(n := q, p := n)" as p "n # q # bs"]
  by auto

lemma ring_replace:
  assumes "ring h k (as @ e # bs)" "n \<noteq> 0" "n \<notin> set (k # as @ e # bs)"
  shows "\<exists>h'. list_replace h e n = Inr h' \<and> ring h' k (as @ n # bs)"
proof -
  let ?p = "last (k # as)" and ?q = "hd (bs @ [k])"
  obtain us where us: "k # as = us @ [?p]" by (metis append_butlast_last_id list.distinct(1))
  obtain vs where vs: "bs @ [k] = ?q # vs" by (metis append_is_Nil_conv list.collapse list.distinct(1))
  have whole: "k # (as @ x # bs) @ [k] = us @ ?p # x # ?q # vs" for x
    using us vs by (metis append.assoc append_Cons append_Nil)
  have rw: "k # rev (as @ x # bs) @ [k] = rev vs @ ?q # x # ?p # rev us" for x
    using arg_cong [OF whole, of rev] by simp
  have f: "fwd (nxt h) (us @ ?p # e # ?q # vs)" "fwd (prv h) (rev vs @ ?q # e # ?p # rev us)"
    using assms whole rw by (simp_all add: ring_def)
  have l: "nxt h e = ?q" "prv h e = ?p"
    using fwd_nth [of "nxt h" "us @ [?p]" e ?q vs] fwd_nth [of "prv h" "rev vs @ [?q]" e ?p "rev us"] f by auto
  have d: "distinct (k # as @ e # bs)" "0 \<notin> set (k # as @ e # bs)" using assms(1) by (simp_all add: ring_def)
  have nz: "?p \<noteq> 0" "?q \<noteq> 0" "e \<noteq> 0" "?p \<noteq> n" "?q \<noteq> n" "?q \<noteq> e" "e \<noteq> n" "?p \<noteq> e"
    using d assms(3) by (cases as rule: rev_cases; cases bs; auto)+
  let ?h = "h\<lparr>nxt := (nxt h)(n := ?q, ?p := n), prv := (prv h)(?q := n, n := ?p)\<rparr>"
  have tw: "(prv h)(?q := n, n := ?p) = (prv h)(n := ?p, ?q := n)" using nz by (intro fun_upd_twist) auto
  have "list_replace h e n = Inr ?h"
    using nz l assms(2) by (simp add: list_replace_def list_heap_access)
  moreover have "fwd ((nxt h)(n := ?q, ?p := n)) (us @ ?p # n # ?q # vs)"
  proof (rule fwd_replace [OF f(1)])
    have b: "us @ ?p # e # butlast (?q # vs) = k # as @ e # bs"
      using arg_cong [OF whole [of e], of butlast] by (simp add: butlast_append split: if_splits)
    show "distinct (us @ ?p # e # butlast (?q # vs))" "n \<notin> set (us @ ?p # e # butlast (?q # vs))"
      unfolding b by (rule d(1), rule assms(3))
  qed
  moreover have "fwd ((prv h)(n := ?p, ?q := n)) (rev vs @ ?q # n # ?p # rev us)"
  proof (rule fwd_replace [OF f(2)])
    have b: "rev vs @ ?q # e # butlast (?p # rev us) = k # rev (as @ e # bs)"
      using arg_cong [OF rw [of e], of butlast] by (simp add: butlast_append split: if_splits)
    show "distinct (rev vs @ ?q # e # butlast (?p # rev us))" "n \<notin> set (rev vs @ ?q # e # butlast (?p # rev us))"
      unfolding b using d(1) assms(3) by auto
  qed
  moreover have "distinct (k # as @ n # bs)" "0 \<notin> set (k # as @ n # bs)" using d assms(2,3) by auto
  ultimately show ?thesis unfolding ring_def whole rw using tw by auto
qed

lemma list_walk_fwd:
  "fwd (nxt h) (xs @ [k]) \<Longrightarrow> 0 \<notin> set xs \<Longrightarrow> k \<notin> set xs \<Longrightarrow> length xs < fuel \<Longrightarrow>
    list_walk fuel h (hd (xs @ [k])) k = Inr xs"
proof (induction xs arbitrary: fuel)
  case Nil
  then show ?case by (cases fuel) auto
next
  case (Cons x xs)
  obtain f where f: "fuel = Suc f" "length xs < f" using Cons.prems(4) by (cases fuel) auto
  have "nxt h x = hd (xs @ [k])" using Cons.prems(1) by (cases xs) auto
  moreover have "fwd (nxt h) (xs @ [k])" using Cons.prems(1) by (cases xs) auto
  ultimately show ?case using Cons.IH [of f] Cons.prems f by (simp add: get_next_def)
qed

lemma list_for_each_entry_ring:
  assumes "ring h k xs" "length xs < fuel"
  shows "list_for_each_entry fuel h k = Inr xs"
proof -
  have "fwd (nxt h) (xs @ [k])" using assms(1) by (cases xs) (auto simp: ring_def)
  then show ?thesis
    using list_walk_fwd [of h xs k fuel] ring_first [OF assms(1)] assms
    by (simp add: list_for_each_entry_def get_next_def ring_def)
qed

section \<open>Chains with a single-pointer head\<close>

fun hfield :: "hlist_heap \<Rightarrow> hptr \<Rightarrow> nat" where
  "hfield h HNull = 0"
| "hfield h (HFirst k) = hfirst h k"
| "hfield h (HNext n) = hnext h n"

text \<open>The chain that starts at the pointer \<open>p\<close>.\<close>

fun hchain :: "hlist_heap \<Rightarrow> hptr \<Rightarrow> nat list \<Rightarrow> bool" where
  "hchain h p [] \<longleftrightarrow> hfield h p = 0"
| "hchain h p (x # xs) \<longleftrightarrow> hfield h p = x \<and> x \<noteq> 0 \<and> hpprev h x = p \<and> hchain h (HNext x) xs"

definition hrep :: "hlist_heap \<Rightarrow> nat set \<Rightarrow> (nat \<Rightarrow> nat list) \<Rightarrow> bool" where
  "hrep h K t \<longleftrightarrow> (\<forall>k\<in>K. hchain h (HFirst k) (t k) \<and> distinct (t k))
     \<and> (\<forall>k\<in>K. \<forall>j\<in>K. k \<noteq> j \<longrightarrow> set (t k) \<inter> set (t j) = {})"

definition unhashed :: "nat \<Rightarrow> nat set \<Rightarrow> (nat \<Rightarrow> nat list) \<Rightarrow> bool" where
  "unhashed n K t \<longleftrightarrow> n \<noteq> 0 \<and> (\<forall>k\<in>K. n \<notin> set (t k))"

lemma hchain_cong:
  assumes "hfield h' p = hfield h p" "\<And>x. x \<in> set xs \<Longrightarrow> hnext h' x = hnext h x \<and> hpprev h' x = hpprev h x"
  shows "hchain h' p xs = hchain h p xs"
  using assms by (induction xs arbitrary: p) auto

lemma hchain_nz: "hchain h p xs \<Longrightarrow> 0 \<notin> set xs"
  by (induction xs arbitrary: p) auto

fun hend :: "hptr \<Rightarrow> nat list \<Rightarrow> hptr" where
  "hend p [] = p"
| "hend p (x # xs) = hend (HNext x) xs"

lemma hend_eq: "hend p xs = (if xs = [] then p else HNext (last xs))"
  by (induction xs arbitrary: p) auto

lemma hrep_D: "hrep h K t \<Longrightarrow> k \<in> K \<Longrightarrow> hchain h (HFirst k) (t k) \<and> distinct (t k)"
  by (simp add: hrep_def)

lemma hrep_disjoint: "hrep h K t \<Longrightarrow> k \<in> K \<Longrightarrow> j \<in> K \<Longrightarrow> j \<noteq> k \<Longrightarrow> x \<in> set (t j) \<Longrightarrow> x \<notin> set (t k)"
  by (fastforce simp: hrep_def)

lemma hrep_update:
  assumes "hrep h K t" "k \<in> K" "hchain h' (HFirst k) ys" "distinct ys"
    and "\<And>j. j \<in> K \<Longrightarrow> j \<noteq> k \<Longrightarrow> hfirst h' j = hfirst h j"
    and "\<And>x j. j \<in> K \<Longrightarrow> j \<noteq> k \<Longrightarrow> x \<in> set (t j) \<Longrightarrow> hnext h' x = hnext h x \<and> hpprev h' x = hpprev h x"
    and "\<And>x. x \<in> set ys \<Longrightarrow> x \<in> set (t k) \<or> unhashed x K t"
  shows "hrep h' K (t(k := ys))"
proof -
  have "hchain h' (HFirst j) (t j) \<and> distinct (t j)" if "j \<in> K" "j \<noteq> k" for j
    using hchain_cong [of h' "HFirst j" h "t j"] hrep_D [OF assms(1) that(1)] assms(5,6) that by auto
  moreover have y: "set ys \<inter> set (t j) = {}" if "j \<in> K" "j \<noteq> k" for j
    using hrep_disjoint [OF assms(1,2) that] assms(7) that by (fastforce simp: unhashed_def)
  moreover have "set (t i) \<inter> set (t j) = {}" if "i \<in> K" "j \<in> K" "i \<noteq> j" for i j
    using assms(1) that by (auto simp: hrep_def)
  ultimately show ?thesis using assms(3,4) by (auto simp: hrep_def)
qed

lemma hlist_add_head_hrep:
  assumes "hrep h K t" "k \<in> K" "unhashed n K t"
  shows "\<exists>h'. hlist_add_head h n k = Inr h' \<and> hrep h' K (t(k := n # t k))"
proof -
  let ?f = "hfirst h k"
  let ?h = "h\<lparr>hfirst := (hfirst h)(k := n), hnext := (hnext h)(n := ?f),
     hpprev := (if ?f = 0 then hpprev h else (hpprev h)(?f := HNext n))(n := HFirst k)\<rparr>"
  have n: "n \<noteq> 0" "n \<notin> set (t k)" using assms(2,3) by (auto simp: unhashed_def)
  have c: "hchain h (HFirst k) (t k)" "distinct (t k)" using hrep_D [OF assms(1,2)] by auto
  have "hlist_add_head h n k = Inr ?h"
    using n by (simp add: hlist_add_head_def set_pprev_def)
  moreover have "hrep ?h K (t(k := n # t k))"
  proof (rule hrep_update [OF assms(1,2)])
    show "distinct (n # t k)" using c n by simp
    have "hchain ?h (HNext n) (t k)"
    proof (cases "t k")
      case Nil
      then show ?thesis using c by simp
    next
      case (Cons x xs)
      have "hchain ?h (HNext x) xs = hchain h (HNext x) xs"
        by (rule hchain_cong) (use c n Cons in auto)
      then show ?thesis using c n Cons by auto
    qed
    then show "hchain ?h (HFirst k) (n # t k)" using n by simp
    fix x j assume j: "j \<in> K" "j \<noteq> k" "x \<in> set (t j)"
    have "x \<noteq> n" using assms(3) j by (auto simp: unhashed_def)
    moreover have "x \<noteq> ?f"
    proof (cases "t k")
      case Nil
      then show ?thesis using c j hchain_nz [of h "HFirst j" "t j"] hrep_D [OF assms(1) j(1)] by (metis hchain.simps(1) hfield.simps(2))
    next
      case (Cons y ys)
      then show ?thesis using c hrep_disjoint [OF assms(1,2) j(1,2,3)] by auto
    qed
    ultimately show "hnext ?h x = hnext h x \<and> hpprev ?h x = hpprev h x" by simp
  next
    fix x assume "x \<in> set (n # t k)"
    then show "x \<in> set (t k) \<or> unhashed x K t" using assms(3) by auto
  qed simp
  ultimately show ?thesis by blast
qed

fun hseg :: "hlist_heap \<Rightarrow> hptr \<Rightarrow> nat list \<Rightarrow> bool" where
  "hseg h p [] \<longleftrightarrow> True"
| "hseg h p (x # xs) \<longleftrightarrow> hfield h p = x \<and> x \<noteq> 0 \<and> hpprev h x = p \<and> hseg h (HNext x) xs"

lemma hchain_append: "hchain h p (as @ bs) \<longleftrightarrow> hseg h p as \<and> hchain h (hend p as) bs"
  by (induction as arbitrary: p) auto

lemma hseg_cong:
  assumes "xs \<noteq> [] \<Longrightarrow> hfield h' p = hfield h p"
    "\<And>x. x \<in> set (butlast xs) \<Longrightarrow> hnext h' x = hnext h x" "\<And>x. x \<in> set xs \<Longrightarrow> hpprev h' x = hpprev h x"
  shows "hseg h' p xs = hseg h p xs"
  using assms
proof (induction xs arbitrary: p)
  case (Cons x xs)
  have "hseg h' (HNext x) xs = hseg h (HNext x) xs"
  proof (rule Cons.IH)
    show "xs \<noteq> [] \<Longrightarrow> hfield h' (HNext x) = hfield h (HNext x)" using Cons.prems(2) [of x] by simp
    show "hnext h' y = hnext h y" if "y \<in> set (butlast xs)" for y
      using Cons.prems(2) [of y] that by (cases xs) auto
  qed (use Cons.prems(3) in auto)
  then show ?case using Cons.prems by auto
qed simp

lemma hfield_hfirst: "hfield (h\<lparr>hfirst := (hfirst h)(j := v)\<rparr>) r = (if r = HFirst j then v else hfield h r)"
  by (cases r) auto

lemma hfield_hnext: "hfield (h\<lparr>hnext := (hnext h)(m := v)\<rparr>) r = (if r = HNext m then v else hfield h r)"
  by (cases r) auto

lemma hchain_first: "hchain h p xs \<Longrightarrow> hfield h p = hd (xs @ [0])"
  by (cases xs) auto

lemma hchain_del:
  assumes "hchain h (HFirst k) (as @ n # bs)" "distinct (as @ n # bs)"
  shows "\<exists>h'. hlist_del h n = Inr h' \<and> hchain h' (HFirst k) (as @ bs)
    \<and> (\<forall>j. j \<noteq> k \<longrightarrow> hfirst h' j = hfirst h j)
    \<and> (\<forall>x. x \<notin> set (as @ n # bs) \<longrightarrow> x \<noteq> 0 \<longrightarrow> hnext h' x = hnext h x \<and> hpprev h' x = hpprev h x)"
proof -
  let ?pp = "hend (HFirst k) as" and ?q = "hd (bs @ [0])"
  have c: "hseg h (HFirst k) as" "hfield h ?pp = n" "n \<noteq> 0" "hpprev h n = ?pp" "hchain h (HNext n) bs"
    using assms(1) by (auto simp: hchain_append)
  have q: "hnext h n = ?q" using hchain_first [OF c(5)] by simp
  have z: "0 \<notin> set (as @ n # bs)" using assms(1) by (rule hchain_nz)
  have la: "last as \<in> set as" if "as \<noteq> []" using that by simp
  have pa: "x \<in> set as" if "?pp = HNext x" for x using that la by (auto simp: hend_eq split: if_splits)
  have pp: "?pp \<noteq> HNull" "?pp \<noteq> HNext 0" "?pp \<noteq> HNext n" "\<And>x. ?pp = HNext x \<Longrightarrow> x \<in> set as"
    using z assms(2) pa [of 0] pa [of n] pa by (auto simp: hend_eq)
  obtain h1 where h1: "hstore h ?pp ?q = Inr h1" "hfield h1 ?pp = ?q" "hpprev h1 = hpprev h"
      "\<And>r. r \<noteq> ?pp \<Longrightarrow> hfield h1 r = hfield h r"
  proof (cases ?pp)
    case (HFirst j)
    show ?thesis by (rule that [of "h\<lparr>hfirst := (hfirst h)(j := ?q)\<rparr>"]) (auto simp: HFirst hfield_hfirst)
  next
    case (HNext m)
    show ?thesis using pp by (intro that [of "h\<lparr>hnext := (hnext h)(m := ?q)\<rparr>"]) (auto simp: HNext hfield_hnext)
  qed (use pp in simp)
  have h4: "hnext h1 x = hnext h x" if "x \<notin> set as" for x
    using h1(4) [of "HNext x"] pa [of x] that by (metis hfield.simps(3))
  let ?h2 = "if ?q \<noteq> 0 then h1\<lparr>hpprev := (hpprev h1)(?q := ?pp)\<rparr> else h1"
  define h3 where "h3 = ?h2\<lparr>hnext := (hnext ?h2)(n := 0), hpprev := (hpprev ?h2)(n := HNull)\<rparr>"
  have "hlist_del h n = Inr h3"
    using c q h1 pp by (simp add: hlist_del_def get_pprev_def set_pprev_def INIT_HLIST_NODE_def h3_def)
  moreover have fld: "hfield h3 r = hfield h1 r" if "r \<noteq> HNext n" for r
    using that by (cases r) (auto simp: h3_def)
  have pv: "hpprev h3 x = hpprev h x" if "x \<noteq> n" "x \<noteq> ?q" for x
    using that h1(3) by (simp add: h3_def)
  have qs: "?q \<in> set bs \<or> (?q = 0 \<and> bs = [])" by (cases bs) auto
  have lx: "x \<noteq> last as \<and> x \<in> set as \<and> x \<noteq> n" if "x \<in> set (butlast as)" for x
  proof -
    have "as \<noteq> []" using that by auto
    then obtain us l where "as = us @ [l]" by (metis rev_exhaust)
    then show ?thesis using that assms(2) by auto
  qed
  have s1: "hseg h3 (HFirst k) as"
  proof -
    have "hseg h3 (HFirst k) as = hseg h (HFirst k) as"
    proof (rule hseg_cong)
      assume "as \<noteq> []"
      then show "hfield h3 (HFirst k) = hfield h (HFirst k)" using fld [of "HFirst k"] h1(4) [of "HFirst k"] by (simp add: hend_eq)
    next
      fix x assume x: "x \<in> set (butlast as)"
      have "as \<noteq> []" using x by auto
      then show "hnext h3 x = hnext h x" using lx [OF x] fld [of "HNext x"] h1(4) [of "HNext x"] by (simp add: hend_eq)
    next
      fix x assume "x \<in> set as"
      then show "hpprev h3 x = hpprev h x" using assms(2) qs z by (intro pv) auto
    qed
    then show ?thesis using c(1) by simp
  qed
  have s2: "hchain h3 ?pp bs"
  proof (cases bs)
    case Nil
    then show ?thesis using fld [OF pp(3)] h1(2) by simp
  next
    case (Cons b bs')
    have "hchain h3 (HNext b) bs' = hchain h (HNext b) bs'"
    proof (rule hchain_cong)
      show "hfield h3 (HNext b) = hfield h (HNext b)"
        using fld [of "HNext b"] h4 [of b] assms(2) Cons by auto
      fix x assume x: "x \<in> set bs'"
      then have "x \<noteq> n" "x \<noteq> ?q" "x \<notin> set as" using assms(2) Cons by auto
      then show "hnext h3 x = hnext h x \<and> hpprev h3 x = hpprev h x"
        using fld [of "HNext x"] h4 [of x] pv [of x] by auto
    qed
    moreover have "hpprev h3 b = ?pp" using Cons assms(2) z by (auto simp: h3_def)
    moreover have "hfield h3 ?pp = b" using fld [OF pp(3)] h1(2) Cons by simp
    ultimately show ?thesis using c(5) Cons by simp
  qed
  have fr: "hnext h3 x = hnext h x \<and> hpprev h3 x = hpprev h x" if "x \<notin> set (as @ n # bs)" "x \<noteq> 0" for x
    using that fld [of "HNext x"] h4 [of x] pv [of x] qs by auto
  have fs: "hfirst h3 j = hfirst h j" if "j \<noteq> k" for j
    using fld [of "HFirst j"] h1(4) [of "HFirst j"] that by (auto simp: hend_eq split: if_splits)
  show ?thesis using calculation s1 s2 fr fs hchain_append by blast
qed

lemma hlist_del_hrep:
  assumes "hrep h K t" "k \<in> K" "t k = as @ n # bs"
  shows "\<exists>h'. hlist_del h n = Inr h' \<and> hrep h' K (t(k := as @ bs))"
proof -
  have c: "hchain h (HFirst k) (as @ n # bs)" "distinct (as @ n # bs)"
    using hrep_D [OF assms(1,2)] assms(3) by auto
  obtain h' where h': "hlist_del h n = Inr h'" "hchain h' (HFirst k) (as @ bs)"
    "\<And>j. j \<noteq> k \<Longrightarrow> hfirst h' j = hfirst h j"
    "\<And>x. x \<notin> set (as @ n # bs) \<Longrightarrow> x \<noteq> 0 \<Longrightarrow> hnext h' x = hnext h x \<and> hpprev h' x = hpprev h x"
    using hchain_del [OF c] by blast
  have "hrep h' K (t(k := as @ bs))"
  proof (rule hrep_update [OF assms(1,2) h'(2)])
    fix x j assume j: "j \<in> K" "j \<noteq> k" "x \<in> set (t j)"
    have "x \<noteq> 0" using hchain_nz hrep_D [OF assms(1) j(1)] j(3) by metis
    moreover have "x \<notin> set (t k)" using hrep_disjoint [OF assms(1,2) j] .
    ultimately show "hnext h' x = hnext h x \<and> hpprev h' x = hpprev h x" using h'(4) assms(3) by auto
  qed (use c h'(3) assms(3) in auto)
  then show ?thesis using h'(1) by blast
qed

lemma unhashed_del:
  assumes "hrep h K t" "k \<in> K" "t k = as @ n # bs"
  shows "unhashed n K (t(k := as @ bs))"
proof -
  have c: "0 \<notin> set (as @ n # bs)" "distinct (as @ n # bs)"
    using hrep_D [OF assms(1,2)] hchain_nz [of h "HFirst k" "t k"] assms(3) by auto
  have "n \<notin> set (t j)" if "j \<in> K" "j \<noteq> k" for j
    using hrep_disjoint [OF assms(1) that(1) assms(2)] that assms(3) by auto
  then show ?thesis using c by (auto simp: unhashed_def)
qed

lemma unhashed_add: "unhashed m K t \<Longrightarrow> m \<noteq> n \<Longrightarrow> k \<in> K \<Longrightarrow> unhashed m K (t(k := n # t k))"
  by (auto simp: unhashed_def)

interpretation hash_chains: chains hrep unhashed hlist_add_head hlist_del
  by unfold_locales
    (rule hlist_add_head_hrep hlist_del_hrep unhashed_del unhashed_add; assumption)+

lemma hlist_walk_chain:
  "hchain h p xs \<Longrightarrow> length xs < fuel \<Longrightarrow> hlist_walk fuel h (hfield h p) = Inr xs"
proof (induction xs arbitrary: p fuel)
  case Nil
  then show ?case by (cases fuel) auto
next
  case (Cons x xs)
  obtain f where f: "fuel = Suc f" "length xs < f" using Cons.prems(2) by (cases fuel) auto
  show ?case using Cons.IH [of "HNext x" f] Cons.prems f by auto
qed

lemma hlist_for_each_entry_hrep:
  "hrep h K t \<Longrightarrow> k \<in> K \<Longrightarrow> length (t k) < fuel \<Longrightarrow> hlist_for_each_entry fuel h k = Inr (t k)"
  using hlist_walk_chain [of h "HFirst k" "t k" fuel] by (simp add: hrep_def hlist_for_each_entry_def)

lemma hlist_empty_hrep: "hrep h K t \<Longrightarrow> k \<in> K \<Longrightarrow> hlist_empty h k \<longleftrightarrow> t k = []"
  using hrep_D [of h K t k] by (cases "t k") (auto simp: hlist_empty_def)

section \<open>Properties\<close>

text \<open>
  Cutting a list after one of its nodes into a new head and splicing the new list back at the front
  restores the list, in the same order and with every other list untouched; no step follows a
  NULL pointer.
\<close>

theorem list_cut_splice_roundtrip:
  assumes "rings h K t" "k \<in> K" "unlinked l K t" "e \<in> set (t k)"
  shows "\<exists>h'. rbind (list_cut_position h l k e) (\<lambda>h. list_splice h l k) = Inr h' \<and> rings h' K t"
proof -
  obtain as bs where e: "t k = as @ e # bs" using assms(4) by (auto simp: in_set_conv_decomp)
  have l: "l \<notin> K" "l \<noteq> k" using assms(2,3) by (auto simp: unlinked_def)
  obtain h1 where c: "list_cut_position h l k e = Inr h1" "rings h1 (insert l K) (t(k := bs, l := as @ [e]))"
    using list_cut_position_rings [OF assms(1-3) e] by blast
  obtain h2 where s: "list_splice h1 l k = Inr h2"
      "rings h2 (insert l K - {l}) ((t(k := bs, l := as @ [e]))(k := (as @ [e]) @ bs))"
    using list_splice_rings [OF c(2), of k l] assms(2) l by auto
  have "rings h2 K t"
  proof -
    have "insert l K - {l} = K" using l by simp
    moreover have "((t(k := bs, l := as @ [e]))(k := (as @ [e]) @ bs)) j = t j" if "j \<in> K" for j
      using that l e by auto
    ultimately show ?thesis using s(2) by (simp add: rings_def)
  qed
  then show ?thesis using c(1) s(1) by simp
qed

definition sample_ring :: list_heap where
  "sample_ring = \<lparr>nxt = (\<lambda>_. 0)(1 := 2, 2 := 3, 3 := 1), prv = (\<lambda>_. 0)(1 := 3, 3 := 2, 2 := 1)\<rparr>"

lemma sample_ring: "rings sample_ring {1} ((\<lambda>_. [])(1 := [2, 3]))" "unlinked 9 {1} ((\<lambda>_. [])(1 := [2, 3]))"
  by (simp_all add: rings_def ring_def sample_ring_def unlinked_def)

theorem list_cut_splice_roundtrip_witness:
  "\<exists>h'. rbind (list_cut_position sample_ring 9 1 2) (\<lambda>h. list_splice h 9 1) = Inr h'
     \<and> rings h' {1} ((\<lambda>_. [])(1 := [2, 3]))"
  by (rule list_cut_splice_roundtrip [OF sample_ring(1) _ sample_ring(2)]) simp_all

text \<open>
  Joining two queues: after \<open>list_splice_tail\<close> the iteration over the list ends and visits the nodes the list
  had, followed by those of the other list, each in their order.
\<close>

theorem list_splice_tail_visits:
  assumes "rings h K t" "k \<in> K" "l \<in> K" "k \<noteq> l" "length (t k) + length (t l) < fuel"
  shows "\<exists>h'. list_splice_tail h l k = Inr h' \<and> list_for_each_entry fuel h' k = Inr (t k @ t l)"
proof -
  obtain h' where h': "list_splice_tail h l k = Inr h'" "rings h' (K - {l}) (t(k := t k @ t l))"
    using list_splice_tail_rings [OF assms(1-4)] by blast
  then show ?thesis
    using list_for_each_entry_ring [OF rings_D [OF h'(2), of k], of fuel] assms by simp
qed

theorem list_splice_tail_visits_witness:
  "\<exists>h'. list_splice_tail (sample_ring\<lparr>nxt := (nxt sample_ring)(7 := 8, 8 := 7), prv := (prv sample_ring)(7 := 8, 8 := 7)\<rparr>) 7 1 = Inr h'
    \<and> list_for_each_entry 4 h' 1 = Inr [2, 3, 8]"
  using list_splice_tail_visits [of "sample_ring\<lparr>nxt := (nxt sample_ring)(7 := 8, 8 := 7), prv := (prv sample_ring)(7 := 8, 8 := 7)\<rparr>"
      "{1, 7}" "(\<lambda>_. [])(1 := [2, 3], 7 := [8])" 1 7 4]
  by (simp add: rings_def ring_def sample_ring_def)

text \<open>
  A node that is hashed and removed again leaves its bucket as it was: the iteration over the
  bucket ends and visits the nodes that were there before, for any bucket of a table of chains.
\<close>

theorem hlist_add_del_roundtrip:
  assumes "hrep h K t" "k \<in> K" "unhashed n K t" "j \<in> K" "length (t j) < fuel"
  shows "rbind (rbind (hlist_add_head h n k) (\<lambda>h. hlist_del h n)) (\<lambda>h. hlist_for_each_entry fuel h j) = Inr (t j)"
proof -
  obtain h' where "rbind (hlist_add_head h n k) (\<lambda>h. hlist_del h n) = Inr h'" "hrep h' K t"
    using hash_chains.add_del [OF assms(1-3)] by blast
  then show ?thesis using hlist_for_each_entry_hrep assms(4,5) by simp
qed

definition sample_chains :: hlist_heap where
  "sample_chains = \<lparr>hfirst = (\<lambda>_. 0)(0 := 5), hnext = (\<lambda>_. 0), hpprev = (\<lambda>_. HNull)(5 := HFirst 0)\<rparr>"

theorem hlist_add_del_roundtrip_witness:
  "rbind (rbind (hlist_add_head sample_chains 6 0) (\<lambda>h. hlist_del h 6)) (\<lambda>h. hlist_for_each_entry 2 h 0) = Inr [5]"
  using hlist_add_del_roundtrip [of sample_chains "{0}" "(\<lambda>_. [])(0 := [5])" 0 6 0 2]
  by (simp add: hrep_def unhashed_def sample_chains_def)

end
