(* ===== verification/Cell_Store.thy ===== *)
theory Cell_Store
  imports C_Prelude
begin

text \<open>
  The contract of a container of numbered cells of fixed size: a cell that is written reads back,
  and no other cell changes. The device (whole blocks), an indirect block (32-bit block numbers)
  and an inode block (inodes of 64 bytes) all promise it, and what the file system does
  with them is proved from it.
\<close>

locale cell_store =
  fixes wf :: "'c \<Rightarrow> bool"
    and ok :: "'c \<Rightarrow> nat \<Rightarrow> bool"
    and val_ok :: "'v \<Rightarrow> bool"
    and get :: "'c \<Rightarrow> nat \<Rightarrow> 'v"
    and put :: "'c \<Rightarrow> nat \<Rightarrow> 'v \<Rightarrow> 'c"
  assumes wf_put: "wf c \<Longrightarrow> ok c i \<Longrightarrow> val_ok v \<Longrightarrow> wf (put c i v)"
    and ok_put: "wf c \<Longrightarrow> ok c i \<Longrightarrow> val_ok v \<Longrightarrow> ok c j \<Longrightarrow> ok (put c i v) j"
    and get_put_same: "wf c \<Longrightarrow> ok c i \<Longrightarrow> val_ok v \<Longrightarrow> get (put c i v) i = v"
    and get_put_other:
      "wf c \<Longrightarrow> ok c i \<Longrightarrow> val_ok v \<Longrightarrow> ok c j \<Longrightarrow> i \<noteq> j \<Longrightarrow> get (put c i v) j = get c j"
begin

lemma get_put:
  "wf c \<Longrightarrow> ok c i \<Longrightarrow> val_ok v \<Longrightarrow> ok c j \<Longrightarrow> get (put c i v) j = (if i = j then v else get c j)"
  by (simp add: get_put_same get_put_other)

lemma fold_put:
  assumes "wf c" "\<forall>i\<in>set is. ok c i \<and> val_ok (f i)"
  shows "wf (fold (\<lambda>i c. put c i (f i)) is c) \<and>
    (\<forall>j. ok c j \<longrightarrow> ok (fold (\<lambda>i c. put c i (f i)) is c) j \<and>
      get (fold (\<lambda>i c. put c i (f i)) is c) j = (if j \<in> set is then f j else get c j))"
  using assms
proof (induction "is" arbitrary: c)
  case Nil
  then show ?case by simp
next
  case (Cons i "is")
  then have "wf (put c i (f i))" "\<forall>k\<in>set is. ok (put c i (f i)) k \<and> val_ok (f k)"
    by (simp_all add: wf_put ok_put)
  note IH = Cons.IH [OF this]
  show ?case
    using Cons.prems IH by (auto simp: get_put ok_put)
qed

end

end
