(* ===== verification/Free_Map.thy ===== *)
theory Free_Map
  imports C_Prelude
begin

text \<open>
  The contract between the file system's super block code and the bitmap of fs/bitmap.c it
  allocates from: which numbers are in use, what allocation and release do to them, and
  how both fail. The super block code is a client of this interface only; Bitmap provides it.
\<close>

locale free_map =
  fixes wf :: "'b \<Rightarrow> bool"
    and cap :: "'b \<Rightarrow> nat"
    and used :: "'b \<Rightarrow> nat set"
    and alloc :: "'b \<Rightarrow> nat \<Rightarrow> (int \<times> nat \<times> 'b) res"
    and release :: "'b \<Rightarrow> nat \<Rightarrow> 'b res"
  assumes used_bound: "wf b \<Longrightarrow> used b \<subseteq> {..<cap b}"
    and alloc_full: "wf b \<Longrightarrow> used b = {..<cap b} \<Longrightarrow> alloc b i0 = Inr (- ENOSPC, i0, b)"
    and alloc_free: "wf b \<Longrightarrow> used b \<noteq> {..<cap b} \<Longrightarrow>
      \<exists>i b'. alloc b i0 = Inr (0, i, b') \<and> wf b' \<and> cap b' = cap b \<and>
        i < cap b \<and> i \<notin> used b \<and> used b' = insert i (used b) \<and> {..<i} \<subseteq> used b"
    and release_used: "wf b \<Longrightarrow> i \<in> used b \<Longrightarrow>
      \<exists>b'. release b i = Inr b' \<and> wf b' \<and> cap b' = cap b \<and> used b' = used b - {i}"
    and release_unused: "wf b \<Longrightarrow> i \<notin> used b \<Longrightarrow> release b i = Inl Assert_failed"
begin

lemma finite_used: "wf b \<Longrightarrow> finite (used b)"
  using used_bound finite_subset by blast

lemma card_used: "wf b \<Longrightarrow> card (used b) \<le> cap b"
  using used_bound [of b] card_mono [of "{..<cap b}" "used b"] by simp

lemma full_iff_card: "wf b \<Longrightarrow> used b = {..<cap b} \<longleftrightarrow> card (used b) = cap b"
  by (metis card_lessThan card_subset_eq finite_lessThan used_bound)

lemma alloc_cases:
  assumes "wf b"
  obtains "used b = {..<cap b}" "alloc b i0 = Inr (- ENOSPC, i0, b)"
  | i b' where "alloc b i0 = Inr (0, i, b')" "wf b'" "cap b' = cap b" "i < cap b"
      "i \<notin> used b" "used b' = insert i (used b)" "card (used b') = Suc (card (used b))" "{..<i} \<subseteq> used b"
proof (cases "used b = {..<cap b}")
  case True
  with assms that(1) alloc_full show ?thesis by blast
next
  case False
  then obtain i b' where "alloc b i0 = Inr (0, i, b')" "wf b'" "cap b' = cap b" "i < cap b"
      "i \<notin> used b" "used b' = insert i (used b)" "{..<i} \<subseteq> used b"
    using assms alloc_free by meson
  then show ?thesis using that(2) finite_used [OF assms] by simp
qed

lemma release_cases:
  assumes "wf b"
  obtains b' where "i \<in> used b" "release b i = Inr b'" "wf b'" "cap b' = cap b"
      "used b' = used b - {i}" "Suc (card (used b')) = card (used b)"
  | "i \<notin> used b" "release b i = Inl Assert_failed"
proof (cases "i \<in> used b")
  case True
  then obtain b' where "release b i = Inr b'" "wf b'" "cap b' = cap b" "used b' = used b - {i}"
    using assms release_used by blast
  moreover from this have "Suc (card (used b')) = card (used b)"
    using True finite_used [OF assms] card_Suc_Diff1 by metis
  ultimately show ?thesis using that(1) True by blast
qed (use assms release_unused that(2) in blast)

lemma alloc_result:
  assumes "wf b" "alloc b i0 = Inr (r, i, b')"
  shows "wf b' \<and> cap b' = cap b \<and>
    (if r = 0 then i < cap b \<and> i \<notin> used b \<and> used b' = insert i (used b)
     else r = - ENOSPC \<and> b' = b \<and> used b = {..<cap b})"
  using assms by (cases rule: alloc_cases [OF assms(1), of i0]) auto

lemma release_alloc:
  assumes "wf b" "alloc b i0 = Inr (0, i, b')"
  shows "\<exists>b''. release b' i = Inr b'' \<and> used b'' = used b"
proof -
  have b': "wf b'" "i \<in> used b'" "used b' - {i} = used b"
    using alloc_result [OF assms] by auto
  then show ?thesis using release_used [OF b'(1,2)] by auto
qed

end

end
