(* ===== verification/Bitmap.thy ===== *)
theory Bitmap
  imports Free_Map
begin

unbundle bit_operations_syntax

text \<open>
  fs/bitmap.c: a fixed-size array of bits in bytes. \<open>bm_nbits\<close> is the \<open>u_int32_t\<close> field
  \<open>nbits\<close>, \<open>bm_v\<close> the malloc'ed byte array \<open>v\<close>; \<open>u_int32_t\<close> values are
  natural numbers and the one sum that can wrap (in DIVROUNDUP) is taken modulo
  \<open>2 ^ 32\<close>. The outcomes of the two calls of malloc are arguments of \<open>bitmap_create\<close>.
  Lemmas: what allocation returns on every bitmap, that every access stays inside \<open>v\<close>, that
  mark, unmark and isset agree on the set of bits, and that the bitmap is a free map.
\<close>

record bitmap =
  bm_nbits :: nat
  bm_v :: "u8 list"

definition DIVROUNDUP32 :: "nat \<Rightarrow> nat" where
  "DIVROUNDUP32 a = ((a + 8 - 1) mod 2 ^ 32) div 8"

definition bitmap_create :: "bool \<Rightarrow> bool \<Rightarrow> nat \<Rightarrow> (int \<times> bitmap option) res" where
  "bitmap_create m1 m2 nbits =
     (let words = DIVROUNDUP32 nbits in
      if \<not> m1 then Inr (- ENOMEM, None)
      else if \<not> m2 then Inr (- ENOMEM, None)
      else
        (let v = replicate words 0 in
         if nbits div 8 < words then
           (let ix = words - 1; overbits = nbits - ix * 8 in
            rbind (c_assert (nbits div 8 = words - 1)) (\<lambda>_.
            rbind (c_assert (0 < overbits \<and> overbits < 8)) (\<lambda>_.
            Inr (0, Some \<lparr>bm_nbits = nbits,
              bm_v = v[ix := fold (\<lambda>j w. w OR push_bit j 1) [overbits..<8] (v ! ix)]\<rparr>))))
         else Inr (0, Some \<lparr>bm_nbits = nbits, bm_v = v\<rparr>)))"

definition bitmap_getdata :: "bitmap \<Rightarrow> u8 list" where
  "bitmap_getdata b = bm_v b"

definition bitmap_getsize :: "bitmap \<Rightarrow> int" where
  "bitmap_getsize b = int (bm_nbits b)"

text \<open>The inner loop of \<open>bitmap_alloc\<close>: the first clear bit of a byte.\<close>

function bitmap_alloc_offset :: "u8 \<Rightarrow> nat \<Rightarrow> nat option" where
  "bitmap_alloc_offset w offset =
     (if offset < 8 then
        if w AND push_bit offset 1 = 0 then Some offset else bitmap_alloc_offset w (Suc offset)
      else None)"
  by pat_completeness auto
termination by (relation "measure (\<lambda>(w, offset). 8 - offset)") auto

function bitmap_alloc_from :: "bitmap \<Rightarrow> nat \<Rightarrow> nat \<Rightarrow> (int \<times> nat \<times> bitmap) res" where
  "bitmap_alloc_from b index ix =
     (if ix < DIVROUNDUP32 (bm_nbits b) then
        if length (bm_v b) \<le> ix then Inl Bad_access
        else if bm_v b ! ix \<noteq> 0xff then
          (case bitmap_alloc_offset (bm_v b ! ix) 0 of
             Some offset \<Rightarrow>
               rbind (c_assert (ix * 8 + offset < bm_nbits b)) (\<lambda>_.
               Inr (0, ix * 8 + offset,
                 b\<lparr>bm_v := (bm_v b)[ix := bm_v b ! ix OR push_bit offset 1]\<rparr>))
           | None \<Rightarrow> Inl Assert_failed)
        else bitmap_alloc_from b index (Suc ix)
      else Inr (- ENOSPC, index, b))"
  by pat_completeness auto
termination by (relation "measure (\<lambda>(b, index, ix). DIVROUNDUP32 (bm_nbits b) - ix)") auto

definition bitmap_alloc :: "bitmap \<Rightarrow> nat \<Rightarrow> (int \<times> nat \<times> bitmap) res" where
  "bitmap_alloc b index = bitmap_alloc_from b index 0"

definition bitmap_translate :: "nat \<Rightarrow> nat \<times> u8" where
  "bitmap_translate bitno = (bitno div 8, push_bit (bitno mod 8) 1)"

definition bitmap_mark :: "bitmap \<Rightarrow> nat \<Rightarrow> bitmap res" where
  "bitmap_mark b index =
     rbind (c_assert (index < bm_nbits b)) (\<lambda>_.
       let (ix, mask) = bitmap_translate index in
       if length (bm_v b) \<le> ix then Inl Bad_access
       else
         rbind (c_assert (bm_v b ! ix AND mask = 0)) (\<lambda>_.
         Inr (b\<lparr>bm_v := (bm_v b)[ix := bm_v b ! ix OR mask]\<rparr>)))"

definition bitmap_unmark :: "bitmap \<Rightarrow> nat \<Rightarrow> bitmap res" where
  "bitmap_unmark b index =
     rbind (c_assert (index < bm_nbits b)) (\<lambda>_.
       let (ix, mask) = bitmap_translate index in
       if length (bm_v b) \<le> ix then Inl Bad_access
       else
         rbind (c_assert (bm_v b ! ix AND mask \<noteq> 0)) (\<lambda>_.
         Inr (b\<lparr>bm_v := (bm_v b)[ix := bm_v b ! ix AND NOT mask]\<rparr>)))"

definition bitmap_isset :: "bitmap \<Rightarrow> nat \<Rightarrow> int res" where
  "bitmap_isset b index =
     (let (ix, mask) = bitmap_translate index in
      if length (bm_v b) \<le> ix then Inl Bad_access else Inr (uint (bm_v b ! ix AND mask)))"

function bitmap_nr_from :: "bitmap \<Rightarrow> nat \<Rightarrow> int \<Rightarrow> int res" where
  "bitmap_nr_from b i nr =
     (if i < bm_nbits b then
        rbind (bitmap_isset b i) (\<lambda>r. bitmap_nr_from b (Suc i) (if r \<noteq> 0 then nr + 1 else nr))
      else Inr nr)"
  by pat_completeness auto
termination by (relation "measure (\<lambda>(b, i, nr). bm_nbits b - i)") auto

definition bitmap_nr_allocated :: "bitmap \<Rightarrow> int res" where
  "bitmap_nr_allocated b = bitmap_nr_from b 0 0"

declare bitmap_alloc_offset.simps [simp del] bitmap_alloc_from.simps [simp del]
  bitmap_nr_from.simps [simp del]

section \<open>The set of bits\<close>

definition bm_bit :: "u8 list \<Rightarrow> nat \<Rightarrow> bool" where
  "bm_bit v i = bit (v ! (i div 8)) (i mod 8)"

definition bm_set :: "bitmap \<Rightarrow> nat set" where
  "bm_set b = {i. i < bm_nbits b \<and> bm_bit (bm_v b) i}"

text \<open>
  Well-formed: the array has \<open>DIVROUNDUP(nbits, 8)\<close> bytes (with no wrap-around), and the bits of
  its last byte past \<open>nbits\<close> are set, so that allocation never meets them.
\<close>

definition bitmap_wf :: "bitmap \<Rightarrow> bool" where
  "bitmap_wf b \<longleftrightarrow> bm_nbits b + 8 \<le> 2 ^ 32 \<and> length (bm_v b) = (bm_nbits b + 7) div 8 \<and>
     (\<forall>i. bm_nbits b \<le> i \<longrightarrow> i < 8 * length (bm_v b) \<longrightarrow> bm_bit (bm_v b) i)"

lemma mask_eq_0_iff: "(w :: u8) AND push_bit k 1 = 0 \<longleftrightarrow> \<not> bit w k"
  by (simp add: push_bit_of_1 and_exp_eq_0_iff_not_bit)

lemmas mask_simps = push_bit_of_1 and_exp_eq_0_iff_not_bit

lemma DIVROUNDUP32_wf: "bitmap_wf b \<Longrightarrow> DIVROUNDUP32 (bm_nbits b) = length (bm_v b)"
  by (simp add: bitmap_wf_def DIVROUNDUP32_def)

lemma byte_all_set_iff: "(w :: u8) = 0xff \<longleftrightarrow> (\<forall>k<8. bit w k)"
proof
  assume "\<forall>k<8. bit w k"
  moreover have "bit (0xff :: u8) k" if "k < 8" for k
  proof -
    have "(0xff :: u8) = mask 8" by (simp add: mask_eq_exp_minus_1)
    then show ?thesis using that by (simp only: bit_mask_iff) simp
  qed
  ultimately show "w = 0xff" by (intro bit_word_eqI) auto
next
  assume "w = 0xff"
  then have "w = mask 8" by (simp add: mask_eq_exp_minus_1)
  then show "\<forall>k<8. bit w k" by (simp only: bit_mask_iff) simp
qed

lemma bitmap_alloc_offset_spec:
  "offset \<le> 8 \<Longrightarrow>
   (case bitmap_alloc_offset w offset of
      Some k \<Rightarrow> offset \<le> k \<and> k < 8 \<and> \<not> bit w k \<and> (\<forall>j. offset \<le> j \<longrightarrow> j < k \<longrightarrow> bit w j)
    | None \<Rightarrow> \<forall>j. offset \<le> j \<longrightarrow> j < 8 \<longrightarrow> bit w j)"
proof (induction w offset rule: bitmap_alloc_offset.induct)
  case (1 w offset)
  show ?case
  proof (cases "offset < 8 \<and> bit w offset")
    case True
    then have "w AND push_bit offset 1 \<noteq> 0" by (simp only: mask_eq_0_iff) simp
    with True "1.IH" have "case bitmap_alloc_offset w (Suc offset) of
        Some k \<Rightarrow> Suc offset \<le> k \<and> k < 8 \<and> \<not> bit w k \<and> (\<forall>j. Suc offset \<le> j \<longrightarrow> j < k \<longrightarrow> bit w j)
      | None \<Rightarrow> \<forall>j. Suc offset \<le> j \<longrightarrow> j < 8 \<longrightarrow> bit w j"
      by simp
    with True show ?thesis
      by (subst bitmap_alloc_offset.simps)
        (auto simp: mask_simps split: option.splits dest: le_eq_less_or_eq [THEN iffD1])
  qed (subst bitmap_alloc_offset.simps, use "1.prems" in \<open>auto simp: mask_simps\<close>)
qed

lemma bm_bit_update:
  assumes "ix < length v"
  shows "bm_bit (v[ix := w]) i = (if i div 8 = ix then bit w (i mod 8) else bm_bit v i)"
  using assms by (auto simp: bm_bit_def nth_list_update)


abbreviation bm_setbit :: "bitmap \<Rightarrow> nat \<Rightarrow> bitmap" where
  "bm_setbit b i \<equiv>
     b\<lparr>bm_v := (bm_v b)[i div 8 := bm_v b ! (i div 8) OR 2 ^ (i mod 8)]\<rparr>"

abbreviation bm_clearbit :: "bitmap \<Rightarrow> nat \<Rightarrow> bitmap" where
  "bm_clearbit b i \<equiv>
     b\<lparr>bm_v := (bm_v b)[i div 8 := bm_v b ! (i div 8) AND NOT (2 ^ (i mod 8))]\<rparr>"

lemma div8_eq_iff: "i div 8 = j div 8 \<and> i mod 8 = j mod 8 \<longleftrightarrow> i = (j :: nat)"
  by (metis div_mult_mod_eq)

lemma div8_bound: "i < n \<Longrightarrow> i div 8 < (n + 7) div 8" for i n :: nat
  by simp

lemma wf_length: "bitmap_wf b \<Longrightarrow> i < bm_nbits b \<Longrightarrow> i div 8 < length (bm_v b)"
  by (simp add: bitmap_wf_def)

lemma mod8_small [simp]: "(i :: nat) mod 8 < 8"
  by simp

lemma bm_bit_setbit:
  assumes "j div 8 < length v"
  shows "bm_bit (v[j div 8 := v ! (j div 8) OR 2 ^ (j mod 8)]) i \<longleftrightarrow> i = j \<or> bm_bit v i"
proof -
  have "bit ((2 :: u8) ^ (j mod 8)) (i mod 8) \<longleftrightarrow> i mod 8 = j mod 8"
    by (auto simp: bit_simps)
  then show ?thesis
    using assms div8_eq_iff [of i j] by (auto simp: bm_bit_def nth_list_update bit_or_iff)
qed

lemma bm_bit_clearbit:
  assumes "j div 8 < length v"
  shows "bm_bit (v[j div 8 := v ! (j div 8) AND NOT (2 ^ (j mod 8))]) i \<longleftrightarrow> i \<noteq> j \<and> bm_bit v i"
proof -
  have "bit ((2 :: u8) ^ (j mod 8)) (i mod 8) \<longleftrightarrow> i mod 8 = j mod 8"
    by (auto simp: bit_simps)
  moreover have "i mod 8 < 8" by simp
  ultimately show ?thesis
    using assms div8_eq_iff [of i j]
    by (auto simp: bm_bit_def nth_list_update bit_and_iff bit_not_iff)
qed

lemma wf_setbit: "bitmap_wf b \<Longrightarrow> j < bm_nbits b \<Longrightarrow> bitmap_wf (bm_setbit b j)"
  by (auto simp: bitmap_wf_def bm_bit_setbit)

lemma wf_clearbit: "bitmap_wf b \<Longrightarrow> j < bm_nbits b \<Longrightarrow> bitmap_wf (bm_clearbit b j)"
  by (auto simp: bitmap_wf_def bm_bit_clearbit)

lemma set_setbit: "bitmap_wf b \<Longrightarrow> j < bm_nbits b \<Longrightarrow> bm_set (bm_setbit b j) = insert j (bm_set b)"
  by (auto simp: bm_set_def bm_bit_setbit wf_length)

lemma set_clearbit: "bitmap_wf b \<Longrightarrow> j < bm_nbits b \<Longrightarrow> bm_set (bm_clearbit b j) = bm_set b - {j}"
  by (auto simp: bm_set_def bm_bit_clearbit wf_length)

lemma byte_bits: "(\<forall>k<8. bit (v ! ix) k) \<longleftrightarrow> (\<forall>i. 8 * ix \<le> i \<longrightarrow> i < 8 * Suc ix \<longrightarrow> bm_bit v i)"
proof safe
  fix i assume "\<forall>k<8. bit (v ! ix) k" "8 * ix \<le> i" "i < 8 * Suc ix"
  moreover from this have "i div 8 = ix" by simp
  ultimately show "bm_bit v i" by (simp add: bm_bit_def)
next
  fix k :: nat assume "\<forall>i. 8 * ix \<le> i \<longrightarrow> i < 8 * Suc ix \<longrightarrow> bm_bit v i" "k < 8"
  then have "bm_bit v (8 * ix + k)" by simp
  with \<open>k < 8\<close> show "bit (v ! ix) k" by (simp add: bm_bit_def)
qed

definition alloc_outcome :: "bitmap \<Rightarrow> nat \<Rightarrow> (int \<times> nat \<times> bitmap) res \<Rightarrow> bool" where
  "alloc_outcome b index r \<longleftrightarrow>
     (\<exists>i. r = Inr (0, i, bm_setbit b i) \<and> i < bm_nbits b \<and> \<not> bm_bit (bm_v b) i \<and>
        (\<forall>j<i. bm_bit (bm_v b) j)) \<or>
     (r = Inr (- ENOSPC, index, b) \<and> (\<forall>i<8 * length (bm_v b). bm_bit (bm_v b) i))"

lemma bitmap_alloc_from_outcome:
  assumes "bitmap_wf b" "ix \<le> length (bm_v b)" "\<forall>i<8 * ix. bm_bit (bm_v b) i"
  shows "alloc_outcome b index (bitmap_alloc_from b index ix)"
  using assms
proof (induction b index ix rule: bitmap_alloc_from.induct)
  case (1 b index ix)
  note unf = bitmap_alloc_from.simps [of b index ix]
  note max = DIVROUNDUP32_wf [OF "1.prems"(1)]
  consider "ix = length (bm_v b)" | "ix < length (bm_v b)" "bm_v b ! ix = 0xff"
    | "ix < length (bm_v b)" "bm_v b ! ix \<noteq> 0xff"
    using "1.prems"(2) by linarith
  then show ?case
  proof cases
    case 1
    with unf max have "bitmap_alloc_from b index ix = Inr (- ENOSPC, index, b)" by simp
    then show ?thesis using 1 "1.prems"(3) by (simp add: alloc_outcome_def)
  next
    case 2
    then have "\<forall>i. 8 * ix \<le> i \<longrightarrow> i < 8 * Suc ix \<longrightarrow> bm_bit (bm_v b) i"
      by (simp only: byte_bits [symmetric] byte_all_set_iff [symmetric])
    then have "\<forall>i<8 * Suc ix. bm_bit (bm_v b) i"
      using "1.prems"(3) by (meson not_le_imp_less)
    then show ?thesis using 2 "1.IH" "1.prems"(1) by (simp add: unf max)
  next
    case 3
    then obtain k where k: "bitmap_alloc_offset (bm_v b ! ix) 0 = Some k" "k < 8"
        "\<not> bit (bm_v b ! ix) k" "\<forall>j<k. bit (bm_v b ! ix) j"
      using bitmap_alloc_offset_spec [of 0 "bm_v b ! ix"] byte_all_set_iff [of "bm_v b ! ix"]
      by (auto split: option.splits)
    let ?i = "ix * 8 + k"
    have i: "?i div 8 = ix" "?i mod 8 = k" using k(2) by simp_all
    have clear: "\<not> bm_bit (bm_v b) ?i" using k(3) i by (simp add: bm_bit_def)
    have "?i < 8 * length (bm_v b)" using 3 k(2) by linarith
    then have "?i < bm_nbits b" using clear "1.prems"(1) by (meson bitmap_wf_def not_le_imp_less)
    moreover have "bm_bit (bm_v b) j" if "j < ?i" for j
    proof (cases "j < 8 * ix")
      case False
      then obtain r where "j = 8 * ix + r" by (metis le_Suc_ex not_less)
      then have "j div 8 = ix" "j mod 8 < k" using that k(2) by simp_all
      then show ?thesis using k(4) by (simp add: bm_bit_def)
    qed (use "1.prems"(3) in blast)
    ultimately show ?thesis
      using 3 k(1) clear i by (simp add: unf max alloc_outcome_def)
  qed
qed

lemma bitmap_alloc_outcome: "bitmap_wf b \<Longrightarrow> alloc_outcome b index (bitmap_alloc b index)"
  by (simp add: bitmap_alloc_def bitmap_alloc_from_outcome)

lemma all_bits_iff: "bitmap_wf b \<Longrightarrow> (\<forall>i<8 * length (bm_v b). bm_bit (bm_v b) i) \<longleftrightarrow> bm_set b = {..<bm_nbits b}"
  by (auto simp: bitmap_wf_def bm_set_def set_eq_iff)

lemma bitmap_unmark_eq:
  assumes "bitmap_wf b"
  shows "bitmap_unmark b i = (if i \<in> bm_set b then Inr (bm_clearbit b i) else Inl Assert_failed)"
  using assms
  by (auto simp: bitmap_unmark_def bitmap_translate_def rbind_c_assert bm_set_def bm_bit_def
      mask_simps leD dest: wf_length)

lemma bitmap_mark_eq:
  assumes "bitmap_wf b"
  shows "bitmap_mark b i =
    (if i < bm_nbits b \<and> i \<notin> bm_set b then Inr (bm_setbit b i) else Inl Assert_failed)"
  using assms
  by (auto simp: bitmap_mark_def bitmap_translate_def rbind_c_assert bm_set_def bm_bit_def
      mask_simps leD dest: wf_length)

interpretation bm: free_map bitmap_wf bm_nbits bm_set bitmap_alloc bitmap_unmark
proof unfold_locales
  fix b :: bitmap and i i0
  show "bm_set b \<subseteq> {..<bm_nbits b}" by (auto simp: bm_set_def)
  assume wf: "bitmap_wf b"
  note out = bitmap_alloc_outcome [OF wf, of i0, unfolded alloc_outcome_def all_bits_iff [OF wf]]
  show "bitmap_alloc b i0 = Inr (- ENOSPC, i0, b)" if "bm_set b = {..<bm_nbits b}"
    using out that by (auto simp: bm_set_def)
  show "\<exists>i b'. bitmap_alloc b i0 = Inr (0, i, b') \<and> bitmap_wf b' \<and> bm_nbits b' = bm_nbits b \<and>
      i < bm_nbits b \<and> i \<notin> bm_set b \<and> bm_set b' = insert i (bm_set b) \<and> {..<i} \<subseteq> bm_set b"
    if "bm_set b \<noteq> {..<bm_nbits b}"
  proof -
    from out that obtain i where i: "bitmap_alloc b i0 = Inr (0, i, bm_setbit b i)"
        "i < bm_nbits b" "\<not> bm_bit (bm_v b) i" "\<forall>j<i. bm_bit (bm_v b) j"
      by auto
    then show ?thesis using wf wf_setbit set_setbit by (auto simp: bm_set_def)
  qed
  show "\<exists>b'. bitmap_unmark b i = Inr b' \<and> bitmap_wf b' \<and> bm_nbits b' = bm_nbits b \<and>
      bm_set b' = bm_set b - {i}" if "i \<in> bm_set b"
  proof -
    have "i < bm_nbits b" using that by (simp add: bm_set_def)
    then show ?thesis using that wf wf_clearbit set_clearbit by (simp add: bitmap_unmark_eq)
  qed
  show "bitmap_unmark b i = Inl Assert_failed" if "i \<notin> bm_set b"
    using that wf by (simp add: bitmap_unmark_eq)
qed


section \<open>Properties\<close>

section \<open>Creation, tests and the count\<close>

lemma roundup8: "(n + 7) div 8 = n div 8 + (if n mod 8 = 0 then 0 else 1)" for n :: nat
proof -
  have "n + 7 = 8 * (n div 8) + (n mod 8 + 7)" by simp
  then have "(n + 7) div 8 = n div 8 + (n mod 8 + 7) div 8"
    by (metis div_mult_self4 zero_neq_numeral)
  moreover have "(n mod 8 + 7) div 8 = (if n mod 8 = 0 then 0 else 1)"
    using mod_less_divisor [of 8 n] by (auto simp: div_nat_eqI)
  ultimately show ?thesis by simp
qed

lemma bit_fold_or: "bit (fold (\<lambda>j w. w OR push_bit j 1) xs (w :: u8)) k \<longleftrightarrow> bit w k \<or> (k \<in> set xs \<and> k < 8)"
  by (induction xs arbitrary: w) (auto simp: bit_or_iff bit_simps)

lemma bitmap_create_ok:
  assumes "n + 8 \<le> 2 ^ 32"
  shows "\<exists>b. bitmap_create True True n = Inr (0, Some b) \<and> bitmap_wf b \<and> bm_nbits b = n \<and> bm_set b = {}"
proof -
  let ?words = "(n + 7) div 8" and ?v = "replicate ((n + 7) div 8) (0 :: u8)"
  have words: "DIVROUNDUP32 n = ?words" using assms by (simp add: DIVROUNDUP32_def)
  show ?thesis
  proof (cases "n mod 8 = 0")
    case True
    then have eq: "n div 8 = ?words" "8 * ?words = n" by (auto simp: roundup8)
    have "bm_set \<lparr>bm_nbits = n, bm_v = ?v\<rparr> = {}"
      by (auto simp: bm_set_def bm_bit_def div8_bound)
    moreover have "bitmap_wf \<lparr>bm_nbits = n, bm_v = ?v\<rparr>"
      using assms eq(2) by (auto simp: bitmap_wf_def)
    ultimately show ?thesis using eq(1) by (auto simp: bitmap_create_def words)
  next
    case False
    let ?w = "fold (\<lambda>j w. w OR push_bit j 1) [n mod 8..<8] (0 :: u8)"
    let ?b = "\<lparr>bm_nbits = n, bm_v = ?v[n div 8 := ?w]\<rparr>"
    have d: "?words - 1 = n div 8" "n div 8 < ?words" using False by (simp_all add: roundup8)
    have "n - n div 8 * 8 = n mod 8" by (simp add: minus_div_mult_eq_mod)
    moreover have "n div 8 * 8 < n" using False by (metis calculation mod_greater_zero_iff_not_dvd dvd_eq_mod_eq_0 zero_less_diff)
    moreover have "?words - Suc 0 = n div 8" using d by simp
    ultimately have "bitmap_create True True n = Inr (0, Some ?b)"
      using d False by (simp add: bitmap_create_def words Let_def)
    moreover have bits: "bm_bit (bm_v ?b) i \<longleftrightarrow> n \<le> i" if "i < 8 * ?words" for i
    proof -
      have i: "i div 8 < ?words" "i div 8 \<le> n div 8" using that d by linarith+
      show ?thesis
      proof (cases "i div 8 = n div 8")
        case True
        then have "n \<le> i \<longleftrightarrow> n mod 8 \<le> i mod 8"
          by (metis mult_div_mod_eq nat_add_left_cancel_le)
        then show ?thesis
          using True i by (simp add: bm_bit_def bit_fold_or del: push_bit_of_1)
      next
        case False
        then have "i < n" using i(2) by (metis div_le_mono le_antisym linorder_not_le)
        then show ?thesis using False i by (simp add: bm_bit_def)
      qed
    qed
    ultimately show ?thesis using assms by (auto simp: bitmap_wf_def bm_set_def)
  qed
qed

lemma bitmap_create_fault: "\<not> (m1 \<and> m2) \<Longrightarrow> bitmap_create m1 m2 n = Inr (- ENOMEM, None)"
  by (auto simp: bitmap_create_def Let_def)

lemma bitmap_isset_eq:
  assumes "bitmap_wf b" "i < bm_nbits b"
  shows "\<exists>r. bitmap_isset b i = Inr r \<and> (r \<noteq> 0 \<longleftrightarrow> i \<in> bm_set b)"
proof -
  have "uint (bm_v b ! (i div 8) AND 2 ^ (i mod 8)) \<noteq> 0 \<longleftrightarrow> bit (bm_v b ! (i div 8)) (i mod 8)"
    by (simp only: uint_0_iff and_exp_eq_0_iff_not_bit simp_thms)
  then show ?thesis
    using assms wf_length [OF assms]
    by (simp add: bitmap_isset_def bitmap_translate_def bm_set_def bm_bit_def leD)
qed

lemma bitmap_nr_from_eq:
  assumes "bitmap_wf b" "i \<le> bm_nbits b"
  shows "bitmap_nr_from b i nr = Inr (nr + int (card {j \<in> bm_set b. i \<le> j}))"
  using assms
proof (induction b i nr rule: bitmap_nr_from.induct)
  case (1 b i nr)
  show ?case
  proof (cases "i < bm_nbits b")
    case True
    obtain r where r: "bitmap_isset b i = Inr r" "r \<noteq> 0 \<longleftrightarrow> i \<in> bm_set b"
      using bitmap_isset_eq [OF "1.prems"(1) True] by blast
    have "{j \<in> bm_set b. i \<le> j} = (if i \<in> bm_set b then insert i else id) {j \<in> bm_set b. Suc i \<le> j}"
      using Suc_le_eq by (auto simp: le_eq_less_or_eq)
    then have "card {j \<in> bm_set b. i \<le> j} =
        (if i \<in> bm_set b then 1 else 0) + card {j \<in> bm_set b. Suc i \<le> j}"
      using bm.finite_used [OF "1.prems"(1)] by simp
    then show ?thesis
      using True "1.IH" [OF True r(1)] "1.prems"(1) r
      by (subst bitmap_nr_from.simps) (auto split: if_splits)
  next
    case False
    then have "{j \<in> bm_set b. i \<le> j} = {}" by (auto simp: bm_set_def)
    then have "card {j \<in> bm_set b. i \<le> j} = 0" by (simp only: card.empty)
    with False show ?thesis by (subst bitmap_nr_from.simps) simp
  qed
qed

section \<open>Properties\<close>

text \<open>
  C19. Allocation from a well-formed bitmap returns the lowest clear bit, sets that bit and no other,
  and keeps the bitmap well-formed; exactly when all bits are set it returns -ENOSPC and changes
  nothing. No assertion fails and no access is outside the array.
\<close>

theorem bitmap_alloc_first_free:
  assumes "bitmap_wf b"
  shows "if bm_set b = {..<bm_nbits b} then bitmap_alloc b i0 = Inr (- ENOSPC, i0, b)
    else \<exists>b'. bitmap_alloc b i0 = Inr (0, (LEAST i. i \<notin> bm_set b), b') \<and> bitmap_wf b' \<and>
      bm_nbits b' = bm_nbits b \<and> bm_set b' = insert (LEAST i. i \<notin> bm_set b) (bm_set b)"
proof (cases "bm_set b = {..<bm_nbits b}")
  case True
  then show ?thesis using bm.alloc_full [OF assms] by simp
next
  case False
  then obtain i where i: "bitmap_alloc b i0 = Inr (0, i, bm_setbit b i)" "i < bm_nbits b"
      "\<not> bm_bit (bm_v b) i" "\<forall>j<i. bm_bit (bm_v b) j"
    using bitmap_alloc_outcome [OF assms, of i0] all_bits_iff [OF assms]
    by (auto simp: alloc_outcome_def)
  then have "(LEAST i. i \<notin> bm_set b) = i"
    by (intro Least_equality) (auto simp: bm_set_def, meson not_le_imp_less)
  then show ?thesis using False assms i wf_setbit set_setbit by simp
qed

theorem bitmap_alloc_first_free_witness:
  "\<exists>b'. bitmap_alloc \<lparr>bm_nbits = 8, bm_v = [5]\<rparr> 0 =
      Inr (0, (LEAST i. i \<notin> bm_set \<lparr>bm_nbits = 8, bm_v = [5]\<rparr>), b') \<and> bitmap_wf b'"
proof -
  let ?b = "\<lparr>bm_nbits = 8, bm_v = [5]\<rparr>"
  have wf: "bitmap_wf ?b" by (simp add: bitmap_wf_def)
  have "1 \<notin> bm_set ?b" by (simp add: bm_set_def bm_bit_def)
  moreover have "1 \<in> {..<bm_nbits ?b}" by simp
  ultimately have "bm_set ?b \<noteq> {..<bm_nbits ?b}" by (metis (no_types))
  then show ?thesis using bitmap_alloc_first_free [OF wf, of 0] by (simp only: if_False) blast
qed

text \<open>
  When both calls of malloc succeed, creating a bitmap of n bits gives a well-formed bitmap of
  n bits with no bit of them in use: the leftover bits of the last byte are marked and nothing
  else is.
\<close>

theorem bitmap_create_empty:
  assumes "n + 8 \<le> 2 ^ 32"
  shows "\<exists>b. bitmap_create True True n = Inr (0, Some b) \<and> bitmap_wf b \<and> bm_nbits b = n \<and>
    bm_set b = {}"
  by (rule bitmap_create_ok [OF assms])

theorem bitmap_create_empty_witness:
  "\<exists>b. bitmap_create True True 10 = Inr (0, Some b) \<and> bitmap_wf b \<and> bm_nbits b = 10 \<and> bm_set b = {}"
  by (rule bitmap_create_empty) simp

text \<open>
  Counting by asking for every bit returns the number of bits in use; releasing a bit that is in
  use lowers the count by one, and releasing one that is not in use fails the assertion.
\<close>

theorem bitmap_nr_allocated_release:
  assumes "bitmap_wf b"
  shows "bitmap_nr_allocated b = Inr (int (card (bm_set b))) \<and>
    (if i \<in> bm_set b then \<exists>b'. bitmap_unmark b i = Inr b' \<and> bm_set b' = bm_set b - {i} \<and>
       bitmap_nr_allocated b' = Inr (int (card (bm_set b)) - 1)
     else bitmap_unmark b i = Inl Assert_failed)"
proof -
  have count: "bitmap_nr_allocated b = Inr (int (card (bm_set b)))" if "bitmap_wf b" for b
    using bitmap_nr_from_eq [OF that, of 0 0] by (simp add: bitmap_nr_allocated_def)
  show ?thesis
  proof (cases rule: bm.release_cases [OF assms, of i])
    case (1 b')
    then have "bitmap_nr_allocated b' = Inr (int (card (bm_set b)) - 1)"
      using count [of b'] by (metis add_diff_cancel_left' of_nat_Suc)
    then show ?thesis using 1 count [OF assms] by simp
  qed (use count [OF assms] in simp)
qed

theorem bitmap_nr_allocated_release_witness:
  "\<exists>b'. bitmap_unmark \<lparr>bm_nbits = 8, bm_v = [5]\<rparr> 2 = Inr b' \<and>
    bitmap_nr_allocated b' = Inr (int (card (bm_set \<lparr>bm_nbits = 8, bm_v = [5]\<rparr>)) - 1)"
proof -
  let ?b = "\<lparr>bm_nbits = 8, bm_v = [5]\<rparr>"
  have wf: "bitmap_wf ?b" by (simp add: bitmap_wf_def)
  have "2 \<in> bm_set ?b" by (simp add: bm_set_def bm_bit_def)
  then show ?thesis using bitmap_nr_allocated_release [OF wf, of 2] by (simp only: if_True) blast
qed

end
