(* ===== verification/Block.thy ===== *)
theory Block
  imports Cell_Store Bitmap
begin

text \<open>
  fs/block.c, and the two super block structures of fs/super.h it works on. The device is the
  contents of the file behind \<open>sb->dev\<close> as a list of bytes: reading past its end is a short
  fread (EXIT), writing past it extends the file, the gap reading as zeros. The stream position
  that block.c saves and restores has no effect on what is transferred and is not
  part of the state. Lemmas: a block that is written reads back, and no other block changes.
\<close>

abbreviation (input) BLOCK_SIZE :: nat where "BLOCK_SIZE \<equiv> 8192"
abbreviation (input) SUPER_BLOCK_SIZE :: nat where "SUPER_BLOCK_SIZE \<equiv> 1"
abbreviation (input) INODE_FREEMAP_SIZE :: nat where "INODE_FREEMAP_SIZE \<equiv> 1"
abbreviation (input) BLOCK_FREEMAP_SIZE :: nat where "BLOCK_FREEMAP_SIZE \<equiv> 16"
abbreviation (input) NR_INODE_BLOCKS :: nat where "NR_INODE_BLOCKS \<equiv> 128"

record dsuper_block =
  inode_freemap_start :: u32
  block_freemap_start :: u32
  inode_blocks_start :: u32
  data_blocks_start :: u32
  used_inode_count :: u32
  used_block_count :: u32
  max_fs_blocks :: u64

record super_block =
  sb_d :: dsuper_block
  dev :: "u8 list"
  inode_freemap :: "bitmap option"
  block_freemap :: "bitmap option"

definition zero_block :: "u8 list" where
  "zero_block = replicate BLOCK_SIZE 0"

text \<open>The file after \<open>bytes\<close> are written at offset \<open>off\<close>.\<close>

definition file_write :: "u8 list \<Rightarrow> nat \<Rightarrow> u8 list \<Rightarrow> u8 list" where
  "file_write f off bytes = blit (f @ replicate (off + length bytes - length f) 0) off bytes"

definition write_blocks :: "super_block \<Rightarrow> u8 list \<Rightarrow> int \<Rightarrow> nat \<Rightarrow> super_block res" where
  "write_blocks s blocks start nr =
     (let pos = c_long (start * int BLOCK_SIZE) in
      if pos < 0 then Inl (Exit_with ''fseek'')
      else if length blocks < nr * BLOCK_SIZE then Inl Bad_access
      else Inr (s\<lparr>dev := file_write (dev s) (nat pos) (take (nr * BLOCK_SIZE) blocks)\<rparr>))"

fun zero_blocks :: "super_block \<Rightarrow> int \<Rightarrow> nat \<Rightarrow> super_block res" where
  "zero_blocks s start 0 = Inr s"
| "zero_blocks s start (Suc n) =
     rbind (write_blocks s zero_block start 1) (\<lambda>s. zero_blocks s (start + 1) n)"

definition read_blocks :: "super_block \<Rightarrow> int \<Rightarrow> nat \<Rightarrow> u8 list res" where
  "read_blocks s start nr =
     (let pos = c_long (start * int BLOCK_SIZE) in
      if pos < 0 then Inl (Exit_with ''fseek'')
      else if length (dev s) < nat pos + nr * BLOCK_SIZE then Inl (Exit_with ''fread'')
      else Inr (bslice (nat pos) (nr * BLOCK_SIZE) (dev s)))"

section \<open>Blocks of the device\<close>

definition has_block :: "super_block \<Rightarrow> nat \<Rightarrow> bool" where
  "has_block s i \<longleftrightarrow> Suc i * BLOCK_SIZE \<le> length (dev s)"

definition blk :: "super_block \<Rightarrow> nat \<Rightarrow> u8 list" where
  "blk s i = bslice (i * BLOCK_SIZE) BLOCK_SIZE (dev s)"

definition set_blk :: "super_block \<Rightarrow> nat \<Rightarrow> u8 list \<Rightarrow> super_block" where
  "set_blk s i b = s\<lparr>dev := file_write (dev s) (i * BLOCK_SIZE) b\<rparr>"

text \<open>Block numbers the code can address: far below where \<open>start * BLOCK_SIZE\<close> overflows.\<close>

abbreviation blk_addr :: "int \<Rightarrow> bool" where
  "blk_addr i \<equiv> 0 \<le> i \<and> i < 2 ^ 32"

lemma length_zero_block [simp]: "length zero_block = BLOCK_SIZE"
  by (simp add: zero_block_def)

lemma length_file_write [simp]: "length (file_write f off bytes) = max (length f) (off + length bytes)"
  by (simp add: file_write_def)

lemma bslice_append_left: "off + n \<le> length xs \<Longrightarrow> bslice off n (xs @ ys) = bslice off n xs"
  by (simp add: bslice_def)

lemma bslice_file_write_same: "n = length bytes \<Longrightarrow> bslice off n (file_write f off bytes) = bytes"
  by (simp add: file_write_def bslice_blit_same)

lemma bslice_file_write_other:
  "off' + n \<le> length f \<Longrightarrow> off' + n \<le> off \<or> off + length bytes \<le> off' \<Longrightarrow>
   bslice off' n (file_write f off bytes) = bslice off' n f"
  by (simp add: file_write_def bslice_blit_other bslice_append_left)

lemma length_blk [simp]: "has_block s i \<Longrightarrow> length (blk s i) = BLOCK_SIZE"
  by (simp add: has_block_def blk_def)

lemma has_block_mono: "has_block s i \<Longrightarrow> j \<le> i \<Longrightarrow> has_block s j"
  by (simp add: has_block_def)

lemma pos_small: "blk_addr i \<Longrightarrow> c_long (i * int BLOCK_SIZE) = i * int BLOCK_SIZE"
  by (intro c_long_id) auto

lemma read_block_eq:
  assumes "blk_addr i"
  shows "read_blocks s i (Suc 0) =
    (if has_block s (nat i) then Inr (blk s (nat i)) else Inl (Exit_with ''fread''))"
  using assms pos_small [OF assms]
  by (auto simp: read_blocks_def has_block_def blk_def nat_mult_distrib)

lemma write_block_eq:
  assumes "blk_addr i" "length b = BLOCK_SIZE"
  shows "write_blocks s b i (Suc 0) = Inr (set_blk s (nat i) b)"
  using assms pos_small [OF assms(1)]
  by (simp add: write_blocks_def set_blk_def nat_mult_distrib)

lemma blk_set_blk_same [simp]: "length b = BLOCK_SIZE \<Longrightarrow> blk (set_blk s i b) i = b"
  by (simp add: blk_def set_blk_def bslice_file_write_same)

lemma blk_set_blk_other:
  "has_block s j \<Longrightarrow> length b = BLOCK_SIZE \<Longrightarrow> i \<noteq> j \<Longrightarrow> blk (set_blk s i b) j = blk s j"
  by (auto simp: blk_def set_blk_def has_block_def intro!: bslice_file_write_other)

lemma has_block_set_blk [simp]:
  "length b = BLOCK_SIZE \<Longrightarrow> has_block (set_blk s i b) j \<longleftrightarrow> has_block s j \<or> j \<le> i"
  by (auto simp: has_block_def set_blk_def)

lemma set_blk_fields [simp]:
  "sb_d (set_blk s i b) = sb_d s"
  "inode_freemap (set_blk s i b) = inode_freemap s"
  "block_freemap (set_blk s i b) = block_freemap s"
  by (simp_all add: set_blk_def)

interpretation device: cell_store "\<lambda>_. True" has_block "\<lambda>b. length b = BLOCK_SIZE" blk set_blk
  by unfold_locales (auto simp: blk_set_blk_other)

section \<open>Block numbers inside a block\<close>

text \<open>\<open>((int *) block)[i]\<close>: the 32-bit integers of an indirect block.\<close>

definition get_int :: "u8 list \<Rightarrow> nat \<Rightarrow> int" where
  "get_int b i = sint (un_le32 (bslice (4 * i) 4 b))"

definition put_int :: "u8 list \<Rightarrow> nat \<Rightarrow> int \<Rightarrow> u8 list" where
  "put_int b i v = blit b (4 * i) (le32 (word_of_int v))"

abbreviation (input) NR_INDIRECT_BLOCKS :: nat where "NR_INDIRECT_BLOCKS \<equiv> 2048"

lemma length_put_int [simp]: "4 * i + 4 \<le> length b \<Longrightarrow> length (put_int b i v) = length b"
  by (simp add: put_int_def)

lemma get_int_range: "- (2 ^ 31) \<le> get_int b i \<and> get_int b i < 2 ^ 31"
  by (simp add: get_int_def sint32_range [simplified])

interpretation ints: cell_store "\<lambda>b. length b = BLOCK_SIZE" "\<lambda>b i. i < NR_INDIRECT_BLOCKS"
    "\<lambda>v. - (2 ^ 31) \<le> v \<and> v < 2 ^ 31" get_int put_int
proof unfold_locales
  fix c :: "u8 list" and i j :: nat and v :: int
  assume c: "length c = BLOCK_SIZE" "i < NR_INDIRECT_BLOCKS" "- (2 ^ 31) \<le> v \<and> v < 2 ^ 31"
  show "length (put_int c i v) = BLOCK_SIZE" using c by simp
  show "get_int (put_int c i v) i = v"
    using c by (simp add: get_int_def put_int_def bslice_blit_same cint_simps)
  show "get_int (put_int c i v) j = get_int c j" if "j < NR_INDIRECT_BLOCKS" "i \<noteq> j"
    using c cell_disjoint [OF that(2), of 4]
    by (simp add: get_int_def put_int_def bslice_blit_other)
qed auto

lemma get_int_zero_block [simp]: "i < NR_INDIRECT_BLOCKS \<Longrightarrow> get_int zero_block i = 0"
  by (simp add: get_int_def zero_block_def bslice_replicate un_le32_zero)

text \<open>Zeroing blocks.\<close>

lemma zero_blocks_1:
  "blk_addr i \<Longrightarrow> zero_blocks s i (Suc 0) = Inr (set_blk s (nat i) zero_block)"
  by (simp add: write_block_eq)

lemma zero_blocks_eq:
  "0 \<le> start \<Longrightarrow> start + int n \<le> 2 ^ 32 \<Longrightarrow>
   zero_blocks s start n = Inr (fold (\<lambda>i s. set_blk s i zero_block) [nat start..<nat start + n] s)"
proof (induction n arbitrary: s start)
  case (Suc n)
  then have "zero_blocks (set_blk s (nat start) zero_block) (start + 1) n =
      Inr (fold (\<lambda>i s. set_blk s i zero_block) [Suc (nat start)..<Suc (nat start) + n]
        (set_blk s (nat start) zero_block))"
    by (simp add: nat_add_distrib)
  moreover have "[nat start..<nat start + Suc n] = nat start # [Suc (nat start)..<Suc (nat start) + n]"
    by (subst upt_conv_Cons) simp_all
  ultimately show ?case using Suc.prems by (simp add: write_block_eq del: upt_Suc upt.simps)
qed simp

end
