(* ===== verification/Super.thy ===== *)
theory Super
  imports Block
begin

unbundle bit_operations_syntax

text \<open>
  fs/super.c: the super block and the two free maps. The in-memory structure is \<open>super_block\<close>
  of Block; the calls into inode.c (\<open>inode_hash_init\<close>, \<open>inode_hash_destroy\<close>) are made by the
  definitions of Inode, which wrap the ones here. Values that C computes in \<open>u32\<close> are computed in
  \<open>32 word\<close> and converted where the code converts them.
  Lemmas: the invariant \<open>super_wf\<close> ties the counters and the free maps in memory to each other and to
  the device, every operation keeps it, and what is on the device is enough to rebuild the structure.
\<close>

section \<open>The super block on disk\<close>

definition dsuper_bytes :: "dsuper_block \<Rightarrow> u8 list" where
  "dsuper_bytes d =
     le32 (inode_freemap_start d) @ le32 (block_freemap_start d) @ le32 (inode_blocks_start d) @
     le32 (data_blocks_start d) @ le32 (used_inode_count d) @ le32 (used_block_count d) @
     le64 (max_fs_blocks d)"

definition dsuper_of :: "u8 list \<Rightarrow> dsuper_block" where
  "dsuper_of b =
     \<lparr>inode_freemap_start = un_le32 (bslice 0 4 b), block_freemap_start = un_le32 (bslice 4 4 b),
      inode_blocks_start = un_le32 (bslice 8 4 b), data_blocks_start = un_le32 (bslice 12 4 b),
      used_inode_count = un_le32 (bslice 16 4 b), used_block_count = un_le32 (bslice 20 4 b),
      max_fs_blocks = un_le64 (bslice 24 8 b)\<rparr>"

definition testfs_write_super_block :: "super_block \<Rightarrow> super_block res" where
  "testfs_write_super_block s =
     rbind (c_assert (length (dsuper_bytes (sb_d s)) \<le> BLOCK_SIZE)) (\<lambda>_.
     rbind (memcpy zero_block 0 (dsuper_bytes (sb_d s))) (\<lambda>block.
     write_blocks s block 0 1))"

definition testfs_write_inode_freemap :: "super_block \<Rightarrow> int \<Rightarrow> super_block res" where
  "testfs_write_inode_freemap s inode_nr =
     (case inode_freemap s of
        None \<Rightarrow> Inl Assert_failed
      | Some b \<Rightarrow>
          (let freemap = bitmap_getdata b; nr = inode_nr sdiv (int BLOCK_SIZE * 8) in
           if nr < 0 then Inl Bad_access
           else write_blocks s (drop (nat (nr * int BLOCK_SIZE)) freemap)
             (uint (inode_freemap_start (sb_d s) + word_of_int nr)) 1))"

definition testfs_write_block_freemap :: "super_block \<Rightarrow> int \<Rightarrow> super_block res" where
  "testfs_write_block_freemap s block_nr =
     (case block_freemap s of
        None \<Rightarrow> Inl Assert_failed
      | Some b \<Rightarrow>
          (let freemap = bitmap_getdata b; nr = block_nr sdiv (int BLOCK_SIZE * 8) in
           if nr < 0 then Inl Bad_access
           else write_blocks s (drop (nat (nr * int BLOCK_SIZE)) freemap)
             (uint (block_freemap_start (sb_d s) + word_of_int nr)) 1))"

definition testfs_get_block_freemap :: "super_block \<Rightarrow> (int \<times> super_block) res" where
  "testfs_get_block_freemap s =
     (case block_freemap s of
        None \<Rightarrow> Inl Assert_failed
      | Some b \<Rightarrow>
          rbind (bitmap_alloc b 0) (\<lambda>(ret, index, b).
          let s = s\<lparr>block_freemap := Some b\<rparr> in
          if ret < 0 then Inr (ret, s)
          else rbind (testfs_write_block_freemap s (c_int (int index))) (\<lambda>s.
            Inr (c_int (int index), s))))"

definition testfs_put_block_freemap :: "super_block \<Rightarrow> int \<Rightarrow> super_block res" where
  "testfs_put_block_freemap s block_nr =
     (case block_freemap s of
        None \<Rightarrow> Inl Assert_failed
      | Some b \<Rightarrow>
          rbind (bitmap_unmark b (nat (block_nr mod 2 ^ 32))) (\<lambda>b.
          testfs_write_block_freemap (s\<lparr>block_freemap := Some b\<rparr>) block_nr))"

definition testfs_get_dev :: "super_block \<Rightarrow> u8 list" where
  "testfs_get_dev s = dev s"

definition testfs_inode_blocks_start :: "super_block \<Rightarrow> u32" where
  "testfs_inode_blocks_start s = inode_blocks_start (sb_d s)"

text \<open>\<open>opened\<close> is the outcome of fopen(dev, "w"), which leaves an empty file.\<close>

definition testfs_make_super_block :: "bool \<Rightarrow> string \<Rightarrow> u64 \<Rightarrow> super_block res" where
  "testfs_make_super_block opened name max_blocks =
     (if \<not> opened then Inl (Exit_with name)
      else
        (let ifs = of_nat SUPER_BLOCK_SIZE;
             bfs = ifs + of_nat INODE_FREEMAP_SIZE;
             ibs = bfs + of_nat BLOCK_FREEMAP_SIZE;
             dbs = ibs + of_nat NR_INODE_BLOCKS in
         testfs_write_super_block
           \<lparr>sb_d = \<lparr>inode_freemap_start = ifs, block_freemap_start = bfs, inode_blocks_start = ibs,
              data_blocks_start = dbs, used_inode_count = 0, used_block_count = 0,
              max_fs_blocks = max_blocks\<rparr>,
            dev = [], inode_freemap = None, block_freemap = None\<rparr>))"

definition testfs_make_inode_freemap :: "super_block \<Rightarrow> super_block res" where
  "testfs_make_inode_freemap s = zero_blocks s (uint (inode_freemap_start (sb_d s))) INODE_FREEMAP_SIZE"

definition testfs_make_block_freemap :: "super_block \<Rightarrow> super_block res" where
  "testfs_make_block_freemap s = zero_blocks s (uint (block_freemap_start (sb_d s))) BLOCK_FREEMAP_SIZE"

abbreviation (input) SIZEOF_DINODE :: nat where "SIZEOF_DINODE \<equiv> 64"
abbreviation (input) INODES_PER_BLOCK :: nat where "INODES_PER_BLOCK \<equiv> 128"

definition testfs_make_inode_blocks :: "super_block \<Rightarrow> super_block res" where
  "testfs_make_inode_blocks s =
     (if BLOCK_SIZE * INODE_FREEMAP_SIZE * 8 < NR_INODE_BLOCKS * INODES_PER_BLOCK
      then Inl (Exit_with ''not enough inode freemap'')
      else rbind (c_assert (BLOCK_SIZE mod SIZEOF_DINODE = 0)) (\<lambda>_.
        zero_blocks s (uint (inode_blocks_start (sb_d s))) NR_INODE_BLOCKS))"

text \<open>
  \<open>file\<close> is the contents of the file if open and fdopen succeed, \<open>errno\<close> the value of errno if they
  do not (returned as it is), \<open>m\<close> whether the memory for the two bitmaps can be had.
\<close>

definition init_bitmap :: "bool \<Rightarrow> super_block \<Rightarrow> u32 \<Rightarrow> nat \<Rightarrow> (int \<times> bitmap option) res" where
  "init_bitmap m s start nr =
     rbind (bitmap_create m m (BLOCK_SIZE * nr * 8)) (\<lambda>(ret, ob).
     case ob of
       None \<Rightarrow> Inr (ret, None)
     | Some b \<Rightarrow>
         rbind (read_blocks s (uint start) nr) (\<lambda>data.
         rbind (memcpy (bitmap_getdata b) 0 data) (\<lambda>v.
         Inr (ret, Some (b\<lparr>bm_v := v\<rparr>)))))"

text \<open>\<open>m k\<close>: whether the k-th allocation succeeds.\<close>

definition testfs_init_super_block ::
  "(nat \<Rightarrow> bool) \<Rightarrow> int \<Rightarrow> u8 list option \<Rightarrow> (int \<times> super_block option) res" where
  "testfs_init_super_block m errno file =
     (if \<not> m 0 then Inr (- ENOMEM, None)
      else case file of
        None \<Rightarrow> Inr (errno, None)
      | Some f \<Rightarrow>
          (let s = \<lparr>sb_d = dsuper_of zero_block, dev = f, inode_freemap = None, block_freemap = None\<rparr> in
           rbind (read_blocks s 0 1) (\<lambda>block.
           let s = s\<lparr>sb_d := dsuper_of block\<rparr> in
           rbind (init_bitmap (m 1) s (inode_freemap_start (sb_d s)) INODE_FREEMAP_SIZE) (\<lambda>(ret, ib).
           if ret < 0 then Inr (ret, None)
           else
             (let s = s\<lparr>inode_freemap := ib\<rparr> in
              rbind (init_bitmap (m 2) s (block_freemap_start (sb_d s)) BLOCK_FREEMAP_SIZE) (\<lambda>(ret, bb).
              if ret < 0 then Inr (ret, None)
              else Inr (0, Some (s\<lparr>block_freemap := bb\<rparr>))))))))"

text \<open>\<open>destroyed\<close> is the outcome of \<open>inode_hash_destroy\<close>; the result is the file that is left.\<close>

definition testfs_close_super_block :: "unit res \<Rightarrow> super_block \<Rightarrow> u8 list res" where
  "testfs_close_super_block destroyed s =
     rbind (testfs_write_super_block s) (\<lambda>s.
     rbind destroyed (\<lambda>_.
     rbind (case inode_freemap s of
        None \<Rightarrow> Inr s
      | Some b \<Rightarrow> rbind (write_blocks s (bitmap_getdata b) (uint (inode_freemap_start (sb_d s)))
          INODE_FREEMAP_SIZE) (\<lambda>s. Inr (s\<lparr>inode_freemap := None\<rparr>))) (\<lambda>s.
     rbind (case block_freemap s of
        None \<Rightarrow> Inr s
      | Some b \<Rightarrow> rbind (write_blocks s (bitmap_getdata b) (uint (block_freemap_start (sb_d s)))
          BLOCK_FREEMAP_SIZE) (\<lambda>s. Inr (s\<lparr>block_freemap := None\<rparr>))) (\<lambda>s.
     Inr (dev s)))))"

definition testfs_get_inode_freemap :: "super_block \<Rightarrow> (int \<times> super_block) res" where
  "testfs_get_inode_freemap s =
     (case inode_freemap s of
        None \<Rightarrow> Inl Assert_failed
      | Some b \<Rightarrow>
          rbind (bitmap_alloc b 0) (\<lambda>(ret, index, b).
          let s = s\<lparr>inode_freemap := Some b\<rparr> in
          if ret < 0 then Inr (ret, s)
          else rbind (testfs_write_inode_freemap s (c_int (int index))) (\<lambda>s.
            rbind (testfs_write_super_block
              (s\<lparr>sb_d := (sb_d s)\<lparr>used_inode_count := used_inode_count (sb_d s) + 1\<rparr>\<rparr>)) (\<lambda>s.
            Inr (c_int (int index), s)))))"

definition testfs_put_inode_freemap :: "super_block \<Rightarrow> int \<Rightarrow> super_block res" where
  "testfs_put_inode_freemap s inode_nr =
     (case inode_freemap s of
        None \<Rightarrow> Inl Assert_failed
      | Some b \<Rightarrow>
          rbind (bitmap_unmark b (nat (inode_nr mod 2 ^ 32))) (\<lambda>b.
          rbind (testfs_write_inode_freemap (s\<lparr>inode_freemap := Some b\<rparr>) inode_nr) (\<lambda>s.
          rbind (c_assert (0 < used_inode_count (sb_d s))) (\<lambda>_.
          testfs_write_super_block
            (s\<lparr>sb_d := (sb_d s)\<lparr>used_inode_count := used_inode_count (sb_d s) - 1\<rparr>\<rparr>)))))"

definition testfs_alloc_block :: "super_block \<Rightarrow> (int \<times> super_block) res" where
  "testfs_alloc_block s =
     (if unat (max_fs_blocks (sb_d s)) \<le> unat (used_block_count (sb_d s)) then Inr (- ENOSPC, s)
      else rbind (testfs_get_block_freemap s) (\<lambda>(phy_block_nr, s).
        if phy_block_nr < 0 then Inr (phy_block_nr, s)
        else rbind (testfs_write_super_block
            (s\<lparr>sb_d := (sb_d s)\<lparr>used_block_count := used_block_count (sb_d s) + 1\<rparr>\<rparr>)) (\<lambda>s.
          Inr (c_int (uint (data_blocks_start (sb_d s)) + phy_block_nr), s))))"

definition testfs_free_block :: "super_block \<Rightarrow> int \<Rightarrow> (int \<times> super_block) res" where
  "testfs_free_block s block_nr =
     rbind (zero_blocks s block_nr 1) (\<lambda>s.
     let block_nr = c_int (block_nr - uint (data_blocks_start (sb_d s))) in
     rbind (c_assert (0 \<le> block_nr)) (\<lambda>_.
     rbind (testfs_put_block_freemap s block_nr) (\<lambda>s.
     rbind (c_assert (0 < used_block_count (sb_d s))) (\<lambda>_.
     rbind (testfs_write_super_block
       (s\<lparr>sb_d := (sb_d s)\<lparr>used_block_count := used_block_count (sb_d s) - 1\<rparr>\<rparr>)) (\<lambda>s.
     Inr (0, s))))))"

section \<open>The invariant of the super block\<close>

lemma length_dsuper_bytes [simp]: "length (dsuper_bytes d) = 32"
  by (simp add: dsuper_bytes_def)

lemma bslice_blit_inside:
  assumes "off + length src \<le> length dst" "off \<le> off'" "off' + n \<le> off + length src"
  shows "bslice off' n (blit dst off src) = bslice (off' - off) n src"
  using assms by (intro nth_equalityI) (auto simp: nth_bslice nth_blit)

lemma bslice_append:
  "bslice off n (xs @ ys) =
     (if off + n \<le> length xs then bslice off n xs
      else if length xs \<le> off then bslice (off - length xs) n ys
      else drop off xs @ take (n - (length xs - off)) ys)"
  by (auto simp: bslice_def min_def)

lemma dsuper_of_bytes: "dsuper_of (blit zero_block 0 (dsuper_bytes d)) = d"
  by (simp add: dsuper_of_def bslice_blit_inside) (simp add: dsuper_bytes_def bslice_append)

text \<open>The free maps as the operations see them.\<close>

definition ifm :: "super_block \<Rightarrow> bitmap" where "ifm s = the (inode_freemap s)"
definition bfm :: "super_block \<Rightarrow> bitmap" where "bfm s = the (block_freemap s)"

definition used_inodes :: "super_block \<Rightarrow> nat set" where "used_inodes s = bm_set (ifm s)"
definition used_blocks :: "super_block \<Rightarrow> nat set" where "used_blocks s = bm_set (bfm s)"

abbreviation (input) NR_FREEMAP_INODES :: nat where "NR_FREEMAP_INODES \<equiv> 65536"
abbreviation (input) NR_FREEMAP_BLOCKS :: nat where "NR_FREEMAP_BLOCKS \<equiv> 1048576"
abbreviation (input) DATA_START :: nat where "DATA_START \<equiv> 146"

definition sb_geom :: "dsuper_block \<Rightarrow> bool" where
  "sb_geom d \<longleftrightarrow> inode_freemap_start d = 1 \<and> block_freemap_start d = 2 \<and>
     inode_blocks_start d = 18 \<and> data_blocks_start d = 146"

definition maps_wf :: "super_block \<Rightarrow> bool" where
  "maps_wf s \<longleftrightarrow> inode_freemap s = Some (ifm s) \<and> block_freemap s = Some (bfm s) \<and>
     bitmap_wf (ifm s) \<and> bitmap_wf (bfm s) \<and>
     bm_nbits (ifm s) = NR_FREEMAP_INODES \<and> bm_nbits (bfm s) = NR_FREEMAP_BLOCKS"

definition counts_ok :: "super_block \<Rightarrow> bool" where
  "counts_ok s \<longleftrightarrow> unat (used_inode_count (sb_d s)) = card (used_inodes s) \<and>
     unat (used_block_count (sb_d s)) = card (used_blocks s)"

definition synced :: "super_block \<Rightarrow> bool" where
  "synced s \<longleftrightarrow> dsuper_of (blk s 0) = sb_d s \<and> blk s 1 = bm_v (ifm s) \<and>
     (\<forall>k<16. blk s (2 + k) = bslice (k * BLOCK_SIZE) BLOCK_SIZE (bm_v (bfm s)))"

definition super_wf :: "super_block \<Rightarrow> bool" where
  "super_wf s \<longleftrightarrow> sb_geom (sb_d s) \<and> has_block s (DATA_START - 1) \<and> maps_wf s \<and> counts_ok s \<and> synced s"

text \<open>\<open>same_blocks A s t\<close>: the blocks of \<open>A\<close> that \<open>s\<close> has are in \<open>t\<close> with the same contents.\<close>

definition same_blocks :: "nat set \<Rightarrow> super_block \<Rightarrow> super_block \<Rightarrow> bool" where
  "same_blocks A s t \<longleftrightarrow> (\<forall>j\<in>A. has_block s j \<longrightarrow> has_block t j \<and> blk t j = blk s j)"

lemma same_blocks_refl [simp]: "same_blocks A s s"
  by (simp add: same_blocks_def)

lemma same_blocks_trans: "same_blocks A s t \<Longrightarrow> same_blocks B t u \<Longrightarrow> same_blocks (A \<inter> B) s u"
  by (simp add: same_blocks_def)

lemma same_blocks_mono: "same_blocks A s t \<Longrightarrow> B \<subseteq> A \<Longrightarrow> same_blocks B s t"
  by (auto simp: same_blocks_def)

lemma same_blocks_set_blk: "length b = BLOCK_SIZE \<Longrightarrow> i \<notin> A \<Longrightarrow> same_blocks A s (set_blk s i b)"
  by (auto simp: same_blocks_def intro!: blk_set_blk_other)

lemma blk_update [simp]:
  "blk (s\<lparr>sb_d := d\<rparr>) i = blk s i" "has_block (s\<lparr>sb_d := d\<rparr>) i = has_block s i"
  "blk (s\<lparr>inode_freemap := m\<rparr>) i = blk s i" "has_block (s\<lparr>inode_freemap := m\<rparr>) i = has_block s i"
  "blk (s\<lparr>block_freemap := m\<rparr>) i = blk s i" "has_block (s\<lparr>block_freemap := m\<rparr>) i = has_block s i"
  by (simp_all add: blk_def has_block_def)

abbreviation super_image :: "dsuper_block \<Rightarrow> u8 list" where
  "super_image d \<equiv> blit zero_block 0 (dsuper_bytes d)"

lemma write_super_block_eq:
  "testfs_write_super_block s = Inr (set_blk s 0 (super_image (sb_d s)))"
  by (simp add: testfs_write_super_block_def memcpy_ok write_block_eq)

lemma maps_lengths:
  assumes "maps_wf s"
  shows "length (bm_v (ifm s)) = BLOCK_SIZE" "length (bm_v (bfm s)) = 16 * BLOCK_SIZE"
  using assms by (simp_all add: maps_wf_def bitmap_wf_def)


lemma write_chunk_eq:
  assumes "a < 2 ^ 32" "Suc k * BLOCK_SIZE \<le> length v"
  shows "write_blocks s (drop (k * BLOCK_SIZE) v) (int a) (Suc 0) =
    Inr (set_blk s a (bslice (k * BLOCK_SIZE) BLOCK_SIZE v))"
  using assms pos_small [of "int a"]
  by (simp add: write_blocks_def set_blk_def bslice_def nat_mult_distrib)

lemma freemap_chunk:
  assumes "n div 65536 = k" "k < 16" "a < 1000"
  shows "int n sdiv (int BLOCK_SIZE * 8) = int k" "uint (of_nat a + word_of_int (int k) :: u32) = int (a + k)"
  using assms by (simp_all add: cint_simps uint_word_ariths unsigned_of_nat take_bit_eq_mod flip: zdiv_int)

lemma write_block_freemap_eq:
  assumes "block_freemap s = Some b" "length (bm_v b) = 16 * BLOCK_SIZE" "sb_geom (sb_d s)"
    "n div 65536 = k" "n < NR_FREEMAP_BLOCKS"
  shows "testfs_write_block_freemap s (int n) =
    Inr (set_blk s (2 + k) (bslice (k * BLOCK_SIZE) BLOCK_SIZE (bm_v b)))"
proof -
  have k: "k < 16" using assms(4,5) by linarith
  then show ?thesis
    using assms freemap_chunk [OF assms(4) k, of 2] write_chunk_eq [of "2 + k" k "bm_v b" s]
    by (simp add: testfs_write_block_freemap_def Let_def sb_geom_def bitmap_getdata_def nat_mult_distrib)
qed

lemma write_inode_freemap_eq:
  assumes "inode_freemap s = Some b" "length (bm_v b) = BLOCK_SIZE" "sb_geom (sb_d s)" "n < NR_FREEMAP_INODES"
  shows "testfs_write_inode_freemap s (int n) = Inr (set_blk s 1 (bm_v b))"
proof -
  have "n div 65536 = 0" using assms(4) by simp
  then show ?thesis
    using assms freemap_chunk [of n 0 1] write_chunk_eq [of 1 0 "bm_v b" s]
    by (simp add: testfs_write_inode_freemap_def Let_def sb_geom_def bitmap_getdata_def)
qed

lemma bm_v_agree:
  assumes "bitmap_wf b" "bitmap_wf b'" "bm_nbits b' = bm_nbits b" "m < length (bm_v b)"
    and agree: "\<And>j. j div 8 = m \<Longrightarrow> j \<in> bm_set b' \<longleftrightarrow> j \<in> bm_set b"
  shows "bm_v b' ! m = bm_v b ! m"
proof (rule bit_word_eqI)
  fix k assume "k < LENGTH(8)"
  then have k: "(8 * m + k) div 8 = m" "(8 * m + k) mod 8 = k" by simp_all
  have len: "length (bm_v b') = length (bm_v b)" using assms(1-3) by (simp add: bitmap_wf_def)
  have in_range: "8 * m + k < 8 * length (bm_v b)" using assms(4) \<open>k < LENGTH(8)\<close> by simp
  have "bm_bit (bm_v b') (8 * m + k) \<longleftrightarrow> bm_bit (bm_v b) (8 * m + k)"
  proof (cases "8 * m + k < bm_nbits b")
    case True
    then show ?thesis using agree [OF k(1)] assms(3) by (simp add: bm_set_def)
  next
    case False
    then show ?thesis using assms(1-3) in_range len by (auto simp: bitmap_wf_def not_less)
  qed
  then show "bit (bm_v b' ! m) k \<longleftrightarrow> bit (bm_v b ! m) k" by (simp only: bm_bit_def k)
qed

definition put_block_map :: "super_block \<Rightarrow> nat \<Rightarrow> bitmap \<Rightarrow> dsuper_block \<Rightarrow> super_block" where
  "put_block_map s i b d =
     set_blk ((set_blk (s\<lparr>block_freemap := Some b\<rparr>) (2 + i div 65536)
       (bslice (i div 65536 * BLOCK_SIZE) BLOCK_SIZE (bm_v b)))\<lparr>sb_d := d\<rparr>) 0 (super_image d)"

definition put_inode_map :: "super_block \<Rightarrow> bitmap \<Rightarrow> dsuper_block \<Rightarrow> super_block" where
  "put_inode_map s b d =
     set_blk ((set_blk (s\<lparr>inode_freemap := Some b\<rparr>) 1 (bm_v b))\<lparr>sb_d := d\<rparr>) 0 (super_image d)"

lemma super_wf_lengths:
  assumes "super_wf s" shows "length (bm_v (ifm s)) = BLOCK_SIZE" "length (bm_v (bfm s)) = 16 * BLOCK_SIZE"
  using assms maps_lengths by (auto simp: super_wf_def)

lemma put_block_map_wf:
  assumes "super_wf s" "bitmap_wf b" "bm_nbits b = NR_FREEMAP_BLOCKS" "i < NR_FREEMAP_BLOCKS"
    "\<And>j. j \<noteq> i \<Longrightarrow> j \<in> bm_set b \<longleftrightarrow> j \<in> used_blocks s"
    "d = (sb_d s)\<lparr>used_block_count := c\<rparr>" "unat c = card (bm_set b)"
  shows "super_wf (put_block_map s i b d) \<and> used_blocks (put_block_map s i b d) = bm_set b \<and>
    used_inodes (put_block_map s i b d) = used_inodes s \<and> sb_d (put_block_map s i b d) = d \<and>
    same_blocks {18..} s (put_block_map s i b d)"
proof -
  let ?k = "i div 65536" and ?t = "put_block_map s i b d"
  let ?chunk = "bslice (?k * BLOCK_SIZE) BLOCK_SIZE (bm_v b)"
  have k: "?k < 16" using assms(4) by linarith
  have len: "length (bm_v b) = 16 * BLOCK_SIZE" using assms(2,3) by (simp add: bitmap_wf_def)
  have len': "length ?chunk = BLOCK_SIZE" using len k by simp
  have olen: "length (bm_v (bfm s)) = 16 * BLOCK_SIZE" using super_wf_lengths [OF assms(1)] by simp
  have hb: "has_block s j" if "j < DATA_START" for j
    using assms(1) that by (auto simp: super_wf_def intro: has_block_mono)
  have t: "inode_freemap ?t = inode_freemap s" "block_freemap ?t = Some b" "sb_d ?t = d"
    by (simp_all add: put_block_map_def)
  have other: "blk ?t j = blk s j" if "j \<noteq> 0" "j \<noteq> 2 + ?k" "has_block s j" for j
    using that len' by (simp add: put_block_map_def blk_set_blk_other)
  have chunk: "blk ?t (2 + ?k) = ?chunk"
    using len' by (simp add: put_block_map_def blk_set_blk_other)
  have zero: "blk ?t 0 = super_image d" by (simp add: put_block_map_def)
  have has: "has_block ?t j" if "has_block s j" for j
    using that len' by (simp add: put_block_map_def)
  have maps: "bfm ?t = b" "ifm ?t = ifm s" using t by (simp_all add: bfm_def ifm_def)
  have "blk ?t (2 + m) = bslice (m * BLOCK_SIZE) BLOCK_SIZE (bm_v b)" if m: "m < 16" for m
  proof (cases "m = ?k")
    case False
    have "blk ?t (2 + m) = bslice (m * BLOCK_SIZE) BLOCK_SIZE (bm_v (bfm s))"
      using other [of "2 + m"] hb [of "2 + m"] False m assms(1) by (simp add: super_wf_def synced_def)
    also have "\<dots> = bslice (m * BLOCK_SIZE) BLOCK_SIZE (bm_v b)"
    proof (rule bslice_eqI)
      fix j assume j: "m * BLOCK_SIZE \<le> j" "j < m * BLOCK_SIZE + BLOCK_SIZE" "j < length (bm_v (bfm s))"
      have "i div 8 \<noteq> j"
      proof
        assume "i div 8 = j"
        then have "?k = j div BLOCK_SIZE" by (simp flip: div_mult2_eq)
        moreover have "j div BLOCK_SIZE = m" using j by (intro div_nat_eqI) simp_all
        ultimately show False using False by simp
      qed
      then show "bm_v (bfm s) ! j = bm_v b ! j"
        using bm_v_agree [of "bfm s" b j] assms(1-3,5) j(3)
        by (simp add: super_wf_def maps_wf_def used_blocks_def)
    qed (simp add: len olen)
    finally show ?thesis .
  qed (use chunk in simp)
  then have "synced ?t"
    using assms(1) zero other [of 1] hb [of 1] t by (simp add: synced_def maps dsuper_of_bytes super_wf_def)
  moreover have "counts_ok ?t"
    unfolding counts_ok_def used_blocks_def used_inodes_def t maps
    using assms(1,6,7) by (simp add: super_wf_def counts_ok_def used_inodes_def)
  moreover have "maps_wf ?t"
    using assms(1-3) by (simp add: maps_wf_def t maps super_wf_def)
  moreover have "sb_geom (sb_d ?t)" unfolding t using assms(1,6) by (simp add: sb_geom_def super_wf_def)
  moreover have "has_block ?t (DATA_START - 1)" using has hb [of 145] by simp
  moreover have "same_blocks {18..} s ?t" using other has k by (auto simp: same_blocks_def)
  ultimately show ?thesis by (simp add: super_wf_def maps t used_blocks_def used_inodes_def)
qed

lemma put_inode_map_wf:
  assumes "super_wf s" "bitmap_wf b" "bm_nbits b = NR_FREEMAP_INODES"
    "d = (sb_d s)\<lparr>used_inode_count := c\<rparr>" "unat c = card (bm_set b)"
  shows "super_wf (put_inode_map s b d) \<and> used_inodes (put_inode_map s b d) = bm_set b \<and>
    used_blocks (put_inode_map s b d) = used_blocks s \<and> sb_d (put_inode_map s b d) = d \<and>
    same_blocks {18..} s (put_inode_map s b d)"
proof -
  let ?t = "put_inode_map s b d"
  have len: "length (bm_v b) = BLOCK_SIZE" using assms(2,3) by (simp add: bitmap_wf_def)
  have hb: "has_block s j" if "j < DATA_START" for j
    using assms(1) that by (auto simp: super_wf_def intro: has_block_mono)
  have t: "block_freemap ?t = block_freemap s" "inode_freemap ?t = Some b" "sb_d ?t = d"
    by (simp_all add: put_inode_map_def)
  have maps: "ifm ?t = b" "bfm ?t = bfm s" using t by (simp_all add: bfm_def ifm_def)
  have other: "blk ?t j = blk s j" if "j \<noteq> 0" "j \<noteq> 1" "has_block s j" for j
    using that len by (simp add: put_inode_map_def blk_set_blk_other)
  have new: "blk ?t 0 = super_image d" "blk ?t 1 = bm_v b"
    using len by (simp_all add: put_inode_map_def blk_set_blk_other)
  have has: "has_block ?t j" if "has_block s j" for j
    using that len by (simp add: put_inode_map_def)
  have "blk ?t (2 + m) = blk s (2 + m)" if "m < 16" for m using other hb [of "2 + m"] that by simp
  then have "synced ?t" using assms(1) new by (simp add: synced_def maps t dsuper_of_bytes super_wf_def)
  moreover have "counts_ok ?t"
    unfolding counts_ok_def used_blocks_def used_inodes_def t maps
    using assms(1,4,5) by (simp add: super_wf_def counts_ok_def used_blocks_def)
  moreover have "maps_wf ?t" using assms(1-3) by (simp add: maps_wf_def t maps super_wf_def)
  moreover have "sb_geom (sb_d ?t)" unfolding t using assms(1,4) by (simp add: sb_geom_def super_wf_def)
  moreover have "has_block ?t (DATA_START - 1)" using has hb [of 145] by simp
  moreover have "same_blocks {18..} s ?t" using other has by (auto simp: same_blocks_def)
  ultimately show ?thesis by (simp add: super_wf_def maps t used_blocks_def used_inodes_def)
qed

lemma super_wfD:
  assumes "super_wf s"
  shows "sb_geom (sb_d s)" "inode_freemap s = Some (ifm s)" "block_freemap s = Some (bfm s)"
    "bitmap_wf (ifm s)" "bitmap_wf (bfm s)"
    "bm_nbits (ifm s) = NR_FREEMAP_INODES" "bm_nbits (bfm s) = NR_FREEMAP_BLOCKS"
    "unat (used_inode_count (sb_d s)) = card (used_inodes s)"
    "unat (used_block_count (sb_d s)) = card (used_blocks s)"
    "\<And>j. j < DATA_START \<Longrightarrow> has_block s j"
  using assms by (auto simp: super_wf_def maps_wf_def counts_ok_def intro: has_block_mono)

lemma used_blocks_bound: "super_wf s \<Longrightarrow> used_blocks s \<subseteq> {..<NR_FREEMAP_BLOCKS}"
  using bm.used_bound [of "bfm s"] super_wfD [of s] by (simp add: used_blocks_def)

lemma used_inodes_bound: "super_wf s \<Longrightarrow> used_inodes s \<subseteq> {..<NR_FREEMAP_INODES}"
  using bm.used_bound [of "ifm s"] super_wfD [of s] by (simp add: used_inodes_def)

lemma unat32_Suc: "unat (w :: u32) = n \<Longrightarrow> Suc n < 2 ^ 32 \<Longrightarrow> unat (w + 1) = Suc n"
  by (simp add: unat_word_ariths)

lemma unat32_pred: "unat (w :: u32) = Suc n \<Longrightarrow> unat (w - 1) = n"
  by (metis add_diff_cancel_right' diff_Suc_1 diff_zero less_numeral_extra(3) unat_0 unat_minus_one zero_less_Suc)

lemma unat32_pos: "unat (w :: u32) = Suc n \<Longrightarrow> 0 < w"
  by (metis nat.simps(3) unat_0 word_gt_0)

lemma testfs_alloc_block_cases:
  assumes wf: "super_wf s"
  obtains (full) "testfs_alloc_block s = Inr (- ENOSPC, s)"
      "unat (max_fs_blocks (sb_d s)) \<le> card (used_blocks s) \<or> used_blocks s = {..<NR_FREEMAP_BLOCKS}"
  | (ok) i t where "testfs_alloc_block s = Inr (int (DATA_START + i), t)"
      "card (used_blocks s) < unat (max_fs_blocks (sb_d s))"
      "i < NR_FREEMAP_BLOCKS" "i \<notin> used_blocks s" "super_wf t" "used_blocks t = insert i (used_blocks s)"
      "used_inodes t = used_inodes s" "max_fs_blocks (sb_d t) = max_fs_blocks (sb_d s)"
      "same_blocks {18..} s t"
proof (cases "unat (max_fs_blocks (sb_d s)) \<le> card (used_blocks s)")
  case True
  then show ?thesis using full super_wfD(9) [OF wf] by (simp add: testfs_alloc_block_def)
next
  case below: False
  note W = super_wfD [OF wf]
  have unf: "testfs_alloc_block s = rbind (testfs_get_block_freemap s) (\<lambda>(phy_block_nr, s).
        if phy_block_nr < 0 then Inr (phy_block_nr, s)
        else rbind (testfs_write_super_block
            (s\<lparr>sb_d := (sb_d s)\<lparr>used_block_count := used_block_count (sb_d s) + 1\<rparr>\<rparr>)) (\<lambda>s.
          Inr (c_int (uint (data_blocks_start (sb_d s)) + phy_block_nr), s)))"
    using below W(9) by (simp add: testfs_alloc_block_def)
  show ?thesis
  proof (cases rule: bm.alloc_cases [OF W(5), of 0])
    case 1
    then have "testfs_alloc_block s = Inr (- ENOSPC, s\<lparr>block_freemap := Some (bfm s)\<rparr>)"
      by (simp add: unf testfs_get_block_freemap_def W(3))
    then show ?thesis using full 1 W(3,7) by (simp add: used_blocks_def)
  next
    case (2 i b)
    let ?d = "(sb_d s)\<lparr>used_block_count := used_block_count (sb_d s) + 1\<rparr>"
    have i: "i < NR_FREEMAP_BLOCKS" "c_int (int i) = int i" using 2 W(7) by (simp_all add: cint_simps)
    have len: "length (bm_v b) = 16 * BLOCK_SIZE" using 2 W(7) by (simp add: bitmap_wf_def)
    have "card (bm_set b) \<le> NR_FREEMAP_BLOCKS" using bm.card_used [OF 2(2)] 2(3) W(7) by simp
    then have c: "unat (used_block_count (sb_d s) + 1) = card (bm_set b)"
      using unat32_Suc [OF W(9)] 2(7) by (simp add: used_blocks_def)
    have "testfs_write_block_freemap (s\<lparr>block_freemap := Some b\<rparr>) (int i) =
        Inr (set_blk (s\<lparr>block_freemap := Some b\<rparr>) (2 + i div 65536)
          (bslice (i div 65536 * BLOCK_SIZE) BLOCK_SIZE (bm_v b)))"
      using W(1) i len by (intro write_block_freemap_eq) simp_all
    then have "testfs_alloc_block s = Inr (int (DATA_START + i), put_block_map s i b ?d)"
      using 2(1) i W(1,3)
      by (simp add: unf testfs_get_block_freemap_def write_super_block_eq put_block_map_def
          sb_geom_def cint_simps)
    moreover have "i \<notin> used_blocks s" using 2(5) by (simp add: used_blocks_def)
    moreover have "super_wf (put_block_map s i b ?d) \<and> used_blocks (put_block_map s i b ?d) = bm_set b \<and>
        used_inodes (put_block_map s i b ?d) = used_inodes s \<and> sb_d (put_block_map s i b ?d) = ?d \<and>
        same_blocks {18..} s (put_block_map s i b ?d)"
      using 2 W(7) i c by (intro put_block_map_wf [OF wf, where c = "used_block_count (sb_d s) + 1"])
        (simp_all add: used_blocks_def)
    ultimately show ?thesis using ok below i 2(6) by (simp add: used_blocks_def)
  qed
qed

lemma super_wf_set_blk:
  assumes "super_wf s" "DATA_START \<le> j \<or> 18 \<le> j" "length b = BLOCK_SIZE"
  shows "super_wf (set_blk s j b) \<and> used_blocks (set_blk s j b) = used_blocks s \<and>
    used_inodes (set_blk s j b) = used_inodes s"
proof -
  have m: "ifm (set_blk s j b) = ifm s" "bfm (set_blk s j b) = bfm s" by (simp_all add: ifm_def bfm_def)
  have "blk (set_blk s j b) i = blk s i" if "i < 18" for i
    using that assms super_wfD(10) [OF assms(1)] by (intro blk_set_blk_other) auto
  then show ?thesis
    using assms by (simp add: super_wf_def maps_wf_def counts_ok_def synced_def used_blocks_def used_inodes_def m)
qed

lemma testfs_free_block_cases:
  assumes wf: "super_wf s" and i: "i < NR_FREEMAP_BLOCKS"
  obtains (ok) t where "i \<in> used_blocks s" "testfs_free_block s (int (DATA_START + i)) = Inr (0, t)"
      "super_wf t" "used_blocks t = used_blocks s - {i}" "used_inodes t = used_inodes s"
      "max_fs_blocks (sb_d t) = max_fs_blocks (sb_d s)"
      "same_blocks ({18..} - {DATA_START + i}) s t" "has_block t (DATA_START + i)"
      "blk t (DATA_START + i) = zero_block"
  | (fault) "i \<notin> used_blocks s" "testfs_free_block s (int (DATA_START + i)) = Inl Assert_failed"
proof -
  let ?n = "DATA_START + i"
  let ?z = "set_blk s ?n zero_block"
  have z: "super_wf ?z" "used_blocks ?z = used_blocks s" "used_inodes ?z = used_inodes s"
    using super_wf_set_blk [OF wf, of ?n zero_block] by simp_all
  note W = super_wfD [OF z(1)]
  have conv: "c_int (int ?n - uint (data_blocks_start (sb_d ?z))) = int i" "int i mod 2 ^ 32 = int i"
    using W(1) i by (simp_all add: sb_geom_def cint_simps)
  have unf: "testfs_free_block s (int ?n) = rbind (testfs_put_block_freemap ?z (int i)) (\<lambda>s.
     rbind (c_assert (0 < used_block_count (sb_d s))) (\<lambda>_.
     rbind (testfs_write_super_block
       (s\<lparr>sb_d := (sb_d s)\<lparr>used_block_count := used_block_count (sb_d s) - 1\<rparr>\<rparr>)) (\<lambda>s.
     Inr (0, s))))"
    using i conv(1) zero_blocks_1 [of "int ?n" s] by (simp add: testfs_free_block_def nat_add_distrib)
  show ?thesis
  proof (cases rule: bm.release_cases [OF W(5), of i])
    case (1 b)
    let ?c = "used_block_count (sb_d ?z)"
    let ?d = "(sb_d ?z)\<lparr>used_block_count := ?c - 1\<rparr>"
    have len: "length (bm_v b) = 16 * BLOCK_SIZE" using 1 W(7) by (simp add: bitmap_wf_def)
    have c: "unat ?c = Suc (card (bm_set b))" using W(9) 1(6) by (simp add: used_blocks_def)
    then have c': "0 < ?c" "unat (?c - 1) = card (bm_set b)"
      using unat32_pred [OF c] unat32_pos [OF c] by simp_all
    have "testfs_write_block_freemap (?z\<lparr>block_freemap := Some b\<rparr>) (int i) =
        Inr (set_blk (?z\<lparr>block_freemap := Some b\<rparr>) (2 + i div 65536)
          (bslice (i div 65536 * BLOCK_SIZE) BLOCK_SIZE (bm_v b)))"
      using W(1) i len by (intro write_block_freemap_eq) simp_all
    then have r: "testfs_free_block s (int ?n) = Inr (0, put_block_map ?z i b ?d)"
      unfolding unf using 1(2) W(3) conv(2) c'(1)
      by (simp add: testfs_put_block_freemap_def write_super_block_eq put_block_map_def)
    have P: "super_wf (put_block_map ?z i b ?d) \<and> used_blocks (put_block_map ?z i b ?d) = bm_set b \<and>
        used_inodes (put_block_map ?z i b ?d) = used_inodes ?z \<and> sb_d (put_block_map ?z i b ?d) = ?d \<and>
        same_blocks {18..} ?z (put_block_map ?z i b ?d)"
      using 1 W(7) i c' by (intro put_block_map_wf [OF z(1), where c = "?c - 1"])
        (auto simp: used_blocks_def)
    have "same_blocks ({18..} - {?n}) s ?z" by (rule same_blocks_set_blk) simp_all
    then have "same_blocks ({18..} - {?n}) s (put_block_map ?z i b ?d)"
      by (rule same_blocks_mono [OF same_blocks_trans]) (use P in auto)
    moreover have "has_block (put_block_map ?z i b ?d) ?n" "blk (put_block_map ?z i b ?d) ?n = zero_block"
      using P by (auto simp: same_blocks_def)
    moreover have "i \<in> used_blocks s" "bm_set b = used_blocks s - {i}"
      using 1 z(2) by (simp_all add: used_blocks_def)
    ultimately show ?thesis using ok r P z(3) by simp
  next
    case 2
    then have "i \<notin> used_blocks s" using z(2) by (simp add: used_blocks_def)
    moreover have "testfs_free_block s (int ?n) = Inl Assert_failed"
      unfolding unf using 2(2) W(3) conv(2) by (simp add: testfs_put_block_freemap_def)
    ultimately show ?thesis by (rule fault)
  qed
qed

lemma testfs_get_inode_freemap_cases:
  assumes wf: "super_wf s"
  obtains (full) "testfs_get_inode_freemap s = Inr (- ENOSPC, s)" "used_inodes s = {..<NR_FREEMAP_INODES}"
  | (ok) i t where "testfs_get_inode_freemap s = Inr (int i, t)"
      "i < NR_FREEMAP_INODES" "i \<notin> used_inodes s" "super_wf t" "used_inodes t = insert i (used_inodes s)"
      "used_blocks t = used_blocks s" "max_fs_blocks (sb_d t) = max_fs_blocks (sb_d s)"
      "same_blocks {18..} s t" "{..<i} \<subseteq> used_inodes s"
proof -
  note W = super_wfD [OF wf]
  show ?thesis
  proof (cases rule: bm.alloc_cases [OF W(4), of 0])
    case 1
    then have "testfs_get_inode_freemap s = Inr (- ENOSPC, s\<lparr>inode_freemap := Some (ifm s)\<rparr>)"
      by (simp add: testfs_get_inode_freemap_def W(2))
    then show ?thesis using full 1 W(2,6) by (simp add: used_inodes_def)
  next
    case (2 i b)
    let ?d = "(sb_d s)\<lparr>used_inode_count := used_inode_count (sb_d s) + 1\<rparr>"
    have i: "i < NR_FREEMAP_INODES" "c_int (int i) = int i" using 2 W(6) by (simp_all add: cint_simps)
    have len: "length (bm_v b) = BLOCK_SIZE" using 2 W(6) by (simp add: bitmap_wf_def)
    have "card (bm_set b) \<le> NR_FREEMAP_INODES" using bm.card_used [OF 2(2)] 2(3) W(6) by simp
    then have c: "unat (used_inode_count (sb_d s) + 1) = card (bm_set b)"
      using unat32_Suc [OF W(8)] 2(7) by (simp add: used_inodes_def)
    have "testfs_write_inode_freemap (s\<lparr>inode_freemap := Some b\<rparr>) (int i) =
        Inr (set_blk (s\<lparr>inode_freemap := Some b\<rparr>) 1 (bm_v b))"
      using W(1) i len by (intro write_inode_freemap_eq) simp_all
    then have "testfs_get_inode_freemap s = Inr (int i, put_inode_map s b ?d)"
      using 2(1) i W(1,2)
      by (simp add: testfs_get_inode_freemap_def write_super_block_eq put_inode_map_def)
    moreover have "i \<notin> used_inodes s" using 2(5) by (simp add: used_inodes_def)
    moreover have "super_wf (put_inode_map s b ?d) \<and> used_inodes (put_inode_map s b ?d) = bm_set b \<and>
        used_blocks (put_inode_map s b ?d) = used_blocks s \<and> sb_d (put_inode_map s b ?d) = ?d \<and>
        same_blocks {18..} s (put_inode_map s b ?d)"
      using 2 W(6) c by (intro put_inode_map_wf [OF wf, where c = "used_inode_count (sb_d s) + 1"]) simp_all
    ultimately show ?thesis using ok i 2(6,8) by (simp add: used_inodes_def)
  qed
qed

lemma testfs_put_inode_freemap_cases:
  assumes wf: "super_wf s" and i: "i < NR_FREEMAP_INODES"
  obtains (ok) t where "i \<in> used_inodes s" "testfs_put_inode_freemap s (int i) = Inr t"
      "super_wf t" "used_inodes t = used_inodes s - {i}" "used_blocks t = used_blocks s"
      "max_fs_blocks (sb_d t) = max_fs_blocks (sb_d s)" "same_blocks {18..} s t"
  | (fault) "i \<notin> used_inodes s" "testfs_put_inode_freemap s (int i) = Inl Assert_failed"
proof -
  note W = super_wfD [OF wf]
  have conv: "int i mod 2 ^ 32 = int i" using i by simp
  show ?thesis
  proof (cases rule: bm.release_cases [OF W(4), of i])
    case (1 b)
    let ?c = "used_inode_count (sb_d s)"
    let ?d = "(sb_d s)\<lparr>used_inode_count := ?c - 1\<rparr>"
    have len: "length (bm_v b) = BLOCK_SIZE" using 1 W(6) by (simp add: bitmap_wf_def)
    have c: "unat ?c = Suc (card (bm_set b))" using W(8) 1(6) by (simp add: used_inodes_def)
    then have c': "0 < ?c" "unat (?c - 1) = card (bm_set b)"
      using unat32_pred [OF c] unat32_pos [OF c] by simp_all
    have "testfs_write_inode_freemap (s\<lparr>inode_freemap := Some b\<rparr>) (int i) =
        Inr (set_blk (s\<lparr>inode_freemap := Some b\<rparr>) 1 (bm_v b))"
      using W(1) i len by (intro write_inode_freemap_eq) simp_all
    then have r: "testfs_put_inode_freemap s (int i) = Inr (put_inode_map s b ?d)"
      using 1(2) W(2) conv c'(1)
      by (simp add: testfs_put_inode_freemap_def write_super_block_eq put_inode_map_def)
    have P: "super_wf (put_inode_map s b ?d) \<and> used_inodes (put_inode_map s b ?d) = bm_set b \<and>
        used_blocks (put_inode_map s b ?d) = used_blocks s \<and> sb_d (put_inode_map s b ?d) = ?d \<and>
        same_blocks {18..} s (put_inode_map s b ?d)"
      using 1 W(6) c' by (intro put_inode_map_wf [OF wf, where c = "?c - 1"]) simp_all
    moreover have "i \<in> used_inodes s" "bm_set b = used_inodes s - {i}"
      using 1 by (simp_all add: used_inodes_def)
    ultimately show ?thesis using ok r by simp
  next
    case 2
    then show ?thesis using fault W(2) conv by (simp add: testfs_put_inode_freemap_def used_inodes_def)
  qed
qed

section \<open>What is on the device is enough\<close>

lemma freemap_region:
  assumes "has_block s 17" "length v = 16 * BLOCK_SIZE"
    "\<forall>k<16. blk s (2 + k) = bslice (k * BLOCK_SIZE) BLOCK_SIZE v"
  shows "bslice (2 * BLOCK_SIZE) (16 * BLOCK_SIZE) (dev s) = v"
proof (rule nth_equalityI)
  have len: "18 * BLOCK_SIZE \<le> length (dev s)" using assms(1) by (simp add: has_block_def)
  then show "length (bslice (2 * BLOCK_SIZE) (16 * BLOCK_SIZE) (dev s)) = length v"
    using assms(2) by simp
  fix i assume "i < length (bslice (2 * BLOCK_SIZE) (16 * BLOCK_SIZE) (dev s))"
  then have i: "i < 16 * BLOCK_SIZE" by simp
  let ?k = "i div BLOCK_SIZE" and ?r = "i mod BLOCK_SIZE"
  have k: "?k < 16" "?r < BLOCK_SIZE" "?k * BLOCK_SIZE + ?r = i" using i by (simp_all add: less_mult_imp_div_less)
  have "bslice (2 * BLOCK_SIZE) (16 * BLOCK_SIZE) (dev s) ! i = dev s ! ((2 + ?k) * BLOCK_SIZE + ?r)"
    using i len k(3) by (simp add: nth_bslice algebra_simps)
  also have "\<dots> = blk s (2 + ?k) ! ?r" using k len i by (simp add: blk_def nth_bslice)
  also have "\<dots> = v ! i" using k assms(2,3) i by (simp add: nth_bslice)
  finally show "bslice (2 * BLOCK_SIZE) (16 * BLOCK_SIZE) (dev s) ! i = v ! i" .
qed

lemma read_blocks_eq:
  assumes "blk_addr start" "(nat start + nr) * BLOCK_SIZE \<le> length (dev s)"
  shows "read_blocks s start nr = Inr (bslice (nat start * BLOCK_SIZE) (nr * BLOCK_SIZE) (dev s))"
  using assms pos_small [OF assms(1)]
  by (simp add: read_blocks_def Let_def nat_mult_distrib algebra_simps)

lemma init_bitmap_eq:
  assumes "blk_addr (uint start)" "(nat (uint start) + nr) * BLOCK_SIZE \<le> length (dev s)" "nr \<le> 16"
  shows "init_bitmap True s start nr = Inr (0, Some \<lparr>bm_nbits = nr * BLOCK_SIZE * 8,
    bm_v = bslice (nat (uint start) * BLOCK_SIZE) (nr * BLOCK_SIZE) (dev s)\<rparr>)"
proof -
  have words: "DIVROUNDUP32 (nr * 65536) = nr * BLOCK_SIZE"
    using assms(3) by (simp add: DIVROUNDUP32_def roundup8)
  have "bitmap_create True True (BLOCK_SIZE * nr * 8) =
      Inr (0, Some \<lparr>bm_nbits = nr * BLOCK_SIZE * 8, bm_v = replicate (nr * BLOCK_SIZE) 0\<rparr>)"
    by (simp add: bitmap_create_def words Let_def mult.commute)
  then show ?thesis
    using assms read_blocks_eq [OF assms(1,2)]
    by (simp add: init_bitmap_def bitmap_getdata_def memcpy_ok)
qed

lemma init_super_block_eq:
  assumes "sb_geom d" "d = dsuper_of (blk s 0)" "has_block s (DATA_START - 1)"
  shows "testfs_init_super_block (\<lambda>_. True) e (Some (dev s)) = Inr (0, Some
    \<lparr>sb_d = d, dev = dev s,
     inode_freemap = Some \<lparr>bm_nbits = NR_FREEMAP_INODES, bm_v = blk s 1\<rparr>,
     block_freemap = Some \<lparr>bm_nbits = NR_FREEMAP_BLOCKS,
       bm_v = bslice (2 * BLOCK_SIZE) (16 * BLOCK_SIZE) (dev s)\<rparr>\<rparr>)"
proof -
  have len: "DATA_START * BLOCK_SIZE \<le> length (dev s)" using assms(3) by (simp add: has_block_def)
  have b0: "read_blocks \<lparr>sb_d = d0, dev = dev s, inode_freemap = None, block_freemap = None\<rparr> 0 (Suc 0) =
      Inr (blk s 0)" for d0
    using len by (simp add: read_block_eq has_block_def blk_def)
  show ?thesis
    using assms(1,2) len init_bitmap_eq [of 1 1] init_bitmap_eq [of 2 16]
    by (simp add: testfs_init_super_block_def Let_def b0 sb_geom_def blk_def)
qed

lemma remount_eq:
  assumes wf: "super_wf s"
  shows "testfs_init_super_block (\<lambda>_. True) e (Some (dev s)) = Inr (0, Some s)"
proof -
  note W = super_wfD [OF wf]
  have "bslice (2 * BLOCK_SIZE) (16 * BLOCK_SIZE) (dev s) = bm_v (bfm s)"
    using wf super_wf_lengths [OF wf] W(10) by (intro freemap_region) (simp_all add: super_wf_def synced_def)
  moreover have b1: "blk s 1 = bm_v (ifm s)" "dsuper_of (blk s 0) = sb_d s"
    using wf by (simp_all add: super_wf_def synced_def)
  moreover have "\<lparr>bm_nbits = NR_FREEMAP_INODES, bm_v = bm_v (ifm s)\<rparr> = ifm s"
    "\<lparr>bm_nbits = NR_FREEMAP_BLOCKS, bm_v = bm_v (bfm s)\<rparr> = bfm s"
    using W(6,7) by (auto intro: bitmap.equality)
  ultimately have "\<lparr>sb_d = sb_d s, dev = dev s,
     inode_freemap = Some \<lparr>bm_nbits = NR_FREEMAP_INODES, bm_v = blk s 1\<rparr>,
     block_freemap = Some \<lparr>bm_nbits = NR_FREEMAP_BLOCKS,
       bm_v = bslice (2 * BLOCK_SIZE) (16 * BLOCK_SIZE) (dev s)\<rparr>\<rparr> = s"
    using W(2,3) by simp
  then show ?thesis
    using init_super_block_eq [OF W(1) b1(2) [symmetric] W(10), of e] by simp
qed

lemma file_write_same: "off + n \<le> length f \<Longrightarrow> file_write f off (bslice off n f) = f"
  by (simp add: file_write_def blit_bslice_id)

lemma write_blocks_eq:
  assumes "blk_addr start" "length b = nr * BLOCK_SIZE"
  shows "write_blocks s b start nr = Inr (s\<lparr>dev := file_write (dev s) (nat start * BLOCK_SIZE) b\<rparr>)"
  using assms pos_small [OF assms(1)] by (simp add: write_blocks_def Let_def nat_mult_distrib)

lemma close_eq:
  assumes wf: "super_wf s"
  shows "testfs_close_super_block (Inr ()) s = Inr (dev (set_blk s 0 (super_image (sb_d s))))"
proof -
  let ?t = "set_blk s 0 (super_image (sb_d s))"
  note W = super_wfD [OF wf]
  have t: "sb_d ?t = sb_d s" "inode_freemap ?t = Some (ifm s)" "block_freemap ?t = Some (bfm s)"
    using W(2,3) by simp_all
  have hb: "has_block ?t 145" using W(10) [of 145] by simp
  then have len: "DATA_START * BLOCK_SIZE \<le> length (dev ?t)" by (simp add: has_block_def)
  have same: "blk ?t j = blk s j" if "0 < j" "j < DATA_START" for j
    using that W(10) [of j] by (simp add: blk_set_blk_other)
  have i: "bm_v (ifm s) = bslice BLOCK_SIZE BLOCK_SIZE (dev ?t)"
    using wf same [of 1] by (simp add: super_wf_def synced_def blk_def)
  have b: "bm_v (bfm s) = bslice (2 * BLOCK_SIZE) (16 * BLOCK_SIZE) (dev ?t)"
    using wf same super_wf_lengths [OF wf] has_block_mono [OF hb, of 17]
    by (intro freemap_region [symmetric]) (simp_all add: super_wf_def synced_def)
  have wi: "write_blocks ?t (bm_v (ifm s)) 1 1 = Inr ?t"
    using len write_blocks_eq [of 1 "bm_v (ifm s)" 1 ?t] super_wf_lengths [OF wf]
    by (simp add: i file_write_same)
  have wb: "write_blocks (?t\<lparr>inode_freemap := None\<rparr>) (bm_v (bfm s)) 2 16 = Inr (?t\<lparr>inode_freemap := None\<rparr>)"
    using len write_blocks_eq [of 2 "bm_v (bfm s)" 16 "?t\<lparr>inode_freemap := None\<rparr>"] super_wf_lengths [OF wf]
      file_write_same [of "2 * BLOCK_SIZE" "16 * BLOCK_SIZE" "dev ?t"]
    by (simp add: b)
  show ?thesis
    using W(1) wi wb t
    by (simp add: testfs_close_super_block_def write_super_block_eq sb_geom_def bitmap_getdata_def)
qed

lemma super_wf_write_super:
  assumes wf: "super_wf s"
  shows "super_wf (set_blk s 0 (super_image (sb_d s)))"
proof -
  let ?t = "set_blk s 0 (super_image (sb_d s))"
  note W = super_wfD [OF wf]
  have m: "ifm ?t = ifm s" "bfm ?t = bfm s" by (simp_all add: ifm_def bfm_def)
  have "blk ?t i = blk s i" if "0 < i" "i < 18" for i
    using that W(10) [of i] by (simp add: blk_set_blk_other)
  then show ?thesis
    using wf by (simp add: super_wf_def maps_wf_def counts_ok_def synced_def used_blocks_def used_inodes_def
        m dsuper_of_bytes)
qed


section \<open>A fresh file system\<close>

definition fresh_dsuper :: "u64 \<Rightarrow> dsuper_block" where
  "fresh_dsuper m =
     \<lparr>inode_freemap_start = 1, block_freemap_start = 2, inode_blocks_start = 18, data_blocks_start = 146,
      used_inode_count = 0, used_block_count = 0, max_fs_blocks = m\<rparr>"

definition fresh_dev :: "u64 \<Rightarrow> nat \<Rightarrow> u8 list" where
  "fresh_dev m n = super_image (fresh_dsuper m) @ replicate (n * BLOCK_SIZE) 0"

definition fresh_fs :: "u64 \<Rightarrow> super_block" where
  "fresh_fs m =
     \<lparr>sb_d = fresh_dsuper m, dev = fresh_dev m (DATA_START - 1),
      inode_freemap = Some \<lparr>bm_nbits = NR_FREEMAP_INODES, bm_v = replicate BLOCK_SIZE 0\<rparr>,
      block_freemap = Some \<lparr>bm_nbits = NR_FREEMAP_BLOCKS, bm_v = replicate (16 * BLOCK_SIZE) 0\<rparr>\<rparr>"

lemma fresh_dev_blocks:
  assumes "dev s = fresh_dev m n"
  shows "has_block s j \<longleftrightarrow> j \<le> n"
    "blk s 0 = super_image (fresh_dsuper m)" "0 < j \<Longrightarrow> j \<le> n \<Longrightarrow> blk s j = zero_block"
proof -
  have l: "length (super_image (fresh_dsuper m)) = BLOCK_SIZE" by simp
  show "has_block s j \<longleftrightarrow> j \<le> n" using assms by (auto simp: has_block_def fresh_dev_def)
  show "blk s 0 = super_image (fresh_dsuper m)"
    using assms l by (simp add: blk_def fresh_dev_def bslice_def)
  show "blk s j = zero_block" if "0 < j" "j \<le> n"
  proof -
    have "(j - Suc 0) * BLOCK_SIZE + BLOCK_SIZE \<le> n * BLOCK_SIZE"
      using that by (cases j) simp_all
    moreover have "j * BLOCK_SIZE - BLOCK_SIZE = (j - Suc 0) * BLOCK_SIZE" "BLOCK_SIZE \<le> j * BLOCK_SIZE"
      using that by (cases j; simp)+
    ultimately show ?thesis
      using assms l by (simp add: blk_def fresh_dev_def bslice_append bslice_replicate zero_block_def)
  qed
qed

lemma bm_set_zero: "bm_set \<lparr>bm_nbits = n, bm_v = replicate m 0\<rparr> = {} \<or> 8 * m < n"
  by (auto simp: bm_set_def bm_bit_def less_mult_imp_div_less)

lemma bitmap_wf_zero: "n = 8 * m \<Longrightarrow> 0 < m \<Longrightarrow> m \<le> 2 ^ 28 \<Longrightarrow> bitmap_wf \<lparr>bm_nbits = n, bm_v = replicate m 0\<rparr>"
  by (simp add: bitmap_wf_def bm_bit_def)

lemma fresh_fs_wf:
  "super_wf (fresh_fs m)" "used_inodes (fresh_fs m) = {}" "used_blocks (fresh_fs m) = {}"
proof -
  let ?s = "fresh_fs m"
  note F = fresh_dev_blocks [of ?s m "DATA_START - 1"]
  have d: "dev ?s = fresh_dev m (DATA_START - 1)" by (simp add: fresh_fs_def)
  have maps: "ifm ?s = \<lparr>bm_nbits = NR_FREEMAP_INODES, bm_v = replicate BLOCK_SIZE 0\<rparr>"
    "bfm ?s = \<lparr>bm_nbits = NR_FREEMAP_BLOCKS, bm_v = replicate (16 * BLOCK_SIZE) 0\<rparr>"
    by (simp_all add: ifm_def bfm_def fresh_fs_def)
  show i: "used_inodes ?s = {}" and b: "used_blocks ?s = {}"
    using bm_set_zero [of NR_FREEMAP_INODES BLOCK_SIZE] bm_set_zero [of NR_FREEMAP_BLOCKS "16 * BLOCK_SIZE"]
    by (simp_all add: used_inodes_def used_blocks_def maps)
  have "maps_wf ?s"
    using bitmap_wf_zero [of NR_FREEMAP_INODES BLOCK_SIZE]
      bitmap_wf_zero [of NR_FREEMAP_BLOCKS "16 * BLOCK_SIZE"]
    unfolding maps_wf_def maps by (simp add: fresh_fs_def)
  moreover have "counts_ok ?s" unfolding counts_ok_def i b by (simp add: fresh_fs_def fresh_dsuper_def)
  moreover have "synced ?s"
  proof -
    have "sb_d ?s = fresh_dsuper m" by (simp add: fresh_fs_def)
    then show ?thesis
      unfolding synced_def maps F(2) [OF d] dsuper_of_bytes
      using F(3) [OF d] by (simp add: bslice_replicate) (simp add: zero_block_def)
  qed
  moreover have "sb_geom (sb_d ?s)" by (simp add: sb_geom_def fresh_fs_def fresh_dsuper_def)
  ultimately show "super_wf ?s" using F(1) [OF d] by (simp add: super_wf_def)
qed

lemma fresh_dsuper_sel [simp]:
  "inode_freemap_start (fresh_dsuper m) = 1" "block_freemap_start (fresh_dsuper m) = 2"
  "inode_blocks_start (fresh_dsuper m) = 18" "data_blocks_start (fresh_dsuper m) = 146"
  "used_inode_count (fresh_dsuper m) = 0" "used_block_count (fresh_dsuper m) = 0"
  "max_fs_blocks (fresh_dsuper m) = m"
  by (simp_all add: fresh_dsuper_def)

lemma max_fresh [simp]: "max_fs_blocks (sb_d (fresh_fs m)) = m"
  by (simp add: fresh_fs_def fresh_dsuper_def)

lemma set_blk_append:
  assumes "length (dev s) = j * BLOCK_SIZE" "length b = BLOCK_SIZE"
  shows "set_blk s j b = s\<lparr>dev := dev s @ b\<rparr>"
  using assms by (simp add: set_blk_def file_write_def blit_def)

lemma zero_blocks_fresh:
  assumes "dev s = fresh_dev m n" "start = int (Suc n)" "Suc n + k \<le> 2 ^ 32"
  shows "zero_blocks s start k = Inr (s\<lparr>dev := fresh_dev m (n + k)\<rparr>)"
  using assms
proof (induction k arbitrary: s start n)
  case (Suc k)
  have "length (dev s) = Suc n * BLOCK_SIZE" using Suc.prems(1) by (simp add: fresh_dev_def)
  then have "set_blk s (Suc n) zero_block = s\<lparr>dev := dev s @ zero_block\<rparr>" by (intro set_blk_append) simp_all
  also have "dev s @ zero_block = fresh_dev m (Suc n)"
    using Suc.prems(1) by (simp add: fresh_dev_def zero_block_def add.commute flip: replicate_add)
  finally have "write_blocks s zero_block start (Suc 0) = Inr (s\<lparr>dev := fresh_dev m (Suc n)\<rparr>)"
    using Suc.prems by (simp add: write_block_eq nat_add_distrib)
  then show ?case
    using Suc.prems Suc.IH [of "s\<lparr>dev := fresh_dev m (Suc n)\<rparr>" "Suc n" "start + 1"] by simp
qed simp

lemma make_super_block_eq:
  "testfs_make_super_block True name m = Inr \<lparr>sb_d = fresh_dsuper m, dev = fresh_dev m 0,
     inode_freemap = None, block_freemap = None\<rparr>"
  by (simp add: testfs_make_super_block_def write_super_block_eq set_blk_append fresh_dsuper_def fresh_dev_def)

lemma close_fresh:
  assumes "dev s = fresh_dev m n" "sb_d s = fresh_dsuper m" "inode_freemap s = None" "block_freemap s = None"
  shows "testfs_close_super_block (Inr ()) s = Inr (fresh_dev m n)"
proof -
  have "file_write (dev s) 0 (super_image (fresh_dsuper m)) = dev s"
    by (simp add: file_write_def assms(1) blit_def fresh_dev_def)
  then show ?thesis
    using assms by (simp add: testfs_close_super_block_def write_super_block_eq set_blk_def)
qed

lemma mount_fresh: "testfs_init_super_block (\<lambda>_. True) e (Some (fresh_dev m (DATA_START - 1))) = Inr (0, Some (fresh_fs m))"
proof -
  have "dev (fresh_fs m) = fresh_dev m (DATA_START - 1)" by (simp add: fresh_fs_def)
  then show ?thesis using remount_eq [OF fresh_fs_wf(1), of e m] by simp
qed

section \<open>Properties\<close>

text \<open>Room for \<open>k\<close> more blocks: below the limit of the super block and of the free map.\<close>

definition room :: "super_block \<Rightarrow> nat \<Rightarrow> bool" where
  "room s k \<longleftrightarrow> card (used_blocks s) + k \<le> min (unat (max_fs_blocks (sb_d s))) NR_FREEMAP_BLOCKS"

lemma room_mono: "room s k \<Longrightarrow> j \<le> k \<Longrightarrow> room s j"
  by (simp add: room_def)

lemma room_fresh: "room (fresh_fs m) k \<longleftrightarrow> k \<le> min (unat m) NR_FREEMAP_BLOCKS"
  by (simp add: room_def fresh_fs_wf)

lemma finite_used_blocks [simp]: "super_wf s \<Longrightarrow> finite (used_blocks s)"
  using used_blocks_bound [of s] finite_subset by blast

lemma room_full:
  assumes "unat (max_fs_blocks (sb_d s)) \<le> card (used_blocks s) \<or> used_blocks s = {..<NR_FREEMAP_BLOCKS}"
  shows "\<not> room s (Suc 0)"
proof -
  from assms consider "unat (max_fs_blocks (sb_d s)) \<le> card (used_blocks s)" | "card (used_blocks s) = NR_FREEMAP_BLOCKS"
    by (metis card_lessThan)
  then show ?thesis by cases (simp_all add: room_def)
qed

lemma room_insert:
  "super_wf s \<Longrightarrow> i \<notin> used_blocks s \<Longrightarrow> used_blocks t = insert i (used_blocks s) \<Longrightarrow>
   max_fs_blocks (sb_d t) = max_fs_blocks (sb_d s) \<Longrightarrow> room t k \<longleftrightarrow> room s (Suc k)"
  by (simp add: room_def)

text \<open>The two outcomes of an allocation, decided by \<open>room\<close>.\<close>

lemma testfs_alloc_block_room:
  assumes wf: "super_wf s" and r: "room s (Suc 0)"
  obtains i t where "testfs_alloc_block s = Inr (int (DATA_START + i), t)"
      "i < NR_FREEMAP_BLOCKS" "i \<notin> used_blocks s" "super_wf t" "used_blocks t = insert i (used_blocks s)"
      "used_inodes t = used_inodes s" "max_fs_blocks (sb_d t) = max_fs_blocks (sb_d s)"
      "same_blocks {18..} s t"
  using testfs_alloc_block_cases [OF wf] room_full r by metis

lemma card_eq_full:
  assumes "A \<subseteq> {..<n}" "n \<le> card A" shows "A = {..<n::nat}"
  using assms by (intro card_subset_eq) (auto simp: le_antisym dest: card_mono [OF finite_lessThan])

lemma testfs_alloc_block_no_room:
  assumes wf: "super_wf s" and r: "\<not> room s (Suc 0)"
  shows "testfs_alloc_block s = Inr (- ENOSPC, s)"
proof (cases rule: testfs_alloc_block_cases [OF wf])
  case (2 i t)
  have "NR_FREEMAP_BLOCKS \<le> card (used_blocks s)" using r 2(2) by (simp add: room_def)
  then have "used_blocks s = {..<NR_FREEMAP_BLOCKS}" by (rule card_eq_full [OF used_blocks_bound [OF wf]])
  then show ?thesis using 2(3,4) by simp
qed

text \<open>C5.
  Allocating a block: when there is room, \<open>testfs_alloc_block\<close> returns the number of a
  data block that was free, marks exactly that one used in memory and on the device, counts it, and
  changes no block from the inode blocks on; when there is none it returns -ENOSPC and changes nothing.\<close>

theorem testfs_alloc_block_spec:
  assumes "super_wf s"
  shows "\<exists>r t. testfs_alloc_block s = Inr (r, t) \<and> super_wf t \<and> used_inodes t = used_inodes s \<and>
    same_blocks {18..} s t \<and>
    (if room s 1
     then \<exists>i. r = int (DATA_START + i) \<and> i < NR_FREEMAP_BLOCKS \<and> i \<notin> used_blocks s \<and>
            used_blocks t = insert i (used_blocks s)
     else r = - ENOSPC \<and> t = s)"
proof (cases "room s 1")
  case True
  then obtain i t where "testfs_alloc_block s = Inr (int (DATA_START + i), t)"
      "i < NR_FREEMAP_BLOCKS" "i \<notin> used_blocks s" "super_wf t" "used_blocks t = insert i (used_blocks s)"
      "used_inodes t = used_inodes s" "same_blocks {18..} s t"
    using testfs_alloc_block_room [OF assms] by (metis One_nat_def)
  then show ?thesis using True by auto
next
  case False
  then show ?thesis using testfs_alloc_block_no_room [OF assms] assms by auto
qed

theorem testfs_alloc_block_spec_witness:
  "\<exists>i t. testfs_alloc_block (fresh_fs 5) = Inr (int (DATA_START + i), t) \<and> used_blocks t = {i}"
  using testfs_alloc_block_spec [OF fresh_fs_wf(1) [of 5]] by (auto simp: room_fresh fresh_fs_wf)

text \<open>C6.
  Freeing a block: the block number of an allocated data block is given back to the free map and
  to the count, the block is zeroed on the device and no other block from the inode
  blocks on changes; freeing a data block that is not allocated fails the assertion of bitmap_unmark.\<close>

theorem testfs_free_block_spec:
  assumes "super_wf s" "i < NR_FREEMAP_BLOCKS"
  shows "if i \<in> used_blocks s
    then \<exists>t. testfs_free_block s (int (DATA_START + i)) = Inr (0, t) \<and> super_wf t \<and>
      used_blocks t = used_blocks s - {i} \<and> used_inodes t = used_inodes s \<and>
      blk t (DATA_START + i) = zero_block \<and> same_blocks ({18..} - {DATA_START + i}) s t
    else testfs_free_block s (int (DATA_START + i)) = Inl Assert_failed"
  by (cases rule: testfs_free_block_cases [OF assms]) auto

theorem testfs_free_block_spec_witness:
  "testfs_free_block (fresh_fs 5) (int (DATA_START + 3)) = Inl Assert_failed"
  using testfs_free_block_spec [OF fresh_fs_wf(1) [of 5], of 3] by (simp add: fresh_fs_wf)

text \<open>What is on the device is enough: mounting the device of a well-formed file system at any time gives
  back the same super block and free maps that are in memory, so no update of them is lost when the
  process ends without closing.\<close>

theorem testfs_init_super_block_remount:
  assumes "super_wf s"
  shows "testfs_init_super_block (\<lambda>_. True) e (Some (dev s)) = Inr (0, Some s)"
  by (rule remount_eq [OF assms])

theorem testfs_init_super_block_remount_witness:
  "testfs_init_super_block (\<lambda>_. True) 0 (Some (dev (fresh_fs 5))) = Inr (0, Some (fresh_fs 5))"
  by (rule testfs_init_super_block_remount [OF fresh_fs_wf(1)])

text \<open>Closing and mounting again: closing a well-formed file system whose inodes are all released
  leaves a device that mounts, and the mounted file system has the same counters, used
  blocks and inodes, and the same contents in every block.\<close>

theorem testfs_close_init_roundtrip:
  assumes "super_wf s"
  shows "\<exists>f t. testfs_close_super_block (Inr ()) s = Inr f \<and>
    testfs_init_super_block (\<lambda>_. True) e (Some f) = Inr (0, Some t) \<and> super_wf t \<and>
    sb_d t = sb_d s \<and> used_blocks t = used_blocks s \<and> used_inodes t = used_inodes s \<and>
    same_blocks {1..} s t"
proof -
  let ?t = "set_blk s 0 (super_image (sb_d s))"
  have "super_wf ?t" by (rule super_wf_write_super [OF assms])
  moreover have "same_blocks {1..} s ?t" by (rule same_blocks_set_blk) simp_all
  moreover have "used_blocks ?t = used_blocks s" "used_inodes ?t = used_inodes s"
    by (simp_all add: used_blocks_def used_inodes_def bfm_def ifm_def)
  ultimately show ?thesis
    using close_eq [OF assms] remount_eq [of ?t e] by auto
qed

theorem testfs_close_init_roundtrip_witness:
  "\<exists>f t. testfs_close_super_block (Inr ()) (fresh_fs 5) = Inr f \<and>
    testfs_init_super_block (\<lambda>_. True) 0 (Some f) = Inr (0, Some t) \<and> used_blocks t = {}"
  using testfs_close_init_roundtrip [OF fresh_fs_wf(1) [of 5], of 0] by (auto simp: fresh_fs_wf)

end
