(* ===== verification/Inode.thy ===== *)
theory Inode
  imports Super
begin

unbundle bit_operations_syntax

text \<open>
  The part of fs/inode.c that works on one inode structure and the device: the layout of an inode on
  disk, the inode blocks, writing an inode back, and the blocks counted for an inode. An \<open>inode\<close> is
  passed by value and returned updated; Inode_Cache keeps the structures in memory by address
  and the hash table over them. \<open>hnode\<close> is modelled there, and \<open>sb\<close>, the same in every inode of
  a process, is the super block passed along.
  Lemmas: an inode that is written back reads back, and no other inode of the disk changes.
\<close>

section \<open>Data\<close>

abbreviation (input) I_NONE :: s32 where "I_NONE \<equiv> 0"
abbreviation (input) I_FILE :: s32 where "I_FILE \<equiv> 1"
abbreviation (input) I_DIR :: s32 where "I_DIR \<equiv> 2"
abbreviation (input) I_FLAGS_DIRTY :: u32 where "I_FLAGS_DIRTY \<equiv> 1"
abbreviation (input) NR_DIRECT_BLOCKS :: nat where "NR_DIRECT_BLOCKS \<equiv> 10"

record dinode =
  i_type :: s32
  i_block_nr :: "s32 list"
  i_indirect :: s32
  i_dindirect :: s32
  block_count :: s32
  i_size :: s64

record inode =
  in_d :: dinode
  i_flags :: u32
  i_nr :: int
  i_count :: int

definition zero_dinode :: dinode where
  "zero_dinode = \<lparr>i_type = I_NONE, i_block_nr = replicate NR_DIRECT_BLOCKS 0, i_indirect = 0,
     i_dindirect = 0, block_count = 0, i_size = 0\<rparr>"

definition dinode_bytes :: "dinode \<Rightarrow> u8 list" where
  "dinode_bytes d =
     le32 (i_type d) @ concat (map le32 (i_block_nr d)) @ le32 (i_indirect d) @ le32 (i_dindirect d) @
     le32 (block_count d) @ le64 (i_size d)"

definition dinode_of :: "u8 list \<Rightarrow> dinode" where
  "dinode_of b =
     \<lparr>i_type = un_le32 (bslice 0 4 b),
      i_block_nr = map (\<lambda>i. un_le32 (bslice (4 + 4 * i) 4 b)) [0..<NR_DIRECT_BLOCKS],
      i_indirect = un_le32 (bslice 44 4 b), i_dindirect = un_le32 (bslice 48 4 b),
      block_count = un_le32 (bslice 52 4 b), i_size = un_le64 (bslice 56 8 b)\<rparr>"

section \<open>The inode blocks\<close>

definition testfs_inode_to_block_nr :: "inode \<Rightarrow> int res" where
  "testfs_inode_to_block_nr i =
     (let block_nr = c_int ((i_nr i mod 2 ^ 32) div int INODES_PER_BLOCK) in
      rbind (c_assert (0 \<le> block_nr)) (\<lambda>_.
      rbind (c_assert (block_nr < int NR_INODE_BLOCKS)) (\<lambda>_.
      Inr block_nr)))"

definition testfs_inode_to_block_offset :: "inode \<Rightarrow> int res" where
  "testfs_inode_to_block_offset i =
     (let block_offset = c_int ((i_nr i mod 2 ^ 32) mod int INODES_PER_BLOCK * int SIZEOF_DINODE) in
      rbind (c_assert (0 \<le> block_offset)) (\<lambda>_.
      rbind (c_assert (block_offset < int BLOCK_SIZE)) (\<lambda>_.
      Inr block_offset)))"

definition testfs_read_inode_block :: "super_block \<Rightarrow> inode \<Rightarrow> u8 list res" where
  "testfs_read_inode_block s i =
     rbind (testfs_inode_to_block_nr i) (\<lambda>block_nr.
     read_blocks s (uint (inode_blocks_start (sb_d s) + word_of_int block_nr)) 1)"

definition testfs_write_inode_block :: "super_block \<Rightarrow> inode \<Rightarrow> u8 list \<Rightarrow> super_block res" where
  "testfs_write_inode_block s i block =
     rbind (testfs_inode_to_block_nr i) (\<lambda>block_nr.
     write_blocks s block (uint (inode_blocks_start (sb_d s) + word_of_int block_nr)) 1)"

text \<open>The inode structure \<open>testfs_get_inode\<close> builds for a number that is not in the hash table.\<close>

definition load_inode :: "super_block \<Rightarrow> int \<Rightarrow> inode res" where
  "load_inode s inode_nr =
     (let i = \<lparr>in_d = zero_dinode, i_flags = 0, i_nr = inode_nr, i_count = 1\<rparr> in
      rbind (testfs_read_inode_block s i) (\<lambda>block.
      rbind (testfs_inode_to_block_offset i) (\<lambda>block_offset.
      Inr (i\<lparr>in_d := dinode_of (bslice (nat block_offset) SIZEOF_DINODE block)\<rparr>))))"

definition testfs_sync_inode :: "inode \<Rightarrow> super_block \<Rightarrow> (inode \<times> super_block) res" where
  "testfs_sync_inode i s =
     (if i_flags i AND I_FLAGS_DIRTY = 0 then Inr (i, s)
      else rbind (testfs_read_inode_block s i) (\<lambda>block.
        rbind (testfs_inode_to_block_offset i) (\<lambda>block_offset.
        rbind (memcpy block block_offset (dinode_bytes (in_d i))) (\<lambda>block.
        rbind (testfs_write_inode_block s i block) (\<lambda>s.
        Inr (i\<lparr>i_flags := i_flags i AND NOT I_FLAGS_DIRTY\<rparr>, s))))))"

definition testfs_inode_get_nr :: "inode \<Rightarrow> int" where
  "testfs_inode_get_nr i = i_nr i"

definition testfs_inode_get_type :: "inode \<Rightarrow> s32" where
  "testfs_inode_get_type i = i_type (in_d i)"

definition testfs_inode_get_size :: "inode \<Rightarrow> int" where
  "testfs_inode_get_size i = sint (i_size (in_d i))"

definition testfs_inode_get_block_count :: "inode \<Rightarrow> int" where
  "testfs_inode_get_block_count i = sint (block_count (in_d i))"

section \<open>Blocks of an inode\<close>

definition set_dirty :: "inode \<Rightarrow> inode" where
  "set_dirty i = i\<lparr>i_flags := i_flags i OR I_FLAGS_DIRTY\<rparr>"

definition testfs_alloc_block_for_inode :: "inode \<Rightarrow> super_block \<Rightarrow> (int \<times> inode \<times> super_block) res" where
  "testfs_alloc_block_for_inode i s =
     rbind (testfs_alloc_block s) (\<lambda>(phy_block_nr, s).
     if 0 \<le> phy_block_nr
     then Inr (phy_block_nr,
       set_dirty (i\<lparr>in_d := (in_d i)\<lparr>block_count := block_count (in_d i) + 1\<rparr>\<rparr>), s)
     else Inr (phy_block_nr, i, s))"

definition testfs_free_block_from_inode :: "inode \<Rightarrow> super_block \<Rightarrow> int \<Rightarrow> (inode \<times> super_block) res" where
  "testfs_free_block_from_inode i s phy_block_nr =
     (if phy_block_nr = 0 then Inr (i, s)
      else rbind (testfs_free_block s phy_block_nr) (\<lambda>(_, s).
        Inr (set_dirty (i\<lparr>in_d := (in_d i)\<lparr>block_count := block_count (in_d i) - 1\<rparr>\<rparr>), s)))"

section \<open>Inodes on the device\<close>

definition dinode_wf :: "dinode \<Rightarrow> bool" where
  "dinode_wf d \<longleftrightarrow> length (i_block_nr d) = NR_DIRECT_BLOCKS"

definition get_dinode :: "u8 list \<Rightarrow> nat \<Rightarrow> dinode" where
  "get_dinode b k = dinode_of (bslice (64 * k) 64 b)"

definition put_dinode :: "u8 list \<Rightarrow> nat \<Rightarrow> dinode \<Rightarrow> u8 list" where
  "put_dinode b k d = blit b (64 * k) (dinode_bytes d)"

definition disk_inode :: "super_block \<Rightarrow> nat \<Rightarrow> dinode" where
  "disk_inode s nr = get_dinode (blk s (18 + nr div 128)) (nr mod 128)"

abbreviation (input) NR_INODES :: nat where "NR_INODES \<equiv> 16384"

lemma dinode_wf_of [simp]: "dinode_wf (dinode_of b)"
  by (simp add: dinode_wf_def dinode_of_def)

lemma bslice_concat_le32:
  "i < length xs \<Longrightarrow> bslice (4 * i) 4 (concat (map le32 xs)) = le32 (xs ! i)"
proof (induction xs arbitrary: i)
  case (Cons x xs)
  then show ?case by (cases i) (simp_all add: bslice_def)
qed simp

lemma length_concat_le32 [simp]: "length (concat (map le32 xs)) = 4 * length xs"
  by (induction xs) simp_all

lemma length_dinode_bytes [simp]: "dinode_wf d \<Longrightarrow> length (dinode_bytes d) = 64"
  by (simp add: dinode_bytes_def dinode_wf_def)

lemma dinode_of_bytes [simp]:
  assumes "dinode_wf d" shows "dinode_of (dinode_bytes d) = d"
proof -
  have l: "length (concat (map le32 (i_block_nr d))) = 40" using assms by (simp add: dinode_wf_def)
  have "bslice (4 + 4 * i) 4 (dinode_bytes d) = le32 (i_block_nr d ! i)" if "i < 10" for i
    using that l assms bslice_concat_le32 [of i "i_block_nr d"]
    by (simp add: dinode_bytes_def bslice_append dinode_wf_def del: length_concat_le32)
  then have "map (\<lambda>i. un_le32 (bslice (4 + 4 * i) 4 (dinode_bytes d))) [0..<10] = i_block_nr d"
    using assms by (intro nth_equalityI) (simp_all add: dinode_wf_def)
  moreover have "bslice 0 4 (dinode_bytes d) = le32 (i_type d)" "bslice 44 4 (dinode_bytes d) = le32 (i_indirect d)"
    "bslice 48 4 (dinode_bytes d) = le32 (i_dindirect d)" "bslice 52 4 (dinode_bytes d) = le32 (block_count d)"
    "bslice 56 8 (dinode_bytes d) = le64 (i_size d)"
    using l by (simp_all add: dinode_bytes_def bslice_append del: length_concat_le32)
  ultimately show ?thesis unfolding dinode_of_def by simp
qed

interpretation dinodes: cell_store "\<lambda>b. length b = BLOCK_SIZE" "\<lambda>b k. k < INODES_PER_BLOCK"
    dinode_wf get_dinode put_dinode
proof unfold_locales
  fix c :: "u8 list" and i j :: nat and d :: dinode
  assume c: "length c = BLOCK_SIZE" "i < INODES_PER_BLOCK" "dinode_wf d"
  show "length (put_dinode c i d) = BLOCK_SIZE" using c by (simp add: put_dinode_def)
  show "get_dinode (put_dinode c i d) i = d"
    using c by (simp add: get_dinode_def put_dinode_def bslice_blit_same)
  show "get_dinode (put_dinode c i d) j = get_dinode c j" if "j < INODES_PER_BLOCK" "i \<noteq> j"
    using c cell_disjoint [OF that(2), of 64]
    by (simp add: get_dinode_def put_dinode_def bslice_blit_other)
qed auto

section \<open>Reading and writing back\<close>

definition put_disk :: "super_block \<Rightarrow> nat \<Rightarrow> dinode \<Rightarrow> super_block" where
  "put_disk s n d = set_blk s (18 + n div 128) (put_dinode (blk s (18 + n div 128)) (n mod 128) d)"

lemma inode_block_has: "super_wf s \<Longrightarrow> n < NR_INODES \<Longrightarrow> has_block s (18 + n div 128)"
  using super_wfD(10) [of s "18 + n div 128"] by simp

lemma length_inode_block [simp]:
  "super_wf s \<Longrightarrow> n < NR_INODES \<Longrightarrow> length (blk s (18 + n div 128)) = BLOCK_SIZE"
  by (simp add: inode_block_has)

lemma nr_split_eq: "m div 128 = n div 128 \<Longrightarrow> m mod 128 = n mod (128 :: nat) \<Longrightarrow> m = n"
  by (metis div_mult_mod_eq)

interpretation disk_inodes: cell_store super_wf "\<lambda>_ n. n < NR_INODES" dinode_wf disk_inode put_disk
proof unfold_locales
  fix s :: super_block and n m :: nat and d :: dinode
  assume s: "super_wf s" "n < NR_INODES" "dinode_wf d"
  let ?b = "18 + n div 128"
  have new: "length (put_dinode (blk s ?b) (n mod 128) d) = BLOCK_SIZE"
    using s dinodes.wf_put [of "blk s ?b" "n mod 128" d] by simp
  then show "super_wf (put_disk s n d)" using super_wf_set_blk s by (simp add: put_disk_def)
  show "disk_inode (put_disk s n d) n = d"
    using s new dinodes.get_put_same [of "blk s ?b" "n mod 128" d] by (simp add: disk_inode_def put_disk_def)
  show "disk_inode (put_disk s n d) m = disk_inode s m" if m: "m < NR_INODES" "n \<noteq> m"
  proof (cases "m div 128 = n div 128")
    case True
    then have "n mod 128 \<noteq> m mod 128" using m(2) nr_split_eq by metis
    then show ?thesis
      using s new True dinodes.get_put_other [of "blk s ?b" "n mod 128" d "m mod 128"]
      by (simp add: disk_inode_def put_disk_def)
  next
    case False
    then show ?thesis
      using s m new inode_block_has [of s m] by (simp add: disk_inode_def put_disk_def blk_set_blk_other)
  qed
qed auto

lemma put_disk_super:
  assumes "super_wf s" "n < NR_INODES" "dinode_wf d"
  shows "used_blocks (put_disk s n d) = used_blocks s" "used_inodes (put_disk s n d) = used_inodes s"
    "same_blocks {DATA_START..} s (put_disk s n d)" "sb_d (put_disk s n d) = sb_d s"
proof -
  have new: "length (put_dinode (blk s (18 + n div 128)) (n mod 128) d) = BLOCK_SIZE"
    using assms dinodes.wf_put [of "blk s (18 + n div 128)" "n mod 128" d] by simp
  show "used_blocks (put_disk s n d) = used_blocks s" "used_inodes (put_disk s n d) = used_inodes s"
    using super_wf_set_blk [OF assms(1) _ new] by (simp_all add: put_disk_def)
  show "same_blocks {DATA_START..} s (put_disk s n d)"
    unfolding put_disk_def using new assms(2) by (intro same_blocks_set_blk) auto
  show "sb_d (put_disk s n d) = sb_d s" by (simp add: put_disk_def)
qed

lemma disk_inode_same_blocks:
  assumes "same_blocks {18..<DATA_START} s t" "super_wf s" "n < NR_INODES"
  shows "disk_inode t n = disk_inode s n"
  using assms inode_block_has [OF assms(2,3)] by (simp add: same_blocks_def disk_inode_def)

lemma disk_inode_wf [simp]: "dinode_wf (disk_inode s n)"
  by (simp add: disk_inode_def get_dinode_def)

lemma inode_to_block_eq:
  assumes "i_nr i = int n" "n < NR_INODES"
  shows "testfs_inode_to_block_nr i = Inr (int (n div 128))"
    "testfs_inode_to_block_offset i = Inr (int (64 * (n mod 128)))"
proof -
  have u: "int n mod 4294967296 = int n" using assms(2) by simp
  have d: "c_int (int n div 128) = int n div 128" "c_int (int n mod 128 * 64) = int n mod 128 * 64"
    using assms(2) pos_mod_bound [of 128 "int n"] pos_mod_sign [of 128 "int n"]
    by (intro c_int_id; simp)+
  have l: "int n div 128 < 128" "int n mod 128 * 64 < 8192"
    using assms(2) pos_mod_bound [of 128 "int n"] by simp_all
  show "testfs_inode_to_block_nr i = Inr (int (n div 128))"
    using assms l(1) by (simp add: testfs_inode_to_block_nr_def u Let_def rbind_c_assert d(1) zdiv_int)
  show "testfs_inode_to_block_offset i = Inr (int (64 * (n mod 128)))"
    using assms l(2) by (simp add: testfs_inode_to_block_offset_def u Let_def rbind_c_assert d(2) zmod_int)
qed

lemma inode_to_block_outside:
  assumes "i_nr i = int n" "NR_INODES \<le> n" "n < 2 ^ 31"
  shows "testfs_inode_to_block_nr i = Inl Assert_failed"
proof -
  have "int n mod 4294967296 = int n" using assms(3) by simp
  moreover have "128 \<le> int n div 128" using assms(2) by simp
  moreover have "c_int (int n div 128) = int n div 128" using assms(3) by (intro c_int_id) simp_all
  ultimately show ?thesis
    using assms(1) by (simp add: testfs_inode_to_block_nr_def Let_def rbind_c_assert)
qed

lemma inode_block_addr:
  assumes "super_wf s" "k < 128"
  shows "uint (inode_blocks_start (sb_d s) + word_of_int (int k)) = int (18 + k)"
  using assms super_wfD(1) [OF assms(1)]
  by (simp add: sb_geom_def uint_word_ariths unsigned_of_nat take_bit_eq_mod)

lemma read_inode_block_eq:
  assumes "super_wf s" "i_nr i = int n" "n < NR_INODES"
  shows "testfs_read_inode_block s i = Inr (blk s (18 + n div 128))"
  using assms inode_block_addr [OF assms(1), of "n div 128"] inode_to_block_eq [OF assms(2,3)]
    inode_block_has [OF assms(1,3)]
  by (simp add: testfs_read_inode_block_def read_block_eq nat_add_distrib)

lemma write_inode_block_eq:
  assumes "super_wf s" "i_nr i = int n" "n < NR_INODES" "length b = BLOCK_SIZE"
  shows "testfs_write_inode_block s i b = Inr (set_blk s (18 + n div 128) b)"
  using assms inode_block_addr [OF assms(1), of "n div 128"] inode_to_block_eq [OF assms(2,3)]
  by (simp add: testfs_write_inode_block_def write_block_eq nat_add_distrib)

lemma load_inode_eq:
  assumes "super_wf s" "n < NR_INODES"
  shows "load_inode s (int n) = Inr \<lparr>in_d = disk_inode s n, i_flags = 0, i_nr = int n, i_count = 1\<rparr>"
  using assms read_inode_block_eq [OF assms(1) _ assms(2)] inode_to_block_eq [OF _ assms(2)]
  by (simp add: load_inode_def Let_def disk_inode_def get_dinode_def nat_mult_distrib)

definition is_dirty :: "inode \<Rightarrow> bool" where
  "is_dirty i \<longleftrightarrow> i_flags i AND I_FLAGS_DIRTY \<noteq> 0"

definition clear_dirty :: "inode \<Rightarrow> inode" where
  "clear_dirty i = i\<lparr>i_flags := i_flags i AND NOT I_FLAGS_DIRTY\<rparr>"

lemma is_dirty_set [simp]: "is_dirty (set_dirty i)"
  by (simp add: is_dirty_def set_dirty_def bit.conj_disj_distrib2 or_eq_0_iff)

lemma is_dirty_clear [simp]: "\<not> is_dirty (clear_dirty i)"
  by (simp add: is_dirty_def clear_dirty_def and.assoc)

lemma dirty_fields [simp]:
  "in_d (set_dirty i) = in_d i" "i_nr (set_dirty i) = i_nr i" "i_count (set_dirty i) = i_count i"
  "in_d (clear_dirty i) = in_d i" "i_nr (clear_dirty i) = i_nr i" "i_count (clear_dirty i) = i_count i"
  by (simp_all add: set_dirty_def clear_dirty_def)

lemma testfs_sync_inode_eq:
  assumes "super_wf s" "i_nr i = int n" "n < NR_INODES" "dinode_wf (in_d i)"
  shows "testfs_sync_inode i s =
    Inr (if is_dirty i then (clear_dirty i, put_disk s n (in_d i)) else (i, s))"
proof -
  let ?b = "blk s (18 + n div 128)"
  have "n mod 128 < 128" by simp
  then have "64 * (n mod 128) + 64 \<le> BLOCK_SIZE" by linarith
  then have "memcpy ?b (int (64 * (n mod 128))) (dinode_bytes (in_d i)) = Inr (put_dinode ?b (n mod 128) (in_d i))"
    using assms by (simp add: memcpy_def put_dinode_def nat_mult_distrib)
  moreover have "length (put_dinode ?b (n mod 128) (in_d i)) = BLOCK_SIZE"
    using assms dinodes.wf_put [of ?b "n mod 128" "in_d i"] by simp
  ultimately show ?thesis
    using assms read_inode_block_eq [OF assms(1-3)] inode_to_block_eq [OF assms(2,3)]
      write_inode_block_eq [OF assms(1-3)]
    by (simp add: testfs_sync_inode_def is_dirty_def clear_dirty_def put_disk_def)
qed

text \<open>Writing an inode back: for a dirty inode with a number the inode blocks have room for,
  \<open>testfs_sync_inode\<close> succeeds and clears the dirty flag, the inode that is then read from the disk under its
  number is the one in memory, and no other inode and no data block of the disk changes.\<close>

theorem testfs_sync_inode_roundtrip:
  assumes "super_wf s" "i_nr i = int n" "n < NR_INODES" "dinode_wf (in_d i)" "is_dirty i"
  shows "\<exists>j t. testfs_sync_inode i s = Inr (j, t) \<and> \<not> is_dirty j \<and> in_d j = in_d i \<and>
    load_inode t (int n) = Inr \<lparr>in_d = in_d i, i_flags = 0, i_nr = int n, i_count = 1\<rparr> \<and>
    (\<forall>m<NR_INODES. m \<noteq> n \<longrightarrow> disk_inode t m = disk_inode s m) \<and>
    super_wf t \<and> same_blocks {DATA_START..} s t"
  using testfs_sync_inode_eq [OF assms(1-4)] assms put_disk_super [OF assms(1,3,4)]
    disk_inodes.wf_put [OF assms(1,3,4)] load_inode_eq [OF disk_inodes.wf_put [OF assms(1,3,4)] assms(3)]
    disk_inodes.get_put_same [OF assms(1,3,4)] disk_inodes.get_put_other [OF assms(1,3,4)]
  by auto

definition sample_inode :: inode where
  "sample_inode = \<lparr>in_d = zero_dinode\<lparr>i_size := 7\<rparr>, i_flags = 1, i_nr = 200, i_count = 1\<rparr>"

theorem testfs_sync_inode_roundtrip_witness:
  "\<exists>j t. testfs_sync_inode sample_inode (fresh_fs 5) = Inr (j, t) \<and>
    load_inode t 200 = Inr \<lparr>in_d = zero_dinode\<lparr>i_size := 7\<rparr>, i_flags = 0, i_nr = 200, i_count = 1\<rparr>"
proof -
  have "dinode_wf (in_d sample_inode)" "is_dirty sample_inode"
    by (simp_all add: dinode_wf_def sample_inode_def zero_dinode_def is_dirty_def)
  then show ?thesis
    using testfs_sync_inode_roundtrip [OF fresh_fs_wf(1) [of 5], of sample_inode 200]
    by (auto simp: sample_inode_def)
qed

end
