(* ===== verification/Read_Write.thy ===== *)
theory Read_Write
  imports Inode
begin

unbundle bit_operations_syntax

text \<open>
  fs/read_write.c: the blocks of a file and the bytes in them. The inode and the super block are passed
  and returned updated; \<open>block\<close> and \<open>buf\<close> are buffers, returned with their new contents where the code
  fills them in. \<open>st\<close> is what an uninitialised buffer on the stack holds. A \<open>size_t\<close> is a \<open>nat\<close>, an
  \<open>off_t\<close> or \<open>long\<close> an \<open>int\<close>, with the conversions between them written out; a memcpy outside one of its two
  buffers is \<open>Bad_access\<close>.
  Block_Tree states which block of the device holds which block of the file and what an allocation does to it,
  Read_Write_Spec what reading, writing and freeing do to the bytes of the file.
\<close>

section \<open>Reading\<close>

abbreviation (input) NR_DINDIRECT :: int where "NR_DINDIRECT \<equiv> 2048 * 2048"

definition mem_slice :: "u8 list \<Rightarrow> int \<Rightarrow> nat \<Rightarrow> u8 list res" where
  "mem_slice b off n =
     (if 0 \<le> off \<and> nat off + n \<le> length b then Inr (bslice (nat off) n b) else Inl Bad_access)"

definition read_phy_block :: "super_block \<Rightarrow> int \<Rightarrow> (int \<times> u8 list) res" where
  "read_phy_block s phy_block_nr =
     (if 0 < phy_block_nr
      then rbind (read_blocks s phy_block_nr 1) (\<lambda>block. Inr (phy_block_nr, block))
      else Inr (phy_block_nr, zero_block))"

definition testfs_read_block :: "inode \<Rightarrow> super_block \<Rightarrow> int \<Rightarrow> u8 list \<Rightarrow> (int \<times> u8 list) res" where
  "testfs_read_block i s log_block_nr block =
     rbind (c_assert (0 \<le> log_block_nr)) (\<lambda>_.
     if log_block_nr < int NR_DIRECT_BLOCKS
     then read_phy_block s (sint (i_block_nr (in_d i) ! nat log_block_nr))
     else
       (let log_block_nr = log_block_nr - int NR_DIRECT_BLOCKS in
        if int NR_INDIRECT_BLOCKS \<le> log_block_nr
        then
          (let log_block_nr = log_block_nr - int NR_INDIRECT_BLOCKS in
           if NR_DINDIRECT \<le> log_block_nr then Inr (- EFBIG, block)
           else if 0 < sint (i_dindirect (in_d i))
           then rbind (read_blocks s (sint (i_dindirect (in_d i))) 1) (\<lambda>block.
             let position = log_block_nr div int NR_INDIRECT_BLOCKS;
                 new_block = get_int block (nat position) in
             if 0 < new_block
             then rbind (read_blocks s new_block 1) (\<lambda>block.
               read_phy_block s (get_int block (nat (log_block_nr mod int NR_INDIRECT_BLOCKS))))
             else Inr (new_block, block))
           else read_phy_block s 0)
        else if 0 < sint (i_indirect (in_d i))
        then rbind (read_blocks s (sint (i_indirect (in_d i))) 1) (\<lambda>block.
          read_phy_block s (get_int block (nat log_block_nr)))
        else read_phy_block s 0))"

text \<open>The loop over whole blocks and the tail that follows it; \<open>k\<close> is the code's counter \<open>i\<close>.\<close>

function read_rest :: "inode \<Rightarrow> super_block \<Rightarrow> u8 list \<Rightarrow> int \<Rightarrow> int \<Rightarrow> nat \<Rightarrow> int \<Rightarrow> int \<Rightarrow> u8 list \<Rightarrow>
    (int \<times> u8 list) res" where
  "read_rest i s buf block_nr block_ix sz k size_remaining block =
     (if int BLOCK_SIZE < size_remaining
      then rbind (testfs_read_block i s (c_int (block_nr + k)) block) (\<lambda>(ret, block).
        if ret < 0 then Inr (ret, buf)
        else rbind (memcpy buf (c_int (int BLOCK_SIZE * k) - block_ix) block) (\<lambda>buf.
          read_rest i s buf block_nr block_ix sz (k + 1) (size_remaining - int BLOCK_SIZE) block))
      else rbind (testfs_read_block i s (c_int (block_nr + k)) block) (\<lambda>(ret, block).
        if ret < 0 then Inr (ret, buf)
        else rbind (mem_slice block 0 (c_ulong size_remaining)) (\<lambda>src.
          rbind (memcpy buf (c_int (int BLOCK_SIZE * k) - block_ix) src) (\<lambda>buf.
          Inr (c_int (int sz), buf)))))"
  by pat_completeness auto
termination
  by (relation "measure (\<lambda>(i, s, buf, block_nr, block_ix, sz, k, size_remaining, block). nat size_remaining)")
    auto

definition testfs_read_data :: "inode \<Rightarrow> super_block \<Rightarrow> u8 list \<Rightarrow> int \<Rightarrow> nat \<Rightarrow> u8 list \<Rightarrow> (int \<times> u8 list) res" where
  "testfs_read_data i s buf start size0 st =
     (let block_nr = start sdiv int BLOCK_SIZE;
          block_ix = start smod int BLOCK_SIZE;
          i_sz = sint (i_size (in_d i));
          sz = (if i_sz < c_long (start + c_long (int size0)) then c_ulong (i_sz - start) else size0) in
      if BLOCK_SIZE < c_ulong (block_ix + int sz)
      then
        if 34376597504 < sz then Inr (- EFBIG, buf)
        else rbind (testfs_read_block i s (c_int block_nr) st) (\<lambda>(ret, block).
          if ret < 0 then Inr (ret, buf)
          else rbind (mem_slice block block_ix (nat (int BLOCK_SIZE - block_ix))) (\<lambda>src.
            rbind (memcpy buf 0 src) (\<lambda>buf.
            read_rest i s buf block_nr block_ix sz 1
              (c_long (int sz - (int BLOCK_SIZE - block_ix))) block)))
      else rbind (testfs_read_block i s (c_int block_nr) st) (\<lambda>(ret, block).
        if ret < 0 then Inr (ret, buf)
        else rbind (mem_slice block block_ix sz) (\<lambda>src.
          rbind (memcpy buf 0 src) (\<lambda>buf.
          Inr (c_int (int sz), buf)))))"

section \<open>Allocating the block of a file\<close>

type_synonym alloc_result = "(int \<times> inode \<times> super_block) res"

text \<open>The part of the double indirect case from \<open>get the direct block\<close> on.\<close>

definition allocate_dindirect_leaf ::
  "inode \<Rightarrow> super_block \<Rightarrow> int \<Rightarrow> u8 list \<Rightarrow> bool \<Rightarrow> u8 list \<Rightarrow> bool \<Rightarrow> alloc_result" where
  "allocate_dindirect_leaf i s log_block_nr dindirect dindirect_allocated indirect indirect_allocated =
     (let position = nat (log_block_nr div int NR_INDIRECT_BLOCKS);
          slot = nat (log_block_nr mod int NR_INDIRECT_BLOCKS) in
      rbind (c_assert (get_int indirect slot = 0)) (\<lambda>_.
      rbind (testfs_alloc_block_for_inode i s) (\<lambda>(phy_block_nr, i, s).
      if phy_block_nr < 0
      then
        if dindirect_allocated
        then rbind (testfs_free_block_from_inode i s (get_int dindirect position)) (\<lambda>(i, s).
          rbind (testfs_free_block_from_inode i s (sint (i_dindirect (in_d i)))) (\<lambda>(i, s).
          Inr (phy_block_nr, i, s)))
        else if indirect_allocated
        then rbind (testfs_free_block_from_inode i s (get_int dindirect position)) (\<lambda>(i, s).
          Inr (phy_block_nr, i, s))
        else Inr (phy_block_nr, i, s)
      else rbind (write_blocks s (put_int indirect slot phy_block_nr) (get_int dindirect position) 1) (\<lambda>s.
        Inr (phy_block_nr, i, s)))))"

text \<open>The part from \<open>get the indirect block in double indirect block\<close> on.\<close>

definition allocate_dindirect_mid ::
  "inode \<Rightarrow> super_block \<Rightarrow> int \<Rightarrow> u8 list \<Rightarrow> bool \<Rightarrow> alloc_result" where
  "allocate_dindirect_mid i s log_block_nr dindirect dindirect_allocated =
     (let position = nat (log_block_nr div int NR_INDIRECT_BLOCKS) in
      if get_int dindirect position = 0
      then rbind (testfs_alloc_block_for_inode i s) (\<lambda>(phy_block_nr, i, s).
        if phy_block_nr < 0
        then
          if dindirect_allocated
          then rbind (testfs_free_block_from_inode i s (sint (i_dindirect (in_d i)))) (\<lambda>(i, s).
            Inr (phy_block_nr, i, s))
          else allocate_dindirect_leaf i s log_block_nr dindirect dindirect_allocated zero_block False
        else
          (let dindirect = put_int dindirect position phy_block_nr in
           rbind (write_blocks s dindirect (sint (i_dindirect (in_d i))) 1) (\<lambda>s.
           allocate_dindirect_leaf i s log_block_nr dindirect dindirect_allocated zero_block True)))
      else rbind (read_blocks s (get_int dindirect position) 1) (\<lambda>indirect.
        allocate_dindirect_leaf i s log_block_nr dindirect dindirect_allocated indirect False))"

definition allocate_dindirect :: "inode \<Rightarrow> super_block \<Rightarrow> int \<Rightarrow> alloc_result" where
  "allocate_dindirect i s log_block_nr =
     (if NR_DINDIRECT \<le> log_block_nr then Inr (- EFBIG, i, s)
      else if i_dindirect (in_d i) = 0
      then rbind (testfs_alloc_block_for_inode i s) (\<lambda>(phy_block_nr, i, s).
        if phy_block_nr < 0 then Inr (phy_block_nr, i, s)
        else
          (let i = i\<lparr>in_d := (in_d i)\<lparr>i_dindirect := word_of_int phy_block_nr\<rparr>\<rparr> in
           allocate_dindirect_mid i s log_block_nr zero_block True))
      else rbind (read_blocks s (sint (i_dindirect (in_d i))) 1) (\<lambda>dindirect.
        allocate_dindirect_mid i s log_block_nr dindirect False))"

definition allocate_indirect_leaf :: "inode \<Rightarrow> super_block \<Rightarrow> int \<Rightarrow> u8 list \<Rightarrow> bool \<Rightarrow> alloc_result" where
  "allocate_indirect_leaf i s log_block_nr indirect indirect_allocated =
     rbind (c_assert (get_int indirect (nat log_block_nr) = 0)) (\<lambda>_.
     rbind (testfs_alloc_block_for_inode i s) (\<lambda>(phy_block_nr, i, s).
     if 0 \<le> phy_block_nr
     then rbind (write_blocks s (put_int indirect (nat log_block_nr) phy_block_nr)
         (sint (i_indirect (in_d i))) 1) (\<lambda>s.
       Inr (phy_block_nr, i, s))
     else if indirect_allocated
     then rbind (testfs_free_block_from_inode i s (sint (i_indirect (in_d i)))) (\<lambda>(i, s).
       Inr (phy_block_nr, i, s))
     else Inr (phy_block_nr, i, s)))"

definition allocate_indirect :: "inode \<Rightarrow> super_block \<Rightarrow> int \<Rightarrow> alloc_result" where
  "allocate_indirect i s log_block_nr =
     (if i_indirect (in_d i) = 0
      then rbind (testfs_alloc_block_for_inode i s) (\<lambda>(phy_block_nr, i, s).
        if phy_block_nr < 0 then Inr (phy_block_nr, i, s)
        else
          (let i = i\<lparr>in_d := (in_d i)\<lparr>i_indirect := word_of_int phy_block_nr\<rparr>\<rparr> in
           allocate_indirect_leaf i s log_block_nr zero_block True))
      else rbind (read_blocks s (sint (i_indirect (in_d i))) 1) (\<lambda>indirect.
        allocate_indirect_leaf i s log_block_nr indirect False))"

definition allocate_direct :: "inode \<Rightarrow> super_block \<Rightarrow> nat \<Rightarrow> alloc_result" where
  "allocate_direct i s k =
     rbind (c_assert (i_block_nr (in_d i) ! k = 0)) (\<lambda>_.
     rbind (testfs_alloc_block_for_inode i s) (\<lambda>(phy_block_nr, i, s).
     if 0 \<le> phy_block_nr
     then Inr (phy_block_nr,
       i\<lparr>in_d := (in_d i)\<lparr>i_block_nr := (i_block_nr (in_d i))[k := word_of_int phy_block_nr]\<rparr>\<rparr>, s)
     else Inr (phy_block_nr, i, s)))"

definition testfs_allocate_block ::
  "inode \<Rightarrow> super_block \<Rightarrow> int \<Rightarrow> u8 list \<Rightarrow> (int \<times> inode \<times> super_block \<times> u8 list) res" where
  "testfs_allocate_block i s log_block_nr block =
     rbind (c_assert (0 \<le> log_block_nr)) (\<lambda>_.
     rbind (testfs_read_block i s log_block_nr block) (\<lambda>(phy_block_nr, block).
     if phy_block_nr \<noteq> 0 then Inr (phy_block_nr, i, s, block)
     else
       rbind
        (if log_block_nr < int NR_DIRECT_BLOCKS then allocate_direct i s (nat log_block_nr)
         else
           (let log_block_nr = log_block_nr - int NR_DIRECT_BLOCKS in
            if int NR_INDIRECT_BLOCKS \<le> log_block_nr
            then allocate_dindirect i s (log_block_nr - int NR_INDIRECT_BLOCKS)
            else allocate_indirect i s log_block_nr))
        (\<lambda>(ret, i, s). Inr (ret, i, s, block))))"

section \<open>Writing\<close>

definition grow_size :: "inode \<Rightarrow> int \<Rightarrow> nat \<Rightarrow> inode" where
  "grow_size i start sz =
     set_dirty
      (if 0 < sz
       then i\<lparr>in_d := (in_d i)\<lparr>i_size := word_of_int (max (sint (i_size (in_d i))) (c_long (start + c_long (int sz))))\<rparr>\<rparr>
       else i)"

function write_rest :: "inode \<Rightarrow> super_block \<Rightarrow> u8 list \<Rightarrow> int \<Rightarrow> int \<Rightarrow> int \<Rightarrow> nat \<Rightarrow> int \<Rightarrow> int \<Rightarrow> u8 list \<Rightarrow>
    alloc_result" where
  "write_rest i s buf start block_nr block_ix sz k size_remaining block =
     (if int BLOCK_SIZE < size_remaining
      then rbind (testfs_allocate_block i s (c_int (block_nr + k)) block) (\<lambda>(ret, i, s, block).
        if ret < 0 then Inr (ret, i, s)
        else rbind (mem_slice buf (c_int (int BLOCK_SIZE * k) - block_ix) BLOCK_SIZE) (\<lambda>src.
          rbind (memcpy block 0 src) (\<lambda>block.
          rbind (write_blocks s block ret 1) (\<lambda>s.
          write_rest i s buf start block_nr block_ix sz (k + 1) (size_remaining - int BLOCK_SIZE) block))))
      else rbind (testfs_allocate_block i s (c_int (block_nr + k)) block) (\<lambda>(ret, i, s, block).
        if ret < 0 then Inr (ret, set_dirty (i\<lparr>in_d := (in_d i)\<lparr>i_size := 34376597504\<rparr>\<rparr>), s)
        else rbind (mem_slice buf (c_int (int BLOCK_SIZE * k) - block_ix) (c_ulong size_remaining)) (\<lambda>src.
          rbind (memcpy block 0 src) (\<lambda>block.
          rbind (write_blocks s block ret 1) (\<lambda>s.
          Inr (c_int (int sz), grow_size i start sz, s))))))"
  by pat_completeness auto
termination
  by (relation "measure (\<lambda>(i, s, buf, start, block_nr, block_ix, sz, k, size_remaining, block).
      nat size_remaining)") auto

definition testfs_write_data ::
  "inode \<Rightarrow> super_block \<Rightarrow> u8 list \<Rightarrow> int \<Rightarrow> nat \<Rightarrow> u8 list \<Rightarrow> alloc_result" where
  "testfs_write_data i s buf start sz st =
     (let block_nr = start sdiv int BLOCK_SIZE;
          block_ix = start smod int BLOCK_SIZE in
      if BLOCK_SIZE < c_ulong (block_ix + int sz)
      then rbind (testfs_allocate_block i s (c_int block_nr) st) (\<lambda>(ret, i, s, block).
        if ret < 0 then Inr (ret, i, s)
        else rbind (mem_slice buf 0 (nat (int BLOCK_SIZE - block_ix))) (\<lambda>src.
          rbind (memcpy block block_ix src) (\<lambda>block.
          rbind (write_blocks s block ret 1) (\<lambda>s.
          write_rest i s buf start block_nr block_ix sz 1
            (c_long (int sz - (int BLOCK_SIZE - block_ix))) block))))
      else rbind (testfs_allocate_block i s (c_int block_nr) st) (\<lambda>(ret, i, s, block).
        if ret < 0 then Inr (ret, i, s)
        else rbind (mem_slice buf 0 sz) (\<lambda>src.
          rbind (memcpy block block_ix src) (\<lambda>block.
          rbind (write_blocks s block ret 1) (\<lambda>s.
          Inr (c_int (int sz), grow_size i start sz, s))))))"

section \<open>Freeing the blocks of a file\<close>

text \<open>
  \<open>free_entries\<close> is the loop over the entries of an indirect block that frees them while the block number
  is below \<open>e_block_nr\<close>: in the single indirect case \<open>deleted\<close> is the loop's own counter \<open>i\<close>,
  in the double indirect case the variable of that name. Each list of numbers is the range of
  the loop's counter.
\<close>

fun free_direct :: "nat list \<Rightarrow> inode \<Rightarrow> super_block \<Rightarrow> (inode \<times> super_block) res" where
  "free_direct [] i s = Inr (i, s)"
| "free_direct (k # ks) i s =
     (if i_block_nr (in_d i) ! k = 0 then free_direct ks i s
      else rbind (testfs_free_block_from_inode i s (sint (i_block_nr (in_d i) ! k))) (\<lambda>(i, s).
        free_direct ks (i\<lparr>in_d := (in_d i)\<lparr>i_block_nr := (i_block_nr (in_d i))[k := 0]\<rparr>\<rparr>) s))"

fun free_entries :: "nat list \<Rightarrow> int \<Rightarrow> int \<Rightarrow> inode \<Rightarrow> super_block \<Rightarrow> u8 list \<Rightarrow>
    (int \<times> inode \<times> super_block) res" where
  "free_entries [] e_block_nr deleted i s block = Inr (deleted, i, s)"
| "free_entries (j # js) e_block_nr deleted i s block =
     (if deleted < e_block_nr
      then rbind (testfs_free_block_from_inode i s (get_int block j)) (\<lambda>(i, s).
        free_entries js e_block_nr (deleted + 1) i s (put_int block j 0))
      else Inr (deleted, i, s))"

fun free_dindirect :: "nat list \<Rightarrow> int \<Rightarrow> int \<Rightarrow> inode \<Rightarrow> super_block \<Rightarrow> u8 list \<Rightarrow>
    (inode \<times> super_block) res" where
  "free_dindirect [] e_block_nr deleted i s block = Inr (i, s)"
| "free_dindirect (k # ks) e_block_nr deleted i s block =
     (if deleted < e_block_nr
      then
        if 0 < get_int block k
        then rbind (read_blocks s (get_int block k) 1) (\<lambda>single_block.
          rbind (free_entries [0..<NR_INDIRECT_BLOCKS] e_block_nr deleted i s single_block)
            (\<lambda>(deleted, i, s).
          rbind (testfs_free_block_from_inode i s (get_int block k)) (\<lambda>(i, s).
          free_dindirect ks e_block_nr deleted i s (put_int block k 0))))
        else free_dindirect ks e_block_nr (deleted + int NR_INDIRECT_BLOCKS) i s block
      else Inr (i, s))"

definition testfs_free_blocks :: "inode \<Rightarrow> super_block \<Rightarrow> (int \<times> inode \<times> super_block) res" where
  "testfs_free_blocks i s =
     (let e_block_nr = c_int (c_long (sint (i_size (in_d i)) + int BLOCK_SIZE - 1) sdiv int BLOCK_SIZE) in
      rbind (free_direct [0..<min (nat e_block_nr) NR_DIRECT_BLOCKS] i s) (\<lambda>(i, s).
      let e_block_nr = e_block_nr - int NR_DIRECT_BLOCKS in
      rbind
       (if 0 < sint (i_indirect (in_d i))
        then rbind (read_blocks s (sint (i_indirect (in_d i))) 1) (\<lambda>block.
          rbind (free_entries [0..<NR_INDIRECT_BLOCKS] e_block_nr 0 i s block) (\<lambda>(_, i, s).
          rbind (testfs_free_block_from_inode i s (sint (i_indirect (in_d i)))) (\<lambda>(i, s).
          Inr (i\<lparr>in_d := (in_d i)\<lparr>i_indirect := 0\<rparr>\<rparr>, s))))
        else Inr (i, s)) (\<lambda>(i, s).
      let e_block_nr = e_block_nr - int NR_INDIRECT_BLOCKS in
      rbind
       (if 0 \<le> e_block_nr
        then rbind (read_blocks s (sint (i_dindirect (in_d i))) 1) (\<lambda>block.
          rbind (free_dindirect [0..<NR_INDIRECT_BLOCKS] e_block_nr 0 i s block) (\<lambda>(i, s).
          rbind (testfs_free_block_from_inode i s (sint (i_dindirect (in_d i)))) (\<lambda>(i, s).
          Inr (i\<lparr>in_d := (in_d i)\<lparr>i_dindirect := 0\<rparr>\<rparr>, s))))
        else Inr (i, s)) (\<lambda>(i, s).
      Inr (0, set_dirty (i\<lparr>in_d := (in_d i)\<lparr>i_size := 0\<rparr>\<rparr>), s)))))"

end
