(* ===== verification/Block_Tree.thy ===== *)
theory Block_Tree
  imports Read_Write
begin

unbundle bit_operations_syntax

text \<open>
  The blocks of a file as a tree: \<open>ptr\<close> follows the direct, indirect and double indirect pointers of an
  inode on the device, and \<open>tree_wf\<close> is the invariant of fs/read_write.c: every pointer is null or a
  data block marked used, no two pointers share a block, every block that is pointed to is on the device, and
  \<open>block_count\<close> counts them. Lemmas: what \<open>testfs_read_block\<close> returns, and that \<open>testfs_allocate_block\<close> adds the
  block asked for (with the indirect blocks it needs), keeps the tree well-formed, and changes no other
  block of this file and none of another.
\<close>

section \<open>The block tree of an inode\<close>

datatype path = PDir nat | PInd | PDind | PI nat | PD1 nat | PD2 nat nat

fun vpath :: "path \<Rightarrow> bool" where
  "vpath (PDir i) = (i < NR_DIRECT_BLOCKS)"
| "vpath (PI i) = (i < NR_INDIRECT_BLOCKS)"
| "vpath (PD1 i) = (i < NR_INDIRECT_BLOCKS)"
| "vpath (PD2 i j) = (i < NR_INDIRECT_BLOCKS \<and> j < NR_INDIRECT_BLOCKS)"
| "vpath _ = True"

text \<open>An entry of the indirect block with number \<open>a\<close>, 0 when there is no such block.\<close>

definition entry :: "super_block \<Rightarrow> int \<Rightarrow> nat \<Rightarrow> int" where
  "entry s a i = (if a = 0 then 0 else get_int (blk s (nat a)) i)"

fun ptr :: "super_block \<Rightarrow> dinode \<Rightarrow> path \<Rightarrow> int" where
  "ptr s d (PDir i) = sint (i_block_nr d ! i)"
| "ptr s d PInd = sint (i_indirect d)"
| "ptr s d PDind = sint (i_dindirect d)"
| "ptr s d (PI i) = entry s (sint (i_indirect d)) i"
| "ptr s d (PD1 i) = entry s (sint (i_dindirect d)) i"
| "ptr s d (PD2 i j) = entry s (entry s (sint (i_dindirect d)) i) j"

fun inner :: "path \<Rightarrow> bool" where
  "inner PInd = True"
| "inner PDind = True"
| "inner (PD1 i) = True"
| "inner _ = False"

text \<open>\<open>leads_to p q\<close>: the inner block \<open>p\<close> is on the way to the leaf \<open>q\<close>.\<close>

fun leads_to :: "path \<Rightarrow> path \<Rightarrow> bool" where
  "leads_to PInd (PI i) = True"
| "leads_to PDind (PD2 i j) = True"
| "leads_to (PD1 k) (PD2 i j) = (k = i)"
| "leads_to _ _ = False"

abbreviation (input) MAX_FILE_BLOCKS :: nat where "MAX_FILE_BLOCKS \<equiv> 4196362"

definition leaf :: "nat \<Rightarrow> path" where
  "leaf L = (if L < 10 then PDir L else if L < 2058 then PI (L - 10)
     else PD2 ((L - 2058) div 2048) ((L - 2058) mod 2048))"

definition owned :: "super_block \<Rightarrow> dinode \<Rightarrow> nat set" where
  "owned s d = {k. \<exists>p. vpath p \<and> ptr s d p = int (DATA_START + k)}"

definition tree_wf :: "path set \<Rightarrow> super_block \<Rightarrow> dinode \<Rightarrow> bool" where
  "tree_wf X s d \<longleftrightarrow> dinode_wf d \<and>
     (\<forall>p. vpath p \<longrightarrow> ptr s d p = 0 \<or> (\<exists>k\<in>used_blocks s. ptr s d p = int (DATA_START + k))) \<and>
     (\<forall>p q. vpath p \<longrightarrow> vpath q \<longrightarrow> ptr s d p = ptr s d q \<longrightarrow> ptr s d p \<noteq> 0 \<longrightarrow> p = q) \<and>
     (\<forall>p. vpath p \<longrightarrow> p \<notin> X \<longrightarrow> ptr s d p \<noteq> 0 \<longrightarrow> has_block s (nat (ptr s d p))) \<and>
     sint (block_count d) = int (card (owned s d))"

lemma vpath_leaf [simp]: "L < MAX_FILE_BLOCKS \<Longrightarrow> vpath (leaf L)"
  by (auto simp: leaf_def less_mult_imp_div_less)

lemma not_inner_leaf [simp]: "\<not> inner (leaf L)"
  by (simp add: leaf_def)

lemma leads_to_inner: "leads_to p q \<Longrightarrow> inner p"
  by (cases p; cases q) simp_all

lemma not_leads_to_leaf [simp]: "\<not> leads_to (leaf L) q"
  using leads_to_inner not_inner_leaf by blast

lemma leaf_inj: "L < MAX_FILE_BLOCKS \<Longrightarrow> M < MAX_FILE_BLOCKS \<Longrightarrow> leaf L = leaf M \<longleftrightarrow> L = M"
proof (auto simp: leaf_def split: if_splits)
  assume a: "\<not> L < 2058" "\<not> M < 2058" "(L - 2058) div 2048 = (M - 2058) div 2048"
    "(L - 2058) mod 2048 = (M - 2058) mod 2048"
  then have "L - 2058 = M - 2058" by (metis div_mult_mod_eq)
  then show "L = M" using a(1,2) by simp
qed

lemma leaf_cases:
  assumes "vpath p" "\<not> inner p" obtains L where "L < MAX_FILE_BLOCKS" "p = leaf L"
proof (cases p)
  case (PDir i)
  then show ?thesis using assms that [of i] by (simp add: leaf_def)
next
  case (PI i)
  then show ?thesis using assms that [of "i + 10"] by (simp add: leaf_def)
next
  case (PD2 i j)
  then show ?thesis using assms that [of "i * 2048 + j + 2058"] by (simp add: leaf_def)
qed (use assms in simp_all)

lemma tree_wfD:
  assumes "tree_wf X s d" "vpath p" "ptr s d p \<noteq> 0"
  obtains k where "k \<in> used_blocks s" "ptr s d p = int (DATA_START + k)" "k \<in> owned s d"
  using assms unfolding tree_wf_def owned_def by blast

lemma tree_wf_pos:
  assumes "tree_wf X s d" "vpath p"
  shows "0 \<le> ptr s d p \<and> (ptr s d p \<noteq> 0 \<longrightarrow> int DATA_START \<le> ptr s d p)"
proof (cases "ptr s d p = 0")
  case False
  then obtain k where "ptr s d p = int (DATA_START + k)" using tree_wfD [OF assms] by blast
  then show ?thesis by simp
qed simp

lemma tree_wf_inj:
  "tree_wf X s d \<Longrightarrow> vpath p \<Longrightarrow> vpath q \<Longrightarrow> ptr s d p = ptr s d q \<Longrightarrow> ptr s d p \<noteq> 0 \<Longrightarrow> p = q"
  unfolding tree_wf_def by blast

lemma owned_used: "tree_wf X s d \<Longrightarrow> owned s d \<subseteq> used_blocks s"
  unfolding tree_wf_def owned_def by fastforce

lemma tree_wf_has: "tree_wf X s d \<Longrightarrow> vpath p \<Longrightarrow> p \<notin> X \<Longrightarrow> ptr s d p \<noteq> 0 \<Longrightarrow> has_block s (nat (ptr s d p))"
  unfolding tree_wf_def by blast

lemma tree_wf_dinode: "tree_wf X s d \<Longrightarrow> dinode_wf d"
  by (simp add: tree_wf_def)

lemma tree_wf_count: "tree_wf X s d \<Longrightarrow> sint (block_count d) = int (card (owned s d))"
  by (simp add: tree_wf_def)

text \<open>
  Adding fresh blocks to a tree: the pointers that change were null, point to different blocks
  that were not used, and these are all that is newly used.
\<close>

lemma tree_wf_extend:
  assumes wf: "tree_wf X s d" and d': "dinode_wf d'"
    and used: "used_blocks t = used_blocks s \<union> N" "N \<inter> used_blocks s = {}" "finite (used_blocks t)"
    and new: "\<And>p. vpath p \<Longrightarrow> ptr t d' p = ptr s d p \<or> ptr s d p = 0 \<and> (\<exists>k\<in>N. ptr t d' p = int (DATA_START + k))"
    and inj: "\<And>p q. vpath p \<Longrightarrow> vpath q \<Longrightarrow> ptr s d p = 0 \<Longrightarrow> ptr s d q = 0 \<Longrightarrow>
      ptr t d' p = ptr t d' q \<Longrightarrow> ptr t d' p \<noteq> 0 \<Longrightarrow> p = q"
    and all: "\<And>k. k \<in> N \<Longrightarrow> \<exists>p. vpath p \<and> ptr t d' p = int (DATA_START + k)"
    and has: "\<And>p. vpath p \<Longrightarrow> p \<notin> Y \<Longrightarrow> ptr t d' p \<noteq> 0 \<Longrightarrow> has_block t (nat (ptr t d' p))"
    and count: "sint (block_count d') = sint (block_count d) + int (card N)"
  shows "tree_wf Y t d' \<and> owned t d' = owned s d \<union> N"
proof -
  have kept: "ptr t d' p = ptr s d p" if "vpath p" "ptr s d p \<noteq> 0" for p
    using new [OF that(1)] that(2) by blast
  have own: "owned t d' = owned s d \<union> N"
  proof
    show "owned t d' \<subseteq> owned s d \<union> N"
    proof
      fix k assume "k \<in> owned t d'"
      then obtain p where p: "vpath p" "ptr t d' p = int (DATA_START + k)" by (auto simp: owned_def)
      then show "k \<in> owned s d \<union> N" using new [OF p(1)] by (auto simp: owned_def)
    qed
    have "owned s d \<subseteq> owned t d'"
    proof
      fix k assume "k \<in> owned s d"
      then obtain p where "vpath p" "ptr s d p = int (DATA_START + k)" by (auto simp: owned_def)
      then show "k \<in> owned t d'" using kept [of p] by (auto simp: owned_def)
    qed
    moreover have "N \<subseteq> owned t d'" using all by (auto simp: owned_def)
    ultimately show "owned s d \<union> N \<subseteq> owned t d'" by blast
  qed
  have fin: "finite (owned s d)" "finite N" using owned_used [OF wf] used finite_subset by auto
  have "owned s d \<inter> N = {}" using owned_used [OF wf] used(2) by auto
  then have "sint (block_count d') = int (card (owned t d'))"
    using own count tree_wf_count [OF wf] card_Un_disjoint [OF fin] by simp
  moreover have "ptr t d' p = 0 \<or> (\<exists>k\<in>used_blocks t. ptr t d' p = int (DATA_START + k))" if "vpath p" for p
    using new [OF that] wf that used(1) unfolding tree_wf_def by (metis UnI1 UnI2)
  moreover have "p = q" if pq: "vpath p" "vpath q" "ptr t d' p = ptr t d' q" "ptr t d' p \<noteq> 0" for p q
  proof (cases "ptr s d p = 0"; cases "ptr s d q = 0")
    assume "ptr s d p = 0" "ptr s d q = 0" then show "p = q" using inj pq by blast
  next
    assume a: "ptr s d p = 0" "ptr s d q \<noteq> 0"
    then obtain k where "k \<in> N" "ptr t d' p = int (DATA_START + k)" using new [OF pq(1)] pq(4) by auto
    moreover obtain l where "l \<in> used_blocks s" "ptr s d q = int (DATA_START + l)" using tree_wfD [OF wf pq(2) a(2)] .
    ultimately show "p = q" using kept [OF pq(2) a(2)] pq(3) used(2) by auto
  next
    assume a: "ptr s d p \<noteq> 0" "ptr s d q = 0"
    then obtain k where "k \<in> N" "ptr t d' q = int (DATA_START + k)" using new [OF pq(2)] pq(3,4) by auto
    moreover obtain l where "l \<in> used_blocks s" "ptr s d p = int (DATA_START + l)" using tree_wfD [OF wf pq(1) a(1)] .
    ultimately show "p = q" using kept [OF pq(1) a(1)] pq(3) used(2) by auto
  next
    assume "ptr s d p \<noteq> 0" "ptr s d q \<noteq> 0"
    then show "p = q" using kept pq tree_wf_inj [OF wf pq(1,2)] by simp
  qed
  ultimately show ?thesis using own d' has unfolding tree_wf_def by blast
qed

section \<open>Reading through the tree\<close>

definition fblock :: "super_block \<Rightarrow> dinode \<Rightarrow> nat \<Rightarrow> u8 list" where
  "fblock s d L = (let a = ptr s d (leaf L) in if a = 0 then zero_block else blk s (nat a))"

text \<open>
  A hole of the double indirect part: there is a double indirect block but not the indirect block
  for \<open>L\<close>. There \<open>testfs_read_block\<close> leaves the double indirect block itself in the buffer.
\<close>

definition dhole :: "super_block \<Rightarrow> dinode \<Rightarrow> nat \<Rightarrow> bool" where
  "dhole s d L \<longleftrightarrow> 2058 \<le> L \<and> ptr s d PDind \<noteq> 0 \<and> ptr s d (PD1 ((L - 2058) div 2048)) = 0"

lemma ptr_addr:
  assumes "super_wf s" "tree_wf X s d" "vpath p" "p \<notin> X" "ptr s d p \<noteq> 0"
  shows "read_blocks s (ptr s d p) (Suc 0) = Inr (blk s (nat (ptr s d p)))" "0 < ptr s d p"
proof -
  obtain k where k: "k \<in> used_blocks s" "ptr s d p = int (DATA_START + k)" using tree_wfD [OF assms(2,3,5)] .
  then have "k < NR_FREEMAP_BLOCKS" using used_blocks_bound [OF assms(1)] by auto
  then show "read_blocks s (ptr s d p) (Suc 0) = Inr (blk s (nat (ptr s d p)))" "0 < ptr s d p"
    using k tree_wf_has [OF assms(2-5)] by (simp_all add: read_block_eq)
qed

lemma read_phy_eq:
  assumes "super_wf s" "tree_wf {} s d" "L < MAX_FILE_BLOCKS"
  shows "read_phy_block s (ptr s d (leaf L)) = Inr (ptr s d (leaf L), fblock s d L)"
  using ptr_addr [OF assms(1,2) vpath_leaf [OF assms(3)]]
  by (cases "ptr s d (leaf L) = 0") (simp_all add: read_phy_block_def fblock_def)

lemma testfs_read_block_eq:
  assumes s: "super_wf s" and d: "tree_wf {} s (in_d i)" and L: "L < MAX_FILE_BLOCKS"
  shows "testfs_read_block i s (int L) b = Inr (ptr s (in_d i) (leaf L),
    if dhole s (in_d i) L then blk s (nat (ptr s (in_d i) PDind)) else fblock s (in_d i) L)"
proof -
  let ?d = "in_d i"
  note P = ptr_addr [OF s d, simplified] and R = read_phy_eq [OF s d L] and N = tree_wf_pos [OF d]
  consider (dir) "L < 10" | (ind) "10 \<le> L" "L < 2058" | (dind) "2058 \<le> L" by linarith
  then show ?thesis
  proof cases
    case dir
    then show ?thesis using R by (simp add: testfs_read_block_def leaf_def dhole_def)
  next
    case ind
    then have nat: "nat (int L - 10) = L - 10" by simp
    show ?thesis
    proof (cases "ptr s ?d PInd = 0")
      case True
      then show ?thesis using ind by (simp add: testfs_read_block_def leaf_def dhole_def Let_def
            fblock_def read_phy_block_def entry_def)
    next
      case False
      then have e: "ptr s ?d (leaf L) = get_int (blk s (nat (sint (i_indirect ?d)))) (L - 10)"
        using ind by (simp add: leaf_def entry_def)
      show ?thesis
        using ind False P [of PInd] R unfolding e
        by (simp add: testfs_read_block_def dhole_def Let_def nat)
    qed
  next
    case dind
    let ?k = "(L - 2058) div 2048" and ?j = "(L - 2058) mod 2048"
    have k: "?k < 2048" using L dind by (simp add: less_mult_imp_div_less)
    have nat: "nat ((int L - 2058) div 2048) = ?k" "nat ((int L - 2058) mod 2048) = ?j"
      using dind by (simp_all add: nat_div_distrib nat_mod_distrib nat_diff_distrib)
    have leafL: "leaf L = PD2 ?k ?j" using dind by (simp add: leaf_def)
    have lt: "\<not> 4194304 \<le> int L - 2058" using L by linarith
    show ?thesis
    proof (cases "ptr s ?d PDind = 0")
      case True
      then show ?thesis using dind lt leafL
        by (simp add: testfs_read_block_def dhole_def Let_def fblock_def read_phy_block_def entry_def)
    next
      case pd: False
      then have e1: "get_int (blk s (nat (sint (i_dindirect ?d)))) ?k = ptr s ?d (PD1 ?k)"
        by (simp add: entry_def)
      have unf: "testfs_read_block i s (int L) b =
          (if 0 < ptr s ?d (PD1 ?k)
           then rbind (read_blocks s (ptr s ?d (PD1 ?k)) (Suc 0)) (\<lambda>block. read_phy_block s (get_int block ?j))
           else Inr (ptr s ?d (PD1 ?k), blk s (nat (ptr s ?d PDind))))"
        using dind pd P [of PDind] lt unfolding e1 [symmetric]
        by (simp add: testfs_read_block_def Let_def nat)
      show ?thesis
      proof (cases "ptr s ?d (PD1 ?k) = 0")
        case True
        then have "ptr s ?d (leaf L) = 0" unfolding leafL by (simp add: entry_def)
        then show ?thesis unfolding unf using True pd dind by (simp add: dhole_def)
      next
        case False
        then have "ptr s ?d (leaf L) = get_int (blk s (nat (ptr s ?d (PD1 ?k)))) ?j"
          unfolding leafL by (simp add: entry_def)
        then show ?thesis
          unfolding unf using False k P [of "PD1 ?k"] R by (simp add: dhole_def del: ptr.simps)
      qed
    qed
  qed
qed

lemma testfs_read_block_too_big:
  assumes "MAX_FILE_BLOCKS \<le> L"
  shows "testfs_read_block i s (int L) b = Inr (- EFBIG, b)"
  using assms by (simp add: testfs_read_block_def Let_def)

section \<open>Steps of the super block\<close>

definition sstep :: "super_block \<Rightarrow> nat set \<Rightarrow> super_block \<Rightarrow> bool" where
  "sstep s N t \<longleftrightarrow> super_wf t \<and> used_blocks t = used_blocks s \<union> N \<and> N \<inter> used_blocks s = {} \<and>
     used_inodes t = used_inodes s \<and> max_fs_blocks (sb_d t) = max_fs_blocks (sb_d s) \<and>
     (\<forall>j. has_block s j \<longrightarrow> has_block t j)"

lemma sstep_trans: "sstep s N t \<Longrightarrow> sstep t M u \<Longrightarrow> sstep s (N \<union> M) u"
  unfolding sstep_def by (simp add: Un_assoc) blast

lemma sstep_set_blk: "super_wf s \<Longrightarrow> 18 \<le> j \<Longrightarrow> length b = BLOCK_SIZE \<Longrightarrow> sstep s {} (set_blk s j b)"
  using super_wf_set_blk [of s j b] by (auto simp: sstep_def)

lemma sstep_wf: "sstep s N t \<Longrightarrow> super_wf t"
  by (simp add: sstep_def)

lemma sstep_used: "sstep s N t \<Longrightarrow> used_blocks t = used_blocks s \<union> N"
  by (simp add: sstep_def)

lemma sstep_fresh: "sstep s N t \<Longrightarrow> N \<inter> used_blocks s = {}"
  by (simp add: sstep_def)

lemma sstep_has: "sstep s N t \<Longrightarrow> has_block s j \<Longrightarrow> has_block t j"
  by (simp add: sstep_def)

lemma sstep_bound: "sstep s N t \<Longrightarrow> k \<in> N \<Longrightarrow> k < NR_FREEMAP_BLOCKS"
  using used_blocks_bound [of t] sstep_used [of s N t] sstep_wf [of s N t] by auto

lemma sstep_finite: "sstep s N t \<Longrightarrow> finite N"
  using finite_used_blocks [OF sstep_wf, of s N t] sstep_used [of s N t] by simp

lemma sstep_room:
  assumes "sstep s N t" "room s (card N + k)"
  shows "room t k"
proof -
  have "finite (used_blocks t)" using finite_used_blocks [OF sstep_wf [OF assms(1)]] .
  then have "card (used_blocks t) = card (used_blocks s) + card N"
    using assms(1) by (simp add: sstep_def card_Un_disjoint Int_commute)
  then show ?thesis using assms by (simp add: room_def sstep_def)
qed

definition bump :: "inode \<Rightarrow> inode" where
  "bump i = set_dirty (i\<lparr>in_d := (in_d i)\<lparr>block_count := block_count (in_d i) + 1\<rparr>\<rparr>)"

lemma bump_fields [simp]:
  "in_d (bump i) = (in_d i)\<lparr>block_count := block_count (in_d i) + 1\<rparr>"
  "i_nr (bump i) = i_nr i" "i_count (bump i) = i_count i" "is_dirty (bump i)"
  by (simp_all add: bump_def)

lemma is_dirty_in_d [simp]: "is_dirty (i\<lparr>in_d := d\<rparr>) = is_dirty i"
  by (simp add: is_dirty_def)

lemma alloc_for_inode_room:
  assumes "super_wf s" "room s (Suc 0)"
  obtains k t where "testfs_alloc_block_for_inode i s = Inr (int (DATA_START + k), bump i, t)"
    "sstep s {k} t" "same_blocks {18..} s t"
proof -
  obtain k t where "testfs_alloc_block s = Inr (int (DATA_START + k), t)"
      "k \<notin> used_blocks s" "super_wf t" "used_blocks t = insert k (used_blocks s)"
      "used_inodes t = used_inodes s" "max_fs_blocks (sb_d t) = max_fs_blocks (sb_d s)"
      "same_blocks {18..} s t"
    using testfs_alloc_block_room [OF assms] .
  moreover from this have "has_block t j" if "has_block s j" for j
    using that super_wfD(10) [of t j] by (cases "j < 18") (auto simp: same_blocks_def)
  ultimately show ?thesis using that [of k t]
    by (simp add: testfs_alloc_block_for_inode_def bump_def sstep_def)
qed

lemma alloc_for_inode_no_room:
  "super_wf s \<Longrightarrow> \<not> room s (Suc 0) \<Longrightarrow> testfs_alloc_block_for_inode i s = Inr (- ENOSPC, i, s)"
  by (simp add: testfs_alloc_block_for_inode_def testfs_alloc_block_no_room)

lemma sint32_add1:
  "sint (w :: 32 word) = int n \<Longrightarrow> n < 2 ^ 31 - 1 \<Longrightarrow> sint (w + 1) = int (Suc n)"
  by (simp add: sint_word_ariths signed_take_bit_int_eq_self)

section \<open>Entries of indirect blocks\<close>

definition inner_set :: "super_block \<Rightarrow> dinode \<Rightarrow> nat set" where
  "inner_set s d = {n. \<exists>p. vpath p \<and> inner p \<and> ptr s d p \<noteq> 0 \<and> n = nat (ptr s d p)}"

definition inner_X :: "path set \<Rightarrow> bool" where
  "inner_X X \<longleftrightarrow> (\<forall>p\<in>X. \<not> inner p)"

lemma inner_X_simps [simp]: "inner_X {}" "inner_X {leaf L}"
  by (simp_all add: inner_X_def)

lemma entry_same:
  assumes "same_blocks A s t" "a \<noteq> 0 \<Longrightarrow> nat a \<in> A \<and> has_block s (nat a)"
  shows "entry t a j = entry s a j"
  using assms by (auto simp: entry_def same_blocks_def)

lemma entry_null [simp]: "entry s 0 j = 0"
  by (simp add: entry_def)

lemma inner_has:
  assumes "tree_wf X s d" "inner_X X" "vpath p" "inner p" "ptr s d p \<noteq> 0"
  shows "nat (ptr s d p) \<in> inner_set s d" "has_block s (nat (ptr s d p))"
    "has_block s (nat (ptr s d p)) \<Longrightarrow> length (blk s (nat (ptr s d p))) = BLOCK_SIZE"
    "int (nat (ptr s d p)) = ptr s d p" "DATA_START \<le> nat (ptr s d p)"
  using assms tree_wf_has [OF assms(1,3) _ assms(5)] tree_wf_pos [OF assms(1,3)]
  by (auto simp: inner_X_def inner_set_def)

text \<open>Changing blocks that are not inner blocks of a tree changes no pointer of it.\<close>

lemma ptr_frame:
  assumes wf: "tree_wf X s d" "inner_X X" and same: "same_blocks A s t" "inner_set s d \<subseteq> A" and p: "vpath p"
  shows "ptr t d p = ptr s d p"
proof -
  note I = inner_has [OF wf]
  have e: "entry t (ptr s d q) j = entry s (ptr s d q) j" if "vpath q" "inner q" for q j
    using that I [OF that] same(2) by (intro entry_same [OF same(1)]) auto
  show ?thesis
  proof (cases p)
    case (PI i) then show ?thesis using e [of PInd] by simp
  next
    case (PD1 i) then show ?thesis using e [of PDind] by simp
  next
    case (PD2 i j) then show ?thesis using p e [of PDind] e [of "PD1 i"] by simp
  qed simp_all
qed

lemma ptr_dinode:
  "i_block_nr d' = i_block_nr d \<Longrightarrow> i_indirect d' = i_indirect d \<Longrightarrow> i_dindirect d' = i_dindirect d \<Longrightarrow>
   ptr s d' p = ptr s d p"
  by (cases p) simp_all

lemma inner_set_data:
  assumes "tree_wf X s d" "n \<in> inner_set s d"
  obtains k where "k \<in> owned s d" "n = DATA_START + k"
proof -
  obtain p where p: "vpath p" "ptr s d p \<noteq> 0" "n = nat (ptr s d p)" using assms(2) by (auto simp: inner_set_def)
  obtain k where "ptr s d p = int (DATA_START + k)" "k \<in> owned s d" using tree_wfD [OF assms(1) p(1,2)] .
  then show ?thesis using that [of k] p(3) by (simp add: nat_add_distrib)
qed

lemma inner_set_ge: "tree_wf X s d \<Longrightarrow> inner_set s d \<subseteq> {18..}"
  by (auto elim: inner_set_data)

lemma ptr_frame18:
  assumes "tree_wf X s d" "inner_X X" "same_blocks {18..} s t" "vpath p"
  shows "ptr t d p = ptr s d p"
  using ptr_frame [OF assms(1-3) inner_set_ge [OF assms(1)] assms(4)] .

lemma sets_cong:
  assumes "\<And>p. vpath p \<Longrightarrow> ptr t d' p = ptr s d p"
  shows "owned t d' = owned s d" "inner_set t d' = inner_set s d"
proof -
  show "owned t d' = owned s d" unfolding owned_def by (rule Collect_cong) (metis assms)
  show "inner_set t d' = inner_set s d" unfolding inner_set_def by (rule Collect_cong) (metis assms)
qed

lemma tree_wf_step:
  assumes wf: "tree_wf X s d" "inner_X X" and step: "sstep s N t" and same: "same_blocks {18..} s t"
  shows "tree_wf X t d"
proof -
  note F = ptr_frame18 [OF wf same]
  note O = sets_cong(1) [of t d s d, OF F]
  show ?thesis
    using wf(1) sstep_has [OF step] sstep_used [OF step] unfolding tree_wf_def by (simp add: F O) blast
qed

lemma fresh_ne:
  assumes "tree_wf X s d" "vpath p" "k \<notin> used_blocks s"
  shows "nat (ptr s d p) \<noteq> DATA_START + k"
proof (cases "ptr s d p = 0")
  case False
  then obtain l where "l \<in> used_blocks s" "ptr s d p = int (DATA_START + l)"
    using tree_wfD [OF assms(1,2)] by blast
  then show ?thesis using assms(3) by (auto simp: nat_add_distrib)
qed simp

section \<open>Allocating the block of a file\<close>

text \<open>What a successful allocation of block \<open>L\<close> of a file does.\<close>

definition alloc_ok :: "inode \<Rightarrow> super_block \<Rightarrow> nat \<Rightarrow> int \<Rightarrow> inode \<Rightarrow> super_block \<Rightarrow> bool" where
  "alloc_ok i s L r i' t \<longleftrightarrow>
     (\<exists>N k. k \<in> N \<and> r = int (DATA_START + k) \<and> card N \<le> 3 \<and> sstep s N t \<and>
       same_blocks ({18..} - inner_set s (in_d i) - (+) DATA_START ` N) s t \<and>
       owned t (in_d i') = owned s (in_d i) \<union> N) \<and>
     tree_wf {leaf L} t (in_d i') \<and> ptr t (in_d i') (leaf L) = r \<and>
     (\<forall>M<MAX_FILE_BLOCKS. M \<noteq> L \<longrightarrow> ptr t (in_d i') (leaf M) = ptr s (in_d i) (leaf M)) \<and>
     (\<forall>p. vpath p \<longrightarrow> inner p \<longrightarrow> ptr t (in_d i') p = ptr s (in_d i) p \<or> leads_to p (leaf L)) \<and>
     i_type (in_d i') = i_type (in_d i) \<and> i_size (in_d i') = i_size (in_d i) \<and>
     i_nr i' = i_nr i \<and> i_count i' = i_count i \<and> is_dirty i'"

text \<open>
  The general step: \<open>new\<close> gives the pointers that the allocation sets, all null before.
\<close>

lemma alloc_okI:
  fixes new :: "path \<Rightarrow> nat option"
  assumes wf: "tree_wf {} s (in_d i)" and L: "L < MAX_FILE_BLOCKS"
    and step: "sstep s N t" "card N \<le> 3"
    and same: "same_blocks ({18..} - inner_set s (in_d i) - (+) DATA_START ` N) s t"
    and ptr: "\<And>p. vpath p \<Longrightarrow> ptr t (in_d i') p =
      (case new p of Some k \<Rightarrow> int (DATA_START + k) | None \<Rightarrow> ptr s (in_d i) p)"
    and null: "\<And>p. p \<in> dom new \<Longrightarrow> vpath p \<and> ptr s (in_d i) p = 0 \<and> (p = leaf L \<or> leads_to p (leaf L))"
    and ran: "ran new = N" "inj_on new (dom new)" "new (leaf L) = Some k" "r = int (DATA_START + k)"
    and has: "\<And>p l. new p = Some l \<Longrightarrow> p \<noteq> leaf L \<Longrightarrow> has_block t (DATA_START + l)"
    and d': "dinode_wf (in_d i')" "sint (block_count (in_d i')) = sint (block_count (in_d i)) + int (card N)"
    and fields: "i_type (in_d i') = i_type (in_d i)" "i_size (in_d i') = i_size (in_d i)"
     "i_nr i' = i_nr i" "i_count i' = i_count i" "is_dirty i'"
  shows "alloc_ok i s L r i' t"
proof -
  let ?d = "in_d i" and ?d' = "in_d i'"
  have k: "k \<in> N" using ran(1,3) by (auto simp: ran_def)
  have "tree_wf {leaf L} t ?d' \<and> owned t ?d' = owned s ?d \<union> N"
  proof (rule tree_wf_extend [OF wf d'(1) sstep_used [OF step(1)] sstep_fresh [OF step(1)]])
    show "finite (used_blocks t)" using sstep_wf [OF step(1)] by simp
    show "ptr t ?d' p = ptr s ?d p \<or> ptr s ?d p = 0 \<and> (\<exists>k\<in>N. ptr t ?d' p = int (DATA_START + k))"
      if "vpath p" for p
      using ptr [OF that] null [of p] ran(1) by (cases "new p") (auto simp: ran_def)
    show "p = q" if "vpath p" "vpath q" "ptr s ?d p = 0" "ptr s ?d q = 0" "ptr t ?d' p = ptr t ?d' q"
        "ptr t ?d' p \<noteq> 0" for p q
    proof -
      have "new p \<noteq> None" "new p = new q" using that ptr by (auto split: option.splits)
      then show ?thesis using ran(2) by (auto simp: inj_on_def dom_def)
    qed
    show "\<exists>p. vpath p \<and> ptr t ?d' p = int (DATA_START + l)" if "l \<in> N" for l
    proof -
      obtain p where p: "new p = Some l" using \<open>l \<in> N\<close> ran(1) unfolding ran_def by blast
      then show ?thesis using ptr [of p] null [of p] by (intro exI [of _ p]) auto
    qed
    show "has_block t (nat (ptr t ?d' p))" if p: "vpath p" "p \<notin> {leaf L}" "ptr t ?d' p \<noteq> 0" for p
    proof (cases "new p")
      case None
      then show ?thesis using p ptr [OF p(1)] tree_wf_has [OF wf p(1)] sstep_has [OF step(1)] by auto
    next
      case (Some l)
      then show ?thesis using has [OF Some] p ptr [OF p(1)] by (simp add: nat_add_distrib)
    qed
    show "sint (block_count ?d') = sint (block_count ?d) + int (card N)" by (rule d'(2))
  qed
  moreover have "ptr t ?d' (leaf M) = ptr s ?d (leaf M)" if "M < MAX_FILE_BLOCKS" "M \<noteq> L" for M
  proof -
    have "new (leaf M) = None" using null [of "leaf M"] that L by (auto simp: leaf_inj)
    then show ?thesis using ptr [of "leaf M"] that by simp
  qed
  moreover have "ptr t ?d' (leaf L) = r" using ptr [of "leaf L"] L ran(3,4) by simp
  moreover have "ptr t ?d' p = ptr s ?d p \<or> leads_to p (leaf L)" if "vpath p" "inner p" for p
  proof (cases "new p")
    case (Some l)
    then show ?thesis using null [OF domI [where m = new, OF Some]] that(2) not_inner_leaf by metis
  qed (use ptr [OF that(1)] in simp)
  ultimately show ?thesis
    unfolding alloc_ok_def using k ran(4) step same fields by blast
qed


text \<open>A leaf put into an indirect block that exists.\<close>

lemma put_entry:
  assumes wf: "tree_wf X s d" "inner_X X" and q: "vpath q" "inner q" "ptr s d q \<noteq> 0"
    and l: "l < NR_INDIRECT_BLOCKS" "- (2 ^ 31) \<le> v" "v < 2 ^ 31"
    and t: "t = set_blk s (nat (ptr s d q)) (put_int (blk s (nat (ptr s d q))) l v)"
    and p: "vpath p" "inner p" and j: "j < NR_INDIRECT_BLOCKS"
  shows "entry t (ptr s d p) j = (if p = q \<and> j = l then v else entry s (ptr s d p) j)"
proof (cases "ptr s d p = 0")
  case False
  note P = inner_has [OF wf p False] and Q = inner_has [OF wf q]
  have len: "length (blk s (nat (ptr s d q))) = BLOCK_SIZE" using Q(2,3) by simp
  have new: "length (put_int (blk s (nat (ptr s d q))) l v) = BLOCK_SIZE" using len l by simp
  show ?thesis
  proof (cases "p = q")
    case True
    then show ?thesis
      using False new ints.get_put [OF len l(1) _ j, of v] l by (simp add: entry_def t)
  next
    case neq: False
    then have "nat (ptr s d p) \<noteq> nat (ptr s d q)"
      using tree_wf_inj [OF wf(1) p(1) q(1)] False P(4) Q(4) by metis
    then have "blk t (nat (ptr s d p)) = blk s (nat (ptr s d p))"
      using P(2) new by (simp add: t blk_set_blk_other)
    then show ?thesis using neq by (simp add: entry_def)
  qed
qed (use q in auto)

lemma data_addr: "k < NR_FREEMAP_BLOCKS \<Longrightarrow> blk_addr (int (DATA_START + k))"
  by simp

lemma ptr_blk_addr:
  assumes "super_wf s" "tree_wf X s d" "vpath p"
  shows "blk_addr (ptr s d p)"
proof (cases "ptr s d p = 0")
  case False
  then obtain k where k: "k \<in> used_blocks s" "ptr s d p = int (DATA_START + k)"
    using tree_wfD [OF assms(2,3)] by blast
  then show ?thesis using used_blocks_bound [OF assms(1)] by auto
qed simp

lemma put_entry_write:
  assumes "super_wf s" "tree_wf X s d" "inner_X X" "vpath q" "inner q" "ptr s d q \<noteq> 0" "l < NR_INDIRECT_BLOCKS"
  shows "length (put_int (blk s (nat (ptr s d q))) l v) = BLOCK_SIZE"
    "write_blocks s (put_int (blk s (nat (ptr s d q))) l v) (ptr s d q) (Suc 0) =
      Inr (set_blk s (nat (ptr s d q)) (put_int (blk s (nat (ptr s d q))) l v))"
proof -
  have "length (blk s (nat (ptr s d q))) = BLOCK_SIZE" using inner_has(2,3) [OF assms(2-6)] by blast
  then show l: "length (put_int (blk s (nat (ptr s d q))) l v) = BLOCK_SIZE" using assms(7) by simp
  show "write_blocks s (put_int (blk s (nat (ptr s d q))) l v) (ptr s d q) (Suc 0) =
      Inr (set_blk s (nat (ptr s d q)) (put_int (blk s (nat (ptr s d q))) l v))"
    using write_block_eq [OF ptr_blk_addr [OF assms(1,2,4)] l] .
qed

lemma put_zero_len [simp]: "l < NR_INDIRECT_BLOCKS \<Longrightarrow> length (put_int zero_block l v) = BLOCK_SIZE"
  by simp

lemma put_zero_entry:
  assumes "l < NR_INDIRECT_BLOCKS" "- (2 ^ 31) \<le> v" "v < 2 ^ 31" "j < NR_INDIRECT_BLOCKS"
  shows "get_int (put_int zero_block l v) j = (if j = l then v else 0)"
  using assms ints.get_put [of zero_block l v j] by simp

lemma bump_count:
  assumes "super_wf s" "tree_wf X s (in_d i)" "room s n" "j \<le> n"
  shows "sint (block_count (in_d i) + of_nat j) = sint (block_count (in_d i)) + int j"
proof -
  have "card (owned s (in_d i)) + n \<le> NR_FREEMAP_BLOCKS"
    using assms(3) card_mono [OF finite_used_blocks [OF assms(1)] owned_used [OF assms(2)]] by (simp add: room_def)
  then show ?thesis
    using tree_wf_count [OF assms(2)] assms(4)
    by (simp add: sint_word_ariths signed_take_bit_int_eq_self signed_of_nat)
qed

lemma allocate_direct_ok:
  assumes s: "super_wf s" and wf: "tree_wf {} s (in_d i)" and L: "L < 10" and null: "ptr s (in_d i) (leaf L) = 0"
    and room: "room s (Suc 0)"
  shows "\<exists>r i' t. allocate_direct i s L = Inr (r, i', t) \<and> alloc_ok i s L r i' t"
proof -
  obtain k t where a: "testfs_alloc_block_for_inode i s = Inr (int (DATA_START + k), bump i, t)"
    and step: "sstep s {k} t" and same: "same_blocks {18..} s t"
    using alloc_for_inode_room [OF s room] .
  let ?v = "word_of_int (int (DATA_START + k)) :: 32 word"
  let ?i' = "(bump i)\<lparr>in_d := (in_d (bump i))\<lparr>i_block_nr := (i_block_nr (in_d (bump i)))[L := ?v]\<rparr>\<rparr>"
  have k: "k < NR_FREEMAP_BLOCKS" using sstep_bound [OF step] by simp
  then have v: "sint ?v = int (DATA_START + k)" by (intro sint32_of_int) simp_all
  have len: "length (i_block_nr (in_d i)) = 10" using tree_wf_dinode [OF wf] by (simp add: dinode_wf_def)
  have leafL: "leaf L = PDir L" using L by (simp add: leaf_def)
  have eq: "allocate_direct i s L = Inr (int (DATA_START + k), ?i', t)"
    using a null leafL by (simp add: allocate_direct_def signed_eq_0_iff)
  have frame: "ptr t (in_d i) p = ptr s (in_d i) p" if "vpath p" for p
    using ptr_frame18 [OF wf _ same that] by simp
  have "alloc_ok i s L (int (DATA_START + k)) ?i' t"
  proof (rule alloc_okI [where new = "[leaf L \<mapsto> k]" and k = k, OF wf _ step])
    show "ptr t (in_d ?i') p = (case [leaf L \<mapsto> k] p of Some k \<Rightarrow> int (DATA_START + k) | None \<Rightarrow> ptr s (in_d i) p)"
      if "vpath p" for p
      using frame [OF that] that v L len leafL by (cases p) (auto simp: nth_list_update)
    show "dinode_wf (in_d ?i')" using len by (simp add: dinode_wf_def)
    show "sint (block_count (in_d ?i')) = sint (block_count (in_d i)) + int (card {k})"
      using bump_count [OF s wf room, of 1] by simp
    show "same_blocks ({18..} - inner_set s (in_d i) - (+) DATA_START ` {k}) s t"
      by (rule same_blocks_mono [OF same]) auto
  qed (use L leafL null in \<open>simp_all split: if_splits\<close>)
  then show ?thesis using eq by blast
qed

text \<open>The leaf is put into an indirect block \<open>q\<close> that exists.\<close>

lemma alloc_ok_old_inner:
  assumes s: "super_wf s" and wf: "tree_wf {} s (in_d i)" and L: "L < MAX_FILE_BLOCKS" and l: "l < 2048"
    and q: "q = PInd \<and> leaf L = PI l \<or> (\<exists>m<2048. q = PD1 m \<and> leaf L = PD2 m l)"
    and ex: "ptr s (in_d i) q \<noteq> 0" and null: "ptr s (in_d i) (leaf L) = 0" and room: "room s (Suc 0)"
    and step1: "sstep s {k} t1" and same1: "same_blocks {18..} s t1"
    and t: "t = set_blk t1 (nat (ptr s (in_d i) q)) (put_int (blk s (nat (ptr s (in_d i) q))) l (int (DATA_START + k)))"
  shows "write_blocks t1 (put_int (blk s (nat (ptr s (in_d i) q))) l (int (DATA_START + k))) (ptr s (in_d i) q)
      (Suc 0) = Inr t \<and> alloc_ok i s L (int (DATA_START + k)) (bump i) t"
proof -
  let ?d = "in_d i"
  let ?v = "int (DATA_START + k)" and ?a = "ptr s ?d q"
  have q': "vpath q" "inner q" using q by auto
  have k: "k < NR_FREEMAP_BLOCKS" using sstep_bound [OF step1] by simp
  have wf1: "tree_wf {} t1 ?d" by (rule tree_wf_step [OF wf _ step1 same1]) simp
  note F1 = ptr_frame18 [OF wf inner_X_simps(1) same1]
  have a1: "ptr t1 ?d q = ?a" "ptr t1 ?d q \<noteq> 0" using F1 [OF q'(1)] ex by simp_all
  have b: "blk t1 (nat ?a) = blk s (nat ?a)"
    using inner_has [OF wf _ q' ex] same1 by (simp add: same_blocks_def)
  note W = put_entry_write [OF sstep_wf [OF step1] wf1 inner_X_simps(1) q' a1(2) l, of ?v, unfolded a1(1) b]
  have E: "entry t (ptr s ?d p) j = (if p = q \<and> j = l then ?v else entry s (ptr s ?d p) j)"
    if "vpath p" "inner p" "j < 2048" for p j
  proof -
    have "entry t1 (ptr s ?d p) j = entry s (ptr s ?d p) j"
      using inner_has(2,5) [OF wf _ that(1,2)] by (intro entry_same [OF same1]) auto
    then show ?thesis
      using put_entry [OF wf1 inner_X_simps(1) q' a1(2) l, of ?v t p j] that k F1 [OF that(1)]
      by (simp add: t a1(1) b)
  qed
  have step2: "sstep t1 {} t" unfolding t
    by (rule sstep_set_blk [OF sstep_wf [OF step1]]) (use W inner_has [OF wf _ q' ex] in auto)
  have step: "sstep s {k} t" using sstep_trans [OF step1 step2] by simp
  have "alloc_ok i s L ?v (bump i) t"
  proof (rule alloc_okI [where new = "[leaf L \<mapsto> k]" and k = k, OF wf L step])
    show "ptr t (in_d (bump i)) p = (case [leaf L \<mapsto> k] p of Some k \<Rightarrow> int (DATA_START + k) | None \<Rightarrow> ptr s ?d p)"
      if p: "vpath p" for p
    proof -
      consider (ind) "q = PInd" "leaf L = PI l" | (dind) m where "m < 2048" "q = PD1 m" "leaf L = PD2 m l"
        using q by blast
      then show ?thesis
      proof cases
        case ind
        then show ?thesis
          using p E [of PInd] E [of PDind] E [of "PD1 j" for j]
          by (cases p) (simp_all del: of_nat_add)
      next
        case dind
        then show ?thesis
          using p E [of PInd] E [of PDind] E [of "PD1 j" for j]
          by (cases p) (simp_all del: of_nat_add)
      qed
    qed
    show "sint (block_count (in_d (bump i))) = sint (block_count ?d) + int (card {k})"
      using bump_count [OF s wf room, of 1] by simp
    show "same_blocks ({18..} - inner_set s ?d - (+) DATA_START ` {k}) s t"
    proof -
      have "same_blocks (- {nat ?a}) t1 t" unfolding t using W(1) by (intro same_blocks_set_blk) simp_all
      then show ?thesis
        using inner_has(1) [OF wf _ q' ex] by (intro same_blocks_mono [OF same_blocks_trans [OF same1]]) auto
    qed
    show "dinode_wf (in_d (bump i))" using tree_wf_dinode [OF wf] by (simp add: dinode_wf_def)
  qed (use L null k in \<open>auto split: if_splits\<close>)
  then show ?thesis using W(2) by (simp add: t)
qed

text \<open>A fresh indirect block that holds only the leaf.\<close>

lemma fresh_entry:
  assumes "l < 2048" "k < NR_FREEMAP_BLOCKS" "j < 2048"
  shows "entry (set_blk t n (put_int zero_block l (int (DATA_START + k)))) (int n) j =
    (if n \<noteq> 0 \<and> j = l then int (DATA_START + k) else 0)"
  using assms by (simp add: entry_def put_zero_entry del: of_nat_add)

lemma write_fresh:
  assumes "l < 2048" "n < NR_FREEMAP_BLOCKS"
  shows "write_blocks t (put_int zero_block l v) (int (DATA_START + n)) (Suc 0) =
    Inr (set_blk t (DATA_START + n) (put_int zero_block l v))"
  using write_block_eq [OF data_addr [OF assms(2)] put_zero_len [OF assms(1)]] by (simp add: nat_add_distrib)

lemma allocate_indirect_new:
  assumes s: "super_wf s" and wf: "tree_wf {} s (in_d i)" and l: "l < 2048"
    and pind: "ptr s (in_d i) PInd = 0" and room: "room s 2"
  shows "\<exists>r i' t. allocate_indirect i s (int l) = Inr (r, i', t) \<and> alloc_ok i s (l + 10) r i' t"
proof -
  let ?d = "in_d i"
  obtain k t1 where a1: "testfs_alloc_block_for_inode i s = Inr (int (DATA_START + k), bump i, t1)"
    and step1: "sstep s {k} t1" and same1: "same_blocks {18..} s t1"
    using alloc_for_inode_room [OF s room_mono [OF room]] by auto
  let ?w = "word_of_int (int (DATA_START + k)) :: 32 word"
  let ?i1 = "(bump i)\<lparr>in_d := (in_d (bump i))\<lparr>i_indirect := ?w\<rparr>\<rparr>"
  have r1: "room t1 (Suc 0)" using sstep_room [OF step1, of 1] room by (simp add: numeral_2_eq_2)
  obtain m t2 where a2: "testfs_alloc_block_for_inode ?i1 t1 = Inr (int (DATA_START + m), bump ?i1, t2)"
    and step2: "sstep t1 {m} t2" and same2: "same_blocks {18..} t1 t2"
    using alloc_for_inode_room [OF sstep_wf [OF step1] r1] by auto
  define t where "t = set_blk t2 (DATA_START + k) (put_int zero_block l (int (DATA_START + m)))"
  have k: "k < NR_FREEMAP_BLOCKS" "m < NR_FREEMAP_BLOCKS" "k \<notin> used_blocks s" "m \<noteq> k"
    using sstep_bound [OF step1] sstep_bound [OF step2] sstep_fresh [OF step1] sstep_fresh [OF step2]
      sstep_used [OF step1] by auto
  have w: "sint ?w = int (DATA_START + k)" using k by (intro sint32_of_int) simp_all
  have eq: "allocate_indirect i s (int l) = Inr (int (DATA_START + m), bump ?i1, t)"
    using a1 a2 pind l w write_fresh [OF l k(1)]
    by (simp add: allocate_indirect_def allocate_indirect_leaf_def t_def signed_eq_0_iff Let_def)
  have step: "sstep s {k, m} t"
    using sstep_trans [OF sstep_trans [OF step1 step2] sstep_set_blk [OF sstep_wf [OF step2]]] l
    by (simp add: t_def insert_commute)
  have same: "same_blocks ({18..} - {DATA_START + k}) s t"
  proof -
    have "same_blocks (- {DATA_START + k}) t2 t" unfolding t_def using l by (intro same_blocks_set_blk) simp_all
    then show ?thesis by (intro same_blocks_mono [OF same_blocks_trans [OF same_blocks_trans [OF same1 same2]]]) auto
  qed
  have "alloc_ok i s (l + 10) (int (DATA_START + m)) (bump ?i1) t"
  proof (rule alloc_okI [where new = "[leaf (l + 10) \<mapsto> m, PInd \<mapsto> k]" and k = m, OF wf _ step])
    show "ptr t (in_d (bump ?i1)) p =
        (case [leaf (l + 10) \<mapsto> m, PInd \<mapsto> k] p of Some k \<Rightarrow> int (DATA_START + k) | None \<Rightarrow> ptr s ?d p)"
      if p: "vpath p" for p
    proof -
      have sub: "inner_set s ?d \<subseteq> {18..} - {DATA_START + k}"
        using inner_set_ge [OF wf] fresh_ne [OF wf _ k(3)] by (auto simp: inner_set_def)
      have F: "ptr t ?d p = ptr s ?d p" by (rule ptr_frame [OF wf _ same sub p]) simp
      have E: "entry t (int (DATA_START + k)) j = (if j = l then int (DATA_START + m) else 0)" if "j < 2048" for j
        using fresh_entry [OF l k(2) that, of t2 "DATA_START + k"] by (simp add: t_def)
      show ?thesis
        using F l w E pind p by (cases p) (simp_all add: leaf_def entry_null del: of_nat_add)
    qed
    show "sint (block_count (in_d (bump ?i1))) = sint (block_count ?d) + int (card {k, m})"
      using bump_count [OF s wf room, of 2] k(4) by (simp add: add.assoc)
    show "same_blocks ({18..} - inner_set s ?d - (+) DATA_START ` {k, m}) s t"
      by (rule same_blocks_mono [OF same]) auto
    show "dinode_wf (in_d (bump ?i1))" using tree_wf_dinode [OF wf] by (simp add: dinode_wf_def)
    show "has_block t (DATA_START + a)" if "[leaf (l + 10) \<mapsto> m, PInd \<mapsto> k] p = Some a" "p \<noteq> leaf (l + 10)" for p a
      using that l by (auto simp: t_def split: if_splits)
    show "inj_on [leaf (l + 10) \<mapsto> m, PInd \<mapsto> k] (dom [leaf (l + 10) \<mapsto> m, PInd \<mapsto> k])"
      using k(4) l by (auto simp: inj_on_def leaf_def)
    show "vpath p \<and> ptr s ?d p = 0 \<and> (p = leaf (l + 10) \<or> leads_to p (leaf (l + 10)))" if "p \<in> dom [leaf (l + 10) \<mapsto> m, PInd \<mapsto> k]" for p
      using that l pind by (auto simp: leaf_def)
  qed (use l k in \<open>simp_all add: leaf_def\<close>)
  then show ?thesis using eq by blast
qed

lemma dind_split:
  assumes "2058 \<le> L" "L < MAX_FILE_BLOCKS"
  obtains m j where "m < 2048" "j < 2048" "leaf L = PD2 m j" "nat ((int L - 2058) div 2048) = m"
    "nat ((int L - 2058) mod 2048) = j" "\<not> NR_DINDIRECT \<le> int L - 2058"
proof (rule that)
  show "(L - 2058) div 2048 < 2048" using assms by (simp add: less_mult_imp_div_less)
  show "leaf L = PD2 ((L - 2058) div 2048) ((L - 2058) mod 2048)" using assms by (simp add: leaf_def)
  show "nat ((int L - 2058) div 2048) = (L - 2058) div 2048" "nat ((int L - 2058) mod 2048) = (L - 2058) mod 2048"
    using assms by (simp_all add: nat_div_distrib nat_mod_distrib nat_diff_distrib)
qed (use assms in simp_all)

lemma allocate_dindirect_old:
  assumes s: "super_wf s" and wf: "tree_wf {} s (in_d i)" and L: "2058 \<le> L" "L < MAX_FILE_BLOCKS"
    and lL: "leaf L = PD2 m j" and m: "m < 2048" "j < 2048"
    and nat: "nat ((int L - 2058) div 2048) = m" "nat ((int L - 2058) mod 2048) = j"
    and lt: "\<not> NR_DINDIRECT \<le> int L - 2058"
    and ex: "ptr s (in_d i) (PD1 m) \<noteq> 0" and null: "ptr s (in_d i) (leaf L) = 0" and room: "room s (Suc 0)"
  shows "\<exists>r i' t. allocate_dindirect i s (int L - 2058) = Inr (r, i', t) \<and> alloc_ok i s L r i' t"
proof -
  let ?d = "in_d i"
  obtain k t1 where a: "testfs_alloc_block_for_inode i s = Inr (int (DATA_START + k), bump i, t1)"
    and step1: "sstep s {k} t1" and same1: "same_blocks {18..} s t1"
    using alloc_for_inode_room [OF s room] .
  have pd: "ptr s ?d PDind \<noteq> 0" using ex by (auto simp: entry_def)
  then have e1: "get_int (blk s (nat (ptr s ?d PDind))) m = ptr s ?d (PD1 m)" by (simp add: entry_def)
  have e2: "get_int (blk s (nat (ptr s ?d (PD1 m)))) j = 0" using null ex lL by (simp add: entry_def)
  define t where "t = set_blk t1 (nat (ptr s ?d (PD1 m)))
      (put_int (blk s (nat (ptr s ?d (PD1 m)))) j (int (DATA_START + k)))"
  have ok: "write_blocks t1 (put_int (blk s (nat (ptr s ?d (PD1 m)))) j (int (DATA_START + k)))
        (ptr s ?d (PD1 m)) (Suc 0) = Inr t \<and> alloc_ok i s L (int (DATA_START + k)) (bump i) t"
    using alloc_ok_old_inner [OF s wf L(2) m(2) _ ex null room step1 same1 t_def] m lL by blast
  have "allocate_dindirect i s (int L - 2058) = allocate_dindirect_mid i s (int L - 2058) (blk s (nat (ptr s ?d PDind))) False"
    using lt pd ptr_addr [OF s wf, of PDind] by (simp add: allocate_dindirect_def signed_eq_0_iff)
  also have "\<dots> = allocate_dindirect_leaf i s (int L - 2058) (blk s (nat (ptr s ?d PDind))) False
      (blk s (nat (ptr s ?d (PD1 m)))) False"
    using ex m ptr_addr [OF s wf, of "PD1 m"]
    by (simp add: allocate_dindirect_mid_def nat e1 del: ptr.simps)
  also have "\<dots> = Inr (int (DATA_START + k), bump i, t)"
    using a ok by (simp add: allocate_dindirect_leaf_def nat e1 e2 del: ptr.simps)
  finally show ?thesis using ok by blast
qed

lemma allocate_dindirect_mid_new:
  assumes s: "super_wf s" and wf: "tree_wf {} s (in_d i)" and L: "2058 \<le> L" "L < MAX_FILE_BLOCKS"
    and lL: "leaf L = PD2 m j" and m: "m < 2048" "j < 2048"
    and nat: "nat ((int L - 2058) div 2048) = m" "nat ((int L - 2058) mod 2048) = j"
    and lt: "\<not> NR_DINDIRECT \<le> int L - 2058"
    and pd: "ptr s (in_d i) PDind \<noteq> 0" and no: "ptr s (in_d i) (PD1 m) = 0" and room: "room s 2"
  shows "\<exists>r i' t. allocate_dindirect i s (int L - 2058) = Inr (r, i', t) \<and> alloc_ok i s L r i' t"
proof -
  let ?d = "in_d i"
  let ?a = "ptr s ?d PDind"
  obtain k t1 where a1: "testfs_alloc_block_for_inode i s = Inr (int (DATA_START + k), bump i, t1)"
    and step1: "sstep s {k} t1" and same1: "same_blocks {18..} s t1"
    using alloc_for_inode_room [OF s room_mono [OF room]] by auto
  have k: "k < NR_FREEMAP_BLOCKS" "k \<notin> used_blocks s" using sstep_bound [OF step1] sstep_fresh [OF step1] by auto
  let ?v = "int (DATA_START + k)"
  have wf1: "tree_wf {} t1 ?d" by (rule tree_wf_step [OF wf _ step1 same1]) simp
  note F1 = ptr_frame18 [OF wf inner_X_simps(1) same1]
  have p1: "ptr t1 ?d PDind = ?a" "ptr t1 ?d PDind \<noteq> 0" using pd by simp_all
  have b: "blk t1 (nat ?a) = blk s (nat ?a)"
    using inner_has [OF wf _ _ _ pd] same1 by (simp add: same_blocks_def)
  define b1 where "b1 = put_int (blk s (nat ?a)) m ?v"
  define t2 where "t2 = set_blk t1 (nat ?a) b1"
  note W = put_entry_write [OF sstep_wf [OF step1] wf1 inner_X_simps(1) _ _ p1(2) m(1), of ?v,
      unfolded p1(1) b, folded b1_def t2_def]
  have step12: "sstep t1 {} t2" unfolding t2_def
    by (rule sstep_set_blk [OF sstep_wf [OF step1]]) (use W inner_has [OF wf _ _ _ pd] in auto)
  have step2: "sstep s {k} t2" using sstep_trans [OF step1 step12] by simp
  have r2: "room t2 (Suc 0)" using sstep_room [OF step2, of 1] room by (simp add: numeral_2_eq_2)
  obtain n t3 where a3: "testfs_alloc_block_for_inode (bump i) t2 = Inr (int (DATA_START + n), bump (bump i), t3)"
    and step3: "sstep t2 {n} t3" and same3: "same_blocks {18..} t2 t3"
    using alloc_for_inode_room [OF sstep_wf [OF step2] r2] by auto
  define t where "t = set_blk t3 (DATA_START + k) (put_int zero_block j (int (DATA_START + n)))"
  have n: "n < NR_FREEMAP_BLOCKS" "n \<noteq> k"
    using sstep_bound [OF step3] sstep_fresh [OF step3] sstep_used [OF step2] by auto
  have gb: "get_int b1 l = (if l = m then ?v else get_int (blk s (nat ?a)) l)" if "l < 2048" for l
  proof -
    have "length (blk s (nat ?a)) = BLOCK_SIZE" using inner_has [OF wf _ _ _ pd] by simp
    then show ?thesis
      using ints.get_put [of "blk s (nat ?a)" m ?v l] m that k by (auto simp: b1_def)
  qed
  have e0: "get_int (blk s (nat ?a)) m = 0" using pd no by (simp add: entry_def)
  have "allocate_dindirect i s (int L - 2058) = allocate_dindirect_mid i s (int L - 2058) (blk s (nat ?a)) False"
    using lt pd ptr_addr [OF s wf, of PDind] by (simp add: allocate_dindirect_def signed_eq_0_iff)
  also have "\<dots> = allocate_dindirect_leaf (bump i) t2 (int L - 2058) b1 False zero_block True"
    using a1 W(2) e0 by (simp add: allocate_dindirect_mid_def nat b1_def Let_def)
  also have "\<dots> = Inr (int (DATA_START + n), bump (bump i), t)"
    using a3 m gb [OF m(1)] write_fresh [OF m(2) k(1), of t3]
    by (simp add: allocate_dindirect_leaf_def nat t_def)
  finally have eq: "allocate_dindirect i s (int L - 2058) = Inr (int (DATA_START + n), bump (bump i), t)" .
  have len2: "length (put_int zero_block j (int (DATA_START + n))) = BLOCK_SIZE" using m(2) by simp
  have same: "same_blocks ({18..} - {nat ?a, DATA_START + k}) s t"
  proof -
    have "same_blocks (- {nat ?a}) t1 t2" unfolding t2_def using W(1) by (intro same_blocks_set_blk) simp_all
    moreover have "same_blocks (- {DATA_START + k}) t3 t" unfolding t_def using len2 by (intro same_blocks_set_blk) simp_all
    ultimately show ?thesis
      by (intro same_blocks_mono [OF same_blocks_trans [OF same_blocks_trans [OF same_blocks_trans [OF same1] same3]]])
        auto
  qed
  have step: "sstep s {k, n} t"
    using sstep_trans [OF sstep_trans [OF step2 step3] sstep_set_blk [OF sstep_wf [OF step3] _ len2]]
    by (simp add: t_def insert_commute)
  have blkA: "blk t (nat ?a) = b1"
  proof -
    have h2: "has_block t2 (nat ?a)" "blk t2 (nat ?a) = b1" using W(1) by (simp_all add: t2_def)
    then have "has_block t3 (nat ?a)" "blk t3 (nat ?a) = b1"
      using same3 inner_has(5) [OF wf _ _ _ pd] by (auto simp: same_blocks_def)
    then show ?thesis
      using fresh_ne [OF wf _ k(2), of PDind] len2 by (simp add: t_def blk_set_blk_other)
  qed
  have blkK: "entry t ?v l = (if l = j then int (DATA_START + n) else 0)" if "l < 2048" for l
    using fresh_entry [OF m(2) n(1) that, of t3 "DATA_START + k"] by (simp add: t_def)
  have E: "entry t (ptr s ?d p) l = entry s (ptr s ?d p) l" if "vpath p" "inner p" "p \<noteq> PDind" for p l
  proof (rule entry_same [OF same])
    assume nz: "ptr s ?d p \<noteq> 0"
    note I = inner_has [OF wf _ that(1,2) nz]
    have "ptr s ?d p \<noteq> ?a" using tree_wf_inj [OF wf that(1), of PDind] that(3) nz by auto
    then have "nat (ptr s ?d p) \<noteq> nat ?a"
      using I(4) inner_has(4) [OF wf _ _ _ pd] by (metis inner.simps(2) inner_X_simps(1) vpath.simps(6))
    then show "nat (ptr s ?d p) \<in> {18..} - {nat ?a, DATA_START + k} \<and> has_block s (nat (ptr s ?d p))"
      using I(2,5) fresh_ne [OF wf that(1) k(2)] by simp
  qed
  have EA: "entry t ?a l = (if l = m then ?v else entry s ?a l)" if "l < 2048" for l
    using gb [OF that] blkA pd by (simp add: entry_def)
  have "alloc_ok i s L (int (DATA_START + n)) (bump (bump i)) t"
  proof (rule alloc_okI [where new = "[leaf L \<mapsto> n, PD1 m \<mapsto> k]" and k = n, OF wf L(2) step])
    show "ptr t (in_d (bump (bump i))) p =
        (case [leaf L \<mapsto> n, PD1 m \<mapsto> k] p of Some k \<Rightarrow> int (DATA_START + k) | None \<Rightarrow> ptr s ?d p)"
      if p: "vpath p" for p
    proof (cases p)
      case (PI l) then show ?thesis using E [of PInd l] lL by simp
    next
      case (PD1 l) then show ?thesis using EA [of l] p lL by simp
    next
      case (PD2 x l)
      then have xl: "x < 2048" "l < 2048" using p by simp_all
      have "ptr t (in_d (bump (bump i))) p = entry t (if x = m then ?v else ptr s ?d (PD1 x)) l"
        using PD2 EA [OF xl(1)] by simp
      then show ?thesis
        using PD2 xl lL blkK [OF xl(2)] E [of "PD1 x" l] no by (cases "x = m"; cases "l = j") simp_all
    qed (use lL in simp_all)
    show "sint (block_count (in_d (bump (bump i)))) = sint (block_count ?d) + int (card {k, n})"
      using bump_count [OF s wf room, of 2] n(2) by (simp add: add.assoc)
    show "same_blocks ({18..} - inner_set s ?d - (+) DATA_START ` {k, n}) s t"
      using inner_has(1) [OF wf _ _ _ pd] by (intro same_blocks_mono [OF same]) auto
    show "dinode_wf (in_d (bump (bump i)))" using tree_wf_dinode [OF wf] by (simp add: dinode_wf_def)
    show "has_block t (DATA_START + a)" if "[leaf L \<mapsto> n, PD1 m \<mapsto> k] p = Some a" "p \<noteq> leaf L" for p a
      using that len2 by (auto simp: t_def split: if_splits)
    show "inj_on [leaf L \<mapsto> n, PD1 m \<mapsto> k] (dom [leaf L \<mapsto> n, PD1 m \<mapsto> k])"
      using n(2) lL by (auto simp: inj_on_def)
    show "vpath p \<and> ptr s ?d p = 0 \<and> (p = leaf L \<or> leads_to p (leaf L))" if "p \<in> dom [leaf L \<mapsto> n, PD1 m \<mapsto> k]" for p
      using that no m lL by (auto simp: entry_def)
  qed (use lL m k n in simp_all)
  then show ?thesis using eq by blast
qed


lemma allocate_dindirect_new:
  assumes s: "super_wf s" and wf: "tree_wf {} s (in_d i)" and L: "2058 \<le> L" "L < MAX_FILE_BLOCKS"
    and lL: "leaf L = PD2 m j" and m: "m < 2048" "j < 2048"
    and nat: "nat ((int L - 2058) div 2048) = m" "nat ((int L - 2058) mod 2048) = j"
    and lt: "\<not> NR_DINDIRECT \<le> int L - 2058"
    and pd: "ptr s (in_d i) PDind = 0" and room: "room s 3"
  shows "\<exists>r i' t. allocate_dindirect i s (int L - 2058) = Inr (r, i', t) \<and> alloc_ok i s L r i' t"
proof -
  let ?d = "in_d i"
  obtain k0 t0 where a0: "testfs_alloc_block_for_inode i s = Inr (int (DATA_START + k0), bump i, t0)"
    and step0: "sstep s {k0} t0" and same0: "same_blocks {18..} s t0"
    using alloc_for_inode_room [OF s room_mono [OF room]] by auto
  let ?w = "word_of_int (int (DATA_START + k0)) :: 32 word"
  let ?v0 = "int (DATA_START + k0)"
  let ?i0 = "(bump i)\<lparr>in_d := (in_d (bump i))\<lparr>i_dindirect := ?w\<rparr>\<rparr>"
  have r0: "room t0 2" using sstep_room [OF step0, of 2] room by (simp add: numeral_3_eq_3 numeral_2_eq_2)
  obtain k1 t1 where a1: "testfs_alloc_block_for_inode ?i0 t0 = Inr (int (DATA_START + k1), bump ?i0, t1)"
    and step1: "sstep t0 {k1} t1" and same1: "same_blocks {18..} t0 t1"
    using alloc_for_inode_room [OF sstep_wf [OF step0] room_mono [OF r0]] by auto
  let ?v1 = "int (DATA_START + k1)"
  define b0 where "b0 = put_int zero_block m ?v1"
  define t2 where "t2 = set_blk t1 (DATA_START + k0) b0"
  have len0: "length b0 = BLOCK_SIZE" using m by (simp add: b0_def)
  have step2: "sstep s {k0, k1} t2"
    using sstep_trans [OF sstep_trans [OF step0 step1] sstep_set_blk [OF sstep_wf [OF step1] _ len0]]
    by (simp add: t2_def insert_commute)
  have K: "k0 < NR_FREEMAP_BLOCKS" "k1 < NR_FREEMAP_BLOCKS" "k0 \<notin> used_blocks s" "k1 \<notin> used_blocks s" "k1 \<noteq> k0"
    using sstep_bound [OF step0] sstep_bound [OF step1] sstep_fresh [OF step2] sstep_fresh [OF step1]
      sstep_used [OF step0] by auto
  have r2: "room t2 (Suc 0)" using sstep_room [OF step2, of 1] room K by (simp add: numeral_3_eq_3)
  obtain n t3 where a3: "testfs_alloc_block_for_inode (bump ?i0) t2 = Inr (int (DATA_START + n), bump (bump ?i0), t3)"
    and step3: "sstep t2 {n} t3" and same3: "same_blocks {18..} t2 t3"
    using alloc_for_inode_room [OF sstep_wf [OF step2] r2] by auto
  define b1 where "b1 = put_int zero_block j (int (DATA_START + n))"
  define t where "t = set_blk t3 (DATA_START + k1) b1"
  have len1: "length b1 = BLOCK_SIZE" using m by (simp add: b1_def)
  have n: "n < NR_FREEMAP_BLOCKS" "n \<noteq> k0" "n \<noteq> k1"
    using sstep_bound [OF step3] sstep_fresh [OF step3] sstep_used [OF step2] by auto
  have step: "sstep s {k0, k1, n} t"
    using sstep_trans [OF sstep_trans [OF step2 step3] sstep_set_blk [OF sstep_wf [OF step3] _ len1]]
    by (simp add: t_def insert_commute)
  have w: "sint ?w = ?v0" using K by (intro sint32_of_int) simp_all
  have g0: "get_int b0 l = (if l = m then ?v1 else 0)" if "l < 2048" for l
    using put_zero_entry [OF m(1) _ _ that, of ?v1] K by (simp add: b0_def)
  let ?i2 = "bump (bump ?i0)"
  have "allocate_dindirect i s (int L - 2058) = allocate_dindirect_mid ?i0 t0 (int L - 2058) zero_block True"
    using lt pd a0 by (simp add: allocate_dindirect_def signed_eq_0_iff Let_def)
  also have "\<dots> = allocate_dindirect_leaf (bump ?i0) t2 (int L - 2058) b0 True zero_block True"
    using a1 w write_fresh [OF m(1) K(1), of t1 ?v1] m
    by (simp add: allocate_dindirect_mid_def nat b0_def t2_def Let_def)
  also have "\<dots> = Inr (int (DATA_START + n), ?i2, t)"
    using a3 m g0 [OF m(1)] write_fresh [OF m(2) K(2), of t3]
    by (simp add: allocate_dindirect_leaf_def nat t_def b1_def)
  finally have eq: "allocate_dindirect i s (int L - 2058) = Inr (int (DATA_START + n), ?i2, t)" .
  have same: "same_blocks ({18..} - {DATA_START + k0, DATA_START + k1}) s t"
  proof -
    have "same_blocks (- {DATA_START + k0}) t1 t2" unfolding t2_def using len0 by (intro same_blocks_set_blk) simp_all
    moreover have "same_blocks (- {DATA_START + k1}) t3 t" unfolding t_def using len1 by (intro same_blocks_set_blk) simp_all
    ultimately show ?thesis
      by (intro same_blocks_mono [OF same_blocks_trans [OF same_blocks_trans [OF same_blocks_trans
        [OF same_blocks_trans [OF same0 same1]] same3]]]) auto
  qed
  have blk0: "blk t (DATA_START + k0) = b0"
  proof -
    have "has_block t2 (DATA_START + k0)" "blk t2 (DATA_START + k0) = b0" using len0 by (simp_all add: t2_def)
    then have "has_block t3 (DATA_START + k0)" "blk t3 (DATA_START + k0) = b0"
      using same3 by (simp_all add: same_blocks_def)
    then show ?thesis using K len1 by (simp add: t_def blk_set_blk_other)
  qed
  have E0: "entry t ?v0 l = (if l = m then ?v1 else 0)" if "l < 2048" for l
    using g0 [OF that] blk0 by (simp add: entry_def nat_add_distrib)
  have E1: "entry t ?v1 l = (if l = j then int (DATA_START + n) else 0)" if "l < 2048" for l
    using fresh_entry [OF m(2) n(1) that, of t3 "DATA_START + k1"] by (simp add: t_def b1_def)
  have EI: "entry t (ptr s ?d PInd) l = entry s (ptr s ?d PInd) l" for l
    using inner_has [OF wf, of PInd] fresh_ne [OF wf _ K(3), of PInd] fresh_ne [OF wf _ K(4), of PInd]
    by (intro entry_same [OF same]) simp
  let ?new = "[leaf L \<mapsto> n, PD1 m \<mapsto> k1, PDind \<mapsto> k0]"
  have "alloc_ok i s L (int (DATA_START + n)) ?i2 t"
  proof (rule alloc_okI [where new = ?new and k = n, OF wf L(2) step])
    show "ptr t (in_d ?i2) p = (case ?new p of Some k \<Rightarrow> int (DATA_START + k) | None \<Rightarrow> ptr s ?d p)"
      if p: "vpath p" for p
    proof (cases p)
      case (PI l) then show ?thesis using EI [of l] lL by simp
    next
      case PDind then show ?thesis using w by simp
    next
      case (PD1 l)
      have "ptr t (in_d ?i2) p = entry t ?v0 l" using PD1 w by simp
      then show ?thesis using E0 [of l] p lL PD1 pd by simp
    next
      case (PD2 x l)
      then have xl: "x < 2048" "l < 2048" using p by simp_all
      have "ptr t (in_d ?i2) p = entry t (entry t ?v0 x) l" using PD2 w by simp
      also have "\<dots> = entry t (if x = m then ?v1 else 0) l" using E0 [OF xl(1)] by simp
      finally show ?thesis
        using PD2 xl lL E1 [OF xl(2)] pd by (cases "x = m"; cases "l = j") simp_all
    qed (use lL in simp_all)
    show "sint (block_count (in_d ?i2)) = sint (block_count ?d) + int (card {k0, k1, n})"
      using bump_count [OF s wf room, of 3] n K by (simp add: add.assoc)
    show "same_blocks ({18..} - inner_set s ?d - (+) DATA_START ` {k0, k1, n}) s t"
      by (intro same_blocks_mono [OF same]) auto
    show "dinode_wf (in_d ?i2)" using tree_wf_dinode [OF wf] by (simp add: dinode_wf_def)
    show "has_block t (DATA_START + a)" if "?new p = Some a" "p \<noteq> leaf L" for p a
    proof -
      have "has_block t3 (DATA_START + k0)" using sstep_has [OF step3] len0 by (simp add: t2_def)
      then show ?thesis using that len1 by (auto simp: t_def split: if_splits)
    qed
    show "inj_on ?new (dom ?new)" using n K lL by (auto simp: inj_on_def)
    show "vpath p \<and> ptr s ?d p = 0 \<and> (p = leaf L \<or> leads_to p (leaf L))" if "p \<in> dom ?new" for p
      using that pd m lL by (auto simp: entry_def)
    show "card {k0, k1, n} \<le> 3" by (simp add: card_insert_if)
    show "ran ?new = {k0, k1, n}" using lL by auto
  qed (use lL m K n in simp_all)
  then show ?thesis using eq by blast
qed

text \<open>Every successful allocation of a block that the file does not have.\<close>

lemma testfs_allocate_block_ok:
  assumes s: "super_wf s" and wf: "tree_wf {} s (in_d i)" and L: "L < MAX_FILE_BLOCKS"
    and null: "ptr s (in_d i) (leaf L) = 0" and room: "room s 3"
  shows "\<exists>r i' t. testfs_allocate_block i s (int L) b = Inr (r, i', t,
      if dhole s (in_d i) L then blk s (nat (ptr s (in_d i) PDind)) else zero_block) \<and> alloc_ok i s L r i' t"
proof -
  let ?d = "in_d i"
  let ?b = "if dhole s ?d L then blk s (nat (ptr s ?d PDind)) else zero_block"
  have R: "testfs_read_block i s (int L) b = Inr (0, ?b)"
    using testfs_read_block_eq [OF s wf L, of b] null by (simp add: fblock_def del: ptr.simps)
  note rs = room_mono [OF room]
  consider (dir) "L < 10" | (ind) "10 \<le> L" "L < 2058" | (dind) "2058 \<le> L" by linarith
  then show ?thesis
  proof cases
    case dir
    obtain r i' t where "allocate_direct i s L = Inr (r, i', t)" "alloc_ok i s L r i' t"
      using allocate_direct_ok [OF s wf dir null rs] by auto
    then show ?thesis using dir R by (simp add: testfs_allocate_block_def)
  next
    case ind
    then have l: "L - 10 < 2048" "L - 10 + 10 = L" by simp_all
    have null': "ptr s ?d (PI (L - 10)) = 0" using null ind by (simp add: leaf_def)
    have "\<exists>r i' t. allocate_indirect i s (int (L - 10)) = Inr (r, i', t) \<and> alloc_ok i s L r i' t"
    proof (cases "ptr s ?d PInd = 0")
      case True
      then show ?thesis using allocate_indirect_new [OF s wf l(1) True rs] l(2) by simp
    next
      case False
      obtain k t1 where a: "testfs_alloc_block_for_inode i s = Inr (int (DATA_START + k), bump i, t1)"
        and step1: "sstep s {k} t1" and same1: "same_blocks {18..} s t1"
        using alloc_for_inode_room [OF s rs] by auto
      have "leaf L = PI (L - 10)" using ind by (simp add: leaf_def)
      then have "allocate_indirect i s (int (L - 10)) = Inr (int (DATA_START + k), bump i,
          set_blk t1 (nat (ptr s ?d PInd)) (put_int (blk s (nat (ptr s ?d PInd))) (L - 10) (int (DATA_START + k)))) \<and>
        alloc_ok i s L (int (DATA_START + k)) (bump i)
          (set_blk t1 (nat (ptr s ?d PInd)) (put_int (blk s (nat (ptr s ?d PInd))) (L - 10) (int (DATA_START + k))))"
        using alloc_ok_old_inner [OF s wf L l(1), of PInd k t1, OF _ False null rs step1 same1 refl]
          a False null' ptr_addr [OF s wf, of PInd]
        by (simp add: allocate_indirect_def allocate_indirect_leaf_def entry_def signed_eq_0_iff)
      then show ?thesis by blast
    qed
    then obtain r i' t where "allocate_indirect i s (int (L - 10)) = Inr (r, i', t)" "alloc_ok i s L r i' t"
      by blast
    then show ?thesis using ind R by (simp add: testfs_allocate_block_def Let_def of_nat_diff)
  next
    case dind
    then obtain m j where D: "m < 2048" "j < 2048" "leaf L = PD2 m j" "nat ((int L - 2058) div 2048) = m"
        "nat ((int L - 2058) mod 2048) = j" "\<not> NR_DINDIRECT \<le> int L - 2058"
      using dind_split [OF _ L] by blast
    have "\<exists>r i' t. allocate_dindirect i s (int L - 2058) = Inr (r, i', t) \<and> alloc_ok i s L r i' t"
    proof (cases "ptr s ?d PDind = 0")
      case True
      then show ?thesis using allocate_dindirect_new [OF s wf dind L D(3,1,2,4-6) True room] by simp
    next
      case pd: False
      show ?thesis
      proof (cases "ptr s ?d (PD1 m) = 0")
        case True
        then show ?thesis using allocate_dindirect_mid_new [OF s wf dind L D(3,1,2,4-6) pd True rs] by simp
      next
        case False
        then show ?thesis using allocate_dindirect_old [OF s wf dind L D(3,1,2,4-6) False null rs] by simp
      qed
    qed
    then obtain r i' t where "allocate_dindirect i s (int L - 2058) = Inr (r, i', t)" "alloc_ok i s L r i' t"
      by blast
    then show ?thesis using dind R by (simp add: testfs_allocate_block_def Let_def algebra_simps)
  qed
qed

end
