(* ===== verification/File_Data.thy ===== *)
theory File_Data
  imports Block_Tree
begin

unbundle bit_operations_syntax

text \<open>
  The contents of a file over its block tree. The specification of a file is the function \<open>fbyte\<close> from offsets to
  bytes (a block that is not allocated reads as zeros); \<open>file_step\<close> says what an operation on one file
  leaves alone: every block of every other file, the inode blocks and the free inodes. Lemmas: the loops of
  \<open>testfs_read_data\<close> return the bytes of this function, those of \<open>testfs_write_data\<close> update it in the range written.
\<close>

section \<open>One block of a file written\<close>

definition mapped :: "super_block \<Rightarrow> dinode \<Rightarrow> nat set" where
  "mapped s d = {L. L < MAX_FILE_BLOCKS \<and> ptr s d (leaf L) \<noteq> 0}"

definition foreign :: "super_block \<Rightarrow> dinode \<Rightarrow> nat set" where
  "foreign s d = used_blocks s - owned s d"

text \<open>
  The effect of an operation on the file of inode \<open>i\<close>: the file system and the tree stay well-formed,
  the blocks of \<open>A\<close> are added to the file, which then has the contents \<open>F\<close>, at most \<open>n\<close> blocks are
  used up, and neither the blocks of other files nor the inode blocks change.
\<close>

definition file_step ::
  "inode \<Rightarrow> super_block \<Rightarrow> nat set \<Rightarrow> (nat \<Rightarrow> u8 list) \<Rightarrow> nat \<Rightarrow> inode \<Rightarrow> super_block \<Rightarrow> bool" where
  "file_step i s A F n i' t \<longleftrightarrow>
     super_wf t \<and> tree_wf {} t (in_d i') \<and> foreign t (in_d i') = foreign s (in_d i) \<and>
     same_blocks ({18..<DATA_START} \<union> (+) DATA_START ` foreign s (in_d i)) s t \<and>
     used_inodes t = used_inodes s \<and> max_fs_blocks (sb_d t) = max_fs_blocks (sb_d s) \<and>
     card (used_blocks t) \<le> card (used_blocks s) + n \<and>
     mapped t (in_d i') = mapped s (in_d i) \<union> A \<and>
     (\<forall>M<MAX_FILE_BLOCKS. fblock t (in_d i') M = F M) \<and>
     (\<forall>p. vpath p \<longrightarrow> inner p \<longrightarrow> ptr t (in_d i') p \<noteq> 0 \<longrightarrow>
       ptr s (in_d i) p \<noteq> 0 \<or> (\<exists>L\<in>A. leads_to p (leaf L))) \<and>
     i_type (in_d i') = i_type (in_d i) \<and> i_size (in_d i') = i_size (in_d i) \<and>
     i_nr i' = i_nr i \<and> i_count i' = i_count i"

lemma file_step_trans:
  assumes "file_step i s A F n i1 s1" "file_step i1 s1 B G m i2 s2"
  shows "file_step i s (A \<union> B) G (n + m) i2 s2"
proof -
  have "same_blocks ({18..<DATA_START} \<union> (+) DATA_START ` foreign s (in_d i)) s s2"
    using assms same_blocks_trans [of _ s s1 _ s2] by (fastforce simp: file_step_def)
  moreover have "ptr s (in_d i) p \<noteq> 0 \<or> (\<exists>L\<in>A \<union> B. leads_to p (leaf L))"
    if "vpath p" "inner p" "ptr s2 (in_d i2) p \<noteq> 0" for p
    using assms that unfolding file_step_def by blast
  ultimately show ?thesis using assms unfolding file_step_def by (simp add: Un_assoc)
qed

lemma file_step_room: "file_step i s A F n i' t \<Longrightarrow> room s (n + m) \<Longrightarrow> room t m"
  by (simp add: file_step_def room_def)

lemma room_less: "room s n \<Longrightarrow> m \<le> n \<Longrightarrow> room s m"
  by (simp add: room_def)

text \<open>Writing to the block of a leaf changes no pointer.\<close>

lemma write_leaf:
  assumes s: "super_wf s" and wf: "tree_wf X s d" "X \<subseteq> {leaf L}" and L: "L < MAX_FILE_BLOCKS"
    and r: "ptr s d (leaf L) \<noteq> 0" and b: "length b = BLOCK_SIZE"
    and t: "t = set_blk s (nat (ptr s d (leaf L))) b"
  shows "write_blocks s b (ptr s d (leaf L)) (Suc 0) = Inr t" "sstep s {} t" "tree_wf {} t d"
    "owned t d = owned s d" "mapped t d = mapped s d"
    "same_blocks (- {nat (ptr s d (leaf L))}) s t"
    "\<And>M. M < MAX_FILE_BLOCKS \<Longrightarrow> fblock t d M = (if M = L then b else fblock s d M)"
    "\<And>p. vpath p \<Longrightarrow> ptr t d p = ptr s d p"
proof -
  have iX: "inner_X X" using wf(2) by (auto simp: inner_X_def)
  obtain k where k: "k \<in> used_blocks s" "ptr s d (leaf L) = int (DATA_START + k)"
    using tree_wfD [OF wf(1) vpath_leaf [OF L] r] by blast
  let ?n = "nat (ptr s d (leaf L))"
  have n: "?n = DATA_START + k" using k by simp
  show "write_blocks s b (ptr s d (leaf L)) (Suc 0) = Inr t"
    unfolding t by (rule write_block_eq [OF ptr_blk_addr [OF s wf(1) vpath_leaf [OF L]] b])
  show st: "sstep s {} t" unfolding t by (rule sstep_set_blk [OF s _ b]) (simp add: n)
  show same: "same_blocks (- {?n}) s t" unfolding t using b by (intro same_blocks_set_blk) simp_all
  have ne: "ptr s d p \<noteq> ptr s d (leaf L)" if "vpath p" "p \<noteq> leaf L" for p
    using tree_wf_inj [OF wf(1) that(1) vpath_leaf [OF L]] that(2) r by metis
  have nat_ne: "nat (ptr s d p) \<noteq> ?n" if "vpath p" "p \<noteq> leaf L" for p
  proof
    assume "nat (ptr s d p) = ?n"
    moreover have "0 \<le> ptr s d p" "0 < ptr s d (leaf L)" using tree_wf_pos [OF wf(1)] that(1) k by auto
    ultimately show False using ne [OF that] by linarith
  qed
  have sub: "inner_set s d \<subseteq> - {?n}"
  proof
    fix x assume "x \<in> inner_set s d"
    then obtain p where p: "vpath p" "inner p" "x = nat (ptr s d p)" by (auto simp: inner_set_def)
    then have "p \<noteq> leaf L" using not_inner_leaf by metis
    then show "x \<in> - {?n}" using nat_ne [OF p(1)] p(3) by simp
  qed
  have F: "ptr t d p = ptr s d p" if "vpath p" for p
    by (rule ptr_frame [OF wf(1) iX same sub that])
  then show "\<And>p. vpath p \<Longrightarrow> ptr t d p = ptr s d p" .
  show own: "owned t d = owned s d" using sets_cong(1) [of t d s d] F by blast
  show "mapped t d = mapped s d" using F by (auto simp: mapped_def)
  have "has_block t (nat (ptr t d p))" if "vpath p" "ptr t d p \<noteq> 0" for p
  proof (cases "p = leaf L")
    case True
    then show ?thesis using F [OF that(1)] b by (simp add: t)
  next
    case False
    then have "p \<notin> X" using wf(2) by auto
    then show ?thesis
      using F [OF that(1)] that tree_wf_has [OF wf(1) that(1)] sstep_has [OF st] by simp
  qed
  then show "tree_wf {} t d"
    using wf(1) F own sstep_used [OF st] unfolding tree_wf_def by simp
  show "fblock t d M = (if M = L then b else fblock s d M)" if M: "M < MAX_FILE_BLOCKS" for M
  proof (cases "M = L")
    case True
    then show ?thesis using F [OF vpath_leaf [OF L]] r b by (simp add: fblock_def Let_def t)
  next
    case False
    then have p: "leaf M \<noteq> leaf L" "leaf M \<notin> X" using M L wf(2) by (auto simp: leaf_inj)
    have "ptr s d (leaf M) \<noteq> 0 \<Longrightarrow> blk t (nat (ptr s d (leaf M))) = blk s (nat (ptr s d (leaf M)))"
      using same nat_ne [OF vpath_leaf [OF M] p(1)] tree_wf_has [OF wf(1) vpath_leaf [OF M] p(2)]
      by (simp add: same_blocks_def)
    then show ?thesis using F [OF vpath_leaf [OF M]] False by (simp add: fblock_def Let_def)
  qed
qed

lemma blk_len: "has_block s n \<Longrightarrow> length (blk s n) = BLOCK_SIZE"
  by simp

lemma fblock_len:
  assumes "tree_wf {} s d" "L < MAX_FILE_BLOCKS" shows "length (fblock s d L) = BLOCK_SIZE"
  using tree_wf_has [OF assms(1) vpath_leaf [OF assms(2)]] by (simp add: fblock_def Let_def)

lemma file_step_write:
  assumes s: "super_wf s" and wf: "tree_wf {} s (in_d i)" and L: "L < MAX_FILE_BLOCKS"
    and room: "L \<in> mapped s (in_d i) \<or> room s 3"
  shows "\<exists>r i' t b'. testfs_allocate_block i s (int L) b = Inr (r, i', t, b') \<and> 0 < r \<and>
    length b' = BLOCK_SIZE \<and> (b' = fblock s (in_d i) L \<or> 2058 \<le> L \<and> L \<notin> mapped s (in_d i)) \<and>
    (is_dirty i \<longrightarrow> is_dirty i') \<and>
    (\<forall>nb. length nb = BLOCK_SIZE \<longrightarrow> (\<exists>u. write_blocks t nb r (Suc 0) = Inr u \<and>
       file_step i s {L} ((fblock s (in_d i))(L := nb)) 3 i' u))"
proof (cases "ptr s (in_d i) (leaf L) = 0")
  case False
  let ?d = "in_d i"
  have "\<not> dhole s ?d L"
    using False by (cases "L < 2058") (auto simp: dhole_def leaf_def entry_def)
  then have a: "testfs_allocate_block i s (int L) b = Inr (ptr s ?d (leaf L), i, s, fblock s ?d L)"
    using testfs_read_block_eq [OF s wf L] False by (simp add: testfs_allocate_block_def)
  have pos: "0 < ptr s ?d (leaf L)" using tree_wf_pos [OF wf vpath_leaf [OF L]] False by simp
  have "\<exists>u. write_blocks s nb (ptr s ?d (leaf L)) (Suc 0) = Inr u \<and>
      file_step i s {L} ((fblock s ?d)(L := nb)) 3 i u" if "length nb = BLOCK_SIZE" for nb
  proof -
    note W = write_leaf [OF s wf _ L False that refl]
    let ?u = "set_blk s (nat (ptr s ?d (leaf L))) nb"
    obtain k where k: "k \<in> owned s ?d" "ptr s ?d (leaf L) = int (DATA_START + k)"
      using tree_wfD [OF wf vpath_leaf [OF L] False] by blast
    have "same_blocks ({18..<DATA_START} \<union> (+) DATA_START ` foreign s ?d) s ?u"
      by (rule same_blocks_mono [OF W(6)]) (use k in \<open>auto simp: foreign_def nat_add_distrib\<close>)
    moreover have "mapped ?u ?d = mapped s ?d \<union> {L}" using W(5) False L by (auto simp: mapped_def)
    ultimately have "file_step i s {L} ((fblock s ?d)(L := nb)) 3 i ?u"
      using W(2-5,7,8) by (simp add: file_step_def sstep_def foreign_def)
    then show ?thesis using W(1) by blast
  qed
  then show ?thesis using a pos fblock_len [OF wf L] by blast
next
  case True
  let ?d = "in_d i"
  have room3: "room s 3" using room True by (auto simp: mapped_def)
  let ?b = "if dhole s ?d L then blk s (nat (ptr s ?d PDind)) else zero_block"
  obtain r i' t where a: "testfs_allocate_block i s (int L) b = Inr (r, i', t, ?b)"
    and ok: "alloc_ok i s L r i' t"
    using testfs_allocate_block_ok [OF s wf L True room3, of b] by blast
  obtain N k where N: "k \<in> N" "r = int (DATA_START + k)" "card N \<le> 3" "sstep s N t"
      "same_blocks ({18..} - inner_set s ?d - (+) DATA_START ` N) s t" "owned t (in_d i') = owned s ?d \<union> N"
    and O: "tree_wf {leaf L} t (in_d i')" "ptr t (in_d i') (leaf L) = r"
      "\<And>M. M < MAX_FILE_BLOCKS \<Longrightarrow> M \<noteq> L \<Longrightarrow> ptr t (in_d i') (leaf M) = ptr s ?d (leaf M)"
      "\<And>p. vpath p \<Longrightarrow> inner p \<Longrightarrow> ptr t (in_d i') p = ptr s ?d p \<or> leads_to p (leaf L)"
      "i_type (in_d i') = i_type ?d" "i_size (in_d i') = i_size ?d" "i_nr i' = i_nr i" "i_count i' = i_count i"
      "is_dirty i'"
    using ok unfolding alloc_ok_def by auto
  have rn: "r \<noteq> 0" "0 < r" using N(2) by simp_all
  have "length ?b = BLOCK_SIZE" using inner_has [OF wf, of PDind] by (simp add: dhole_def)
  moreover have "?b = fblock s ?d L \<or> 2058 \<le> L \<and> L \<notin> mapped s ?d"
    using True by (simp add: fblock_def dhole_def mapped_def)
  moreover have "\<exists>u. write_blocks t nb r (Suc 0) = Inr u \<and>
      file_step i s {L} ((fblock s ?d)(L := nb)) 3 i' u" if nb: "length nb = BLOCK_SIZE" for nb
  proof -
    have rl: "ptr t (in_d i') (leaf L) \<noteq> 0" using O(2) rn by simp
    note W = write_leaf [OF sstep_wf [OF N(4)] O(1) subset_refl L rl nb refl, unfolded O(2)]
    let ?u = "set_blk t (nat r) nb"
    have st: "sstep s N ?u" using sstep_trans [OF N(4) W(2)] by simp
    have own: "owned ?u (in_d i') = owned s ?d \<union> N" using W(4) N(6) by simp
    have sub: "owned s ?d \<subseteq> used_blocks s" by (rule owned_used [OF wf])
    have for_eq: "foreign ?u (in_d i') = foreign s ?d"
      using own sstep_used [OF st] sstep_fresh [OF st] by (auto simp: foreign_def)
    have same: "same_blocks ({18..<DATA_START} \<union> (+) DATA_START ` foreign s ?d) s ?u"
    proof (rule same_blocks_mono [OF same_blocks_trans [OF N(5) W(6)]], rule subsetI)
      fix n assume n: "n \<in> {18..<DATA_START} \<union> (+) DATA_START ` foreign s ?d"
      have "n \<notin> inner_set s ?d"
        using n by (auto simp: foreign_def elim!: inner_set_data [OF wf])
      moreover have "n \<notin> (+) DATA_START ` N" using n sstep_fresh [OF st] by (auto simp: foreign_def)
      moreover have "n \<noteq> nat r" using n sstep_fresh [OF st] N(1,2) by (auto simp: foreign_def nat_add_distrib)
      ultimately show "n \<in> ({18..} - inner_set s ?d - (+) DATA_START ` N) \<inter> - {nat r}" using n by auto
    qed
    have map_eq: "mapped ?u (in_d i') = mapped s ?d \<union> {L}"
    proof (rule set_eqI)
      fix M show "M \<in> mapped ?u (in_d i') \<longleftrightarrow> M \<in> mapped s ?d \<union> {L}"
        unfolding W(5) using O(2) O(3) [of M] rn L True by (cases "M = L") (auto simp: mapped_def)
    qed
    have F: "fblock ?u (in_d i') M = ((fblock s ?d)(L := nb)) M" if M: "M < MAX_FILE_BLOCKS" for M
    proof (cases "M = L")
      case False
      have "blk t (nat (ptr s ?d (leaf M))) = blk s (nat (ptr s ?d (leaf M)))" if nz: "ptr s ?d (leaf M) \<noteq> 0"
      proof -
        let ?n = "nat (ptr s ?d (leaf M))"
        obtain l where l: "l \<in> used_blocks s" "ptr s ?d (leaf M) = int (DATA_START + l)"
          using tree_wfD [OF wf vpath_leaf [OF M] nz] by blast
        have "?n \<notin> inner_set s ?d"
        proof
          assume "?n \<in> inner_set s ?d"
          then obtain p where p: "vpath p" "inner p" "ptr s ?d p \<noteq> 0" "?n = nat (ptr s ?d p)"
            by (auto simp: inner_set_def)
          then have "ptr s ?d (leaf M) = ptr s ?d p"
            using tree_wf_pos [OF wf p(1)] tree_wf_pos [OF wf vpath_leaf [OF M]] nz by linarith
          then have "leaf M = p" using tree_wf_inj [OF wf vpath_leaf [OF M] p(1)] nz by simp
          then show False using p(2) not_inner_leaf by metis
        qed
        moreover have "?n \<notin> (+) DATA_START ` N" using l sstep_fresh [OF N(4)] by (auto simp: nat_add_distrib)
        ultimately show ?thesis
          using N(5) l tree_wf_has [OF wf vpath_leaf [OF M] _ nz] by (simp add: same_blocks_def)
      qed
      then show ?thesis using W(7) [OF M] False O(3) [OF M False] by (simp add: fblock_def Let_def)
    qed (use W(7) M in simp)
    have new_inner: "ptr s ?d p \<noteq> 0 \<or> (\<exists>L\<in>{L}. leads_to p (leaf L))"
      if "vpath p" "inner p" "ptr ?u (in_d i') p \<noteq> 0" for p
      using W(8) [OF that(1)] O(4) [OF that(1,2)] that(3) by auto
    have "card (used_blocks ?u) \<le> card (used_blocks s) + 3"
      using sstep_used [OF st] N(3) card_Un_le [of "used_blocks s" N] by simp
    then have "file_step i s {L} ((fblock s ?d)(L := nb)) 3 i' ?u"
      using W(3) st for_eq same map_eq F O(5-8) new_inner unfolding file_step_def sstep_def by simp
    then show ?thesis using W(1) by blast
  qed
  ultimately show ?thesis using a rn O(9) by blast
qed

section \<open>Bytes of a file\<close>

definition fbyte :: "super_block \<Rightarrow> dinode \<Rightarrow> nat \<Rightarrow> u8" where
  "fbyte s d off = fblock s d (off div BLOCK_SIZE) ! (off mod BLOCK_SIZE)"

definition fbytes :: "super_block \<Rightarrow> dinode \<Rightarrow> nat \<Rightarrow> nat \<Rightarrow> u8 list" where
  "fbytes s d off n = map (fbyte s d) [off..<off + n]"

abbreviation (input) MAX_FILE_BYTES :: nat where "MAX_FILE_BYTES \<equiv> MAX_FILE_BLOCKS * BLOCK_SIZE"

lemma length_fbytes [simp]: "length (fbytes s d off n) = n"
  by (simp add: fbytes_def)

lemma fbytes_append: "fbytes s d off n @ fbytes s d (off + n) m = fbytes s d off (n + m)"
  using upt_add_eq_append [of off "off + n" m] by (simp add: fbytes_def add.assoc flip: map_append)

lemma blit_append:
  assumes "off + length x + length y \<le> length b"
  shows "blit (blit b off x) (off + length x) y = blit b off (x @ y)"
  using assms by (intro nth_equalityI) (auto simp: nth_blit nth_append)

lemma fblock_slice:
  assumes "tree_wf {} s d" "L < MAX_FILE_BLOCKS" "q + n \<le> BLOCK_SIZE"
  shows "bslice q n (fblock s d L) = fbytes s d (L * BLOCK_SIZE + q) n"
proof (rule nth_equalityI)
  show "length (bslice q n (fblock s d L)) = length (fbytes s d (L * BLOCK_SIZE + q) n)"
    using assms fblock_len by simp
  fix k assume "k < length (bslice q n (fblock s d L))"
  then have k: "k < n" by simp
  then have "q + k < BLOCK_SIZE" using assms(3) by simp
  then have "(L * BLOCK_SIZE + q + k) div BLOCK_SIZE = L" "(L * BLOCK_SIZE + q + k) mod BLOCK_SIZE = q + k"
    by (simp_all add: div_nat_eqI mod_nat_eqI add.assoc)
  then show "bslice q n (fblock s d L) ! k = fbytes s d (L * BLOCK_SIZE + q) n ! k"
    using k assms fblock_len by (simp add: nth_bslice fbytes_def fbyte_def)
qed

section \<open>Reading\<close>

lemma mem_slice_ok: "0 \<le> off \<Longrightarrow> nat off + n \<le> length b \<Longrightarrow> mem_slice b off n = Inr (bslice (nat off) n b)"
  by (simp add: mem_slice_def)

lemma read_leaf_eq:
  assumes "super_wf s" "tree_wf {} s (in_d i)" "L < MAX_FILE_BLOCKS" "\<not> dhole s (in_d i) L"
  obtains r where "0 \<le> r" "testfs_read_block i s (int L) b = Inr (r, fblock s (in_d i) L)"
  using testfs_read_block_eq [OF assms(1-3), of b] assms(4) tree_wf_pos [OF assms(2) vpath_leaf [OF assms(3)]]
  by auto

lemma read_rest_eq:
  assumes s: "super_wf s" and wf: "tree_wf {} s (in_d i)"
    and k: "1 \<le> k" "ix < BLOCK_SIZE" "BLOCK_SIZE * k - ix + rem = n" "0 < rem"
    and n: "n \<le> length buf" "n + BLOCK_SIZE \<le> 2 ^ 31" "(B + k) * BLOCK_SIZE + rem \<le> MAX_FILE_BYTES"
    and holes: "\<And>L. B + k \<le> L \<Longrightarrow> L * BLOCK_SIZE < (B + k) * BLOCK_SIZE + rem \<Longrightarrow> \<not> dhole s (in_d i) L"
  shows "read_rest i s buf (int B) (int ix) sz (int k) (int rem) b =
    Inr (c_int (int sz), blit buf (BLOCK_SIZE * k - ix) (fbytes s (in_d i) ((B + k) * BLOCK_SIZE) rem))"
  using k n holes
proof (induction rem arbitrary: k buf b rule: less_induct)
  case (less rem)
  let ?d = "in_d i"
  have L: "B + k < MAX_FILE_BLOCKS" using less.prems(4,7) by simp
  have le: "ix \<le> BLOCK_SIZE * k" using less.prems(1,2) by (cases k) simp_all
  have c: "c_int (int B + int k) = int (B + k)" using L by (simp add: cint_simps)
  have oo: "c_int (8192 * int k) - int ix = int (BLOCK_SIZE * k - ix)"
    using le less.prems(2-6) by (subst c_int_id) (simp_all add: of_nat_diff)
  have on: "nat (int (8192 * k) - int ix) = 8192 * k - ix" using le by simp
  obtain r where r: "0 \<le> r" "testfs_read_block i s (int (B + k)) b = Inr (r, fblock s ?d (B + k))"
    using read_leaf_eq [OF s wf L] less.prems(8) [of "B + k"] less.prems(4) by auto
  have lenf: "length (fblock s ?d (B + k)) = BLOCK_SIZE" by (rule fblock_len [OF wf L])
  show ?case
  proof (cases "BLOCK_SIZE < rem")
    case True
    let ?buf = "blit buf (BLOCK_SIZE * k - ix) (fblock s ?d (B + k))"
    have fit: "BLOCK_SIZE * k - ix + BLOCK_SIZE \<le> length buf" using True less.prems by simp
    have "read_rest i s buf (int B) (int ix) sz (int k) (int rem) b =
        read_rest i s ?buf (int B) (int ix) sz (int (Suc k)) (int (rem - BLOCK_SIZE)) (fblock s ?d (B + k))"
      using True r lenf fit
      by (subst read_rest.simps) (simp add: c oo memcpy_ok of_nat_diff add.commute [of _ 1] del: read_rest.simps of_nat_add of_nat_mult)
    also have "\<dots> = Inr (c_int (int sz), blit ?buf (BLOCK_SIZE * Suc k - ix)
        (fbytes s ?d ((B + Suc k) * BLOCK_SIZE) (rem - BLOCK_SIZE)))"
    proof (rule less.IH)
      show "\<not> dhole s ?d L" if "B + Suc k \<le> L" "L * BLOCK_SIZE < (B + Suc k) * BLOCK_SIZE + (rem - BLOCK_SIZE)" for L
        using less.prems(8) [of L] that True by simp
    qed (use True less.prems le fit lenf in simp_all)
    also have "blit ?buf (BLOCK_SIZE * Suc k - ix) (fbytes s ?d ((B + Suc k) * BLOCK_SIZE) (rem - BLOCK_SIZE)) =
        blit buf (BLOCK_SIZE * k - ix) (fblock s ?d (B + k) @ fbytes s ?d ((B + Suc k) * BLOCK_SIZE) (rem - BLOCK_SIZE))"
    proof -
      have "BLOCK_SIZE * Suc k - ix = BLOCK_SIZE * k - ix + length (fblock s ?d (B + k))"
        using le lenf by simp
      moreover have "BLOCK_SIZE * k - ix + length (fblock s ?d (B + k)) +
          length (fbytes s ?d ((B + Suc k) * BLOCK_SIZE) (rem - BLOCK_SIZE)) \<le> length buf"
        using True less.prems lenf by simp
      ultimately show ?thesis by (metis blit_append)
    qed
    also have "fblock s ?d (B + k) = fbytes s ?d ((B + k) * BLOCK_SIZE) BLOCK_SIZE"
      using fblock_slice [OF wf L, of 0 BLOCK_SIZE] lenf by simp
    also have "\<dots> @ fbytes s ?d ((B + Suc k) * BLOCK_SIZE) (rem - BLOCK_SIZE) = fbytes s ?d ((B + k) * BLOCK_SIZE) rem"
      using fbytes_append [of s ?d "(B + k) * BLOCK_SIZE" BLOCK_SIZE "rem - BLOCK_SIZE"] True by (simp add: algebra_simps)
    finally show ?thesis .
  next
    case False
    have "c_ulong (int rem) = rem" using False by (simp add: cint_simps)
    then show ?thesis
      using False r lenf less.prems fblock_slice [OF wf L, of 0 rem]
      by (subst read_rest.simps) (simp add: c oo on memcpy_ok mem_slice_ok del: read_rest.simps of_nat_add of_nat_mult)
  qed
qed


lemma next_block: "r < BLOCK_SIZE \<Longrightarrow> q * BLOCK_SIZE + r = x \<Longrightarrow> (q + 1) * BLOCK_SIZE = x + (BLOCK_SIZE - r)"
  by simp

lemma sdiv_smod_nat:
  "int start sdiv int BLOCK_SIZE = int (start div BLOCK_SIZE)" "int start smod int BLOCK_SIZE = int (start mod BLOCK_SIZE)"
  by (simp_all add: sdiv_nonneg smod_nonneg zdiv_int zmod_int)

lemma testfs_read_data_eq:
  assumes s: "super_wf s" and wf: "tree_wf {} s (in_d i)"
    and F: "sint (i_size (in_d i)) = int F" "start \<le> F" "F \<le> MAX_FILE_BYTES" "start < MAX_FILE_BYTES"
    and n: "n = min sz (F - start)" "n \<le> length buf" "n + BLOCK_SIZE \<le> 2 ^ 31" and sz: "start + sz < 2 ^ 63"
    and holes: "\<And>L. 0 < n \<Longrightarrow> start div BLOCK_SIZE \<le> L \<Longrightarrow> L * BLOCK_SIZE < start + n \<Longrightarrow> \<not> dhole s (in_d i) L"
  shows "testfs_read_data i s buf (int start) sz st = Inr (int n, blit buf 0 (fbytes s (in_d i) start n))"
proof -
  let ?d = "in_d i" and ?B = "start div BLOCK_SIZE" and ?ix = "start mod BLOCK_SIZE"
  have ix: "?ix < BLOCK_SIZE" and B: "?B < MAX_FILE_BLOCKS" and st: "?B * BLOCK_SIZE + ?ix = start"
    using F(4) by (simp_all add: less_mult_imp_div_less)
  have cl: "c_long (int start + c_long (int sz)) = int start + int sz" "c_ulong (int F - int start) = F - start"
    using sz F by (simp_all add: c_long_id c_ulong_id nat_diff_distrib)
  have sz': "(if int F < int start + int sz then F - start else sz) = n" using n(1) F(2) by auto
  have ci: "c_int (int ?B) = int ?B" "c_int (int n) = int n" using B n(3) by (simp_all add: c_int_id)
  have cu: "c_ulong (int ?ix + int n) = ?ix + n" using ix n(3) by (simp add: c_ulong_id nat_add_distrib)
  define b where "b = (if dhole s ?d ?B then blk s (nat (ptr s ?d PDind)) else fblock s ?d ?B)"
  have r: "testfs_read_block i s (int ?B) st = Inr (ptr s ?d (leaf ?B), b)" "0 \<le> ptr s ?d (leaf ?B)" "length b = BLOCK_SIZE"
    using testfs_read_block_eq [OF s wf B] tree_wf_pos [OF wf vpath_leaf [OF B]] fblock_len [OF wf B]
      inner_has [OF wf, of PDind] by (auto simp: b_def dhole_def)
  have bs: "bslice ?ix m b = fbytes s ?d start m" if "m \<le> n" "?ix + m \<le> BLOCK_SIZE" for m
  proof (cases "m = 0")
    case False
    then have "b = fblock s ?d ?B" using holes [of ?B] st that by (simp add: b_def)
    then show ?thesis using fblock_slice [OF wf B that(2)] st by simp
  qed (simp add: bslice_def fbytes_def)
  have unf: "testfs_read_data i s buf (int start) sz st =
     (if BLOCK_SIZE < ?ix + n
      then rbind (mem_slice b (int ?ix) (BLOCK_SIZE - ?ix)) (\<lambda>src. rbind (memcpy buf 0 src) (\<lambda>buf.
        read_rest i s buf (int ?B) (int ?ix) n 1 (c_long (int n - (int BLOCK_SIZE - int ?ix))) b))
      else rbind (mem_slice b (int ?ix) n) (\<lambda>src. rbind (memcpy buf 0 src) (\<lambda>buf. Inr (int n, buf))))"
    unfolding testfs_read_data_def Let_def sdiv_smod_nat F(1) cl sz' cu ci
    using r n(3) ix by (simp add: nat_diff_distrib del: of_nat_div of_nat_mod zdiv_int zmod_int)
  show ?thesis
  proof (cases "BLOCK_SIZE < ?ix + n")
    case False
    then show ?thesis unfolding unf using r(3) n(2) bs [of n] by (simp add: mem_slice_ok memcpy_ok)
  next
    case True
    let ?m = "BLOCK_SIZE - ?ix"
    let ?buf = "blit buf 0 (fbytes s ?d start ?m)"
    have m: "?m \<le> n" "?m \<le> length buf" using True n(2) by simp_all
    have B1: "(?B + 1) * BLOCK_SIZE = start + ?m" by (rule next_block [OF ix st])
    have nF: "start + n \<le> F" using n(1) F(2) by simp
    have rem: "c_long (int n - (int BLOCK_SIZE - int ?ix)) = int (n - ?m)"
      using True ix n(3) by (simp add: c_long_id of_nat_diff)
    have "testfs_read_data i s buf (int start) sz st = read_rest i s ?buf (int ?B) (int ?ix) n (int 1) (int (n - ?m)) b"
      unfolding unf rem using True r(3) m bs [of ?m] ix by (simp add: mem_slice_ok memcpy_ok)
    also have "\<dots> = Inr (c_int (int n), blit ?buf (BLOCK_SIZE * 1 - ?ix) (fbytes s ?d ((?B + 1) * BLOCK_SIZE) (n - ?m)))"
    proof (rule read_rest_eq [OF s wf])
      show "(?B + 1) * BLOCK_SIZE + (n - ?m) \<le> MAX_FILE_BYTES" using B1 m(1) nF F(3) by simp
      show "\<not> dhole s ?d L" if "?B + 1 \<le> L" "L * BLOCK_SIZE < (?B + 1) * BLOCK_SIZE + (n - ?m)" for L
        using holes [of L] that B1 m(1) by simp
      show "n \<le> length ?buf" using n(2) m by simp
    qed (use True ix n(3) in simp_all)
    also have "blit ?buf (BLOCK_SIZE * 1 - ?ix) (fbytes s ?d ((?B + 1) * BLOCK_SIZE) (n - ?m)) =
        blit buf 0 (fbytes s ?d start ?m @ fbytes s ?d (start + ?m) (n - ?m))"
      using blit_append [of 0 "fbytes s ?d start ?m" "fbytes s ?d (start + ?m) (n - ?m)" buf] n(2) m B1 by simp
    finally show ?thesis using m(1) unfolding fbytes_append ci(2) by simp
  qed
qed

section \<open>Writing\<close>

definition blocks_of :: "nat \<Rightarrow> nat \<Rightarrow> nat set" where
  "blocks_of a n = (\<lambda>off. off div BLOCK_SIZE) ` {a..<a + n}"

text \<open>
  The bytes of \<open>src\<close> are written at offset \<open>a\<close>. The other bytes stay, but for those of a block that is newly
  allocated in the double indirect part (see \<open>dhole\<close>).
\<close>

definition wrote :: "inode \<Rightarrow> super_block \<Rightarrow> nat \<Rightarrow> u8 list \<Rightarrow> nat \<Rightarrow> inode \<Rightarrow> super_block \<Rightarrow> bool" where
  "wrote i s a src c i' t \<longleftrightarrow>
     (\<exists>F. file_step i s (blocks_of a (length src)) F c i' t) \<and>
     (\<forall>off<MAX_FILE_BYTES.
       if a \<le> off \<and> off < a + length src then fbyte t (in_d i') off = src ! (off - a)
       else off div BLOCK_SIZE < 2058 \<or> off div BLOCK_SIZE \<in> mapped s (in_d i) \<or>
           off div BLOCK_SIZE \<notin> blocks_of a (length src) \<longrightarrow>
         fbyte t (in_d i') off = fbyte s (in_d i) off)"

lemma blocks_of_append: "blocks_of a (n + m) = blocks_of a n \<union> blocks_of (a + n) m"
  unfolding blocks_of_def by (force simp flip: image_Un)

lemma wroteD:
  assumes "wrote i s a src c i' t"
  shows "super_wf t" "tree_wf {} t (in_d i')" "mapped t (in_d i') = mapped s (in_d i) \<union> blocks_of a (length src)"
    "room s (c + m) \<Longrightarrow> room t m"
proof -
  obtain F where "file_step i s (blocks_of a (length src)) F c i' t" using assms unfolding wrote_def by blast
  then show "super_wf t" "tree_wf {} t (in_d i')" "mapped t (in_d i') = mapped s (in_d i) \<union> blocks_of a (length src)"
    "room s (c + m) \<Longrightarrow> room t m"
    using file_step_room by (simp_all add: file_step_def)
qed

lemma wrote_append:
  assumes 1: "wrote i s a x c i1 s1" and 2: "wrote i1 s1 (a + length x) y c' i2 s2"
  shows "wrote i s a (x @ y) (c + c') i2 s2"
proof -
  obtain F G where "file_step i s (blocks_of a (length x)) F c i1 s1"
      "file_step i1 s1 (blocks_of (a + length x) (length y)) G c' i2 s2"
    using 1 2 unfolding wrote_def by blast
  then have "file_step i s (blocks_of a (length (x @ y))) G (c + c') i2 s2"
    using file_step_trans by (simp add: blocks_of_append)
  moreover have "if a \<le> off \<and> off < a + length (x @ y) then fbyte s2 (in_d i2) off = (x @ y) ! (off - a)
       else off div BLOCK_SIZE < 2058 \<or> off div BLOCK_SIZE \<in> mapped s (in_d i) \<or>
           off div BLOCK_SIZE \<notin> blocks_of a (length (x @ y)) \<longrightarrow>
         fbyte s2 (in_d i2) off = fbyte s (in_d i) off" if off: "off < MAX_FILE_BYTES" for off
  proof -
    let ?L = "off div BLOCK_SIZE"
    have W1: "if a \<le> off \<and> off < a + length x then fbyte s1 (in_d i1) off = x ! (off - a)
       else ?L < 2058 \<or> ?L \<in> mapped s (in_d i) \<or> ?L \<notin> blocks_of a (length x) \<longrightarrow>
         fbyte s1 (in_d i1) off = fbyte s (in_d i) off"
      using 1 off unfolding wrote_def by blast
    have W2: "if a + length x \<le> off \<and> off < a + length x + length y
       then fbyte s2 (in_d i2) off = y ! (off - (a + length x))
       else ?L < 2058 \<or> ?L \<in> mapped s1 (in_d i1) \<or> ?L \<notin> blocks_of (a + length x) (length y) \<longrightarrow>
         fbyte s2 (in_d i2) off = fbyte s1 (in_d i1) off"
      using 2 off unfolding wrote_def by blast
    have M: "mapped s1 (in_d i1) = mapped s (in_d i) \<union> blocks_of a (length x)" by (rule wroteD(3) [OF 1])
    consider (x) "a \<le> off" "off < a + length x" | (y) "a + length x \<le> off" "off < a + length x + length y"
      | (out) "\<not> (a \<le> off \<and> off < a + length x + length y)" by linarith
    then show ?thesis
    proof cases
      case x
      then have "?L \<in> blocks_of a (length x)" by (auto simp: blocks_of_def)
      then show ?thesis using x W1 W2 M by (auto simp: nth_append)
    next
      case y
      then show ?thesis using W2 by (auto simp: nth_append)
    next
      case out
      then have n: "\<not> (a \<le> off \<and> off < a + length x)" "\<not> (a + length x \<le> off \<and> off < a + length x + length y)"
        "\<not> (a \<le> off \<and> off < a + length (x @ y))" by auto
      have "fbyte s2 (in_d i2) off = fbyte s (in_d i) off"
        if "?L < 2058 \<or> ?L \<in> mapped s (in_d i) \<or> ?L \<notin> blocks_of a (length (x @ y))"
      proof -
        have "fbyte s1 (in_d i1) off = fbyte s (in_d i) off"
          using W1 that unfolding if_not_P [OF n(1)] length_append blocks_of_append by blast
        moreover have "fbyte s2 (in_d i2) off = fbyte s1 (in_d i1) off"
          using W2 that unfolding if_not_P [OF n(2)] M length_append blocks_of_append by blast
        ultimately show ?thesis by simp
      qed
      then show ?thesis unfolding if_not_P [OF n(3)] by blast
    qed
  qed
  ultimately show ?thesis unfolding wrote_def by blast
qed

lemma wrote_one:
  assumes s: "super_wf s" and wf: "tree_wf {} s (in_d i)" and L: "L < MAX_FILE_BLOCKS" and room: "room s 3"
  shows "\<exists>r i' t b'. testfs_allocate_block i s (int L) b = Inr (r, i', t, b') \<and> 0 < r \<and> length b' = BLOCK_SIZE \<and>
    (\<forall>ix src. src \<noteq> [] \<longrightarrow> ix + length src \<le> BLOCK_SIZE \<longrightarrow>
      (\<exists>u. write_blocks t (blit b' ix src) r (Suc 0) = Inr u \<and> wrote i s (L * BLOCK_SIZE + ix) src 3 i' u))"
proof -
  let ?d = "in_d i"
  obtain r i' t b' where a: "testfs_allocate_block i s (int L) b = Inr (r, i', t, b')" "0 < r" "length b' = BLOCK_SIZE"
      "b' = fblock s ?d L \<or> 2058 \<le> L \<and> L \<notin> mapped s ?d"
    and st: "\<And>nb. length nb = BLOCK_SIZE \<Longrightarrow> \<exists>u. write_blocks t nb r (Suc 0) = Inr u \<and>
       file_step i s {L} ((fblock s ?d)(L := nb)) 3 i' u"
    using file_step_write [OF s wf L, of b] room by blast
  have "\<exists>u. write_blocks t (blit b' ix src) r (Suc 0) = Inr u \<and> wrote i s (L * BLOCK_SIZE + ix) src 3 i' u"
    if src: "src \<noteq> []" "ix + length src \<le> BLOCK_SIZE" for ix src
  proof -
    obtain u where u: "write_blocks t (blit b' ix src) r (Suc 0) = Inr u"
        "file_step i s {L} ((fblock s ?d)(L := blit b' ix src)) 3 i' u"
      using st [of "blit b' ix src"] a(3) src by auto
    have in_block: "(L * BLOCK_SIZE + q) div BLOCK_SIZE = L" "(L * BLOCK_SIZE + q) mod BLOCK_SIZE = q"
      if "q < BLOCK_SIZE" for q using that by simp_all
    have "blocks_of (L * BLOCK_SIZE + ix) (length src) = {L}"
    proof
      show "blocks_of (L * BLOCK_SIZE + ix) (length src) \<subseteq> {L}"
        using src by (auto simp: blocks_of_def intro!: div_nat_eqI)
      have "L * BLOCK_SIZE + ix \<in> {L * BLOCK_SIZE + ix..<L * BLOCK_SIZE + ix + length src}" using src by auto
      moreover have "L = (L * BLOCK_SIZE + ix) div BLOCK_SIZE" using in_block src by (cases src) auto
      ultimately show "{L} \<subseteq> blocks_of (L * BLOCK_SIZE + ix) (length src)" unfolding blocks_of_def by blast
    qed
    moreover have "if L * BLOCK_SIZE + ix \<le> off \<and> off < L * BLOCK_SIZE + ix + length src
         then fbyte u (in_d i') off = src ! (off - (L * BLOCK_SIZE + ix))
         else off div BLOCK_SIZE < 2058 \<or> off div BLOCK_SIZE \<in> mapped s ?d \<or> off div BLOCK_SIZE \<notin> {L} \<longrightarrow>
           fbyte u (in_d i') off = fbyte s ?d off" if off: "off < MAX_FILE_BYTES" for off
    proof -
      define M q where "M = off div BLOCK_SIZE" and "q = off mod BLOCK_SIZE"
      have Mq: "off = M * BLOCK_SIZE + q" "q < BLOCK_SIZE" "M < MAX_FILE_BLOCKS"
        using off by (simp_all add: M_def q_def less_mult_imp_div_less)
      have f: "fbyte u (in_d i') off = ((fblock s ?d)(L := blit b' ix src)) M ! q"
        using u(2) Mq(3) by (simp add: file_step_def fbyte_def M_def q_def)
      have g: "fbyte s ?d off = fblock s ?d M ! q" by (simp add: fbyte_def M_def q_def)
      show ?thesis
      proof (cases "M = L")
        case True
        then have "fbyte u (in_d i') off = (if ix \<le> q \<and> q < ix + length src then src ! (q - ix) else b' ! q)"
          using f Mq a(3) src by (simp add: nth_blit)
        then show ?thesis using True g a(4) Mq(1) unfolding M_def [symmetric] by auto
      next
        case False
        have "\<not> (L * BLOCK_SIZE + ix \<le> off \<and> off < L * BLOCK_SIZE + ix + length src)"
        proof
          assume h: "L * BLOCK_SIZE + ix \<le> off \<and> off < L * BLOCK_SIZE + ix + length src"
          then have "M = L" unfolding M_def using src by (intro div_nat_eqI) auto
          then show False using False by simp
        qed
        then show ?thesis using f g False by (simp only: if_not_P fun_upd_other) simp
      qed
    qed
    ultimately show ?thesis using u unfolding wrote_def by auto
  qed
  then show ?thesis using a by blast
qed

abbreviation (input) blocks_for :: "nat \<Rightarrow> nat" where
  "blocks_for n \<equiv> (n + 8191) div BLOCK_SIZE"

lemma bslice_Suc_append: "bslice q n xs @ bslice (q + n) m xs = bslice q (n + m) xs"
  by (simp add: bslice_def take_add add.commute [of q n])

lemma write_rest_eq:
  assumes "super_wf s" "tree_wf {} s (in_d i)"
    "1 \<le> k" "ix < BLOCK_SIZE" "BLOCK_SIZE * k - ix + rem = sz" "0 < rem"
    "sz \<le> length buf" "sz + BLOCK_SIZE \<le> 2 ^ 31" "(B + k) * BLOCK_SIZE + rem \<le> MAX_FILE_BYTES"
    "room s (3 * blocks_for rem)" "length b = BLOCK_SIZE"
  shows "\<exists>i' t. write_rest i s buf start (int B) (int ix) sz (int k) (int rem) b =
      Inr (c_int (int sz), grow_size i' start sz, t) \<and>
    wrote i s ((B + k) * BLOCK_SIZE) (bslice (BLOCK_SIZE * k - ix) rem buf) (3 * blocks_for rem) i' t"
  using assms
proof (induction rem arbitrary: k s i b rule: less_induct)
  case (less rem)
  note s = less.prems(1) and wf = less.prems(2)
  let ?src = "bslice (BLOCK_SIZE * k - ix) (min BLOCK_SIZE rem) buf"
  have L: "B + k < MAX_FILE_BLOCKS" using less.prems(6,9) by simp
  have le: "ix \<le> BLOCK_SIZE * k" using less.prems(3,4) by (cases k) simp_all
  have c: "c_int (int B + int k) = int (B + k)" using L by (simp add: cint_simps)
  have oo: "c_int (8192 * int k) - int ix = int (BLOCK_SIZE * k - ix)"
    using le less.prems(4-8) by (subst c_int_id) (simp_all add: of_nat_diff)
  have on: "nat (int (8192 * k) - int ix) = 8192 * k - ix" using le by simp
  have bf: "1 \<le> blocks_for rem" using less.prems(6) by (simp add: div_greater_zero_iff Suc_leI)
  obtain r i1 t1 b1 where a: "testfs_allocate_block i s (int (B + k)) b = Inr (r, i1, t1, b1)" "0 < r"
      "length b1 = BLOCK_SIZE"
    and w: "\<And>ix src. src \<noteq> [] \<Longrightarrow> ix + length src \<le> BLOCK_SIZE \<Longrightarrow>
      \<exists>u. write_blocks t1 (blit b1 ix src) r (Suc 0) = Inr u \<and> wrote i s ((B + k) * BLOCK_SIZE + ix) src 3 i1 u"
    using wrote_one [OF s wf L room_less [OF less.prems(10)], of b] bf by auto
  have ls: "length ?src = min BLOCK_SIZE rem" using less.prems(5-7) by simp
  have "0 < length ?src" unfolding ls using less.prems(6) by simp
  then have "?src \<noteq> []" by (simp only: length_greater_0_conv not_False_eq_True)
  then obtain u where u: "write_blocks t1 (blit b1 0 ?src) r (Suc 0) = Inr u"
      "wrote i s ((B + k) * BLOCK_SIZE) ?src 3 i1 u"
    using w [of ?src 0] ls by auto
  show ?case
  proof (cases "BLOCK_SIZE < rem")
    case True
    have bf': "blocks_for rem = Suc (blocks_for (rem - BLOCK_SIZE))"
      using True le_div_geq [of BLOCK_SIZE "rem + 8191"] by simp
    have "room u (3 * blocks_for (rem - BLOCK_SIZE))"
      using wroteD(4) [OF u(2)] less.prems(10) unfolding bf' by simp
    then have "\<exists>i' t. write_rest i1 u buf start (int B) (int ix) sz (int (Suc k)) (int (rem - BLOCK_SIZE)) (blit b1 0 ?src) =
        Inr (c_int (int sz), grow_size i' start sz, t) \<and>
      wrote i1 u ((B + Suc k) * BLOCK_SIZE) (bslice (BLOCK_SIZE * Suc k - ix) (rem - BLOCK_SIZE) buf)
        (3 * blocks_for (rem - BLOCK_SIZE)) i' t"
      using True less.prems(3-9) le a(3) ls by (intro less.IH wroteD(1,2) [OF u(2)]) simp_all
    then obtain i' t where IH: "write_rest i1 u buf start (int B) (int ix) sz (int (Suc k)) (int (rem - BLOCK_SIZE))
          (blit b1 0 ?src) = Inr (c_int (int sz), grow_size i' start sz, t)"
      "wrote i1 u ((B + Suc k) * BLOCK_SIZE) (bslice (BLOCK_SIZE * Suc k - ix) (rem - BLOCK_SIZE) buf)
        (3 * blocks_for (rem - BLOCK_SIZE)) i' t"
      by blast
    have "write_rest i s buf start (int B) (int ix) sz (int k) (int rem) b =
        write_rest i1 u buf start (int B) (int ix) sz (int (Suc k)) (int (rem - BLOCK_SIZE)) (blit b1 0 ?src)"
      using True a u(1) ls less.prems(5-7) le
      by (subst write_rest.simps) (simp add: c oo on memcpy_ok mem_slice_ok of_nat_diff add.commute [of _ 1]
          del: write_rest.simps of_nat_add of_nat_mult)
    moreover have "wrote i s ((B + k) * BLOCK_SIZE) (bslice (BLOCK_SIZE * k - ix) rem buf) (3 * blocks_for rem) i' t"
    proof -
      have e: "?src @ bslice (BLOCK_SIZE * Suc k - ix) (rem - BLOCK_SIZE) buf = bslice (BLOCK_SIZE * k - ix) rem buf"
        using bslice_Suc_append [of "BLOCK_SIZE * k - ix" BLOCK_SIZE buf "rem - BLOCK_SIZE"] True le by (simp add: add.commute)
      have p: "(B + Suc k) * BLOCK_SIZE = (B + k) * BLOCK_SIZE + length ?src" using True ls by simp
      show ?thesis using wrote_append [OF u(2) IH(2) [unfolded p]] unfolding e bf' by simp
    qed
    ultimately show ?thesis using IH(1) by auto
  next
    case False
    have cu: "c_ulong (int rem) = rem" using False by (simp add: cint_simps)
    have "blocks_for rem = 1" using False less.prems(6) by (intro div_nat_eqI) simp_all
    moreover have "write_rest i s buf start (int B) (int ix) sz (int k) (int rem) b =
        Inr (c_int (int sz), grow_size i1 start sz, u)"
      using False a u(1) ls less.prems(5-7) le
      by (subst write_rest.simps) (simp add: c oo on cu memcpy_ok mem_slice_ok of_nat_diff
          del: write_rest.simps of_nat_add of_nat_mult)
    ultimately show ?thesis using u(2) False by auto
  qed
qed


text \<open>How many blocks a write touches, and what it may use up with the indirect blocks.\<close>

definition write_room :: "nat \<Rightarrow> nat \<Rightarrow> nat" where
  "write_room start sz = 3 * blocks_for (start mod BLOCK_SIZE + sz)"

lemma testfs_write_data_eq:
  assumes s: "super_wf s" and wf: "tree_wf {} s (in_d i)"
    and sz: "0 < sz" "sz \<le> length buf" "sz + BLOCK_SIZE \<le> 2 ^ 31" and max: "start + sz \<le> MAX_FILE_BYTES"
    and room: "room s (write_room start sz)"
  shows "\<exists>i' t. testfs_write_data i s buf (int start) sz st = Inr (int sz, grow_size i' (int start) sz, t) \<and>
    wrote i s start (take sz buf) (write_room start sz) i' t"
proof -
  let ?B = "start div BLOCK_SIZE" and ?ix = "start mod BLOCK_SIZE"
  let ?m = "BLOCK_SIZE - ?ix"
  have ix: "?ix < BLOCK_SIZE" and B: "?B < MAX_FILE_BLOCKS" and st: "?B * BLOCK_SIZE + ?ix = start"
    using max sz(1) by (simp_all add: less_mult_imp_div_less)
  have ci: "c_int (int ?B) = int ?B" "c_int (int sz) = int sz" using B sz(3) by (simp_all add: c_int_id)
  have cu: "c_ulong (int ?ix + int sz) = ?ix + sz" using ix sz(3) by (simp add: c_ulong_id nat_add_distrib)
  have "3 \<le> write_room start sz" using sz(1) by (simp add: write_room_def div_greater_zero_iff Suc_leI)
  then have r3: "room s 3" by (rule room_less [OF room])
  obtain r i1 t1 b1 where a: "testfs_allocate_block i s (int ?B) st = Inr (r, i1, t1, b1)" "0 < r"
      "length b1 = BLOCK_SIZE"
    and w: "\<And>ix src. src \<noteq> [] \<Longrightarrow> ix + length src \<le> BLOCK_SIZE \<Longrightarrow>
      \<exists>u. write_blocks t1 (blit b1 ix src) r (Suc 0) = Inr u \<and> wrote i s (?B * BLOCK_SIZE + ix) src 3 i1 u"
    using wrote_one [OF s wf B r3, of st] by blast
  have unf: "testfs_write_data i s buf (int start) sz st =
     (if BLOCK_SIZE < ?ix + sz
      then rbind (mem_slice buf 0 ?m) (\<lambda>src. rbind (memcpy b1 (int ?ix) src) (\<lambda>block.
        rbind (write_blocks t1 block r 1) (\<lambda>s. write_rest i1 s buf (int start) (int ?B) (int ?ix) sz 1
          (c_long (int sz - (int BLOCK_SIZE - int ?ix))) block)))
      else rbind (mem_slice buf 0 sz) (\<lambda>src. rbind (memcpy b1 (int ?ix) src) (\<lambda>block.
        rbind (write_blocks t1 block r 1) (\<lambda>s. Inr (int sz, grow_size i1 (int start) sz, s)))))"
    unfolding testfs_write_data_def Let_def sdiv_smod_nat ci cu
    using a ix by (simp add: nat_diff_distrib del: of_nat_div of_nat_mod zdiv_int zmod_int)
  show ?thesis
  proof (cases "BLOCK_SIZE < ?ix + sz")
    case False
    have "take sz buf \<noteq> []" "length (take sz buf) = sz" using sz by auto
    then obtain u where u: "write_blocks t1 (blit b1 ?ix (take sz buf)) r (Suc 0) = Inr u"
        "wrote i s (?B * BLOCK_SIZE + ?ix) (take sz buf) 3 i1 u"
      using w [of "take sz buf" ?ix] False by auto
    have "blocks_for (?ix + sz) = 1" using False sz(1) by (intro div_nat_eqI) simp_all
    then have "write_room start sz = 3" by (simp add: write_room_def)
    moreover have "testfs_write_data i s buf (int start) sz st = Inr (int sz, grow_size i1 (int start) sz, u)"
      unfolding unf using False u sz a(3)
      by (simp add: mem_slice_ok memcpy_ok bslice_def del: of_nat_div of_nat_mod zdiv_int zmod_int)
    ultimately show ?thesis using u(2) st by auto
  next
    case True
    have m: "?m < sz" "?m \<le> length buf" "length (take ?m buf) = ?m" "0 < ?m" using True sz(2) ix by simp_all
    then have "take ?m buf \<noteq> []" by auto
    then obtain u where u: "write_blocks t1 (blit b1 ?ix (take ?m buf)) r (Suc 0) = Inr u"
        "wrote i s (?B * BLOCK_SIZE + ?ix) (take ?m buf) 3 i1 u"
      using w [of "take ?m buf" ?ix] m(3) ix by auto
    have rem: "c_long (int sz - (int BLOCK_SIZE - int ?ix)) = int (sz - ?m)"
      using True ix sz(3) by (simp add: c_long_id of_nat_diff)
    have B1: "(?B + 1) * BLOCK_SIZE = start + ?m" by (rule next_block [OF ix st])
    have wr: "write_room start sz = 3 + 3 * blocks_for (sz - ?m)"
    proof -
      have q: "?ix + sz + 8191 = (sz - ?m + 8191) + BLOCK_SIZE" using m(1) ix by simp
      have "(sz - ?m + 8191 + BLOCK_SIZE) div BLOCK_SIZE = (sz - ?m + 8191) div BLOCK_SIZE + 1"
        by (rule div_add_self2) simp
      then show ?thesis unfolding write_room_def q by linarith
    qed
    have r1: "room u (3 * blocks_for (sz - ?m))"
      using wroteD(4) [OF u(2)] room unfolding wr by simp
    have "\<exists>i' t. write_rest i1 u buf (int start) (int ?B) (int ?ix) sz (int 1) (int (sz - ?m)) (blit b1 ?ix (take ?m buf)) =
        Inr (c_int (int sz), grow_size i' (int start) sz, t) \<and>
      wrote i1 u ((?B + 1) * BLOCK_SIZE) (bslice (BLOCK_SIZE * 1 - ?ix) (sz - ?m) buf) (3 * blocks_for (sz - ?m)) i' t"
    proof (rule write_rest_eq [OF wroteD(1,2) [OF u(2)]])
      show "(?B + 1) * BLOCK_SIZE + (sz - ?m) \<le> MAX_FILE_BYTES" using max B1 m(1) by simp
      show "length (blit b1 ?ix (take ?m buf)) = BLOCK_SIZE" using a(3) m(3) ix by simp
      show "room u (3 * blocks_for (sz - ?m))" by (rule r1)
    qed (use True ix sz m in simp_all)
    then obtain i' t where R: "write_rest i1 u buf (int start) (int ?B) (int ?ix) sz (int 1) (int (sz - ?m))
          (blit b1 ?ix (take ?m buf)) = Inr (int sz, grow_size i' (int start) sz, t)"
      "wrote i1 u ((?B + 1) * BLOCK_SIZE) (bslice ?m (sz - ?m) buf) (3 * blocks_for (sz - ?m)) i' t"
      unfolding ci(2) by auto
    have e: "take ?m buf @ bslice ?m (sz - ?m) buf = take sz buf"
      using bslice_Suc_append [of 0 ?m buf "sz - ?m"] m(1) by (simp add: bslice_def)
    have p: "(?B + 1) * BLOCK_SIZE = (?B * BLOCK_SIZE + ?ix) + length (take ?m buf)"
      unfolding B1 st m(3) ..
    have "wrote i s start (take sz buf) (write_room start sz) i' t"
      using wrote_append [OF u(2) R(2) [unfolded p]] unfolding e wr st .
    moreover have "testfs_write_data i s buf (int start) sz st = Inr (int sz, grow_size i' (int start) sz, t)"
      unfolding unf rem using True u(1) R(1) a(3) m
      by (simp add: mem_slice_ok memcpy_ok bslice_def del: of_nat_div of_nat_mod zdiv_int zmod_int)
    ultimately show ?thesis by blast
  qed
qed

end
