(* ===== verification/File_Free.thy ===== *)
theory File_Free
  imports File_Data
begin

unbundle bit_operations_syntax

text \<open>
  Freeing the blocks of a file: the loops of \<open>testfs_free_blocks\<close> and the invariant \<open>file_wf\<close> that makes
  them reach every block. Lemma \<open>testfs_free_blocks_eq\<close> puts them together.
\<close>

section \<open>Freeing blocks\<close>

definition freed :: "super_block \<Rightarrow> nat set \<Rightarrow> super_block \<Rightarrow> bool" where
  "freed s D t \<longleftrightarrow> super_wf t \<and> D \<subseteq> used_blocks s \<and> used_blocks t = used_blocks s - D \<and>
     used_inodes t = used_inodes s \<and> max_fs_blocks (sb_d t) = max_fs_blocks (sb_d s) \<and>
     same_blocks ({18..} - (+) DATA_START ` D) s t"

text \<open>\<open>frees i s D i' t\<close>: the blocks of \<open>D\<close> are freed and no longer counted for the inode.\<close>

definition frees :: "inode \<Rightarrow> super_block \<Rightarrow> nat set \<Rightarrow> inode \<Rightarrow> super_block \<Rightarrow> bool" where
  "frees i s D i' t \<longleftrightarrow> freed s D t \<and> finite D \<and>
     in_d i' = (in_d i)\<lparr>block_count := block_count (in_d i) - of_nat (card D)\<rparr> \<and>
     i_nr i' = i_nr i \<and> i_count i' = i_count i"

lemma freed_refl: "super_wf s \<Longrightarrow> freed s {} s"
  by (simp add: freed_def)

lemma freed_trans: "freed s D t \<Longrightarrow> freed t E u \<Longrightarrow> freed s (D \<union> E) u"
proof -
  assume f: "freed s D t" "freed t E u"
  have "same_blocks ({18..} - (+) DATA_START ` (D \<union> E)) s u"
    using f by (intro same_blocks_mono [OF same_blocks_trans [of "{18..} - (+) DATA_START ` D" s t
      "{18..} - (+) DATA_START ` E" u]]) (auto simp: freed_def)
  then show "freed s (D \<union> E) u" using f by (auto simp: freed_def)
qed

lemma frees_refl: "super_wf s \<Longrightarrow> frees i s {} i s"
  by (simp add: frees_def freed_refl)

lemma frees_trans:
  assumes "frees i s D i1 t" "frees i1 t E i2 u"
  shows "frees i s (D \<union> E) i2 u"
proof -
  have "E \<inter> D = {}" using assms by (auto simp: frees_def freed_def)
  then have "card (D \<union> E) = card D + card E" using assms by (simp add: frees_def card_Un_disjoint Int_commute)
  then show ?thesis using assms freed_trans by (auto simp: frees_def algebra_simps)
qed

lemma frees_wf: "frees i s D i' t \<Longrightarrow> super_wf t"
  by (simp add: frees_def freed_def)

lemma frees_used: "frees i s D i' t \<Longrightarrow> used_blocks t = used_blocks s - D"
  by (simp add: frees_def freed_def)

text \<open>The value of a pointer that can be freed: null, or a used block.\<close>

definition freeable :: "super_block \<Rightarrow> int \<Rightarrow> bool" where
  "freeable s v \<longleftrightarrow> v = 0 \<or> (\<exists>k\<in>used_blocks s. v = int (DATA_START + k))"

definition blocks_at :: "int set \<Rightarrow> nat set" where
  "blocks_at V = {k. int (DATA_START + k) \<in> V}"

lemma blocks_at_Un: "blocks_at (V \<union> W) = blocks_at V \<union> blocks_at W"
  by (auto simp: blocks_at_def)

lemma blocks_at_insert: "blocks_at (insert v V) = blocks_at {v} \<union> blocks_at V"
  by (auto simp: blocks_at_def)

lemma blocks_at_simps [simp]: "blocks_at {} = {}" "blocks_at {0} = {}" "blocks_at {int (DATA_START + k)} = {k}"
  "blocks_at {146 + int k} = {k}"
  by (auto simp: blocks_at_def)

lemma frees_insert:
  "frees i s (blocks_at {v}) i1 t \<Longrightarrow> frees i1 t (blocks_at V) i2 u \<Longrightarrow> frees i s (blocks_at (insert v V)) i2 u"
  by (subst blocks_at_insert) (rule frees_trans)

lemma free_from_inode:
  assumes s: "super_wf s" and v: "freeable s v"
  obtains i' t where "testfs_free_block_from_inode i s v = Inr (i', t)" "frees i s (blocks_at {v}) i' t"
proof (cases "v = 0")
  case True
  then show ?thesis using that [of i s] frees_refl [OF s] by (simp add: testfs_free_block_from_inode_def)
next
  case False
  then obtain k where k: "k \<in> used_blocks s" "v = int (DATA_START + k)" using v by (auto simp: freeable_def)
  then have klt: "k < NR_FREEMAP_BLOCKS" using used_blocks_bound [OF s] by auto
  show ?thesis
  proof (cases rule: testfs_free_block_cases [OF s klt, case_names ok fault])
    case (ok t)
    have "{18..} - (+) DATA_START ` {k} = {18..} - {DATA_START + k}" by simp
    then have f: "freed s {k} t" using ok k by (simp add: freed_def)
    show ?thesis
      using that [of "set_dirty (i\<lparr>in_d := (in_d i)\<lparr>block_count := block_count (in_d i) - 1\<rparr>\<rparr>)" t] k ok(2) f
      by (simp add: testfs_free_block_from_inode_def frees_def)
  qed (use k in simp)
qed

lemma freeable_frees:
  assumes "frees i s D i' t" "freeable s v" "blocks_at {v} \<inter> D = {}"
  shows "freeable t v"
  using assms by (auto simp: freeable_def frees_used)

text \<open>Values to be freed one after the other: each may be freed and none occurs twice.\<close>

definition all_freeable :: "super_block \<Rightarrow> int list \<Rightarrow> bool" where
  "all_freeable s vs \<longleftrightarrow> (\<forall>v\<in>set vs. freeable s v) \<and> distinct (filter (\<lambda>v. v \<noteq> 0) vs)"

lemma all_freeable_Cons:
  assumes "all_freeable s (v # vs)"
  shows "freeable s v" "all_freeable s vs" "frees i s (blocks_at {v}) i' t \<Longrightarrow> all_freeable t vs"
proof -
  show "freeable s v" "all_freeable s vs" using assms by (auto simp: all_freeable_def split: if_splits)
  assume f: "frees i s (blocks_at {v}) i' t"
  have "freeable t w" if "w \<in> set vs" for w
  proof (rule freeable_frees [OF f])
    show "freeable s w" using assms that by (simp add: all_freeable_def)
    show "blocks_at {w} \<inter> blocks_at {v} = {}"
      using assms that by (auto simp: blocks_at_def all_freeable_def split: if_splits)
  qed
  then show "all_freeable t vs" using assms by (auto simp: all_freeable_def split: if_splits)
qed

lemma free_entries_eq:
  assumes "super_wf s" "length block = BLOCK_SIZE" "distinct js" "set js \<subseteq> {..<NR_INDIRECT_BLOCKS}"
    "all_freeable s (map (get_int block) (take (nat (e - deleted)) js))"
  shows "\<exists>i' t. free_entries js e deleted i s block = Inr (deleted + int (min (length js) (nat (e - deleted))), i', t) \<and>
    frees i s (blocks_at (get_int block ` set (take (nat (e - deleted)) js))) i' t"
  using assms
proof (induction js arbitrary: deleted i s block)
  case Nil
  then show ?case using frees_refl by simp
next
  case (Cons j js)
  show ?case
  proof (cases "deleted < e")
    case False
    then show ?thesis using Cons.prems(1) frees_refl by simp
  next
    case True
    then have n: "nat (e - deleted) = Suc (nat (e - (deleted + 1)))" by simp
    have av: "all_freeable s (get_int block j # map (get_int block) (take (nat (e - (deleted + 1))) js))"
      using Cons.prems(5) unfolding n by simp
    note A = all_freeable_Cons [OF av]
    obtain i1 s1 where f: "testfs_free_block_from_inode i s (get_int block j) = Inr (i1, s1)"
        "frees i s (blocks_at {get_int block j}) i1 s1"
      using free_from_inode [OF Cons.prems(1) A(1)] by blast
    have g: "get_int (put_int block j 0) x = get_int block x" if "x \<in> set js" for x
      using that Cons.prems(2-4) by (intro ints.get_put_other) auto
    have maps: "map (get_int (put_int block j 0)) (take m js) = map (get_int block) (take m js)"
      "get_int (put_int block j 0) ` set (take m js) = get_int block ` set (take m js)" for m
      using g by (auto dest: in_set_takeD intro!: image_cong)
    have "\<exists>i' t. free_entries js e (deleted + 1) i1 s1 (put_int block j 0) =
        Inr (deleted + 1 + int (min (length js) (nat (e - (deleted + 1)))), i', t) \<and>
      frees i1 s1 (blocks_at (get_int (put_int block j 0) ` set (take (nat (e - (deleted + 1))) js))) i' t"
      using Cons.prems(2-4) A(3) [OF f(2)] by (intro Cons.IH frees_wf [OF f(2)]) (simp_all add: maps(1))
    then obtain i' t where R: "free_entries js e (deleted + 1) i1 s1 (put_int block j 0) =
        Inr (deleted + 1 + int (min (length js) (nat (e - (deleted + 1)))), i', t)"
      "frees i1 s1 (blocks_at (get_int block ` set (take (nat (e - (deleted + 1))) js))) i' t"
      unfolding maps(2) by blast
    have "frees i s (blocks_at (get_int block ` set (take (nat (e - deleted)) (j # js)))) i' t"
      using frees_insert [OF f(2) R(2)] unfolding n take_Suc_Cons list.set image_insert .
    moreover have "free_entries (j # js) e deleted i s block =
        Inr (deleted + int (min (length (j # js)) (nat (e - deleted))), i', t)"
      using True f(1) R(1) unfolding n by simp
    ultimately show ?thesis by blast
  qed
qed

lemma free_direct_eq:
  assumes "super_wf s" "distinct ks" "set ks \<subseteq> {..<length (i_block_nr (in_d i))}"
    "all_freeable s (map (\<lambda>k. sint (i_block_nr (in_d i) ! k)) ks)"
  shows "\<exists>i' t nrs. free_direct ks i s = Inr (i'\<lparr>in_d := (in_d i')\<lparr>i_block_nr := nrs\<rparr>\<rparr>, t) \<and>
    frees i s (blocks_at ((\<lambda>k. sint (i_block_nr (in_d i) ! k)) ` set ks)) i' t \<and>
    length nrs = length (i_block_nr (in_d i)) \<and>
    (\<forall>j<length nrs. nrs ! j = (if j \<in> set ks then 0 else i_block_nr (in_d i) ! j))"
  using assms
proof (induction ks arbitrary: i s)
  case Nil
  then show ?case using frees_refl [OF Nil(1), of i] by (intro exI [of _ i] exI [of _ s] exI [of _ "i_block_nr (in_d i)"]) simp
next
  case (Cons k ks)
  let ?v = "sint (i_block_nr (in_d i) ! k)"
  have av: "all_freeable s (?v # map (\<lambda>k. sint (i_block_nr (in_d i) ! k)) ks)" using Cons.prems(4) by simp
  note A = all_freeable_Cons [OF av]
  obtain i1 s1 where f: "testfs_free_block_from_inode i s ?v = Inr (i1, s1)" "frees i s (blocks_at {?v}) i1 s1"
    using free_from_inode [OF Cons.prems(1) A(1)] by blast
  let ?i1 = "i1\<lparr>in_d := (in_d i1)\<lparr>i_block_nr := (i_block_nr (in_d i1))[k := 0]\<rparr>\<rparr>"
  have b1: "i_block_nr (in_d i1) = i_block_nr (in_d i)" using f(2) by (simp add: frees_def)
  have e: "free_direct (k # ks) i s = free_direct ks ?i1 s1"
  proof (cases "?v = 0")
    case True
    then have z: "i_block_nr (in_d i) ! k = 0" by (simp add: signed_eq_0_iff)
    then have "i1 = i" "s1 = s" using f(1) by (simp_all add: testfs_free_block_from_inode_def)
    moreover have "(i_block_nr (in_d i))[k := 0] = i_block_nr (in_d i)" using z by (metis list_update_id)
    ultimately show ?thesis using z by simp
  qed (use f(1) in \<open>simp add: signed_eq_0_iff\<close>)
  have nth: "i_block_nr (in_d ?i1) ! j = i_block_nr (in_d i) ! j" if "j \<in> set ks" for j
    using that Cons.prems(2) b1 by (cases "j = k") auto
  have maps: "map (\<lambda>k. sint (i_block_nr (in_d ?i1) ! k)) ks = map (\<lambda>k. sint (i_block_nr (in_d i) ! k)) ks"
    "(\<lambda>k. sint (i_block_nr (in_d ?i1) ! k)) ` set ks = (\<lambda>k. sint (i_block_nr (in_d i) ! k)) ` set ks"
    using nth by (auto intro!: image_cong)
  have "\<exists>i' t nrs. free_direct ks ?i1 s1 = Inr (i'\<lparr>in_d := (in_d i')\<lparr>i_block_nr := nrs\<rparr>\<rparr>, t) \<and>
    frees ?i1 s1 (blocks_at ((\<lambda>k. sint (i_block_nr (in_d ?i1) ! k)) ` set ks)) i' t \<and>
    length nrs = length (i_block_nr (in_d ?i1)) \<and>
    (\<forall>j<length nrs. nrs ! j = (if j \<in> set ks then 0 else i_block_nr (in_d ?i1) ! j))"
  proof (intro Cons.IH frees_wf [OF f(2)])
    show "all_freeable s1 (map (\<lambda>k. sint (i_block_nr (in_d ?i1) ! k)) ks)"
      unfolding maps(1) by (rule A(3) [OF f(2)])
  qed (use Cons.prems(2,3) b1 in simp_all)
  then obtain i' t nrs where R: "free_direct ks ?i1 s1 = Inr (i'\<lparr>in_d := (in_d i')\<lparr>i_block_nr := nrs\<rparr>\<rparr>, t)"
    "frees ?i1 s1 (blocks_at ((\<lambda>k. sint (i_block_nr (in_d i) ! k)) ` set ks)) i' t"
    "length nrs = length (i_block_nr (in_d i))"
    "\<forall>j<length nrs. nrs ! j = (if j \<in> set ks then 0 else (i_block_nr (in_d i))[k := 0] ! j)"
    unfolding maps(2) using b1 by auto
  let ?i'' = "i'\<lparr>in_d := (in_d i')\<lparr>i_block_nr := i_block_nr (in_d i)\<rparr>\<rparr>"
  have "frees i1 s1 (blocks_at ((\<lambda>k. sint (i_block_nr (in_d i) ! k)) ` set ks)) ?i'' t"
    using R(2) b1 by (simp add: frees_def)
  then have "frees i s (blocks_at (insert ?v ((\<lambda>k. sint (i_block_nr (in_d i) ! k)) ` set ks))) ?i'' t"
    by (rule frees_insert [OF f(2)])
  moreover have "\<forall>j<length nrs. nrs ! j = (if j \<in> set (k # ks) then 0 else i_block_nr (in_d i) ! j)"
    using R(3,4) by (auto simp: nth_list_update)
  ultimately show ?case using e R(1,3)
    by (intro exI [of _ ?i''] exI [of _ t] exI [of _ nrs]) simp
qed

lemma all_freeable_append:
  assumes "all_freeable s (xs @ ys)"
  shows "all_freeable s xs" "all_freeable s ys" "frees i s (blocks_at (set xs)) i' t \<Longrightarrow> all_freeable t ys"
proof -
  show xs: "all_freeable s xs" and ys: "all_freeable s ys" using assms by (auto simp: all_freeable_def)
  assume f: "frees i s (blocks_at (set xs)) i' t"
  have "freeable t w" if "w \<in> set ys" for w
  proof (rule freeable_frees [OF f])
    show "freeable s w" using ys that by (simp add: all_freeable_def)
    have "w \<noteq> 0 \<Longrightarrow> w \<notin> set xs" using assms that by (auto simp: all_freeable_def)
    then show "blocks_at {w} \<inter> blocks_at (set xs) = {}" by (auto simp: blocks_at_def)
  qed
  then show "all_freeable t ys" using ys by (auto simp: all_freeable_def)
qed

lemma blocks_at_cong: "(\<And>v. v \<noteq> 0 \<Longrightarrow> v \<in> V \<longleftrightarrow> v \<in> W) \<Longrightarrow> blocks_at V = blocks_at W"
  by (auto simp: blocks_at_def)

lemma freed_blk:
  assumes "freed s D t" "has_block s n" "18 \<le> n" "\<And>k. k \<in> D \<Longrightarrow> n \<noteq> DATA_START + k"
  shows "has_block t n" "blk t n = blk s n"
proof -
  have "n \<notin> (+) DATA_START ` D" using assms(4) by auto
  then show "has_block t n" "blk t n = blk s n" using assms(1-3) by (simp_all add: freed_def same_blocks_def)
qed

lemma frees_read:
  assumes f: "frees i s (blocks_at (set xs)) i' t" and af: "all_freeable s (xs @ ys)"
    and v: "v \<in> set ys" "v \<noteq> 0" "has_block s (nat v)"
  shows "has_block t (nat v)" "blk t (nat v) = blk s (nat v)"
proof -
  have fd: "freed s (blocks_at (set xs)) t" using f by (simp add: frees_def)
  have fv: "freeable s v" using af v(1) by (simp add: all_freeable_def)
  then obtain k where k: "v = int (DATA_START + k)" using v(2) by (auto simp: freeable_def)
  have "v \<notin> set xs" using af v(1,2) by (auto simp: all_freeable_def)
  then have "nat v \<noteq> DATA_START + l" if "l \<in> blocks_at (set xs)" for l
    using that k by (auto simp: blocks_at_def nat_add_distrib)
  then show "has_block t (nat v)" "blk t (nat v) = blk s (nat v)"
    using freed_blk [OF fd v(3)] k by (simp_all add: nat_add_distrib)
qed

lemma freeable_read:
  assumes "super_wf s" "freeable s v" "v \<noteq> 0" "has_block s (nat v)"
  shows "read_blocks s v (Suc 0) = Inr (blk s (nat v))" "0 < v"
proof -
  obtain k where k: "k \<in> used_blocks s" "v = int (DATA_START + k)" using assms(2,3) by (auto simp: freeable_def)
  then have "blk_addr v" using used_blocks_bound [OF assms(1)] by auto
  then show "read_blocks s v (Suc 0) = Inr (blk s (nat v))" using assms(4) by (simp add: read_block_eq)
  show "0 < v" using k by simp
qed

definition drow :: "(nat \<Rightarrow> int) \<Rightarrow> (nat \<Rightarrow> nat \<Rightarrow> int) \<Rightarrow> nat \<Rightarrow> int list" where
  "drow v r m = map (r m) [0..<2048] @ [v m]"

lemma js_sub: "set [0..<2048] \<subseteq> {..<2048 :: nat}"
  by auto

text \<open>An indirect block freed with its entries.\<close>

lemma free_row_eq:
  assumes s: "super_wf s" and v: "v \<noteq> 0" "has_block s (nat v)"
    and r: "\<And>j. j < 2048 \<Longrightarrow> get_int (blk s (nat v)) j = r j"
    and af: "all_freeable s ((map r [0..<2048] @ [v]) @ rest)"
    and e: "\<And>j. j < 2048 \<Longrightarrow> r j \<noteq> 0 \<Longrightarrow> deleted + int j < e"
  obtains i1 s1 i2 s2 where
    "free_entries [0..<2048] e deleted i s (blk s (nat v)) = Inr (deleted + int (min 2048 (nat (e - deleted))), i1, s1)"
    "testfs_free_block_from_inode i1 s1 v = Inr (i2, s2)"
    "frees i s (blocks_at (set (map r [0..<2048] @ [v]))) i2 s2"
    "i_indirect (in_d i1) = i_indirect (in_d i)"
proof -
  let ?n = "nat (e - deleted)"
  let ?vs = "map r (take ?n [0..<2048])" and ?ws = "map r (drop ?n [0..<2048])"
  have split: "map r [0..<2048] = ?vs @ ?ws" unfolding map_append [symmetric] append_take_drop_id ..
  have "drop ?n [0..<2048] = [?n..<2048]" by simp
  then have zs: "w = 0" if "w \<in> set ?ws" for w using that e by fastforce
  have row: "map (get_int (blk s (nat v))) (take ?n [0..<2048]) = ?vs"
    using r by (auto dest: in_set_takeD)
  have af1: "all_freeable s (?vs @ ?ws @ v # rest)" using af unfolding split by simp
  obtain i1 s1 where f1: "free_entries [0..<2048] e deleted i s (blk s (nat v)) =
        Inr (deleted + int (min 2048 ?n), i1, s1)" "frees i s (blocks_at (set ?vs)) i1 s1"
    using free_entries_eq [OF s blk_len [OF v(2)] distinct_upt js_sub, of e deleted i]
      all_freeable_append(1) [OF af1] unfolding row set_map [symmetric] by auto
  note A1 = all_freeable_Cons [OF all_freeable_append(2) [OF all_freeable_append(3) [OF af1 f1(2)]]]
  obtain i2 s2 where f2: "testfs_free_block_from_inode i1 s1 v = Inr (i2, s2)" "frees i1 s1 (blocks_at {v}) i2 s2"
    using free_from_inode [OF frees_wf [OF f1(2)] A1(1)] by blast
  have "frees i s (blocks_at (set ?vs \<union> {v})) i2 s2"
    unfolding blocks_at_Un by (rule frees_trans [OF f1(2) f2(2)])
  moreover have "blocks_at (set (map r [0..<2048] @ [v])) = blocks_at (set ?vs \<union> {v})"
  proof (rule blocks_at_cong)
    fix w :: int assume "w \<noteq> 0"
    then show "w \<in> set (map r [0..<2048] @ [v]) \<longleftrightarrow> w \<in> set ?vs \<union> {v}"
      unfolding split set_append using zs by auto
  qed
  moreover have "i_indirect (in_d i1) = i_indirect (in_d i)" using f1(2) by (simp add: frees_def)
  ultimately show thesis using that [OF f1(1) f2(1)] by simp
qed

lemma free_dindirect_eq:
  assumes "super_wf s" "length block = BLOCK_SIZE" "k \<le> 2048"
    "\<And>m. k \<le> m \<Longrightarrow> m < 2048 \<Longrightarrow> get_int block m = v m"
    "\<And>m j. k \<le> m \<Longrightarrow> m < 2048 \<Longrightarrow> v m \<noteq> 0 \<Longrightarrow> j < 2048 \<Longrightarrow> get_int (blk s (nat (v m))) j = r m j"
    "\<And>m. k \<le> m \<Longrightarrow> m < 2048 \<Longrightarrow> v m \<noteq> 0 \<Longrightarrow> has_block s (nat (v m))"
    "\<And>m j. k \<le> m \<Longrightarrow> m < 2048 \<Longrightarrow> v m = 0 \<Longrightarrow> j < 2048 \<Longrightarrow> r m j = 0"
    "all_freeable s (concat (map (drow v r) [k..<2048]))"
    "\<And>m. k \<le> m \<Longrightarrow> m < 2048 \<Longrightarrow> v m \<noteq> 0 \<Longrightarrow> 2048 * int m < e"
    "\<And>m j. k \<le> m \<Longrightarrow> m < 2048 \<Longrightarrow> j < 2048 \<Longrightarrow> r m j \<noteq> 0 \<Longrightarrow> 2048 * int m + int j < e"
    "if 2048 * int k < e then deleted = 2048 * int k else e \<le> deleted"
  shows "\<exists>i' t. free_dindirect [k..<2048] e deleted i s block = Inr (i', t) \<and>
    frees i s (blocks_at (set (concat (map (drow v r) [k..<2048])))) i' t"
  using assms
proof (induction "2048 - k" arbitrary: k s i block deleted)
  case 0
  then show ?case using frees_refl by simp
next
  case (Suc n)
  then have k: "k < 2048" by simp
  then have upt: "[k..<2048] = k # [Suc k..<2048]" by (rule upt_conv_Cons)
  let ?rest = "concat (map (drow v r) [Suc k..<2048])"
  have af: "all_freeable s (drow v r k @ ?rest)" using Suc.prems(8) unfolding upt by simp
  have vk: "get_int block k = v k" using Suc.prems(4) k by simp
  note IH = Suc.hyps(1) [of "Suc k"]
  show ?case
  proof (cases "2048 * int k < e")
    case False
    have z: "v m = 0 \<and> (\<forall>j<2048. r m j = 0)" if "k \<le> m" "m < 2048" for m
      using Suc.prems(7,9) [OF that] that False by force
    have "e \<le> deleted" using Suc.prems(11) False by simp
    then have "free_dindirect [k..<2048] e deleted i s block = Inr (i, s)" unfolding upt by simp
    moreover have "set (concat (map (drow v r) [k..<2048])) \<subseteq> {0}" using z by (auto simp: drow_def)
    then have "blocks_at (set (concat (map (drow v r) [k..<2048]))) = blocks_at {}"
      by (intro blocks_at_cong) auto
    ultimately show ?thesis using frees_refl [OF Suc.prems(1)] by (simp del: set_concat)
  next
    case True
    then have del: "deleted = 2048 * int k" "deleted < e" using Suc.prems(11) by simp_all
    show ?thesis
    proof (cases "v k = 0")
      case z: True
      have "\<exists>i' t. free_dindirect [Suc k..<2048] e (deleted + 2048) i s block = Inr (i', t) \<and>
          frees i s (blocks_at (set ?rest)) i' t"
      proof (intro IH Suc.prems(1,2) all_freeable_append(2) [OF af])
        show "if 2048 * int (Suc k) < e then deleted + 2048 = 2048 * int (Suc k) else e \<le> deleted + 2048"
          using del by simp
      qed (use Suc.hyps(2) Suc.prems(4-7,9,10) k in simp_all)
      moreover have "blocks_at (set (concat (map (drow v r) [k..<2048]))) = blocks_at (set ?rest)"
        using Suc.prems(7) [OF order_refl k z] z unfolding upt by (intro blocks_at_cong) (auto simp: drow_def)
      ultimately show ?thesis unfolding upt using del vk z by (simp del: set_concat)
    next
      case nz: False
      have has: "has_block s (nat (v k))" using Suc.prems(6) k nz by simp
      have fv: "freeable s (v k)" using af by (auto simp: all_freeable_def drow_def)
      note RD = freeable_read [OF Suc.prems(1) fv nz has]
      obtain i1 s1 i2 s2 where f1: "free_entries [0..<2048] e deleted i s (blk s (nat (v k))) =
            Inr (deleted + int (min 2048 (nat (e - deleted))), i1, s1)"
          "testfs_free_block_from_inode i1 s1 (v k) = Inr (i2, s2)"
        and F: "frees i s (blocks_at (set (drow v r k))) i2 s2"
      proof (rule free_row_eq [OF Suc.prems(1) nz has Suc.prems(5) [OF order_refl k nz], where deleted = deleted
            and e = e and i = i and rest = ?rest])
        show "all_freeable s ((map (r k) [0..<2048] @ [v k]) @ ?rest)" using af by (simp add: drow_def)
        show "deleted + int j < e" if "j < 2048" "r k j \<noteq> 0" for j
          using Suc.prems(10) [OF order_refl k that] del(1) by simp
      qed (blast, simp add: drow_def)
      let ?del = "deleted + int (min 2048 (nat (e - deleted)))"
      have next_del: "if 2048 * int (Suc k) < e then ?del = 2048 * int (Suc k) else e \<le> ?del"
        using del by auto
      have vrest: "v m \<in> set ?rest" if "Suc k \<le> m" "m < 2048" for m
        using that by (auto simp: drow_def intro!: bexI [of _ m])
      have rd: "has_block s2 (nat (v m))" "blk s2 (nat (v m)) = blk s (nat (v m))"
        if "Suc k \<le> m" "m < 2048" "v m \<noteq> 0" for m
        using frees_read [OF F af vrest [OF that(1,2)] that(3)] Suc.prems(6) [of m] that by simp_all
      have blen: "length (put_int block k 0) = BLOCK_SIZE" using Suc.prems(2) k by simp
      have "\<exists>i' t. free_dindirect [Suc k..<2048] e ?del i2 s2 (put_int block k 0) = Inr (i', t) \<and>
          frees i2 s2 (blocks_at (set ?rest)) i' t"
      proof (intro IH frees_wf [OF F] blen next_del all_freeable_append(3) [OF af F])
        show "get_int (put_int block k 0) m = v m" if "Suc k \<le> m" "m < 2048" for m
          using ints.get_put_other [OF Suc.prems(2) k, of 0 m] Suc.prems(4) [of m] that by simp
        show "get_int (blk s2 (nat (v m))) j = r m j" if "Suc k \<le> m" "m < 2048" "v m \<noteq> 0" "j < 2048" for m j
          using rd(2) [OF that(1-3)] Suc.prems(5) [of m j] that by simp
      qed (use Suc.hyps(2) Suc.prems(7,9,10) k rd(1) in simp_all)
      then obtain i' t where R: "free_dindirect [Suc k..<2048] e ?del i2 s2 (put_int block k 0) = Inr (i', t)"
          "frees i2 s2 (blocks_at (set ?rest)) i' t" by blast
      have "free_dindirect [k..<2048] e deleted i s block = Inr (i', t)"
        unfolding upt using del(2) vk nz RD f1 R(1) by simp
      moreover have "frees i s (blocks_at (set (concat (map (drow v r) [k..<2048])))) i' t"
        unfolding upt list.map concat.simps set_append blocks_at_Un by (rule frees_trans [OF F R(2)])
      ultimately show ?thesis by blast
    qed
  qed
qed

section \<open>The invariant of a file\<close>

text \<open>
  Beside the tree: the size is one the block tree can hold, every allocated block is below it and the last one is
  allocated, and there is no indirect block without a block below it.
\<close>

definition file_wf :: "super_block \<Rightarrow> dinode \<Rightarrow> bool" where
  "file_wf s d \<longleftrightarrow> tree_wf {} s d \<and> 0 \<le> sint (i_size d) \<and> sint (i_size d) \<le> int MAX_FILE_BYTES \<and>
     (\<forall>L\<in>mapped s d. int (L * BLOCK_SIZE) < sint (i_size d)) \<and>
     (0 < sint (i_size d) \<longrightarrow> nat ((sint (i_size d) - 1) div int BLOCK_SIZE) \<in> mapped s d) \<and>
     (\<forall>p. vpath p \<longrightarrow> inner p \<longrightarrow> ptr s d p \<noteq> 0 \<longrightarrow> (\<exists>L\<in>mapped s d. leads_to p (leaf L)))"

definition fsize :: "dinode \<Rightarrow> nat" where
  "fsize d = nat (sint (i_size d))"

definition nblocks :: "dinode \<Rightarrow> nat" where
  "nblocks d = (fsize d + 8191) div BLOCK_SIZE"

lemma file_wfD:
  assumes "file_wf s d"
  shows "tree_wf {} s d" "sint (i_size d) = int (fsize d)" "fsize d \<le> MAX_FILE_BYTES"
    "\<And>L. L \<in> mapped s d \<Longrightarrow> L * BLOCK_SIZE < fsize d"
    "0 < fsize d \<Longrightarrow> (fsize d - 1) div BLOCK_SIZE \<in> mapped s d"
    "\<And>p. vpath p \<Longrightarrow> inner p \<Longrightarrow> ptr s d p \<noteq> 0 \<Longrightarrow> \<exists>L\<in>mapped s d. leads_to p (leaf L)"
proof -
  show sz: "sint (i_size d) = int (fsize d)" using assms by (simp add: file_wf_def fsize_def)
  show "tree_wf {} s d" "fsize d \<le> MAX_FILE_BYTES" "\<And>L. L \<in> mapped s d \<Longrightarrow> L * BLOCK_SIZE < fsize d"
    "\<And>p. vpath p \<Longrightarrow> inner p \<Longrightarrow> ptr s d p \<noteq> 0 \<Longrightarrow> \<exists>L\<in>mapped s d. leads_to p (leaf L)"
    using assms unfolding file_wf_def sz by (simp_all del: of_nat_mult)
  show "(fsize d - 1) div BLOCK_SIZE \<in> mapped s d" if "0 < fsize d"
  proof -
    have "nat ((int (fsize d) - 1) div int BLOCK_SIZE) = (fsize d - 1) div BLOCK_SIZE"
      using that by (simp add: nat_div_distrib nat_diff_distrib)
    then show ?thesis using assms that unfolding file_wf_def sz by simp
  qed
qed

lemma mapped_nblocks:
  assumes "file_wf s d" "L \<in> mapped s d" shows "L < nblocks d"
proof -
  have "L * BLOCK_SIZE < fsize d" by (rule file_wfD(4) [OF assms])
  then have "Suc L * BLOCK_SIZE \<le> fsize d + 8191" by simp
  then have "Suc L \<le> nblocks d" unfolding nblocks_def using less_eq_div_iff_mult_less_eq [of 8192 "Suc L" "fsize d + 8191"] by simp
  then show ?thesis by simp
qed

lemma unmapped_null: "L < MAX_FILE_BLOCKS \<Longrightarrow> L \<notin> mapped s d \<Longrightarrow> ptr s d (leaf L) = 0"
  by (simp add: mapped_def)

lemma nblocks_max: "file_wf s d \<Longrightarrow> nblocks d \<le> MAX_FILE_BLOCKS"
  unfolding nblocks_def using file_wfD(3) [of s d] by simp

lemma leads_to_cases:
  assumes "leads_to p (leaf L)" "L < MAX_FILE_BLOCKS"
  shows "p = PInd \<and> 10 \<le> L \<and> L < 2058 \<or> p = PDind \<and> 2058 \<le> L \<or> p = PD1 ((L - 2058) div 2048) \<and> 2058 \<le> L"
  using assms by (cases p) (auto simp: leaf_def split: if_splits)

lemma ptr_below:
  assumes wf: "file_wf s d"
  shows "j < 10 \<Longrightarrow> ptr s d (PDir j) \<noteq> 0 \<Longrightarrow> j < nblocks d"
    "j < 2048 \<Longrightarrow> ptr s d (PI j) \<noteq> 0 \<Longrightarrow> j + 10 < nblocks d"
    "ptr s d PInd \<noteq> 0 \<Longrightarrow> 10 < nblocks d" "ptr s d PDind \<noteq> 0 \<Longrightarrow> 2058 < nblocks d"
    "m < 2048 \<Longrightarrow> ptr s d (PD1 m) \<noteq> 0 \<Longrightarrow> 2058 + 2048 * m < nblocks d"
    "m < 2048 \<Longrightarrow> j < 2048 \<Longrightarrow> ptr s d (PD2 m j) \<noteq> 0 \<Longrightarrow> 2058 + 2048 * m + j < nblocks d"
    "2058 < nblocks d \<Longrightarrow> ptr s d PDind \<noteq> 0"
proof -
  have M: "L \<in> mapped s d" if "leaf L = p" "L < MAX_FILE_BLOCKS" "ptr s d p \<noteq> 0" for L p
    using that by (auto simp: mapped_def)
  show "j < nblocks d" if "j < 10" "ptr s d (PDir j) \<noteq> 0"
    by (rule mapped_nblocks [OF wf M [of _ "PDir j"]]) (use that in \<open>simp_all add: leaf_def\<close>)
  show "j + 10 < nblocks d" if "j < 2048" "ptr s d (PI j) \<noteq> 0"
    by (rule mapped_nblocks [OF wf M [of _ "PI j"]]) (use that in \<open>simp_all add: leaf_def\<close>)
  have I: "\<exists>L<nblocks d. L < MAX_FILE_BLOCKS \<and> leads_to p (leaf L)" if "vpath p" "inner p" "ptr s d p \<noteq> 0" for p
    using file_wfD(6) [OF wf that] mapped_nblocks [OF wf] by (auto simp: mapped_def)
  show "10 < nblocks d" if "ptr s d PInd \<noteq> 0"
    using I [of PInd] that leads_to_cases [of PInd] by fastforce
  show "2058 < nblocks d" if "ptr s d PDind \<noteq> 0"
    using I [of PDind] that leads_to_cases [of PDind] by fastforce
  show "2058 + 2048 * m < nblocks d" if m: "m < 2048" "ptr s d (PD1 m) \<noteq> 0"
  proof -
    obtain L where L: "L < nblocks d" "L < MAX_FILE_BLOCKS" "leads_to (PD1 m) (leaf L)" using I [of "PD1 m"] m by auto
    then have "m = (L - 2058) div 2048" "2058 \<le> L" using leads_to_cases [of "PD1 m" L] by auto
    then have "2048 * m \<le> L - 2058" by simp
    then show ?thesis using L(1) \<open>2058 \<le> L\<close> by linarith
  qed
  show "2058 + 2048 * m + j < nblocks d" if m: "m < 2048" "j < 2048" "ptr s d (PD2 m j) \<noteq> 0"
  proof -
    have "leaf (2058 + 2048 * m + j) = PD2 m j" using m by (simp add: leaf_def)
    then show ?thesis using m by (intro mapped_nblocks [OF wf M [of _ "PD2 m j"]]) simp_all
  qed
  show "ptr s d PDind \<noteq> 0" if "2058 < nblocks d"
  proof -
    have f: "2058 * BLOCK_SIZE < fsize d" using that unfolding nblocks_def by simp
    then have "2058 \<le> (fsize d - 1) div BLOCK_SIZE" by simp
    moreover have "(fsize d - 1) div BLOCK_SIZE \<in> mapped s d" using f by (intro file_wfD(5) [OF wf]) simp
    ultimately obtain L where "2058 \<le> L" "L \<in> mapped s d" by blast
    then have "ptr s d (PD2 ((L - 2058) div 2048) ((L - 2058) mod 2048)) \<noteq> 0" by (simp add: mapped_def leaf_def)
    then show ?thesis by (auto simp: entry_def)
  qed
qed

section \<open>Freeing a file\<close>

definition all_paths :: "path list" where
  "all_paths = map PDir [0..<10] @ (map PI [0..<2048] @ [PInd]) @
     concat (map (\<lambda>m. map (PD2 m) [0..<2048] @ [PD1 m]) [0..<2048]) @ [PDind]"

lemma set_all_paths: "set all_paths = {p. vpath p}"
proof (rule set_eqI)
  fix p show "p \<in> set all_paths \<longleftrightarrow> p \<in> {p. vpath p}" by (cases p) (auto simp: all_paths_def image_iff)
qed

lemma distinct_all_paths: "distinct all_paths"
proof -
  have "distinct (map (\<lambda>m. map (PD2 m) [0..<2048] @ [PD1 m]) [0..<2048])"
    by (simp add: distinct_map inj_on_def)
  then have "distinct (concat (map (\<lambda>m. map (PD2 m) [0..<2048] @ [PD1 m]) [0..<2048]))"
    by (intro distinct_concat) (auto simp: distinct_map inj_on_def)
  then show ?thesis unfolding all_paths_def by (auto simp: distinct_map inj_on_def)
qed

lemma all_freeable_paths:
  assumes wf: "tree_wf {} s d" and ps: "distinct ps" "\<forall>p\<in>set ps. vpath p"
  shows "all_freeable s (map (ptr s d) ps)"
proof -
  have "distinct (map (ptr s d) (filter (\<lambda>p. ptr s d p \<noteq> 0) ps))"
    using ps tree_wf_inj [OF wf] by (auto simp: distinct_map intro!: inj_onI)
  moreover have "freeable s (ptr s d p)" if "p \<in> set ps" for p
    using wf ps(2) that unfolding tree_wf_def freeable_def by blast
  ultimately show ?thesis by (auto simp: all_freeable_def filter_map o_def)
qed

lemma owned_all_paths: "owned s d = blocks_at (set (map (ptr s d) all_paths))"
  by (auto simp: owned_def blocks_at_def set_all_paths image_iff dest: sym)


lemma sint_add_8191:
  assumes "file_wf s d"
  shows "c_int (c_long (sint (i_size d) + int BLOCK_SIZE - 1) sdiv int BLOCK_SIZE) = int (nblocks d)"
proof -
  have a: "sint (i_size d) + int BLOCK_SIZE - 1 = int (fsize d + 8191)" using file_wfD(2) [OF assms] by simp
  have b: "c_long (int (fsize d + 8191)) = int (fsize d + 8191)"
    using file_wfD(3) [OF assms] by (intro c_long_id) simp_all
  have c: "int (fsize d + 8191) sdiv int BLOCK_SIZE = int (nblocks d)"
    by (simp add: sdiv_nonneg nblocks_def zdiv_int)
  have d: "c_int (int (nblocks d)) = int (nblocks d)"
    using nblocks_max [OF assms] by (intro c_int_id) simp_all
  show ?thesis by (simp only: a b c d)
qed

lemma frees_fields:
  assumes "frees i s D i' t"
  shows "block_count (in_d i') = block_count (in_d i) - of_nat (card D)"
    "i_type (in_d i') = i_type (in_d i)" "i_block_nr (in_d i') = i_block_nr (in_d i)"
    "i_indirect (in_d i') = i_indirect (in_d i)" "i_dindirect (in_d i') = i_dindirect (in_d i)"
    "i_nr i' = i_nr i" "i_count i' = i_count i"
  using assms by (simp_all add: frees_def)

lemma testfs_free_blocks_eq:
  assumes s: "super_wf s" and fw: "file_wf s (in_d i)"
  obtains i' t where "testfs_free_blocks i s = Inr (0, i', t)" "freed s (owned s (in_d i)) t"
    "in_d i' = zero_dinode\<lparr>i_type := i_type (in_d i)\<rparr>" "i_nr i' = i_nr i" "i_count i' = i_count i" "is_dirty i'"
proof -
  let ?d = "in_d i" and ?p = "ptr s (in_d i)" and ?nb = "nblocks (in_d i)"
  note wf = file_wfD(1) [OF fw] and B = ptr_below [OF fw]
  let ?ks = "[0..<min ?nb 10]" and ?f = "\<lambda>k. sint (i_block_nr ?d ! k)"
  let ?V2 = "map ?p (map PI [0..<2048]) @ [?p PInd]"
  let ?D = "concat (map (drow (\<lambda>m. ?p (PD1 m)) (\<lambda>m j. ?p (PD2 m j))) [0..<2048])"
  have V: "map ?p all_paths = map ?f [0..<10] @ ?V2 @ ?D @ [?p PDind]"
    by (simp add: all_paths_def map_concat o_def drow_def [abs_def])
  have "all_freeable s (map ?p all_paths)"
    by (rule all_freeable_paths [OF wf distinct_all_paths]) (simp add: set_all_paths)
  then have af: "all_freeable s (map ?f ?ks @ map ?f [min ?nb 10..<10] @ ?V2 @ ?D @ [?p PDind])"
  proof -
    have "[0..<10] = ?ks @ [min ?nb 10..<10]"
      using upt_add_eq_append [of 0 "min ?nb 10" "10 - min ?nb 10"] by simp
    then have "map ?f [0..<10] = map ?f ?ks @ map ?f [min ?nb 10..<10]" by (metis map_append)
    then show "all_freeable s (map ?p all_paths) \<Longrightarrow> ?thesis" unfolding V by simp
  qed
  have ks: "distinct ?ks" "set ?ks \<subseteq> {..<length (i_block_nr ?d)}"
    using tree_wf_dinode [OF wf] by (auto simp: dinode_wf_def)
  obtain i1 s1 nrs where f1: "free_direct ?ks i s = Inr (i1\<lparr>in_d := (in_d i1)\<lparr>i_block_nr := nrs\<rparr>\<rparr>, s1)"
      "frees i s (blocks_at (?f ` set ?ks)) i1 s1" "length nrs = length (i_block_nr ?d)"
      "\<forall>j<length nrs. nrs ! j = (if j \<in> set ?ks then 0 else i_block_nr ?d ! j)"
    using free_direct_eq [OF s ks all_freeable_append(1) [OF af]] by blast
  let ?i1 = "i1\<lparr>in_d := (in_d i1)\<lparr>i_block_nr := nrs\<rparr>\<rparr>"
  have nrs: "nrs = replicate 10 0"
  proof (rule nth_equalityI)
    show len: "length nrs = length (replicate 10 (0 :: 32 word))"
      using f1(3) tree_wf_dinode [OF wf] by (simp add: dinode_wf_def)
    fix j assume "j < length nrs"
    then show "nrs ! j = replicate 10 0 ! j"
      using f1(4) len B(1) [of j] by (auto simp: signed_eq_0_iff)
  qed
  have "all_freeable s1 (map ?f [min ?nb 10..<10] @ ?V2 @ ?D @ [?p PDind])"
    by (rule all_freeable_append(3) [OF af]) (use f1(2) in simp)
  note af1 = all_freeable_append(2) [OF this]
  have d1: "i_indirect (in_d i1) = i_indirect ?d" "i_dindirect (in_d i1) = i_dindirect ?d"
    using f1(2) by (simp_all add: frees_def)
  have sz1: "super_wf s1" by (rule frees_wf [OF f1(2)])
  have V2z: "blocks_at (set ?V2) = {}" if "?p PInd = 0"
    using that by (simp add: entry_def image_constant_conv)
  obtain i2 s2 where f2: "(if 0 < sint (i_indirect (in_d ?i1))
        then rbind (read_blocks s1 (sint (i_indirect (in_d ?i1))) 1) (\<lambda>block.
          rbind (free_entries [0..<NR_INDIRECT_BLOCKS] (int ?nb - int NR_DIRECT_BLOCKS) 0 ?i1 s1 block) (\<lambda>(_, i, s).
          rbind (testfs_free_block_from_inode i s (sint (i_indirect (in_d i)))) (\<lambda>(i, s).
          Inr (i\<lparr>in_d := (in_d i)\<lparr>i_indirect := 0\<rparr>\<rparr>, s))))
        else Inr (?i1, s1)) = Inr (i2\<lparr>in_d := (in_d i2)\<lparr>i_indirect := 0\<rparr>\<rparr>, s2)"
      "frees ?i1 s1 (blocks_at (set ?V2)) i2 s2"
  proof (cases "?p PInd = 0")
    case True
    then have "i_indirect (in_d ?i1) = 0" using d1(1) by (simp add: signed_eq_0_iff)
    then show ?thesis using that [of ?i1 s1] V2z [OF True] frees_refl [OF sz1] by (simp add: signed_eq_0_iff)
  next
    case nz: False
    have has: "has_block s (nat (?p PInd))" using tree_wf_has [OF wf, of PInd] nz by simp
    note RD = frees_read [OF f1(2) [folded set_map] af _ nz has]
    have rd: "has_block s1 (nat (?p PInd))" "blk s1 (nat (?p PInd)) = blk s (nat (?p PInd))" by (rule RD, simp)+
    have ent: "get_int (blk s1 (nat (?p PInd))) j = ?p (PI j)" for j using nz rd(2) by (simp add: entry_def)
    have af2: "all_freeable s1 ((map (\<lambda>j. ?p (PI j)) [0..<2048] @ [?p PInd]) @ ?D @ [?p PDind])"
      using af1 by (simp add: o_def)
    then have fv: "freeable s1 (?p PInd)" by (simp add: all_freeable_def)
    obtain i2 s2 i3 s3 where f: "free_entries [0..<2048] (int ?nb - 10) 0 ?i1 s1 (blk s1 (nat (?p PInd))) =
          Inr (0 + int (min 2048 (nat (int ?nb - 10 - 0))), i2, s2)"
        "testfs_free_block_from_inode i2 s2 (?p PInd) = Inr (i3, s3)"
        "frees ?i1 s1 (blocks_at (set (map (\<lambda>j. ?p (PI j)) [0..<2048] @ [?p PInd]))) i3 s3"
        "i_indirect (in_d i2) = i_indirect (in_d ?i1)"
    proof (rule free_row_eq [OF sz1 nz rd(1) ent af2])
      show "0 + int j < int ?nb - 10" if "j < 2048" "?p (PI j) \<noteq> 0" for j using B(2) [OF that] by simp
    qed blast
    show ?thesis
    proof (rule that [of i3 s3])
      show "frees ?i1 s1 (blocks_at (set ?V2)) i3 s3" using f(3) by (simp add: o_def image_image)
      have p: "?p PInd = sint (i_indirect ?d)" by simp
      note RR = freeable_read [OF sz1 fv nz rd(1), unfolded p]
      show "(if 0 < sint (i_indirect (in_d ?i1))
        then rbind (read_blocks s1 (sint (i_indirect (in_d ?i1))) 1) (\<lambda>block.
          rbind (free_entries [0..<NR_INDIRECT_BLOCKS] (int ?nb - int NR_DIRECT_BLOCKS) 0 ?i1 s1 block) (\<lambda>(_, i, s).
          rbind (testfs_free_block_from_inode i s (sint (i_indirect (in_d i)))) (\<lambda>(i, s).
          Inr (i\<lparr>in_d := (in_d i)\<lparr>i_indirect := 0\<rparr>\<rparr>, s))))
        else Inr (?i1, s1)) = Inr (i3\<lparr>in_d := (in_d i3)\<lparr>i_indirect := 0\<rparr>\<rparr>, s3)"
        using RR f(1,2,4) d1(1) by simp
    qed
  qed
  let ?i2 = "i2\<lparr>in_d := (in_d i2)\<lparr>i_indirect := 0\<rparr>\<rparr>"
  have sz2: "super_wf s2" by (rule frees_wf [OF f2(2)])
  have af2: "all_freeable s2 (?D @ [?p PDind])" by (rule all_freeable_append(3) [OF af1 f2(2)])
  have d2: "i_dindirect (in_d i2) = i_dindirect ?d" using f2(2) d1(2) by (simp add: frees_def)
  have V3z: "blocks_at (set (?D @ [?p PDind])) = {}" if "?p PDind = 0"
  proof -
    have "set (?D @ [?p PDind]) \<subseteq> {0}" using that by (auto simp: drow_def)
    then have "blocks_at (set (?D @ [?p PDind])) = blocks_at {}" by (intro blocks_at_cong) blast
    then show ?thesis by simp
  qed
  obtain i3 s3 where f3: "(if 0 \<le> int ?nb - int NR_DIRECT_BLOCKS - int NR_INDIRECT_BLOCKS
        then rbind (read_blocks s2 (sint (i_dindirect (in_d ?i2))) 1) (\<lambda>block.
          rbind (free_dindirect [0..<NR_INDIRECT_BLOCKS] (int ?nb - int NR_DIRECT_BLOCKS - int NR_INDIRECT_BLOCKS) 0 ?i2 s2 block) (\<lambda>(i, s).
          rbind (testfs_free_block_from_inode i s (sint (i_dindirect (in_d i)))) (\<lambda>(i, s).
          Inr (i\<lparr>in_d := (in_d i)\<lparr>i_dindirect := 0\<rparr>\<rparr>, s))))
        else Inr (?i2, s2)) = Inr (i3\<lparr>in_d := (in_d i3)\<lparr>i_dindirect := 0\<rparr>\<rparr>, s3)"
      "frees ?i2 s2 (blocks_at (set (?D @ [?p PDind]))) i3 s3"
  proof (cases "?p PDind = 0")
    case True
    then have z: "i_dindirect (in_d ?i2) = 0" using d2 by (simp add: signed_eq_0_iff)
    have le: "int ?nb - 10 - 2048 \<le> 0" using B(7) True by fastforce
    have "free_dindirect [0..<2048] (int ?nb - 10 - 2048) 0 ?i2 s2 b = Inr (?i2, s2)" for b
      using le by (subst upt_conv_Cons) simp_all
    then show ?thesis
      using that [of ?i2 s2] V3z [OF True] frees_refl [OF sz2] z super_wfD(10) [OF sz2, of 0]
      by (simp add: read_block_eq testfs_free_block_from_inode_def)
  next
    case nz: False
    have has: "has_block s (nat (?p PDind))" using tree_wf_has [OF wf, of PDind] nz by simp
    note RD = frees_read [OF f1(2) [folded set_map] af _ nz has]
    have rd1: "has_block s1 (nat (?p PDind))" "blk s1 (nat (?p PDind)) = blk s (nat (?p PDind))" by (rule RD, simp)+
    note RD2 = frees_read [OF f2(2) af1 _ nz rd1(1)]
    have rd: "has_block s2 (nat (?p PDind))" "blk s2 (nat (?p PDind)) = blk s1 (nat (?p PDind))" by (rule RD2, simp)+
    have fv: "freeable s2 (?p PDind)" using af2 by (simp add: all_freeable_def)
    have row: "has_block s2 (nat (?p (PD1 m)))" "blk s2 (nat (?p (PD1 m))) = blk s (nat (?p (PD1 m)))"
      if m: "m < 2048" "?p (PD1 m) \<noteq> 0" for m
    proof -
      have mem: "?p (PD1 m) \<in> set ?D" using m(1) by (auto simp: drow_def intro!: bexI [of _ m])
      have h: "has_block s (nat (?p (PD1 m)))" using tree_wf_has [OF wf, of "PD1 m"] m by simp
      have m1: "?p (PD1 m) \<in> set (map ?f [min ?nb 10..<10] @ ?V2 @ ?D @ [?p PDind])"
        and m2: "?p (PD1 m) \<in> set (?D @ [?p PDind])" using mem unfolding set_append by blast+
      note R1 = frees_read [OF f1(2) [folded set_map] af m1 m(2) h]
      note R2 = frees_read [OF f2(2) af1 m2 m(2) R1(1)]
      show "has_block s2 (nat (?p (PD1 m)))" "blk s2 (nat (?p (PD1 m))) = blk s (nat (?p (PD1 m)))"
        using R2 R1(2) by simp_all
    qed
    have "\<exists>i' t. free_dindirect [0..<2048] (int ?nb - 10 - 2048) 0 ?i2 s2 (blk s2 (nat (?p PDind))) = Inr (i', t) \<and>
        frees ?i2 s2 (blocks_at (set ?D)) i' t"
    proof (rule free_dindirect_eq [OF sz2 blk_len [OF rd(1)]])
      show "get_int (blk s2 (nat (?p PDind))) m = ?p (PD1 m)" if "m < 2048" for m
        using nz rd1(2) rd(2) by (simp add: entry_def)
      show "get_int (blk s2 (nat (?p (PD1 m)))) j = ?p (PD2 m j)" if "m < 2048" "?p (PD1 m) \<noteq> 0" for m j
        using that row(2) [OF that] by (simp add: entry_def [of s "entry _ _ _"])
      show "?p (PD2 m j) = 0" if "?p (PD1 m) = 0" for m j using that by simp
      show "all_freeable s2 ?D" by (rule all_freeable_append(1) [OF af2])
      show "2048 * int m < int ?nb - 10 - 2048" if "m < 2048" "?p (PD1 m) \<noteq> 0" for m
        using B(5) [OF that] by simp
      show "2048 * int m + int j < int ?nb - 10 - 2048" if "m < 2048" "j < 2048" "?p (PD2 m j) \<noteq> 0" for m j
        using B(6) [OF that] by simp
    qed (use row(1) B(4) [OF nz] in simp_all)
    then obtain i3 s3 where f: "free_dindirect [0..<2048] (int ?nb - 10 - 2048) 0 ?i2 s2 (blk s2 (nat (?p PDind))) = Inr (i3, s3)"
        "frees ?i2 s2 (blocks_at (set ?D)) i3 s3" by blast
    have "freeable s3 (?p PDind)"
      using all_freeable_append(3) [OF af2 f(2)] by (simp add: all_freeable_def)
    then obtain i4 s4 where g: "testfs_free_block_from_inode i3 s3 (?p PDind) = Inr (i4, s4)"
        "frees i3 s3 (blocks_at {?p PDind}) i4 s4"
      using free_from_inode [OF frees_wf [OF f(2)]] by blast
    show ?thesis
    proof (rule that [of i4 s4])
      show "frees ?i2 s2 (blocks_at (set (?D @ [?p PDind]))) i4 s4"
        using frees_trans [OF f(2) g(2)] by (simp add: blocks_at_Un [symmetric])
      have p: "?p PDind = sint (i_dindirect ?d)" by simp
      have "0 \<le> int ?nb - 10 - 2048" using B(4) [OF nz] by simp
      moreover have "i_dindirect (in_d i3) = i_dindirect ?d" using f(2) d2 by (simp add: frees_def)
      ultimately show "(if 0 \<le> int ?nb - int NR_DIRECT_BLOCKS - int NR_INDIRECT_BLOCKS
        then rbind (read_blocks s2 (sint (i_dindirect (in_d ?i2))) 1) (\<lambda>block.
          rbind (free_dindirect [0..<NR_INDIRECT_BLOCKS] (int ?nb - int NR_DIRECT_BLOCKS - int NR_INDIRECT_BLOCKS) 0 ?i2 s2 block) (\<lambda>(i, s).
          rbind (testfs_free_block_from_inode i s (sint (i_dindirect (in_d i)))) (\<lambda>(i, s).
          Inr (i\<lparr>in_d := (in_d i)\<lparr>i_dindirect := 0\<rparr>\<rparr>, s))))
        else Inr (?i2, s2)) = Inr (i4\<lparr>in_d := (in_d i4)\<lparr>i_dindirect := 0\<rparr>\<rparr>, s4)"
        using freeable_read [OF sz2 fv nz rd(1), unfolded p] f(1) g(1) d2 by simp
    qed
  qed
  let ?i3 = "i3\<lparr>in_d := (in_d i3)\<lparr>i_dindirect := 0\<rparr>\<rparr>"
  let ?D1 = "blocks_at (set (map ?f ?ks))" and ?D2 = "blocks_at (set ?V2)" and ?D3 = "blocks_at (set (?D @ [?p PDind]))"
  have eq: "testfs_free_blocks i s = Inr (0, set_dirty (?i3\<lparr>in_d := (in_d ?i3)\<lparr>i_size := 0\<rparr>\<rparr>), s3)"
    unfolding testfs_free_blocks_def Let_def sint_add_8191 [OF fw] nat_int
    by (simp only: f1(1) f2(1) f3(1) rbind_Inr prod.case)
  have fd: "freed s ?D1 s1" "freed s1 ?D2 s2" "freed s2 ?D3 s3" "finite ?D1" "finite ?D2" "finite ?D3"
    using f1(2) f2(2) f3(2) unfolding frees_def set_map by blast+
  have h: "block_count (in_d ?i1) = block_count (in_d i1)" "block_count (in_d ?i2) = block_count (in_d i2)" by simp_all
  have bcs: "block_count (in_d i1) = block_count ?d - of_nat (card ?D1)"
    "block_count (in_d i2) = block_count (in_d i1) - of_nat (card ?D2)"
    "block_count (in_d i3) = block_count (in_d i2) - of_nat (card ?D3)"
    using frees_fields(1) [OF f1(2) [folded set_map]] frees_fields(1) [OF f2(2)] frees_fields(1) [OF f3(2)]
    unfolding h by blast+
  have oth: "i_type (in_d i3) = i_type ?d" "i_block_nr (in_d i3) = nrs" "i_indirect (in_d i3) = 0"
    "i_nr i3 = i_nr i" "i_count i3 = i_count i"
    using frees_fields(2-7) [OF f1(2)] frees_fields(2-7) [OF f2(2)] frees_fields(2-7) [OF f3(2)] by simp_all
  have fr: "freed s (?D1 \<union> ?D2 \<union> ?D3) s3"
    by (rule freed_trans [OF freed_trans [OF fd(1,2)] fd(3)])
  have own: "?D1 \<union> ?D2 \<union> ?D3 = owned s ?d"
  proof -
    have "owned s ?d = blocks_at (set (map ?f ?ks @ ?V2 @ ?D @ [?p PDind]))"
      unfolding owned_all_paths V
    proof (rule blocks_at_cong)
      fix w :: int assume w: "w \<noteq> 0"
      have "w \<in> set (map ?f [0..<10]) \<longleftrightarrow> w \<in> set (map ?f ?ks)"
        using w B(1) by auto
      then show "w \<in> set (map ?f [0..<10] @ ?V2 @ ?D @ [?p PDind]) \<longleftrightarrow> w \<in> set (map ?f ?ks @ ?V2 @ ?D @ [?p PDind])"
        unfolding set_append by blast
    qed
    then show ?thesis unfolding set_append blocks_at_Un by blast
  qed
  have disj: "card (owned s ?d) = card ?D1 + card ?D2 + card ?D3"
  proof -
    have "?D2 \<inter> ?D1 = {}" "?D3 \<inter> (?D1 \<union> ?D2) = {}"
      using fd(1-3) unfolding freed_def by blast+
    then show ?thesis
      using fd(4-6) unfolding own [symmetric] by (metis Int_commute card_Un_disjoint finite_Un)
  qed
  have bc: "block_count ?d = of_nat (card (owned s ?d))"
  proof -
    have "block_count ?d = word_of_int (sint (block_count ?d))" by simp
    then show ?thesis unfolding tree_wf_count [OF wf] by simp
  qed
  let ?i4 = "set_dirty (?i3\<lparr>in_d := (in_d ?i3)\<lparr>i_size := 0\<rparr>\<rparr>)"
  have bc0: "block_count (in_d i3) = 0" unfolding bcs bc disj by simp
  have d4: "in_d ?i4 = zero_dinode\<lparr>i_type := i_type ?d\<rparr>"
    by (intro dinode.equality) (simp_all add: zero_dinode_def oth nrs bc0)
  show thesis by (rule that [OF eq fr [unfolded own] d4]) (simp_all add: oth)
qed

end
