(* ===== verification/Read_Write_Spec.thy ===== *)
theory Read_Write_Spec
  imports File_Free
begin

unbundle bit_operations_syntax

text \<open>
  The properties of fs/read_write.c: reading, writing and freeing over the invariant \<open>file_wf\<close> of a file, and where
  the code does less than it means to.
\<close>

section \<open>Writing keeps the invariant\<close>

definition empty_dinode :: "s32 \<Rightarrow> dinode" where
  "empty_dinode ty = zero_dinode\<lparr>i_type := ty\<rparr>"

lemma ptr_empty [simp]: "vpath p \<Longrightarrow> ptr s (empty_dinode ty) p = 0"
  by (cases p) (simp_all add: empty_dinode_def zero_dinode_def entry_def)

lemma empty_sets [simp]: "owned s (empty_dinode ty) = {}" "mapped s (empty_dinode ty) = {}"
  by (auto simp: owned_def mapped_def)

lemma file_wf_empty [simp]: "file_wf s (empty_dinode ty)"
  unfolding file_wf_def tree_wf_def
  by (auto simp: dinode_wf_def simp del: ptr.simps) (simp_all add: empty_dinode_def zero_dinode_def)

lemma fsize_empty [simp]: "fsize (empty_dinode ty) = 0"
  by (simp add: fsize_def empty_dinode_def zero_dinode_def)

lemma fbyte_empty: "off < MAX_FILE_BYTES \<Longrightarrow> fbyte s (empty_dinode ty) off = 0"
  by (simp add: fbyte_def fblock_def zero_block_def less_mult_imp_div_less del: ptr.simps)

lemma mapped_not_dhole: "L \<in> mapped s d \<Longrightarrow> \<not> dhole s d L"
  by (cases "L < 2058") (auto simp: dhole_def mapped_def leaf_def)

lemma ptr_size [simp]: "ptr s (d\<lparr>i_size := z\<rparr>) p = ptr s d p"
  by (rule ptr_dinode) simp_all

lemma sets_size [simp]:
  "owned s (d\<lparr>i_size := z\<rparr>) = owned s d" "mapped s (d\<lparr>i_size := z\<rparr>) = mapped s d"
  "foreign s (d\<lparr>i_size := z\<rparr>) = foreign s d" "fbyte s (d\<lparr>i_size := z\<rparr>) off = fbyte s d off"
  by (simp_all add: owned_def mapped_def foreign_def fbyte_def fblock_def)

lemma tree_wf_size [simp]: "tree_wf X s (d\<lparr>i_size := z\<rparr>) = tree_wf X s d"
  by (simp add: tree_wf_def dinode_wf_def)

lemma grow_size_in_d:
  assumes "0 < n" "fsize (in_d i) \<le> MAX_FILE_BYTES" "sint (i_size (in_d i)) = int (fsize (in_d i))"
    "start + n \<le> MAX_FILE_BYTES"
  shows "in_d (grow_size i (int start) n) =
      (in_d i)\<lparr>i_size := word_of_int (int (max (fsize (in_d i)) (start + n)))\<rparr>"
    "sint (i_size (in_d (grow_size i (int start) n))) = int (max (fsize (in_d i)) (start + n))"
    "is_dirty (grow_size i (int start) n)"
    "i_nr (grow_size i (int start) n) = i_nr i" "i_count (grow_size i (int start) n) = i_count i"
proof -
  have c: "c_long (int start + c_long (int n)) = int start + int n" using assms(4) by (simp add: c_long_id)
  have m: "max (int (fsize (in_d i))) (int start + int n) = int (max (fsize (in_d i)) (start + n))" by simp
  show d: "in_d (grow_size i (int start) n) =
      (in_d i)\<lparr>i_size := word_of_int (int (max (fsize (in_d i)) (start + n)))\<rparr>"
    using assms(1) by (simp only: grow_size_def assms(3) c m) simp
  have "sint (word_of_int (int (max (fsize (in_d i)) (start + n))) :: 64 word) =
      int (max (fsize (in_d i)) (start + n))"
    using assms(2,4) by (intro sint64_of_int) simp_all
  then show "sint (i_size (in_d (grow_size i (int start) n))) = int (max (fsize (in_d i)) (start + n))"
    unfolding d by simp
qed (simp_all add: grow_size_def)

lemma blocks_of_le: "L \<in> blocks_of a n \<Longrightarrow> L * BLOCK_SIZE < a + n"
  by (auto simp: blocks_of_def intro: le_less_trans [OF div_times_less_eq_dividend])

lemma last_block_of: "0 < n \<Longrightarrow> (a + n - 1) div BLOCK_SIZE \<in> blocks_of a n"
  unfolding blocks_of_def by (rule imageI) simp

lemma wrote_file_wf:
  assumes fw: "file_wf s (in_d i)" and w: "wrote i s start src c i' t" and src: "src \<noteq> []"
    and max: "start + length src \<le> MAX_FILE_BYTES"
  shows "file_wf t (in_d (grow_size i' (int start) (length src)))"
    "fsize (in_d (grow_size i' (int start) (length src))) = max (fsize (in_d i)) (start + length src)"
proof -
  let ?g = "in_d (grow_size i' (int start) (length src))"
  obtain F where st: "file_step i s (blocks_of start (length src)) F c i' t" using w unfolding wrote_def by blast
  have sz: "i_size (in_d i') = i_size (in_d i)" using st by (simp add: file_step_def)
  then have fs: "fsize (in_d i') = fsize (in_d i)" by (simp add: fsize_def)
  have n: "0 < length src" using src by simp
  note G = grow_size_in_d [OF n, of i' start, unfolded fs, OF file_wfD(3) [OF fw] _ max]
  have sI: "sint (i_size (in_d i')) = int (fsize (in_d i))" using file_wfD(2) [OF fw] sz by simp
  let ?m = "max (fsize (in_d i)) (start + length src)"
  have g: "?g = (in_d i')\<lparr>i_size := word_of_int (int ?m)\<rparr>" and gs: "sint (i_size ?g) = int ?m"
    using G(1,2) [OF sI] by simp_all
  show fm: "fsize ?g = ?m" using gs by (simp add: fsize_def)
  have mp: "mapped t ?g = mapped s (in_d i) \<union> blocks_of start (length src)"
    using wroteD(3) [OF w] unfolding g by simp
  have "int (L * BLOCK_SIZE) < int ?m" if "L \<in> mapped t ?g" for L
    using that file_wfD(4) [OF fw, of L] blocks_of_le [of L start "length src"] unfolding mp by auto
  moreover have "nat ((int ?m - 1) div int BLOCK_SIZE) \<in> mapped t ?g"
  proof -
    have "nat ((int ?m - 1) div int BLOCK_SIZE) = (?m - 1) div BLOCK_SIZE"
      using n by (simp add: nat_div_distrib nat_diff_distrib)
    moreover have "(?m - 1) div BLOCK_SIZE \<in> mapped t ?g"
    proof (cases "fsize (in_d i) \<le> start + length src")
      case True
      then show ?thesis using last_block_of [OF n, of start] unfolding mp by (simp add: max_def)
    next
      case False
      then show ?thesis using file_wfD(5) [OF fw] unfolding mp by (simp add: max_def)
    qed
    ultimately show ?thesis by simp
  qed
  moreover have "\<exists>L\<in>mapped t ?g. leads_to p (leaf L)" if "vpath p" "inner p" "ptr t ?g p \<noteq> 0" for p
  proof -
    have "ptr t (in_d i') p \<noteq> 0" using that(3) unfolding g by simp
    then have "ptr s (in_d i) p \<noteq> 0 \<or> (\<exists>L\<in>blocks_of start (length src). leads_to p (leaf L))"
      using st that(1,2) unfolding file_step_def by blast
    then show ?thesis using file_wfD(6) [OF fw that(1,2)] unfolding mp by blast
  qed
  moreover have "tree_wf {} t ?g" using wroteD(2) [OF w] unfolding g by simp
  ultimately show "file_wf t ?g" unfolding file_wf_def gs using max file_wfD(3) [OF fw] by auto
qed

section \<open>Properties\<close>

definition new_inode :: "int \<Rightarrow> inode" where
  "new_inode nr = \<lparr>in_d = empty_dinode I_FILE, i_flags = 0, i_nr = nr, i_count = 1\<rparr>"

lemma new_inode_in_d [simp]: "in_d (new_inode nr) = empty_dinode I_FILE"
  by (simp add: new_inode_def)

lemma testfs_write_data_cases:
  assumes "super_wf s" "file_wf s (in_d i)" "0 < sz" "sz \<le> length buf" "sz + BLOCK_SIZE \<le> 2 ^ 31"
    "start + sz \<le> MAX_FILE_BYTES" "room s (write_room start sz)"
  obtains i' t where "testfs_write_data i s buf (int start) sz st = Inr (int sz, i', t)"
    "super_wf t" "file_wf t (in_d i')" "fsize (in_d i') = max (fsize (in_d i)) (start + sz)"
    "mapped t (in_d i') = mapped s (in_d i) \<union> blocks_of start sz"
    "\<And>off. start \<le> off \<Longrightarrow> off < start + sz \<Longrightarrow> fbyte t (in_d i') off = buf ! (off - start)"
    "\<And>off. off < MAX_FILE_BYTES \<Longrightarrow> \<not> (start \<le> off \<and> off < start + sz) \<Longrightarrow>
      off div BLOCK_SIZE < 2058 \<or> off div BLOCK_SIZE \<in> mapped s (in_d i) \<or>
        off div BLOCK_SIZE \<notin> blocks_of start sz \<Longrightarrow>
      fbyte t (in_d i') off = fbyte s (in_d i) off"
    "foreign t (in_d i') = foreign s (in_d i)" "used_inodes t = used_inodes s"
    "same_blocks ({18..<DATA_START} \<union> (+) DATA_START ` foreign s (in_d i)) s t"
    "i_nr i' = i_nr i" "i_count i' = i_count i" "i_type (in_d i') = i_type (in_d i)" "is_dirty i'"
    "max_fs_blocks (sb_d t) = max_fs_blocks (sb_d s)"
    "card (used_blocks t) \<le> card (used_blocks s) + write_room start sz"
proof -
  note fw = assms(2)
  obtain i1 t where r: "testfs_write_data i s buf (int start) sz st = Inr (int sz, grow_size i1 (int start) sz, t)"
    and w: "wrote i s start (take sz buf) (write_room start sz) i1 t"
    using testfs_write_data_eq [OF assms(1) file_wfD(1) [OF fw] assms(3-7), of st] by blast
  have len: "length (take sz buf) = sz" and ne: "take sz buf \<noteq> []" using assms(3,4) by auto
  obtain F where st: "file_step i s (blocks_of start sz) F (write_room start sz) i1 t"
    using w len unfolding wrote_def by auto
  have sz: "i_size (in_d i1) = i_size (in_d i)" using st by (simp add: file_step_def)
  then have f: "fsize (in_d i1) = fsize (in_d i)" by (simp add: fsize_def)
  have sI: "sint (i_size (in_d i1)) = int (fsize (in_d i))" using file_wfD(2) [OF fw] sz by simp
  note G = grow_size_in_d [OF assms(3), of i1 start, unfolded f, OF file_wfD(3) [OF fw] sI assms(6)]
  note W = wrote_file_wf [OF fw w ne, unfolded len, OF assms(6)]
  have B: "if start \<le> off \<and> off < start + sz then fbyte t (in_d i1) off = take sz buf ! (off - start)
      else off div BLOCK_SIZE < 2058 \<or> off div BLOCK_SIZE \<in> mapped s (in_d i) \<or>
          off div BLOCK_SIZE \<notin> blocks_of start sz \<longrightarrow>
        fbyte t (in_d i1) off = fbyte s (in_d i) off" if "off < MAX_FILE_BYTES" for off
    using w that unfolding wrote_def len by blast
  show thesis
  proof (rule that [OF r wroteD(1) [OF w] W])
    show "fbyte t (in_d (grow_size i1 (int start) sz)) off = buf ! (off - start)"
      if "start \<le> off" "off < start + sz" for off
    proof -
      have "off < MAX_FILE_BYTES" using that(2) assms(6) by simp
      then have "fbyte t (in_d i1) off = take sz buf ! (off - start)" using B [of off] that by simp
      then show ?thesis using that unfolding G(1) by simp
    qed
    show "fbyte t (in_d (grow_size i1 (int start) sz)) off = fbyte s (in_d i) off"
      if off: "off < MAX_FILE_BYTES" "\<not> (start \<le> off \<and> off < start + sz)"
        "off div BLOCK_SIZE < 2058 \<or> off div BLOCK_SIZE \<in> mapped s (in_d i) \<or>
          off div BLOCK_SIZE \<notin> blocks_of start sz" for off
      using B [OF off(1)] off(3) unfolding G(1) if_not_P [OF off(2)] by simp
    show "mapped t (in_d (grow_size i1 (int start) sz)) = mapped s (in_d i) \<union> blocks_of start sz"
      using wroteD(3) [OF w] unfolding G(1) len by simp
    show "foreign t (in_d (grow_size i1 (int start) sz)) = foreign s (in_d i)"
      using st unfolding G(1) by (simp add: file_step_def)
    show "i_type (in_d (grow_size i1 (int start) sz)) = i_type (in_d i)"
      using st unfolding G(1) by (simp add: file_step_def)
  qed (use st G in \<open>simp_all add: file_step_def\<close>)
qed

lemma testfs_read_data_file:
  assumes "super_wf s" "file_wf s (in_d i)" "start \<le> fsize (in_d i)" "start < MAX_FILE_BYTES"
    "n = min sz (fsize (in_d i) - start)" "n \<le> length buf" "n + BLOCK_SIZE \<le> 2 ^ 31" "start + sz < 2 ^ 63"
    "\<And>L. L \<in> blocks_of start n \<Longrightarrow> \<not> dhole s (in_d i) L"
  shows "testfs_read_data i s buf (int start) sz st = Inr (int n, blit buf 0 (fbytes s (in_d i) start n))"
proof (rule testfs_read_data_eq [OF assms(1) file_wfD(1) [OF assms(2)] file_wfD(2) [OF assms(2)]
      assms(3) file_wfD(3) [OF assms(2)] assms(4-8)])
  fix L assume n: "0 < n" and L: "start div BLOCK_SIZE \<le> L" "L * BLOCK_SIZE < start + n"
  show "\<not> dhole s (in_d i) L"
  proof (cases "start \<le> L * BLOCK_SIZE")
    case True
    then have "L \<in> blocks_of start n"
      unfolding blocks_of_def using L(2) by (intro image_eqI [of _ _ "L * BLOCK_SIZE"]) simp_all
    then show ?thesis by (rule assms(9))
  next
    case False
    then have e: "L = start div BLOCK_SIZE" using L(1) by (metis div_le_mono div_mult_self_is_m le_antisym nat_le_linear zero_less_numeral)
    show ?thesis unfolding e using n by (intro assms(9)) (simp add: blocks_of_def)
  qed
qed

text \<open>Reading: from an offset inside the file, \<open>testfs_read_data\<close> returns the number of bytes left up to the size
  asked for, and puts exactly those bytes of the file into the buffer, across direct, indirect and
  double indirect blocks and with zeros for the blocks that are not allocated (but see \<open>dhole\<close>).\<close>

theorem testfs_read_data_spec:
  assumes "super_wf s" "file_wf s (in_d i)" "start \<le> fsize (in_d i)" "start < MAX_FILE_BYTES"
    "n = min sz (fsize (in_d i) - start)" "n \<le> length buf" "n + BLOCK_SIZE \<le> 2 ^ 31" "start + sz < 2 ^ 63"
    "\<And>L. L \<in> blocks_of start n \<Longrightarrow> \<not> dhole s (in_d i) L"
  shows "testfs_read_data i s buf (int start) sz st = Inr (int n, blit buf 0 (fbytes s (in_d i) start n))"
  by (rule testfs_read_data_file [OF assms])

theorem testfs_read_data_spec_witness:
  "testfs_read_data (new_inode 3) (fresh_fs 5) [1, 2] 0 2 [] = Inr (0, [1, 2])"
  using testfs_read_data_spec [OF fresh_fs_wf(1) [of 5], of "new_inode 3" 0 0 2 "[1, 2]" "[]"]
  by (simp add: blocks_of_def fbytes_def blit_def)

text \<open>C3.
  Writing: when the file system has room for it, writing inside the largest file succeeds and returns the size;
  the file keeps its invariant, has the bytes of the buffer in the range written and its old
  bytes elsewhere, and its size grows to cover the range. No other file, no inode block
  and no other block of the device changes. Excepted from the old bytes are those outside the range in a block of the double
  indirect part that the write allocates: they were zeros, but \<open>testfs_read_block\<close> leaves
  the double indirect block in the buffer for a hole there (\<open>testfs_read_block_dhole\<close>), so only the range written is specified.\<close>

theorem testfs_write_data_spec:
  assumes "super_wf s" "file_wf s (in_d i)" "0 < sz" "sz \<le> length buf" "sz + BLOCK_SIZE \<le> 2 ^ 31"
    "start + sz \<le> MAX_FILE_BYTES" "room s (write_room start sz)"
  shows "\<exists>i' t. testfs_write_data i s buf (int start) sz st = Inr (int sz, i', t) \<and>
    super_wf t \<and> file_wf t (in_d i') \<and> fsize (in_d i') = max (fsize (in_d i)) (start + sz) \<and>
    (\<forall>off. start \<le> off \<and> off < start + sz \<longrightarrow> fbyte t (in_d i') off = buf ! (off - start)) \<and>
    (\<forall>off<MAX_FILE_BYTES. \<not> (start \<le> off \<and> off < start + sz) \<longrightarrow>
      off div BLOCK_SIZE < 2058 \<or> off div BLOCK_SIZE \<in> mapped s (in_d i) \<or>
        off div BLOCK_SIZE \<notin> blocks_of start sz \<longrightarrow>
      fbyte t (in_d i') off = fbyte s (in_d i) off) \<and>
    foreign t (in_d i') = foreign s (in_d i) \<and>
    same_blocks ({18..<DATA_START} \<union> (+) DATA_START ` foreign s (in_d i)) s t"
  by (rule testfs_write_data_cases [OF assms, of st]) blast

theorem testfs_write_data_spec_witness:
  "\<exists>i' t. testfs_write_data (new_inode 3) (fresh_fs 9) [7, 8] 8191 2 [] = Inr (2, i', t) \<and>
    fsize (in_d i') = 8193 \<and> fbyte t (in_d i') 8192 = 8 \<and> fbyte t (in_d i') 5 = 0"
proof -
  have "room (fresh_fs 9) (write_room 8191 2)" by (simp add: room_fresh write_room_def)
  moreover have "fbyte (fresh_fs 9) (empty_dinode I_FILE) 5 = 0" by (rule fbyte_empty) simp
  ultimately show ?thesis
    using testfs_write_data_spec [OF fresh_fs_wf(1) [of 9], of "new_inode 3" 2 "[7, 8]" 8191 "[]"] by fastforce
qed

text \<open>C2.
  What is written reads back: a write that fits, followed by a read of the same range, returns
  the bytes that were written.\<close>

theorem testfs_write_read_roundtrip:
  assumes "super_wf s" "file_wf s (in_d i)" "0 < sz" "sz \<le> length buf" "sz + BLOCK_SIZE \<le> 2 ^ 31"
    "start + sz \<le> MAX_FILE_BYTES" "room s (write_room start sz)" "sz \<le> length buf'"
  shows "\<exists>i' t. testfs_write_data i s buf (int start) sz st = Inr (int sz, i', t) \<and>
    testfs_read_data i' t buf' (int start) sz st' = Inr (int sz, blit buf' 0 (take sz buf))"
proof -
  obtain i' t where W: "testfs_write_data i s buf (int start) sz st = Inr (int sz, i', t)"
      "super_wf t" "file_wf t (in_d i')" "fsize (in_d i') = max (fsize (in_d i)) (start + sz)"
      "mapped t (in_d i') = mapped s (in_d i) \<union> blocks_of start sz"
      "\<And>off. start \<le> off \<Longrightarrow> off < start + sz \<Longrightarrow> fbyte t (in_d i') off = buf ! (off - start)"
    by (rule testfs_write_data_cases [OF assms(1-7), of st]) blast
  have "testfs_read_data i' t buf' (int start) sz st' = Inr (int sz, blit buf' 0 (fbytes t (in_d i') start sz))"
    using W(3,4) assms(3-6,8) mapped_not_dhole [of _ t "in_d i'"] unfolding W(5)
    by (intro testfs_read_data_file W(2)) (auto simp: max_def min_def)
  moreover have "fbytes t (in_d i') start sz = take sz buf"
    using W(6) assms(4) by (intro nth_equalityI) (simp_all add: fbytes_def)
  ultimately show ?thesis using W(1) by simp
qed

theorem testfs_write_read_roundtrip_witness:
  "\<exists>i' t. testfs_write_data (new_inode 3) (fresh_fs 9) [7, 8] 81919 2 [] = Inr (2, i', t) \<and>
    testfs_read_data i' t [0, 0] 81919 2 [] = Inr (2, [7, 8])"
proof -
  have "room (fresh_fs 9) (write_room 81919 2)" by (simp add: room_fresh write_room_def)
  then show ?thesis
    using testfs_write_read_roundtrip [OF fresh_fs_wf(1) [of 9], of "new_inode 3" 2 "[7, 8]" 81919 "[0, 0]" "[]" "[]"]
    by (simp add: blit_def)
qed

text \<open>C4.
  Freeing a file: \<open>testfs_free_blocks\<close> gives back every block of the file, the indirect blocks included, and
  no other; the inode is left without blocks and with \<open>block_count\<close> and size 0 (so the assertion of
  \<open>testfs_remove_inode\<close> holds), and the blocks of other files are as they were.\<close>

theorem testfs_free_blocks_spec:
  assumes "super_wf s" "file_wf s (in_d i)"
  shows "\<exists>i' t. testfs_free_blocks i s = Inr (0, i', t) \<and> super_wf t \<and>
    in_d i' = empty_dinode (i_type (in_d i)) \<and> used_blocks t = foreign s (in_d i) \<and>
    used_inodes t = used_inodes s \<and>
    same_blocks ({18..<DATA_START} \<union> (+) DATA_START ` foreign s (in_d i)) s t"
proof (rule testfs_free_blocks_eq [OF assms])
  fix i' t assume r: "testfs_free_blocks i s = Inr (0, i', t)" "freed s (owned s (in_d i)) t"
    "in_d i' = zero_dinode\<lparr>i_type := i_type (in_d i)\<rparr>"
  have "same_blocks ({18..<DATA_START} \<union> (+) DATA_START ` foreign s (in_d i)) s t"
    by (rule same_blocks_mono [of "{18..} - (+) DATA_START ` owned s (in_d i)"])
      (use r(2) in \<open>auto simp: freed_def foreign_def\<close>)
  then show ?thesis using r by (auto simp: freed_def foreign_def empty_dinode_def)
qed

theorem testfs_free_blocks_spec_witness:
  "\<exists>(i :: inode) s i' t. testfs_free_blocks i s = Inr (0, i', t) \<and> used_blocks s \<noteq> {} \<and> used_blocks t = {} \<and> fsize (in_d i) = 90002"
proof -
  have r: "room (fresh_fs 9) (write_room 90000 2)" by (simp add: room_fresh write_room_def)
  have fw: "file_wf (fresh_fs 9) (in_d (new_inode 3))" by simp
  have "\<exists>(i :: inode) s. super_wf s \<and> file_wf s (in_d i) \<and> 10 \<in> mapped s (in_d i) \<and> foreign s (in_d i) = {} \<and> fsize (in_d i) = 90002"
  proof (rule testfs_write_data_cases [OF fresh_fs_wf(1) fw _ _ _ _ r, of "[7, 8]" "[]"])
    fix i' :: inode and t assume a: "super_wf t" "file_wf t (in_d i')" "fsize (in_d i') = max (fsize (in_d (new_inode 3))) (90000 + 2)"
      "mapped t (in_d i') = mapped (fresh_fs 9) (in_d (new_inode 3)) \<union> blocks_of 90000 2"
      "foreign t (in_d i') = foreign (fresh_fs 9) (in_d (new_inode 3))"
    have "10 \<in> mapped t (in_d i')" unfolding a(4) blocks_of_def by (intro UnI2 image_eqI [of _ _ 90000]) simp_all
    moreover have "foreign t (in_d i') = {}" using a(5) by (simp add: foreign_def fresh_fs_wf)
    ultimately show ?thesis using a(1-3) by (intro exI [of _ i'] exI [of _ t]) simp
  qed simp_all
  then obtain i :: inode and s where s: "super_wf s" "file_wf s (in_d i)" "10 \<in> mapped s (in_d i)" "foreign s (in_d i) = {}" "fsize (in_d i) = 90002" by blast
  have "ptr s (in_d i) (leaf 10) \<noteq> 0" using s(3) by (simp add: mapped_def)
  then have "used_blocks s \<noteq> {}" using tree_wfD [OF file_wfD(1) [OF s(2)], of "leaf 10"] by (auto simp: leaf_def)
  moreover obtain i' t where "testfs_free_blocks i s = Inr (0, i', t)" "used_blocks t = foreign s (in_d i)"
    using testfs_free_blocks_spec [OF s(1,2)] by blast
  ultimately show ?thesis using s(4,5) by metis
qed

section \<open>Where the code does less than it means to\<close>

lemma no_room_after:
  assumes "sstep s {k} t" "\<not> room s (Suc (Suc 0))"
  shows "\<not> room t (Suc 0)"
  using assms sstep_fresh [OF assms(1)] finite_used_blocks [OF sstep_wf [OF assms(1)]]
  by (auto simp: room_def sstep_def)

text \<open>A hole of the double indirect part does not read as zeros: for a logical block whose indirect block does not
  exist while the file has a double indirect block, \<open>testfs_read_block\<close> reports a block that is not
  allocated (0) but leaves the double indirect block itself in the buffer, which is never all zeros.\<close>

theorem testfs_read_block_dhole:
  assumes "super_wf s" "file_wf s (in_d i)" "L < MAX_FILE_BLOCKS" "dhole s (in_d i) L"
  shows "\<exists>b. testfs_read_block i s (int L) block = Inr (0, b) \<and> b \<noteq> zero_block"
proof -
  let ?d = "in_d i"
  note wf = file_wfD(1) [OF assms(2)]
  have pd: "ptr s ?d PDind \<noteq> 0" and z: "ptr s ?d (leaf L) = 0"
    using assms(4) by (auto simp: dhole_def leaf_def)
  obtain M where M: "M \<in> mapped s ?d" "leads_to PDind (leaf M)"
    using file_wfD(6) [OF assms(2), of PDind] pd by auto
  then have m: "M < MAX_FILE_BLOCKS" "2058 \<le> M" using leads_to_cases [of PDind M] by (auto simp: mapped_def)
  then have k: "(M - 2058) div 2048 < 2048" by (simp add: less_mult_imp_div_less)
  have "ptr s ?d (PD1 ((M - 2058) div 2048)) \<noteq> 0"
    using M(1) m by (auto simp: mapped_def leaf_def)
  then have "get_int (blk s (nat (ptr s ?d PDind))) ((M - 2058) div 2048) \<noteq> 0"
    using pd by (simp add: entry_def)
  then have "blk s (nat (ptr s ?d PDind)) \<noteq> zero_block" using k by auto
  then show ?thesis
    using testfs_read_block_eq [OF assms(1) wf assms(3), of block] assms(4) z by (simp del: ptr.simps)
qed

lemma blocks_of_1: "blocks_of a 1 = {a div BLOCK_SIZE}"
  by (simp add: blocks_of_def)

text \<open>A file with such a hole: one byte written at the second block of indirect blocks.\<close>

lemma dhole_example:
  obtains i :: inode and s where "super_wf s" "file_wf s (in_d i)" "dhole s (in_d i) 2058"
proof -
  let ?a = "4106 * BLOCK_SIZE"
  have r: "room (fresh_fs 9) (write_room ?a 1)" by (simp add: room_fresh write_room_def)
  have fw: "file_wf (fresh_fs 9) (in_d (new_inode 3))" by simp
  have "\<exists>(i :: inode) t. super_wf t \<and> file_wf t (in_d i) \<and> mapped t (in_d i) = {} \<union> blocks_of ?a 1"
  proof (rule testfs_write_data_cases [OF fresh_fs_wf(1) fw _ _ _ _ r, of "[7]" "[]"])
    fix i' :: inode and t assume a: "super_wf t" "file_wf t (in_d i')"
      "mapped t (in_d i') = mapped (fresh_fs 9) (in_d (new_inode 3)) \<union> blocks_of ?a 1"
    then show ?thesis by (intro exI [of _ i'] exI [of _ t]) simp
  qed simp_all
  then obtain i :: inode and t where W: "super_wf t" "file_wf t (in_d i)" "mapped t (in_d i) = blocks_of ?a 1" by auto
  have mp: "mapped t (in_d i) = {4106}" unfolding W(3) blocks_of_1 by simp
  have "leaf 4106 = PD2 1 0" by (simp add: leaf_def)
  moreover have "4106 \<in> mapped t (in_d i)" unfolding mp by simp
  ultimately have "ptr t (in_d i) (PD2 1 0) \<noteq> 0" unfolding mapped_def by simp
  then have "ptr t (in_d i) PDind \<noteq> 0" by (auto simp: entry_def)
  moreover have "ptr t (in_d i) (PD1 0) = 0"
  proof (rule ccontr)
    assume "ptr t (in_d i) (PD1 0) \<noteq> 0"
    then have "leads_to (PD1 0) (leaf 4106)" using file_wfD(6) [OF W(2), of "PD1 0"] mp by simp
    then show False by (simp add: leaf_def)
  qed
  ultimately show thesis using that W(1,2) by (simp add: dhole_def)
qed

theorem testfs_read_block_dhole_witness:
  "\<exists>i s b. testfs_read_block i s 2058 zero_block = Inr (0, b) \<and> b \<noteq> zero_block"
proof (rule dhole_example)
  fix i :: inode and s assume a: "super_wf s" "file_wf s (in_d i)" "dhole s (in_d i) 2058"
  have "(2058 :: nat) < MAX_FILE_BLOCKS" by simp
  then show ?thesis using testfs_read_block_dhole [OF a(1,2), of 2058 zero_block] a(3) by auto
qed

text \<open>When the file system has one block left and a file needs its indirect block and a data
  block, \<open>testfs_allocate_block\<close> gives the indirect block back but leaves its number in the inode: the inode
  ends up pointing to a block that is free, which the next file can be given.\<close>

theorem testfs_allocate_block_dangling:
  assumes "super_wf s" "file_wf s (in_d i)" "10 \<le> L" "L < 2058" "i_indirect (in_d i) = 0"
    "room s 1" "\<not> room s 2"
  shows "\<exists>i' t k. testfs_allocate_block i s (int L) block = Inr (- ENOSPC, i', t, zero_block) \<and>
    sint (i_indirect (in_d i')) = int (DATA_START + k) \<and> k \<notin> used_blocks t \<and> \<not> tree_wf {} t (in_d i')"
proof -
  note wf = file_wfD(1) [OF assms(2)]
  have z: "ptr s (in_d i) (leaf L) = 0" using assms(3-5) by (simp add: leaf_def)
  have R: "testfs_read_block i s (int L) block = Inr (0, zero_block)"
    using testfs_read_block_eq [OF assms(1) wf, of L block] assms(4) z
    by (simp add: dhole_def fblock_def del: ptr.simps)
  obtain k t1 where a1: "testfs_alloc_block_for_inode i s = Inr (int (DATA_START + k), bump i, t1)"
    and step1: "sstep s {k} t1"
    by (rule alloc_for_inode_room [OF assms(1), of i]) (use assms(6) in auto)
  let ?i1 = "(bump i)\<lparr>in_d := (in_d (bump i))\<lparr>i_indirect := word_of_int (int (DATA_START + k))\<rparr>\<rparr>"
  have k: "k < NR_FREEMAP_BLOCKS" "k \<in> used_blocks t1"
    using sstep_bound [OF step1] sstep_used [OF step1] by auto
  have w: "sint (word_of_int (int (DATA_START + k)) :: 32 word) = int (DATA_START + k)"
    using k by (intro sint32_of_int) simp_all
  have "\<not> room t1 (Suc 0)" using no_room_after [OF step1] assms(7) by (simp add: numeral_2_eq_2)
  then have a2: "testfs_alloc_block_for_inode ?i1 t1 = Inr (- ENOSPC, ?i1, t1)"
    by (rule alloc_for_inode_no_room [OF sstep_wf [OF step1]])
  have "freeable t1 (int (DATA_START + k))" using k(2) by (auto simp: freeable_def)
  then obtain i2 t where f: "testfs_free_block_from_inode ?i1 t1 (int (DATA_START + k)) = Inr (i2, t)"
      "frees ?i1 t1 (blocks_at {int (DATA_START + k)}) i2 t"
    using free_from_inode [OF sstep_wf [OF step1], where i = ?i1] by blast
  have "nat (int L - 10) < 2048" using assms(3,4) by simp
  then have "testfs_allocate_block i s (int L) block = Inr (- ENOSPC, i2, t, zero_block)"
    using R a1 a2 f(1) w assms(3-5)
    by (simp add: testfs_allocate_block_def allocate_indirect_def allocate_indirect_leaf_def Let_def)
  moreover have ind: "sint (i_indirect (in_d i2)) = int (DATA_START + k)"
    using frees_fields(4) [OF f(2)] w by simp
  moreover have "k \<notin> used_blocks t" using frees_used [OF f(2)] by (simp add: blocks_at_def)
  moreover from this have "\<not> tree_wf {} t (in_d i2)"
  proof (rule contrapos_nn)
    assume "tree_wf {} t (in_d i2)"
    then obtain l where "l \<in> used_blocks t" "ptr t (in_d i2) PInd = int (DATA_START + l)"
      using tree_wfD [of "{}" t "in_d i2" PInd] ind by auto
    then show "k \<in> used_blocks t" using ind by simp
  qed
  ultimately show ?thesis by blast
qed

theorem testfs_allocate_block_dangling_witness:
  "\<exists>i' t k. testfs_allocate_block (new_inode 3) (fresh_fs 1) 10 [] = Inr (- ENOSPC, i', t, zero_block) \<and>
    sint (i_indirect (in_d i')) = int (DATA_START + k) \<and> k \<notin> used_blocks t"
proof -
  have "room (fresh_fs 1) 1" "\<not> room (fresh_fs 1) 2" by (simp_all add: room_fresh)
  moreover have "i_indirect (in_d (new_inode 3)) = 0" by (simp add: empty_dinode_def zero_dinode_def)
  ultimately show ?thesis
    using testfs_allocate_block_dangling [OF fresh_fs_wf(1) [of 1], of "new_inode 3" 10 "[]"] by auto
qed

text \<open>A write that runs out of space in its last block reports -ENOSPC, but sets the size of the file to
  the largest size a file can have, whatever was written: one byte fitting into the last free block of the
  file system makes a file of 34376597504 bytes.\<close>

theorem testfs_write_data_tail_size:
  assumes "super_wf s" "in_d i = empty_dinode ty" "room s 1" "\<not> room s 2"
  shows "\<exists>i' t. testfs_write_data i s [a, b] 8191 2 st = Inr (- ENOSPC, i', t) \<and>
    fsize (in_d i') = MAX_FILE_BYTES \<and> mapped t (in_d i') = {0}"
proof -
  let ?d = "in_d i"
  have fw: "file_wf s ?d" unfolding assms(2) by simp
  note wf = file_wfD(1) [OF fw]
  have z: "ptr s ?d (leaf L) = 0" if "L < MAX_FILE_BLOCKS" for L unfolding assms(2) using that by simp
  have d0: "i_block_nr ?d = replicate 10 0" "i_indirect ?d = 0" "i_dindirect ?d = 0"
    unfolding assms(2) by (simp_all add: empty_dinode_def zero_dinode_def)
  obtain r i1 t1 where A: "allocate_direct i s 0 = Inr (r, i1, t1)" "alloc_ok i s 0 r i1 t1"
    using allocate_direct_ok [OF assms(1) wf, of 0] z [of 0] assms(3) by auto
  obtain N k where N: "k \<in> N" "r = int (DATA_START + k)" "sstep s N t1" "tree_wf {leaf 0} t1 (in_d i1)"
      "ptr t1 (in_d i1) (leaf 0) = r"
      "\<And>M. M < MAX_FILE_BLOCKS \<Longrightarrow> M \<noteq> 0 \<Longrightarrow> ptr t1 (in_d i1) (leaf M) = ptr s ?d (leaf M)"
    using A(2) unfolding alloc_ok_def by auto
  have R0: "testfs_read_block i s 0 st = Inr (0, zero_block)"
    using testfs_read_block_eq [OF assms(1) wf, of 0 st] z [of 0]
    by (simp add: dhole_def fblock_def del: ptr.simps)
  have alloc0: "testfs_allocate_block i s 0 st = Inr (r, i1, t1, zero_block)"
    using R0 A(1) by (simp add: testfs_allocate_block_def)
  let ?b = "blit zero_block 8191 [a]"
  have rn: "ptr t1 (in_d i1) (leaf 0) \<noteq> 0" "0 < r" using N(2,5) by simp_all
  note W = write_leaf [OF sstep_wf [OF N(3)] N(4) subset_refl _ rn(1) _ refl, of ?b, unfolded N(5)]
  let ?u = "set_blk t1 (nat r) ?b"
  have w: "write_blocks t1 ?b r (Suc 0) = Inr ?u" and su: "sstep t1 {} ?u" and tu: "tree_wf {} ?u (in_d i1)"
    using W(1-3) by simp_all
  have mu: "mapped ?u (in_d i1) = {0}"
  proof -
    have "mapped t1 (in_d i1) = {0}" using N(5,6) rn z by (auto simp: mapped_def)
    then show ?thesis using W(5) by simp
  qed
  have N1: "N = {k}"
  proof -
    obtain k' t' where a: "testfs_alloc_block_for_inode i s = Inr (int (DATA_START + k'), bump i, t')" "sstep s {k'} t'"
      by (rule alloc_for_inode_room [OF assms(1), of i]) (use assms(3) in auto)
    then have "t1 = t'" using A(1) d0 by (auto simp: allocate_direct_def)
    then have "used_blocks s \<union> N = used_blocks s \<union> {k'}" using sstep_used [OF N(3)] sstep_used [OF a(2)] by simp
    then show ?thesis using sstep_fresh [OF N(3)] sstep_fresh [OF a(2)] N(1) by blast
  qed
  have "sstep s {k} ?u" using sstep_trans [OF N(3) su] N1 by simp
  then have nr: "\<not> room ?u (Suc 0)" using no_room_after assms(4) by (simp add: numeral_2_eq_2)
  have "1 \<notin> mapped ?u (in_d i1)" unfolding mu by simp
  then have z1: "ptr ?u (in_d i1) (leaf 1) = 0" by (rule unmapped_null [rotated]) simp
  have R1: "testfs_read_block i1 ?u 1 ?b = Inr (0, zero_block)"
    using testfs_read_block_eq [OF sstep_wf [OF su] tu, of 1 ?b] z1
    by (simp add: dhole_def fblock_def del: ptr.simps)
  have n1: "i_block_nr (in_d i1) ! 1 = 0" using z1 by (simp add: leaf_def signed_eq_0_iff)
  have alloc1: "testfs_allocate_block i1 ?u 1 ?b = Inr (- ENOSPC, i1, ?u, zero_block)"
    using R1 n1 alloc_for_inode_no_room [OF sstep_wf [OF su] nr, of i1]
    by (simp add: testfs_allocate_block_def allocate_direct_def)
  let ?i2 = "set_dirty (i1\<lparr>in_d := (in_d i1)\<lparr>i_size := 34376597504\<rparr>\<rparr>)"
  have rest: "write_rest i1 ?u [a, b] 8191 0 8191 2 1 1 ?b = Inr (- ENOSPC, ?i2, ?u)"
    using alloc1 by (subst write_rest.simps) (simp add: c_int_id del: write_rest.simps)
  have "testfs_write_data i s [a, b] 8191 2 st = Inr (- ENOSPC, ?i2, ?u)"
    using alloc0 rn(2) w rest
    by (simp add: testfs_write_data_def sdiv_nonneg smod_nonneg c_int_id c_ulong_id c_long_id mem_slice_def
        memcpy_def bslice_def del: write_rest.simps)
  moreover have "sint (34376597504 :: 64 word) = 34376597504" using sint64_of_int [of 34376597504] by simp
  ultimately show ?thesis using mu by (simp add: fsize_def)
qed

theorem testfs_write_data_tail_size_witness:
  "\<exists>i' t. testfs_write_data (new_inode 3) (fresh_fs 1) [7, 8] 8191 2 [] = Inr (- ENOSPC, i', t) \<and>
    fsize (in_d i') = 34376597504"
proof -
  have "room (fresh_fs 1) 1" "\<not> room (fresh_fs 1) 2" by (simp_all add: room_fresh)
  then show ?thesis
    using testfs_write_data_tail_size [OF fresh_fs_wf(1) [of 1] new_inode_in_d, of 3 7 8 "[]"] by auto
qed

end
