(* ===== verification/Inode_Cache.thy ===== *)
theory Inode_Cache
  imports List_H Read_Write_Spec
begin

text \<open>
  The inodes in memory, fs/inode.c: a table of 256 chains (\<open>struct hlist_head\<close> of fs/list.h) of inode
  structures, each with a reference count, so that a file that is opened twice is one structure.
  The state \<open>fs\<close> is the super block, the inode structures by address, the chains
  through them, the state of the table and the address the next structure gets; a structure
  and the \<open>hnode\<close> in it have the same address. calloc always succeeds and gives a new address; an access through
  the address of a freed structure is the fault \<open>Bad_access\<close>. There is one super block in a process, so
  the comparison of \<open>in->sb\<close> in \<open>inode_hash_find\<close> always holds. \<open>junk\<close> is what uninitialised memory holds.
  The functions of inode.c and read_write.c that take an inode and do not follow the table are
  lifted from values to addresses by \<open>on_inode\<close>.

  Lemmas: every operation keeps the invariant of the cache (each structure is in the chain its number
  hashes to, no number twice, an unmodified structure is what the disk holds), and what each
  does to the map from inode numbers to the structures in memory.
\<close>

section \<open>The state\<close>

datatype table_ptr = T_null | T_live | T_freed

record fs =
  sbk :: super_block
  inodes :: "nat \<Rightarrow> inode option"
  hnodes :: hlist_heap
  inode_hash_table :: table_ptr
  next_addr :: nat
  junk :: "nat \<Rightarrow> u8"

abbreviation (input) INODE_HASH_SHIFT :: nat where "INODE_HASH_SHIFT \<equiv> 8"
abbreviation (input) inode_hash_size :: nat where "inode_hash_size \<equiv> 256"

definition inode_hashfn :: "int \<Rightarrow> nat" where
  "inode_hashfn nr = unat (hash_int (word_of_int nr) INODE_HASH_SHIFT)"

definition get_inode_at :: "fs \<Rightarrow> nat \<Rightarrow> inode res" where
  "get_inode_at w a = (case inodes w a of Some i \<Rightarrow> Inr i | None \<Rightarrow> Inl Bad_access)"

definition set_inode_at :: "fs \<Rightarrow> nat \<Rightarrow> inode \<Rightarrow> fs" where
  "set_inode_at w a i = w\<lparr>inodes := (inodes w)(a := Some i)\<rparr>"

definition use_table :: "fs \<Rightarrow> unit res" where
  "use_table w = (if inode_hash_table w = T_live then Inr () else Inl Bad_access)"

definition on_inode :: "nat \<Rightarrow> (inode \<Rightarrow> super_block \<Rightarrow> ('r \<times> inode \<times> super_block) res) \<Rightarrow> fs \<Rightarrow> ('r \<times> fs) res" where
  "on_inode a f w =
     rbind (get_inode_at w a) (\<lambda>i.
     rbind (f i (sbk w)) (\<lambda>(r, i, s).
     Inr (r, (set_inode_at w a i)\<lparr>sbk := s\<rparr>)))"

definition uninit :: "fs \<Rightarrow> nat \<Rightarrow> u8 list" where
  "uninit w n = map (junk w) [0..<n]"

section \<open>The hash table\<close>

definition inode_hash_init :: "bool \<Rightarrow> fs \<Rightarrow> fs res" where
  "inode_hash_init allocated w =
     (if \<not> allocated then Inl (Exit_with ''malloc'')
      else Inr (w\<lparr>inode_hash_table := T_live,
        hnodes := fold (\<lambda>k h. INIT_HLIST_HEAD h k) [0..<inode_hash_size] (hnodes w)\<rparr>))"

definition inode_hash_destroy :: "fs \<Rightarrow> fs res" where
  "inode_hash_destroy w =
     rbind (c_assert (inode_hash_table w \<noteq> T_null)) (\<lambda>_.
     rbind (use_table w) (\<lambda>_.
     rbind (c_assert (\<forall>k\<in>set [0..<inode_hash_size]. hlist_empty (hnodes w) k)) (\<lambda>_.
     Inr (w\<lparr>inode_hash_table := T_freed\<rparr>))))"

text \<open>The loop of \<open>inode_hash_find\<close> from the node \<open>pos\<close> on; 0 is the NULL it returns when there is none.\<close>

fun inode_hash_find_from :: "nat \<Rightarrow> fs \<Rightarrow> int \<Rightarrow> nat \<Rightarrow> nat res" where
  "inode_hash_find_from 0 w inode_nr pos = Inl Out_of_fuel"
| "inode_hash_find_from (Suc fuel) w inode_nr pos =
     (if pos = 0 then Inr 0
      else rbind (get_inode_at w pos) (\<lambda>i.
        if i_nr i = inode_nr then Inr pos
        else rbind (hload (hnodes w) (HNext pos)) (\<lambda>q. inode_hash_find_from fuel w inode_nr q)))"

definition inode_hash_find :: "fs \<Rightarrow> int \<Rightarrow> nat res" where
  "inode_hash_find w inode_nr =
     rbind (use_table w) (\<lambda>_.
     rbind (hload (hnodes w) (HFirst (inode_hashfn inode_nr))) (\<lambda>pos.
     inode_hash_find_from (Suc (next_addr w)) w inode_nr pos))"

definition inode_hash_insert :: "fs \<Rightarrow> nat \<Rightarrow> fs res" where
  "inode_hash_insert w a =
     rbind (get_inode_at w a) (\<lambda>i.
     rbind (INIT_HLIST_NODE (hnodes w) a) (\<lambda>h.
     rbind (use_table w) (\<lambda>_.
     rbind (hlist_add_head h a (inode_hashfn (i_nr i))) (\<lambda>h.
     Inr (w\<lparr>hnodes := h\<rparr>)))))"

definition inode_hash_remove :: "fs \<Rightarrow> nat \<Rightarrow> fs res" where
  "inode_hash_remove w a =
     rbind (get_inode_at w a) (\<lambda>i.
     rbind (hlist_del (hnodes w) a) (\<lambda>h.
     Inr (w\<lparr>hnodes := h\<rparr>)))"

section \<open>Getting, putting, creating and removing inodes\<close>

definition testfs_get_inode :: "fs \<Rightarrow> int \<Rightarrow> (nat \<times> fs) res" where
  "testfs_get_inode w inode_nr =
     rbind (inode_hash_find w inode_nr) (\<lambda>a.
     if a \<noteq> 0
     then rbind (get_inode_at w a) (\<lambda>i. Inr (a, set_inode_at w a (i\<lparr>i_count := i_count i + 1\<rparr>)))
     else
       (let a = next_addr w in
        rbind (load_inode (sbk w) inode_nr) (\<lambda>i.
        rbind (inode_hash_insert ((set_inode_at w a i)\<lparr>next_addr := Suc a\<rparr>) a) (\<lambda>w.
        Inr (a, w)))))"

definition testfs_sync_inode_at :: "nat \<Rightarrow> fs \<Rightarrow> fs res" where
  "testfs_sync_inode_at a w =
     rbind (on_inode a (\<lambda>i s. rbind (testfs_sync_inode i s) (\<lambda>(i, s). Inr ((), i, s))) w) (\<lambda>(_, w). Inr w)"

definition testfs_put_inode :: "nat \<Rightarrow> fs \<Rightarrow> fs res" where
  "testfs_put_inode a w =
     rbind (get_inode_at w a) (\<lambda>i.
     rbind (c_assert (i_flags i AND I_FLAGS_DIRTY = 0)) (\<lambda>_.
     let i = i\<lparr>i_count := i_count i - 1\<rparr>; w = set_inode_at w a i in
     if i_count i = 0
     then rbind (inode_hash_remove w a) (\<lambda>w. Inr (w\<lparr>inodes := (inodes w)(a := None)\<rparr>))
     else Inr w))"

text \<open>The address is that of the new inode when the return code is 0.\<close>

definition testfs_create_inode :: "fs \<Rightarrow> s32 \<Rightarrow> (int \<times> nat \<times> fs) res" where
  "testfs_create_inode w type =
     rbind (testfs_get_inode_freemap (sbk w)) (\<lambda>(inode_nr, s).
     let w = w\<lparr>sbk := s\<rparr> in
     if inode_nr < 0 then Inr (inode_nr, 0, w)
     else if int NR_INODE_BLOCKS \<le> (inode_nr mod 2 ^ 32) div int INODES_PER_BLOCK
     then rbind (testfs_put_inode_freemap (sbk w) inode_nr) (\<lambda>s. Inr (- ENOSPC, 0, w\<lparr>sbk := s\<rparr>))
     else rbind (testfs_get_inode w inode_nr) (\<lambda>(a, w).
       rbind (get_inode_at w a) (\<lambda>i.
       Inr (0, a, set_inode_at w a (set_dirty (i\<lparr>in_d := (in_d i)\<lparr>i_type := type\<rparr>\<rparr>))))))"

definition testfs_remove_inode :: "nat \<Rightarrow> fs \<Rightarrow> fs res" where
  "testfs_remove_inode a w =
     rbind (on_inode a testfs_free_blocks w) (\<lambda>(_, w).
     rbind (get_inode_at w a) (\<lambda>i.
     rbind (c_assert (block_count (in_d i) = 0)) (\<lambda>_.
     let w = set_inode_at w a (set_dirty (i\<lparr>in_d := zero_dinode\<rparr>)) in
     rbind (testfs_put_inode_freemap (sbk w) (i_nr i)) (\<lambda>s.
     rbind (testfs_sync_inode_at a (w\<lparr>sbk := s\<rparr>)) (\<lambda>w.
     testfs_put_inode a w)))))"

section \<open>The invariant of the cache\<close>

text \<open>\<open>buckets w t\<close>: the chains of the table hold exactly the live structures, each where its number hashes to.\<close>

definition buckets :: "fs \<Rightarrow> (nat \<Rightarrow> nat list) \<Rightarrow> bool" where
  "buckets w t \<longleftrightarrow> hrep (hnodes w) {..<inode_hash_size} t
     \<and> (\<forall>k<inode_hash_size. \<forall>a\<in>set (t k). \<exists>i. inodes w a = Some i \<and> inode_hashfn (i_nr i) = k)
     \<and> (\<forall>a i. inodes w a = Some i \<longrightarrow> a \<in> set (t (inode_hashfn (i_nr i))))"

lemma buckets_inode: "buckets w t \<Longrightarrow> k < inode_hash_size \<Longrightarrow> a \<in> set (t k) \<Longrightarrow>
    \<exists>i. inodes w a = Some i \<and> inode_hashfn (i_nr i) = k"
  by (simp add: buckets_def)

lemma buckets_mem: "buckets w t \<Longrightarrow> inodes w a = Some i \<Longrightarrow> a \<in> set (t (inode_hashfn (i_nr i)))"
  by (simp add: buckets_def)

definition structure_wf :: "fs \<Rightarrow> nat \<Rightarrow> inode \<Rightarrow> bool" where
  "structure_wf w a i \<longleftrightarrow> 0 < a \<and> a < next_addr w \<and> 0 < i_count i \<and>
     (\<exists>n<NR_INODES. i_nr i = int n \<and> (is_dirty i \<or> in_d i = disk_inode (sbk w) n)) \<and> dinode_wf (in_d i)"

definition cache_wf :: "fs \<Rightarrow> bool" where
  "cache_wf w \<longleftrightarrow> inode_hash_table w = T_live \<and> (\<exists>t. buckets w t) \<and> super_wf (sbk w) \<and> 0 < next_addr w \<and>
     (\<forall>a i. inodes w a = Some i \<longrightarrow> structure_wf w a i) \<and>
     (\<forall>a b i j. inodes w a = Some i \<longrightarrow> inodes w b = Some j \<longrightarrow> i_nr i = i_nr j \<longrightarrow> a = b)"

lemma cache_wfI:
  assumes "inode_hash_table w = T_live" "buckets w t" "super_wf (sbk w)" "0 < next_addr w"
    "\<And>a i. inodes w a = Some i \<Longrightarrow> structure_wf w a i"
    "\<And>a b i j. inodes w a = Some i \<Longrightarrow> inodes w b = Some j \<Longrightarrow> i_nr i = i_nr j \<Longrightarrow> a = b"
  shows "cache_wf w"
  using assms unfolding cache_wf_def by blast

lemma cache_wfD:
  assumes "cache_wf w"
  shows "inode_hash_table w = T_live" "super_wf (sbk w)" "0 < next_addr w"
  using assms by (simp_all add: cache_wf_def)

lemma inode_hashfn_less [simp]: "inode_hashfn nr < inode_hash_size"
proof -
  have "unat (drop_bit 24 (x :: u32)) < 256" for x
  proof -
    have "unat x < 2 ^ 32" using unsigned_less [of x] by simp
    then have "unat x div 2 ^ 24 < 256" by (simp add: less_mult_imp_div_less)
    moreover have "unat (drop_bit 24 x) = unat x div 2 ^ 24" using \<open>unat x < 2 ^ 32\<close>
      by (simp add: unsigned_drop_bit_eq drop_bit_eq_div [where ?'a = nat] take_bit_eq_mod)
    ultimately show ?thesis by simp
  qed
  then show ?thesis by (simp add: inode_hashfn_def hash_int_def)
qed

text \<open>The structure in memory for an inode number, and the inode the file system has under a number.\<close>

definition cached :: "fs \<Rightarrow> nat \<Rightarrow> nat \<Rightarrow> inode \<Rightarrow> bool" where
  "cached w n a i \<longleftrightarrow> inodes w a = Some i \<and> i_nr i = int n"

definition dinode_at :: "fs \<Rightarrow> nat \<Rightarrow> dinode" where
  "dinode_at w n =
     (if \<exists>a i. cached w n a i then in_d (the (inodes w (LEAST a. \<exists>i. cached w n a i)))
      else disk_inode (sbk w) n)"

lemma cache_wf_structure: "cache_wf w \<Longrightarrow> inodes w a = Some i \<Longrightarrow> structure_wf w a i"
  by (simp add: cache_wf_def)

lemma cache_wf_inj:
  "cache_wf w \<Longrightarrow> inodes w a = Some i \<Longrightarrow> inodes w b = Some j \<Longrightarrow> i_nr i = i_nr j \<Longrightarrow> a = b"
  by (simp add: cache_wf_def)

lemma cached_unique: "cache_wf w \<Longrightarrow> cached w n a i \<Longrightarrow> cached w n b j \<Longrightarrow> a = b \<and> i = j"
  unfolding cache_wf_def cached_def by (metis option.inject)

lemma dinode_at_cached: "cache_wf w \<Longrightarrow> cached w n a i \<Longrightarrow> dinode_at w n = in_d i"
proof -
  assume w: "cache_wf w" "cached w n a i"
  then have "(LEAST a. \<exists>i. cached w n a i) = a"
    using cached_unique [OF w(1)] by (intro Least_equality) blast+
  then show ?thesis using w(2) by (auto simp: dinode_at_def cached_def)
qed

lemma dinode_at_disk: "(\<And>a i. \<not> cached w n a i) \<Longrightarrow> dinode_at w n = disk_inode (sbk w) n"
  by (simp add: dinode_at_def)

lemma cached_nr:
  assumes "cache_wf w" "inodes w a = Some i"
  obtains n where "n < NR_INODES" "i_nr i = int n" "cached w n a i"
    "is_dirty i \<or> in_d i = disk_inode (sbk w) n"
  using cache_wf_structure [OF assms] assms(2) by (auto simp: structure_wf_def cached_def)

lemma buckets_length:
  assumes "cache_wf w" "buckets w t" "k < inode_hash_size"
  shows "length (t k) \<le> next_addr w"
proof -
  have d: "distinct (t k)" using assms(2,3) by (auto simp: buckets_def hrep_def)
  have "set (t k) \<subseteq> {..<next_addr w}"
    using assms cache_wf_structure [OF assms(1)] unfolding buckets_def structure_wf_def by fastforce
  then have "card (set (t k)) \<le> next_addr w" using card_mono [of "{..<next_addr w}"] by fastforce
  then show ?thesis using d by (simp add: distinct_card)
qed

lemma inode_hash_find_chain:
  assumes "hchain (hnodes w) p xs" "\<And>a. a \<in> set xs \<Longrightarrow> inodes w a \<noteq> None" "length xs < fuel"
  shows "inode_hash_find_from fuel w nr (hfield (hnodes w) p) =
    Inr (hd (filter (\<lambda>a. i_nr (the (inodes w a)) = nr) xs @ [0]))"
  using assms
proof (induction xs arbitrary: p fuel)
  case Nil
  then show ?case by (cases fuel) auto
next
  case (Cons x xs)
  obtain f where f: "fuel = Suc f" "length xs < f" using Cons.prems(3) by (cases fuel) auto
  obtain i where i: "inodes w x = Some i" using Cons.prems(2) [of x] by auto
  have "inode_hash_find_from f w nr (hfield (hnodes w) (HNext x)) =
      Inr (hd (filter (\<lambda>a. i_nr (the (inodes w a)) = nr) xs @ [0]))"
    by (rule Cons.IH) (use Cons.prems f in auto)
  then show ?case using Cons.prems(1) f i by (simp add: get_inode_at_def)
qed

lemma inode_hash_find_eq:
  assumes "cache_wf w"
  shows "cached w n a i \<Longrightarrow> inode_hash_find w (int n) = Inr a"
    and "(\<And>a i. \<not> cached w n a i) \<Longrightarrow> inode_hash_find w (int n) = Inr 0"
proof -
  obtain t where t: "buckets w t" using assms by (auto simp: cache_wf_def)
  let ?k = "inode_hashfn (int n)" and ?P = "\<lambda>a. i_nr (the (inodes w a)) = int n"
  have live: "inodes w a \<noteq> None" if "a \<in> set (t ?k)" for a
    using buckets_inode [OF t inode_hashfn_less that] by auto
  have "hchain (hnodes w) (HFirst ?k) (t ?k)" using t by (simp add: buckets_def hrep_def)
  then have f: "inode_hash_find w (int n) = Inr (hd (filter ?P (t ?k) @ [0]))"
    using inode_hash_find_chain [of w "HFirst ?k" "t ?k" "Suc (next_addr w)" "int n"] live
      buckets_length [OF assms t, of ?k] assms
    by (simp add: inode_hash_find_def use_table_def cache_wf_def)
  show "inode_hash_find w (int n) = Inr a" if c: "cached w n a i"
  proof -
    have a: "a \<in> set (t ?k)" using buckets_mem [OF t, of a i] c by (simp add: cached_def)
    then have ne: "filter ?P (t ?k) \<noteq> []" using c by (force simp: filter_empty_conv cached_def)
    have "b = a" if "b \<in> set (filter ?P (t ?k))" for b
    proof -
      have "b \<in> set (t ?k)" using that by simp
      then obtain j where "inodes w b = Some j" using live by blast
      then show ?thesis using cached_unique [OF assms c, of b j] that by (auto simp: cached_def)
    qed
    then have "hd (filter ?P (t ?k)) = a" using ne by (meson list.set_sel(1))
    then show ?thesis using f ne by (simp add: hd_append)
  qed
  show "inode_hash_find w (int n) = Inr 0" if c: "\<And>a i. \<not> cached w n a i"
  proof -
    have "filter ?P (t ?k) = []" using live c by (fastforce simp: filter_empty_conv cached_def)
    then show ?thesis using f by simp
  qed
qed

text \<open>A structure is changed in place: its number stays, and what the disk holds of the others too.\<close>

lemma cache_wf_set:
  assumes "cache_wf w" "cached w n a i" "i_nr i' = i_nr i" "0 < i_count i'" "dinode_wf (in_d i')"
    "super_wf s" "is_dirty i' \<or> in_d i' = disk_inode s n"
    "\<And>m. m < NR_INODES \<Longrightarrow> m \<noteq> n \<Longrightarrow> disk_inode s m = disk_inode (sbk w) m"
  shows "cache_wf ((set_inode_at w a i')\<lparr>sbk := s\<rparr>)"
proof -
  let ?w = "(set_inode_at w a i')\<lparr>sbk := s\<rparr>"
  have a: "inodes w a = Some i" "i_nr i = int n" using assms(2) by (auto simp: cached_def)
  obtain t where t: "buckets w t" using assms(1) by (auto simp: cache_wf_def)
  have "\<exists>j. inodes ?w b = Some j \<and> inode_hashfn (i_nr j) = k" if "k < inode_hash_size" "b \<in> set (t k)" for b k
    using buckets_inode [OF t that] a assms(3) by (auto simp: set_inode_at_def)
  moreover have "b \<in> set (t (inode_hashfn (i_nr j)))" if "inodes ?w b = Some j" for b j
    using that buckets_mem [OF t, of b] a assms(3) by (cases "b = a") (auto simp: set_inode_at_def)
  ultimately have "buckets ?w t" using t by (simp add: buckets_def set_inode_at_def)
  moreover have "structure_wf ?w b j" if j: "inodes ?w b = Some j" for b j
  proof (cases "b = a")
    case True
    then show ?thesis
      using j a assms(3-7) cache_wf_structure [OF assms(1) a(1)]
      by (auto simp: set_inode_at_def structure_wf_def)
  next
    case False
    then have b: "inodes w b = Some j" using j by (simp add: set_inode_at_def)
    obtain m where m: "m < NR_INODES" "i_nr j = int m" "cached w m b j"
        "is_dirty j \<or> in_d j = disk_inode (sbk w) m"
      using cached_nr [OF assms(1) b] .
    have "m \<noteq> n" using cached_unique [OF assms(1,2)] m(3) False by blast
    then show ?thesis using cache_wf_structure [OF assms(1) b] m assms(8) [of m]
      by (auto simp: structure_wf_def set_inode_at_def)
  qed
  moreover have "b = c" if "inodes ?w b = Some j" "inodes ?w c = Some k" "i_nr j = i_nr k" for b c j k
  proof -
    note th = that
    have nr: "\<exists>j'. inodes w b = Some j' \<and> i_nr j' = i_nr j" if "inodes ?w b = Some j" for b j
      by (cases "b = a") (use that a assms(3) in \<open>auto simp: set_inode_at_def\<close>)
    obtain j' where j': "inodes w b = Some j'" "i_nr j' = i_nr j" using nr [of b j] th(1) by blast
    obtain k' where k': "inodes w c = Some k'" "i_nr k' = i_nr k" using nr [of c k] th(2) by blast
    show ?thesis using cache_wf_inj [OF assms(1) j'(1) k'(1)] j'(2) k'(2) th(3) by simp
  qed
  moreover have "inode_hash_table ?w = T_live" "super_wf (sbk ?w)" "0 < next_addr ?w"
    using cache_wfD [OF assms(1)] assms(6) by (simp_all add: set_inode_at_def)
  ultimately show ?thesis by (intro cache_wfI)
qed

lemma set_inode_at_fields [simp]:
  "sbk (set_inode_at w a i) = sbk w" "next_addr (set_inode_at w a i) = next_addr w"
  "junk (set_inode_at w a i) = junk w" "hnodes (set_inode_at w a i) = hnodes w"
  "inode_hash_table (set_inode_at w a i) = inode_hash_table w"
  "inodes (set_inode_at w a i) = (inodes w)(a := Some i)"
  by (simp_all add: set_inode_at_def)

text \<open>How often an inode is in use.\<close>

definition refs :: "fs \<Rightarrow> nat \<Rightarrow> int" where
  "refs w n =
     (if \<exists>a i. cached w n a i then i_count (the (inodes w (LEAST a. \<exists>i. cached w n a i))) else 0)"

lemma refs_cached: "cache_wf w \<Longrightarrow> cached w n a i \<Longrightarrow> refs w n = i_count i"
proof -
  assume w: "cache_wf w" "cached w n a i"
  then have "(LEAST a. \<exists>i. cached w n a i) = a"
    using cached_unique [OF w(1)] by (intro Least_equality) blast+
  then show ?thesis using w(2) by (auto simp: refs_def cached_def)
qed

lemma refs_none: "(\<And>a i. \<not> cached w n a i) \<Longrightarrow> refs w n = 0"
  by (simp add: refs_def)

lemma refs_pos: "cache_wf w \<Longrightarrow> refs w n > 0 \<longleftrightarrow> (\<exists>a i. cached w n a i)"
  using refs_cached refs_none cache_wf_structure
  by (metis cached_def less_irrefl structure_wf_def)

lemma fs_cong:
  assumes "cache_wf w" "cache_wf w'" "\<And>b j. cached w' m b j \<longleftrightarrow> cached w m b j"
    "disk_inode (sbk w') m = disk_inode (sbk w) m"
  shows "dinode_at w' m = dinode_at w m" "refs w' m = refs w m"
proof -
  show "dinode_at w' m = dinode_at w m"
    using assms dinode_at_cached [OF assms(1)] dinode_at_cached [OF assms(2)] dinode_at_disk by metis
  show "refs w' m = refs w m"
    using assms refs_cached [OF assms(1)] refs_cached [OF assms(2)] refs_none by metis
qed

text \<open>Two worlds that differ in the structure of one inode only.\<close>

definition same_but :: "nat \<Rightarrow> fs \<Rightarrow> fs \<Rightarrow> bool" where
  "same_but n w w' \<longleftrightarrow> (\<forall>m a i. m \<noteq> n \<longrightarrow> (cached w' m a i \<longleftrightarrow> cached w m a i)) \<and> junk w' = junk w"

lemma same_but_trans: "same_but n w w1 \<Longrightarrow> same_but n w1 w2 \<Longrightarrow> same_but n w w2"
  by (simp add: same_but_def)

lemma same_but_refl [simp]: "same_but n w w"
  by (simp add: same_but_def)

lemma same_but_others:
  assumes "cache_wf w" "cache_wf w'" "same_but n w w'" "m \<noteq> n" "disk_inode (sbk w') m = disk_inode (sbk w) m"
  shows "dinode_at w' m = dinode_at w m" "refs w' m = refs w m"
  using fs_cong [OF assms(1,2) _ assms(5)] assms(3,4) by (simp_all add: same_but_def)

lemma cache_wf_set_same:
  assumes "cache_wf w" "cached w n a i" "i_nr i' = i_nr i" "in_d i' = in_d i" "i_flags i' = i_flags i" "0 < i_count i'"
  shows "cache_wf (set_inode_at w a i')" "cached (set_inode_at w a i') n a i'" "same_but n w (set_inode_at w a i')"
proof -
  have i: "inodes w a = Some i" "i_nr i = int n" using assms(2) by (auto simp: cached_def)
  obtain k where k: "k < NR_INODES" "i_nr i = int k" "is_dirty i \<or> in_d i = disk_inode (sbk w) k" "dinode_wf (in_d i)"
    using cache_wf_structure [OF assms(1) i(1)] by (auto simp: structure_wf_def)
  have "is_dirty i' = is_dirty i" using assms(5) by (simp add: is_dirty_def)
  then have "cache_wf ((set_inode_at w a i')\<lparr>sbk := sbk w\<rparr>)"
    using k i assms by (intro cache_wf_set [OF assms(1,2)]) (auto simp: cache_wfD)
  then show "cache_wf (set_inode_at w a i')" by (simp add: set_inode_at_def)
  show "cached (set_inode_at w a i') n a i'" using i assms(3) by (simp add: cached_def set_inode_at_def)
  show "same_but n w (set_inode_at w a i')"
    using i assms(3) by (auto simp: same_but_def cached_def set_inode_at_def)
qed

lemma get_inode_hit:
  assumes "cache_wf w" "cached w n a i"
  shows "testfs_get_inode w (int n) = Inr (a, set_inode_at w a (i\<lparr>i_count := i_count i + 1\<rparr>))"
proof -
  have "inodes w a = Some i" "a \<noteq> 0"
    using assms cache_wf_structure [OF assms(1)] by (auto simp: cached_def structure_wf_def)
  then show ?thesis
    using inode_hash_find_eq(1) [OF assms] by (simp add: testfs_get_inode_def get_inode_at_def)
qed

lemma get_inode_miss:
  assumes w: "cache_wf w" and n: "n < NR_INODES" and no: "\<And>a i. \<not> cached w n a i"
  obtains w' where "testfs_get_inode w (int n) = Inr (next_addr w, w')" "cache_wf w'"
    "cached w' n (next_addr w) \<lparr>in_d = disk_inode (sbk w) n, i_flags = 0, i_nr = int n, i_count = 1\<rparr>"
    "sbk w' = sbk w" "same_but n w w'"
proof -
  let ?a = "next_addr w" and ?k = "inode_hashfn (int n)"
  let ?i = "\<lparr>in_d = disk_inode (sbk w) n, i_flags = 0, i_nr = int n, i_count = 1\<rparr>"
  let ?w = "(set_inode_at w ?a ?i)\<lparr>next_addr := Suc ?a\<rparr>"
  obtain t where t: "buckets w t" using w by (auto simp: cache_wf_def)
  have new: "inodes w ?a = None"
    using cache_wf_structure [OF w, of ?a] by (cases "inodes w ?a") (auto simp: structure_wf_def)
  have nt: "?a \<notin> set (t k)" if "k < inode_hash_size" for k
    using buckets_inode [OF t that, of ?a] new by auto
  have h: "hrep (hnodes w) {..<inode_hash_size} t" using t by (simp add: buckets_def)
  have u: "unhashed ?a {..<inode_hash_size} t" using nt cache_wfD(3) [OF w] by (simp add: unhashed_def)
  let ?h0 = "(hnodes w)\<lparr>hnext := (hnext (hnodes w))(?a := 0), hpprev := (hpprev (hnodes w))(?a := HNull)\<rparr>"
  have i0: "INIT_HLIST_NODE (hnodes w) ?a = Inr ?h0"
    using cache_wfD(3) [OF w] by (simp add: INIT_HLIST_NODE_def set_pprev_def)
  have "hrep ?h0 {..<inode_hash_size} (t(0 := t 0))"
  proof (rule hrep_update [OF h])
    show "hchain ?h0 (HFirst 0) (t 0)"
      using hchain_cong [of ?h0 "HFirst 0" "hnodes w" "t 0"] hrep_D [OF h, of 0] nt [of 0] by force
    show "distinct (t 0)" using hrep_D [OF h, of 0] by simp
    fix x j assume "j \<in> {..<inode_hash_size}" "x \<in> set (t j)"
    then have "x \<noteq> ?a" using nt by auto
    then show "hnext ?h0 x = hnext (hnodes w) x \<and> hpprev ?h0 x = hpprev (hnodes w) x" by simp
  qed simp_all
  then have h0: "hrep ?h0 {..<inode_hash_size} t" by simp
  obtain h1 where h1: "hlist_add_head ?h0 ?a ?k = Inr h1" "hrep h1 {..<inode_hash_size} (t(?k := ?a # t ?k))"
    using hash_chains.add_front [OF h0 _ u, of ?k] by auto
  let ?w' = "?w\<lparr>hnodes := h1\<rparr>" and ?t' = "t(?k := ?a # t ?k)"
  have g: "testfs_get_inode w (int n) = Inr (?a, ?w')"
    using inode_hash_find_eq(2) [OF w no] load_inode_eq [OF cache_wfD(2) [OF w] n] i0 h1(1) cache_wfD(1) [OF w]
    by (simp add: testfs_get_inode_def Let_def inode_hash_insert_def get_inode_at_def set_inode_at_def use_table_def)
  have old: "inodes ?w' b = (if b = ?a then Some ?i else inodes w b)" for b by (simp add: set_inode_at_def)
  have q: "i_nr j \<noteq> int n" "int n \<noteq> i_nr j" if "inodes w b = Some j" for b j
    using no [of b j] that by (auto simp: cached_def)
  have "cache_wf ?w'"
  proof (rule cache_wfI)
    have "\<exists>j. inodes ?w' b = Some j \<and> inode_hashfn (i_nr j) = k" if "k < inode_hash_size" "b \<in> set (?t' k)" for b k
      using that buckets_inode [OF t that(1), of b] nt [of k] by (auto simp: set_inode_at_def split: if_splits)
    moreover have "b \<in> set (?t' (inode_hashfn (i_nr j)))" if "inodes ?w' b = Some j" for b j
      using that buckets_mem [OF t, of b j] unfolding old by (auto split: if_splits)
    ultimately show "buckets ?w' ?t'" using h1(2) by (simp add: buckets_def)
    show "structure_wf ?w' b j" if "inodes ?w' b = Some j" for b j
      using that cache_wf_structure [OF w, of b j] n cache_wfD(3) [OF w] unfolding old
      by (auto simp: structure_wf_def set_inode_at_def split: if_splits)
    show "b = c" if "inodes ?w' b = Some j" "inodes ?w' c = Some k" "i_nr j = i_nr k" for b c j k
      using that q [of b j] q [of c k] cache_wf_inj [OF w, of b j c k] unfolding old by (auto split: if_splits)
  qed (use cache_wfD [OF w] in \<open>simp_all add: set_inode_at_def\<close>)
  moreover have "cached ?w' n ?a ?i" by (simp add: cached_def set_inode_at_def)
  moreover have "same_but n w ?w'"
    using new by (auto simp: same_but_def cached_def set_inode_at_def)
  ultimately show ?thesis using that g by (simp add: set_inode_at_def)
qed

text \<open>Getting an inode: one more use of it, and nothing that the file system holds changes.\<close>

lemma testfs_get_inode_ok:
  assumes w: "cache_wf w" and n: "n < NR_INODES"
  obtains a i w' where "testfs_get_inode w (int n) = Inr (a, w')" "cache_wf w'" "cached w' n a i"
    "in_d i = dinode_at w n" "i_count i = refs w n + 1" "sbk w' = sbk w" "same_but n w w'"
    "\<And>j. cached w n a j \<Longrightarrow> is_dirty i = is_dirty j" "refs w n = 0 \<Longrightarrow> \<not> is_dirty i"
proof (cases "\<exists>a i. cached w n a i")
  case True
  then obtain a i where c: "cached w n a i" by blast
  have p: "0 < i_count i" using c cache_wf_structure [OF w] by (auto simp: cached_def structure_wf_def)
  have u: "j = i" if "cached w n a j" for j using cached_unique [OF w c that] by simp
  note s = cache_wf_set_same [OF w c, of "i\<lparr>i_count := i_count i + 1\<rparr>"]
  show ?thesis
    by (rule that [OF get_inode_hit [OF w c] s(1,2)])
      (use s(3) p u dinode_at_cached [OF w c] refs_cached [OF w c] in
        \<open>auto simp: set_inode_at_def is_dirty_def\<close>)
next
  case False
  then have no: "\<And>a i. \<not> cached w n a i" by blast
  show ?thesis
    by (rule get_inode_miss [OF w n no], rule that, assumption+)
      (use no dinode_at_disk [OF no] refs_none [OF no] in \<open>auto simp: is_dirty_def\<close>)
qed

text \<open>Putting an inode that is not dirty: one use less, and again nothing else changes.\<close>

lemma testfs_put_inode_ok:
  assumes w: "cache_wf w" and c: "cached w n a i" and d: "\<not> is_dirty i"
  obtains w' where "testfs_put_inode a w = Inr w'" "cache_wf w'" "sbk w' = sbk w" "same_but n w w'"
    "if i_count i = 1 then \<not> (\<exists>b j. cached w' n b j) else cached w' n a (i\<lparr>i_count := i_count i - 1\<rparr>)"
proof -
  have i: "inodes w a = Some i" "i_nr i = int n" using c by (auto simp: cached_def)
  note st = cache_wf_structure [OF w i(1)]
  let ?i = "i\<lparr>i_count := i_count i - 1\<rparr>"
  have z: "i_flags i AND 1 = 0" using d by (simp add: is_dirty_def)
  have disk: "in_d i = disk_inode (sbk w) n" "n < NR_INODES" using st i(2) d by (auto simp: structure_wf_def)
  show ?thesis
  proof (cases "i_count i = 1")
    case False
    then have "0 < i_count ?i" using st by (auto simp: structure_wf_def)
    note s = cache_wf_set_same [OF w c, of ?i, simplified, OF this [simplified]]
    have "testfs_put_inode a w = Inr (set_inode_at w a ?i)"
      using i(1) z False by (simp add: testfs_put_inode_def get_inode_at_def Let_def)
    then show ?thesis by (rule that) (use s False in \<open>simp_all add: set_inode_at_def\<close>)
  next
    case True
    let ?k = "inode_hashfn (int n)" and ?w1 = "set_inode_at w a ?i"
    obtain t where t: "buckets w t" using w by (auto simp: cache_wf_def)
    have h: "hrep (hnodes w) {..<inode_hash_size} t" using t by (simp add: buckets_def)
    have "a \<in> set (t ?k)" using buckets_mem [OF t i(1)] i(2) by simp
    then obtain as bs where ab: "t ?k = as @ a # bs" by (auto simp: in_set_conv_decomp)
    have dab: "distinct (as @ a # bs)" using hrep_D [OF h, of ?k] ab by simp
    let ?t = "t(?k := as @ bs)"
    obtain h1 where h1: "hlist_del (hnodes w) a = Inr h1" "hrep h1 {..<inode_hash_size} ?t"
      using hash_chains.del_node [OF h _ ab] by auto
    let ?w' = "?w1\<lparr>hnodes := h1, inodes := (inodes ?w1)(a := None)\<rparr>"
    have p: "testfs_put_inode a w = Inr ?w'"
      using i z True h1(1)
      by (simp add: testfs_put_inode_def get_inode_at_def Let_def inode_hash_remove_def set_inode_at_def)
    have in': "inodes ?w' b = (if b = a then None else inodes w b)" for b by (simp add: set_inode_at_def)
    have fld: "sbk ?w' = sbk w" "next_addr ?w' = next_addr w" "inode_hash_table ?w' = inode_hash_table w"
      "hnodes ?w' = h1" "junk ?w' = junk w"
      by (simp_all add: set_inode_at_def)
    have "cache_wf ?w'"
    proof (rule cache_wfI)
      have "\<exists>j. inodes ?w' b = Some j \<and> inode_hashfn (i_nr j) = k" if "k < inode_hash_size" "b \<in> set (?t k)" for b k
      proof -
        note th = that
        have "b \<in> set (t k)" using th(2) ab by (auto split: if_splits)
        then obtain j where j: "inodes w b = Some j" "inode_hashfn (i_nr j) = k" using buckets_inode [OF t th(1)] by blast
        have "b \<noteq> a" using th(2) dab j i ab by (auto split: if_splits)
        then show ?thesis using j unfolding in' by simp
      qed
      moreover have "b \<in> set (?t (inode_hashfn (i_nr j)))" if "inodes ?w' b = Some j" for b j
        using that buckets_mem [OF t, of b j] ab unfolding in' by (auto split: if_splits)
      ultimately show "buckets ?w' ?t" using h1(2) unfolding buckets_def fld by blast
      show "structure_wf ?w' b j" if "inodes ?w' b = Some j" for b j
        using that cache_wf_structure [OF w, of b j] unfolding in' structure_wf_def fld by (auto split: if_splits)
      show "b = e" if "inodes ?w' b = Some j" "inodes ?w' e = Some k" "i_nr j = i_nr k" for b e j k
        using that cache_wf_inj [OF w, of b j e k] unfolding in' by (auto split: if_splits)
    qed (use cache_wfD [OF w] in \<open>simp_all only: fld\<close>)
    moreover have "same_but n w ?w'"
      using i unfolding same_but_def cached_def in' fld by auto
    moreover have "\<not> (\<exists>b j. cached ?w' n b j)"
      using cached_unique [OF w c] unfolding cached_def in' by (auto split: if_splits)
    ultimately show ?thesis using p True by (intro that [of ?w']) (simp_all add: fld)
  qed
qed

lemma testfs_put_inode_dirty:
  assumes "inodes w a = Some i" "is_dirty i"
  shows "testfs_put_inode a w = Inl Assert_failed"
  using assms by (simp add: testfs_put_inode_def get_inode_at_def is_dirty_def)

lemma testfs_put_inode_view:
  assumes w: "cache_wf w" and c: "cached w n a i" and d: "\<not> is_dirty i"
  obtains w' where "testfs_put_inode a w = Inr w'" "cache_wf w'" "sbk w' = sbk w" "same_but n w w'"
    "dinode_at w' = dinode_at w" "refs w' = (refs w)(n := refs w n - 1)"
proof -
  obtain w' where p: "testfs_put_inode a w = Inr w'" "cache_wf w'" "sbk w' = sbk w" "same_but n w w'"
    "if i_count i = 1 then \<not> (\<exists>b j. cached w' n b j) else cached w' n a (i\<lparr>i_count := i_count i - 1\<rparr>)"
    by (rule testfs_put_inode_ok [OF assms]) blast
  have i: "inodes w a = Some i" "i_nr i = int n" using c by (auto simp: cached_def)
  have disk: "in_d i = disk_inode (sbk w) n"
    using cache_wf_structure [OF w i(1)] i(2) d by (auto simp: structure_wf_def)
  have "dinode_at w' n = dinode_at w n \<and> refs w' n = refs w n - 1"
  proof (cases "i_count i = 1")
    case True
    then have "\<And>b j. \<not> cached w' n b j" using p(5) by simp
    then show ?thesis
      using dinode_at_disk refs_none dinode_at_cached [OF w c] refs_cached [OF w c] disk p(3) True by simp
  next
    case False
    then have p6: "cached w' n a (i\<lparr>i_count := i_count i - 1\<rparr>)" using p(5) by simp
    show ?thesis
      using dinode_at_cached [OF p(2) p6] refs_cached [OF p(2) p6] dinode_at_cached [OF w c] refs_cached [OF w c]
      by simp
  qed
  moreover have "dinode_at w' m = dinode_at w m \<and> refs w' m = refs w m" if "m \<noteq> n" for m
    using same_but_others [OF w p(2,4) that] p(3) by simp
  ultimately have "dinode_at w' m = dinode_at w m \<and> refs w' m = (if m = n then refs w n - 1 else refs w m)" for m
    by (cases "m = n") simp_all
  then show ?thesis using p by (intro that [of w']) (auto simp: fun_eq_iff)
qed

lemma testfs_get_inode_view:
  assumes w: "cache_wf w" and n: "n < NR_INODES"
  obtains a i w' where "testfs_get_inode w (int n) = Inr (a, w')" "cache_wf w'" "cached w' n a i"
    "sbk w' = sbk w" "same_but n w w'" "dinode_at w' = dinode_at w" "refs w' = (refs w)(n := refs w n + 1)"
    "\<And>j. cached w n a j \<Longrightarrow> is_dirty i = is_dirty j" "refs w n = 0 \<Longrightarrow> \<not> is_dirty i"
proof -
  obtain a i w' where g: "testfs_get_inode w (int n) = Inr (a, w')" "cache_wf w'" "cached w' n a i"
    "in_d i = dinode_at w n" "i_count i = refs w n + 1" "sbk w' = sbk w" "same_but n w w'"
    "\<And>j. cached w n a j \<Longrightarrow> is_dirty i = is_dirty j" "refs w n = 0 \<Longrightarrow> \<not> is_dirty i"
    by (rule testfs_get_inode_ok [OF w n]) blast
  have "dinode_at w' m = dinode_at w m \<and> refs w' m = (if m = n then refs w n + 1 else refs w m)" for m
    using same_but_others [OF w g(2,7)] g(4-6) dinode_at_cached [OF g(2,3)] refs_cached [OF g(2,3)] by (cases "m = n") auto
  then show ?thesis using g by (intro that [of a w' i]) (auto simp: fun_eq_iff)
qed

end
