(* ===== verification/Fs_Invariant.thy ===== *)
theory Fs_Invariant
  imports Inode_Cache
begin

unbundle bit_operations_syntax

text \<open>
  The invariant of the whole file system, over the disk and the inodes in memory: every inode number that is in
  use has a well-formed file, no block belongs to two files, every used block belongs to one,
  and an unused inode is zero and not in memory. Lemmas: getting, putting and
  writing back an inode, creating one, writing to a file and removing one keep it, and what they do
  to the files that they do not name: nothing.
\<close>

section \<open>Files whose blocks are left alone\<close>

lemma file_wf_frame:
  assumes fw: "file_wf s d" and same: "same_blocks ((+) DATA_START ` owned s d) s t"
    and used: "owned s d \<subseteq> used_blocks t"
  shows "file_wf t d" "owned t d = owned s d" "mapped t d = mapped s d"
    "L < MAX_FILE_BLOCKS \<Longrightarrow> fblock t d L = fblock s d L"
proof -
  note wf = file_wfD(1) [OF fw]
  have inn: "inner_set s d \<subseteq> (+) DATA_START ` owned s d" using inner_set_data [OF wf] by blast
  note P = ptr_frame [OF wf inner_X_simps(1) same inn]
  note O = sets_cong(1) [of t d s d, OF P]
  show own: "owned t d = owned s d" by (rule O)
  have m: "ptr t d (leaf L) = ptr s d (leaf L)" if "L < MAX_FILE_BLOCKS" for L using P that by simp
  show M: "mapped t d = mapped s d" using m by (auto simp: mapped_def)
  have own_ptr: "\<exists>k\<in>owned s d. ptr s d p = int (DATA_START + k)" if "vpath p" "ptr s d p \<noteq> 0" for p
    using tree_wfD [OF wf that] by metis
  have "tree_wf {} t d"
    unfolding tree_wf_def
  proof (intro conjI allI impI)
    fix p assume p: "vpath p"
    show "ptr t d p = 0 \<or> (\<exists>k\<in>used_blocks t. ptr t d p = int (DATA_START + k))"
      using own_ptr [OF p] P [OF p] used by (cases "ptr s d p = 0") auto
    show "has_block t (nat (ptr t d p))" if "p \<notin> {}" "ptr t d p \<noteq> 0"
    proof -
      have nz: "ptr s d p \<noteq> 0" using that(2) P [OF p] by simp
      then obtain k where k: "k \<in> owned s d" "ptr s d p = int (DATA_START + k)" using own_ptr [OF p] by blast
      then have n: "nat (ptr s d p) = DATA_START + k" by simp
      have "has_block s (DATA_START + k)" using tree_wf_has [OF wf p _ nz] n by simp
      then show ?thesis using same k(1) n P [OF p] by (simp add: same_blocks_def)
    qed
  next
    fix p q assume "vpath p" "vpath q" "ptr t d p = ptr t d q" "ptr t d p \<noteq> 0"
    then show "p = q" using tree_wf_inj [OF wf, of p q] P by simp
  next
    show "dinode_wf d" by (rule tree_wf_dinode [OF wf])
    show "sint (block_count d) = int (card (owned t d))" using tree_wf_count [OF wf] own by simp
  qed
  moreover have "\<exists>L\<in>mapped t d. leads_to p (leaf L)" if "vpath p" "inner p" "ptr t d p \<noteq> 0" for p
    using file_wfD(6) [OF fw that(1,2)] that P [OF that(1)] M by simp
  ultimately show "file_wf t d" using fw unfolding file_wf_def M by blast
  show "fblock t d L = fblock s d L" if L: "L < MAX_FILE_BLOCKS"
  proof (cases "ptr s d (leaf L) = 0")
    case True
    then show ?thesis using m [OF that] by (simp add: fblock_def)
  next
    case False
    then obtain k where k: "k \<in> owned s d" "ptr s d (leaf L) = int (DATA_START + k)" using own_ptr [OF vpath_leaf [OF L]] by blast
    then have n: "nat (ptr s d (leaf L)) = DATA_START + k" by simp
    have "has_block s (DATA_START + k)" using tree_wf_has [OF wf _ _ False] that n by simp
    then have "blk t (DATA_START + k) = blk s (DATA_START + k)" using same k(1) by (simp add: same_blocks_def)
    then show ?thesis using m [OF that] n False by (simp add: fblock_def)
  qed
qed

section \<open>The invariant\<close>

definition files_wf :: "super_block \<Rightarrow> (nat \<Rightarrow> dinode) \<Rightarrow> bool" where
  "files_wf s D \<longleftrightarrow>
     (\<forall>n\<in>used_inodes s. n < NR_INODES \<and> file_wf s (D n)) \<and>
     (\<forall>n\<in>used_inodes s. \<forall>m\<in>used_inodes s. n \<noteq> m \<longrightarrow> owned s (D n) \<inter> owned s (D m) = {}) \<and>
     used_blocks s = (\<Union>n\<in>used_inodes s. owned s (D n))"

definition fs_wf :: "fs \<Rightarrow> bool" where
  "fs_wf w \<longleftrightarrow> cache_wf w \<and> files_wf (sbk w) (dinode_at w) \<and>
     (\<forall>n<NR_INODES. n \<notin> used_inodes (sbk w) \<longrightarrow> dinode_at w n = zero_dinode \<and> (\<forall>a i. \<not> cached w n a i))"

text \<open>The contents of the file with an inode number.\<close>

definition contents :: "fs \<Rightarrow> nat \<Rightarrow> nat \<Rightarrow> u8" where
  "contents w n = fbyte (sbk w) (dinode_at w n)"

lemma fs_wfD:
  assumes "fs_wf w"
  shows "cache_wf w" "super_wf (sbk w)"
    "n \<in> used_inodes (sbk w) \<Longrightarrow> n < NR_INODES" "n \<in> used_inodes (sbk w) \<Longrightarrow> file_wf (sbk w) (dinode_at w n)"
    "n < NR_INODES \<Longrightarrow> n \<notin> used_inodes (sbk w) \<Longrightarrow> dinode_at w n = zero_dinode"
    "n < NR_INODES \<Longrightarrow> n \<notin> used_inodes (sbk w) \<Longrightarrow> \<not> cached w n a i"
  using assms cache_wfD by (auto simp: fs_wf_def files_wf_def)

lemma cached_used: "fs_wf w \<Longrightarrow> cached w n a i \<Longrightarrow> n \<in> used_inodes (sbk w)"
  using fs_wfD(1,6) cached_nr by (metis cached_def of_nat_eq_iff)

lemma foreign_others:
  assumes "files_wf s D" "n \<in> used_inodes s"
  shows "foreign s (D n) = (\<Union>m\<in>used_inodes s - {n}. owned s (D m))"
  using assms by (auto simp: files_wf_def foreign_def)

text \<open>Changing the file of one inode: the files of the others stay.\<close>

lemma files_wf_step:
  assumes F: "files_wf s D" and n: "n < NR_INODES" "n \<in> used_inodes s \<or> D n = zero_dinode \<and> n \<notin> used_inodes s"
    and t: "used_inodes t = insert n (used_inodes s)" "file_wf t d" "foreign t d = used_blocks s - owned s (D n)"
    and same: "same_blocks ((+) DATA_START ` (used_blocks s - owned s (D n))) s t"
  shows "files_wf t (D(n := d))"
    "m \<in> used_inodes s \<Longrightarrow> m \<noteq> n \<Longrightarrow> owned t (D m) = owned s (D m)"
    "m \<in> used_inodes s \<Longrightarrow> m \<noteq> n \<Longrightarrow> L < MAX_FILE_BLOCKS \<Longrightarrow> fblock t (D m) L = fblock s (D m) L"
proof -
  have oD: "owned s (D n) \<subseteq> used_blocks s"
  proof (cases "n \<in> used_inodes s")
    case False
    then have "owned s (D n) = {}" using n(2) empty_sets(1) [of s 0] by (simp add: empty_dinode_def zero_dinode_def)
    then show ?thesis by simp
  qed (use F in \<open>auto simp: files_wf_def\<close>)
  have sub: "owned s (D m) \<subseteq> used_blocks s - owned s (D n)" if "m \<in> used_inodes s" "m \<noteq> n" for m
  proof -
    have "owned s (D m) \<inter> owned s (D n) = {}"
    proof (cases "n \<in> used_inodes s")
      case False
      then show ?thesis using n(2) empty_sets(1) [of s 0] by (simp add: empty_dinode_def zero_dinode_def)
    qed (use F that in \<open>auto simp: files_wf_def\<close>)
    then show ?thesis using F that by (auto simp: files_wf_def)
  qed
  have od: "owned t d \<subseteq> used_blocks t" by (rule owned_used [OF file_wfD(1) [OF t(2)]])
  have ut: "used_blocks t = (used_blocks s - owned s (D n)) \<union> owned t d"
    using t(3) od unfolding foreign_def by blast
  have disj: "owned t d \<inter> (used_blocks s - owned s (D n)) = {}" using t(3) unfolding foreign_def by blast
  have fr: "file_wf t (D m)" "owned t (D m) = owned s (D m)" "L < MAX_FILE_BLOCKS \<Longrightarrow> fblock t (D m) L = fblock s (D m) L"
    if "m \<in> used_inodes s" "m \<noteq> n" for m L
  proof -
    have fw: "file_wf s (D m)" using F that by (simp add: files_wf_def)
    have sm: "same_blocks ((+) DATA_START ` owned s (D m)) s t"
      by (rule same_blocks_mono [OF same]) (use sub [OF that] in blast)
    have us: "owned s (D m) \<subseteq> used_blocks t" using sub [OF that] ut by blast
    show "file_wf t (D m)" "owned t (D m) = owned s (D m)" "L < MAX_FILE_BLOCKS \<Longrightarrow> fblock t (D m) L = fblock s (D m) L"
      using file_wf_frame [OF fw sm us] by simp_all
  qed
  show "m \<in> used_inodes s \<Longrightarrow> m \<noteq> n \<Longrightarrow> owned t (D m) = owned s (D m)"
    "m \<in> used_inodes s \<Longrightarrow> m \<noteq> n \<Longrightarrow> L < MAX_FILE_BLOCKS \<Longrightarrow> fblock t (D m) L = fblock s (D m) L"
    using fr by simp_all
  show "files_wf t (D(n := d))"
    unfolding files_wf_def t(1)
  proof (intro conjI ballI impI)
    fix m assume "m \<in> insert n (used_inodes s)"
    then show "m < NR_INODES" "file_wf t ((D(n := d)) m)" using n(1) t(2) F fr(1) by (auto simp: files_wf_def)
  next
    fix m k assume m: "m \<in> insert n (used_inodes s)" "k \<in> insert n (used_inodes s)" "m \<noteq> k"
    have "owned t (D j) \<inter> owned t d = {}" if "j \<in> used_inodes s" "j \<noteq> n" for j
      using fr(2) [OF that] sub [OF that] disj by auto
    moreover have "owned t (D m) \<inter> owned t (D k) = {}" if "m \<noteq> n" "k \<noteq> n"
      using fr(2) m that F by (auto simp: files_wf_def)
    ultimately show "owned t ((D(n := d)) m) \<inter> owned t ((D(n := d)) k) = {}" using m by auto
  next
    have "used_blocks s - owned s (D n) = (\<Union>m\<in>used_inodes s - {n}. owned s (D m))"
      using sub F by (auto simp: files_wf_def)
    also have "\<dots> = (\<Union>m\<in>used_inodes s - {n}. owned t (D m))" using fr(2) by auto
    finally show "used_blocks t = (\<Union>m\<in>insert n (used_inodes s). owned t ((D(n := d)) m))" using ut by (auto split: if_splits)
  qed
qed

section \<open>Steps on one inode\<close>

lemma contents_cong:
  "dinode_at w' n = dinode_at w n \<Longrightarrow> (\<And>L. L < MAX_FILE_BLOCKS \<Longrightarrow> fblock (sbk w') (dinode_at w n) L = fblock (sbk w) (dinode_at w n) L) \<Longrightarrow>
    off < MAX_FILE_BYTES \<Longrightarrow> contents w' n off = contents w n off"
  by (simp add: contents_def fbyte_def less_mult_imp_div_less)

lemma owned_zero [simp]: "owned s zero_dinode = {}"
  using empty_sets(1) [of s 0] by (simp add: empty_dinode_def zero_dinode_def)

text \<open>What every step on the file of inode \<open>n\<close> leaves alone.\<close>

definition others_same :: "nat \<Rightarrow> fs \<Rightarrow> fs \<Rightarrow> bool" where
  "others_same n w w' \<longleftrightarrow>
     (\<forall>m<NR_INODES. m \<noteq> n \<longrightarrow> dinode_at w' m = dinode_at w m \<and> refs w' m = refs w m \<and>
       (\<forall>a i. cached w' m a i \<longleftrightarrow> cached w m a i) \<and> (\<forall>off<MAX_FILE_BYTES. contents w' m off = contents w m off)) \<and>
     junk w' = junk w"

lemma others_same_refl [simp]: "others_same n w w"
  by (simp add: others_same_def)

lemma others_same_trans: "others_same n w w1 \<Longrightarrow> others_same n w1 w2 \<Longrightarrow> others_same n w w2"
  by (simp add: others_same_def)

lemma same_but_others_same:
  assumes "cache_wf w" "cache_wf w'" "same_but n w w'" "sbk w' = sbk w"
  shows "others_same n w w'"
  using same_but_others [OF assms(1-3)] assms(3,4) by (simp add: others_same_def contents_def same_but_def)

lemma fs_step:
  assumes w: "fs_wf w" and c: "cached w n a i" and i': "i_nr i' = i_nr i" "0 < i_count i'" "is_dirty i'"
    and t: "super_wf t" "used_inodes t = used_inodes (sbk w)" "file_wf t (in_d i')"
      "foreign t (in_d i') = foreign (sbk w) (in_d i)"
    and same: "same_blocks ({18..<DATA_START} \<union> (+) DATA_START ` foreign (sbk w) (in_d i)) (sbk w) t"
  defines "w' \<equiv> (set_inode_at w a i')\<lparr>sbk := t\<rparr>"
  shows "fs_wf w'" "cached w' n a i'" "dinode_at w' n = in_d i'" "refs w' n = i_count i'" "others_same n w w'"
proof -
  note cw = fs_wfD(1) [OF w]
  have n: "n < NR_INODES" "n \<in> used_inodes (sbk w)" using cached_used [OF w c] fs_wfD(3) [OF w] by auto
  have d: "dinode_at w n = in_d i" by (rule dinode_at_cached [OF cw c])
  have disk: "disk_inode t m = disk_inode (sbk w) m" if "m < NR_INODES" for m
    by (rule disk_inode_same_blocks [OF same_blocks_mono [OF same] fs_wfD(2) [OF w] that]) simp
  have cw': "cache_wf w'"
    unfolding w'_def using i' t disk tree_wf_dinode [OF file_wfD(1) [OF t(3)]] by (intro cache_wf_set [OF cw c]) auto
  show c': "cached w' n a i'" using c i'(1) by (simp add: cached_def w'_def)
  show d': "dinode_at w' n = in_d i'" "refs w' n = i_count i'"
    using dinode_at_cached [OF cw' c'] refs_cached [OF cw' c'] by auto
  have sb: "cached w' m b j \<longleftrightarrow> cached w m b j" if "m \<noteq> n" for m b j
    using that c i'(1) by (auto simp: cached_def w'_def)
  have oth: "dinode_at w' m = dinode_at w m" "refs w' m = refs w m" if "m < NR_INODES" "m \<noteq> n" for m
    using fs_cong [OF cw cw' sb [OF that(2)]] disk [OF that(1)] by (auto simp: w'_def)
  have F: "files_wf (sbk w) (dinode_at w)" using w by (simp add: fs_wf_def)
  have step: "files_wf t ((dinode_at w)(n := in_d i'))"
    "m \<in> used_inodes (sbk w) \<Longrightarrow> m \<noteq> n \<Longrightarrow> L < MAX_FILE_BLOCKS \<Longrightarrow>
      fblock t (dinode_at w m) L = fblock (sbk w) (dinode_at w m) L" for m L
    by (rule files_wf_step [OF F n(1)]; use n t d same in \<open>auto simp: foreign_def elim: same_blocks_mono\<close>)+
  have "files_wf t (dinode_at w')"
  proof -
    have "((dinode_at w)(n := in_d i')) m = dinode_at w' m" if "m \<in> used_inodes t" for m
      using that fs_wfD(3) [OF w] t(2) oth d' by auto
    then show ?thesis using step(1) by (auto simp: files_wf_def)
  qed
  moreover have "dinode_at w' m = zero_dinode \<and> (\<forall>a i. \<not> cached w' m a i)" if "m < NR_INODES" "m \<notin> used_inodes t" for m
    using that n oth [of m] sb [of m] t(2) fs_wfD(5,6) [OF w that(1)] by auto
  ultimately show "fs_wf w'" using cw' by (simp add: fs_wf_def w'_def)
  show "others_same n w w'"
    unfolding others_same_def
  proof (intro conjI allI impI)
    fix m off assume m: "m < NR_INODES" "m \<noteq> n" and off: "off < MAX_FILE_BYTES"
    show "contents w' m off = contents w m off"
    proof (cases "m \<in> used_inodes (sbk w)")
      case True
      show ?thesis by (rule contents_cong [OF oth(1) [OF m]]) (use step(2) [OF True m(2)] off in \<open>simp_all add: w'_def\<close>)
    next
      case False
      then have "dinode_at w m = empty_dinode 0" using fs_wfD(5) [OF w m(1)] by (simp add: empty_dinode_def zero_dinode_def)
      then show ?thesis using oth(1) [OF m] fbyte_empty [OF off] by (simp add: contents_def)
    qed
  qed (use oth sb in \<open>simp_all add: w'_def\<close>)
qed

section \<open>The operations\<close>

text \<open>A step that only touches the structures in memory, or the disk below the data blocks.\<close>

lemma fs_wf_same_view:
  assumes w: "fs_wf w" and cw: "cache_wf w'" and d: "\<And>m. m < NR_INODES \<Longrightarrow> dinode_at w' m = dinode_at w m"
    and u: "used_inodes (sbk w') = used_inodes (sbk w)" "used_blocks (sbk w') = used_blocks (sbk w)"
    and same: "same_blocks {DATA_START..} (sbk w) (sbk w')"
    and un: "\<And>m a i. m < NR_INODES \<Longrightarrow> m \<notin> used_inodes (sbk w) \<Longrightarrow> \<not> cached w' m a i"
  shows "fs_wf w'" "off < MAX_FILE_BYTES \<Longrightarrow> n < NR_INODES \<Longrightarrow> contents w' n off = contents w n off"
proof -
  have fr: "file_wf (sbk w') (dinode_at w m)" "owned (sbk w') (dinode_at w m) = owned (sbk w) (dinode_at w m)"
    "L < MAX_FILE_BLOCKS \<Longrightarrow> fblock (sbk w') (dinode_at w m) L = fblock (sbk w) (dinode_at w m) L"
    if "m \<in> used_inodes (sbk w)" for m L
  proof -
    have fw: "file_wf (sbk w) (dinode_at w m)" by (rule fs_wfD(4) [OF w that])
    have sm: "same_blocks ((+) DATA_START ` owned (sbk w) (dinode_at w m)) (sbk w) (sbk w')"
      by (rule same_blocks_mono [OF same]) auto
    have us: "owned (sbk w) (dinode_at w m) \<subseteq> used_blocks (sbk w')"
      using owned_used [OF file_wfD(1) [OF fw]] u by simp
    show "file_wf (sbk w') (dinode_at w m)" "owned (sbk w') (dinode_at w m) = owned (sbk w) (dinode_at w m)"
      "L < MAX_FILE_BLOCKS \<Longrightarrow> fblock (sbk w') (dinode_at w m) L = fblock (sbk w) (dinode_at w m) L"
      using file_wf_frame [OF fw sm us] by simp_all
  qed
  have F: "files_wf (sbk w) (dinode_at w)" using w by (simp add: fs_wf_def)
  have "files_wf (sbk w') (dinode_at w)" using F fr u by (auto simp: files_wf_def)
  moreover have "dinode_at w' m = dinode_at w m" if "m \<in> used_inodes (sbk w)" for m
    using d fs_wfD(3) [OF w that] by simp
  ultimately have "files_wf (sbk w') (dinode_at w')" using u by (simp add: files_wf_def)
  then show "fs_wf w'" using w cw d u un by (simp add: fs_wf_def)
  show "contents w' n off = contents w n off" if "off < MAX_FILE_BYTES" "n < NR_INODES"
  proof (cases "n \<in> used_inodes (sbk w)")
    case True
    then show ?thesis using fr(3) [OF True] that d by (intro contents_cong) auto
  next
    case False
    then have "dinode_at w n = empty_dinode 0" using fs_wfD(5) [OF w that(2)] by (simp add: empty_dinode_def zero_dinode_def)
    then show ?thesis using d [OF that(2)] fbyte_empty [OF that(1)] by (simp add: contents_def)
  qed
qed

lemma fs_get_inode:
  assumes w: "fs_wf w" and n: "n \<in> used_inodes (sbk w)"
  obtains a i w' where "testfs_get_inode w (int n) = Inr (a, w')" "fs_wf w'" "cached w' n a i"
    "sbk w' = sbk w" "others_same n w w'" "dinode_at w' = dinode_at w" "refs w' = (refs w)(n := refs w n + 1)"
    "\<And>j. cached w n a j \<Longrightarrow> is_dirty i = is_dirty j" "refs w n = 0 \<Longrightarrow> \<not> is_dirty i" "contents w' = contents w"
proof -
  obtain a i w' where g: "testfs_get_inode w (int n) = Inr (a, w')" "cache_wf w'" "cached w' n a i"
    "sbk w' = sbk w" "same_but n w w'" "dinode_at w' = dinode_at w" "refs w' = (refs w)(n := refs w n + 1)"
    "\<And>j. cached w n a j \<Longrightarrow> is_dirty i = is_dirty j" "refs w n = 0 \<Longrightarrow> \<not> is_dirty i"
    by (rule testfs_get_inode_view [OF fs_wfD(1) [OF w] fs_wfD(3) [OF w n]]) blast
  have "\<not> cached w' m b j" if "m < NR_INODES" "m \<notin> used_inodes (sbk w)" for m b j
    using that n g(5) fs_wfD(6) [OF w that] unfolding same_but_def by metis
  then have "fs_wf w'" using g by (intro fs_wf_same_view(1) [OF w]) auto
  then show ?thesis
    using g same_but_others_same [OF fs_wfD(1) [OF w] g(2,5,4)] by (intro that [of a w' i]) (auto simp: contents_def fun_eq_iff)
qed

lemma fs_put_inode:
  assumes w: "fs_wf w" and c: "cached w n a i" and d: "\<not> is_dirty i"
  obtains w' where "testfs_put_inode a w = Inr w'" "fs_wf w'" "sbk w' = sbk w" "others_same n w w'"
    "dinode_at w' = dinode_at w" "refs w' = (refs w)(n := refs w n - 1)" "contents w' = contents w"
proof -
  obtain w' where p: "testfs_put_inode a w = Inr w'" "cache_wf w'" "sbk w' = sbk w" "same_but n w w'"
    "dinode_at w' = dinode_at w" "refs w' = (refs w)(n := refs w n - 1)"
    by (rule testfs_put_inode_view [OF fs_wfD(1) [OF w] c d]) blast
  have "\<not> cached w' m b j" if "m < NR_INODES" "m \<notin> used_inodes (sbk w)" for m b j
    using that p(4) fs_wfD(6) [OF w that] cached_used [OF w c] unfolding same_but_def by metis
  then have "fs_wf w'" using p by (intro fs_wf_same_view(1) [OF w]) auto
  then show ?thesis
    using p same_but_others_same [OF fs_wfD(1) [OF w] p(2,4,3)] by (intro that [of w']) (auto simp: contents_def fun_eq_iff)
qed

lemma cache_sync_inode:
  assumes cw: "cache_wf w" and c: "cached w n a i"
  defines "s' \<equiv> if is_dirty i then put_disk (sbk w) n (in_d i) else sbk w"
  defines "w' \<equiv> (set_inode_at w a (if is_dirty i then clear_dirty i else i))\<lparr>sbk := s'\<rparr>"
  shows "testfs_sync_inode_at a w = Inr w'" "cache_wf w'" "cached w' n a (if is_dirty i then clear_dirty i else i)"
    "same_but n w w'" "disk_inode s' n = in_d i" "m < NR_INODES \<Longrightarrow> m \<noteq> n \<Longrightarrow> disk_inode s' m = disk_inode (sbk w) m"
    "dinode_at w' n = dinode_at w n" "refs w' n = refs w n" "sb_d s' = sb_d (sbk w)"
    "used_inodes s' = used_inodes (sbk w)" "used_blocks s' = used_blocks (sbk w)" "same_blocks {DATA_START..} (sbk w) s'"
proof -
  have i: "inodes w a = Some i" "i_nr i = int n" using c by (auto simp: cached_def)
  note st = cache_wf_structure [OF cw i(1)] and sw = cache_wfD(2) [OF cw]
  have n: "n < NR_INODES" "dinode_wf (in_d i)" "0 < i_count i" and disk: "\<not> is_dirty i \<Longrightarrow> in_d i = disk_inode (sbk w) n"
    using st i(2) by (auto simp: structure_wf_def)
  note P = put_disk_super [OF sw n(1,2)]
  note D = disk_inodes.wf_put [OF sw n(1,2)] disk_inodes.get_put_same [OF sw n(1,2)]
    disk_inodes.get_put_other [OF sw n(1,2)]
  show "testfs_sync_inode_at a w = Inr w'"
    using i testfs_sync_inode_eq [OF sw i(2) n(1,2)]
    by (simp add: testfs_sync_inode_at_def on_inode_def get_inode_at_def w'_def s'_def)
  show dn: "disk_inode s' n = in_d i" using D disk by (simp add: s'_def)
  show dm: "disk_inode s' m = disk_inode (sbk w) m" if "m < NR_INODES" "m \<noteq> n" for m
    using D(3) that by (auto simp: s'_def)
  show cw': "cache_wf w'"
    unfolding w'_def using n D dn dm sw by (intro cache_wf_set [OF cw c]) (auto simp: s'_def)
  show c': "cached w' n a (if is_dirty i then clear_dirty i else i)" using i by (simp add: cached_def w'_def)
  show "same_but n w w'" using i by (auto simp: same_but_def cached_def w'_def)
  show "dinode_at w' n = dinode_at w n" "refs w' n = refs w n"
    using dinode_at_cached [OF cw' c'] refs_cached [OF cw' c'] dinode_at_cached [OF cw c] refs_cached [OF cw c] by auto
  show "sb_d s' = sb_d (sbk w)" "used_inodes s' = used_inodes (sbk w)" "used_blocks s' = used_blocks (sbk w)"
    "same_blocks {DATA_START..} (sbk w) s'" using P by (auto simp: s'_def)
qed

lemma fs_sync_inode:
  assumes w: "fs_wf w" and c: "cached w n a i"
  obtains w' where "testfs_sync_inode_at a w = Inr w'" "fs_wf w'" "others_same n w w'"
    "cached w' n a (if is_dirty i then clear_dirty i else i)"
    "dinode_at w' n = dinode_at w n" "refs w' n = refs w n" "used_inodes (sbk w') = used_inodes (sbk w)"
    "used_blocks (sbk w') = used_blocks (sbk w)" "max_fs_blocks (sb_d (sbk w')) = max_fs_blocks (sb_d (sbk w))"
    "\<And>off. off < MAX_FILE_BYTES \<Longrightarrow> contents w' n off = contents w n off" "disk_inode (sbk w') n = in_d i"
    "same_blocks {DATA_START..} (sbk w) (sbk w')"
proof -
  note cw = fs_wfD(1) [OF w]
  note S = cache_sync_inode [OF cw c]
  let ?s = "if is_dirty i then put_disk (sbk w) n (in_d i) else sbk w"
  let ?w = "(set_inode_at w a (if is_dirty i then clear_dirty i else i))\<lparr>sbk := ?s\<rparr>"
  have n: "n < NR_INODES" using fs_wfD(3) [OF w cached_used [OF w c]] .
  have sb: "cached ?w m b j \<longleftrightarrow> cached w m b j" if "m \<noteq> n" for m b j
    using S(4) that unfolding same_but_def by blast
  have oth: "dinode_at ?w m = dinode_at w m" "refs ?w m = refs w m" if "m < NR_INODES" "m \<noteq> n" for m
    using fs_cong [OF cw S(2) sb [OF that(2)]] S(6) [OF that] by auto
  have un: "\<not> cached ?w m b j" if "m < NR_INODES" "m \<notin> used_inodes (sbk w)" for m b j
    using that sb fs_wfD(6) [OF w that] cached_used [OF w c] by metis
  have all: "dinode_at ?w m = dinode_at w m" if "m < NR_INODES" for m using oth(1) S(7) that by (cases "m = n") auto
  have FW: "fs_wf ?w" "\<And>m off. off < MAX_FILE_BYTES \<Longrightarrow> m < NR_INODES \<Longrightarrow> contents ?w m off = contents w m off"
    using fs_wf_same_view [OF w S(2) all _ _ _ un] S(10-12) by simp_all
  have os: "others_same n w ?w" using oth sb FW(2) by (simp add: others_same_def)
  show ?thesis by (rule that [OF S(1) FW(1) os S(3,7,8)]) (use S(5,9-12) FW(2) n in simp_all)
qed

lemma fs_write_data:
  assumes w: "fs_wf w" and c: "cached w n a i" and sz: "0 < sz" "sz \<le> length buf" "sz + BLOCK_SIZE \<le> 2 ^ 31"
    and max: "start + sz \<le> MAX_FILE_BYTES" and room: "room (sbk w) (write_room start sz)"
  obtains i' w' where
    "on_inode a (\<lambda>i s. testfs_write_data i s buf (int start) sz st) w = Inr (int sz, w')" "fs_wf w'"
    "cached w' n a i'" "is_dirty i'" "others_same n w w'" "refs w' n = refs w n"
    "fsize (dinode_at w' n) = max (fsize (dinode_at w n)) (start + sz)" "i_type (dinode_at w' n) = i_type (dinode_at w n)"
    "\<And>off. start \<le> off \<Longrightarrow> off < start + sz \<Longrightarrow> contents w' n off = buf ! (off - start)"
    "\<And>off. off < MAX_FILE_BYTES \<Longrightarrow> \<not> (start \<le> off \<and> off < start + sz) \<Longrightarrow> off div BLOCK_SIZE < 2058 \<Longrightarrow>
      contents w' n off = contents w n off"
    "used_inodes (sbk w') = used_inodes (sbk w)" "max_fs_blocks (sb_d (sbk w')) = max_fs_blocks (sb_d (sbk w))"
    "card (used_blocks (sbk w')) \<le> card (used_blocks (sbk w)) + write_room start sz"
proof -
  note cw = fs_wfD(1) [OF w]
  have i: "inodes w a = Some i" "i_nr i = int n" using c by (auto simp: cached_def)
  have n: "n \<in> used_inodes (sbk w)" by (rule cached_used [OF w c])
  have d: "dinode_at w n = in_d i" by (rule dinode_at_cached [OF cw c])
  have fw: "file_wf (sbk w) (in_d i)" using fs_wfD(4) [OF w n] d by simp
  have cnt: "0 < i_count i" using cache_wf_structure [OF cw i(1)] by (simp add: structure_wf_def)
  obtain i' t where W: "testfs_write_data i (sbk w) buf (int start) sz st = Inr (int sz, i', t)"
    "super_wf t" "file_wf t (in_d i')" "fsize (in_d i') = max (fsize (in_d i)) (start + sz)"
    "\<And>off. start \<le> off \<Longrightarrow> off < start + sz \<Longrightarrow> fbyte t (in_d i') off = buf ! (off - start)"
    "\<And>off. off < MAX_FILE_BYTES \<Longrightarrow> \<not> (start \<le> off \<and> off < start + sz) \<Longrightarrow>
      off div BLOCK_SIZE < 2058 \<or> off div BLOCK_SIZE \<in> mapped (sbk w) (in_d i) \<or>
        off div BLOCK_SIZE \<notin> blocks_of start sz \<Longrightarrow>
      fbyte t (in_d i') off = fbyte (sbk w) (in_d i) off"
    "foreign t (in_d i') = foreign (sbk w) (in_d i)" "used_inodes t = used_inodes (sbk w)"
    "same_blocks ({18..<DATA_START} \<union> (+) DATA_START ` foreign (sbk w) (in_d i)) (sbk w) t"
    "i_nr i' = i_nr i" "i_count i' = i_count i" "i_type (in_d i') = i_type (in_d i)" "is_dirty i'"
    "max_fs_blocks (sb_d t) = max_fs_blocks (sb_d (sbk w))"
    "card (used_blocks t) \<le> card (used_blocks (sbk w)) + write_room start sz"
    by (rule testfs_write_data_cases [OF fs_wfD(2) [OF w] fw sz max room, of st]) blast
  note S = fs_step [OF w c W(10) _ W(13) W(2,8,3,7,9), unfolded W(11), OF cnt]
  show ?thesis
    by (rule that [OF _ S(1,2) W(13) S(5)])
      (use S i d W refs_cached [OF cw c] in \<open>auto simp: on_inode_def get_inode_at_def contents_def\<close>)
qed

section \<open>Creating and removing\<close>

lemma zero_dinode_empty: "zero_dinode = empty_dinode 0"
  by (simp add: empty_dinode_def zero_dinode_def)

lemma file_wf_zero [simp]: "file_wf s zero_dinode"
  by (simp add: zero_dinode_empty)

text \<open>Only the maps of the disk change: what is in memory stays what it is.\<close>

lemma cache_wf_sbk:
  assumes cw: "cache_wf w" and t: "super_wf t" and same: "same_blocks {18..} (sbk w) t"
  shows "cache_wf (w\<lparr>sbk := t\<rparr>)" "m < NR_INODES \<Longrightarrow> dinode_at (w\<lparr>sbk := t\<rparr>) m = dinode_at w m"
    "refs (w\<lparr>sbk := t\<rparr>) = refs w" "cached (w\<lparr>sbk := t\<rparr>) m b j \<longleftrightarrow> cached w m b j"
    "m < NR_INODES \<Longrightarrow> disk_inode t m = disk_inode (sbk w) m"
proof -
  let ?w = "w\<lparr>sbk := t\<rparr>"
  have disk: "disk_inode t m = disk_inode (sbk w) m" if "m < NR_INODES" for m
    by (rule disk_inode_same_blocks [OF same_blocks_mono [OF same] cache_wfD(2) [OF cw] that]) auto
  have cc: "cached ?w m b j \<longleftrightarrow> cached w m b j" for m b j by (simp add: cached_def)
  obtain bt where bt: "buckets w bt" using cw by (auto simp: cache_wf_def)
  have "structure_wf ?w b j" if b: "inodes ?w b = Some j" for b j
  proof -
    have b': "inodes w b = Some j" using b by simp
    show ?thesis using cached_nr [OF cw b'] cache_wf_structure [OF cw b'] disk
      by (auto simp: structure_wf_def)
  qed
  moreover have "buckets ?w bt" using bt by (simp add: buckets_def)
  ultimately have cw': "cache_wf ?w"
    using cache_wfD [OF cw] cache_wf_inj [OF cw] t by (intro cache_wfI [of _ bt]) auto
  have d: "dinode_at ?w m = dinode_at w m" if "m < NR_INODES" for m
    using fs_cong [OF cw cw' cc] disk [OF that] by simp
  show "refs ?w = refs w"
  proof
    fix k show "refs ?w k = refs w k"
    proof (cases "\<exists>a i. cached w k a i")
      case True
      then obtain a i where "cached w k a i" by blast
      then show ?thesis using refs_cached [OF cw, of k a i] refs_cached [OF cw', of k a i] cc by simp
    next
      case False
      then show ?thesis using refs_none [of w k] refs_none [of ?w k] cc by simp
    qed
  qed
  show "cache_wf ?w" "m < NR_INODES \<Longrightarrow> dinode_at ?w m = dinode_at w m" "cached ?w m b j \<longleftrightarrow> cached w m b j"
    "m < NR_INODES \<Longrightarrow> disk_inode t m = disk_inode (sbk w) m"
    using cw' d cc disk by simp_all
qed

text \<open>The free map of the inodes changes, the blocks do not.\<close>

lemma fs_wf_number:
  assumes w: "fs_wf w" and t: "super_wf t" "used_blocks t = used_blocks (sbk w)" and same: "same_blocks {18..} (sbk w) t"
    and u: "used_inodes t = insert n (used_inodes (sbk w))" and n: "n < NR_INODES"
  shows "fs_wf (w\<lparr>sbk := t\<rparr>)" "dinode_at (w\<lparr>sbk := t\<rparr>) m = dinode_at w m \<or> NR_INODES \<le> m"
    "refs (w\<lparr>sbk := t\<rparr>) = refs w"
    "m < NR_INODES \<Longrightarrow> off < MAX_FILE_BYTES \<Longrightarrow> contents (w\<lparr>sbk := t\<rparr>) m off = contents w m off"
proof -
  note cw = fs_wfD(1) [OF w]
  let ?w = "w\<lparr>sbk := t\<rparr>"
  note C = cache_wf_sbk [OF cw t(1) same]
  note cw' = C(1) and d = C(2) and cc = C(4)
  show "dinode_at ?w m = dinode_at w m \<or> NR_INODES \<le> m" using d by (cases "m < NR_INODES") auto
  show "refs ?w = refs w" by (rule C(3))
  have F: "files_wf (sbk w) (dinode_at w)" using w by (simp add: fs_wf_def)
  have same': "same_blocks ((+) DATA_START ` used_blocks (sbk w)) (sbk w) t" by (rule same_blocks_mono [OF same]) auto
  have Fm: "file_wf t (dinode_at w m)" "owned t (dinode_at w m) = owned (sbk w) (dinode_at w m)"
      "L < MAX_FILE_BLOCKS \<Longrightarrow> fblock t (dinode_at w m) L = fblock (sbk w) (dinode_at w m) L" if "m \<in> insert n (used_inodes (sbk w))" for m L
  proof -
    have fw: "file_wf (sbk w) (dinode_at w m)"
    proof (cases "m \<in> used_inodes (sbk w)")
      case False
      then show ?thesis using fs_wfD(5) [OF w, of m] that n by simp
    qed (rule fs_wfD(4) [OF w])
    have o: "owned (sbk w) (dinode_at w m) \<subseteq> used_blocks (sbk w)" by (rule owned_used [OF file_wfD(1) [OF fw]])
    then have sm: "same_blocks ((+) DATA_START ` owned (sbk w) (dinode_at w m)) (sbk w) t"
      by (intro same_blocks_mono [OF same']) auto
    show "file_wf t (dinode_at w m)" "owned t (dinode_at w m) = owned (sbk w) (dinode_at w m)"
      "L < MAX_FILE_BLOCKS \<Longrightarrow> fblock t (dinode_at w m) L = fblock (sbk w) (dinode_at w m) L"
      using file_wf_frame [OF fw sm] o t(2) by simp_all
  qed
  have on: "owned (sbk w) (dinode_at w n) \<subseteq> (\<Union>m\<in>used_inodes (sbk w). owned (sbk w) (dinode_at w m))"
    "\<And>m. m \<in> used_inodes (sbk w) \<Longrightarrow> m \<noteq> n \<Longrightarrow> owned (sbk w) (dinode_at w m) \<inter> owned (sbk w) (dinode_at w n) = {}"
    using F fs_wfD(5) [OF w n] by (cases "n \<in> used_inodes (sbk w)"; auto simp: files_wf_def)+
  have "files_wf t (dinode_at w)"
    using F Fm on n unfolding files_wf_def u t(2) by (auto simp: Int_commute)
  then have "files_wf t (dinode_at ?w)" using d n fs_wfD(3) [OF w] unfolding files_wf_def u by auto
  then show "fs_wf ?w"
    using cw' d cc u fs_wfD(5,6) [OF w] by (simp add: fs_wf_def)
  show "contents ?w m off = contents w m off" if "m < NR_INODES" "off < MAX_FILE_BYTES"
  proof (cases "m \<in> used_inodes (sbk w)")
    case True
    then show ?thesis using d [OF that(1)] Fm(3) that(2) by (intro contents_cong) auto
  next
    case False
    then have "dinode_at w m = empty_dinode 0" using fs_wfD(5) [OF w that(1)] by (simp add: zero_dinode_empty)
    then show ?thesis using d [OF that(1)] fbyte_empty [OF that(2)] by (simp add: contents_def)
  qed
qed

text \<open>
  Creating an inode: it gets a number that was free, no block, the type asked for and one use. When there is none, or only
  one that the inode blocks have no room for, which is given back, the file system is as it was.
\<close>

lemma fs_create_inode:
  assumes w: "fs_wf w"
  obtains (full) w' where "testfs_create_inode w ty = Inr (- ENOSPC, 0, w')" "fs_wf w'"
      "used_inodes (sbk w') = used_inodes (sbk w)" "used_blocks (sbk w') = used_blocks (sbk w)"
      "\<And>m. m < NR_INODES \<Longrightarrow> dinode_at w' m = dinode_at w m" "refs w' = refs w" "used_inodes (sbk w) \<supseteq> {..<NR_INODES}"
      "others_same NR_INODES w w'"
  | (created) n a i w' where "testfs_create_inode w ty = Inr (0, a, w')" "fs_wf w'" "cached w' n a i"
      "n < NR_INODES" "n \<notin> used_inodes (sbk w)" "used_inodes (sbk w') = insert n (used_inodes (sbk w))"
      "dinode_at w' n = empty_dinode ty" "refs w' n = 1" "is_dirty i" "others_same n w w'"
      "used_blocks (sbk w') = used_blocks (sbk w)" "max_fs_blocks (sb_d (sbk w')) = max_fs_blocks (sb_d (sbk w))"
proof (cases rule: testfs_get_inode_freemap_cases [OF fs_wfD(2) [OF w]])
  case 1
  then have "testfs_create_inode w ty = Inr (- ENOSPC, 0, w)" by (simp add: testfs_create_inode_def)
  moreover have "{..<NR_INODES} \<subseteq> used_inodes (sbk w)" using 1 by auto
  ultimately show ?thesis using full w by auto
next
  case (2 n t)
  have m: "int n mod 2 ^ 32 = int n" using 2(2) by simp
  show ?thesis
  proof (cases "n < NR_INODES")
    case False
    have nb: "int NR_INODE_BLOCKS \<le> int n div int INODES_PER_BLOCK" using False by simp
    show ?thesis
    proof (cases rule: testfs_put_inode_freemap_cases [OF 2(4,2)])
      case (1 u)
      have sb: "same_blocks {18..} (sbk w) u" using same_blocks_trans [OF 2(8) 1(7)] by simp
      have us: "used_inodes u = used_inodes (sbk w)" "used_blocks u = used_blocks (sbk w)" using 1 2 by auto
      note C = cache_wf_sbk [OF fs_wfD(1) [OF w] 1(3) sb]
      have V: "fs_wf (w\<lparr>sbk := u\<rparr>)" "off < MAX_FILE_BYTES \<Longrightarrow> m < NR_INODES \<Longrightarrow> contents (w\<lparr>sbk := u\<rparr>) m off = contents w m off" for m off
        by (rule fs_wf_same_view [OF w C(1,2)];
          use us C(4) fs_wfD(6) [OF w] same_blocks_mono [OF sb] in force)+
      moreover have "others_same NR_INODES w (w\<lparr>sbk := u\<rparr>)" using V(2) C(2-4) by (simp add: others_same_def)
      moreover have "testfs_create_inode w ty = Inr (- ENOSPC, 0, w\<lparr>sbk := u\<rparr>)"
        using 1(2) 2(1) m nb by (simp add: testfs_create_inode_def Let_def)
      moreover have "{..<NR_INODES} \<subseteq> used_inodes (sbk w)" using 2(9) False by auto
      ultimately show ?thesis using full us C(2,3) by simp
    next
      case 2
      then show ?thesis using \<open>used_inodes t = insert n (used_inodes (sbk w))\<close> by simp
    qed
  next
    case True
    have nb: "\<not> int NR_INODE_BLOCKS \<le> int n div int INODES_PER_BLOCK" using True by simp
    let ?w1 = "w\<lparr>sbk := t\<rparr>"
    note F = fs_wf_number [OF w 2(4,6,8,5) True]
    have w1: "fs_wf ?w1" by (rule F(1))
    have c0: "refs ?w1 n = 0" using F(3) refs_none [of w n] fs_wfD(6) [OF w True 2(3)] by simp
    have d0: "dinode_at ?w1 n = zero_dinode" using F(2) [of n] fs_wfD(5) [OF w True 2(3)] True by auto
    have o1: "others_same n w ?w1"
      using F by (fastforce simp: others_same_def cached_def)
    obtain a i w2 where g: "testfs_get_inode ?w1 (int n) = Inr (a, w2)" "fs_wf w2" "cached w2 n a i"
      "sbk w2 = sbk ?w1" "others_same n ?w1 w2" "dinode_at w2 = dinode_at ?w1" "refs w2 = (refs ?w1)(n := refs ?w1 n + 1)"
      by (rule fs_get_inode [OF w1, of n]) (use 2(5) in auto)
    have di: "in_d i = zero_dinode" using dinode_at_cached [OF fs_wfD(1) [OF g(2)] g(3)] g(6) d0 by simp
    have ci: "i_count i = 1" using refs_cached [OF fs_wfD(1) [OF g(2)] g(3)] g(7) c0 by simp
    let ?i = "set_dirty (i\<lparr>in_d := (in_d i)\<lparr>i_type := ty\<rparr>\<rparr>)"
    have ie: "in_d ?i = empty_dinode ty" by (simp add: di empty_dinode_def)
    have st: "fs_wf ((set_inode_at w2 a ?i)\<lparr>sbk := sbk w2\<rparr>)" "cached ((set_inode_at w2 a ?i)\<lparr>sbk := sbk w2\<rparr>) n a ?i"
      "dinode_at ((set_inode_at w2 a ?i)\<lparr>sbk := sbk w2\<rparr>) n = in_d ?i"
      "refs ((set_inode_at w2 a ?i)\<lparr>sbk := sbk w2\<rparr>) n = i_count ?i"
      "others_same n w2 ((set_inode_at w2 a ?i)\<lparr>sbk := sbk w2\<rparr>)"
      by (rule fs_step [OF g(2,3)]; use ie ci di fs_wfD(2) [OF g(2)] in \<open>simp add: foreign_def\<close>)+
    have e: "(set_inode_at w2 a ?i)\<lparr>sbk := sbk w2\<rparr> = set_inode_at w2 a ?i" by (simp add: set_inode_at_def)
    note st = st [unfolded e]
    have r: "testfs_create_inode w ty = Inr (0, a, set_inode_at w2 a ?i)"
      using 2(1) m nb g(1,3) by (simp add: testfs_create_inode_def Let_def get_inode_at_def cached_def)
    show ?thesis
      by (rule created [OF r st(1,2) True 2(3)])
        (use st(3,4) ie ci 2 g(4) others_same_trans [OF others_same_trans [OF o1 g(5)] st(5)] in auto)
  qed
qed

text \<open>An unused, empty inode that is no longer in memory can be taken out.\<close>

lemma fs_wf_forget:
  assumes w: "fs_wf w" and cw: "cache_wf w'" and n: "n \<in> used_inodes (sbk w)" "dinode_at w n = zero_dinode"
    and d: "\<And>m. m < NR_INODES \<Longrightarrow> dinode_at w' m = dinode_at w m"
    and u: "used_inodes (sbk w') = used_inodes (sbk w) - {n}" "used_blocks (sbk w') = used_blocks (sbk w)"
    and same: "same_blocks {DATA_START..} (sbk w) (sbk w')"
    and un: "\<And>a i. \<not> cached w' n a i" "\<And>m a i. m \<noteq> n \<Longrightarrow> cached w' m a i \<longleftrightarrow> cached w m a i"
  shows "fs_wf w'" "off < MAX_FILE_BYTES \<Longrightarrow> m < NR_INODES \<Longrightarrow> contents w' m off = contents w m off"
proof -
  have fr: "file_wf (sbk w') (dinode_at w m)" "owned (sbk w') (dinode_at w m) = owned (sbk w) (dinode_at w m)"
    "L < MAX_FILE_BLOCKS \<Longrightarrow> fblock (sbk w') (dinode_at w m) L = fblock (sbk w) (dinode_at w m) L"
    if "m \<in> used_inodes (sbk w)" for m L
  proof -
    have fw: "file_wf (sbk w) (dinode_at w m)" by (rule fs_wfD(4) [OF w that])
    have sm: "same_blocks ((+) DATA_START ` owned (sbk w) (dinode_at w m)) (sbk w) (sbk w')"
      by (rule same_blocks_mono [OF same]) auto
    have us: "owned (sbk w) (dinode_at w m) \<subseteq> used_blocks (sbk w')"
      using owned_used [OF file_wfD(1) [OF fw]] u by simp
    show "file_wf (sbk w') (dinode_at w m)" "owned (sbk w') (dinode_at w m) = owned (sbk w) (dinode_at w m)"
      "L < MAX_FILE_BLOCKS \<Longrightarrow> fblock (sbk w') (dinode_at w m) L = fblock (sbk w) (dinode_at w m) L"
      using file_wf_frame [OF fw sm us] by simp_all
  qed
  have F: "files_wf (sbk w) (dinode_at w)" using w by (simp add: fs_wf_def)
  have on: "owned (sbk w) (dinode_at w n) = {}" using n(2) by simp
  have "(\<Union>m\<in>used_inodes (sbk w). owned (sbk w) (dinode_at w m)) = (\<Union>m\<in>used_inodes (sbk w) - {n}. owned (sbk w) (dinode_at w m))"
    using on by blast
  then have "files_wf (sbk w') (dinode_at w)" using F fr u by (simp add: files_wf_def)
  moreover have "dinode_at w' m = dinode_at w m" if "m \<in> used_inodes (sbk w)" for m
    using d fs_wfD(3) [OF w that] by simp
  ultimately have "files_wf (sbk w') (dinode_at w')" using u by (simp add: files_wf_def)
  moreover have "dinode_at w' m = zero_dinode \<and> (\<forall>a i. \<not> cached w' m a i)" if "m < NR_INODES" "m \<notin> used_inodes (sbk w')" for m
    using that u n d [OF that(1)] un fs_wfD(5,6) [OF w that(1)] by (cases "m = n") auto
  ultimately show "fs_wf w'" using cw by (simp add: fs_wf_def)
  show "contents w' m off = contents w m off" if "off < MAX_FILE_BYTES" "m < NR_INODES"
  proof (cases "m \<in> used_inodes (sbk w)")
    case True
    then show ?thesis using fr(3) [OF True] that d by (intro contents_cong) auto
  next
    case False
    then have "dinode_at w m = empty_dinode 0" using fs_wfD(5) [OF w that(2)] by (simp add: zero_dinode_empty)
    then show ?thesis using d [OF that(2)] fbyte_empty [OF that(1)] by (simp add: contents_def)
  qed
qed

text \<open>
  Removing the inode of a file that only the caller uses: its blocks and its number are given back, the inode on
  the disk is zero, and no other file changes.
\<close>

lemma fs_remove_inode:
  assumes w: "fs_wf w" and c: "cached w n a i" and one: "refs w n = 1"
  obtains w' where "testfs_remove_inode a w = Inr w'" "fs_wf w'" "used_inodes (sbk w') = used_inodes (sbk w) - {n}"
    "used_blocks (sbk w') = used_blocks (sbk w) - owned (sbk w) (dinode_at w n)" "others_same n w w'"
    "dinode_at w' n = zero_dinode" "refs w' n = 0" "max_fs_blocks (sb_d (sbk w')) = max_fs_blocks (sb_d (sbk w))"
proof -
  note cw = fs_wfD(1) [OF w]
  have i: "inodes w a = Some i" "i_nr i = int n" using c by (auto simp: cached_def)
  have n: "n \<in> used_inodes (sbk w)" "n < NR_INODES" using cached_used [OF w c] fs_wfD(3) [OF w] by auto
  have d: "dinode_at w n = in_d i" by (rule dinode_at_cached [OF cw c])
  have cnt: "i_count i = 1" using refs_cached [OF cw c] one by simp
  have fw: "file_wf (sbk w) (in_d i)" using fs_wfD(4) [OF w n(1)] d by simp
  obtain i1 t1 where f: "testfs_free_blocks i (sbk w) = Inr (0, i1, t1)" "freed (sbk w) (owned (sbk w) (in_d i)) t1"
    "in_d i1 = zero_dinode\<lparr>i_type := i_type (in_d i)\<rparr>" "i_nr i1 = i_nr i" "i_count i1 = i_count i" "is_dirty i1"
    by (rule testfs_free_blocks_eq [OF fs_wfD(2) [OF w] fw])
  have e1: "in_d i1 = empty_dinode (i_type (in_d i))" using f(3) by (simp add: empty_dinode_def)
  have fu: "used_blocks t1 = foreign (sbk w) (in_d i)" "used_inodes t1 = used_inodes (sbk w)" "super_wf t1"
    "max_fs_blocks (sb_d t1) = max_fs_blocks (sb_d (sbk w))"
    using f(2) by (auto simp: freed_def foreign_def)
  have sm: "same_blocks ({18..<DATA_START} \<union> (+) DATA_START ` foreign (sbk w) (in_d i)) (sbk w) t1"
    by (rule same_blocks_mono [of "{18..} - (+) DATA_START ` owned (sbk w) (in_d i)"])
      (use f(2) in \<open>auto simp: freed_def foreign_def\<close>)
  let ?w1 = "(set_inode_at w a i1)\<lparr>sbk := t1\<rparr>"
  have S1: "fs_wf ?w1" "cached ?w1 n a i1" "others_same n w ?w1"
    by (rule fs_step [OF w c f(4) _ f(6) fu(3,2) _ _ sm]; use f(5) cnt e1 fu(1) in \<open>simp add: foreign_def\<close>)+
  let ?i2 = "set_dirty (i1\<lparr>in_d := zero_dinode\<rparr>)" and ?w2 = "(set_inode_at ?w1 a (set_dirty (i1\<lparr>in_d := zero_dinode\<rparr>)))\<lparr>sbk := t1\<rparr>"
  have S2: "fs_wf ?w2" "cached ?w2 n a ?i2" "others_same n ?w1 ?w2"
    by (rule fs_step [OF S1(1,2)]; use f(5) cnt e1 fu in \<open>simp add: foreign_def\<close>)+
  have e2: "?w2 = set_inode_at ?w1 a ?i2" by (simp add: set_inode_at_def)
  have d2: "dinode_at ?w2 n = zero_dinode" using dinode_at_cached [OF fs_wfD(1) [OF S2(1)] S2(2)] by simp
  have nf: "n < NR_FREEMAP_INODES" using n(2) by simp
  show ?thesis
  proof (cases rule: testfs_put_inode_freemap_cases [OF fu(3) nf])
    case 2
    then show ?thesis using fu(2) n(1) by simp
  next
    case (1 t3)
    let ?w3 = "?w2\<lparr>sbk := t3\<rparr>"
    have sb3: "same_blocks {18..} (sbk ?w2) t3" using 1(7) by simp
    note C3 = cache_wf_sbk [OF fs_wfD(1) [OF S2(1)] 1(3) sb3]
    have c3: "cached ?w3 n a ?i2" using C3(4) S2(2) by simp
    note S4 = cache_sync_inode [OF C3(1) c3]
    let ?w4 = "(set_inode_at ?w3 a (clear_dirty ?i2))\<lparr>sbk := put_disk t3 n zero_dinode\<rparr>"
    have S4: "testfs_sync_inode_at a ?w3 = Inr ?w4" "cache_wf ?w4" "cached ?w4 n a (clear_dirty ?i2)" "same_but n ?w3 ?w4"
      "disk_inode (sbk ?w4) n = zero_dinode" "\<And>m. m < NR_INODES \<Longrightarrow> m \<noteq> n \<Longrightarrow> disk_inode (sbk ?w4) m = disk_inode t3 m"
      "dinode_at ?w4 n = dinode_at ?w3 n" "refs ?w4 n = refs ?w3 n" "sb_d (sbk ?w4) = sb_d t3"
      "used_inodes (sbk ?w4) = used_inodes t3" "used_blocks (sbk ?w4) = used_blocks t3" "same_blocks {DATA_START..} t3 (sbk ?w4)"
      using S4 by simp_all
    have r4: "refs ?w4 n = 1" using refs_cached [OF S4(2,3)] f(5) cnt by simp
    obtain w5 where p: "testfs_put_inode a ?w4 = Inr w5" "cache_wf w5" "sbk w5 = sbk ?w4" "same_but n ?w4 w5"
      "dinode_at w5 = dinode_at ?w4" "refs w5 = (refs ?w4)(n := refs ?w4 n - 1)"
      by (rule testfs_put_inode_view [OF S4(2,3)]) auto
    have r5: "refs w5 n = 0" using p(6) r4 by simp
    have un5: "\<not> cached w5 n b j" for b j using refs_pos [OF p(2), of n] r5 by auto
    have sb5: "cached w5 m b j \<longleftrightarrow> cached ?w2 m b j" if "m \<noteq> n" for m b j
      using that p(4) S4(4) C3(4) [of m b j] unfolding same_but_def by blast
    have dsk: "disk_inode (sbk w5) m = disk_inode (sbk ?w2) m" if "m < NR_INODES" "m \<noteq> n" for m
      using S4(6) [OF that] C3(5) [OF that(1)] p(3) by simp
    have d5: "dinode_at w5 m = dinode_at ?w2 m" if "m < NR_INODES" for m
    proof (cases "m = n")
      case True
      then show ?thesis using p(5) S4(7) C3(2) [OF that] by simp
    next
      case False
      show ?thesis by (rule fs_cong(1) [OF fs_wfD(1) [OF S2(1)] p(2) sb5 [OF False] dsk [OF that False]])
    qed
    have rf5: "refs w5 m = refs ?w2 m" if "m < NR_INODES" "m \<noteq> n" for m
      by (rule fs_cong(2) [OF fs_wfD(1) [OF S2(1)] p(2) sb5 [OF that(2)] dsk [OF that]])
    have u5: "used_inodes (sbk w5) = used_inodes (sbk ?w2) - {n}" "used_blocks (sbk w5) = used_blocks (sbk ?w2)"
      using p(3) S4(10,11) 1(4,5) by simp_all
    have s5: "same_blocks {DATA_START..} (sbk ?w2) (sbk w5)"
      unfolding p(3) by (rule same_blocks_mono [OF same_blocks_trans [OF sb3 S4(12)]]) auto
    have n2: "n \<in> used_inodes (sbk ?w2)" using fu(2) n(1) by simp
    note FW = fs_wf_forget [OF S2(1) p(2) n2 d2 d5 u5 s5 un5 sb5]
    have os: "others_same n ?w2 w5"
      using FW(2) d5 rf5 sb5 p(4) S4(4) by (auto simp: others_same_def same_but_def)
    have r: "testfs_remove_inode a w = Inr w5"
      using i f(1,3) 1(2) S4(1) p(1) f(4)
      by (simp add: testfs_remove_inode_def on_inode_def get_inode_at_def Let_def zero_dinode_def e2 [symmetric])
    show ?thesis
      by (rule that [OF r FW(1)])
        (use u5 fu d r5 p(5) S4(7,9) 1(6) d5 [OF n(2)] d2 p(3)
          others_same_trans [OF others_same_trans [OF S1(3) S2(3)] os] in \<open>auto simp: foreign_def\<close>)
  qed
qed

section \<open>Mounting and closing\<close>

text \<open>
  The whole of \<open>testfs_init_super_block\<close> and \<open>testfs_close_super_block\<close>, with the hash table of inodes they
  set up and take down; \<open>j\<close> is what uninitialised memory holds, and \<open>m k\<close> whether the k-th allocation succeeds.
\<close>

definition testfs_mount :: "(nat \<Rightarrow> bool) \<Rightarrow> int \<Rightarrow> u8 list option \<Rightarrow> (nat \<Rightarrow> u8) \<Rightarrow> (int \<times> fs option) res" where
  "testfs_mount m errno file j =
     rbind (testfs_init_super_block m errno file) (\<lambda>(ret, os).
     case os of
       None \<Rightarrow> Inr (ret, None)
     | Some s \<Rightarrow>
         rbind (inode_hash_init (m 3) \<lparr>sbk = s, inodes = (\<lambda>_. None),
             hnodes = \<lparr>hfirst = (\<lambda>_. 0), hnext = (\<lambda>_. 0), hpprev = (\<lambda>_. HNull)\<rparr>,
             inode_hash_table = T_null, next_addr = 1, junk = j\<rparr>) (\<lambda>w.
         Inr (ret, Some w)))"

definition testfs_unmount :: "fs \<Rightarrow> u8 list res" where
  "testfs_unmount w = testfs_close_super_block (rbind (inode_hash_destroy w) (\<lambda>_. Inr ())) (sbk w)"

definition mounted :: "super_block \<Rightarrow> (nat \<Rightarrow> u8) \<Rightarrow> fs" where
  "mounted s j = \<lparr>sbk = s, inodes = (\<lambda>_. None),
     hnodes = \<lparr>hfirst = (\<lambda>_. 0), hnext = (\<lambda>_. 0), hpprev = (\<lambda>_. HNull)\<rparr>,
     inode_hash_table = T_live, next_addr = 1, junk = j\<rparr>"

lemma inode_hash_init_zero:
  "hfirst h = (\<lambda>_. 0) \<Longrightarrow> fold (\<lambda>k h. INIT_HLIST_HEAD h k) ks h = h"
proof (induction ks)
  case (Cons k ks)
  then have "INIT_HLIST_HEAD h k = h" by (simp add: INIT_HLIST_HEAD_def fun_upd_idem)
  then show ?case using Cons by simp
qed simp

lemma inode_hash_init_mounted:
  "inode_hash_init True \<lparr>sbk = s, inodes = (\<lambda>_. None),
             hnodes = \<lparr>hfirst = (\<lambda>_. 0), hnext = (\<lambda>_. 0), hpprev = (\<lambda>_. HNull)\<rparr>,
             inode_hash_table = T_null, next_addr = 1, junk = j\<rparr> = Inr (mounted s j)"
  by (simp add: inode_hash_init_def mounted_def inode_hash_init_zero)

lemma testfs_mount_eq:
  "testfs_init_super_block (\<lambda>_. True) e f = Inr (0, Some s) \<Longrightarrow> testfs_mount (\<lambda>_. True) e f j = Inr (0, Some (mounted s j))"
  using inode_hash_init_mounted by (simp add: testfs_mount_def)

lemma cache_wf_mounted:
  assumes "super_wf s"
  shows "cache_wf (mounted s j)" "dinode_at (mounted s j) n = disk_inode s n" "refs (mounted s j) n = 0"
    "\<not> cached (mounted s j) n a i" "sbk (mounted s j) = s"
proof -
  show "cache_wf (mounted s j)"
    by (rule cache_wfI [of _ "\<lambda>_. []"]) (simp_all add: mounted_def buckets_def hrep_def assms)
  show "dinode_at (mounted s j) n = disk_inode s n"
    using dinode_at_disk [of "mounted s j" n] by (simp add: cached_def mounted_def)
  show "refs (mounted s j) n = 0" by (simp add: refs_def cached_def mounted_def)
  show "\<not> cached (mounted s j) n a i" "sbk (mounted s j) = s" by (simp_all add: cached_def mounted_def)
qed

lemma bslice_zero: "off + n \<le> m \<Longrightarrow> bslice off n (replicate m x) = replicate n x"
  by (simp add: bslice_def)

lemma un_le_zero: "un_le32 (replicate 4 0) = 0" "un_le64 (replicate 8 0) = 0"
proof -
  show z: "un_le32 (replicate 4 0) = 0" by (simp add: un_le32_def)
  show "un_le64 (replicate 8 0) = 0" using z by (simp add: un_le64_def bslice_zero)
qed

lemma dinode_of_zero: "dinode_of (replicate 64 0) = zero_dinode"
proof -
  have "map (\<lambda>i. un_le32 (bslice (4 + 4 * i) 4 (replicate 64 0))) [0..<10] = replicate 10 0"
    by (rule nth_equalityI) (simp_all add: bslice_zero un_le_zero)
  then show ?thesis by (simp add: dinode_of_def zero_dinode_def bslice_zero un_le_zero)
qed

lemma fresh_disk_inode:
  assumes "n < NR_INODES" shows "disk_inode (fresh_fs m) n = zero_dinode"
proof -
  have d: "dev (fresh_fs m) = fresh_dev m (DATA_START - 1)" by (simp add: fresh_fs_def)
  have b: "blk (fresh_fs m) (18 + n div 128) = zero_block"
    using assms by (intro fresh_dev_blocks(3) [OF d]) simp_all
  have "n mod 128 < 128" by simp
  then have "64 * (n mod 128) + 64 \<le> BLOCK_SIZE" by linarith
  then show ?thesis
    unfolding disk_inode_def b get_dinode_def zero_block_def by (simp add: bslice_zero dinode_of_zero)
qed

lemma fs_wf_fresh: "fs_wf (mounted (fresh_fs m) j)"
  using cache_wf_mounted [OF fresh_fs_wf(1)] fresh_fs_wf fresh_disk_inode
  by (simp add: fs_wf_def files_wf_def)

section \<open>Properties\<close>

text \<open>An inode that is in use can be had from memory any number of times: getting it and putting it back returns, leaves
  the disk, every file and every reference count as they were, and keeps the invariant of the file system; in between
  there is exactly one more use of it, and the structure in memory is the inode of the file system.\<close>

theorem testfs_get_put_inode:
  assumes "fs_wf w" "n \<in> used_inodes (sbk w)" "\<forall>a i. cached w n a i \<longrightarrow> \<not> is_dirty i"
  shows "\<exists>a w1 w2. testfs_get_inode w (int n) = Inr (a, w1) \<and> fs_wf w1 \<and> refs w1 n = refs w n + 1 \<and>
    (\<exists>i. cached w1 n a i \<and> in_d i = dinode_at w n) \<and>
    testfs_put_inode a w1 = Inr w2 \<and> fs_wf w2 \<and> refs w2 = refs w \<and> sbk w2 = sbk w \<and> contents w2 = contents w"
proof -
  obtain a i w1 where g: "testfs_get_inode w (int n) = Inr (a, w1)" "fs_wf w1" "cached w1 n a i"
    "sbk w1 = sbk w" "others_same n w w1" "dinode_at w1 = dinode_at w" "refs w1 = (refs w)(n := refs w n + 1)"
    "\<And>j. cached w n a j \<Longrightarrow> is_dirty i = is_dirty j" "refs w n = 0 \<Longrightarrow> \<not> is_dirty i" "contents w1 = contents w"
    by (rule fs_get_inode [OF assms(1,2)]) blast
  have nd: "\<not> is_dirty i"
  proof (cases "\<exists>b j. cached w n b j")
    case True
    then obtain b j where c: "cached w n b j" by blast
    have "testfs_get_inode w (int n) = Inr (b, set_inode_at w b (j\<lparr>i_count := i_count j + 1\<rparr>))"
      by (rule get_inode_hit [OF fs_wfD(1) [OF assms(1)] c])
    then have "a = b" using g(1) by simp
    then show ?thesis using g(8) c assms(3) by blast
  next
    case False
    then show ?thesis using g(9) refs_none [of w n] by blast
  qed
  obtain w2 where p: "testfs_put_inode a w1 = Inr w2" "fs_wf w2" "sbk w2 = sbk w1" "others_same n w1 w2"
    "dinode_at w2 = dinode_at w1" "refs w2 = (refs w1)(n := refs w1 n - 1)" "contents w2 = contents w1"
    by (rule fs_put_inode [OF g(2,3) nd]) blast
  have "refs w2 = refs w" using p(6) g(7) by auto
  then show ?thesis
    using g(1-4,6,7,10) p dinode_at_cached [OF fs_wfD(1) [OF g(2)] g(3)] by (intro exI [of _ a] exI [of _ w1] exI [of _ w2]) auto
qed

text \<open>Creating an inode either returns 0 and the address of an inode of the type asked for that is empty, has a number that was free and is used once, or
  returns -ENOSPC when every inode is in use; both keep the invariant of the file system, take no block, and leave every other file as it was.\<close>

theorem testfs_create_inode_spec:
  assumes "fs_wf w"
  shows "\<exists>ret a w'. testfs_create_inode w ty = Inr (ret, a, w') \<and> fs_wf w' \<and>
    used_blocks (sbk w') = used_blocks (sbk w) \<and>
    (ret = - ENOSPC \<and> used_inodes (sbk w') = used_inodes (sbk w) \<and> {..<NR_INODES} \<subseteq> used_inodes (sbk w) \<or>
     ret = 0 \<and> (\<exists>n i. n \<notin> used_inodes (sbk w) \<and> n < NR_INODES \<and> used_inodes (sbk w') = insert n (used_inodes (sbk w)) \<and>
       cached w' n a i \<and> in_d i = empty_dinode ty \<and> refs w' n = 1 \<and> is_dirty i \<and> others_same n w w'))"
proof (cases rule: fs_create_inode [OF assms, of ty])
  case (2 n a i w')
  then show ?thesis using dinode_at_cached [OF fs_wfD(1) [OF 2(2)] 2(3)] by auto
qed auto

theorem testfs_create_inode_spec_witness:
  "\<exists>ret a w'. testfs_create_inode (mounted (fresh_fs 9) (\<lambda>_. 0)) I_FILE = Inr (ret, a, w') \<and> fs_wf w'"
  using testfs_create_inode_spec [OF fs_wf_fresh [of 9 "\<lambda>_. 0"], of I_FILE] by blast

lemma bitmap_alloc_zero:
  "0 < n \<Longrightarrow> n \<le> 2 ^ 28 \<Longrightarrow> bitmap_alloc \<lparr>bm_nbits = 8 * n, bm_v = replicate n 0\<rparr> k =
     Inr (0, 0, \<lparr>bm_nbits = 8 * n, bm_v = (replicate n 0)[0 := 1]\<rparr>)"
  by (simp add: bitmap_alloc_def bitmap_alloc_from.simps [of _ _ 0] DIVROUNDUP32_def
      bitmap_alloc_offset.simps [of _ 0] c_assert_def)

lemma fresh_inode_number:
  assumes "testfs_get_inode_freemap (fresh_fs m) = Inr (r, t)"
  shows "r = 0"
proof -
  have "inode_freemap (fresh_fs m) = Some \<lparr>bm_nbits = 8 * BLOCK_SIZE, bm_v = replicate BLOCK_SIZE 0\<rparr>"
    by (simp add: fresh_fs_def)
  then show ?thesis
    using assms bitmap_alloc_zero [of BLOCK_SIZE 0]
    by (auto simp: testfs_get_inode_freemap_def rbind_eq_Inr c_int_id)
qed

lemma fresh_create:
  obtains a i w where "testfs_create_inode (mounted (fresh_fs m) j) ty = Inr (0, a, w)" "fs_wf w" "cached w 0 a i"
    "refs w 0 = 1" "used_blocks (sbk w) = {}" "max_fs_blocks (sb_d (sbk w)) = m" "used_inodes (sbk w) = {0}" "is_dirty i"
    "in_d i = empty_dinode ty"
proof -
  let ?w = "mounted (fresh_fs m) j"
  have sb: "sbk ?w = fresh_fs m" by (simp add: mounted_def)
  have "used_inodes (fresh_fs m) = {}" by (rule fresh_fs_wf(2))
  have 0: "\<exists>t. testfs_get_inode_freemap (fresh_fs m) = Inr (0, t)"
  proof (cases rule: testfs_get_inode_freemap_cases [OF fresh_fs_wf(1) [of m]])
    case 1
    then have "0 \<in> used_inodes (fresh_fs m)" by simp
    then show ?thesis using fresh_fs_wf(2) by simp
  next
    case (2 i t)
    have "int i = 0" by (rule fresh_inode_number [OF 2(1)])
    then show ?thesis using 2(1) by auto
  qed
  show ?thesis
  proof (cases rule: fs_create_inode [OF fs_wf_fresh [of m j], of ty])
    case (1 w')
    then show ?thesis using 0 sb by (auto simp: testfs_create_inode_def rbind_eq_Inr Let_def)
  next
    case (2 n a i w')
    have "n = 0"
    proof -
      obtain t where t: "testfs_get_inode_freemap (fresh_fs m) = Inr (0, t)" using 0 by blast
      have u: "used_inodes t = {0}"
      proof (cases rule: testfs_get_inode_freemap_cases [OF fresh_fs_wf(1) [of m]])
        case (2 k u)
        then show ?thesis using t fresh_fs_wf(2) by auto
      qed (use t in simp)
      obtain i where "cached w' n a i" "i_nr i = int n" using 2(3) by (auto simp: cached_def)
      have "\<exists>w1 i1. testfs_get_inode (?w\<lparr>sbk := t\<rparr>) 0 = Inr (a, w1) \<and> get_inode_at w1 a = Inr i1 \<and>
          w' = set_inode_at w1 a (set_dirty (i1\<lparr>in_d := (in_d i1)\<lparr>i_type := ty\<rparr>\<rparr>))"
        using 2(1) t sb by (auto simp: testfs_create_inode_def rbind_eq_Inr Let_def)
      then obtain w1 where w1: "testfs_get_inode (?w\<lparr>sbk := t\<rparr>) 0 = Inr (a, w1)" "sbk w' = sbk w1" by auto
      have "sbk w1 = t"
        using w1(1) by (auto simp: testfs_get_inode_def rbind_eq_Inr Let_def inode_hash_insert_def split: if_splits)
      then have "used_inodes (sbk w') = {0}" using w1(2) u by simp
      then show ?thesis using 2(6) sb fresh_fs_wf(2) by auto
    qed
    then show ?thesis
      using that 2 sb fresh_fs_wf(2,3) [of m] max_fresh [of m] dinode_at_cached [OF fs_wfD(1) [OF 2(2)] 2(3)]
      by (metis)
  qed
qed

lemma fresh_synced:
  obtains a i w where "fs_wf w" "cached w 0 a i" "\<not> is_dirty i" "0 \<in> used_inodes (sbk w)" "refs w 0 = 1"
    "\<forall>a i. cached w 0 a i \<longrightarrow> \<not> is_dirty i"
proof -
  obtain a i w1 where c: "testfs_create_inode (mounted (fresh_fs 9) (\<lambda>_. 0)) I_FILE = Inr (0, a, w1)" "fs_wf w1" "cached w1 0 a i"
    "refs w1 0 = 1" "used_blocks (sbk w1) = {}" "max_fs_blocks (sb_d (sbk w1)) = 9" "used_inodes (sbk w1) = {0}" "is_dirty i"
    by (rule fresh_create [of 9 "\<lambda>_. 0" I_FILE]) blast
  obtain w2 where s: "testfs_sync_inode_at a w1 = Inr w2" "fs_wf w2" "cached w2 0 a (if is_dirty i then clear_dirty i else i)"
    "used_inodes (sbk w2) = used_inodes (sbk w1)" "refs w2 0 = refs w1 0"
    by (rule fs_sync_inode [OF c(2,3)]) blast
  have c2: "cached w2 0 a (clear_dirty i)" using s(3) c(8) by simp
  have "\<forall>b j. cached w2 0 b j \<longrightarrow> \<not> is_dirty j"
    using cached_unique [OF fs_wfD(1) [OF s(2)] _ c2] by fastforce
  then show ?thesis using s c c2 by (intro that [of w2 a "clear_dirty i"]) auto
qed

theorem testfs_get_put_inode_witness:
  "\<exists>w a w1 w2. testfs_get_inode w 0 = Inr (a, w1) \<and> testfs_put_inode a w1 = Inr w2 \<and> refs w 0 = 1 \<and> refs w1 0 = 2 \<and> refs w2 = refs w"
proof -
  obtain w where w: "fs_wf w" "0 \<in> used_inodes (sbk w)" "refs w 0 = 1" "\<forall>a i. cached w 0 a i \<longrightarrow> \<not> is_dirty i"
    by (rule fresh_synced) blast
  obtain a w1 w2 where "testfs_get_inode w (int 0) = Inr (a, w1)" "refs w1 0 = refs w 0 + 1" "testfs_put_inode a w1 = Inr w2"
    "refs w2 = refs w"
    using testfs_get_put_inode [OF w(1,2,4)] by blast
  then show ?thesis using w(3) by auto
qed

text \<open>C17.
  Removing an inode that is used once succeeds: its number is free again, exactly the blocks of its file are given
  back, its entry in the table on the disk is zero, nothing in memory refers to it, every other inode keeps
  its fields, its uses and its bytes, and the invariant holds.\<close>

theorem testfs_remove_inode_spec:
  assumes "fs_wf w" "cached w n a i" "refs w n = 1"
  shows "\<exists>w'. testfs_remove_inode a w = Inr w' \<and> fs_wf w' \<and> used_inodes (sbk w') = used_inodes (sbk w) - {n} \<and>
    used_blocks (sbk w') = used_blocks (sbk w) - owned (sbk w) (in_d i) \<and>
    others_same n w w' \<and> dinode_at w' n = zero_dinode \<and> refs w' n = 0"
  using fs_remove_inode [OF assms] unfolding dinode_at_cached [OF fs_wfD(1) [OF assms(1)] assms(2)] by metis

theorem testfs_remove_inode_spec_witness:
  "\<exists>a w w'. testfs_create_inode (mounted (fresh_fs 9) (\<lambda>_. 0)) I_FILE = Inr (0, a, w) \<and>
    testfs_remove_inode a w = Inr w' \<and> used_inodes (sbk w') = {} \<and> fs_wf w'"
proof -
  obtain a i w1 where c: "testfs_create_inode (mounted (fresh_fs 9) (\<lambda>_. 0)) I_FILE = Inr (0, a, w1)" "fs_wf w1" "cached w1 0 a i"
    "refs w1 0 = 1" "used_inodes (sbk w1) = {0}"
    by (rule fresh_create [of 9 "\<lambda>_. 0" I_FILE]) blast
  then show ?thesis using testfs_remove_inode_spec [OF c(2,3,4)] by auto
qed



end
