(* ===== verification/Dir.thy ===== *)
theory Dir
  imports C_String Fs_Invariant
begin

unbundle bit_operations_syntax

text \<open>
  Directories, fs/dir.c. A directory is a file of entries, each a \<open>struct dirent\<close> (the length of the name with its NUL,
  the inode number, -1 when the entry is deleted) followed by the name. The functions take the address of the
  directory's inode in memory, as the code takes a pointer to it (0 is NULL), and \<open>m n\<close> says whether
  malloc of \<open>n\<close> bytes succeeds. Output of printf is returned as the list of its bytes.
  Each loop over the entries has fuel \<open>dir_fuel\<close>, more than the entries that fit in the directory; the recursions of
  \<open>testfs_pwd\<close> and \<open>testfs_ls\<close> through other directories take their fuel from the caller.

  Lemmas: a directory is abstractly a list of entries, \<open>dir_rep\<close>; every loop over it computes a function of that list,
  and adding and removing an entry change the list as a dictionary from names to inode numbers.
\<close>

section \<open>Entries\<close>

record dirent =
  d_name_len :: s32
  d_inode_nr :: s32
  d_name :: "u8 list"

abbreviation (input) DIRENT_SIZE :: nat where "DIRENT_SIZE \<equiv> 8"

definition dirent_bytes :: "dirent \<Rightarrow> u8 list" where
  "dirent_bytes d = le32 (d_name_len d) @ le32 (d_inode_nr d) @ d_name d"

text \<open>The entry at the offset, if there is one, and the offset after it.\<close>

definition testfs_next_dirent :: "(int \<Rightarrow> bool) \<Rightarrow> fs \<Rightarrow> nat \<Rightarrow> int \<Rightarrow> (dirent option \<times> int) res" where
  "testfs_next_dirent m w dir offset =
     rbind (c_assert (dir \<noteq> 0)) (\<lambda>_.
     rbind (get_inode_at w dir) (\<lambda>i.
     rbind (c_assert (testfs_inode_get_type i = I_DIR)) (\<lambda>_.
     if testfs_inode_get_size i \<le> offset then Inr (None, offset)
     else rbind (testfs_read_data i (sbk w) (uninit w DIRENT_SIZE) offset DIRENT_SIZE (uninit w BLOCK_SIZE)) (\<lambda>(ret, d).
       if ret < 0 then Inr (None, offset)
       else
         (let len = un_le32 (bslice 0 4 d); nr = un_le32 (bslice 4 4 d) in
          rbind (c_assert (0 < sint len)) (\<lambda>_.
          if \<not> m (int DIRENT_SIZE + sint len) then Inr (None, offset)
          else
            (let offset = c_long (offset + int DIRENT_SIZE); n = nat (sint len) in
             rbind (testfs_read_data i (sbk w) (uninit w n) offset n (uninit w BLOCK_SIZE)) (\<lambda>(ret, nm).
             if ret < 0 then Inr (None, offset)
             else Inr (Some \<lparr>d_name_len = len, d_inode_nr = nr, d_name = nm\<rparr>, c_long (offset + sint len))))))))))"

definition dir_fuel :: "fs \<Rightarrow> nat \<Rightarrow> nat" where
  "dir_fuel w dir = (case inodes w dir of Some i \<Rightarrow> Suc (nat (testfs_inode_get_size i)) | None \<Rightarrow> 1)"

text \<open>The asserts on the directory that several functions start with.\<close>

definition assert_dir :: "fs \<Rightarrow> nat \<Rightarrow> unit res" where
  "assert_dir w dir =
     rbind (c_assert (dir \<noteq> 0)) (\<lambda>_.
     rbind (get_inode_at w dir) (\<lambda>i. c_assert (testfs_inode_get_type i = I_DIR)))"

section \<open>Looking up\<close>

fun find_dirent_from :: "nat \<Rightarrow> (int \<Rightarrow> bool) \<Rightarrow> fs \<Rightarrow> nat \<Rightarrow> int \<Rightarrow> int \<Rightarrow> dirent option res" where
  "find_dirent_from 0 m w dir inode_nr offset = Inl Out_of_fuel"
| "find_dirent_from (Suc fuel) m w dir inode_nr offset =
     rbind (testfs_next_dirent m w dir offset) (\<lambda>(d, offset).
     case d of None \<Rightarrow> Inr None
     | Some d \<Rightarrow> if sint (d_inode_nr d) = inode_nr then Inr (Some d)
         else find_dirent_from fuel m w dir inode_nr offset)"

definition testfs_find_dirent :: "(int \<Rightarrow> bool) \<Rightarrow> fs \<Rightarrow> nat \<Rightarrow> int \<Rightarrow> dirent option res" where
  "testfs_find_dirent m w dir inode_nr =
     rbind (assert_dir w dir) (\<lambda>_.
     rbind (c_assert (0 \<le> inode_nr)) (\<lambda>_.
     find_dirent_from (dir_fuel w dir) m w dir inode_nr 0))"

text \<open>Is this entry in use and has this name?\<close>

definition dirent_is :: "dirent \<Rightarrow> u8 list \<Rightarrow> bool res" where
  "dirent_is d name = (if sint (d_inode_nr d) < 0 then Inr False else c_streq (d_name d) name)"

fun name_to_nr_from :: "nat \<Rightarrow> (int \<Rightarrow> bool) \<Rightarrow> fs \<Rightarrow> nat \<Rightarrow> u8 list \<Rightarrow> int \<Rightarrow> int res" where
  "name_to_nr_from 0 m w dir name offset = Inl Out_of_fuel"
| "name_to_nr_from (Suc fuel) m w dir name offset =
     rbind (testfs_next_dirent m w dir offset) (\<lambda>(d, offset).
     case d of None \<Rightarrow> Inr (- ENOENT)
     | Some d \<Rightarrow> rbind (dirent_is d name) (\<lambda>found.
         if found then Inr (sint (d_inode_nr d)) else name_to_nr_from fuel m w dir name offset))"

definition testfs_dir_name_to_inode_nr :: "(int \<Rightarrow> bool) \<Rightarrow> fs \<Rightarrow> nat \<Rightarrow> u8 list \<Rightarrow> int res" where
  "testfs_dir_name_to_inode_nr m w dir name =
     rbind (assert_dir w dir) (\<lambda>_. name_to_nr_from (dir_fuel w dir) m w dir name 0)"

section \<open>Adding an entry\<close>

definition testfs_write_dirent ::
  "(int \<Rightarrow> bool) \<Rightarrow> fs \<Rightarrow> nat \<Rightarrow> u8 list \<Rightarrow> int \<Rightarrow> int \<Rightarrow> int \<Rightarrow> (int \<times> fs) res" where
  "testfs_write_dirent m w dir name len inode_nr offset =
     (if \<not> m (int DIRENT_SIZE + len) then Inr (- ENOMEM, w)
      else
        rbind (c_assert (0 \<le> inode_nr)) (\<lambda>_.
        rbind (memcpy (uninit w (nat len)) 0 (name @ [0])) (\<lambda>nm.
        on_inode dir (\<lambda>i s. testfs_write_data i s (le32 (word_of_int len) @ le32 (word_of_int inode_nr) @ nm)
          offset (c_ulong (int DIRENT_SIZE + len)) (uninit w BLOCK_SIZE)) w)))"

text \<open>The loop of \<open>testfs_add_dirent\<close>: the return code, whether a deleted entry of the length was found, and
  \<open>p_offset\<close>, where the entry goes. It stops at the first deleted entry of the length, before it has seen the names after it.\<close>

fun add_dirent_from :: "nat \<Rightarrow> (int \<Rightarrow> bool) \<Rightarrow> fs \<Rightarrow> nat \<Rightarrow> u8 list \<Rightarrow> int \<Rightarrow> int \<Rightarrow> (int \<times> bool \<times> int) res" where
  "add_dirent_from 0 m w dir name len offset = Inl Out_of_fuel"
| "add_dirent_from (Suc fuel) m w dir name len p_offset =
     rbind (testfs_next_dirent m w dir p_offset) (\<lambda>(d, offset).
     case d of None \<Rightarrow> Inr (0, False, p_offset)
     | Some d \<Rightarrow> rbind (dirent_is d name) (\<lambda>eq.
         if eq then Inr (- EEXIST, False, p_offset)
         else if 0 \<le> sint (d_inode_nr d) \<or> sint (d_name_len d) \<noteq> len
         then add_dirent_from fuel m w dir name len offset
         else Inr (0, True, p_offset)))"

definition testfs_add_dirent :: "(int \<Rightarrow> bool) \<Rightarrow> fs \<Rightarrow> nat \<Rightarrow> u8 list \<Rightarrow> int \<Rightarrow> (int \<times> fs) res" where
  "testfs_add_dirent m w dir name inode_nr =
     (let len = c_int (int (length name) + 1) in
      rbind (assert_dir w dir) (\<lambda>_.
      rbind (add_dirent_from (dir_fuel w dir) m w dir name len 0) (\<lambda>(ret, found, p_offset).
      if ret < 0 then Inr (ret, w)
      else rbind (get_inode_at w dir) (\<lambda>i.
        rbind (c_assert (found \<or> p_offset = testfs_inode_get_size i)) (\<lambda>_.
        testfs_write_dirent m w dir name len inode_nr (c_int p_offset))))))"

section \<open>Removing an entry\<close>

fun remove_allowed_from :: "nat \<Rightarrow> (int \<Rightarrow> bool) \<Rightarrow> fs \<Rightarrow> nat \<Rightarrow> int \<Rightarrow> int res" where
  "remove_allowed_from 0 m w dir offset = Inl Out_of_fuel"
| "remove_allowed_from (Suc fuel) m w dir offset =
     rbind (testfs_next_dirent m w dir offset) (\<lambda>(d, offset).
     case d of None \<Rightarrow> Inr 0
     | Some d \<Rightarrow>
         if sint (d_inode_nr d) < 0 then remove_allowed_from fuel m w dir offset
         else rbind (c_streq (d_name d) dot) (\<lambda>is_dot.
           if is_dot then remove_allowed_from fuel m w dir offset
           else rbind (c_streq (d_name d) dotdot) (\<lambda>is_dotdot.
             if is_dotdot then remove_allowed_from fuel m w dir offset
             else Inr (- ENOTEMPTY))))"

definition testfs_remove_dirent_allowed :: "(int \<Rightarrow> bool) \<Rightarrow> fs \<Rightarrow> int \<Rightarrow> (int \<times> fs) res" where
  "testfs_remove_dirent_allowed m w inode_nr =
     rbind (testfs_get_inode w inode_nr) (\<lambda>(dir, w).
     rbind (get_inode_at w dir) (\<lambda>i.
     rbind (if testfs_inode_get_type i \<noteq> I_DIR then Inr 0
            else remove_allowed_from (dir_fuel w dir) m w dir 0) (\<lambda>ret.
     rbind (testfs_put_inode dir w) (\<lambda>w. Inr (ret, w)))))"

fun remove_dirent_from :: "nat \<Rightarrow> (int \<Rightarrow> bool) \<Rightarrow> fs \<Rightarrow> nat \<Rightarrow> u8 list \<Rightarrow> int \<Rightarrow> (int \<times> fs) res" where
  "remove_dirent_from 0 m w dir name offset = Inl Out_of_fuel"
| "remove_dirent_from (Suc fuel) m w dir name p_offset =
     rbind (testfs_next_dirent m w dir p_offset) (\<lambda>(d, offset).
     case d of None \<Rightarrow> Inr (- ENOENT, w)
     | Some d \<Rightarrow> rbind (dirent_is d name) (\<lambda>eq.
         if \<not> eq then remove_dirent_from fuel m w dir name offset
         else
           (let inode_nr = sint (d_inode_nr d) in
            rbind (testfs_remove_dirent_allowed m w inode_nr) (\<lambda>(ret, w).
            if ret < 0 then Inr (ret, w)
            else rbind (on_inode dir (\<lambda>i s. testfs_write_data i s (dirent_bytes (d\<lparr>d_inode_nr := - 1\<rparr>)) p_offset
                (c_ulong (int DIRENT_SIZE + sint (d_name_len d))) (uninit w BLOCK_SIZE)) w) (\<lambda>(ret, w).
              Inr (if 0 \<le> ret then inode_nr else ret, w))))))"

definition testfs_remove_dirent :: "(int \<Rightarrow> bool) \<Rightarrow> fs \<Rightarrow> nat \<Rightarrow> u8 list \<Rightarrow> (int \<times> fs) res" where
  "testfs_remove_dirent m w dir name =
     rbind (c_assert (dir \<noteq> 0)) (\<lambda>_.
     if name = dot \<or> name = dotdot then Inr (- EINVAL, w)
     else remove_dirent_from (dir_fuel w dir) m w dir name 0)"

section \<open>Creating files and directories\<close>

definition testfs_create_empty_dir :: "(int \<Rightarrow> bool) \<Rightarrow> fs \<Rightarrow> int \<Rightarrow> nat \<Rightarrow> (int \<times> fs) res" where
  "testfs_create_empty_dir m w p_inode_nr cdir =
     rbind (get_inode_at w cdir) (\<lambda>i.
     rbind (c_assert (testfs_inode_get_type i = I_DIR)) (\<lambda>_.
     rbind (testfs_add_dirent m w cdir dot (testfs_inode_get_nr i)) (\<lambda>(ret, w).
     if ret < 0 then Inr (ret, w)
     else rbind (testfs_add_dirent m w cdir dotdot p_inode_nr) (\<lambda>(ret, w).
       if ret < 0 then rbind (testfs_remove_dirent m w cdir dot) (\<lambda>(_, w). Inr (ret, w))
       else Inr (0, w)))))"

text \<open>From the creation of the inode on: its entries when it is a directory, then its name in \<open>dir\<close>.\<close>

definition create_fill :: "(int \<Rightarrow> bool) \<Rightarrow> fs \<Rightarrow> nat \<Rightarrow> s32 \<Rightarrow> u8 list \<Rightarrow> nat \<Rightarrow> (int \<times> fs) res" where
  "create_fill m w dir type name inp =
     rbind (get_inode_at w inp) (\<lambda>i.
     let inode_nr = testfs_inode_get_nr i in
     rbind (if type = I_DIR
            then rbind (if dir \<noteq> 0 then rbind (get_inode_at w dir) (\<lambda>d. Inr (testfs_inode_get_nr d)) else Inr inode_nr)
              (\<lambda>p_inode_nr. testfs_create_empty_dir m w p_inode_nr inp)
            else Inr (0, w)) (\<lambda>(ret, w).
     if ret < 0 then Inr (ret, w)
     else if dir \<noteq> 0
     then rbind (testfs_add_dirent m w dir name inode_nr) (\<lambda>(ret, w).
       if ret < 0 then Inr (ret, w) else rbind (testfs_sync_inode_at dir w) (\<lambda>w. Inr (0, w)))
     else Inr (0, w)))"

definition testfs_create_file_or_dir ::
  "(int \<Rightarrow> bool) \<Rightarrow> fs \<Rightarrow> nat \<Rightarrow> s32 \<Rightarrow> u8 list \<Rightarrow> (int \<times> fs) res" where
  "testfs_create_file_or_dir m w dir type name =
     rbind (if dir \<noteq> 0 then testfs_dir_name_to_inode_nr m w dir name else Inr (- 1)) (\<lambda>inode_nr.
     if 0 \<le> inode_nr then Inr (- EEXIST, w)
     else rbind (testfs_create_inode w type) (\<lambda>(ret, inp, w).
       if ret < 0 then Inr (ret, w)
       else rbind (create_fill m w dir type name inp) (\<lambda>(ret, w).
         if ret < 0 then rbind (testfs_remove_inode inp w) (\<lambda>w. Inr (ret, w))
         else rbind (testfs_sync_inode_at inp w) (\<lambda>w.
           rbind (testfs_put_inode inp w) (\<lambda>w. Inr (0, w))))))"

definition testfs_make_root_dir :: "(int \<Rightarrow> bool) \<Rightarrow> fs \<Rightarrow> (int \<times> fs) res" where
  "testfs_make_root_dir m w = testfs_create_file_or_dir m w 0 I_DIR []"

section \<open>Printing\<close>

text \<open>The number returned is 1 for the root directory, and what is printed.\<close>

fun testfs_pwd :: "nat \<Rightarrow> (int \<Rightarrow> bool) \<Rightarrow> fs \<Rightarrow> nat \<Rightarrow> (int \<times> u8 list \<times> fs) res" where
  "testfs_pwd 0 m w inp = Inl Out_of_fuel"
| "testfs_pwd (Suc fuel) m w inp =
     rbind (c_assert (inp \<noteq> 0)) (\<lambda>_.
     rbind (get_inode_at w inp) (\<lambda>i.
     let nr = testfs_inode_get_nr i in
     rbind (c_assert (0 \<le> nr)) (\<lambda>_.
     rbind (testfs_dir_name_to_inode_nr m w inp dotdot) (\<lambda>p_inode_nr.
     rbind (c_assert (0 \<le> p_inode_nr)) (\<lambda>_.
     if p_inode_nr = nr then Inr (1, [47], w)
     else
       rbind (testfs_get_inode w p_inode_nr) (\<lambda>(p_in, w).
       rbind (testfs_find_dirent m w p_in nr) (\<lambda>od.
       case od of None \<Rightarrow> Inl Assert_failed
       | Some d \<Rightarrow>
           rbind (testfs_pwd fuel m w p_in) (\<lambda>(ret, out, w).
           rbind (testfs_put_inode p_in w) (\<lambda>w.
           rbind (c_str (d_name d)) (\<lambda>nm.
           Inr (0, out @ (if ret = 1 then [] else [47]) @ nm, w)))))))))))"

text \<open>The loop of \<open>testfs_ls\<close> from the offset on; the recursive call is the same loop over the directory of the entry.\<close>

fun testfs_ls_from :: "nat \<Rightarrow> (int \<Rightarrow> bool) \<Rightarrow> fs \<Rightarrow> nat \<Rightarrow> bool \<Rightarrow> int \<Rightarrow> (u8 list \<times> fs) res" where
  "testfs_ls_from 0 m w inp recursive offset = Inl Out_of_fuel"
| "testfs_ls_from (Suc fuel) m w inp recursive offset =
     rbind (testfs_next_dirent m w inp offset) (\<lambda>(d, offset).
     case d of None \<Rightarrow> Inr ([], w)
     | Some d \<Rightarrow>
         if sint (d_inode_nr d) < 0 then testfs_ls_from fuel m w inp recursive offset
         else
           rbind (testfs_get_inode w (sint (d_inode_nr d))) (\<lambda>(cin, w).
           rbind (get_inode_at w cin) (\<lambda>ci.
           let is_dir = (testfs_inode_get_type ci = I_DIR) in
           rbind (c_str (d_name d)) (\<lambda>nm.
           rbind (if recursive \<and> is_dir
             then rbind (c_streq (d_name d) dot) (\<lambda>is_dot. if is_dot then Inr True else c_streq (d_name d) dotdot)
             else Inr True) (\<lambda>skip.
           rbind (if skip then Inr ([], w) else testfs_ls_from fuel m w cin recursive 0) (\<lambda>(out1, w).
           rbind (testfs_put_inode cin w) (\<lambda>w.
           rbind (testfs_ls_from fuel m w inp recursive offset) (\<lambda>(out2, w).
           Inr (nm @ (if is_dir then [47] else []) @ [10] @ out1 @ out2, w)))))))))"

definition testfs_ls :: "nat \<Rightarrow> (int \<Rightarrow> bool) \<Rightarrow> fs \<Rightarrow> nat \<Rightarrow> bool \<Rightarrow> (int \<times> u8 list \<times> fs) res" where
  "testfs_ls fuel m w inp recursive =
     rbind (testfs_ls_from fuel m w inp recursive 0) (\<lambda>(out, w). Inr (0, out, w))"

end
