(* ===== verification/Commands.thy ===== *)
theory Commands
  imports Dir
begin

unbundle bit_operations_syntax

text \<open>
  The commands of the shell: those of fs/dir.c, fs/file.c and fs/super.c. A command gets the super block and the context
  (\<open>struct context\<close> of fs/testfs.h: the words of the command line and the current directory) and
  returns its return code, what it prints on stdout, the file system and the context. Of \<open>cmd\<close> the words
  that the command line has are there, \<open>nargs\<close> of them.
\<close>

record cmd_context =
  nargs :: nat
  cmd :: "u8 list list"
  cur_dir :: nat

type_synonym cmd_result = "(int \<times> u8 list \<times> fs \<times> cmd_context) res"

section \<open>fs/dir.c\<close>

definition cmd_ls_internal :: "nat \<Rightarrow> (int \<Rightarrow> bool) \<Rightarrow> fs \<Rightarrow> cmd_context \<Rightarrow> bool \<Rightarrow> cmd_result" where
  "cmd_ls_internal fuel m w c recursive =
     (if nargs c \<noteq> 2 then Inr (- EINVAL, [], w, c)
      else
        rbind (c_assert (cur_dir c \<noteq> 0)) (\<lambda>_.
        rbind (testfs_dir_name_to_inode_nr m w (cur_dir c) (cmd c ! 1)) (\<lambda>inode_nr.
        if inode_nr < 0 then Inr (inode_nr, [], w, c)
        else rbind (testfs_get_inode w inode_nr) (\<lambda>(inp, w).
          rbind (get_inode_at w inp) (\<lambda>i.
          if testfs_inode_get_type i = I_DIR
          then rbind (testfs_ls fuel m w inp recursive) (\<lambda>(_, out, w).
            rbind (testfs_put_inode inp w) (\<lambda>w. Inr (0, out, w, c)))
          else Inr (- ENOTDIR, [], w, c))))))"

definition cmd_cd :: "(int \<Rightarrow> bool) \<Rightarrow> fs \<Rightarrow> cmd_context \<Rightarrow> cmd_result" where
  "cmd_cd m w c =
     (if nargs c \<noteq> 2 then Inr (- EINVAL, [], w, c)
      else rbind (testfs_dir_name_to_inode_nr m w (cur_dir c) (cmd c ! 1)) (\<lambda>inode_nr.
        if inode_nr < 0 then Inr (inode_nr, [], w, c)
        else rbind (testfs_get_inode w inode_nr) (\<lambda>(dir_inode, w).
          rbind (get_inode_at w dir_inode) (\<lambda>i.
          if testfs_inode_get_type i \<noteq> I_DIR
          then rbind (testfs_put_inode dir_inode w) (\<lambda>w. Inr (- ENOTDIR, [], w, c))
          else rbind (testfs_put_inode (cur_dir c) w) (\<lambda>w. Inr (0, [], w, c\<lparr>cur_dir := dir_inode\<rparr>))))))"

definition cmd_pwd :: "nat \<Rightarrow> (int \<Rightarrow> bool) \<Rightarrow> fs \<Rightarrow> cmd_context \<Rightarrow> cmd_result" where
  "cmd_pwd fuel m w c =
     (if nargs c \<noteq> 1 then Inr (- EINVAL, [], w, c)
      else rbind (testfs_pwd fuel m w (cur_dir c)) (\<lambda>(_, out, w). Inr (0, out @ [10], w, c)))"

definition cmd_ls :: "nat \<Rightarrow> (int \<Rightarrow> bool) \<Rightarrow> fs \<Rightarrow> cmd_context \<Rightarrow> cmd_result" where
  "cmd_ls fuel m w c = cmd_ls_internal fuel m w c False"

definition cmd_lsr :: "nat \<Rightarrow> (int \<Rightarrow> bool) \<Rightarrow> fs \<Rightarrow> cmd_context \<Rightarrow> cmd_result" where
  "cmd_lsr fuel m w c = cmd_ls_internal fuel m w c True"

definition cmd_create :: "(int \<Rightarrow> bool) \<Rightarrow> fs \<Rightarrow> cmd_context \<Rightarrow> cmd_result" where
  "cmd_create m w c =
     (if nargs c \<noteq> 2 then Inr (- EINVAL, [], w, c)
      else rbind (testfs_create_file_or_dir m w (cur_dir c) I_FILE (cmd c ! 1)) (\<lambda>(ret, w). Inr (ret, [], w, c)))"

definition cmd_mkdir :: "(int \<Rightarrow> bool) \<Rightarrow> fs \<Rightarrow> cmd_context \<Rightarrow> cmd_result" where
  "cmd_mkdir m w c =
     (if nargs c \<noteq> 2 then Inr (- EINVAL, [], w, c)
      else rbind (testfs_create_file_or_dir m w (cur_dir c) I_DIR (cmd c ! 1)) (\<lambda>(ret, w). Inr (ret, [], w, c)))"

definition cmd_rm :: "(int \<Rightarrow> bool) \<Rightarrow> fs \<Rightarrow> cmd_context \<Rightarrow> cmd_result" where
  "cmd_rm m w c =
     (if nargs c \<noteq> 2 then Inr (- EINVAL, [], w, c)
      else rbind (testfs_remove_dirent m w (cur_dir c) (cmd c ! 1)) (\<lambda>(inode_nr, w).
        if inode_nr < 0 then Inr (inode_nr, [], w, c)
        else rbind (testfs_get_inode w inode_nr) (\<lambda>(inp, w).
          rbind (testfs_remove_inode inp w) (\<lambda>w.
          rbind (testfs_sync_inode_at (cur_dir c) w) (\<lambda>w. Inr (0, [], w, c))))))"

definition cmd_stat :: "(int \<Rightarrow> bool) \<Rightarrow> fs \<Rightarrow> cmd_context \<Rightarrow> cmd_result" where
  "cmd_stat m w c =
     (if nargs c \<noteq> 2 then Inr (- EINVAL, [], w, c)
      else rbind (testfs_dir_name_to_inode_nr m w (cur_dir c) (cmd c ! 1)) (\<lambda>inode_nr.
        if inode_nr < 0 then Inr (inode_nr, [], w, c)
        else rbind (testfs_get_inode w inode_nr) (\<lambda>(inp, w).
          rbind (get_inode_at w inp) (\<lambda>i.
          let out = cmd c ! 1 @ lit '': i_nr = '' @ dec (testfs_inode_get_nr i) @
                lit '', i_type = '' @ dec (sint (testfs_inode_get_type i)) @
                lit '', i_size = '' @ dec_nat (c_ulong (testfs_inode_get_size i)) @
                lit '', block_count = '' @ dec (testfs_inode_get_block_count i) @ [10] in
          rbind (testfs_put_inode inp w) (\<lambda>w. Inr (0, out, w, c))))))"

section \<open>fs/file.c\<close>

text \<open>The address is that of the inode when the return code is 0.\<close>

definition testfs_get_file_inode :: "(int \<Rightarrow> bool) \<Rightarrow> fs \<Rightarrow> nat \<Rightarrow> u8 list \<Rightarrow> (int \<times> nat \<times> fs) res" where
  "testfs_get_file_inode m w dir name =
     rbind (testfs_dir_name_to_inode_nr m w dir name) (\<lambda>inode_nr.
     if inode_nr < 0 then Inr (inode_nr, 0, w)
     else rbind (testfs_get_inode w inode_nr) (\<lambda>(inp, w).
       rbind (get_inode_at w inp) (\<lambda>i.
       if testfs_inode_get_type i = I_DIR
       then rbind (testfs_put_inode inp w) (\<lambda>w. Inr (- EISDIR, 0, w))
       else Inr (0, inp, w))))"

text \<open>From the check of the range on: the return code and what is printed.\<close>

definition read_file :: "(int \<Rightarrow> bool) \<Rightarrow> fs \<Rightarrow> nat \<Rightarrow> int \<Rightarrow> nat \<Rightarrow> (int \<times> u8 list) res" where
  "read_file m w inp offset sz =
     rbind (get_inode_at w inp) (\<lambda>i.
     let file_size = testfs_inode_get_size i; n = c_ulong (int sz + 1) in
     if file_size < c_long (offset + c_long (int sz)) then Inr (- EINVAL, [])
     else if \<not> m (int n) then Inr (- ENOMEM, [])
     else rbind (testfs_read_data i (sbk w) (uninit w n) offset sz (uninit w BLOCK_SIZE)) (\<lambda>(ret, buf).
       if 0 \<le> ret
       then rbind (memcpy buf (int sz) [0]) (\<lambda>buf. rbind (c_str buf) (\<lambda>s. Inr (ret, s @ [10])))
       else Inr (ret, [])))"

definition cmd_read :: "(int \<Rightarrow> bool) \<Rightarrow> fs \<Rightarrow> cmd_context \<Rightarrow> cmd_result" where
  "cmd_read m w c =
     (if nargs c \<noteq> 4 then Inr (- EINVAL, [], w, c)
      else case str_to_offset (cmd c ! 2) of
        (ret, None) \<Rightarrow> Inr (ret, [], w, c)
      | (_, Some offset) \<Rightarrow>
          if offset < 0 then Inr (- EINVAL, [], w, c)
          else (case str_to_size (cmd c ! 3) of
            (ret, None) \<Rightarrow> Inr (ret, [], w, c)
          | (_, Some sz) \<Rightarrow>
              rbind (testfs_get_file_inode m w (cur_dir c) (cmd c ! 1)) (\<lambda>(ret, inp, w).
              if ret < 0 then Inr (ret, [], w, c)
              else rbind (read_file m w inp offset sz) (\<lambda>(ret, out).
                rbind (testfs_put_inode inp w) (\<lambda>w. Inr (ret, out, w, c))))))"

definition cmd_write :: "(int \<Rightarrow> bool) \<Rightarrow> fs \<Rightarrow> cmd_context \<Rightarrow> cmd_result" where
  "cmd_write m w c =
     (if nargs c \<noteq> 4 then Inr (- EINVAL, [], w, c)
      else case str_to_offset (cmd c ! 2) of
        (ret, None) \<Rightarrow> Inr (ret, [], w, c)
      | (_, Some offset) \<Rightarrow>
          if offset < 0 then Inr (- EINVAL, [], w, c)
          else
            (let buf = cmd c ! 3 in
             rbind (testfs_get_file_inode m w (cur_dir c) (cmd c ! 1)) (\<lambda>(ret, inp, w).
             if ret < 0 then Inr (ret, [], w, c)
             else rbind (on_inode inp (\<lambda>i s. testfs_write_data i s (buf @ [0]) offset (length buf) (uninit w BLOCK_SIZE)) w) (\<lambda>(ret, w).
               rbind (testfs_sync_inode_at inp w) (\<lambda>w.
               rbind (testfs_put_inode inp w) (\<lambda>w. Inr (ret, [], w, c)))))))"

section \<open>fs/super.c\<close>

definition cmd_fsstat :: "fs \<Rightarrow> cmd_context \<Rightarrow> cmd_result" where
  "cmd_fsstat w c =
     (if nargs c \<noteq> 1 then Inr (- EINVAL, [], w, c)
      else Inr (0, lit ''nr of allocated inodes = '' @ dec (sint (used_inode_count (sb_d (sbk w)))) @ [10] @
        lit ''nr of allocated blocks = '' @ dec (sint (used_block_count (sb_d (sbk w)))) @ [10], w, c))"

end
