(* ===== verification/Shell.thy ===== *)
theory Shell
  imports Commands
begin

text \<open>
  The shell of fs/testfs.c: the table of commands, how a line becomes words (\<open>strtok_r\<close>), and the loop over the lines of the standard input.
  \<open>stdin\<close> is the list of lines that getline delivers. A call returns what it writes on stdout and on stderr.
  What \<open>strtok_r\<close> does when both pointers are NULL is not specified: \<open>nullok\<close> says whether it returns NULL or reads there.
\<close>

section \<open>Words\<close>

type_synonym bytes = "u8 list"

abbreviation blanks :: bytes where "blanks \<equiv> [32, 9, 13, 10]"
abbreviation line_ends :: bytes where "line_ends \<equiv> [13, 10]"

text \<open>A string that is scanned, and \<open>save\<close>, which points into it: what is left, or NULL.\<close>

definition strtok_r :: "bool \<Rightarrow> bytes option \<Rightarrow> bytes \<Rightarrow> bytes option \<Rightarrow> (bytes option \<times> bytes option) res" where
  "strtok_r nullok str delim save =
     (case (case str of None \<Rightarrow> save | Some s \<Rightarrow> Some s) of
        None \<Rightarrow> if nullok then Inr (None, None) else Inl Bad_access
      | Some s \<Rightarrow>
          let s = dropWhile (\<lambda>x. x \<in> set delim) s in
          if s = [] then Inr (None, Some [])
          else Inr (Some (takeWhile (\<lambda>x. x \<notin> set delim) s), Some (tl (dropWhile (\<lambda>x. x \<notin> set delim) s))))"

text \<open>The loop of \<open>parse_command\<close>: the words after the name, and \<open>args\<close> and \<open>save\<close> at its end.\<close>

fun parse_words :: "bool \<Rightarrow> nat \<Rightarrow> bytes option \<Rightarrow> bytes option \<Rightarrow> bytes list \<Rightarrow> (bytes list \<times> bytes option \<times> bytes option) res" where
  "parse_words nullok 0 args save ws = Inr (ws, args, save)"
| "parse_words nullok (Suc k) args save ws =
     rbind (strtok_r nullok args blanks save) (\<lambda>(tok, save).
     case tok of None \<Rightarrow> Inr (ws, args, save) | Some w \<Rightarrow> parse_words nullok k None save (ws @ [w]))"

definition parse_command :: "bool \<Rightarrow> nat \<Rightarrow> cmd_context \<Rightarrow> bytes \<Rightarrow> bytes option \<Rightarrow> cmd_context res" where
  "parse_command nullok max_args c name args =
     rbind (parse_words nullok (max_args - 1) args None [name]) (\<lambda>(ws, args, save).
     rbind (strtok_r nullok args line_ends save) (\<lambda>(tok, _).
     let ws = (case tok of None \<Rightarrow> ws | Some w \<Rightarrow> ws @ [w]) in
     Inr (c\<lparr>cmd := ws, nargs := length ws\<rparr>)))"

section \<open>Commands\<close>

record shell =
  sh_fs :: fs
  sh_context :: cmd_context
  can_quit :: bool

type_synonym shell_result = "(int \<times> bytes \<times> shell) res"

record command =
  c_name :: bytes
  c_func :: "shell \<Rightarrow> shell_result"
  c_max_args :: nat
  c_help :: bytes
  c_usage :: bytes

text \<open>A command of the file system, and an entry of the table.\<close>

definition on_shell :: "(fs \<Rightarrow> cmd_context \<Rightarrow> cmd_result) \<Rightarrow> shell \<Rightarrow> shell_result" where
  "on_shell f sh = rbind (f (sh_fs sh) (sh_context sh)) (\<lambda>(ret, out, w, c). Inr (ret, out, sh\<lparr>sh_fs := w, sh_context := c\<rparr>))"

definition entry_of :: "string \<Rightarrow> (shell \<Rightarrow> shell_result) \<Rightarrow> nat \<Rightarrow> string \<Rightarrow> string \<Rightarrow> command" where
  "entry_of name f n help usage = \<lparr>c_name = lit name, c_func = f, c_max_args = n, c_help = lit help, c_usage = lit usage\<rparr>"

definition cmd_quit :: "shell \<Rightarrow> shell_result" where
  "cmd_quit sh = Inr (0, lit ''Bye!'' @ [10], sh\<lparr>can_quit := True\<rparr>)"

text \<open>\<open>cmd_help\<close> prints the table it is in, \<open>tbl\<close>; the name is right-justified in eight columns.\<close>

definition cmd_help :: "command list \<Rightarrow> shell \<Rightarrow> shell_result" where
  "cmd_help tbl sh = Inr (0, lit ''Commands:'' @ [10] @
     concat (map (\<lambda>k. replicate (8 - length (c_name k)) 32 @ c_name k @ lit '' - '' @ c_help k @ [32] @ c_usage k @ [10]) tbl), sh)"

definition cmdtable_with :: "(shell \<Rightarrow> shell_result) \<Rightarrow> nat \<Rightarrow> (int \<Rightarrow> bool) \<Rightarrow> command list" where
  "cmdtable_with help fuel m =
    [entry_of ''help'' help 1 ''prints this help message.'' ''usage: help'',
     entry_of ''cd'' (on_shell (cmd_cd m)) 2 ''changes to directory DIR.'' ''usage: cd DIR'',
     entry_of ''pwd'' (on_shell (cmd_pwd fuel m)) 1 ''prints current directory.'' ''usage: pwd'',
     entry_of ''ls'' (on_shell (cmd_ls fuel m)) 2 ''lists files and directories in directory DIR.'' ''usage: ls DIR'',
     entry_of ''lsr'' (on_shell (cmd_lsr fuel m)) 2 ''recursively lists files and directories in directory DIR.'' ''usage: lsr DIR'',
     entry_of ''create'' (on_shell (cmd_create m)) 2 ''creates a new file FILE in the current directory.'' ''usage: create FILE'',
     entry_of ''stat'' (on_shell (cmd_stat m)) 2 ''prints information on file or dir named NAME.'' ''usage: stat NAME'',
     entry_of ''rm'' (on_shell (cmd_rm m)) 2 ''removes a file or directory with name NAME.'' ''usage: rm NAME'',
     entry_of ''mkdir'' (on_shell (cmd_mkdir m)) 2 ''creates a new directory DIR in the current directory.'' ''usage: mkdir DIR'',
     entry_of ''read'' (on_shell (cmd_read m)) 4 ''reads SIZE bytes of ascii data from file FILE at offset OFFSET.'' ''usage: read FILE OFFSET SIZE'',
     entry_of ''write'' (on_shell (cmd_write m)) 4 ''write ascii data DATA to file FILE at offset OFFSET.'' ''usage: write FILE OFFSET DATA'',
     entry_of ''fsstat'' (on_shell cmd_fsstat) 1 ''print inode and block usage.'' ''usage: fsstat'',
     entry_of ''quit'' cmd_quit 1 ''quits this program.'' ''usage: quit'']"

definition cmdtable :: "nat \<Rightarrow> (int \<Rightarrow> bool) \<Rightarrow> command list" where
  "cmdtable fuel m = cmdtable_with (cmd_help (cmdtable_with (\<lambda>sh. Inr (0, [], sh)) fuel m)) fuel m"

text \<open>The command line \<open>name args\<close>; \<open>strerror\<close> is that of the C library.\<close>

definition handle_command ::
  "bool \<Rightarrow> (int \<Rightarrow> bytes) \<Rightarrow> command list \<Rightarrow> shell \<Rightarrow> bytes option \<Rightarrow> bytes option \<Rightarrow> (bytes \<times> bytes \<times> shell) res" where
  "handle_command nullok strerror tbl sh name args =
     (case name of
        None \<Rightarrow> Inr ([], [], sh)
      | Some name \<Rightarrow>
         (case List.find (\<lambda>k. c_name k = name) tbl of
            None \<Rightarrow> Inr ([], name @ lit '': command not found. type '' @ [34] @ lit ''help'' @ [34, 10], sh)
          | Some k \<Rightarrow>
              rbind (parse_command nullok (c_max_args k) (sh_context sh) name args) (\<lambda>c.
              rbind (c_func k (sh\<lparr>sh_context := c\<rparr>)) (\<lambda>(ret, out, sh).
              Inr (out, if ret < 0 then cmd (sh_context sh) ! 0 @ lit '': '' @ strerror (- ret) @ [10] @ c_usage k @ [10] else [], sh)))))"

section \<open>The loop\<close>

definition shell_line :: "bool \<Rightarrow> (int \<Rightarrow> bytes) \<Rightarrow> command list \<Rightarrow> bool \<Rightarrow> shell \<Rightarrow> bytes \<Rightarrow> (bytes \<times> bytes \<times> shell) res" where
  "shell_line nullok strerror tbl verbose sh buf =
     (let line = takeWhile (\<lambda>x. x \<noteq> 0) buf in
      if line \<noteq> [] \<and> hd line = 35 then Inr ([], [], sh)
      else
        rbind (strtok_r nullok (Some line) blanks None) (\<lambda>(cname, save).
        rbind (strtok_r nullok None line_ends save) (\<lambda>(pargs, _).
        rbind (handle_command nullok strerror tbl sh cname pargs) (\<lambda>(out, err, sh).
        Inr ((if verbose then line else []) @ out, err, sh)))))"

fun shell_loop :: "bool \<Rightarrow> (int \<Rightarrow> bytes) \<Rightarrow> command list \<Rightarrow> bool \<Rightarrow> bool \<Rightarrow> bytes list \<Rightarrow> shell \<Rightarrow> (bytes \<times> bytes \<times> shell) res" where
  "shell_loop nullok strerror tbl hide_prompt verbose [] sh = Inr (if hide_prompt then [] else lit ''% '', [], sh)"
| "shell_loop nullok strerror tbl hide_prompt verbose (line # stdin) sh =
     rbind (shell_line nullok strerror tbl verbose sh line) (\<lambda>(out, err, sh).
     rbind (if can_quit sh then Inr ([], [], sh) else shell_loop nullok strerror tbl hide_prompt verbose stdin sh) (\<lambda>(out', err', sh).
     Inr ((if hide_prompt then [] else lit ''% '') @ out @ out', err @ err', sh)))"

text \<open>
  \<open>main\<close> after the options: \<open>disk\<close> is what fopen finds. The result is what is printed and the disk. The assertions on mallinfo are left out.
\<close>

definition testfs_main ::
  "bool \<Rightarrow> (int \<Rightarrow> bytes) \<Rightarrow> nat \<Rightarrow> (int \<Rightarrow> bool) \<Rightarrow> bool \<Rightarrow> bool \<Rightarrow> int \<Rightarrow> (nat \<Rightarrow> u8) \<Rightarrow> bytes list \<Rightarrow> bytes option \<Rightarrow> (bytes \<times> bytes \<times> bytes) res"
where
  "testfs_main nullok strerror fuel m hide_prompt verbose errno j stdin disk =
     rbind (testfs_mount (\<lambda>_. m 0) errno disk j) (\<lambda>(ret, mounted).
     case mounted of
       None \<Rightarrow> Inl (Exit_with ''testfs_init_super_block'')
     | Some w \<Rightarrow>
         if ret \<noteq> 0 then Inl (Exit_with ''testfs_init_super_block'')
         else
           rbind (testfs_get_inode w 0) (\<lambda>(dir, w).
           rbind (shell_loop nullok strerror (cmdtable fuel m) hide_prompt verbose stdin
               \<lparr>sh_fs = w, sh_context = \<lparr>nargs = 0, cmd = [], cur_dir = dir\<rparr>, can_quit = False\<rparr>) (\<lambda>(out, err, sh).
           rbind (testfs_put_inode (cur_dir (sh_context sh)) (sh_fs sh)) (\<lambda>w.
           rbind (testfs_unmount w) (\<lambda>disk. Inr (out, err, disk))))))"

end
