(* ===== verification/Dictionary.thy ===== *)
theory Dictionary
  imports Main
begin

text \<open>
  The contract of a dictionary kept in a container: what a lookup gives after a key that is not there is added and after
  one is removed. A directory of the file system (names to inode numbers) and the document cache of the web server
  (file names to documents) provide it.
\<close>

locale dictionary =
  fixes wf :: "'c \<Rightarrow> bool"
    and lookup :: "'c \<Rightarrow> 'k \<Rightarrow> 'v option"
    and add :: "'c \<Rightarrow> 'k \<Rightarrow> 'v \<Rightarrow> 'c"
    and remove :: "'c \<Rightarrow> 'k \<Rightarrow> 'c"
    and ok :: "'k \<Rightarrow> 'v \<Rightarrow> bool"
  assumes wf_add: "wf c \<Longrightarrow> ok k v \<Longrightarrow> lookup c k = None \<Longrightarrow> wf (add c k v)"
    and lookup_add: "wf c \<Longrightarrow> ok k v \<Longrightarrow> lookup c k = None \<Longrightarrow> lookup (add c k v) = (lookup c)(k \<mapsto> v)"
    and wf_remove: "wf c \<Longrightarrow> wf (remove c k)"
    and lookup_remove: "wf c \<Longrightarrow> lookup (remove c k) = (lookup c)(k := None)"
begin

lemma remove_add: "wf c \<Longrightarrow> ok k v \<Longrightarrow> lookup c k = None \<Longrightarrow> lookup (remove (add c k v) k) = lookup c"
  by (auto simp: wf_add lookup_add lookup_remove)

lemma lookup_add_same: "wf c \<Longrightarrow> ok k v \<Longrightarrow> lookup c k = None \<Longrightarrow> lookup (add c k v) k = Some v"
  by (simp add: lookup_add)

lemma add_remove: "wf c \<Longrightarrow> ok k v \<Longrightarrow> lookup c k = Some v \<Longrightarrow> lookup (add (remove c k) k v) = lookup c"
  by (auto simp: wf_remove lookup_add lookup_remove)

lemma add_swap:
  "wf c \<Longrightarrow> ok k v \<Longrightarrow> ok k' v' \<Longrightarrow> k \<noteq> k' \<Longrightarrow> lookup c k = None \<Longrightarrow> lookup c k' = None \<Longrightarrow>
    lookup (add (add c k v) k' v') = lookup (add (add c k' v') k v)"
  by (simp add: wf_add lookup_add fun_upd_twist)

end

end
