(* ===== verification/Dir_Entries.thy ===== *)
theory Dir_Entries
  imports Dictionary Dir
begin

unbundle bit_operations_syntax

text \<open>
  What a directory is, abstractly: the list of its entries, an inode number (negative when the entry is deleted) and a
  name, and what looking up, adding and removing a name do to it. Its bytes are those of the entries one after the other.
  In use the names are distinct, and then the list is a dictionary.
\<close>

type_synonym entry = "int \<times> u8 list"

definition entry_ok :: "entry \<Rightarrow> bool" where
  "entry_ok e \<longleftrightarrow> c_string (snd e) \<and> - 1 \<le> fst e \<and> fst e < 2 ^ 31"

definition dirent_of :: "entry \<Rightarrow> dirent" where
  "dirent_of e = \<lparr>d_name_len = word_of_nat (Suc (length (snd e))), d_inode_nr = word_of_int (fst e), d_name = snd e @ [0]\<rparr>"

definition ent_bytes :: "entry \<Rightarrow> u8 list" where
  "ent_bytes e = dirent_bytes (dirent_of e)"

definition dir_bytes :: "entry list \<Rightarrow> u8 list" where
  "dir_bytes es = concat (map ent_bytes es)"

fun dir_lookup :: "entry list \<Rightarrow> u8 list \<Rightarrow> int option" where
  "dir_lookup [] name = None"
| "dir_lookup ((nr, nm) # es) name = (if 0 \<le> nr \<and> nm = name then Some nr else dir_lookup es name)"

fun dir_find :: "entry list \<Rightarrow> int \<Rightarrow> entry option" where
  "dir_find [] nr = None"
| "dir_find (e # es) nr = (if fst e = nr then Some e else dir_find es nr)"

fun dir_slot :: "entry list \<Rightarrow> nat \<Rightarrow> nat" where
  "dir_slot [] k = 0"
| "dir_slot (e # es) k = (if fst e < 0 \<and> length (snd e) = k then 0 else Suc (dir_slot es k))"

definition dir_put :: "entry list \<Rightarrow> nat \<Rightarrow> entry \<Rightarrow> entry list" where
  "dir_put es j e = take j es @ e # drop (Suc j) es"

definition dir_add :: "entry list \<Rightarrow> u8 list \<Rightarrow> int \<Rightarrow> entry list" where
  "dir_add es name nr = dir_put es (dir_slot es (length name)) (nr, name)"

fun dir_remove :: "entry list \<Rightarrow> u8 list \<Rightarrow> entry list" where
  "dir_remove [] name = []"
| "dir_remove ((nr, nm) # es) name = (if 0 \<le> nr \<and> nm = name then (- 1, nm) # es else (nr, nm) # dir_remove es name)"

definition dir_removable :: "entry list \<Rightarrow> bool" where
  "dir_removable es \<longleftrightarrow> (\<forall>e\<in>set es. fst e < 0 \<or> snd e = dot \<or> snd e = dotdot)"

text \<open>The names in use, in order.\<close>

definition dir_names :: "entry list \<Rightarrow> u8 list list" where
  "dir_names es = map snd (filter (\<lambda>e. 0 \<le> fst e) es)"

section \<open>Bytes\<close>

lemma length_ent_bytes [simp]: "length (ent_bytes e) = 9 + length (snd e)"
  by (simp add: ent_bytes_def dirent_bytes_def dirent_of_def)

lemma dir_bytes_simps [simp]:
  "dir_bytes [] = []" "dir_bytes (e # es) = ent_bytes e @ dir_bytes es" "dir_bytes (es @ fs) = dir_bytes es @ dir_bytes fs"
  by (simp_all add: dir_bytes_def)

lemma length_le_dir_bytes: "length es \<le> length (dir_bytes es)"
  by (induction es) auto

lemma dirent_of_simps [simp]:
  assumes "entry_ok e" "length (snd e) < 2 ^ 30"
  shows "sint (d_inode_nr (dirent_of e)) = fst e" "sint (d_name_len (dirent_of e)) = int (Suc (length (snd e)))"
    "d_name (dirent_of e) = snd e @ [0]"
proof -
  show "sint (d_inode_nr (dirent_of e)) = fst e"
    using assms by (simp add: dirent_of_def entry_ok_def sint32_of_int)
  have "word_of_nat (Suc (length (snd e))) = (word_of_int (int (Suc (length (snd e)))) :: 32 word)" by simp
  then show "sint (d_name_len (dirent_of e)) = int (Suc (length (snd e)))"
    using assms(2) sint32_of_int [of "int (Suc (length (snd e)))"] by (simp add: dirent_of_def)
  show "d_name (dirent_of e) = snd e @ [0]" by (simp add: dirent_of_def)
qed

lemma ent_header:
  "bslice 0 4 (bslice 0 8 (ent_bytes e)) = le32 (d_name_len (dirent_of e))"
  "bslice 4 4 (bslice 0 8 (ent_bytes e)) = le32 (d_inode_nr (dirent_of e))"
  "bslice 8 (Suc (length (snd e))) (ent_bytes e) = snd e @ [0]"
  by (simp_all add: ent_bytes_def dirent_bytes_def bslice_def dirent_of_def)

section \<open>Positions\<close>

lemma dir_slot_le: "dir_slot es k \<le> length es"
  by (induction es) auto

lemma dir_slot_free:
  "dir_slot es k < length es \<Longrightarrow> fst (es ! dir_slot es k) < 0 \<and> length (snd (es ! dir_slot es k)) = k"
  by (induction es) auto

lemma dir_put_end [simp]: "dir_put es (length es) e = es @ [e]"
  by (simp add: dir_put_def)

lemma dir_bytes_put:
  assumes "j \<le> length es" "j < length es \<Longrightarrow> length (snd (es ! j)) = length (snd e)"
  shows "dir_bytes (dir_put es j e) = take (length (dir_bytes (take j es))) (dir_bytes es) @ ent_bytes e @
    drop (length (dir_bytes (take j es)) + length (ent_bytes e)) (dir_bytes es)"
proof (cases "j = length es")
  case True
  then show ?thesis by simp
next
  case False
  then have j: "j < length es" using assms(1) by simp
  let ?a = "take j es" and ?b = "drop (Suc j) es"
  have es: "es = ?a @ es ! j # ?b" using id_take_nth_drop [OF j] .
  have "dir_bytes es = dir_bytes ?a @ ent_bytes (es ! j) @ dir_bytes ?b"
    by (subst es) (simp del: append_take_drop_id)
  then show ?thesis using assms(2) [OF j] by (simp add: dir_put_def)
qed

lemma set_dir_put: "set (dir_put es j e) \<subseteq> insert e (set es)"
  using set_take_subset [of j es] set_drop_subset [of "Suc j" es] by (auto simp: dir_put_def)

section \<open>The dictionary\<close>

definition dir_ok :: "entry list \<Rightarrow> bool" where
  "dir_ok es \<longleftrightarrow> distinct (dir_names es)"

lemma dir_names_simps [simp]:
  "dir_names [] = []" "dir_names (e # es) = (if 0 \<le> fst e then snd e # dir_names es else dir_names es)"
  "dir_names (es @ fs) = dir_names es @ dir_names fs"
  by (simp_all add: dir_names_def)

lemma dir_lookup_None: "dir_lookup es name = None \<longleftrightarrow> name \<notin> set (dir_names es)"
  by (induction es name rule: dir_lookup.induct) auto

lemma dir_lookup_append: "dir_lookup (es @ fs) name = (case dir_lookup es name of None \<Rightarrow> dir_lookup fs name | Some v \<Rightarrow> Some v)"
  by (induction es name rule: dir_lookup.induct) auto

lemma dir_lookup_in: "dir_lookup es name = Some nr \<Longrightarrow> (nr, name) \<in> set es \<and> 0 \<le> nr"
  by (induction es name rule: dir_lookup.induct) (auto split: if_splits)

lemma dir_lookup_split:
  "dir_lookup es name = Some nr \<Longrightarrow> \<exists>a b. es = a @ (nr, name) # b \<and> dir_lookup a name = None \<and> 0 \<le> nr"
proof (induction es name rule: dir_lookup.induct)
  case (2 k nm es name)
  show ?case
  proof (cases "0 \<le> k \<and> nm = name")
    case True
    then show ?thesis using 2(2) by (intro exI [of _ "[]"] exI [of _ es]) auto
  next
    case False
    then obtain a b where "es = a @ (nr, name) # b" "dir_lookup a name = None" "0 \<le> nr" using 2 by auto
    then show ?thesis using False by (intro exI [of _ "(k, nm) # a"] exI [of _ b]) auto
  qed
qed simp

lemma dir_remove_split: "dir_lookup a name = None \<Longrightarrow> 0 \<le> nr \<Longrightarrow> dir_remove (a @ (nr, name) # b) name = a @ (- 1, name) # b"
  by (induction a name rule: dir_lookup.induct) (auto split: if_splits)

lemma dir_remove_none: "dir_lookup es name = None \<Longrightarrow> dir_remove es name = es"
  by (induction es name rule: dir_lookup.induct) (auto split: if_splits)

lemma slot_split:
  assumes "j \<le> length es" "j < length es \<Longrightarrow> fst (es ! j) < 0"
  shows "dir_names es = dir_names (take j es) @ dir_names (drop (Suc j) es)"
    "dir_lookup es name = (case dir_lookup (take j es) name of None \<Rightarrow> dir_lookup (drop (Suc j) es) name | Some v \<Rightarrow> Some v)"
proof -
  have "dir_names es = dir_names (take j es) @ dir_names (drop (Suc j) es) \<and>
    dir_lookup es name = (case dir_lookup (take j es) name of None \<Rightarrow> dir_lookup (drop (Suc j) es) name | Some v \<Rightarrow> Some v)"
  proof (cases "j = length es")
    case False
    then have j: "j < length es" using assms(1) by simp
    obtain k nm where e: "es ! j = (k, nm)" by (cases "es ! j")
    have es: "es = take j es @ (k, nm) # drop (Suc j) es" using id_take_nth_drop [OF j] e by simp
    have k: "k < 0" using assms(2) [OF j] e by simp
    have "dir_names es = dir_names (take j es) @ dir_names (drop (Suc j) es)"
      by (subst es) (use k in \<open>simp del: append_take_drop_id\<close>)
    moreover have "dir_lookup es name = (case dir_lookup (take j es) name of None \<Rightarrow> dir_lookup (drop (Suc j) es) name | Some v \<Rightarrow> Some v)"
      by (subst es) (use k in \<open>simp add: dir_lookup_append split: option.split\<close>)
    ultimately show ?thesis by blast
  qed (simp split: option.split)
  then show "dir_names es = dir_names (take j es) @ dir_names (drop (Suc j) es)"
    "dir_lookup es name = (case dir_lookup (take j es) name of None \<Rightarrow> dir_lookup (drop (Suc j) es) name | Some v \<Rightarrow> Some v)"
    by blast+
qed

lemma dir_put_dict:
  assumes "j \<le> length es" "j < length es \<Longrightarrow> fst (es ! j) < 0" "dir_lookup es name = None" "0 \<le> nr"
  shows "dir_lookup (dir_put es j (nr, name)) = (dir_lookup es)(name \<mapsto> nr)"
    "dir_ok es \<Longrightarrow> dir_ok (dir_put es j (nr, name))"
proof -
  note S = slot_split [OF assms(1,2)]
  have n: "name \<notin> set (dir_names (take j es))" "name \<notin> set (dir_names (drop (Suc j) es))"
    using assms(3) S(1) by (simp_all add: dir_lookup_None)
  then show "dir_ok es \<Longrightarrow> dir_ok (dir_put es j (nr, name))"
    using S(1) assms(4) by (auto simp: dir_ok_def dir_put_def)
  show "dir_lookup (dir_put es j (nr, name)) = (dir_lookup es)(name \<mapsto> nr)"
  proof
    fix k
    show "dir_lookup (dir_put es j (nr, name)) k = ((dir_lookup es)(name \<mapsto> nr)) k"
      using S(2) [of k] n(1) [folded dir_lookup_None] assms(4) by (auto simp: dir_put_def dir_lookup_append split: option.split)
  qed
qed

lemma dir_add_dict:
  assumes "dir_lookup es name = None" "0 \<le> nr"
  shows "dir_lookup (dir_add es name nr) = (dir_lookup es)(name \<mapsto> nr)" "dir_ok es \<Longrightarrow> dir_ok (dir_add es name nr)"
  unfolding dir_add_def
  using dir_put_dict [OF dir_slot_le [of es "length name"] _ assms] dir_slot_free [of es "length name"] by auto

lemma dir_remove_dict:
  assumes "dir_ok es"
  shows "dir_lookup (dir_remove es name) = (dir_lookup es)(name := None)" "dir_ok (dir_remove es name)"
proof -
  have "dir_lookup (dir_remove es name) = (dir_lookup es)(name := None) \<and> dir_ok (dir_remove es name)"
  proof (cases "dir_lookup es name")
    case None
    then show ?thesis using assms by (simp add: dir_remove_none fun_upd_idem)
  next
    case (Some nr)
    then obtain a b where es: "es = a @ (nr, name) # b" "dir_lookup a name = None" "0 \<le> nr"
      using dir_lookup_split by blast
    have b: "dir_lookup b name = None" using assms es by (simp add: dir_ok_def dir_lookup_None)
    have "dir_lookup (a @ (- 1, name) # b) k = ((dir_lookup es)(name := None)) k" for k
      using es b by (auto simp: dir_lookup_append split: option.split)
    then show ?thesis
      using assms es dir_remove_split [OF es(2,3)] by (auto simp: dir_ok_def fun_eq_iff)
  qed
  then show "dir_lookup (dir_remove es name) = (dir_lookup es)(name := None)" "dir_ok (dir_remove es name)" by blast+
qed

interpretation dirs: dictionary dir_ok dir_lookup dir_add dir_remove "\<lambda>name nr. 0 \<le> nr"
  by unfold_locales (simp_all add: dir_add_dict dir_remove_dict)

end
