(* ===== verification/Dir_Spec.thy ===== *)
theory Dir_Spec
  imports Dir_Entries
begin

unbundle bit_operations_syntax

text \<open>
  The functions of fs/dir.c on a directory that represents a list of entries, \<open>dir_rep\<close>: what each loop computes and
  what each operation does to the list, to the other files and to the inodes. Directories are within
  the direct and indirect blocks (16859136 bytes), where a hole reads as zero, and malloc succeeds.
\<close>

section \<open>Representation\<close>

abbreviation (input) ample :: "int \<Rightarrow> bool" where "ample \<equiv> (\<lambda>_. True)"
abbreviation (input) MAX_DIR :: nat where "MAX_DIR \<equiv> 16859136"

definition dir_rep :: "fs \<Rightarrow> nat \<Rightarrow> entry list \<Rightarrow> bool" where
  "dir_rep w n es \<longleftrightarrow>
     i_type (dinode_at w n) = I_DIR \<and> list_all entry_ok es \<and> length (dir_bytes es) \<le> MAX_DIR \<and>
     fsize (dinode_at w n) = length (dir_bytes es) \<and>
     (\<forall>off<length (dir_bytes es). contents w n off = dir_bytes es ! off)"

lemma dir_repD:
  assumes "dir_rep w n es"
  shows "i_type (dinode_at w n) = I_DIR" "list_all entry_ok es" "length (dir_bytes es) \<le> MAX_DIR"
    "fsize (dinode_at w n) = length (dir_bytes es)" "off < length (dir_bytes es) \<Longrightarrow> contents w n off = dir_bytes es ! off"
  using assms by (simp_all add: dir_rep_def)

lemma dir_rep_cong:
  assumes "dir_rep w n es" "dinode_at w' n = dinode_at w n" "\<And>off. off < MAX_FILE_BYTES \<Longrightarrow> contents w' n off = contents w n off"
  shows "dir_rep w' n es"
proof -
  have "contents w' n off = dir_bytes es ! off" if "off < length (dir_bytes es)" for off
    using assms(3) [of off] that dir_repD(3,5) [OF assms(1)] by simp
  then show ?thesis using assms(1,2) by (simp add: dir_rep_def)
qed

lemma dir_rep_others:
  "dir_rep w m es \<Longrightarrow> others_same n w w' \<Longrightarrow> m < NR_INODES \<Longrightarrow> m \<noteq> n \<Longrightarrow> dir_rep w' m es"
  by (rule dir_rep_cong) (auto simp: others_same_def)

lemma dir_rep_name: "dir_rep w n es \<Longrightarrow> e \<in> set es \<Longrightarrow> entry_ok e \<and> length (snd e) < 2 ^ 30"
proof
  assume d: "dir_rep w n es" and e: "e \<in> set es"
  show "entry_ok e" using dir_repD(2) [OF d] e by (simp add: list_all_iff)
  obtain a b where "es = a @ e # b" using split_list [OF e] by blast
  then have "length (snd e) \<le> length (dir_bytes es)" by simp
  then show "length (snd e) < 2 ^ 30" using dir_repD(3) [OF d] by simp
qed

section \<open>Reading an entry\<close>

lemma cached_size:
  assumes "fs_wf w" "cached w n a i"
  shows "testfs_inode_get_size i = int (fsize (dinode_at w n))" "testfs_inode_get_type i = i_type (dinode_at w n)"
    "a \<noteq> 0" "get_inode_at w a = Inr i" "testfs_inode_get_nr i = int n"
proof -
  have i: "inodes w a = Some i" "i_nr i = int n" using assms(2) by (auto simp: cached_def)
  have d: "dinode_at w n = in_d i" by (rule dinode_at_cached [OF fs_wfD(1) [OF assms(1)] assms(2)])
  have "file_wf (sbk w) (in_d i)" using fs_wfD(4) [OF assms(1) cached_used [OF assms]] d by simp
  then have "0 \<le> sint (i_size (in_d i))" by (simp add: file_wfD(2))
  then show "testfs_inode_get_size i = int (fsize (dinode_at w n))"
    using d by (simp add: testfs_inode_get_size_def fsize_def)
  show "testfs_inode_get_type i = i_type (dinode_at w n)" using d by (simp add: testfs_inode_get_type_def)
  show "a \<noteq> 0" using cache_wf_structure [OF fs_wfD(1) [OF assms(1)] i(1)] by (simp add: structure_wf_def)
  show "get_inode_at w a = Inr i" using i by (simp add: get_inode_at_def)
  show "testfs_inode_get_nr i = int n" using i by (simp add: testfs_inode_get_nr_def)
qed

lemma dir_read:
  assumes w: "fs_wf w" "cached w n a i" and d: "dir_rep w n es"
    and k: "start + k \<le> length (dir_bytes es)" "length buf = k"
  shows "testfs_read_data i (sbk w) buf (int start) k st = Inr (int k, bslice start k (dir_bytes es))"
proof -
  have D: "dinode_at w n = in_d i" by (rule dinode_at_cached [OF fs_wfD(1) [OF w(1)] w(2)])
  have fw: "file_wf (sbk w) (in_d i)" using fs_wfD(4) [OF w(1) cached_used [OF w]] D by simp
  have sz: "fsize (in_d i) = length (dir_bytes es)" "length (dir_bytes es) \<le> MAX_DIR" using dir_repD(3,4) [OF d] D by simp_all
  have nh: "\<not> dhole (sbk w) (in_d i) L" if "L \<in> blocks_of start k" for L
    using blocks_of_le [OF that] k(1) sz(2) by (simp add: dhole_def)
  have "testfs_read_data i (sbk w) buf (int start) k st = Inr (int k, blit buf 0 (fbytes (sbk w) (in_d i) start k))"
    by (rule testfs_read_data_file [OF fs_wfD(2) [OF w(1)] fw]) (use k sz nh in auto)
  moreover have "fbytes (sbk w) (in_d i) start k = bslice start k (dir_bytes es)"
  proof (rule nth_equalityI)
    fix j assume j: "j < length (fbytes (sbk w) (in_d i) start k)"
    then have "contents w n (start + j) = dir_bytes es ! (start + j)" using dir_repD(5) [OF d] k(1) by simp
    then show "fbytes (sbk w) (in_d i) start k ! j = bslice start k (dir_bytes es) ! j"
      using j k(1) D by (simp add: fbytes_def nth_bslice contents_def)
  qed (use k in simp)
  ultimately show ?thesis using k by simp
qed

lemma length_uninit [simp]: "length (uninit w k) = k"
  by (simp add: uninit_def)

lemma next_dirent_end:
  assumes "fs_wf w" "cached w n a i" "dir_rep w n es"
  shows "testfs_next_dirent m w a (int (length (dir_bytes es))) = Inr (None, int (length (dir_bytes es)))"
  using cached_size [OF assms(1,2)] dir_repD(1,4) [OF assms(3)] by (simp add: testfs_next_dirent_def)

lemma next_dirent_entry:
  assumes w: "fs_wf w" "cached w n a i" and d: "dir_rep w n (es1 @ e # es2)"
  shows "testfs_next_dirent ample w a (int (length (dir_bytes es1))) =
    Inr (Some (dirent_of e), int (length (dir_bytes (es1 @ [e]))))"
proof -
  note C = cached_size [OF w]
  let ?o = "length (dir_bytes es1)"
  have e: "entry_ok e" "length (snd e) < 2 ^ 30" using dir_rep_name [OF d, of e] by auto
  have L: "?o + 9 + length (snd e) \<le> length (dir_bytes (es1 @ e # es2))" "?o + 9 + length (snd e) \<le> MAX_DIR"
    using dir_repD(3) [OF d] by simp_all
  have r1: "testfs_read_data i (sbk w) (uninit w 8) (int ?o) 8 st = Inr (8, bslice 0 8 (ent_bytes e))" for st
  proof -
    have "bslice ?o 8 (dir_bytes (es1 @ e # es2)) = bslice 0 8 (ent_bytes e)" by (simp add: bslice_def)
    then show ?thesis using dir_read [OF w d, of ?o 8 "uninit w 8" st] L(1) by simp
  qed
  have r2: "testfs_read_data i (sbk w) (uninit w (Suc (length (snd e)))) (int ?o + 8) (Suc (length (snd e))) st =
      Inr (int (Suc (length (snd e))), snd e @ [0])" for st
  proof -
    have "bslice (?o + 8) (Suc (length (snd e))) (dir_bytes (es1 @ e # es2)) = bslice 8 (Suc (length (snd e))) (ent_bytes e)"
      by (simp add: bslice_def)
    then show ?thesis
      using dir_read [OF w d, of "?o + 8" "Suc (length (snd e))" "uninit w (Suc (length (snd e)))" st] L(1) ent_header(3) [of e]
      by simp
  qed
  have le: "sint (un_le32 (bslice 0 4 (bslice 0 8 (ent_bytes e)))) = int (Suc (length (snd e)))"
    unfolding ent_header using dirent_of_simps(2) [OF e] by simp
  have cl: "c_long (int ?o + 8) = int ?o + 8" "c_long (int ?o + 8 + int (Suc (length (snd e)))) = int ?o + 9 + int (length (snd e))"
    using L(2) by (simp_all add: c_long_id)
  have n: "nat (int (Suc (length (snd e)))) = Suc (length (snd e))" by simp
  have gt: "\<not> testfs_inode_get_size i \<le> int ?o" using C(1) dir_repD(4) [OF d] by simp
  show ?thesis
    using C(2-4) dir_repD(1) [OF d] gt
    by (simp add: testfs_next_dirent_def r1 le cl n r2 rbind_c_assert Let_def del: of_nat_Suc)
      (simp add: dirent_of_def ent_header)
qed

section \<open>The loops\<close>

lemma dirent_is_of:
  assumes "entry_ok e" "length (snd e) < 2 ^ 30" "c_string name"
  shows "dirent_is (dirent_of e) name = Inr (0 \<le> fst e \<and> snd e = name)"
  using assms c_streq_nul [of "snd e" name "[]"] by (simp add: dirent_is_def entry_ok_def)

lemma name_to_nr_from_eq:
  assumes w: "fs_wf w" "cached w n a i" and nm: "c_string name"
  shows "dir_rep w n (es1 @ es2) \<Longrightarrow> length es2 < fuel \<Longrightarrow>
    name_to_nr_from fuel ample w a name (int (length (dir_bytes es1))) =
      Inr (case dir_lookup es2 name of None \<Rightarrow> - ENOENT | Some nr \<Rightarrow> nr)"
proof (induction es2 arbitrary: es1 fuel)
  case Nil
  then show ?case using next_dirent_end [OF w, of es1] by (cases fuel) simp_all
next
  case (Cons e es2)
  obtain f where f: "fuel = Suc f" "length es2 < f" using Cons.prems(2) by (cases fuel) auto
  note e = dir_rep_name [OF Cons.prems(1), of e]
  have IH: "name_to_nr_from f ample w a name (int (length (dir_bytes (es1 @ [e])))) =
      Inr (case dir_lookup es2 name of None \<Rightarrow> - ENOENT | Some nr \<Rightarrow> nr)"
    using Cons.IH [of "es1 @ [e]" f] Cons.prems(1) f(2) by simp
  show ?case
    using next_dirent_entry [OF w Cons.prems(1)] IH dirent_is_of [of e, OF _ _ nm] e f(1)
    by (cases e) (auto simp del: dir_bytes_simps)
qed

lemma dir_fuel_enough:
  assumes "fs_wf w" "cached w n a i" "dir_rep w n es"
  shows "length es < dir_fuel w a"
  using cached_size(1) [OF assms(1,2)] assms(2) dir_repD(4) [OF assms(3)] length_le_dir_bytes [of es]
  by (simp add: dir_fuel_def cached_def)

lemma assert_dir_ok: "fs_wf w \<Longrightarrow> cached w n a i \<Longrightarrow> dir_rep w n es \<Longrightarrow> assert_dir w a = Inr ()"
  using cached_size [of w n a i] dir_repD(1) [of w n es] by (simp add: assert_dir_def)

lemma name_to_nr:
  assumes "fs_wf w" "cached w n a i" "dir_rep w n es" "c_string name"
  shows "testfs_dir_name_to_inode_nr ample w a name = Inr (case dir_lookup es name of None \<Rightarrow> - ENOENT | Some nr \<Rightarrow> nr)"
  using name_to_nr_from_eq [OF assms(1,2,4), of "[]" es] dir_fuel_enough [OF assms(1-3)] assert_dir_ok [OF assms(1-3)] assms(3)
  by (simp add: testfs_dir_name_to_inode_nr_def)

lemma find_dirent_from_eq:
  assumes w: "fs_wf w" "cached w n a i"
  shows "dir_rep w n (es1 @ es2) \<Longrightarrow> length es2 < fuel \<Longrightarrow>
    find_dirent_from fuel ample w a nr (int (length (dir_bytes es1))) = Inr (map_option dirent_of (dir_find es2 nr))"
proof (induction es2 arbitrary: es1 fuel)
  case Nil
  then show ?case using next_dirent_end [OF w, of es1] by (cases fuel) simp_all
next
  case (Cons e es2)
  obtain f where f: "fuel = Suc f" "length es2 < f" using Cons.prems(2) by (cases fuel) auto
  note e = dir_rep_name [OF Cons.prems(1), of e]
  have "find_dirent_from f ample w a nr (int (length (dir_bytes (es1 @ [e])))) = Inr (map_option dirent_of (dir_find es2 nr))"
    using Cons.IH [of "es1 @ [e]" f] Cons.prems(1) f(2) by simp
  then show ?case
    using next_dirent_entry [OF w Cons.prems(1)] e f(1) by (auto simp del: dir_bytes_simps)
qed

lemma find_dirent:
  assumes "fs_wf w" "cached w n a i" "dir_rep w n es" "0 \<le> nr"
  shows "testfs_find_dirent ample w a nr = Inr (map_option dirent_of (dir_find es nr))"
  using find_dirent_from_eq [OF assms(1,2), of "[]" es] dir_fuel_enough [OF assms(1-3)] assert_dir_ok [OF assms(1-3)] assms(3,4)
  by (simp add: testfs_find_dirent_def)

lemma add_dirent_from_eq:
  assumes w: "fs_wf w" "cached w n a i" and nm: "c_string name"
  shows "dir_rep w n (es1 @ es2) \<Longrightarrow> length es2 < fuel \<Longrightarrow> dir_lookup es2 name = None \<Longrightarrow>
    add_dirent_from fuel ample w a name (int (length name) + 1) (int (length (dir_bytes es1))) =
      Inr (0, dir_slot es2 (length name) < length es2, int (length (dir_bytes (es1 @ take (dir_slot es2 (length name)) es2))))"
proof (induction es2 arbitrary: es1 fuel)
  case Nil
  then show ?case using next_dirent_end [OF w, of es1] by (cases fuel) simp_all
next
  case (Cons e es2)
  obtain f where f: "fuel = Suc f" "length es2 < f" using Cons.prems(2) by (cases fuel) auto
  note e = dir_rep_name [OF Cons.prems(1), of e]
  have no: "\<not> (0 \<le> fst e \<and> snd e = name)" and l: "dir_lookup es2 name = None"
    using Cons.prems(3) by (cases e; auto split: if_splits)+
  have IH: "add_dirent_from f ample w a name (int (length name) + 1) (int (length (dir_bytes (es1 @ [e])))) =
      Inr (0, dir_slot es2 (length name) < length es2,
        int (length (dir_bytes ((es1 @ [e]) @ take (dir_slot es2 (length name)) es2))))"
    using Cons.IH [of "es1 @ [e]" f] Cons.prems(1) f(2) l by simp
  have c: "sint (d_name_len (dirent_of e)) \<noteq> int (length name) + 1 \<longleftrightarrow> length (snd e) \<noteq> length name"
    using dirent_of_simps(2) [of e] e by simp
  show ?case
  proof (cases "fst e < 0 \<and> length (snd e) = length name")
    case True
    then show ?thesis
      using next_dirent_entry [OF w Cons.prems(1)] e f(1) c dirent_is_of [of e, OF _ _ nm] no by simp
  next
    case False
    then show ?thesis
      using next_dirent_entry [OF w Cons.prems(1)] e f(1) c dirent_is_of [of e, OF _ _ nm] no IH
      by (simp del: dir_bytes_simps)
  qed
qed

lemma remove_allowed_from_eq:
  assumes w: "fs_wf w" "cached w n a i"
  shows "dir_rep w n (es1 @ es2) \<Longrightarrow> length es2 < fuel \<Longrightarrow>
    remove_allowed_from fuel ample w a (int (length (dir_bytes es1))) = Inr (if dir_removable es2 then 0 else - ENOTEMPTY)"
proof (induction es2 arbitrary: es1 fuel)
  case Nil
  then show ?case using next_dirent_end [OF w, of es1] by (cases fuel) (simp_all add: dir_removable_def)
next
  case (Cons e es2)
  obtain f where f: "fuel = Suc f" "length es2 < f" using Cons.prems(2) by (cases fuel) auto
  note e = dir_rep_name [OF Cons.prems(1), of e]
  have IH: "remove_allowed_from f ample w a (int (length (dir_bytes (es1 @ [e])))) = Inr (if dir_removable es2 then 0 else - ENOTEMPTY)"
    using Cons.IH [of "es1 @ [e]" f] Cons.prems(1) f(2) by simp
  have c: "c_streq (snd e @ [0]) t = Inr (snd e = t)" if "c_string t" for t
    using e c_streq_nul [of "snd e" t "[]"] that by (simp add: entry_ok_def)
  have r: "dir_removable (e # es2) \<longleftrightarrow> (fst e < 0 \<or> snd e = dot \<or> snd e = dotdot) \<and> dir_removable es2"
    by (simp add: dir_removable_def)
  show ?case
    using next_dirent_entry [OF w Cons.prems(1)] e f(1) IH by (simp add: c r del: dir_bytes_simps)
qed

section \<open>Steps that change one directory\<close>

text \<open>The file system is as before but for inode \<open>n\<close>, and at most \<open>k\<close> more blocks are in use.\<close>

definition dstep :: "nat \<Rightarrow> nat \<Rightarrow> fs \<Rightarrow> fs \<Rightarrow> bool" where
  "dstep n k w w' \<longleftrightarrow> fs_wf w' \<and> others_same n w w' \<and> refs w' n = refs w n \<and>
     used_inodes (sbk w') = used_inodes (sbk w) \<and> max_fs_blocks (sb_d (sbk w')) = max_fs_blocks (sb_d (sbk w)) \<and>
     card (used_blocks (sbk w')) \<le> card (used_blocks (sbk w)) + k"

definition clean :: "fs \<Rightarrow> nat \<Rightarrow> bool" where
  "clean w n \<longleftrightarrow> (\<forall>a i. cached w n a i \<longrightarrow> \<not> is_dirty i)"

lemma dstepD:
  assumes "dstep n k w w'"
  shows "fs_wf w'" "others_same n w w'" "refs w' n = refs w n" "used_inodes (sbk w') = used_inodes (sbk w)"
    "max_fs_blocks (sb_d (sbk w')) = max_fs_blocks (sb_d (sbk w))" "card (used_blocks (sbk w')) \<le> card (used_blocks (sbk w)) + k"
  using assms by (simp_all add: dstep_def)

lemma dstep_refl: "fs_wf w \<Longrightarrow> dstep n 0 w w"
  by (simp add: dstep_def)

lemma dstep_trans: "dstep n j w w1 \<Longrightarrow> dstep n k w1 w2 \<Longrightarrow> dstep n (j + k) w w2"
  using others_same_trans unfolding dstep_def by (metis add.assoc add_le_mono1 le_trans)

lemma dstep_room: "dstep n j w w' \<Longrightarrow> room (sbk w) (j + k) \<Longrightarrow> room (sbk w') k"
  by (simp add: dstep_def room_def)

lemma dstep_others:
  assumes "dstep n k w w'" "m < NR_INODES" "m \<noteq> n"
  shows "dinode_at w' m = dinode_at w m" "refs w' m = refs w m" "cached w' m a i \<longleftrightarrow> cached w m a i"
    "dir_rep w m es \<Longrightarrow> dir_rep w' m es" "clean w m \<Longrightarrow> clean w' m"
  using assms dir_rep_others [of w m es n w'] by (auto simp: dstep_def others_same_def clean_def)

section \<open>Writing an entry\<close>

definition ent_room :: "u8 list \<Rightarrow> nat" where
  "ent_room name = 3 * ((16391 + length name) div BLOCK_SIZE)"

lemma write_room_le: "write_room off (9 + length name) \<le> ent_room name"
proof -
  have "off mod BLOCK_SIZE \<le> 8191" using mod_less_divisor [of BLOCK_SIZE off] by simp
  then have "(off mod BLOCK_SIZE + (9 + length name) + 8191) div BLOCK_SIZE \<le> (16391 + length name) div BLOCK_SIZE"
    by (intro div_le_mono) simp
  then show ?thesis by (simp add: write_room_def ent_room_def)
qed

lemma dir_write:
  assumes w: "fs_wf w" "cached w n a i" and d: "dir_rep w n es"
    and b: "0 < length b" "off \<le> length (dir_bytes es)" "length b + BLOCK_SIZE \<le> 2 ^ 31"
    and es': "dir_bytes es' = take off (dir_bytes es) @ b @ drop (off + length b) (dir_bytes es)"
      "list_all entry_ok es'" "length (dir_bytes es') \<le> MAX_DIR"
    and room: "room (sbk w) k" "write_room off (length b) \<le> k"
  obtains i' w' where "on_inode a (\<lambda>i s. testfs_write_data i s b (int off) (length b) st) w = Inr (int (length b), w')"
    "dstep n k w w'" "cached w' n a i'" "is_dirty i'" "dir_rep w' n es'"
proof -
  have len: "length (dir_bytes es') = max (length (dir_bytes es)) (off + length b)" using b(2) es'(1) by simp
  have max: "off + length b \<le> MAX_FILE_BYTES" using len es'(3) by simp
  have rm: "room (sbk w) (write_room off (length b))" by (rule room_less [OF room])
  obtain i' w' where W: "on_inode a (\<lambda>i s. testfs_write_data i s b (int off) (length b) st) w = Inr (int (length b), w')"
    "fs_wf w'" "cached w' n a i'" "is_dirty i'" "others_same n w w'" "refs w' n = refs w n"
    "fsize (dinode_at w' n) = max (fsize (dinode_at w n)) (off + length b)" "i_type (dinode_at w' n) = i_type (dinode_at w n)"
    "\<And>x. off \<le> x \<Longrightarrow> x < off + length b \<Longrightarrow> contents w' n x = b ! (x - off)"
    "\<And>x. x < MAX_FILE_BYTES \<Longrightarrow> \<not> (off \<le> x \<and> x < off + length b) \<Longrightarrow> x div BLOCK_SIZE < 2058 \<Longrightarrow>
      contents w' n x = contents w n x"
    "used_inodes (sbk w') = used_inodes (sbk w)" "max_fs_blocks (sb_d (sbk w')) = max_fs_blocks (sb_d (sbk w))"
    "card (used_blocks (sbk w')) \<le> card (used_blocks (sbk w)) + write_room off (length b)"
    by (rule fs_write_data [OF w b(1) le_refl b(3) max rm, of st]) blast
  have "contents w' n x = dir_bytes es' ! x" if x: "x < length (dir_bytes es')" for x
  proof (cases "off \<le> x \<and> x < off + length b")
    case True
    then have "x - off < length b" by linarith
    then show ?thesis using True W(9) [of x] b(2) unfolding es'(1) by (simp add: nth_append)
  next
    case False
    have "x div BLOCK_SIZE < 2058" "x < MAX_FILE_BYTES" using x es'(3) by (simp_all add: less_mult_imp_div_less)
    moreover have "x < length (dir_bytes es)" using x False len b(2) by (auto simp: max_def split: if_splits)
    ultimately have "contents w' n x = dir_bytes es ! x" using W(10) [OF _ False] dir_repD(5) [OF d] x False len by auto
    then show ?thesis using False x len b(2) unfolding es'(1) by (auto simp: nth_append min_def)
  qed
  then have "dir_rep w' n es'" using W(7,8) dir_repD [OF d] es' len by (simp add: dir_rep_def)
  moreover have "dstep n k w w'" using W(2,5,6,11-13) room(2) by (simp add: dstep_def)
  ultimately show ?thesis using W(1,3,4) by (intro that [of w' i']) auto
qed

lemma add_dirent:
  assumes w: "fs_wf w" "cached w n a i" and d: "dir_rep w n es"
    and nm: "c_string name" "dir_lookup es name = None" and nr: "0 \<le> nr" "nr < 2 ^ 31"
    and max: "length (dir_bytes es) + 9 + length name \<le> MAX_DIR" and room: "room (sbk w) (ent_room name)"
  obtains i' w' where "testfs_add_dirent ample w a name nr = Inr (9 + int (length name), w')"
    "dstep n (ent_room name) w w'" "cached w' n a i'" "is_dirty i'" "dir_rep w' n (dir_add es name nr)"
proof -
  let ?j = "dir_slot es (length name)" and ?e = "(nr, name)"
  let ?off = "length (dir_bytes (take ?j es))"
  have j: "?j \<le> length es" by (rule dir_slot_le)
  have scan: "add_dirent_from (dir_fuel w a) ample w a name (int (length name) + 1) 0 = Inr (0, ?j < length es, int ?off)"
    using add_dirent_from_eq [OF w nm(1), of "[]" es] d dir_fuel_enough [OF w d] nm(2) by simp
  have ci: "c_int (int (length name) + 1) = int (length name) + 1" using max by (simp add: c_int_id)
  have split: "length (dir_bytes es) = ?off + length (dir_bytes (drop ?j es))"
    by (metis append_take_drop_id dir_bytes_simps(3) length_append)
  then have co: "c_int (int ?off) = int ?off" using max by (simp add: c_int_id)
  have B: "dir_bytes (dir_add es name nr) = take ?off (dir_bytes es) @ ent_bytes ?e @ drop (?off + length (ent_bytes ?e)) (dir_bytes es)"
    unfolding dir_add_def by (rule dir_bytes_put [OF j]) (use dir_slot_free [of es "length name"] in simp)
  have ok: "entry_ok ?e" using nm nr by (simp add: entry_ok_def)
  have all: "list_all entry_ok (dir_add es name nr)"
    using dir_repD(2) [OF d] ok set_dir_put [of es ?j ?e] by (auto simp: dir_add_def list_all_iff)
  have len: "length (dir_bytes (dir_add es name nr)) \<le> MAX_DIR" using B split max by auto
  obtain i' w' where W: "on_inode a (\<lambda>i s. testfs_write_data i s (ent_bytes ?e) (int ?off) (length (ent_bytes ?e)) (uninit w BLOCK_SIZE)) w =
      Inr (int (length (ent_bytes ?e)), w')"
    "dstep n (ent_room name) w w'" "cached w' n a i'" "is_dirty i'" "dir_rep w' n (dir_add es name nr)"
  proof (rule dir_write [OF w d _ _ _ B all len room, where st = "uninit w BLOCK_SIZE"])
    show "write_room ?off (length (ent_bytes ?e)) \<le> ent_room name" using write_room_le by simp
  qed (use split max in auto)
  have sz: "testfs_inode_get_size i = int (length (dir_bytes es))" using cached_size(1) [OF w] dir_repD(4) [OF d] by simp
  have end_: "?j < length es \<or> ?off = length (dir_bytes es)" using j by (cases "?j = length es") auto
  obtain L where L: "L = int (length name) + 1" by simp
  have mc: "memcpy (uninit w (nat L)) 0 (name @ [0]) = Inr (name @ [0])" "c_ulong (int DIRENT_SIZE + L) = length (ent_bytes ?e)"
    using L max by (simp_all add: memcpy_def blit_def c_ulong_id nat_add_distrib)
  have eb: "le32 (word_of_int L) @ le32 (word_of_int nr) @ name @ [0] = ent_bytes ?e"
    using L by (simp add: ent_bytes_def dirent_bytes_def dirent_of_def add.commute)
  have "testfs_write_dirent ample w a name L nr (int ?off) = Inr (int (length (ent_bytes ?e)), w')"
    using W(1) nr(1) unfolding testfs_write_dirent_def by (simp only: mc eb rbind_Inr c_assert_True not_True_eq_False if_False)
  then have "testfs_add_dirent ample w a name nr = Inr (9 + int (length name), w')"
    using assert_dir_ok [OF w d] scan cached_size(4) [OF w] sz end_
    by (auto simp: testfs_add_dirent_def ci co L rbind_c_assert Let_def)
  then show ?thesis using W(2-5) by (rule that)
qed

section \<open>Looking at another inode\<close>

text \<open>The same file system seen from outside: only structures of inode \<open>n\<close> that are not modified may have come or gone.\<close>

definition same_fs :: "nat \<Rightarrow> fs \<Rightarrow> fs \<Rightarrow> bool" where
  "same_fs n w w' \<longleftrightarrow> fs_wf w' \<and> others_same n w w' \<and> sbk w' = sbk w \<and> dinode_at w' = dinode_at w \<and>
     refs w' = refs w \<and> contents w' = contents w \<and> clean w' n \<and> (\<forall>a i. cached w n a i \<longrightarrow> (\<exists>j. cached w' n a j))"

lemma same_fsD:
  assumes "same_fs n w w'"
  shows "fs_wf w'" "sbk w' = sbk w" "dinode_at w' = dinode_at w" "refs w' = refs w" "contents w' = contents w" "clean w' n"
    "dir_rep w' m es \<longleftrightarrow> dir_rep w m es" "dstep n 0 w w'" "m < NR_INODES \<Longrightarrow> m \<noteq> n \<Longrightarrow> cached w' m a i \<longleftrightarrow> cached w m a i"
    "junk w' = junk w" "cached w n b j \<Longrightarrow> \<exists>k. cached w' n b k"
  using assms by (auto simp: same_fs_def dir_rep_def dstep_def others_same_def)

lemma get_clean:
  assumes w: "fs_wf w" and n: "n \<in> used_inodes (sbk w)" and cl: "clean w n"
  obtains a i w' where "testfs_get_inode w (int n) = Inr (a, w')" "fs_wf w'" "cached w' n a i" "\<not> is_dirty i" "clean w' n"
    "sbk w' = sbk w" "others_same n w w'" "dinode_at w' = dinode_at w" "refs w' = (refs w)(n := refs w n + 1)"
    "contents w' = contents w" "\<And>m es. dir_rep w' m es \<longleftrightarrow> dir_rep w m es" "\<And>b j. cached w n b j \<Longrightarrow> b = a"
proof -
  obtain a i w' where g: "testfs_get_inode w (int n) = Inr (a, w')" "fs_wf w'" "cached w' n a i"
    "sbk w' = sbk w" "others_same n w w'" "dinode_at w' = dinode_at w" "refs w' = (refs w)(n := refs w n + 1)"
    "\<And>j. cached w n a j \<Longrightarrow> is_dirty i = is_dirty j" "refs w n = 0 \<Longrightarrow> \<not> is_dirty i" "contents w' = contents w"
    by (rule fs_get_inode [OF w n]) blast
  have same: "b = a" if c: "cached w n b j" for b j
    using get_inode_hit [OF fs_wfD(1) [OF w] c] g(1) by simp
  have nd: "\<not> is_dirty i"
  proof (cases "\<exists>b j. cached w n b j")
    case True
    then obtain b j where c: "cached w n b j" by blast
    have "a = b" using same [OF c] by simp
    then show ?thesis using g(8) c cl by (auto simp: clean_def)
  next
    case False
    then show ?thesis using g(9) refs_none [of w n] by blast
  qed
  have "clean w' n" unfolding clean_def using cached_unique [OF fs_wfD(1) [OF g(2)] g(3)] nd by blast
  then show ?thesis using g nd same by (intro that [of a w' i]) (auto simp: dir_rep_def)
qed

lemma put_inode_clean:
  assumes w: "cache_wf w" and c: "cached w n a i" and nd: "\<not> is_dirty i" and p: "testfs_put_inode a w = Inr w'"
  shows "clean w' n" "1 < refs w n \<Longrightarrow> cached w' n a (i\<lparr>i_count := i_count i - 1\<rparr>)"
proof -
  obtain v where v: "testfs_put_inode a w = Inr v" "cache_wf v"
    "if i_count i = 1 then \<not> (\<exists>b j. cached v n b j) else cached v n a (i\<lparr>i_count := i_count i - 1\<rparr>)"
    by (rule testfs_put_inode_ok [OF w c nd]) blast
  have e: "v = w'" using v(1) p by simp
  have nd': "\<not> is_dirty (i\<lparr>i_count := i_count i - 1\<rparr>)" using nd by (simp add: is_dirty_def)
  show "clean w' n"
  proof (cases "i_count i = 1")
    case True
    then show ?thesis using v(3) e by (simp add: clean_def)
  next
    case False
    then have "cached w' n a (i\<lparr>i_count := i_count i - 1\<rparr>)" using v(3) e by simp
    then show ?thesis unfolding clean_def using cached_unique [OF v(2) [unfolded e]] nd' by blast
  qed
  show "1 < refs w n \<Longrightarrow> cached w' n a (i\<lparr>i_count := i_count i - 1\<rparr>)"
    using v(3) e refs_cached [OF w c] by simp
qed

lemma put_clean:
  assumes w: "fs_wf w" and c: "cached w n a i" and nd: "\<not> is_dirty i"
  obtains w' where "testfs_put_inode a w = Inr w'" "fs_wf w'" "sbk w' = sbk w" "others_same n w w'"
    "dinode_at w' = dinode_at w" "refs w' = (refs w)(n := refs w n - 1)" "contents w' = contents w" "clean w' n"
    "\<And>m es. dir_rep w' m es \<longleftrightarrow> dir_rep w m es" "1 < refs w n \<Longrightarrow> \<exists>j. cached w' n a j"
proof -
  obtain w' where p: "testfs_put_inode a w = Inr w'" "cache_wf w'" "sbk w' = sbk w" "same_but n w w'"
    "dinode_at w' = dinode_at w" "refs w' = (refs w)(n := refs w n - 1)"
    by (rule testfs_put_inode_view [OF fs_wfD(1) [OF w] c nd]) blast
  obtain v where q: "testfs_put_inode a w = Inr v" "fs_wf v" "others_same n w v" "contents v = contents w"
    by (rule fs_put_inode [OF w c nd]) blast
  have wv: "v = w'" using p(1) q(1) by simp
  note P = put_inode_clean [OF fs_wfD(1) [OF w] c nd p(1)]
  then show ?thesis using p q unfolding wv by (intro that [of w']) (auto simp: dir_rep_def)
qed

lemma remove_allowed:
  assumes w: "fs_wf w" and n: "n \<in> used_inodes (sbk w)" and cl: "clean w n"
    and d: "i_type (dinode_at w n) = I_DIR \<Longrightarrow> dir_rep w n es"
  obtains w' where "testfs_remove_dirent_allowed ample w (int n) =
      Inr (if i_type (dinode_at w n) = I_DIR \<and> \<not> dir_removable es then - ENOTEMPTY else 0, w')" "same_fs n w w'"
proof -
  obtain a i w1 where g: "testfs_get_inode w (int n) = Inr (a, w1)" "fs_wf w1" "cached w1 n a i" "\<not> is_dirty i"
    "sbk w1 = sbk w" "others_same n w w1" "dinode_at w1 = dinode_at w" "refs w1 = (refs w)(n := refs w n + 1)"
    "contents w1 = contents w" "\<And>m es. dir_rep w1 m es \<longleftrightarrow> dir_rep w m es" "\<And>b j. cached w n b j \<Longrightarrow> b = a"
    by (rule get_clean [OF w n cl]) blast
  obtain w2 where p: "testfs_put_inode a w1 = Inr w2" "fs_wf w2" "sbk w2 = sbk w1" "others_same n w1 w2"
    "dinode_at w2 = dinode_at w1" "refs w2 = (refs w1)(n := refs w1 n - 1)" "contents w2 = contents w1" "clean w2 n" "1 < refs w1 n \<Longrightarrow> \<exists>j. cached w2 n a j"
    by (rule put_clean [OF g(2-4)]) blast
  have ty: "testfs_inode_get_type i = i_type (dinode_at w n)" "get_inode_at w1 a = Inr i" using cached_size [OF g(2,3)] g(7) by simp_all
  have scan: "remove_allowed_from (dir_fuel w1 a) ample w1 a 0 = Inr (if dir_removable es then 0 else - ENOTEMPTY)"
    if "i_type (dinode_at w n) = I_DIR"
    using remove_allowed_from_eq [OF g(2,3), of "[]" es] d [OF that] g(10) dir_fuel_enough [OF g(2,3)] by simp
  have "\<exists>k. cached w2 n b k" if c: "cached w n b j" for b j
    using p(9) g(8) g(11) [OF c] refs_pos [OF fs_wfD(1) [OF w], of n] c by auto
  then have "same_fs n w w2"
    using p(1-8) g(1-10) others_same_trans [OF g(6) p(4)] by (simp add: same_fs_def fun_eq_iff)
  moreover have "testfs_remove_dirent_allowed ample w (int n) =
      Inr (if i_type (dinode_at w n) = I_DIR \<and> \<not> dir_removable es then - ENOTEMPTY else 0, w2)"
    using g(1) p(1) ty scan by (simp add: testfs_remove_dirent_allowed_def)
  ultimately show ?thesis by (intro that [of w2]) auto
qed

section \<open>Removing an entry\<close>

lemma remove_dirent_skip:
  assumes w: "fs_wf w" "cached w n a i" and nm: "c_string name"
  shows "dir_rep w n (es1 @ es @ es2) \<Longrightarrow> dir_lookup es name = None \<Longrightarrow>
    remove_dirent_from (length es + fuel) ample w a name (int (length (dir_bytes es1))) =
      remove_dirent_from fuel ample w a name (int (length (dir_bytes (es1 @ es))))"
proof (induction es arbitrary: es1)
  case (Cons e es)
  note e = dir_rep_name [OF Cons.prems(1), of e]
  have no: "\<not> (0 \<le> fst e \<and> snd e = name)" and l: "dir_lookup es name = None"
    using Cons.prems(2) by (cases e; auto split: if_splits)+
  have d: "dir_rep w n (es1 @ e # (es @ es2))" using Cons.prems(1) by simp
  have IH: "remove_dirent_from (length es + fuel) ample w a name (int (length (dir_bytes (es1 @ [e])))) =
      remove_dirent_from fuel ample w a name (int (length (dir_bytes (es1 @ e # es))))"
    using Cons.IH [of "es1 @ [e]"] Cons.prems(1) l by (simp del: dir_bytes_simps)
  show ?case
    using next_dirent_entry [OF w d] dirent_is_of [of e, OF _ _ nm] e no IH by (simp del: dir_bytes_simps)
qed simp

lemma remove_dirent_none:
  assumes w: "fs_wf w" "cached w n a i" and d: "dir_rep w n es" and nm: "c_string name" "dir_lookup es name = None"
    "name \<noteq> dot" "name \<noteq> dotdot"
  shows "testfs_remove_dirent ample w a name = Inr (- ENOENT, w)"
proof -
  obtain f where f: "dir_fuel w a = length es + Suc f"
    using dir_fuel_enough [OF w d] less_imp_add_positive [of "length es"] by (metis Suc_pred)
  show ?thesis
    using remove_dirent_skip [OF w nm(1), of "[]" es "[]" "Suc f"] d nm next_dirent_end [OF w d] f cached_size(3) [OF w]
    by (simp add: testfs_remove_dirent_def)
qed

lemma remove_dirent:
  assumes w: "fs_wf w" "cached w n a i" and d: "dir_rep w n es"
    and nm: "c_string name" "name \<noteq> dot" "name \<noteq> dotdot" "dir_lookup es name = Some (int c)"
    and c: "c \<in> used_inodes (sbk w)" "clean w c" "c \<noteq> n" "i_type (dinode_at w c) = I_DIR \<longrightarrow> dir_rep w c cs"
    and room: "room (sbk w) (ent_room name)"
  obtains w' where "i_type (dinode_at w c) = I_DIR" "\<not> dir_removable cs"
      "testfs_remove_dirent ample w a name = Inr (- ENOTEMPTY, w')" "same_fs c w w'" "cached w' n a i"
  | i' w1 w' where "i_type (dinode_at w c) = I_DIR \<longrightarrow> dir_removable cs"
      "testfs_remove_dirent ample w a name = Inr (int c, w')" "same_fs c w w1" "dstep n (ent_room name) w1 w'"
      "cached w' n a i'" "is_dirty i'" "dir_rep w' n (dir_remove es name)"
proof -
  obtain es1 es2 where es: "es = es1 @ (int c, name) # es2" "dir_lookup es1 name = None"
    using dir_lookup_split [OF nm(4)] by blast
  let ?e = "(int c, name)" and ?e' = "(- 1, name)" and ?off = "length (dir_bytes es1)"
  obtain f where f: "dir_fuel w a = length es1 + Suc f"
    using dir_fuel_enough [OF w d] es(1) less_imp_add_positive [of "length es1" "dir_fuel w a"] by (metis Suc_pred add_lessD1 length_append)
  have n: "n \<in> used_inodes (sbk w)" "n < NR_INODES" using cached_used [OF w] fs_wfD(3) [OF w(1)] by auto
  obtain w1 where al: "testfs_remove_dirent_allowed ample w (int c) =
      Inr (if i_type (dinode_at w c) = I_DIR \<and> \<not> dir_removable cs then - ENOTEMPTY else 0, w1)" "same_fs c w w1"
    by (rule remove_allowed [OF w(1) c(1,2), of cs]) (use c(4) in blast)+
  have e: "entry_ok ?e" "length name < 2 ^ 30" using dir_rep_name [OF d, of ?e] es(1) by auto
  have nx: "testfs_next_dirent ample w a (int ?off) = Inr (Some (dirent_of ?e), int (length (dir_bytes (es1 @ [?e]))))"
    using next_dirent_entry [OF w] d es(1) by simp
  have isn: "dirent_is (dirent_of ?e) name = Inr True" using dirent_is_of [OF e(1) _ nm(1)] e(2) by simp
  have nr: "sint (d_inode_nr (dirent_of ?e)) = int c" "sint (d_name_len (dirent_of ?e)) = int (Suc (length name))"
    using dirent_of_simps [OF e(1)] e(2) by simp_all
  have skip: "testfs_remove_dirent ample w a name = remove_dirent_from (Suc f) ample w a name (int ?off)"
    using remove_dirent_skip [OF w nm(1), of "[]" es1 "?e # es2" "Suc f"] d es f nm(2,3) cached_size(3) [OF w]
    by (simp add: testfs_remove_dirent_def del: remove_dirent_from.simps)
  have c1: "cached w1 n a i" using same_fsD(9) [OF al(2) n(2)] c(3) w(2) by blast
  show ?thesis
  proof (cases "i_type (dinode_at w c) = I_DIR \<and> \<not> dir_removable cs")
    case True
    then have "testfs_remove_dirent ample w a name = Inr (- ENOTEMPTY, w1)"
      using skip nx isn nr al(1) by (simp add: Let_def)
    then show ?thesis using that(1) True al(2) c1 by blast
  next
    case False
    have d1: "dir_rep w1 n es" using same_fsD(7) [OF al(2)] d by simp
    have w1: "fs_wf w1" by (rule same_fsD(1) [OF al(2)])
    have r1: "room (sbk w1) (ent_room name)" using same_fsD(2) [OF al(2)] room by simp
    have eb: "dirent_bytes (dirent_of ?e\<lparr>d_inode_nr := - 1\<rparr>) = ent_bytes ?e'"
      by (simp add: ent_bytes_def dirent_of_def)
    have cu: "c_ulong (int DIRENT_SIZE + int (Suc (length name))) = length (ent_bytes ?e')"
      using e(2) by (simp add: c_ulong_id nat_add_distrib)
    have rm: "dir_remove es name = es1 @ ?e' # es2" unfolding es(1) by (rule dir_remove_split [OF es(2)]) simp
    have B: "dir_bytes (dir_remove es name) =
        take ?off (dir_bytes es) @ ent_bytes ?e' @ drop (?off + length (ent_bytes ?e')) (dir_bytes es)"
      unfolding rm by (simp add: es(1))
    have all: "list_all entry_ok (dir_remove es name)"
      using dir_repD(2) [OF d] e(1) unfolding rm by (simp add: es(1) entry_ok_def)
    have len: "length (dir_bytes (dir_remove es name)) \<le> MAX_DIR" using dir_repD(3) [OF d] unfolding rm by (simp add: es(1))
    obtain i' w2 where W: "on_inode a (\<lambda>i s. testfs_write_data i s (ent_bytes ?e') (int ?off) (length (ent_bytes ?e')) (uninit w1 BLOCK_SIZE)) w1 =
        Inr (int (length (ent_bytes ?e')), w2)"
      "dstep n (ent_room name) w1 w2" "cached w2 n a i'" "is_dirty i'" "dir_rep w2 n (dir_remove es name)"
    proof (rule dir_write [OF w1 c1 d1 _ _ _ B all len r1, where st = "uninit w1 BLOCK_SIZE"])
      show "write_room ?off (length (ent_bytes ?e')) \<le> ent_room name" using write_room_le by simp
    qed (use e(2) es(1) in auto)
    have "testfs_remove_dirent ample w a name = Inr (int c, w2)"
      using skip nx isn nr al(1) False W(1) by (simp add: Let_def eb cu [simplified])
    then show ?thesis using that(2) False al(2) W(2-5) by blast
  qed
qed

section \<open>Creating\<close>

text \<open>No inode outside of \<open>N\<close> has changed, in its fields, its uses, its structure in memory or the bytes of its file.\<close>

definition same_out :: "nat set \<Rightarrow> fs \<Rightarrow> fs \<Rightarrow> bool" where
  "same_out N w w' \<longleftrightarrow>
     (\<forall>m<NR_INODES. m \<notin> N \<longrightarrow> dinode_at w' m = dinode_at w m \<and> refs w' m = refs w m \<and>
       (\<forall>a i. cached w' m a i \<longleftrightarrow> cached w m a i) \<and> (\<forall>off<MAX_FILE_BYTES. contents w' m off = contents w m off))"

lemma same_outI: "others_same n w w' \<Longrightarrow> n \<in> N \<Longrightarrow> same_out N w w'"
  by (auto simp: same_out_def others_same_def)

lemma same_out_trans: "same_out N w w1 \<Longrightarrow> same_out N w1 w2 \<Longrightarrow> same_out N w w2"
  by (simp add: same_out_def)

lemma same_out_dir: "same_out N w w' \<Longrightarrow> m < NR_INODES \<Longrightarrow> m \<notin> N \<Longrightarrow> dir_rep w m es \<Longrightarrow> dir_rep w' m es"
  by (rule dir_rep_cong) (auto simp: same_out_def)

lemma same_out_clean: "same_out N w w' \<Longrightarrow> m < NR_INODES \<Longrightarrow> m \<notin> N \<Longrightarrow> clean w m \<Longrightarrow> clean w' m"
  by (simp add: same_out_def clean_def)

lemma sync_clean:
  assumes w: "fs_wf w" "cached w n a i"
  obtains i' w' where "testfs_sync_inode_at a w = Inr w'" "dstep n 0 w w'" "cached w' n a i'" "\<not> is_dirty i'" "clean w' n"
    "dinode_at w' n = dinode_at w n" "\<And>m es. m < NR_INODES \<Longrightarrow> dir_rep w m es \<Longrightarrow> dir_rep w' m es"
proof -
  let ?i = "if is_dirty i then clear_dirty i else i"
  obtain w' where S: "testfs_sync_inode_at a w = Inr w'" "fs_wf w'" "others_same n w w'" "cached w' n a ?i"
    "dinode_at w' n = dinode_at w n" "refs w' n = refs w n" "used_inodes (sbk w') = used_inodes (sbk w)"
    "used_blocks (sbk w') = used_blocks (sbk w)" "max_fs_blocks (sb_d (sbk w')) = max_fs_blocks (sb_d (sbk w))"
    "\<And>off. off < MAX_FILE_BYTES \<Longrightarrow> contents w' n off = contents w n off"
    by (rule fs_sync_inode [OF w]) blast
  have nd: "\<not> is_dirty ?i" by simp
  have "clean w' n" unfolding clean_def using cached_unique [OF fs_wfD(1) [OF S(2)] S(4)] nd by blast
  moreover have "dir_rep w' m es" if "m < NR_INODES" "dir_rep w m es" for m es
    using dir_rep_cong [OF _ S(5,10), of es] dir_rep_others [OF that(2) S(3) that(1)] that by (cases "m = n") auto
  ultimately show ?thesis using S nd by (intro that [of w' ?i]) (auto simp: dstep_def)
qed

lemma dir_rep_empty: "dinode_at w c = empty_dinode I_DIR \<Longrightarrow> dir_rep w c []"
  by (simp add: dir_rep_def empty_dinode_def zero_dinode_def fsize_def)

lemma ent_room_dots [simp]: "ent_room dot = 6" "ent_room dotdot = 6"
  by (simp_all add: ent_room_def)

lemma create_empty_dir:
  assumes w: "fs_wf w" "cached w c b j" and e: "dinode_at w c = empty_dinode I_DIR" and p: "0 \<le> p" "p < 2 ^ 31"
    and room: "room (sbk w) 12"
  obtains j' w' where "testfs_create_empty_dir ample w p b = Inr (0, w')" "dstep c 12 w w'" "cached w' c b j'" "is_dirty j'"
    "dir_rep w' c [(int c, dot), (p, dotdot)]"
proof -
  have c: "c < NR_INODES" using cached_used [OF w] fs_wfD(3) [OF w(1)] by simp
  note d0 = dir_rep_empty [OF e]
  obtain i1 w1 where A: "testfs_add_dirent ample w b dot (int c) = Inr (9 + int (length dot), w1)"
    "dstep c (ent_room dot) w w1" "cached w1 c b i1" "is_dirty i1" "dir_rep w1 c (dir_add [] dot (int c))"
    by (rule add_dirent [OF w d0, of dot "int c"]) (use c room in \<open>auto simp: room_def\<close>)
  have d1: "dir_rep w1 c [(int c, dot)]" using A(5) by (simp add: dir_add_def dir_put_def)
  have r1: "room (sbk w1) 6" by (rule dstep_room [OF A(2)]) (use room in simp)
  obtain i2 w2 where B: "testfs_add_dirent ample w1 b dotdot p = Inr (9 + int (length dotdot), w2)"
    "dstep c (ent_room dotdot) w1 w2" "cached w2 c b i2" "is_dirty i2" "dir_rep w2 c (dir_add [(int c, dot)] dotdot p)"
    by (rule add_dirent [OF dstepD(1) [OF A(2)] A(3) d1, of dotdot p]) (use p r1 in auto)
  have d2: "dir_rep w2 c [(int c, dot), (p, dotdot)]" using B(5) by (simp add: dir_add_def dir_put_def)
  have "testfs_create_empty_dir ample w p b = Inr (0, w2)"
    using A(1) B(1) cached_size(2,4,5) [OF w] dir_repD(1) [OF d0] by (simp add: testfs_create_empty_dir_def)
  moreover have "dstep c 12 w w2" using dstep_trans [OF A(2) B(2)] by simp
  ultimately show ?thesis using B(3,4) d2 by (intro that [of w2 i2]) auto
qed

text \<open>A new inode: an empty file, or a directory with its two entries.\<close>

definition new_child :: "fs \<Rightarrow> s32 \<Rightarrow> nat \<Rightarrow> nat \<Rightarrow> bool" where
  "new_child w ty c p \<longleftrightarrow>
     (if ty = I_DIR then dir_rep w c [(int c, dot), (int p, dotdot)] else dinode_at w c = empty_dinode ty)"

lemma create_fill:
  assumes w: "fs_wf w" "cached w n a i" "cached w c b j" and cn: "c \<noteq> n"
    and d: "dir_rep w n es" and e: "dinode_at w c = empty_dinode ty" "is_dirty j"
    and nm: "c_string name" "dir_lookup es name = None"
    and max: "length (dir_bytes es) + 9 + length name \<le> MAX_DIR" and room: "room (sbk w) (12 + ent_room name)"
  obtains i' j' w' where "create_fill ample w a ty name b = Inr (0, w')" "fs_wf w'" "same_out {n, c} w w'"
    "cached w' n a i'" "clean w' n" "cached w' c b j'" "dir_rep w' n (dir_add es name (int c))" "new_child w' ty c n"
    "refs w' n = refs w n" "refs w' c = refs w c" "used_inodes (sbk w') = used_inodes (sbk w)"
    "\<And>x. room (sbk w) (12 + ent_room name + x) \<Longrightarrow> room (sbk w') x"
proof -
  note a0 = cached_size(3) [OF w(1,2)]
  have c: "c < NR_INODES" and n: "n < NR_INODES"
    using cached_used [OF w(1,3)] cached_used [OF w(1,2)] fs_wfD(3) [OF w(1)] by auto
  obtain j1 w1 where A: "dstep c 12 w w1" "cached w1 c b j1" "new_child w1 ty c n"
    "rbind (if ty = I_DIR
            then rbind (if a \<noteq> 0 then rbind (get_inode_at w a) (\<lambda>d. Inr (testfs_inode_get_nr d)) else Inr (testfs_inode_get_nr j))
              (\<lambda>p_inode_nr. testfs_create_empty_dir ample w p_inode_nr b)
            else Inr (0, w)) f = f (0, w1)" for f :: "int \<times> fs \<Rightarrow> (int \<times> fs) res"
  proof (cases "ty = I_DIR")
    case True
    obtain j1 w1 where "testfs_create_empty_dir ample w (int n) b = Inr (0, w1)" "dstep c 12 w w1" "cached w1 c b j1"
      "dir_rep w1 c [(int c, dot), (int n, dotdot)]"
      by (rule create_empty_dir [OF w(1,3), of "int n"]) (use e True n room in \<open>auto simp: room_def\<close>)
    then show ?thesis using True cached_size(4,5) [OF w(1,2)] a0 by (intro that) (auto simp: new_child_def)
  next
    case False
    have "dstep c 12 w w" using w(1) by (simp add: dstep_def)
    then show ?thesis using False e w by (intro that) (auto simp: new_child_def)
  qed
  note w1 = dstepD(1) [OF A(1)]
  note O1 = dstep_others [OF A(1) n cn [symmetric]]
  have c1: "cached w1 n a i" using O1(3) w(2) by blast
  have d1: "dir_rep w1 n es" by (rule O1(4) [OF d])
  have r1: "room (sbk w1) (ent_room name)" by (rule dstep_room [OF A(1) room])
  obtain i2 w2 where B: "testfs_add_dirent ample w1 a name (int c) = Inr (9 + int (length name), w2)"
    "dstep n (ent_room name) w1 w2" "cached w2 n a i2" "is_dirty i2" "dir_rep w2 n (dir_add es name (int c))"
    by (rule add_dirent [OF w1 c1 d1 nm _ _ max r1, of "int c"]) (use c in auto)
  note w2 = dstepD(1) [OF B(2)]
  obtain i3 w3 where S: "testfs_sync_inode_at a w2 = Inr w3" "dstep n 0 w2 w3" "cached w3 n a i3" "clean w3 n"
    "\<And>m es. m < NR_INODES \<Longrightarrow> dir_rep w2 m es \<Longrightarrow> dir_rep w3 m es"
    by (rule sync_clean [OF w2 B(3)]) blast
  have BS: "dstep n (ent_room name) w1 w3" using dstep_trans [OF B(2) S(2)] by simp
  note O2 = dstep_others [OF BS c cn]
  have nc: "new_child w3 ty c n" using A(3) O2(1,4) by (auto simp: new_child_def)
  have r: "create_fill ample w a ty name b = Inr (0, w3)"
    using A(4) B(1) S(1) a0 cached_size(4,5) [OF w(1,3)] by (simp add: create_fill_def Let_def)
  show ?thesis
  proof (rule that [OF r dstepD(1) [OF S(2)] _ S(3,4) _ S(5) [OF n B(5)] nc])
    show "same_out {n, c} w w3"
      by (rule same_out_trans [OF same_outI [OF dstepD(2) [OF A(1)]] same_outI [OF dstepD(2) [OF BS]]]) auto
    show "cached w3 c b j1" using O2(3) A(2) by blast
    show "refs w3 n = refs w n" using dstepD(3) [OF BS] O1(2) by simp
    show "refs w3 c = refs w c" using dstepD(3) [OF A(1)] O2(2) by simp
    show "used_inodes (sbk w3) = used_inodes (sbk w)" using dstepD(4) [OF A(1)] dstepD(4) [OF BS] by simp
    show "room (sbk w3) x" if "room (sbk w) (12 + ent_room name + x)" for x
      by (rule dstep_room [OF BS dstep_room [OF A(1)]]) (use that in \<open>simp add: add.assoc\<close>)
  qed
qed

lemma create_file_or_dir:
  assumes w: "fs_wf w" "cached w n a i" and d: "dir_rep w n es"
    and nm: "c_string name" "dir_lookup es name = None"
    and max: "length (dir_bytes es) + 9 + length name \<le> MAX_DIR" and room: "room (sbk w) (12 + ent_room name)"
  obtains (full) w' where "testfs_create_file_or_dir ample w a ty name = Inr (- ENOSPC, w')" "fs_wf w'"
      "used_inodes (sbk w') = used_inodes (sbk w)" "used_blocks (sbk w') = used_blocks (sbk w)"
      "\<And>m. m < NR_INODES \<Longrightarrow> dinode_at w' m = dinode_at w m" "refs w' = refs w" "{..<NR_INODES} \<subseteq> used_inodes (sbk w)"
      "same_out {} w w'"
  | (created) c i' w' where "testfs_create_file_or_dir ample w a ty name = Inr (0, w')" "fs_wf w'" "c \<notin> used_inodes (sbk w)"
      "c < NR_INODES" "used_inodes (sbk w') = insert c (used_inodes (sbk w))" "same_out {n, c} w w'" "cached w' n a i'"
      "clean w' n" "clean w' c" "dir_rep w' n (dir_add es name (int c))" "new_child w' ty c n" "refs w' n = refs w n" "refs w' c = 0"
      "\<And>x. room (sbk w) (12 + ent_room name + x) \<Longrightarrow> room (sbk w') x"
proof (cases rule: fs_create_inode [OF w(1), of ty])
  case (1 w')
  have "same_out {} w w'" using 1(8) by (auto simp: same_out_def others_same_def)
  then show ?thesis
    using 1 full name_to_nr [OF w d nm(1)] nm(2) cached_size(3) [OF w] by (simp add: testfs_create_file_or_dir_def)
next
  case (2 c b j w1)
  have n: "n \<in> used_inodes (sbk w)" "n < NR_INODES" using cached_used [OF w] fs_wfD(3) [OF w(1)] by auto
  have cn: "c \<noteq> n" using 2(5) n(1) by blast
  have c1: "cached w1 n a i" using 2(10) n(2) cn w(2) unfolding others_same_def by blast
  have d1: "dir_rep w1 n es" using dir_rep_others [OF d 2(10) n(2)] cn by blast
  have r1: "room (sbk w1) (12 + ent_room name)" using room 2(11,12) by (simp add: room_def)
  obtain i2 j2 w2 where F: "create_fill ample w1 a ty name b = Inr (0, w2)" "fs_wf w2" "same_out {n, c} w1 w2"
    "cached w2 n a i2" "clean w2 n" "cached w2 c b j2" "dir_rep w2 n (dir_add es name (int c))" "new_child w2 ty c n"
    "refs w2 n = refs w1 n" "refs w2 c = refs w1 c" "used_inodes (sbk w2) = used_inodes (sbk w1)"
    "\<And>x. room (sbk w1) (12 + ent_room name + x) \<Longrightarrow> room (sbk w2) x"
    by (rule create_fill [OF 2(2) c1 2(3) cn d1 2(7,9) nm max r1]) blast
  obtain j3 w3 where S: "testfs_sync_inode_at b w2 = Inr w3" "dstep c 0 w2 w3" "cached w3 c b j3" "\<not> is_dirty j3"
    "dinode_at w3 c = dinode_at w2 c" "\<And>m es. m < NR_INODES \<Longrightarrow> dir_rep w2 m es \<Longrightarrow> dir_rep w3 m es"
    by (rule sync_clean [OF F(2,6)]) blast
  note O3 = dstep_others [OF S(2) n(2) cn [symmetric]]
  obtain w4 where P: "testfs_put_inode b w3 = Inr w4" "fs_wf w4" "sbk w4 = sbk w3" "others_same c w3 w4"
    "dinode_at w4 = dinode_at w3" "refs w4 = (refs w3)(c := refs w3 c - 1)" "clean w4 c"
    "\<And>m es. dir_rep w4 m es \<longleftrightarrow> dir_rep w3 m es"
    by (rule put_clean [OF dstepD(1) [OF S(2)] S(3,4)]) blast
  have O4: "cached w4 n a i2" "clean w4 n"
    using P(4) n(2) cn O3(3,5) F(4,5) by (auto simp: others_same_def clean_def)
  have r: "testfs_create_file_or_dir ample w a ty name = Inr (0, w4)"
    using name_to_nr [OF w d nm(1)] nm(2) cached_size(3) [OF w] 2(1) F(1) S(1) P(1) by (simp add: testfs_create_file_or_dir_def)
  show ?thesis
  proof (rule created [OF r P(2) 2(5,4) _ _ O4 P(7)])
    show "used_inodes (sbk w4) = insert c (used_inodes (sbk w))" using P(3) dstepD(4) [OF S(2)] F(11) 2(6) by simp
    show "same_out {n, c} w w4"
      by (rule same_out_trans [OF same_outI [OF 2(10)] same_out_trans [OF F(3) same_out_trans [OF same_outI [OF dstepD(2) [OF S(2)]] same_outI [OF P(4)]]]]) auto
    show "dir_rep w4 n (dir_add es name (int c))" using P(8) S(6) [OF n(2) F(7)] by simp
    show "new_child w4 ty c n" using F(8) S(5) S(6) [OF 2(4)] P(5,8) by (auto simp: new_child_def split: if_splits)
    show "refs w4 n = refs w n" using P(6) cn O3(2) F(9) 2(10) n(2) by (simp add: others_same_def)
    show "refs w4 c = 0" using P(6) dstepD(3) [OF S(2)] F(10) 2(8) by simp
    show "room (sbk w4) x" if "room (sbk w) (12 + ent_room name + x)" for x
      using dstep_room [OF S(2), of x] F(12) [of x] that 2(11,12) P(3) by (simp add: room_def)
  qed
qed

text \<open>The root directory, in an empty file system: inode 0, its own parent.\<close>

lemma create_root:
  obtains w' where "testfs_make_root_dir ample (mounted (fresh_fs m) j) = Inr (0, w')" "fs_wf w'" "used_inodes (sbk w') = {0}"
    "dir_rep w' 0 [(0, dot), (0, dotdot)]" "refs w' 0 = 0" "clean w' 0" "card (used_blocks (sbk w')) \<le> 12"
    "max_fs_blocks (sb_d (sbk w')) = m"
  | "unat m < 12"
proof (cases "unat m < 12")
  case False
  obtain a i w1 where c: "testfs_create_inode (mounted (fresh_fs m) j) I_DIR = Inr (0, a, w1)" "fs_wf w1" "cached w1 0 a i"
    "refs w1 0 = 1" "used_blocks (sbk w1) = {}" "max_fs_blocks (sb_d (sbk w1)) = m" "used_inodes (sbk w1) = {0}" "is_dirty i"
    "in_d i = empty_dinode I_DIR"
    by (rule fresh_create)
  have e: "dinode_at w1 0 = empty_dinode I_DIR" using dinode_at_cached [OF fs_wfD(1) [OF c(2)] c(3)] c(9) by simp
  have r: "room (sbk w1) 12" using c(5,6) False by (simp add: room_def)
  obtain j2 w2 where E: "testfs_create_empty_dir ample w1 0 a = Inr (0, w2)" "dstep 0 12 w1 w2" "cached w2 0 a j2"
    "dir_rep w2 0 [(int 0, dot), (0, dotdot)]"
    by (rule create_empty_dir [OF c(2,3) e _ _ r, of 0]) auto
  obtain j3 w3 where S: "testfs_sync_inode_at a w2 = Inr w3" "dstep 0 0 w2 w3" "cached w3 0 a j3" "\<not> is_dirty j3"
    "\<And>m es. m < NR_INODES \<Longrightarrow> dir_rep w2 m es \<Longrightarrow> dir_rep w3 m es"
    by (rule sync_clean [OF dstepD(1) [OF E(2)] E(3)]) blast
  obtain w4 where P: "testfs_put_inode a w3 = Inr w4" "fs_wf w4" "sbk w4 = sbk w3"
    "refs w4 = (refs w3)(0 := refs w3 0 - 1)" "clean w4 0" "\<And>m es. dir_rep w4 m es \<longleftrightarrow> dir_rep w3 m es"
    by (rule put_clean [OF dstepD(1) [OF S(2)] S(3,4)]) blast
  have "create_fill ample w1 0 I_DIR [] a = Inr (0, w2)"
    using E(1) cached_size(4,5) [OF c(2,3)] by (simp add: create_fill_def Let_def)
  then have "testfs_make_root_dir ample (mounted (fresh_fs m) j) = Inr (0, w4)"
    using c(1) S(1) P(1) by (simp add: testfs_make_root_dir_def testfs_create_file_or_dir_def)
  then show ?thesis
  proof (rule that(1) [OF _ P(2)])
    have DS: "dstep 0 12 w1 w3" using dstep_trans [OF E(2) S(2)] by simp
    show "used_inodes (sbk w4) = {0}" "card (used_blocks (sbk w4)) \<le> 12" "max_fs_blocks (sb_d (sbk w4)) = m" "refs w4 0 = 0"
      using dstepD [OF DS] c(4-7) P(3,4) by simp_all
    show "dir_rep w4 0 [(0, dot), (0, dotdot)]" using P(6) S(5) [OF _ E(4)] by simp
    show "clean w4 0" by (rule P(5))
  qed
qed (rule that(2))

end
