(* ===== verification/Command_Spec.thy ===== *)
theory Command_Spec
  imports Commands Dir_Spec
begin

unbundle bit_operations_syntax

text \<open>
  What the commands do, in a session: the current directory is in memory, unmodified, and is the list \<open>es\<close> of
  entries with distinct names. A command that changes the directory changes it as a dictionary, keeps the invariant of the
  file system and leaves every other inode and file as it was; and the session goes on.
\<close>

section \<open>Sessions\<close>

definition session :: "fs \<Rightarrow> cmd_context \<Rightarrow> nat \<Rightarrow> entry list \<Rightarrow> bool" where
  "session w c n es \<longleftrightarrow> fs_wf w \<and> (\<exists>i. cached w n (cur_dir c) i) \<and> clean w n \<and> dir_rep w n es \<and> dir_ok es"

lemma sessionE:
  assumes "session w c n es"
  obtains i where "fs_wf w" "cached w n (cur_dir c) i" "\<not> is_dirty i" "clean w n" "dir_rep w n es" "dir_ok es"
    "n \<in> used_inodes (sbk w)" "n < NR_INODES"
proof -
  obtain i where i: "fs_wf w" "cached w n (cur_dir c) i" "clean w n" "dir_rep w n es" "dir_ok es"
    using assms by (auto simp: session_def)
  have "n \<in> used_inodes (sbk w)" by (rule cached_used [OF i(1,2)])
  then show ?thesis using i fs_wfD(3) [OF i(1)] by (intro that [of i]) (auto simp: clean_def)
qed

lemma session_name: "session w c n es \<Longrightarrow> c_string name \<Longrightarrow>
  testfs_dir_name_to_inode_nr ample w (cur_dir c) name = Inr (case dir_lookup es name of None \<Rightarrow> - ENOENT | Some nr \<Rightarrow> nr)"
  by (elim sessionE) (rule name_to_nr)

text \<open>There is room for one more entry, and for the two of a new directory.\<close>

definition name_fits :: "fs \<Rightarrow> entry list \<Rightarrow> u8 list \<Rightarrow> bool" where
  "name_fits w es name \<longleftrightarrow> c_string name \<and> length (dir_bytes es) + 9 + length name \<le> MAX_DIR \<and>
     room (sbk w) (12 + ent_room name)"

section \<open>Creating\<close>

lemma create_session:
  assumes s: "session w c n es" and fit: "name_fits w es name"
  obtains (exists) "name \<in> set (dir_names es)" "testfs_create_file_or_dir ample w (cur_dir c) ty name = Inr (- EEXIST, w)"
  | (full) w' where "testfs_create_file_or_dir ample w (cur_dir c) ty name = Inr (- ENOSPC, w')" "fs_wf w'"
      "used_inodes (sbk w') = used_inodes (sbk w)" "used_blocks (sbk w') = used_blocks (sbk w)"
      "session w' c n es" "{..<NR_INODES} \<subseteq> used_inodes (sbk w)"
      "same_out {} w w'" "name \<notin> set (dir_names es)"
  | (created) k w' where "testfs_create_file_or_dir ample w (cur_dir c) ty name = Inr (0, w')"
      "session w' c n (dir_add es name (int k))" "dir_lookup (dir_add es name (int k)) = (dir_lookup es)(name \<mapsto> int k)"
      "k \<notin> used_inodes (sbk w)" "k < NR_INODES" "used_inodes (sbk w') = insert k (used_inodes (sbk w))"
      "dir_lookup es name = None" "same_out {n, k} w w'" "new_child w' ty k n" "refs w' n = refs w n" "refs w' k = 0" "clean w' k"
      "\<And>x. room (sbk w) (12 + ent_room name + x) \<Longrightarrow> room (sbk w') x"
proof (rule sessionE [OF s])
  fix i assume S: "fs_wf w" "cached w n (cur_dir c) i" "clean w n" "dir_rep w n es" "dir_ok es"
  have nm: "c_string name" and max: "length (dir_bytes es) + 9 + length name \<le> MAX_DIR"
    and room: "room (sbk w) (12 + ent_room name)" using fit by (simp_all add: name_fits_def)
  show ?thesis
  proof (cases "dir_lookup es name")
    case (Some nr)
    have "testfs_create_file_or_dir ample w (cur_dir c) ty name = Inr (- EEXIST, w)"
      using session_name [OF s nm] Some cached_size(3) [OF S(1,2)] dir_lookup_in [OF Some] by (simp add: testfs_create_file_or_dir_def)
    then show ?thesis using exists Some dir_lookup_None [of es name] by simp
  next
    case None
    show ?thesis
    proof (cases rule: create_file_or_dir [OF S(1,2,4) nm None max room, of ty])
      case (1 w')
      have n: "n < NR_INODES" using fs_wfD(3) [OF S(1) cached_used [OF S(1,2)]] .
      have "session w' c n es"
        using S(2,3,5) 1(2) same_out_dir [OF 1(8) n _ S(4)] same_out_clean [OF 1(8) n _ S(3)] 1(8) n by (auto simp: session_def same_out_def)
      then show ?thesis using full 1 None dir_lookup_None [of es name] by blast
    next
      case (2 k i' w')
      note D = dir_add_dict [OF None, of "int k"]
      have "session w' c n (dir_add es name (int k))"
        using 2(2,7,8,10) D(2) S(5) by (auto simp: session_def)
      then show ?thesis using created [OF 2(1) _ _ 2(3,4,5) None 2(6,11,12,13,9,14)] D(1) by simp
    qed
  qed
qed

text \<open>C7.
  \<open>create\<close> and the dictionary of names: exactly when the name is taken the command answers -EEXIST, and changes nothing; else, exactly when every inode
  is in use, it answers -ENOSPC, and no inode, no file and no directory changes; else it makes an empty
  file under an inode number that was free and enters the name, so that looking up any name gives what it gave before
  except that the new name gives the new inode, and no other inode, file or directory changes. The session goes on. There are
  free blocks for the entry, and the directory stays within the size for which reading is specified (\<open>name_fits\<close>): with a free inode and no free block the command
  answers -ENOSPC too.\<close>

theorem cmd_create_spec:
  assumes "session w c n es" "nargs c = 2" "name_fits w es (cmd c ! 1)"
  shows "\<exists>ret w'. cmd_create ample w c = Inr (ret, [], w', c) \<and>
    (if cmd c ! 1 \<in> set (dir_names es) then ret = - EEXIST \<and> w' = w
     else if {..<NR_INODES} \<subseteq> used_inodes (sbk w)
     then ret = - ENOSPC \<and> session w' c n es \<and> used_inodes (sbk w') = used_inodes (sbk w) \<and> used_blocks (sbk w') = used_blocks (sbk w) \<and>
       same_out {} w w'
     else ret = 0 \<and> (\<exists>k es'. session w' c n es' \<and> dir_lookup es' = (dir_lookup es)(cmd c ! 1 \<mapsto> int k) \<and>
       used_inodes (sbk w') = insert k (used_inodes (sbk w)) \<and> k \<notin> used_inodes (sbk w) \<and>
       dinode_at w' k = empty_dinode I_FILE \<and> refs w' k = 0 \<and> same_out {n, k} w w'))"
proof (cases rule: create_session [OF assms(1,3), of I_FILE])
  case (2 w')
  have "cmd c ! 1 \<notin> set (dir_names es)" by (rule 2(8))
  then show ?thesis using 2 assms(2) by (simp add: cmd_create_def)
next
  case (3 k w')
  have "dinode_at w' k = empty_dinode I_FILE" using 3(9) by (simp add: new_child_def)
  moreover have "cmd c ! 1 \<notin> set (dir_names es)" "\<not> {..<NR_INODES} \<subseteq> used_inodes (sbk w)" using 3(4,5,7) dir_lookup_None [of es] by auto
  ultimately show ?thesis using 3 assms(2) by (auto simp: cmd_create_def)
qed (use assms(2) in \<open>simp add: cmd_create_def\<close>)

text \<open>\<open>mkdir\<close> does the same with a directory: the new directory has exactly the entries \<open>.\<close>, itself, and \<open>..\<close>,
  the current directory.\<close>

theorem cmd_mkdir_spec:
  assumes "session w c n es" "nargs c = 2" "name_fits w es (cmd c ! 1)"
  shows "\<exists>ret w'. cmd_mkdir ample w c = Inr (ret, [], w', c) \<and>
    (if cmd c ! 1 \<in> set (dir_names es) then ret = - EEXIST \<and> w' = w
     else if {..<NR_INODES} \<subseteq> used_inodes (sbk w)
     then ret = - ENOSPC \<and> session w' c n es \<and> used_inodes (sbk w') = used_inodes (sbk w) \<and> used_blocks (sbk w') = used_blocks (sbk w) \<and>
       same_out {} w w'
     else ret = 0 \<and> (\<exists>k es'. session w' c n es' \<and> dir_lookup es' = (dir_lookup es)(cmd c ! 1 \<mapsto> int k) \<and>
       used_inodes (sbk w') = insert k (used_inodes (sbk w)) \<and> k \<notin> used_inodes (sbk w) \<and>
       dir_rep w' k [(int k, dot), (int n, dotdot)] \<and> refs w' k = 0 \<and> same_out {n, k} w w'))"
proof (cases rule: create_session [OF assms(1,3), of I_DIR])
  case (2 w')
  have "cmd c ! 1 \<notin> set (dir_names es)" by (rule 2(8))
  then show ?thesis using 2 assms(2) by (simp add: cmd_mkdir_def)
next
  case (3 k w')
  have "dir_rep w' k [(int k, dot), (int n, dotdot)]" using 3(9) by (simp add: new_child_def)
  moreover have "cmd c ! 1 \<notin> set (dir_names es)" "\<not> {..<NR_INODES} \<subseteq> used_inodes (sbk w)" using 3(4,5,7) dir_lookup_None [of es] by auto
  ultimately show ?thesis using 3 assms(2) by (auto simp: cmd_mkdir_def)
qed (use assms(2) in \<open>simp add: cmd_mkdir_def\<close>)

section \<open>A first session\<close>

text \<open>A file system with a root directory, and a shell in it.\<close>

lemma root_session:
  obtains w a where "\<And>k xs. session w \<lparr>nargs = k, cmd = xs, cur_dir = a\<rparr> 0 [(0, dot), (0, dotdot)]"
    "used_inodes (sbk w) = {0}" "refs w 0 = 1"
    "\<And>name. c_string name \<Longrightarrow> length name < 100 \<Longrightarrow> name_fits w [(0, dot), (0, dotdot)] name"
    "card (used_blocks (sbk w)) \<le> 12" "max_fs_blocks (sb_d (sbk w)) = 99"
proof (cases rule: create_root [of 99 "\<lambda>_. 0"])
  case (1 w1)
  obtain a i w2 where g: "testfs_get_inode w1 (int 0) = Inr (a, w2)" "fs_wf w2" "cached w2 0 a i" "clean w2 0" "sbk w2 = sbk w1"
    "refs w2 = (refs w1)(0 := refs w1 0 + 1)" "\<And>m es. dir_rep w2 m es \<longleftrightarrow> dir_rep w1 m es"
    by (rule get_clean [OF 1(2), of 0]) (use 1(3,6) in auto)
  have s: "session w2 \<lparr>nargs = k, cmd = xs, cur_dir = a\<rparr> 0 [(0, dot), (0, dotdot)]" for k xs
    using g(2-4,7) 1(4) by (auto simp: session_def dir_ok_def)
  have f: "name_fits w2 [(0, dot), (0, dotdot)] name" if "c_string name" "length name < 100" for name
  proof -
    have "(16391 + length name) div BLOCK_SIZE = 2" using that(2) by (intro div_nat_eqI) simp_all
    then show ?thesis using that 1(7,8) g(5) by (simp add: name_fits_def ent_room_def room_def)
  qed
  show ?thesis by (rule that [OF s _ _ f]) (use 1(3,5,7,8) g(5,6) in auto)
qed simp

lemma root_session_at:
  obtains w a where "session w \<lparr>nargs = k, cmd = xs, cur_dir = a\<rparr> 0 [(0, dot), (0, dotdot)]" "used_inodes (sbk w) = {0}"
    "refs w 0 = 1" "name_fits w [(0, dot), (0, dotdot)] [102]" "card (used_blocks (sbk w)) \<le> 12"
    "max_fs_blocks (sb_d (sbk w)) = 99"
proof (rule root_session)
  fix w a
  assume r: "\<And>k xs. session w \<lparr>nargs = k, cmd = xs, cur_dir = a\<rparr> 0 [(0, dot), (0, dotdot)]"
    "used_inodes (sbk w) = {0}" "refs w 0 = 1"
    "\<And>name. c_string name \<Longrightarrow> length name < 100 \<Longrightarrow> name_fits w [(0, dot), (0, dotdot)] name"
    "card (used_blocks (sbk w)) \<le> 12" "max_fs_blocks (sb_d (sbk w)) = 99"
  show ?thesis by (rule that [OF r(1-3) _ r(5,6)]) (use r(4) [of "[102]"] in \<open>simp add: c_string_def\<close>)
qed

theorem cmd_create_spec_witness:
  "\<exists>w a w'. cmd_create ample w \<lparr>nargs = 2, cmd = [[], [102]], cur_dir = a\<rparr> =
     Inr (0, [], w', \<lparr>nargs = 2, cmd = [[], [102]], cur_dir = a\<rparr>) \<and> used_inodes (sbk w') \<noteq> used_inodes (sbk w)"
proof -
  obtain w a where r: "session w \<lparr>nargs = 2, cmd = [[], [102]], cur_dir = a\<rparr> 0 [(0, dot), (0, dotdot)]"
    "used_inodes (sbk w) = {0}" "refs w 0 = 1" "name_fits w [(0, dot), (0, dotdot)] [102]"
    by (rule root_session_at [of 2 "[[], [102]]"])
  let ?c = "\<lparr>nargs = 2, cmd = [[], [102]], cur_dir = a\<rparr>"
  have h: "nargs ?c = 2" "name_fits w [(0, dot), (0, dotdot)] (cmd ?c ! 1)" using r(4) by simp_all
  have n: "cmd ?c ! 1 \<notin> set (dir_names [(0, dot), (0, dotdot)])" by (simp add: dot_def dotdot_def)
  have f: "\<not> {..<NR_INODES} \<subseteq> used_inodes (sbk w)" unfolding r(2) by (simp add: subset_iff) (intro exI [of _ 1], simp)
  from cmd_create_spec [OF r(1) h] show ?thesis unfolding if_not_P [OF n] if_not_P [OF f] by blast
qed

theorem cmd_mkdir_spec_witness:
  "\<exists>w a w'. cmd_mkdir ample w \<lparr>nargs = 2, cmd = [[], [102]], cur_dir = a\<rparr> =
     Inr (0, [], w', \<lparr>nargs = 2, cmd = [[], [102]], cur_dir = a\<rparr>) \<and> used_inodes (sbk w') \<noteq> used_inodes (sbk w)"
proof -
  obtain w a where r: "session w \<lparr>nargs = 2, cmd = [[], [102]], cur_dir = a\<rparr> 0 [(0, dot), (0, dotdot)]"
    "used_inodes (sbk w) = {0}" "refs w 0 = 1" "name_fits w [(0, dot), (0, dotdot)] [102]"
    by (rule root_session_at [of 2 "[[], [102]]"])
  let ?c = "\<lparr>nargs = 2, cmd = [[], [102]], cur_dir = a\<rparr>"
  have h: "nargs ?c = 2" "name_fits w [(0, dot), (0, dotdot)] (cmd ?c ! 1)" using r(4) by simp_all
  have n: "cmd ?c ! 1 \<notin> set (dir_names [(0, dot), (0, dotdot)])" by (simp add: dot_def dotdot_def)
  have f: "\<not> {..<NR_INODES} \<subseteq> used_inodes (sbk w)" unfolding r(2) by (simp add: subset_iff) (intro exI [of _ 1], simp)
  from cmd_mkdir_spec [OF r(1) h] show ?thesis unfolding if_not_P [OF n] if_not_P [OF f] by blast
qed

section \<open>Removing\<close>

text \<open>The inode a name stands for can be removed: it is in use by nobody, and is a file or the directory \<open>cs\<close>.\<close>

definition child :: "fs \<Rightarrow> nat \<Rightarrow> nat \<Rightarrow> entry list \<Rightarrow> bool" where
  "child w n k cs \<longleftrightarrow> k \<in> used_inodes (sbk w) \<and> k \<noteq> n \<and> refs w k = 0 \<and>
     (i_type (dinode_at w k) = I_DIR \<longrightarrow> dir_rep w k cs)"

lemma refs_0_clean: "fs_wf w \<Longrightarrow> refs w k = 0 \<Longrightarrow> clean w k"
  using refs_pos [of w k] fs_wfD(1) by (fastforce simp: clean_def)

lemma rm_session:
  assumes s: "session w c n es" and nm: "c_string (cmd c ! 1)" "cmd c ! 1 \<noteq> dot" "cmd c ! 1 \<noteq> dotdot" "nargs c = 2"
    and k: "dir_lookup es (cmd c ! 1) = Some (int k)" "child w n k cs"
    and room: "room (sbk w) (ent_room (cmd c ! 1))"
  obtains (kept) w' where "i_type (dinode_at w k) = I_DIR" "\<not> dir_removable cs" "cmd_rm ample w c = Inr (- ENOTEMPTY, [], w', c)"
      "session w' c n es" "same_fs k w w'"
  | (removed) w' where "i_type (dinode_at w k) = I_DIR \<longrightarrow> dir_removable cs" "cmd_rm ample w c = Inr (0, [], w', c)"
      "session w' c n (dir_remove es (cmd c ! 1))" "used_inodes (sbk w') = used_inodes (sbk w) - {k}" "same_out {n, k} w w'"
      "dinode_at w' k = zero_dinode" "refs w' k = 0" "refs w' n = refs w n"
proof (rule sessionE [OF s])
  fix i assume S: "fs_wf w" "cached w n (cur_dir c) i" "clean w n" "dir_rep w n es" "dir_ok es" "n \<in> used_inodes (sbk w)" "n < NR_INODES"
  let ?name = "cmd c ! 1"
  have K: "k \<in> used_inodes (sbk w)" "k \<noteq> n" "refs w k = 0" "i_type (dinode_at w k) = I_DIR \<longrightarrow> dir_rep w k cs" "clean w k"
    using k(2) refs_0_clean [OF S(1)] by (simp_all add: child_def)
  have kN: "k < NR_INODES" using fs_wfD(3) [OF S(1) K(1)] .
  show ?thesis
  proof (cases rule: remove_dirent [OF S(1,2,4) nm(1-3) k(1) K(1,5,2,4) room])
    case (1 w')
    have "session w' c n es"
      using same_fsD(1,7) [OF 1(4)] same_fsD(9) [OF 1(4) S(7) K(2) [symmetric]] 1(5) S(3-5) by (auto simp: session_def clean_def)
    moreover have "cmd_rm ample w c = Inr (- ENOTEMPTY, [], w', c)" using 1(3) nm(4) by (simp add: cmd_rm_def)
    ultimately show ?thesis using kept 1(1,2,4) by blast
  next
    case (2 i2 w1 w2)
    note w2 = dstepD(1) [OF 2(4)]
    note O2 = dstep_others [OF 2(4) kN K(2)]
    have r2: "refs w2 k = 0" using O2(2) same_fsD(4) [OF 2(3)] K(3) by simp
    have u2: "used_inodes (sbk w2) = used_inodes (sbk w)" using dstepD(4) [OF 2(4)] same_fsD(2) [OF 2(3)] by simp
    obtain b j w3 where G: "testfs_get_inode w2 (int k) = Inr (b, w3)" "fs_wf w3" "cached w3 k b j" "sbk w3 = sbk w2"
      "others_same k w2 w3" "refs w3 = (refs w2)(k := refs w2 k + 1)"
      by (rule fs_get_inode [OF w2, of k]) (use u2 K(1) in auto)
    obtain w4 where R: "testfs_remove_inode b w3 = Inr w4" "fs_wf w4" "used_inodes (sbk w4) = used_inodes (sbk w3) - {k}"
      "others_same k w3 w4" "dinode_at w4 k = zero_dinode" "refs w4 k = 0"
      by (rule fs_remove_inode [OF G(2,3)]) (use G(6) r2 in auto)
    have O4: "others_same k w2 w4" by (rule others_same_trans [OF G(5) R(4)])
    have c4: "cached w4 n (cur_dir c) i2" using O4 S(7) K(2) 2(5) by (simp add: others_same_def)
    have d4: "dir_rep w4 n (dir_remove es ?name)" using dir_rep_others [OF 2(7) O4 S(7)] K(2) by blast
    obtain i5 w5 where Y: "testfs_sync_inode_at (cur_dir c) w4 = Inr w5" "dstep n 0 w4 w5" "cached w5 n (cur_dir c) i5" "clean w5 n"
      "\<And>m es. m < NR_INODES \<Longrightarrow> dir_rep w4 m es \<Longrightarrow> dir_rep w5 m es"
      by (rule sync_clean [OF R(2) c4]) blast
    note O5 = dstep_others [OF Y(2) kN K(2)]
    have ret: "cmd_rm ample w c = Inr (0, [], w5, c)" using 2(2) G(1) R(1) Y(1) nm(4) by (simp add: cmd_rm_def)
    show ?thesis
    proof (rule removed [OF 2(1) ret])
      show "session w5 c n (dir_remove es ?name)"
        using dstepD(1) [OF Y(2)] Y(3,4) Y(5) [OF S(7) d4] dir_remove_dict(2) [OF S(5)] by (auto simp: session_def)
      show "used_inodes (sbk w5) = used_inodes (sbk w) - {k}" using dstepD(4) [OF Y(2)] R(3) G(4) u2 by simp
      show "same_out {n, k} w w5"
        by (rule same_out_trans [OF same_outI [of k w w1] same_out_trans [OF same_outI [OF dstepD(2) [OF 2(4)]]
              same_out_trans [OF same_outI [OF O4] same_outI [OF dstepD(2) [OF Y(2)]]]]])
          (use 2(3) in \<open>auto simp: same_fs_def\<close>)
      show "dinode_at w5 k = zero_dinode" "refs w5 k = 0" using O5(1,2) R(5,6) by simp_all
      show "refs w5 n = refs w n"
        using dstepD(3) [OF Y(2)] O4 S(7) K(2) dstepD(3) [OF 2(4)] same_fsD(4) [OF 2(3)] by (simp add: others_same_def)
    qed
  qed
qed

text \<open>C8.
  \<open>rm\<close>: a name that is not there gives -ENOENT and \<open>.\<close> and \<open>..\<close> give -EINVAL, and nothing changes; a directory that has
  entries gives -ENOTEMPTY and no file, inode or directory changes; anything else is removed: looking up the name
  then finds nothing and every other name what it found before, the inode is free and zero, and no other file has changed. The inode
  of the name is in use and nobody holds it (\<open>child\<close>: \<open>refs w k = 0\<close>), and the file system has free blocks for the entry that is written back (\<open>ent_room\<close>).\<close>

theorem cmd_rm_spec:
  assumes "session w c n es" "nargs c = 2" "c_string (cmd c ! 1)" "room (sbk w) (ent_room (cmd c ! 1))"
    and "\<And>nr. dir_lookup es (cmd c ! 1) = Some nr \<Longrightarrow> nr = int k \<and> child w n k cs"
  shows "\<exists>ret w'. cmd_rm ample w c = Inr (ret, [], w', c) \<and>
    (if cmd c ! 1 = dot \<or> cmd c ! 1 = dotdot then ret = - EINVAL \<and> w' = w
     else if dir_lookup es (cmd c ! 1) = None then ret = - ENOENT \<and> w' = w
     else if i_type (dinode_at w k) = I_DIR \<and> \<not> dir_removable cs
     then ret = - ENOTEMPTY \<and> session w' c n es \<and> sbk w' = sbk w \<and> dinode_at w' = dinode_at w \<and> contents w' = contents w
     else ret = 0 \<and> (\<exists>es'. session w' c n es' \<and> dir_lookup es' = (dir_lookup es)(cmd c ! 1 := None)) \<and>
       used_inodes (sbk w') = used_inodes (sbk w) - {k} \<and> dinode_at w' k = zero_dinode \<and> same_out {n, k} w w')"
proof (rule sessionE [OF assms(1)])
  fix i assume S: "fs_wf w" "cached w n (cur_dir c) i" "dir_rep w n es" "dir_ok es"
  consider "cmd c ! 1 = dot \<or> cmd c ! 1 = dotdot" | "cmd c ! 1 \<noteq> dot" "cmd c ! 1 \<noteq> dotdot" "dir_lookup es (cmd c ! 1) = None"
    | "cmd c ! 1 \<noteq> dot" "cmd c ! 1 \<noteq> dotdot" "dir_lookup es (cmd c ! 1) = Some (int k)" "child w n k cs"
    using assms(5) by (cases "dir_lookup es (cmd c ! 1)") blast+
  then show ?thesis
  proof cases
    case 1
    then show ?thesis using assms(2) cached_size(3) [OF S(1,2)] by (simp add: cmd_rm_def testfs_remove_dirent_def)
  next
    case 2
    then show ?thesis using remove_dirent_none [OF S(1-3) assms(3) 2(3,1,2)] assms(2) by (simp add: cmd_rm_def)
  next
    case 3
    show ?thesis
    proof (cases rule: rm_session [OF assms(1,3) 3(1,2) assms(2) 3(3,4) assms(4)])
      case (1 w')
      then show ?thesis using 3 by (simp add: same_fs_def)
    next
      case (2 w')
      then show ?thesis using 3 dir_remove_dict(1) [OF S(4), of "cmd c ! 1"] by auto
    qed
  qed
qed

text \<open>In a new file system: a file that is made in the root directory can be removed, a directory in which a file has been made can not.\<close>

lemma removable_file:
  obtains w c es k where "session w c 0 es" "nargs c = 2" "cmd c ! 1 = [102]" "dir_lookup es [102] = Some (int k)" "child w 0 k []"
    "i_type (dinode_at w k) = I_FILE" "room (sbk w) (ent_room [102])"
proof -
  obtain w a where r: "session w \<lparr>nargs = 2, cmd = [[], [102]], cur_dir = a\<rparr> 0 [(0, dot), (0, dotdot)]"
    "used_inodes (sbk w) = {0}" "name_fits w [(0, dot), (0, dotdot)] [102]" "card (used_blocks (sbk w)) \<le> 12" "max_fs_blocks (sb_d (sbk w)) = 99"
    by (rule root_session_at [of 2 "[[], [102]]"])
  have er: "ent_room [102] = 6" by (simp add: ent_room_def)
  show thesis
  proof (cases rule: create_session [OF r(1,3), of I_FILE])
    case 1
    then show ?thesis by (simp add: dot_def dotdot_def)
  next
    case (2 w')
    have "1 \<in> {..<NR_INODES}" by simp
    then have "1 \<in> {0 :: nat}" using 2(6) r(2) by blast
    then show ?thesis by simp
  next
    case (3 k w')
    have d: "dinode_at w' k = empty_dinode I_FILE" using 3(9) by (simp add: new_child_def)
    then have "child w' 0 k []" using 3(4,6,11) r(2) by (auto simp: child_def empty_dinode_def)
    moreover have "room (sbk w') 6" by (rule 3(13)) (use r(4,5) er in \<open>simp add: room_def\<close>)
    ultimately show ?thesis using that [OF 3(2), of k] 3(3) d er by (simp add: empty_dinode_def)
  qed
qed

lemma occupied_dir:
  obtains w c es k cs where "session w c 0 es" "nargs c = 2" "cmd c ! 1 = [102]" "dir_lookup es [102] = Some (int k)" "child w 0 k cs"
    "i_type (dinode_at w k) = I_DIR" "\<not> dir_removable cs" "room (sbk w) (ent_room [102])"
proof -
  obtain w a where r: "session w \<lparr>nargs = 2, cmd = [[], [102]], cur_dir = a\<rparr> 0 [(0, dot), (0, dotdot)]"
    "used_inodes (sbk w) = {0}" "name_fits w [(0, dot), (0, dotdot)] [102]" "card (used_blocks (sbk w)) \<le> 12" "max_fs_blocks (sb_d (sbk w)) = 99"
    by (rule root_session_at [of 2 "[[], [102]]"])
  let ?c = "\<lparr>nargs = 2, cmd = [[], [102]], cur_dir = a\<rparr>"
  have er: "ent_room [102] = 6" by (simp add: ent_room_def)
  have one: "\<not> {..<NR_INODES} \<subseteq> A" if "finite A" "card A < NR_INODES" for A :: "nat set"
  proof
    assume "{..<NR_INODES} \<subseteq> A"
    from card_mono [OF that(1) this] show False using that(2) by simp
  qed
  obtain k w1 where C: "session w1 ?c 0 (dir_add [(0, dot), (0, dotdot)] [102] (int k))"
    "dir_lookup (dir_add [(0, dot), (0, dotdot)] [102] (int k)) [102] = Some (int k)" "k \<noteq> 0" "k < NR_INODES" "used_inodes (sbk w1) = {0, k}"
    "dir_rep w1 k [(int k, dot), (0, dotdot)]" "refs w1 k = 0" "clean w1 k" "room (sbk w1) 60"
  proof (cases rule: create_session [OF r(1,3), of I_DIR])
    case 1
    then show ?thesis by (simp add: dot_def dotdot_def)
  next
    case (2 w')
    then show ?thesis using one [of "{0}"] r(2) by simp
  next
    case (3 k w')
    have "room (sbk w') 60" by (rule 3(13)) (use r(4,5) er in \<open>simp add: room_def\<close>)
    then show ?thesis using that [of w' k] 3 r(2) by (simp add: new_child_def insert_commute)
  qed
  have f1: "fs_wf w1" and d0: "dir_rep w1 0 (dir_add [(0, dot), (0, dotdot)] [102] (int k))" "dir_ok (dir_add [(0, dot), (0, dotdot)] [102] (int k))" "clean w1 0"
    by (rule sessionE [OF C(1)]; simp)+
  obtain b j w2 where g: "testfs_get_inode w1 (int k) = Inr (b, w2)" "fs_wf w2" "cached w2 k b j" "clean w2 k"
    "sbk w2 = sbk w1" "others_same k w1 w2" "refs w2 = (refs w1)(k := refs w1 k + 1)" "\<And>m es. dir_rep w2 m es \<longleftrightarrow> dir_rep w1 m es"
    by (rule get_clean [OF f1 _ C(8)]) (use C(5) in auto)
  let ?cd = "\<lparr>nargs = 2, cmd = [[], [102]], cur_dir = b\<rparr>" and ?cs = "[(int k, dot), (0, dotdot)]"
  have s2: "session w2 ?cd k ?cs" using g C(6) by (auto simp: session_def dir_ok_def dot_def dotdot_def)
  have fit: "name_fits w2 ?cs [102]" using C(9) g(5) er by (simp add: name_fits_def c_string_def room_def)
  obtain l w3 where D: "session w3 ?cd k (dir_add ?cs [102] (int l))" "dir_lookup (dir_add ?cs [102] (int l)) [102] = Some (int l)"
    "l \<noteq> 0" "l \<noteq> k" "used_inodes (sbk w3) = {l, 0, k}" "same_out {k, l} w2 w3" "refs w3 k = refs w2 k" "room (sbk w3) 6"
  proof (cases rule: create_session [OF s2 fit, of I_FILE])
    case 1
    then show ?thesis by (simp add: dot_def dotdot_def)
  next
    case (2 w')
    then show ?thesis using one [of "{0, k}"] g(5) C(5) by (simp add: card_insert_if)
  next
    case (3 l w')
    have "room (sbk w') 6" by (rule 3(13)) (use g(5) C(9) er in \<open>simp add: room_def\<close>)
    then show ?thesis using that [of w' l] 3 g(5) C(5) by simp
  qed
  obtain i where e: "fs_wf w3" "cached w3 k b i" "\<not> is_dirty i" "dir_rep w3 k (dir_add ?cs [102] (int l))" by (rule sessionE [OF D(1)]) simp
  obtain w4 where P: "testfs_put_inode b w3 = Inr w4" "fs_wf w4" "sbk w4 = sbk w3" "others_same k w3 w4" "dinode_at w4 = dinode_at w3"
    "refs w4 = (refs w3)(k := refs w3 k - 1)" "\<And>m es. dir_rep w4 m es \<longleftrightarrow> dir_rep w3 m es"
    by (rule put_clean [OF e(1-3)]) blast
  have o: "same_out {k, l} w1 w4"
    by (rule same_out_trans [OF same_outI [OF g(6)] same_out_trans [OF D(6) same_outI [OF P(4)]]]) auto
  have z: "0 \<notin> {k, l}" "(0 :: nat) < NR_INODES" using C(3) D(3) by auto
  have "session w4 ?c 0 (dir_add [(0, dot), (0, dotdot)] [102] (int k))"
    using C(1) P(2) same_out_dir [OF o z(2,1) d0(1)] same_out_clean [OF o z(2,1) d0(3)] d0(2) o z by (auto simp: session_def same_out_def)
  moreover have "child w4 0 k (dir_add ?cs [102] (int l))"
    using P(3,6,7) D(5,7) g(7) C(3,7) e(4) by (simp add: child_def)
  moreover have "i_type (dinode_at w4 k) = I_DIR" using dir_repD(1) [OF e(4)] P(5) by simp
  moreover have "(int l, [102]) \<in> set (dir_add ?cs [102] (int l))" using dir_lookup_in [OF D(2)] by simp
  then have "\<not> dir_removable (dir_add ?cs [102] (int l))" unfolding dir_removable_def by (force simp: dot_def dotdot_def)
  ultimately show thesis using that [of w4 ?c] C(2) D(8) P(3) er by simp
qed

theorem cmd_rm_spec_witness:
  "(\<exists>w c w' k. cmd_rm ample w c = Inr (0, [], w', c) \<and> k \<in> used_inodes (sbk w) \<and> k \<notin> used_inodes (sbk w')) \<and>
    (\<exists>w c w'. cmd_rm ample w c = Inr (- ENOTEMPTY, [], w', c) \<and> sbk w' = sbk w)"
proof
  have ne: "[102 :: u8] \<noteq> dot" "[102 :: u8] \<noteq> dotdot" "c_string [102 :: u8]" by (simp_all add: dot_def dotdot_def c_string_def)
  show "\<exists>w c w' k. cmd_rm ample w c = Inr (0, [], w', c) \<and> k \<in> used_inodes (sbk w) \<and> k \<notin> used_inodes (sbk w')"
  proof (rule removable_file)
    fix w c es k assume f: "session w c 0 es" "nargs c = 2" "cmd c ! 1 = [102]" "dir_lookup es [102] = Some (int k)" "child w 0 k []"
      "i_type (dinode_at w k) = I_FILE" "room (sbk w) (ent_room [102])"
    then have "\<exists>w'. cmd_rm ample w c = Inr (0, [], w', c) \<and> used_inodes (sbk w') = used_inodes (sbk w) - {k}"
      using cmd_rm_spec [OF f(1,2), of k "[]"] ne by (simp, blast)
    moreover have "k \<in> used_inodes (sbk w)" using f(5) by (simp add: child_def)
    ultimately show ?thesis by blast
  qed
  show "\<exists>w c w'. cmd_rm ample w c = Inr (- ENOTEMPTY, [], w', c) \<and> sbk w' = sbk w"
  proof (rule occupied_dir)
    fix w c es k cs assume f: "session w c 0 es" "nargs c = 2" "cmd c ! 1 = [102]" "dir_lookup es [102] = Some (int k)" "child w 0 k cs"
      "i_type (dinode_at w k) = I_DIR" "\<not> dir_removable cs" "room (sbk w) (ent_room [102])"
    then show ?thesis using cmd_rm_spec [OF f(1,2), of k cs] ne by (simp, blast)
  qed
qed

text \<open>C12.
  A name that is created and removed leaves no trace: after \<open>create\<close> succeeds, \<open>rm\<close> of the same name succeeds, every
  name is found as before, the same inodes are in use and no file or directory but the current one has changed.\<close>

theorem cmd_create_rm_roundtrip:
  assumes "session w c n es" "nargs c = 2" "name_fits w es (cmd c ! 1)" "cmd c ! 1 \<noteq> dot" "cmd c ! 1 \<noteq> dotdot"
    and "cmd_create ample w c = Inr (0, [], w1, c)" "room (sbk w1) (ent_room (cmd c ! 1))"
  shows "\<exists>w2 es2. cmd_rm ample w1 c = Inr (0, [], w2, c) \<and> session w2 c n es2 \<and> dir_lookup es2 = dir_lookup es \<and>
    used_inodes (sbk w2) = used_inodes (sbk w) \<and> refs w2 n = refs w n \<and> same_out ({n} \<union> - used_inodes (sbk w)) w w2"
proof -
  have e: "testfs_create_file_or_dir ample w (cur_dir c) I_FILE (cmd c ! 1) = Inr (0, w1)"
    using assms(2,6) by (auto simp: cmd_create_def rbind_eq_Inr)
  have nm: "c_string (cmd c ! 1)" using assms(3) by (simp add: name_fits_def)
  obtain k where C: "session w1 c n (dir_add es (cmd c ! 1) (int k))"
    "dir_lookup (dir_add es (cmd c ! 1) (int k)) = (dir_lookup es)(cmd c ! 1 \<mapsto> int k)"
    "k \<notin> used_inodes (sbk w)" "used_inodes (sbk w1) = insert k (used_inodes (sbk w))" "same_out {n, k} w w1"
    "new_child w1 I_FILE k n" "refs w1 n = refs w n" "refs w1 k = 0" and ne: "dir_lookup es (cmd c ! 1) = None"
  proof (cases rule: create_session [OF assms(1,3), of I_FILE])
    case (3 k w')
    then show ?thesis using e that by auto
  qed (use e in auto)
  have dk: "dinode_at w1 k = empty_dinode I_FILE" using C(6) by (simp add: new_child_def)
  have kn: "k \<noteq> n" using C(3) sessionE [OF assms(1)] by metis
  have lk: "dir_lookup (dir_add es (cmd c ! 1) (int k)) (cmd c ! 1) = Some (int k)" using C(2) by simp
  have ch: "child w1 n k []" using C(4,8) kn dk by (simp add: child_def empty_dinode_def)
  show ?thesis
  proof (cases rule: rm_session [OF C(1) nm assms(4,5,2) lk ch assms(7)])
    case (1 w2)
    then show ?thesis using dk by (simp add: empty_dinode_def)
  next
    case (2 w2)
    have "dir_ok es" "0 \<le> int k" by (rule sessionE [OF assms(1)]) simp_all
    then have "dir_lookup (dir_remove (dir_add es (cmd c ! 1) (int k)) (cmd c ! 1)) = dir_lookup es"
      using dirs.remove_add ne by simp
    moreover have "same_out ({n} \<union> - used_inodes (sbk w)) w w2"
      using C(3,5) 2(5) unfolding same_out_def by fastforce
    ultimately show ?thesis using 2 C by auto
  qed
qed

theorem cmd_create_rm_roundtrip_witness:
  "\<exists>w a w1 w2. cmd_create ample w \<lparr>nargs = 2, cmd = [[], [102]], cur_dir = a\<rparr> =
     Inr (0, [], w1, \<lparr>nargs = 2, cmd = [[], [102]], cur_dir = a\<rparr>) \<and>
   cmd_rm ample w1 \<lparr>nargs = 2, cmd = [[], [102]], cur_dir = a\<rparr> =
     Inr (0, [], w2, \<lparr>nargs = 2, cmd = [[], [102]], cur_dir = a\<rparr>) \<and> used_inodes (sbk w2) = {0}"
proof -
  obtain w a where r: "session w \<lparr>nargs = 2, cmd = [[], [102]], cur_dir = a\<rparr> 0 [(0, dot), (0, dotdot)]"
    "name_fits w [(0, dot), (0, dotdot)] [102]" "used_inodes (sbk w) = {0}" "card (used_blocks (sbk w)) \<le> 12"
    "max_fs_blocks (sb_d (sbk w)) = 99"
    by (rule root_session_at [of 2 "[[], [102]]"])
  let ?c = "\<lparr>nargs = 2, cmd = [[], [102]], cur_dir = a\<rparr>"
  have er: "ent_room [102] = 6" by (simp add: ent_room_def)
  obtain w1 where c: "cmd_create ample w ?c = Inr (0, [], w1, ?c)" "room (sbk w1) (ent_room [102])"
  proof (cases rule: create_session [OF r(1,2), of I_FILE])
    case 1
    then show ?thesis by (simp add: dot_def dotdot_def)
  next
    case (2 w')
    have "1 \<in> {..<NR_INODES}" by simp
    then have "1 \<in> {0 :: nat}" using 2(6) r(3) by blast
    then show ?thesis by simp
  next
    case (3 k w')
    then show ?thesis using that [of w'] r(4,5) er by (simp add: cmd_create_def room_def)
  qed
  have "[102] \<noteq> dot" "[102] \<noteq> dotdot" by (simp_all add: dot_def dotdot_def)
  then show ?thesis using cmd_create_rm_roundtrip [OF r(1) _ _ _ _ c(1)] c r(2,3) by fastforce
qed

end
