(* ===== verification/Walk_Spec.thy ===== *)
theory Walk_Spec
  imports Command_Spec
begin

unbundle bit_operations_syntax

text \<open>
  The commands that look at several inodes and change none: \<open>ls\<close>, \<open>lsr\<close>, \<open>pwd\<close>, \<open>cd\<close>, \<open>stat\<close>. They get each
  inode they visit and put it back, so that afterwards the file system is the same from outside, \<open>quiet\<close>. What is printed is
  given by the tree of directories; the recursions end when the tree is well-founded, with the fuel its depth and width ask for.
\<close>

section \<open>Visits\<close>

definition quiet :: "fs \<Rightarrow> fs \<Rightarrow> bool" where
  "quiet w w' \<longleftrightarrow> fs_wf w' \<and> sbk w' = sbk w \<and> dinode_at w' = dinode_at w \<and> refs w' = refs w \<and> contents w' = contents w \<and>
     (\<forall>m a i. cached w m a i \<longrightarrow> (\<exists>j. cached w' m a j)) \<and> (\<forall>m. clean w m \<longrightarrow> clean w' m)"

lemma quietD:
  assumes "quiet w w'"
  shows "fs_wf w'" "sbk w' = sbk w" "dinode_at w' = dinode_at w" "refs w' = refs w" "contents w' = contents w"
    "cached w m a i \<Longrightarrow> \<exists>j. cached w' m a j" "clean w m \<Longrightarrow> clean w' m" "dir_rep w' n es \<longleftrightarrow> dir_rep w n es"
  using assms by (auto simp: quiet_def dir_rep_def)

lemma quiet_refl: "fs_wf w \<Longrightarrow> quiet w w"
  by (auto simp: quiet_def)

lemma quiet_trans: "quiet w w1 \<Longrightarrow> quiet w1 w2 \<Longrightarrow> quiet w w2"
  unfolding quiet_def by metis

lemma quiet_session: "quiet w w' \<Longrightarrow> session w c n es \<Longrightarrow> session w' c n es"
  using quietD [of w w'] unfolding session_def by metis

lemma big_clean: "fs_wf w \<Longrightarrow> \<not> m < NR_INODES \<Longrightarrow> \<not> cached w m a i"
  using cached_used fs_wfD(3) by blast

lemma visit:
  assumes w: "fs_wf w" and k: "k \<in> used_inodes (sbk w)" "clean w k"
  obtains a i w1 where "testfs_get_inode w (int k) = Inr (a, w1)" "fs_wf w1" "cached w1 k a i" "sbk w1 = sbk w"
    "dinode_at w1 = dinode_at w" "contents w1 = contents w" "\<And>m. clean w m \<Longrightarrow> clean w1 m"
    "\<And>m b j. cached w m b j \<Longrightarrow> \<exists>j. cached w1 m b j" "\<And>m es. dir_rep w1 m es \<longleftrightarrow> dir_rep w m es"
    "\<And>w2. quiet w1 w2 \<Longrightarrow> \<exists>w3. testfs_put_inode a w2 = Inr w3 \<and> quiet w w3"
    "refs w1 = (refs w)(k := refs w k + 1)"
proof -
  obtain a i w1 where g: "testfs_get_inode w (int k) = Inr (a, w1)" "fs_wf w1" "cached w1 k a i" "\<not> is_dirty i" "clean w1 k"
    "sbk w1 = sbk w" "others_same k w w1" "dinode_at w1 = dinode_at w" "refs w1 = (refs w)(k := refs w k + 1)"
    "contents w1 = contents w" "\<And>m es. dir_rep w1 m es \<longleftrightarrow> dir_rep w m es" "\<And>b j. cached w k b j \<Longrightarrow> b = a"
    by (rule get_clean [OF assms]) blast
  have oc: "cached w1 m b j \<longleftrightarrow> cached w m b j" if "m \<noteq> k" for m b j
    using that g(7) big_clean [OF w] big_clean [OF g(2)] by (cases "m < NR_INODES") (auto simp: others_same_def)
  have cl: "clean w1 m" if "clean w m" for m using that oc g(5) by (cases "m = k") (auto simp: clean_def)
  have ca: "\<exists>j. cached w1 m b j" if "cached w m b j" for m b j
    using that oc g(3) g(12) by (cases "m = k") auto
  have put: "\<exists>w3. testfs_put_inode a w2 = Inr w3 \<and> quiet w w3" if q: "quiet w1 w2" for w2
  proof -
    note Q = quietD [OF q]
    obtain j where j: "cached w2 k a j" using Q(6) g(3) by blast
    have nd: "\<not> is_dirty j" using Q(7) [OF g(5)] j by (auto simp: clean_def)
    obtain w3 where p: "testfs_put_inode a w2 = Inr w3" "fs_wf w3" "sbk w3 = sbk w2" "others_same k w2 w3"
      "dinode_at w3 = dinode_at w2" "refs w3 = (refs w2)(k := refs w2 k - 1)" "contents w3 = contents w2" "clean w3 k"
      "1 < refs w2 k \<Longrightarrow> \<exists>j. cached w3 k a j"
      by (rule put_clean [OF Q(1) j nd]) blast
    have oc3: "cached w3 m b j \<longleftrightarrow> cached w2 m b j" if "m \<noteq> k" for m b j
      using that p(4) big_clean [OF p(2)] big_clean [OF Q(1)] by (cases "m < NR_INODES") (auto simp: others_same_def)
    have "\<exists>j. cached w3 m b j" if c: "cached w m b i" for m b i
    proof (cases "m = k")
      case True
      then have "0 < refs w k" "b = a" using refs_pos [OF fs_wfD(1) [OF w], of k] c g(12) by auto
      then show ?thesis using p(9) Q(4) g(9) True by simp
    next
      case False
      then show ?thesis using oc3 oc c Q(6) by metis
    qed
    moreover have "clean w3 m" if "clean w m" for m
      using p(8) Q(7) [OF cl [OF that]] oc3 by (cases "m = k") (auto simp: clean_def)
    ultimately have "quiet w w3"
      using p(2,3,5-7) Q(2-5) g(6,8-10) by (auto simp: quiet_def fun_eq_iff)
    then show ?thesis using p(1) by blast
  qed
  show ?thesis by (rule that [OF g(1-3,6,8,10) cl ca g(11) put g(9)])
qed

section \<open>Listing\<close>

text \<open>
  A tree of directories: \<open>D\<close> gives the entries of its directories, and the inodes of the names in use are there.
  When the listing is recursive the directories they name are in it, further from the top, as \<open>rank\<close> says.
\<close>

definition dir_tree :: "fs \<Rightarrow> bool \<Rightarrow> (nat \<Rightarrow> entry list option) \<Rightarrow> (nat \<Rightarrow> nat) \<Rightarrow> bool" where
  "dir_tree w recursive D rank \<longleftrightarrow>
     (\<forall>n es. D n = Some es \<longrightarrow> dir_rep w n es \<and>
       (\<forall>e\<in>set es. 0 \<le> fst e \<longrightarrow> nat (fst e) \<in> used_inodes (sbk w) \<and> clean w (nat (fst e)) \<and>
         (recursive \<and> i_type (dinode_at w (nat (fst e))) = I_DIR \<and> snd e \<noteq> dot \<and> snd e \<noteq> dotdot \<longrightarrow>
           D (nat (fst e)) \<noteq> None \<and> rank (nat (fst e)) < rank n)))"

lemma dir_tree_quiet: "quiet w w' \<Longrightarrow> dir_tree w r D rank \<Longrightarrow> dir_tree w' r D rank"
  using quietD [of w w'] unfolding dir_tree_def by metis

text \<open>What is printed for an entry, \<open>sub\<close> being the listing of a directory, and for a directory down to a depth of \<open>k\<close>.\<close>

definition descends :: "(nat \<Rightarrow> bool) \<Rightarrow> bool \<Rightarrow> entry \<Rightarrow> bool" where
  "descends isd recursive e \<longleftrightarrow> recursive \<and> isd (nat (fst e)) \<and> snd e \<noteq> dot \<and> snd e \<noteq> dotdot"

definition ent_text :: "(nat \<Rightarrow> bool) \<Rightarrow> bool \<Rightarrow> (nat \<Rightarrow> u8 list) \<Rightarrow> entry \<Rightarrow> u8 list" where
  "ent_text isd recursive sub e =
     (if fst e < 0 then []
      else snd e @ (if isd (nat (fst e)) then [47] else []) @ [10] @ (if descends isd recursive e then sub (nat (fst e)) else []))"

fun tree_text :: "(nat \<Rightarrow> entry list option) \<Rightarrow> (nat \<Rightarrow> bool) \<Rightarrow> bool \<Rightarrow> nat \<Rightarrow> nat \<Rightarrow> u8 list" where
  "tree_text D isd recursive 0 = (\<lambda>n. [])"
| "tree_text D isd recursive (Suc k) = (\<lambda>n. concat (map (ent_text isd recursive (tree_text D isd recursive k)) (the (D n))))"

definition is_directory :: "fs \<Rightarrow> nat \<Rightarrow> bool" where
  "is_directory w n \<longleftrightarrow> i_type (dinode_at w n) = I_DIR"

lemma c_str_entry: "entry_ok e \<Longrightarrow> c_str (snd e @ [0]) = Inr (snd e)"
  using c_str_nul [of "snd e" "[]"] by (simp add: entry_ok_def)

lemma c_streq_entry: "entry_ok e \<Longrightarrow> c_string t \<Longrightarrow> c_streq (snd e @ [0]) t = Inr (snd e = t)"
  using c_streq_nul [of "snd e" t "[]"] by (simp add: entry_ok_def)

text \<open>One line of the listing, and the listings of a directory and of the rest of the entries, put together.\<close>

lemma ls_step:
  assumes nx: "testfs_next_dirent ample w a off = Inr (Some (dirent_of e), off')" "entry_ok e" "length (snd e) < 2 ^ 30" "0 \<le> fst e"
    and get: "testfs_get_inode w (fst e) = Inr (b, w1)" "get_inode_at w1 b = Inr j" "testfs_inode_get_type j = I_DIR \<longleftrightarrow> d"
    and sub: "recursive \<and> d \<and> snd e \<noteq> dot \<and> snd e \<noteq> dotdot \<Longrightarrow> testfs_ls_from fuel ample w1 b recursive 0 = Inr (out1, w2)"
      "\<not> (recursive \<and> d \<and> snd e \<noteq> dot \<and> snd e \<noteq> dotdot) \<Longrightarrow> out1 = [] \<and> w2 = w1"
    and put: "testfs_put_inode b w2 = Inr w3" "testfs_ls_from fuel ample w3 a recursive off' = Inr (out2, w4)"
  shows "testfs_ls_from (Suc fuel) ample w a recursive off =
    Inr (snd e @ (if d then [47] else []) @ [10] @ out1 @ out2, w4)"
proof -
  have s: "c_streq (snd e @ [0]) dot = Inr (snd e = dot)" "c_streq (snd e @ [0]) dotdot = Inr (snd e = dotdot)"
    using c_streq_entry [OF nx(2)] nx(2,3) by simp_all
  show ?thesis
    using nx get put sub by (cases "snd e = dot"; cases "snd e = dotdot"; cases "recursive \<and> d")
      (auto simp: c_str_entry s Let_def)
qed

lemma ls_loop:
  assumes sub: "\<And>e w a i fuel. e \<in> set es2 \<Longrightarrow> 0 \<le> fst e \<Longrightarrow> descends isd recursive e \<Longrightarrow> fs_wf w \<Longrightarrow> cached w (nat (fst e)) a i \<Longrightarrow>
      dir_tree w recursive D rank \<Longrightarrow> is_directory w = isd \<Longrightarrow> B \<le> fuel \<Longrightarrow>
      \<exists>w'. testfs_ls_from fuel ample w a recursive 0 = Inr (sub (nat (fst e)), w') \<and> quiet w w'"
    and D: "D n = Some (es1 @ es2)"
  shows "fs_wf w \<Longrightarrow> cached w n a i \<Longrightarrow> dir_tree w recursive D rank \<Longrightarrow> is_directory w = isd \<Longrightarrow> B + length es2 < fuel \<Longrightarrow>
    \<exists>w'. testfs_ls_from fuel ample w a recursive (int (length (dir_bytes es1))) =
      Inr (concat (map (ent_text isd recursive sub) es2), w') \<and> quiet w w'"
  using sub D
proof (induction es2 arbitrary: es1 w i fuel)
  case Nil
  have "dir_rep w n es1" using Nil.prems(3,7) by (simp add: dir_tree_def)
  then show ?case using next_dirent_end [OF Nil.prems(1,2)] quiet_refl [OF Nil.prems(1)] Nil.prems(5) by (cases fuel) auto
next
  case (Cons e es2)
  note P = Cons.prems
  obtain f where f: "fuel = Suc f" "B + length es2 < f" using P(5) by (cases fuel) auto
  have d: "dir_rep w n (es1 @ e # es2)" using P(3,7) by (simp add: dir_tree_def)
  note E = dir_rep_name [OF d, of e]
  note nx = next_dirent_entry [OF P(1,2) d]
  have IH: "\<exists>w'. testfs_ls_from f ample v a recursive (int (length (dir_bytes (es1 @ [e])))) =
      Inr (concat (map (ent_text isd recursive sub) es2), w') \<and> quiet v w'"
    if "fs_wf v" "cached v n a j" "dir_tree v recursive D rank" "is_directory v = isd" for v j
    by (rule Cons.IH [OF that f(2)]) (use P(6,7) in auto)
  show ?case
  proof (cases "fst e < 0")
    case True
    obtain w' where "testfs_ls_from f ample w a recursive (int (length (dir_bytes (es1 @ [e])))) =
        Inr (concat (map (ent_text isd recursive sub) es2), w')" "quiet w w'"
      using IH [OF P(1-4)] by blast
    moreover have "ent_text isd recursive sub e = []" using True by (simp add: ent_text_def)
    ultimately show ?thesis using True nx E f(1) by (intro exI [of _ w']) (simp del: dir_bytes_simps)
  next
    case False
    let ?k = "nat (fst e)"
    have k: "?k \<in> used_inodes (sbk w)" "clean w ?k" and ik: "int ?k = fst e"
      using P(3,7) False by (auto simp: dir_tree_def)
    obtain b j w1 where g: "testfs_get_inode w (int ?k) = Inr (b, w1)" "fs_wf w1" "cached w1 ?k b j" "sbk w1 = sbk w"
      "dinode_at w1 = dinode_at w" "contents w1 = contents w" "\<And>m. clean w m \<Longrightarrow> clean w1 m"
      "\<And>m b j. cached w m b j \<Longrightarrow> \<exists>j. cached w1 m b j" "\<And>m es. dir_rep w1 m es \<longleftrightarrow> dir_rep w m es"
      "\<And>w2. quiet w1 w2 \<Longrightarrow> \<exists>w3. testfs_put_inode b w2 = Inr w3 \<and> quiet w w3"
      by (rule visit [OF P(1) k]) blast
    have t1: "dir_tree w1 recursive D rank" using P(3) g(4,5,7,9) unfolding dir_tree_def by metis
    have i1: "is_directory w1 = isd" using P(4) g(5) by (auto simp: is_directory_def)
    have ty: "get_inode_at w1 b = Inr j" "testfs_inode_get_type j = I_DIR \<longleftrightarrow> isd ?k"
      using cached_size(2,4) [OF g(2,3)] i1 by (auto simp: is_directory_def)
    obtain out1 w2 where s: "quiet w1 w2" "descends isd recursive e \<Longrightarrow> testfs_ls_from f ample w1 b recursive 0 = Inr (out1, w2)"
      "\<not> descends isd recursive e \<Longrightarrow> out1 = [] \<and> w2 = w1" "out1 = (if descends isd recursive e then sub ?k else [])"
    proof (cases "descends isd recursive e")
      case True
      obtain w2 where "testfs_ls_from f ample w1 b recursive 0 = Inr (sub ?k, w2)" "quiet w1 w2"
        using P(6) [OF _ _ True g(2,3) t1 i1, of f] f(2) False by auto
      then show ?thesis using that True by simp
    next
      case False
      then show ?thesis using that [of w1 "[]"] quiet_refl [OF g(2)] by simp
    qed
    obtain w3 where p: "testfs_put_inode b w2 = Inr w3" "quiet w w3" using g(10) [OF s(1)] by blast
    obtain i3 where i3: "cached w3 n a i3" using quietD(6) [OF p(2) P(2)] by blast
    have i3': "is_directory w3 = isd" using P(4) quietD(3) [OF p(2)] by (auto simp: is_directory_def)
    obtain w4 where r: "testfs_ls_from f ample w3 a recursive (int (length (dir_bytes (es1 @ [e])))) =
        Inr (concat (map (ent_text isd recursive sub) es2), w4)" "quiet w3 w4"
      using IH [OF quietD(1) [OF p(2)] i3 dir_tree_quiet [OF p(2) P(3)] i3'] by blast
    have "testfs_ls_from (Suc f) ample w a recursive (int (length (dir_bytes es1))) =
        Inr (snd e @ (if isd ?k then [47] else []) @ [10] @ out1 @ concat (map (ent_text isd recursive sub) es2), w4)"
    proof (rule ls_step [OF nx _ _ _ _ ty _ _ p(1) r(1)])
      show "testfs_get_inode w (fst e) = Inr (b, w1)" using g(1) ik by simp
      show "0 \<le> fst e" using False by simp
    qed (use E s(2,3) in \<open>auto simp: descends_def\<close>)
    moreover have "ent_text isd recursive sub e = snd e @ (if isd ?k then [47] else []) @ [10] @ out1"
      using s(4) False by (simp add: ent_text_def)
    ultimately show ?thesis using quiet_trans [OF p(2) r(2)] f(1) by simp
  qed
qed

lemma ls_tree:
  assumes L: "\<And>n es. D n = Some es \<Longrightarrow> length es \<le> L"
  shows "D n = Some es \<Longrightarrow> (recursive \<longrightarrow> rank n \<le> k) \<Longrightarrow> fs_wf w \<Longrightarrow> cached w n a i \<Longrightarrow> dir_tree w recursive D rank \<Longrightarrow>
    (k + 1) * (L + 1) \<le> fuel \<Longrightarrow>
    \<exists>w'. testfs_ls_from fuel ample w a recursive 0 = Inr (tree_text D (is_directory w) recursive (Suc k) n, w') \<and> quiet w w'"
proof (induction k arbitrary: n es w a i fuel rule: less_induct)
  case (less k)
  let ?isd = "is_directory w" and ?sub = "tree_text D (is_directory w) recursive k"
  have len: "k * (L + 1) + length es < fuel" using L [OF less.prems(1)] less.prems(6) by simp
  have "\<exists>w'. testfs_ls_from fuel ample w a recursive (int (length (dir_bytes []))) =
      Inr (concat (map (ent_text ?isd recursive ?sub) es), w') \<and> quiet w w'"
  proof (rule ls_loop [where B = "k * (L + 1)" and rank = rank, OF _ _ less.prems(3-5) refl len])
    show "D n = Some ([] @ es)" using less.prems(1) by simp
    fix e v b j f
    assume e: "e \<in> set es" "0 \<le> fst e" "descends ?isd recursive e" and v: "fs_wf v" "cached v (nat (fst e)) b j"
      "dir_tree v recursive D rank" "is_directory v = ?isd" and f: "k * (L + 1) \<le> f"
    have r: "recursive" "rank n \<le> k" using e(3) less.prems(2) by (auto simp: descends_def)
    obtain cs where c: "D (nat (fst e)) = Some cs" "rank (nat (fst e)) < rank n"
      using less.prems(1,5) e unfolding dir_tree_def descends_def is_directory_def by blast
    obtain k' where k: "k = Suc k'" using c(2) r(2) by (cases k) auto
    show "\<exists>w'. testfs_ls_from f ample v b recursive 0 = Inr (?sub (nat (fst e)), w') \<and> quiet v w'"
      using less.IH [of k' "nat (fst e)" cs v b j f] k c r v f by simp
  qed
  then show ?case using less.prems(1) by simp
qed

text \<open>C14.
  \<open>ls\<close> and \<open>lsr\<close> of a directory of a tree end, with fuel for the depth and width of the tree, and print its names in use
  in order, one on a line, those of directories with a slash, \<open>lsr\<close> each followed by the listing of that directory except for \<open>.\<close>
  and \<open>..\<close>; the file system is as it was, every reference count included.\<close>

theorem cmd_ls_internal_spec:
  assumes "session w c n es" "nargs c = 2" "c_string (cmd c ! 1)" "dir_lookup es (cmd c ! 1) = Some (int k)"
    and "dir_tree w recursive D rank" "D k = Some ks" "k \<in> used_inodes (sbk w)" "clean w k"
    and "\<And>n es. D n = Some es \<Longrightarrow> length es \<le> L" "(rank k + 1) * (L + 1) \<le> fuel"
  shows "\<exists>w'. cmd_ls_internal fuel ample w c recursive =
      Inr (0, tree_text D (is_directory w) recursive (Suc (rank k)) k, w', c) \<and> session w' c n es \<and> quiet w w'"
proof (rule sessionE [OF assms(1)])
  fix i assume S: "fs_wf w" "cached w n (cur_dir c) i"
  obtain b j w1 where g: "testfs_get_inode w (int k) = Inr (b, w1)" "fs_wf w1" "cached w1 k b j" "sbk w1 = sbk w"
    "dinode_at w1 = dinode_at w" "\<And>m. clean w m \<Longrightarrow> clean w1 m" "\<And>m es. dir_rep w1 m es \<longleftrightarrow> dir_rep w m es"
    "\<And>w2. quiet w1 w2 \<Longrightarrow> \<exists>w3. testfs_put_inode b w2 = Inr w3 \<and> quiet w w3"
    by (rule visit [OF S(1) assms(7,8)]) blast
  have t1: "dir_tree w1 recursive D rank" using assms(5) g(4-7) unfolding dir_tree_def by metis
  have i1: "is_directory w1 = is_directory w" using g(5) by (auto simp: is_directory_def)
  have "dir_rep w k ks" using assms(5,6) by (simp add: dir_tree_def)
  then have ty: "get_inode_at w1 b = Inr j" "testfs_inode_get_type j = I_DIR"
    using cached_size(2,4) [OF g(2,3)] g(5) dir_repD(1) by auto
  obtain w2 where l: "testfs_ls_from fuel ample w1 b recursive 0 = Inr (tree_text D (is_directory w) recursive (Suc (rank k)) k, w2)"
    "quiet w1 w2"
  proof -
    have "\<exists>w'. testfs_ls_from fuel ample w1 b recursive 0 = Inr (tree_text D (is_directory w1) recursive (Suc (rank k)) k, w') \<and> quiet w1 w'"
      by (rule ls_tree [where rank = rank and L = L and k = "rank k", OF _ assms(6) _ g(2,3) t1 assms(10)]) (use assms(9) in auto)
    then show ?thesis using that unfolding i1 by blast
  qed
  obtain w3 where p: "testfs_put_inode b w2 = Inr w3" "quiet w w3" using g(8) [OF l(2)] by blast
  have "cmd_ls_internal fuel ample w c recursive = Inr (0, tree_text D (is_directory w) recursive (Suc (rank k)) k, w3, c)"
    using session_name [OF assms(1,3)] assms(2,4) cached_size(3) [OF S] g(1) ty l(1) p(1)
    by (simp add: cmd_ls_internal_def testfs_ls_def)
  then show ?thesis using p(2) quiet_session [OF p(2) assms(1)] by blast
qed

theorem cmd_ls_internal_spec_witness:
  "\<exists>w a w'. cmd_ls_internal 9 ample w \<lparr>nargs = 2, cmd = [[], [46]], cur_dir = a\<rparr> True =
     Inr (0, [46, 47, 10, 46, 46, 47, 10], w', \<lparr>nargs = 2, cmd = [[], [46]], cur_dir = a\<rparr>) \<and> quiet w w'"
proof -
  let ?es = "[(0, dot), (0, dotdot)]" and ?D = "[0 \<mapsto> [(0, dot), (0, dotdot)]]"
  obtain w a where r: "session w \<lparr>nargs = 2, cmd = [[], [46]], cur_dir = a\<rparr> 0 ?es" "used_inodes (sbk w) = {0}"
    by (rule root_session_at [of 2 "[[], [46]]"])
  have d: "dir_rep w 0 ?es" "clean w 0" using r(1) by (simp_all add: session_def)
  have i: "is_directory w 0" using dir_repD(1) [OF d(1)] by (simp add: is_directory_def)
  have t: "dir_tree w True ?D (\<lambda>_. 0)" using d r(2) by (simp add: dir_tree_def)
  have tx: "tree_text ?D (is_directory w) True (Suc 0) 0 = [46, 47, 10, 46, 46, 47, 10]"
    using i by (simp add: ent_text_def descends_def dot_def dotdot_def)
  have "\<exists>w'. cmd_ls_internal 9 ample w \<lparr>nargs = 2, cmd = [[], [46]], cur_dir = a\<rparr> True =
      Inr (0, tree_text ?D (is_directory w) True (Suc 0) 0, w', \<lparr>nargs = 2, cmd = [[], [46]], cur_dir = a\<rparr>) \<and>
      session w' \<lparr>nargs = 2, cmd = [[], [46]], cur_dir = a\<rparr> 0 ?es \<and> quiet w w'"
  proof (rule cmd_ls_internal_spec [where rank = "\<lambda>_. 0" and L = 2 and k = 0 and ks = ?es, OF r(1) _ _ _ t])
    show "length es \<le> 2" if "?D n = Some es" for n es using that by (auto split: if_splits)
  qed (simp_all add: c_string_def dot_def d(2) r(2))
  then show ?thesis unfolding tx by blast
qed

section \<open>Changing the directory\<close>

text \<open>C15.
  \<open>cd\<close>: a name that is not there gives -ENOENT, one of a file -ENOTDIR, and nothing changes; else the session goes on in the directory
  named, which has one use more and the old one has one less, and no file or inode changes.\<close>

theorem cmd_cd_spec:
  assumes "session w c n es" "nargs c = 2" "c_string (cmd c ! 1)"
    and "\<And>nr. dir_lookup es (cmd c ! 1) = Some nr \<Longrightarrow> nr = int k \<and> k \<in> used_inodes (sbk w) \<and> clean w k \<and>
      (is_directory w k \<longrightarrow> dir_rep w k ks \<and> dir_ok ks)"
  shows "\<exists>ret w' c'. cmd_cd ample w c = Inr (ret, [], w', c') \<and> sbk w' = sbk w \<and> dinode_at w' = dinode_at w \<and> contents w' = contents w \<and>
    (if dir_lookup es (cmd c ! 1) = None then ret = - ENOENT \<and> w' = w \<and> c' = c
     else if \<not> is_directory w k then ret = - ENOTDIR \<and> c' = c \<and> quiet w w'
     else ret = 0 \<and> c' = c\<lparr>cur_dir := cur_dir c'\<rparr> \<and> session w' c' k ks \<and>
       (\<forall>m. refs w' m = refs w m + (if m = k then 1 else 0) - (if m = n then 1 else 0)))"
proof (rule sessionE [OF assms(1)])
  fix i assume S: "fs_wf w" "cached w n (cur_dir c) i" "clean w n" "n \<in> used_inodes (sbk w)" "n < NR_INODES"
  show ?thesis
  proof (cases "dir_lookup es (cmd c ! 1)")
    case None
    then show ?thesis using session_name [OF assms(1,3)] assms(2) by (simp add: cmd_cd_def)
  next
    case (Some nr)
    then have k: "nr = int k" "k \<in> used_inodes (sbk w)" "clean w k" "is_directory w k \<Longrightarrow> dir_rep w k ks \<and> dir_ok ks"
      using assms(4) by auto
    obtain b j w1 where g: "testfs_get_inode w (int k) = Inr (b, w1)" "fs_wf w1" "cached w1 k b j" "sbk w1 = sbk w"
      "dinode_at w1 = dinode_at w" "contents w1 = contents w" "\<And>m. clean w m \<Longrightarrow> clean w1 m"
      "\<And>m b j. cached w m b j \<Longrightarrow> \<exists>j. cached w1 m b j" "\<And>m es. dir_rep w1 m es \<longleftrightarrow> dir_rep w m es"
      "\<And>w2. quiet w1 w2 \<Longrightarrow> \<exists>w3. testfs_put_inode b w2 = Inr w3 \<and> quiet w w3" "refs w1 = (refs w)(k := refs w k + 1)"
      by (rule visit [OF S(1) k(2,3)]) blast
    have ty: "get_inode_at w1 b = Inr j" "testfs_inode_get_type j = I_DIR \<longleftrightarrow> is_directory w k"
      using cached_size(2,4) [OF g(2,3)] g(5) by (auto simp: is_directory_def)
    show ?thesis
    proof (cases "is_directory w k")
      case False
      obtain w3 where p: "testfs_put_inode b w1 = Inr w3" "quiet w w3" using g(10) [OF quiet_refl [OF g(2)]] by blast
      have "cmd_cd ample w c = Inr (- ENOTDIR, [], w3, c)"
        using session_name [OF assms(1,3)] assms(2) Some k(1) g(1) ty False p(1) by (simp add: cmd_cd_def)
      then show ?thesis using False Some p(2) quietD [OF p(2)] by simp
    next
      case True
      obtain i1 where i1: "cached w1 n (cur_dir c) i1" using g(8) [OF S(2)] by blast
      have nd: "\<not> is_dirty i1" using g(7) [OF S(3)] i1 by (auto simp: clean_def)
      obtain w3 where p: "testfs_put_inode (cur_dir c) w1 = Inr w3" "fs_wf w3" "sbk w3 = sbk w1" "others_same n w1 w3"
        "dinode_at w3 = dinode_at w1" "refs w3 = (refs w1)(n := refs w1 n - 1)" "contents w3 = contents w1" "clean w3 n"
        "\<And>m es. dir_rep w3 m es \<longleftrightarrow> dir_rep w1 m es" "1 < refs w1 n \<Longrightarrow> \<exists>j. cached w3 n (cur_dir c) j"
        by (rule put_clean [OF g(2) i1 nd]) blast
      have kN: "k < NR_INODES" by (rule fs_wfD(3) [OF S(1) k(2)])
      have rn: "0 < refs w n" using refs_pos [OF fs_wfD(1) [OF S(1)], of n] S(2) by auto
      have ck: "\<exists>j. cached w3 k b j"
      proof (cases "k = n")
        case True
        then have "b = cur_dir c" using cached_unique [OF fs_wfD(1) [OF g(2)]] g(3) i1 by blast
        then show ?thesis using True p(10) g(11) rn by simp
      next
        case False
        then show ?thesis using p(4) g(3) kN by (auto simp: others_same_def)
      qed
      have cl: "clean w3 k" using p(4,8) g(7) [OF k(3)] kN by (cases "k = n") (auto simp: others_same_def clean_def)
      have "session w3 (c\<lparr>cur_dir := b\<rparr>) k ks"
        using p(2,9) g(9) ck cl k(4) [OF True] by (simp add: session_def)
      moreover have "cmd_cd ample w c = Inr (0, [], w3, c\<lparr>cur_dir := b\<rparr>)"
        using session_name [OF assms(1,3)] assms(2) Some k(1) g(1) ty True p(1) by (simp add: cmd_cd_def)
      ultimately show ?thesis using Some True p(3,5-7) g(4-6,11) by (auto simp: fun_eq_iff)
    qed
  qed
qed

theorem cmd_cd_spec_witness:
  "\<exists>w a w' c'. cmd_cd ample w \<lparr>nargs = 2, cmd = [[], [46]], cur_dir = a\<rparr> = Inr (0, [], w', c') \<and> refs w' 0 = 1"
proof -
  let ?es = "[(0, dot), (0, dotdot)]" and ?c = "\<lambda>a. \<lparr>nargs = 2, cmd = [[], [46]], cur_dir = a\<rparr>"
  obtain w a where r: "session w (?c a) 0 ?es" "used_inodes (sbk w) = {0}" "refs w 0 = 1"
    by (rule root_session_at [of 2 "[[], [46]]"])
  have d: "dir_rep w 0 ?es" "clean w 0" using r(1) by (simp_all add: session_def)
  have i: "is_directory w 0" using dir_repD(1) [OF d(1)] by (simp add: is_directory_def)
  have l: "dir_lookup ?es (cmd (?c a) ! 1) = Some 0" by (simp add: dot_def)
  have "\<exists>ret w' c'. cmd_cd ample w (?c a) = Inr (ret, [], w', c') \<and> sbk w' = sbk w \<and> dinode_at w' = dinode_at w \<and> contents w' = contents w \<and>
    (if dir_lookup ?es (cmd (?c a) ! 1) = None then ret = - ENOENT \<and> w' = w \<and> c' = ?c a
     else if \<not> is_directory w 0 then ret = - ENOTDIR \<and> c' = ?c a \<and> quiet w w'
     else ret = 0 \<and> c' = (?c a)\<lparr>cur_dir := cur_dir c'\<rparr> \<and> session w' c' 0 ?es \<and>
       (\<forall>m. refs w' m = refs w m + (if m = 0 then 1 else 0) - (if m = 0 then 1 else 0)))"
    by (rule cmd_cd_spec [OF r(1)]) (use l d r(2) in \<open>auto simp: c_string_def dir_ok_def\<close>)
  then obtain w' c' where "cmd_cd ample w (?c a) = Inr (0, [], w', c')" "refs w' 0 = 1" using l i r(3) by auto
  then show ?thesis by blast
qed

section \<open>Printing an inode and the path\<close>

text \<open>\<open>stat\<close> prints the number, the type, the size and the number of blocks of the inode a name stands for, and
  changes nothing.\<close>

theorem cmd_stat_spec:
  assumes "session w c n es" "nargs c = 2" "c_string (cmd c ! 1)" "dir_lookup es (cmd c ! 1) = Some (int k)"
    and "k \<in> used_inodes (sbk w)" "clean w k"
  shows "\<exists>w'. cmd_stat ample w c = Inr (0, cmd c ! 1 @ lit '': i_nr = '' @ dec (int k) @
      lit '', i_type = '' @ dec (sint (i_type (dinode_at w k))) @ lit '', i_size = '' @ dec_nat (fsize (dinode_at w k)) @
      lit '', block_count = '' @ dec (int (card (owned (sbk w) (dinode_at w k)))) @ [10], w', c) \<and>
    quiet w w' \<and> session w' c n es"
proof (rule sessionE [OF assms(1)])
  fix i assume S: "fs_wf w" "cached w n (cur_dir c) i"
  obtain b j w1 where g: "testfs_get_inode w (int k) = Inr (b, w1)" "fs_wf w1" "cached w1 k b j" "sbk w1 = sbk w"
    "dinode_at w1 = dinode_at w" "\<And>w2. quiet w1 w2 \<Longrightarrow> \<exists>w3. testfs_put_inode b w2 = Inr w3 \<and> quiet w w3"
    by (rule visit [OF S(1) assms(5,6)]) blast
  note C = cached_size [OF g(2,3)]
  have d: "in_d j = dinode_at w k" using dinode_at_cached [OF fs_wfD(1) [OF g(2)] g(3)] g(5) by simp
  have fw: "file_wf (sbk w) (dinode_at w k)" by (rule fs_wfD(4) [OF S(1) assms(5)])
  have bc: "testfs_inode_get_block_count j = int (card (owned (sbk w) (dinode_at w k)))"
    using tree_wf_count [OF file_wfD(1) [OF fw]] d by (simp add: testfs_inode_get_block_count_def)
  have sz: "c_ulong (testfs_inode_get_size j) = fsize (dinode_at w k)"
    using C(1) g(5) file_wfD(3) [OF fw] by (simp add: c_ulong_id)
  obtain w3 where p: "testfs_put_inode b w1 = Inr w3" "quiet w w3" using g(6) [OF quiet_refl [OF g(2)]] by blast
  show ?thesis
    using session_name [OF assms(1,3)] assms(2,4) g(1,5) C(2,4,5) bc sz p quiet_session [OF p(2) assms(1)]
    by (simp add: cmd_stat_def Let_def)
qed

theorem cmd_stat_spec_witness:
  "\<exists>w a w' out. cmd_stat ample w \<lparr>nargs = 2, cmd = [[], [46]], cur_dir = a\<rparr> =
     Inr (0, out, w', \<lparr>nargs = 2, cmd = [[], [46]], cur_dir = a\<rparr>) \<and> take 1 out = [46]"
proof -
  let ?es = "[(0, dot), (0, dotdot)]" and ?c = "\<lambda>a. \<lparr>nargs = 2, cmd = [[], [46]], cur_dir = a\<rparr>"
  obtain w a where r: "session w (?c a) 0 ?es" "used_inodes (sbk w) = {0}"
    by (rule root_session_at [of 2 "[[], [46]]"])
  have d: "clean w 0" using r(1) by (simp add: session_def)
  have l: "dir_lookup ?es (cmd (?c a) ! 1) = Some (int 0)" by (simp add: dot_def)
  show ?thesis using cmd_stat_spec [OF r(1) _ _ l _ d] r(2) by (fastforce simp: c_string_def)
qed

text \<open>
  The path of a directory: a root is its own parent; else the parent has an entry with the number of the directory, the first
  of which gives the name. \<open>k\<close> is the number of steps to the root.
\<close>

inductive dir_path :: "fs \<Rightarrow> nat \<Rightarrow> nat \<Rightarrow> u8 list \<Rightarrow> bool" for w where
  root: "dir_rep w n es \<Longrightarrow> dir_lookup es dotdot = Some (int n) \<Longrightarrow> dir_path w n 0 [47]"
| below: "dir_rep w n es \<Longrightarrow> dir_lookup es dotdot = Some (int p) \<Longrightarrow> p \<noteq> n \<Longrightarrow> p \<in> used_inodes (sbk w) \<Longrightarrow> clean w p \<Longrightarrow>
    dir_rep w p ps \<Longrightarrow> dir_find ps (int n) = Some (int n, name) \<Longrightarrow> dir_path w p k path \<Longrightarrow>
    dir_path w n (Suc k) (path @ (if k = 0 then [] else [47]) @ name)"

lemma dir_path_same:
  assumes "dinode_at w' = dinode_at w" "contents w' = contents w" "sbk w' = sbk w" "\<And>m. clean w m \<Longrightarrow> clean w' m"
  shows "dir_path w n k path \<Longrightarrow> dir_path w' n k path"
proof (induction rule: dir_path.induct)
  case (root n es)
  then show ?case using assms(1,2) by (intro dir_path.root) (auto simp: dir_rep_def)
next
  case (below n es p ps name k path)
  then show ?case using assms by (intro dir_path.below [where es = es and ps = ps and p = p]) (auto simp: dir_rep_def)
qed

lemma dir_find_in: "dir_find es nr = Some e \<Longrightarrow> e \<in> set es \<and> fst e = nr"
  by (induction es) (auto split: if_splits)

lemma pwd_path:
  "dir_path w n k path \<Longrightarrow> fs_wf w \<Longrightarrow> cached w n a i \<Longrightarrow> k < fuel \<Longrightarrow>
    \<exists>w'. testfs_pwd fuel ample w a = Inr (if k = 0 then 1 else 0, path, w') \<and> quiet w w'"
proof (induction k arbitrary: w n a i path fuel)
  case 0
  then obtain es where es: "dir_rep w n es" "dir_lookup es dotdot = Some (int n)" "path = [47]" by (auto elim: dir_path.cases)
  obtain f where f: "fuel = Suc f" using 0(4) by (cases fuel) auto
  show ?case
    using f es cached_size(3-5) [OF 0(2,3)] name_to_nr [OF 0(2,3) es(1), of dotdot] quiet_refl [OF 0(2)] by (simp add: Let_def)
next
  case (Suc k)
  from Suc.prems(1) obtain es p ps name path' where P: "dir_rep w n es" "dir_lookup es dotdot = Some (int p)" "p \<noteq> n"
    "p \<in> used_inodes (sbk w)" "clean w p" "dir_rep w p ps" "dir_find ps (int n) = Some (int n, name)" "dir_path w p k path'"
    "path = path' @ (if k = 0 then [] else [47]) @ name"
    by (auto elim: dir_path.cases)
  obtain f where f: "fuel = Suc f" "k < f" using Suc.prems(4) by (cases fuel) auto
  obtain b j w1 where g: "testfs_get_inode w (int p) = Inr (b, w1)" "fs_wf w1" "cached w1 p b j" "sbk w1 = sbk w"
    "dinode_at w1 = dinode_at w" "contents w1 = contents w" "\<And>m. clean w m \<Longrightarrow> clean w1 m" "\<And>m es. dir_rep w1 m es \<longleftrightarrow> dir_rep w m es"
    "\<And>w2. quiet w1 w2 \<Longrightarrow> \<exists>w3. testfs_put_inode b w2 = Inr w3 \<and> quiet w w3"
    by (rule visit [OF Suc.prems(2) P(4,5)]) blast
  obtain w2 where r: "testfs_pwd f ample w1 b = Inr (if k = 0 then 1 else 0, path', w2)" "quiet w1 w2"
    using Suc.IH [OF dir_path_same [OF g(5,6,4,7) P(8)] g(2,3) f(2)] by blast
  obtain w3 where p: "testfs_put_inode b w2 = Inr w3" "quiet w w3" using g(9) [OF r(2)] by blast
  have e: "entry_ok (int n, name)" using dir_rep_name [OF P(6)] dir_find_in [OF P(7)] by blast
  have nm: "d_name (dirent_of (int n, name)) = name @ [0]" by (simp add: dirent_of_def)
  have fd: "testfs_find_dirent ample w1 b (int n) = Inr (Some (dirent_of (int n, name)))"
    using find_dirent [OF g(2,3), of ps "int n"] P(6,7) g(8) by simp
  have "testfs_pwd (Suc f) ample w a = Inr (0, path, w3)"
    using cached_size(3-5) [OF Suc.prems(2,3)] name_to_nr [OF Suc.prems(2,3) P(1), of dotdot] P(2,3,9) g(1) fd r(1) p(1)
      c_str_entry [OF e] nm
    by (simp add: Let_def)
  then show ?case using f(1) p(2) by auto
qed

text \<open>C16.
  \<open>pwd\<close> in a directory that is \<open>k\<close> steps below the root ends, with more fuel than that, prints the path of the directory from
  the root, and changes nothing.\<close>

theorem cmd_pwd_spec:
  assumes "session w c n es" "nargs c = 1" "dir_path w n k path" "k < fuel"
  shows "\<exists>w'. cmd_pwd fuel ample w c = Inr (0, path @ [10], w', c) \<and> quiet w w' \<and> session w' c n es"
proof (rule sessionE [OF assms(1)])
  fix i assume S: "fs_wf w" "cached w n (cur_dir c) i"
  obtain w' where "testfs_pwd fuel ample w (cur_dir c) = Inr (if k = 0 then 1 else 0, path, w')" "quiet w w'"
    using pwd_path [OF assms(3) S assms(4)] by blast
  then show ?thesis using assms(2) quiet_session [OF _ assms(1)] by (auto simp: cmd_pwd_def)
qed

theorem cmd_pwd_spec_witness:
  "\<exists>w a w'. cmd_pwd 1 ample w \<lparr>nargs = 1, cmd = [[]], cur_dir = a\<rparr> =
     Inr (0, [47, 10], w', \<lparr>nargs = 1, cmd = [[]], cur_dir = a\<rparr>)"
proof -
  obtain w a where r: "session w \<lparr>nargs = 1, cmd = [[]], cur_dir = a\<rparr> 0 [(0, dot), (0, dotdot)]"
    by (rule root_session_at [of 1 "[[]]"])
  have "dir_path w 0 0 [47]" by (rule dir_path.root [of _ _ "[(0, dot), (0, dotdot)]"]) (use r in \<open>simp_all add: session_def\<close>)
  then show ?thesis using cmd_pwd_spec [OF r, of 0 "[47]" 1] by fastforce
qed

end
