(* ===== verification/File_Spec.thy ===== *)
theory File_Spec
  imports Walk_Spec
begin

unbundle bit_operations_syntax

text \<open>
  The read and write commands of fs/file.c in a session: what they do to the file a name stands for, from the
  words of the command line on, and that writing and reading back agree. Ranges are within the direct and indirect blocks, where a
  hole reads as zero.
\<close>

section \<open>Reading bytes of a file\<close>

lemma file_read:
  assumes w: "fs_wf w" "cached w n a i" and k: "start + k \<le> fsize (dinode_at w n)" "start + k \<le> MAX_DIR" "k \<le> length buf"
  shows "testfs_read_data i (sbk w) buf (int start) k st = Inr (int k, blit buf 0 (map (contents w n) [start..<start + k]))"
proof -
  have D: "dinode_at w n = in_d i" by (rule dinode_at_cached [OF fs_wfD(1) [OF w(1)] w(2)])
  have fw: "file_wf (sbk w) (in_d i)" using fs_wfD(4) [OF w(1) cached_used [OF w]] D by simp
  have nh: "\<not> dhole (sbk w) (in_d i) L" if "L \<in> blocks_of start k" for L
    using blocks_of_le [OF that] k(2) by (simp add: dhole_def)
  have "testfs_read_data i (sbk w) buf (int start) k st = Inr (int k, blit buf 0 (fbytes (sbk w) (in_d i) start k))"
    by (rule testfs_read_data_file [OF fs_wfD(2) [OF w(1)] fw]) (use k D nh in auto)
  then show ?thesis using D by (simp add: fbytes_def contents_def)
qed

lemma c_str_takeWhile: "0 \<in> set b \<Longrightarrow> c_str b = Inr (takeWhile (\<lambda>x. x \<noteq> 0) b)"
  by (induction b) auto

lemma takeWhile_nul: "takeWhile (\<lambda>x. x \<noteq> 0) (b @ [0 :: u8]) = takeWhile (\<lambda>x. x \<noteq> 0) b"
  by (induction b) auto

section \<open>The commands\<close>

lemma get_file:
  assumes s: "session w c n es" and nm: "c_string name" "dir_lookup es name = Some (int k)"
    and k: "k \<in> used_inodes (sbk w)" "clean w k" "\<not> is_directory w k"
  obtains b j w1 where "testfs_get_file_inode ample w (cur_dir c) name = Inr (0, b, w1)" "fs_wf w1" "cached w1 k b j" "clean w1 k" "sbk w1 = sbk w"
    "dinode_at w1 = dinode_at w" "contents w1 = contents w" "\<And>w2. quiet w1 w2 \<Longrightarrow> \<exists>w3. testfs_put_inode b w2 = Inr w3 \<and> quiet w w3"
    "refs w1 = (refs w)(k := refs w k + 1)" "others_same k w w1"
proof (rule sessionE [OF s])
  fix i assume S: "fs_wf w"
  obtain b j w1 where g: "testfs_get_inode w (int k) = Inr (b, w1)" "fs_wf w1" "cached w1 k b j" "sbk w1 = sbk w"
    "dinode_at w1 = dinode_at w" "contents w1 = contents w" "\<And>m. clean w m \<Longrightarrow> clean w1 m"
    "\<And>w2. quiet w1 w2 \<Longrightarrow> \<exists>w3. testfs_put_inode b w2 = Inr w3 \<and> quiet w w3" "refs w1 = (refs w)(k := refs w k + 1)"
    by (rule visit [OF S k(1,2)]) blast
  obtain b' w1' where g': "testfs_get_inode w (int k) = Inr (b', w1')" "others_same k w w1'"
    by (rule get_clean [OF S k(1,2)]) blast
  have "testfs_get_file_inode ample w (cur_dir c) name = Inr (0, b, w1)"
    using session_name [OF s nm(1)] nm(2) g(1,5) k(3) cached_size(2,4) [OF g(2,3)]
    by (simp add: testfs_get_file_inode_def is_directory_def)
  then show ?thesis using g g' k(2) by (intro that) auto
qed

lemma read_session:
  assumes "session w c n es" "nargs c = 4" "c_string (cmd c ! 1)" "dir_lookup es (cmd c ! 1) = Some (int k)"
    and "k \<in> used_inodes (sbk w)" "clean w k" "\<not> is_directory w k"
    and "cmd c ! 2 = dec_nat off" "cmd c ! 3 = dec_nat sz" "off + sz \<le> MAX_DIR"
  shows "\<exists>w'. cmd_read ample w c =
      (if fsize (dinode_at w k) < off + sz then Inr (- EINVAL, [], w', c)
       else Inr (int sz, takeWhile (\<lambda>x. x \<noteq> 0) (map (contents w k) [off..<off + sz]) @ [10], w', c)) \<and>
    quiet w w' \<and> session w' c n es"
proof -
  obtain b j w1 where g: "testfs_get_file_inode ample w (cur_dir c) (cmd c ! 1) = Inr (0, b, w1)" "fs_wf w1" "cached w1 k b j"
    "sbk w1 = sbk w" "dinode_at w1 = dinode_at w" "contents w1 = contents w"
    "\<And>w2. quiet w1 w2 \<Longrightarrow> \<exists>w3. testfs_put_inode b w2 = Inr w3 \<and> quiet w w3"
    by (rule get_file [OF assms(1,3-7)]) blast
  obtain w3 where p: "testfs_put_inode b w1 = Inr w3" "quiet w w3" using g(7) [OF quiet_refl [OF g(2)]] by blast
  have num: "str_to_offset (cmd c ! 2) = (0, Some (int off))" "str_to_size (cmd c ! 3) = (0, Some sz)"
    using strto_dec [of off] strto_dec [of sz] assms(8-10) by simp_all
  note C = cached_size [OF g(2,3)]
  let ?bs = "map (contents w k) [off..<off + sz]"
  have cl: "c_long (int off + c_long (int sz)) = int (off + sz)" "c_ulong (int sz + 1) = Suc sz"
    using assms(10) by (simp_all add: c_long_id c_ulong_id nat_add_distrib)
  have "read_file ample w1 b (int off) sz =
      (if fsize (dinode_at w k) < off + sz then Inr (- EINVAL, []) else Inr (int sz, takeWhile (\<lambda>x. x \<noteq> 0) ?bs @ [10]))"
  proof (cases "fsize (dinode_at w k) < off + sz")
    case True
    then show ?thesis using C(1,4) g(5) cl by (simp add: read_file_def Let_def)
  next
    case False
    let ?buf = "blit (uninit w1 (Suc sz)) 0 ?bs"
    have "testfs_read_data j (sbk w1) (uninit w1 (Suc sz)) (int off) sz (uninit w1 BLOCK_SIZE) = Inr (int sz, ?buf)"
      using file_read [OF g(2,3), of off sz "uninit w1 (Suc sz)" "uninit w1 BLOCK_SIZE"] False g(5,6) assms(10) by simp
    moreover have "memcpy ?buf (int sz) [0] = Inr (?bs @ [0])" by (simp add: memcpy_def blit_def)
    moreover have "takeWhile (\<lambda>x. x \<noteq> 0) (?bs @ [0]) = takeWhile (\<lambda>x. x \<noteq> 0) ?bs"
      by (rule takeWhile_nul)
    ultimately show ?thesis using False C(1,4) g(5) cl c_str_takeWhile [of "?bs @ [0]"] by (simp add: read_file_def Let_def)
  qed
  then have "cmd_read ample w c =
      (if fsize (dinode_at w k) < off + sz then Inr (- EINVAL, [], w3, c)
       else Inr (int sz, takeWhile (\<lambda>x. x \<noteq> 0) ?bs @ [10], w3, c))"
    using assms(2) num g(1) p(1) by (simp add: cmd_read_def)
  then show ?thesis using p(2) quiet_session [OF p(2) assms(1)] by blast
qed

text \<open>\<open>read\<close> with decimal offset and size: a range that is not within the file gives -EINVAL; else the command returns the size and
  prints the bytes of the range up to the first NUL. Nothing changes.\<close>

theorem cmd_read_spec:
  assumes "session w c n es" "nargs c = 4" "c_string (cmd c ! 1)" "dir_lookup es (cmd c ! 1) = Some (int k)"
    and "k \<in> used_inodes (sbk w)" "clean w k" "\<not> is_directory w k"
    and "cmd c ! 2 = dec_nat off" "cmd c ! 3 = dec_nat sz" "off + sz \<le> MAX_DIR"
  shows "\<exists>w'. cmd_read ample w c =
      (if fsize (dinode_at w k) < off + sz then Inr (- EINVAL, [], w', c)
       else Inr (int sz, takeWhile (\<lambda>x. x \<noteq> 0) (map (contents w k) [off..<off + sz]) @ [10], w', c)) \<and>
    quiet w w' \<and> session w' c n es"
  by (rule read_session [OF assms])

lemma write_session:
  assumes "session w c n es" "nargs c = 4" "c_string (cmd c ! 1)" "dir_lookup es (cmd c ! 1) = Some (int k)"
    and "k \<in> used_inodes (sbk w)" "clean w k" "\<not> is_directory w k" "k \<noteq> n"
    and "cmd c ! 2 = dec_nat off" "0 < length (cmd c ! 3)" "length (cmd c ! 3) + BLOCK_SIZE \<le> 2 ^ 31"
    and "off + length (cmd c ! 3) \<le> MAX_FILE_BYTES" "room (sbk w) (write_room off (length (cmd c ! 3)))"
  obtains w' where "cmd_write ample w c = Inr (int (length (cmd c ! 3)), [], w', c)" "session w' c n es"
    "clean w' k" "k \<in> used_inodes (sbk w')" "\<not> is_directory w' k" "same_out {k} w w'" "refs w' k = refs w k"
    "fsize (dinode_at w' k) = max (fsize (dinode_at w k)) (off + length (cmd c ! 3))"
    "\<And>x. off \<le> x \<Longrightarrow> x < off + length (cmd c ! 3) \<Longrightarrow> contents w' k x = cmd c ! 3 ! (x - off)"
    "\<And>x. x < MAX_FILE_BYTES \<Longrightarrow> \<not> (off \<le> x \<and> x < off + length (cmd c ! 3)) \<Longrightarrow> x div BLOCK_SIZE < 2058 \<Longrightarrow>
      contents w' k x = contents w k x"
proof (rule sessionE [OF assms(1)])
  fix i assume S: "fs_wf w" "cached w n (cur_dir c) i" "clean w n" "dir_rep w n es" "dir_ok es" "n < NR_INODES"
  let ?d = "cmd c ! 3"
  have kN: "k < NR_INODES" by (rule fs_wfD(3) [OF S(1) assms(5)])
  obtain b j w1 where g: "testfs_get_file_inode ample w (cur_dir c) (cmd c ! 1) = Inr (0, b, w1)" "fs_wf w1" "cached w1 k b j"
    "clean w1 k" "sbk w1 = sbk w" "dinode_at w1 = dinode_at w" "contents w1 = contents w"
    "refs w1 = (refs w)(k := refs w k + 1)" "others_same k w w1"
    by (rule get_file [OF assms(1,3-7)]) blast
  have rm: "room (sbk w1) (write_room off (length ?d))" using assms(13) g(5) by simp
  obtain j2 w2 where W: "on_inode b (\<lambda>i s. testfs_write_data i s (?d @ [0]) (int off) (length ?d) (uninit w1 BLOCK_SIZE)) w1 =
      Inr (int (length ?d), w2)" "fs_wf w2" "cached w2 k b j2" "is_dirty j2" "others_same k w1 w2" "refs w2 k = refs w1 k"
    "fsize (dinode_at w2 k) = max (fsize (dinode_at w1 k)) (off + length ?d)" "i_type (dinode_at w2 k) = i_type (dinode_at w1 k)"
    "\<And>x. off \<le> x \<Longrightarrow> x < off + length ?d \<Longrightarrow> contents w2 k x = (?d @ [0]) ! (x - off)"
    "\<And>x. x < MAX_FILE_BYTES \<Longrightarrow> \<not> (off \<le> x \<and> x < off + length ?d) \<Longrightarrow> x div BLOCK_SIZE < 2058 \<Longrightarrow>
      contents w2 k x = contents w1 k x"
    "used_inodes (sbk w2) = used_inodes (sbk w1)"
    by (rule fs_write_data [OF g(2,3) assms(10) _ assms(11,12) rm, of "?d @ [0]" "uninit w1 BLOCK_SIZE"]) (simp, blast)
  obtain w3 where Y: "testfs_sync_inode_at b w2 = Inr w3" "fs_wf w3" "others_same k w2 w3" "cached w3 k b (clear_dirty j2)"
    "dinode_at w3 k = dinode_at w2 k" "refs w3 k = refs w2 k" "used_inodes (sbk w3) = used_inodes (sbk w2)"
    "\<And>x. x < MAX_FILE_BYTES \<Longrightarrow> contents w3 k x = contents w2 k x"
    by (rule fs_sync_inode [OF W(2,3)]) (use W(4) in simp)
  have nd: "\<not> is_dirty (clear_dirty j2)" by simp
  obtain w4 where p: "testfs_put_inode b w3 = Inr w4" "fs_wf w4" "sbk w4 = sbk w3" "others_same k w3 w4"
    "dinode_at w4 = dinode_at w3" "refs w4 = (refs w3)(k := refs w3 k - 1)" "contents w4 = contents w3" "clean w4 k"
    by (rule put_clean [OF Y(2,4) nd]) blast
  have os: "others_same k w w4"
    by (rule others_same_trans [OF g(9) others_same_trans [OF W(5) others_same_trans [OF Y(3) p(4)]]])
  have so: "same_out {k} w w4" by (rule same_outI [OF os]) simp
  have c4: "\<exists>i. cached w4 n (cur_dir c) i" using os S(2,6) assms(8) by (auto simp: others_same_def)
  have ses: "session w4 c n es"
    using p(2) c4 same_out_clean [OF so S(6) _ S(3)] same_out_dir [OF so S(6) _ S(4)] S(5) assms(8) by (simp add: session_def)
  have num: "str_to_offset (cmd c ! 2) = (0, Some (int off))"
    using strto_dec(1) [of off] assms(9,12) by simp
  have r: "cmd_write ample w c = Inr (int (length ?d), [], w4, c)"
    using assms(2) num g(1) W(1) Y(1) p(1) by (simp add: cmd_write_def Let_def)
  show ?thesis
  proof (rule that [OF r ses p(8) _ _ so])
    show "k \<in> used_inodes (sbk w4)" using p(3) Y(7) W(11) g(5) assms(5) by simp
    show "\<not> is_directory w4 k" using p(5) Y(5) W(8) g(6) assms(7) by (simp add: is_directory_def)
    show "refs w4 k = refs w k" using p(6) Y(6) W(6) g(8) by simp
    show "fsize (dinode_at w4 k) = max (fsize (dinode_at w k)) (off + length ?d)" using p(5) Y(5) W(7) g(6) by simp
    show "contents w4 k x = ?d ! (x - off)" if "off \<le> x" "x < off + length ?d" for x
    proof -
      have "x - off < length ?d" "x < MAX_FILE_BYTES" using that assms(12) by linarith+
      then show ?thesis using W(9) [OF that] Y(8) [of x] p(7) by (simp add: nth_append)
    qed
    show "contents w4 k x = contents w k x" if "x < MAX_FILE_BYTES" "\<not> (off \<le> x \<and> x < off + length ?d)" "x div BLOCK_SIZE < 2058" for x
      using W(10) [OF that] Y(8) [OF that(1)] p(7) g(7) by simp
  qed
qed

text \<open>C13.
  What \<open>write\<close> writes to a file of the directory, \<open>read\<close> with the same offset and the length prints, followed by a newline;
  no other file or directory changes, and the session goes on.\<close>

theorem cmd_write_read_roundtrip:
  assumes "session w c n es" "nargs c = 4" "c_string (cmd c ! 1)" "dir_lookup es (cmd c ! 1) = Some (int k)"
    and "k \<in> used_inodes (sbk w)" "clean w k" "\<not> is_directory w k" "k \<noteq> n"
    and "cmd c ! 2 = dec_nat off" "cmd c ! 3 = data" "data \<noteq> []" "c_string data"
    and "off + length data \<le> MAX_DIR" "room (sbk w) (write_room off (length data))"
    and "c' = c\<lparr>cmd := [cmd c ! 0, cmd c ! 1, cmd c ! 2, dec_nat (length data)]\<rparr>"
  shows "\<exists>w1 w2. cmd_write ample w c = Inr (int (length data), [], w1, c) \<and> session w1 c n es \<and> same_out {k} w w1 \<and>
    cmd_read ample w1 c' = Inr (int (length data), data @ [10], w2, c') \<and> quiet w1 w2"
proof -
  obtain w1 where W: "cmd_write ample w c = Inr (int (length data), [], w1, c)" "session w1 c n es"
    "clean w1 k" "k \<in> used_inodes (sbk w1)" "\<not> is_directory w1 k" "same_out {k} w w1"
    "fsize (dinode_at w1 k) = max (fsize (dinode_at w k)) (off + length data)"
    "\<And>x. off \<le> x \<Longrightarrow> x < off + length data \<Longrightarrow> contents w1 k x = data ! (x - off)"
    by (rule write_session [OF assms(1-9), of thesis]) (use assms(10-14) in auto)
  have s': "session w1 c' n es" using W(2) assms(15) by (simp add: session_def)
  have bs: "map (contents w1 k) [off..<off + length data] = data"
    by (rule nth_equalityI) (use W(8) in auto)
  have "takeWhile (\<lambda>x. x \<noteq> 0) data = data" using assms(12) by (auto simp: c_string_def takeWhile_eq_all_conv)
  then have "\<exists>w2. cmd_read ample w1 c' = Inr (int (length data), data @ [10], w2, c') \<and> quiet w1 w2"
    using read_session [OF s', of k off "length data"] W(3-5,7) assms bs by auto
  then show ?thesis using W by blast
qed

section \<open>A session with a file\<close>

lemma file_session_at:
  obtains w a k' es where "\<And>j xs. session w \<lparr>nargs = j, cmd = xs, cur_dir = a\<rparr> 0 es" "dir_lookup es [102] = Some (int k')"
    "k' \<in> used_inodes (sbk w)" "clean w k'" "\<not> is_directory w k'" "k' \<noteq> 0" "room (sbk w) 60" "fsize (dinode_at w k') = 0"
    "refs w k' = 0"
proof (rule root_session_at [of 2 "[]"])
  fix w a
  let ?es = "[(0, dot), (0, dotdot)]" and ?c = "\<lparr>nargs = 2, cmd = [], cur_dir = a\<rparr>"
  assume r: "session w ?c 0 ?es" "used_inodes (sbk w) = {0}" "name_fits w ?es [102]" "card (used_blocks (sbk w)) \<le> 12"
    "max_fs_blocks (sb_d (sbk w)) = 99"
  have rm: "room (sbk w) (12 + ent_room [102] + 60)" using r(4,5) by (simp add: room_def ent_room_def)
  show ?thesis
  proof (cases rule: create_session [OF r(1,3), of I_FILE])
    case 1
    then show ?thesis by (simp add: dot_def dotdot_def)
  next
    case (2 w')
    have "1 \<in> {..<NR_INODES}" by simp
    then have "1 \<in> {0 :: nat}" using 2(6) r(2) by blast
    then show ?thesis by simp
  next
    case (3 k w')
    let ?es' = "dir_add ?es [102] (int k)"
    have s: "session w' \<lparr>nargs = j, cmd = xs, cur_dir = a\<rparr> 0 ?es'" for j xs using 3(2) by (simp add: session_def)
    have d: "dinode_at w' k = empty_dinode I_FILE" using 3(9) by (simp add: new_child_def)
    have nd: "\<not> is_directory w' k" unfolding is_directory_def d by (simp add: empty_dinode_def)
    show ?thesis
      by (rule that [OF s, of k]) (use 3 d nd r(2) 3(13) [OF rm] in \<open>auto simp del: dir_lookup.simps\<close>)
  qed
qed

theorem cmd_read_spec_witness:
  "\<exists>w a w'. cmd_read ample w \<lparr>nargs = 4, cmd = [[], [102], dec_nat 0, dec_nat 7], cur_dir = a\<rparr> =
     Inr (- EINVAL, [], w', \<lparr>nargs = 4, cmd = [[], [102], dec_nat 0, dec_nat 7], cur_dir = a\<rparr>)"
proof (rule file_session_at)
  fix w a k es
  assume r: "\<And>j xs. session w \<lparr>nargs = j, cmd = xs, cur_dir = a\<rparr> 0 es" "dir_lookup es [102] = Some (int k)"
    "k \<in> used_inodes (sbk w)" "clean w k" "\<not> is_directory w k" "fsize (dinode_at w k) = 0"
  show ?thesis
    using cmd_read_spec [OF r(1) [of 4 "[[], [102], dec_nat 0, dec_nat 7]"], of k 0 7] r(2-6)
    by (fastforce simp: c_string_def)
qed

theorem cmd_write_read_roundtrip_witness:
  "\<exists>w a w1 w2. cmd_write ample w \<lparr>nargs = 4, cmd = [[], [102], dec_nat 3, [72, 105]], cur_dir = a\<rparr> =
      Inr (2, [], w1, \<lparr>nargs = 4, cmd = [[], [102], dec_nat 3, [72, 105]], cur_dir = a\<rparr>) \<and>
    cmd_read ample w1 \<lparr>nargs = 4, cmd = [[], [102], dec_nat 3, dec_nat 2], cur_dir = a\<rparr> =
      Inr (2, [72, 105, 10], w2, \<lparr>nargs = 4, cmd = [[], [102], dec_nat 3, dec_nat 2], cur_dir = a\<rparr>)"
proof (rule file_session_at)
  fix w a k es
  let ?c = "\<lparr>nargs = 4, cmd = [[], [102], dec_nat 3, [72, 105]], cur_dir = a\<rparr>"
  let ?c' = "\<lparr>nargs = 4, cmd = [[], [102], dec_nat 3, dec_nat 2], cur_dir = a\<rparr>"
  assume r: "\<And>j xs. session w \<lparr>nargs = j, cmd = xs, cur_dir = a\<rparr> 0 es" "dir_lookup es [102] = Some (int k)"
    "k \<in> used_inodes (sbk w)" "clean w k" "\<not> is_directory w k" "k \<noteq> 0" "room (sbk w) 60"
  have "room (sbk w) (write_room 3 (length [72, 105 :: u8]))" using r(7) by (simp add: room_def write_room_def)
  then have "\<exists>w1 w2. cmd_write ample w ?c = Inr (int (length [72, 105 :: u8]), [], w1, ?c) \<and> session w1 ?c 0 es \<and> same_out {k} w w1 \<and>
      cmd_read ample w1 ?c' = Inr (int (length [72, 105 :: u8]), [72, 105] @ [10], w2, ?c') \<and> quiet w1 w2"
    by (intro cmd_write_read_roundtrip [OF r(1), where k = k and off = 3]) (use r(2-6) in \<open>auto simp: c_string_def numeral_2_eq_2 [symmetric]\<close>)
  then show ?thesis by auto
qed

section \<open>Two errors\<close>

lemma inode_hash_destroy_busy:
  assumes "cache_wf w" "cached w n a i" shows "inode_hash_destroy w = Inl Assert_failed"
proof -
  obtain t where t: "buckets w t" and T: "inode_hash_table w = T_live" using assms(1) by (auto simp: cache_wf_def)
  have i: "inodes w a = Some i" using assms(2) by (simp add: cached_def)
  let ?k = "inode_hashfn (i_nr i)"
  have "a \<in> set (t ?k)" by (rule buckets_mem [OF t i])
  then have "\<not> hlist_empty (hnodes w) ?k" "?k < inode_hash_size"
    using t hlist_empty_hrep [of "hnodes w" "{..<inode_hash_size}" t ?k] inode_hashfn_less [of "i_nr i"]
    by (auto simp: buckets_def)
  moreover from this have "?k \<in> set [0..<inode_hash_size]" by simp
  ultimately have "\<not> (\<forall>k\<in>set [0..<inode_hash_size]. hlist_empty (hnodes w) k)" by blast
  then show ?thesis using T by (simp add: inode_hash_destroy_def use_table_def c_assert_def del: set_upt)
qed

text \<open>\<open>ls\<close> and \<open>lsr\<close> of a file answer -ENOTDIR without giving the inode back: it has one use more than before, so the
  program's assertion that the table of inodes is empty fails when the file system is closed.\<close>

theorem cmd_ls_internal_leak:
  assumes "session w c n es" "nargs c = 2" "c_string (cmd c ! 1)" "dir_lookup es (cmd c ! 1) = Some (int k)"
    and "k \<in> used_inodes (sbk w)" "clean w k" "\<not> is_directory w k"
  shows "\<exists>w'. cmd_ls_internal fuel ample w c recursive = Inr (- ENOTDIR, [], w', c) \<and> refs w' k = refs w k + 1 \<and>
    inode_hash_destroy w' = Inl Assert_failed"
proof (rule sessionE [OF assms(1)])
  fix i assume S: "fs_wf w" "cached w n (cur_dir c) i"
  obtain b j w1 where g: "testfs_get_inode w (int k) = Inr (b, w1)" "fs_wf w1" "cached w1 k b j"
    "dinode_at w1 = dinode_at w" "refs w1 = (refs w)(k := refs w k + 1)"
    by (rule visit [OF S(1) assms(5,6)]) blast
  have "cmd_ls_internal fuel ample w c recursive = Inr (- ENOTDIR, [], w1, c)"
    using session_name [OF assms(1,3)] assms(2,4,7) g(1,4) cached_size(2,4) [OF g(2,3)] cached_size(3) [OF S]
    by (simp add: cmd_ls_internal_def is_directory_def)
  moreover have "inode_hash_destroy w1 = Inl Assert_failed"
    by (rule inode_hash_destroy_busy [OF fs_wfD(1) [OF g(2)] g(3)])
  ultimately show ?thesis using g(5) by simp
qed

theorem cmd_ls_internal_leak_witness:
  "\<exists>w a w'. cmd_ls_internal 1 ample w \<lparr>nargs = 2, cmd = [[], [102]], cur_dir = a\<rparr> False =
     Inr (- ENOTDIR, [], w', \<lparr>nargs = 2, cmd = [[], [102]], cur_dir = a\<rparr>) \<and> inode_hash_destroy w' = Inl Assert_failed"
proof (rule file_session_at)
  fix w a k es
  assume r: "\<And>j xs. session w \<lparr>nargs = j, cmd = xs, cur_dir = a\<rparr> 0 es" "dir_lookup es [102] = Some (int k)"
    "k \<in> used_inodes (sbk w)" "clean w k" "\<not> is_directory w k"
  show ?thesis
    using cmd_ls_internal_leak [OF r(1) [of 2 "[[], [102]]"], of k 1 False] r(2-5) by (fastforce simp: c_string_def)
qed

text \<open>C20.
  \<open>read\<close> of a file at offset 1 with the size 18446744073709551615, the largest \<open>size_t\<close>: the sum of offset and size wraps to 0
  and passes the check of the range, \<open>malloc(size + 1)\<close> allocates nothing and the copy runs over the end of the block and of
  the buffer.\<close>

theorem cmd_read_size_overflow:
  assumes "session w c n es" "nargs c = 4" "c_string (cmd c ! 1)" "dir_lookup es (cmd c ! 1) = Some (int k)"
    and "k \<in> used_inodes (sbk w)" "clean w k" "\<not> is_directory w k"
    and "cmd c ! 2 = dec_nat 1" "cmd c ! 3 = dec_nat 18446744073709551615"
  shows "cmd_read ample w c = Inl Bad_access"
proof -
  obtain b j w1 where g: "testfs_get_file_inode ample w (cur_dir c) (cmd c ! 1) = Inr (0, b, w1)" "fs_wf w1" "cached w1 k b j"
    by (rule get_file [OF assms(1,3-7)]) blast
  note C = cached_size [OF g(2,3)]
  have D: "dinode_at w1 k = in_d j" by (rule dinode_at_cached [OF fs_wfD(1) [OF g(2)] g(3)])
  have fw: "file_wf (sbk w1) (in_d j)" using fs_wfD(4) [OF g(2) cached_used [OF g(2,3)]] D by simp
  obtain r where r: "0 \<le> r" "testfs_read_block j (sbk w1) (int 0) (uninit w1 BLOCK_SIZE) = Inr (r, fblock (sbk w1) (in_d j) 0)"
    by (rule read_leaf_eq [OF fs_wfD(2) [OF g(2)] file_wfD(1) [OF fw], of 0 "uninit w1 BLOCK_SIZE"]) (simp_all add: dhole_def)
  have len: "length (fblock (sbk w1) (in_d j) 0) = BLOCK_SIZE"
    by (rule fblock_len [OF file_wfD(1) [OF fw]]) simp
  have cl: "c_long (1 + c_long 18446744073709551615) = 0" "c_ulong (int 18446744073709551615 + 1) = 0"
    "c_ulong 18446744073709551616 = 0"
    by (simp_all add: c_long_def c_ulong_def signed_take_bit_int_eq_self signed_take_bit_eq_take_bit_minus take_bit_eq_mod)
  have num: "str_to_offset (cmd c ! 2) = (0, Some 1)" "str_to_size (cmd c ! 3) = (0, Some 18446744073709551615)"
    using strto_dec(1) [of 1] strto_dec(2) [of 18446744073709551615] assms(8,9) by simp_all
  have sz: "0 \<le> sint (i_size (in_d j))" using file_wfD(2) [OF fw] by simp
  have ix: "(1 :: int) sdiv 8192 = 0" "(1 :: int) smod 8192 = 1" by (simp_all add: sdiv_nonneg smod_nonneg)
  have "testfs_read_data j (sbk w1) (uninit w1 0) 1 18446744073709551615 (uninit w1 BLOCK_SIZE) = Inl Bad_access"
    using sz r len by (simp add: testfs_read_data_def Let_def cl ix mem_slice_def c_int_id)
  then have "read_file ample w1 b 1 18446744073709551615 = Inl Bad_access"
    using C(1,4) by (simp add: read_file_def Let_def cl cl [simplified])
  then show ?thesis using assms(2) num g(1) by (simp add: cmd_read_def)
qed

theorem cmd_read_size_overflow_witness:
  "\<exists>w a. cmd_read ample w \<lparr>nargs = 4, cmd = [[], [102], dec_nat 1, dec_nat 18446744073709551615], cur_dir = a\<rparr> = Inl Bad_access"
proof (rule file_session_at)
  fix w a k es
  assume r: "\<And>j xs. session w \<lparr>nargs = j, cmd = xs, cur_dir = a\<rparr> 0 es" "dir_lookup es [102] = Some (int k)"
    "k \<in> used_inodes (sbk w)" "clean w k" "\<not> is_directory w k"
  show ?thesis
    using cmd_read_size_overflow [OF r(1) [of 4 "[[], [102], dec_nat 1, dec_nat 18446744073709551615]"], of k] r(2-5)
    by (auto simp: c_string_def)
qed

end
