(* ===== verification/Mount_Spec.thy ===== *)
theory Mount_Spec
  imports File_Spec
begin

text \<open>
  The life of a file system: fs/mktestfs.c makes one, and closing it (fs/testfs.c at its end) and mounting it again gives back every inode and the
  contents of every file and directory.
\<close>

section \<open>Unmounting and mounting\<close>

text \<open>No inode is in memory.\<close>

definition released :: "fs \<Rightarrow> bool" where
  "released w \<longleftrightarrow> (\<forall>a. inodes w a = None)"

lemma released_cached: "released w \<Longrightarrow> \<not> cached w n a i" "released w \<Longrightarrow> dinode_at w n = disk_inode (sbk w) n" "released w \<Longrightarrow> refs w n = 0"
  by (simp_all add: released_def cached_def dinode_at_def refs_def)

lemma released_refs:
  assumes w: "fs_wf w" and r: "\<forall>n\<in>used_inodes (sbk w). refs w n = 0"
  shows "released w"
  unfolding released_def
proof (intro allI, rule ccontr)
  fix a assume "inodes w a \<noteq> None"
  then obtain i where i: "inodes w a = Some i" by blast
  note C = fs_wfD(1) [OF w]
  obtain n where n: "cached w n a i" using cached_nr [OF C i] by metis
  then have "refs w n = i_count i" by (rule refs_cached [OF C])
  moreover have "n \<in> used_inodes (sbk w)" by (rule cached_used [OF w n])
  moreover have "0 < i_count i" using cache_wf_structure [OF C i] by (simp add: structure_wf_def)
  ultimately show False using r by simp
qed

lemma destroy_released:
  assumes "fs_wf w" "released w"
  shows "inode_hash_destroy w = Inr (w\<lparr>inode_hash_table := T_freed\<rparr>)"
proof -
  note C = fs_wfD(1) [OF assms(1)]
  obtain t where t: "buckets w t" using C by (auto simp: cache_wf_def)
  have "t k = []" if "k < inode_hash_size" for k
    using buckets_inode [OF t that] assms(2) by (cases "t k") (auto simp: released_def)
  then have "hlist_empty (hnodes w) k" if "k < inode_hash_size" for k
    using t that by (simp add: buckets_def hrep_def hlist_empty_def)
  then show ?thesis using cache_wfD(1) [OF C] by (simp add: inode_hash_destroy_def use_table_def c_assert_def)
qed

text \<open>Everything that a file system stores.\<close>

definition same_store :: "fs \<Rightarrow> fs \<Rightarrow> bool" where
  "same_store w w' \<longleftrightarrow> sb_d (sbk w') = sb_d (sbk w) \<and> used_inodes (sbk w') = used_inodes (sbk w) \<and> used_blocks (sbk w') = used_blocks (sbk w) \<and>
     (\<forall>n\<in>used_inodes (sbk w). dinode_at w' n = dinode_at w n \<and> (\<forall>off<MAX_FILE_BYTES. contents w' n off = contents w n off))"

lemma same_store_dir: "same_store w w' \<Longrightarrow> n \<in> used_inodes (sbk w) \<Longrightarrow> dir_rep w n es \<Longrightarrow> dir_rep w' n es"
  by (rule dir_rep_cong) (auto simp: same_store_def)

lemma unmount_mount:
  assumes w: "fs_wf w" and r: "released w"
  obtains f t where "testfs_unmount w = Inr f" "\<forall>e j. testfs_mount (\<lambda>_. True) e (Some f) j = Inr (0, Some (mounted t j))"
    "\<forall>j. fs_wf (mounted t j)" "\<forall>j. same_store w (mounted t j)"
proof -
  let ?s = "sbk w"
  define t where "t = set_blk ?s 0 (super_image (sb_d ?s))"
  note S = fs_wfD(2) [OF w]
  have St: "super_wf t" unfolding t_def by (rule super_wf_write_super [OF S])
  have sd: "sb_d t = sb_d ?s" by (simp add: t_def)
  have same: "same_blocks {1..} ?s t" unfolding t_def by (rule same_blocks_set_blk) simp_all
  have used: "used_blocks t = used_blocks ?s" "used_inodes t = used_inodes ?s"
    by (simp_all add: t_def used_blocks_def used_inodes_def bfm_def ifm_def)
  have un: "testfs_unmount w = Inr (dev t)"
    using close_eq [OF S] destroy_released [OF w r] by (simp add: testfs_unmount_def t_def)
  have mo: "testfs_mount (\<lambda>_. True) e (Some (dev t)) j = Inr (0, Some (mounted t j))" for e j
    by (rule testfs_mount_eq [OF remount_eq [OF St]])
  note M = cache_wf_mounted [OF St]
  have d: "dinode_at (mounted t j) n = dinode_at w n" if n: "n < NR_INODES" for n j
  proof -
    have "has_block ?s (18 + n div 128)" by (rule super_wfD(10) [OF S]) (use n in simp)
    then have "blk t (18 + n div 128) = blk ?s (18 + n div 128)" using same by (simp add: same_blocks_def)
    then show ?thesis using M(2) released_cached(2) [OF r] by (simp add: disk_inode_def)
  qed
  have fr: "file_wf t (dinode_at w n)" "owned t (dinode_at w n) = owned ?s (dinode_at w n)"
      "\<And>L. L < MAX_FILE_BLOCKS \<Longrightarrow> fblock t (dinode_at w n) L = fblock ?s (dinode_at w n) L" if n: "n \<in> used_inodes ?s" for n
  proof -
    have "owned ?s (dinode_at w n) \<subseteq> used_blocks t" using w n used(1) by (auto simp: fs_wf_def files_wf_def)
    moreover have "same_blocks ((+) DATA_START ` owned ?s (dinode_at w n)) ?s t" using same by (auto simp: same_blocks_def)
    ultimately show "file_wf t (dinode_at w n)" "owned t (dinode_at w n) = owned ?s (dinode_at w n)"
      "\<And>L. L < MAX_FILE_BLOCKS \<Longrightarrow> fblock t (dinode_at w n) L = fblock ?s (dinode_at w n) L"
      using file_wf_frame [OF fs_wfD(4) [OF w n]] by blast+
  qed
  have lt: "n < NR_INODES" if "n \<in> used_inodes ?s" for n using fs_wfD(3) [OF w that] .
  have "files_wf t (dinode_at (mounted t j))" for j
    using w fr d lt unfolding fs_wf_def files_wf_def used by simp
  then have wf: "fs_wf (mounted t j)" for j
    unfolding fs_wf_def M(5) used(2) using M(1,4) d fs_wfD(5) [OF w] by simp
  have "same_store w (mounted t j)" for j
    unfolding same_store_def M(5)
  proof (intro conjI ballI allI impI)
    fix n off assume n: "n \<in> used_inodes ?s"
    show "dinode_at (mounted t j) n = dinode_at w n" by (rule d [OF lt [OF n]])
    then show "contents (mounted t j) n off = contents w n off" if "off < MAX_FILE_BYTES"
      using fr(3) [OF n] that by (intro contents_cong) (simp_all add: M(5))
  qed (simp_all add: sd used)
  then show ?thesis using that [of "dev t" t] un mo wf by blast
qed

section \<open>fs/mktestfs.c\<close>

text \<open>
  \<open>main\<close> after the options have been read: \<open>fs_size_mb\<close> is the size asked for, \<open>opened\<close> whether fopen succeeds, \<open>name\<close> the device. The
  result is the device.
\<close>

definition mktestfs :: "bool \<Rightarrow> string \<Rightarrow> u64 \<Rightarrow> int \<Rightarrow> (int \<Rightarrow> bool) \<Rightarrow> (nat \<Rightarrow> u8) \<Rightarrow> u8 list res" where
  "mktestfs opened name fs_size_mb errno m j =
     (let max_fs_blocks = of_nat (BLOCK_FREEMAP_SIZE * BLOCK_SIZE * 8) :: u64;
          max_fs_size_mb = drop_bit 20 (max_fs_blocks * of_nat BLOCK_SIZE) in
      if fs_size_mb < 1 then Inl (Exit_with ''minimum file system size is 1 MB'')
      else if fs_size_mb > max_fs_size_mb then Inl (Exit_with ''maximum file system size'')
      else
        let max_fs_blocks = push_bit 20 fs_size_mb div of_nat BLOCK_SIZE in
        rbind (testfs_make_super_block opened name max_fs_blocks) (\<lambda>s.
        rbind (testfs_make_inode_freemap s) (\<lambda>s.
        rbind (testfs_make_block_freemap s) (\<lambda>s.
        rbind (testfs_make_inode_blocks s) (\<lambda>s.
        rbind (testfs_close_super_block (Inr ()) s) (\<lambda>file.
        rbind (testfs_mount (\<lambda>_. m 0) errno (Some file) j) (\<lambda>(ret, mounted).
        case mounted of
          None \<Rightarrow> Inl (Exit_with ''testfs_init_super_block'')
        | Some w \<Rightarrow>
            if ret \<noteq> 0 then Inl (Exit_with ''testfs_init_super_block'')
            else rbind (testfs_make_root_dir m w) (\<lambda>(_, w). testfs_unmount w))))))))"

lemma make_fresh:
  "rbind (testfs_make_super_block True name b) (\<lambda>s. rbind (testfs_make_inode_freemap s) (\<lambda>s. rbind (testfs_make_block_freemap s) (\<lambda>s.
     rbind (testfs_make_inode_blocks s) (\<lambda>s. rbind (testfs_close_super_block (Inr ()) s) f)))) = f (fresh_dev b (DATA_START - 1))"
  by (simp add: make_super_block_eq testfs_make_inode_freemap_def testfs_make_block_freemap_def testfs_make_inode_blocks_def
      fresh_dsuper_sel zero_blocks_fresh close_fresh del: zero_blocks.simps)

text \<open>The size in blocks, 128 to the megabyte.\<close>

lemma mb_blocks:
  assumes "fs_size_mb \<le> (8192 :: u64)"
  shows "unat (push_bit 20 fs_size_mb div (8192 :: u64)) = 128 * unat fs_size_mb"
proof -
  have le: "unat fs_size_mb \<le> 8192" using assms by (simp add: word_le_nat_alt)
  then have "unat (push_bit 20 fs_size_mb) = 2 ^ 20 * unat fs_size_mb"
    using unat_mult_lem [of fs_size_mb "1048576 :: u64"] by (simp add: push_bit_eq_mult mult.commute)
  then show ?thesis by (simp add: unat_div)
qed

lemma mktestfs_ok:
  assumes mb: "1 \<le> fs_size_mb" "fs_size_mb \<le> 8192"
  obtains f t where "mktestfs True name fs_size_mb e ample j = Inr f"
    "\<forall>e j. testfs_mount (\<lambda>_. True) e (Some f) j = Inr (0, Some (mounted t j))" "\<forall>j. fs_wf (mounted t j)"
    "used_inodes t = {0}" "\<forall>j. dir_rep (mounted t j) 0 [(0, dot), (0, dotdot)]" "card (used_blocks t) \<le> 12"
    "unat (max_fs_blocks (sb_d t)) = 128 * unat fs_size_mb"
proof -
  define b where "b = push_bit 20 fs_size_mb div (8192 :: u64)"
  have b: "unat b = 128 * unat fs_size_mb" unfolding b_def by (rule mb_blocks [OF mb(2)])
  have "1 \<le> unat fs_size_mb" using mb(1) by (simp add: word_le_nat_alt)
  then have big: "\<not> unat b < 12" using b by simp
  show ?thesis
  proof (cases rule: create_root [of b j])
    case (1 w)
    have "released w" by (rule released_refs [OF 1(2)]) (use 1(3,5) in simp)
    then obtain f t where f: "testfs_unmount w = Inr f" "\<forall>e j. testfs_mount (\<lambda>_. True) e (Some f) j = Inr (0, Some (mounted t j))"
        "\<forall>j. fs_wf (mounted t j)" "\<forall>j. same_store w (mounted t j)"
      using unmount_mount [OF 1(2)] by blast
    have "sbk (mounted t j') = t" for j' by (simp add: mounted_def)
    then have t: "used_inodes t = {0}" "used_blocks t = used_blocks (sbk w)" "sb_d t = sb_d (sbk w)"
      using spec [OF f(4)] 1(3) by (simp_all add: same_store_def)
    have d: "dir_rep (mounted t j') 0 [(0, dot), (0, dotdot)]" for j'
      by (rule same_store_dir [OF spec [OF f(4)] _ 1(4)]) (use 1(3) in simp)
    have lim: "\<not> fs_size_mb < 1" "\<not> fs_size_mb > 8192" using mb by (simp_all only: not_less)
    have mf: "testfs_mount (\<lambda>_. True) e (Some (fresh_dev b (DATA_START - 1))) j = Inr (0, Some (mounted (fresh_fs b) j))"
      by (rule testfs_mount_eq [OF mount_fresh])
    have "mktestfs True name fs_size_mb e ample j = Inr f"
      unfolding mktestfs_def Let_def using lim mf 1(1) f(1) by (simp add: make_fresh b_def [symmetric])
    moreover have "card (used_blocks t) \<le> 12" using 1(7) t(2) by simp
    moreover have "unat (max_fs_blocks (sb_d t)) = 128 * unat fs_size_mb" using b 1(8) t(3) by simp
    ultimately show ?thesis using that f(2,3) t(1) d by blast
  qed (use big in simp)
qed

end
