(* ===== verification/Shell_Spec.thy ===== *)
theory Shell_Spec
  imports Shell Mount_Spec
begin

text \<open>
  The shell of fs/testfs.c: how a line of words is taken apart and the command is run, and a whole use of the programs: a file system that mktestfs has
  made, in which one run of testfs creates a file and writes to it, and another run reads what has been written.
\<close>

section \<open>Lines of words\<close>

definition word :: "bytes \<Rightarrow> bool" where
  "word w \<longleftrightarrow> w \<noteq> [] \<and> (\<forall>x\<in>set w. x \<notin> set blanks \<and> x \<noteq> 0)"

fun words_line :: "bytes list \<Rightarrow> bytes" where
  "words_line [] = []"
| "words_line [w] = w"
| "words_line (w # ws) = w @ 32 # words_line ws"

lemma wordD: "word w \<Longrightarrow> w \<noteq> []" "word w \<Longrightarrow> x \<in> set w \<Longrightarrow> x \<noteq> 32 \<and> x \<noteq> 9 \<and> x \<noteq> 13 \<and> x \<noteq> 10 \<and> x \<noteq> 0"
  by (auto simp: word_def)

lemma word_scan:
  assumes "word w"
  shows "dropWhile (\<lambda>x. x \<in> set blanks) (w @ r) = w @ r" "dropWhile (\<lambda>x. x \<in> set line_ends) (w @ r) = w @ r"
    "takeWhile (\<lambda>x. x \<notin> set blanks) (w @ r) = w @ takeWhile (\<lambda>x. x \<notin> set blanks) r"
    "dropWhile (\<lambda>x. x \<notin> set blanks) (w @ r) = dropWhile (\<lambda>x. x \<notin> set blanks) r"
proof -
  obtain a v where w: "w = a # v" using wordD(1) [OF assms] by (cases w) auto
  have "a \<notin> set blanks" using assms w by (simp add: word_def)
  then show "dropWhile (\<lambda>x. x \<in> set blanks) (w @ r) = w @ r" "dropWhile (\<lambda>x. x \<in> set line_ends) (w @ r) = w @ r"
    using w by auto
  show "takeWhile (\<lambda>x. x \<notin> set blanks) (w @ r) = w @ takeWhile (\<lambda>x. x \<notin> set blanks) r"
    "dropWhile (\<lambda>x. x \<notin> set blanks) (w @ r) = dropWhile (\<lambda>x. x \<notin> set blanks) r"
    using assms by (auto simp: word_def intro!: takeWhile_append2 dropWhile_append2)
qed

lemma strtok_word:
  assumes "word w"
  shows "strtok_r n (Some w) blanks s = Inr (Some w, Some [])" "strtok_r n (Some (w @ 32 # r)) blanks s = Inr (Some w, Some r)"
    "strtok_r n (Some (w @ 10 # r)) blanks s = Inr (Some w, Some r)"
proof -
  have e: "dropWhile (\<lambda>x. x \<notin> set blanks) w = []" using assms by (simp add: word_def)
  have t: "takeWhile (\<lambda>x. x \<notin> set blanks) [] = []" by simp
  show "strtok_r n (Some w) blanks s = Inr (Some w, Some [])"
    unfolding strtok_r_def option.case Let_def
    by (simp only: word_scan [OF assms, of "[]", unfolded append_Nil2] e t append_Nil2 list.sel dropWhile.simps wordD(1) [OF assms] if_False)
  show "strtok_r n (Some (w @ 32 # r)) blanks s = Inr (Some w, Some r)" "strtok_r n (Some (w @ 10 # r)) blanks s = Inr (Some w, Some r)"
    using word_scan [OF assms, of "32 # r"] word_scan [OF assms, of "10 # r"] wordD(1) [OF assms] by (simp_all add: strtok_r_def)
qed

text \<open>What a call with NULL or with a string scans.\<close>

definition scanned :: "bytes option \<Rightarrow> bytes option \<Rightarrow> bytes option" where
  "scanned str save = (case str of None \<Rightarrow> save | Some s \<Rightarrow> Some s)"

lemma strtok_scanned: "scanned str save = Some s \<Longrightarrow> strtok_r n str delim save = strtok_r n (Some s) delim None"
  by (cases str) (simp_all add: scanned_def strtok_r_def)

lemma strtok_empty [simp]: "strtok_r n (Some []) delim s = Inr (None, Some [])"
  by (simp add: strtok_r_def)

lemma parse_words_line:
  assumes "list_all word ws" "length ws \<le> k" "scanned args save = Some (words_line ws)"
  shows "\<exists>args' save'. parse_words n k args save acc = Inr (acc @ ws, args', save') \<and> scanned args' save' = Some []"
  using assms
proof (induction ws arbitrary: k args save acc)
  case Nil
  have "strtok_r n args blanks save = Inr (None, Some [])" using strtok_scanned [OF Nil(3)] by simp
  moreover have "scanned args (Some []) = Some []" using Nil(3) by (cases args) (simp_all add: scanned_def)
  ultimately show ?case using Nil(3) by (cases k) simp_all
next
  case (Cons w ws)
  obtain k' where k: "k = Suc k'" "length ws \<le> k'" using Cons.prems(2) by (cases k) auto
  have w: "word w" "list_all word ws" using Cons.prems(1) by simp_all
  have "strtok_r n args blanks save = Inr (Some w, Some (words_line ws))"
    using strtok_scanned [OF Cons.prems(3)] strtok_word(1,2) [OF w(1)] by (cases ws) simp_all
  moreover have "scanned None (Some (words_line ws)) = Some (words_line ws)" by (simp add: scanned_def)
  ultimately show ?case using Cons.IH [OF w(2) k(2), of None "Some (words_line ws)" "acc @ [w]"] k(1) by simp
qed

text \<open>The words of a command line with at most as many words as the command takes.\<close>

lemma parse_command_words:
  assumes "list_all word ws" "length ws < max_args" "ws \<noteq> [] \<or> n"
  shows "parse_command n max_args c name (if ws = [] then None else Some (words_line ws)) = Inr (c\<lparr>cmd := name # ws, nargs := Suc (length ws)\<rparr>)"
proof (cases "ws = []")
  case True
  have "parse_words True k None None [name] = Inr ([name], None, None)" for k by (cases k) (simp_all add: strtok_r_def)
  then show ?thesis using True assms(3) by (simp add: parse_command_def strtok_r_def)
next
  case False
  have "length ws \<le> max_args - 1" using assms(2) by linarith
  then obtain args' save' where p: "parse_words n (max_args - 1) (Some (words_line ws)) None [name] = Inr ([name] @ ws, args', save')"
      "scanned args' save' = Some []"
    using parse_words_line [of ws "max_args - 1" "Some (words_line ws)" None n "[name]"] assms(1,2) by (auto simp: scanned_def)
  then show ?thesis using False strtok_scanned [OF p(2)] by (simp add: parse_command_def)
qed

lemma words_line_chars: "list_all word ws \<Longrightarrow> x \<in> set (words_line ws) \<Longrightarrow> x \<noteq> 13 \<and> x \<noteq> 10 \<and> x \<noteq> 0"
  by (induction ws rule: words_line.induct) (auto dest: wordD(2))

lemma words_line_start: "list_all word (w # ws) \<Longrightarrow> \<exists>a r. words_line (w # ws) = a # r \<and> a \<notin> set line_ends \<and> a \<noteq> 0 \<and> a = hd w"
  by (cases w; cases ws) (auto simp: word_def)

lemma rbind_triple: "rbind m (\<lambda>(out, err, sh). Inr (out, err, sh)) = m"
  by (cases m) auto

lemma shell_line_words:
  assumes ws: "list_all word (name # ws)" and c: "hd name \<noteq> 35" and f: "List.find (\<lambda>k. c_name k = name) tbl = Some k"
    and n: "length ws < c_max_args k" "ws \<noteq> [] \<or> n"
  shows "shell_line n strerror tbl False sh (words_line (name # ws) @ [10]) =
    rbind (c_func k (sh\<lparr>sh_context := (sh_context sh)\<lparr>cmd := name # ws, nargs := Suc (length ws)\<rparr>\<rparr>)) (\<lambda>(ret, out, sh).
      Inr (out, if ret < 0 then cmd (sh_context sh) ! 0 @ lit '': '' @ strerror (- ret) @ [10] @ c_usage k @ [10] else [], sh))"
proof -
  have nm: "word name" and wsw: "list_all word ws" using ws by simp_all
  obtain a r where ar: "words_line (name # ws) = a # r" "a = hd name" using words_line_start [OF ws] by blast
  have line: "takeWhile (\<lambda>x. x \<noteq> 0) (words_line (name # ws) @ [10]) = words_line (name # ws) @ [10]"
    using words_line_chars [OF ws] by (auto simp: takeWhile_eq_all_conv)
  have t1: "strtok_r n (Some (words_line (name # ws) @ [10])) blanks None = Inr (Some name, Some (if ws = [] then [] else words_line ws @ [10]))"
    using strtok_word(2,3) [OF nm] by (cases ws) simp_all
  have t2: "strtok_r n None line_ends (Some (if ws = [] then [] else words_line ws @ [10])) =
      Inr (if ws = [] then None else Some (words_line ws), Some [])"
  proof (cases ws)
    case (Cons v vs)
    have ch: "\<forall>x\<in>set (words_line ws). x \<noteq> 13 \<and> x \<noteq> 10" using words_line_chars [OF wsw] by blast
    obtain b q where bq: "words_line ws = b # q" using words_line_start [of v vs] wsw Cons by auto
    have "dropWhile (\<lambda>x. x \<in> set line_ends) (words_line ws @ [10]) = words_line ws @ [10]" using ch bq by simp
    moreover have "takeWhile (\<lambda>x. x \<notin> set line_ends) (words_line ws @ [10]) = words_line ws"
      "dropWhile (\<lambda>x. x \<notin> set line_ends) (words_line ws @ [10]) = [10]" using ch by auto
    ultimately show ?thesis using Cons by (simp add: strtok_r_def del: words_line.simps)
  qed (simp add: strtok_r_def)
  have "handle_command n strerror tbl sh (Some name) (if ws = [] then None else Some (words_line ws)) =
    rbind (c_func k (sh\<lparr>sh_context := (sh_context sh)\<lparr>cmd := name # ws, nargs := Suc (length ws)\<rparr>\<rparr>)) (\<lambda>(ret, out, sh).
      Inr (out, if ret < 0 then cmd (sh_context sh) ! 0 @ lit '': '' @ strerror (- ret) @ [10] @ c_usage k @ [10] else [], sh))"
    unfolding handle_command_def option.case f parse_command_words [OF wsw n] by simp
  moreover have "\<not> (words_line (name # ws) @ [10] \<noteq> [] \<and> hd (words_line (name # ws) @ [10]) = 35)" using ar c by simp
  ultimately show ?thesis
    unfolding shell_line_def line Let_def by (simp only: if_False t1 t2 rbind_Inr prod.case append_Nil rbind_triple)
qed

section \<open>Starting and ending a run\<close>

definition only_root :: "fs \<Rightarrow> bool" where
  "only_root w \<longleftrightarrow> (\<forall>n<NR_INODES. refs w n = (if n = 0 then 1 else 0))"

lemma released_all:
  assumes w: "fs_wf w" and r: "\<forall>n<NR_INODES. refs w n = 0"
  shows "released w"
  by (rule released_refs [OF w]) (use r fs_wfD(3) [OF w] in blast)

lemma run_start:
  assumes w: "fs_wf (mounted t j)" "0 \<in> used_inodes t" "dir_rep (mounted t j) 0 es" "dir_ok es"
  obtains a w where "testfs_get_inode (mounted t j) 0 = Inr (a, w)" "\<And>k xs. session w \<lparr>nargs = k, cmd = xs, cur_dir = a\<rparr> 0 es"
    "only_root w" "sbk w = t" "dinode_at w = dinode_at (mounted t j)" "contents w = contents (mounted t j)" "\<And>n. n \<noteq> 0 \<Longrightarrow> n < NR_INODES \<Longrightarrow> clean w n"
proof -
  have S: "sbk (mounted t j) = t" "\<And>n a i. \<not> cached (mounted t j) n a i" by (simp_all add: mounted_def cached_def)
  have r0: "refs (mounted t j) n = 0" for n using S(2) by (simp add: refs_def)
  have cl: "clean (mounted t j) n" for n using S(2) by (simp add: clean_def)
  have u: "0 \<in> used_inodes (sbk (mounted t j))" using w(2) S(1) by simp
  obtain a i w' where g: "testfs_get_inode (mounted t j) (int 0) = Inr (a, w')" "fs_wf w'" "cached w' 0 a i" "clean w' 0" "sbk w' = sbk (mounted t j)"
    "others_same 0 (mounted t j) w'" "dinode_at w' = dinode_at (mounted t j)" "refs w' = (refs (mounted t j))(0 := refs (mounted t j) 0 + 1)"
    "contents w' = contents (mounted t j)" "\<And>m es. dir_rep w' m es \<longleftrightarrow> dir_rep (mounted t j) m es"
    by (rule get_clean [OF w(1) u cl]) blast
  have s: "session w' \<lparr>nargs = k, cmd = xs, cur_dir = a\<rparr> 0 es" for k xs using g(2-4,10) w(3,4) by (auto simp: session_def)
  have o: "only_root w'" using g(8) r0 by (simp add: only_root_def)
  have "clean w' n" if "n \<noteq> 0" "n < NR_INODES" for n using g(6) that S(2) by (simp add: others_same_def clean_def)
  then show ?thesis by (rule that [of a w', rotated 6]) (use g(1,5,7,9) s o S(1) in simp_all)
qed

lemma run_end:
  assumes s: "session w c 0 es" and o: "only_root w"
  obtains w' f t where "testfs_put_inode (cur_dir c) w = Inr w'" "testfs_unmount w' = Inr f"
    "\<forall>e j. testfs_mount (\<lambda>_. True) e (Some f) j = Inr (0, Some (mounted t j))" "\<forall>j. fs_wf (mounted t j)" "\<forall>j. same_store w (mounted t j)"
proof (rule sessionE [OF s])
  fix i assume S: "fs_wf w" "cached w 0 (cur_dir c) i" "\<not> is_dirty i"
  obtain w' where p: "testfs_put_inode (cur_dir c) w = Inr w'" "fs_wf w'" "sbk w' = sbk w" "dinode_at w' = dinode_at w"
    "refs w' = (refs w)(0 := refs w 0 - 1)" "contents w' = contents w"
    by (rule put_clean [OF S]) blast
  have "released w'" by (rule released_all [OF p(2)]) (use p(5) o in \<open>simp add: only_root_def\<close>)
  then obtain f t where f: "testfs_unmount w' = Inr f" "\<forall>e j. testfs_mount (\<lambda>_. True) e (Some f) j = Inr (0, Some (mounted t j))"
      "\<forall>j. fs_wf (mounted t j)" "\<forall>j. same_store w' (mounted t j)"
    using unmount_mount [OF p(2)] by blast
  have "same_store w' = same_store w" using p(3,4,6) by (simp add: same_store_def fun_eq_iff)
  then show ?thesis using that p(1) f by metis
qed

text \<open>A whole run on a mounted disk.\<close>

lemma testfs_main_run:
  assumes f: "\<forall>e j. testfs_mount (\<lambda>_. True) e (Some f) j = Inr (0, Some (mounted t j))" and g: "testfs_get_inode (mounted t j) 0 = Inr (a, w)"
    and l: "shell_loop n strerror (cmdtable fuel ample) True False stdin
      \<lparr>sh_fs = w, sh_context = \<lparr>nargs = 0, cmd = [], cur_dir = a\<rparr>, can_quit = False\<rparr> = Inr (out, err, sh)"
    and p: "testfs_put_inode (cur_dir (sh_context sh)) (sh_fs sh) = Inr w'" "testfs_unmount w' = Inr f'"
  shows "testfs_main n strerror fuel ample True False e j stdin (Some f) = Inr (out, err, f')"
  using f g l p by (simp add: testfs_main_def)

lemma cmdtable_find:
  "List.find (\<lambda>k. c_name k = lit ''create'') (cmdtable fuel m) = Some (entry_of ''create'' (on_shell (cmd_create m)) 2 ''creates a new file FILE in the current directory.'' ''usage: create FILE'')"
  "List.find (\<lambda>k. c_name k = lit ''write'') (cmdtable fuel m) = Some (entry_of ''write'' (on_shell (cmd_write m)) 4 ''write ascii data DATA to file FILE at offset OFFSET.'' ''usage: write FILE OFFSET DATA'')"
  "List.find (\<lambda>k. c_name k = lit ''read'') (cmdtable fuel m) = Some (entry_of ''read'' (on_shell (cmd_read m)) 4 ''reads SIZE bytes of ascii data from file FILE at offset OFFSET.'' ''usage: read FILE OFFSET SIZE'')"
  by (simp_all add: cmdtable_def cmdtable_with_def entry_of_def lit_def)

section \<open>Commands in a line\<close>

lemma dec_nat_word: "word (dec_nat n)"
proof -
  have "dec_nat n \<noteq> []" by (subst dec_nat.simps) simp
  moreover have "x \<notin> set blanks \<and> x \<noteq> 0" if "x \<in> set (dec_nat n)" for x
    using is_digit_dec_nat [of n] that by (auto simp: is_digit_def)
  ultimately show ?thesis by (simp add: word_def)
qed

lemma lit_words: "word (lit ''create'')" "word (lit ''write'')" "word (lit ''read'')"
  "hd (lit ''create'') \<noteq> 35" "hd (lit ''write'') \<noteq> 35" "hd (lit ''read'') \<noteq> 35"
  by (simp_all add: word_def lit_def)

lemma word_c_string: "word w \<Longrightarrow> c_string w"
  by (auto simp: word_def c_string_def)

text \<open>A command that succeeds, as a line of the shell.\<close>

lemma shell_line_ok:
  assumes "list_all word (name # ws)" "hd name \<noteq> 35" "List.find (\<lambda>k. c_name k = name) tbl = Some (entry_of nm (on_shell f) k hp us)"
    and "length ws < k" "ws \<noteq> []" "c = (sh_context sh)\<lparr>cmd := name # ws, nargs := Suc (length ws)\<rparr>"
    and "f (sh_fs sh) c = Inr (ret, out, w', c')" "0 \<le> ret"
  shows "shell_line n strerror tbl False sh (words_line (name # ws) @ [10]) = Inr (out, [], sh\<lparr>sh_fs := w', sh_context := c'\<rparr>)"
proof -
  have "length ws < c_max_args (entry_of nm (on_shell f) k hp us)" using assms(4) by (simp add: entry_of_def)
  then show ?thesis
    using shell_line_words [OF assms(1-3), of n strerror sh] assms(5-8) by (simp add: entry_of_def on_shell_def del: words_line.simps)
qed

section \<open>Two runs\<close>

lemma create_write_run:
  assumes w: "\<And>k xs. session w \<lparr>nargs = k, cmd = xs, cur_dir = a\<rparr> 0 [(0, dot), (0, dotdot)]" "only_root w" "used_inodes (sbk w) = {0}"
    and fit: "name_fits w [(0, dot), (0, dotdot)] name" "room (sbk w) (12 + ent_room name + write_room 0 (length data))"
    and nm: "word name" "name \<noteq> dot" "name \<noteq> dotdot" and d: "word data" "length data + BLOCK_SIZE \<le> 2 ^ 31" "length data \<le> MAX_DIR"
  defines "sh \<equiv> \<lparr>sh_fs = w, sh_context = \<lparr>nargs = 0, cmd = [], cur_dir = a\<rparr>, can_quit = False\<rparr>"
  obtains w' c es k where "shell_loop n strerror (cmdtable fuel ample) True False
      [words_line [lit ''create'', name] @ [10], words_line [lit ''write'', name, dec_nat 0, data] @ [10]] sh =
      Inr ([], [], \<lparr>sh_fs = w', sh_context = c, can_quit = False\<rparr>)"
    "session w' c 0 es" "only_root w'" "dir_lookup es name = Some (int k)" "k \<in> used_inodes (sbk w')" "\<not> is_directory w' k" "k \<noteq> 0"
    "length data \<le> fsize (dinode_at w' k)" "\<And>x. x < length data \<Longrightarrow> contents w' k x = data ! x"
proof -
  let ?es = "[(0, dot), (0, dotdot)]" and ?c1 = "\<lparr>nargs = 2, cmd = [lit ''create'', name], cur_dir = a\<rparr>"
    and ?c2 = "\<lparr>nargs = 4, cmd = [lit ''write'', name, dec_nat 0, data], cur_dir = a\<rparr>"
  show ?thesis
  proof (cases rule: create_session [OF w(1) [of 2 "[lit ''create'', name]"] fit(1), of I_FILE])
    case 1
    then show ?thesis using nm(2,3) by simp
  next
    case (2 w1)
    have "(1::nat) \<in> {..<NR_INODES}" by simp
    then have "1 \<in> used_inodes (sbk w)" using 2(6) by blast
    then show ?thesis using w(3) by simp
  next
    case (3 k w1)
    have k: "k \<noteq> 0" "k < NR_INODES" using 3(4,5) w(3) by simp_all
    have s1: "session w1 ?c2 0 (dir_add ?es name (int k))" using 3(2) by (simp add: session_def)
    have lk: "dir_lookup (dir_add ?es name (int k)) name = Some (int k)" using 3(3) by simp
    have cr: "cmd_create ample w ?c1 = Inr (0, [], w1, ?c1)" using 3(1) by (simp add: cmd_create_def)
    have nd: "\<not> is_directory w1 k" using 3(9) by (simp add: new_child_def is_directory_def empty_dinode_def)
    have rm: "room (sbk w1) (write_room 0 (length data))" by (rule 3(13)) (rule fit(2))
    obtain w2 where W: "cmd_write ample w1 ?c2 = Inr (int (length data), [], w2, ?c2)" "session w2 ?c2 0 (dir_add ?es name (int k))"
      "k \<in> used_inodes (sbk w2)" "\<not> is_directory w2 k" "same_out {k} w1 w2" "refs w2 k = refs w1 k"
      "fsize (dinode_at w2 k) = max (fsize (dinode_at w1 k)) (length data)" "\<And>x. x < length data \<Longrightarrow> contents w2 k x = data ! x"
    proof (rule write_session [OF s1, of k 0])
      show "k \<in> used_inodes (sbk w1)" using 3(6) by simp
    qed (use nm(1) d lk nd rm k(1) 3(12) wordD(1) [OF d(1)] in \<open>simp_all add: word_c_string\<close>)
    have "refs w1 m = (if m = 0 then 1 else 0)" if "m < NR_INODES" for m
      using w(2) 3(8,10,11) that k by (cases "m = k") (auto simp: only_root_def same_out_def)
    then have o: "only_root w2" using W(5,6) k by (auto simp: only_root_def same_out_def)
    have l1: "shell_line n strerror (cmdtable fuel ample) False sh (words_line [lit ''create'', name] @ [10]) = Inr ([], [], sh\<lparr>sh_fs := w1, sh_context := ?c1\<rparr>)"
      by (rule shell_line_ok [where ret = 0, OF _ lit_words(4) cmdtable_find(1)]) (use lit_words nm(1) cr in \<open>simp_all add: sh_def\<close>)
    have l2: "shell_line n strerror (cmdtable fuel ample) False (sh\<lparr>sh_fs := w1, sh_context := ?c1\<rparr>) (words_line [lit ''write'', name, dec_nat 0, data] @ [10]) =
        Inr ([], [], sh\<lparr>sh_fs := w1, sh_context := ?c1\<rparr>\<lparr>sh_fs := w2, sh_context := ?c2\<rparr>)"
      by (rule shell_line_ok [where ret = "int (length data)", OF _ lit_words(5) cmdtable_find(2)])
        (use lit_words nm(1) d(1) dec_nat_word W(1) in \<open>simp_all add: sh_def\<close>)
    have "shell_loop n strerror (cmdtable fuel ample) True False
        [words_line [lit ''create'', name] @ [10], words_line [lit ''write'', name, dec_nat 0, data] @ [10]] sh =
        Inr ([], [], \<lparr>sh_fs = w2, sh_context = ?c2, can_quit = False\<rparr>)"
      using l1 l2 by (simp add: sh_def del: words_line.simps)
    then show ?thesis by (rule that [OF _ W(2) o lk W(3,4) k(1)]) (use W(7,8) in simp_all)
  qed
qed

text \<open>The two commands need room for the entry and the data, 12 blocks being in use on a new file system.\<close>

lemma new_room:
  assumes "card (used_blocks s) \<le> 12" "unat (max_fs_blocks (sb_d s)) = 128 * mb" "1 \<le> mb"
    and "length name < 100" "length data \<le> 200000"
  shows "room s (12 + ent_room name + write_room 0 (length data))"
proof -
  have "(16391 + length name) div BLOCK_SIZE \<le> 16490 div BLOCK_SIZE" by (rule div_le_mono) (use assms(4) in simp)
  then have "ent_room name \<le> 6" by (simp add: ent_room_def)
  moreover have "blocks_for (length data) \<le> blocks_for 200000" by (rule div_le_mono) (use assms(5) in simp)
  then have "write_room 0 (length data) \<le> 75" by (simp add: write_room_def)
  ultimately show ?thesis using assms(1-3) by (simp add: room_def)
qed

text \<open>A disk image, and the file with the number \<open>k\<close> in its root directory.\<close>

definition image :: "u8 list \<Rightarrow> super_block \<Rightarrow> entry list \<Rightarrow> bool" where
  "image f t es \<longleftrightarrow> (\<forall>e j. testfs_mount (\<lambda>_. True) e (Some f) j = Inr (0, Some (mounted t j))) \<and> (\<forall>j. fs_wf (mounted t j)) \<and> 0 \<in> used_inodes t \<and>
     (\<forall>j. dir_rep (mounted t j) 0 es) \<and> dir_ok es"

definition file_holds :: "fs \<Rightarrow> nat \<Rightarrow> u8 list \<Rightarrow> bool" where
  "file_holds w k data \<longleftrightarrow> k \<in> used_inodes (sbk w) \<and> k \<noteq> 0 \<and> \<not> is_directory w k \<and> length data \<le> fsize (dinode_at w k) \<and>
     (\<forall>x<length data. contents w k x = data ! x)"

lemma sbk_mounted [simp]: "sbk (mounted t j) = t"
  by (simp add: mounted_def)

lemma image_start:
  assumes "image f t es"
  obtains a w where "testfs_get_inode (mounted t j) 0 = Inr (a, w)" "\<And>k xs. session w \<lparr>nargs = k, cmd = xs, cur_dir = a\<rparr> 0 es"
    "only_root w" "sbk w = t" "dinode_at w = dinode_at (mounted t j)" "contents w = contents (mounted t j)"
    "\<And>n. n \<noteq> 0 \<Longrightarrow> n < NR_INODES \<Longrightarrow> clean w n"
  using assms by (elim run_start [of t j es, rotated 4]) (simp_all add: image_def)

lemma session_root: "session w c 0 es \<Longrightarrow> 0 \<in> used_inodes (sbk w) \<and> dir_rep w 0 es \<and> dir_ok es \<and> fs_wf w"
  using cached_used by (auto simp: session_def)

lemma image_end:
  assumes s: "session w c 0 es" and o: "only_root w"
  obtains w' f t where "testfs_put_inode (cur_dir c) w = Inr w'" "testfs_unmount w' = Inr f" "image f t es"
    "\<And>k data j. length data \<le> MAX_FILE_BYTES \<Longrightarrow> file_holds w k data \<Longrightarrow> file_holds (mounted t j) k data"
proof (rule run_end [OF s o])
  fix w' f t
  assume E: "testfs_put_inode (cur_dir c) w = Inr w'" "testfs_unmount w' = Inr f" "\<forall>e j. testfs_mount (\<lambda>_. True) e (Some f) j = Inr (0, Some (mounted t j))"
    "\<forall>j. fs_wf (mounted t j)" "\<forall>j. same_store w (mounted t j)"
  have u: "used_inodes t = used_inodes (sbk w)" using E(5) by (simp add: same_store_def)
  have "dir_rep (mounted t j) 0 es" for j by (rule same_store_dir [OF spec [OF E(5)]]) (use session_root [OF s] in simp_all)
  then have "image f t es" using E(3,4) u session_root [OF s] by (simp add: image_def)
  moreover have "file_holds (mounted t j) k data" if "length data \<le> MAX_FILE_BYTES" "file_holds w k data" for k data j
    using that spec [OF E(5), of j] by (auto simp: file_holds_def same_store_def is_directory_def)
  ultimately show ?thesis using that E(1,2) by blast
qed

lemma write_run:
  assumes I: "image f t [(0, dot), (0, dotdot)]" "used_inodes t = {0}"
    and rm: "room t (12 + ent_room name + write_room 0 (length data))"
    and nm: "word name" "name \<noteq> dot" "name \<noteq> dotdot" "length name < 100" and d: "word data" "length data \<le> 200000"
  obtains f' t' es k where "testfs_main n strerror fuel ample True False e j
      [words_line [lit ''create'', name] @ [10], words_line [lit ''write'', name, dec_nat 0, data] @ [10]] (Some f) = Inr ([], [], f')"
    "image f' t' es" "dir_lookup es name = Some (int k)" "\<And>j. file_holds (mounted t' j) k data"
proof -
  let ?es = "[(0, dot), (0, dotdot)]"
  obtain a w where G: "testfs_get_inode (mounted t j) 0 = Inr (a, w)" "\<And>k xs. session w \<lparr>nargs = k, cmd = xs, cur_dir = a\<rparr> 0 ?es" "only_root w" "sbk w = t"
    by (rule image_start [OF I(1)]) blast
  have fit: "name_fits w ?es name"
    unfolding name_fits_def
  proof (intro conjI)
    show "c_string name" by (rule word_c_string [OF nm(1)])
    show "length (dir_bytes ?es) + 9 + length name \<le> MAX_DIR" using nm(4) by (simp add: dot_def dotdot_def)
    show "room (sbk w) (12 + ent_room name)" unfolding G(4) by (rule room_mono [OF rm]) simp
  qed
  have dl: "length data + BLOCK_SIZE \<le> 2 ^ 31" "length data \<le> MAX_DIR" using d(2) by simp_all
  obtain w1 c es k where C: "shell_loop n strerror (cmdtable fuel ample) True False
      [words_line [lit ''create'', name] @ [10], words_line [lit ''write'', name, dec_nat 0, data] @ [10]]
      \<lparr>sh_fs = w, sh_context = \<lparr>nargs = 0, cmd = [], cur_dir = a\<rparr>, can_quit = False\<rparr> =
      Inr ([], [], \<lparr>sh_fs = w1, sh_context = c, can_quit = False\<rparr>)"
    "session w1 c 0 es" "only_root w1" "dir_lookup es name = Some (int k)" "k \<in> used_inodes (sbk w1)" "\<not> is_directory w1 k" "k \<noteq> 0"
    "length data \<le> fsize (dinode_at w1 k)" "\<And>x. x < length data \<Longrightarrow> contents w1 k x = data ! x"
    by (rule create_write_run [OF G(2,3) _ fit _ nm(1-3) d(1) dl, of n strerror fuel]) (use I(2) G(4) rm in simp, use G(4) rm in simp, blast)
  obtain w2 f' t' where E: "testfs_put_inode (cur_dir c) w1 = Inr w2" "testfs_unmount w2 = Inr f'" "image f' t' es"
    "\<And>k data j. length data \<le> MAX_FILE_BYTES \<Longrightarrow> file_holds w1 k data \<Longrightarrow> file_holds (mounted t' j) k data"
    by (rule image_end [OF C(2,3)]) blast
  have M: "\<forall>e j. testfs_mount (\<lambda>_. True) e (Some f) j = Inr (0, Some (mounted t j))" using I(1) by (simp add: image_def)
  have "file_holds w1 k data" using C(5-9) by (simp add: file_holds_def)
  then have h: "file_holds (mounted t' j) k data" for j using E(4) d(2) by simp
  show ?thesis by (rule that [OF testfs_main_run [OF M G(1) C(1)] E(3) C(4) h]) (use E(1,2) in simp_all)
qed

lemma read_run:
  assumes I: "image f t es" and l: "dir_lookup es name = Some (int k)" and h: "\<And>j. file_holds (mounted t j) k data"
    and nm: "word name" and d: "word data" "length data \<le> MAX_DIR"
  obtains f' t' where "testfs_main n strerror fuel ample True False e j
      [words_line [lit ''read'', name, dec_nat 0, dec_nat (length data)] @ [10]] (Some f) = Inr (data @ [10], [], f')"
    "image f' t' es" "\<And>j. file_holds (mounted t' j) k data"
proof -
  let ?line = "words_line [lit ''read'', name, dec_nat 0, dec_nat (length data)] @ [10]"
  obtain a w where G: "testfs_get_inode (mounted t j) 0 = Inr (a, w)" "\<And>k xs. session w \<lparr>nargs = k, cmd = xs, cur_dir = a\<rparr> 0 es" "only_root w" "sbk w = t"
    "dinode_at w = dinode_at (mounted t j)" "contents w = contents (mounted t j)" "\<And>n. n \<noteq> 0 \<Longrightarrow> n < NR_INODES \<Longrightarrow> clean w n"
    by (rule image_start [OF I]) blast
  have hw: "file_holds w k data" using h [of j] G(4-6) by (simp add: file_holds_def is_directory_def)
  then have k: "k \<in> used_inodes (sbk w)" "k \<noteq> 0" "\<not> is_directory w k" "length data \<le> fsize (dinode_at w k)" "\<forall>x<length data. contents w k x = data ! x"
    by (simp_all add: file_holds_def)
  have cl: "clean w k" using G(7) [OF k(2)] fs_wfD(3) session_root [OF G(2)] k(1) by blast
  let ?c = "\<lparr>nargs = 4, cmd = [lit ''read'', name, dec_nat 0, dec_nat (length data)], cur_dir = a\<rparr>"
  obtain w' where R: "cmd_read ample w ?c =
      (if fsize (dinode_at w k) < length data then Inr (- EINVAL, [], w', ?c)
       else Inr (int (length data), takeWhile (\<lambda>x. x \<noteq> 0) (map (contents w k) [0..<length data]) @ [10], w', ?c))"
    "quiet w w'" "session w' ?c 0 es"
    using read_session [OF G(2) _ _ _ k(1) cl k(3), of 4 "cmd ?c" 0 "length data"] word_c_string [OF nm] l d(2) by auto
  have "map (contents w k) [0..<length data] = data" using k(5) by (auto intro!: nth_equalityI)
  moreover have "takeWhile (\<lambda>x. x \<noteq> 0) data = data" using wordD(2) [OF d(1)] by (auto simp: takeWhile_eq_all_conv)
  ultimately have cr: "cmd_read ample w ?c = Inr (int (length data), data @ [10], w', ?c)" using R(1) k(4) by simp
  have o: "only_root w'" using G(3) quietD [OF R(2)] by (simp add: only_root_def)
  let ?sh = "\<lparr>sh_fs = w, sh_context = \<lparr>nargs = 0, cmd = [], cur_dir = a\<rparr>, can_quit = False\<rparr>"
  have "shell_line n strerror (cmdtable fuel ample) False ?sh ?line = Inr (data @ [10], [], ?sh\<lparr>sh_fs := w', sh_context := ?c\<rparr>)"
    by (rule shell_line_ok [where ret = "int (length data)", OF _ lit_words(6) cmdtable_find(3)])
      (use lit_words nm dec_nat_word cr in simp_all)
  then have l2: "shell_loop n strerror (cmdtable fuel ample) True False [?line] ?sh = Inr (data @ [10], [], ?sh\<lparr>sh_fs := w', sh_context := ?c\<rparr>)"
    by (simp del: words_line.simps)
  obtain w2 f' t' where Z: "testfs_put_inode (cur_dir ?c) w' = Inr w2" "testfs_unmount w2 = Inr f'" "image f' t' es"
    "\<And>k data j. length data \<le> MAX_FILE_BYTES \<Longrightarrow> file_holds w' k data \<Longrightarrow> file_holds (mounted t' j) k data"
    by (rule image_end [OF R(3) o]) blast
  have "file_holds w' k data" using hw quietD [OF R(2)] by (simp add: file_holds_def is_directory_def)
  then have h': "file_holds (mounted t' j) k data" for j using Z(4) d(2) by simp
  have M: "\<forall>e j. testfs_mount (\<lambda>_. True) e (Some f) j = Inr (0, Some (mounted t j))" using I by (simp add: image_def)
  show ?thesis by (rule that [OF testfs_main_run [OF M G(1) l2] Z(3) h']) (use Z(1,2) in simp_all)
qed

lemma write_then_read:
  assumes mb: "1 \<le> mb" "mb \<le> 8192" and nm: "word name" "name \<noteq> dot" "name \<noteq> dotdot" "length name < 100"
    and d: "word data" "length data \<le> 200000"
  shows "\<exists>f0 f1 f2. mktestfs True dev_name mb e ample j = Inr f0 \<and>
    testfs_main n strerror fuel ample True False e j
      [words_line [lit ''create'', name] @ [10], words_line [lit ''write'', name, dec_nat 0, data] @ [10]] (Some f0) = Inr ([], [], f1) \<and>
    testfs_main n strerror fuel ample True False e j [words_line [lit ''read'', name, dec_nat 0, dec_nat (length data)] @ [10]] (Some f1) =
      Inr (data @ [10], [], f2)"
proof -
  obtain f0 t0 where F: "mktestfs True dev_name mb e ample j = Inr f0"
    "\<forall>e j. testfs_mount (\<lambda>_. True) e (Some f0) j = Inr (0, Some (mounted t0 j))" "\<forall>j. fs_wf (mounted t0 j)"
    "used_inodes t0 = {0}" "\<forall>j. dir_rep (mounted t0 j) 0 [(0, dot), (0, dotdot)]" "card (used_blocks t0) \<le> 12"
    "unat (max_fs_blocks (sb_d t0)) = 128 * unat mb"
    by (rule mktestfs_ok [OF mb]) blast
  have I: "image f0 t0 [(0, dot), (0, dotdot)]" using F(2-5) by (simp add: image_def dir_ok_def dot_def dotdot_def)
  have "1 \<le> unat mb" using mb(1) by (simp add: word_le_nat_alt)
  note rm = new_room [OF F(6,7) this nm(4) d(2)]
  show ?thesis
  proof (rule write_run [OF I F(4) rm nm d, of n strerror fuel e j])
    fix f1 t1 es k
    assume W: "testfs_main n strerror fuel ample True False e j
        [words_line [lit ''create'', name] @ [10], words_line [lit ''write'', name, dec_nat 0, data] @ [10]] (Some f0) = Inr ([], [], f1)"
      "image f1 t1 es" "dir_lookup es name = Some (int k)" "\<And>j. file_holds (mounted t1 j) k data"
    have "length data \<le> MAX_DIR" using d(2) by simp
    then show ?thesis using read_run [OF W(2-4) nm(1) d(1), of n strerror fuel e j] F(1) W(1) by metis
  qed
qed

section \<open>Two errors in the words of a line\<close>

text \<open>A command without arguments calls \<open>strtok_r\<close> with two NULL pointers, whatever the number of arguments it takes.\<close>

lemma parse_command_null: "parse_command False k c name None = Inl Bad_access"
proof -
  have "parse_words False j None None [name] = (if j = 0 then Inr ([name], None, None) else Inl Bad_access)" for j
    by (cases j) (simp_all add: strtok_r_def)
  then show ?thesis by (simp add: parse_command_def strtok_r_def)
qed

lemma shell_line_no_args: "shell_line False strerror tbl verbose sh (lit ''ls'' @ [10]) = (if List.find (\<lambda>k. c_name k = lit ''ls'') tbl = None
    then Inr ((if verbose then lit ''ls'' @ [10] else []), lit ''ls: command not found. type '' @ [34] @ lit ''help'' @ [34, 10], sh) else Inl Bad_access)"
  by (auto simp: shell_line_def strtok_r_def lit_def handle_command_def parse_command_null split: option.splits)

text \<open>Blanks behind the name of a command are its argument: the first scan finds no word, and the second starts again at the blanks.\<close>

lemma parse_command_blank:
  "parse_command n 2 c name (Some [32]) = Inr (c\<lparr>cmd := [name, [32]], nargs := 2\<rparr>)"
proof -
  have e: "(2 :: nat) - 1 = Suc 0" by simp
  show ?thesis unfolding parse_command_def e by (simp add: strtok_r_def)
qed

section \<open>The properties\<close>

text \<open>C1.
  From making a file system to reading a file back, over three runs of the programs: on the device that mktestfs has made (of 1 to 8192 MB), a run of
  testfs with the lines \<open>create NAME\<close> and \<open>write NAME 0 DATA\<close> prints nothing and ends, and on the device it leaves, a run with the line
  \<open>read NAME 0 LENGTH\<close> prints DATA. This goes through the words of the lines, the table of commands, directories, inodes, block trees, free maps
  and the bytes of the device. The name and the data are words (no blanks, no NUL), the data has at most 200000 bytes, so that it fits on the smallest device.\<close>

theorem testfs_write_then_read:
  assumes "1 \<le> mb" "mb \<le> 8192" "word name" "name \<noteq> dot" "name \<noteq> dotdot" "length name < 100" "word data" "length data \<le> 200000"
  shows "\<exists>f0 f1 f2. mktestfs True dev_name mb e ample j = Inr f0 \<and>
    testfs_main n strerror fuel ample True False e j
      [words_line [lit ''create'', name] @ [10], words_line [lit ''write'', name, dec_nat 0, data] @ [10]] (Some f0) = Inr ([], [], f1) \<and>
    testfs_main n strerror fuel ample True False e j [words_line [lit ''read'', name, dec_nat 0, dec_nat (length data)] @ [10]] (Some f1) =
      Inr (data @ [10], [], f2)"
  by (rule write_then_read [OF assms])

theorem testfs_write_then_read_witness:
  "\<exists>f0 f1 f2. mktestfs True [] 2 0 ample (\<lambda>_. 0) = Inr f0 \<and>
    testfs_main False (\<lambda>_. []) 0 ample True False 0 (\<lambda>_. 0)
      [words_line [lit ''create'', [102]] @ [10], words_line [lit ''write'', [102], dec_nat 0, [72, 105]] @ [10]] (Some f0) = Inr ([], [], f1) \<and>
    testfs_main False (\<lambda>_. []) 0 ample True False 0 (\<lambda>_. 0) [words_line [lit ''read'', [102], dec_nat 0, dec_nat (length [72, 105 :: u8])] @ [10]] (Some f1) =
      Inr ([72, 105] @ [10], [], f2)"
  by (rule testfs_write_then_read) (simp_all add: word_def dot_def dotdot_def)

text \<open>C35.
  mktestfs makes a file system for exactly the sizes of 1 to 8192 MB: then the device mounts, the mounted file system is well-formed and has 128
  blocks for each MB, and in it there is the root directory, empty, and nothing else; for every other size it ends with a message.\<close>

theorem mktestfs_spec:
  "if 1 \<le> mb \<and> mb \<le> 8192
   then \<exists>f t. mktestfs True dev_name mb e ample j = Inr f \<and> image f t [(0, dot), (0, dotdot)] \<and> used_inodes t = {0} \<and>
     card (used_blocks t) \<le> 12 \<and> unat (max_fs_blocks (sb_d t)) = 128 * unat mb
   else \<exists>msg. mktestfs True dev_name mb e ample j = Inl (Exit_with msg)"
proof (cases "1 \<le> mb \<and> mb \<le> 8192")
  case True
  then have mb: "1 \<le> mb" "mb \<le> 8192" by simp_all
  obtain f t where F: "mktestfs True dev_name mb e ample j = Inr f"
    "\<forall>e j. testfs_mount (\<lambda>_. True) e (Some f) j = Inr (0, Some (mounted t j))" "\<forall>j. fs_wf (mounted t j)"
    "used_inodes t = {0}" "\<forall>j. dir_rep (mounted t j) 0 [(0, dot), (0, dotdot)]" "card (used_blocks t) \<le> 12"
    "unat (max_fs_blocks (sb_d t)) = 128 * unat mb"
    by (rule mktestfs_ok [OF mb]) blast
  have "image f t [(0, dot), (0, dotdot)]" using F(2-5) by (simp add: image_def dir_ok_def dot_def dotdot_def)
  then show ?thesis using True F(1,4,6,7) by auto
next
  case False
  then have "mb < 1 \<or> mb > 8192" by (simp only: de_Morgan_conj not_le)
  then show ?thesis using False by (auto simp: mktestfs_def)
qed

text \<open>C36.
  Unmounting and mounting: closing a file system in which no inode is in memory leaves a device that mounts, whatever the time, as a well-formed file
  system that stores the same: the counters, the inodes and blocks in use, every inode and every byte of every file and directory.\<close>

theorem testfs_unmount_mount:
  assumes "fs_wf w" "released w"
  shows "\<exists>f t. testfs_unmount w = Inr f \<and>
    (\<forall>e j. testfs_mount (\<lambda>_. True) e (Some f) j = Inr (0, Some (mounted t j)) \<and> fs_wf (mounted t j) \<and> same_store w (mounted t j))"
  by (rule unmount_mount [OF assms]) blast

theorem testfs_unmount_mount_witness:
  "\<exists>w f t. used_inodes (sbk w) = {0} \<and> testfs_unmount w = Inr f \<and> testfs_mount (\<lambda>_. True) 0 (Some f) (\<lambda>_. 0) = Inr (0, Some (mounted t (\<lambda>_. 0)))"
proof (cases rule: create_root [of 20 "\<lambda>_. 0"])
  case (1 w)
  have "released w" by (rule released_refs [OF 1(2)]) (use 1(3,5) in simp)
  then show ?thesis using testfs_unmount_mount [OF 1(2)] 1(3) by blast
qed simp

end
