(* ===== verification/Bounded_Queue.thy ===== *)
theory Bounded_Queue
  imports C_Prelude
begin

text \<open>
  The contract of a bounded first-in first-out queue between a producer and its consumers: \<open>put\<close> also
  answers whether the queue was empty and \<open>take\<close> whether it was full, which is when the other side is signalled.
\<close>

locale bounded_queue =
  fixes wf :: "'q \<Rightarrow> bool"
    and cap :: "'q \<Rightarrow> nat"
    and items :: "'q \<Rightarrow> 'a list"
    and put :: "'q \<Rightarrow> 'a \<Rightarrow> (bool \<times> 'q) res"
    and take_out :: "'q \<Rightarrow> ('a \<times> bool \<times> 'q) res"
  assumes bound: "wf q \<Longrightarrow> length (items q) \<le> cap q"
    and put_ok: "wf q \<Longrightarrow> length (items q) < cap q \<Longrightarrow>
      \<exists>q'. put q x = Inr (items q = [], q') \<and> wf q' \<and> cap q' = cap q \<and> items q' = items q @ [x]"
    and take_ok: "wf q \<Longrightarrow> items q = x # xs \<Longrightarrow>
      \<exists>q'. take_out q = Inr (x, length (items q) = cap q, q') \<and> wf q' \<and> cap q' = cap q \<and> items q' = xs"
begin

fun put_all :: "'q \<Rightarrow> 'a list \<Rightarrow> 'q res" where
  "put_all q [] = Inr q"
| "put_all q (x # xs) = rbind (put q x) (\<lambda>(_, q). put_all q xs)"

fun take_all :: "nat \<Rightarrow> 'q \<Rightarrow> ('a list \<times> 'q) res" where
  "take_all 0 q = Inr ([], q)"
| "take_all (Suc n) q = rbind (take_out q) (\<lambda>(x, _, q). rbind (take_all n q) (\<lambda>(xs, q). Inr (x # xs, q)))"

lemma put_all_ok:
  "wf q \<Longrightarrow> length (items q) + length xs \<le> cap q \<Longrightarrow>
    \<exists>q'. put_all q xs = Inr q' \<and> wf q' \<and> cap q' = cap q \<and> items q' = items q @ xs"
proof (induction xs arbitrary: q)
  case (Cons x xs)
  obtain q1 where q1: "put q x = Inr (items q = [], q1)" "wf q1" "cap q1 = cap q" "items q1 = items q @ [x]"
    using put_ok [OF Cons.prems(1), of x] Cons.prems(2) by auto
  then show ?case using Cons.IH [OF q1(2)] Cons.prems(2) by auto
qed simp

lemma take_all_ok:
  "wf q \<Longrightarrow> items q = xs @ ys \<Longrightarrow>
    \<exists>q'. take_all (length xs) q = Inr (xs, q') \<and> wf q' \<and> cap q' = cap q \<and> items q' = ys"
proof (induction xs arbitrary: q)
  case (Cons x xs)
  obtain q1 where q1: "take_out q = Inr (x, length (items q) = cap q, q1)" "wf q1" "cap q1 = cap q" "items q1 = xs @ ys"
    using take_ok [OF Cons.prems(1), of x "xs @ ys"] Cons.prems(2) by auto
  then show ?case using Cons.IH [OF q1(2,4)] by auto
qed simp

text \<open>What is put comes out, in order.\<close>

lemma put_take:
  assumes "wf q" "items q = []" "length xs \<le> cap q"
  shows "\<exists>q'. rbind (put_all q xs) (take_all (length xs)) = Inr (xs, q') \<and> wf q' \<and> items q' = []"
proof -
  obtain q1 where q1: "put_all q xs = Inr q1" "wf q1" "items q1 = xs @ []"
    using put_all_ok [OF assms(1), of xs] assms(2,3) by auto
  then show ?thesis using take_all_ok [OF q1(2,3)] by auto
qed

end

end
