(* ===== verification/Request_Queue.thy ===== *)
theory Request_Queue
  imports Bounded_Queue
begin

unbundle bit_operations_syntax

text \<open>
  The queue of accepted connections of the web server, webserver/server_thread.c: a ring buffer of
  \<open>max_requests + 1\<close> slots between the main thread (\<open>server_request\<close>) and the worker threads
  (\<open>stub_func\<close>). The two critical sections are functions on \<open>struct server\<close>; they answer whether they
  signal the condition variable of the other side. The threads around it are the step relation of theory Server_Steps.

  Lemmas: the ring buffer is a bounded queue.
\<close>

section \<open>The ring buffer\<close>

record server =
  nr_threads :: int
  max_requests :: int
  max_cache_size :: int
  buf :: "int list"
  sv_in :: int
  sv_out :: int

definition load_buf :: "server \<Rightarrow> int \<Rightarrow> int res" where
  "load_buf sv i = (if 0 \<le> i \<and> nat i < length (buf sv) then Inr (buf sv ! nat i) else Inl Bad_access)"

definition store_buf :: "server \<Rightarrow> int \<Rightarrow> int \<Rightarrow> server res" where
  "store_buf sv i x = (if 0 \<le> i \<and> nat i < length (buf sv) then Inr (sv\<lparr>buf := (buf sv)[nat i := x]\<rparr>) else Inl Bad_access)"

text \<open>The fields that \<open>server_init\<close> sets for the queue; \<open>old\<close> and \<open>junk\<close> are what the allocated structure and the allocated
  buffer hold before. A negative number of slots is a size that malloc cannot give: then \<open>buf\<close> is NULL.\<close>

definition server_init :: "int \<Rightarrow> int \<Rightarrow> int \<Rightarrow> server \<Rightarrow> (nat \<Rightarrow> int) \<Rightarrow> server" where
  "server_init nr_threads0 max_requests0 max_cache_size0 old junk =
     (let sv = old\<lparr>nr_threads := nr_threads0, max_requests := max_requests0, max_cache_size := max_cache_size0, buf := []\<rparr> in
      if nr_threads0 > 0 \<or> max_requests0 > 0 \<or> max_cache_size0 > 0
      then sv\<lparr>buf := map junk [0..<nat (c_int (max_requests0 + 1))], sv_in := 0, sv_out := 0\<rparr>
      else sv)"

definition queue_full :: "server \<Rightarrow> bool" where
  "queue_full sv \<longleftrightarrow>
     c_int (c_int (sv_in sv - sv_out sv) + c_int (max_requests sv + 1)) smod c_int (max_requests sv + 1) = max_requests sv"

definition queue_empty :: "server \<Rightarrow> bool" where
  "queue_empty sv \<longleftrightarrow> sv_in sv = sv_out sv"

text \<open>The rest of the critical section of \<open>server_request\<close>, once the queue is not full: is \<open>cv_empty\<close> signalled?\<close>

definition put_request :: "server \<Rightarrow> int \<Rightarrow> (bool \<times> server) res" where
  "put_request sv connfd =
     rbind (store_buf sv (sv_in sv) connfd) (\<lambda>sv.
     Inr (queue_empty sv, sv\<lparr>sv_in := c_int (sv_in sv + 1) smod c_int (max_requests sv + 1)\<rparr>))"

text \<open>The rest of the critical section of \<open>stub_func\<close>, once the queue is not empty: the connection, and is \<open>cv_full\<close> signalled?\<close>

definition take_request :: "server \<Rightarrow> (int \<times> bool \<times> server) res" where
  "take_request sv =
     rbind (load_buf sv (sv_out sv)) (\<lambda>msg.
     Inr (msg, queue_full sv, sv\<lparr>sv_out := c_int (sv_out sv + 1) smod c_int (max_requests sv + 1)\<rparr>))"

section \<open>The ring buffer is a bounded queue\<close>

definition slots :: "server \<Rightarrow> nat" where
  "slots sv = nat (max_requests sv + 1)"

definition pending_len :: "server \<Rightarrow> nat" where
  "pending_len sv = (nat (sv_in sv) + slots sv - nat (sv_out sv)) mod slots sv"

definition pending :: "server \<Rightarrow> int list" where
  "pending sv = map (\<lambda>k. buf sv ! ((nat (sv_out sv) + k) mod slots sv)) [0..<pending_len sv]"

definition server_wf :: "server \<Rightarrow> bool" where
  "server_wf sv \<longleftrightarrow> 0 \<le> max_requests sv \<and> max_requests sv < 2 ^ 30 \<and> length (buf sv) = slots sv \<and>
     0 \<le> sv_in sv \<and> sv_in sv \<le> max_requests sv \<and> 0 \<le> sv_out sv \<and> sv_out sv \<le> max_requests sv"

lemma server_wf_nat:
  assumes "server_wf sv"
  obtains N i j where "0 < N" "slots sv = N" "max_requests sv = int N - 1" "sv_in sv = int i" "sv_out sv = int j" "i < N" "j < N"
    "length (buf sv) = N" "N \<le> 2 ^ 30"
proof (rule that [of "slots sv" "nat (sv_in sv)" "nat (sv_out sv)"])
qed (use assms in \<open>auto simp: server_wf_def slots_def\<close>)

lemma pending_empty: "server_wf sv \<Longrightarrow> pending sv = [] \<longleftrightarrow> queue_empty sv"
proof (elim server_wf_nat)
  fix N i j assume A: "slots sv = N" "sv_in sv = int i" "sv_out sv = int j" "i < N" "j < N"
  have "(i + N - j) mod N = 0 \<longleftrightarrow> i = j"
  proof (cases "j \<le> i")
    case True
    then have "(i + N - j) mod N = i - j" using A(4) by (simp add: le_mod_geq)
    then show ?thesis using True by simp
  qed (use A(4,5) in simp)
  then show ?thesis using A by (simp add: pending_def pending_len_def queue_empty_def)
qed

lemma pending_full: "server_wf sv \<Longrightarrow> queue_full sv \<longleftrightarrow> pending_len sv = nat (max_requests sv)"
proof (elim server_wf_nat)
  fix N i j assume A: "0 < N" "slots sv = N" "max_requests sv = int N - 1" "sv_in sv = int i" "sv_out sv = int j" "i < N" "j < N" "N \<le> 2 ^ 30"
  have "int ((i + N - j) mod N) = (int i - int j + int N) mod int N"
    using A(7) by (simp add: of_nat_mod of_nat_diff algebra_simps)
  moreover have "c_int (c_int (int i - int j) + c_int (int N)) smod c_int (int N) = (int i - int j + int N) smod int N"
    using A(6-8) by (simp add: c_int_id)
  moreover have "(int i - int j + int N) smod int N = (int i - int j + int N) mod int N"
    using A(1,7) by (intro smod_nonneg) simp_all
  ultimately show ?thesis using A by (auto simp: queue_full_def pending_len_def)
qed

lemma ring_inc: "0 < N \<Longrightarrow> i < N \<Longrightarrow> N \<le> 2 ^ 30 \<Longrightarrow> c_int (int i + 1) smod c_int (int N) = int (Suc i mod N)"
  by (simp add: c_int_id smod_nonneg of_nat_mod add.commute)

lemma put_request_ok:
  assumes "server_wf sv" "\<not> queue_full sv"
  shows "\<exists>sv'. put_request sv x = Inr (queue_empty sv, sv') \<and> server_wf sv' \<and> max_requests sv' = max_requests sv \<and>
    nr_threads sv' = nr_threads sv \<and> pending sv' = pending sv @ [x]"
proof (rule server_wf_nat [OF assms(1)])
  fix N i j
  assume A: "0 < N" "slots sv = N" "max_requests sv = int N - 1" "sv_in sv = int i" "sv_out sv = int j" "i < N" "j < N" "length (buf sv) = N" "N \<le> 2 ^ 30"
  let ?n = "(i + N - j) mod N" and ?sv = "sv\<lparr>buf := (buf sv)[i := x], sv_in := int (Suc i mod N)\<rparr>"
  have r: "put_request sv x = Inr (queue_empty sv, ?sv)"
    using A ring_inc [of N i] by (simp add: put_request_def store_buf_def queue_empty_def)
  have "?n \<noteq> N - 1" using pending_full [OF assms(1)] assms(2) A(1-5) by (simp add: pending_len_def nat_diff_distrib)
  then have n: "?n < N - 1" using mod_less_divisor [OF A(1), of "i + N - j"] by linarith
  have n': "(Suc i mod N + N - j) mod N = Suc ?n"
  proof -
    have "(Suc i mod N + N - j) mod N = (Suc i mod N + (N - j)) mod N" using A(7) by simp
    also have "\<dots> = (Suc i + (N - j)) mod N" by (simp add: mod_add_left_eq)
    also have "\<dots> = Suc (i + N - j) mod N" using A(7) by simp
    also have "\<dots> = Suc ?n" using n by (simp add: mod_Suc)
    finally show ?thesis .
  qed
  have ji: "(j + ?n) mod N = i"
  proof -
    have "(j + ?n) mod N = (j + (i + N - j)) mod N" by (simp add: mod_add_right_eq)
    also have "\<dots> = i" using A(6,7) by simp
    finally show ?thesis .
  qed
  have other: "(j + k) mod N \<noteq> i" if "k < ?n" for k
  proof -
    have n_eq: "?n = (if j \<le> i then i - j else i + N - j)" using A(6,7) by (auto simp: le_mod_geq)
    have "(j + k) mod N = (if j + k < N then j + k else j + k - N)"
      using that n A(7) by (auto simp: le_mod_geq)
    then show ?thesis using that n_eq A(6,7) by (auto split: if_splits)
  qed
  have same: "(buf sv)[i := x] ! ((j + k) mod N) = buf sv ! ((j + k) mod N)" if "k < ?n" for k
    using other [OF that] by simp
  have "map (\<lambda>k. (buf sv)[i := x] ! ((j + k) mod N)) [0..<Suc ?n] = map (\<lambda>k. buf sv ! ((j + k) mod N)) [0..<?n] @ [x]"
    using same ji A(6,8) by simp
  then have "pending ?sv = pending sv @ [x]"
    using A n' by (simp add: pending_def pending_len_def slots_def del: upt_Suc)
  moreover have "server_wf ?sv" using assms(1) A by (auto simp: server_wf_def slots_def)
  ultimately show ?thesis using r by (intro exI [of _ ?sv]) simp
qed

lemma take_request_ok:
  assumes "server_wf sv" "pending sv = x # xs"
  shows "\<exists>sv'. take_request sv = Inr (x, queue_full sv, sv') \<and> server_wf sv' \<and> max_requests sv' = max_requests sv \<and>
    nr_threads sv' = nr_threads sv \<and> pending sv' = xs"
proof (rule server_wf_nat [OF assms(1)])
  fix N i j
  assume A: "0 < N" "slots sv = N" "max_requests sv = int N - 1" "sv_in sv = int i" "sv_out sv = int j" "i < N" "j < N" "length (buf sv) = N" "N \<le> 2 ^ 30"
  let ?n = "(i + N - j) mod N" and ?sv = "sv\<lparr>sv_out := int (Suc j mod N)\<rparr>"
  have n: "0 < ?n" using assms(2) A by (cases ?n) (simp_all add: pending_def pending_len_def)
  then obtain n1 where n1: "?n = Suc n1" by (cases ?n) auto
  have x: "x = buf sv ! j" "xs = map (\<lambda>k. buf sv ! ((j + Suc k) mod N)) [0..<n1]"
    using assms(2) A n1 by (auto simp: pending_def pending_len_def upt_conv_Cons map_Suc_upt [symmetric] simp del: upt_Suc)
  have r: "take_request sv = Inr (x, queue_full sv, ?sv)"
    using A ring_inc [of N j] x(1) by (simp add: take_request_def load_buf_def)
  have n': "(i + N - Suc j mod N) mod N = n1"
  proof (cases "Suc j = N")
    case True
    then have "i + N - j = Suc i" by linarith
    then have "Suc i mod N = Suc n1" using n1 by simp
    then have "i = n1" using A(6) by (cases "Suc i = N") auto
    then show ?thesis using True A(6) by simp
  next
    case False
    then have "Suc j < N" using A(7) by simp
    moreover have "i + N - j = Suc (i + N - Suc j)" using A(7) by simp
    ultimately show ?thesis using n1 by (simp add: mod_Suc split: if_splits)
  qed
  have e: "(Suc j mod N + k) mod N = (j + Suc k) mod N" for k by (simp add: mod_add_left_eq)
  have "pending ?sv = xs"
    unfolding x(2) using A(1-5) n' by (simp add: pending_def pending_len_def slots_def e del: add_Suc_right)
  moreover have "server_wf ?sv" using assms(1) A by (auto simp: server_wf_def slots_def)
  ultimately show ?thesis using r by (intro exI [of _ ?sv]) simp
qed

lemma pending_bound: "server_wf sv \<Longrightarrow> length (pending sv) \<le> nat (max_requests sv)"
proof (elim server_wf_nat)
  fix N i j assume A: "0 < N" "slots sv = N" "max_requests sv = int N - 1"
  then show ?thesis using mod_less_divisor [OF A(1), of "nat (sv_in sv) + N - nat (sv_out sv)"] by (simp add: pending_def pending_len_def)
qed

interpretation request_queue: bounded_queue server_wf "\<lambda>sv. nat (max_requests sv)" pending put_request take_request
proof unfold_locales
  fix q :: server and x :: int and xs
  assume wf: "server_wf q"
  have len: "length (pending q) = pending_len q" by (simp add: pending_def)
  show "length (pending q) \<le> nat (max_requests q)" by (rule pending_bound [OF wf])
  show "\<exists>q'. put_request q x = Inr (pending q = [], q') \<and> server_wf q' \<and> nat (max_requests q') = nat (max_requests q) \<and> pending q' = pending q @ [x]"
    if "length (pending q) < nat (max_requests q)"
    using put_request_ok [OF wf, of x] pending_full [OF wf] pending_empty [OF wf] that len by auto
  show "\<exists>q'. take_request q = Inr (x, length (pending q) = nat (max_requests q), q') \<and> server_wf q' \<and>
      nat (max_requests q') = nat (max_requests q) \<and> pending q' = xs" if "pending q = x # xs"
    using take_request_ok [OF wf that] pending_full [OF wf] len by auto
qed

lemma server_init_wf: "0 \<le> m \<Longrightarrow> m < 2 ^ 30 \<Longrightarrow> 0 < n \<or> 0 < m \<or> 0 < c \<Longrightarrow>
    server_wf (server_init n m c old junk) \<and> pending (server_init n m c old junk) = []"
  by (auto simp: server_wf_def server_init_def pending_def pending_len_def slots_def c_int_id)

text \<open>Beyond that, the sum in the test for a full queue overflows an int: a ring buffer with all its slots in use is not found full.\<close>

lemma queue_full_overflow:
  assumes "2 ^ 30 \<le> max_requests sv" "max_requests sv < 2 ^ 31 - 1" "sv_in sv = max_requests sv" "sv_out sv = 0"
  shows "pending_len sv = nat (max_requests sv) \<and> \<not> queue_full sv"
proof
  let ?m = "max_requests sv"
  define k where "k = nat ?m"
  have k: "?m = int k" using assms(1) by (simp add: k_def)
  have "(k + Suc k) mod Suc k = k" by (subst mod_add_self2) simp
  then show "pending_len sv = nat ?m" using assms(3,4) k by (simp add: pending_len_def slots_def nat_add_distrib)
  have "(2 * ?m + 1 + 2 ^ 31) mod 2 ^ 32 = (2 * ?m + 1 + 2 ^ 31 - 2 ^ 32) mod 2 ^ 32" by (simp only: minus_mod_self2)
  also have "\<dots> = 2 * ?m + 1 + 2 ^ 31 - 2 ^ 32" using assms(1,2) by (intro mod_pos_pos_trivial) simp_all
  finally have c: "c_int (2 * ?m + 1) = 2 * ?m + 1 - 2 ^ 32"
    by (simp add: c_int_def signed_take_bit_eq_take_bit_shift take_bit_eq_mod)
  have "c_int (2 * ?m + 1) < 0" unfolding c using assms(2) by simp
  then have "c_int (2 * ?m + 1) smod (?m + 1) \<le> 0" using assms(1) by (simp add: signed_modulo_int_def)
  moreover have "c_int (?m - 0) + c_int (?m + 1) = 2 * ?m + 1" "c_int (?m + 1) = ?m + 1" using assms(1,2) by (simp_all add: c_int_id)
  ultimately have "c_int (c_int (sv_in sv - sv_out sv) + c_int (?m + 1)) smod c_int (?m + 1) \<le> 0" using assms(3,4) by metis
  then show "\<not> queue_full sv" using assms(1) by (simp add: queue_full_def)
qed

end
