(* ===== verification/Server_Steps.thy ===== *)
theory Server_Steps
  imports Request_Queue
begin

text \<open>
  The threads of the web server around the request queue: the main thread, which accepts connections and calls
  \<open>server_request\<close>, and the workers in \<open>stub_func\<close>. A step is a critical section, which runs under the lock from where it
  has it to where it gives it back, in \<open>pthread_cond_wait\<close> or at its end, or the serving of a connection; without workers
  the main thread serves each connection itself.
  Invariants by rule induction over the reachable states: first-in first-out delivery without loss or duplication,
  the bound of the queue, that the main thread does not miss its wake-up, and that a worker is awake while a connection waits; not all
  the workers that could serve are woken, though (\<open>worker_left_asleep\<close>).
\<close>

section \<open>Steps\<close>

datatype main_pc = Accepting | Has (connection: int) | Waiting_full int
datatype worker_pc = Ready | Waiting_empty | Serving int

record server_sys =
  sv :: server
  main_at :: main_pc
  workers :: "worker_pc list"
  accepted :: "int list"
  taken :: "int list"

text \<open>\<open>accepted\<close>: the connections that have gone through \<open>server_request\<close>; \<open>taken\<close>: those handed to \<open>do_server_request\<close>.\<close>

definition start_server :: "int \<Rightarrow> int \<Rightarrow> int \<Rightarrow> server \<Rightarrow> (nat \<Rightarrow> int) \<Rightarrow> server_sys" where
  "start_server n m c old junk =
     \<lparr>sv = server_init n m c old junk, main_at = Accepting, workers = replicate (nat n) Ready, accepted = [], taken = []\<rparr>"

inductive server_step :: "server_sys \<Rightarrow> server_sys \<Rightarrow> bool" where
  accept: "main_at s = Accepting \<Longrightarrow> server_step s (s\<lparr>main_at := Has fd\<rparr>)"
| request_direct: "main_at s = Has fd \<Longrightarrow> nr_threads (sv s) = 0 \<Longrightarrow>
    server_step s (s\<lparr>main_at := Accepting, accepted := accepted s @ [fd], taken := taken s @ [fd]\<rparr>)"
| request_wait: "main_at s = Has fd \<Longrightarrow> nr_threads (sv s) \<noteq> 0 \<Longrightarrow> queue_full (sv s) \<Longrightarrow>
    server_step s (s\<lparr>main_at := Waiting_full fd\<rparr>)"
| request_put: "main_at s = Has fd \<Longrightarrow> nr_threads (sv s) \<noteq> 0 \<Longrightarrow> \<not> queue_full (sv s) \<Longrightarrow>
    put_request (sv s) fd = Inr (sig, q) \<Longrightarrow> \<not> sig \<or> Waiting_empty \<notin> set (workers s) \<Longrightarrow>
    server_step s (s\<lparr>sv := q, main_at := Accepting, accepted := accepted s @ [fd]\<rparr>)"
| request_put_signal: "main_at s = Has fd \<Longrightarrow> nr_threads (sv s) \<noteq> 0 \<Longrightarrow> \<not> queue_full (sv s) \<Longrightarrow>
    put_request (sv s) fd = Inr (True, q) \<Longrightarrow> i < length (workers s) \<Longrightarrow> workers s ! i = Waiting_empty \<Longrightarrow>
    server_step s (s\<lparr>sv := q, main_at := Accepting, workers := (workers s)[i := Ready], accepted := accepted s @ [fd]\<rparr>)"
| request_wake: "main_at s = Waiting_full fd \<Longrightarrow> server_step s (s\<lparr>main_at := Has fd\<rparr>)"
| worker_wait: "i < length (workers s) \<Longrightarrow> workers s ! i = Ready \<Longrightarrow> queue_empty (sv s) \<Longrightarrow>
    server_step s (s\<lparr>workers := (workers s)[i := Waiting_empty]\<rparr>)"
| worker_take: "i < length (workers s) \<Longrightarrow> workers s ! i = Ready \<Longrightarrow> \<not> queue_empty (sv s) \<Longrightarrow>
    take_request (sv s) = Inr (msg, sig, q) \<Longrightarrow>
    m = (case main_at s of Waiting_full fd \<Rightarrow> if sig then Has fd else Waiting_full fd | pc \<Rightarrow> pc) \<Longrightarrow>
    server_step s (s\<lparr>sv := q, main_at := m, workers := (workers s)[i := Serving msg], taken := taken s @ [msg]\<rparr>)"
| worker_served: "i < length (workers s) \<Longrightarrow> workers s ! i = Serving msg \<Longrightarrow>
    server_step s (s\<lparr>workers := (workers s)[i := Ready]\<rparr>)"
| worker_wake: "i < length (workers s) \<Longrightarrow> workers s ! i = Waiting_empty \<Longrightarrow>
    server_step s (s\<lparr>workers := (workers s)[i := Ready]\<rparr>)"

inductive reachable :: "server_sys \<Rightarrow> server_sys \<Rightarrow> bool" for s0 where
  start: "reachable s0 s0"
| step: "reachable s0 s \<Longrightarrow> server_step s t \<Longrightarrow> reachable s0 t"

lemma put_request_params: "put_request q x = Inr (sig, q') \<Longrightarrow> max_requests q' = max_requests q \<and> nr_threads q' = nr_threads q"
  by (auto simp: put_request_def store_buf_def split: if_splits)

lemma take_request_params: "take_request q = Inr (x, sig, q') \<Longrightarrow> max_requests q' = max_requests q \<and> nr_threads q' = nr_threads q"
  by (auto simp: take_request_def elim!: rbind_eq_InrE)

lemma step_params: "server_step s t \<Longrightarrow>
    max_requests (sv t) = max_requests (sv s) \<and> nr_threads (sv t) = nr_threads (sv s) \<and> length (workers t) = length (workers s)"
  by (induction rule: server_step.induct) (auto dest: put_request_params take_request_params)

lemma reachable_params:
  assumes "reachable (start_server n m c old junk) s"
  shows "max_requests (sv s) = m" "nr_threads (sv s) = n" "length (workers s) = nat n"
proof -
  have "max_requests (sv s) = m \<and> nr_threads (sv s) = n \<and> length (workers s) = nat n"
    using assms
  proof (induction rule: reachable.induct)
    case start
    then show ?case by (simp add: start_server_def server_init_def Let_def)
  qed (simp add: step_params)
  then show "max_requests (sv s) = m" "nr_threads (sv s) = n" "length (workers s) = nat n" by simp_all
qed

section \<open>The invariant\<close>

definition sys_inv :: "server_sys \<Rightarrow> bool" where
  "sys_inv s \<longleftrightarrow> server_wf (sv s) \<and> accepted s = taken s @ pending (sv s) \<and>
     (pending (sv s) \<noteq> [] \<longrightarrow> workers s \<noteq> [] \<longrightarrow> (\<exists>w\<in>set (workers s). w \<noteq> Waiting_empty)) \<and>
     (\<forall>fd. main_at s = Waiting_full fd \<longrightarrow> queue_full (sv s) \<and> nr_threads (sv s) \<noteq> 0) \<and>
     (nr_threads (sv s) = 0 \<longrightarrow> pending (sv s) = [])"

lemma sys_invD:
  assumes "sys_inv s"
  shows "server_wf (sv s)" "accepted s = taken s @ pending (sv s)"
    "pending (sv s) \<noteq> [] \<Longrightarrow> workers s \<noteq> [] \<Longrightarrow> \<exists>w\<in>set (workers s). w \<noteq> Waiting_empty"
    "main_at s = Waiting_full fd \<Longrightarrow> queue_full (sv s)" "main_at s = Waiting_full fd \<Longrightarrow> nr_threads (sv s) \<noteq> 0"
    "nr_threads (sv s) = 0 \<Longrightarrow> pending (sv s) = []"
  using assms by (auto simp: sys_inv_def)

lemma awake_update: "i < length ws \<Longrightarrow> w \<noteq> Waiting_empty \<Longrightarrow> \<exists>v\<in>set (ws[i := w]). v \<noteq> Waiting_empty"
  by (meson set_update_memI)

lemma start_inv: "0 \<le> m \<Longrightarrow> m < 2 ^ 30 \<Longrightarrow> 0 < n \<or> 0 < m \<or> 0 < c \<Longrightarrow> sys_inv (start_server n m c old junk)"
  using server_init_wf [of m n c old junk] by (simp add: sys_inv_def start_server_def)

lemma step_inv: "server_step s t \<Longrightarrow> sys_inv s \<Longrightarrow> sys_inv t"
proof (induction rule: server_step.induct)
  case (request_direct s fd)
  note I = sys_invD [OF request_direct(3)]
  then show ?case using request_direct(2) by (simp add: sys_inv_def)
next
  case (request_put s fd sig q)
  note I = sys_invD [OF request_put(6)]
  obtain q' where q: "put_request (sv s) fd = Inr (queue_empty (sv s), q')" "server_wf q'" "pending q' = pending (sv s) @ [fd]"
      "nr_threads q' = nr_threads (sv s)"
    using put_request_ok [OF I(1) request_put(3)] by blast
  have e: "q = q'" "sig = queue_empty (sv s)" using q(1) request_put(4) by simp_all
  have "\<exists>w\<in>set (workers s). w \<noteq> Waiting_empty" if ne: "workers s \<noteq> []"
  proof (cases "pending (sv s) = []")
    case True
    then have "sig" using e(2) pending_empty [OF I(1)] by simp
    then have "Waiting_empty \<notin> set (workers s)" using request_put(5) by simp
    then show ?thesis using ne by (metis last_in_set)
  next
    case False
    then show ?thesis using I(3) ne by blast
  qed
  then show ?case using I(2) q(2-4) e request_put(2) by (simp add: sys_inv_def)
next
  case (request_put_signal s fd q i)
  note I = sys_invD [OF request_put_signal(7)]
  obtain q' where q: "put_request (sv s) fd = Inr (queue_empty (sv s), q')" "server_wf q'" "pending q' = pending (sv s) @ [fd]"
      "nr_threads q' = nr_threads (sv s)"
    using put_request_ok [OF I(1) request_put_signal(3)] by blast
  have "q = q'" using q(1) request_put_signal(4) by simp
  then show ?case using I(2) q(2-4) request_put_signal(2) awake_update [OF request_put_signal(5), of Ready] by (simp add: sys_inv_def)
next
  case (worker_take i s msg sig q m)
  note I = sys_invD [OF worker_take(6)]
  obtain x xs where p: "pending (sv s) = x # xs" using pending_empty [OF I(1)] worker_take(3) by (cases "pending (sv s)") auto
  obtain q' where q: "take_request (sv s) = Inr (x, queue_full (sv s), q')" "server_wf q'" "pending q' = xs" "nr_threads q' = nr_threads (sv s)"
    using take_request_ok [OF I(1) p] by blast
  have e: "q = q'" "sig = queue_full (sv s)" "msg = x" using q(1) worker_take(4) by simp_all
  have m: "m \<noteq> Waiting_full fd" for fd
    using worker_take(5) e(2) I(4) by (auto split: main_pc.splits if_splits)
  have "nr_threads (sv s) \<noteq> 0" using I(6) p by auto
  then show ?case
    using I(2) q(2-4) e(1,3) p m awake_update [OF worker_take(1), of "Serving x"] by (simp add: sys_inv_def)
next
  case (worker_wait i s)
  note I = sys_invD [OF worker_wait(4)]
  have "pending (sv s) = []" using pending_empty [OF I(1)] worker_wait(3) by simp
  then show ?case using I by (simp add: sys_inv_def)
next
  case (worker_served i s msg)
  then show ?case using awake_update [of i "workers s" Ready] by (simp add: sys_inv_def)
next
  case (worker_wake i s)
  then show ?case using awake_update [of i "workers s" Ready] by (simp add: sys_inv_def)
qed (auto simp: sys_inv_def)

lemma reachable_inv: "reachable (start_server n m c old junk) s \<Longrightarrow> 0 \<le> m \<Longrightarrow> m < 2 ^ 30 \<Longrightarrow> 0 < n \<or> 0 < m \<or> 0 < c \<Longrightarrow> sys_inv s"
proof (induction rule: reachable.induct)
  case start
  then show ?case by (rule start_inv)
next
  case (step s t)
  then show ?case using step_inv by blast
qed

text \<open>When all three arguments are 0, nothing of the queue is allocated; the main thread serves every connection.\<close>

lemma queue_full_0: "max_requests q = 0 \<Longrightarrow> queue_full q"
  by (simp add: queue_full_def c_int_id signed_modulo_int_def)

lemma pending_0: "max_requests q = 0 \<Longrightarrow> pending q = []"
  by (simp add: pending_def pending_len_def slots_def)

lemma no_queue_inv:
  assumes "reachable s0 s" "max_requests (sv s0) = 0" "workers s0 = []" "accepted s0 = taken s0" "\<forall>fd. main_at s0 \<noteq> Waiting_full fd"
  shows "max_requests (sv s) = 0 \<and> workers s = [] \<and> accepted s = taken s \<and> (nr_threads (sv s) = 0 \<longrightarrow> (\<forall>fd. main_at s \<noteq> Waiting_full fd))"
  using assms
proof (induction rule: reachable.induct)
  case (step s t)
  then have s: "max_requests (sv s) = 0" "workers s = []" "accepted s = taken s" "nr_threads (sv s) = 0 \<longrightarrow> (\<forall>fd. main_at s \<noteq> Waiting_full fd)" by auto
  show ?case using step(2) s queue_full_0 [OF s(1)] by (cases rule: server_step.cases) auto
qed simp

lemma reachable_cases:
  assumes "reachable (start_server n m c old junk) s" "0 \<le> m" "m < 2 ^ 30"
  obtains (queue) "sys_inv s"
  | (none) "n \<le> 0" "m = 0" "workers s = []" "accepted s = taken s" "pending (sv s) = []" "n = 0 \<Longrightarrow> \<forall>fd. main_at s \<noteq> Waiting_full fd"
proof (cases "0 < n \<or> 0 < m \<or> 0 < c")
  case True
  then show ?thesis using queue reachable_inv [OF assms] by blast
next
  case False
  have "max_requests (sv s) = 0 \<and> workers s = [] \<and> accepted s = taken s \<and> (nr_threads (sv s) = 0 \<longrightarrow> (\<forall>fd. main_at s \<noteq> Waiting_full fd))"
    by (rule no_queue_inv [OF assms(1)]) (use False assms(2) in \<open>simp_all add: start_server_def server_init_def\<close>)
  then show ?thesis using none False assms(2) pending_0 [of "sv s"] reachable_params(2) [OF assms(1)] by auto
qed

section \<open>A small run\<close>

text \<open>One worker and room for one connection, into which 7 has been put.\<close>

definition one_queue :: server where
  "one_queue = \<lparr>nr_threads = 1, max_requests = 1, max_cache_size = 0, buf = [7, 0], sv_in = 1, sv_out = 0\<rparr>"

definition one_put :: server_sys where
  "one_put = \<lparr>sv = one_queue, main_at = Accepting, workers = [Ready], accepted = [7], taken = []\<rparr>"

lemma reachable_one_put: "reachable (start_server 1 1 0 one_queue (\<lambda>_. 0)) one_put"
proof -
  let ?s0 = "start_server 1 1 0 one_queue (\<lambda>_. 0)"
  have s1: "server_step ?s0 (?s0\<lparr>main_at := Has 7\<rparr>)" by (rule server_step.accept) (simp add: start_server_def)
  have s2: "server_step (?s0\<lparr>main_at := Has 7\<rparr>) one_put"
    using server_step.request_put [of "?s0\<lparr>main_at := Has 7\<rparr>" 7 True one_queue]
    by (simp add: one_put_def one_queue_def start_server_def server_init_def put_request_def store_buf_def queue_full_def
        queue_empty_def smod_nonneg c_int_id eval_nat_numeral)
  show ?thesis by (rule reachable.step [OF reachable.step [OF reachable.start s1] s2])
qed

section \<open>Properties\<close>

text \<open>C25.
  The request queue delivers every accepted connection once and in order: in every reachable state of the server the
  connections that have been taken to be served, followed by those in the ring buffer, are those that the main thread has put in, and
  at most \<open>max_requests\<close> are in the buffer, whatever the interleaving and whatever the number of workers. \<open>max_requests\<close> is below \<open>2 ^ 30\<close>, above which the
  test for a full queue overflows an int (\<open>queue_full_overflow\<close>).\<close>

theorem request_queue_fifo:
  assumes "reachable (start_server n m c old junk) s" "0 \<le> m" "m < 2 ^ 30"
  shows "accepted s = taken s @ pending (sv s) \<and> length (pending (sv s)) \<le> nat m"
proof (cases rule: reachable_cases [OF assms])
  case 1
  then show ?thesis using pending_bound [of "sv s"] reachable_params(1) [OF assms(1)] by (simp add: sys_inv_def)
qed simp

theorem request_queue_fifo_witness:
  "\<exists>s. reachable (start_server 1 1 0 one_queue (\<lambda>_. 0)) s \<and> taken s = [7] \<and> accepted s = taken s @ pending (sv s)"
proof -
  let ?s = "one_put\<lparr>sv := one_queue\<lparr>sv_out := 1\<rparr>, main_at := Accepting, workers := [Serving 7], taken := [7]\<rparr>"
  have "server_step one_put ?s"
    using server_step.worker_take [of 0 one_put 7 True "one_queue\<lparr>sv_out := 1\<rparr>" Accepting]
    by (simp add: one_put_def one_queue_def take_request_def load_buf_def queue_full_def queue_empty_def smod_nonneg c_int_id)
  then have r: "reachable (start_server 1 1 0 one_queue (\<lambda>_. 0)) ?s" by (rule reachable.step [OF reachable_one_put])
  show ?thesis using request_queue_fifo [OF r] r by (intro exI [of _ ?s]) (simp add: one_put_def)
qed

text \<open>A run of \<open>k\<close> steps of one worker, which is not woken in it: it finishes serving, or takes a connection.\<close>

inductive worker_run :: "nat \<Rightarrow> nat \<Rightarrow> server_sys \<Rightarrow> server_sys \<Rightarrow> bool" for i where
  stop: "worker_run i 0 s s"
| take_then: "i < length (workers s) \<Longrightarrow> workers s ! i = Ready \<Longrightarrow> server_step s t \<Longrightarrow>
    workers t ! i = Serving msg \<Longrightarrow> taken t = taken s @ [msg] \<Longrightarrow> worker_run i k t u \<Longrightarrow> worker_run i (Suc k) s u"
| served_then: "i < length (workers s) \<Longrightarrow> workers s ! i = Serving msg \<Longrightarrow>
    worker_run i k (s\<lparr>workers := (workers s)[i := Ready]\<rparr>) u \<Longrightarrow> worker_run i (Suc k) s u"

inductive_simps worker_run_0 [simp]: "worker_run i 0 s t"

lemma wake_main:
  assumes I: "sys_inv s" and m: "main_at s = Waiting_full fd" "0 < max_requests (sv s)"
    and w: "i < length (workers s)" "workers s ! i = Ready"
  shows "\<exists>t. worker_run i 1 s t \<and> main_at t = Has fd \<and> accepted t = accepted s \<and> server_wf (sv t) \<and> \<not> queue_full (sv t) \<and>
    nr_threads (sv t) = nr_threads (sv s)"
proof -
  note W = sys_invD(1) [OF I]
  have f: "queue_full (sv s)" by (rule sys_invD(4) [OF I m(1)])
  then have len: "length (pending (sv s)) = nat (max_requests (sv s))"
    using pending_full [OF W] by (simp add: pending_def)
  then obtain x xs where p: "pending (sv s) = x # xs" using m(2) by (cases "pending (sv s)") auto
  obtain q where q: "take_request (sv s) = Inr (x, queue_full (sv s), q)" "server_wf q" "pending q = xs"
      "max_requests q = max_requests (sv s)" "nr_threads q = nr_threads (sv s)"
    using take_request_ok [OF W p] by blast
  have ne: "\<not> queue_empty (sv s)" using pending_empty [OF W] p by simp
  let ?t = "s\<lparr>sv := q, main_at := Has fd, workers := (workers s)[i := Serving x], taken := taken s @ [x]\<rparr>"
  have "server_step s ?t"
    by (rule server_step.worker_take [OF w ne q(1)]) (use m f in simp)
  then have "worker_run i 1 s ?t" using w by (simp add: worker_run.take_then [where msg = x])
  moreover have "\<not> queue_full q"
  proof -
    have "length (pending q) < nat (max_requests q)" using len p q(3,4) by simp
    then show ?thesis using pending_full [OF q(2)] by (simp add: pending_def)
  qed
  ultimately show ?thesis using q(2,5) by (intro exI [of _ ?t]) simp
qed

lemma main_puts:
  assumes "server_wf (sv t)" "\<not> queue_full (sv t)" "main_at t = Has fd" "nr_threads (sv t) \<noteq> 0"
  shows "\<exists>u. server_step t u \<and> main_at u = Accepting \<and> accepted u = accepted t @ [fd]"
proof -
  obtain q where q: "put_request (sv t) fd = Inr (queue_empty (sv t), q)" using put_request_ok [OF assms(1,2)] by blast
  show ?thesis
  proof (cases "queue_empty (sv t) \<and> Waiting_empty \<in> set (workers t)")
    case True
    then obtain i where "i < length (workers t)" "workers t ! i = Waiting_empty" by (metis in_set_conv_nth)
    then show ?thesis using server_step.request_put_signal [OF assms(3,4,2), of q i] q True by fastforce
  qed (use server_step.request_put [OF assms(3,4,2) q] in fastforce)
qed

text \<open>A worker that is awake signals the main thread within two steps.\<close>

lemma awake_worker_wakes:
  assumes I: "sys_inv s" and m: "main_at s = Waiting_full fd" "0 < max_requests (sv s)" and i: "i < length (workers s)" "workers s ! i \<noteq> Waiting_empty"
  shows "\<exists>k t u. k \<le> 2 \<and> worker_run i k s t \<and> main_at t = Has fd \<and> accepted t = accepted s \<and>
    server_step t u \<and> main_at u = Accepting \<and> accepted u = accepted s @ [fd]"
proof -
  have "\<exists>k t. k \<le> 2 \<and> worker_run i k s t \<and> main_at t = Has fd \<and> accepted t = accepted s \<and> server_wf (sv t) \<and> \<not> queue_full (sv t) \<and>
    nr_threads (sv t) = nr_threads (sv s)"
  proof (cases "workers s ! i")
    case Ready
    then show ?thesis using wake_main [OF I m i(1)] by (intro exI [of _ 1]) auto
  next
    case (Serving msg)
    let ?s = "s\<lparr>workers := (workers s)[i := Ready]\<rparr>"
    have "sys_inv ?s" by (rule step_inv [OF server_step.worker_served [OF i(1) Serving] I])
    then obtain t where "worker_run i 1 ?s t" "main_at t = Has fd" "accepted t = accepted s" "server_wf (sv t)" "\<not> queue_full (sv t)"
        "nr_threads (sv t) = nr_threads (sv s)"
      using wake_main [of ?s fd i] m i(1) by auto
    then show ?thesis using worker_run.served_then [OF i(1) Serving] by (intro exI [of _ 2]) (auto simp: numeral_2_eq_2)
  qed (use i(2) in simp)
  then obtain k t where t: "k \<le> 2" "worker_run i k s t" "main_at t = Has fd" "accepted t = accepted s" "server_wf (sv t)" "\<not> queue_full (sv t)"
      "nr_threads (sv t) = nr_threads (sv s)"
    by blast
  then show ?thesis using main_puts [OF t(5,6,3)] sys_invD(5) [OF I m(1)] by fastforce
qed

text \<open>With room for no connection the ring buffer has one slot and is full from the start: nothing is put in any more.\<close>

lemma no_room_stuck:
  assumes "reachable s t" "max_requests (sv s) = 0" "nr_threads (sv s) \<noteq> 0"
  shows "accepted t = accepted s \<and> max_requests (sv t) = 0 \<and> nr_threads (sv t) \<noteq> 0"
  using assms
proof (induction rule: reachable.induct)
  case (step t u)
  then have t: "accepted t = accepted s" "max_requests (sv t) = 0" "nr_threads (sv t) \<noteq> 0" by simp_all
  have "accepted u = accepted t" using step(2) queue_full_0 [OF t(2)] t(3) by (cases rule: server_step.cases) auto
  then show ?case using t step_params [OF step(2)] by simp
qed simp

text \<open>C26.
  The main thread misses no wake-up, for the arguments that server.c accepts (and \<open>max_requests\<close> below \<open>2 ^ 30\<close>): it only waits for a free slot when there
  are workers. If \<open>max_requests\<close> is 0 it then waits for ever, and no connection is ever put in. Otherwise some worker is awake, and each worker that is awake
  signals the main thread within two of its own steps (it finishes serving, it takes a connection), which can then put its connection in. While
  connections are in the buffer and there are workers, some worker is awake.\<close>

theorem main_wakeup_not_lost:
  assumes "reachable (start_server n m c old junk) s" "0 \<le> n" "0 \<le> m" "m < 2 ^ 30"
  shows "(\<forall>fd. main_at s = Waiting_full fd \<longrightarrow> 0 < n \<and>
      (if m = 0 then \<forall>t. reachable s t \<longrightarrow> accepted t = []
       else (\<exists>i<length (workers s). workers s ! i \<noteq> Waiting_empty) \<and>
         (\<forall>i<length (workers s). workers s ! i \<noteq> Waiting_empty \<longrightarrow>
           (\<exists>k t u. k \<le> 2 \<and> worker_run i k s t \<and> main_at t = Has fd \<and> accepted t = accepted s \<and>
             server_step t u \<and> main_at u = Accepting \<and> accepted u = accepted s @ [fd])))) \<and>
    (pending (sv s) \<noteq> [] \<longrightarrow> 0 < n \<longrightarrow> (\<exists>i<length (workers s). workers s ! i \<noteq> Waiting_empty))"
proof (intro conjI allI impI)
  note par = reachable_params [OF assms(1)]
  have awake: "\<exists>i<length (workers s). workers s ! i \<noteq> Waiting_empty" if p: "pending (sv s) \<noteq> []" and n: "0 < n"
  proof (cases rule: reachable_cases [OF assms(1,3,4)])
    case 1
    then obtain w where "w \<in> set (workers s)" "w \<noteq> Waiting_empty" using sys_invD(3) [OF 1 p] par(3) n by fastforce
    then show ?thesis by (metis in_set_conv_nth)
  qed (use p in simp)
  then show "\<exists>i<length (workers s). workers s ! i \<noteq> Waiting_empty" if "pending (sv s) \<noteq> []" "0 < n" using that by blast
  fix fd assume W: "main_at s = Waiting_full fd"
  have I: "sys_inv s"
  proof (cases rule: reachable_cases [OF assms(1,3,4)])
    case 2
    then show ?thesis using W assms(2) by auto
  qed
  show n: "0 < n" using sys_invD(5) [OF I W] par(2) assms(2) by simp
  show "if m = 0 then \<forall>t. reachable s t \<longrightarrow> accepted t = []
     else (\<exists>i<length (workers s). workers s ! i \<noteq> Waiting_empty) \<and>
       (\<forall>i<length (workers s). workers s ! i \<noteq> Waiting_empty \<longrightarrow>
         (\<exists>k t u. k \<le> 2 \<and> worker_run i k s t \<and> main_at t = Has fd \<and> accepted t = accepted s \<and>
           server_step t u \<and> main_at u = Accepting \<and> accepted u = accepted s @ [fd]))"
  proof (cases "m = 0")
    case True
    have "accepted s = []"
      using no_room_stuck [OF assms(1)] True n by (simp add: start_server_def server_init_def)
    then show ?thesis using no_room_stuck [of s] True n par(1,2) by simp
  next
    case False
    then have m: "0 < m" using assms(3) by simp
    then have "pending (sv s) \<noteq> []"
      using sys_invD(4) [OF I W] pending_full [OF sys_invD(1) [OF I]] par(1) by (auto simp: pending_def)
    then show ?thesis using awake [OF _ n] awake_worker_wakes [OF I W] m par(1) False by simp
  qed
qed

theorem main_wakeup_not_lost_witness:
  "\<exists>s i k t u. reachable (start_server 1 1 0 one_queue (\<lambda>_. 0)) s \<and> main_at s = Waiting_full 8 \<and> worker_run i k s t \<and> main_at t = Has 8 \<and>
    server_step t u \<and> accepted u = [7, 8]"
proof -
  let ?s = "one_put\<lparr>main_at := Has 8\<rparr>"
  let ?t = "?s\<lparr>main_at := Waiting_full 8\<rparr>"
  have s1: "server_step one_put ?s" by (rule server_step.accept) (simp add: one_put_def)
  have s2: "server_step ?s ?t" by (rule server_step.request_wait) (simp_all add: one_put_def one_queue_def queue_full_def smod_nonneg c_int_id)
  have r: "reachable (start_server 1 1 0 one_queue (\<lambda>_. 0)) ?t" by (rule reachable.step [OF reachable.step [OF reachable_one_put s1] s2])
  have "0 < length (workers ?t)" "workers ?t ! 0 \<noteq> Waiting_empty" "main_at ?t = Waiting_full 8" by (simp_all add: one_put_def)
  then obtain k t u where "worker_run 0 k ?t t" "main_at t = Has 8" "server_step t u" "accepted u = accepted ?t @ [8]"
    using main_wakeup_not_lost [OF r] by fastforce
  then show ?thesis using r by (intro exI [of _ ?t] exI [of _ 0] exI [of _ k] exI [of _ t] exI [of _ u]) (simp add: one_put_def)
qed

section \<open>Workers that sleep while a connection waits\<close>

text \<open>The workers find an empty queue and wait.\<close>

lemma workers_wait:
  assumes "queue_empty (sv s)" "workers s = replicate k Ready"
  shows "reachable s (s\<lparr>workers := replicate k Waiting_empty\<rparr>)"
proof -
  have "j \<le> k \<Longrightarrow> reachable s (s\<lparr>workers := replicate j Waiting_empty @ replicate (k - j) Ready\<rparr>)" for j
  proof (induction j)
    case 0
    then show ?case using assms(2) reachable.start [of s] by (metis append_Nil diff_zero replicate_0 server_sys.surjective server_sys.update_convs(3))
  next
    case (Suc j)
    let ?s = "s\<lparr>workers := replicate j Waiting_empty @ replicate (k - j) Ready\<rparr>"
    have k: "k - j = Suc (k - Suc j)" using Suc.prems by simp
    have "server_step ?s (?s\<lparr>workers := (workers ?s)[j := Waiting_empty]\<rparr>)"
      by (rule server_step.worker_wait) (use assms(1) Suc.prems in \<open>simp_all add: nth_append\<close>)
    moreover have "(workers ?s)[j := Waiting_empty] = replicate (Suc j) Waiting_empty @ replicate (k - Suc j) Ready"
      unfolding k by (simp add: list_update_append replicate_append_same)
    ultimately show ?case using Suc reachable.step [of s ?s] by simp
  qed
  from this [of k] show ?thesis by simp
qed

text \<open>\<open>put_request\<close> signals only when the buffer was empty, so two connections that come one after the other wake up one of the workers that
  wait: while it serves the first one, the second stays in the buffer with all the other workers asleep.\<close>

theorem worker_left_asleep:
  assumes "2 \<le> n" "2 \<le> m" "m < 2 ^ 30"
  shows "\<exists>s. reachable (start_server n m c old junk) s \<and> workers s = Serving a # replicate (nat n - 1) Waiting_empty \<and> pending (sv s) = [b]"
proof -
  let ?s0 = "start_server n m c old junk"
  define k where "k = nat n - 1"
  have n: "nat n = Suc k" "n \<noteq> 0" using assms(1) by (simp_all add: k_def)
  have init: "server_wf (sv ?s0)" "pending (sv ?s0) = []" "max_requests (sv ?s0) = m" "nr_threads (sv ?s0) = n" "workers ?s0 = replicate (Suc k) Ready"
      "main_at ?s0 = Accepting"
    using server_init_wf [of m n c old junk] assms n(1) by (simp_all add: start_server_def server_init_def del: replicate.simps)
  have full: "\<not> queue_full q" if "server_wf q" "length (pending q) \<le> 1" "max_requests q = m" for q
    using pending_full [OF that(1)] that(2,3) assms(2) by (auto simp: pending_def)
  let ?s1 = "?s0\<lparr>workers := replicate (Suc k) Waiting_empty\<rparr>"
  have r1: "reachable ?s0 ?s1" by (rule workers_wait) (use init pending_empty in simp_all)
  let ?s2 = "?s1\<lparr>main_at := Has a\<rparr>"
  have r2: "reachable ?s0 ?s2" by (rule reachable.step [OF r1 server_step.accept]) (use init in simp)
  obtain q1 where q1: "put_request (sv ?s0) a = Inr (True, q1)" "server_wf q1" "pending q1 = [a]" "max_requests q1 = m" "nr_threads q1 = n"
    using put_request_ok [OF init(1) full [OF init(1)], of a] pending_empty [OF init(1)] init by auto
  let ?s3 = "?s2\<lparr>sv := q1, main_at := Accepting, workers := (workers ?s2)[0 := Ready], accepted := accepted ?s2 @ [a]\<rparr>"
  have r3: "reachable ?s0 ?s3"
    by (rule reachable.step [OF r2 server_step.request_put_signal]) (use q1(1) init full [OF init(1)] n in simp_all)
  let ?s4 = "?s3\<lparr>main_at := Has b\<rparr>"
  have r4: "reachable ?s0 ?s4" by (rule reachable.step [OF r3 server_step.accept]) simp
  obtain q2 where q2: "put_request q1 b = Inr (False, q2)" "server_wf q2" "pending q2 = [a, b]" "max_requests q2 = m" "nr_threads q2 = n"
    using put_request_ok [OF q1(2) full [OF q1(2)], of b] pending_empty [OF q1(2)] q1 by auto
  define s5 where "s5 = ?s4\<lparr>sv := q2, main_at := Accepting, accepted := accepted ?s4 @ [b]\<rparr>"
  have r5: "reachable ?s0 s5"
    unfolding s5_def by (rule reachable.step [OF r4 server_step.request_put [where sig = False]]) (use q1 q2 full [OF q1(2)] n in simp_all)
  have f5: "main_at s5 = Accepting" "sv s5 = q2" "workers s5 = Ready # replicate k Waiting_empty" by (simp_all add: s5_def)
  obtain q3 where q3: "take_request q2 = Inr (a, queue_full q2, q3)" "pending q3 = [b]" using take_request_ok [OF q2(2,3)] by blast
  let ?s6 = "s5\<lparr>sv := q3, main_at := Accepting, workers := (workers s5)[0 := Serving a], taken := taken s5 @ [a]\<rparr>"
  have w: "0 < length (workers s5)" "workers s5 ! 0 = Ready" by (simp_all add: f5(3))
  have ne: "\<not> queue_empty (sv s5)" using q2(3) pending_empty [OF q2(2)] f5(2) by simp
  have t: "take_request (sv s5) = Inr (a, queue_full q2, q3)" using q3(1) f5(2) by simp
  have "server_step s5 ?s6" by (rule server_step.worker_take [OF w ne t]) (simp add: f5(1))
  then have "reachable ?s0 ?s6" by (rule reachable.step [OF r5])
  moreover have "workers ?s6 = Serving a # replicate k Waiting_empty" "pending (sv ?s6) = [b]" using q3(2) by (simp_all add: f5(3))
  ultimately show ?thesis unfolding k_def by blast
qed

theorem worker_left_asleep_witness:
  "\<exists>s. reachable (start_server 4 8 0 one_queue (\<lambda>_. 0)) s \<and> workers s = Serving 5 # replicate 3 Waiting_empty \<and> pending (sv s) = [6]"
  using worker_left_asleep [of 4 8 0 one_queue "\<lambda>_. 0" 5 6] by (simp del: replicate.simps)

end
