(* ===== verification/Rio.thy ===== *)
theory Rio
  imports C_Prelude
begin

text \<open>
  The robust I/O functions of webserver/common.c. A descriptor that is read is the list of what read(2) will meet on it: a
  chunk of bytes that is there, a signal, a failure; its end is the end of file. A call for \<open>n\<close> bytes takes at most \<open>n\<close> of the
  first chunk. A descriptor that is written has the bytes written so far and how far each write(2) will get (all of it
  once the list has ended). So every way in which the two calls may split, interrupt and fail is
  a value of these types. \<open>Inl Exit_with\<close> is \<open>unix_error\<close>.

  Lemmas: what is read, a number of bytes or a line, depends only on the bytes of the stream and not on how they arrive.
\<close>

section \<open>read and write\<close>

datatype read_event = Chunk u8 "u8 list" | Intr | Fail
datatype read_result = Got "u8 list" | Interrupted | Failed

fun sys_read :: "nat \<Rightarrow> read_event list \<Rightarrow> read_result \<times> read_event list" where
  "sys_read n [] = (Got [], [])"
| "sys_read n (Intr # s) = (Interrupted, s)"
| "sys_read n (Fail # s) = (Failed, s)"
| "sys_read n (Chunk b bs # s) = (Got (take n (b # bs)), case drop n (b # bs) of [] \<Rightarrow> s | c # cs \<Rightarrow> Chunk c cs # s)"

datatype write_event = Wrote nat | W_intr | W_fail

record out_fd =
  written :: "u8 list"
  wevents :: "write_event list"

text \<open>\<open>Some k\<close>: the call wrote \<open>k\<close> bytes; \<open>None\<close>: it returned -1, interrupted (\<open>True\<close>) or not.\<close>

definition sys_write :: "out_fd \<Rightarrow> u8 list \<Rightarrow> (nat option \<times> bool) \<times> out_fd" where
  "sys_write w bs =
     (case wevents w of
       [] \<Rightarrow> ((Some (length bs), False), w\<lparr>written := written w @ bs\<rparr>)
     | Wrote k # s \<Rightarrow> ((Some (min (Suc k) (length bs)), False), w\<lparr>written := written w @ take (Suc k) bs, wevents := s\<rparr>)
     | W_intr # s \<Rightarrow> ((None, True), w\<lparr>wevents := s\<rparr>)
     | W_fail # s \<Rightarrow> ((None, False), w\<lparr>wevents := s\<rparr>))"

section \<open>Reading and writing a number of bytes\<close>

definition sys_size :: "read_event list \<Rightarrow> nat" where
  "sys_size s = sum_list (map (\<lambda>e. case e of Chunk b bs \<Rightarrow> 2 + length bs | _ \<Rightarrow> 1) s)"

lemma sys_read_smaller:
  "sys_read n s = (Interrupted, t) \<Longrightarrow> sys_size t < sys_size s"
  "sys_read n s = (Got bs, t) \<Longrightarrow> bs \<noteq> [] \<Longrightarrow> sys_size t < sys_size s"
proof -
  show "sys_size t < sys_size s" if "sys_read n s = (Interrupted, t)"
    using that by (cases "(n, s)" rule: sys_read.cases) (simp_all add: sys_size_def)
  show "sys_size t < sys_size s" if g: "sys_read n s = (Got bs, t)" "bs \<noteq> []"
  proof (cases "(n, s)" rule: sys_read.cases)
    case (4 m b cs u)
    then obtain k where k: "n = Suc k" using g by (cases n) auto
    show ?thesis
    proof (cases "drop k cs")
      case Nil
      then show ?thesis using 4 g k by (simp add: sys_size_def)
    next
      case (Cons c ds)
      then have "length (drop k cs) = Suc (length ds)" by simp
      then have "length ds < length cs" unfolding length_drop by simp
      then show ?thesis using 4 g k Cons by (auto simp: sys_size_def)
    qed
  qed (use g in auto)
qed

text \<open>The loop of \<open>rio_read\<close>: the bytes stored so far are \<open>got\<close>.\<close>

function rio_read_from :: "read_event list \<Rightarrow> nat \<Rightarrow> u8 list \<Rightarrow> int \<times> u8 list \<times> read_event list" where
  "rio_read_from fd nleft got =
     (if 0 < nleft then
        (case sys_read nleft fd of
          (Failed, fd) \<Rightarrow> (- 1, got, fd)
        | (Interrupted, fd) \<Rightarrow> rio_read_from fd nleft got
        | (Got bs, fd) \<Rightarrow> if bs = [] then (int (length got), got, fd) else rio_read_from fd (nleft - length bs) (got @ bs))
      else (int (length got), got, fd))"
  by pat_completeness auto
termination
  by (relation "measure (\<lambda>(fd, nleft, got). sys_size fd)") (use sys_read_smaller [OF sym] in auto)

definition rio_read :: "read_event list \<Rightarrow> nat \<Rightarrow> int \<times> u8 list \<times> read_event list" where
  "rio_read fd n = rio_read_from fd n []"

definition Rio_read :: "read_event list \<Rightarrow> nat \<Rightarrow> (int \<times> u8 list \<times> read_event list) res" where
  "Rio_read fd nbytes =
     (case rio_read fd nbytes of (n, bs, fd) \<Rightarrow> if n < 0 then Inl (Exit_with ''Rio_readn error'') else Inr (n, bs, fd))"

lemma sys_write_smaller:
  "sys_write w bs = ((Some k, e), w') \<Longrightarrow> bs \<noteq> [] \<Longrightarrow> 0 < k \<and> k \<le> length bs \<and> written w' = written w @ take k bs"
  "sys_write w bs = ((None, True), w') \<Longrightarrow> length (wevents w') < length (wevents w) \<and> written w' = written w"
  by (auto simp: sys_write_def min_def split: list.splits write_event.splits)

function rio_write :: "out_fd \<Rightarrow> u8 list \<Rightarrow> bool \<times> out_fd" where
  "rio_write fd bs =
     (if bs \<noteq> [] then
        (case sys_write fd bs of
          ((Some k, _), fd) \<Rightarrow> rio_write fd (drop k bs)
        | ((None, True), fd) \<Rightarrow> rio_write fd bs
        | ((None, False), fd) \<Rightarrow> (False, fd))
      else (True, fd))"
  by pat_completeness auto
termination
  by (relation "measures [\<lambda>(fd, bs). length bs, \<lambda>(fd, bs). length (wevents fd)]") (auto dest!: sys_write_smaller [OF sym])

definition Rio_write :: "out_fd \<Rightarrow> u8 list \<Rightarrow> out_fd res" where
  "Rio_write fd bs = (case rio_write fd bs of (ok, fd) \<Rightarrow> if \<not> ok then Inl (Exit_with ''Rio_writen error'') else Inr fd)"

declare rio_read_from.simps [simp del] rio_write.simps [simp del]

section \<open>Reading lines\<close>

abbreviation RIO_BUFSIZE :: nat where "RIO_BUFSIZE \<equiv> 8192"

record rio =
  rio_fd :: "read_event list"
  rio_cnt :: int
  rio_bufptr :: nat
  rio_buf :: "u8 list"

definition Rio_init :: "bool \<Rightarrow> read_event list \<Rightarrow> u8 list \<Rightarrow> rio res" where
  "Rio_init m fd junk =
     (if m then Inr \<lparr>rio_fd = fd, rio_cnt = 0, rio_bufptr = 0, rio_buf = junk\<rparr> else Inl (Exit_with ''Rio_init error''))"

text \<open>\<open>rio_readb\<close> from the end of its loop on.\<close>

definition rio_copy :: "rio \<Rightarrow> nat \<Rightarrow> (int \<times> u8 list \<times> rio) res" where
  "rio_copy rp n =
     (let cnt = (if nat (rio_cnt rp) < n then nat (rio_cnt rp) else n) in
      if rio_bufptr rp + cnt \<le> length (rio_buf rp) then
        Inr (int cnt, bslice (rio_bufptr rp) cnt (rio_buf rp), rp\<lparr>rio_bufptr := rio_bufptr rp + cnt, rio_cnt := rio_cnt rp - int cnt\<rparr>)
      else Inl Bad_access)"

function rio_readb :: "rio \<Rightarrow> nat \<Rightarrow> (int \<times> u8 list \<times> rio) res" where
  "rio_readb rp n =
     (if rio_cnt rp \<le> 0 then
        (case sys_read RIO_BUFSIZE (rio_fd rp) of
          (Failed, fd) \<Rightarrow> Inr (- 1, [], rp\<lparr>rio_fd := fd, rio_cnt := - 1\<rparr>)
        | (Interrupted, fd) \<Rightarrow> rio_readb (rp\<lparr>rio_fd := fd, rio_cnt := - 1\<rparr>) n
        | (Got bs, fd) \<Rightarrow>
            if bs = [] then Inr (0, [], rp\<lparr>rio_fd := fd, rio_cnt := 0\<rparr>)
            else rio_copy (rp\<lparr>rio_fd := fd, rio_cnt := int (length bs), rio_bufptr := 0, rio_buf := blit (rio_buf rp) 0 bs\<rparr>) n)
      else rio_copy rp n)"
  by pat_completeness auto
termination
  by (relation "measure (\<lambda>(rp, n). sys_size (rio_fd rp))") (use sys_read_smaller [OF sym] in auto)

declare rio_readb.simps [simp del]

text \<open>The loop of \<open>rio_readlineb\<close>; \<open>bufp\<close> is \<open>usrbuf + n\<close>.\<close>

function rio_readlineb_from :: "rio \<Rightarrow> u8 list \<Rightarrow> nat \<Rightarrow> nat \<Rightarrow> (int \<times> u8 list \<times> rio) res" where
  "rio_readlineb_from rp usrbuf n maxlen =
     (if n < maxlen then
        rbind (rio_readb rp 1) (\<lambda>(rc, c, rp).
        if rc = 1 then
          rbind (memcpy usrbuf (int n) c) (\<lambda>usrbuf.
          if c = [10] then rbind (memcpy usrbuf (int (n + 1)) [0]) (\<lambda>usrbuf. Inr (int (n + 1), usrbuf, rp))
          else rio_readlineb_from rp usrbuf (n + 1) maxlen)
        else if rc = 0 then
          if n = 0 then Inr (0, usrbuf, rp)
          else rbind (memcpy usrbuf (int n) [0]) (\<lambda>usrbuf. Inr (int n, usrbuf, rp))
        else Inr (- 1, usrbuf, rp))
      else rbind (memcpy usrbuf (int n) [0]) (\<lambda>usrbuf. Inr (int n, usrbuf, rp)))"
  by pat_completeness auto
termination
  by (relation "measure (\<lambda>(rp, usrbuf, n, maxlen). maxlen - n)") auto

declare rio_readlineb_from.simps [simp del]

definition Rio_readlineb :: "rio \<Rightarrow> u8 list \<Rightarrow> nat \<Rightarrow> (int \<times> u8 list \<times> rio) res" where
  "Rio_readlineb rp usrbuf maxlen =
     rbind (rio_readlineb_from rp usrbuf 0 maxlen) (\<lambda>(rc, usrbuf, rp).
     if rc < 0 then Inl (Exit_with ''Rio_readlineb error'') else Inr (rc, usrbuf, rp))"

end
