(* ===== verification/Slist.thy ===== *)
theory Slist
  imports C_Prelude
begin

text \<open>
  Singly linked lists of allocated cells: a heap maps the address of a cell to its content, which has a
  pointer to the next one (read by \<open>nx\<close>); 0 is NULL, and reading a cell that is not allocated, or that has been
  freed, is the fault \<open>Bad_access\<close>. \<open>chain nx h p as q\<close> says that the cells at the addresses \<open>as\<close> lead
  from \<open>p\<close> to \<open>q\<close>. \<open>new_cell\<close> is malloc, which gives an address that was never given before.
\<close>

record 'e cells =
  cell :: "nat \<Rightarrow> 'e option"
  next_cell :: nat

definition no_cells :: "'e cells" where
  "no_cells = \<lparr>cell = Map.empty, next_cell = 1\<rparr>"

definition cell_at :: "'e cells \<Rightarrow> nat \<Rightarrow> 'e res" where
  "cell_at m a = (case cell m a of None \<Rightarrow> Inl Bad_access | Some e \<Rightarrow> Inr e)"

definition put_cell :: "'e cells \<Rightarrow> nat \<Rightarrow> ('e \<Rightarrow> 'e) \<Rightarrow> 'e cells res" where
  "put_cell m a f = rbind (cell_at m a) (\<lambda>e. Inr (m\<lparr>cell := (cell m)(a \<mapsto> f e)\<rparr>))"

definition free_cell :: "'e cells \<Rightarrow> nat \<Rightarrow> 'e cells res" where
  "free_cell m a = rbind (cell_at m a) (\<lambda>_. Inr (m\<lparr>cell := (cell m)(a := None)\<rparr>))"

definition new_cell :: "'e cells \<Rightarrow> 'e \<Rightarrow> nat \<times> 'e cells" where
  "new_cell m e = (next_cell m, \<lparr>cell = (cell m)(next_cell m \<mapsto> e), next_cell = next_cell m + 1\<rparr>)"

definition cells_wf :: "'e cells \<Rightarrow> bool" where
  "cells_wf m \<longleftrightarrow> 0 < next_cell m \<and> (\<forall>a. cell m a \<noteq> None \<longrightarrow> 0 < a \<and> a < next_cell m)"

lemma cells_wfD: "cells_wf m \<Longrightarrow> cell m a = Some e \<Longrightarrow> 0 < a \<and> a < next_cell m"
  by (auto simp: cells_wf_def)

lemma cells_wfI: "0 < next_cell m \<Longrightarrow> dom (cell m) \<subseteq> {1..<next_cell m} \<Longrightarrow> cells_wf m"
  unfolding cells_wf_def by (meson atLeastLessThan_iff domIff less_le_trans subsetD zero_less_one)

lemma cells_wf_none [simp]: "cells_wf m \<Longrightarrow> cell m 0 = None" "cells_wf m \<Longrightarrow> cell m (next_cell m) = None"
  by (auto simp: cells_wf_def)

lemma cells_wf_no_cells [simp]: "cells_wf no_cells"
  by (simp add: cells_wf_def no_cells_def)

lemma cells_wf_upd [simp]: "cells_wf m \<Longrightarrow> cell m a = Some e \<Longrightarrow> cells_wf (m\<lparr>cell := (cell m)(a := v)\<rparr>)"
  by (auto simp: cells_wf_def)

lemma cells_wf_new [simp]: "cells_wf m \<Longrightarrow> cells_wf \<lparr>cell = (cell m)(next_cell m \<mapsto> e), next_cell = Suc (next_cell m)\<rparr>"
  unfolding cells_wf_def by (metis (no_types, lifting) One_nat_def cells.simps(1,2) fun_upd_apply less_Suc_eq zero_less_Suc)

lemma cell_at_Some [simp]: "cell m a = Some e \<Longrightarrow> cell_at m a = Inr e"
  by (simp add: cell_at_def)

lemma cell_at_None [simp]: "cell m a = None \<Longrightarrow> cell_at m a = Inl Bad_access"
  by (simp add: cell_at_def)

lemma put_cell_Some [simp]: "cell m a = Some e \<Longrightarrow> put_cell m a f = Inr (m\<lparr>cell := (cell m)(a \<mapsto> f e)\<rparr>)"
  by (simp add: put_cell_def)

lemma free_cell_Some [simp]: "cell m a = Some e \<Longrightarrow> free_cell m a = Inr (m\<lparr>cell := (cell m)(a := None)\<rparr>)"
  by (simp add: free_cell_def)

section \<open>Chains\<close>

fun chain :: "('e \<Rightarrow> nat) \<Rightarrow> (nat \<Rightarrow> 'e option) \<Rightarrow> nat \<Rightarrow> nat list \<Rightarrow> nat \<Rightarrow> bool" where
  "chain nx h p [] q \<longleftrightarrow> p = q"
| "chain nx h p (a # as) q \<longleftrightarrow> p = a \<and> a \<noteq> 0 \<and> (case h a of None \<Rightarrow> False | Some e \<Rightarrow> chain nx h (nx e) as q)"

lemma chain_append: "chain nx h p (as @ bs) q \<longleftrightarrow> (\<exists>r. chain nx h p as r \<and> chain nx h r bs q)"
  by (induction as arbitrary: p) (auto split: option.splits)

lemma chain_upd [simp]: "a \<notin> set as \<Longrightarrow> chain nx (h(a := v)) p as q = chain nx h p as q"
  by (induction as arbitrary: p) (auto split: option.splits)

lemma chain_cong: "(\<And>a. a \<in> set as \<Longrightarrow> map_option nx (h' a) = map_option nx (h a)) \<Longrightarrow> chain nx h' p as q = chain nx h p as q"
proof (induction as arbitrary: p)
  case (Cons a as)
  have "map_option nx (h' a) = map_option nx (h a)" by (rule Cons.prems) simp
  then show ?case using Cons.IH Cons.prems by (cases "h a"; cases "h' a") auto
qed simp

lemma chain_in: "chain nx h p as q \<Longrightarrow> a \<in> set as \<Longrightarrow> a \<noteq> 0 \<and> (\<exists>e. h a = Some e)"
  by (induction as arbitrary: p) (auto split: option.splits)

lemma chain_null: "chain nx h p as 0 \<Longrightarrow> p = 0 \<longleftrightarrow> as = []"
  by (cases as) auto

lemma chain_split: "chain nx h p (as @ a # bs) q \<Longrightarrow>
    \<exists>e. h a = Some e \<and> a \<noteq> 0 \<and> chain nx h p as a \<and> chain nx h (nx e) bs q"
  by (auto simp: chain_append split: option.splits)

lemma chain_det: "chain nx h p as 0 \<Longrightarrow> chain nx h p bs 0 \<Longrightarrow> as = bs"
proof (induction as arbitrary: p bs)
  case (Cons a as)
  then show ?case by (cases bs) (auto split: option.splits)
qed (auto dest: chain_null)

lemma chain_distinct: "chain nx h p as 0 \<Longrightarrow> distinct as"
proof (induction as arbitrary: p)
  case (Cons a as)
  have "a \<notin> set as"
  proof
    assume "a \<in> set as"
    then obtain xs ys where as: "as = xs @ a # ys" by (metis in_set_conv_decomp)
    obtain e where "h a = Some e" "chain nx h (nx e) as 0" using Cons.prems by (auto split: option.splits)
    moreover from this have "chain nx h (nx e) ys 0" using chain_split [of nx h "nx e" xs a ys 0] as by auto
    ultimately have "as = ys" using chain_det by blast
    then show False using as by (metis append_Cons length_append length_Cons not_less_eq nat_neq_iff trans_less_add2)
  qed
  then show ?case using Cons by (auto split: option.splits)
qed simp

lemma chain_bound: "chain nx (cell m) p as 0 \<Longrightarrow> cells_wf m \<Longrightarrow> length as < next_cell m"
proof -
  assume c: "chain nx (cell m) p as 0" and wf: "cells_wf m"
  have "set as \<subseteq> {1..<next_cell m}"
  proof
    fix a assume "a \<in> set as"
    then show "a \<in> {1..<next_cell m}" using chain_in [OF c] cells_wfD [OF wf] by fastforce
  qed
  then have "card (set as) \<le> next_cell m - 1" using card_mono [of "{1..<next_cell m}" "set as"] by simp
  moreover have "0 < next_cell m" using wf by (simp add: cells_wf_def)
  ultimately show ?thesis using distinct_card [OF chain_distinct [OF c]] by linarith
qed

text \<open>The end of a chain set to another pointer.\<close>

lemma chain_set_last:
  assumes "chain nx h p (as @ [a]) q" "h a = Some e" "a \<notin> set as"
  shows "chain nx (h(a \<mapsto> e')) p (as @ [a]) (nx e')"
  using assms by (auto simp: chain_append)

lemma chain_link_last:
  assumes "chain nx h p (as @ [b]) 0" "h b = Some eb" "c \<notin> set (as @ [b])" "c \<noteq> 0" "h c = Some ec" "nx ec = 0" "nx eb' = c"
  shows "chain nx (h(b \<mapsto> eb')) p (as @ [b, c]) 0"
proof -
  have "b \<notin> set as" using chain_distinct [OF assms(1)] by simp
  moreover have "chain nx h p as b" "b \<noteq> 0" using assms(1,2) by (auto simp: chain_append)
  ultimately show ?thesis using assms(2-7) by (auto simp: chain_append)
qed

lemma chain_unlink:
  assumes "chain nx h p (as @ b # c # bs) 0" "h b = Some eb" "h c = Some ec" "nx eb' = nx ec"
  shows "chain nx (h(b \<mapsto> eb')) p (as @ b # bs) 0"
proof -
  have "b \<notin> set as" "b \<notin> set bs" using chain_distinct [OF assms(1)] by auto
  then show ?thesis using assms by (auto simp: chain_append)
qed

section \<open>The loop to the last cell\<close>

text \<open>\<open>while (p->next) p = p->next;\<close>\<close>

fun last_cell :: "('e \<Rightarrow> nat) \<Rightarrow> nat \<Rightarrow> 'e cells \<Rightarrow> nat \<Rightarrow> nat res" where
  "last_cell nx 0 m p = Inl Out_of_fuel"
| "last_cell nx (Suc fuel) m p = rbind (cell_at m p) (\<lambda>e. if nx e \<noteq> 0 then last_cell nx fuel m (nx e) else Inr p)"

lemma last_cell_chain:
  "chain nx (cell m) p as 0 \<Longrightarrow> as \<noteq> [] \<Longrightarrow> length as \<le> fuel \<Longrightarrow> last_cell nx fuel m p = Inr (last as)"
proof (induction as arbitrary: p fuel)
  case (Cons a as)
  then obtain e f where e: "cell m a = Some e" "chain nx (cell m) (nx e) as 0" "p = a" "fuel = Suc f"
    by (cases fuel) (auto split: option.splits)
  then show ?case using Cons.IH [OF e(2), of f] Cons.prems(3) chain_null [OF e(2)] by auto
qed simp

end
