(* ===== verification/Cache.thy ===== *)
theory Cache
  imports Slist C_String
begin

unbundle bit_operations_syntax

text \<open>
  The cache of the web server, webserver/server_thread.c: a hash table of chained entries over the file data, and
  the list of the cached files in the order of their last use. The entries of the table and those of the list are
  separate allocations. A \<open>struct file_data *\<close> is an address in the cells \<open>F\<close>; 0 is NULL. The table has 10,000,000
  buckets and every hash is below that. The comparison \<open>file_size > 0.5 * cache_size\<close> is one of doubles, which is exact
  on 32-bit integers, and is written with integers. malloc always succeeds.

  Lemmas: \<open>update_LRU\<close> is \<open>remove1 file fs @ [file]\<close> on the list of files.
\<close>

record file_data =
  file_name :: "u8 list"
  file_buf :: "u8 list"
  file_size :: int

record entry =
  e_count :: int
  e_data :: nat
  e_next :: nat

record hashtable =
  ht_size :: int
  cache_size :: int
  available_cache_size :: int
  LRU :: nat
  table :: "nat \<Rightarrow> nat"
  ents :: "entry cells"

section \<open>Operations\<close>

definition hash :: "u8 list \<Rightarrow> nat" where
  "hash str = unat (foldl (\<lambda>h c. (push_bit 5 h + h) + scast c) (5381 :: u64) str mod 10000000)"

text \<open>The part of \<open>server_init\<close> that makes the cache.\<close>

definition init_cache :: "int \<Rightarrow> hashtable" where
  "init_cache max_cache_size0 =
     \<lparr>ht_size = 10000000, cache_size = max_cache_size0, available_cache_size = max_cache_size0, LRU = 0,
      table = (\<lambda>_. 0), ents = no_cells\<rparr>"

definition new_entry :: "hashtable \<Rightarrow> nat \<Rightarrow> nat \<times> hashtable" where
  "new_entry ht file =
     (case new_cell (ents ht) \<lparr>e_count = 0, e_data = file, e_next = 0\<rparr> of (a, m) \<Rightarrow> (a, ht\<lparr>ents := m\<rparr>))"

definition set_next_entry :: "hashtable \<Rightarrow> nat \<Rightarrow> nat \<Rightarrow> hashtable res" where
  "set_next_entry ht a v = rbind (put_cell (ents ht) a (\<lambda>e. e\<lparr>e_next := v\<rparr>)) (\<lambda>m. Inr (ht\<lparr>ents := m\<rparr>))"

text \<open>The first loop of \<open>update_LRU\<close>: \<open>(prev, temp)\<close> when it ends.\<close>

fun lru_scan :: "nat \<Rightarrow> entry cells \<Rightarrow> nat \<Rightarrow> nat \<Rightarrow> nat \<Rightarrow> (nat \<times> nat) res" where
  "lru_scan fuel m file prev temp =
     (if temp = 0 then Inr (prev, temp)
      else (case fuel of 0 \<Rightarrow> Inl Out_of_fuel | Suc fuel \<Rightarrow>
        rbind (cell_at m temp) (\<lambda>e. if e_data e = file then Inr (prev, temp) else lru_scan fuel m file temp (e_next e))))"

text \<open>\<open>while (temp2) { prev = temp2; temp2 = temp2->next; }\<close>\<close>

fun lru_last :: "nat \<Rightarrow> entry cells \<Rightarrow> nat \<Rightarrow> nat \<Rightarrow> nat res" where
  "lru_last fuel m prev temp2 =
     (if temp2 = 0 then Inr prev
      else (case fuel of 0 \<Rightarrow> Inl Out_of_fuel | Suc fuel \<Rightarrow>
        rbind (cell_at m temp2) (\<lambda>e. lru_last fuel m temp2 (e_next e))))"

definition update_LRU :: "hashtable \<Rightarrow> nat \<Rightarrow> hashtable res" where
  "update_LRU ht file =
     (if LRU ht = 0 then (case new_entry ht file of (a, ht) \<Rightarrow> Inr (ht\<lparr>LRU := a\<rparr>))
      else rbind (cell_at (ents ht) (LRU ht)) (\<lambda>hd.
        if e_next hd = 0 then
          if e_data hd \<noteq> file then (case new_entry ht file of (a, ht) \<Rightarrow> set_next_entry ht (LRU ht) a)
          else Inr ht
        else rbind (lru_scan (next_cell (ents ht)) (ents ht) file (LRU ht) (LRU ht)) (\<lambda>(prev, temp).
          if temp \<noteq> 0 then
            rbind (cell_at (ents ht) temp) (\<lambda>t.
            if e_data t = e_data hd then
              let ht = ht\<lparr>LRU := e_next hd\<rparr> in
              rbind (set_next_entry ht temp 0) (\<lambda>ht.
              rbind (lru_last (next_cell (ents ht)) (ents ht) prev (LRU ht)) (\<lambda>prev.
              set_next_entry ht prev temp))
            else
              rbind (set_next_entry ht prev (e_next t)) (\<lambda>ht.
              rbind (set_next_entry ht temp 0) (\<lambda>ht.
              rbind (last_cell e_next (next_cell (ents ht)) (ents ht) prev) (\<lambda>prev.
              set_next_entry ht prev temp))))
          else (case new_entry ht file of (a, ht) \<Rightarrow> set_next_entry ht prev a))))"

text \<open>The loop of \<open>cache_lookup\<close> over a bucket; NULL is 0.\<close>

fun bucket_lookup :: "nat \<Rightarrow> hashtable \<Rightarrow> file_data cells \<Rightarrow> u8 list \<Rightarrow> int \<Rightarrow> nat \<Rightarrow> (nat \<times> hashtable) res" where
  "bucket_lookup fuel ht F name time temp =
     (if temp = 0 then Inr (0, ht)
      else (case fuel of 0 \<Rightarrow> Inl Out_of_fuel | Suc fuel \<Rightarrow>
        rbind (cell_at (ents ht) temp) (\<lambda>e.
        rbind (cell_at F (e_data e)) (\<lambda>d.
        if file_name d = name then
          if time = 0 then rbind (update_LRU ht (e_data e)) (\<lambda>ht. Inr (e_data e, ht)) else Inr (e_data e, ht)
        else bucket_lookup fuel ht F name time (e_next e)))))"

definition cache_lookup :: "hashtable \<Rightarrow> file_data cells \<Rightarrow> nat \<Rightarrow> int \<Rightarrow> (nat \<times> hashtable) res" where
  "cache_lookup ht F file time =
     rbind (cell_at F file) (\<lambda>d.
     bucket_lookup (next_cell (ents ht)) ht F (file_name d) time (table ht (hash (file_name d))))"

definition cache_insert_ht :: "hashtable \<Rightarrow> file_data cells \<Rightarrow> nat \<Rightarrow> hashtable res" where
  "cache_insert_ht ht F file =
     rbind (cell_at F file) (\<lambda>d.
     let hash_num = hash (file_name d) in
     case new_entry ht file of (a, ht) \<Rightarrow>
     rbind
       (if table ht hash_num = 0 then Inr (ht\<lparr>table := (table ht)(hash_num := a)\<rparr>)
        else rbind (last_cell e_next (next_cell (ents ht)) (ents ht) (table ht hash_num)) (\<lambda>temp. set_next_entry ht temp a))
       (\<lambda>ht. update_LRU (ht\<lparr>available_cache_size := c_int (available_cache_size ht - file_size d)\<rparr>) file))"

text \<open>The loop of \<open>delete_entry\<close>: \<open>(prev, temp)\<close> when it ends.\<close>

fun find_entry :: "nat \<Rightarrow> entry cells \<Rightarrow> nat \<Rightarrow> nat \<Rightarrow> nat \<Rightarrow> (nat \<times> nat) res" where
  "find_entry 0 m file prev temp = Inl Out_of_fuel"
| "find_entry (Suc fuel) m file prev temp =
     rbind (cell_at m temp) (\<lambda>e. if e_data e \<noteq> file then find_entry fuel m file temp (e_next e) else Inr (prev, temp))"

definition delete_entry :: "hashtable \<Rightarrow> file_data cells \<Rightarrow> nat \<Rightarrow> hashtable res" where
  "delete_entry ht F file =
     rbind (cell_at F file) (\<lambda>d.
     let hash_num = hash (file_name d); temp = table ht hash_num in
     rbind (cell_at (ents ht) temp) (\<lambda>e.
     if e_next e = 0 then
       rbind (free_cell (ents ht) temp) (\<lambda>m. Inr (ht\<lparr>ents := m, table := (table ht)(hash_num := 0)\<rparr>))
     else
       rbind (find_entry (next_cell (ents ht)) (ents ht) file temp temp) (\<lambda>(prev, temp).
       rbind (cell_at (ents ht) temp) (\<lambda>t.
       rbind (set_next_entry ht prev (e_next t)) (\<lambda>ht.
       rbind (free_cell (ents ht) temp) (\<lambda>m. Inr (ht\<lparr>ents := m\<rparr>)))))))"

fun cache_evict :: "nat \<Rightarrow> hashtable \<Rightarrow> file_data cells \<Rightarrow> int \<Rightarrow> hashtable res" where
  "cache_evict fuel ht F size_to_evict =
     (if available_cache_size ht < size_to_evict then
        (case fuel of 0 \<Rightarrow> Inl Out_of_fuel | Suc fuel \<Rightarrow>
          rbind (cell_at (ents ht) (LRU ht)) (\<lambda>e.
          rbind (cell_at F (e_data e)) (\<lambda>d.
          let to_evict = LRU ht;
              ht = ht\<lparr>available_cache_size := c_int (available_cache_size ht + file_size d), LRU := e_next e\<rparr> in
          rbind (delete_entry ht F (e_data e)) (\<lambda>ht.
          rbind (free_cell (ents ht) to_evict) (\<lambda>m.
          cache_evict fuel (ht\<lparr>ents := m\<rparr>) F size_to_evict)))))
      else Inr ht)"

definition cache_insert :: "hashtable \<Rightarrow> file_data cells \<Rightarrow> nat \<Rightarrow> hashtable res" where
  "cache_insert ht F file =
     rbind (cell_at F file) (\<lambda>d.
     if 2 * file_size d > cache_size ht then Inr ht
     else if file_size d > available_cache_size ht then
       rbind (cache_evict (next_cell (ents ht)) ht F (file_size d)) (\<lambda>ht. cache_insert_ht ht F file)
     else cache_insert_ht ht F file)"

lemma hash_bound: "hash str < 10000000"
  unfolding hash_def by (simp add: unat_mod)

declare lru_scan.simps [simp del] lru_last.simps [simp del] bucket_lookup.simps [simp del] cache_evict.simps [simp del]

end
