(* ===== verification/Request.thy ===== *)
theory Request
  imports Rio Cache
begin

unbundle bit_operations_syntax

text \<open>
  One request of the web server, webserver/request.c, and \<open>do_server_request\<close> of webserver/server_thread.c. The descriptor of a
  connection is what will be read from it, what has been written to it, and whether it is closed. The files that can be
  served are a parameter, \<open>site\<close>: what stat(2) says of a name and, for a regular file that its owner can
  read, its size and what open(2) and read(2) will meet. A local array that is not initialised is a
  parameter too; reading one that \<open>sscanf\<close> has not filled is the fault \<open>Bad_access\<close>. \<open>sprintf\<close> into an array that is too small is
  that fault; with the array itself as the first argument of \<open>%s\<close> it appends, as it does in glibc. malloc succeeds when the size is not negative.
\<close>

section \<open>Strings\<close>

definition sprintf :: "nat \<Rightarrow> u8 list \<Rightarrow> u8 list res" where
  "sprintf cap s = (if length s < cap then Inr s else Inl Bad_access)"

fun strstr :: "u8 list \<Rightarrow> u8 list \<Rightarrow> bool" where
  "strstr [] p = (p = [])"
| "strstr (c # cs) p = (take (length p) (c # cs) = p \<or> strstr cs p)"

text \<open>The part of the string from the last \<open>c\<close> on.\<close>

fun strrchr :: "u8 list \<Rightarrow> u8 \<Rightarrow> u8 list option" where
  "strrchr [] c = None"
| "strrchr (x # xs) c = (case strrchr xs c of Some t \<Rightarrow> Some t | None \<Rightarrow> if x = c then Some (x # xs) else None)"

definition to_lower :: "u8 \<Rightarrow> u8" where
  "to_lower c = (if 65 \<le> c \<and> c \<le> 90 then c + 32 else c)"

definition strcasecmp_eq :: "u8 list \<Rightarrow> u8 list \<Rightarrow> bool" where
  "strcasecmp_eq s t \<longleftrightarrow> map to_lower s = map to_lower t"

text \<open>\<open>sscanf(buf, "%s %s %s", ...)\<close>: the words that it stores.\<close>

definition next_word :: "u8 list \<Rightarrow> u8 list \<times> u8 list" where
  "next_word s = (let t = dropWhile is_space s in (takeWhile (\<lambda>c. \<not> is_space c) t, dropWhile (\<lambda>c. \<not> is_space c) t))"

definition sscanf_word :: "u8 list \<Rightarrow> (u8 list \<times> u8 list) res" where
  "sscanf_word s = (case next_word s of (w, t) \<Rightarrow> if w = [] then Inl Bad_access else Inr (w, t))"

definition checksum :: "u8 list \<Rightarrow> u32" where
  "checksum bs = foldl (\<lambda>csum b. csum + ucast b) 0 bs"

section \<open>webserver/request.c\<close>

abbreviation MAXLINE :: nat where "MAXLINE \<equiv> 8192"
abbreviation MAXBUF :: nat where "MAXBUF \<equiv> 8192"

record conn =
  conn_in :: "read_event list"
  conn_out :: out_fd
  closed :: bool
  console :: "u8 list"

record request =
  rq_fd :: conn
  rq_data :: nat

datatype site_file = Missing | Forbidden | Regular int "read_event list option"

definition send :: "conn \<Rightarrow> u8 list \<Rightarrow> conn res" where
  "send c bs = rbind (Rio_write (conn_out c) bs) (\<lambda>w. Inr (c\<lparr>conn_out := w\<rparr>))"

text \<open>\<open>Rio_write(fd, buf, strlen(buf)); printf("%s", buf);\<close>\<close>

definition send_and_print :: "conn \<Rightarrow> u8 list \<Rightarrow> conn res" where
  "send_and_print c bs = rbind (send c bs) (\<lambda>c. Inr (c\<lparr>console := console c @ bs\<rparr>))"

definition crlf :: "u8 list" where "crlf = [13, 10]"

definition error_body :: "u8 list \<Rightarrow> u8 list \<Rightarrow> u8 list \<Rightarrow> u8 list \<Rightarrow> u8 list" where
  "error_body cause errnum shortmsg longmsg =
     lit ''<html><title>OS Web Server Error</title>'' @ lit ''<body bgcolor=fffff>'' @ crlf @
     lit ''<p>'' @ errnum @ lit '': '' @ shortmsg @ lit ''</p>'' @ crlf @
     lit ''<p>'' @ longmsg @ lit '': '' @ cause @ lit ''</p>'' @ crlf @ lit ''</body></html>'' @ crlf"

definition request_error :: "conn \<Rightarrow> u8 list \<Rightarrow> u8 list \<Rightarrow> u8 list \<Rightarrow> u8 list \<Rightarrow> conn res" where
  "request_error fd cause errnum shortmsg longmsg =
     rbind (sprintf MAXBUF (error_body cause errnum shortmsg longmsg)) (\<lambda>body.
     rbind (sprintf MAXLINE (lit ''HTTP/1.0 '' @ errnum @ lit '' '' @ shortmsg @ crlf)) (\<lambda>buf.
     rbind (send_and_print fd buf) (\<lambda>fd.
     rbind (send_and_print fd (lit ''Content-Type: text/html'' @ crlf)) (\<lambda>fd.
     rbind (send_and_print fd (lit ''Content-Length: '' @ dec_nat (length body) @ crlf)) (\<lambda>fd.
     rbind (send_and_print fd (lit ''Content-Csum: '' @ dec_nat (unat (checksum body)) @ crlf @ crlf)) (\<lambda>fd.
     send_and_print fd body))))))"

text \<open>\<open>request_read_headers\<close> after its first line: a line that is not empty is followed by another.\<close>

fun read_headers_from :: "nat \<Rightarrow> rio \<Rightarrow> u8 list \<Rightarrow> rio res" where
  "read_headers_from fuel rp buf =
     rbind (c_streq buf crlf) (\<lambda>empty.
     if empty then Inr rp
     else (case fuel of 0 \<Rightarrow> Inl Out_of_fuel | Suc fuel \<Rightarrow>
       rbind (Rio_readlineb rp buf MAXLINE) (\<lambda>(_, buf, rp). read_headers_from fuel rp buf)))"

definition request_read_headers :: "nat \<Rightarrow> rio \<Rightarrow> u8 list \<Rightarrow> rio res" where
  "request_read_headers fuel rp buf = rbind (Rio_readlineb rp buf MAXLINE) (\<lambda>(_, buf, rp). read_headers_from fuel rp buf)"

declare read_headers_from.simps [simp del]

definition request_parse_URI :: "u8 list \<Rightarrow> nat \<Rightarrow> u8 list" where
  "request_parse_URI uri cap = take (cap - 1) (lit ''./'' @ uri)"

definition request_get_file_type :: "u8 list \<Rightarrow> u8 list" where
  "request_get_file_type filename =
     (if strstr filename (lit ''.html'') then lit ''text/html''
      else if strstr filename (lit ''.gif'') then lit ''image/gif''
      else if strstr filename (lit ''.jpg'') then lit ''image/jpeg''
      else lit ''text/plain'')"

definition request_destroy :: "request \<Rightarrow> conn" where
  "request_destroy rq = (rq_fd rq)\<lparr>closed := True\<rparr>"

text \<open>\<open>Inl c\<close> stands for NULL: the connection has been answered and closed. \<open>junk\<close>, and \<open>hjunk\<close> in \<open>request_read_headers\<close>, are
  what the local arrays hold.\<close>

definition request_init ::
  "nat \<Rightarrow> u8 list \<Rightarrow> u8 list \<Rightarrow> u8 list \<Rightarrow> conn \<Rightarrow> file_data cells \<Rightarrow> nat \<Rightarrow> ((conn + request) \<times> file_data cells) res" where
  "request_init fuel junk hjunk rio_junk connfd F data =
     rbind (c_assert (data \<noteq> 0)) (\<lambda>_.
     rbind (put_cell F data (\<lambda>d. d\<lparr>file_buf := [], file_size := 0\<rparr>)) (\<lambda>F.
     rbind (Rio_init True (conn_in connfd) rio_junk) (\<lambda>rp.
     rbind (Rio_readlineb rp junk MAXLINE) (\<lambda>(_, buf, rp).
     rbind (c_str buf) (\<lambda>line.
     rbind (sscanf_word line) (\<lambda>(method, rest).
     if \<not> strcasecmp_eq method (lit ''GET'') then
       rbind (request_error (connfd\<lparr>conn_in := rio_fd rp\<rparr>) method (lit ''501'') (lit ''Not Implemented'')
           (lit ''OS Web Server does not implement this method'')) (\<lambda>c.
       Inr (Inl (request_destroy \<lparr>rq_fd = c, rq_data = data\<rparr>), F))
     else
       rbind (request_read_headers fuel rp hjunk) (\<lambda>rp.
       rbind (sscanf_word rest) (\<lambda>(uri, _).
       rbind (put_cell F data (\<lambda>d. d\<lparr>file_name := request_parse_URI uri MAXLINE\<rparr>)) (\<lambda>F.
       Inr (Inr \<lparr>rq_fd = connfd\<lparr>conn_in := rio_fd rp\<rparr>, rq_data = data\<rparr>, F)))))))))) "

text \<open>An answer of \<open>request_readfile\<close> with an error.\<close>

definition refuse :: "request \<Rightarrow> file_data cells \<Rightarrow> u8 list \<Rightarrow> u8 list \<Rightarrow> u8 list \<Rightarrow> u8 list \<Rightarrow> (int \<times> request \<times> file_data cells) res" where
  "refuse rq F name errnum shortmsg longmsg =
     rbind (request_error (rq_fd rq) name errnum shortmsg longmsg) (\<lambda>c. Inr (0, rq\<lparr>rq_fd := c\<rparr>, F))"

text \<open>\<open>request_readfile\<close> from its call of stat on.\<close>

definition read_site_file ::
  "(u8 list \<Rightarrow> site_file) \<Rightarrow> (nat \<Rightarrow> u8) \<Rightarrow> request \<Rightarrow> file_data cells \<Rightarrow> u8 list \<Rightarrow> (int \<times> request \<times> file_data cells) res" where
  "read_site_file site fresh rq F name =
     (case site name of
       Missing \<Rightarrow> refuse rq F name (lit ''404'') (lit ''Not found'') (lit ''OS Web Server could not find this file'')
     | Forbidden \<Rightarrow> refuse rq F name (lit ''403'') (lit ''Forbidden'') (lit ''OS Web Server could not read this file'')
     | Regular st_size srcfd \<Rightarrow>
         rbind (put_cell F (rq_data rq) (\<lambda>d. d\<lparr>file_size := c_int st_size\<rparr>)) (\<lambda>F.
         if c_int st_size \<noteq> 0 then
           (case srcfd of
             None \<Rightarrow> Inl (Exit_with ''open'')
           | Some srcfd \<Rightarrow>
               if c_int st_size < 0 then Inl (Exit_with ''malloc'')
               else
                 rbind (Rio_read srcfd (nat (c_int st_size))) (\<lambda>(_, bs, _).
                 rbind (put_cell F (rq_data rq) (\<lambda>d. d\<lparr>file_buf := bs @ map fresh [length bs..<nat (c_int st_size)]\<rparr>)) (\<lambda>F.
                 Inr (1, rq, F))))
         else Inr (1, rq, F)))"

definition request_readfile ::
  "(u8 list \<Rightarrow> site_file) \<Rightarrow> (nat \<Rightarrow> u8) \<Rightarrow> request \<Rightarrow> file_data cells \<Rightarrow> (int \<times> request \<times> file_data cells) res" where
  "request_readfile site fresh rq F =
     rbind (c_assert (rq_data rq \<noteq> 0)) (\<lambda>_.
     rbind (cell_at F (rq_data rq)) (\<lambda>d.
     let name = file_name d in
     if name \<noteq> [] \<and> hd name = 47 then
       refuse rq F name (lit ''404'') (lit ''Not found'') (lit ''OS Web Server doesn't serve files with absolute paths'')
     else if strstr name (lit ''..'') then
       refuse rq F name (lit ''404'') (lit ''Not found'') (lit ''OS Web Server doesn't serve files with .. in the path'')
     else if strrchr name 46 = Some (lit ''.c'') \<or> strrchr name 46 = Some (lit ''.h'') then
       refuse rq F name (lit ''404'') (lit ''Not found'') (lit ''OS Web Server doesn't serve C or header files '')
     else read_site_file site fresh rq F name))"

definition request_set_data :: "request \<Rightarrow> nat \<Rightarrow> request" where
  "request_set_data rq data = rq\<lparr>rq_data := data\<rparr>"

definition response_header :: "u8 list \<Rightarrow> int \<Rightarrow> u32 \<Rightarrow> u8 list" where
  "response_header filetype n csum =
     lit ''HTTP/1.0 200 OK'' @ crlf @ lit ''Server: OS Web Server'' @ crlf @ lit ''Content-Type: '' @ filetype @ crlf @
     lit ''Content-Length: '' @ dec n @ crlf @ lit ''Content-Csum: '' @ dec_nat (unat csum) @ crlf @ crlf"

definition request_sendfile :: "request \<Rightarrow> file_data cells \<Rightarrow> request res" where
  "request_sendfile rq F =
     rbind (c_assert (rq_data rq \<noteq> 0)) (\<lambda>_.
     rbind (cell_at F (rq_data rq)) (\<lambda>d.
     let n = nat (file_size d) in
     if length (file_buf d) < n then Inl Bad_access
     else
       rbind (sprintf MAXBUF (response_header (request_get_file_type (file_name d)) (file_size d) (checksum (take n (file_buf d))))) (\<lambda>buf.
       rbind (send (rq_fd rq) buf) (\<lambda>c.
       rbind (if 0 < file_size d then send c (take n (file_buf d)) else Inr c) (\<lambda>c.
       Inr (rq\<lparr>rq_fd := c\<rparr>))))))"

section \<open>\<open>do_server_request\<close>\<close>

definition file_data_init :: "file_data cells \<Rightarrow> nat \<times> file_data cells" where
  "file_data_init F = new_cell F \<lparr>file_name = [], file_buf = [], file_size = 0\<rparr>"

definition file_data_free :: "file_data cells \<Rightarrow> nat \<Rightarrow> file_data cells res" where
  "file_data_free F data = free_cell F data"

text \<open>From the first look-up on; it gives the cached file, or 0, and the cache.\<close>

definition answer_request ::
  "(u8 list \<Rightarrow> site_file) \<Rightarrow> (nat \<Rightarrow> u8) \<Rightarrow> int \<Rightarrow> nat \<Rightarrow> request \<Rightarrow> file_data cells \<Rightarrow> nat \<times> hashtable \<Rightarrow> (hashtable \<times> file_data cells \<times> conn) res" where
  "answer_request site fresh max_cache_size data rq F = (\<lambda>(cached_data, ht).
     rbind
       (if cached_data \<noteq> 0 then
          rbind (request_sendfile (request_set_data rq cached_data) F) (\<lambda>rq. Inr (rq, ht, F))
        else
          rbind (request_readfile site fresh rq F) (\<lambda>(_, rq, F).
          rbind (request_sendfile rq F) (\<lambda>rq.
          if max_cache_size > 0 then
            rbind (cache_lookup ht F data 1) (\<lambda>(returned_data, ht).
            if returned_data = 0 then rbind (cache_insert ht F data) (\<lambda>ht. Inr (rq, ht, F))
            else Inr (rq, ht, F))
          else Inr (rq, ht, F))))
       (\<lambda>(rq, ht, F). Inr (ht, F, request_destroy rq)))"

definition do_server_request ::
  "nat \<Rightarrow> u8 list \<Rightarrow> u8 list \<Rightarrow> u8 list \<Rightarrow> (u8 list \<Rightarrow> site_file) \<Rightarrow> (nat \<Rightarrow> u8) \<Rightarrow> int \<Rightarrow>
   hashtable \<Rightarrow> file_data cells \<Rightarrow> conn \<Rightarrow> (hashtable \<times> file_data cells \<times> conn) res" where
  "do_server_request fuel junk hjunk rio_junk site fresh max_cache_size ht F connfd =
     (case file_data_init F of (data, F) \<Rightarrow>
     rbind (request_init fuel junk hjunk rio_junk connfd F data) (\<lambda>(r, F).
     case r of
       Inl c \<Rightarrow> rbind (file_data_free F data) (\<lambda>F. Inr (ht, F, c))
     | Inr rq \<Rightarrow>
         rbind (if max_cache_size > 0 then cache_lookup ht F data 0 else Inr (0, ht))
           (answer_request site fresh max_cache_size data rq F)))"

end
