(* ===== verification/Client.thy ===== *)
theory Client
  imports Request
begin

text \<open>
  The client and the generator of files that test the web server: webserver/client.c and webserver/fileset.c. A connection is the bytes written
  to it and what will be read from it (theory Rio). Parameters are what the two programs get from the random numbers: the number of the file that
  is asked for, the size of a file and its bytes. \<open>sscanf\<close> stores what it has converted and leaves the rest of its arguments: a member of a
  \<open>fileinfo\<close> that has never been stored is None. A number that does not fit an int is cut, as glibc does. Writing on the standard output does not fail.
\<close>

section \<open>sscanf\<close>

text \<open>\<open>%d\<close> and \<open>%u\<close>: the number and the rest of the input.\<close>

definition scan_d :: "u8 list \<Rightarrow> (int \<times> u8 list) option" where
  "scan_d s = (case strtoll s of (v, end) \<Rightarrow> if end = s then None else Some (c_int v, end))"

definition scan_u :: "u8 list \<Rightarrow> (u32 \<times> u8 list) option" where
  "scan_u s = (case strtoull s of (v, end) \<Rightarrow> if end = s then None else Some (of_nat v, end))"

definition scan_tag :: "u8 list \<Rightarrow> u8 list \<Rightarrow> u8 list option" where
  "scan_tag tag s = (if take (length tag) s = tag then Some (drop (length tag) s) else None)"

definition scan_length :: "u8 list \<Rightarrow> int \<Rightarrow> int" where
  "scan_length line len =
     (case Option.bind (scan_tag (lit ''Content-Length:'') line) scan_d of None \<Rightarrow> len | Some (v, _) \<Rightarrow> v)"

definition scan_csum :: "u8 list \<Rightarrow> u32 \<Rightarrow> u32" where
  "scan_csum line csum =
     (case Option.bind (scan_tag (lit ''Content-Csum:'') line) scan_u of None \<Rightarrow> csum | Some (v, _) \<Rightarrow> v)"

definition atoi :: "u8 list \<Rightarrow> int" where
  "atoi s = c_int (fst (strtoll s))"

section \<open>One request\<close>

definition client_send :: "out_fd \<Rightarrow> u8 list \<Rightarrow> u8 list \<Rightarrow> out_fd res" where
  "client_send fd host filename =
     rbind (sprintf MAXLINE (lit ''GET '' @ filename @ lit '' HTTP/1.0'' @ crlf)) (\<lambda>buf.
     rbind (sprintf MAXLINE (buf @ lit ''host: '' @ host @ crlf @ crlf)) (\<lambda>buf.
     Rio_write fd buf))"

text \<open>The loop of \<open>client_print\<close> over the header, and the one over the body; \<open>out\<close> is what has been printed.\<close>

fun client_header ::
  "nat \<Rightarrow> bool \<Rightarrow> rio \<Rightarrow> u8 list \<Rightarrow> int \<Rightarrow> int \<Rightarrow> u32 \<Rightarrow> u8 list \<Rightarrow> (rio \<times> u8 list \<times> int \<times> u32 \<times> u8 list) res" where
  "client_header fuel print rio buf n len csum out =
     rbind (c_streq buf crlf) (\<lambda>empty.
     if \<not> empty \<and> 0 < n then
       (case fuel of 0 \<Rightarrow> Inl Out_of_fuel | Suc fuel \<Rightarrow>
         rbind (if print then rbind (c_str buf) (\<lambda>s. Inr (out @ lit ''Header: '' @ s)) else Inr out) (\<lambda>out.
         rbind (Rio_readlineb rio buf MAXBUF) (\<lambda>(n, buf, rio).
         rbind (c_str buf) (\<lambda>line.
         client_header fuel print rio buf n (scan_length line len) (scan_csum line csum) out))))
     else Inr (rio, buf, len, csum, out))"

fun client_body ::
  "nat \<Rightarrow> bool \<Rightarrow> rio \<Rightarrow> u8 list \<Rightarrow> int \<Rightarrow> u32 \<Rightarrow> u8 list \<Rightarrow> (rio \<times> int \<times> u32 \<times> u8 list) res" where
  "client_body fuel print rio buf length_received csum_received out =
     rbind (Rio_readlineb rio buf MAXBUF) (\<lambda>(n, buf, rio).
     if length buf < nat n then Inl Bad_access
     else
       let out = (if print then out @ take (nat n) buf else out);
           length_received = c_int (length_received + n);
           csum_received = foldl (\<lambda>csum b. csum + ucast b) csum_received (take (nat n) buf) in
       if 0 < n then
         (case fuel of 0 \<Rightarrow> Inl Out_of_fuel | Suc fuel \<Rightarrow> client_body fuel print rio buf length_received csum_received out)
       else Inr (rio, length_received, csum_received, out))"

declare client_header.simps [simp del] client_body.simps [simp del]

definition client_print ::
  "nat \<Rightarrow> u8 list \<Rightarrow> u8 list \<Rightarrow> read_event list \<Rightarrow> u32 \<Rightarrow> int \<Rightarrow> bool \<Rightarrow> u8 list res" where
  "client_print fuel junk rio_junk fd orig_csum orig_length print =
     rbind (Rio_init True fd rio_junk) (\<lambda>rio.
     rbind (Rio_readlineb rio junk MAXBUF) (\<lambda>(n, buf, rio).
     rbind (client_header fuel print rio buf n 0 0 []) (\<lambda>(rio, buf, len, csum, out).
     rbind (client_body fuel print rio buf 0 0 out) (\<lambda>(rio, length_received, csum_received, out).
     rbind (c_assert (orig_csum = csum)) (\<lambda>_.
     rbind (c_assert (orig_length = len)) (\<lambda>_.
     rbind (c_assert (len = length_received)) (\<lambda>_.
     rbind (c_assert (csum = csum_received)) (\<lambda>_.
     Inr out))))))))"

section \<open>The set of files\<close>

record fileinfo =
  fi_name :: "u8 list option"
  fi_csum :: "u32 option"
  fi_len :: "int option"

record client =
  host :: "u8 list"
  nr_times :: nat
  fileset :: "fileinfo list"
  nr_files :: int
  timing_mode :: bool

text \<open>\<open>sscanf(buf, "%s %u %d", fi->name, &fi->csum, &fi->len)\<close> on a new \<open>fi\<close>.\<close>

definition scan_fileinfo :: "u8 list \<Rightarrow> fileinfo" where
  "scan_fileinfo s =
     (let fi = \<lparr>fi_name = None, fi_csum = None, fi_len = None\<rparr> in
      case next_word s of (name, s) \<Rightarrow>
        if name = [] then fi
        else
          case scan_u s of
            None \<Rightarrow> fi\<lparr>fi_name := Some name\<rparr>
          | Some (csum, s) \<Rightarrow> \<lparr>fi_name = Some name, fi_csum = Some csum, fi_len = map_option fst (scan_d s)\<rparr>)"

text \<open>The loop of \<open>init_fileset\<close>; \<open>i\<close> is the number of files in \<open>fs\<close>.\<close>

fun init_fileset_from :: "nat \<Rightarrow> rio \<Rightarrow> u8 list \<Rightarrow> client \<Rightarrow> client res" where
  "init_fileset_from fuel rio buf cl =
     rbind (Rio_readlineb rio buf MAXLINE) (\<lambda>(n, buf, rio).
     if n = 0 then
       rbind (c_assert (0 < nr_files cl)) (\<lambda>_.
       rbind (c_assert (int (length (fileset cl)) = nr_files cl)) (\<lambda>_. Inr cl))
     else
       (case fuel of 0 \<Rightarrow> Inl Out_of_fuel | Suc fuel \<Rightarrow>
         rbind (c_str buf) (\<lambda>s.
         if nr_files cl = 0 then
           rbind (c_assert (0 < atoi s)) (\<lambda>_. init_fileset_from fuel rio buf (cl\<lparr>nr_files := atoi s\<rparr>))
         else
           rbind (c_assert (int (length (fileset cl)) < nr_files cl)) (\<lambda>_.
           init_fileset_from fuel rio buf (cl\<lparr>fileset := fileset cl @ [scan_fileinfo s]\<rparr>)))))"

declare init_fileset_from.simps [simp del]

definition init_fileset :: "nat \<Rightarrow> u8 list \<Rightarrow> u8 list \<Rightarrow> read_event list \<Rightarrow> client \<Rightarrow> client res" where
  "init_fileset fuel junk rio_junk fd cl = rbind (Rio_init True fd rio_junk) (\<lambda>rio. init_fileset_from fuel rio junk cl)"

text \<open>
  The requests from the \<open>i\<close>-th on: \<open>fnr i\<close> is what \<open>rand_self_similar_int\<close> returns, \<open>wr i\<close> how far the writes to the connection get and \<open>reply i bs\<close>
  what will be read from it when \<open>bs\<close> has been sent.
\<close>

fun client_request_from ::
  "nat \<Rightarrow> u8 list \<Rightarrow> u8 list \<Rightarrow> (nat \<Rightarrow> nat) \<Rightarrow> (nat \<Rightarrow> write_event list) \<Rightarrow> (nat \<Rightarrow> u8 list \<Rightarrow> read_event list) \<Rightarrow> client \<Rightarrow> nat \<Rightarrow> nat \<Rightarrow> u8 list res" where
  "client_request_from fuel junk rio_junk fnr wr reply cl 0 i = Inr []"
| "client_request_from fuel junk rio_junk fnr wr reply cl (Suc k) i =
     (if fnr i = 0 \<or> length (fileset cl) < fnr i then Inl Bad_access
      else
        case fileset cl ! (fnr i - 1) of fi \<Rightarrow>
        (case (fi_name fi, fi_csum fi, fi_len fi) of
          (Some name, Some csum, Some len) \<Rightarrow>
            rbind (client_send \<lparr>written = [], wevents = wr i\<rparr> (host cl) name) (\<lambda>clientfd.
            rbind (client_print fuel junk rio_junk (reply i (written clientfd)) csum len (\<not> timing_mode cl)) (\<lambda>out.
            rbind (client_request_from fuel junk rio_junk fnr wr reply cl k (Suc i)) (\<lambda>out'. Inr (out @ out'))))
        | _ \<Rightarrow> Inl Bad_access))"

definition client_request ::
  "nat \<Rightarrow> u8 list \<Rightarrow> u8 list \<Rightarrow> (nat \<Rightarrow> nat) \<Rightarrow> (nat \<Rightarrow> write_event list) \<Rightarrow> (nat \<Rightarrow> u8 list \<Rightarrow> read_event list) \<Rightarrow> client \<Rightarrow> u8 list res" where
  "client_request fuel junk rio_junk fnr wr reply cl = client_request_from fuel junk rio_junk fnr wr reply cl (nr_times cl) 0"

section \<open>webserver/fileset.c\<close>

text \<open>The bytes of a file from the \<open>k\<close>-th on; \<open>chars j\<close> is what \<open>random()\<close> returns for the \<open>j\<close>-th.\<close>

definition fileset_bytes :: "(nat \<Rightarrow> nat) \<Rightarrow> nat \<Rightarrow> int \<Rightarrow> u8 list" where
  "fileset_bytes chars k sz = map (\<lambda>j. of_nat (chars (k + j) mod (0x73 - 0x20) + 0x20)) [0..<nat sz]"

function write_fileset_file :: "(nat \<Rightarrow> nat) \<Rightarrow> int \<Rightarrow> nat \<Rightarrow> u32 \<Rightarrow> out_fd \<Rightarrow> (u32 \<times> out_fd) res" where
  "write_fileset_file chars remaining k csum fd =
     (if 0 < remaining then
        let sz = (if remaining < 4096 then remaining else 4096);
            buf = fileset_bytes chars k sz;
            csum = foldl (\<lambda>csum b. csum + ucast b) csum buf in
        rbind (Rio_write fd buf) (\<lambda>fd. write_fileset_file chars (remaining - sz) (k + nat sz) csum fd)
      else Inr (csum, fd))"
  by pat_completeness auto
termination
  by (relation "measure (\<lambda>(chars, remaining, k, csum, fd). nat remaining)") auto

declare write_fileset_file.simps [simp del]

text \<open>\<open>sprintf(name, "/%05d", i)\<close>\<close>

definition fileset_name :: "u8 list \<Rightarrow> nat \<Rightarrow> u8 list res" where
  "fileset_name dir i =
     rbind (sprintf 10 (lit ''/'' @ replicate (5 - length (dec_nat i)) 48 @ dec_nat i)) (\<lambda>name.
     sprintf 1024 (dir @ name))"

text \<open>The loop of \<open>main\<close> from the \<open>i\<close>-th file on: the index, and the files with their names. \<open>file_sz i\<close> is what \<open>rand_pareto\<close> gives.\<close>

fun fileset_from ::
  "u8 list \<Rightarrow> (nat \<Rightarrow> int) \<Rightarrow> (nat \<Rightarrow> nat \<Rightarrow> nat) \<Rightarrow> (nat \<Rightarrow> write_event list) \<Rightarrow> nat \<Rightarrow> nat \<Rightarrow> out_fd \<Rightarrow> (out_fd \<times> (u8 list \<times> u8 list) list) res" where
  "fileset_from dir file_sz chars wr 0 i fd_idx = Inr (fd_idx, [])"
| "fileset_from dir file_sz chars wr (Suc k) i fd_idx =
     rbind (fileset_name dir i) (\<lambda>filename.
     rbind (write_fileset_file (chars i) (file_sz i) 0 0 \<lparr>written = [], wevents = wr i\<rparr>) (\<lambda>(csum, fd).
     rbind (sprintf 4096 (filename @ lit '' '' @ dec_nat (unat csum) @ lit '' '' @ dec (file_sz i) @ [10])) (\<lambda>buf_idx.
     rbind (Rio_write fd_idx buf_idx) (\<lambda>fd_idx.
     rbind (fileset_from dir file_sz chars wr k (Suc i) fd_idx) (\<lambda>(fd_idx, files).
     Inr (fd_idx, (filename, written fd) # files))))))"

definition fileset_main ::
  "u8 list \<Rightarrow> nat \<Rightarrow> (nat \<Rightarrow> int) \<Rightarrow> (nat \<Rightarrow> nat \<Rightarrow> nat) \<Rightarrow> (nat \<Rightarrow> write_event list) \<Rightarrow> write_event list \<Rightarrow> (u8 list \<times> (u8 list \<times> u8 list) list) res" where
  "fileset_main dir files file_sz chars wr wr_idx =
     (if files < 1 \<or> files > 99999 then Inl (Exit_with ''nr of files is out of bounds'')
      else if length dir > 1000 then Inl (Exit_with ''dir name is too long'')
      else
        rbind (sprintf 4096 (dec_nat files @ [10])) (\<lambda>buf_idx.
        rbind (Rio_write \<lparr>written = [], wevents = wr_idx\<rparr> buf_idx) (\<lambda>fd_idx.
        rbind (fileset_from dir file_sz chars wr files 0 fd_idx) (\<lambda>(fd_idx, fs).
        Inr (written fd_idx, fs)))))"

end
