(* ===== verification/Rio_Spec.thy ===== *)
theory Rio_Spec
  imports Rio
begin

text \<open>
  What the robust I/O functions of webserver/common.c promise: on a descriptor that does not fail, reading gives the next bytes
  of the stream, or its next line, whatever the chunks and signals they arrive with, and writing writes all of them.
\<close>

section \<open>Streams\<close>

primrec read_data :: "read_event list \<Rightarrow> u8 list" where
  "read_data [] = []"
| "read_data (e # s) = (case e of Chunk b bs \<Rightarrow> b # bs | _ \<Rightarrow> []) @ read_data s"

lemma sys_read_cases:
  assumes "Fail \<notin> set s" "0 < n"
  obtains (eof) "s = []" "sys_read n s = (Got [], [])"
  | (intr) t where "sys_read n s = (Interrupted, t)" "read_data t = read_data s" "Fail \<notin> set t"
  | (got) b bs t where "sys_read n s = (Got (b # bs), t)" "b # bs @ read_data t = read_data s" "Fail \<notin> set t" "length bs < n"
proof (cases "(n, s)" rule: sys_read.cases)
  case (4 m b bs u)
  obtain k where k: "n = Suc k" "m = Suc k" using assms(2) 4 by (cases n) auto
  have s: "s = Chunk b bs # u" using 4 by simp
  let ?t = "case drop n (b # bs) of [] \<Rightarrow> u | c # cs \<Rightarrow> Chunk c cs # u"
  have "sys_read n s = (Got (b # take k bs), ?t)" using k(1) by (simp add: s)
  moreover have "b # take k bs @ read_data ?t = read_data s"
  proof (cases "drop k bs")
    case Nil
    then show ?thesis using k(1) by (simp add: s)
  next
    case (Cons c cs)
    then have "take k bs @ c # cs = bs" by (metis append_take_drop_id)
    then show ?thesis using k(1) Cons by (simp add: s)
  qed
  moreover have "Fail \<notin> set ?t" using assms(1) s by (auto split: list.splits)
  moreover have "length (take k bs) < n" using k(1) by simp
  ultimately show ?thesis by (rule got)
qed (use assms eof intr in auto)

lemma rio_read_from_ok:
  "Fail \<notin> set fd \<Longrightarrow> \<exists>fd'. rio_read_from fd nleft got =
      (int (length got + min nleft (length (read_data fd))), got @ take nleft (read_data fd), fd') \<and>
    read_data fd' = drop nleft (read_data fd) \<and> Fail \<notin> set fd'"
proof (induction fd nleft got rule: rio_read_from.induct)
  case (1 fd nleft got)
  show ?case
  proof (cases "0 < nleft")
    case True
    from 1(3) True show ?thesis
    proof (cases rule: sys_read_cases)
      case eof
      then show ?thesis using True by (subst rio_read_from.simps) simp
    next
      case (intr t)
      then show ?thesis using 1(2) [OF True intr(1) [symmetric] refl] True by (subst rio_read_from.simps) simp
    next
      case (got b bs t)
      define g where "g = b # bs"
      have g: "g \<noteq> []" "length g \<le> nleft" "read_data fd = g @ read_data t" "sys_read nleft fd = (Got g, t)" using got by (simp_all add: g_def)
      obtain fd' where IH: "rio_read_from t (nleft - length g) (got @ g) =
          (int (length (got @ g) + min (nleft - length g) (length (read_data t))), (got @ g) @ take (nleft - length g) (read_data t), fd')"
          "read_data fd' = drop (nleft - length g) (read_data t)" "Fail \<notin> set fd'"
        using 1(1) [OF True g(4) [symmetric] refl g(1) got(3)] by blast
      have "rio_read_from fd nleft got = rio_read_from t (nleft - length g) (got @ g)"
        using g(1,4) True by (subst rio_read_from.simps) simp
      moreover have "length (got @ g) + min (nleft - length g) (length (read_data t)) = length got + min nleft (length (read_data fd))"
        using g(2,3) by simp
      moreover have "(got @ g) @ take (nleft - length g) (read_data t) = got @ take nleft (read_data fd)" using g(2,3) by simp
      ultimately show ?thesis using IH g(2,3) by (intro exI [of _ fd']) simp
    qed
  next
    case False
    then show ?thesis using 1(3) by (subst rio_read_from.simps) simp
  qed
qed

lemma rio_write_ok:
  "W_fail \<notin> set (wevents fd) \<Longrightarrow> \<exists>fd'. rio_write fd bs = (True, fd') \<and> written fd' = written fd @ bs \<and> W_fail \<notin> set (wevents fd')"
proof (induction fd bs rule: rio_write.induct)
  case (1 fd bs)
  show ?case
  proof (cases "bs = []")
    case True
    then show ?thesis using 1(3) by (subst rio_write.simps) simp
  next
    case False
    obtain r i fd1 where w: "sys_write fd bs = ((r, i), fd1)" by (metis surj_pair)
    have nf: "W_fail \<notin> set (wevents fd1)" using w 1(3) by (auto simp: sys_write_def split: list.splits write_event.splits)
    show ?thesis
    proof (cases r)
      case None
      then have "i" using w 1(3) by (auto simp: sys_write_def split: list.splits write_event.splits)
      then show ?thesis
        using 1(1) [OF False w [symmetric] refl] None w nf False sys_write_smaller(2) [of fd bs fd1] by (subst rio_write.simps) simp
    next
      case (Some k)
      have "written fd1 = written fd @ take k bs" using sys_write_smaller(1) [of fd bs k i fd1] w Some False by simp
      then show ?thesis
        using 1(2) [OF False w [symmetric] refl] Some w nf False by (subst rio_write.simps) simp
    qed
  qed
qed

section \<open>Buffered reading\<close>

definition unread :: "rio \<Rightarrow> u8 list" where
  "unread rp = bslice (rio_bufptr rp) (nat (rio_cnt rp)) (rio_buf rp)"

definition stream :: "rio \<Rightarrow> u8 list" where
  "stream rp = unread rp @ read_data (rio_fd rp)"

definition rio_wf :: "rio \<Rightarrow> bool" where
  "rio_wf rp \<longleftrightarrow> length (rio_buf rp) = RIO_BUFSIZE \<and> Fail \<notin> set (rio_fd rp) \<and>
     rio_bufptr rp + nat (rio_cnt rp) \<le> RIO_BUFSIZE"

lemma bslice_Suc: "off < length xs \<Longrightarrow> bslice off (Suc n) xs = xs ! off # bslice (Suc off) n xs"
  by (simp add: bslice_def Cons_nth_drop_Suc [symmetric])

lemma rio_copy_1:
  assumes "rio_wf rp" "0 < rio_cnt rp"
  shows "\<exists>c rp'. rio_copy rp 1 = Inr (1, [c], rp') \<and> stream rp = c # stream rp' \<and> rio_wf rp'"
proof -
  obtain k where k: "rio_cnt rp = int (Suc k)" using assms(2) by (metis gr0_implies_Suc zero_less_imp_eq_int)
  then have nk: "nat (rio_cnt rp) = Suc k" by simp
  have b: "rio_bufptr rp < length (rio_buf rp)" "rio_bufptr rp + Suc k \<le> RIO_BUFSIZE" "length (rio_buf rp) = RIO_BUFSIZE"
    using assms(1) nk by (simp_all add: rio_wf_def)
  let ?rp = "rp\<lparr>rio_bufptr := rio_bufptr rp + 1, rio_cnt := int k\<rparr>"
  have "rio_copy rp 1 = Inr (1, [rio_buf rp ! rio_bufptr rp], ?rp)"
    using k b bslice_Suc [OF b(1), of 0] by (simp add: rio_copy_def bslice_def)
  moreover have "stream rp = rio_buf rp ! rio_bufptr rp # stream ?rp"
    using k bslice_Suc [OF b(1), of k] by (simp add: stream_def unread_def nat_add_distrib)
  moreover have "rio_wf ?rp" using assms(1) b k by (simp add: rio_wf_def)
  ultimately show ?thesis by blast
qed

lemma rio_readb_1:
  "rio_wf rp \<Longrightarrow> \<exists>rp'. rio_wf rp' \<and>
    (case stream rp of [] \<Rightarrow> rio_readb rp 1 = Inr (0, [], rp') \<and> stream rp' = []
     | c # cs \<Rightarrow> rio_readb rp 1 = Inr (1, [c], rp') \<and> stream rp' = cs)"
proof (induction rp "1 :: nat" rule: rio_readb.induct)
  case (1 rp)
  show ?case
  proof (cases "rio_cnt rp \<le> 0")
    case True
    then have st: "stream rp = read_data (rio_fd rp)" by (simp add: stream_def unread_def bslice_def)
    have nf: "Fail \<notin> set (rio_fd rp)" using 1(2) by (simp add: rio_wf_def)
    have pos: "0 < RIO_BUFSIZE" by simp
    from nf pos show ?thesis
    proof (cases rule: sys_read_cases)
      case eof
      let ?rp = "rp\<lparr>rio_fd := [], rio_cnt := 0\<rparr>"
      have "rio_readb rp 1 = Inr (0, [], ?rp)" using eof True by (subst rio_readb.simps) simp
      moreover have "rio_wf ?rp" "stream ?rp = []" using 1(2) by (simp_all add: rio_wf_def stream_def unread_def bslice_def)
      ultimately show ?thesis using st eof(1) by (intro exI [of _ ?rp]) simp
    next
      case (intr t)
      let ?rp = "rp\<lparr>rio_fd := t, rio_cnt := - 1\<rparr>"
      have wf: "rio_wf ?rp" using 1(2) intr by (simp add: rio_wf_def)
      have s: "stream ?rp = stream rp" using intr(2) st by (simp add: stream_def unread_def bslice_def)
      have r: "rio_readb rp 1 = rio_readb ?rp 1" using intr(1) True by (subst rio_readb.simps) simp
      show ?thesis using 1(1) [OF True intr(1) [symmetric] refl wf] unfolding s r .
    next
      case (got b bs t)
      let ?rp = "rp\<lparr>rio_fd := t, rio_cnt := int (length (b # bs)), rio_bufptr := 0, rio_buf := blit (rio_buf rp) 0 (b # bs)\<rparr>"
      have wf: "rio_wf ?rp" using 1(2) got(3,4) by (simp add: rio_wf_def)
      have u: "unread ?rp = b # bs"
        using 1(2) got(4) by (simp add: unread_def rio_wf_def bslice_blit_same del: length_Cons)
      have s: "stream ?rp = stream rp" using got(2) st u by (simp add: stream_def)
      have r: "rio_readb rp 1 = rio_copy ?rp 1" using got(1) True by (subst rio_readb.simps) simp
      obtain c rp' where c: "rio_copy ?rp 1 = Inr (1, [c], rp')" "stream ?rp = c # stream rp'" "rio_wf rp'"
        using rio_copy_1 [OF wf] by auto
      then show ?thesis unfolding r s [symmetric] by auto
    qed
  next
    case False
    then obtain c rp' where "rio_copy rp 1 = Inr (1, [c], rp')" "stream rp = c # stream rp'" "rio_wf rp'"
      using rio_copy_1 [OF 1(2)] by auto
    moreover have "rio_readb rp 1 = rio_copy rp 1" using False by (subst rio_readb.simps) simp
    ultimately show ?thesis by auto
  qed
qed

section \<open>Lines\<close>

text \<open>The next line of a stream: up to \<open>m\<close> bytes, to the first newline.\<close>

fun take_line :: "nat \<Rightarrow> u8 list \<Rightarrow> u8 list" where
  "take_line 0 s = []"
| "take_line (Suc m) [] = []"
| "take_line (Suc m) (c # cs) = (if c = 10 then [c] else c # take_line m cs)"

lemma take_line_prefix: "take_line m s @ drop (length (take_line m s)) s = s"
  by (induction m s rule: take_line.induct) auto

lemma length_take_line: "length (take_line m s) \<le> m"
  by (induction m s rule: take_line.induct) auto

lemma blit_snoc: "off + length xs < length b \<Longrightarrow> blit (blit b off xs) (off + length xs) ys = blit b off (xs @ ys)"
  by (simp add: blit_def ac_simps)

lemma nat_1_int [simp]: "nat (1 + int n) = Suc n"
  by simp

lemma rio_readlineb_from_ok:
  assumes "rio_wf rp" "n + length (take_line (maxlen - n) (stream rp)) < length usrbuf" "n \<le> maxlen" "n = 0 \<longrightarrow> stream rp \<noteq> []" "0 < maxlen"
  shows "\<exists>rp'. rio_readlineb_from rp usrbuf n maxlen =
      Inr (int (n + length (take_line (maxlen - n) (stream rp))), blit usrbuf n (take_line (maxlen - n) (stream rp) @ [0]), rp') \<and>
    rio_wf rp' \<and> stream rp' = drop (length (take_line (maxlen - n) (stream rp))) (stream rp)"
  using assms
proof (induction "maxlen - n" arbitrary: rp usrbuf n)
  case 0
  then have n: "n = maxlen" by simp
  then show ?case using 0 by (subst rio_readlineb_from.simps) (simp add: memcpy_def)
next
  case (Suc m)
  then have lt: "n < maxlen" and m: "maxlen - n = Suc m" "m = maxlen - Suc n" by simp_all
  obtain rp1 where r: "rio_wf rp1" "case stream rp of [] \<Rightarrow> rio_readb rp 1 = Inr (0, [], rp1) \<and> stream rp1 = []
     | c # cs \<Rightarrow> rio_readb rp 1 = Inr (1, [c], rp1) \<and> stream rp1 = cs"
    using rio_readb_1 [OF Suc.prems(1)] by blast
  show ?case
  proof (cases "stream rp")
    case Nil
    then show ?thesis using r lt m Suc.prems by (subst rio_readlineb_from.simps) (simp add: memcpy_def)
  next
    case (Cons c cs)
    then have rb: "rio_readb rp 1 = Inr (1, [c], rp1)" "stream rp1 = cs" using r(2) by simp_all
    show ?thesis
    proof (cases "c = 10")
      case True
      then show ?thesis
        using rb r(1) lt m Suc.prems(2) Cons blit_snoc [of n "[c]" usrbuf "[0]"]
        by (subst rio_readlineb_from.simps) (simp add: memcpy_def)
    next
      case False
      let ?b = "blit usrbuf n [c]" and ?l = "take_line (maxlen - Suc n) (stream rp1)"
      have l: "take_line (maxlen - n) (stream rp) = c # ?l" using Cons False m rb(2) by simp
      have len: "Suc n + length ?l < length usrbuf" using Suc.prems(2) l by simp
      have b: "blit ?b (Suc n) (?l @ [0]) = blit usrbuf n ((c # ?l) @ [0])"
        using blit_snoc [of n "[c]" usrbuf "?l @ [0]"] len by simp
      obtain rp2 where IH: "rio_readlineb_from rp1 ?b (Suc n) maxlen = Inr (int (Suc n + length ?l), blit ?b (Suc n) (?l @ [0]), rp2)"
          "rio_wf rp2" "stream rp2 = drop (length ?l) (stream rp1)"
        using Suc.hyps(1) [OF m(2) r(1), of ?b] len lt Suc.prems(5) by auto
      then show ?thesis unfolding l
        using rb lt len b False Cons by (subst rio_readlineb_from.simps) (simp add: memcpy_def)
    qed
  qed
qed

lemma rio_readlineb_eof:
  assumes "rio_wf rp" "stream rp = []" "0 < maxlen"
  shows "\<exists>rp'. rio_readlineb_from rp usrbuf 0 maxlen = Inr (0, usrbuf, rp') \<and> rio_wf rp' \<and> stream rp' = []"
proof -
  obtain rp1 where "rio_wf rp1" "rio_readb rp 1 = Inr (0, [], rp1)" "stream rp1 = []"
    using rio_readb_1 [OF assms(1)] assms(2) by auto
  then show ?thesis using assms(3) by (subst rio_readlineb_from.simps) simp
qed

lemma rio_readlineb_full:
  assumes "rio_wf rp" "length usrbuf = maxlen" "n \<le> maxlen" "maxlen - n \<le> length (stream rp)" "10 \<notin> set (take (maxlen - n) (stream rp))"
  shows "rio_readlineb_from rp usrbuf n maxlen = Inl Bad_access"
  using assms
proof (induction "maxlen - n" arbitrary: rp usrbuf n)
  case 0
  then show ?case by (subst rio_readlineb_from.simps) (simp add: memcpy_def)
next
  case (Suc m)
  then have m: "n < maxlen" "m = maxlen - Suc n" "maxlen - n = Suc m" by simp_all
  obtain c cs where s: "stream rp = c # cs" using Suc.prems(4) m by (cases "stream rp") auto
  obtain rp1 where r: "rio_wf rp1" "rio_readb rp 1 = Inr (1, [c], rp1)" "stream rp1 = cs"
    using rio_readb_1 [OF Suc.prems(1)] s by auto
  have c: "c \<noteq> 10" "10 \<notin> set (take m cs)" using Suc.prems(5) s m by auto
  have "rio_readlineb_from rp1 (blit usrbuf n [c]) (Suc n) maxlen = Inl Bad_access"
    by (rule Suc.hyps(1) [OF m(2) r(1)]) (use Suc.prems s m r c in auto)
  then show ?case using r(2) m c Suc.prems(2) by (subst rio_readlineb_from.simps) (simp add: memcpy_def)
qed

end
