(* ===== verification/Lru_List.thy ===== *)
theory Lru_List
  imports Cache
begin

text \<open>
  The list of cached files in the order of their use, webserver/server_thread.c. \<open>elist m p L\<close>: the entries \<open>L\<close> are the list
  that starts at \<open>p\<close>; \<open>dat\<close> reads the file of an entry. The three branches of \<open>update_LRU\<close> are one
  operation on the files, \<open>remove1 file fs @ [file]\<close>, and change no cell of another list (\<open>relinked\<close>).
\<close>

section \<open>The loops\<close>

definition dat :: "entry cells \<Rightarrow> nat \<Rightarrow> nat" where
  "dat m a = (case cell m a of Some e \<Rightarrow> e_data e | None \<Rightarrow> 0)"

abbreviation elist :: "entry cells \<Rightarrow> nat \<Rightarrow> nat list \<Rightarrow> bool" where
  "elist m p as \<equiv> chain e_next (cell m) p as 0"

lemma elist_ConsD:
  assumes "elist m p (a # as)"
  obtains e where "p = a" "a \<noteq> 0" "cell m a = Some e" "elist m (e_next e) as" "dat m a = e_data e"
  using assms by (auto simp: dat_def split: option.splits)

lemma elist_Nil [simp]: "elist m p [] \<longleftrightarrow> p = 0"
  by simp

lemma lru_scan_elist:
  "elist m p L \<Longrightarrow> length L \<le> fuel \<Longrightarrow> lru_scan fuel m file prev p =
    Inr (last (prev # takeWhile (\<lambda>a. dat m a \<noteq> file) L),
      case dropWhile (\<lambda>a. dat m a \<noteq> file) L of [] \<Rightarrow> 0 | c # _ \<Rightarrow> c)"
proof (induction L arbitrary: p fuel prev)
  case (Cons a L)
  obtain e where e: "p = a" "a \<noteq> 0" "cell m a = Some e" "elist m (e_next e) L" "dat m a = e_data e"
    by (rule elist_ConsD [OF Cons.prems(1)])
  obtain f where "fuel = Suc f" "length L \<le> f" using Cons.prems(2) by (cases fuel) auto
  then show ?case using e Cons.IH [OF e(4), of f a] by (subst lru_scan.simps) simp
qed (simp add: lru_scan.simps)

lemma lru_last_elist: "elist m p L \<Longrightarrow> length L \<le> fuel \<Longrightarrow> lru_last fuel m prev p = Inr (last (prev # L))"
proof (induction L arbitrary: p fuel prev)
  case (Cons a L)
  obtain e where e: "p = a" "a \<noteq> 0" "cell m a = Some e" "elist m (e_next e) L"
    by (rule elist_ConsD [OF Cons.prems(1)])
  obtain f where "fuel = Suc f" "length L \<le> f" using Cons.prems(2) by (cases fuel) auto
  then show ?case using e Cons.IH [OF e(4), of f a] by (subst lru_last.simps) simp
qed (simp add: lru_last.simps)

section \<open>\<open>update_LRU\<close> moves a file to the end\<close>

text \<open>What a change of the list \<open>L\<close> of entries into \<open>L'\<close> leaves alone.\<close>

definition relinked :: "hashtable \<Rightarrow> nat list \<Rightarrow> hashtable \<Rightarrow> nat list \<Rightarrow> bool" where
  "relinked ht L ht' L' \<longleftrightarrow> cells_wf (ents ht') \<and> elist (ents ht') (LRU ht') L' \<and>
     ht' = ht\<lparr>LRU := LRU ht', ents := ents ht'\<rparr> \<and> next_cell (ents ht) \<le> next_cell (ents ht') \<and>
     (\<forall>a. a \<notin> set L \<and> a \<noteq> next_cell (ents ht) \<longrightarrow> cell (ents ht') a = cell (ents ht) a) \<and>
     set L' \<subseteq> insert (next_cell (ents ht)) (set L)"

text \<open>The cells with the \<open>next\<close> field of one of them set.\<close>

definition relink :: "entry cells \<Rightarrow> nat \<Rightarrow> nat \<Rightarrow> entry cells" where
  "relink m a v = m\<lparr>cell := (cell m)(a \<mapsto> the (cell m a)\<lparr>e_next := v\<rparr>)\<rparr>"

named_theorems relink_simps \<open>reading cells after relinking\<close>

lemma set_next_entry_eq [relink_simps]:
  "cell (ents ht) a \<noteq> None \<Longrightarrow> set_next_entry ht a v = Inr (ht\<lparr>ents := relink (ents ht) a v\<rparr>)"
  by (auto simp: set_next_entry_def relink_def)

lemma cell_relink [relink_simps]:
  "cell (relink m a v) b = (if a = b then Some (the (cell m a)\<lparr>e_next := v\<rparr>) else cell m b)"
  "next_cell (relink m a v) = next_cell m"
  by (simp_all add: relink_def)

lemma dat_relink [relink_simps]: "cell m a \<noteq> None \<Longrightarrow> dat (relink m a v) = dat m"
  by (rule ext) (auto simp: dat_def relink_def)

lemma cells_wf_relink [relink_simps]: "cells_wf m \<Longrightarrow> cell m a \<noteq> None \<Longrightarrow> cells_wf (relink m a v)"
  by (auto simp: relink_def)

lemma elist_relink [relink_simps]: "a \<notin> set as \<Longrightarrow> chain e_next (cell (relink m a v)) p as q = chain e_next (cell m) p as q"
  by (simp add: relink_def)

lemma elist_link_last:
  assumes "elist m p as" "as \<noteq> []" "c \<notin> set as" "c \<noteq> 0" "cell m c = Some ec" "e_next ec = 0"
  shows "elist (relink m (last as) c) p (as @ [c])"
proof -
  obtain S z where S: "as = S @ [z]" using assms(2) by (metis rev_exhaust)
  then obtain e where "cell m z = Some e" using chain_in [OF assms(1)] by fastforce
  then show ?thesis
    using chain_link_last [of e_next "cell m" p S z e c ec "e\<lparr>e_next := c\<rparr>"] assms S by (simp add: relink_def)
qed

lemma elist_unlink:
  assumes "elist m p (as @ b # c # bs)" "cell m c = Some ec"
  shows "elist (relink m b (e_next ec)) p (as @ b # bs)"
proof -
  obtain e where "cell m b = Some e" using chain_in [OF assms(1), of b] by fastforce
  then show ?thesis using chain_unlink [OF assms(1), of e ec "e\<lparr>e_next := e_next ec\<rparr>"] assms(2) by (simp add: relink_def)
qed

text \<open>Linking a new entry after the last one.\<close>

lemma append_entry:
  assumes wf: "cells_wf (ents ht)" and l: "elist (ents ht) (LRU ht) L" and ne: "L \<noteq> []"
  shows "\<exists>ht'. (case new_entry ht file of (a, ht1) \<Rightarrow> set_next_entry ht1 (last L) a) = Inr ht' \<and>
    relinked ht L ht' (L @ [next_cell (ents ht)]) \<and>
    map (dat (ents ht')) (L @ [next_cell (ents ht)]) = map (dat (ents ht)) L @ [file]"
proof -
  let ?a = "next_cell (ents ht)" and ?n = "\<lparr>e_count = 0, e_data = file, e_next = 0\<rparr>"
  let ?m = "\<lparr>cell = (cell (ents ht))(?a \<mapsto> ?n), next_cell = Suc ?a\<rparr>"
  have na: "?a \<notin> set L" using chain_in [OF l] wf by fastforce
  have a0: "?a \<noteq> 0" using wf by (simp add: cells_wf_def)
  have z: "last L \<in> set L" "cell (ents ht) (last L) \<noteq> None" using ne chain_in [OF l, of "last L"] by auto
  then have za: "last L \<noteq> ?a" using na by auto
  let ?m' = "relink ?m (last L) ?a"
  have "elist ?m (LRU ht) L" using l na by simp
  then have l': "elist ?m' (LRU ht) (L @ [?a])"
    by (rule elist_link_last [where ec = ?n]) (use ne na a0 in simp_all)
  have zm: "cell ?m (last L) \<noteq> None" using z(2) za by simp
  have wf': "cells_wf ?m'" by (rule cells_wf_relink [OF cells_wf_new [OF wf] zm])
  let ?ht = "ht\<lparr>ents := ?m'\<rparr>"
  have r: "(case new_entry ht file of (a, ht1) \<Rightarrow> set_next_entry ht1 (last L) a) = Inr ?ht"
    using zm za by (simp add: new_entry_def new_cell_def set_next_entry_eq)
  have d: "map (dat (ents ?ht)) (L @ [?a]) = map (dat (ents ht)) L @ [file]"
    using na dat_relink [OF zm] by (auto simp: dat_def)
  have "relinked ht L ?ht (L @ [?a])"
    using l' wf' z by (auto simp: relinked_def relink_simps)
  then show ?thesis using r d by blast
qed

text \<open>Moving the first entry to the end, and one from the middle.\<close>

lemma move_head:
  assumes wf: "cells_wf (ents ht)" and l: "elist (ents ht) (LRU ht) (a # b # R)" and e: "cell (ents ht) a = Some e"
  shows "\<exists>ht'. (let ht = ht\<lparr>LRU := e_next e\<rparr> in
      rbind (set_next_entry ht a 0) (\<lambda>ht.
      rbind (lru_last (next_cell (ents ht)) (ents ht) prev (LRU ht)) (\<lambda>prev.
      set_next_entry ht prev a))) = Inr ht' \<and>
    relinked ht (a # b # R) ht' (b # R @ [a]) \<and> dat (ents ht') = dat (ents ht)"
proof -
  let ?m1 = "relink (ents ht) a 0" and ?z = "last (b # R)"
  have a: "cell (ents ht) a \<noteq> None" "a \<noteq> 0" "elist (ents ht) (e_next e) (b # R)" "a \<notin> set (b # R)"
    using l e chain_distinct [OF l] by auto
  have l1: "elist ?m1 (e_next e) (b # R)" using a(3,4) by (simp only: elist_relink not_False_eq_True)
  have wf1: "cells_wf ?m1" by (rule cells_wf_relink [OF wf a(1)])
  have z: "?z \<in> set (b # R)" "cell ?m1 ?z \<noteq> None" using chain_in [OF l1, of ?z] by auto
  have ll: "lru_last (next_cell (ents ht)) ?m1 prev (e_next e) = Inr ?z"
    using lru_last_elist [OF l1] chain_bound [OF l1 wf1] by (simp add: cell_relink)
  have l2: "elist (relink ?m1 ?z a) (e_next e) ((b # R) @ [a])"
    by (rule elist_link_last [OF l1 _ a(4,2), where ec = "e\<lparr>e_next := 0\<rparr>"]) (use e in \<open>simp_all add: cell_relink\<close>)
  let ?ht = "ht\<lparr>LRU := e_next e, ents := relink ?m1 ?z a\<rparr>"
  have "relinked ht (a # b # R) ?ht (b # R @ [a])"
    unfolding relinked_def using l2 cells_wf_relink [OF wf1 z(2)] z(1) by (auto simp: cell_relink)
  moreover have "dat (ents ?ht) = dat (ents ht)" using dat_relink [OF z(2)] dat_relink [OF a(1)] by simp
  ultimately show ?thesis using ll z(2) a(1) by (intro exI [of _ ?ht]) (simp add: set_next_entry_eq cell_relink)
qed

lemma move_mid:
  assumes wf: "cells_wf (ents ht)" and l: "elist (ents ht) (LRU ht) (xs @ b # c # ys)" and e: "cell (ents ht) c = Some e"
  shows "\<exists>ht'. rbind (set_next_entry ht b (e_next e)) (\<lambda>ht.
      rbind (set_next_entry ht c 0) (\<lambda>ht.
      rbind (last_cell e_next (next_cell (ents ht)) (ents ht) b) (\<lambda>prev.
      set_next_entry ht prev c))) = Inr ht' \<and>
    relinked ht (xs @ b # c # ys) ht' (xs @ b # ys @ [c]) \<and> dat (ents ht') = dat (ents ht)"
proof -
  let ?m1 = "relink (ents ht) b (e_next e)" and ?z = "last (b # ys)"
  let ?m2 = "relink ?m1 c 0"
  have dis: "b \<noteq> c" "c \<notin> set (xs @ b # ys)" using chain_distinct [OF l] by auto
  have b: "cell (ents ht) b \<noteq> None" using chain_in [OF l, of b] by auto
  have c: "c \<noteq> 0" using chain_in [OF l, of c] by auto
  have l1: "elist ?m1 (LRU ht) (xs @ b # ys)" by (rule elist_unlink [OF l e])
  have wf1: "cells_wf ?m1" by (rule cells_wf_relink [OF wf b])
  have c1: "cell ?m1 c = Some e" using dis(1) e by (simp add: cell_relink)
  have l2: "elist ?m2 (LRU ht) (xs @ b # ys)" using l1 dis(2) by (simp only: elist_relink not_False_eq_True)
  have wf2: "cells_wf ?m2" by (rule cells_wf_relink [OF wf1]) (use c1 in simp)
  have lb: "elist ?m2 b (b # ys)" using l2 by (auto simp: chain_append)
  have z: "?z \<in> set (b # ys)" "cell ?m2 ?z \<noteq> None" using chain_in [OF lb, of ?z] by auto
  have ll: "last_cell e_next (next_cell (ents ht)) ?m2 b = Inr ?z"
    using last_cell_chain [OF lb] chain_bound [OF lb wf2] by (simp add: cell_relink)
  have "elist (relink ?m2 (last (xs @ b # ys)) c) (LRU ht) ((xs @ b # ys) @ [c])"
    by (rule elist_link_last [OF l2 _ dis(2) c, where ec = "e\<lparr>e_next := 0\<rparr>"]) (use c1 in \<open>simp_all add: cell_relink\<close>)
  then have l3: "elist (relink ?m2 ?z c) (LRU ht) (xs @ b # ys @ [c])" by simp
  let ?ht = "ht\<lparr>ents := relink ?m2 ?z c\<rparr>"
  have "relinked ht (xs @ b # c # ys) ?ht (xs @ b # ys @ [c])"
    unfolding relinked_def using l3 cells_wf_relink [OF wf2 z(2)] z(1) by (auto simp: cell_relink)
  moreover have "dat (ents ?ht) = dat (ents ht)" using dat_relink [OF z(2)] dat_relink [of ?m1 c] dat_relink [OF b] c1 by simp
  ultimately show ?thesis using ll z(2) b c1 by (intro exI [of _ ?ht]) (simp add: set_next_entry_eq cell_relink)
qed

lemma remove1_split: "x \<notin> set as \<Longrightarrow> remove1 x (as @ x # bs) = as @ bs"
  by (induction as) auto

lemma map_remove1_split:
  assumes "distinct (map f (xs @ c # ys))"
  shows "map f (xs @ ys @ [c]) = remove1 (f c) (map f (xs @ c # ys)) @ [f c]"
  using assms remove1_split [of "f c" "map f xs" "map f ys"] by auto

lemma find_split:
  obtains (found) xs c ys where "L = xs @ c # ys" "f c = y" "takeWhile (\<lambda>a. f a \<noteq> y) L = xs" "dropWhile (\<lambda>a. f a \<noteq> y) L = c # ys"
  | (missing) "y \<notin> f ` set L" "takeWhile (\<lambda>a. f a \<noteq> y) L = L" "dropWhile (\<lambda>a. f a \<noteq> y) L = []"
proof (cases "y \<in> f ` set L")
  case True
  then have ne: "dropWhile (\<lambda>a. f a \<noteq> y) L \<noteq> []" by (auto simp: dropWhile_eq_Nil_conv)
  then obtain c ys where c: "dropWhile (\<lambda>a. f a \<noteq> y) L = c # ys" by (meson neq_Nil_conv)
  moreover have "f c = y" using hd_dropWhile [OF ne] c by simp
  moreover have "L = takeWhile (\<lambda>a. f a \<noteq> y) L @ c # ys" using takeWhile_dropWhile_id [of "\<lambda>a. f a \<noteq> y" L] c by simp
  ultimately show ?thesis by (rule_tac found) auto
next
  case False
  then have "\<forall>a\<in>set L. f a \<noteq> y" by auto
  then show ?thesis using missing False takeWhile_eq_all_conv dropWhile_eq_Nil_conv by blast
qed

lemma relinked_refl: "cells_wf (ents ht) \<Longrightarrow> elist (ents ht) (LRU ht) L \<Longrightarrow> relinked ht L ht L"
  by (auto simp: relinked_def)

lemma update_LRU_ok:
  assumes wf: "cells_wf (ents ht)" and l: "elist (ents ht) (LRU ht) L" and d: "distinct (map (dat (ents ht)) L)"
  shows "\<exists>ht' L'. update_LRU ht file = Inr ht' \<and> relinked ht L ht' L' \<and>
    map (dat (ents ht')) L' = remove1 file (map (dat (ents ht)) L) @ [file]"
proof -
  consider "L = []" | a where "L = [a]" | a b R where "L = a # b # R" by (metis neq_Nil_conv)
  then show ?thesis
  proof cases
    case 1
    let ?a = "next_cell (ents ht)"
    have "0 < ?a" using wf by (simp add: cells_wf_def)
    then show ?thesis
      using 1 l wf
      by (intro exI [of _ "snd (new_entry ht file)\<lparr>LRU := ?a\<rparr>"] exI [of _ "[?a]"])
        (simp add: update_LRU_def new_entry_def new_cell_def relinked_def dat_def)
  next
    case 2
    obtain e where e: "LRU ht = a" "a \<noteq> 0" "cell (ents ht) a = Some e" "e_next e = 0" "dat (ents ht) a = e_data e"
      using elist_ConsD [of "ents ht" "LRU ht" a "[]"] l 2 by auto
    show ?thesis
    proof (cases "e_data e = file")
      case True
      then show ?thesis using e relinked_refl [OF wf l] 2 by (intro exI [of _ ht] exI [of _ L]) (simp add: update_LRU_def)
    next
      case False
      then have u: "update_LRU ht file = (case new_entry ht file of (a, ht1) \<Rightarrow> set_next_entry ht1 (last L) a)"
        using e 2 by (simp add: update_LRU_def new_entry_def new_cell_def)
      obtain ht' where ap: "update_LRU ht file = Inr ht'"
          "relinked ht L ht' (L @ [next_cell (ents ht)])" "map (dat (ents ht')) (L @ [next_cell (ents ht)]) = map (dat (ents ht)) L @ [file]"
        using append_entry [OF wf l, of "file"] 2 unfolding u by auto
      have "remove1 file (map (dat (ents ht)) L) = map (dat (ents ht)) L" using 2 e(5) False by simp
      then show ?thesis using ap by metis
    qed
  next
    case 3
    obtain e where e: "LRU ht = a" "a \<noteq> 0" "cell (ents ht) a = Some e" "elist (ents ht) (e_next e) (b # R)" "dat (ents ht) a = e_data e"
      using elist_ConsD [of "ents ht" "LRU ht" a "b # R"] l 3 by auto
    have n0: "e_next e \<noteq> 0" using chain_null [OF e(4)] by simp
    have scan: "lru_scan (next_cell (ents ht)) (ents ht) file (LRU ht) (LRU ht) =
        Inr (last (LRU ht # takeWhile (\<lambda>a. dat (ents ht) a \<noteq> file) L), case dropWhile (\<lambda>a. dat (ents ht) a \<noteq> file) L of [] \<Rightarrow> 0 | c # _ \<Rightarrow> c)"
      using lru_scan_elist [OF l] chain_bound [OF l wf] by simp
    show ?thesis
    proof (cases rule: find_split [of L "dat (ents ht)" "file"])
      case missing
      have nin: "file \<notin> set (map (dat (ents ht)) L)" using missing(1) by (metis list.set_map)
      have "lru_scan (next_cell (ents ht)) (ents ht) file (LRU ht) (LRU ht) = Inr (last L, 0)"
        using scan missing(2,3) 3 e(1) by simp
      then have u: "update_LRU ht file = (case new_entry ht file of (a, ht1) \<Rightarrow> set_next_entry ht1 (last L) a)"
        using e(1-3) n0 by (simp add: update_LRU_def)
      obtain ht' where ap: "update_LRU ht file = Inr ht'" "relinked ht L ht' (L @ [next_cell (ents ht)])"
          "map (dat (ents ht')) (L @ [next_cell (ents ht)]) = map (dat (ents ht)) L @ [file]"
        using append_entry [OF wf l, of "file"] 3 unfolding u by auto
      then show ?thesis using remove1_idem [OF nin] by metis
    next
      case (found xs c ys)
      obtain ec where ec: "cell (ents ht) c = Some ec" "c \<noteq> 0" "dat (ents ht) c = e_data ec"
        using chain_in [OF l, of c] found(1) by (auto simp: dat_def)
      have scan': "lru_scan (next_cell (ents ht)) (ents ht) file (LRU ht) (LRU ht) = Inr (last (a # xs), c)"
        using scan found(3,4) e(1) by simp
      show ?thesis
      proof (cases xs rule: rev_cases)
        case Nil
        then have "c = a" "ys = b # R" using found(1) 3 by auto
        obtain ht' where ht': "update_LRU ht file = Inr ht'" "relinked ht (a # b # R) ht' (b # R @ [a])" "dat (ents ht') = dat (ents ht)"
          using move_head [of ht a b R e a] wf l 3 e scan' Nil \<open>c = a\<close> n0 by (auto simp: update_LRU_def)
        then show ?thesis
          using map_remove1_split [of "dat (ents ht)" "[]" a "b # R"] d found(2) 3 \<open>c = a\<close>
          by (intro exI [of _ ht'] exI [of _ "b # R @ [a]"]) simp
      next
        case (snoc xs1 b1)
        have ne: "e_data ec \<noteq> e_data e" using d found(1) 3 snoc e(5) ec(3) by (cases xs1) auto
        have "last (a # xs) = b1" using snoc by simp
        then obtain ht' where ht': "update_LRU ht file = Inr ht'" "relinked ht L ht' (xs1 @ b1 # ys @ [c])" "dat (ents ht') = dat (ents ht)"
          using move_mid [of ht xs1 b1 c ys ec] wf l found(1) snoc ec e(1-3) scan' ne n0 by (auto simp: update_LRU_def)
        then show ?thesis
          using map_remove1_split [of "dat (ents ht)" xs c ys] d found(1,2) snoc
          by (intro exI [of _ ht'] exI [of _ "xs1 @ b1 # ys @ [c]"]) simp
      qed
    qed
  qed
qed

end
