(* ===== verification/Cache_Spec.thy ===== *)
theory Cache_Spec
  imports Lru_List
begin

text \<open>
  What the cache of the web server promises. \<open>cache_rep\<close>: the cells hold the list of use and the buckets of the table,
  all separate. \<open>cache_ok ht F fs\<close>: the cached files, in the order of their last use, are \<open>fs\<close>; each is in the bucket of
  its name and no two have the same name; \<open>available_cache_size\<close> is what their sizes leave of \<open>cache_size\<close>, and is not negative.
\<close>

section \<open>Representation\<close>

definition cache_rep :: "hashtable \<Rightarrow> file_data cells \<Rightarrow> nat list \<Rightarrow> (nat \<Rightarrow> nat list) \<Rightarrow> bool" where
  "cache_rep ht F L T \<longleftrightarrow> cells_wf (ents ht) \<and> elist (ents ht) (LRU ht) L \<and> distinct (map (dat (ents ht)) L) \<and>
     (\<forall>k. elist (ents ht) (table ht k) (T k) \<and> set (T k) \<inter> set L = {} \<and> distinct (map (dat (ents ht)) (T k)) \<and>
       (\<forall>a\<in>set (T k). \<exists>d. cell F (dat (ents ht) a) = Some d \<and> hash (file_name d) = k))"

lemma cache_repD:
  assumes "cache_rep ht F L T"
  shows "cells_wf (ents ht)" "elist (ents ht) (LRU ht) L" "distinct (map (dat (ents ht)) L)"
    "elist (ents ht) (table ht k) (T k)" "set (T k) \<inter> set L = {}" "distinct (map (dat (ents ht)) (T k))"
    "a \<in> set (T k) \<Longrightarrow> \<exists>d. cell F (dat (ents ht) a) = Some d \<and> hash (file_name d) = k"
  using assms unfolding cache_rep_def by blast+

lemma cache_rep_disjoint:
  assumes "cache_rep ht F L T" "j \<noteq> k"
  shows "set (T j) \<inter> set (T k) = {}"
proof (rule ccontr)
  assume "\<not> ?thesis"
  then obtain a where "a \<in> set (T j)" "a \<in> set (T k)" by blast
  then show False using cache_repD(7) [OF assms(1), of a j] cache_repD(7) [OF assms(1), of a k] assms(2) by auto
qed

text \<open>A chain whose cells are as before.\<close>

lemma same_chain:
  assumes "elist m p as" "\<And>a. a \<in> set as \<Longrightarrow> cell m' a = cell m a"
  shows "elist m' p as" "map (dat m') as = map (dat m) as"
proof -
  have "elist m' p as = elist m p as" by (rule chain_cong) (simp add: assms(2))
  then show "elist m' p as" using assms(1) by simp
  show "map (dat m') as = map (dat m) as" by (simp add: dat_def assms(2))
qed

lemma elist_alloc:
  assumes "elist m p as" "a \<in> set as" "cells_wf m"
  shows "a \<noteq> next_cell m" "a \<noteq> 0"
  using chain_in [OF assms(1,2)] assms(3) by auto

lemma rep_update_LRU:
  assumes R: "cache_rep ht F L T"
  shows "\<exists>ht' L'. update_LRU ht file = Inr ht' \<and> cache_rep ht' F L' T \<and>
    map (dat (ents ht')) L' = remove1 file (map (dat (ents ht)) L) @ [file] \<and>
    (\<forall>k. map (dat (ents ht')) (T k) = map (dat (ents ht)) (T k)) \<and>
    ht' = ht\<lparr>LRU := LRU ht', ents := ents ht'\<rparr>"
proof -
  obtain ht' L' where u: "update_LRU ht file = Inr ht'" "relinked ht L ht' L'"
      "map (dat (ents ht')) L' = remove1 file (map (dat (ents ht)) L) @ [file]"
    using update_LRU_ok [OF cache_repD(1-3) [OF R], of "file"] by blast
  have r: "cells_wf (ents ht')" "elist (ents ht') (LRU ht') L'" "ht' = ht\<lparr>LRU := LRU ht', ents := ents ht'\<rparr>"
      "\<And>a. a \<notin> set L \<Longrightarrow> a \<noteq> next_cell (ents ht) \<Longrightarrow> cell (ents ht') a = cell (ents ht) a"
      "set L' \<subseteq> insert (next_cell (ents ht)) (set L)"
    using u(2) unfolding relinked_def by blast+
  have same: "cell (ents ht') a = cell (ents ht) a" if "a \<in> set (T k)" for a k
    using r(4) elist_alloc [OF cache_repD(4) [OF R] that cache_repD(1) [OF R]] cache_repD(5) [OF R, of k] that by blast
  have tab: "table ht' = table ht" by (subst r(3)) simp
  have T: "elist (ents ht') (table ht' k) (T k)" "map (dat (ents ht')) (T k) = map (dat (ents ht)) (T k)" for k
    using same_chain [OF cache_repD(4) [OF R] same] tab by simp_all
  have dd: "dat (ents ht') a = dat (ents ht) a" if "a \<in> set (T k)" for a k
    using T(2) [of k] that by simp
  have dT: "distinct (map (dat (ents ht')) (T k))" for k unfolding T(2) by (rule cache_repD(6) [OF R])
  have dis: "set (T k) \<inter> set L' = {}" for k
    using r(5) elist_alloc(1) [OF cache_repD(4) [OF R] _ cache_repD(1) [OF R]] cache_repD(5) [OF R, of k] by blast
  have dL: "distinct (map (dat (ents ht')) L')"
    unfolding u(3) using cache_repD(3) [OF R] by simp
  have "cache_rep ht' F L' T"
    unfolding cache_rep_def using r(1,2) dL T(1) dis dT dd cache_repD(7) [OF R] by simp
  then show ?thesis using u(1,3) T(2) r(3) by blast
qed

section \<open>Looking up\<close>

lemma bucket_lookup_walk:
  assumes "elist (ents ht) p as" "length as \<le> fuel" "\<forall>a\<in>set as. \<exists>d. cell F (dat (ents ht) a) = Some d"
  shows "bucket_lookup fuel ht F name time p =
    (case dropWhile (\<lambda>a. file_name (the (cell F (dat (ents ht) a))) \<noteq> name) as of
       [] \<Rightarrow> Inr (0, ht)
     | a # _ \<Rightarrow> if time = 0 then rbind (update_LRU ht (dat (ents ht) a)) (\<lambda>ht'. Inr (dat (ents ht) a, ht'))
               else Inr (dat (ents ht) a, ht))"
  using assms
proof (induction as arbitrary: p fuel)
  case (Cons a as)
  obtain e where e: "p = a" "a \<noteq> 0" "cell (ents ht) a = Some e" "elist (ents ht) (e_next e) as" "dat (ents ht) a = e_data e"
    by (rule elist_ConsD [OF Cons.prems(1)])
  obtain f where f: "fuel = Suc f" "length as \<le> f" using Cons.prems(2) by (cases fuel) auto
  obtain d where d: "cell F (e_data e) = Some d" using Cons.prems(3) e(5) by auto
  show ?case using e f d Cons.IH [OF e(4) f(2)] Cons.prems(3) by (subst bucket_lookup.simps) simp
qed (simp add: bucket_lookup.simps)

definition name_of :: "file_data cells \<Rightarrow> nat \<Rightarrow> u8 list" where
  "name_of F f = file_name (the (cell F f))"

definition size_of :: "file_data cells \<Rightarrow> nat \<Rightarrow> int" where
  "size_of F f = file_size (the (cell F f))"

text \<open>The file data that a bucket holds.\<close>

definition bucket_files :: "hashtable \<Rightarrow> (nat \<Rightarrow> nat list) \<Rightarrow> nat \<Rightarrow> nat set" where
  "bucket_files ht T k = dat (ents ht) ` set (T k)"

definition cache_ok :: "hashtable \<Rightarrow> file_data cells \<Rightarrow> nat list \<Rightarrow> bool" where
  "cache_ok ht F fs \<longleftrightarrow> (\<exists>L T. cache_rep ht F L T \<and> map (dat (ents ht)) L = fs \<and>
     (\<forall>k. bucket_files ht T k = {f \<in> set fs. hash (name_of F f) = k})) \<and>
     (\<forall>f\<in>set fs. cell F f \<noteq> None \<and> 0 \<le> size_of F f) \<and> inj_on (name_of F) (set fs) \<and> cache_size ht < 2 ^ 31 \<and>
     0 \<le> available_cache_size ht \<and> available_cache_size ht = cache_size ht - (\<Sum>f\<leftarrow>fs. size_of F f)"

lemma cache_okD:
  assumes "cache_ok ht F fs"
  obtains L T where "cache_rep ht F L T" "map (dat (ents ht)) L = fs"
    "\<forall>k. bucket_files ht T k = {f \<in> set fs. hash (name_of F f) = k}"
  using assms unfolding cache_ok_def by blast

lemma cache_ok_distinct: "cache_ok ht F fs \<Longrightarrow> distinct fs"
  by (erule cache_okD) (use cache_repD(3) in blast)

lemma init_cache_ok:
  assumes "0 \<le> c" "c < 2 ^ 31"
  shows "cache_ok (init_cache c) F []"
proof -
  have "cache_rep (init_cache c) F [] (\<lambda>_. [])" by (simp add: cache_rep_def init_cache_def)
  then show ?thesis
    unfolding cache_ok_def using assms by (auto simp: init_cache_def bucket_files_def intro!: exI [of _ "[]"] exI [of _ "\<lambda>_. []"])
qed

lemma sum_list_remove1_snoc: "x \<in> set xs \<Longrightarrow> (\<Sum>f\<leftarrow>remove1 x xs @ [x]. (g f :: int)) = (\<Sum>f\<leftarrow>xs. g f)"
  by (induction xs) auto

lemma cache_ok_use:
  assumes C: "cache_ok ht F fs" and f: "f \<in> set fs"
  shows "\<exists>ht'. update_LRU ht f = Inr ht' \<and> cache_ok ht' F (remove1 f fs @ [f])"
proof -
  obtain L T where R: "cache_rep ht F L T" "map (dat (ents ht)) L = fs"
      "\<forall>k. bucket_files ht T k = {f \<in> set fs. hash (name_of F f) = k}"
    by (rule cache_okD [OF C])
  obtain ht' L' where u: "update_LRU ht f = Inr ht'" "cache_rep ht' F L' T" "map (dat (ents ht')) L' = remove1 f fs @ [f]"
      "\<And>k. map (dat (ents ht')) (T k) = map (dat (ents ht)) (T k)" "ht' = ht\<lparr>LRU := LRU ht', ents := ents ht'\<rparr>"
    using rep_update_LRU [OF R(1), of f] R(2) by blast
  have set: "set (remove1 f fs @ [f]) = set fs"
    using f set_remove1_eq [OF cache_ok_distinct [OF C], of f] by auto
  have b: "bucket_files ht' T k = bucket_files ht T k" for k
    unfolding bucket_files_def using u(4) [of k] by (metis list.set_map)
  have par: "cache_size ht' = cache_size ht" "available_cache_size ht' = available_cache_size ht"
    by (subst u(5), simp)+
  have "cache_ok ht' F (remove1 f fs @ [f])"
    unfolding cache_ok_def sum_list_remove1_snoc [OF f] set par
    using C u(2,3) b R(3) unfolding cache_ok_def by blast
  then show ?thesis using u(1) by blast
qed

lemma cache_lookup_ok:
  assumes C: "cache_ok ht F fs" and d: "cell F file = Some d"
  shows "if \<exists>f\<in>set fs. name_of F f = file_name d
    then \<exists>f\<in>set fs. name_of F f = file_name d \<and>
      (\<exists>ht'. cache_lookup ht F file time = Inr (f, ht') \<and> cache_ok ht' F (if time = 0 then remove1 f fs @ [f] else fs) \<and>
        (time \<noteq> 0 \<longrightarrow> ht' = ht))
    else cache_lookup ht F file time = Inr (0, ht)"
proof -
  obtain L T where R: "cache_rep ht F L T" "map (dat (ents ht)) L = fs"
      "\<forall>k. bucket_files ht T k = {f \<in> set fs. hash (name_of F f) = k}"
    by (rule cache_okD [OF C])
  let ?k = "hash (file_name d)" and ?P = "\<lambda>a. file_name (the (cell F (dat (ents ht) a))) \<noteq> file_name d"
  have walk: "cache_lookup ht F file time = (case dropWhile ?P (T ?k) of
       [] \<Rightarrow> Inr (0, ht)
     | a # _ \<Rightarrow> if time = 0 then rbind (update_LRU ht (dat (ents ht) a)) (\<lambda>ht'. Inr (dat (ents ht) a, ht'))
               else Inr (dat (ents ht) a, ht))"
  proof -
    have "length (T ?k) \<le> next_cell (ents ht)" using chain_bound [OF cache_repD(4) [OF R(1), of ?k] cache_repD(1) [OF R(1)]] by simp
    moreover have "\<forall>a\<in>set (T ?k). \<exists>d. cell F (dat (ents ht) a) = Some d" using cache_repD(7) [OF R(1)] by blast
    ultimately show ?thesis
      unfolding cache_lookup_def cell_at_Some [OF d] rbind_Inr by (rule bucket_lookup_walk [OF cache_repD(4) [OF R(1)]])
  qed
  show ?thesis
  proof (cases "dropWhile ?P (T ?k)")
    case Nil
    then have n: "\<forall>a\<in>set (T ?k). ?P a" by (simp add: dropWhile_eq_Nil_conv)
    have "name_of F f \<noteq> file_name d" if f: "f \<in> set fs" for f
    proof
      assume e: "name_of F f = file_name d"
      then have "f \<in> bucket_files ht T ?k" using R(3) [rule_format, of ?k] f by simp
      then show False using n e by (auto simp: bucket_files_def name_of_def)
    qed
    then show ?thesis using walk Nil by auto
  next
    case (Cons a as)
    let ?f = "dat (ents ht) a"
    have a: "a \<in> set (T ?k)" using Cons by (metis set_dropWhileD list.set_intros(1))
    have nm: "name_of F ?f = file_name d" using hd_dropWhile [of ?P "T ?k"] Cons by (simp add: name_of_def)
    have f: "?f \<in> set fs" using R(3) [rule_format, of ?k] a by (auto simp: bucket_files_def)
    obtain ht' where u: "update_LRU ht ?f = Inr ht'" "cache_ok ht' F (remove1 ?f fs @ [?f])"
      using cache_ok_use [OF C f] by blast
    have "\<exists>ht'. cache_lookup ht F file time = Inr (?f, ht') \<and> cache_ok ht' F (if time = 0 then remove1 ?f fs @ [?f] else fs) \<and>
        (time \<noteq> 0 \<longrightarrow> ht' = ht)"
      using walk Cons u C by auto
    then show ?thesis using nm f by auto
  qed
qed


section \<open>Changing one bucket\<close>

lemma rep_bucket:
  assumes R: "cache_rep ht F L T" and wf: "cells_wf m"
    and same: "\<And>b. b \<notin> set (T k) \<Longrightarrow> b \<noteq> next_cell (ents ht) \<Longrightarrow> cell m b = cell (ents ht) b"
    and l: "elist m v as" "set as \<subseteq> insert (next_cell (ents ht)) (set (T k))" "distinct (map (dat m) as)"
    and fd: "\<forall>a\<in>set as. \<exists>d. cell F (dat m a) = Some d \<and> hash (file_name d) = k"
  shows "cache_rep (ht\<lparr>table := (table ht)(k := v), ents := m\<rparr>) F L (T(k := as))" "map (dat m) L = map (dat (ents ht)) L"
    "\<And>j. j \<noteq> k \<Longrightarrow> map (dat m) (T j) = map (dat (ents ht)) (T j)"
proof -
  note D = cache_repD [OF R]
  have sL: "cell m b = cell (ents ht) b" if "b \<in> set L" for b
    using same [of b] D(5) [of k] elist_alloc(1) [OF D(2) that D(1)] that by blast
  have sT: "cell m b = cell (ents ht) b" if "b \<in> set (T j)" "j \<noteq> k" for b j
    using same [of b] cache_rep_disjoint [OF R that(2)] elist_alloc(1) [OF D(4) that(1) D(1)] that by blast
  note cL = same_chain [OF D(2) sL]
  have cT: "elist m (table ht j) (T j)" "map (dat m) (T j) = map (dat (ents ht)) (T j)" if "j \<noteq> k" for j
    using same_chain [OF D(4) [of j], of m] sT [OF _ that] by blast+
  show dL: "map (dat m) L = map (dat (ents ht)) L" by (rule cL(2))
  show dT: "map (dat m) (T j) = map (dat (ents ht)) (T j)" if "j \<noteq> k" for j by (rule cT(2) [OF that])
  have dk: "set as \<inter> set L = {}" using l(2) D(5) [of k] elist_alloc(1) [OF D(2) _ D(1)] by blast
  have j: "elist m (((table ht)(k := v)) j) ((T(k := as)) j) \<and> set ((T(k := as)) j) \<inter> set L = {} \<and>
      distinct (map (dat m) ((T(k := as)) j)) \<and> (\<forall>a\<in>set ((T(k := as)) j). \<exists>d. cell F (dat m a) = Some d \<and> hash (file_name d) = j)" for j
  proof (cases "j = k")
    case True
    then show ?thesis using l fd dk by simp
  next
    case False
    have "dat m a = dat (ents ht) a" if "a \<in> set (T j)" for a using dT [OF False] that by simp
    moreover have "distinct (map (dat m) (T j))" unfolding dT [OF False] by (rule D(6))
    ultimately show ?thesis using False cT(1) [OF False] D(5) [of j] D(7) [of _ j] by simp
  qed
  have "distinct (map (dat m) L)" unfolding dL by (rule D(3))
  then show "cache_rep (ht\<lparr>table := (table ht)(k := v), ents := m\<rparr>) F L (T(k := as))"
    unfolding cache_rep_def using wf cL(1) j by simp
qed

lemma bucket_insert:
  assumes R: "cache_rep ht F L T" and d: "cell F file = Some d" and k: "k = hash (file_name d)"
    and new: "file \<notin> dat (ents ht) ` set (T k)"
  shows "\<exists>v m. (case new_entry ht file of (a, ht) \<Rightarrow>
      if table ht k = 0 then Inr (ht\<lparr>table := (table ht)(k := a)\<rparr>)
      else rbind (last_cell e_next (next_cell (ents ht)) (ents ht) (table ht k)) (\<lambda>temp. set_next_entry ht temp a)) =
        Inr (ht\<lparr>table := (table ht)(k := v), ents := m\<rparr>) \<and>
    cache_rep (ht\<lparr>table := (table ht)(k := v), ents := m\<rparr>) F L (T(k := T k @ [next_cell (ents ht)])) \<and>
    map (dat m) L = map (dat (ents ht)) L \<and> (\<forall>j. j \<noteq> k \<longrightarrow> map (dat m) (T j) = map (dat (ents ht)) (T j)) \<and>
    map (dat m) (T k @ [next_cell (ents ht)]) = map (dat (ents ht)) (T k) @ [file]"
proof -
  note D = cache_repD [OF R]
  let ?a = "next_cell (ents ht)" and ?n = "\<lparr>e_count = 0, e_data = file, e_next = 0\<rparr>"
  let ?m = "\<lparr>cell = (cell (ents ht))(?a \<mapsto> ?n), next_cell = Suc ?a\<rparr>"
  have na: "?a \<notin> set (T k)" using elist_alloc(1) [OF D(4) _ D(1)] by blast
  have a0: "?a \<noteq> 0" using D(1) by (simp add: cells_wf_def)
  have wf: "cells_wf ?m" by (rule cells_wf_new [OF D(1)])
  have l: "elist ?m (table ht k) (T k)" using D(4) [of k] na by simp
  have dm: "dat ?m b = dat (ents ht) b" if "b \<in> set (T k)" for b using that na by (auto simp: dat_def)
  have da: "dat ?m ?a = file" by (simp add: dat_def)
  define m where "m = (if T k = [] then ?m else relink ?m (last (T k)) ?a)"
  define v where "v = (if T k = [] then ?a else table ht k)"
  have z: "cell ?m (last (T k)) \<noteq> None" if "T k \<noteq> []" using chain_in [OF l, of "last (T k)"] that by auto
  have dmm: "dat m = dat ?m" unfolding m_def using dat_relink [OF z] by simp
  have wfm: "cells_wf m" unfolding m_def using wf cells_wf_relink [OF wf z] by simp
  have lm: "elist m v (T k @ [?a])"
    unfolding m_def v_def using elist_link_last [OF l _ na a0, of ?n] a0 by simp
  have same: "cell m b = cell (ents ht) b" if "b \<notin> set (T k)" "b \<noteq> ?a" for b
  proof (cases "T k = []")
    case False
    then have "last (T k) \<noteq> b" using that(1) last_in_set by blast
    then show ?thesis using False that(2) by (simp add: m_def cell_relink)
  qed (use that(2) in \<open>simp add: m_def\<close>)
  have map: "map (dat m) (T k @ [?a]) = map (dat (ents ht)) (T k) @ [file]" using dmm dm da by simp
  have dis: "distinct (map (dat m) (T k @ [?a]))" unfolding map using D(6) [of k] new by simp
  have fd: "\<forall>b\<in>set (T k @ [?a]). \<exists>d. cell F (dat m b) = Some d \<and> hash (file_name d) = k"
    using D(7) [of _ k] dm da d k dmm by auto
  have r: "(case new_entry ht file of (a, ht) \<Rightarrow>
      if table ht k = 0 then Inr (ht\<lparr>table := (table ht)(k := a)\<rparr>)
      else rbind (last_cell e_next (next_cell (ents ht)) (ents ht) (table ht k)) (\<lambda>temp. set_next_entry ht temp a)) =
        Inr (ht\<lparr>table := (table ht)(k := v), ents := m\<rparr>)"
  proof (cases "T k = []")
    case True
    then show ?thesis using D(4) [of k] by (simp add: new_entry_def new_cell_def m_def v_def)
  next
    case False
    have "last_cell e_next (Suc ?a) ?m (table ht k) = Inr (last (T k))"
      using last_cell_chain [OF l False, of "Suc ?a"] chain_bound [OF l wf] by simp
    then show ?thesis
      using False chain_null [OF D(4) [of k]] z set_next_entry_eq [of "ht\<lparr>ents := ?m\<rparr>" "last (T k)" ?a]
      by (simp add: new_entry_def new_cell_def m_def v_def)
  qed
  show ?thesis using r rep_bucket [OF R wfm same lm _ dis fd] map by (intro exI [of _ v] exI [of _ m]) auto
qed

lemma cache_rep_cong [simp]:
  "cache_rep (ht\<lparr>available_cache_size := x\<rparr>) F L T = cache_rep ht F L T"
  by (simp add: cache_rep_def)

lemma bucket_files_dat: "bucket_files ht T k = set (map (dat (ents ht)) (T k))"
  by (simp add: bucket_files_def)

lemma cache_insert_ht_ok:
  assumes C: "cache_ok ht F fs" and d: "cell F file = Some d" and new: "\<forall>f\<in>set fs. name_of F f \<noteq> file_name d"
    and size: "0 \<le> file_size d" "file_size d \<le> available_cache_size ht"
  shows "\<exists>ht'. cache_insert_ht ht F file = Inr ht' \<and> cache_ok ht' F (fs @ [file]) \<and> cache_size ht' = cache_size ht"
proof -
  obtain L T where R: "cache_rep ht F L T" "map (dat (ents ht)) L = fs"
      "\<forall>k. bucket_files ht T k = {f \<in> set fs. hash (name_of F f) = k}"
    by (rule cache_okD [OF C])
  let ?k = "hash (file_name d)" and ?av = "available_cache_size ht - file_size d"
  have nm: "name_of F file = file_name d" "size_of F file = file_size d" using d by (simp_all add: name_of_def size_of_def)
  then have nf: "file \<notin> set fs" using new by auto
  then have nb: "file \<notin> dat (ents ht) ` set (T ?k)" using R(3) by (auto simp: bucket_files_def)
  have cs: "cache_size ht < 2 ^ 31" "available_cache_size ht \<le> cache_size ht"
    using C sum_list_nonneg [of "map (size_of F) fs"] by (auto simp: cache_ok_def)
  then have av: "c_int ?av = ?av" using size by (intro c_int_id) auto
  obtain v m where b: "(case new_entry ht file of (a, ht) \<Rightarrow>
      if table ht ?k = 0 then Inr (ht\<lparr>table := (table ht)(?k := a)\<rparr>)
      else rbind (last_cell e_next (next_cell (ents ht)) (ents ht) (table ht ?k)) (\<lambda>temp. set_next_entry ht temp a)) =
        Inr (ht\<lparr>table := (table ht)(?k := v), ents := m\<rparr>)"
    "cache_rep (ht\<lparr>table := (table ht)(?k := v), ents := m\<rparr>) F L (T(?k := T ?k @ [next_cell (ents ht)]))"
    "map (dat m) L = map (dat (ents ht)) L" "\<And>j. j \<noteq> ?k \<Longrightarrow> map (dat m) (T j) = map (dat (ents ht)) (T j)"
    "map (dat m) (T ?k @ [next_cell (ents ht)]) = map (dat (ents ht)) (T ?k) @ [file]"
    using bucket_insert [OF R(1) d refl nb] by blast
  let ?T = "T(?k := T ?k @ [next_cell (ents ht)])"
  let ?ht = "ht\<lparr>table := (table ht)(?k := v), ents := m, available_cache_size := ?av\<rparr>"
  have R1: "cache_rep ?ht F L ?T" using b(2) by simp
  obtain ht' L' where u: "update_LRU ?ht file = Inr ht'" "cache_rep ht' F L' ?T" "map (dat (ents ht')) L' = fs @ [file]"
      "\<forall>j. map (dat (ents ht')) (?T j) = map (dat m) (?T j)" "ht' = ?ht\<lparr>LRU := LRU ht', ents := ents ht'\<rparr>"
    using rep_update_LRU [OF R1, of "file"] b(3) R(2) remove1_idem [OF nf] by auto
  have r: "cache_insert_ht ht F file = Inr ht'"
    using b(1) u(1) d av by (simp add: cache_insert_ht_def new_entry_def new_cell_def)
  have bf: "bucket_files ht' ?T j = {f \<in> set (fs @ [file]). hash (name_of F f) = j}" for j
  proof (cases "j = ?k")
    case True
    have "map (dat (ents ht')) (?T ?k) = map (dat (ents ht)) (T ?k) @ [file]"
      using trans [OF u(4) [rule_format, of ?k, unfolded fun_upd_same] b(5)] by (simp only: fun_upd_same)
    then have "bucket_files ht' ?T j = set (map (dat (ents ht)) (T ?k) @ [file])"
      unfolding bucket_files_dat True by (rule arg_cong)
    also have "\<dots> = insert file (bucket_files ht T ?k)" by (simp add: bucket_files_def)
    also have "\<dots> = {f \<in> set (fs @ [file]). hash (name_of F f) = ?k}" using R(3) nm(1) by auto
    finally show ?thesis using True by simp
  next
    case False
    then have "map (dat (ents ht')) (T j) = map (dat (ents ht)) (T j)"
      using trans [OF u(4) [rule_format, of j, unfolded fun_upd_other [OF False]] b(4) [OF False]] by simp
    then have "bucket_files ht' ?T j = bucket_files ht T j" unfolding bucket_files_dat fun_upd_other [OF False] by (rule arg_cong)
    then show ?thesis using R(3) False nm(1) by auto
  qed
  have par: "cache_size ht' = cache_size ht" "available_cache_size ht' = ?av" by (subst u(5), simp)+
  have inj: "inj_on (name_of F) (set (fs @ [file]))" using C new nm(1) by (auto simp: cache_ok_def)
  have acc: "cell F f \<noteq> None \<and> 0 \<le> size_of F f" if "f \<in> set (fs @ [file])" for f
    using that C d size(1) nm by (auto simp: cache_ok_def)
  have "cache_ok ht' F (fs @ [file])"
    unfolding cache_ok_def par using u(2,3) bf inj acc cs(1) size(2) C nm(2) by (auto simp: cache_ok_def)
  then show ?thesis using r par(1) by blast
qed

end
