(* ===== verification/Cache_Evict.thy ===== *)
theory Cache_Evict
  imports Cache_Spec
begin

text \<open>
  Making room in the cache of the web server. \<open>delete_entry\<close> unlinks an entry of a bucket unless it is the first of
  several; then it leaves the table with a freed entry. While no two cached files share a bucket, \<open>cache_evict\<close> drops files
  in the order of their last use until the new one fits (\<open>evict\<close>), and \<open>cache_insert\<close> is \<open>lru_insert\<close> on the list of files.
\<close>

section \<open>Deleting an entry\<close>

lemma find_entry_elist:
  "elist m p as \<Longrightarrow> length as \<le> fuel \<Longrightarrow> as = xs @ c # ys \<Longrightarrow> dat m c = file \<Longrightarrow> file \<notin> dat m ` set xs \<Longrightarrow>
    find_entry fuel m file prev p = Inr (last (prev # xs), c)"
proof (induction as arbitrary: p fuel prev xs)
  case (Cons a as)
  obtain e where e: "p = a" "a \<noteq> 0" "cell m a = Some e" "elist m (e_next e) as" "dat m a = e_data e"
    by (rule elist_ConsD [OF Cons.prems(1)])
  obtain f where f: "fuel = Suc f" "length as \<le> f" using Cons.prems(2) by (cases fuel) auto
  show ?case
  proof (cases xs)
    case Nil
    then show ?thesis using e f Cons.prems(3,4) by simp
  next
    case (Cons x xs')
    then show ?thesis using e f Cons.prems(3-5) Cons.IH [OF e(4) f(2), of xs' a] by auto
  qed
qed simp

lemma cells_wf_free: "cells_wf m \<Longrightarrow> cells_wf (m\<lparr>cell := (cell m)(a := None)\<rparr>)"
  by (auto simp: cells_wf_def)

lemma bucket_delete:
  assumes R: "cache_rep ht F L T" and d: "cell F file = Some d" and k: "k = hash (file_name d)"
    and T: "T k = xs @ a # ys" and a: "dat (ents ht) a = file" and ne: "xs \<noteq> [] \<or> ys = []"
  shows "\<exists>v m. delete_entry ht F file = Inr (ht\<lparr>table := (table ht)(k := v), ents := m\<rparr>) \<and>
    cache_rep (ht\<lparr>table := (table ht)(k := v), ents := m\<rparr>) F L (T(k := xs @ ys)) \<and>
    map (dat m) L = map (dat (ents ht)) L \<and> (\<forall>j. j \<noteq> k \<longrightarrow> map (dat m) (T j) = map (dat (ents ht)) (T j)) \<and>
    map (dat m) (xs @ ys) = map (dat (ents ht)) (xs @ ys) \<and> (\<forall>b. b \<notin> set (T k) \<longrightarrow> cell m b = cell (ents ht) b)"
proof -
  note D = cache_repD [OF R]
  have l: "elist (ents ht) (table ht k) (xs @ a # ys)" using D(4) [of k] T by simp
  obtain e where e: "cell (ents ht) a = Some e" "elist (ents ht) (e_next e) ys" using chain_split [OF l] by blast
  have dis: "distinct (xs @ a # ys)" by (rule chain_distinct [OF l])
  show ?thesis
  proof (cases xs rule: rev_cases)
    case Nil
    then have ys: "ys = []" using ne by simp
    let ?m = "ents ht\<lparr>cell := (cell (ents ht))(a := None)\<rparr>"
    have p: "table ht k = a" "e_next e = 0" using l e ys Nil by auto
    have r: "delete_entry ht F file = Inr (ht\<lparr>table := (table ht)(k := 0), ents := ?m\<rparr>)"
      using d k p e by (simp add: delete_entry_def)
    have wf: "cells_wf ?m" by (rule cells_wf_free [OF D(1)])
    have same: "cell ?m b = cell (ents ht) b" if "b \<notin> set (T k)" for b using that T by auto
    have "cache_rep (ht\<lparr>table := (table ht)(k := 0), ents := ?m\<rparr>) F L (T(k := []))" "map (dat ?m) L = map (dat (ents ht)) L"
      "\<And>j. j \<noteq> k \<Longrightarrow> map (dat ?m) (T j) = map (dat (ents ht)) (T j)"
      by (rule rep_bucket [OF R wf, of k 0 "[]"]; use T in auto)+
    then show ?thesis using r same Nil ys by (intro exI [of _ 0] exI [of _ ?m]) simp
  next
    case (snoc xs1 b)
    let ?m1 = "relink (ents ht) b (e_next e)"
    let ?m = "?m1\<lparr>cell := (cell ?m1)(a := None)\<rparr>"
    have ba: "b \<noteq> a" using dis snoc by auto
    have bc: "cell (ents ht) b \<noteq> None" using chain_in [OF l, of b] snoc by auto
    have l1: "elist ?m1 (table ht k) (xs @ ys)" using elist_unlink [of "ents ht" "table ht k" xs1 b a ys e] l e snoc by simp
    then have l2: "elist ?m (table ht k) (xs @ ys)" using dis by simp
    have wf1: "cells_wf ?m1" by (rule cells_wf_relink [OF D(1) bc])
    have wf: "cells_wf ?m" by (rule cells_wf_free [OF wf1])
    obtain x0 xs0 where hd: "xs = x0 # xs0" using snoc by (metis neq_Nil_conv snoc_eq_iff_butlast)
    then obtain e0 where e0: "table ht k = x0" "cell (ents ht) x0 = Some e0" "elist (ents ht) (e_next e0) (xs0 @ a # ys)"
      using l by (auto split: option.splits)
    have n0: "e_next e0 \<noteq> 0" using chain_null [OF e0(3)] by simp
    have nd: "file \<notin> dat (ents ht) ` set xs" using D(6) [of k] T a by auto
    have len: "length (xs @ a # ys) \<le> next_cell (ents ht)" using chain_bound [OF l D(1)] by simp
    have fe: "find_entry (next_cell (ents ht)) (ents ht) file (table ht k) (table ht k) = Inr (b, a)"
      using find_entry_elist [OF l len refl a nd, of "table ht k"] snoc by simp
    have a1: "cell ?m1 a = Some e" using ba e by (simp add: cell_relink)
    have r0: "delete_entry ht F file = Inr (ht\<lparr>ents := ?m\<rparr>)"
      using d k e e0 n0 fe a1 bc by (simp add: delete_entry_def set_next_entry_eq)
    have eq: "ht\<lparr>ents := ?m\<rparr> = ht\<lparr>table := (table ht)(k := table ht k), ents := ?m\<rparr>" by (cases ht) simp
    have r: "delete_entry ht F file = Inr (ht\<lparr>table := (table ht)(k := table ht k), ents := ?m\<rparr>)"
      unfolding eq [symmetric] by (rule r0)
    have same: "cell ?m c = cell (ents ht) c" if "c \<notin> set (T k)" for c using that T snoc by (auto simp: cell_relink)
    have dat: "dat ?m c = dat (ents ht) c" if "c \<noteq> a" for c using dat_relink [OF bc, of "e_next e"] that by (auto simp: dat_def fun_eq_iff)
    have map: "map (dat ?m) (xs @ ys) = map (dat (ents ht)) (xs @ ys)" by (rule map_cong [OF refl], rule dat) (use dis in auto)
    have dm: "distinct (map (dat ?m) (xs @ ys))" unfolding map using D(6) [of k] T by simp
    have fd: "\<forall>c\<in>set (xs @ ys). \<exists>d. cell F (dat ?m c) = Some d \<and> hash (file_name d) = k"
    proof
      fix c assume c: "c \<in> set (xs @ ys)"
      then have "dat ?m c = dat (ents ht) c" by (intro dat) (use dis in auto)
      then show "\<exists>d. cell F (dat ?m c) = Some d \<and> hash (file_name d) = k" using D(7) [of c k] T c by auto
    qed
    note rb = rep_bucket [OF R wf same l2 _ dm fd]
    show ?thesis using r rb same map T by (intro exI [of _ "table ht k"] exI [of _ ?m]) auto
  qed
qed

text \<open>C29.
  \<open>delete_entry\<close> does not unlink the first of several entries of a bucket: it frees the entry and leaves the table
  pointing to it, so that the next operation on the bucket reads freed memory.\<close>

theorem delete_entry_dangling:
  assumes "cache_rep ht F L T" "cell F file = Some d" "T (hash (file_name d)) = a # b # bs" "dat (ents ht) a = file"
  shows "\<exists>ht'. delete_entry ht F file = Inr ht' \<and> table ht' (hash (file_name d)) = a \<and> cell (ents ht') a = None \<and>
    (\<forall>file' d' time. cell F file' = Some d' \<longrightarrow> hash (file_name d') = hash (file_name d) \<longrightarrow>
      cache_lookup ht' F file' time = Inl Bad_access)"
proof -
  note D = cache_repD [OF assms(1)]
  let ?k = "hash (file_name d)"
  have l: "elist (ents ht) (table ht ?k) (a # b # bs)" using D(4) [of ?k] assms(3) by simp
  obtain e where e: "table ht ?k = a" "a \<noteq> 0" "cell (ents ht) a = Some e" "elist (ents ht) (e_next e) (b # bs)"
    by (rule elist_ConsD [OF l])
  have n0: "e_next e \<noteq> 0" using chain_null [OF e(4)] by simp
  have len: "length (a # b # bs) \<le> next_cell (ents ht)" using chain_bound [OF l D(1)] by simp
  have fe: "find_entry (next_cell (ents ht)) (ents ht) file a a = Inr (a, a)"
    using find_entry_elist [OF l len, of "[]" a "b # bs" "file" a] assms(4) e(1) by simp
  let ?m1 = "relink (ents ht) a (e_next e)"
  let ?ht = "ht\<lparr>ents := ?m1\<lparr>cell := (cell ?m1)(a := None)\<rparr>\<rparr>"
  have r: "delete_entry ht F file = Inr ?ht"
    using assms(2) e n0 fe by (simp add: delete_entry_def set_next_entry_eq free_cell_def cell_relink cell_at_def)
  obtain n where n: "next_cell (ents ht) = Suc n" using len by (cases "next_cell (ents ht)") auto
  have "cache_lookup ?ht F file' time = Inl Bad_access"
    if "cell F file' = Some d'" "hash (file_name d') = ?k" for file' d' time
    using that e(1,2) n by (simp add: cache_lookup_def cell_relink bucket_lookup.simps)
  then show ?thesis using r e(1) by (intro exI [of _ ?ht]) simp
qed

lemma hash_collision: "hash [98, 65] = hash [97, 98]"
  by (simp add: hash_def)

theorem delete_entry_dangling_witness:
  "\<exists>ht F file d. cell F file = Some d \<and> (\<exists>ht'. delete_entry ht F file = Inr ht' \<and> cache_lookup ht' F file 0 = Inl Bad_access)"
proof -
  let ?k = "hash [97, 98]"
  let ?F = "\<lparr>cell = [1 \<mapsto> \<lparr>file_name = [97, 98], file_buf = [], file_size = 0\<rparr>, 2 \<mapsto> \<lparr>file_name = [98, 65], file_buf = [], file_size = 0\<rparr>],
    next_cell = 3\<rparr>"
  let ?e = "\<lambda>f n. \<lparr>e_count = 0, e_data = f, e_next = n\<rparr>"
  let ?m = "\<lparr>cell = [1 \<mapsto> ?e 1 3, 2 \<mapsto> ?e 1 4, 3 \<mapsto> ?e 2 0, 4 \<mapsto> ?e 2 0], next_cell = 5\<rparr>"
  let ?ht = "\<lparr>ht_size = 10000000, cache_size = 10, available_cache_size = 10, LRU = 2, table = (\<lambda>k. if k = ?k then 1 else 0), ents = ?m\<rparr>"
  have wf: "cells_wf ?m" by (rule cells_wfI) simp_all
  have R: "cache_rep ?ht ?F [2, 4] (\<lambda>k. if k = ?k then [1, 3] else [])"
    unfolding cache_rep_def using wf by (auto simp: dat_def hash_collision)
  have "\<exists>ht'. delete_entry ?ht ?F 1 = Inr ht' \<and> table ht' ?k = 1 \<and> cell (ents ht') 1 = None \<and>
    (\<forall>file' d' time. cell ?F file' = Some d' \<longrightarrow> hash (file_name d') = ?k \<longrightarrow> cache_lookup ht' ?F file' time = Inl Bad_access)"
    using delete_entry_dangling [OF R, of 1 "\<lparr>file_name = [97, 98], file_buf = [], file_size = 0\<rparr>" 1 3 "[]"] by (simp add: dat_def)
  then show ?thesis by (intro exI [of _ ?ht] exI [of _ ?F] exI [of _ 1]) auto
qed

section \<open>Evicting and inserting\<close>

lemma cache_rep_pop:
  assumes "cache_rep ht F (a # L) T" "cell (ents ht) a = Some e"
  shows "cache_rep (ht\<lparr>LRU := e_next e\<rparr>) F L T"
  using assms unfolding cache_rep_def by (auto simp: disjoint_iff)

lemma cache_rep_free:
  assumes "cache_rep ht F L T" "a \<notin> set L" "\<And>k. a \<notin> set (T k)"
  shows "cache_rep (ht\<lparr>ents := ents ht\<lparr>cell := (cell (ents ht))(a := None)\<rparr>\<rparr>) F L T"
    "map (dat (ents ht\<lparr>cell := (cell (ents ht))(a := None)\<rparr>)) L = map (dat (ents ht)) L"
    "map (dat (ents ht\<lparr>cell := (cell (ents ht))(a := None)\<rparr>)) (T k) = map (dat (ents ht)) (T k)"
proof -
  let ?m = "ents ht\<lparr>cell := (cell (ents ht))(a := None)\<rparr>"
  note D = cache_repD [OF assms(1)]
  have sL: "cell ?m b = cell (ents ht) b" if "b \<in> set L" for b using that assms(2) by auto
  have sT: "cell ?m b = cell (ents ht) b" if "b \<in> set (T k)" for b k using that assms(3) by auto
  have L: "elist ?m (LRU ht) L" "map (dat ?m) L = map (dat (ents ht)) L"
    using same_chain [OF D(2), of ?m] sL by blast+
  have T: "elist ?m (table ht k) (T k)" "map (dat ?m) (T k) = map (dat (ents ht)) (T k)" for k
    using same_chain [OF D(4) [of k], of ?m] sT by blast+
  have dT: "distinct (map (dat ?m) (T k))" for k unfolding T(2) by (rule D(6))
  have dL: "distinct (map (dat ?m) L)" unfolding L(2) by (rule D(3))
  have fd: "\<exists>d. cell F (dat ?m b) = Some d \<and> hash (file_name d) = k" if "b \<in> set (T k)" for b k
    using T(2) [of k] D(7) [OF that] that by simp
  show "cache_rep (ht\<lparr>ents := ?m\<rparr>) F L T"
    unfolding cache_rep_def using cells_wf_free [OF D(1)] L(1) T(1) dT dL fd D(5) by simp
  show "map (dat ?m) L = map (dat (ents ht)) L" "map (dat ?m) (T k) = map (dat (ents ht)) (T k)" by (rule L(2), rule T(2))
qed

lemma cache_ok_avail:
  assumes "cache_ok ht F (f # fs)"
  shows "available_cache_size ht + size_of F f \<le> cache_size ht" "cache_size ht < 2 ^ 31" "0 \<le> size_of F f" "0 \<le> available_cache_size ht"
proof -
  have "0 \<le> (\<Sum>f\<leftarrow>fs. size_of F f)" using assms by (intro sum_list_nonneg) (auto simp: cache_ok_def)
  then show "available_cache_size ht + size_of F f \<le> cache_size ht" "cache_size ht < 2 ^ 31" "0 \<le> size_of F f" "0 \<le> available_cache_size ht"
    using assms by (auto simp: cache_ok_def)
qed

text \<open>One round of the loop of \<open>cache_evict\<close>.\<close>

definition evict_first :: "hashtable \<Rightarrow> file_data cells \<Rightarrow> hashtable res" where
  "evict_first ht F =
     rbind (cell_at (ents ht) (LRU ht)) (\<lambda>e.
     rbind (cell_at F (e_data e)) (\<lambda>d.
     let to_evict = LRU ht;
         ht = ht\<lparr>available_cache_size := c_int (available_cache_size ht + file_size d), LRU := e_next e\<rparr> in
     rbind (delete_entry ht F (e_data e)) (\<lambda>ht.
     rbind (free_cell (ents ht) to_evict) (\<lambda>m. Inr (ht\<lparr>ents := m\<rparr>)))))"

lemma cache_evict_unfold:
  "cache_evict fuel ht F need =
     (if available_cache_size ht < need then
        (case fuel of 0 \<Rightarrow> Inl Out_of_fuel | Suc fuel \<Rightarrow> rbind (evict_first ht F) (\<lambda>ht. cache_evict fuel ht F need))
      else Inr ht)"
  by (subst cache_evict.simps) (simp add: evict_first_def rbind_assoc Let_def split: nat.splits)

lemma evict_first_ok:
  assumes C: "cache_ok ht F (f # fs)" and sep: "\<forall>g\<in>set fs. hash (name_of F g) \<noteq> hash (name_of F f)"
  shows "\<exists>ht'. evict_first ht F = Inr ht' \<and> cache_ok ht' F fs \<and>
    cache_size ht' = cache_size ht \<and> available_cache_size ht' = available_cache_size ht + size_of F f"
proof -
  obtain L T where R: "cache_rep ht F L T" "map (dat (ents ht)) L = f # fs"
      "\<forall>k. bucket_files ht T k = {g \<in> set (f # fs). hash (name_of F g) = k}"
    by (rule cache_okD [OF C])
  obtain a L1 where L: "L = a # L1" "dat (ents ht) a = f" "map (dat (ents ht)) L1 = fs" using R(2) by auto
  have l: "elist (ents ht) (LRU ht) (a # L1)" using cache_repD(2) [OF R(1)] unfolding L(1) .
  obtain e where e0: "LRU ht = a" "a \<noteq> 0" "cell (ents ht) a = Some e" "elist (ents ht) (e_next e) L1" "dat (ents ht) a = e_data e"
    by (rule elist_ConsD [OF l])
  then have e: "LRU ht = a" "cell (ents ht) a = Some e" "e_data e = f" using L(2) by simp_all
  obtain d where d: "cell F f = Some d" using C by (auto simp: cache_ok_def)
  have nm: "name_of F f = file_name d" "size_of F f = file_size d" using d by (simp_all add: name_of_def size_of_def)
  let ?k = "hash (file_name d)" and ?av = "available_cache_size ht + file_size d"
  note av = cache_ok_avail [OF C]
  have avc: "c_int ?av = ?av" using av nm by (intro c_int_id) auto
  let ?h1 = "ht\<lparr>available_cache_size := ?av, LRU := e_next e\<rparr>"
  have R1: "cache_rep ?h1 F L1 T" using cache_rep_pop [of "ht\<lparr>available_cache_size := ?av\<rparr>" F a L1 T e] R(1) L(1) e(2) by simp
  have bk: "dat (ents ht) ` set (T ?k) = {f}" using R(3) sep nm by (auto simp: bucket_files_def)
  then obtain b where b: "b \<in> set (T ?k)" by fastforce
  have Tk: "T ?k = [b]" "dat (ents ht) b = f"
  proof -
    have "length (T ?k) = card {f}" using distinct_card [OF cache_repD(6) [OF R(1), of ?k]] bk by simp
    then obtain c where "T ?k = [c]" by (auto simp: length_Suc_conv)
    then show "T ?k = [b]" "dat (ents ht) b = f" using b bk by auto
  qed
  obtain v m where del: "delete_entry ?h1 F f = Inr (?h1\<lparr>table := (table ?h1)(?k := v), ents := m\<rparr>)"
      "cache_rep (?h1\<lparr>table := (table ?h1)(?k := v), ents := m\<rparr>) F L1 (T(?k := []))"
      "map (dat m) L1 = map (dat (ents ?h1)) L1" "\<And>j. j \<noteq> ?k \<Longrightarrow> map (dat m) (T j) = map (dat (ents ?h1)) (T j)"
      "\<And>b. b \<notin> set (T ?k) \<Longrightarrow> cell m b = cell (ents ?h1) b"
    using bucket_delete [OF R1 d refl, of "[]" b "[]"] Tk by auto
  have aT: "a \<notin> set (T j)" for j using cache_repD(5) [OF R(1), of j] L(1) by auto
  have aL: "a \<notin> set L1" using cache_repD(3) [OF R(1)] L(1) by auto
  let ?h2 = "?h1\<lparr>table := (table ?h1)(?k := v), ents := m\<rparr>"
  let ?m = "m\<lparr>cell := (cell m)(a := None)\<rparr>"
  have am: "cell m a = Some e" using del(5) [OF aT] e(2) by simp
  have r: "evict_first ht F = Inr (?h2\<lparr>ents := ?m\<rparr>)"
    unfolding evict_first_def using e d avc del(1) am by simp
  define T' where "T' = T(?k := [])"
  have aT': "\<And>j. a \<notin> set (T' j)" using aT by (simp add: T'_def)
  have R2: "cache_rep ?h2 F L1 T'" using del(2) unfolding T'_def .
  have R3: "cache_rep (?h2\<lparr>ents := ?m\<rparr>) F L1 T'" using cache_rep_free(1) [OF R2 aL aT'] by simp
  have dL: "map (dat ?m) L1 = fs" using cache_rep_free(2) [OF R2 aL aT'] del(3) L(3) by simp
  have bf: "bucket_files (?h2\<lparr>ents := ?m\<rparr>) T' j = {g \<in> set fs. hash (name_of F g) = j}" for j
  proof (cases "j = ?k")
    case True
    then show ?thesis using sep nm by (auto simp: bucket_files_def T'_def)
  next
    case False
    then have T': "T' j = T j" by (simp add: T'_def)
    have "map (dat ?m) (T j) = map (dat (ents ht)) (T j)" using cache_rep_free(3) [OF R2 aL aT', of j] del(4) [OF False] T' by simp
    then have "bucket_files (?h2\<lparr>ents := ?m\<rparr>) T' j = bucket_files ht T j"
      unfolding bucket_files_dat T' by (simp del: set_map map_eq_conv)
    then show ?thesis using R(3) False nm(1) by auto
  qed
  have "cache_ok (?h2\<lparr>ents := ?m\<rparr>) F fs"
    unfolding cache_ok_def using R3 dL bf C av nm by (auto simp: cache_ok_def inj_on_def)
  then show ?thesis using r nm(2) by (intro exI [of _ "?h2\<lparr>ents := ?m\<rparr>"]) simp
qed

text \<open>What stays when the least recently used files make room: the abstract cache is the list of files.\<close>

fun evict :: "('a \<Rightarrow> int) \<Rightarrow> int \<Rightarrow> int \<Rightarrow> 'a list \<Rightarrow> 'a list" where
  "evict sz avail need [] = []"
| "evict sz avail need (f # fs) = (if avail < need then evict sz (avail + sz f) need fs else f # fs)"

lemma evict_suffix: "\<exists>gs. fs = gs @ evict sz avail need fs"
proof (induction fs arbitrary: avail)
  case (Cons f fs)
  obtain gs where "fs = gs @ evict sz (avail + sz f) need fs" using Cons by blast
  then show ?case by (cases "avail < need") (metis append_Cons evict.simps(2), simp)
qed simp

text \<open>The files that have to leave, and that a set of files shares no bucket with another cached file; when no two of the files are in one
  bucket, no set of them does.\<close>

fun leaving :: "('a \<Rightarrow> int) \<Rightarrow> int \<Rightarrow> int \<Rightarrow> 'a list \<Rightarrow> 'a list" where
  "leaving sz avail need [] = []"
| "leaving sz avail need (f # fs) = (if avail < need then f # leaving sz (avail + sz f) need fs else [])"

lemma leaving_evict: "leaving sz avail need fs @ evict sz avail need fs = fs"
  by (induction fs arbitrary: avail) simp_all

definition alone :: "file_data cells \<Rightarrow> nat list \<Rightarrow> nat list \<Rightarrow> bool" where
  "alone F fs out \<longleftrightarrow> (\<forall>f\<in>set out. \<forall>g\<in>set fs. g \<noteq> f \<longrightarrow> hash (name_of F g) \<noteq> hash (name_of F f))"

definition separate :: "file_data cells \<Rightarrow> nat list \<Rightarrow> bool" where
  "separate F fs \<longleftrightarrow> inj_on (\<lambda>f. hash (name_of F f)) (set fs)"

lemma separate_alone: "separate F fs \<Longrightarrow> set out \<subseteq> set fs \<Longrightarrow> alone F fs out"
  by (auto simp: separate_def alone_def inj_on_def)

lemma separate_leaving: "separate F fs \<Longrightarrow> alone F fs (leaving sz avail need fs)"
  by (erule separate_alone) (metis leaving_evict set_append Un_upper1)

lemma cache_evict_ok:
  assumes "cache_ok ht F fs" "alone F fs (leaving (size_of F) (available_cache_size ht) need fs)" "need \<le> cache_size ht" "length fs \<le> fuel"
  shows "\<exists>ht'. cache_evict fuel ht F need = Inr ht' \<and> cache_ok ht' F (evict (size_of F) (available_cache_size ht) need fs) \<and>
    cache_size ht' = cache_size ht \<and> need \<le> available_cache_size ht'"
  using assms
proof (induction fs arbitrary: ht fuel)
  case Nil
  then show ?case by (subst cache_evict_unfold) (auto simp: cache_ok_def)
next
  case (Cons f fs)
  show ?case
  proof (cases "available_cache_size ht < need")
    case True
    obtain n where n: "fuel = Suc n" "length fs \<le> n" using Cons.prems(4) by (cases fuel) auto
    have dis: "f \<notin> set fs" using cache_ok_distinct [OF Cons.prems(1)] by simp
    then have sep: "\<forall>g\<in>set fs. hash (name_of F g) \<noteq> hash (name_of F f)"
        "alone F fs (leaving (size_of F) (available_cache_size ht + size_of F f) need fs)"
      using Cons.prems(2) True by (auto simp: alone_def)
    obtain ht1 where e: "evict_first ht F = Inr ht1" "cache_ok ht1 F fs" "cache_size ht1 = cache_size ht"
        "available_cache_size ht1 = available_cache_size ht + size_of F f"
      using evict_first_ok [OF Cons.prems(1) sep(1)] by blast
    show ?thesis
      using Cons.IH [OF e(2) _ _ n(2)] sep(2) Cons.prems(3) e True n(1) by (subst cache_evict_unfold) simp
  qed (use Cons.prems in \<open>subst cache_evict_unfold, simp\<close>)
qed

lemma evict_set: "set (evict sz avail need fs) \<subseteq> set fs"
  by (induction fs arbitrary: avail) auto

lemma cache_ok_length:
  assumes "cache_ok ht F fs" shows "length fs \<le> next_cell (ents ht)"
proof -
  obtain L T where R: "cache_rep ht F L T" "map (dat (ents ht)) L = fs" by (rule cache_okD [OF assms])
  have "length L < next_cell (ents ht)" by (rule chain_bound [OF cache_repD(2,1) [OF R(1)]])
  then show ?thesis using R(2) by auto
qed

text \<open>The cache as a list of files: what \<open>cache_insert\<close> makes of it.\<close>

definition lru_insert :: "('a \<Rightarrow> int) \<Rightarrow> int \<Rightarrow> int \<Rightarrow> 'a \<Rightarrow> 'a list \<Rightarrow> 'a list" where
  "lru_insert sz limit avail f fs = (if 2 * sz f > limit then fs else evict sz avail (sz f) fs @ [f])"

lemma cache_insert_ok:
  assumes C: "cache_ok ht F fs" and d: "cell F file = Some d" and sz: "0 \<le> file_size d"
    and new: "\<forall>f\<in>set fs. name_of F f \<noteq> file_name d" and sep: "2 * file_size d \<le> cache_size ht \<Longrightarrow> alone F fs (leaving (size_of F) (available_cache_size ht) (file_size d) fs)"
  shows "\<exists>ht'. cache_insert ht F file = Inr ht' \<and> cache_size ht' = cache_size ht \<and>
    cache_ok ht' F (lru_insert (size_of F) (cache_size ht) (available_cache_size ht) file fs)"
proof (cases "2 * file_size d > cache_size ht")
  case True
  then show ?thesis using C d by (simp add: cache_insert_def lru_insert_def size_of_def)
next
  case half: False
  have sf: "size_of F file = file_size d" using d by (simp add: size_of_def)
  have need: "file_size d \<le> cache_size ht" using half sz by linarith
  show ?thesis
  proof (cases "file_size d > available_cache_size ht")
    case True
    obtain ht1 where e: "cache_evict (next_cell (ents ht)) ht F (file_size d) = Inr ht1"
        "cache_ok ht1 F (evict (size_of F) (available_cache_size ht) (file_size d) fs)"
        "cache_size ht1 = cache_size ht" "file_size d \<le> available_cache_size ht1"
      using cache_evict_ok [OF C sep need cache_ok_length [OF C]] half by auto
    let ?fs = "evict (size_of F) (available_cache_size ht) (file_size d) fs"
    have new': "\<forall>f\<in>set ?fs. name_of F f \<noteq> file_name d" using new by (meson evict_set subsetD)
    obtain ht' where i: "cache_insert_ht ht1 F file = Inr ht'" "cache_ok ht' F (?fs @ [file])" "cache_size ht' = cache_size ht1"
      using cache_insert_ht_ok [OF e(2) d new' sz e(4)] by blast
    have "cache_insert ht F file = Inr ht'" using d True half e(1) i(1) by (simp add: cache_insert_def)
    then show ?thesis using i e(3) half sf by (intro exI [of _ ht']) (simp add: lru_insert_def)
  next
    case False
    then have "evict (size_of F) (available_cache_size ht) (file_size d) fs = fs" by (cases fs) simp_all
    moreover obtain ht' where i: "cache_insert_ht ht F file = Inr ht'" "cache_ok ht' F (fs @ [file])" "cache_size ht' = cache_size ht"
      using cache_insert_ht_ok [OF C d new sz] False by auto
    moreover have "cache_insert ht F file = Inr ht'" using d False half i(1) by (simp add: cache_insert_def)
    ultimately show ?thesis using half sf by (intro exI [of _ ht']) (simp add: lru_insert_def)
  qed
qed

end
