(* ===== verification/Lru_Cache.thy ===== *)
theory Lru_Cache
  imports C_Prelude
begin

text \<open>
  The contract of a cache of files under their names that a server relies on. \<open>holds c fs\<close>: the cache has the files \<open>fs\<close>,
  the least recently used first. A look-up finds the file that has the name, if there is one, and makes it the most recently
  used; an insertion of a file that is not there gives the files \<open>insert_list c f fs\<close>, which ends with the new one if it is
  not too large, after files of \<open>fs\<close>.
\<close>

locale lru_cache =
  fixes holds :: "'c \<Rightarrow> 'f list \<Rightarrow> bool"
    and name :: "'f \<Rightarrow> 'n"
    and lookup :: "'c \<Rightarrow> 'f \<Rightarrow> ('f option \<times> 'c) res"
    and insert_in :: "'c \<Rightarrow> 'f \<Rightarrow> 'c res"
    and can_insert :: "'c \<Rightarrow> 'f \<Rightarrow> 'f list \<Rightarrow> bool"
    and insert_list :: "'c \<Rightarrow> 'f \<Rightarrow> 'f list \<Rightarrow> 'f list"
    and known :: "'f \<Rightarrow> bool"
    and too_large :: "'c \<Rightarrow> 'f \<Rightarrow> bool"
  assumes names: "holds c fs \<Longrightarrow> inj_on name (set fs)"
    and hit: "holds c fs \<Longrightarrow> known g \<Longrightarrow> f \<in> set fs \<Longrightarrow> name f = name g \<Longrightarrow>
      \<exists>c'. lookup c g = Inr (Some f, c') \<and> holds c' (remove1 f fs @ [f])"
    and miss: "holds c fs \<Longrightarrow> known g \<Longrightarrow> name g \<notin> name ` set fs \<Longrightarrow> lookup c g = Inr (None, c)"
    and ins: "holds c fs \<Longrightarrow> known f \<Longrightarrow> name f \<notin> name ` set fs \<Longrightarrow> can_insert c f fs \<Longrightarrow>
      \<exists>c'. insert_in c f = Inr c' \<and> holds c' (insert_list c f fs)"
    and ins_last: "\<not> too_large c f \<Longrightarrow> \<exists>gs. insert_list c f fs = gs @ [f] \<and> set gs \<subseteq> set fs"
begin

lemma hit_after_insert:
  assumes "holds c fs" "known f" "name f \<notin> name ` set fs" "can_insert c f fs" "\<not> too_large c f" "known g" "name g = name f"
  shows "\<exists>c' c'' gs. insert_in c f = Inr c' \<and> lookup c' g = Inr (Some f, c'') \<and> holds c'' (gs @ [f]) \<and> set gs \<subseteq> set fs"
proof -
  obtain c' where c': "insert_in c f = Inr c'" "holds c' (insert_list c f fs)" using ins [OF assms(1-4)] by blast
  obtain gs where gs: "insert_list c f fs = gs @ [f]" "set gs \<subseteq> set fs" using ins_last [OF assms(5)] by blast
  have "f \<notin> set gs" using gs(2) assms(3) by auto
  then have "remove1 f (gs @ [f]) @ [f] = gs @ [f]" by (simp add: remove1_append)
  then show ?thesis using hit [OF c'(2) assms(6), of f] c'(1) gs assms(7) by auto
qed

text \<open>A look-up does not change which files are cached, so looking up again hits or misses as before.\<close>

lemma lookup_again:
  assumes "holds c fs" "known g"
  shows "\<exists>r c' c''. lookup c g = Inr (r, c') \<and> lookup c' g = Inr (r, c'')"
proof (cases "name g \<in> name ` set fs")
  case True
  then obtain f where f: "f \<in> set fs" "name f = name g" by force
  obtain c' where c': "lookup c g = Inr (Some f, c')" "holds c' (remove1 f fs @ [f])" using hit [OF assms f] by blast
  then show ?thesis using hit [OF c'(2) assms(2), of f] f(2) by auto
next
  case False
  then show ?thesis using miss [OF assms] by simp
qed

end

end
