(* ===== verification/Cache_Use.thy ===== *)
theory Cache_Use
  imports Cache_Evict Lru_Cache
begin

text \<open>
  The cache of the web server meets the contract of a cache with least-recently-used eviction, with its properties over
  the model's own definitions.
\<close>

definition known_file :: "file_data cells \<Rightarrow> nat \<Rightarrow> bool" where
  "known_file F f \<longleftrightarrow> (\<exists>d. cell F f = Some d \<and> 0 \<le> file_size d)"

definition lookup_file :: "file_data cells \<Rightarrow> hashtable \<Rightarrow> nat \<Rightarrow> (nat option \<times> hashtable) res" where
  "lookup_file F ht f = rbind (cache_lookup ht F f 0) (\<lambda>(g, ht). Inr (if g = 0 then None else Some g, ht))"

interpretation server_cache: lru_cache "\<lambda>ht fs. cache_ok ht F fs \<and> 0 \<notin> set fs" "name_of F" "lookup_file F" "\<lambda>ht f. cache_insert ht F f"
    "\<lambda>ht f fs. separate F fs \<and> f \<noteq> 0" "\<lambda>ht f fs. lru_insert (size_of F) (cache_size ht) (available_cache_size ht) f fs"
    "known_file F" "\<lambda>ht f. 2 * size_of F f > cache_size ht"
  for F
proof unfold_locales
  fix c :: hashtable and f g :: nat and fs
  show "inj_on (name_of F) (set fs)" if "cache_ok c F fs \<and> 0 \<notin> set fs" using that by (auto simp: cache_ok_def)
  show "\<exists>c'. lookup_file F c g = Inr (Some f, c') \<and> cache_ok c' F (remove1 f fs @ [f]) \<and> 0 \<notin> set (remove1 f fs @ [f])"
    if C: "cache_ok c F fs \<and> 0 \<notin> set fs" and g: "known_file F g" and f: "f \<in> set fs" "name_of F f = name_of F g"
  proof -
    obtain d where d: "cell F g = Some d" using g by (auto simp: known_file_def)
    then have nd: "name_of F g = file_name d" by (simp add: name_of_def)
    have "\<exists>f'\<in>set fs. name_of F f' = file_name d" using f nd by auto
    then obtain f' c' where f': "f' \<in> set fs" "name_of F f' = file_name d" "cache_lookup c F g 0 = Inr (f', c')"
        "cache_ok c' F (remove1 f' fs @ [f'])"
      using cache_lookup_ok [of c F fs g d 0] C d by auto
    have "f' = f" using f f'(1,2) nd C by (auto simp: cache_ok_def inj_on_def)
    moreover have "f \<noteq> 0" using C f(1) by metis
    ultimately show ?thesis using f'(3,4) C notin_set_remove1 [of 0 fs f] by (intro exI [of _ c']) (simp add: lookup_file_def)
  qed
  show "lookup_file F c g = Inr (None, c)"
    if C: "cache_ok c F fs \<and> 0 \<notin> set fs" and g: "known_file F g" "name_of F g \<notin> name_of F ` set fs"
  proof -
    obtain d where d: "cell F g = Some d" using g by (auto simp: known_file_def)
    then have "name_of F g = file_name d" by (simp add: name_of_def)
    then have "\<not> (\<exists>f\<in>set fs. name_of F f = file_name d)" using g(2) by (metis image_eqI)
    then have "cache_lookup c F g 0 = Inr (0, c)" using cache_lookup_ok [of c F fs g d 0] C d by presburger
    then show ?thesis by (simp add: lookup_file_def)
  qed
  show "\<exists>c'. cache_insert c F f = Inr c' \<and> cache_ok c' F (lru_insert (size_of F) (cache_size c) (available_cache_size c) f fs) \<and>
      0 \<notin> set (lru_insert (size_of F) (cache_size c) (available_cache_size c) f fs)"
    if C: "cache_ok c F fs \<and> 0 \<notin> set fs" and f: "known_file F f" "name_of F f \<notin> name_of F ` set fs" "separate F fs \<and> f \<noteq> 0"
  proof -
    obtain d where d: "cell F f = Some d" "0 \<le> file_size d" using f by (auto simp: known_file_def)
    then have "name_of F f = file_name d" by (simp add: name_of_def)
    then have "\<forall>g\<in>set fs. name_of F g \<noteq> file_name d" using f(2) by (metis image_eqI)
    moreover have "0 \<notin> set (lru_insert (size_of F) (cache_size c) (available_cache_size c) f fs)"
      using C f(3) by (simp add: lru_insert_def) (meson evict_set subsetD)
    ultimately show ?thesis using cache_insert_ok [of c F fs f d] C d f(3) separate_leaving by auto
  qed
  show "\<exists>gs. lru_insert (size_of F) (cache_size c) (available_cache_size c) f fs = gs @ [f] \<and> set gs \<subseteq> set fs"
    if "\<not> 2 * size_of F f > cache_size c"
    using that evict_set by (simp add: lru_insert_def)
qed

section \<open>Properties\<close>

text \<open>C27.
  \<open>update_LRU\<close>, whose three branches relink the entries of the list each in its own way, is the reference
  \<open>remove1 file fs @ [file]\<close> on the list of files: a file that is there moves to the end, one that is not is added there.
  It changes no bucket and no other field.\<close>

theorem update_LRU_move_to_end:
  assumes "cache_rep ht F L T" "map (dat (ents ht)) L = fs"
  shows "\<exists>ht' L'. update_LRU ht file = Inr ht' \<and> cache_rep ht' F L' T \<and> map (dat (ents ht')) L' = remove1 file fs @ [file] \<and>
    (\<forall>k. map (dat (ents ht')) (T k) = map (dat (ents ht)) (T k)) \<and> table ht' = table ht \<and>
    available_cache_size ht' = available_cache_size ht"
proof -
  obtain ht' L' where u: "update_LRU ht file = Inr ht'" "cache_rep ht' F L' T" "map (dat (ents ht')) L' = remove1 file fs @ [file]"
      "\<forall>k. map (dat (ents ht')) (T k) = map (dat (ents ht)) (T k)" "ht' = ht\<lparr>LRU := LRU ht', ents := ents ht'\<rparr>"
    using rep_update_LRU [OF assms(1), of "file"] assms(2) by blast
  have "table ht' = table ht" "available_cache_size ht' = available_cache_size ht" by (subst u(5), simp)+
  then show ?thesis using u by blast
qed

text \<open>Three files, cached in the order of their addresses.\<close>

definition three_files :: "file_data cells" where
  "three_files = \<lparr>cell = [1 \<mapsto> \<lparr>file_name = [97], file_buf = [], file_size = 4\<rparr>, 2 \<mapsto> \<lparr>file_name = [98], file_buf = [], file_size = 3\<rparr>,
     3 \<mapsto> \<lparr>file_name = [99], file_buf = [], file_size = 5\<rparr>], next_cell = 4\<rparr>"

lemma three_files_cell:
  "cell three_files (Suc 0) = Some \<lparr>file_name = [97], file_buf = [], file_size = 4\<rparr>"
  "cell three_files 2 = Some \<lparr>file_name = [98], file_buf = [], file_size = 3\<rparr>"
  "cell three_files 3 = Some \<lparr>file_name = [99], file_buf = [], file_size = 5\<rparr>"
  by (simp_all add: three_files_def)

lemma three_files_hash: "hash [97] = 177670" "hash [98] = 177671" "hash [99] = 177672"
  by (simp_all add: hash_def)

lemma two_cached: "\<exists>ht. cache_ok ht three_files [1, 2] \<and> cache_size ht = 10 \<and> available_cache_size ht = 3"
proof -
  obtain ht1 where 1: "cache_insert_ht (init_cache 10) three_files 1 = Inr ht1" "cache_ok ht1 three_files ([] @ [1])" "cache_size ht1 = 10"
    using cache_insert_ht_ok [OF init_cache_ok [of 10 three_files], of 1] by (auto simp: three_files_cell init_cache_def)
  have "available_cache_size ht1 = 6" using 1(2,3) by (simp add: cache_ok_def size_of_def three_files_cell)
  then obtain ht2 where 2: "cache_insert_ht ht1 three_files 2 = Inr ht2" "cache_ok ht2 three_files (([] @ [1]) @ [2])" "cache_size ht2 = 10"
    using cache_insert_ht_ok [OF 1(2), of 2] 1(3) by (auto simp: three_files_cell name_of_def)
  moreover have "available_cache_size ht2 = 3" using 2(2,3) by (simp add: cache_ok_def size_of_def three_files_cell)
  ultimately show ?thesis by (intro exI [of _ ht2]) simp
qed

theorem update_LRU_move_to_end_witness:
  "\<exists>ht ht' L'. cache_ok ht three_files [1, 2] \<and> update_LRU ht 1 = Inr ht' \<and> map (dat (ents ht')) L' = [2, 1]"
proof -
  obtain ht where ht: "cache_ok ht three_files [1, 2]" using two_cached by blast
  obtain L T where R: "cache_rep ht three_files L T" "map (dat (ents ht)) L = [1, 2]" by (rule cache_okD [OF ht])
  obtain ht' L' where "update_LRU ht 1 = Inr ht'" "map (dat (ents ht')) L' = remove1 1 [1, 2] @ [1]"
    using update_LRU_move_to_end [OF R, of 1] by blast
  then show ?thesis using ht by (intro exI [of _ ht] exI [of _ ht'] exI [of _ L']) simp
qed

text \<open>\<open>cache_lookup\<close> returns the cached file that has the name asked for, and makes it the most recently used one unless
  \<open>time\<close> is set, or returns NULL when there is none and changes nothing; the accounting of the cache is kept.\<close>

theorem cache_lookup_spec:
  assumes "cache_ok ht F fs" "cell F file = Some d"
  shows "if \<exists>f\<in>set fs. name_of F f = file_name d
    then \<exists>f\<in>set fs. name_of F f = file_name d \<and>
      (\<exists>ht'. cache_lookup ht F file time = Inr (f, ht') \<and> cache_ok ht' F (if time = 0 then remove1 f fs @ [f] else fs) \<and>
        (time \<noteq> 0 \<longrightarrow> ht' = ht))
    else cache_lookup ht F file time = Inr (0, ht)"
  by (rule cache_lookup_ok [OF assms])

theorem cache_lookup_spec_witness:
  "\<exists>ht ht'. cache_ok ht three_files [1, 2] \<and> cache_lookup ht three_files 1 0 = Inr (1, ht') \<and> cache_ok ht' three_files [2, 1]"
proof -
  obtain ht where ht: "cache_ok ht three_files [1, 2]" using two_cached by blast
  show ?thesis
    using cache_lookup_spec [OF ht, of 1 _ 0] ht by (auto simp: three_files_cell name_of_def split: if_splits)
qed

text \<open>C28.
  \<open>cache_insert\<close> of a file that is not cached refines the insertion of a least-recently-used cache: a file larger than half of
  the cache is not kept, else files leave in the order of their last use until the new one fits, and it becomes the most
  recently used one; what is available is again what the sizes of the cached files leave. No file that has to leave may share its bucket
  with another cached file (\<open>alone\<close>; always so when none has to leave): then \<open>delete_entry\<close> can free an entry that stays linked, see \<open>delete_entry_dangling\<close>.\<close>

theorem cache_insert_refines_lru:
  assumes "cache_ok ht F fs" "cell F file = Some d" "0 \<le> file_size d" "\<forall>f\<in>set fs. name_of F f \<noteq> file_name d"
    and "2 * file_size d \<le> cache_size ht \<Longrightarrow> alone F fs (leaving (size_of F) (available_cache_size ht) (file_size d) fs)"
  shows "\<exists>ht'. cache_insert ht F file = Inr ht' \<and> cache_size ht' = cache_size ht \<and>
    cache_ok ht' F (lru_insert (size_of F) (cache_size ht) (available_cache_size ht) file fs)"
  by (rule cache_insert_ok [OF assms])

theorem cache_insert_refines_lru_witness:
  "\<exists>ht ht'. cache_ok ht three_files [1, 2] \<and> cache_insert ht three_files 3 = Inr ht' \<and> cache_ok ht' three_files [2, 3]"
proof -
  obtain ht where ht: "cache_ok ht three_files [1, 2]" "cache_size ht = 10" "available_cache_size ht = 3" using two_cached by blast
  have "alone three_files [1, 2] [1]" by (simp add: alone_def name_of_def three_files_cell three_files_hash)
  then show ?thesis
    using cache_insert_refines_lru [OF ht(1) three_files_cell(3)] ht
    by (auto simp: name_of_def size_of_def three_files_cell lru_insert_def)
qed

text \<open>A file that was put in the cache is there at the next request for its name.\<close>

theorem cache_hit_after_insert:
  assumes "cache_ok ht F fs" "0 \<notin> set fs" "known_file F f" "f \<noteq> 0" "name_of F f \<notin> name_of F ` set fs" "separate F fs"
    "2 * size_of F f \<le> cache_size ht" "known_file F g" "name_of F g = name_of F f"
  shows "\<exists>ht1 ht2. cache_insert ht F f = Inr ht1 \<and> cache_lookup ht1 F g 0 = Inr (f, ht2)"
proof -
  obtain ht1 ht2 where h: "cache_insert ht F f = Inr ht1" "lookup_file F ht1 g = Inr (Some f, ht2)"
    using server_cache.hit_after_insert [of ht F fs f g] assms by auto
  then obtain a c where "cache_lookup ht1 F g 0 = Inr (a, c)" "(if a = 0 then None else Some a) = Some f"
    unfolding lookup_file_def by (elim rbind_eq_InrE) auto
  then show ?thesis using h(1) by (auto split: if_splits)
qed

theorem cache_hit_after_insert_witness:
  "\<exists>ht ht1 ht2. cache_insert ht three_files 3 = Inr ht1 \<and> cache_lookup ht1 three_files 3 0 = Inr (3, ht2)"
proof -
  obtain ht where ht: "cache_ok ht three_files [1, 2]" "cache_size ht = 10" using two_cached by blast
  have "separate three_files [1, 2]" by (simp add: separate_def name_of_def three_files_cell three_files_hash)
  then show ?thesis
    using cache_hit_after_insert [OF ht(1), of 3 3] ht(2) by (auto simp: name_of_def size_of_def three_files_cell known_file_def)
qed

end
