(* ===== verification/Request_Spec.thy ===== *)
theory Request_Spec
  imports Request Rio_Spec Cache_Use
begin

text \<open>
  What the request handling of the web server does: the header lines are read to the empty line, and for ever when the
  connection ends before it; no file with \<open>..\<close> in its name, no C file and none that is not there is read; the answer is the header
  followed by the bytes of the file; and a file that could not be read is answered a second time, and cached.
\<close>

section \<open>Reading the header lines\<close>

lemma take_line_newline: "take_line m s = as @ 10 # bs \<Longrightarrow> bs = []"
  by (induction m s arbitrary: as rule: take_line.induct) (auto simp: Cons_eq_append_conv split: if_splits)

lemma c_streq_line:
  assumes "l = take_line m s"
  shows "c_streq (l @ 0 # r) crlf = Inr (l = crlf)"
proof -
  consider "l = []" | a where "l = [a]" | a b where "l = [a, b]" | a b c d where "l = a # b # c # d"
    by (metis list.exhaust)
  then show ?thesis
  proof cases
    case 4
    then have "b \<noteq> 10" using take_line_newline [of m s "[a]" "c # d"] assms by auto
    then show ?thesis using 4 by (simp add: crlf_def)
  qed (auto simp: crlf_def)
qed

lemma Rio_readlineb_line:
  assumes "rio_wf rp" "stream rp \<noteq> []" "l = take_line maxlen (stream rp)" "length l < length buf" "0 < maxlen"
  shows "\<exists>rp'. Rio_readlineb rp buf maxlen = Inr (int (length l), blit buf 0 (l @ [0]), rp') \<and> rio_wf rp' \<and>
    stream rp' = drop (length l) (stream rp)"
  using rio_readlineb_from_ok [of rp 0 maxlen buf] assms by (auto simp: Rio_readlineb_def)

lemma Rio_readlineb_eof:
  assumes "rio_wf rp" "stream rp = []" "0 < maxlen"
  shows "\<exists>rp'. Rio_readlineb rp buf maxlen = Inr (0, buf, rp') \<and> rio_wf rp' \<and> stream rp' = []"
  using rio_readlineb_eof [OF assms, of buf] by (auto simp: Rio_readlineb_def)

text \<open>Where the lines of a stream lead to: \<open>Some t\<close>, an empty line, \<open>t\<close> is behind it; \<open>None\<close>, the end.\<close>

function after_headers :: "nat \<Rightarrow> u8 list \<Rightarrow> u8 list option" where
  "after_headers m s =
     (if s = [] \<or> m = 0 then None
      else if take_line m s = crlf then Some (drop 2 s)
      else after_headers m (drop (length (take_line m s)) s))"
  by pat_completeness auto
termination
proof (relation "measure (\<lambda>(m, s). length s)")
  fix m :: nat and s :: "u8 list" assume "\<not> (s = [] \<or> m = 0)"
  then have "0 < length (take_line m s)" "0 < length s" by (cases m; cases s; auto)+
  then show "((m, drop (length (take_line m s)) s), (m, s)) \<in> measure (\<lambda>(m, s). length s)" by simp
qed simp

declare after_headers.simps [simp del]

text \<open>Every line is shorter than \<open>m\<close>.\<close>

definition short_lines :: "nat \<Rightarrow> u8 list \<Rightarrow> bool" where
  "short_lines m s \<longleftrightarrow> (\<forall>k. length (take_line m (drop k s)) < m)"

lemma short_lines_drop: "short_lines m s \<Longrightarrow> short_lines m (drop k s)"
  by (simp add: short_lines_def)

lemma c_streq_blit_line:
  assumes "l = take_line m s" "length l < length buf"
  shows "c_streq (blit buf 0 (l @ [0])) crlf = Inr (l = crlf)"
  using c_streq_line [OF assms(1)] assms(2) by (simp add: blit_def)

text \<open>One turn of the loop, from a line that has been read.\<close>

lemma read_headers_line:
  assumes "rio_wf rp" "stream rp \<noteq> []" "length buf = MAXLINE" "short_lines MAXLINE (stream rp)" "l = take_line MAXLINE (stream rp)"
  shows "\<exists>rp'. rio_wf rp' \<and> stream rp' = drop (length l) (stream rp) \<and>
    rbind (Rio_readlineb rp buf MAXLINE) (\<lambda>(_, buf, rp). read_headers_from fuel rp buf) =
      (if l = crlf then Inr rp'
       else case fuel of 0 \<Rightarrow> Inl Out_of_fuel | Suc fuel \<Rightarrow>
         rbind (Rio_readlineb rp' (blit buf 0 (l @ [0])) MAXLINE) (\<lambda>(_, buf, rp). read_headers_from fuel rp buf))"
proof -
  have len: "length l < length buf" using assms(3-5) unfolding short_lines_def by (metis drop0)
  obtain rp' where r: "Rio_readlineb rp buf MAXLINE = Inr (int (length l), blit buf 0 (l @ [0]), rp')" "rio_wf rp'"
      "stream rp' = drop (length l) (stream rp)"
    using Rio_readlineb_line [OF assms(1,2,5) len] by auto
  then show ?thesis
    using c_streq_blit_line [OF assms(5) len] by (intro exI [of _ rp']) (simp add: read_headers_from.simps split: nat.splits)
qed

lemma take_line_pos: "s \<noteq> [] \<Longrightarrow> 0 < m \<Longrightarrow> 0 < length (take_line m s)"
  by (cases m; cases s) auto

lemma read_headers_eof:
  assumes "rio_wf rp" "stream rp = []" "c_streq buf crlf = Inr False"
  shows "rbind (Rio_readlineb rp buf MAXLINE) (\<lambda>(_, buf, rp). read_headers_from fuel rp buf) = Inl Out_of_fuel"
  using assms
proof (induction fuel arbitrary: rp)
  case 0
  then obtain rp' where "Rio_readlineb rp buf MAXLINE = Inr (0, buf, rp')" using Rio_readlineb_eof [of rp MAXLINE buf] by auto
  then show ?case using 0 by (simp add: read_headers_from.simps)
next
  case (Suc fuel)
  then obtain rp' where "Rio_readlineb rp buf MAXLINE = Inr (0, buf, rp')" "rio_wf rp'" "stream rp' = []"
    using Rio_readlineb_eof [of rp MAXLINE buf] by auto
  then show ?case using Suc by (simp add: read_headers_from.simps)
qed

lemma request_read_headers_ok:
  assumes "rio_wf rp" "length buf = MAXLINE" "c_streq buf crlf = Inr False" "short_lines MAXLINE (stream rp)"
  shows "case after_headers MAXLINE (stream rp) of
      Some t \<Rightarrow> length (stream rp) \<le> fuel \<longrightarrow> (\<exists>rp'. request_read_headers fuel rp buf = Inr rp' \<and> rio_wf rp' \<and> stream rp' = t)
    | None \<Rightarrow> request_read_headers fuel rp buf = Inl Out_of_fuel"
  using assms
proof (induction "length (stream rp)" arbitrary: rp buf fuel rule: less_induct)
  case less
  show ?case
  proof (cases "stream rp = []")
    case True
    then show ?thesis
      using read_headers_eof [OF less.prems(1) True less.prems(3)] by (simp add: after_headers.simps request_read_headers_def)
  next
    case False
    let ?l = "take_line MAXLINE (stream rp)"
    obtain rp' where r: "rio_wf rp'" "stream rp' = drop (length ?l) (stream rp)"
        "request_read_headers fuel rp buf =
          (if ?l = crlf then Inr rp'
           else case fuel of 0 \<Rightarrow> Inl Out_of_fuel | Suc fuel \<Rightarrow> request_read_headers fuel rp' (blit buf 0 (?l @ [0])))"
      using read_headers_line [OF less.prems(1) False less.prems(2,4) refl] unfolding request_read_headers_def by blast
    show ?thesis
    proof (cases "?l = crlf")
      case True
      then show ?thesis using r False by (subst after_headers.simps) (simp add: crlf_def numeral_2_eq_2)
    next
      case nl: False
      have pos: "0 < length ?l" using take_line_pos [OF False, of MAXLINE] by simp
      have len: "length ?l < length buf" using less.prems(2,4) unfolding short_lines_def by (metis drop0)
      have lt: "length (stream rp') < length (stream rp)" using r(2) pos False by simp
      have a: "after_headers MAXLINE (stream rp) = after_headers MAXLINE (stream rp')"
        using False nl r(2) by (subst after_headers.simps) simp
      have sl: "short_lines MAXLINE (stream rp')" using less.prems(4) r(2) by (simp add: short_lines_drop)
      have b: "length (blit buf 0 (?l @ [0])) = MAXLINE" "c_streq (blit buf 0 (?l @ [0])) crlf = Inr False"
        using less.prems(2) len c_streq_blit_line [OF refl len] nl by simp_all
      show ?thesis
      proof (cases fuel)
        case 0
        then show ?thesis using r(3) nl False by (simp split: option.splits)
      next
        case (Suc f)
        have "request_read_headers fuel rp buf = request_read_headers f rp' (blit buf 0 (?l @ [0]))" using r(3) nl Suc by simp
        then show ?thesis using less.hyps [OF lt r(1) b sl, of f] lt Suc unfolding a by (auto split: option.splits)
      qed
    qed
  qed
qed


section \<open>Which files are read\<close>

lemma refuse_0: "refuse rq F name a b c = Inr (r, rq', F') \<Longrightarrow> r = 0 \<and> F' = F"
  by (auto simp: refuse_def rbind_eq_Inr)

definition served_name :: "u8 list \<Rightarrow> bool" where
  "served_name name \<longleftrightarrow> \<not> (name \<noteq> [] \<and> hd name = 47) \<and> \<not> strstr name (lit ''..'') \<and>
     strrchr name 46 \<noteq> Some (lit ''.c'') \<and> strrchr name 46 \<noteq> Some (lit ''.h'')"

lemma readfile_served:
  "served_name (file_name d) \<Longrightarrow> cell F (rq_data rq) = Some d \<Longrightarrow> rq_data rq \<noteq> 0 \<Longrightarrow>
    request_readfile site fresh rq F = read_site_file site fresh rq F (file_name d)"
  by (auto simp: request_readfile_def served_name_def Let_def)

text \<open>What is in the buffer of a file of that size.\<close>

definition file_content :: "(nat \<Rightarrow> u8) \<Rightarrow> int \<Rightarrow> read_event list \<Rightarrow> u8 list" where
  "file_content fresh n fd = take (nat n) (read_data fd) @ map fresh [min (nat n) (length (read_data fd))..<nat n]"

lemma length_file_content [simp]: "length (file_content fresh n fd) = nat n"
  by (simp add: file_content_def)

lemma Rio_read_ok: "Fail \<notin> set fd \<Longrightarrow> \<exists>fd'. Rio_read fd n = Inr (int (min n (length (read_data fd))), take n (read_data fd), fd')"
  using rio_read_from_ok [of fd n "[]"] by (auto simp: Rio_read_def rio_read_def)

lemma request_readfile_1:
  assumes "request_readfile site fresh rq F = Inr (1, rq', F')" "cell F (rq_data rq) = Some d"
  shows "served_name (file_name d) \<and> rq' = rq \<and>
    (\<exists>n fd. site (file_name d) = Regular n fd \<and> 0 \<le> c_int n \<and>
      (c_int n = 0 \<longrightarrow> F' = F\<lparr>cell := (cell F)(rq_data rq \<mapsto> d\<lparr>file_size := 0\<rparr>)\<rparr>) \<and>
      (\<forall>fd'. c_int n \<noteq> 0 \<longrightarrow> fd = Some fd' \<longrightarrow> Fail \<notin> set fd' \<longrightarrow>
        F' = F\<lparr>cell := (cell F)(rq_data rq \<mapsto> d\<lparr>file_size := c_int n, file_buf := file_content fresh (c_int n) fd'\<rparr>)\<rparr>))"
proof -
  let ?name = "file_name d"
  have nr: "refuse rq F name a b c \<noteq> Inr (1, rq', F')" for name a b c using refuse_0 [of rq F name a b c 1 rq' F'] by auto
  have nm: "served_name ?name"
    using assms nr by (auto simp: request_readfile_def served_name_def Let_def rbind_c_assert split: if_splits)
  then have eq: "Inr (1, rq', F') = read_site_file site fresh rq F ?name"
    using assms readfile_served [OF nm assms(2)] by (cases "rq_data rq = 0") (auto simp: request_readfile_def)
  show ?thesis
  proof (cases "site ?name")
    case (Regular n fd)
    note eq' = eq [unfolded read_site_file_def Regular site_file.case put_cell_Some [where f = "\<lambda>d. d\<lparr>file_size := c_int n\<rparr>", OF assms(2)] rbind_Inr]
    show ?thesis
    proof (cases "c_int n = 0")
      case True
      then show ?thesis using eq' nm Regular by simp
    next
      case False
      then obtain fd0 where fd0: "fd = Some fd0" using eq' by (cases fd) simp_all
      then have pos: "\<not> c_int n < 0" using eq' False by (intro notI) simp
      obtain k bs fd2 where r: "Rio_read fd0 (nat (c_int n)) = Inr (k, bs, fd2)"
        using eq' False fd0 pos by (cases "Rio_read fd0 (nat (c_int n))") auto
      have res: "rq' = rq" "F' = F\<lparr>cell := (cell F)(rq_data rq \<mapsto>
          d\<lparr>file_size := c_int n, file_buf := bs @ map fresh [length bs..<nat (c_int n)]\<rparr>)\<rparr>"
        using eq' False fd0 pos r by simp_all
      have "bs = take (nat (c_int n)) (read_data fd0)" if "Fail \<notin> set fd0"
        using Rio_read_ok [OF that, of "nat (c_int n)"] r by auto
      then show ?thesis using nm Regular False fd0 pos res by (auto simp: file_content_def min.commute)
    qed
  qed (use eq nr in \<open>auto simp: read_site_file_def eq_commute [of "Inr _"]\<close>)
qed


section \<open>Answers\<close>

lemma length_dec_nat: "n < 10 ^ k \<Longrightarrow> 0 < k \<Longrightarrow> length (dec_nat n) \<le> k"
proof (induction k arbitrary: n)
  case (Suc k)
  show ?case
  proof (cases "n < 10")
    case True
    then show ?thesis by (subst dec_nat.simps) simp
  next
    case False
    then have "0 < k" "n div 10 < 10 ^ k" using Suc.prems by (cases k; auto)+
    then show ?thesis using Suc.IH [of "n div 10"] False by (subst dec_nat.simps) simp
  qed
qed simp

lemma length_dec:
  assumes "- (2 ^ 31) \<le> i" "i < 2 ^ 31" shows "length (dec i) \<le> 11"
proof (cases "i < 0")
  case True
  then have "length (dec_nat (nat (- i))) \<le> 10" using assms by (intro length_dec_nat) auto
  then show ?thesis using True by (simp add: dec_def)
next
  case False
  then have "length (dec_nat (nat i)) \<le> 10" using assms by (intro length_dec_nat) auto
  then show ?thesis using False by (simp add: dec_def)
qed

lemma length_dec_u32: "length (dec_nat (unat (w :: u32))) \<le> 10"
proof -
  have "unat w < 2 ^ 32" using unsigned_less [of w] by simp
  then show ?thesis by (intro length_dec_nat) simp_all
qed

lemma length_file_type: "length (request_get_file_type name) \<le> 10"
  by (simp add: request_get_file_type_def lit_def)

lemma response_header_fits:
  assumes "- (2 ^ 31) \<le> n" "n < 2 ^ 31"
  shows "length (response_header (request_get_file_type name) n csum) < MAXBUF"
  using length_dec [OF assms] length_dec_u32 [of csum] length_file_type [of name]
  by (simp add: response_header_def lit_def crlf_def)

definition sending :: "conn \<Rightarrow> bool" where
  "sending c \<longleftrightarrow> W_fail \<notin> set (wevents (conn_out c))"

definition sent :: "conn \<Rightarrow> u8 list" where
  "sent c = written (conn_out c)"

lemma send_ok: "sending c \<Longrightarrow> \<exists>w. send c bs = Inr (c\<lparr>conn_out := w\<rparr>) \<and> sending (c\<lparr>conn_out := w\<rparr>) \<and>
    sent (c\<lparr>conn_out := w\<rparr>) = sent c @ bs"
  using rio_write_ok [of "conn_out c" bs] by (auto simp: send_def Rio_write_def sending_def sent_def)

lemma request_sendfile_ok:
  assumes "rq_data rq \<noteq> 0" "cell F (rq_data rq) = Some d" "length (file_buf d) = nat (file_size d)"
    "- (2 ^ 31) \<le> file_size d" "file_size d < 2 ^ 31" "sending (rq_fd rq)"
  shows "\<exists>w. request_sendfile rq F = Inr (rq\<lparr>rq_fd := (rq_fd rq)\<lparr>conn_out := w\<rparr>\<rparr>) \<and>
    sending ((rq_fd rq)\<lparr>conn_out := w\<rparr>) \<and>
    sent ((rq_fd rq)\<lparr>conn_out := w\<rparr>) = sent (rq_fd rq) @
      response_header (request_get_file_type (file_name d)) (file_size d) (checksum (file_buf d)) @ file_buf d"
proof -
  let ?h = "response_header (request_get_file_type (file_name d)) (file_size d) (checksum (file_buf d))"
  obtain w where w: "send (rq_fd rq) ?h = Inr ((rq_fd rq)\<lparr>conn_out := w\<rparr>)" "sending ((rq_fd rq)\<lparr>conn_out := w\<rparr>)"
      "sent ((rq_fd rq)\<lparr>conn_out := w\<rparr>) = sent (rq_fd rq) @ ?h"
    using send_ok [OF assms(6)] by blast
  have sp: "sprintf MAXBUF ?h = Inr ?h" using response_header_fits [OF assms(4,5)] by (simp add: sprintf_def)
  have buf: "take (nat (file_size d)) (file_buf d) = file_buf d" using assms(3) by simp
  show ?thesis
  proof (cases "0 < file_size d")
    case True
    obtain w' where "send ((rq_fd rq)\<lparr>conn_out := w\<rparr>) (file_buf d) = Inr ((rq_fd rq)\<lparr>conn_out := w'\<rparr>)"
        "sending ((rq_fd rq)\<lparr>conn_out := w'\<rparr>)" "sent ((rq_fd rq)\<lparr>conn_out := w'\<rparr>) = sent (rq_fd rq) @ ?h @ file_buf d"
      using send_ok [OF w(2), of "file_buf d"] w(3) by auto
    then show ?thesis using assms(1-3) w(1) sp buf True by (intro exI [of _ w']) (simp add: request_sendfile_def)
  next
    case False
    then have "file_buf d = []" using assms(3) by simp
    then show ?thesis using assms(1-3) w sp False by (intro exI [of _ w]) (simp add: request_sendfile_def)
  qed
qed

definition error_response :: "u8 list \<Rightarrow> u8 list \<Rightarrow> u8 list \<Rightarrow> u8 list \<Rightarrow> u8 list" where
  "error_response cause errnum shortmsg longmsg =
     (let body = error_body cause errnum shortmsg longmsg in
      lit ''HTTP/1.0 '' @ errnum @ lit '' '' @ shortmsg @ crlf @ lit ''Content-Type: text/html'' @ crlf @
      lit ''Content-Length: '' @ dec_nat (length body) @ crlf @
      lit ''Content-Csum: '' @ dec_nat (unat (checksum body)) @ crlf @ crlf @ body)"

lemma send_and_print_ok: "sending c \<Longrightarrow> \<exists>c'. send_and_print c bs = Inr c' \<and> sending c' \<and> sent c' = sent c @ bs \<and> conn_in c' = conn_in c \<and> closed c' = closed c"
  using send_ok [of c bs] by (auto simp: send_and_print_def sending_def sent_def)

lemma request_error_ok:
  assumes "length (error_body cause errnum shortmsg longmsg) < MAXBUF" "length errnum + length shortmsg < 8000" "sending c"
  shows "\<exists>c'. request_error c cause errnum shortmsg longmsg = Inr c' \<and> sending c' \<and>
    sent c' = sent c @ error_response cause errnum shortmsg longmsg \<and> conn_in c' = conn_in c \<and> closed c' = closed c"
proof -
  let ?b = "error_body cause errnum shortmsg longmsg"
  let ?l1 = "lit ''HTTP/1.0 '' @ errnum @ lit '' '' @ shortmsg @ crlf"
  let ?l2 = "lit ''Content-Type: text/html'' @ crlf"
  let ?l3 = "lit ''Content-Length: '' @ dec_nat (length ?b) @ crlf"
  let ?l4 = "lit ''Content-Csum: '' @ dec_nat (unat (checksum ?b)) @ crlf @ crlf"
  have sp: "sprintf MAXBUF ?b = Inr ?b" "sprintf MAXLINE ?l1 = Inr ?l1"
    using assms(1,2) by (simp_all add: sprintf_def lit_def crlf_def)
  obtain c1 where 1: "send_and_print c ?l1 = Inr c1" "sending c1" "sent c1 = sent c @ ?l1" "conn_in c1 = conn_in c" "closed c1 = closed c"
    using send_and_print_ok [OF assms(3), of ?l1] by blast
  obtain c2 where 2: "send_and_print c1 ?l2 = Inr c2" "sending c2" "sent c2 = sent c1 @ ?l2" "conn_in c2 = conn_in c1" "closed c2 = closed c1"
    using send_and_print_ok [OF 1(2), of ?l2] by blast
  obtain c3 where 3: "send_and_print c2 ?l3 = Inr c3" "sending c3" "sent c3 = sent c2 @ ?l3" "conn_in c3 = conn_in c2" "closed c3 = closed c2"
    using send_and_print_ok [OF 2(2), of ?l3] by blast
  obtain c4 where 4: "send_and_print c3 ?l4 = Inr c4" "sending c4" "sent c4 = sent c3 @ ?l4" "conn_in c4 = conn_in c3" "closed c4 = closed c3"
    using send_and_print_ok [OF 3(2), of ?l4] by blast
  obtain c5 where 5: "send_and_print c4 ?b = Inr c5" "sending c5" "sent c5 = sent c4 @ ?b" "conn_in c5 = conn_in c4" "closed c5 = closed c4"
    using send_and_print_ok [OF 4(2), of ?b] by blast
  have "request_error c cause errnum shortmsg longmsg = Inr c5"
    unfolding request_error_def sp rbind_Inr 1(1) 2(1) 3(1) 4(1) 5(1) ..
  then show ?thesis using 1 2 3 4 5 by (intro exI [of _ c5]) (simp add: error_response_def Let_def)
qed

lemma request_error_overflow:
  "MAXBUF \<le> length (error_body cause errnum shortmsg longmsg) \<Longrightarrow> request_error c cause errnum shortmsg longmsg = Inl Bad_access"
  by (simp add: request_error_def sprintf_def)

end
