(* ===== verification/Serve_Spec.thy ===== *)
theory Serve_Spec
  imports Request_Spec
begin

text \<open>
  What \<open>do_server_request\<close> answers to a GET request, whose lines may arrive in any chunks (\<open>get_request\<close>): the cached
  file, the file it reads, or an error.
\<close>

section \<open>A GET request\<close>

definition get_request :: "conn \<Rightarrow> u8 list \<Rightarrow> bool" where
  "get_request c name \<longleftrightarrow> Fail \<notin> set (conn_in c) \<and>
     (\<exists>s l m r uri r' t. s = read_data (conn_in c) \<and> l = take_line MAXLINE s \<and> s \<noteq> [] \<and> length l < MAXLINE \<and> c_string l \<and>
       next_word l = (m, r) \<and> m \<noteq> [] \<and> strcasecmp_eq m (lit ''GET'') \<and> next_word r = (uri, r') \<and> uri \<noteq> [] \<and>
       after_headers MAXLINE (drop (length l) s) = Some t \<and> short_lines MAXLINE (drop (length l) s) \<and>
       name = request_parse_URI uri MAXLINE)"

lemma request_init_ok:
  assumes g: "get_request c name" and fuel: "length (read_data (conn_in c)) \<le> fuel" and junk: "length junk = MAXLINE" "length rio_junk = RIO_BUFSIZE"
    and j: "length hjunk = MAXLINE" "c_streq hjunk crlf = Inr False" and d: "cell F data = Some d" "data \<noteq> 0"
  shows "\<exists>fd. request_init fuel junk hjunk rio_junk c F data =
    Inr (Inr \<lparr>rq_fd = c\<lparr>conn_in := fd\<rparr>, rq_data = data\<rparr>, F\<lparr>cell := (cell F)(data \<mapsto> \<lparr>file_name = name, file_buf = [], file_size = 0\<rparr>)\<rparr>)"
proof -
  obtain s l m r uri r' t where s: "s = read_data (conn_in c)" "l = take_line MAXLINE s" "s \<noteq> []" "length l < MAXLINE" "c_string l"
      "next_word l = (m, r)" "m \<noteq> []" "strcasecmp_eq m (lit ''GET'')" "next_word r = (uri, r')" "uri \<noteq> []"
      "after_headers MAXLINE (drop (length l) s) = Some t" "short_lines MAXLINE (drop (length l) s)" "name = request_parse_URI uri MAXLINE"
    using g unfolding get_request_def by blast
  let ?rp = "\<lparr>rio_fd = conn_in c, rio_cnt = 0, rio_bufptr = 0, rio_buf = rio_junk\<rparr>"
  have wf: "rio_wf ?rp" using g junk by (simp add: rio_wf_def get_request_def)
  have st: "stream ?rp = s" using s(1) by (simp add: stream_def unread_def bslice_def)
  obtain rp1 where r1: "Rio_readlineb ?rp junk MAXLINE = Inr (int (length l), blit junk 0 (l @ [0]), rp1)" "rio_wf rp1"
      "stream rp1 = drop (length l) s"
    using Rio_readlineb_line [OF wf, of l MAXLINE junk] s(2-4) st junk(1) by auto
  have cs: "c_str (blit junk 0 (l @ [0])) = Inr l" using s(4,5) junk(1) by (simp add: blit_def)
  have "length (stream rp1) \<le> fuel" using fuel r1(3) s(1) by simp
  then obtain rp2 where r2: "request_read_headers fuel rp1 hjunk = Inr rp2"
    using request_read_headers_ok [OF r1(2) j, of fuel] s(11,12) r1(3) by auto
  show ?thesis
    using d r1(1) cs s(6-10,13) r2
    by (cases d, intro exI [of _ "rio_fd rp2"]) (simp add: request_init_def Rio_init_def sscanf_word_def)
qed

lemma cache_ok_mono:
  assumes "cache_ok ht F fs" "\<And>a d. cell F a = Some d \<Longrightarrow> cell F' a = Some d"
  shows "cache_ok ht F' fs"
proof -
  obtain L T where R: "cache_rep ht F L T" "map (dat (ents ht)) L = fs"
      "\<forall>k. bucket_files ht T k = {f \<in> set fs. hash (name_of F f) = k}"
    by (rule cache_okD [OF assms(1)])
  have e: "cell F' f = cell F f" if "f \<in> set fs" for f using assms that unfolding cache_ok_def by (metis not_None_eq)
  then have same: "name_of F' f = name_of F f" "size_of F' f = size_of F f" if "f \<in> set fs" for f
    using that by (simp_all add: name_of_def size_of_def)
  have "cache_rep ht F' L T" using R(1) assms(2) unfolding cache_rep_def by meson
  moreover have "\<forall>k. bucket_files ht T k = {f \<in> set fs. hash (name_of F' f) = k}" using R(3) same by auto
  moreover have "inj_on (name_of F') (set fs)" using assms(1) same by (simp add: cache_ok_def inj_on_def)
  moreover have "sum_list (map (size_of F') fs) = sum_list (map (size_of F) fs)" using same by (simp cong: map_cong)
  moreover have "\<forall>f\<in>set fs. cell F' f \<noteq> None \<and> 0 \<le> size_of F' f" using assms(1) e same(2) unfolding cache_ok_def by simp
  ultimately show ?thesis using assms(1) R(2) unfolding cache_ok_def by auto
qed

text \<open>Up to the look-up in the cache.\<close>

definition with_request :: "file_data cells \<Rightarrow> u8 list \<Rightarrow> file_data cells" where
  "with_request F name =
     \<lparr>cell = (cell F)(next_cell F \<mapsto> \<lparr>file_name = name, file_buf = [], file_size = 0\<rparr>), next_cell = Suc (next_cell F)\<rparr>"

lemma serve_prefix:
  assumes "get_request c name" "length (read_data (conn_in c)) \<le> fuel" "length junk = MAXLINE" "length rio_junk = RIO_BUFSIZE"
    "length hjunk = MAXLINE" "c_streq hjunk crlf = Inr False" "cells_wf F" "0 < mc"
  shows "\<exists>fd. do_server_request fuel junk hjunk rio_junk site fresh mc ht F c =
    rbind (cache_lookup ht (with_request F name) (next_cell F) 0)
      (answer_request site fresh mc (next_cell F) \<lparr>rq_fd = c\<lparr>conn_in := fd\<rparr>, rq_data = next_cell F\<rparr> (with_request F name))"
proof -
  define F0 where "F0 = snd (file_data_init F)"
  have F: "file_data_init F = (next_cell F, F0)" "cell F0 (next_cell F) = Some \<lparr>file_name = [], file_buf = [], file_size = 0\<rparr>"
    "F0\<lparr>cell := (cell F0)(next_cell F \<mapsto> \<lparr>file_name = name, file_buf = [], file_size = 0\<rparr>)\<rparr> = with_request F name"
    by (simp_all add: F0_def file_data_init_def new_cell_def with_request_def)
  have "next_cell F \<noteq> 0" using assms(7) by (simp add: cells_wf_def)
  then obtain fd where "request_init fuel junk hjunk rio_junk c F0 (next_cell F) =
      Inr (Inr \<lparr>rq_fd = c\<lparr>conn_in := fd\<rparr>, rq_data = next_cell F\<rparr>, with_request F name)"
    using request_init_ok [OF assms(1-6) F(2)] F(3) by auto
  then show ?thesis using F(1) assms(8) by (intro exI [of _ fd]) (simp add: do_server_request_def)
qed

lemma cell_with_request [simp]:
  "cell (with_request F name) (next_cell F) = Some \<lparr>file_name = name, file_buf = [], file_size = 0\<rparr>"
  "a \<noteq> next_cell F \<Longrightarrow> cell (with_request F name) a = cell F a"
  by (simp_all add: with_request_def)

lemma cache_ok_with_request:
  assumes "cache_ok ht F fs" "cells_wf F"
  shows "cache_ok ht (with_request F name) fs"
proof (rule cache_ok_mono [OF assms(1)])
  fix a d assume a: "cell F a = Some d"
  then have "a \<noteq> next_cell F" using cells_wf_none(2) [OF assms(2)] by auto
  then show "cell (with_request F name) a = Some d" using a by simp
qed

section \<open>Answers\<close>

text \<open>The answer with a file.\<close>

definition file_response :: "file_data \<Rightarrow> u8 list" where
  "file_response d = response_header (request_get_file_type (file_name d)) (file_size d) (checksum (file_buf d)) @ file_buf d"

definition file_ok :: "file_data \<Rightarrow> bool" where
  "file_ok d \<longleftrightarrow> length (file_buf d) = nat (file_size d) \<and> - (2 ^ 31) \<le> file_size d \<and> file_size d < 2 ^ 31"

definition with_file :: "file_data cells \<Rightarrow> file_data \<Rightarrow> file_data cells" where
  "with_file F d = \<lparr>cell = (cell F)(next_cell F \<mapsto> d), next_cell = Suc (next_cell F)\<rparr>"

lemma cell_with_file [simp]:
  "cell (with_file F d) (next_cell F) = Some d" "a \<noteq> next_cell F \<Longrightarrow> cell (with_file F d) a = cell F a"
  by (simp_all add: with_file_def)

lemma with_request_file: "with_request F name = with_file F \<lparr>file_name = name, file_buf = [], file_size = 0\<rparr>"
  by (simp add: with_request_def with_file_def)

lemma cache_ok_with_file:
  assumes "cache_ok ht F fs" "cells_wf F"
  shows "cache_ok ht (with_file F d) fs"
proof (rule cache_ok_mono [OF assms(1)])
  fix a d' assume a: "cell F a = Some d'"
  then have "a \<noteq> next_cell F" using cells_wf_none(2) [OF assms(2)] by auto
  then show "cell (with_file F d) a = Some d'" using a by simp
qed

lemma cached_allocated: "cache_ok ht F fs \<Longrightarrow> cells_wf F \<Longrightarrow> f \<in> set fs \<Longrightarrow> f \<noteq> next_cell F \<and> f \<noteq> 0"
  using cells_wf_none [of F] by (force simp: cache_ok_def)

lemma name_of_with_file: "cache_ok ht F fs \<Longrightarrow> cells_wf F \<Longrightarrow> f \<in> set fs \<Longrightarrow> name_of (with_file F d) f = name_of F f"
  using cached_allocated by (simp add: name_of_def)

lemma not_cached:
  assumes "cache_ok ht F fs" "cells_wf F" "\<forall>f\<in>set fs. name_of F f \<noteq> file_name d"
  shows "cache_lookup ht (with_file F d) (next_cell F) time = Inr (0, ht)"
proof -
  have "\<not> (\<exists>f\<in>set fs. name_of (with_file F d) f = file_name d)" using assms name_of_with_file [OF assms(1,2)] by simp
  then show ?thesis using cache_lookup_ok [OF cache_ok_with_file [OF assms(1,2), of d], of "next_cell F" d time] by auto
qed

lemma sendfile_response:
  assumes "rq_data rq \<noteq> 0" "cell F (rq_data rq) = Some d" "file_ok d" "sending (rq_fd rq)"
  shows "\<exists>rq'. request_sendfile rq F = Inr rq' \<and> rq_data rq' = rq_data rq \<and> sending (rq_fd rq') \<and>
    sent (rq_fd rq') = sent (rq_fd rq) @ file_response d"
proof -
  obtain w where "request_sendfile rq F = Inr (rq\<lparr>rq_fd := (rq_fd rq)\<lparr>conn_out := w\<rparr>\<rparr>)" "sending ((rq_fd rq)\<lparr>conn_out := w\<rparr>)"
      "sent ((rq_fd rq)\<lparr>conn_out := w\<rparr>) = sent (rq_fd rq) @ file_response d"
    using request_sendfile_ok [OF assms(1,2) _ _ _ assms(4)] assms(3) by (auto simp: file_ok_def file_response_def)
  then show ?thesis by (intro exI [of _ "rq\<lparr>rq_fd := (rq_fd rq)\<lparr>conn_out := w\<rparr>\<rparr>"]) simp
qed

lemma sent_conn_in [simp]: "sent (c\<lparr>conn_in := fd\<rparr>) = sent c" "sending (c\<lparr>conn_in := fd\<rparr>) = sending c"
  by (simp_all add: sent_def sending_def)

lemma request_destroy_sel [simp]: "closed (request_destroy rq)" "sent (request_destroy rq) = sent (rq_fd rq)"
  by (simp_all add: request_destroy_def sent_def)

lemma answer_hit:
  assumes "f \<noteq> 0" "cell F f = Some d" "file_ok d" "sending (rq_fd rq)"
  shows "\<exists>c'. answer_request site fresh mc data rq F (f, ht) = Inr (ht, F, c') \<and> closed c' \<and> sent c' = sent (rq_fd rq) @ file_response d"
proof -
  obtain rq' where "request_sendfile (request_set_data rq f) F = Inr rq'" "sent (rq_fd rq') = sent (rq_fd rq) @ file_response d"
    using sendfile_response [of "request_set_data rq f" F d] assms by (auto simp: request_set_data_def)
  then show ?thesis using assms(1) by (simp add: answer_request_def)
qed

text \<open>After the file has been read or refused: it is sent as it is, and cached.\<close>

lemma answer_miss:
  assumes C: "cache_ok ht F fs" "cells_wf F" "0 < mc" "\<forall>f\<in>set fs. name_of F f \<noteq> name"
    and rd: "request_readfile site fresh rq (with_request F name) = Inr (r, rq1, with_file F d)"
    and d: "file_name d = name" "file_ok d" "0 \<le> file_size d" "separate F fs"
    and rq: "rq_data rq1 = next_cell F" "sending (rq_fd rq1)"
  shows "\<exists>ht' c'. answer_request site fresh mc (next_cell F) rq (with_request F name) (0, ht) = Inr (ht', with_file F d, c') \<and>
    closed c' \<and> sent c' = sent (rq_fd rq1) @ file_response d \<and>
    cache_ok ht' (with_file F d) (lru_insert (size_of (with_file F d)) (cache_size ht) (available_cache_size ht) (next_cell F) fs)"
proof -
  have n0: "next_cell F \<noteq> 0" using C(2) by (simp add: cells_wf_def)
  obtain rq2 where s: "request_sendfile rq1 (with_file F d) = Inr rq2" "sent (rq_fd rq2) = sent (rq_fd rq1) @ file_response d"
    using sendfile_response [of rq1 "with_file F d" d] rq d(2) n0 by auto
  have l: "cache_lookup ht (with_file F d) (next_cell F) 1 = Inr (0, ht)" using not_cached [OF C(1,2)] C(4) d(1) by simp
  have nm: "\<forall>f\<in>set fs. name_of (with_file F d) f = name_of F f" using name_of_with_file [OF C(1,2)] by blast
  then have new: "\<forall>f\<in>set fs. name_of (with_file F d) f \<noteq> file_name d" using C(4) d(1) by simp
  have sep: "separate (with_file F d) fs" using d(4) nm by (simp add: separate_def inj_on_def)
  obtain ht' where i: "cache_insert ht (with_file F d) (next_cell F) = Inr ht'"
      "cache_ok ht' (with_file F d) (lru_insert (size_of (with_file F d)) (cache_size ht) (available_cache_size ht) (next_cell F) fs)"
    using cache_insert_ok [OF cache_ok_with_file [OF C(1,2)] _ d(3) new separate_leaving [OF sep], of "next_cell F"] by auto
  show ?thesis
    using rd s l i C(3) by (intro exI [of _ ht'] exI [of _ "request_destroy rq2"]) (simp add: answer_request_def)
qed

section \<open>What is read\<close>

lemma put_with_request [simp]:
  "put_cell (with_file F d) (next_cell F) g = Inr (with_file F (g d))"
  by (simp add: put_cell_def with_file_def)

lemma readfile_regular:
  assumes "rq_data rq = next_cell F" "next_cell F \<noteq> 0" "served_name name" "site name = Regular n (Some fd)" "Fail \<notin> set fd" "0 < c_int n"
  shows "request_readfile site fresh rq (with_request F name) =
    Inr (1, rq, with_file F \<lparr>file_name = name, file_buf = file_content fresh (c_int n) fd, file_size = c_int n\<rparr>)"
proof -
  obtain fd' where r: "Rio_read fd (nat (c_int n)) = Inr (int (min (nat (c_int n)) (length (read_data fd))), take (nat (c_int n)) (read_data fd), fd')"
    using Rio_read_ok [OF assms(5)] by blast
  have "request_readfile site fresh rq (with_request F name) = read_site_file site fresh rq (with_request F name) name"
    using readfile_served [of "\<lparr>file_name = name, file_buf = [], file_size = 0\<rparr>" "with_request F name" rq] assms(1-3) by simp
  then show ?thesis
    using assms(1,4,6) r by (simp add: read_site_file_def with_request_file file_content_def min.commute)
qed

definition not_found :: "u8 list \<Rightarrow> u8 list" where
  "not_found name = error_response name (lit ''404'') (lit ''Not found'') (lit ''OS Web Server could not find this file'')"

lemma error_body_fits:
  "length name < 8000 \<Longrightarrow> length (error_body name (lit ''404'') (lit ''Not found'') (lit ''OS Web Server could not find this file'')) < MAXBUF"
  by (simp add: error_body_def lit_def crlf_def)

lemma readfile_missing:
  assumes "rq_data rq = next_cell F" "next_cell F \<noteq> 0" "served_name name" "site name = Missing" "length name < 8000" "sending (rq_fd rq)"
  shows "\<exists>rq'. request_readfile site fresh rq (with_request F name) = Inr (0, rq', with_request F name) \<and> rq_data rq' = rq_data rq \<and>
    sending (rq_fd rq') \<and> sent (rq_fd rq') = sent (rq_fd rq) @ not_found name"
proof -
  obtain c' where c': "request_error (rq_fd rq) name (lit ''404'') (lit ''Not found'') (lit ''OS Web Server could not find this file'') = Inr c'"
      "sending c'" "sent c' = sent (rq_fd rq) @ not_found name"
    using request_error_ok [OF error_body_fits [OF assms(5)] _ assms(6)] by (auto simp: not_found_def lit_def)
  have "request_readfile site fresh rq (with_request F name) = read_site_file site fresh rq (with_request F name) name"
    using readfile_served [of "\<lparr>file_name = name, file_buf = [], file_size = 0\<rparr>" "with_request F name" rq] assms(1-3) by simp
  then show ?thesis
    using assms(4) c' by (intro exI [of _ "rq\<lparr>rq_fd := c'\<rparr>"]) (simp add: read_site_file_def refuse_def)
qed

end
