(* ===== verification/Serve.thy ===== *)
theory Serve
  imports Serve_Spec
begin

text \<open>
  The properties of the request handling of the web server, webserver/request.c and \<open>do_server_request\<close>, over the model's
  definitions, with a small request as the example.
\<close>

definition ready :: "nat \<Rightarrow> u8 list \<Rightarrow> u8 list \<Rightarrow> u8 list \<Rightarrow> conn \<Rightarrow> u8 list \<Rightarrow> bool" where
  "ready fuel junk hjunk rio_junk c name \<longleftrightarrow> get_request c name \<and> length (read_data (conn_in c)) \<le> fuel \<and> length junk = MAXLINE \<and>
     length rio_junk = RIO_BUFSIZE \<and> length hjunk = MAXLINE \<and> c_streq hjunk crlf = Inr False \<and> sending c"

lemma readyD:
  assumes "ready fuel junk hjunk rio_junk c name"
  shows "get_request c name" "length (read_data (conn_in c)) \<le> fuel" "length junk = MAXLINE" "length rio_junk = RIO_BUFSIZE"
    "length hjunk = MAXLINE" "c_streq hjunk crlf = Inr False" "sending c"
  using assms unfolding ready_def by blast+

lemma serve_hit:
  assumes R: "ready fuel junk hjunk rio_junk c name" and C: "cache_ok ht F fs" "cells_wf F" "0 < mc"
    and f: "f \<in> set fs" "cell F f = Some d" "file_name d = name" "file_ok d"
  shows "\<exists>ht' F' c'. do_server_request fuel junk hjunk rio_junk site fresh mc ht F c = Inr (ht', F', c') \<and> closed c' \<and>
    sent c' = sent c @ file_response d \<and> cache_ok ht' F' (remove1 f fs @ [f])"
proof -
  let ?F = "with_request F name"
  obtain fd where p: "do_server_request fuel junk hjunk rio_junk site fresh mc ht F c = rbind (cache_lookup ht ?F (next_cell F) 0)
      (answer_request site fresh mc (next_cell F) \<lparr>rq_fd = c\<lparr>conn_in := fd\<rparr>, rq_data = next_cell F\<rparr> ?F)"
    using serve_prefix [OF readyD(1-6) [OF R] C(2,3)] by blast
  have C': "cache_ok ht ?F fs" by (rule cache_ok_with_request [OF C(1,2)])
  note al = cached_allocated [OF C(1,2)]
  have df: "cell ?F f = Some d" "name_of ?F f = name" using f al [OF f(1)] by (simp_all add: name_of_def)
  then have "\<exists>g\<in>set fs. name_of ?F g = name" using f(1) by blast
  then obtain g ht' where g: "g \<in> set fs" "name_of ?F g = name" "cache_lookup ht ?F (next_cell F) 0 = Inr (g, ht')"
      "cache_ok ht' ?F (remove1 g fs @ [g])"
    using cache_lookup_ok [OF C', of "next_cell F" "\<lparr>file_name = name, file_buf = [], file_size = 0\<rparr>" 0] by auto
  have "g = f" using g(1,2) f(1) df(2) C' by (auto simp: cache_ok_def inj_on_def)
  moreover have "\<exists>c'. answer_request site fresh mc (next_cell F) \<lparr>rq_fd = c\<lparr>conn_in := fd\<rparr>, rq_data = next_cell F\<rparr> ?F (f, ht') =
      Inr (ht', ?F, c') \<and> closed c' \<and> sent c' = sent c @ file_response d"
    using answer_hit [OF conjunct2 [OF al [OF f(1)]] df(1) f(4), of "\<lparr>rq_fd = c\<lparr>conn_in := fd\<rparr>, rq_data = next_cell F\<rparr>"
        site fresh mc "next_cell F" ht'] readyD(7) [OF R] by simp
  ultimately show ?thesis using p g(3,4) by auto
qed

lemma serve_miss:
  assumes R: "ready fuel junk hjunk rio_junk c name" and C: "cache_ok ht F fs" "cells_wf F" "0 < mc" "\<forall>f\<in>set fs. name_of F f \<noteq> name"
    and rd: "\<And>fd. \<exists>r rq1. request_readfile site fresh \<lparr>rq_fd = c\<lparr>conn_in := fd\<rparr>, rq_data = next_cell F\<rparr> (with_request F name) =
        Inr (r, rq1, with_file F d) \<and> rq_data rq1 = next_cell F \<and> sending (rq_fd rq1) \<and> sent (rq_fd rq1) = sent c @ err"
    and d: "file_name d = name" "file_ok d" "0 \<le> file_size d" "separate F fs"
  shows "\<exists>ht' c'. do_server_request fuel junk hjunk rio_junk site fresh mc ht F c = Inr (ht', with_file F d, c') \<and> closed c' \<and>
    sent c' = sent c @ err @ file_response d \<and>
    cache_ok ht' (with_file F d) (lru_insert (size_of (with_file F d)) (cache_size ht) (available_cache_size ht) (next_cell F) fs)"
proof -
  let ?F = "with_request F name"
  obtain fd where p: "do_server_request fuel junk hjunk rio_junk site fresh mc ht F c = rbind (cache_lookup ht ?F (next_cell F) 0)
      (answer_request site fresh mc (next_cell F) \<lparr>rq_fd = c\<lparr>conn_in := fd\<rparr>, rq_data = next_cell F\<rparr> ?F)"
    using serve_prefix [OF readyD(1-6) [OF R] C(2,3)] by blast
  obtain r rq1 where r: "request_readfile site fresh \<lparr>rq_fd = c\<lparr>conn_in := fd\<rparr>, rq_data = next_cell F\<rparr> ?F = Inr (r, rq1, with_file F d)"
      "rq_data rq1 = next_cell F" "sending (rq_fd rq1)" "sent (rq_fd rq1) = sent c @ err"
    using rd [of fd] by blast
  have l: "cache_lookup ht ?F (next_cell F) 0 = Inr (0, ht)"
    unfolding with_request_file by (rule not_cached [OF C(1,2)]) (use C(4) in simp)
  show ?thesis using answer_miss [OF C r(1) d r(2,3)] p l r(4) by auto
qed

section \<open>An example\<close>

definition get_a :: conn where
  "get_a = \<lparr>conn_in = [Chunk 71 [69, 84], Intr, Chunk 32 [97, 32, 120, 13, 10, 13], Chunk 10 []],
     conn_out = \<lparr>written = [], wevents = [Wrote 0, W_intr]\<rparr>, closed = False, console = []\<rparr>"

lemma take_line_numeral [simp]:
  "take_line (numeral k) [] = []" "take_line (numeral k) (c # cs) = (if c = 10 then [c] else c # take_line (pred_numeral k) cs)"
  by (simp_all add: numeral_eq_Suc)

lemma length_take_line_le: "length (take_line m s) \<le> length s"
  using arg_cong [OF take_line_prefix [of m s], of length] by simp

lemma short_linesI: "length s < m \<Longrightarrow> short_lines m s"
  unfolding short_lines_def using length_take_line_le by (metis drop_eq_Nil2 length_drop diff_le_self le_less_trans)

lemma get_a_name: "request_parse_URI [97] MAXLINE = [46, 47, 97]"
  by (simp add: request_parse_URI_def lit_def)

lemma get_a_ready: "ready 20 (replicate MAXLINE 0) (replicate MAXLINE 0) (replicate RIO_BUFSIZE 0) get_a [46, 47, 97]"
proof -
  let ?s = "[71, 69, 84, 32, 97, 32, 120, 13, 10, 13, 10] :: u8 list" and ?l = "[71, 69, 84, 32, 97, 32, 120, 13, 10] :: u8 list"
  have s: "read_data (conn_in get_a) = ?s" by (simp add: get_a_def)
  have l: "take_line MAXLINE ?s = ?l" by simp
  have w: "next_word ?l = ([71, 69, 84], [32, 97, 32, 120, 13, 10])" "next_word [32, 97, 32, 120, 13, 10] = ([97], [32, 120, 13, 10])"
    by (simp_all add: next_word_def is_space_def)
  have a: "after_headers MAXLINE (drop (length ?l) ?s) = Some []"
    by (subst after_headers.simps) (simp add: crlf_def)
  have sh: "short_lines MAXLINE (drop (length ?l) ?s)" by (rule short_linesI) simp
  have g: "Fail \<notin> set (conn_in get_a)" "?s = read_data (conn_in get_a)" "?l = take_line MAXLINE ?s" "?s \<noteq> []" "length ?l < MAXLINE"
    "c_string ?l" "[71, 69, 84] \<noteq> ([] :: u8 list)" "strcasecmp_eq [71, 69, 84] (lit ''GET'')" "[97] \<noteq> ([] :: u8 list)"
    "[46, 47, 97] = request_parse_URI [97] MAXLINE"
    using s l get_a_name by (simp_all add: get_a_def c_string_def strcasecmp_eq_def lit_def)
  have "get_request get_a [46, 47, 97]"
    unfolding get_request_def
    by (rule conjI [OF g(1)], intro exI conjI) (fact g(2) g(3) g(4) g(5) g(6) w(1) g(7) g(8) w(2) g(9) a sh g(10))+
  moreover have "c_streq (replicate MAXLINE 0) crlf = Inr False" 
  proof -
    have "replicate MAXLINE 0 = 0 # replicate 8191 (0 :: u8)" using replicate_Suc [of 8191 "0 :: u8"] by simp
    then show ?thesis by (simp only: c_streq.simps crlf_def) simp
  qed
  moreover have "sending get_a" by (simp add: get_a_def sending_def)
  ultimately show ?thesis using s by (simp add: ready_def)
qed


section \<open>Properties\<close>

text \<open>A request for a cached file is answered with the response header and the bytes that are cached, however the lines of the request
  arrive and however the writes are split; the connection is closed and the file is the most recently used one.\<close>

theorem do_server_request_hit:
  assumes "ready fuel junk hjunk rio_junk c name" "cache_ok ht F fs" "cells_wf F" "0 < mc"
    "f \<in> set fs" "cell F f = Some d" "file_name d = name" "file_ok d"
  shows "\<exists>ht' F' c'. do_server_request fuel junk hjunk rio_junk site fresh mc ht F c = Inr (ht', F', c') \<and> closed c' \<and>
    sent c' = sent c @ file_response d \<and> cache_ok ht' F' (remove1 f fs @ [f])"
  by (rule serve_hit [OF assms])

text \<open>A request for a file that is not cached and can be read is answered with its bytes, the length and checksum of the header being those of
  the bytes, and the file enters the cache as \<open>lru_insert\<close> says.\<close>

theorem do_server_request_miss:
  assumes "ready fuel junk hjunk rio_junk c name" "cache_ok ht F fs" "cells_wf F" "0 < mc" "\<forall>f\<in>set fs. name_of F f \<noteq> name"
    "separate F fs" "served_name name" "site name = Regular n (Some fd)" "Fail \<notin> set fd" "0 < c_int n"
    "d = \<lparr>file_name = name, file_buf = file_content fresh (c_int n) fd, file_size = c_int n\<rparr>"
  shows "\<exists>ht' c'. do_server_request fuel junk hjunk rio_junk site fresh mc ht F c = Inr (ht', with_file F d, c') \<and> closed c' \<and>
    sent c' = sent c @ file_response d \<and>
    cache_ok ht' (with_file F d) (lru_insert (size_of (with_file F d)) (cache_size ht) (available_cache_size ht) (next_cell F) fs)"
proof -
  have n0: "next_cell F \<noteq> 0" using assms(3) by (simp add: cells_wf_def)
  have rd: "\<exists>r rq1. request_readfile site fresh \<lparr>rq_fd = c\<lparr>conn_in := fd'\<rparr>, rq_data = next_cell F\<rparr> (with_request F name) =
        Inr (r, rq1, with_file F d) \<and> rq_data rq1 = next_cell F \<and> sending (rq_fd rq1) \<and> sent (rq_fd rq1) = sent c @ []" for fd'
    using readfile_regular [where site = site and fresh = fresh and rq = "\<lparr>rq_fd = c\<lparr>conn_in := fd'\<rparr>, rq_data = next_cell F\<rparr>",
        OF _ n0 assms(7-10)] readyD(7) [OF assms(1)] assms(11) by simp
  have d: "file_name d = name" "file_ok d" "0 \<le> file_size d"
    using assms(10,11) c_int_range [of n] by (simp_all add: file_ok_def)
  show ?thesis using serve_miss [OF assms(1-5) rd d assms(6)] by simp
qed

text \<open>C30.
  The code ignores the result of \<open>request_readfile\<close>: a request for a file that is not there is answered with the error and then with a second response
  of status 200 without bytes, and the empty file data is cached, so that the next request for the
  name is answered with status 200 only.\<close>

theorem do_server_request_missing:
  assumes "ready fuel junk hjunk rio_junk c name" "cache_ok ht F fs" "cells_wf F" "0 < mc" "\<forall>f\<in>set fs. name_of F f \<noteq> name"
    "separate F fs" "served_name name" "site name = Missing" "length name < 8000" "0 \<le> cache_size ht"
    "d = \<lparr>file_name = name, file_buf = [], file_size = 0\<rparr>" "ready fuel junk hjunk rio_junk c2 name"
  shows "\<exists>ht1 F1 c1 ht2 F2 c2'. do_server_request fuel junk hjunk rio_junk site fresh mc ht F c = Inr (ht1, F1, c1) \<and>
    sent c1 = sent c @ not_found name @ file_response d \<and>
    do_server_request fuel junk hjunk rio_junk site fresh mc ht1 F1 c2 = Inr (ht2, F2, c2') \<and> sent c2' = sent c2 @ file_response d"
proof -
  have n0: "next_cell F \<noteq> 0" using assms(3) by (simp add: cells_wf_def)
  have rd: "\<exists>r rq1. request_readfile site fresh \<lparr>rq_fd = c\<lparr>conn_in := fd'\<rparr>, rq_data = next_cell F\<rparr> (with_request F name) =
        Inr (r, rq1, with_file F d) \<and> rq_data rq1 = next_cell F \<and> sending (rq_fd rq1) \<and> sent (rq_fd rq1) = sent c @ not_found name" for fd'
    using readfile_missing [where site = site and fresh = fresh and rq = "\<lparr>rq_fd = c\<lparr>conn_in := fd'\<rparr>, rq_data = next_cell F\<rparr>",
        OF _ n0 assms(7-9)] readyD(7) [OF assms(1)] assms(11) by (auto simp: with_request_file)
  have d: "file_name d = name" "file_ok d" "0 \<le> file_size d" using assms(11) by (simp_all add: file_ok_def)
  let ?fs = "lru_insert (size_of (with_file F d)) (cache_size ht) (available_cache_size ht) (next_cell F) fs"
  obtain ht1 c1 where 1: "do_server_request fuel junk hjunk rio_junk site fresh mc ht F c = Inr (ht1, with_file F d, c1)"
      "sent c1 = sent c @ not_found name @ file_response d" "cache_ok ht1 (with_file F d) ?fs"
    using serve_miss [OF assms(1-5) rd d assms(6)] by blast
  have wf: "cells_wf (with_file F d)" unfolding with_file_def by (rule cells_wf_new [OF assms(3)])
  have "\<not> 2 * size_of (with_file F d) (next_cell F) > cache_size ht" using assms(10,11) by (simp add: size_of_def)
  then have in_fs: "next_cell F \<in> set ?fs" by (simp add: lru_insert_def)
  show ?thesis using 1 serve_hit [OF assms(12) 1(3) wf assms(4) in_fs, of d] d by fastforce
qed

text \<open>C31.
  \<open>request_readfile\<close> succeeds only for names without a leading slash, without \<open>..\<close> and without the ending of a C source or header file, and for regular files
  that are there; what it stores has the size that it stores, the bytes of the file first.\<close>

theorem request_readfile_safe:
  assumes "request_readfile site fresh rq F = Inr (1, rq', F')" "cell F (rq_data rq) = Some d"
  shows "served_name (file_name d) \<and> rq' = rq \<and>
    (\<exists>n fd. site (file_name d) = Regular n fd \<and> 0 \<le> c_int n \<and>
      (c_int n = 0 \<longrightarrow> F' = F\<lparr>cell := (cell F)(rq_data rq \<mapsto> d\<lparr>file_size := 0\<rparr>)\<rparr>) \<and>
      (\<forall>fd'. c_int n \<noteq> 0 \<longrightarrow> fd = Some fd' \<longrightarrow> Fail \<notin> set fd' \<longrightarrow>
        F' = F\<lparr>cell := (cell F)(rq_data rq \<mapsto> d\<lparr>file_size := c_int n, file_buf := file_content fresh (c_int n) fd'\<rparr>)\<rparr>))"
  by (rule request_readfile_1 [OF assms])


text \<open>A line is read the same whatever chunks it arrives in: \<open>Rio_readlineb\<close> stores the next line of the stream, to the newline or
  \<open>maxlen\<close> bytes, with a NUL, and leaves the rest.\<close>

theorem Rio_readlineb_spec:
  assumes "rio_wf rp" "stream rp \<noteq> []" "l = take_line maxlen (stream rp)" "length l < length buf" "0 < maxlen"
  shows "\<exists>rp'. Rio_readlineb rp buf maxlen = Inr (int (length l), blit buf 0 (l @ [0]), rp') \<and> rio_wf rp' \<and>
    stream rp' = drop (length l) (stream rp)"
  by (rule Rio_readlineb_line [OF assms])

text \<open>A line of \<open>maxlen\<close> bytes without a newline is stored with its NUL one byte behind the buffer of \<open>maxlen\<close> bytes that every
  caller in the server passes.\<close>

theorem Rio_readlineb_overflow:
  assumes "rio_wf rp" "length buf = maxlen" "maxlen \<le> length (stream rp)" "10 \<notin> set (take maxlen (stream rp))"
  shows "Rio_readlineb rp buf maxlen = Inl Bad_access"
  using rio_readlineb_full [of rp buf maxlen 0] assms by (simp add: Rio_readlineb_def)


lemma zeros_not_crlf: "c_streq (replicate MAXLINE 0) crlf = Inr False"
  using get_a_ready by (simp add: ready_def)

definition site_a :: "u8 list \<Rightarrow> site_file" where
  "site_a name = (if name = [46, 47, 97] then Regular 2 (Some [Intr, Chunk 104 [], Chunk 105 []]) else Missing)"

lemma served_a: "served_name [46, 47, 97]"
  by (simp add: served_name_def lit_def)

theorem do_server_request_miss_witness:
  "\<exists>ht' F' c'. do_server_request 20 (replicate MAXLINE 0) (replicate MAXLINE 0) (replicate RIO_BUFSIZE 0) site_a (\<lambda>_. 0) 1 (init_cache 100) no_cells get_a = Inr (ht', F', c') \<and>
    sent c' = file_response \<lparr>file_name = [46, 47, 97], file_buf = [104, 105], file_size = 2\<rparr> \<and> cache_ok ht' F' [1]"
proof -
  have C: "cache_ok (init_cache 100) no_cells []" by (rule init_cache_ok) simp_all
  have n: "next_cell (no_cells :: file_data cells) = 1" by (simp add: no_cells_def)
  have two: "c_int 2 = 2" by (simp add: c_int_id)
  have fc: "file_content (\<lambda>_. 0) 2 [Intr, Chunk 104 [], Chunk 105 []] = [104, 105]" by (simp add: file_content_def)
  let ?d = "\<lparr>file_name = [46, 47, 97], file_buf = [104, 105], file_size = 2\<rparr>"
  obtain ht' c' where "do_server_request 20 (replicate MAXLINE 0) (replicate MAXLINE 0) (replicate RIO_BUFSIZE 0) site_a (\<lambda>_. 0) 1 (init_cache 100) no_cells get_a =
        Inr (ht', with_file no_cells ?d, c')" "sent c' = sent get_a @ file_response ?d"
      "cache_ok ht' (with_file no_cells ?d) (lru_insert (size_of (with_file no_cells ?d)) (cache_size (init_cache 100))
        (available_cache_size (init_cache 100)) (next_cell (no_cells :: file_data cells)) [])"
    using do_server_request_miss [OF get_a_ready C, of 1 site_a 2 "[Intr, Chunk 104 [], Chunk 105 []]" ?d "\<lambda>_. 0"]
    by (auto simp: separate_def served_a site_a_def two fc)
  moreover have "size_of (with_file no_cells ?d) 1 = 2" using cell_with_file(1) [of no_cells ?d] n by (simp add: size_of_def)
  ultimately show ?thesis using n by (auto simp: lru_insert_def init_cache_def get_a_def sent_def)
qed

theorem do_server_request_missing_witness:
  "\<exists>ht1 F1 c1 ht2 F2 c2. do_server_request 20 (replicate MAXLINE 0) (replicate MAXLINE 0) (replicate RIO_BUFSIZE 0) (\<lambda>_. Missing) (\<lambda>_. 0) 1 (init_cache 100) no_cells get_a = Inr (ht1, F1, c1) \<and>
    do_server_request 20 (replicate MAXLINE 0) (replicate MAXLINE 0) (replicate RIO_BUFSIZE 0) (\<lambda>_. Missing) (\<lambda>_. 0) 1 ht1 F1 get_a = Inr (ht2, F2, c2) \<and>
    sent c1 = not_found [46, 47, 97] @ sent c2"
proof -
  have C: "cache_ok (init_cache 100) no_cells []" by (rule init_cache_ok) simp_all
  have "sent get_a = []" by (simp add: sent_def get_a_def)
  then show ?thesis
    using do_server_request_missing [where site = "\<lambda>_. Missing" and fresh = "\<lambda>_. 0", OF get_a_ready C _ _ _ _ served_a _ _ _ refl get_a_ready, of 1]
    by (fastforce simp: separate_def init_cache_def)
qed

theorem request_readfile_safe_witness:
  "\<exists>rq F rq' F'. request_readfile site_a (\<lambda>_. 0) rq F = Inr (1, rq', F') \<and> served_name (file_name (the (cell F (rq_data rq))))"
proof -
  let ?F = "with_request no_cells [46, 47, 97]" and ?rq = "\<lparr>rq_fd = get_a, rq_data = next_cell (no_cells :: file_data cells)\<rparr>"
  have "request_readfile site_a (\<lambda>_. 0) ?rq ?F = Inr (1, ?rq, with_file no_cells \<lparr>file_name = [46, 47, 97],
      file_buf = file_content (\<lambda>_. 0) (c_int 2) [Intr, Chunk 104 [], Chunk 105 []], file_size = c_int 2\<rparr>)"
    by (rule readfile_regular) (simp_all add: no_cells_def served_a site_a_def c_int_id)
  then show ?thesis using request_readfile_safe [of site_a "\<lambda>_. 0" ?rq ?F] by fastforce
qed


theorem Rio_readlineb_spec_witness:
  "\<exists>rp rp'. Rio_readlineb rp [1, 2, 3, 4] 4 = Inr (2, [65, 10, 0, 4], rp') \<and> stream rp = [65, 10, 66] \<and> stream rp' = [66]"
proof -
  let ?rp = "\<lparr>rio_fd = [Chunk 65 [], Intr, Chunk 10 [66]], rio_cnt = 0, rio_bufptr = 0, rio_buf = replicate RIO_BUFSIZE 0\<rparr>"
  have s: "stream ?rp = [65, 10, 66]" by (simp add: stream_def unread_def bslice_def)
  have "rio_wf ?rp" by (simp add: rio_wf_def)
  then obtain rp' where "Rio_readlineb ?rp [1, 2, 3, 4] 4 = Inr (int (length [65, 10 :: u8]), blit [1, 2, 3, 4] 0 ([65, 10] @ [0]), rp')"
      "stream rp' = drop (length [65, 10 :: u8]) (stream ?rp)"
    using Rio_readlineb_spec [of ?rp "[65, 10]" 4 "[1, 2, 3, 4]"] s by auto
  then show ?thesis using s by (auto simp: blit_def)
qed

end
