(* ===== verification/Client_Spec.thy ===== *)
theory Client_Spec
  imports Client Serve
begin

text \<open>
  What webserver/client.c and webserver/fileset.c do with the server: the client reads the header and the body of a response whatever chunks they arrive
  in and accepts exactly the length and the checksum of the bytes; it sends a request that the server answers with the file; and it reads from the
  index that fileset writes the names, checksums and lengths of the files that fileset writes.
\<close>

section \<open>Lines\<close>

lemma take_line_split: "10 \<notin> set l \<Longrightarrow> length l < m \<Longrightarrow> take_line m (l @ 10 # r) = l @ [10]"
  by (induction m l rule: take_line.induct) auto

text \<open>A buffer that holds a string.\<close>

definition holds :: "nat \<Rightarrow> u8 list \<Rightarrow> u8 list \<Rightarrow> bool" where
  "holds m buf s \<longleftrightarrow> c_string s \<and> length buf = m \<and> (\<exists>r. buf = s @ 0 # r)"

lemma holds_str: "holds m buf s \<Longrightarrow> c_str buf = Inr s" "holds m buf s \<Longrightarrow> c_string t \<Longrightarrow> c_streq buf t = Inr (s = t)"
  "holds m buf s \<Longrightarrow> length buf = m"
  by (auto simp: holds_def)

lemma blit_holds: "c_string s \<Longrightarrow> length s < length buf \<Longrightarrow> holds (length buf) (blit buf 0 (s @ [0])) s"
  by (simp add: holds_def blit_def)

lemma read_line:
  assumes "rio_wf rp" "stream rp = l @ 10 # r" "10 \<notin> set l" "c_string l" "length l + 2 \<le> maxlen" "length buf = maxlen"
  obtains rp' buf' where "Rio_readlineb rp buf maxlen = Inr (int (Suc (length l)), buf', rp')" "holds maxlen buf' (l @ [10])" "rio_wf rp'" "stream rp' = r"
proof -
  have t: "l @ [10] = take_line maxlen (stream rp)" using take_line_split [of l maxlen r] assms(2,3,5) by simp
  have len: "length (l @ [10]) < length buf" using assms(5,6) by simp
  obtain rp' where "Rio_readlineb rp buf maxlen = Inr (int (length (l @ [10])), blit buf 0 ((l @ [10]) @ [0]), rp')" "rio_wf rp'"
      "stream rp' = drop (length (l @ [10])) (stream rp)"
    using Rio_readlineb_line [OF assms(1) _ t len] assms(2,5) by auto
  moreover have "holds maxlen (blit buf 0 ((l @ [10]) @ [0])) (l @ [10])"
    using blit_holds [of "l @ [10]" buf] assms(4-6) by (simp add: c_string_def)
  ultimately show ?thesis using that assms(2) by simp
qed

section \<open>Numbers\<close>

lemma scan_number_dec_nat:
  assumes "r = [] \<or> \<not> is_digit (hd r)"
  shows "scan_number (32 # dec_nat n @ r) = (False, n, r)" "scan_number (dec_nat n @ r) = (False, n, r)"
proof -
  obtain c cs where c: "dec_nat n = c # cs" by (cases "dec_nat n") auto
  then have "is_digit c" using is_digit_dec_nat [of n] by simp
  then have s: "\<not> is_space c" "c \<noteq> 43" "c \<noteq> 45" by (auto simp: is_digit_def is_space_def word_le_nat_alt)
  have t: "takeWhile is_digit (dec_nat n @ r) = dec_nat n" "dropWhile is_digit (dec_nat n @ r) = r"
    using is_digit_dec_nat [of n] assms by (cases r; simp)+
  have sp: "is_space 32" by (simp add: is_space_def)
  show "scan_number (32 # dec_nat n @ r) = (False, n, r)" "scan_number (dec_nat n @ r) = (False, n, r)"
    using c s t sp digits_value_dec_nat [of n] by (simp_all add: scan_number_def)
qed

lemma scan_dec:
  assumes "r = [] \<or> \<not> is_digit (hd r)"
  shows "n < 2 ^ 31 \<Longrightarrow> scan_d (32 # dec_nat n @ r) = Some (int n, r)" "scan_u (32 # dec_nat (unat (w :: u32)) @ r) = Some (w, r)"
    "n < 2 ^ 31 \<Longrightarrow> atoi (dec_nat n @ r) = int n"
proof -
  have ne: "r \<noteq> 32 # dec_nat m @ r" for m by (rule notI, drule arg_cong [where f = length]) simp
  show "scan_d (32 # dec_nat n @ r) = Some (int n, r)" if "n < 2 ^ 31"
    using that scan_number_dec_nat(1) [OF assms, of n] ne [of n] by (simp add: scan_d_def strtoll_def c_int_id)
  have "unat w < 2 ^ 32" using unsigned_less [of w] by simp
  then have "unat w < 2 ^ 64" by simp
  then show "scan_u (32 # dec_nat (unat w) @ r) = Some (w, r)"
    using scan_number_dec_nat(1) [OF assms, of "unat w"] ne [of "unat w"] by (simp add: scan_u_def strtoull_def)
  show "atoi (dec_nat n @ r) = int n" if "n < 2 ^ 31"
    using that scan_number_dec_nat(2) [OF assms, of n] by (simp add: atoi_def strtoll_def c_int_id)
qed

section \<open>The header of a response\<close>

definition header_lines :: "u8 list list \<Rightarrow> u8 list" where
  "header_lines ls = concat (map (\<lambda>l. l @ crlf) ls)"

definition header_line :: "u8 list \<Rightarrow> bool" where
  "header_line l \<longleftrightarrow> l \<noteq> [] \<and> 10 \<notin> set l \<and> c_string l \<and> length l + 3 \<le> MAXBUF"

lemma read_header_line:
  assumes "rio_wf rp" "stream rp = l @ crlf @ r" "header_line l \<or> l = []" "length buf = MAXBUF"
  obtains rp' buf' where "Rio_readlineb rp buf MAXBUF = Inr (int (length (l @ crlf)), buf', rp')" "holds MAXBUF buf' (l @ crlf)" "rio_wf rp'" "stream rp' = r"
proof -
  have "stream rp = (l @ [13]) @ 10 # r" "10 \<notin> set (l @ [13])" "c_string (l @ [13])" "length (l @ [13]) + 2 \<le> MAXBUF"
    using assms(2,3) by (auto simp: header_line_def crlf_def c_string_def)
  then obtain rp' buf' where r: "Rio_readlineb rp buf MAXBUF = Inr (int (Suc (length (l @ [13]))), buf', rp')" "holds MAXBUF buf' ((l @ [13]) @ [10])"
      "rio_wf rp'" "stream rp' = r"
    by (rule read_line [OF assms(1) _ _ _ _ assms(4)]) blast
  show ?thesis by (rule that [of buf' rp']) (use r in \<open>simp_all add: crlf_def\<close>)
qed

lemma scan_crlf: "scan_length crlf len = len" "scan_csum crlf csum = csum"
  by (simp_all add: scan_length_def scan_csum_def scan_tag_def crlf_def lit_def)

lemma c_string_crlf [simp]: "c_string crlf" "\<And>l. l @ crlf = crlf \<longleftrightarrow> l = []"
  by (simp_all add: c_string_def crlf_def)

lemma client_header_ok:
  assumes "holds MAXBUF buf (h @ crlf)" "h \<noteq> []" "list_all header_line ls" "rio_wf rp" "stream rp = header_lines ls @ crlf @ body" "0 < n" "length ls < fuel"
  shows "\<exists>rp' buf'. client_header fuel print rp buf n len csum out = Inr (rp', buf', foldl (\<lambda>len l. scan_length (l @ crlf) len) len ls,
      foldl (\<lambda>csum l. scan_csum (l @ crlf) csum) csum ls, if print then out @ concat (map (\<lambda>l. lit ''Header: '' @ l @ crlf) (h # ls)) else out) \<and>
    rio_wf rp' \<and> stream rp' = body \<and> length buf' = MAXBUF"
  using assms
proof (induction ls arbitrary: h buf rp n len csum out fuel)
  case Nil
  obtain f where f: "fuel = Suc f" using Nil.prems(7) by (cases fuel) auto
  obtain rp' buf' where r: "Rio_readlineb rp buf MAXBUF = Inr (int (length ([] @ crlf)), buf', rp')" "holds MAXBUF buf' ([] @ crlf)" "rio_wf rp'" "stream rp' = body"
    by (rule read_header_line [OF Nil.prems(4), of "[]" body buf]) (use Nil.prems(5) holds_str(3) [OF Nil.prems(1)] in \<open>simp_all add: header_lines_def\<close>)
  have "client_header f print rp' buf' k len csum out' = Inr (rp', buf', len, csum, out')" for k out'
    using holds_str(2) [OF r(2), of crlf] by (subst client_header.simps) simp
  then show ?case
    using Nil.prems(2,6) holds_str [OF Nil.prems(1)] r holds_str(1,3) [OF r(2)] f by (subst client_header.simps) (simp add: scan_crlf)
next
  case (Cons l ls)
  obtain f where f: "fuel = Suc f" "length ls < f" using Cons.prems(7) by (cases fuel) auto
  have l: "header_line l" "list_all header_line ls" using Cons.prems(3) by simp_all
  then have l3: "l \<noteq> []" by (simp add: header_line_def)
  obtain rp' buf' where r: "Rio_readlineb rp buf MAXBUF = Inr (int (length (l @ crlf)), buf', rp')" "holds MAXBUF buf' (l @ crlf)" "rio_wf rp'"
      "stream rp' = header_lines ls @ crlf @ body"
    by (rule read_header_line [OF Cons.prems(4), of l "header_lines ls @ crlf @ body" buf])
      (use Cons.prems(5) l(1) holds_str(3) [OF Cons.prems(1)] in \<open>simp_all add: header_lines_def\<close>)
  have k: "0 < int (length (l @ crlf))" by (simp add: crlf_def)
  let ?out = "if print then out @ lit ''Header: '' @ h @ crlf else out"
  obtain rp2 buf2 where IH: "client_header f print rp' buf' (int (length (l @ crlf))) (scan_length (l @ crlf) len) (scan_csum (l @ crlf) csum) ?out =
      Inr (rp2, buf2, foldl (\<lambda>len l. scan_length (l @ crlf) len) (scan_length (l @ crlf) len) ls,
        foldl (\<lambda>csum l. scan_csum (l @ crlf) csum) (scan_csum (l @ crlf) csum) ls,
        if print then ?out @ concat (map (\<lambda>l. lit ''Header: '' @ l @ crlf) (l # ls)) else ?out)"
      "rio_wf rp2" "stream rp2 = body" "length buf2 = MAXBUF"
    using Cons.IH [OF r(2) l3 l(2) r(3,4) k f(2)] by blast
  have ne: "h @ crlf \<noteq> crlf" using Cons.prems(2) by simp
  have "client_header fuel print rp buf n len csum out =
      client_header f print rp' buf' (int (length (l @ crlf))) (scan_length (l @ crlf) len) (scan_csum (l @ crlf) csum) ?out"
    using ne Cons.prems(6) holds_str(1,2) [OF Cons.prems(1)] r(1) holds_str(1) [OF r(2)] f(1)
    by (subst client_header.simps) (simp del: c_string_crlf(2) length_append)
  then show ?case using IH by auto
qed

section \<open>The body of a response\<close>

lemma client_body_eof:
  assumes "rio_wf rp" "stream rp = []" "- (2 ^ 31) \<le> lr" "lr < 2 ^ 31"
  shows "\<exists>rp'. client_body fuel print rp buf lr cs out = Inr (rp', lr, cs, out)"
proof -
  have "0 < MAXBUF" by simp
  then obtain rp' where "Rio_readlineb rp buf MAXBUF = Inr (0, buf, rp')" using Rio_readlineb_eof [OF assms(1,2)] by blast
  moreover have "c_int (lr + 0) = lr" using assms(3,4) by (simp add: c_int_id)
  ultimately show ?thesis by (subst client_body.simps) simp
qed

lemma client_body_ok:
  assumes "rio_wf rp" "length buf = MAXBUF" "short_lines MAXBUF (stream rp)" "length (stream rp) \<le> fuel" "0 \<le> lr" "lr + int (length (stream rp)) < 2 ^ 31"
  shows "\<exists>rp'. client_body fuel print rp buf lr cs out =
    Inr (rp', lr + int (length (stream rp)), foldl (\<lambda>csum b. csum + ucast b) cs (stream rp), if print then out @ stream rp else out)"
  using assms
proof (induction fuel arbitrary: rp buf lr cs out)
  case 0
  then show ?case using client_body_eof [OF 0(1), of lr 0 print buf cs out] by (cases print) simp_all
next
  case (Suc fuel)
  show ?case
  proof (cases "stream rp = []")
    case True
    then show ?thesis using client_body_eof [OF Suc.prems(1) True, of lr "Suc fuel" print buf cs out] Suc.prems(5,6) by (cases print) simp_all
  next
    case False
    let ?l = "take_line MAXBUF (stream rp)" and ?s = "drop (length (take_line MAXBUF (stream rp))) (stream rp)"
    have len: "length ?l < length buf" using Suc.prems(2,3) unfolding short_lines_def by (metis drop0)
    obtain rp' where r: "Rio_readlineb rp buf MAXBUF = Inr (int (length ?l), blit buf 0 (?l @ [0]), rp')" "rio_wf rp'" "stream rp' = ?s"
      using Rio_readlineb_line [OF Suc.prems(1) False refl len] by auto
    have pos: "0 < length ?l" using take_line_pos [OF False] by simp
    have app: "?l @ ?s = stream rp" by (rule take_line_prefix)
    then have sum: "length ?l + length ?s = length (stream rp)" by (metis length_append)
    have t: "take (length ?l) (blit buf 0 (?l @ [0])) = ?l" using len by (simp add: blit_def)
    have b: "length (blit buf 0 (?l @ [0])) = MAXBUF" using Suc.prems(2) len by simp
    have ci: "c_int (lr + int (length ?l)) = lr + int (length ?l)" using Suc.prems(5,6) sum by (intro c_int_id) auto
    have sl: "short_lines MAXBUF (stream rp')" unfolding r(3) by (rule short_lines_drop [OF Suc.prems(3)])
    have n: "length (stream rp') \<le> fuel" "0 \<le> lr + int (length ?l)" "lr + int (length ?l) + int (length (stream rp')) < 2 ^ 31"
      using Suc.prems(4-6) sum pos unfolding r(3) by linarith+
    obtain rp2 where IH: "client_body fuel print rp' (blit buf 0 (?l @ [0])) (lr + int (length ?l)) (foldl (\<lambda>csum b. csum + ucast b) cs ?l)
          (if print then out @ ?l else out) =
        Inr (rp2, lr + int (length ?l) + int (length ?s), foldl (\<lambda>csum b. csum + ucast b) (foldl (\<lambda>csum b. csum + ucast b) cs ?l) ?s,
          if print then (if print then out @ ?l else out) @ ?s else (if print then out @ ?l else out))"
      using Suc.IH [OF r(2) b sl n, unfolded r(3)] by blast
    have "foldl (\<lambda>csum b. csum + ucast b) (foldl (\<lambda>csum b. csum + ucast b) cs ?l) ?s = foldl (\<lambda>csum b. csum + ucast b) cs (stream rp)"
      unfolding foldl_append [symmetric] app ..
    moreover have "(out @ ?l) @ ?s = out @ stream rp" using app by simp
    moreover have "lr + int (length ?l) + int (length ?s) = lr + int (length (stream rp))" using sum by simp
    ultimately show ?thesis
      using IH r(1) len pos t ci by (subst client_body.simps, cases print) (simp_all add: Let_def)
  qed
qed


section \<open>The response of the server\<close>

definition response_lines :: "file_data \<Rightarrow> u8 list list" where
  "response_lines d =
     [lit ''HTTP/1.0 200 OK'', lit ''Server: OS Web Server'', lit ''Content-Type: '' @ request_get_file_type (file_name d),
      lit ''Content-Length: '' @ dec (file_size d), lit ''Content-Csum: '' @ dec_nat (unat (checksum (file_buf d)))]"

lemma file_response_lines: "file_response d = header_lines (response_lines d) @ crlf @ file_buf d"
  by (simp add: file_response_def response_header_def header_lines_def response_lines_def)

lemma dec_chars: "x \<in> set (dec i) \<Longrightarrow> x \<noteq> 10 \<and> x \<noteq> 0" "x \<in> set (dec_nat n) \<Longrightarrow> x \<noteq> 10 \<and> x \<noteq> 0"
  using is_digit_dec_nat [of "nat i"] is_digit_dec_nat [of "nat (- i)"] is_digit_dec_nat [of n]
  by (auto simp: dec_def is_digit_def split: if_splits)

lemma response_lines_ok: "file_ok d \<Longrightarrow> list_all header_line (response_lines d)"
proof -
  assume d: "file_ok d"
  have ft: "10 \<notin> set (request_get_file_type n)" "0 \<notin> set (request_get_file_type n)" for n
    by (simp_all add: request_get_file_type_def lit_def)
  have ln: "length (dec (file_size d)) \<le> 10 + 1" using d length_dec [of "file_size d"] by (simp add: file_ok_def)
  have "header_line (lit ''HTTP/1.0 200 OK'')" "header_line (lit ''Server: OS Web Server'')"
    by (simp_all add: header_line_def lit_def c_string_def)
  moreover have "header_line (lit ''Content-Type: '' @ request_get_file_type n)" for n
    using ft [of n] length_file_type [of n] by (simp add: header_line_def lit_def c_string_def)
  moreover have "header_line (lit ''Content-Length: '' @ dec (file_size d))"
    using dec_chars(1) ln by (auto simp: header_line_def lit_def c_string_def)
  moreover have "header_line (lit ''Content-Csum: '' @ dec_nat (unat (checksum (file_buf d))))"
    using dec_chars(2) length_dec_u32 [of "checksum (file_buf d)"] by (auto simp: header_line_def lit_def c_string_def)
  ultimately show ?thesis by (simp add: response_lines_def)
qed

lemma crlf_no_digit: "crlf = [] \<or> \<not> is_digit (hd crlf)"
  by (simp add: crlf_def is_digit_def)

lemma scan_response:
  assumes "0 \<le> file_size d" "file_size d < 2 ^ 31"
  shows "foldl (\<lambda>len l. scan_length (l @ crlf) len) 0 (tl (response_lines d)) = file_size d"
    "foldl (\<lambda>csum l. scan_csum (l @ crlf) csum) 0 (tl (response_lines d)) = checksum (file_buf d)"
proof -
  let ?n = "nat (file_size d)" and ?c = "checksum (file_buf d)"
  have other: "scan_length (lit ''Server: OS Web Server'' @ crlf) len = len" "scan_csum (lit ''Server: OS Web Server'' @ crlf) csum = csum"
    "scan_length ((lit ''Content-Type: '' @ t) @ crlf) len = len" "scan_csum ((lit ''Content-Type: '' @ t) @ crlf) csum = csum"
    "scan_csum ((lit ''Content-Length: '' @ t) @ crlf) csum = csum" "scan_length ((lit ''Content-Csum: '' @ t) @ crlf) len = len" for len csum t
    by (simp_all add: scan_length_def scan_csum_def scan_tag_def lit_def crlf_def)
  have tags: "scan_tag (lit ''Content-Length:'') ((lit ''Content-Length: '' @ t) @ crlf) = Some (32 # t @ crlf)"
    "scan_tag (lit ''Content-Csum:'') ((lit ''Content-Csum: '' @ t) @ crlf) = Some (32 # t @ crlf)" for t
    by (simp_all add: scan_tag_def lit_def)
  have n: "dec (file_size d) = dec_nat ?n" "?n < 2 ^ 31" using assms by (simp_all add: dec_def nat_less_iff)
  have "scan_length ((lit ''Content-Length: '' @ dec (file_size d)) @ crlf) len = file_size d" for len
    using scan_dec(1) [OF crlf_no_digit n(2)] assms(1) unfolding scan_length_def tags n(1) by simp
  moreover have "scan_csum ((lit ''Content-Csum: '' @ dec_nat (unat ?c)) @ crlf) csum = ?c" for csum
    using scan_dec(2) [OF crlf_no_digit, of ?c] unfolding scan_csum_def tags by simp
  ultimately show "foldl (\<lambda>len l. scan_length (l @ crlf) len) 0 (tl (response_lines d)) = file_size d"
    "foldl (\<lambda>csum l. scan_csum (l @ crlf) csum) 0 (tl (response_lines d)) = checksum (file_buf d)"
    unfolding response_lines_def by (simp_all only: list.sel foldl_Cons foldl_Nil other)
qed

definition printed :: "file_data \<Rightarrow> u8 list" where
  "printed d = concat (map (\<lambda>l. lit ''Header: '' @ l @ crlf) (response_lines d)) @ file_buf d"

text \<open>Up to the body.\<close>

lemma client_print_header:
  assumes d: "file_ok d" "0 \<le> file_size d" and fd: "read_data fd = file_response d" "Fail \<notin> set fd"
    and junk: "length junk = MAXBUF" "length rio_junk = RIO_BUFSIZE" and fuel: "5 \<le> fuel"
  obtains rp buf where "rio_wf rp" "stream rp = file_buf d" "length buf = MAXBUF"
    "client_print fuel junk rio_junk fd csum len print =
      rbind (client_body fuel print rp buf 0 0 (if print then concat (map (\<lambda>l. lit ''Header: '' @ l @ crlf) (response_lines d)) else []))
        (\<lambda>(rio, length_received, csum_received, out).
         rbind (c_assert (csum = checksum (file_buf d))) (\<lambda>_. rbind (c_assert (len = file_size d)) (\<lambda>_.
         rbind (c_assert (file_size d = length_received)) (\<lambda>_. rbind (c_assert (checksum (file_buf d) = csum_received)) (\<lambda>_. Inr out)))))"
proof -
  let ?rp = "\<lparr>rio_fd = fd, rio_cnt = 0, rio_bufptr = 0, rio_buf = rio_junk\<rparr>"
  have wf: "rio_wf ?rp" using fd(2) junk(2) by (simp add: rio_wf_def)
  have st: "stream ?rp = file_response d" using fd(1) by (simp add: stream_def unread_def bslice_def)
  define h ls where "h = hd (response_lines d)" and "ls = tl (response_lines d)"
  have hls: "response_lines d = h # ls" "length ls = 4" by (simp_all add: h_def ls_def response_lines_def)
  have hl: "header_line h" "list_all header_line ls" using response_lines_ok [OF d(1)] hls by simp_all
  have s2: "stream ?rp = h @ crlf @ (header_lines ls @ crlf @ file_buf d)" unfolding st file_response_lines hls by (simp add: header_lines_def)
  obtain rp1 buf1 where r1: "Rio_readlineb ?rp junk MAXBUF = Inr (int (length (h @ crlf)), buf1, rp1)" "holds MAXBUF buf1 (h @ crlf)" "rio_wf rp1"
      "stream rp1 = header_lines ls @ crlf @ file_buf d"
    by (rule read_header_line [OF wf s2 disjI1 [OF hl(1)] junk(1)]) blast
  have hne: "h \<noteq> []" using hl(1) by (simp add: header_line_def)
  have k: "0 < int (length (h @ crlf))" by (simp add: crlf_def)
  have f: "length ls < fuel" using hls(2) fuel by simp
  obtain rp2 buf2 where r2: "client_header fuel print rp1 buf1 (int (length (h @ crlf))) 0 0 [] =
      Inr (rp2, buf2, foldl (\<lambda>len l. scan_length (l @ crlf) len) 0 ls, foldl (\<lambda>csum l. scan_csum (l @ crlf) csum) 0 ls,
        if print then [] @ concat (map (\<lambda>l. lit ''Header: '' @ l @ crlf) (h # ls)) else [])" "rio_wf rp2" "stream rp2 = file_buf d" "length buf2 = MAXBUF"
    using client_header_ok [OF r1(2) hne hl(2) r1(3,4) k f] by blast
  have sc: "foldl (\<lambda>len l. scan_length (l @ crlf) len) 0 ls = file_size d" "foldl (\<lambda>csum l. scan_csum (l @ crlf) csum) 0 ls = checksum (file_buf d)"
    using scan_response d by (simp_all add: ls_def file_ok_def)
  show ?thesis
    by (rule that [OF r2(2-4)]) (unfold client_print_def Rio_init_def hls(1), simp only: if_True rbind_Inr r1(1) r2(1) sc prod.case append_Nil)
qed

lemma client_print_ok:
  assumes d: "file_ok d" "0 \<le> file_size d" "short_lines MAXBUF (file_buf d)" and fd: "read_data fd = file_response d" "Fail \<notin> set fd"
    and junk: "length junk = MAXBUF" "length rio_junk = RIO_BUFSIZE" and fuel: "length (file_buf d) + 5 \<le> fuel"
  shows "client_print fuel junk rio_junk fd (checksum (file_buf d)) (file_size d) print = Inr (if print then printed d else [])"
proof -
  let ?out = "if print then concat (map (\<lambda>l. lit ''Header: '' @ l @ crlf) (response_lines d)) else []"
  have "5 \<le> fuel" using fuel by simp
  then obtain rp buf where r: "rio_wf rp" "stream rp = file_buf d" "length buf = MAXBUF"
    "client_print fuel junk rio_junk fd (checksum (file_buf d)) (file_size d) print =
      rbind (client_body fuel print rp buf 0 0 (if print then concat (map (\<lambda>l. lit ''Header: '' @ l @ crlf) (response_lines d)) else []))
        (\<lambda>(rio, length_received, csum_received, out).
         rbind (c_assert (checksum (file_buf d) = checksum (file_buf d))) (\<lambda>_. rbind (c_assert (file_size d = file_size d)) (\<lambda>_.
         rbind (c_assert (file_size d = length_received)) (\<lambda>_. rbind (c_assert (checksum (file_buf d) = csum_received)) (\<lambda>_. Inr out)))))"
    by (rule client_print_header [OF d(1,2) fd junk]) blast
  have len: "int (length (file_buf d)) = file_size d" "file_size d < 2 ^ 31" using d by (simp_all add: file_ok_def)
  have "length (stream rp) \<le> fuel" "short_lines MAXBUF (stream rp)" "0 + int (length (stream rp)) < 2 ^ 31" using r(2) fuel d(3) len by simp_all
  from client_body_ok [OF r(1,3) this(2,1) order_refl this(3)]
  obtain rp' where "client_body fuel print rp buf 0 0 ?out = Inr (rp', 0 + int (length (stream rp)),
      foldl (\<lambda>csum b. csum + ucast b) 0 (stream rp), if print then ?out @ stream rp else ?out)" by blast
  then show ?thesis
    unfolding r(4) using r(2) len(1) by (simp add: checksum_def printed_def c_assert_def)
qed

text \<open>A body whose first line fills the buffer.\<close>

lemma client_print_long_line:
  assumes d: "file_ok d" "0 \<le> file_size d" "MAXBUF \<le> length (file_buf d)" "10 \<notin> set (take MAXBUF (file_buf d))"
    and fd: "read_data fd = file_response d" "Fail \<notin> set fd" and junk: "length junk = MAXBUF" "length rio_junk = RIO_BUFSIZE" and fuel: "5 \<le> fuel"
  shows "client_print fuel junk rio_junk fd csum len print = Inl Bad_access"
proof (rule client_print_header [OF d(1,2) fd junk fuel])
  fix rp buf
  assume r: "rio_wf rp" "stream rp = file_buf d" "length buf = MAXBUF"
    "client_print fuel junk rio_junk fd csum len print =
      rbind (client_body fuel print rp buf 0 0 (if print then concat (map (\<lambda>l. lit ''Header: '' @ l @ crlf) (response_lines d)) else []))
        (\<lambda>(rio, length_received, csum_received, out).
         rbind (c_assert (csum = checksum (file_buf d))) (\<lambda>_. rbind (c_assert (len = file_size d)) (\<lambda>_.
         rbind (c_assert (file_size d = length_received)) (\<lambda>_. rbind (c_assert (checksum (file_buf d) = csum_received)) (\<lambda>_. Inr out)))))"
  have "Rio_readlineb rp buf MAXBUF = Inl Bad_access"
    using rio_readlineb_full [OF r(1,3), of 0] d(3,4) r(2) by (simp add: Rio_readlineb_def)
  then show ?thesis unfolding r(4) by (subst client_body.simps) simp
qed

section \<open>The request of the client\<close>

definition request_bytes :: "u8 list \<Rightarrow> u8 list \<Rightarrow> u8 list" where
  "request_bytes hst name = lit ''GET '' @ name @ lit '' HTTP/1.0'' @ crlf @ lit ''host: '' @ hst @ crlf @ crlf"

lemma client_send_ok:
  assumes "W_fail \<notin> set (wevents fd)" "length name + length hst < 8000"
  shows "\<exists>w. client_send fd hst name = Inr w \<and> written w = written fd @ request_bytes hst name"
proof -
  have "sprintf MAXLINE (lit ''GET '' @ name @ lit '' HTTP/1.0'' @ crlf) = Inr (lit ''GET '' @ name @ lit '' HTTP/1.0'' @ crlf)"
    "sprintf MAXLINE ((lit ''GET '' @ name @ lit '' HTTP/1.0'' @ crlf) @ lit ''host: '' @ hst @ crlf @ crlf) = Inr (request_bytes hst name)"
    using assms(2) by (simp_all add: sprintf_def request_bytes_def lit_def crlf_def)
  then show ?thesis using rio_write_ok [OF assms(1), of "request_bytes hst name"] by (auto simp: client_send_def Rio_write_def)
qed

text \<open>A name that is one word of the request line.\<close>

definition uri :: "u8 list \<Rightarrow> bool" where
  "uri s \<longleftrightarrow> s \<noteq> [] \<and> (\<forall>x\<in>set s. \<not> is_space x \<and> x \<noteq> 0)"

lemma next_word_split:
  assumes "uri w" "is_space x"
  shows "next_word (w @ x # r) = (w, x # r)" "is_space y \<Longrightarrow> next_word (y # w @ x # r) = (w, x # r)"
proof -
  obtain a v where w: "w = a # v" "\<not> is_space a" using assms(1) by (cases w) (auto simp: uri_def)
  have "takeWhile (\<lambda>c. \<not> is_space c) (w @ x # r) = w" "dropWhile (\<lambda>c. \<not> is_space c) (w @ x # r) = x # r"
    using assms by (auto simp: uri_def takeWhile_append2 dropWhile_append2)
  moreover have "dropWhile is_space (w @ x # r) = w @ x # r" using w by simp
  ultimately show "next_word (w @ x # r) = (w, x # r)" "is_space y \<Longrightarrow> next_word (y # w @ x # r) = (w, x # r)"
    by (simp_all add: next_word_def)
qed

lemma uri_chars: "uri s \<Longrightarrow> x \<in> set s \<Longrightarrow> x \<noteq> 10 \<and> x \<noteq> 13 \<and> x \<noteq> 32 \<and> x \<noteq> 0"
  by (auto simp: uri_def is_space_def)

lemma client_get_request:
  assumes c: "read_data (conn_in c) = request_bytes hst name" "Fail \<notin> set (conn_in c)"
    and nm: "uri name" "10 \<notin> set hst" "length name + length hst < 8000"
  shows "get_request c (request_parse_URI name MAXLINE)"
proof -
  let ?l = "lit ''GET '' @ name @ lit '' HTTP/1.0'' @ crlf" and ?t = "lit ''host: '' @ hst @ crlf @ crlf"
  have s: "request_bytes hst name = (lit ''GET '' @ name @ lit '' HTTP/1.0'' @ [13]) @ 10 # ?t"
    by (simp add: request_bytes_def crlf_def)
  have no10: "10 \<notin> set (lit ''GET '' @ name @ lit '' HTTP/1.0'' @ [13])" using uri_chars [OF nm(1)] by (auto simp: lit_def)
  have l: "take_line MAXLINE (request_bytes hst name) = ?l"
    unfolding s using take_line_split [OF no10, of MAXLINE ?t] nm(3) by (simp add: lit_def crlf_def)
  have d: "drop (length ?l) (request_bytes hst name) = ?t" by (simp add: request_bytes_def)
  have w: "next_word ?l = (lit ''GET'', 32 # name @ 32 # (lit ''HTTP/1.0'' @ crlf))"
    using next_word_split(1) [of "lit ''GET''" 32 "name @ lit '' HTTP/1.0'' @ crlf"] by (simp add: uri_def lit_def is_space_def)
  have w2: "next_word (32 # name @ 32 # (lit ''HTTP/1.0'' @ crlf)) = (name, 32 # lit ''HTTP/1.0'' @ crlf)"
    by (rule next_word_split(2) [OF nm(1)]) (simp_all add: is_space_def)
  have t1: "take_line MAXLINE ?t = lit ''host: '' @ hst @ crlf"
    using take_line_split [of "lit ''host: '' @ hst @ [13]" MAXLINE crlf] nm(2,3) by (auto simp: lit_def crlf_def)
  have "take_line MAXLINE ?t \<noteq> crlf" unfolding t1 by (simp add: lit_def crlf_def)
  then have a: "after_headers MAXLINE ?t = after_headers MAXLINE (drop (length (lit ''host: '' @ hst @ crlf)) ?t)"
    using t1 by (subst after_headers.simps) (simp add: lit_def)
  have "drop (length (lit ''host: '' @ hst @ crlf)) ?t = crlf" by simp
  moreover have "after_headers MAXLINE crlf = Some []" by (subst after_headers.simps) (simp add: crlf_def)
  ultimately have ah: "after_headers MAXLINE ?t = Some []" using a by simp
  have sh: "short_lines MAXLINE ?t" by (rule short_linesI) (use nm(3) in \<open>simp add: lit_def crlf_def\<close>)
  have cs: "c_string ?l" using uri_chars [OF nm(1)] by (auto simp: c_string_def lit_def crlf_def)
  have g: "request_bytes hst name = read_data (conn_in c)" "?l = take_line MAXLINE (request_bytes hst name)" "request_bytes hst name \<noteq> []"
    "length ?l < MAXLINE" "lit ''GET'' \<noteq> []" "strcasecmp_eq (lit ''GET'') (lit ''GET'')" "name \<noteq> []"
    "after_headers MAXLINE (drop (length ?l) (request_bytes hst name)) = Some []" "short_lines MAXLINE (drop (length ?l) (request_bytes hst name))"
    using c(1) l nm(1,3) ah sh unfolding d by (simp_all add: request_bytes_def lit_def crlf_def strcasecmp_eq_def uri_def)
  show ?thesis
    unfolding get_request_def
    by (rule conjI [OF c(2)], intro exI conjI)
      (fact g(1) g(2) g(3) g(4) cs w g(5) g(6) w2 g(7) g(8) g(9) refl)+
qed

section \<open>The files and the index of fileset\<close>

lemma fileset_bytes_split:
  assumes "0 \<le> sz" "sz \<le> n"
  shows "fileset_bytes chars k n = fileset_bytes chars k sz @ fileset_bytes chars (k + nat sz) (n - sz)"
proof -
  have "[0..<nat n] = [0..<nat sz] @ map (\<lambda>j. j + nat sz) [0..<nat (n - sz)]"
    using upt_add_eq_append [of 0 "nat sz" "nat n - nat sz"] assms by (simp add: map_add_upt nat_diff_distrib)
  then show ?thesis by (simp add: fileset_bytes_def ac_simps)
qed

lemma length_fileset_bytes [simp]: "length (fileset_bytes chars k n) = nat n"
  by (simp add: fileset_bytes_def)

lemma fileset_bytes_printable: "x \<in> set (fileset_bytes chars k n) \<Longrightarrow> 32 \<le> x \<and> x < 115"
proof -
  assume "x \<in> set (fileset_bytes chars k n)"
  then obtain m where x: "x = of_nat (m mod 83 + 32)" by (auto simp: fileset_bytes_def)
  have m: "m mod 83 < 83" by simp
  then have "unat x = m mod 83 + 32" unfolding x by (subst unat_of_nat) simp
  then show ?thesis using m by (simp add: word_le_nat_alt word_less_nat_alt)
qed

lemma write_fileset_file_ok:
  "W_fail \<notin> set (wevents fd) \<Longrightarrow> \<exists>fd'. write_fileset_file chars n k csum fd =
      Inr (foldl (\<lambda>csum b. csum + ucast b) csum (fileset_bytes chars k n), fd') \<and> written fd' = written fd @ fileset_bytes chars k n"
proof (induction chars n k csum fd rule: write_fileset_file.induct)
  case (1 chars n k csum fd)
  show ?case
  proof (cases "0 < n")
    case True
    define sz where "sz = (if n < 4096 then n else 4096)"
    have sz: "0 \<le> sz" "sz \<le> n" using True by (simp_all add: sz_def)
    let ?b = "fileset_bytes chars k sz"
    obtain fd1 where w: "rio_write fd ?b = (True, fd1)" "written fd1 = written fd @ ?b" "W_fail \<notin> set (wevents fd1)"
      using rio_write_ok [OF 1(2)] by blast
    obtain fd2 where "write_fileset_file chars (n - sz) (k + nat sz) (foldl (\<lambda>csum b. csum + ucast b) csum ?b) fd1 =
        Inr (foldl (\<lambda>csum b. csum + ucast b) (foldl (\<lambda>csum b. csum + ucast b) csum ?b) (fileset_bytes chars (k + nat sz) (n - sz)), fd2)"
        "written fd2 = written fd1 @ fileset_bytes chars (k + nat sz) (n - sz)"
      using 1(1) [OF True sz_def refl refl _ w(3)] w(1) by (auto simp: Rio_write_def)
    moreover have "write_fileset_file chars n k csum fd = rbind (Rio_write fd ?b) (\<lambda>fd.
        write_fileset_file chars (n - sz) (k + nat sz) (foldl (\<lambda>csum b. csum + ucast b) csum ?b) fd)"
      using True by (subst write_fileset_file.simps) (simp add: Let_def sz_def)
    ultimately show ?thesis using w(1,2) by (simp add: fileset_bytes_split [OF sz] Rio_write_def)
  next
    case False
    then show ?thesis by (subst write_fileset_file.simps) (simp add: fileset_bytes_def)
  qed
qed

definition file_path :: "u8 list \<Rightarrow> nat \<Rightarrow> u8 list" where
  "file_path dir i = dir @ lit ''/'' @ replicate (5 - length (dec_nat i)) 48 @ dec_nat i"

definition index_line :: "u8 list \<times> u8 list \<Rightarrow> u8 list" where
  "index_line = (\<lambda>(name, bs). name @ 32 # dec_nat (unat (checksum bs)) @ 32 # dec_nat (length bs))"

lemma fileset_name_ok:
  assumes "i < 100000" "length dir \<le> 1000"
  shows "fileset_name dir i = Inr (file_path dir i)" "length (file_path dir i) \<le> 1006"
proof -
  have "length (dec_nat i) \<le> 5" using length_dec_nat [of i 5] assms(1) by simp
  then have "length (lit ''/'' @ replicate (5 - length (dec_nat i)) 48 @ dec_nat i) = 6" by (simp add: lit_def)
  then show "fileset_name dir i = Inr (file_path dir i)" "length (file_path dir i) \<le> 1006"
    using assms(2) by (simp_all add: fileset_name_def sprintf_def file_path_def)
qed

definition fileset_of :: "u8 list \<Rightarrow> (nat \<Rightarrow> int) \<Rightarrow> (nat \<Rightarrow> nat \<Rightarrow> nat) \<Rightarrow> nat \<Rightarrow> u8 list \<times> u8 list" where
  "fileset_of dir file_sz chars i = (file_path dir i, fileset_bytes (chars i) 0 (file_sz i))"

lemma fileset_from_ok:
  assumes "\<And>i. W_fail \<notin> set (wr i)" "\<And>i. 0 \<le> file_sz i \<and> file_sz i < 2 ^ 31" "length dir \<le> 1000"
  shows "i + k \<le> 100000 \<Longrightarrow> W_fail \<notin> set (wevents fd) \<Longrightarrow> \<exists>fd'. fileset_from dir file_sz chars wr k i fd =
      Inr (fd', map (fileset_of dir file_sz chars) [i..<i + k]) \<and>
    written fd' = written fd @ concat (map (\<lambda>j. index_line (fileset_of dir file_sz chars j) @ [10]) [i..<i + k])"
proof (induction k arbitrary: i fd)
  case 0
  then show ?case by simp
next
  case (Suc k)
  let ?bs = "fileset_bytes (chars i) 0 (file_sz i)" and ?l = "index_line (fileset_of dir file_sz chars i)"
  have i: "i < 100000" using Suc.prems(1) by simp
  obtain w where w: "write_fileset_file (chars i) (file_sz i) 0 0 \<lparr>written = [], wevents = wr i\<rparr> = Inr (checksum ?bs, w)" "written w = ?bs"
    using write_fileset_file_ok [of "\<lparr>written = [], wevents = wr i\<rparr>" "chars i" "file_sz i" 0 0] assms(1) [of i] by (auto simp: checksum_def)
  have l: "file_path dir i @ lit '' '' @ dec_nat (unat (checksum ?bs)) @ lit '' '' @ dec (file_sz i) @ [10] = ?l @ [10]"
    using assms(2) [of i] by (simp add: index_line_def fileset_of_def lit_def dec_def)
  have "length (dec (file_sz i)) \<le> 11" using assms(2) [of i] length_dec [of "file_sz i"] by simp
  then have len: "length (?l @ [10]) < 4096"
    using fileset_name_ok(2) [OF i assms(3)] length_dec_u32 [of "checksum ?bs"] unfolding l [symmetric] by (simp add: lit_def)
  obtain fd1 where f1: "rio_write fd (?l @ [10]) = (True, fd1)" "written fd1 = written fd @ ?l @ [10]" "W_fail \<notin> set (wevents fd1)"
    using rio_write_ok [OF Suc.prems(2)] by blast
  have "Suc i + k \<le> 100000" using Suc.prems(1) by simp
  from Suc.IH [OF this f1(3)] obtain fd2 where f2: "fileset_from dir file_sz chars wr k (Suc i) fd1 = Inr (fd2, map (fileset_of dir file_sz chars) [Suc i..<Suc i + k])"
      "written fd2 = written fd1 @ concat (map (\<lambda>j. index_line (fileset_of dir file_sz chars j) @ [10]) [Suc i..<Suc i + k])" by blast
  have up: "[i..<i + Suc k] = i # [Suc i..<Suc i + k]" by (simp add: upt_conv_Cons)
  have "fileset_from dir file_sz chars wr (Suc k) i fd = Inr (fd2, map (fileset_of dir file_sz chars) [i..<i + Suc k])"
    using fileset_name_ok(1) [OF i assms(3)] w f1(1) f2(1) len unfolding up
    by (simp add: l sprintf_def Rio_write_def fileset_of_def del: upt_Suc length_append)
  then show ?case using f1(2) f2(2) unfolding up by simp
qed

section \<open>Reading the index\<close>

definition info_of :: "u8 list \<times> u8 list \<Rightarrow> fileinfo" where
  "info_of = (\<lambda>(name, bs). \<lparr>fi_name = Some name, fi_csum = Some (checksum bs), fi_len = Some (int (length bs))\<rparr>)"

lemma scan_index_line:
  assumes "uri (fst x)" "length (snd x) < 2 ^ 31"
  shows "scan_fileinfo (index_line x @ [10]) = info_of x"
proof -
  obtain name bs where x: "x = (name, bs)" by (cases x)
  have nd: "\<And>r. (32 # r) = [] \<or> \<not> is_digit (hd (32 # r))" "[10] = [] \<or> \<not> is_digit (hd [10])" by (simp_all add: is_digit_def)
  have "next_word (name @ 32 # dec_nat (unat (checksum bs)) @ 32 # dec_nat (length bs) @ [10]) =
      (name, 32 # dec_nat (unat (checksum bs)) @ 32 # dec_nat (length bs) @ [10])"
    by (rule next_word_split(1)) (use assms(1) x in \<open>simp_all add: is_space_def\<close>)
  moreover have "name \<noteq> []" using assms(1) x by (simp add: uri_def)
  moreover have "scan_u (32 # dec_nat (unat (checksum bs)) @ 32 # dec_nat (length bs) @ [10]) = Some (checksum bs, 32 # dec_nat (length bs) @ [10])"
    by (rule scan_dec(2) [OF nd(1)])
  moreover have "scan_d (32 # dec_nat (length bs) @ [10]) = Some (int (length bs), [10])"
    by (rule scan_dec(1) [OF nd(2)]) (use assms(2) x in simp)
  ultimately show ?thesis by (simp add: scan_fileinfo_def index_line_def info_of_def x)
qed

definition text_line :: "u8 list \<Rightarrow> bool" where
  "text_line l \<longleftrightarrow> 10 \<notin> set l \<and> c_string l \<and> length l + 2 \<le> MAXLINE"

lemma init_fileset_from_ok:
  assumes "rio_wf rp" "stream rp = concat (map (\<lambda>l. l @ [10]) ls)" "list_all text_line ls" "length buf = MAXLINE" "length ls \<le> fuel"
    and "nr_files cl = int (length (fileset cl) + length ls)" "0 < nr_files cl"
  shows "init_fileset_from fuel rp buf cl = Inr (cl\<lparr>fileset := fileset cl @ map (\<lambda>l. scan_fileinfo (l @ [10])) ls\<rparr>)"
  using assms
proof (induction ls arbitrary: rp buf fuel cl)
  case Nil
  have "stream rp = []" "0 < MAXLINE" using Nil.prems(2) by simp_all
  then obtain rp' where "Rio_readlineb rp buf MAXLINE = Inr (0, buf, rp')" using Rio_readlineb_eof [OF Nil.prems(1)] by blast
  then show ?case using Nil.prems(6,7) by (subst init_fileset_from.simps) (simp add: c_assert_def)
next
  case (Cons l ls)
  obtain f where f: "fuel = Suc f" "length ls \<le> f" using Cons.prems(5) by (cases fuel) auto
  have l: "10 \<notin> set l" "c_string l" "length l + 2 \<le> MAXLINE" and l4: "list_all text_line ls"
    using Cons.prems(3) by (simp_all add: text_line_def [of l])
  have s: "stream rp = l @ 10 # concat (map (\<lambda>l. l @ [10]) ls)" using Cons.prems(2) by simp
  obtain rp' buf' where r: "Rio_readlineb rp buf MAXLINE = Inr (int (Suc (length l)), buf', rp')" "holds MAXLINE buf' (l @ [10])" "rio_wf rp'"
      "stream rp' = concat (map (\<lambda>l. l @ [10]) ls)"
    by (rule read_line [OF Cons.prems(1) s l(1-3) Cons.prems(4)]) blast
  let ?cl = "cl\<lparr>fileset := fileset cl @ [scan_fileinfo (l @ [10])]\<rparr>"
  have "init_fileset_from f rp' buf' ?cl = Inr (?cl\<lparr>fileset := fileset ?cl @ map (\<lambda>l. scan_fileinfo (l @ [10])) ls\<rparr>)"
    by (rule Cons.IH [OF r(3,4) l4 holds_str(3) [OF r(2)] f(2)]) (use Cons.prems(6,7) in simp_all)
  moreover have "int (length (fileset cl)) < nr_files cl" using Cons.prems(6) by simp
  ultimately show ?case
    using r(1) holds_str(1) [OF r(2)] f(1) Cons.prems(7) by (subst init_fileset_from.simps) (simp add: c_assert_def)
qed

lemma index_text_line:
  assumes "uri (fst x)" "length (fst x) \<le> 1006" "length (snd x) < 2 ^ 31"
  shows "text_line (index_line x)"
proof -
  obtain name bs where x: "x = (name, bs)" by (cases x)
  have "length (dec_nat (length bs)) \<le> 10" using assms(3) x by (intro length_dec_nat) simp_all
  then show ?thesis
    using uri_chars [OF assms(1)] dec_chars(2) assms(2) length_dec_u32 [of "checksum bs"] x
    by (auto simp: text_line_def index_line_def c_string_def)
qed

lemma uri_file_path: "uri dir \<Longrightarrow> uri (file_path dir i)"
  using is_digit_dec_nat [of i] by (auto simp: uri_def file_path_def lit_def is_space_def is_digit_def word_le_nat_alt)

lemma init_fileset_index:
  assumes dir: "uri dir" "length dir \<le> 1000" and k: "0 < k" "k \<le> 99999" and sz: "\<And>i. 0 \<le> file_sz i \<and> file_sz i < 2 ^ 31"
    and wr: "\<And>i. W_fail \<notin> set (wr i)" "W_fail \<notin> set wr_idx" and junk: "length junk = MAXLINE" "length rio_junk = RIO_BUFSIZE"
    and fuel: "k < fuel" and cl: "nr_files cl = 0" "fileset cl = []"
  obtains idx where "fileset_main dir k file_sz chars wr wr_idx = Inr (idx, map (fileset_of dir file_sz chars) [0..<k])"
    "idx = dec_nat k @ [10] @ concat (map (\<lambda>l. l @ [10]) (map (\<lambda>j. index_line (fileset_of dir file_sz chars j)) [0..<k]))"
    "\<And>fd. read_data fd = idx \<Longrightarrow> Fail \<notin> set fd \<Longrightarrow>
      init_fileset fuel junk rio_junk fd cl = Inr (cl\<lparr>nr_files := int k, fileset := map (info_of \<circ> fileset_of dir file_sz chars) [0..<k]\<rparr>)"
proof -
  let ?fs = "fileset_of dir file_sz chars" and ?n = "dec_nat k"
  let ?ls = "map (\<lambda>j. index_line (?fs j)) [0..<k]"
  define idx where "idx = ?n @ [10] @ concat (map (\<lambda>l. l @ [10]) ?ls)"
  have n: "length ?n \<le> 5" using length_dec_nat [of k 5] k(2) by simp
  obtain w where w: "rio_write \<lparr>written = [], wevents = wr_idx\<rparr> (?n @ [10]) = (True, w)" "written w = ?n @ [10]" "W_fail \<notin> set (wevents w)"
    using rio_write_ok [of "\<lparr>written = [], wevents = wr_idx\<rparr>" "?n @ [10]"] wr(2) by auto
  have "0 + k \<le> 100000" using k(2) by simp
  from fileset_from_ok [OF _ _ dir(2) this w(3), where chars = chars and wr = wr and file_sz = file_sz]
  obtain w2 where w2: "fileset_from dir file_sz chars wr k 0 w = Inr (w2, map ?fs [0..<k])"
      "written w2 = written w @ concat (map (\<lambda>j. index_line (?fs j) @ [10]) [0..<k])" using wr(1) sz by auto
  have "written w2 = idx" using w(2) w2(2) by (simp add: idx_def comp_def)
  then have main: "fileset_main dir k file_sz chars wr wr_idx = Inr (idx, map ?fs [0..<k])"
    using k dir(2) n w(1) w2(1) by (simp add: fileset_main_def sprintf_def Rio_write_def)
  have x: "uri (fst (?fs j))" "length (snd (?fs j)) < 2 ^ 31" for j
    using uri_file_path [OF dir(1)] sz [of j] by (simp_all add: fileset_of_def nat_less_iff)
  have "text_line (index_line (?fs j))" if "j < k" for j
    by (rule index_text_line [OF x(1) _ x(2)]) (use fileset_name_ok(2) [OF _ dir(2), of j] that k(2) in \<open>simp add: fileset_of_def\<close>)
  then have tl: "list_all text_line ?ls" by (simp add: list_all_iff)
  have "init_fileset fuel junk rio_junk fd cl = Inr (cl\<lparr>nr_files := int k, fileset := map (info_of \<circ> ?fs) [0..<k]\<rparr>)"
    if fd: "read_data fd = idx" "Fail \<notin> set fd" for fd
  proof -
    let ?rp = "\<lparr>rio_fd = fd, rio_cnt = 0, rio_bufptr = 0, rio_buf = rio_junk\<rparr>"
    have wf: "rio_wf ?rp" using fd(2) junk(2) by (simp add: rio_wf_def)
    have st: "stream ?rp = ?n @ 10 # concat (map (\<lambda>l. l @ [10]) ?ls)" using fd(1) by (simp add: stream_def unread_def bslice_def idx_def)
    have nl: "10 \<notin> set ?n" "c_string ?n" "length ?n + 2 \<le> MAXLINE" using dec_chars(2) n by (auto simp: c_string_def)
    obtain rp' buf' where r: "Rio_readlineb ?rp junk MAXLINE = Inr (int (Suc (length ?n)), buf', rp')" "holds MAXLINE buf' (?n @ [10])" "rio_wf rp'"
        "stream rp' = concat (map (\<lambda>l. l @ [10]) ?ls)"
      by (rule read_line [OF wf st nl junk(1)]) blast
    obtain f where f: "fuel = Suc f" "length ?ls \<le> f" using fuel by (cases fuel) auto
    have at: "atoi (?n @ [10]) = int k" by (rule scan_dec(3)) (use k(2) in \<open>simp_all add: is_digit_def\<close>)
    let ?cl = "cl\<lparr>nr_files := int k\<rparr>"
    have "init_fileset_from f rp' buf' ?cl = Inr (?cl\<lparr>fileset := fileset ?cl @ map (\<lambda>l. scan_fileinfo (l @ [10])) ?ls\<rparr>)"
      by (rule init_fileset_from_ok [OF r(3,4) tl holds_str(3) [OF r(2)] f(2)]) (use k(1) cl(2) in simp_all)
    moreover have "map (\<lambda>l. scan_fileinfo (l @ [10])) ?ls = map (info_of \<circ> ?fs) [0..<k]" using scan_index_line [OF x] by simp
    ultimately have "init_fileset_from f rp' buf' ?cl = Inr (?cl\<lparr>fileset := map (info_of \<circ> ?fs) [0..<k]\<rparr>)" using cl(2) by (simp del: map_map)
    then show ?thesis
      using r(1) holds_str(1) [OF r(2)] f(1) cl(1) k(1) at
      by (simp add: init_fileset_def Rio_init_def, subst init_fileset_from.simps) (simp add: c_assert_def)
  qed
  then show ?thesis by (rule that [OF main idx_def])
qed

section \<open>The properties\<close>

text \<open>C33.
  A request from the client through the server and back: the client sends a request, the server, however the bytes of the request arrive, answers with the
  file and closes the connection, and however the bytes of the response arrive, the client finds in the header the length and the checksum it expects, counts as many bytes with this checksum
  behind it, and prints the header and the file. The name is one word, and no line of the file fills the buffer of the client.\<close>

theorem client_gets_file:
  assumes "uri name" "10 \<notin> set hst" "length name + length hst < 8000" "W_fail \<notin> set we"
    "cache_ok ht F fs" "cells_wf F" "0 < mc" "\<forall>f\<in>set fs. name_of F f \<noteq> request_parse_URI name MAXLINE" "separate F fs"
    "served_name (request_parse_URI name MAXLINE)" "site (request_parse_URI name MAXLINE) = Regular n (Some fd)" "Fail \<notin> set fd" "0 < c_int n"
    "d = \<lparr>file_name = request_parse_URI name MAXLINE, file_buf = file_content fresh (c_int n) fd, file_size = c_int n\<rparr>"
    "length junk = MAXLINE" "length hjunk = MAXLINE" "c_streq hjunk crlf = Inr False" "length rio_junk = RIO_BUFSIZE" "8192 \<le> fuel"
    "short_lines MAXBUF (file_buf d)" "length cjunk = MAXBUF" "length crio_junk = RIO_BUFSIZE" "length (file_buf d) + 5 \<le> cfuel"
  shows "\<exists>w. client_send \<lparr>written = [], wevents = we\<rparr> hst name = Inr w \<and> written w = request_bytes hst name \<and>
    (\<forall>c. read_data (conn_in c) = written w \<and> Fail \<notin> set (conn_in c) \<and> sending c \<and> sent c = [] \<longrightarrow>
      (\<exists>ht' F' c'. do_server_request fuel junk hjunk rio_junk site fresh mc ht F c = Inr (ht', F', c') \<and> closed c' \<and> sent c' = file_response d \<and>
        (\<forall>resp. read_data resp = sent c' \<and> Fail \<notin> set resp \<longrightarrow>
          client_print cfuel cjunk crio_junk resp (checksum (file_buf d)) (file_size d) print = Inr (if print then printed d else []))))"
proof -
  let ?path = "request_parse_URI name MAXLINE"
  obtain w where w: "client_send \<lparr>written = [], wevents = we\<rparr> hst name = Inr w" "written w = request_bytes hst name"
    using client_send_ok [of "\<lparr>written = [], wevents = we\<rparr>" name hst] assms(3,4) by auto
  have d: "file_ok d" "0 \<le> file_size d" using assms(13,14) c_int_range [of n] by (simp_all add: file_ok_def)
  have srv: "\<exists>ht' c'. do_server_request fuel junk hjunk rio_junk site fresh mc ht F c = Inr (ht', with_file F d, c') \<and> closed c' \<and> sent c' = file_response d"
    if c: "read_data (conn_in c) = written w" "Fail \<notin> set (conn_in c)" "sending c" "sent c = []" for c
  proof -
    have rd: "read_data (conn_in c) = request_bytes hst name" using c(1) w(2) by simp
    have "length (request_bytes hst name) \<le> 8192" using assms(3) by (simp add: request_bytes_def lit_def crlf_def)
    then have R: "ready fuel junk hjunk rio_junk c ?path"
      using client_get_request [OF rd c(2) assms(1-3)] rd assms(15-19) c(3) by (simp add: ready_def)
    have rr: "\<exists>r rq1. request_readfile site fresh \<lparr>rq_fd = c\<lparr>conn_in := fd'\<rparr>, rq_data = next_cell F\<rparr> (with_request F ?path) =
        Inr (r, rq1, with_file F d) \<and> rq_data rq1 = next_cell F \<and> sending (rq_fd rq1) \<and> sent (rq_fd rq1) = sent c @ []" for fd'
      using readfile_regular [where site = site and fresh = fresh and rq = "\<lparr>rq_fd = c\<lparr>conn_in := fd'\<rparr>, rq_data = next_cell F\<rparr>",
          OF _ _ assms(10-13)] assms(6,14) c(3) by (simp add: cells_wf_def)
    have fn: "file_name d = ?path" using assms(14) by simp
    show ?thesis using serve_miss [OF R assms(5-8) rr fn d assms(9)] c(4) by auto
  qed
  have cl: "client_print cfuel cjunk crio_junk resp (checksum (file_buf d)) (file_size d) print = Inr (if print then printed d else [])"
    if "read_data resp = file_response d" "Fail \<notin> set resp" for resp
    by (rule client_print_ok [OF d assms(20) that assms(21-23)])
  show ?thesis using w srv cl by (intro exI [of _ w]) metis
qed

theorem client_gets_file_witness:
  "\<exists>w ht' F' c'. client_send \<lparr>written = [], wevents = [Wrote 3]\<rparr> [] [97] = Inr w \<and>
    do_server_request 8192 (replicate MAXLINE 0) (replicate MAXLINE 0) (replicate RIO_BUFSIZE 0) site_a (\<lambda>_. 0) 1 (init_cache 100) no_cells
      \<lparr>conn_in = [Intr, Chunk (hd (written w)) (tl (written w))], conn_out = \<lparr>written = [], wevents = []\<rparr>, closed = False, console = []\<rparr> = Inr (ht', F', c') \<and>
    client_print 7 (replicate MAXLINE 0) (replicate RIO_BUFSIZE 0) [Chunk (hd (sent c')) (tl (sent c'))] 209 2 False = Inr []"
proof -
  have C: "cache_ok (init_cache 100) no_cells []" by (rule init_cache_ok) simp_all
  have two: "c_int 2 = 2" by (simp add: c_int_id)
  have fc: "file_content (\<lambda>_. 0) 2 [Intr, Chunk 104 [], Chunk 105 []] = [104, 105]" by (simp add: file_content_def)
  have u: "uri [97]" by (simp add: uri_def is_space_def)
  have s: "site_a [46, 47, 97] = Regular 2 (Some [Intr, Chunk 104 [], Chunk 105 []])" by (simp add: site_a_def)
  let ?d = "\<lparr>file_name = [46, 47, 97], file_buf = [104, 105], file_size = 2\<rparr>"
  obtain w where w: "client_send \<lparr>written = [], wevents = [Wrote 3]\<rparr> [] [97] = Inr w" "written w = request_bytes [] [97]"
    "\<forall>c. read_data (conn_in c) = written w \<and> Fail \<notin> set (conn_in c) \<and> sending c \<and> sent c = [] \<longrightarrow>
      (\<exists>ht' F' c'. do_server_request 8192 (replicate MAXLINE 0) (replicate MAXLINE 0) (replicate RIO_BUFSIZE 0) site_a (\<lambda>_. 0) 1 (init_cache 100) no_cells c = Inr (ht', F', c') \<and>
        closed c' \<and> sent c' = file_response ?d \<and>
        (\<forall>resp. read_data resp = sent c' \<and> Fail \<notin> set resp \<longrightarrow>
          client_print 7 (replicate MAXLINE 0) (replicate RIO_BUFSIZE 0) resp (checksum [104, 105]) 2 False = Inr []))"
    using client_gets_file [OF u, of "[]" "[Wrote 3]", OF _ _ _ C, where site = site_a and n = 2 and fd = "[Intr, Chunk 104 [], Chunk 105 []]" and mc = 1
        and d = ?d and fresh = "\<lambda>_. 0" and junk = "replicate MAXLINE 0" and hjunk = "replicate MAXLINE 0" and rio_junk = "replicate RIO_BUFSIZE 0" and fuel = 8192 and cfuel = 7
        and cjunk = "replicate MAXLINE 0" and crio_junk = "replicate RIO_BUFSIZE 0" and print = False, unfolded get_a_name]
    by (auto simp: s two fc served_a separate_def zeros_not_crlf short_linesI)
  let ?c = "\<lparr>conn_in = [Intr, Chunk (hd (written w)) (tl (written w))], conn_out = \<lparr>written = [], wevents = []\<rparr>, closed = False, console = []\<rparr>"
  have "read_data (conn_in ?c) = written w" using w(2) by (simp add: request_bytes_def lit_def)
  then obtain ht' F' c' where r: "do_server_request 8192 (replicate MAXLINE 0) (replicate MAXLINE 0) (replicate RIO_BUFSIZE 0) site_a (\<lambda>_. 0) 1 (init_cache 100) no_cells ?c = Inr (ht', F', c')"
      "sent c' = file_response ?d" "\<forall>resp. read_data resp = sent c' \<and> Fail \<notin> set resp \<longrightarrow>
          client_print 7 (replicate MAXLINE 0) (replicate RIO_BUFSIZE 0) resp (checksum [104, 105]) 2 False = Inr []"
    using spec [OF w(3), of ?c] by (auto simp: sending_def sent_def)
  have "read_data [Chunk (hd (sent c')) (tl (sent c'))] = sent c'" using r(2) by (simp add: file_response_def response_header_def lit_def)
  then have "client_print 7 (replicate MAXLINE 0) (replicate RIO_BUFSIZE 0) [Chunk (hd (sent c')) (tl (sent c'))] (checksum [104, 105]) 2 False = Inr []"
    using r(3) by simp
  then show ?thesis using w(1) r(1) by (auto simp: checksum_def)
qed

text \<open>C34.
  The index of a set of files: fileset writes the files and their index, and from it, however its bytes arrive, \<open>init_fileset\<close> reads back as many files, in order, each with its name, the
  checksum of its bytes and their number; so the checks that the client makes are those of the files on the disk. The name of the directory is one word.\<close>

theorem init_fileset_roundtrip:
  assumes "uri dir" "length dir \<le> 1000" "0 < k" "k \<le> 99999" "\<forall>i. 0 \<le> file_sz i \<and> file_sz i < 2 ^ 31" "\<forall>i. W_fail \<notin> set (wr i)" "W_fail \<notin> set wr_idx"
    "length junk = MAXLINE" "length rio_junk = RIO_BUFSIZE" "k < fuel" "nr_files cl = 0" "fileset cl = []"
  shows "\<exists>idx files. fileset_main dir k file_sz chars wr wr_idx = Inr (idx, files) \<and> length files = k \<and>
    idx = dec_nat k @ 10 # concat (map (\<lambda>x. index_line x @ [10]) files) \<and>
    (\<forall>i<k. fst (files ! i) = file_path dir i \<and> int (length (snd (files ! i))) = file_sz i) \<and>
    (\<forall>fd. read_data fd = idx \<and> Fail \<notin> set fd \<longrightarrow> init_fileset fuel junk rio_junk fd cl = Inr (cl\<lparr>nr_files := int k, fileset :=
      map (\<lambda>(name, bs). \<lparr>fi_name = Some name, fi_csum = Some (checksum bs), fi_len = Some (int (length bs))\<rparr>) files\<rparr>))"
proof -
  obtain idx where idx: "fileset_main dir k file_sz chars wr wr_idx = Inr (idx, map (fileset_of dir file_sz chars) [0..<k])"
    "idx = dec_nat k @ [10] @ concat (map (\<lambda>l. l @ [10]) (map (\<lambda>j. index_line (fileset_of dir file_sz chars j)) [0..<k]))"
    "\<And>fd. read_data fd = idx \<Longrightarrow> Fail \<notin> set fd \<Longrightarrow>
      init_fileset fuel junk rio_junk fd cl = Inr (cl\<lparr>nr_files := int k, fileset := map (info_of \<circ> fileset_of dir file_sz chars) [0..<k]\<rparr>)"
    by (rule init_fileset_index [where file_sz = file_sz and wr = wr and chars = chars, OF assms(1-4) spec [OF assms(5)] spec [OF assms(6)] assms(7-12)]) blast
  have "\<forall>i<k. fst (map (fileset_of dir file_sz chars) [0..<k] ! i) = file_path dir i \<and> int (length (snd (map (fileset_of dir file_sz chars) [0..<k] ! i))) = file_sz i"
    using assms(5) by (simp add: fileset_of_def)
  then show ?thesis using idx by (intro exI [of _ idx] exI [of _ "map (fileset_of dir file_sz chars) [0..<k]"]) (simp add: info_of_def comp_def)
qed

theorem init_fileset_roundtrip_witness:
  "\<exists>idx files cl. fileset_main [100] 2 (\<lambda>_. 5) (\<lambda>i j. i + j) (\<lambda>_. []) [] = Inr (idx, files) \<and> length files = 2 \<and>
    init_fileset 3 (replicate MAXLINE 0) (replicate RIO_BUFSIZE 0) [Intr, Chunk (hd idx) (tl idx)]
      \<lparr>host = [], nr_times = 1, fileset = [], nr_files = 0, timing_mode = False\<rparr> = Inr cl \<and> nr_files cl = 2"
proof -
  let ?cl = "\<lparr>host = [], nr_times = 1, fileset = [], nr_files = 0, timing_mode = False\<rparr>"
  obtain idx files where r: "fileset_main [100] 2 (\<lambda>_. 5) (\<lambda>i j. i + j) (\<lambda>_. []) [] = Inr (idx, files)" "length files = 2"
    "idx = dec_nat 2 @ 10 # concat (map (\<lambda>x. index_line x @ [10]) files)" "\<forall>fd. read_data fd = idx \<and> Fail \<notin> set fd \<longrightarrow> init_fileset 3 (replicate MAXLINE 0) (replicate RIO_BUFSIZE 0) fd ?cl = Inr (?cl\<lparr>nr_files := int 2, fileset :=
      map (\<lambda>(name, bs). \<lparr>fi_name = Some name, fi_csum = Some (checksum bs), fi_len = Some (int (length bs))\<rparr>) files\<rparr>)"
    using init_fileset_roundtrip [of "[100]" 2 "\<lambda>_. 5" "\<lambda>_. []" "[]" "replicate MAXLINE 0" "replicate RIO_BUFSIZE 0" 3 ?cl "\<lambda>i j. i + j"]
    by (auto simp: uri_def is_space_def)
  have "init_fileset 3 (replicate MAXLINE 0) (replicate RIO_BUFSIZE 0) [Intr, Chunk (hd idx) (tl idx)] ?cl = Inr (?cl\<lparr>nr_files := int 2, fileset :=
      map (\<lambda>(name, bs). \<lparr>fi_name = Some name, fi_csum = Some (checksum bs), fi_len = Some (int (length bs))\<rparr>) files\<rparr>)"
    by (rule mp [OF spec [OF r(4)]]) (use r(3) in simp)
  then show ?thesis using r(1,2) by (intro exI [of _ idx] exI [of _ files]) auto
qed

text \<open>C39.
  The files that fileset writes have no newline, so the client reads them in pieces of its whole buffer: the response with such a file is accepted exactly
  when the file has less than 8192 bytes; with 8192 bytes or more the NUL that ends the piece is written one byte behind the buffer.\<close>

theorem fileset_file_overflow:
  assumes "0 \<le> file_sz i" "file_sz i < 2 ^ 31" "d = \<lparr>file_name = path, file_buf = snd (fileset_of dir file_sz chars i), file_size = file_sz i\<rparr>"
    "read_data resp = file_response d" "Fail \<notin> set resp" "length junk = MAXBUF" "length rio_junk = RIO_BUFSIZE" "length (file_buf d) + 5 \<le> fuel"
  shows "client_print fuel junk rio_junk resp (checksum (file_buf d)) (file_size d) print =
    (if file_sz i < 8192 then Inr (if print then printed d else []) else Inl Bad_access)"
proof -
  have len: "length (file_buf d) = nat (file_sz i)" using assms(3) by (simp add: fileset_of_def)
  have d: "file_ok d" "0 \<le> file_size d" using assms(1-3) len by (simp_all add: file_ok_def)
  have "(10 :: u8) < 32" by simp
  then have "10 \<notin> set (file_buf d)" using fileset_bytes_printable [of 10 "chars i" 0 "file_sz i"] assms(3) by (auto simp: fileset_of_def)
  then have nl: "10 \<notin> set (take MAXBUF (file_buf d))" by (meson in_set_takeD)
  show ?thesis
  proof (cases "file_sz i < 8192")
    case True
    then have "short_lines MAXBUF (file_buf d)" using len assms(1) by (intro short_linesI) simp
    then show ?thesis using client_print_ok [OF d _ assms(4-8)] True by simp
  next
    case False
    then have "MAXBUF \<le> length (file_buf d)" using len by simp
    then show ?thesis using client_print_long_line [OF d _ nl assms(4-7)] assms(8) False by simp
  qed
qed

theorem fileset_file_overflow_witness:
  "\<exists>d. file_size d = 9000 \<and> client_print 9005 (replicate MAXBUF 0) (replicate RIO_BUFSIZE 0) [Chunk (hd (file_response d)) (tl (file_response d))]
    (checksum (file_buf d)) (file_size d) True = Inl Bad_access"
proof -
  let ?d = "\<lparr>file_name = [97], file_buf = snd (fileset_of [100] (\<lambda>_. 9000) (\<lambda>_ _. 7) 0), file_size = 9000\<rparr>"
  have "file_response ?d \<noteq> []" by (simp add: file_response_def response_header_def lit_def)
  then have rd: "read_data [Chunk (hd (file_response ?d)) (tl (file_response ?d))] = file_response ?d" by simp
  have len: "length (file_buf ?d) = 9000" by (simp add: fileset_of_def)
  have "client_print 9005 (replicate MAXBUF 0) (replicate RIO_BUFSIZE 0) [Chunk (hd (file_response ?d)) (tl (file_response ?d))]
      (checksum (file_buf ?d)) (file_size ?d) True = (if (9000 :: int) < 8192 then Inr (if True then printed ?d else []) else Inl Bad_access)"
    by (rule fileset_file_overflow [where file_sz = "\<lambda>_. 9000" and i = 0 and dir = "[100]" and chars = "\<lambda>_ _. 7", OF _ _ refl rd]) (use len in simp_all)
  then show ?thesis by (intro exI [of _ ?d]) simp
qed

section \<open>All requests of a thread\<close>

text \<open>A connection that answers with the file that is asked for, in any chunks.\<close>

definition answers :: "(u8 list \<Rightarrow> u8 list) \<Rightarrow> u8 list \<times> u8 list \<Rightarrow> read_event list \<Rightarrow> bool" where
  "answers path = (\<lambda>(name, bs) resp. Fail \<notin> set resp \<and>
     read_data resp = file_response \<lparr>file_name = path name, file_buf = bs, file_size = int (length bs)\<rparr>)"

definition fetchable :: "u8 list \<Rightarrow> nat \<Rightarrow> u8 list \<times> u8 list \<Rightarrow> bool" where
  "fetchable hst fuel = (\<lambda>(name, bs). length name + length hst < 8000 \<and> length bs + 5 \<le> fuel \<and> length bs < 2 ^ 31 \<and> short_lines MAXBUF bs)"

lemma client_request_ok:
  assumes "fileset cl = map info_of files" "\<And>i. 0 < fnr i \<and> fnr i \<le> length files" "\<And>i. W_fail \<notin> set (wr i)"
    and "\<And>x. x \<in> set files \<Longrightarrow> fetchable (host cl) fuel x"
    and "\<And>i x. x = files ! (fnr i - 1) \<Longrightarrow> answers path x (reply i (request_bytes (host cl) (fst x)))"
    and "length junk = MAXBUF" "length rio_junk = RIO_BUFSIZE" "timing_mode cl"
  shows "client_request fuel junk rio_junk fnr wr reply cl = Inr []"
proof -
  have "client_request_from fuel junk rio_junk fnr wr reply cl k i = Inr []" for k i
  proof (induction k arbitrary: i)
    case (Suc k)
    obtain name bs where x: "files ! (fnr i - 1) = (name, bs)" by (cases "files ! (fnr i - 1)")
    have m: "fnr i - 1 < length files" "\<not> (fnr i = 0 \<or> length (fileset cl) < fnr i)" using assms(1) assms(2) [of i] by auto
    then have fe: "fetchable (host cl) fuel (name, bs)" using assms(4) nth_mem x by metis
    have fi: "fileset cl ! (fnr i - 1) = info_of (name, bs)" using assms(1) m(1) x by simp
    obtain w where w: "client_send \<lparr>written = [], wevents = wr i\<rparr> (host cl) name = Inr w" "written w = request_bytes (host cl) name"
      using client_send_ok [of "\<lparr>written = [], wevents = wr i\<rparr>" name "host cl"] assms(3) [of i] fe by (auto simp: fetchable_def)
    let ?d = "\<lparr>file_name = path name, file_buf = bs, file_size = int (length bs)\<rparr>"
    have a: "read_data (reply i (written w)) = file_response ?d" "Fail \<notin> set (reply i (written w))"
      using assms(5) [OF x [symmetric]] w(2) by (simp_all add: answers_def)
    have "client_print fuel junk rio_junk (reply i (written w)) (checksum (file_buf ?d)) (file_size ?d) False = Inr (if False then printed ?d else [])"
      by (rule client_print_ok [OF _ _ _ a assms(6,7)]) (use fe in \<open>simp_all add: fetchable_def file_ok_def\<close>)
    then show ?case using m(2) fi w(1) Suc assms(8) by (simp add: info_of_def)
  qed simp
  then show ?thesis by (simp add: client_request_def)
qed

end
