(* ===== verification/Threads.thy ===== *)
theory Threads
  imports Slist
begin

text \<open>
  The user-level threads of threads/thread.c. A thread control block is a cell; the running thread is \<open>RUNNING_THREAD\<close>, the
  others are chained from \<open>READY_HEAD\<close>, \<open>TO_DELETE_THREAD\<close> or a wait queue. The saved context of a thread is the
  point it continues at: its start (function and argument, as opaque values), or behind the getcontext of
  \<open>thread_yield\<close> and \<open>thread_sleep\<close> with their locals and the callers that wait for them to return (\<open>frame\<close>).
  A call either returns a value to the running thread or switches, which it does in setcontext: then \<open>resume\<close> is
  what the thread that now runs does next. Registers and stacks are not modelled beyond that; a stack is an allocated cell.
  \<open>interrupts\<close> is whether the signal that preempts is enabled; the handler calls \<open>thread_yield(THREAD_ANY)\<close>.
\<close>

section \<open>State\<close>

abbreviation THREAD_MAX_THREADS :: nat where "THREAD_MAX_THREADS \<equiv> 1024"
abbreviation THREAD_ANY :: int where "THREAD_ANY \<equiv> - 1"
abbreviation THREAD_SELF :: int where "THREAD_SELF \<equiv> - 2"
abbreviation THREAD_INVALID :: int where "THREAD_INVALID \<equiv> - 3"
abbreviation THREAD_NONE :: int where "THREAD_NONE \<equiv> - 4"
abbreviation THREAD_NOMORE :: int where "THREAD_NOMORE \<equiv> - 5"
abbreviation THREAD_NOMEMORY :: int where "THREAD_NOMEMORY \<equiv> - 6"
abbreviation THREAD_FAILED :: int where "THREAD_FAILED \<equiv> - 7"
abbreviation NEW_STATE :: int where "NEW_STATE \<equiv> 1"
abbreviation RECOVER_STATE :: int where "RECOVER_STATE \<equiv> 2"

datatype frame = In_acquire nat int | In_cv_wait nat

datatype saved =
    Captured
  | Start nat nat
  | After int nat int "frame list"
  | After_self int "frame list"

record tcb =
  t_context :: saved
  t_tid :: int
  t_state :: int
  t_next :: nat
  t_sp :: nat
  t_flag :: int

record wait_queue =
  wait_head :: nat
  wq_size :: int

record lock =
  l_queue :: nat
  lock_state :: int

record threads =
  READY_HEAD :: nat
  RUNNING_THREAD :: nat
  TO_DELETE_THREAD :: nat
  thread_id_array :: "int list"
  tcbs :: "tcb cells"
  stacks :: "unit cells"
  queues :: "wait_queue cells"
  locks :: "lock cells"
  cvs :: "nat cells"
  interrupts :: int

datatype event = Returns int | Switches | Enters nat nat

type_synonym outcome = "(event \<times> threads) res"

definition tcb_at :: "threads \<Rightarrow> nat \<Rightarrow> tcb res" where
  "tcb_at s a = cell_at (tcbs s) a"

definition upd_tcb :: "threads \<Rightarrow> nat \<Rightarrow> (tcb \<Rightarrow> tcb) \<Rightarrow> threads res" where
  "upd_tcb s a f = rbind (put_cell (tcbs s) a f) (\<lambda>m. Inr (s\<lparr>tcbs := m\<rparr>))"

definition id_at :: "threads \<Rightarrow> int \<Rightarrow> int res" where
  "id_at s i = (if 0 \<le> i \<and> nat i < length (thread_id_array s) then Inr (thread_id_array s ! nat i) else Inl Bad_access)"

definition set_id :: "threads \<Rightarrow> int \<Rightarrow> int \<Rightarrow> threads res" where
  "set_id s i v =
     (if 0 \<le> i \<and> nat i < length (thread_id_array s) then Inr (s\<lparr>thread_id_array := (thread_id_array s)[nat i := v]\<rparr>) else Inl Bad_access)"

definition interrupts_set :: "threads \<Rightarrow> int \<Rightarrow> int \<times> threads" where
  "interrupts_set s enabled = (interrupts s, s\<lparr>interrupts := (if enabled \<noteq> 0 then 1 else 0)\<rparr>)"

definition interrupts_on :: "threads \<Rightarrow> int \<times> threads" where
  "interrupts_on s = interrupts_set s 1"

definition interrupts_off :: "threads \<Rightarrow> int \<times> threads" where
  "interrupts_off s = interrupts_set s 0"

definition interrupts_enabled :: "threads \<Rightarrow> int" where
  "interrupts_enabled s = interrupts s"

text \<open>\<open>interrupts_set(enabled); return r;\<close>\<close>

definition restore :: "int \<Rightarrow> int \<Rightarrow> threads \<Rightarrow> event \<times> threads" where
  "restore enabled r s = (Returns r, snd (interrupts_set s enabled))"

section \<open>Creating and deleting\<close>

fun free_id_from :: "int list \<Rightarrow> int \<Rightarrow> int" where
  "free_id_from [] i = THREAD_NOMORE"
| "free_id_from (u # us) i = (if u = 0 then i else free_id_from us (i + 1))"

definition assign_thread_id :: "threads \<Rightarrow> int" where
  "assign_thread_id s = free_id_from (thread_id_array s) 0"

definition thread_init :: "threads \<Rightarrow> threads" where
  "thread_init s =
     (case new_cell (tcbs s) \<lparr>t_context = Captured, t_tid = 0, t_state = NEW_STATE, t_next = 0, t_sp = 0, t_flag = 0\<rparr> of (a, m) \<Rightarrow>
      s\<lparr>tcbs := m, thread_id_array := (replicate THREAD_MAX_THREADS 0)[0 := 1], RUNNING_THREAD := a\<rparr>)"

definition thread_id :: "threads \<Rightarrow> (int \<times> threads) res" where
  "thread_id s =
     (case interrupts_set s 0 of (enabled, s) \<Rightarrow>
      if RUNNING_THREAD s \<noteq> 0 then
        rbind (tcb_at s (RUNNING_THREAD s)) (\<lambda>run. Inr (t_tid run, snd (interrupts_set s enabled)))
      else Inr (THREAD_INVALID, snd (interrupts_set s enabled)))"

definition link_last :: "threads \<Rightarrow> nat \<Rightarrow> nat \<Rightarrow> threads res" where
  "link_last s head new_thread =
     rbind (last_cell t_next (next_cell (tcbs s)) (tcbs s) head) (\<lambda>temp. upd_tcb s temp (\<lambda>t. t\<lparr>t_next := new_thread\<rparr>))"

definition insert_thread_to_ready :: "threads \<Rightarrow> nat \<Rightarrow> threads res" where
  "insert_thread_to_ready s new_thread =
     (if READY_HEAD s = 0 then Inr (s\<lparr>READY_HEAD := new_thread\<rparr>) else link_last s (READY_HEAD s) new_thread)"

definition insert_thread_to_delete :: "threads \<Rightarrow> nat \<Rightarrow> threads res" where
  "insert_thread_to_delete s new_thread =
     (if TO_DELETE_THREAD s = 0 then Inr (s\<lparr>TO_DELETE_THREAD := new_thread\<rparr>) else link_last s (TO_DELETE_THREAD s) new_thread)"

text \<open>The loop of \<open>delete_threads_list\<close> and of \<open>wait_queue_destroy\<close>.\<close>

fun delete_from :: "nat \<Rightarrow> threads \<Rightarrow> nat \<Rightarrow> threads res" where
  "delete_from fuel s temp =
     (if temp = 0 then Inr s
      else (case fuel of 0 \<Rightarrow> Inl Out_of_fuel | Suc fuel \<Rightarrow>
        rbind (tcb_at s temp) (\<lambda>t.
        rbind (if t_tid t \<noteq> 0 \<and> t_sp t \<noteq> 0 then free_cell (stacks s) (t_sp t) else Inr (stacks s)) (\<lambda>st.
        rbind (free_cell (tcbs s) temp) (\<lambda>m. delete_from fuel (s\<lparr>stacks := st, tcbs := m\<rparr>) (t_next t))))))"

declare delete_from.simps [simp del]

definition delete_threads_list :: "threads \<Rightarrow> threads res" where
  "delete_threads_list s =
     rbind (delete_from (next_cell (tcbs s)) s (TO_DELETE_THREAD s)) (\<lambda>s. Inr (s\<lparr>TO_DELETE_THREAD := 0\<rparr>))"

text \<open>\<open>m1\<close> and \<open>m2\<close>: whether each malloc succeeds.\<close>

definition thread_create :: "bool \<Rightarrow> bool \<Rightarrow> nat \<Rightarrow> nat \<Rightarrow> threads \<Rightarrow> (int \<times> threads) res" where
  "thread_create m1 m2 fn parg s =
     (case interrupts_set s 0 of (enabled, s) \<Rightarrow>
      let new_id = assign_thread_id s in
      if new_id < 0 then Inr (THREAD_NOMORE, s)
      else if \<not> m1 then Inr (THREAD_NOMEMORY, s)
      else
        (case new_cell (tcbs s) \<lparr>t_context = Captured, t_tid = new_id, t_state = NEW_STATE, t_next = 0, t_sp = 0, t_flag = 0\<rparr> of (new_thread, m) \<Rightarrow>
        rbind (set_id (s\<lparr>tcbs := m\<rparr>) new_id 1) (\<lambda>s.
        if \<not> m2 then Inr (THREAD_NOMEMORY, s)
        else
          (case new_cell (stacks s) () of (sp, st) \<Rightarrow>
          rbind (upd_tcb (s\<lparr>stacks := st\<rparr>) new_thread (\<lambda>t. t\<lparr>t_sp := sp, t_context := Start fn parg\<rparr>)) (\<lambda>s.
          rbind (insert_thread_to_ready s new_thread) (\<lambda>s.
          let s = snd (interrupts_set s enabled) in
          rbind (tcb_at s new_thread) (\<lambda>t. Inr (t_tid t, s))))))))"

section \<open>Exit and yield\<close>

text \<open>\<open>while (temp->tid != tid)\<close> over the ready threads: \<open>(prev, temp)\<close> when it ends.\<close>

fun find_tid :: "nat \<Rightarrow> threads \<Rightarrow> int \<Rightarrow> nat \<Rightarrow> nat \<Rightarrow> (nat \<times> nat) res" where
  "find_tid 0 s tid prev temp = Inl Out_of_fuel"
| "find_tid (Suc fuel) s tid prev temp =
     rbind (tcb_at s temp) (\<lambda>t. if t_tid t \<noteq> tid then find_tid fuel s tid temp (t_next t) else Inr (prev, temp))"

definition thread_exit :: "int \<Rightarrow> threads \<Rightarrow> outcome" where
  "thread_exit tid s =
     (case interrupts_set s 0 of (enabled, s) \<Rightarrow>
      if tid = THREAD_SELF then
        if READY_HEAD s = 0 then Inr (Returns THREAD_NONE, s)
        else
          let temp = RUNNING_THREAD s; new_run = READY_HEAD s in
          rbind (tcb_at s new_run) (\<lambda>nr.
          rbind (upd_tcb (s\<lparr>READY_HEAD := t_next nr\<rparr>) temp (\<lambda>t. t\<lparr>t_next := 0\<rparr>)) (\<lambda>s.
          rbind (tcb_at s temp) (\<lambda>t.
          rbind (set_id s (t_tid t) 0) (\<lambda>s.
          rbind (insert_thread_to_delete s temp) (\<lambda>s.
          rbind (upd_tcb s new_run (\<lambda>t. t\<lparr>t_next := 0, t_state := RECOVER_STATE\<rparr>)) (\<lambda>s.
          Inr (Switches, s\<lparr>RUNNING_THREAD := new_run\<rparr>)))))))
      else if tid = THREAD_ANY then
        if READY_HEAD s = 0 then Inr (Returns THREAD_NONE, s)
        else
          rbind (tcb_at s (READY_HEAD s)) (\<lambda>t.
          rbind (upd_tcb s (READY_HEAD s) (\<lambda>t. t\<lparr>t_flag := 1\<rparr>)) (\<lambda>s.
          Inr (restore enabled (t_tid t) s)))
      else if tid > int THREAD_MAX_THREADS - 1 \<or> tid < THREAD_FAILED then Inr (Returns THREAD_INVALID, s)
      else
        rbind (id_at s tid) (\<lambda>used.
        if used = 0 then Inr (Returns THREAD_INVALID, s)
        else if READY_HEAD s = 0 then Inr (Returns THREAD_NONE, s)
        else
          rbind (find_tid (next_cell (tcbs s)) s tid (READY_HEAD s) (READY_HEAD s)) (\<lambda>(_, temp).
          rbind (tcb_at s temp) (\<lambda>t.
          rbind (upd_tcb s temp (\<lambda>t. t\<lparr>t_flag := 1\<rparr>)) (\<lambda>s.
          Inr (restore enabled (t_tid t) s))))))"

text \<open>What follows getcontext in \<open>thread_yield\<close> and \<open>thread_sleep\<close>, when it returns at once and when the thread is resumed.\<close>

definition after_getcontext :: "int \<Rightarrow> nat \<Rightarrow> int \<Rightarrow> threads \<Rightarrow> outcome" where
  "after_getcontext returned_tid temp enabled s =
     rbind (tcb_at s (RUNNING_THREAD s)) (\<lambda>run.
     rbind (if t_flag run \<noteq> 0 then thread_exit THREAD_SELF s else Inr (Returns 0, s)) (\<lambda>(ev, s).
     if ev = Switches then Inr (Switches, s)
     else
       rbind (if TO_DELETE_THREAD s \<noteq> 0 then delete_threads_list s else Inr s) (\<lambda>s.
       rbind (id_at s returned_tid) (\<lambda>used.
       if used = 0 then Inr (restore enabled returned_tid s)
       else
         rbind (tcb_at s temp) (\<lambda>t.
         rbind (tcb_at s (RUNNING_THREAD s)) (\<lambda>run.
         if t_state t = NEW_STATE \<and> t_state run \<noteq> RECOVER_STATE then
           rbind (upd_tcb s temp (\<lambda>t. t\<lparr>t_state := RECOVER_STATE\<rparr>)) (\<lambda>s. Inr (Switches, s\<lparr>RUNNING_THREAD := temp\<rparr>))
         else Inr (restore enabled returned_tid s)))))))"

text \<open>The running thread, which has been put in a queue, gives way to \<open>temp\<close>.\<close>

definition give_way :: "int \<Rightarrow> nat \<Rightarrow> int \<Rightarrow> frame list \<Rightarrow> threads \<Rightarrow> outcome" where
  "give_way returned_tid temp enabled frames s =
     rbind (upd_tcb s (RUNNING_THREAD s) (\<lambda>t. t\<lparr>t_state := NEW_STATE, t_context := After returned_tid temp enabled frames\<rparr>))
       (after_getcontext returned_tid temp enabled)"

definition thread_yield :: "int \<Rightarrow> frame list \<Rightarrow> threads \<Rightarrow> outcome" where
  "thread_yield want_tid frames s =
     (case interrupts_set s 0 of (enabled, s) \<Rightarrow>
      if want_tid = THREAD_ANY then
        if READY_HEAD s = 0 then Inr (restore enabled THREAD_NONE s)
        else
          let temp = READY_HEAD s in
          rbind (tcb_at s temp) (\<lambda>t.
          rbind (upd_tcb (s\<lparr>READY_HEAD := t_next t\<rparr>) temp (\<lambda>t. t\<lparr>t_next := 0\<rparr>)) (\<lambda>s.
          rbind (insert_thread_to_ready s (RUNNING_THREAD s)) (give_way (t_tid t) temp enabled frames)))
      else
        rbind (tcb_at s (RUNNING_THREAD s)) (\<lambda>run.
        if want_tid = THREAD_SELF \<or> want_tid = t_tid run then
          rbind (upd_tcb s (RUNNING_THREAD s) (\<lambda>t. t\<lparr>t_state := NEW_STATE, t_context := After_self enabled frames\<rparr>)) (\<lambda>s.
          rbind (upd_tcb s (RUNNING_THREAD s) (\<lambda>t. t\<lparr>t_state := RECOVER_STATE\<rparr>)) (\<lambda>s.
          Inr (restore enabled (t_tid run) s)))
        else if want_tid > int THREAD_MAX_THREADS - 1 \<or> want_tid < THREAD_FAILED then Inr (restore enabled THREAD_INVALID s)
        else
          rbind (id_at s want_tid) (\<lambda>used.
          if used = 0 then Inr (restore enabled THREAD_INVALID s)
          else
            rbind (find_tid (next_cell (tcbs s)) s want_tid (READY_HEAD s) (READY_HEAD s)) (\<lambda>(prev, temp).
            rbind (tcb_at s (READY_HEAD s)) (\<lambda>h.
            rbind (tcb_at s temp) (\<lambda>t.
            rbind (if t_tid h = want_tid then Inr (s\<lparr>READY_HEAD := t_next h\<rparr>) else upd_tcb s prev (\<lambda>p. p\<lparr>t_next := t_next t\<rparr>)) (\<lambda>s.
            rbind (upd_tcb s temp (\<lambda>t. t\<lparr>t_next := 0\<rparr>)) (\<lambda>s.
            rbind (insert_thread_to_ready s (RUNNING_THREAD s)) (give_way (t_tid t) temp enabled frames)))))))))"

section \<open>Wait queues\<close>

definition wait_queue_create :: "threads \<Rightarrow> nat \<times> threads" where
  "wait_queue_create s = (case new_cell (queues s) \<lparr>wait_head = 0, wq_size = 0\<rparr> of (wq, m) \<Rightarrow> (wq, s\<lparr>queues := m\<rparr>))"

definition wait_queue_destroy :: "nat \<Rightarrow> threads \<Rightarrow> threads res" where
  "wait_queue_destroy wq s =
     (if wq = 0 then Inr s
      else
        rbind (cell_at (queues s) wq) (\<lambda>q.
        rbind (delete_from (next_cell (tcbs s)) s (wait_head q)) (\<lambda>s.
        rbind (free_cell (queues s) wq) (\<lambda>m. Inr (s\<lparr>queues := m\<rparr>)))))"

definition upd_queue :: "threads \<Rightarrow> nat \<Rightarrow> (wait_queue \<Rightarrow> wait_queue) \<Rightarrow> threads res" where
  "upd_queue s wq f = rbind (put_cell (queues s) wq f) (\<lambda>m. Inr (s\<lparr>queues := m\<rparr>))"

definition insert_thread_to_wait :: "threads \<Rightarrow> nat \<Rightarrow> nat \<Rightarrow> threads res" where
  "insert_thread_to_wait s new_thread queue =
     rbind (cell_at (queues s) queue) (\<lambda>q.
     if wait_head q = 0 then upd_queue s queue (\<lambda>q. q\<lparr>wait_head := new_thread, wq_size := wq_size q + 1\<rparr>)
     else
       rbind (link_last s (wait_head q) new_thread) (\<lambda>s.
       upd_queue s queue (\<lambda>q. q\<lparr>wq_size := wq_size q + 1\<rparr>)))"

definition thread_sleep :: "nat \<Rightarrow> frame list \<Rightarrow> threads \<Rightarrow> outcome" where
  "thread_sleep queue frames s =
     (case interrupts_set s 0 of (enabled, s) \<Rightarrow>
      if queue = 0 then Inr (restore enabled THREAD_INVALID s)
      else if READY_HEAD s = 0 then Inr (restore enabled THREAD_NONE s)
      else
        let temp = READY_HEAD s in
        rbind (tcb_at s temp) (\<lambda>t.
        rbind (upd_tcb (s\<lparr>READY_HEAD := t_next t\<rparr>) temp (\<lambda>t. t\<lparr>t_next := 0\<rparr>)) (\<lambda>s.
        rbind (insert_thread_to_wait s (RUNNING_THREAD s) queue) (give_way (t_tid t) temp enabled frames))))"

definition thread_wakeup :: "nat \<Rightarrow> int \<Rightarrow> threads \<Rightarrow> (int \<times> threads) res" where
  "thread_wakeup queue all s =
     (case interrupts_set s 0 of (enabled, s) \<Rightarrow>
      if queue = 0 then Inr (0, snd (interrupts_set s enabled))
      else
        rbind (cell_at (queues s) queue) (\<lambda>q.
        if wait_head q = 0 then Inr (0, snd (interrupts_set s enabled))
        else if all = 0 then
          rbind
            (if wq_size q = 1 then
               rbind (insert_thread_to_ready s (wait_head q)) (\<lambda>s. upd_queue s queue (\<lambda>q. q\<lparr>wait_head := 0\<rparr>))
             else
               let temp = wait_head q in
               rbind (tcb_at s temp) (\<lambda>t.
               rbind (upd_queue s queue (\<lambda>q. q\<lparr>wait_head := t_next t\<rparr>)) (\<lambda>s.
               rbind (upd_tcb s temp (\<lambda>t. t\<lparr>t_next := 0\<rparr>)) (\<lambda>s.
               insert_thread_to_ready s temp))))
            (\<lambda>s. Inr (1, snd (interrupts_set s enabled)))
        else if all = 1 then
          rbind (insert_thread_to_ready s (wait_head q)) (\<lambda>s.
          rbind (upd_queue s queue (\<lambda>q. q\<lparr>wait_head := 0, wq_size := 0\<rparr>)) (\<lambda>s.
          Inr (wq_size q, snd (interrupts_set s enabled))))
        else Inr (0, snd (interrupts_set s enabled))))"

section \<open>Locks and condition variables\<close>

definition lock_create :: "threads \<Rightarrow> nat \<times> threads" where
  "lock_create s = (case wait_queue_create s of (wq, s) \<Rightarrow>
     case new_cell (locks s) \<lparr>l_queue = wq, lock_state = 0\<rparr> of (l, m) \<Rightarrow> (l, s\<lparr>locks := m\<rparr>))"

definition lock_destroy :: "nat \<Rightarrow> threads \<Rightarrow> threads res" where
  "lock_destroy l s =
     rbind (c_assert (l \<noteq> 0)) (\<lambda>_.
     rbind (cell_at (locks s) l) (\<lambda>lk.
     rbind (wait_queue_destroy (l_queue lk) s) (\<lambda>s.
     rbind (free_cell (locks s) l) (\<lambda>m. Inr (s\<lparr>locks := m\<rparr>)))))"

definition set_lock :: "threads \<Rightarrow> nat \<Rightarrow> int \<Rightarrow> threads res" where
  "set_lock s l v = rbind (put_cell (locks s) l (\<lambda>lk. lk\<lparr>lock_state := v\<rparr>)) (\<lambda>m. Inr (s\<lparr>locks := m\<rparr>))"

text \<open>\<open>lock_acquire\<close> from its loop on.\<close>

fun acquire_from :: "nat \<Rightarrow> nat \<Rightarrow> int \<Rightarrow> frame list \<Rightarrow> threads \<Rightarrow> outcome" where
  "acquire_from fuel l enabled frames s =
     rbind (cell_at (locks s) l) (\<lambda>lk.
     if lock_state lk = 1 then
       (case fuel of 0 \<Rightarrow> Inl Out_of_fuel | Suc fuel \<Rightarrow>
         rbind (thread_sleep (l_queue lk) (In_acquire l enabled # frames) s) (\<lambda>(ev, s).
         if ev = Switches then Inr (Switches, s) else acquire_from fuel l enabled frames s))
     else rbind (set_lock s l 1) (\<lambda>s. Inr (restore enabled 0 s)))"

declare acquire_from.simps [simp del]

definition lock_acquire :: "nat \<Rightarrow> nat \<Rightarrow> frame list \<Rightarrow> threads \<Rightarrow> outcome" where
  "lock_acquire fuel l frames s =
     rbind (c_assert (l \<noteq> 0)) (\<lambda>_. case interrupts_set s 0 of (enabled, s) \<Rightarrow> acquire_from fuel l enabled frames s)"

definition lock_release :: "nat \<Rightarrow> threads \<Rightarrow> threads res" where
  "lock_release l s =
     rbind (c_assert (l \<noteq> 0)) (\<lambda>_.
     case interrupts_set s 0 of (enabled, s) \<Rightarrow>
     rbind (set_lock s l 0) (\<lambda>s.
     rbind (cell_at (locks s) l) (\<lambda>lk.
     rbind (thread_wakeup (l_queue lk) 1 s) (\<lambda>(_, s). Inr (snd (interrupts_set s enabled))))))"

definition cv_create :: "threads \<Rightarrow> nat \<times> threads" where
  "cv_create s = (case wait_queue_create s of (wq, s) \<Rightarrow> case new_cell (cvs s) wq of (cv, m) \<Rightarrow> (cv, s\<lparr>cvs := m\<rparr>))"

definition cv_destroy :: "nat \<Rightarrow> threads \<Rightarrow> threads res" where
  "cv_destroy cv s =
     rbind (c_assert (cv \<noteq> 0)) (\<lambda>_.
     rbind (cell_at (cvs s) cv) (\<lambda>wq.
     rbind (wait_queue_destroy wq s) (\<lambda>s.
     rbind (free_cell (cvs s) cv) (\<lambda>m. Inr (s\<lparr>cvs := m\<rparr>)))))"

definition cv_wait :: "nat \<Rightarrow> nat \<Rightarrow> nat \<Rightarrow> frame list \<Rightarrow> threads \<Rightarrow> outcome" where
  "cv_wait fuel cv l frames s =
     rbind (c_assert (cv \<noteq> 0)) (\<lambda>_.
     rbind (c_assert (l \<noteq> 0)) (\<lambda>_.
     rbind (lock_release l s) (\<lambda>s.
     rbind (cell_at (cvs s) cv) (\<lambda>wq.
     rbind (thread_sleep wq (In_cv_wait l # frames) s) (\<lambda>(ev, s).
     if ev = Switches then Inr (Switches, s) else lock_acquire fuel l frames s)))))"

definition cv_signal :: "nat \<Rightarrow> nat \<Rightarrow> threads \<Rightarrow> threads res" where
  "cv_signal cv l s =
     rbind (c_assert (cv \<noteq> 0)) (\<lambda>_.
     rbind (c_assert (l \<noteq> 0)) (\<lambda>_.
     rbind (cell_at (cvs s) cv) (\<lambda>wq.
     rbind (thread_wakeup wq 0 s) (\<lambda>(_, s). Inr s))))"

definition cv_broadcast :: "nat \<Rightarrow> nat \<Rightarrow> threads \<Rightarrow> threads res" where
  "cv_broadcast cv l s =
     rbind (c_assert (cv \<noteq> 0)) (\<lambda>_.
     rbind (c_assert (l \<noteq> 0)) (\<lambda>_.
     rbind (cell_at (cvs s) cv) (\<lambda>wq.
     rbind (thread_wakeup wq 1 s) (\<lambda>(_, s). Inr s))))"

section \<open>Continuing a thread\<close>

text \<open>The callers that wait for \<open>thread_sleep\<close> to return.\<close>

fun return_to :: "nat \<Rightarrow> frame list \<Rightarrow> event \<times> threads \<Rightarrow> outcome" where
  "return_to fuel [] (ev, s) = Inr (ev, s)"
| "return_to fuel (In_acquire l enabled # fs) (ev, s) =
     (if ev = Switches then Inr (Switches, s) else rbind (acquire_from fuel l enabled fs s) (return_to fuel fs))"
| "return_to fuel (In_cv_wait l # fs) (ev, s) =
     (if ev = Switches then Inr (Switches, s) else rbind (lock_acquire fuel l fs s) (return_to fuel fs))"

text \<open>setcontext to the thread that runs now.\<close>

definition resume :: "nat \<Rightarrow> threads \<Rightarrow> outcome" where
  "resume fuel s =
     rbind (tcb_at s (RUNNING_THREAD s)) (\<lambda>run.
     case t_context run of
       Captured \<Rightarrow> Inl Bad_access
     | Start fn arg \<Rightarrow> Inr (Enters fn arg, snd (interrupts_set s 1))
     | After returned_tid temp enabled frames \<Rightarrow> rbind (after_getcontext returned_tid temp enabled s) (return_to fuel frames)
     | After_self enabled frames \<Rightarrow> return_to fuel frames (restore enabled (t_tid run) s))"

text \<open>\<open>thread_stub\<close> after its function has returned.\<close>

definition thread_stub_end :: "threads \<Rightarrow> outcome" where
  "thread_stub_end s =
     rbind (thread_exit THREAD_SELF s) (\<lambda>(ev, s).
     case ev of Returns ret \<Rightarrow> rbind (c_assert (ret = THREAD_NONE)) (\<lambda>_. Inl (Exit_with ''exit(0)'')) | ev \<Rightarrow> Inr (ev, s))"

section \<open>Preemption\<close>

text \<open>The handler of the timer signal, without what it prints and the new timer.\<close>

definition interrupt_handler :: "threads \<Rightarrow> outcome" where
  "interrupt_handler s = rbind (c_assert (interrupts_enabled s = 0)) (\<lambda>_. thread_yield THREAD_ANY [] s)"

end
