(* ===== verification/Thread_Lists.thy ===== *)
theory Thread_Lists
  imports Threads
begin

text \<open>
  The lists of threads of threads/thread.c: the ready threads, those to delete, and the wait queues, all chained by the one
  \<open>next\<close> field. \<open>lists_ok s L\<close>: for every list \<open>i\<close>, the threads \<open>L i\<close> are chained from its head, and no thread is on two
  lists. \<open>single s a L\<close>: the thread \<open>a\<close> is on none. \<open>relinked s s'\<close>: only links have changed.
  Lemmas: inserting appends to a list, and taking the first one away leaves the rest.
\<close>

datatype list_id = Ready | Deleted | Waiting nat

definition head_of :: "threads \<Rightarrow> list_id \<Rightarrow> nat" where
  "head_of s i = (case i of Ready \<Rightarrow> READY_HEAD s | Deleted \<Rightarrow> TO_DELETE_THREAD s
     | Waiting q \<Rightarrow> (case cell (queues s) q of Some w \<Rightarrow> wait_head w | None \<Rightarrow> 0))"

abbreviation tchain :: "threads \<Rightarrow> nat \<Rightarrow> nat list \<Rightarrow> bool" where
  "tchain s p as \<equiv> chain t_next (cell (tcbs s)) p as 0"

definition lists_ok :: "threads \<Rightarrow> (list_id \<Rightarrow> nat list) \<Rightarrow> bool" where
  "lists_ok s L \<longleftrightarrow> cells_wf (tcbs s) \<and> (\<forall>i. tchain s (head_of s i) (L i)) \<and> (\<forall>i j. i \<noteq> j \<longrightarrow> set (L i) \<inter> set (L j) = {})"

definition single :: "threads \<Rightarrow> nat \<Rightarrow> (list_id \<Rightarrow> nat list) \<Rightarrow> bool" where
  "single s a L \<longleftrightarrow> (\<exists>t. cell (tcbs s) a = Some t \<and> t_next t = 0) \<and> (\<forall>i. a \<notin> set (L i))"

text \<open>A thread without its link.\<close>

definition tcb_of :: "threads \<Rightarrow> nat \<Rightarrow> tcb option" where
  "tcb_of s a = map_option (\<lambda>t. t\<lparr>t_next := 0\<rparr>) (cell (tcbs s) a)"

definition relinked :: "threads \<Rightarrow> threads \<Rightarrow> bool" where
  "relinked s s' \<longleftrightarrow> tcb_of s' = tcb_of s \<and> next_cell (tcbs s') = next_cell (tcbs s) \<and>
     thread_id_array s' = thread_id_array s \<and> stacks s' = stacks s \<and> locks s' = locks s \<and> cvs s' = cvs s \<and>
     interrupts s' = interrupts s \<and> RUNNING_THREAD s' = RUNNING_THREAD s"

lemma lists_okD:
  assumes "lists_ok s L"
  shows "cells_wf (tcbs s)" "tchain s (head_of s i) (L i)" "i \<noteq> j \<Longrightarrow> set (L i) \<inter> set (L j) = {}"
  using assms by (auto simp: lists_ok_def)

lemma singleE:
  assumes "single s a L"
  obtains t where "cell (tcbs s) a = Some t" "t_next t = 0" "\<forall>i. a \<notin> set (L i)"
  using assms unfolding single_def by blast

lemma head_empty: "lists_ok s L \<Longrightarrow> head_of s i = 0 \<longleftrightarrow> L i = []"
  using chain_null [OF lists_okD(2)] by blast

lemma listed_tcb: "lists_ok s L \<Longrightarrow> a \<in> set (L i) \<Longrightarrow> \<exists>t. cell (tcbs s) a = Some t"
  using chain_in [OF lists_okD(2)] by blast

text \<open>The state with the link of one thread set.\<close>

definition set_link :: "threads \<Rightarrow> nat \<Rightarrow> nat \<Rightarrow> threads" where
  "set_link s a v = s\<lparr>tcbs := tcbs s\<lparr>cell := (cell (tcbs s))(a \<mapsto> the (cell (tcbs s) a)\<lparr>t_next := v\<rparr>)\<rparr>\<rparr>"

named_theorems link_simps \<open>the state after a link has been set\<close>

lemma upd_tcb_link [link_simps]:
  "cell (tcbs s) a \<noteq> None \<Longrightarrow> upd_tcb s a (\<lambda>t. t\<lparr>t_next := v\<rparr>) = Inr (set_link s a v)"
  by (auto simp: upd_tcb_def set_link_def)

lemma set_link_sel [simp]:
  "READY_HEAD (set_link s a v) = READY_HEAD s" "TO_DELETE_THREAD (set_link s a v) = TO_DELETE_THREAD s"
  "RUNNING_THREAD (set_link s a v) = RUNNING_THREAD s" "queues (set_link s a v) = queues s"
  "head_of (set_link s a v) i = head_of s i" "next_cell (tcbs (set_link s a v)) = next_cell (tcbs s)"
  "thread_id_array (set_link s a v) = thread_id_array s" "interrupts (set_link s a v) = interrupts s"
  "stacks (set_link s a v) = stacks s" "locks (set_link s a v) = locks s" "cvs (set_link s a v) = cvs s"
  by (simp_all add: set_link_def head_of_def split: list_id.splits)

lemma cell_set_link:
  "cell (tcbs (set_link s a v)) b = (if a = b then Some (the (cell (tcbs s) a)\<lparr>t_next := v\<rparr>) else cell (tcbs s) b)"
  by (simp add: set_link_def)

lemma cells_wf_set_link: "cells_wf (tcbs s) \<Longrightarrow> cell (tcbs s) a \<noteq> None \<Longrightarrow> cells_wf (tcbs (set_link s a v))"
  by (auto simp: set_link_def)

lemma tcb_of_set_link: "cell (tcbs s) a \<noteq> None \<Longrightarrow> tcb_of (set_link s a v) = tcb_of s"
  by (rule ext) (auto simp: tcb_of_def cell_set_link)

lemma relinked_set_link: "cell (tcbs s) a \<noteq> None \<Longrightarrow> relinked s (set_link s a v)"
  by (simp add: relinked_def tcb_of_set_link)

lemma relinked_trans: "relinked s t \<Longrightarrow> relinked t u \<Longrightarrow> relinked s u"
  by (simp add: relinked_def)

lemma chain_set_link: "a \<notin> set as \<Longrightarrow> chain t_next (cell (tcbs (set_link s a v))) p as q = chain t_next (cell (tcbs s)) p as q"
  by (simp add: set_link_def)

section \<open>Appending to a list\<close>

lemma link_last_chain:
  assumes wf: "cells_wf (tcbs s)" and c: "tchain s p as" "as \<noteq> []" and a: "cell (tcbs s) a = Some t" "t_next t = 0" "a \<notin> set as"
  shows "link_last s p a = Inr (set_link s (last as) a) \<and> tchain (set_link s (last as) a) p (as @ [a])"
proof -
  obtain S z where S: "as = S @ [z]" using c(2) by (metis rev_exhaust)
  obtain e where e: "cell (tcbs s) z = Some e" using chain_in [OF c(1), of z] S by auto
  have a0: "a \<noteq> 0" using a(1) cells_wf_none(1) [OF wf] by (intro notI) simp
  have "last_cell t_next (next_cell (tcbs s)) (tcbs s) p = Inr z"
    using last_cell_chain [OF c, of "next_cell (tcbs s)"] chain_bound [OF c(1) wf] S by simp
  moreover have "tchain (set_link s z a) p (S @ [z, a])"
    using chain_link_last [of t_next "cell (tcbs s)" p S z e a t "e\<lparr>t_next := a\<rparr>"] c(1) e a a0 S by (simp add: set_link_def)
  ultimately show ?thesis using S e by (simp add: link_last_def upd_tcb_link)
qed

text \<open>The state with the head of a list set.\<close>

definition set_head :: "threads \<Rightarrow> list_id \<Rightarrow> nat \<Rightarrow> threads" where
  "set_head s i v = (case i of Ready \<Rightarrow> s\<lparr>READY_HEAD := v\<rparr> | Deleted \<Rightarrow> s\<lparr>TO_DELETE_THREAD := v\<rparr>
     | Waiting q \<Rightarrow> s\<lparr>queues := queues s\<lparr>cell := (cell (queues s))(q \<mapsto> the (cell (queues s) q)\<lparr>wait_head := v\<rparr>)\<rparr>\<rparr>)"

lemma set_head_sel [simp]:
  "tcbs (set_head s i v) = tcbs s" "head_of (set_head s i v) j = (if i = j then v else head_of s j)"
  "RUNNING_THREAD (set_head s i v) = RUNNING_THREAD s" "thread_id_array (set_head s i v) = thread_id_array s"
  "interrupts (set_head s i v) = interrupts s" "stacks (set_head s i v) = stacks s" "locks (set_head s i v) = locks s"
  "cvs (set_head s i v) = cvs s"
  by (auto simp: set_head_def head_of_def split: list_id.splits)

lemma relinked_set_head [simp]: "relinked s (set_head s i v)"
  by (simp add: relinked_def tcb_of_def fun_eq_iff)

definition append_to :: "threads \<Rightarrow> (list_id \<Rightarrow> nat list) \<Rightarrow> list_id \<Rightarrow> nat \<Rightarrow> threads" where
  "append_to s L i a = (if L i = [] then set_head s i a else set_link s (last (L i)) a)"

lemma append_to_ok:
  assumes L: "lists_ok s L" and a: "single s a L"
  shows "lists_ok (append_to s L i a) (L(i := L i @ [a]))" "relinked s (append_to s L i a)"
    "L i \<noteq> [] \<Longrightarrow> link_last s (head_of s i) a = Inr (append_to s L i a)"
proof -
  obtain t where t: "cell (tcbs s) a = Some t" "t_next t = 0" "\<forall>i. a \<notin> set (L i)" by (rule singleE [OF a])
  have a0: "a \<noteq> 0" using t(1) cells_wf_none(1) [OF lists_okD(1) [OF L]] by (intro notI) simp
  note ll = link_last_chain [OF lists_okD(1) [OF L] lists_okD(2) [OF L, of i] _ t(1,2) spec [OF t(3)]]
  have z: "cell (tcbs s) (last (L i)) \<noteq> None" if "L i \<noteq> []" using listed_tcb [OF L, of "last (L i)" i] that by auto
  have "tchain (append_to s L i a) (head_of (append_to s L i a) j) ((L(i := L i @ [a])) j)" for j
  proof (cases "L i = []")
    case True
    then show ?thesis using lists_okD(2) [OF L, of j] t a0 by (simp add: append_to_def)
  next
    case False
    show ?thesis
    proof (cases "j = i")
      case True
      then show ?thesis using ll False by (simp add: append_to_def)
    next
      case ji: False
      have "last (L i) \<notin> set (L j)" using lists_okD(3) [OF L ji] last_in_set [OF False] by blast
      then show ?thesis using False ji lists_okD(2) [OF L, of j] by (simp add: append_to_def chain_set_link)
    qed
  qed
  moreover have "cells_wf (tcbs (append_to s L i a))"
    using lists_okD(1) [OF L] cells_wf_set_link [OF _ z] by (simp add: append_to_def)
  moreover have "set ((L(i := L i @ [a])) j) \<inter> set ((L(i := L i @ [a])) k) = {}" if "j \<noteq> k" for j k
    using lists_okD(3) [OF L that] t(3) that by auto
  ultimately show "lists_ok (append_to s L i a) (L(i := L i @ [a]))" unfolding lists_ok_def by blast
  show "relinked s (append_to s L i a)" using relinked_set_link [OF z] by (simp add: append_to_def)
  show "link_last s (head_of s i) a = Inr (append_to s L i a)" if "L i \<noteq> []" using ll that by (simp add: append_to_def)
qed

lemma insert_ready_eq:
  assumes "lists_ok s L" "single s a L"
  shows "insert_thread_to_ready s a = Inr (append_to s L Ready a)"
proof (cases "L Ready = []")
  case True
  then show ?thesis using head_empty [OF assms(1), of Ready]
    by (simp add: insert_thread_to_ready_def append_to_def head_of_def set_head_def)
next
  case False
  then show ?thesis using head_empty [OF assms(1), of Ready] append_to_ok(3) [OF assms, of Ready]
    by (simp add: insert_thread_to_ready_def head_of_def)
qed

lemma insert_delete_eq:
  assumes "lists_ok s L" "single s a L"
  shows "insert_thread_to_delete s a = Inr (append_to s L Deleted a)"
proof (cases "L Deleted = []")
  case True
  then show ?thesis using head_empty [OF assms(1), of Deleted]
    by (simp add: insert_thread_to_delete_def append_to_def head_of_def set_head_def)
next
  case False
  then show ?thesis using head_empty [OF assms(1), of Deleted] append_to_ok(3) [OF assms, of Deleted]
    by (simp add: insert_thread_to_delete_def head_of_def)
qed

section \<open>Taking the first of a list\<close>

lemma take_first:
  assumes L: "lists_ok s L" and i: "L i = a # as" and t: "cell (tcbs s) a = Some t"
  shows "lists_ok (set_link (set_head s i (t_next t)) a 0) (L(i := as))" "single (set_link (set_head s i (t_next t)) a 0) a (L(i := as))"
    "relinked s (set_link (set_head s i (t_next t)) a 0)"
proof -
  let ?s = "set_link (set_head s i (t_next t)) a 0"
  have c: "tchain s (head_of s i) (a # as)" using lists_okD(2) [OF L, of i] i by simp
  have as: "tchain s (t_next t) as" "a \<notin> set as" using c t chain_distinct [OF c] by auto
  have other: "a \<notin> set (L j)" if "j \<noteq> i" for j using lists_okD(3) [OF L that] i by auto
  have "tchain ?s (head_of ?s j) ((L(i := as)) j)" for j
    using lists_okD(2) [OF L, of j] as other [of j] by (cases "j = i") (simp_all add: chain_set_link)
  moreover have "cells_wf (tcbs ?s)" using lists_okD(1) [OF L] t by (intro cells_wf_set_link) simp_all
  moreover have "set ((L(i := as)) j) \<inter> set ((L(i := as)) k) = {}" if "j \<noteq> k" for j k
    using lists_okD(3) [OF L that] i that by auto
  ultimately show "lists_ok ?s (L(i := as))" unfolding lists_ok_def by blast
  show "single ?s a (L(i := as))" using t as(2) other by (auto simp: single_def cell_set_link)
  show "relinked s ?s"
    by (rule relinked_trans [OF relinked_set_head relinked_set_link]) (use t in simp)
qed

lemma single_relink:
  assumes "single s x L" "L i = a # as" "cell (tcbs s) a = Some t"
  shows "single (set_link (set_head s i (t_next t)) a 0) x (L(i := as))"
proof -
  have "x \<noteq> a" using assms(1,2) by (metis list.set_intros(1) single_def)
  then show ?thesis using assms by (auto simp: single_def cell_set_link dest: spec [of _ i])
qed

lemma single_append:
  assumes "single s x L" "x \<noteq> a" "lists_ok s L"
  shows "single (append_to s L i a) x (L(i := L i @ [a]))"
proof -
  have "x \<noteq> last (L i)" if "L i \<noteq> []" using assms(1) that by (metis last_in_set single_def)
  then show ?thesis using assms(1,2) by (auto simp: single_def append_to_def cell_set_link)
qed

end
