(* ===== verification/Thread_Spec.thy ===== *)
theory Thread_Spec
  imports Thread_Lists
begin

text \<open>
  The invariant of the threads of threads/thread.c and how a thread gives way. \<open>wf_at s L x\<close>: the lists hold the threads \<open>L\<close>, the
  thread \<open>x\<close> is on none of them, the threads that live (\<open>x\<close> and those not to be deleted) have different
  identifiers, which are marked in use, those in the lists can be switched to, and no two threads share a stack.
  \<open>threads_wf\<close> is that for the running thread.
\<close>

section \<open>Invariant\<close>

definition tid_of :: "threads \<Rightarrow> nat \<Rightarrow> int" where "tid_of s a = t_tid (the (tcb_of s a))"
definition state_of :: "threads \<Rightarrow> nat \<Rightarrow> int" where "state_of s a = t_state (the (tcb_of s a))"
definition flag_of :: "threads \<Rightarrow> nat \<Rightarrow> int" where "flag_of s a = t_flag (the (tcb_of s a))"
definition sp_of :: "threads \<Rightarrow> nat \<Rightarrow> nat" where "sp_of s a = t_sp (the (tcb_of s a))"

lemmas attr_defs = tid_of_def state_of_def flag_of_def sp_of_def

lemma attr_cell:
  "cell (tcbs s) a = Some t \<Longrightarrow> tid_of s a = t_tid t" "cell (tcbs s) a = Some t \<Longrightarrow> state_of s a = t_state t"
  "cell (tcbs s) a = Some t \<Longrightarrow> flag_of s a = t_flag t" "cell (tcbs s) a = Some t \<Longrightarrow> sp_of s a = t_sp t"
  by (simp_all add: attr_defs tcb_of_def)

definition listed :: "(list_id \<Rightarrow> nat list) \<Rightarrow> nat set" where
  "listed L = (\<Union>i\<in>- {Deleted}. set (L i))"

definition ids_ok :: "threads \<Rightarrow> nat set \<Rightarrow> bool" where
  "ids_ok s A \<longleftrightarrow> length (thread_id_array s) = THREAD_MAX_THREADS \<and> inj_on (tid_of s) A \<and>
     (\<forall>a\<in>A. 0 \<le> tid_of s a \<and> tid_of s a < int THREAD_MAX_THREADS \<and> thread_id_array s ! nat (tid_of s a) \<noteq> 0)"

definition stacks_ok :: "threads \<Rightarrow> bool" where
  "stacks_ok s \<longleftrightarrow> cells_wf (stacks s) \<and>
     (\<forall>a. tcb_of s a \<noteq> None \<longrightarrow> sp_of s a \<noteq> 0 \<longrightarrow> cell (stacks s) (sp_of s a) \<noteq> None) \<and>
     (\<forall>a b. tcb_of s a \<noteq> None \<longrightarrow> tcb_of s b \<noteq> None \<longrightarrow> sp_of s a \<noteq> 0 \<longrightarrow> sp_of s a = sp_of s b \<longrightarrow> a = b)"

definition wf_at :: "threads \<Rightarrow> (list_id \<Rightarrow> nat list) \<Rightarrow> nat \<Rightarrow> bool" where
  "wf_at s L x \<longleftrightarrow> lists_ok s L \<and> single s x L \<and> ids_ok s (insert x (listed L)) \<and> stacks_ok s \<and>
     (\<forall>a\<in>listed L. a \<noteq> RUNNING_THREAD s \<longrightarrow> state_of s a = NEW_STATE)"

abbreviation threads_wf :: "threads \<Rightarrow> (list_id \<Rightarrow> nat list) \<Rightarrow> bool" where
  "threads_wf s L \<equiv> wf_at s L (RUNNING_THREAD s)"

lemma wf_atD:
  assumes "wf_at s L x"
  shows "lists_ok s L" "single s x L" "ids_ok s (insert x (listed L))" "stacks_ok s"
    "a \<in> listed L \<Longrightarrow> a \<noteq> RUNNING_THREAD s \<Longrightarrow> state_of s a = NEW_STATE"
  using assms unfolding wf_at_def by blast+

text \<open>Links do not matter for the attributes, nor do they for the invariant when the same threads are alive.\<close>

lemma relinked_attrs:
  assumes "relinked s s'"
  shows "tid_of s' = tid_of s" "state_of s' = state_of s" "flag_of s' = flag_of s" "sp_of s' = sp_of s"
    "ids_ok s' = ids_ok s" "stacks_ok s' = stacks_ok s" "RUNNING_THREAD s' = RUNNING_THREAD s"
  using assms by (auto simp: relinked_def attr_defs fun_eq_iff ids_ok_def stacks_ok_def inj_on_def)

lemma wf_at_move:
  assumes W: "wf_at s L x" and r: "relinked s s'" and l: "lists_ok s' L'" "single s' y L'" "insert y (listed L') = insert x (listed L)"
    and st: "\<forall>a\<in>listed L'. a \<noteq> RUNNING_THREAD s \<longrightarrow> state_of s a = NEW_STATE"
  shows "wf_at s' L' y"
  using wf_atD [OF W] l st relinked_attrs [OF r] by (simp add: wf_at_def)

lemma listed_upd [simp]:
  "i \<noteq> Deleted \<Longrightarrow> listed (L(i := as)) = set as \<union> (\<Union>j\<in>- {Deleted, i}. set (L j))"
  "listed (L(Deleted := as)) = listed L"
  by (auto simp: listed_def split: if_splits)

lemma listed_split: "i \<noteq> Deleted \<Longrightarrow> listed L = set (L i) \<union> (\<Union>j\<in>- {Deleted, i}. set (L j))"
  by (auto simp: listed_def)

section \<open>Deleting threads\<close>

definition drop_cells :: "'e cells \<Rightarrow> nat set \<Rightarrow> 'e cells" where
  "drop_cells m A = m\<lparr>cell := (\<lambda>a. if a \<in> A then None else cell m a)\<rparr>"

definition drop_stacks :: "threads \<Rightarrow> nat set \<Rightarrow> unit cells" where
  "drop_stacks s A = drop_cells (stacks s) (sp_of s ` {a \<in> A. tid_of s a \<noteq> 0} - {0})"

lemma cell_drop_cells [simp]: "cell (drop_cells m A) a = (if a \<in> A then None else cell m a)" "next_cell (drop_cells m A) = next_cell m"
  by (simp_all add: drop_cells_def)

lemma drop_cells_simps: "drop_cells m {} = m" "drop_cells (m\<lparr>cell := (cell m)(a := None)\<rparr>) A = drop_cells m (insert a A)"
  by (cases m; auto simp: drop_cells_def)+

lemma delete_from_ok:
  assumes "tchain s p as" "length as \<le> fuel"
    "\<forall>a\<in>set as. sp_of s a \<noteq> 0 \<longrightarrow> cell (stacks s) (sp_of s a) \<noteq> None"
    "\<forall>a\<in>set as. \<forall>b\<in>set as. sp_of s a \<noteq> 0 \<longrightarrow> sp_of s a = sp_of s b \<longrightarrow> a = b"
  shows "delete_from fuel s p = Inr (s\<lparr>stacks := drop_stacks s (set as), tcbs := drop_cells (tcbs s) (set as)\<rparr>)"
  using assms
proof (induction as arbitrary: s p fuel)
  case Nil
  then show ?case by (simp add: delete_from.simps drop_stacks_def drop_cells_simps)
next
  case (Cons a as)
  obtain t where t: "p = a" "a \<noteq> 0" "cell (tcbs s) a = Some t" "tchain s (t_next t) as"
    using Cons.prems(1) by (auto split: option.splits)
  obtain f where f: "fuel = Suc f" "length as \<le> f" using Cons.prems(2) by (cases fuel) auto
  have na: "a \<notin> set as" using chain_distinct [OF Cons.prems(1)] by simp
  note at = attr_cell [OF t(3)]
  define st where "st = (if t_tid t \<noteq> 0 \<and> t_sp t \<noteq> 0 then stacks s\<lparr>cell := (cell (stacks s))(t_sp t := None)\<rparr> else stacks s)"
  have fr: "(if t_tid t \<noteq> 0 \<and> t_sp t \<noteq> 0 then free_cell (stacks s) (t_sp t) else Inr (stacks s)) = Inr st"
    using Cons.prems(3) at by (auto simp: st_def)
  let ?s = "s\<lparr>stacks := st, tcbs := tcbs s\<lparr>cell := (cell (tcbs s))(a := None)\<rparr>\<rparr>"
  have c: "tchain ?s (t_next t) as" using t(4) na by simp
  have sp: "sp_of ?s b = sp_of s b" "tid_of ?s b = tid_of s b" if "b \<in> set as" for b
    using that na by (auto simp: attr_defs tcb_of_def)
  have spa: "sp_of s b \<noteq> t_sp t" if "b \<in> set as" "t_sp t \<noteq> 0" for b
    using Cons.prems(4) that na at by auto
  have "delete_from f ?s (t_next t) = Inr (?s\<lparr>stacks := drop_stacks ?s (set as), tcbs := drop_cells (tcbs ?s) (set as)\<rparr>)"
  proof (rule Cons.IH [OF c f(2)])
    show "\<forall>b\<in>set as. sp_of ?s b \<noteq> 0 \<longrightarrow> cell (stacks ?s) (sp_of ?s b) \<noteq> None"
      using Cons.prems(3) sp(1) spa by (auto simp: st_def)
    show "\<forall>b\<in>set as. \<forall>c\<in>set as. sp_of ?s b \<noteq> 0 \<longrightarrow> sp_of ?s b = sp_of ?s c \<longrightarrow> b = c"
      using Cons.prems(4) sp(1) by simp
  qed
  moreover have "drop_stacks ?s (set as) = drop_stacks s (insert a (set as))"
  proof -
    have e: "sp_of ?s ` {b \<in> set as. tid_of ?s b \<noteq> 0} = sp_of s ` {b \<in> set as. tid_of s b \<noteq> 0}"
      using sp by (auto simp: image_iff)
    have i: "{b \<in> insert a (set as). tid_of s b \<noteq> 0} = (if t_tid t \<noteq> 0 then {a} else {}) \<union> {b \<in> set as. tid_of s b \<noteq> 0}"
      using at by auto
    show ?thesis
      unfolding drop_stacks_def e i
      by (cases "t_tid t \<noteq> 0 \<and> t_sp t \<noteq> 0") (auto simp: st_def drop_cells_simps at insert_Diff_if image_Un)
  qed
  moreover have "drop_cells (tcbs ?s) (set as) = drop_cells (tcbs s) (insert a (set as))" by (simp add: drop_cells_simps)
  ultimately show ?case using t f fr by (subst delete_from.simps) (simp add: tcb_at_def)
qed

text \<open>What stays when threads are deleted or changed.\<close>

definition kept :: "threads \<Rightarrow> threads \<Rightarrow> bool" where
  "kept s s' \<longleftrightarrow> queues s' = queues s \<and> locks s' = locks s \<and> cvs s' = cvs s \<and> interrupts s' = interrupts s \<and>
     thread_id_array s' = thread_id_array s \<and> READY_HEAD s' = READY_HEAD s"

lemma listed_not_deleted: "lists_ok s L \<Longrightarrow> a \<in> listed L \<Longrightarrow> a \<notin> set (L Deleted)"
  using lists_okD(3) by (fastforce simp: listed_def)

lemma delete_list_ok:
  assumes W: "wf_at s L x"
  shows "\<exists>s'. delete_threads_list s = Inr s' \<and> wf_at s' (L(Deleted := [])) x \<and> kept s s' \<and> RUNNING_THREAD s' = RUNNING_THREAD s \<and>
    tcb_of s' = (\<lambda>a. if a \<in> set (L Deleted) then None else tcb_of s a)"
proof -
  note L = wf_atD(1) [OF W] and X = wf_atD(2) [OF W] and I = wf_atD(3) [OF W] and S = wf_atD(4) [OF W]
  let ?D = "set (L Deleted)"
  define s' where "s' = s\<lparr>stacks := drop_stacks s ?D, tcbs := drop_cells (tcbs s) ?D, TO_DELETE_THREAD := 0\<rparr>"
  have cD: "tchain s (TO_DELETE_THREAD s) (L Deleted)" using lists_okD(2) [OF L, of Deleted] by (simp add: head_of_def)
  have al: "tcb_of s a \<noteq> None" if "a \<in> ?D" for a using listed_tcb [OF L that] by (auto simp: tcb_of_def)
  have len: "length (L Deleted) \<le> next_cell (tcbs s)" using chain_bound [OF cD lists_okD(1) [OF L]] by simp
  have sp1: "\<forall>a\<in>?D. sp_of s a \<noteq> 0 \<longrightarrow> cell (stacks s) (sp_of s a) \<noteq> None" using S al unfolding stacks_ok_def by blast
  have sp2: "\<forall>a\<in>?D. \<forall>b\<in>?D. sp_of s a \<noteq> 0 \<longrightarrow> sp_of s a = sp_of s b \<longrightarrow> a = b" using S al unfolding stacks_ok_def by blast
  have r: "delete_threads_list s = Inr s'"
    using delete_from_ok [OF cD len sp1 sp2] by (simp add: delete_threads_list_def s'_def)
  have c: "cell (tcbs s') a = (if a \<in> ?D then None else cell (tcbs s) a)" for a by (simp add: s'_def)
  have t: "tcb_of s' = (\<lambda>a. if a \<in> ?D then None else tcb_of s a)" by (rule ext) (simp add: tcb_of_def c)
  have at: "tid_of s' a = tid_of s a" "state_of s' a = state_of s a" "sp_of s' a = sp_of s a" if "a \<notin> ?D" for a
    using that by (simp_all add: attr_defs t)
  have hd: "head_of s' i = (if i = Deleted then 0 else head_of s i)" for i by (simp add: s'_def head_of_def split: list_id.splits)
  have "tchain s' (head_of s' i) ((L(Deleted := [])) i)" for i
  proof (cases "i = Deleted")
    case False
    have "tchain s' (head_of s i) (L i) = tchain s (head_of s i) (L i)"
      by (rule chain_cong) (use lists_okD(3) [OF L False] c in auto)
    then show ?thesis using False lists_okD(2) [OF L, of i] hd by simp
  qed (simp add: hd)
  moreover have "cells_wf (tcbs s')" using lists_okD(1) [OF L] by (auto simp: s'_def cells_wf_def)
  ultimately have L': "lists_ok s' (L(Deleted := []))" using lists_okD(3) [OF L] by (simp add: lists_ok_def)
  have xD: "x \<notin> ?D" using X by (simp add: single_def)
  have X': "single s' x (L(Deleted := []))" using X xD by (simp add: single_def c)
  have nD: "a \<notin> ?D" if "a \<in> insert x (listed L)" for a using that xD listed_not_deleted [OF L] by auto
  have arr: "thread_id_array s' = thread_id_array s" by (simp add: s'_def)
  have I': "ids_ok s' (insert x (listed (L(Deleted := []))))"
    using I nD at(1) unfolding ids_ok_def arr listed_upd(2) inj_on_def by auto
  have st: "cell (stacks s') (sp_of s a) \<noteq> None" if a: "a \<notin> ?D" "tcb_of s a \<noteq> None" "sp_of s a \<noteq> 0" for a
  proof -
    have "sp_of s a \<noteq> sp_of s b" if "b \<in> ?D" for b using S a al [OF that] that unfolding stacks_ok_def by metis
    then show ?thesis using S a(2,3) by (auto simp: s'_def drop_stacks_def stacks_ok_def)
  qed
  have "cells_wf (stacks s')" using S by (auto simp: s'_def drop_stacks_def stacks_ok_def cells_wf_def)
  then have S': "stacks_ok s'"
    unfolding stacks_ok_def using st S at(3) t by (auto simp: stacks_ok_def split: if_splits)
  have run: "RUNNING_THREAD s' = RUNNING_THREAD s" by (simp add: s'_def)
  have "wf_at s' (L(Deleted := [])) x"
    unfolding wf_at_def run using L' X' I' S' at(2) nD wf_atD(5) [OF W] by auto
  moreover have "kept s s'" by (simp add: kept_def s'_def)
  ultimately show ?thesis using r t run by blast
qed

text \<open>A thread with other attributes.\<close>

definition put_tcb :: "threads \<Rightarrow> nat \<Rightarrow> tcb \<Rightarrow> threads" where
  "put_tcb s a t = s\<lparr>tcbs := tcbs s\<lparr>cell := (cell (tcbs s))(a \<mapsto> t)\<rparr>\<rparr>"

lemma upd_put_tcb: "cell (tcbs s) a = Some t \<Longrightarrow> upd_tcb s a f = Inr (put_tcb s a (f t))"
  by (simp add: upd_tcb_def put_tcb_def)

lemma put_tcb_sel [simp]:
  "cell (tcbs (put_tcb s a t)) b = (if a = b then Some t else cell (tcbs s) b)" "next_cell (tcbs (put_tcb s a t)) = next_cell (tcbs s)"
  "RUNNING_THREAD (put_tcb s a t) = RUNNING_THREAD s" "head_of (put_tcb s a t) i = head_of s i" "thread_id_array (put_tcb s a t) = thread_id_array s"
  "stacks (put_tcb s a t) = stacks s" "TO_DELETE_THREAD (put_tcb s a t) = TO_DELETE_THREAD s" "kept s (put_tcb s a t)"
  "tcb_of (put_tcb s a t) = (tcb_of s)(a \<mapsto> t\<lparr>t_next := 0\<rparr>)"
  by (auto simp: put_tcb_def head_of_def kept_def tcb_of_def split: list_id.splits)

lemma put_tcb_wf:
  assumes W: "wf_at s L x" and a: "cell (tcbs s) a = Some t" and t': "t_next t' = t_next t" "t_tid t' = t_tid t" "t_sp t' = t_sp t"
    and st: "a \<in> listed L \<Longrightarrow> a \<noteq> RUNNING_THREAD s \<Longrightarrow> t_state t' = NEW_STATE"
  shows "wf_at (put_tcb s a t') L x"
proof -
  let ?s = "put_tcb s a t'"
  note L = wf_atD(1) [OF W] and S = wf_atD(4) [OF W]
  have at: "tid_of ?s b = tid_of s b" "sp_of ?s b = sp_of s b" for b
    using a t' by (simp_all add: attr_defs) (auto simp: tcb_of_def)
  have st': "state_of ?s b = (if b = a then t_state t' else state_of s b)" for b by (simp add: attr_defs)
  have "tchain ?s (head_of ?s i) (L i)" for i
  proof -
    have "tchain ?s (head_of s i) (L i) = tchain s (head_of s i) (L i)" by (rule chain_cong) (use a t' in auto)
    then show ?thesis using lists_okD(2) [OF L, of i] by simp
  qed
  moreover have "cells_wf (tcbs ?s)" using lists_okD(1) [OF L] a by (simp add: put_tcb_def)
  ultimately have "lists_ok ?s L" using lists_okD(3) [OF L] by (simp add: lists_ok_def)
  moreover have "single ?s x L" using wf_atD(2) [OF W] a t' by (auto simp: single_def)
  moreover have "ids_ok ?s (insert x (listed L))" using wf_atD(3) [OF W] at by (simp add: ids_ok_def inj_on_def)
  moreover have "(tcb_of ?s b = None) = (tcb_of s b = None)" for b using a by (auto simp: tcb_of_def)
  then have "stacks_ok ?s" using S at by (simp add: stacks_ok_def)
  moreover have "\<forall>b\<in>listed L. b \<noteq> RUNNING_THREAD ?s \<longrightarrow> state_of ?s b = NEW_STATE"
    using st wf_atD(5) [OF W] by (auto simp: st')
  ultimately show ?thesis by (simp add: wf_at_def)
qed

end
