(* ===== verification/Thread_Switch.thy ===== *)
theory Thread_Switch
  imports Thread_Spec
begin

text \<open>
  Switching threads, threads/thread.c: what \<open>thread_yield\<close> and \<open>thread_sleep\<close> do once the next thread has been taken from the
  ready list, and the calls themselves. A switch keeps the invariant, deletes the threads that are to be deleted, and moves the running thread
  to the end of its new list.
\<close>

section \<open>Giving way\<close>

text \<open>The threads after the running one has been put in a list and \<open>x\<close> runs: the deleted ones are gone.\<close>

definition switched :: "threads \<Rightarrow> nat set \<Rightarrow> nat \<Rightarrow> saved \<Rightarrow> nat \<Rightarrow> tcb option" where
  "switched s D x ctx = (\<lambda>a. if a \<in> D then None
     else if a = x then map_option (\<lambda>t. t\<lparr>t_state := RECOVER_STATE\<rparr>) (tcb_of s x)
     else if a = RUNNING_THREAD s then map_option (\<lambda>t. t\<lparr>t_state := NEW_STATE, t_context := ctx\<rparr>) (tcb_of s a)
     else tcb_of s a)"

lemma listed_cell: "lists_ok s L \<Longrightarrow> a \<in> listed L \<Longrightarrow> \<exists>t. cell (tcbs s) a = Some t"
  using listed_tcb by (fastforce simp: listed_def)

lemma tcb_of_cell: "cell (tcbs s) a = Some t \<Longrightarrow> tcb_of s a = Some (t\<lparr>t_next := 0\<rparr>)"
  by (simp add: tcb_of_def)

lemma id_at_live: "ids_ok s A \<Longrightarrow> a \<in> A \<Longrightarrow> \<exists>u. id_at s (tid_of s a) = Inr u \<and> u \<noteq> 0"
  by (auto simp: ids_ok_def id_at_def nat_less_iff)

lemma wf_at_run:
  assumes "wf_at s L x" "state_of s (RUNNING_THREAD s) = NEW_STATE" "s' = s\<lparr>RUNNING_THREAD := x\<rparr>"
  shows "threads_wf s' L"
proof -
  have "head_of s' = head_of s" by (rule ext) (simp add: assms(3) head_of_def split: list_id.splits)
  moreover have "tcb_of s' = tcb_of s" by (simp add: assms(3) tcb_of_def fun_eq_iff)
  ultimately show ?thesis
    using assms unfolding wf_at_def lists_ok_def single_def ids_ok_def stacks_ok_def attr_defs by auto
qed

lemma after_getcontext_switch:
  assumes W: "wf_at s L x" and run: "RUNNING_THREAD s \<in> listed L" "state_of s (RUNNING_THREAD s) = NEW_STATE" "flag_of s (RUNNING_THREAD s) = 0"
    and x: "state_of s x = NEW_STATE"
  shows "\<exists>s'. after_getcontext (tid_of s x) x en s = Inr (Switches, s') \<and> RUNNING_THREAD s' = x \<and> threads_wf s' (L(Deleted := [])) \<and>
    kept s s' \<and> tcb_of s' = (\<lambda>a. if a \<in> set (L Deleted) then None
      else if a = x then map_option (\<lambda>t. t\<lparr>t_state := RECOVER_STATE\<rparr>) (tcb_of s x) else tcb_of s a)"
proof -
  note L = wf_atD(1) [OF W]
  let ?L = "L(Deleted := [])" and ?D = "set (L Deleted)"
  obtain r where r: "cell (tcbs s) (RUNNING_THREAD s) = Some r" using listed_cell [OF L run(1)] by blast
  have rf: "t_flag r = 0" using run(3) attr_cell(3) [OF r] by simp
  obtain s1 where s1: "(if TO_DELETE_THREAD s \<noteq> 0 then delete_threads_list s else Inr s) = Inr s1" "wf_at s1 ?L x" "kept s s1"
      "RUNNING_THREAD s1 = RUNNING_THREAD s" "tcb_of s1 = (\<lambda>a. if a \<in> ?D then None else tcb_of s a)"
  proof (cases "TO_DELETE_THREAD s = 0")
    case True
    then have D: "L Deleted = []" using head_empty [OF L, of Deleted] by (simp add: head_of_def)
    then have "?L = L" by (simp add: fun_upd_idem)
    then show ?thesis using that [of s] True W D by (simp add: kept_def)
  next
    case False
    then show ?thesis using that delete_list_ok [OF W] by auto
  qed
  have nD: "RUNNING_THREAD s \<notin> ?D" "x \<notin> ?D"
    using listed_not_deleted [OF L run(1)] wf_atD(2) [OF W] by (auto simp: single_def)
  have run_x: "RUNNING_THREAD s \<noteq> x" using run(1) wf_atD(2) [OF W] by (auto simp: listed_def single_def)
  have at: "tid_of s1 x = tid_of s x" "state_of s1 x = NEW_STATE" "state_of s1 (RUNNING_THREAD s) = NEW_STATE"
    using s1(5) nD x run(2) by (simp_all add: attr_defs)
  obtain u where u: "id_at s1 (tid_of s x) = Inr u" "u \<noteq> 0" using id_at_live [OF wf_atD(3) [OF s1(2)], of x] at(1) by auto
  obtain t where t: "cell (tcbs s1) x = Some t" using wf_atD(2) [OF s1(2)] by (auto simp: single_def)
  obtain r1 where r1: "cell (tcbs s1) (RUNNING_THREAD s) = Some r1"
    using listed_cell [OF wf_atD(1) [OF s1(2)], of "RUNNING_THREAD s"] run(1) by auto
  have stt: "t_state t = NEW_STATE" "t_state r1 \<noteq> RECOVER_STATE" using at attr_cell(2) [OF t] attr_cell(2) [OF r1] by simp_all
  let ?s2 = "put_tcb s1 x (t\<lparr>t_state := RECOVER_STATE\<rparr>)"
  have W2: "wf_at ?s2 ?L x"
  proof (rule put_tcb_wf [OF s1(2) t])
    assume "x \<in> listed ?L"
    then show "t_state (t\<lparr>t_state := RECOVER_STATE\<rparr>) = NEW_STATE" using wf_atD(2) [OF W] by (auto simp: listed_def single_def)
  qed simp_all
  define s3 where "s3 = ?s2\<lparr>RUNNING_THREAD := x\<rparr>"
  have "state_of ?s2 (RUNNING_THREAD ?s2) = NEW_STATE" using at(3) run_x s1(4) by (simp add: attr_defs)
  then have W3: "threads_wf s3 ?L" using wf_at_run [OF W2 _ s3_def] by blast
  have res: "after_getcontext (tid_of s x) x en s = Inr (Switches, s3)"
    unfolding after_getcontext_def
    using r rf s1(1,4) u t r1 stt by (simp add: tcb_at_def upd_put_tcb s3_def)
  have "tcb_of s3 = tcb_of ?s2" by (simp add: s3_def tcb_of_def fun_eq_iff)
  then have "tcb_of s3 = (\<lambda>a. if a \<in> ?D then None
      else if a = x then map_option (\<lambda>t. t\<lparr>t_state := RECOVER_STATE\<rparr>) (tcb_of s x) else tcb_of s a)"
    using s1(5) nD(2) tcb_of_cell [OF t] by (auto simp: fun_eq_iff)
  moreover have "kept s s3" using s1(3) put_tcb_sel(8) [of s1 x "t\<lparr>t_state := RECOVER_STATE\<rparr>"] by (simp add: kept_def s3_def)
  ultimately show ?thesis using res W3 by (intro exI [of _ s3]) (simp add: s3_def)
qed

lemma give_way_ok:
  assumes W: "wf_at s L x" and run: "RUNNING_THREAD s \<in> listed L" "flag_of s (RUNNING_THREAD s) = 0" and x: "state_of s x = NEW_STATE"
  shows "\<exists>s'. give_way (tid_of s x) x en fr s = Inr (Switches, s') \<and> RUNNING_THREAD s' = x \<and> threads_wf s' (L(Deleted := [])) \<and>
    kept s s' \<and> tcb_of s' = switched s (set (L Deleted)) x (After (tid_of s x) x en fr)"
proof -
  let ?c = "After (tid_of s x) x en fr"
  obtain r where r: "cell (tcbs s) (RUNNING_THREAD s) = Some r" using listed_cell [OF wf_atD(1) [OF W] run(1)] by blast
  let ?r = "r\<lparr>t_state := NEW_STATE, t_context := ?c\<rparr>" and ?x = "RUNNING_THREAD s"
  let ?s = "put_tcb s ?x ?r"
  have W1: "wf_at ?s L x" by (rule put_tcb_wf [OF W r]) simp_all
  have run_x: "?x \<noteq> x" using run(1) wf_atD(2) [OF W] by (auto simp: listed_def single_def)
  have at: "tid_of ?s x = tid_of s x" "state_of ?s x = NEW_STATE" "state_of ?s ?x = NEW_STATE" "flag_of ?s ?x = 0"
    using run_x x run(2) attr_cell(3) [OF r] by (simp_all add: attr_defs)
  obtain s' where s': "after_getcontext (tid_of ?s x) x en ?s = Inr (Switches, s')" "RUNNING_THREAD s' = x" "threads_wf s' (L(Deleted := []))"
      "kept ?s s'" "tcb_of s' = (\<lambda>a. if a \<in> set (L Deleted) then None
      else if a = x then map_option (\<lambda>t. t\<lparr>t_state := RECOVER_STATE\<rparr>) (tcb_of ?s x) else tcb_of ?s a)"
    using after_getcontext_switch [OF W1, of en] run(1) at by auto
  have "tcb_of s' = switched s (set (L Deleted)) x ?c"
    unfolding s'(5) switched_def using run_x tcb_of_cell [OF r] by (auto simp: fun_eq_iff)
  moreover have "kept s s'" using s'(4) put_tcb_sel(8) [of s ?x ?r] by (simp add: kept_def)
  ultimately show ?thesis using s'(1-3) r at(1) by (intro exI [of _ s']) (simp add: give_way_def upd_put_tcb)
qed

section \<open>Handing over\<close>

lemma interrupts_frame [simp]:
  "head_of (s\<lparr>interrupts := e\<rparr>) i = head_of s i" "tcb_of (s\<lparr>interrupts := e\<rparr>) = tcb_of s"
  "wf_at (s\<lparr>interrupts := e\<rparr>) L x = wf_at s L x" "lists_ok (s\<lparr>interrupts := e\<rparr>) L = lists_ok s L"
  "single (s\<lparr>interrupts := e\<rparr>) x L = single s x L" "flag_of (s\<lparr>interrupts := e\<rparr>) = flag_of s"
  "tid_of (s\<lparr>interrupts := e\<rparr>) = tid_of s" "state_of (s\<lparr>interrupts := e\<rparr>) = state_of s"
proof -
  show h: "head_of (s\<lparr>interrupts := e\<rparr>) i = head_of s i" for i by (simp add: head_of_def split: list_id.splits)
  show t: "tcb_of (s\<lparr>interrupts := e\<rparr>) = tcb_of s" by (simp add: tcb_of_def fun_eq_iff)
  then show a: "flag_of (s\<lparr>interrupts := e\<rparr>) = flag_of s" "tid_of (s\<lparr>interrupts := e\<rparr>) = tid_of s"
      "state_of (s\<lparr>interrupts := e\<rparr>) = state_of s"
    by (simp_all add: attr_defs fun_eq_iff)
  have sp: "sp_of (s\<lparr>interrupts := e\<rparr>) = sp_of s" using t by (simp add: attr_defs fun_eq_iff)
  show l: "lists_ok (s\<lparr>interrupts := e\<rparr>) L = lists_ok s L" "single (s\<lparr>interrupts := e\<rparr>) x L = single s x L"
    by (simp_all add: lists_ok_def h single_def)
  show "wf_at (s\<lparr>interrupts := e\<rparr>) L x = wf_at s L x"
    by (simp add: wf_at_def l ids_ok_def stacks_ok_def t a sp)
qed

text \<open>The running thread goes to the end of the list \<open>i\<close>, the thread \<open>a\<close> having been taken from the ready list.\<close>

lemma hand_over:
  assumes W: "threads_wf s L" and a: "a \<in> set (L Ready)" and R: "set R = set (L Ready) - {a}" and i: "i \<noteq> Deleted"
    and s1: "lists_ok s1 (L(Ready := R))" "single s1 a (L(Ready := R))" "relinked s s1" "single s1 (RUNNING_THREAD s) (L(Ready := R))"
  shows "wf_at (append_to s1 (L(Ready := R)) i (RUNNING_THREAD s)) (L(Ready := R, i := (L(Ready := R)) i @ [RUNNING_THREAD s])) a"
    "relinked s (append_to s1 (L(Ready := R)) i (RUNNING_THREAD s))"
    "RUNNING_THREAD s \<in> listed (L(Ready := R, i := (L(Ready := R)) i @ [RUNNING_THREAD s]))" "state_of s a = NEW_STATE"
proof -
  let ?L1 = "L(Ready := R)" and ?r = "RUNNING_THREAD s"
  let ?L2 = "?L1(i := ?L1 i @ [?r])" and ?s2 = "append_to s1 ?L1 i ?r"
  have ra: "?r \<noteq> a" using a wf_atD(2) [OF W] by (auto simp: single_def)
  note ap = append_to_ok [OF s1(1,4), of i]
  show rl: "relinked s ?s2" by (rule relinked_trans [OF s1(3) ap(2)])
  have al: "a \<in> listed L" using a by (auto simp: listed_def)
  then show "state_of s a = NEW_STATE" using wf_atD(5) [OF W] ra by metis
  have l2: "listed ?L2 = insert ?r (listed L - {a})"
  proof -
    have "listed ?L2 = insert ?r (listed ?L1)" using i by (auto simp: listed_def split: if_splits)
    moreover have "listed ?L1 = listed L - {a}"
    proof -
      have "a \<notin> set (L j)" if "j \<noteq> Ready" for j using lists_okD(3) [OF wf_atD(1) [OF W] that] a by blast
      then show ?thesis using R by (auto simp: listed_def split: if_splits)
    qed
    ultimately show ?thesis by simp
  qed
  then show "?r \<in> listed ?L2" by simp
  have si: "single ?s2 a ?L2" by (rule single_append [OF s1(2) _ s1(1)]) (use ra in simp)
  show "wf_at ?s2 ?L2 a"
  proof (rule wf_at_move [OF W rl ap(1) si])
    show "insert a (listed ?L2) = insert ?r (listed L)" using l2 al by auto
    show "\<forall>b\<in>listed ?L2. b \<noteq> ?r \<longrightarrow> state_of s b = NEW_STATE" using l2 wf_atD(5) [OF W] by auto
  qed
qed

text \<open>With the first ready thread as the next one.\<close>

lemma first_ready:
  assumes W: "threads_wf s L" and R: "L Ready = a # R"
  obtains t where "cell (tcbs s) a = Some t" "READY_HEAD s = a" "a \<noteq> 0" "tid_of s a = t_tid t"
    "lists_ok (set_link (s\<lparr>READY_HEAD := t_next t\<rparr>) a 0) (L(Ready := R))"
    "single (set_link (s\<lparr>READY_HEAD := t_next t\<rparr>) a 0) a (L(Ready := R))"
    "relinked s (set_link (s\<lparr>READY_HEAD := t_next t\<rparr>) a 0)"
    "single (set_link (s\<lparr>READY_HEAD := t_next t\<rparr>) a 0) (RUNNING_THREAD s) (L(Ready := R))"
    "set R = set (L Ready) - {a}"
proof -
  note L = wf_atD(1) [OF W]
  obtain t where t: "cell (tcbs s) a = Some t" using listed_tcb [OF L, of a Ready] R by auto
  have c: "tchain s (READY_HEAD s) (a # R)" using lists_okD(2) [OF L, of Ready] R by (simp add: head_of_def)
  have sh: "set_head s Ready (t_next t) = s\<lparr>READY_HEAD := t_next t\<rparr>" by (simp add: set_head_def)
  show ?thesis
    using that [OF t] c attr_cell(1) [OF t] take_first [OF L R t] single_relink [OF wf_atD(2) [OF W] R t] chain_distinct [OF c] R
    unfolding sh by auto
qed

lemma give_way_from:
  assumes W: "threads_wf s L" "flag_of s (RUNNING_THREAD s) = 0" and w: "wf_at s2 L2 a" "relinked s s2" "RUNNING_THREAD s \<in> listed L2"
    "state_of s a = NEW_STATE" "L2 Deleted = L Deleted"
  shows "\<exists>s'. give_way (tid_of s a) a en fr s2 = Inr (Switches, s') \<and> RUNNING_THREAD s' = a \<and> threads_wf s' (L2(Deleted := [])) \<and>
    kept s2 s' \<and> tcb_of s' = switched s (set (L Deleted)) a (After (tid_of s a) a en fr)"
proof -
  note r = relinked_attrs [OF w(2)]
  have t: "tcb_of s2 = tcb_of s" using w(2) by (simp add: relinked_def)
  obtain s' where "give_way (tid_of s2 a) a en fr s2 = Inr (Switches, s')" "RUNNING_THREAD s' = a" "threads_wf s' (L2(Deleted := []))"
      "kept s2 s'" "tcb_of s' = switched s2 (set (L2 Deleted)) a (After (tid_of s2 a) a en fr)"
    using give_way_ok [OF w(1), of en fr] w(3,4) W(2) r by auto
  moreover have "switched s2 = switched s" by (simp add: switched_def fun_eq_iff t r(7))
  ultimately show ?thesis using r w(5) by auto
qed

lemma relinked_kept: "relinked s s2 \<Longrightarrow> kept s2 s' \<Longrightarrow> locks s' = locks s \<and> cvs s' = cvs s \<and> interrupts s' = interrupts s \<and> thread_id_array s' = thread_id_array s"
  by (simp add: relinked_def kept_def)

lemma queues_set_link_append [simp]: "i = Ready \<or> i = Deleted \<Longrightarrow> queues (append_to s L i a) = queues s"
  by (auto simp: append_to_def set_head_def)

lemma thread_yield_any_ok:
  assumes W: "threads_wf s L" "flag_of s (RUNNING_THREAD s) = 0" and R: "L Ready = a # R"
  shows "\<exists>s'. thread_yield THREAD_ANY fr s = Inr (Switches, s') \<and> RUNNING_THREAD s' = a \<and>
    threads_wf s' (L(Ready := R @ [RUNNING_THREAD s], Deleted := [])) \<and> queues s' = queues s \<and> locks s' = locks s \<and>
    cvs s' = cvs s \<and> interrupts s' = 0 \<and> thread_id_array s' = thread_id_array s \<and>
    tcb_of s' = switched s (set (L Deleted)) a (After (tid_of s a) a (interrupts s) fr)"
proof -
  define s0 where "s0 = s\<lparr>interrupts := 0\<rparr>"
  have en: "interrupts_set s 0 = (interrupts s, s0)" by (simp add: interrupts_set_def s0_def)
  have W0: "threads_wf s0 L" "flag_of s0 (RUNNING_THREAD s0) = 0" using W by (simp_all add: s0_def)
  obtain t where t: "cell (tcbs s0) a = Some t" "READY_HEAD s0 = a" "a \<noteq> 0" "tid_of s0 a = t_tid t"
    "lists_ok (set_link (s0\<lparr>READY_HEAD := t_next t\<rparr>) a 0) (L(Ready := R))"
    "single (set_link (s0\<lparr>READY_HEAD := t_next t\<rparr>) a 0) a (L(Ready := R))"
    "relinked s0 (set_link (s0\<lparr>READY_HEAD := t_next t\<rparr>) a 0)"
    "single (set_link (s0\<lparr>READY_HEAD := t_next t\<rparr>) a 0) (RUNNING_THREAD s0) (L(Ready := R))"
    "set R = set (L Ready) - {a}"
    by (rule first_ready [OF W0(1) R])
  let ?s1 = "set_link (s0\<lparr>READY_HEAD := t_next t\<rparr>) a 0" and ?L1 = "L(Ready := R)"
  let ?s2 = "append_to ?s1 ?L1 Ready (RUNNING_THREAD s0)"
  have aR: "a \<in> set (L Ready)" using R by simp
  note h = hand_over [OF W0(1) aR t(9) _ t(5-8), of Ready]
  have L2: "?L1(Ready := ?L1 Ready @ [RUNNING_THREAD s0]) = L(Ready := R @ [RUNNING_THREAD s0])" by simp
  have h': "wf_at ?s2 (L(Ready := R @ [RUNNING_THREAD s0])) a" "relinked s0 ?s2" "RUNNING_THREAD s0 \<in> listed (L(Ready := R @ [RUNNING_THREAD s0]))"
    "state_of s0 a = NEW_STATE"
    using h by (simp_all add: L2 del: listed_upd)
  have g: "\<exists>s'. give_way (tid_of s0 a) a (interrupts s) fr ?s2 = Inr (Switches, s') \<and> RUNNING_THREAD s' = a \<and>
      threads_wf s' (L(Ready := R @ [RUNNING_THREAD s0], Deleted := [])) \<and> kept ?s2 s' \<and>
      tcb_of s' = switched s0 (set (L Deleted)) a (After (tid_of s0 a) a (interrupts s) fr)"
    by (rule give_way_from [OF W0 h']) simp
  have ins: "insert_thread_to_ready ?s1 (RUNNING_THREAD s0) = Inr ?s2" by (rule insert_ready_eq [OF t(5,8)])
  have up: "upd_tcb (s0\<lparr>READY_HEAD := t_next t\<rparr>) a (\<lambda>t. t\<lparr>t_next := 0\<rparr>) = Inr ?s1" using t(1) by (simp add: upd_tcb_link)
  have r1: "RUNNING_THREAD ?s1 = RUNNING_THREAD s0" by simp
  have y: "thread_yield THREAD_ANY fr s = give_way (tid_of s0 a) a (interrupts s) fr ?s2"
    unfolding thread_yield_def en prod.case using t(1-4) up ins r1 by (simp add: tcb_at_def)
  have s0: "switched s0 = switched s" "RUNNING_THREAD s0 = RUNNING_THREAD s" "tid_of s0 = tid_of s" by (simp_all add: s0_def switched_def fun_eq_iff)
  obtain s' where s': "give_way (tid_of s0 a) a (interrupts s) fr ?s2 = Inr (Switches, s')" "RUNNING_THREAD s' = a"
      "threads_wf s' (L(Ready := R @ [RUNNING_THREAD s0], Deleted := []))" "kept ?s2 s'"
      "tcb_of s' = switched s0 (set (L Deleted)) a (After (tid_of s0 a) a (interrupts s) fr)"
    using g by blast
  have "queues s' = queues ?s2" using s'(4) by (simp add: kept_def)
  moreover have "queues ?s2 = queues s" by (simp add: s0_def)
  moreover have "locks s0 = locks s" "cvs s0 = cvs s" "interrupts s0 = 0" "thread_id_array s0 = thread_id_array s" by (simp_all add: s0_def)
  ultimately show ?thesis using y s'(1,2,3,5) relinked_kept [OF h'(2) s'(4)] unfolding s0 by (intro exI [of _ s']) simp
qed

end
