(* ===== verification/Thread_Queue.thy ===== *)
theory Thread_Queue
  imports Thread_Switch
begin

text \<open>
  Sleeping in a wait queue and waking up, threads/thread.c: \<open>thread_sleep\<close> and \<open>thread_wakeup\<close> keep the invariant, a wait queue
  is first-in first-out, and every wait queue counts at least the threads it holds (\<open>sizes_ok\<close>).
\<close>

section \<open>The size of a wait queue\<close>

definition set_size :: "threads \<Rightarrow> nat \<Rightarrow> int \<Rightarrow> threads" where
  "set_size s q n = s\<lparr>queues := queues s\<lparr>cell := (cell (queues s))(q \<mapsto> the (cell (queues s) q)\<lparr>wq_size := n\<rparr>)\<rparr>\<rparr>"

lemma set_size_frame [simp]:
  assumes "cell (queues s) q \<noteq> None"
  shows "head_of (set_size s q n) i = head_of s i" "lists_ok (set_size s q n) L = lists_ok s L"
    "single (set_size s q n) x L = single s x L" "wf_at (set_size s q n) L x = wf_at s L x" "relinked s (set_size s q n)"
proof -
  show h: "head_of (set_size s q n) i = head_of s i" for i using assms by (auto simp: head_of_def set_size_def split: list_id.splits)
  show l: "lists_ok (set_size s q n) L = lists_ok s L" "single (set_size s q n) x L = single s x L"
    using h by (simp_all add: lists_ok_def single_def set_size_def)
  show r: "relinked s (set_size s q n)" by (simp add: relinked_def tcb_of_def set_size_def fun_eq_iff)
  show "wf_at (set_size s q n) L x = wf_at s L x" by (simp add: wf_at_def l relinked_attrs [OF r])
qed

text \<open>Every wait queue counts at least the threads it holds.\<close>

definition sizes_ok :: "threads \<Rightarrow> (list_id \<Rightarrow> nat list) \<Rightarrow> bool" where
  "sizes_ok s L \<longleftrightarrow> cells_wf (queues s) \<and> (\<forall>q w. cell (queues s) q = Some w \<longrightarrow> int (length (L (Waiting q))) \<le> wq_size w)"

lemma head_Waiting: "cell (queues s) q = Some w \<Longrightarrow> head_of s (Waiting q) = wait_head w"
  by (simp add: head_of_def)

lemma append_to_queues:
  "cell (queues s) q = Some w \<Longrightarrow> cell (queues (append_to s L (Waiting q) a)) =
    (cell (queues s))(q \<mapsto> w\<lparr>wait_head := (if L (Waiting q) = [] then a else wait_head w)\<rparr>)"
  "next_cell (queues (append_to s L i a)) = next_cell (queues s)"
  by (auto simp: append_to_def set_head_def fun_upd_idem split: list_id.splits)

lemma insert_wait_eq:
  assumes L: "lists_ok s L" and a: "single s a L" and q: "cell (queues s) q = Some w"
  shows "insert_thread_to_wait s a q = Inr (set_size (append_to s L (Waiting q) a) q (wq_size w + 1))"
proof (cases "L (Waiting q) = []")
  case True
  then have "wait_head w = 0" using head_empty [OF L, of "Waiting q"] q by (simp add: head_of_def)
  then show ?thesis using True q by (simp add: insert_thread_to_wait_def upd_queue_def append_to_def set_head_def set_size_def)
next
  case False
  then have "wait_head w \<noteq> 0" "link_last s (wait_head w) a = Inr (append_to s L (Waiting q) a)"
    using head_empty [OF L, of "Waiting q"] append_to_ok(3) [OF L a False] q by (simp_all add: head_of_def)
  moreover have "cell (queues (append_to s L (Waiting q) a)) q = Some w" using append_to_queues(1) [OF q, of L a] False by simp
  ultimately show ?thesis using q by (simp add: insert_thread_to_wait_def upd_queue_def set_size_def)
qed

section \<open>Sleeping\<close>

lemma thread_sleep_run:
  assumes W: "threads_wf s L" "flag_of s (RUNNING_THREAD s) = 0" and R: "L Ready = a # R" and q: "q \<noteq> 0" "cell (queues s) q = Some w"
  shows "\<exists>s'. thread_sleep q fr s = Inr (Switches, s') \<and> RUNNING_THREAD s' = a \<and>
    threads_wf s' (L(Ready := R, Waiting q := L (Waiting q) @ [RUNNING_THREAD s], Deleted := [])) \<and>
    (\<exists>h. cell (queues s') = (cell (queues s))(q \<mapsto> \<lparr>wait_head = h, wq_size = wq_size w + 1\<rparr>)) \<and> next_cell (queues s') = next_cell (queues s) \<and>
    locks s' = locks s \<and> cvs s' = cvs s \<and> interrupts s' = 0 \<and> thread_id_array s' = thread_id_array s \<and>
    tcb_of s' = switched s (set (L Deleted)) a (After (tid_of s a) a (interrupts s) fr)"
proof -
  define s0 where "s0 = s\<lparr>interrupts := 0\<rparr>"
  have en: "interrupts_set s 0 = (interrupts s, s0)" by (simp add: interrupts_set_def s0_def)
  have W0: "threads_wf s0 L" "flag_of s0 (RUNNING_THREAD s0) = 0" using W by (simp_all add: s0_def)
  obtain t where t: "cell (tcbs s0) a = Some t" "READY_HEAD s0 = a" "a \<noteq> 0" "tid_of s0 a = t_tid t"
    "lists_ok (set_link (s0\<lparr>READY_HEAD := t_next t\<rparr>) a 0) (L(Ready := R))"
    "single (set_link (s0\<lparr>READY_HEAD := t_next t\<rparr>) a 0) a (L(Ready := R))"
    "relinked s0 (set_link (s0\<lparr>READY_HEAD := t_next t\<rparr>) a 0)"
    "single (set_link (s0\<lparr>READY_HEAD := t_next t\<rparr>) a 0) (RUNNING_THREAD s0) (L(Ready := R))"
    "set R = set (L Ready) - {a}"
    by (rule first_ready [OF W0(1) R])
  let ?s1 = "set_link (s0\<lparr>READY_HEAD := t_next t\<rparr>) a 0" and ?L1 = "L(Ready := R)" and ?i = "Waiting q"
  define s2 where "s2 = append_to ?s1 ?L1 ?i (RUNNING_THREAD s0)"
  define s3 where "s3 = set_size s2 q (wq_size w + 1)"
  let ?L2 = "?L1(?i := ?L1 ?i @ [RUNNING_THREAD s0])"
  have "a \<in> set (L Ready)" using R by simp
  note h = hand_over [OF W0(1) this t(9) _ t(5-8), of ?i, folded s2_def]
  have q1: "cell (queues ?s1) q = Some w" using q by (simp add: s0_def)
  have q2: "cell (queues s2) = (cell (queues s))(q \<mapsto> w\<lparr>wait_head := (if L ?i = [] then RUNNING_THREAD s0 else wait_head w)\<rparr>)"
      "next_cell (queues s2) = next_cell (queues s)"
    using append_to_queues(1) [OF q1, of ?L1 "RUNNING_THREAD s0"] by (simp_all add: append_to_queues(2) s2_def s0_def)
  have q2': "cell (queues s2) q \<noteq> None" by (simp add: q2)
  note fr = set_size_frame [OF q2', of "wq_size w + 1", folded s3_def]
  have h': "wf_at s3 ?L2 a" "relinked s0 s3" "RUNNING_THREAD s0 \<in> listed ?L2" "state_of s0 a = NEW_STATE" "?L2 Deleted = L Deleted"
    using h relinked_trans [OF h(2) fr(5)] fr(4) by simp_all
  obtain s' where s': "give_way (tid_of s0 a) a (interrupts s) fr s3 = Inr (Switches, s')" "RUNNING_THREAD s' = a"
      "threads_wf s' (?L2(Deleted := []))" "kept s3 s'"
      "tcb_of s' = switched s0 (set (L Deleted)) a (After (tid_of s0 a) a (interrupts s) fr)"
    using give_way_from [OF W0 h'] by blast
  have ins: "insert_thread_to_wait ?s1 (RUNNING_THREAD s0) q = Inr s3"
    unfolding s3_def s2_def by (rule insert_wait_eq [OF t(5,8) q1])
  have up: "upd_tcb (s0\<lparr>READY_HEAD := t_next t\<rparr>) a (\<lambda>t. t\<lparr>t_next := 0\<rparr>) = Inr ?s1" using t(1) by (simp add: upd_tcb_link)
  have r1: "RUNNING_THREAD ?s1 = RUNNING_THREAD s0" by simp
  have y: "thread_sleep q fr s = give_way (tid_of s0 a) a (interrupts s) fr s3"
    unfolding thread_sleep_def en prod.case using q(1) t(1-4) up ins r1 by (simp add: tcb_at_def)
  have s0: "switched s0 = switched s" "RUNNING_THREAD s0 = RUNNING_THREAD s" "tid_of s0 = tid_of s" by (simp_all add: s0_def switched_def fun_eq_iff)
  have "queues s' = queues s3" using s'(4) by (simp add: kept_def)
  moreover have "\<exists>h. cell (queues s3) = (cell (queues s))(q \<mapsto> \<lparr>wait_head = h, wq_size = wq_size w + 1\<rparr>)"
    by (rule exI [of _ "if L ?i = [] then RUNNING_THREAD s0 else wait_head w"], cases w) (simp add: s3_def set_size_def q2(1))
  moreover have "next_cell (queues s3) = next_cell (queues s)" by (simp add: s3_def set_size_def q2)
  moreover have "locks s0 = locks s" "cvs s0 = cvs s" "interrupts s0 = 0" "thread_id_array s0 = thread_id_array s" by (simp_all add: s0_def)
  ultimately show ?thesis using y s'(1,2,3,5) relinked_kept [OF h'(2) s'(4)] unfolding s0 by (intro exI [of _ s']) simp
qed

lemma sizes_ok_sleep:
  assumes "sizes_ok s L" "cell (queues s) q = Some w" "cell (queues s') = (cell (queues s))(q \<mapsto> \<lparr>wait_head = h, wq_size = wq_size w + 1\<rparr>)"
    "next_cell (queues s') = next_cell (queues s)"
  shows "sizes_ok s' (L(Ready := R, Waiting q := L (Waiting q) @ [x], Deleted := []))"
  using assms unfolding sizes_ok_def by (auto simp: cells_wf_def)

section \<open>Waking up\<close>

lemma wake_move:
  assumes W: "threads_wf s L" and r: "relinked s s'" and l: "lists_ok s' L'" "single s' (RUNNING_THREAD s) L'" "listed L' = listed L"
  shows "threads_wf s' L'"
proof -
  have run: "RUNNING_THREAD s' = RUNNING_THREAD s" using relinked_attrs(7) [OF r] .
  show ?thesis unfolding run
    by (rule wf_at_move [OF W r l(1,2)]) (use l(3) wf_atD(5) [OF W] in auto)
qed

lemma relinked_interrupts: "relinked (s\<lparr>interrupts := e\<rparr>) s' \<Longrightarrow> relinked s (s'\<lparr>interrupts := interrupts s\<rparr>)"
  by (simp add: relinked_def)

text \<open>Inserting a thread does not depend on the wait queues.\<close>

lemma insert_ready_queues:
  assumes "insert_thread_to_ready (s\<lparr>queues := Q\<rparr>) a = Inr s2"
  shows "insert_thread_to_ready s a = Inr (s2\<lparr>queues := queues s\<rparr>)" "queues s2 = Q"
proof -
  have "rbind (last_cell t_next n m p) (\<lambda>temp. upd_tcb (s\<lparr>queues := Q\<rparr>) temp f) = Inr s2 \<Longrightarrow>
      rbind (last_cell t_next n m p) (\<lambda>temp. upd_tcb s temp f) = Inr (s2\<lparr>queues := queues s\<rparr>) \<and> queues s2 = Q" for n m p f
    by (cases "last_cell t_next n m p") (auto simp: upd_tcb_def rbind_def split: sum.splits)
  then show "insert_thread_to_ready s a = Inr (s2\<lparr>queues := queues s\<rparr>)" "queues s2 = Q"
    using assms by (auto simp: insert_thread_to_ready_def link_last_def split: if_splits)
qed

lemma listed_swap:
  assumes "i \<noteq> j" "i \<noteq> Deleted" "j \<noteq> Deleted" "set A \<union> set B = set (L i) \<union> set (L j)"
  shows "listed (L(i := A, j := B)) = listed L"
proof -
  have "listed M = set (M i) \<union> set (M j) \<union> (\<Union>k\<in>- {Deleted, i, j}. set (M k))" for M using assms(2,3) by (auto simp: listed_def)
  from this [of "L(i := A, j := B)"] this [of L] show ?thesis using assms(1,4) by auto
qed

lemma wakeup_first:
  assumes W: "threads_wf s L" and q: "cell (queues s) q = Some w" "q \<noteq> 0" and Q: "L (Waiting q) = a # as" and sz: "wq_size w = 1 \<Longrightarrow> as = []"
    and en: "interrupts s = 0 \<or> interrupts s = 1"
  shows "\<exists>s'. thread_wakeup q 0 s = Inr (1, s') \<and> threads_wf s' (L(Waiting q := as, Ready := L Ready @ [a])) \<and> relinked s s' \<and>
    (\<exists>h. cell (queues s') = (cell (queues s))(q \<mapsto> \<lparr>wait_head = h, wq_size = wq_size w\<rparr>)) \<and> next_cell (queues s') = next_cell (queues s)"
proof -
  define s0 where "s0 = s\<lparr>interrupts := 0\<rparr>"
  have e0: "interrupts_set s 0 = (interrupts s, s0)" by (simp add: interrupts_set_def s0_def)
  have W0: "threads_wf s0 L" and q0: "cell (queues s0) q = Some w" using W q by (simp_all add: s0_def)
  note L = wf_atD(1) [OF W0]
  obtain t where t: "cell (tcbs s0) a = Some t" using listed_tcb [OF L, of a "Waiting q"] Q by auto
  have c: "tchain s0 (wait_head w) (a # as)" using lists_okD(2) [OF L, of "Waiting q"] Q q0 by (simp add: head_of_def)
  then have wh: "wait_head w = a" "a \<noteq> 0" "tchain s0 (t_next t) as" using t by auto
  let ?L1 = "L(Waiting q := as)"
  define s1 where "s1 = set_link (set_head s0 (Waiting q) (t_next t)) a 0"
  define s2 where "s2 = append_to s1 ?L1 Ready a"
  let ?L2 = "?L1(Ready := ?L1 Ready @ [a])"
  note tf = take_first [OF L Q t, folded s1_def]
  note ap = append_to_ok [OF tf(1,2), of Ready, folded s2_def]
  have ra: "RUNNING_THREAD s0 \<noteq> a" using wf_atD(2) [OF W0] Q by (metis list.set_intros(1) single_def)
  have s1r: "single s1 (RUNNING_THREAD s0) ?L1" unfolding s1_def by (rule single_relink [OF wf_atD(2) [OF W0] Q t])
  have si: "single s2 (RUNNING_THREAD s0) ?L2" unfolding s2_def by (rule single_append [OF s1r ra tf(1)])
  have rl: "relinked s0 s2" by (rule relinked_trans [OF tf(3) ap(2)])
  have li: "listed ?L2 = listed L" using listed_swap [of "Waiting q" Ready as "L Ready @ [a]" L] Q by auto
  have W2: "threads_wf s2 ?L2" by (rule wake_move [OF W0 rl ap(1) si li])
  have ins: "insert_thread_to_ready s1 a = Inr s2" unfolding s2_def by (rule insert_ready_eq [OF tf(1,2)])
  have q2: "cell (queues s2) = (cell (queues s))(q \<mapsto> w\<lparr>wait_head := t_next t\<rparr>)" "next_cell (queues s2) = next_cell (queues s)"
    using q by (simp_all add: s2_def s1_def set_head_def s0_def)
  have up: "upd_tcb (set_head s0 (Waiting q) (t_next t)) a (\<lambda>t. t\<lparr>t_next := 0\<rparr>) = Inr s1" using t by (simp add: upd_tcb_link s1_def)
  have uq: "upd_queue s0 q (\<lambda>q. q\<lparr>wait_head := t_next t\<rparr>) = Inr (set_head s0 (Waiting q) (t_next t))"
    using q0 by (simp add: upd_queue_def set_head_def)
  have fin: "snd (interrupts_set s2 (interrupts s)) = s2\<lparr>interrupts := interrupts s\<rparr>" using en by (auto simp: interrupts_set_def)
  have one: "rbind (insert_thread_to_ready s0 a) (\<lambda>s. upd_queue s q (\<lambda>q. q\<lparr>wait_head := 0\<rparr>)) = Inr s2" if "wq_size w = 1"
  proof -
    have "t_next t = 0" using wh(3) sz [OF that] by simp
    then have s1: "s1 = s0\<lparr>queues := queues s1\<rparr>" and qs: "queues s1 = queues s0\<lparr>cell := (cell (queues s0))(q \<mapsto> w\<lparr>wait_head := 0\<rparr>)\<rparr>"
      using t q0 by (simp_all add: s1_def set_link_def set_head_def fun_upd_idem)
    have "insert_thread_to_ready s0 a = Inr (s2\<lparr>queues := queues s0\<rparr>)" "queues s2 = queues s1"
      using insert_ready_queues [where s = s0 and Q = "queues s1" and a = a and ?s2.0 = s2] ins s1 by simp_all
    then show ?thesis using q0 qs by (simp add: upd_queue_def)
  qed
  have "thread_wakeup q 0 s = Inr (1, s2\<lparr>interrupts := interrupts s\<rparr>)"
    unfolding thread_wakeup_def e0 prod.case
    using q(2) q0 wh one t uq up ins by (cases "wq_size w = 1") (simp_all add: tcb_at_def Let_def fin)
  moreover have "relinked s (s2\<lparr>interrupts := interrupts s\<rparr>)" using rl unfolding s0_def by (rule relinked_interrupts)
  moreover have "?L2 = L(Waiting q := as, Ready := L Ready @ [a])" by simp
  moreover have "\<exists>h. (cell (queues s))(q \<mapsto> w\<lparr>wait_head := t_next t\<rparr>) = (cell (queues s))(q \<mapsto> \<lparr>wait_head = h, wq_size = wq_size w\<rparr>)"
    by (cases w) auto
  ultimately show ?thesis using W2 q2 by (intro exI [of _ "s2\<lparr>interrupts := interrupts s\<rparr>"]) simp
qed

text \<open>All at once: the whole chain goes behind the ready threads.\<close>

lemma chain_move:
  assumes wf: "cells_wf (tcbs s)" and c: "tchain s p as" "tchain s h bs" "set as \<inter> set bs = {}" "as \<noteq> []"
  shows "link_last s p h = Inr (set_link s (last as) h)" "tchain (set_link s (last as) h) p (as @ bs)"
proof -
  obtain S z where S: "as = S @ [z]" using c(4) by (metis rev_exhaust)
  obtain e where e: "cell (tcbs s) z = Some e" "z \<noteq> 0" "chain t_next (cell (tcbs s)) p S z"
    using c(1) S chain_split [of t_next "cell (tcbs s)" p S z "[]"] by auto
  have "z \<notin> set S" "z \<notin> set bs" using chain_distinct [OF c(1)] c(3) S by auto
  then show "tchain (set_link s (last as) h) p (as @ bs)"
    using S e c(2) by (auto simp: chain_append cell_set_link chain_set_link)
  have "last_cell t_next (next_cell (tcbs s)) (tcbs s) p = Inr z"
    using last_cell_chain [OF c(1,4), of "next_cell (tcbs s)"] chain_bound [OF c(1) wf] S by simp
  then show "link_last s p h = Inr (set_link s (last as) h)" using S e by (simp add: link_last_def upd_tcb_link)
qed

lemma insert_all:
  assumes L: "lists_ok s L" and i: "i \<noteq> Ready" and Q: "L i = a # as" "head_of s i = a"
  defines "s1 \<equiv> if L Ready = [] then set_head s Ready a else set_link s (last (L Ready)) a"
  shows "insert_thread_to_ready s a = Inr s1" "lists_ok (set_head s1 i 0) (L(i := [], Ready := L Ready @ a # as))"
    "relinked s s1" "\<forall>x. single s x L \<longrightarrow> single (set_head s1 i 0) x (L(i := [], Ready := L Ready @ a # as))"
proof -
  let ?L1 = "L(i := [], Ready := L Ready @ a # as)"
  have c: "tchain s (head_of s Ready) (L Ready)" "tchain s a (a # as)" using lists_okD(2) [OF L, of Ready] lists_okD(2) [OF L, of i] Q by simp_all
  have d: "set (L Ready) \<inter> set (a # as) = {}" using lists_okD(3) [OF L, of Ready i] i Q(1) by metis
  have z: "cell (tcbs s) (last (L Ready)) \<noteq> None" if "L Ready \<noteq> []" using listed_tcb [OF L, of "last (L Ready)" Ready] that by auto
  note cm = chain_move [OF lists_okD(1) [OF L] c d]
  show "insert_thread_to_ready s a = Inr s1"
    using head_empty [OF L, of Ready] cm(1) by (auto simp: s1_def insert_thread_to_ready_def set_head_def head_of_def)
  show "relinked s s1" using relinked_set_link [OF z] by (simp add: s1_def)
  have wf: "cells_wf (tcbs s1)" using lists_okD(1) [OF L] cells_wf_set_link [OF _ z] by (simp add: s1_def)
  have "tchain s1 (head_of (set_head s1 i 0) j) (?L1 j)" for j
  proof -
    consider "j = Ready" | "j = i" | "j \<noteq> Ready" "j \<noteq> i" by blast
    then show ?thesis
    proof cases
      case 1
      then show ?thesis using i c cm(2) by (simp add: s1_def)
    next
      case 2
      then show ?thesis using i by simp
    next
      case 3
      have "last (L Ready) \<notin> set (L j)" if "L Ready \<noteq> []"
        using lists_okD(3) [OF L, of j Ready] 3(1) last_in_set [OF that] by blast
      then show ?thesis using 3 lists_okD(2) [OF L, of j] by (auto simp: s1_def chain_set_link)
    qed
  qed
  moreover have "set (?L1 j) \<inter> set (?L1 k) = {}" if "j \<noteq> k" for j k
  proof -
    have "set (L i) \<inter> set (L l) = {}" if "l \<noteq> i" for l using lists_okD(3) [OF L] that by blast
    then have "set (a # as) \<inter> set (L l) = {}" if "l \<noteq> i" for l using that Q(1) by metis
    then show ?thesis using lists_okD(3) [OF L \<open>j \<noteq> k\<close>] lists_okD(3) [OF L, of Ready j] lists_okD(3) [OF L, of Ready k] \<open>j \<noteq> k\<close> i by auto
  qed
  ultimately show "lists_ok (set_head s1 i 0) ?L1" unfolding lists_ok_def using wf by simp
  have "single (set_head s1 i 0) x ?L1" if x: "single s x L" for x
  proof -
    obtain t where t: "cell (tcbs s) x = Some t" "t_next t = 0" "\<forall>j. x \<notin> set (L j)" by (rule singleE [OF x])
    have "x \<noteq> last (L Ready)" if "L Ready \<noteq> []" using t(3) last_in_set [OF that] by metis
    moreover have "x \<notin> set (a # as)" using t(3) Q(1) by metis
    ultimately show ?thesis using t by (auto simp: single_def s1_def cell_set_link)
  qed
  then show "\<forall>x. single s x L \<longrightarrow> single (set_head s1 i 0) x ?L1" by blast
qed

lemma wakeup_every:
  assumes W: "threads_wf s L" and q: "cell (queues s) q = Some w" "q \<noteq> 0" and Q: "L (Waiting q) = a # as"
    and en: "interrupts s = 0 \<or> interrupts s = 1"
  shows "\<exists>s'. thread_wakeup q 1 s = Inr (wq_size w, s') \<and> threads_wf s' (L(Waiting q := [], Ready := L Ready @ a # as)) \<and> relinked s s' \<and>
    cell (queues s') = (cell (queues s))(q \<mapsto> \<lparr>wait_head = 0, wq_size = 0\<rparr>) \<and> next_cell (queues s') = next_cell (queues s)"
proof -
  define s0 where "s0 = s\<lparr>interrupts := 0\<rparr>"
  have e0: "interrupts_set s 0 = (interrupts s, s0)" by (simp add: interrupts_set_def s0_def)
  have W0: "threads_wf s0 L" and q0: "cell (queues s0) q = Some w" using W q by (simp_all add: s0_def)
  note L = wf_atD(1) [OF W0]
  have hd: "head_of s0 (Waiting q) = a" using lists_okD(2) [OF L, of "Waiting q"] Q by simp
  then have wh: "wait_head w = a" "a \<noteq> 0" using q0 lists_okD(2) [OF L, of "Waiting q"] Q by (simp_all add: head_of_def)
  define s1 where "s1 = (if L Ready = [] then set_head s0 Ready a else set_link s0 (last (L Ready)) a)"
  note ia = insert_all [OF L _ Q hd, folded s1_def, simplified]
  let ?L1 = "L(Waiting q := [], Ready := L Ready @ a # as)"
  define s2 where "s2 = set_size (set_head s1 (Waiting q) 0) q 0"
  have q1: "queues s1 = queues s0" by (simp add: s1_def set_head_def)
  then have qn: "cell (queues (set_head s1 (Waiting q) 0)) q \<noteq> None" using q0 by (simp add: set_head_def)
  note fr = set_size_frame [OF qn, of 0, folded s2_def]
  have rl: "relinked s0 s2" by (rule relinked_trans [OF ia(3) relinked_trans [OF relinked_set_head fr(5)]])
  have W2: "threads_wf s2 ?L1"
  proof (rule wake_move [OF W0 rl])
    show "lists_ok s2 ?L1" using ia(2) fr(2) by simp
    show "single s2 (RUNNING_THREAD s0) ?L1" using ia(4) fr(3) wf_atD(2) [OF W0] by simp
    show "listed ?L1 = listed L" using listed_swap [of "Waiting q" Ready "[]" "L Ready @ a # as" L] Q by auto
  qed
  have uq: "upd_queue s1 q (\<lambda>q. q\<lparr>wait_head := 0, wq_size := 0\<rparr>) = Inr s2"
    using q0 q1 by (simp add: upd_queue_def s2_def set_size_def set_head_def)
  have fin: "snd (interrupts_set s2 (interrupts s)) = s2\<lparr>interrupts := interrupts s\<rparr>" using en by (auto simp: interrupts_set_def)
  have "thread_wakeup q 1 s = Inr (wq_size w, s2\<lparr>interrupts := interrupts s\<rparr>)"
    unfolding thread_wakeup_def e0 prod.case using q(2) q0 wh uq ia(1) by (simp add: fin)
  moreover have "relinked s (s2\<lparr>interrupts := interrupts s\<rparr>)" using rl unfolding s0_def by (rule relinked_interrupts)
  moreover have "cell (queues s2) = (cell (queues s))(q \<mapsto> \<lparr>wait_head = 0, wq_size = 0\<rparr>)" "next_cell (queues s2) = next_cell (queues s)"
    using q0 q1 by (cases w; simp add: s2_def set_size_def set_head_def s0_def)+
  ultimately show ?thesis using W2 by (intro exI [of _ "s2\<lparr>interrupts := interrupts s\<rparr>"]) simp
qed

end
