(* ===== verification/Thread_Life.thy ===== *)
theory Thread_Life
  imports Thread_Queue
begin

text \<open>
  The life of a thread, threads/thread.c: \<open>thread_create\<close> takes the lowest free identifier and puts the new thread behind the ready ones,
  \<open>thread_exit(THREAD_SELF)\<close> frees the identifier and hands over to the first ready thread, \<open>thread_exit\<close> of another thread only marks it,
  and \<open>thread_yield\<close> of an identifier takes that thread out of the middle of the ready list.
\<close>

section \<open>Identifiers\<close>

lemma free_id_from_spec:
  "0 \<le> i \<Longrightarrow> (free_id_from us i = THREAD_NOMORE \<and> 0 \<notin> set us) \<or>
    (\<exists>k<length us. us ! k = 0 \<and> (\<forall>j<k. us ! j \<noteq> 0) \<and> free_id_from us i = i + int k)"
proof (induction us arbitrary: i)
  case (Cons u us)
  show ?case
  proof (cases "u = 0")
    case False
    from Cons.IH [of "i + 1"] Cons.prems consider "free_id_from us (i + 1) = THREAD_NOMORE" "0 \<notin> set us"
      | k where "k < length us" "us ! k = 0" "\<forall>j<k. us ! j \<noteq> 0" "free_id_from us (i + 1) = i + 1 + int k" by auto
    then show ?thesis
    proof cases
      case 2
      then show ?thesis using False by (intro disjI2 exI [of _ "Suc k"]) (auto simp: less_Suc_eq_0_disj)
    qed (use False in simp)
  qed (intro disjI2 exI [of _ 0], simp)
qed simp

lemma assign_thread_id_spec:
  obtains (free) k where "assign_thread_id s = int k" "k < length (thread_id_array s)" "thread_id_array s ! k = 0" "\<forall>j<k. thread_id_array s ! j \<noteq> 0"
  | (full) "assign_thread_id s = THREAD_NOMORE" "0 \<notin> set (thread_id_array s)"
  using free_id_from_spec [of 0 "thread_id_array s"] by (auto simp: assign_thread_id_def)

section \<open>Creating a thread\<close>

definition created :: "threads \<Rightarrow> nat \<Rightarrow> nat \<Rightarrow> nat \<Rightarrow> threads" where
  "created s k fn parg = s\<lparr>
     thread_id_array := (thread_id_array s)[k := 1], stacks := snd (new_cell (stacks s) ()),
     tcbs := snd (new_cell (tcbs s) \<lparr>t_context = Start fn parg, t_tid = int k, t_state = NEW_STATE, t_next = 0, t_sp = next_cell (stacks s), t_flag = 0\<rparr>)\<rparr>"

lemma created_sel [simp]:
  "RUNNING_THREAD (created s k fn a) = RUNNING_THREAD s" "head_of (created s k fn a) i = head_of s i" "queues (created s k fn a) = queues s"
  "locks (created s k fn a) = locks s" "cvs (created s k fn a) = cvs s" "interrupts (created s k fn a) = interrupts s"
  "thread_id_array (created s k fn a) = (thread_id_array s)[k := 1]"
  by (simp_all add: created_def head_of_def split: list_id.splits)

lemma created_cells [simp]:
  "cell (tcbs (created s k fn a)) = (cell (tcbs s))(next_cell (tcbs s) \<mapsto>
     \<lparr>t_context = Start fn a, t_tid = int k, t_state = NEW_STATE, t_next = 0, t_sp = next_cell (stacks s), t_flag = 0\<rparr>)"
  "cell (stacks (created s k fn a)) = (cell (stacks s))(next_cell (stacks s) \<mapsto> ())"
  by (simp_all add: created_def new_cell_def)

lemma created_wf:
  fixes fn a :: nat
  assumes W: "threads_wf s L" and k: "k < length (thread_id_array s)" "thread_id_array s ! k = 0"
  defines "n \<equiv> next_cell (tcbs s)" and "s1 \<equiv> created s k fn a"
  shows "lists_ok s1 L" "single s1 n L" "single s1 (RUNNING_THREAD s) L" "stacks_ok s1" "ids_ok s1 (insert n (insert (RUNNING_THREAD s) (listed L)))"
    "\<forall>b\<in>listed L. b \<noteq> RUNNING_THREAD s \<longrightarrow> state_of s1 b = NEW_STATE" "tid_of s1 n = int k" "state_of s1 n = NEW_STATE" "n \<noteq> RUNNING_THREAD s" "n \<notin> listed L"
proof -
  note L = wf_atD(1) [OF W] and S = wf_atD(4) [OF W] and I = wf_atD(3) [OF W]
  have fresh: "cell (tcbs s) n = None" using lists_okD(1) [OF L] by (simp add: n_def)
  have nL: "n \<notin> set (L i)" for i using listed_tcb [OF L, of n i] fresh by auto
  show nr: "n \<noteq> RUNNING_THREAD s" using wf_atD(2) [OF W] fresh by (auto simp: single_def)
  show nl: "n \<notin> listed L" using nL by (simp add: listed_def)
  have at: "tid_of s1 b = tid_of s b" "state_of s1 b = state_of s b" "sp_of s1 b = sp_of s b" "tcb_of s1 b = tcb_of s b" if "b \<noteq> n" for b
    using that by (simp_all add: attr_defs tcb_of_def s1_def n_def)
  show an: "tid_of s1 n = int k" "state_of s1 n = NEW_STATE" by (simp_all add: attr_defs tcb_of_def s1_def n_def)
  have spn: "sp_of s1 n = next_cell (stacks s)" by (simp add: attr_defs tcb_of_def s1_def n_def)
  have "tchain s1 (head_of s1 i) (L i)" for i
    using lists_okD(2) [OF L, of i] nL [of i] by (simp add: s1_def n_def)
  moreover have "cells_wf (tcbs s1)" using lists_okD(1) [OF L] by (auto simp: s1_def created_def new_cell_def)
  ultimately show "lists_ok s1 L" using lists_okD(3) [OF L] by (simp add: lists_ok_def)
  show "single s1 n L" using nL by (simp add: single_def s1_def n_def)
  show "single s1 (RUNNING_THREAD s) L" using wf_atD(2) [OF W] nr by (simp add: single_def s1_def n_def)
  show "\<forall>b\<in>listed L. b \<noteq> RUNNING_THREAD s \<longrightarrow> state_of s1 b = NEW_STATE" using wf_atD(5) [OF W] at(2) nl by metis
  have sw: "cells_wf (stacks s)" using S by (simp add: stacks_ok_def)
  have s_lt: "sp_of s b \<noteq> next_cell (stacks s)" if "tcb_of s b \<noteq> None" "sp_of s b \<noteq> 0" for b
    using S that cells_wf_none(2) [OF sw] unfolding stacks_ok_def by metis
  show "stacks_ok s1"
    unfolding stacks_ok_def
  proof (intro conjI allI impI)
    show "cells_wf (stacks s1)" using sw by (auto simp: s1_def created_def new_cell_def)
    show "cell (stacks s1) (sp_of s1 b) \<noteq> None" if "tcb_of s1 b \<noteq> None" "sp_of s1 b \<noteq> 0" for b
      using that at [of b] S spn by (cases "b = n") (auto simp: s1_def stacks_ok_def)
    show "b = c" if "tcb_of s1 b \<noteq> None" "tcb_of s1 c \<noteq> None" "sp_of s1 b \<noteq> 0" "sp_of s1 b = sp_of s1 c" for b c
    proof (cases "b = n \<or> c = n")
      case True
      then show ?thesis using that at(3,4) [of b] at(3,4) [of c] spn s_lt [of b] s_lt [of c] by metis
    next
      case False
      then show ?thesis using that at(3,4) [of b] at(3,4) [of c] S unfolding stacks_ok_def by metis
    qed
  qed
  have A: "n \<notin> insert (RUNNING_THREAD s) (listed L)" using nr nl by simp
  have ne: "tid_of s b \<noteq> int k" if "b \<in> insert (RUNNING_THREAD s) (listed L)" for b using I that k(2) unfolding ids_ok_def by fastforce
  have same: "tid_of s1 b = tid_of s b" if "b \<in> insert (RUNNING_THREAD s) (listed L)" for b using at(1) that A by metis
  show "ids_ok s1 (insert n (insert (RUNNING_THREAD s) (listed L)))"
    unfolding ids_ok_def
  proof (intro conjI ballI)
    show "length (thread_id_array s1) = THREAD_MAX_THREADS" using I by (simp add: s1_def ids_ok_def)
    have "inj_on (tid_of s1) (insert (RUNNING_THREAD s) (listed L))"
      using I same unfolding ids_ok_def by (simp add: inj_on_def)
    moreover have "tid_of s1 n \<notin> tid_of s1 ` (insert (RUNNING_THREAD s) (listed L))" using ne same an(1) by (metis imageE)
    ultimately show "inj_on (tid_of s1) (insert n (insert (RUNNING_THREAD s) (listed L)))" using A by (simp add: inj_on_insert)
  next
    fix b assume b: "b \<in> insert n (insert (RUNNING_THREAD s) (listed L))"
    have kl: "k < THREAD_MAX_THREADS" using I k(1) by (simp add: ids_ok_def)
    have "0 \<le> tid_of s1 b \<and> tid_of s1 b < int THREAD_MAX_THREADS \<and> thread_id_array s1 ! nat (tid_of s1 b) \<noteq> 0"
    proof (cases "b = n")
      case True
      then show ?thesis using an kl k by (simp add: s1_def)
    next
      case False
      then have b': "b \<in> insert (RUNNING_THREAD s) (listed L)" using b by blast
      then show ?thesis using I same [OF b'] ne [OF b'] by (auto simp: ids_ok_def s1_def nth_list_update)
    qed
    then show "0 \<le> tid_of s1 b" "tid_of s1 b < int THREAD_MAX_THREADS" "thread_id_array s1 ! nat (tid_of s1 b) \<noteq> 0" by simp_all
  qed
qed

lemma thread_create_eq:
  assumes k: "assign_thread_id s = int k" "k < length (thread_id_array s)"
  defines "s0 \<equiv> s\<lparr>interrupts := 0\<rparr>"
  shows "thread_create True True fn a s =
    rbind (insert_thread_to_ready (created s0 k fn a) (next_cell (tcbs s))) (\<lambda>s'.
      let s' = snd (interrupts_set s' (interrupts s)) in rbind (tcb_at s' (next_cell (tcbs s))) (\<lambda>t. Inr (t_tid t, s')))"
proof -
  have e0: "interrupts_set s 0 = (interrupts s, s0)" by (simp add: interrupts_set_def s0_def)
  have "assign_thread_id s0 = int k" using k by (simp add: assign_thread_id_def s0_def)
  then show ?thesis
    unfolding thread_create_def e0 prod.case
    using k by (simp add: new_cell_def set_id_def upd_tcb_def created_def s0_def Let_def)
qed

lemma thread_create_ready:
  assumes W: "threads_wf s L" and k: "assign_thread_id s = int k" "k < length (thread_id_array s)" "thread_id_array s ! k = 0"
    and en: "interrupts s = 0 \<or> interrupts s = 1"
  defines "n \<equiv> next_cell (tcbs s)"
  shows "\<exists>s'. thread_create True True fn a s = Inr (int k, s') \<and> threads_wf s' (L(Ready := L Ready @ [n])) \<and> relinked (created s k fn a) s' \<and> queues s' = queues s"
proof -
  define s0 where "s0 = s\<lparr>interrupts := 0\<rparr>"
  have W0: "threads_wf s0 L" using W by (simp add: s0_def)
  have k0: "k < length (thread_id_array s0)" "thread_id_array s0 ! k = 0" using k by (simp_all add: s0_def)
  have n0: "next_cell (tcbs s0) = n" "RUNNING_THREAD s0 = RUNNING_THREAD s" by (simp_all add: s0_def n_def)
  define s1 where "s1 = created s0 k fn a"
  note c = created_wf(1-8) [OF W0 k0, of fn a, folded s1_def, unfolded n0] created_wf(9,10) [OF W0 k0, unfolded n0]
  define s2 where "s2 = append_to s1 L Ready n"
  note ap = append_to_ok [OF c(1,2), of Ready, folded s2_def]
  let ?L2 = "L(Ready := L Ready @ [n])"
  note r = relinked_attrs [OF ap(2)]
  have run: "RUNNING_THREAD s2 = RUNNING_THREAD s" "RUNNING_THREAD s1 = RUNNING_THREAD s" using r(7) by (simp_all add: s1_def n0)
  have li: "listed ?L2 = insert n (listed L)" by (auto simp: listed_def split: if_splits)
  have "single s2 (RUNNING_THREAD s) ?L2" unfolding s2_def by (rule single_append [OF c(3) _ c(1)]) (use c(9) in simp)
  then have "threads_wf s2 ?L2"
    unfolding wf_at_def run li r using ap(1) c by (simp add: insert_commute)
  then have W2: "threads_wf (s2\<lparr>interrupts := interrupts s\<rparr>) ?L2" by simp
  have ins: "insert_thread_to_ready s1 n = Inr s2" unfolding s2_def by (rule insert_ready_eq [OF c(1,2)])
  have fin: "snd (interrupts_set s2 (interrupts s)) = s2\<lparr>interrupts := interrupts s\<rparr>" using en by (auto simp: interrupts_set_def)
  have "tcb_of s2 n = tcb_of s1 n" using ap(2) by (simp add: relinked_def)
  then obtain t where t: "cell (tcbs s2) n = Some t" using c(2) by (auto simp: tcb_of_def single_def)
  have "t_tid t = int k" using attr_cell(1) [OF t] c(7) r(1) by simp
  then have "thread_create True True fn a s = Inr (int k, s2\<lparr>interrupts := interrupts s\<rparr>)"
    using thread_create_eq [OF k(1,2), of fn a, folded s0_def n_def] ins fin t by (simp add: s1_def tcb_at_def Let_def)
  moreover have "created s0 k fn a = (created s k fn a)\<lparr>interrupts := 0\<rparr>" by (simp add: created_def s0_def)
  then have "relinked (created s k fn a) (s2\<lparr>interrupts := interrupts s\<rparr>)"
    using relinked_interrupts [where s = "created s k fn a" and e = 0 and s' = s2] ap(2) by (simp add: s1_def)
  moreover have "queues s2 = queues s" by (simp add: s2_def s1_def s0_def)
  ultimately show ?thesis using W2 by (intro exI [of _ "s2\<lparr>interrupts := interrupts s\<rparr>"]) simp
qed

text \<open>When no identifier is free, or malloc fails, the caller is told so, with interrupts off.\<close>

lemma thread_create_full:
  assumes "0 \<notin> set (thread_id_array s)"
  shows "thread_create m1 m2 fn a s = Inr (THREAD_NOMORE, s\<lparr>interrupts := 0\<rparr>)"
proof -
  have "assign_thread_id s = THREAD_NOMORE"
  proof (cases s rule: assign_thread_id_spec)
    case (free k)
    then show ?thesis using assms by (metis nth_mem)
  qed
  then show ?thesis by (simp add: thread_create_def interrupts_set_def assign_thread_id_def)
qed

section \<open>Exit\<close>

text \<open>\<open>thread_exit(THREAD_SELF)\<close> with a ready thread: it runs now, the identifier is free, the caller is to be deleted.\<close>

definition exited :: "threads \<Rightarrow> nat \<Rightarrow> nat \<Rightarrow> tcb option" where
  "exited s x = (tcb_of s)(x := map_option (\<lambda>t. t\<lparr>t_state := RECOVER_STATE\<rparr>) (tcb_of s x))"

lemma drop_first:
  assumes L: "lists_ok s L" and i: "L i = a # as" and t: "cell (tcbs s) a = Some t"
  shows "lists_ok (set_head s i (t_next t)) (L(i := as))" "\<forall>j. a \<notin> set ((L(i := as)) j)"
proof -
  have c: "tchain s (head_of s i) (a # as)" using lists_okD(2) [OF L, of i] i by simp
  have "tchain (set_head s i (t_next t)) (head_of (set_head s i (t_next t)) j) ((L(i := as)) j)" for j
    using lists_okD(2) [OF L, of j] c t by (cases "j = i") simp_all
  moreover have "set ((L(i := as)) j) \<inter> set ((L(i := as)) k) = {}" if "j \<noteq> k" for j k
    using lists_okD(3) [OF L that] i that by auto
  ultimately show "lists_ok (set_head s i (t_next t)) (L(i := as))"
    unfolding lists_ok_def using lists_okD(1) [OF L] by simp
  have "a \<notin> set (L j)" if "j \<noteq> i" for j using lists_okD(3) [OF L that] i by auto
  then show "\<forall>j. a \<notin> set ((L(i := as)) j)" using chain_distinct [OF c] by simp
qed

lemma lists_ok_put_tcb:
  assumes "lists_ok s L" "cell (tcbs s) a \<noteq> None" "\<forall>i. a \<notin> set (L i)"
  shows "lists_ok (put_tcb s a t) L"
  using assms by (auto simp: lists_ok_def put_tcb_def head_of_def split: list_id.splits)

lemma ids_ok_drop:
  assumes I: "ids_ok s (insert r A)" and r: "r \<notin> A"
    and arr: "thread_id_array s' = (thread_id_array s)[nat (tid_of s r) := 0]" and at: "\<And>b. tid_of s' b = tid_of s b"
  shows "ids_ok s' A"
  unfolding ids_ok_def
proof (intro conjI ballI)
  show "length (thread_id_array s') = THREAD_MAX_THREADS" using I by (simp add: arr ids_ok_def)
  show "inj_on (tid_of s') A" using I by (simp add: at ids_ok_def inj_on_def)
  fix b assume b: "b \<in> A"
  then show "0 \<le> tid_of s' b" "tid_of s' b < int THREAD_MAX_THREADS" using I by (simp_all add: at ids_ok_def)
  have "tid_of s b \<noteq> tid_of s r" using I b r unfolding ids_ok_def inj_on_def by blast
  then show "thread_id_array s' ! nat (tid_of s' b) \<noteq> 0" using I b unfolding ids_ok_def arr at by (simp add: nat_eq_iff2)
qed

lemma thread_exit_self_ok:
  assumes W: "threads_wf s L" and R: "L Ready = a # R"
  shows "\<exists>s'. thread_exit THREAD_SELF s = Inr (Switches, s') \<and> RUNNING_THREAD s' = a \<and>
    threads_wf s' (L(Ready := R, Deleted := L Deleted @ [RUNNING_THREAD s])) \<and>
    thread_id_array s' = (thread_id_array s)[nat (tid_of s (RUNNING_THREAD s)) := 0] \<and> tcb_of s' = exited s a \<and>
    queues s' = queues s \<and> locks s' = locks s \<and> cvs s' = cvs s \<and> interrupts s' = 0"
proof -
  define s0 where "s0 = s\<lparr>interrupts := 0\<rparr>"
  let ?r = "RUNNING_THREAD s"
  have e0: "interrupts_set s 0 = (interrupts s, s0)" by (simp add: interrupts_set_def s0_def)
  have W0: "wf_at s0 L ?r" using W by (simp add: s0_def)
  note L = wf_atD(1) [OF W0] and I = wf_atD(3) [OF W0] and S = wf_atD(4) [OF W0]
  obtain t where t: "cell (tcbs s0) a = Some t" using listed_tcb [OF L, of a Ready] R by auto
  have c: "tchain s0 (READY_HEAD s0) (a # R)" using lists_okD(2) [OF L, of Ready] R by (simp add: head_of_def)
  then have h: "READY_HEAD s0 = a" "a \<noteq> 0" by simp_all
  obtain r where r: "cell (tcbs s0) ?r = Some r" "t_next r = 0" "\<forall>i. ?r \<notin> set (L i)" by (rule singleE [OF wf_atD(2) [OF W0]])
  have ra: "?r \<noteq> a" using r(3) R by (metis list.set_intros(1))
  let ?L1 = "L(Ready := R)" and ?L2 = "L(Ready := R, Deleted := L Deleted @ [?r])"
  define s1 where "s1 = s0\<lparr>READY_HEAD := t_next t\<rparr>"
  define s2 where "s2 = s1\<lparr>thread_id_array := (thread_id_array s)[nat (tid_of s ?r) := 0]\<rparr>"
  define s3 where "s3 = append_to s2 ?L1 Deleted ?r"
  have s1h: "s1 = set_head s0 Ready (t_next t)" by (simp add: s1_def set_head_def)
  note df = drop_first [OF L R t, folded s1h]
  have hd2: "head_of s2 i = head_of s1 i" "tcbs s2 = tcbs s0" for i by (simp_all add: s2_def s1_def head_of_def split: list_id.splits)
  have L2: "lists_ok s2 ?L1" using df(1) by (simp add: lists_ok_def hd2 s1h)
  have X2: "single s2 ?r ?L1" using r R by (auto simp: single_def hd2 dest: spec [of _ Ready])
  note ap = append_to_ok [OF L2 X2, of Deleted, folded s3_def]
  have a3: "\<forall>i. a \<notin> set (?L2 i)" using spec [OF df(2), of Deleted] df(2) ra by auto
  have tt: "tcb_of s3 = tcb_of s" using ap(2) by (simp add: relinked_def s0_def tcb_of_def fun_eq_iff hd2)
  obtain t3 where t3: "cell (tcbs s3) a = Some t3" "t3\<lparr>t_next := 0\<rparr> = t\<lparr>t_next := 0\<rparr>"
  proof -
    have "tcb_of s3 a = Some (t\<lparr>t_next := 0\<rparr>)" using tt t by (simp add: s0_def tcb_of_def)
    then show ?thesis using that by (auto simp: tcb_of_def)
  qed
  define s4 where "s4 = put_tcb s3 a (t3\<lparr>t_next := 0, t_state := RECOVER_STATE\<rparr>)"
  define s5 where "s5 = s4\<lparr>RUNNING_THREAD := a\<rparr>"
  have tid: "t_tid r = tid_of s ?r" using attr_cell(1) [OF r(1)] by (simp add: s0_def)
  have idr: "0 \<le> tid_of s ?r" "tid_of s ?r < int (length (thread_id_array s))" using I by (simp_all add: ids_ok_def s0_def)
  have set: "set_id s1 (t_tid r) 0 = Inr s2" using idr by (simp add: set_id_def tid s2_def s1_def s0_def nat_less_iff)
  have run1: "RUNNING_THREAD s0 = ?r" "RUNNING_THREAD s2 = ?r" by (simp_all add: s0_def s2_def s1_def)
  have up1: "upd_tcb s1 ?r (\<lambda>t. t\<lparr>t_next := 0\<rparr>) = Inr s1" "tcb_at s1 ?r = Inr r"
    using r by (simp_all add: upd_tcb_def tcb_at_def s1_def fun_upd_idem)
  have ins: "insert_thread_to_delete s2 ?r = Inr s3" unfolding s3_def by (rule insert_delete_eq [OF L2 X2])
  have res: "thread_exit THREAD_SELF s = Inr (Switches, s5)"
    unfolding thread_exit_def e0 prod.case
    using h t up1 set ins t3(1) run1 by (simp add: tcb_at_def Let_def upd_put_tcb s1_def [symmetric] s4_def s5_def)
  have tc: "tcb_of s5 = exited s a"
  proof -
    have "tcb_of s5 = tcb_of s4" by (simp add: s5_def tcb_of_def fun_eq_iff)
    moreover have "tcb_of s a = Some (t\<lparr>t_next := 0\<rparr>)" using t by (simp add: s0_def tcb_of_def)
    moreover have "t3\<lparr>t_next := 0, t_state := RECOVER_STATE\<rparr>\<lparr>t_next := 0\<rparr> = t\<lparr>t_next := 0\<rparr>\<lparr>t_state := RECOVER_STATE\<rparr>"
      using t3(2) by (cases t; cases t3) simp
    ultimately show ?thesis by (simp only: s4_def exited_def put_tcb_sel tt option.map)
  qed
  have hd5: "head_of s5 i = head_of s4 i" "tcbs s5 = tcbs s4" for i by (simp_all add: s5_def head_of_def split: list_id.splits)
  have "lists_ok s4 ?L2" unfolding s4_def by (rule lists_ok_put_tcb) (use ap(1) t3(1) a3 in auto)
  then have L5: "lists_ok s5 ?L2" by (simp add: lists_ok_def hd5)
  have X5: "single s5 a ?L2" using a3 by (simp add: single_def hd5 s4_def)
  have at: "tid_of s5 b = tid_of s b" "sp_of s5 b = sp_of s b" "(tcb_of s5 b = None) = (tcb_of s b = None)"
      "b \<noteq> a \<Longrightarrow> state_of s5 b = state_of s b" for b
  proof -
    have "tcb_of s a \<noteq> None" using t by (simp add: s0_def tcb_of_def)
    then show "tid_of s5 b = tid_of s b" "sp_of s5 b = sp_of s b" "(tcb_of s5 b = None) = (tcb_of s b = None)" "b \<noteq> a \<Longrightarrow> state_of s5 b = state_of s b"
      by (auto simp: attr_defs tc exited_def)
  qed
  have ka: "kept s2 s5" "stacks s5 = stacks s" "thread_id_array s5 = thread_id_array s2"
    using ap(2) by (simp_all add: kept_def s5_def s4_def put_tcb_def relinked_def s3_def append_to_def set_head_def set_link_def s2_def s1_def s0_def)
  have S5: "stacks_ok s5" using W ka(2) at(2,3) by (simp add: wf_at_def stacks_ok_def)
  have al: "a \<in> listed L" using R listed_split [of Ready L] by auto
  have nr: "?r \<notin> listed L" using r(3) by (simp add: listed_def)
  have li: "insert a (listed ?L2) = listed L"
  proof -
    have "listed ?L2 = set R \<union> (\<Union>j\<in>- {Deleted, Ready}. set (L j))" by (subst listed_upd) auto
    then show ?thesis using listed_split [of Ready L] R by auto
  qed
  have arr: "thread_id_array s5 = (thread_id_array s)[nat (tid_of s ?r) := 0]" using ka by (simp add: s2_def)
  have I5: "ids_ok s5 (listed L)"
    by (rule ids_ok_drop [OF _ nr arr]) (use W at(1) in \<open>simp_all add: wf_at_def\<close>)
  have "threads_wf s5 ?L2"
    unfolding wf_at_def
  proof (intro conjI ballI impI)
    show "single s5 (RUNNING_THREAD s5) ?L2" using X5 by (simp add: s5_def)
    show "ids_ok s5 (insert (RUNNING_THREAD s5) (listed ?L2))" using I5 li by (simp add: s5_def)
    show "state_of s5 b = NEW_STATE" if "b \<in> listed ?L2" "b \<noteq> RUNNING_THREAD s5" for b
      using that li at(4) wf_atD(5) [OF W] nr by (metis insertCI s5_def threads.select_convs(2) threads.surjective threads.update_convs(2))
  qed (rule L5 S5)+
  moreover have "RUNNING_THREAD s5 = a" by (simp add: s5_def)
  moreover have "queues s5 = queues s" "locks s5 = locks s" "cvs s5 = cvs s" "interrupts s5 = 0"
    using ka(1) by (simp_all add: kept_def s2_def s1_def s0_def)
  ultimately show ?thesis using res arr tc by blast
qed

section \<open>Finding a ready thread\<close>

lemma find_tid_chain:
  assumes "tchain s p (A @ a # B)" "tid_of s a = i" "\<forall>b\<in>set A. tid_of s b \<noteq> i" "length A < fuel"
  shows "find_tid fuel s i prev p = Inr (if A = [] then prev else last A, a)"
  using assms
proof (induction A arbitrary: prev p fuel)
  case Nil
  then obtain t f where "p = a" "cell (tcbs s) a = Some t" "fuel = Suc f" by (cases fuel) (auto split: option.splits)
  then show ?case using Nil.prems(2) attr_cell(1) by (auto simp: tcb_at_def)
next
  case (Cons b A)
  then obtain t f where t: "p = b" "cell (tcbs s) b = Some t" "tchain s (t_next t) (A @ a # B)" "fuel = Suc f" "length A < f"
    by (cases fuel) (auto split: option.splits)
  then show ?case using Cons.IH [OF t(3) Cons.prems(2) _ t(5), of b] Cons.prems(3) attr_cell(1) [OF t(2)] by (simp add: tcb_at_def)
qed

lemma find_tid_absent:
  assumes "tchain s p as" "\<forall>b\<in>set as. tid_of s b \<noteq> i" "length as < fuel" "cells_wf (tcbs s)"
  shows "find_tid fuel s i prev p = Inl Bad_access"
  using assms
proof (induction as arbitrary: prev p fuel)
  case Nil
  then show ?case by (cases fuel) (simp_all add: tcb_at_def)
next
  case (Cons b as)
  then obtain t f where t: "p = b" "cell (tcbs s) b = Some t" "tchain s (t_next t) as" "fuel = Suc f" "length as < f"
    by (cases fuel) (auto split: option.splits)
  then show ?case using Cons.IH [OF t(3) _ t(5)] Cons.prems(2,4) attr_cell(1) [OF t(2)] by (simp add: tcb_at_def)
qed

text \<open>The threads before one of the ready threads have other identifiers.\<close>

lemma ready_before:
  assumes W: "threads_wf s L" and R: "L Ready = A @ a # B"
  shows "\<forall>b\<in>set A. tid_of s b \<noteq> tid_of s a" "length A < next_cell (tcbs s)" "tchain s (READY_HEAD s) (A @ a # B)"
    "tid_of s a \<noteq> tid_of s (RUNNING_THREAD s)" "0 \<le> tid_of s a" "tid_of s a < int THREAD_MAX_THREADS" "\<exists>u. id_at s (tid_of s a) = Inr u \<and> u \<noteq> 0"
proof -
  note L = wf_atD(1) [OF W] and I = wf_atD(3) [OF W]
  show c: "tchain s (READY_HEAD s) (A @ a # B)" using lists_okD(2) [OF L, of Ready] R by (simp add: head_of_def)
  have in_L: "b \<in> insert (RUNNING_THREAD s) (listed L)" if "b \<in> set (A @ a # B)" for b
    using that R listed_split [of Ready L] by auto
  have "b \<noteq> a" if "b \<in> set A" for b using that chain_distinct [OF c] by auto
  moreover have inj: "inj_on (tid_of s) (insert (RUNNING_THREAD s) (listed L))" using I by (simp add: ids_ok_def)
  ultimately show "\<forall>b\<in>set A. tid_of s b \<noteq> tid_of s a" using inj_onD [OF inj _ in_L in_L, of _ a] by auto
  show "length A < next_cell (tcbs s)" using chain_bound [OF c lists_okD(1) [OF L]] by simp
  have "a \<noteq> RUNNING_THREAD s" using wf_atD(2) [OF W] R by (auto simp: single_def dest: spec [of _ Ready])
  then show "tid_of s a \<noteq> tid_of s (RUNNING_THREAD s)" using inj_onD [OF inj _ in_L, of a "RUNNING_THREAD s"] by auto
  show "0 \<le> tid_of s a" "tid_of s a < int THREAD_MAX_THREADS" using I in_L [of a] unfolding ids_ok_def by auto
  show "\<exists>u. id_at s (tid_of s a) = Inr u \<and> u \<noteq> 0" by (rule id_at_live [OF I]) (use in_L [of a] in simp)
qed

section \<open>Exit of another thread\<close>

lemma thread_exit_other:
  assumes W: "threads_wf s L" and R: "L Ready = A @ a # B" and t: "cell (tcbs s) a = Some t"
  shows "thread_exit (tid_of s a) s =
      Inr (Returns (tid_of s a), (put_tcb s a (t\<lparr>t_flag := 1\<rparr>))\<lparr>interrupts := (if interrupts s \<noteq> 0 then 1 else 0)\<rparr>)"
    "threads_wf (put_tcb s a (t\<lparr>t_flag := 1\<rparr>)) L"
proof -
  define s0 where "s0 = s\<lparr>interrupts := 0\<rparr>"
  have e0: "interrupts_set s 0 = (interrupts s, s0)" by (simp add: interrupts_set_def s0_def)
  have W0: "threads_wf s0 L" using W by (simp add: s0_def)
  note b = ready_before [OF W0 R]
  have c0: "cell (tcbs s0) a = Some t" "tid_of s0 = tid_of s" using t by (simp_all add: s0_def)
  obtain u where u: "id_at s0 (tid_of s a) = Inr u" "u \<noteq> 0" using b(7) c0(2) by auto
  have h: "READY_HEAD s0 \<noteq> 0" using chain_null [OF b(3)] by simp
  have f: "find_tid (next_cell (tcbs s0)) s0 (tid_of s a) (READY_HEAD s0) (READY_HEAD s0) = Inr (if A = [] then READY_HEAD s0 else last A, a)"
    using find_tid_chain [OF b(3) refl b(1,2)] c0(2) by simp
  have n: "tid_of s a \<noteq> THREAD_SELF" "tid_of s a \<noteq> THREAD_ANY" "\<not> (tid_of s a > int THREAD_MAX_THREADS - 1 \<or> tid_of s a < THREAD_FAILED)"
    using b(5,6) c0(2) by auto
  have tt: "t_tid t = tid_of s a" using attr_cell(1) [OF t] by simp
  have p: "put_tcb s0 a (t\<lparr>t_flag := 1\<rparr>) = (put_tcb s a (t\<lparr>t_flag := 1\<rparr>))\<lparr>interrupts := 0\<rparr>" by (simp add: put_tcb_def s0_def)
  show "thread_exit (tid_of s a) s =
      Inr (Returns (tid_of s a), (put_tcb s a (t\<lparr>t_flag := 1\<rparr>))\<lparr>interrupts := (if interrupts s \<noteq> 0 then 1 else 0)\<rparr>)"
    unfolding thread_exit_def e0 prod.case if_not_P [OF n(1)] if_not_P [OF n(2)] if_not_P [OF n(3)]
    using u h f c0(1) tt p by (simp add: tcb_at_def upd_put_tcb restore_def interrupts_set_def)
  show "threads_wf (put_tcb s a (t\<lparr>t_flag := 1\<rparr>)) L"
  proof -
    have "wf_at (put_tcb s a (t\<lparr>t_flag := 1\<rparr>)) L (RUNNING_THREAD s)"
      by (rule put_tcb_wf [OF W t]) (use wf_atD(5) [OF W, of a] attr_cell(2) [OF t] in simp_all)
    then show ?thesis by simp
  qed
qed

section \<open>Yielding to an identifier\<close>

lemma unlink_ready:
  assumes L: "lists_ok s L" and R: "L Ready = A @ a # B" and t: "cell (tcbs s) a = Some t"
  defines "s1 \<equiv> if A = [] then set_head s Ready (t_next t) else set_link s (last A) (t_next t)"
  shows "lists_ok (set_link s1 a 0) (L(Ready := A @ B))" "single (set_link s1 a 0) a (L(Ready := A @ B))" "relinked s (set_link s1 a 0)"
    "\<forall>x. single s x L \<longrightarrow> single (set_link s1 a 0) x (L(Ready := A @ B))"
proof -
  let ?L1 = "L(Ready := A @ B)" and ?s = "set_link s1 a 0"
  have c: "tchain s (head_of s Ready) (A @ a # B)" using lists_okD(2) [OF L, of Ready] R by simp
  have d: "a \<notin> set A" "a \<notin> set B" using chain_distinct [OF c] by auto
  have other: "x \<notin> set (L j)" if "j \<noteq> Ready" "x \<in> set (A @ a # B)" for j x
    using lists_okD(3) [OF L that(1)] R that(2) by auto
  have z: "cell (tcbs s) (last A) \<noteq> None" "last A \<noteq> a" "last A \<in> set (A @ a # B)" if "A \<noteq> []"
    using chain_in [OF c, of "last A"] last_in_set [OF that] d(1) by auto
  have c1: "tchain s1 (head_of s1 Ready) (A @ B)"
  proof (cases A rule: rev_cases)
    case Nil
    then show ?thesis using c t by (simp add: s1_def)
  next
    case (snoc A' b)
    then obtain e where "cell (tcbs s) b = Some e" using z(1) by auto
    then show ?thesis using chain_unlink [of t_next "cell (tcbs s)" "head_of s Ready" A' b a B e t "e\<lparr>t_next := t_next t\<rparr>"] c t snoc
      by (simp add: s1_def set_link_def head_of_def)
  qed
  have a1: "cell (tcbs s1) a = Some t" using t z(2) by (auto simp: s1_def cell_set_link)
  have r1: "relinked s s1" using relinked_set_link [OF z(1)] by (simp add: s1_def)
  then show "relinked s ?s" by (rule relinked_trans [OF _ relinked_set_link]) (use a1 in simp)
  have "tchain ?s (head_of ?s j) (?L1 j)" for j
  proof (cases "j = Ready")
    case True
    then show ?thesis using c1 d by (simp add: chain_set_link)
  next
    case False
    then show ?thesis using lists_okD(2) [OF L, of j] other [OF False] z(3) by (auto simp: s1_def chain_set_link)
  qed
  moreover have "cells_wf (tcbs s1)" using lists_okD(1) [OF L] cells_wf_set_link [OF _ z(1)] by (auto simp: s1_def)
  then have "cells_wf (tcbs ?s)" by (rule cells_wf_set_link) (use a1 in simp)
  moreover have "set (?L1 j) \<inter> set (?L1 k) = {}" if "j \<noteq> k" for j k
    using lists_okD(3) [OF L that] R that by auto
  ultimately show "lists_ok ?s ?L1" unfolding lists_ok_def by blast
  show "single ?s a ?L1" using a1 d other by (auto simp: single_def cell_set_link)
  have "single ?s x ?L1" if x: "single s x L" for x
  proof -
    obtain e where e: "cell (tcbs s) x = Some e" "t_next e = 0" "\<forall>j. x \<notin> set (L j)" by (rule singleE [OF x])
    have "x \<notin> set (A @ a # B)" using e(3) R by metis
    moreover have "A \<noteq> [] \<Longrightarrow> x \<noteq> last A" using calculation last_in_set [of A] by auto
    ultimately show ?thesis using e by (auto simp: single_def s1_def cell_set_link)
  qed
  then show "\<forall>x. single s x L \<longrightarrow> single ?s x ?L1" by blast
qed

lemma thread_yield_to_ok:
  assumes W: "threads_wf s L" "flag_of s (RUNNING_THREAD s) = 0" and R: "L Ready = A @ a # B"
  shows "\<exists>s'. thread_yield (tid_of s a) fr s = Inr (Switches, s') \<and> RUNNING_THREAD s' = a \<and>
    threads_wf s' (L(Ready := A @ B @ [RUNNING_THREAD s], Deleted := [])) \<and> queues s' = queues s \<and> locks s' = locks s \<and>
    cvs s' = cvs s \<and> interrupts s' = 0 \<and> thread_id_array s' = thread_id_array s \<and>
    tcb_of s' = switched s (set (L Deleted)) a (After (tid_of s a) a (interrupts s) fr)"
proof -
  define s0 where "s0 = s\<lparr>interrupts := 0\<rparr>"
  let ?r = "RUNNING_THREAD s" and ?L1 = "L(Ready := A @ B)"
  have e0: "interrupts_set s 0 = (interrupts s, s0)" by (simp add: interrupts_set_def s0_def)
  have W0: "threads_wf s0 L" "flag_of s0 (RUNNING_THREAD s0) = 0" and r0: "RUNNING_THREAD s0 = ?r" "tid_of s0 = tid_of s" "switched s0 = switched s"
    using W by (simp_all add: s0_def switched_def fun_eq_iff)
  note L = wf_atD(1) [OF W0(1)] and X = wf_atD(2) [OF W0(1)] and b = ready_before [OF W0(1) R, unfolded r0]
  obtain t where t: "cell (tcbs s0) a = Some t" using listed_tcb [OF L, of a Ready] R by auto
  obtain h where h: "cell (tcbs s0) (READY_HEAD s0) = Some h" using b(3) by (cases A) (auto split: option.splits)
  obtain r where r: "cell (tcbs s0) ?r = Some r" using X by (auto simp: single_def r0)
  have tids: "t_tid t = tid_of s a" "t_tid r = tid_of s ?r" "t_tid h = tid_of s (READY_HEAD s0)"
    using attr_cell(1) [OF t] attr_cell(1) [OF r] attr_cell(1) [OF h] r0 by simp_all
  have n: "tid_of s a \<noteq> THREAD_ANY" "\<not> (tid_of s a = THREAD_SELF \<or> tid_of s a = t_tid r)"
      "\<not> (tid_of s a > int THREAD_MAX_THREADS - 1 \<or> tid_of s a < THREAD_FAILED)"
    using b(4-6) tids by auto
  obtain u where u: "id_at s0 (tid_of s a) = Inr u" "u \<noteq> 0" using b(7) by auto
  define s1 where "s1 = (if A = [] then set_head s0 Ready (t_next t) else set_link s0 (last A) (t_next t))"
  define s2 where "s2 = set_link s1 a 0"
  define s3 where "s3 = append_to s2 ?L1 Ready ?r"
  note un = unlink_ready [OF L R t, folded s1_def, folded s2_def]
  have f: "find_tid (next_cell (tcbs s0)) s0 (tid_of s a) (READY_HEAD s0) (READY_HEAD s0) = Inr (if A = [] then READY_HEAD s0 else last A, a)"
    by (rule find_tid_chain [OF b(3) _ _ b(2)]) (use b(1) r0 in simp_all)
  have hd: "(t_tid h = tid_of s a) = (A = [])" "A = [] \<Longrightarrow> h = t" using b(1,3) t h tids by (cases A; auto)+
  have st1: "(if t_tid h = tid_of s a then Inr (s0\<lparr>READY_HEAD := t_next h\<rparr>)
      else upd_tcb s0 (if A = [] then READY_HEAD s0 else last A) (\<lambda>p. p\<lparr>t_next := t_next t\<rparr>)) = Inr s1"
  proof (cases "A = []")
    case False
    then have "cell (tcbs s0) (last A) \<noteq> None" using listed_tcb [OF L, of "last A" Ready] R by auto
    then show ?thesis using False hd(1) by (simp add: s1_def upd_tcb_link)
  qed (use hd in \<open>simp add: s1_def set_head_def\<close>)
  have a1: "cell (tcbs s1) a = Some t"
    using t chain_distinct [OF b(3)] by (auto simp: s1_def cell_set_link dest: last_in_set)
  have st2: "upd_tcb s1 a (\<lambda>t. t\<lparr>t_next := 0\<rparr>) = Inr s2" using a1 by (simp add: upd_tcb_link s2_def)
  have X2: "single s2 (RUNNING_THREAD s0) ?L1" using un(4) X by blast
  have ins: "insert_thread_to_ready s2 ?r = Inr s3" unfolding s3_def by (rule insert_ready_eq [OF un(1)]) (use X2 r0 in simp)
  have run2: "RUNNING_THREAD s2 = ?r" using relinked_attrs(7) [OF un(3)] r0 by simp
  have aR: "a \<in> set (L Ready)" "set (A @ B) = set (L Ready) - {a}" using R chain_distinct [OF b(3)] by auto
  let ?L2 = "?L1(Ready := ?L1 Ready @ [?r])"
  note ho = hand_over [OF W0(1) aR _ un(1-3) X2, of Ready, unfolded r0, folded s3_def]
  obtain s' where s': "give_way (tid_of s0 a) a (interrupts s) fr s3 = Inr (Switches, s')" "RUNNING_THREAD s' = a"
      "threads_wf s' (?L2(Deleted := []))" "kept s3 s'"
      "tcb_of s' = switched s0 (set (L Deleted)) a (After (tid_of s0 a) a (interrupts s) fr)"
    using give_way_from [OF W0, of s3 ?L2 a] ho r0 by auto
  have "thread_yield (tid_of s a) fr s = give_way (tid_of s a) a (interrupts s) fr s3"
    unfolding thread_yield_def e0 prod.case if_not_P [OF n(1)]
    using n(2,3) r r0 u f h t st1 st2 ins run2 tids by (simp add: tcb_at_def)
  moreover have "queues s' = queues s" using s'(4) un(3) by (simp add: kept_def s3_def s2_def s1_def s0_def set_head_def)
  moreover have "relinked s0 s3" using ho by simp
  then have "locks s' = locks s0" "cvs s' = cvs s0" "interrupts s' = 0" "thread_id_array s' = thread_id_array s0"
    using relinked_kept [OF _ s'(4)] by (simp_all add: s0_def)
  ultimately show ?thesis using s' r0 by (intro exI [of _ s']) (simp add: s0_def)
qed

end
