(* ===== verification/Thread_Rounds.thy ===== *)
theory Thread_Rounds
  imports Thread_Life
begin

text \<open>
  Scheduling, threads/thread.c: a thread that is switched to continues (\<open>resume\<close>) where it called \<open>thread_yield\<close>, or starts. When every thread
  does nothing but yield, or is preempted (the handler of threads/interrupt.c calls \<open>thread_yield(THREAD_ANY)\<close>), the threads run in turn:
  \<open>turns n\<close> rotates the queue of the running and the ready threads.
\<close>

section \<open>Resuming\<close>

definition ctx_of :: "threads \<Rightarrow> nat \<Rightarrow> saved" where "ctx_of s a = t_context (the (tcb_of s a))"

lemma ctx_cell: "cell (tcbs s) a = Some t \<Longrightarrow> ctx_of s a = t_context t"
  by (simp add: ctx_of_def tcb_of_def)

lemma id_at_valid: "length (thread_id_array s) = THREAD_MAX_THREADS \<Longrightarrow> 0 \<le> i \<Longrightarrow> i < int THREAD_MAX_THREADS \<Longrightarrow> id_at s i = Inr (thread_id_array s ! nat i)"
  by (simp add: id_at_def nat_less_iff)

text \<open>The thread was switched away from in a call of its own, and the thread it gave way to still has its control block.\<close>

definition resumable :: "threads \<Rightarrow> saved \<Rightarrow> bool" where
  "resumable s c = (case c of Start fn arg \<Rightarrow> True
     | After i temp en frames \<Rightarrow> frames = [] \<and> 0 \<le> i \<and> i < int THREAD_MAX_THREADS \<and> tcb_of s temp \<noteq> None | _ \<Rightarrow> False)"

lemma resume_ok:
  assumes W: "threads_wf s L" and D: "L Deleted = []" and r: "flag_of s (RUNNING_THREAD s) = 0" "state_of s (RUNNING_THREAD s) = RECOVER_STATE"
    and c: "resumable s (ctx_of s (RUNNING_THREAD s))"
  shows "\<exists>ev e. resume fuel s = Inr (ev, s\<lparr>interrupts := e\<rparr>) \<and> ev =
    (case ctx_of s (RUNNING_THREAD s) of Start fn a \<Rightarrow> Enters fn a | After i temp en fr \<Rightarrow> Returns i | _ \<Rightarrow> Switches)"
proof -
  note L = wf_atD(1) [OF W]
  obtain t where t: "cell (tcbs s) (RUNNING_THREAD s) = Some t" using wf_atD(2) [OF W] by (auto simp: single_def)
  have ct: "ctx_of s (RUNNING_THREAD s) = t_context t" "t_flag t = 0" "t_state t = RECOVER_STATE"
    using ctx_cell [OF t] attr_cell [OF t] r by simp_all
  have nd: "TO_DELETE_THREAD s = 0" using head_empty [OF L, of Deleted] D by (simp add: head_of_def)
  show ?thesis
  proof (cases "t_context t")
    case (Start fn a)
    then show ?thesis using t ct by (auto simp: resume_def tcb_at_def interrupts_set_def)
  next
    case (After i temp en fr)
    then have a: "fr = []" "0 \<le> i" "i < int THREAD_MAX_THREADS" "tcb_of s temp \<noteq> None" using c ct(1) by (simp_all add: resumable_def)
    obtain u where u: "cell (tcbs s) temp = Some u" using a(4) by (auto simp: tcb_of_def)
    have "length (thread_id_array s) = THREAD_MAX_THREADS" using wf_atD(3) [OF W] by (simp add: ids_ok_def)
    then have "id_at s i = Inr (thread_id_array s ! nat i)" using a by (simp add: id_at_valid)
    then have "after_getcontext i temp en s = Inr (restore en i s)"
      using t ct nd u by (simp add: after_getcontext_def tcb_at_def)
    then show ?thesis using t ct After a(1) by (auto simp: resume_def tcb_at_def restore_def interrupts_set_def)
  qed (use c ct(1) in \<open>simp_all add: resumable_def\<close>)
qed

section \<open>Turns\<close>

definition turn :: "threads \<Rightarrow> outcome" where
  "turn s = rbind (resume 0 s) (\<lambda>(_, s). thread_yield THREAD_ANY [] s)"

fun turns :: "nat \<Rightarrow> threads \<Rightarrow> threads res" where
  "turns 0 s = Inr s"
| "turns (Suc n) s = rbind (turn s) (\<lambda>(_, s). turns n s)"

definition in_turn :: "threads \<Rightarrow> (list_id \<Rightarrow> nat list) \<Rightarrow> bool" where
  "in_turn s L \<longleftrightarrow> threads_wf s L \<and> L Deleted = [] \<and> state_of s (RUNNING_THREAD s) = RECOVER_STATE \<and>
     (\<forall>a\<in>set (RUNNING_THREAD s # L Ready). flag_of s a = 0 \<and> resumable s (ctx_of s a))"

lemma in_turn_interrupts [simp]: "in_turn (s\<lparr>interrupts := e\<rparr>) L = in_turn s L"
proof -
  have "ctx_of (s\<lparr>interrupts := e\<rparr>) = ctx_of s" "resumable (s\<lparr>interrupts := e\<rparr>) = resumable s"
    by (simp_all add: ctx_of_def resumable_def fun_eq_iff split: saved.split)
  then show ?thesis by (simp add: in_turn_def)
qed

lemma yield_in_turn:
  assumes I: "in_turn s L" and R: "L Ready = a # R"
  shows "\<exists>s'. thread_yield THREAD_ANY [] s = Inr (Switches, s') \<and> RUNNING_THREAD s' = a \<and> in_turn s' (L(Ready := R @ [RUNNING_THREAD s]))"
proof -
  let ?r = "RUNNING_THREAD s"
  have W: "threads_wf s L" "L Deleted = []" and al: "\<forall>b\<in>set (?r # L Ready). flag_of s b = 0 \<and> resumable s (ctx_of s b)"
    using I by (simp_all add: in_turn_def)
  obtain s' where s': "thread_yield THREAD_ANY [] s = Inr (Switches, s')" "RUNNING_THREAD s' = a"
      "threads_wf s' (L(Ready := R @ [?r], Deleted := []))" "tcb_of s' = switched s {} a (After (tid_of s a) a (interrupts s) [])"
    using thread_yield_any_ok [OF W(1) _ R, of "[]"] al W(2) by auto
  have L': "L(Ready := R @ [?r], Deleted := []) = L(Ready := R @ [?r])" using W(2) by (simp add: fun_upd_idem)
  have ra: "?r \<noteq> a" using wf_atD(2) [OF W(1)] R by (auto simp: single_def dest: spec [of _ Ready])
  have none: "(tcb_of s' b = None) = (tcb_of s b = None)" for b by (simp add: s'(4) switched_def)
  have live: "tcb_of s b \<noteq> None" if "b \<in> set (?r # L Ready)" for b
    using that wf_atD(2) [OF W(1)] listed_tcb [OF wf_atD(1) [OF W(1)], of b Ready] by (auto simp: single_def tcb_of_def)
  have at: "flag_of s' b = flag_of s b" "b \<noteq> ?r \<Longrightarrow> ctx_of s' b = ctx_of s b" if "b \<in> set (?r # L Ready)" for b
    using live [OF that] by (auto simp: attr_defs ctx_of_def s'(4) switched_def)
  have new: "ctx_of s' ?r = After (tid_of s a) a (interrupts s) []" "state_of s' a = RECOVER_STATE"
    using ra live [of ?r] live [of a] R by (auto simp: ctx_of_def attr_defs s'(4) switched_def)
  have "0 \<le> tid_of s a" "tid_of s a < int THREAD_MAX_THREADS" using ready_before(5,6) [OF W(1), of "[]" a R] R by simp_all
  then have "resumable s' (ctx_of s' ?r)" using new(1) none live [of a] R by (simp add: resumable_def)
  moreover have "resumable s' (ctx_of s' b)" if "b \<in> set (L Ready)" for b
  proof -
    have "b \<noteq> ?r" using that wf_atD(2) [OF W(1)] by (auto simp: single_def)
    moreover have "resumable s (ctx_of s b)" using al that by simp
    ultimately show ?thesis using at(2) [of b] that none by (simp add: resumable_def split: saved.splits)
  qed
  ultimately have "in_turn s' (L(Ready := R @ [?r]))"
    unfolding in_turn_def s'(2) using s'(2,3) W(2) new(2) al at(1) R by (simp add: fun_upd_idem)
  then show ?thesis using s'(1,2) by blast
qed

lemma turn_ok:
  assumes I: "in_turn s L" and R: "L Ready = a # R"
  shows "\<exists>s'. turn s = Inr (Switches, s') \<and> RUNNING_THREAD s' = a \<and> in_turn s' (L(Ready := R @ [RUNNING_THREAD s]))"
proof -
  have W: "threads_wf s L" "L Deleted = []" "flag_of s (RUNNING_THREAD s) = 0" "state_of s (RUNNING_THREAD s) = RECOVER_STATE"
      "resumable s (ctx_of s (RUNNING_THREAD s))"
    using I by (simp_all add: in_turn_def)
  obtain ev e where "resume 0 s = Inr (ev, s\<lparr>interrupts := e\<rparr>)" using resume_ok [OF W, of 0] by blast
  moreover have "in_turn (s\<lparr>interrupts := e\<rparr>) L" using I by simp
  ultimately show ?thesis using yield_in_turn [of "s\<lparr>interrupts := e\<rparr>" L a R] R by (simp add: turn_def)
qed

lemma turns_rotate:
  assumes "in_turn s L" "L Ready \<noteq> []"
  shows "\<exists>s' x R. turns n s = Inr s' \<and> rotate n (RUNNING_THREAD s # L Ready) = x # R \<and> RUNNING_THREAD s' = x \<and> in_turn s' (L(Ready := R))"
  using assms
proof (induction n arbitrary: s L)
  case (Suc n)
  obtain a R where R: "L Ready = a # R" using Suc.prems(2) by (cases "L Ready") auto
  obtain s1 where s1: "turn s = Inr (Switches, s1)" "RUNNING_THREAD s1 = a" "in_turn s1 (L(Ready := R @ [RUNNING_THREAD s]))"
    using turn_ok [OF Suc.prems(1) R] by blast
  have up: "L(Ready := X, Ready := Y) = L(Ready := Y)" for X Y by simp
  show ?case using Suc.IH [OF s1(3)] s1(1,2) R unfolding up by (simp add: rotate1_rotate_swap)
qed simp

end
