(* ===== verification/Thread_Locks.thy ===== *)
theory Thread_Locks
  imports Thread_Rounds
begin

text \<open>
  The locks of threads/thread.c: whoever acquires a lock finds it free or is put in its wait queue, releasing it wakes all that wait, and between
  acquiring and releasing no other thread gets it (\<open>lock_step\<close>, \<open>one_holder\<close>).
\<close>

section \<open>What a call leaves alone\<close>

text \<open>Thread operations do not touch the locks; one that returns has not changed the running thread.\<close>

definition calm :: "threads \<Rightarrow> threads \<Rightarrow> bool" where
  "calm s s' \<longleftrightarrow> locks s' = locks s \<and> RUNNING_THREAD s' = RUNNING_THREAD s"

lemma calm_refl [simp]: "calm s s" by (simp add: calm_def)

lemma calm_trans: "calm s t \<Longrightarrow> calm t u \<Longrightarrow> calm s u" by (simp add: calm_def)

lemma calm_upd_tcb: "upd_tcb s a f = Inr s' \<Longrightarrow> calm s s'"
  by (auto simp: upd_tcb_def rbind_def calm_def split: sum.splits)

lemma calm_upd_queue: "upd_queue s q f = Inr s' \<Longrightarrow> calm s s'"
  by (auto simp: upd_queue_def rbind_def calm_def split: sum.splits)

lemma calm_set_id: "set_id s i v = Inr s' \<Longrightarrow> calm s s'"
  by (auto simp: set_id_def calm_def split: if_splits)

lemma calm_interrupts [simp]: "calm s (snd (interrupts_set s e))" "calm (s\<lparr>interrupts := e\<rparr>) s' = calm s s'" "calm s (s'\<lparr>interrupts := e\<rparr>) = calm s s'"
  by (simp_all add: calm_def interrupts_set_def)

lemma calm_heads [simp]:
  "calm (s\<lparr>READY_HEAD := a\<rparr>) s' = calm s s'" "calm s (s\<lparr>READY_HEAD := a\<rparr>)" "calm s (s\<lparr>TO_DELETE_THREAD := a\<rparr>)" "calm s (s'\<lparr>TO_DELETE_THREAD := a\<rparr>) = calm s s'"
  by (simp_all add: calm_def)

lemma calm_link_last: "link_last s p a = Inr s' \<Longrightarrow> calm s s'"
  by (auto simp: link_last_def rbind_def calm_upd_tcb split: sum.splits)

lemma calm_insert:
  "insert_thread_to_ready s a = Inr s' \<Longrightarrow> calm s s'" "insert_thread_to_delete s a = Inr s' \<Longrightarrow> calm s s'"
  by (auto simp: insert_thread_to_ready_def insert_thread_to_delete_def calm_link_last split: if_splits)

lemma calm_insert_wait: "insert_thread_to_wait s a q = Inr s' \<Longrightarrow> calm s s'"
  by (auto simp: insert_thread_to_wait_def rbind_def calm_upd_queue split: sum.splits if_splits
    intro: calm_trans [OF calm_link_last calm_upd_queue])

lemma calm_delete_from: "delete_from fuel s p = Inr s' \<Longrightarrow> calm s s'"
proof (induction fuel s p rule: delete_from.induct)
  case (1 fuel s p)
  show ?case
  proof (cases "p = 0")
    case True
    then show ?thesis using 1(2) by (simp add: delete_from.simps)
  next
    case False
    with 1(2) obtain n t st m where n: "fuel = Suc n" "tcb_at s p = Inr t"
        "(if t_tid t \<noteq> 0 \<and> t_sp t \<noteq> 0 then free_cell (stacks s) (t_sp t) else Inr (stacks s)) = Inr st" "free_cell (tcbs s) p = Inr m"
        "delete_from n (s\<lparr>stacks := st, tcbs := m\<rparr>) (t_next t) = Inr s'"
      by (subst (asm) delete_from.simps) (auto simp: rbind_def split: nat.splits sum.splits)
    have "calm (s\<lparr>stacks := st, tcbs := m\<rparr>) s'" by (rule 1(1) [OF False n(1,2,3,4,5)])
    then show ?thesis by (simp add: calm_def)
  qed
qed

definition calm_to :: "event \<Rightarrow> threads \<Rightarrow> threads \<Rightarrow> bool" where
  "calm_to ev s s' \<longleftrightarrow> locks s' = locks s \<and> (ev \<noteq> Switches \<longrightarrow> RUNNING_THREAD s' = RUNNING_THREAD s)"

lemma calm_to_calm [simp]: "ev \<noteq> Switches \<Longrightarrow> calm_to ev s s' = calm s s'" "calm s s' \<Longrightarrow> calm_to ev s s'"
  by (auto simp: calm_to_def calm_def)

lemma calm_to_trans: "calm s t \<Longrightarrow> calm_to ev t u \<Longrightarrow> calm_to ev s u"
  by (simp add: calm_to_def calm_def)

lemma calm_to_run: "calm s t \<Longrightarrow> calm_to Switches s (t\<lparr>RUNNING_THREAD := a\<rparr>)"
  by (simp add: calm_to_def calm_def)

lemma calm_restore: "restore en r s = (ev, s') \<Longrightarrow> calm s s' \<and> ev \<noteq> Switches"
  by (auto simp: restore_def)

text \<open>The same as a rule for every outcome of a call.\<close>

definition calms :: "threads \<Rightarrow> outcome \<Rightarrow> bool" where
  "calms s m \<longleftrightarrow> (\<forall>ev s'. m = Inr (ev, s') \<longrightarrow> calm_to ev s s')"

named_theorems calms_rules \<open>what a call leaves alone, by its structure\<close>

lemma calms_struct [calms_rules]:
  "(\<And>x. m = Inr x \<Longrightarrow> calms s (f x)) \<Longrightarrow> calms s (rbind m f)"
  "(b \<Longrightarrow> calms s x) \<Longrightarrow> (\<not> b \<Longrightarrow> calms s y) \<Longrightarrow> calms s (if b then x else y)"
  "calm s t \<Longrightarrow> calms s (Inr (restore en r t))" "calm s t \<Longrightarrow> calms s (Inr (Returns r, t))"
  "calm s t \<Longrightarrow> calms s (Inr (Switches, t\<lparr>RUNNING_THREAD := a\<rparr>))" "calms s (Inl e)"
  by (auto simp: calms_def rbind_eq_Inr restore_def calm_to_run interrupts_set_def)

lemma calmsD: "calms s m \<Longrightarrow> m = Inr (ev, s') \<Longrightarrow> calm_to ev s s'"
  by (simp add: calms_def)

lemma calms_step: "calms t m \<Longrightarrow> calm s t \<Longrightarrow> calms s m"
  using calm_to_trans by (auto simp: calms_def)

lemma calm_delete_list: "delete_threads_list s = Inr s' \<Longrightarrow> calm s s'"
  by (auto simp: delete_threads_list_def rbind_eq_Inr dest: calm_delete_from)

lemmas calm_calls = calm_upd_tcb calm_set_id calm_insert calm_insert_wait calm_upd_queue calm_delete_list

lemma calms_exit_self: "calms s (thread_exit THREAD_SELF s)"
  unfolding thread_exit_def interrupts_set_def prod.case Let_def simp_thms if_True
  by (intro calms_rules) (auto dest!: calm_calls simp: calm_def)

lemma calms_after_getcontext: "calms s (after_getcontext i temp en s)"
  unfolding after_getcontext_def
  apply (intro calms_rules)
  subgoal for run x
    apply (cases x)
    apply (simp only: prod.case)
    apply (intro calms_rules)
    apply (auto dest!: calm_calls calmsD [OF calms_exit_self] simp: calms_def calm_def calm_to_def split: if_splits)
    done
  done

lemma calms_give_way: "calms s (give_way i temp en fr s)"
  unfolding give_way_def by (intro calms_rules calms_step [OF calms_after_getcontext calm_upd_tcb])

lemma calms_sleep: "calms s (thread_sleep q fr s)"
  unfolding thread_sleep_def interrupts_set_def prod.case Let_def
  by (intro calms_rules calms_step [OF calms_give_way]) (auto dest!: calm_calls simp: calm_def)

lemma calm_wakeup: "thread_wakeup q n s = Inr (r, s') \<Longrightarrow> calm s s'"
  by (auto simp: thread_wakeup_def interrupts_set_def rbind_eq_Inr Let_def calm_def dest!: calm_calls split: if_splits)

section \<open>Acquiring and releasing\<close>

lemma set_lock_eq: "cell (locks s) l = Some lk \<Longrightarrow> set_lock s l v = Inr (s\<lparr>locks := locks s\<lparr>cell := (cell (locks s))(l \<mapsto> lk\<lparr>lock_state := v\<rparr>)\<rparr>\<rparr>)"
  by (simp add: set_lock_def)

text \<open>\<open>lock_acquire\<close> returns only with the lock, which it has found free; otherwise it has changed no lock.\<close>

definition lock_at :: "threads \<Rightarrow> nat \<Rightarrow> int option" where
  "lock_at s l = map_option lock_state (cell (locks s) l)"

definition takes :: "nat \<Rightarrow> threads \<Rightarrow> event \<Rightarrow> threads \<Rightarrow> bool" where
  "takes l s ev s' \<longleftrightarrow> (if ev = Switches then locks s' = locks s
     else lock_at s l \<noteq> Some 1 \<and> lock_at s' = (lock_at s)(l \<mapsto> 1) \<and> RUNNING_THREAD s' = RUNNING_THREAD s)"

lemma acquire_takes: "acquire_from fuel l en fr s = Inr (ev, s') \<Longrightarrow> takes l s ev s'"
proof (induction fuel arbitrary: s)
  case (Suc n)
  from Suc.prems obtain lk where lk: "cell (locks s) l = Some lk"
    by (subst (asm) acquire_from.simps) (auto simp: rbind_eq_Inr cell_at_def split: option.splits)
  show ?case
  proof (cases "lock_state lk = 1")
    case True
    with Suc.prems lk obtain ev1 s1 where s1: "thread_sleep (l_queue lk) (In_acquire l en # fr) s = Inr (ev1, s1)"
        "(if ev1 = Switches then Inr (Switches, s1) else acquire_from n l en fr s1) = Inr (ev, s')"
      by (subst (asm) acquire_from.simps) (auto simp: rbind_eq_Inr)
    have c: "calm_to ev1 s s1" using calmsD [OF calms_sleep s1(1)] .
    show ?thesis
    proof (cases "ev1 = Switches")
      case False
      then have "takes l s1 ev s'" using Suc.IH s1(2) by simp
      moreover have "locks s1 = locks s" "RUNNING_THREAD s1 = RUNNING_THREAD s" using c False by (simp_all add: calm_to_def)
      moreover have "lock_at s1 = lock_at s" using calculation(2) by (simp add: lock_at_def fun_eq_iff)
      ultimately show ?thesis by (simp add: takes_def split: if_splits)
    qed (use c s1(2) in \<open>simp add: takes_def calm_to_def\<close>)
  next
    case False
    then show ?thesis using Suc.prems lk
      by (subst (asm) acquire_from.simps) (auto simp: set_lock_eq restore_def interrupts_set_def takes_def lock_at_def fun_eq_iff)
  qed
next
  case 0
  from 0 obtain lk where lk: "cell (locks s) l = Some lk" "lock_state lk \<noteq> 1"
    by (subst (asm) acquire_from.simps) (auto simp: rbind_eq_Inr cell_at_def split: option.splits if_splits)
  then show ?case using 0
    by (subst (asm) acquire_from.simps) (auto simp: set_lock_eq restore_def interrupts_set_def takes_def lock_at_def fun_eq_iff)
qed

lemma lock_acquire_takes:
  assumes "lock_acquire fuel l fr s = Inr (ev, s')"
  shows "takes l s ev s'"
proof -
  have "acquire_from fuel l (interrupts s) fr (s\<lparr>interrupts := 0\<rparr>) = Inr (ev, s')"
    using assms by (auto simp: lock_acquire_def interrupts_set_def rbind_eq_Inr)
  from acquire_takes [OF this] show ?thesis by (simp add: takes_def lock_at_def fun_eq_iff split: if_splits)
qed

lemma lock_release_frees:
  assumes "lock_release l s = Inr s'"
  shows "lock_at s l \<noteq> None" "lock_at s' = (lock_at s)(l \<mapsto> 0)" "RUNNING_THREAD s' = RUNNING_THREAD s"
proof -
  from assms obtain s1 q n s2 where s: "set_lock (s\<lparr>interrupts := 0\<rparr>) l 0 = Inr s1" "thread_wakeup q 1 s1 = Inr (n, s2)"
      "s' = snd (interrupts_set s2 (interrupts s))"
    by (auto simp: lock_release_def interrupts_set_def rbind_eq_Inr)
  then obtain lk where lk: "cell (locks s) l = Some lk" by (cases "cell (locks s) l") (auto simp: set_lock_def put_cell_def rbind_eq_Inr)
  have "calm s1 s2" using calm_wakeup s(2) .
  then show "lock_at s l \<noteq> None" "lock_at s' = (lock_at s)(l \<mapsto> 0)" "RUNNING_THREAD s' = RUNNING_THREAD s"
    using s(1,3) lk by (auto simp: set_lock_eq calm_def lock_at_def fun_eq_iff interrupts_set_def)
qed

lemma cv_wait_locks:
  assumes "cv_wait fuel cv l fr s = Inr (ev, s')"
  shows "lock_at s l \<noteq> None" "lock_at s' = (lock_at s)(l \<mapsto> (if ev = Switches then 0 else 1))" "ev \<noteq> Switches \<Longrightarrow> RUNNING_THREAD s' = RUNNING_THREAD s"
proof -
  from assms obtain s1 q ev1 s2 where s: "lock_release l s = Inr s1" "thread_sleep q (In_cv_wait l # fr) s1 = Inr (ev1, s2)"
      "(if ev1 = Switches then Inr (Switches, s2) else lock_acquire fuel l fr s2) = Inr (ev, s')"
    by (auto simp: cv_wait_def rbind_eq_Inr)
  note r = lock_release_frees [OF s(1)]
  have c: "calm_to ev1 s1 s2" using calmsD [OF calms_sleep s(2)] .
  then have l2: "lock_at s2 = lock_at s1" by (simp add: calm_to_def lock_at_def fun_eq_iff)
  show "lock_at s l \<noteq> None" by (rule r)
  have "lock_at s' = (lock_at s)(l \<mapsto> (if ev = Switches then 0 else 1)) \<and> (ev \<noteq> Switches \<longrightarrow> RUNNING_THREAD s' = RUNNING_THREAD s)"
  proof (cases "ev1 = Switches")
    case True
    then show ?thesis using s(3) l2 r by simp
  next
    case False
    then have t: "takes l s2 ev s'" using s(3) lock_acquire_takes by simp
    have lo: "locks s' = locks s2 \<Longrightarrow> lock_at s' = lock_at s2" by (simp add: lock_at_def fun_eq_iff)
    show ?thesis using t False c l2 lo r by (auto simp: takes_def calm_to_def split: if_splits)
  qed
  then show "lock_at s' = (lock_at s)(l \<mapsto> (if ev = Switches then 0 else 1))" "ev \<noteq> Switches \<Longrightarrow> RUNNING_THREAD s' = RUNNING_THREAD s" by simp_all
qed

section \<open>One holder\<close>

text \<open>A thread that slept in \<open>lock_acquire\<close> or \<open>cv_wait\<close> goes on acquiring that lock.\<close>

fun frame_lock :: "frame \<Rightarrow> nat" where
  "frame_lock (In_acquire l en) = l"
| "frame_lock (In_cv_wait l) = l"

lemma resume_takes:
  assumes "resume fuel s = Inr (ev, s')" "cell (tcbs s) (RUNNING_THREAD s) = Some t" "t_context t = After i temp en [f]"
  shows "takes (frame_lock f) s ev s'"
proof -
  from assms obtain ev1 s1 where s1: "after_getcontext i temp en s = Inr (ev1, s1)" "return_to fuel [f] (ev1, s1) = Inr (ev, s')"
    by (auto simp: resume_def tcb_at_def rbind_eq_Inr)
  have c: "calm_to ev1 s s1" using calmsD [OF calms_after_getcontext s1(1)] .
  show ?thesis
  proof (cases "ev1 = Switches")
    case True
    then show ?thesis using s1(2) c by (cases f) (simp_all add: takes_def calm_to_def)
  next
    case False
    then have "takes (frame_lock f) s1 ev s'"
      using s1(2) acquire_takes lock_acquire_takes by (cases f) (auto simp: rbind_eq_Inr)
    moreover have l: "locks s1 = locks s" "RUNNING_THREAD s1 = RUNNING_THREAD s" using c False by (simp_all add: calm_to_def)
    moreover have "lock_at s1 = lock_at s" using l by (simp add: lock_at_def fun_eq_iff)
    ultimately show ?thesis by (simp add: takes_def split: if_splits)
  qed
qed

text \<open>
  The threads \<open>H\<close> that hold the lock \<open>l\<close>: a thread does once a call that acquires it has returned, until it releases it or waits with it;
  only a holder does these. All the other calls leave the locks alone (\<open>calms_sleep\<close>, \<open>calm_wakeup\<close>, \<dots>).
\<close>

inductive lock_step :: "nat \<Rightarrow> threads \<times> nat set \<Rightarrow> threads \<times> nat set \<Rightarrow> bool" for l where
  acquire: "lock_acquire fuel l' fr s = Inr (ev, s') \<Longrightarrow>
    lock_step l (s, H) (s', if l' = l \<and> ev \<noteq> Switches then insert (RUNNING_THREAD s) H else H)"
| go_on: "resume fuel s = Inr (ev, s') \<Longrightarrow> cell (tcbs s) (RUNNING_THREAD s) = Some t \<Longrightarrow> t_context t = After i temp en [f] \<Longrightarrow>
    lock_step l (s, H) (s', if frame_lock f = l \<and> ev \<noteq> Switches then insert (RUNNING_THREAD s) H else H)"
| release: "lock_release l' s = Inr s' \<Longrightarrow> l' = l \<longrightarrow> RUNNING_THREAD s \<in> H \<Longrightarrow>
    lock_step l (s, H) (s', if l' = l then H - {RUNNING_THREAD s} else H)"
| wait: "cv_wait fuel cv l' fr s = Inr (ev, s') \<Longrightarrow> l' = l \<longrightarrow> RUNNING_THREAD s \<in> H \<Longrightarrow>
    lock_step l (s, H) (s', if l' = l \<and> ev = Switches then H - {RUNNING_THREAD s} else H)"
| other: "locks s' = locks s \<Longrightarrow> lock_step l (s, H) (s', H)"

inductive_cases lock_stepE: "lock_step l (s, H) (s', H')"

definition one_holder :: "nat \<Rightarrow> threads \<times> nat set \<Rightarrow> bool" where
  "one_holder l = (\<lambda>(s, H). lock_at s l \<noteq> None \<and> (lock_at s l = Some 1 \<longleftrightarrow> H \<noteq> {}) \<and> (\<forall>x\<in>H. \<forall>y\<in>H. x = y))"

lemma one_holder_takes:
  assumes "takes l' s ev s'" "one_holder l (s, H)"
  shows "one_holder l (s', if l' = l \<and> ev \<noteq> Switches then insert (RUNNING_THREAD s) H else H)"
proof -
  have "locks s' = locks s \<Longrightarrow> lock_at s' = lock_at s" by (simp add: lock_at_def fun_eq_iff)
  then show ?thesis using assms by (auto simp: takes_def one_holder_def split: if_splits)
qed

lemma lock_step_one_holder: "lock_step l c c' \<Longrightarrow> one_holder l c \<Longrightarrow> one_holder l c'"
proof (induction rule: lock_step.induct)
  case (acquire fuel l' fr s ev s' H)
  then show ?case using one_holder_takes [OF lock_acquire_takes] by blast
next
  case (go_on fuel s ev s' t i temp en f H)
  then show ?case using one_holder_takes [OF resume_takes] by blast
next
  case (release l' s s' H)
  then show ?case using lock_release_frees [OF release(1)] by (auto simp: one_holder_def)
next
  case (wait fuel cv l' fr s ev s' H)
  then show ?case using cv_wait_locks [OF wait(1)] by (auto simp: one_holder_def)
next
  case (other s' s H)
  then have "lock_at s' = lock_at s" by (simp add: lock_at_def fun_eq_iff)
  then show ?case using other(2) by (simp add: one_holder_def)
qed

lemma lock_steps_one_holder: "(lock_step l)\<^sup>*\<^sup>* c c' \<Longrightarrow> one_holder l c \<Longrightarrow> one_holder l c'"
  by (induction rule: rtranclp_induct) (auto intro: lock_step_one_holder)

lemma lock_create_free: "lock_create s = (l, s') \<Longrightarrow> lock_at s' l = Some 0"
  by (auto simp: lock_create_def wait_queue_create_def new_cell_def lock_at_def)

section \<open>The calls\<close>

lemma lock_acquire_held:
  assumes W: "threads_wf s L" "flag_of s (RUNNING_THREAD s) = 0" "L Ready = a # R"
    and l: "l \<noteq> 0" "cell (locks s) l = Some lk" "lock_state lk = 1" and q: "l_queue lk \<noteq> 0" "cell (queues s) (l_queue lk) = Some w"
  shows "\<exists>s'. lock_acquire (Suc fuel) l fr s = Inr (Switches, s') \<and> RUNNING_THREAD s' = a \<and> lock_at s' = lock_at s \<and>
    threads_wf s' (L(Ready := R, Waiting (l_queue lk) := L (Waiting (l_queue lk)) @ [RUNNING_THREAD s], Deleted := []))"
proof -
  define s0 where "s0 = s\<lparr>interrupts := 0\<rparr>"
  have s0: "threads_wf s0 L" "flag_of s0 (RUNNING_THREAD s0) = 0" "cell (queues s0) (l_queue lk) = Some w" "RUNNING_THREAD s0 = RUNNING_THREAD s"
    using W q by (simp_all add: s0_def)
  obtain s' where s': "thread_sleep (l_queue lk) (In_acquire l (interrupts s) # fr) s0 = Inr (Switches, s')" "RUNNING_THREAD s' = a"
      "threads_wf s' (L(Ready := R, Waiting (l_queue lk) := L (Waiting (l_queue lk)) @ [RUNNING_THREAD s], Deleted := []))" "locks s' = locks s0"
    using thread_sleep_run [OF s0(1,2) W(3) q(1) s0(3), of "In_acquire l (interrupts s) # fr"] s0(4) by auto
  have "lock_acquire (Suc fuel) l fr s = Inr (Switches, s')"
    using s'(1) l by (simp add: lock_acquire_def c_assert_def interrupts_set_def acquire_from.simps s0_def)
  moreover have "lock_at s' = lock_at s" using s'(4) by (simp add: lock_at_def s0_def fun_eq_iff)
  ultimately show ?thesis using s'(2,3) by blast
qed

text \<open>With no ready thread the caller never gets out of its loop, interrupts being off.\<close>

lemma acquire_spins:
  assumes "cell (locks s) l = Some lk" "lock_state lk = 1" "READY_HEAD s = 0" "interrupts s = 0"
  shows "acquire_from fuel l en fr s = Inl Out_of_fuel"
proof (induction fuel)
  case (Suc n)
  have "thread_sleep (l_queue lk) f s = Inr (Returns (if l_queue lk = 0 then THREAD_INVALID else THREAD_NONE), s)" for f
    using assms(3,4) by (simp add: thread_sleep_def interrupts_set_def restore_def)
  then show ?case using assms Suc by (subst acquire_from.simps) simp
qed (use assms in \<open>subst acquire_from.simps, simp\<close>)

lemma wf_at_cong:
  assumes e: "tcbs s' = tcbs s" "\<And>i. head_of s' i = head_of s i" "stacks s' = stacks s" "thread_id_array s' = thread_id_array s"
    "RUNNING_THREAD s' = RUNNING_THREAD s"
  shows "wf_at s' L x = wf_at s L x"
proof -
  have t: "tcb_of s' = tcb_of s" by (simp add: tcb_of_def e fun_eq_iff)
  have a: "tid_of s' = tid_of s" "state_of s' = state_of s" "sp_of s' = sp_of s" by (simp_all add: attr_defs t fun_eq_iff)
  show ?thesis by (simp add: wf_at_def lists_ok_def single_def ids_ok_def stacks_ok_def e t a)
qed

lemma lock_release_wakes:
  assumes W: "threads_wf s L" and l: "l \<noteq> 0" "cell (locks s) l = Some lk" and q: "l_queue lk \<noteq> 0" "cell (queues s) (l_queue lk) = Some w"
  shows "\<exists>s'. lock_release l s = Inr s' \<and> lock_at s' l = Some 0 \<and> RUNNING_THREAD s' = RUNNING_THREAD s \<and>
    threads_wf s' (L(Waiting (l_queue lk) := [], Ready := L Ready @ L (Waiting (l_queue lk))))"
proof -
  let ?q = "l_queue lk"
  define s0 where "s0 = s\<lparr>interrupts := 0, locks := locks s\<lparr>cell := (cell (locks s))(l \<mapsto> lk\<lparr>lock_state := 0\<rparr>)\<rparr>\<rparr>"
  have st: "set_lock (s\<lparr>interrupts := 0\<rparr>) l 0 = Inr s0" using l by (simp add: set_lock_eq s0_def)
  have "head_of s0 i = head_of s i" for i by (simp add: s0_def head_of_def split: list_id.splits)
  then have "threads_wf s0 L" using wf_at_cong [of s0 s L "RUNNING_THREAD s"] W by (simp add: s0_def)
  then have s0: "threads_wf s0 L" "cell (queues s0) ?q = Some w" "interrupts s0 = 0" "RUNNING_THREAD s0 = RUNNING_THREAD s"
      "cell (locks s0) l = Some (lk\<lparr>lock_state := 0\<rparr>)"
    using q by (simp_all add: s0_def)
  have "\<exists>n s1. thread_wakeup ?q 1 s0 = Inr (n, s1) \<and> threads_wf s1 (L(Waiting ?q := [], Ready := L Ready @ L (Waiting ?q)))"
  proof (cases "L (Waiting ?q)")
    case Nil
    then have "wait_head w = 0" using head_empty [OF wf_atD(1) [OF s0(1)], of "Waiting ?q"] s0(2) by (simp add: head_of_def)
    moreover have "s0\<lparr>interrupts := 0\<rparr> = s0" using s0(3) by simp
    moreover have "L(Waiting ?q := [], Ready := L Ready @ L (Waiting ?q)) = L" using Nil by (simp add: fun_eq_iff)
    ultimately show ?thesis using q(1) s0(1-3) by (simp add: thread_wakeup_def interrupts_set_def)
  next
    case (Cons a as)
    then show ?thesis using wakeup_every [OF s0(1,2) q(1) Cons] s0(3) by auto
  qed
  then obtain n s1 where s1: "thread_wakeup ?q 1 s0 = Inr (n, s1)" "threads_wf s1 (L(Waiting ?q := [], Ready := L Ready @ L (Waiting ?q)))" by blast
  have c: "calm s0 s1" using calm_wakeup s1(1) .
  have "lock_release l s = Inr (s1\<lparr>interrupts := (if interrupts s \<noteq> 0 then 1 else 0)\<rparr>)"
    using l st s0 s1(1) by (simp add: lock_release_def c_assert_def interrupts_set_def)
  then show ?thesis using s1(2) c s0(4,5) by (simp add: lock_at_def calm_def)
qed

end
