(* ===== verification/Thread_Use.thy ===== *)
theory Thread_Use
  imports Thread_Locks
begin

text \<open>
  The properties of the threads of threads/thread.c, each applied to a state with a running thread, two ready ones, one in a wait queue, and a lock.
\<close>

section \<open>A state with four threads\<close>

definition thread_at :: "nat \<Rightarrow> int \<Rightarrow> saved \<Rightarrow> int \<Rightarrow> nat \<Rightarrow> tcb" where
  "thread_at nx i c st sp = \<lparr>t_context = c, t_tid = i, t_state = st, t_next = nx, t_sp = sp, t_flag = 0\<rparr>"

definition demo :: threads where
  "demo = \<lparr>READY_HEAD = 2, RUNNING_THREAD = 5, TO_DELETE_THREAD = 0, thread_id_array = replicate 4 1 @ replicate 1020 0,
     tcbs = \<lparr>cell = [5 \<mapsto> thread_at 0 0 (After 1 2 1 []) RECOVER_STATE 0, 2 \<mapsto> thread_at 3 1 (Start 7 8) NEW_STATE 2,
       3 \<mapsto> thread_at 0 2 (Start 7 9) NEW_STATE 3, 4 \<mapsto> thread_at 0 3 (Start 7 9) NEW_STATE 4], next_cell = 6\<rparr>,
     stacks = \<lparr>cell = [2 \<mapsto> (), 3 \<mapsto> (), 4 \<mapsto> ()], next_cell = 5\<rparr>,
     queues = \<lparr>cell = [6 \<mapsto> \<lparr>wait_head = 4, wq_size = 1\<rparr>], next_cell = 7\<rparr>,
     locks = \<lparr>cell = [7 \<mapsto> \<lparr>l_queue = 6, lock_state = 0\<rparr>], next_cell = 8\<rparr>, cvs = no_cells, interrupts = 1\<rparr>"

definition demo_lists :: "list_id \<Rightarrow> nat list" where
  "demo_lists = (\<lambda>_. [])(Ready := [2, 3], Waiting 6 := [4])"

lemma demo_sel [simp]:
  "RUNNING_THREAD demo = 5" "interrupts demo = 1" "demo_lists Ready = [2, 3]" "demo_lists Deleted = []" "demo_lists (Waiting 6) = [4]"
  "queues demo = \<lparr>cell = [6 \<mapsto> \<lparr>wait_head = 4, wq_size = 1\<rparr>], next_cell = 7\<rparr>" "next_cell (tcbs demo) = 6" "thread_id_array demo = replicate 4 1 @ replicate 1020 0"
  by (simp_all add: demo_def demo_lists_def)

lemma listed_demo: "listed demo_lists = {2, 3, 4}"
  by (simp add: demo_lists_def) (auto simp: listed_def)

lemma demo_attrs [simp]:
  "tid_of demo 5 = 0" "tid_of demo 2 = 1" "tid_of demo 3 = 2" "tid_of demo 4 = 3" "state_of demo 5 = RECOVER_STATE" "state_of demo 2 = NEW_STATE"
  "state_of demo 3 = NEW_STATE" "state_of demo 4 = NEW_STATE" "flag_of demo 5 = 0" "flag_of demo 2 = 0" "flag_of demo 3 = 0"
  "sp_of demo 5 = 0" "sp_of demo 2 = 2" "sp_of demo 3 = 3" "sp_of demo 4 = 4" "ctx_of demo 5 = After 1 2 1 []" "ctx_of demo 2 = Start 7 8" "ctx_of demo 3 = Start 7 9"
  by (simp_all add: attr_defs ctx_of_def tcb_of_def demo_def thread_at_def)

lemma demo_live: "tcb_of demo a \<noteq> None \<longleftrightarrow> a \<in> {2, 3, 4, 5}"
  by (auto simp: tcb_of_def demo_def)

lemma demo_wf: "threads_wf demo demo_lists"
proof -
  have h: "head_of demo i = (case i of Ready \<Rightarrow> 2 | Deleted \<Rightarrow> 0 | Waiting q \<Rightarrow> if q = 6 then 4 else 0)" for i
    by (simp add: head_of_def demo_def split: list_id.split)
  have "tchain demo (head_of demo i) (demo_lists i)" for i
    unfolding h by (cases i) (simp_all add: demo_lists_def demo_def thread_at_def)
  moreover have "cells_wf (tcbs demo)" by (simp add: demo_def cells_wf_def)
  moreover have "set (demo_lists i) \<inter> set (demo_lists j) = {}" if "i \<noteq> j" for i j using that by (cases i; cases j; simp add: demo_lists_def)
  ultimately have l: "lists_ok demo demo_lists" by (simp add: lists_ok_def)
  have s: "single demo 5 demo_lists" by (simp add: single_def demo_def thread_at_def demo_lists_def)
  have b: "0 \<le> tid_of demo a \<and> tid_of demo a < 4" if "a \<in> {2, 3, 4, 5}" for a using that by auto
  have arr: "(replicate 4 1 @ replicate 1020 0) ! nat k \<noteq> (0::int)" if "0 \<le> k \<and> k < 4" for k :: int
    using that by (simp add: nth_append nat_less_iff)
  have "inj_on (tid_of demo) {2, 3, 4, 5}" by (simp add: inj_on_def)
  moreover have "0 \<le> tid_of demo a \<and> tid_of demo a < int THREAD_MAX_THREADS \<and> (replicate 4 1 @ replicate 1020 0) ! nat (tid_of demo a) \<noteq> (0::int)"
    if "a \<in> {2, 3, 4, 5}" for a
    using b [OF that] arr [OF b [OF that]] by linarith
  ultimately have i: "ids_ok demo {2, 3, 4, 5}" unfolding ids_ok_def demo_sel by simp
  have "stacks demo = \<lparr>cell = [2 \<mapsto> (), 3 \<mapsto> (), 4 \<mapsto> ()], next_cell = 5\<rparr>" by (simp add: demo_def)
  then have st: "stacks_ok demo" unfolding stacks_ok_def demo_live by (simp add: cells_wf_def)
  show ?thesis unfolding wf_at_def using l s i st by (simp add: listed_demo insert_commute)
qed

lemma demo_in_turn: "in_turn demo demo_lists"
  using demo_wf demo_live [of 2] by (simp add: in_turn_def resumable_def)

section \<open>Creating\<close>

text \<open>C21. In a well-formed state with a free identifier, thread_create returns the lowest one, which is a valid Tid below THREAD_MAX_THREADS
  that no other thread has, marks it used, and puts the new thread, ready to start its function, behind the ready threads.\<close>

theorem thread_create_spec:
  assumes W: "threads_wf s L" and en: "interrupts s = 0 \<or> interrupts s = 1" and free: "0 \<in> set (thread_id_array s)"
  defines "n \<equiv> next_cell (tcbs s)"
  shows "\<exists>k s'. thread_create True True fn arg s = Inr (int k, s') \<and> k < THREAD_MAX_THREADS \<and>
    thread_id_array s ! k = 0 \<and> (\<forall>j<k. thread_id_array s ! j \<noteq> 0) \<and> thread_id_array s' = (thread_id_array s)[k := 1] \<and>
    threads_wf s' (L(Ready := L Ready @ [n])) \<and> tid_of s' n = int k \<and> ctx_of s' n = Start fn arg"
proof (cases s rule: assign_thread_id_spec)
  case (free k)
  obtain s' where s': "thread_create True True fn arg s = Inr (int k, s')" "threads_wf s' (L(Ready := L Ready @ [n]))" "relinked (created s k fn arg) s'"
    using thread_create_ready [OF W free(1-3) en, of fn arg] unfolding n_def by blast
  have "tcb_of s' = tcb_of (created s k fn arg)" "thread_id_array s' = (thread_id_array s)[k := 1]" using s'(3) by (simp_all add: relinked_def)
  then have "tid_of s' n = int k" "ctx_of s' n = Start fn arg" "thread_id_array s' = (thread_id_array s)[k := 1]"
    by (simp_all add: attr_defs ctx_of_def tcb_of_def n_def)
  moreover have "k < THREAD_MAX_THREADS" using free(2) wf_atD(3) [OF W] by (simp add: ids_ok_def)
  ultimately show ?thesis using s'(1,2) free(3,4) by blast
qed (use free in simp)

theorem thread_create_spec_witness:
  "\<exists>k s'. thread_create True True 9 9 demo = Inr (int k, s') \<and> tid_of s' 6 = int k \<and> threads_wf s' (demo_lists(Ready := [2, 3, 6]))"
  using thread_create_spec [OF demo_wf, of 9 9] by (simp del: replicate.simps) blast

section \<open>Yielding and exiting\<close>

text \<open>C9. thread_yield(THREAD_ANY) runs the first ready thread and thread_yield(tid) the ready thread with that identifier: it leaves the ready list,
  the caller goes to its end with its place saved, the threads to be deleted are freed, and the invariant holds for the new running thread.\<close>

theorem thread_yield_spec:
  assumes "threads_wf s L" "flag_of s (RUNNING_THREAD s) = 0" "L Ready = A @ a # B"
    and "want = tid_of s a \<or> (want = THREAD_ANY \<and> A = [])"
  shows "\<exists>s'. thread_yield want fr s = Inr (Switches, s') \<and> RUNNING_THREAD s' = a \<and>
    threads_wf s' (L(Ready := A @ B @ [RUNNING_THREAD s], Deleted := [])) \<and> queues s' = queues s \<and> locks s' = locks s \<and>
    thread_id_array s' = thread_id_array s \<and> tcb_of s' = switched s (set (L Deleted)) a (After (tid_of s a) a (interrupts s) fr)"
  using thread_yield_to_ok [OF assms(1-3), of fr] thread_yield_any_ok [OF assms(1,2), of a B fr] assms(3,4) by auto

theorem thread_yield_spec_witness:
  "\<exists>s'. thread_yield 2 [] demo = Inr (Switches, s') \<and> RUNNING_THREAD s' = 3 \<and> threads_wf s' (demo_lists(Ready := [2, 5], Deleted := []))"
  using thread_yield_spec [OF demo_wf, of "[2]" 3 "[]" 2 "[]"] by auto

text \<open>C22. thread_exit(THREAD_SELF) with a ready thread runs the first one. The caller's identifier, which was in use, is the one that is given back, and no
  other; no thread that is left has it, and the next thread_create gives it or a lower one. The caller is
  on the list of threads to be deleted, with its stack still there, and the invariant holds.\<close>

theorem thread_exit_self_spec:
  assumes W: "threads_wf s L" and R: "L Ready = a # R"
  shows "\<exists>s' k. thread_exit THREAD_SELF s = Inr (Switches, s') \<and> RUNNING_THREAD s' = a \<and>
    threads_wf s' (L(Ready := R, Deleted := L Deleted @ [RUNNING_THREAD s])) \<and> tcb_of s' = exited s a \<and>
    0 \<le> tid_of s (RUNNING_THREAD s) \<and> thread_id_array s ! nat (tid_of s (RUNNING_THREAD s)) \<noteq> 0 \<and>
    thread_id_array s' = (thread_id_array s)[nat (tid_of s (RUNNING_THREAD s)) := 0] \<and>
    thread_id_array s' ! nat (tid_of s (RUNNING_THREAD s)) = 0 \<and>
    (\<forall>b\<in>listed L. tid_of s' b \<noteq> tid_of s (RUNNING_THREAD s)) \<and>
    assign_thread_id s' = int k \<and> int k \<le> tid_of s (RUNNING_THREAD s)"
proof -
  obtain s' where s': "thread_exit THREAD_SELF s = Inr (Switches, s')" "RUNNING_THREAD s' = a"
      "threads_wf s' (L(Ready := R, Deleted := L Deleted @ [RUNNING_THREAD s]))" "tcb_of s' = exited s a"
      "thread_id_array s' = (thread_id_array s)[nat (tid_of s (RUNNING_THREAD s)) := 0]"
    using thread_exit_self_ok [OF W R] by blast
  let ?r = "RUNNING_THREAD s" and ?t = "tid_of s (RUNNING_THREAD s)"
  have I: "ids_ok s (insert ?r (listed L))" by (rule wf_atD(3) [OF W])
  then have t: "0 \<le> ?t" "nat ?t < length (thread_id_array s)" "thread_id_array s ! nat ?t \<noteq> 0" by (simp_all add: ids_ok_def nat_less_iff)
  have z: "thread_id_array s' ! nat ?t = 0" using t by (simp add: s'(5))
  have other: "tid_of s' b \<noteq> ?t" if b: "b \<in> listed L" for b
  proof -
    have "tid_of s' b = tid_of s b" using listed_cell [OF wf_atD(1) [OF W] b] by (auto simp: s'(4) exited_def attr_defs tcb_of_def)
    moreover have "b \<noteq> ?r" using b wf_atD(2) [OF W] by (auto simp: listed_def single_def)
    moreover have "inj_on (tid_of s) (insert ?r (listed L))" using I by (simp add: ids_ok_def)
    ultimately show ?thesis using inj_onD [of "tid_of s" "insert ?r (listed L)" b ?r] b by auto
  qed
  show ?thesis
  proof (cases s' rule: assign_thread_id_spec)
    case (free k)
    then have "\<not> nat ?t < k" using z by blast
    then have "int k \<le> ?t" using t(1) by linarith
    then show ?thesis using s' free(1) t(1,3) z other by blast
  next
    case full
    have "nat ?t < length (thread_id_array s')" using t(2) by (simp add: s'(5))
    then show ?thesis using full(2) z nth_mem by metis
  qed
qed

theorem thread_exit_self_spec_witness:
  "\<exists>s' k. thread_exit THREAD_SELF demo = Inr (Switches, s') \<and> RUNNING_THREAD s' = 2 \<and> thread_id_array s' ! 0 = 0 \<and>
    assign_thread_id s' = int k \<and> int k \<le> 0"
  using thread_exit_self_spec [OF demo_wf, of 2 "[3]"] by (auto simp del: replicate.simps)

text \<open>C11. Threads that only yield run in turn: the ready thread with n ready threads before it runs after n + 1 turns, and after as many turns as there
  are threads the running thread runs again, with the same ready list.\<close>

theorem threads_run_in_turn:
  assumes I: "in_turn s L" and R: "L Ready = A @ a # B"
  shows "(\<exists>s'. turns (length A + 1) s = Inr s' \<and> RUNNING_THREAD s' = a \<and> in_turn s' (L(Ready := B @ [RUNNING_THREAD s] @ A))) \<and>
    (\<exists>s'. turns (length (L Ready) + 1) s = Inr s' \<and> RUNNING_THREAD s' = RUNNING_THREAD s \<and> in_turn s' L)"
proof
  have n: "L Ready \<noteq> []" using R by simp
  have "rotate (length A + 1) (RUNNING_THREAD s # A @ a # B) = a # B @ [RUNNING_THREAD s] @ A"
    using rotate_append [of "RUNNING_THREAD s # A" "a # B"] by simp
  then show "\<exists>s'. turns (length A + 1) s = Inr s' \<and> RUNNING_THREAD s' = a \<and> in_turn s' (L(Ready := B @ [RUNNING_THREAD s] @ A))"
    using turns_rotate [OF I n, of "length A + 1"] R by auto
  have "rotate (length (L Ready) + 1) (RUNNING_THREAD s # L Ready) = RUNNING_THREAD s # L Ready" by (rule rotate_id) simp
  moreover have "L(Ready := L Ready) = L" by simp
  ultimately show "\<exists>s'. turns (length (L Ready) + 1) s = Inr s' \<and> RUNNING_THREAD s' = RUNNING_THREAD s \<and> in_turn s' L"
    using turns_rotate [OF I n, of "length (L Ready) + 1"] by fastforce
qed

theorem threads_run_in_turn_witness:
  "\<exists>s'. turns 2 demo = Inr s' \<and> RUNNING_THREAD s' = 3 \<and> in_turn s' (demo_lists(Ready := [5, 2]))"
  using threads_run_in_turn [OF demo_in_turn, of "[2]" 3 "[]"] by (simp add: numeral_2_eq_2)

section \<open>Wait queues\<close>

text \<open>C23. thread_wakeup(queue, 0) makes the thread that has waited longest ready, behind the ready threads, and returns 1; thread_wakeup(queue, 1) makes
  all of them ready in the order they went to sleep. The count of the queue stays at least the number of its threads.\<close>

theorem thread_wakeup_fifo:
  assumes W: "threads_wf s L" and sz: "sizes_ok s L" and q: "cell (queues s) q = Some w" "q \<noteq> 0"
    and en: "interrupts s = 0 \<or> interrupts s = 1" and Q: "L (Waiting q) = a # as"
  shows "(\<exists>s'. thread_wakeup q 0 s = Inr (1, s') \<and> threads_wf s' (L(Waiting q := as, Ready := L Ready @ [a])) \<and>
      sizes_ok s' (L(Waiting q := as, Ready := L Ready @ [a]))) \<and>
    (\<exists>s'. thread_wakeup q 1 s = Inr (wq_size w, s') \<and> int (length (a # as)) \<le> wq_size w \<and>
      threads_wf s' (L(Waiting q := [], Ready := L Ready @ a # as)) \<and> sizes_ok s' (L(Waiting q := [], Ready := L Ready @ a # as)))"
proof
  have len: "int (length (a # as)) \<le> wq_size w" using sz q Q unfolding sizes_ok_def by metis
  then have "wq_size w = 1 \<Longrightarrow> as = []" by simp
  then obtain s' h where s': "thread_wakeup q 0 s = Inr (1, s')" "threads_wf s' (L(Waiting q := as, Ready := L Ready @ [a]))"
      "cell (queues s') = (cell (queues s))(q \<mapsto> \<lparr>wait_head = h, wq_size = wq_size w\<rparr>)" "next_cell (queues s') = next_cell (queues s)"
    using wakeup_first [OF W q Q _ en] by blast
  have "sizes_ok s' (L(Waiting q := as, Ready := L Ready @ [a]))"
    using sz len s'(3,4) q by (auto simp: sizes_ok_def cells_wf_def)
  then show "\<exists>s'. thread_wakeup q 0 s = Inr (1, s') \<and> threads_wf s' (L(Waiting q := as, Ready := L Ready @ [a])) \<and>
      sizes_ok s' (L(Waiting q := as, Ready := L Ready @ [a]))"
    using s' by blast
  obtain s2 where s2: "thread_wakeup q 1 s = Inr (wq_size w, s2)" "threads_wf s2 (L(Waiting q := [], Ready := L Ready @ a # as))"
      "cell (queues s2) = (cell (queues s))(q \<mapsto> \<lparr>wait_head = 0, wq_size = 0\<rparr>)" "next_cell (queues s2) = next_cell (queues s)"
    using wakeup_every [OF W q Q en] by blast
  have "sizes_ok s2 (L(Waiting q := [], Ready := L Ready @ a # as))"
    using sz s2(3,4) q by (auto simp: sizes_ok_def cells_wf_def)
  then show "\<exists>s'. thread_wakeup q 1 s = Inr (wq_size w, s') \<and> int (length (a # as)) \<le> wq_size w \<and>
      threads_wf s' (L(Waiting q := [], Ready := L Ready @ a # as)) \<and> sizes_ok s' (L(Waiting q := [], Ready := L Ready @ a # as))"
    using s2(1,2) len by blast
qed

lemma demo_sizes: "sizes_ok demo demo_lists"
  by (simp add: sizes_ok_def demo_lists_def cells_wf_def)

theorem thread_wakeup_fifo_witness:
  "\<exists>s'. thread_wakeup 6 0 demo = Inr (1, s') \<and> threads_wf s' (demo_lists(Waiting 6 := [], Ready := [2, 3, 4]))"
  using thread_wakeup_fifo [OF demo_wf demo_sizes, of 6 "\<lparr>wait_head = 4, wq_size = 1\<rparr>" 4 "[]"] by auto

section \<open>Locks\<close>

text \<open>C10. Mutual exclusion: from a lock that lock_create has made, whatever threads acquire it (at once, or after sleeping in lock_acquire or cv_wait), release it
  and wait with it, provided that only a holder releases it and waits with it, at most one thread holds it, and while one does the lock is taken.\<close>

theorem lock_mutual_exclusion:
  assumes "lock_create s = (l, s0)" "(lock_step l)\<^sup>*\<^sup>* (s0, {}) (s', H)"
  shows "card H \<le> 1 \<and> (lock_at s' l = Some 1 \<longleftrightarrow> H \<noteq> {})"
proof -
  have "one_holder l (s0, {})" using lock_create_free [OF assms(1)] by (simp add: one_holder_def)
  then have o: "one_holder l (s', H)" using lock_steps_one_holder [OF assms(2)] by blast
  have "card H \<le> 1"
  proof (cases "H = {}")
    case False
    then obtain x where "x \<in> H" by blast
    then have "H = {x}" using o by (auto simp: one_holder_def)
    then show ?thesis by simp
  qed simp
  then show ?thesis using o by (auto simp: one_holder_def)
qed

theorem lock_mutual_exclusion_witness:
  "\<exists>s0 s1. lock_create demo = (8, s0) \<and> lock_acquire 0 8 [] s0 = Inr (Returns 0, s1) \<and> card {5} \<le> (1::nat) \<and> lock_at s1 8 = Some 1"
proof -
  obtain s0 where s0: "lock_create demo = (8, s0)" "cell (locks s0) 8 = Some \<lparr>l_queue = 7, lock_state = 0\<rparr>" "RUNNING_THREAD s0 = 5"
    by (simp add: lock_create_def wait_queue_create_def new_cell_def demo_def)
  obtain s1 where s1: "lock_acquire 0 8 [] s0 = Inr (Returns 0, s1)"
    using s0(2) by (simp add: lock_acquire_def c_assert_def interrupts_set_def acquire_from.simps set_lock_eq restore_def)
  have "lock_step 8 (s0, {}) (s1, {5})" using lock_step.acquire [OF s1, of 8 "{}"] s0(3) by simp
  then have "(lock_step 8)\<^sup>*\<^sup>* (s0, {}) (s1, {5})" by blast
  from lock_mutual_exclusion [OF s0(1) this] show ?thesis using s0(1) s1 by simp
qed

section \<open>Resuming a thread, and a freed thread that is read\<close>

lemma resume_yielded:
  assumes W: "threads_wf s L" and r: "flag_of s (RUNNING_THREAD s) = 0" "state_of s (RUNNING_THREAD s) = RECOVER_STATE"
    and c: "ctx_of s (RUNNING_THREAD s) = After i temp en []" "0 \<le> i" "i < int THREAD_MAX_THREADS"
  obtains s1 where "wf_at s1 (L(Deleted := [])) (RUNNING_THREAD s)" "RUNNING_THREAD s1 = RUNNING_THREAD s"
    "tcb_of s1 = (\<lambda>a. if a \<in> set (L Deleted) then None else tcb_of s a)"
    "resume fuel s = (if thread_id_array s ! nat i \<noteq> 0 \<and> tcb_of s1 temp = None then Inl Bad_access else Inr (restore en i s1))"
proof -
  let ?r = "RUNNING_THREAD s"
  note L = wf_atD(1) [OF W]
  obtain t where t: "cell (tcbs s) ?r = Some t" using wf_atD(2) [OF W] by (auto simp: single_def)
  have ct: "t_context t = After i temp en []" "t_flag t = 0" "t_state t = RECOVER_STATE"
    using ctx_cell [OF t] attr_cell [OF t] r c(1) by simp_all
  obtain s1 where s1: "(if TO_DELETE_THREAD s \<noteq> 0 then delete_threads_list s else Inr s) = Inr s1" "wf_at s1 (L(Deleted := [])) ?r" "kept s s1"
      "RUNNING_THREAD s1 = ?r" "tcb_of s1 = (\<lambda>a. if a \<in> set (L Deleted) then None else tcb_of s a)"
  proof (cases "TO_DELETE_THREAD s = 0")
    case True
    then have D: "L Deleted = []" using head_empty [OF L, of Deleted] by (simp add: head_of_def)
    then have "L(Deleted := []) = L" by (simp add: fun_upd_idem)
    then show ?thesis using that [of s] True W D by (simp add: kept_def)
  next
    case False
    then show ?thesis using that delete_list_ok [OF W] by auto
  qed
  have "length (thread_id_array s1) = THREAD_MAX_THREADS" using wf_atD(3) [OF s1(2)] by (simp add: ids_ok_def)
  then have id: "id_at s1 i = Inr (thread_id_array s ! nat i)" using c(2,3) s1(3) by (simp add: id_at_valid kept_def)
  have "?r \<notin> set (L Deleted)" using wf_atD(2) [OF W] by (auto simp: single_def)
  then have same: "tcb_of s1 ?r = tcb_of s ?r" using s1(5) by simp
  obtain t1 where t1: "cell (tcbs s1) ?r = Some t1" using wf_atD(2) [OF s1(2)] by (auto simp: single_def)
  have st: "t_state t1 = RECOVER_STATE" using same tcb_of_cell [OF t] tcb_of_cell [OF t1] ct(3) by (metis tcb.ext_inject tcb.surjective tcb.update_convs(4) option.inject)
  have wf: "cells_wf (tcbs s1)" using lists_okD(1) [OF wf_atD(1) [OF s1(2)]] .
  have "after_getcontext i temp en s = (if thread_id_array s ! nat i \<noteq> 0 \<and> tcb_of s1 temp = None then Inl Bad_access else Inr (restore en i s1))"
  proof (cases "tcb_of s1 temp")
    case None
    then have "tcb_at s1 temp = Inl Bad_access" by (simp add: tcb_at_def tcb_of_def cell_at_def)
    then show ?thesis using t ct(2) s1(1) id None by (simp add: after_getcontext_def tcb_at_def)
  next
    case (Some x)
    then obtain u where "cell (tcbs s1) temp = Some u" by (auto simp: tcb_of_def)
    then show ?thesis using t ct(2) s1(1,4) id Some t1 st by (simp add: after_getcontext_def tcb_at_def)
  qed
  then have "resume fuel s = (if thread_id_array s ! nat i \<noteq> 0 \<and> tcb_of s1 temp = None then Inl Bad_access else Inr (restore en i s1))"
    using t ct(1) by (simp add: resume_def tcb_at_def restore_def)
  then show ?thesis by (rule that [OF s1(2,4,5)])
qed

text \<open>C24. A thread that is resumed in thread_yield or thread_sleep, which gave way to the thread with the control block temp and the identifier i, first frees the
  threads that are to be deleted. Then, if the identifier i is in use and temp has been freed, by this or earlier, it reads the
  freed control block: the test of thread_id_array does not stop it when the identifier has been given to a new thread. In every other case it returns
  i, with the interrupts as they were when it gave way, and the invariant holds. The thread has not been killed, has
  been switched to, and i is a valid identifier.\<close>

theorem resume_after_yield:
  assumes "threads_wf s L" "flag_of s (RUNNING_THREAD s) = 0" "state_of s (RUNNING_THREAD s) = RECOVER_STATE"
    "ctx_of s (RUNNING_THREAD s) = After i temp en []" "0 \<le> i" "i < int THREAD_MAX_THREADS"
  shows "if thread_id_array s ! nat i \<noteq> 0 \<and> (tcb_of s temp = None \<or> temp \<in> set (L Deleted))
    then resume fuel s = Inl Bad_access
    else \<exists>s'. resume fuel s = Inr (Returns i, s') \<and> RUNNING_THREAD s' = RUNNING_THREAD s \<and> threads_wf s' (L(Deleted := [])) \<and>
      interrupts s' = (if en \<noteq> 0 then 1 else 0) \<and> tcb_of s' = (\<lambda>a. if a \<in> set (L Deleted) then None else tcb_of s a)"
proof (rule resume_yielded [OF assms, of fuel])
  fix s1 assume s1: "wf_at s1 (L(Deleted := [])) (RUNNING_THREAD s)" "RUNNING_THREAD s1 = RUNNING_THREAD s"
    "tcb_of s1 = (\<lambda>a. if a \<in> set (L Deleted) then None else tcb_of s a)"
    "resume fuel s = (if thread_id_array s ! nat i \<noteq> 0 \<and> tcb_of s1 temp = None then Inl Bad_access else Inr (restore en i s1))"
  have "tcb_of s1 temp = None \<longleftrightarrow> tcb_of s temp = None \<or> temp \<in> set (L Deleted)" using s1(3) by simp
  then show ?thesis using s1 by (auto simp: restore_def interrupts_set_def)
qed

text \<open>Such a state: the running thread of \<open>demo\<close> yields to thread 1, which exits; thread 2 runs, creates a thread, which gets
  the identifier 1, and yields. The call that returned from its yield in between frees the first thread 1.\<close>

lemma demo_tcbs:
  "tcb_of demo 5 = Some (thread_at 0 0 (After 1 2 1 []) RECOVER_STATE 0)" "tcb_of demo 2 = Some (thread_at 0 1 (Start 7 8) NEW_STATE 2)"
  "tcb_of demo 3 = Some (thread_at 0 2 (Start 7 9) NEW_STATE 3)"
  by (simp_all add: tcb_of_def demo_def thread_at_def)

lemma reused_identifier:
  obtains s L where "threads_wf s L" "RUNNING_THREAD s = 5" "flag_of s 5 = 0" "state_of s 5 = RECOVER_STATE"
    "ctx_of s 5 = After 1 2 1 []" "thread_id_array s ! 1 \<noteq> 0" "tcb_of s 2 = None"
proof -
  define X :: "int list" where "X = replicate 1020 0"
  have "replicate 4 (1 :: int) = [1, 1, 1, 1]" by (simp add: numeral_eq_Suc)
  then have arr: "thread_id_array demo = [1, 1, 1, 1] @ X" by (simp only: demo_sel(8) X_def)
  obtain s1 where s1: "RUNNING_THREAD s1 = 2" "threads_wf s1 (demo_lists(Ready := [3, 5], Deleted := []))"
    "thread_id_array s1 = [1, 1, 1, 1] @ X" "tcb_of s1 = switched demo {} 2 (After 1 2 1 [])"
    using thread_yield_any_ok [OF demo_wf, of 2 "[3]" "[]"] arr by (auto simp del: demo_sel(8))
  have a1: "tid_of s1 2 = 1" using s1(4) by (simp add: attr_defs switched_def demo_tcbs thread_at_def)
  obtain s2 where s2: "RUNNING_THREAD s2 = 3" "threads_wf s2 (demo_lists(Ready := [5], Deleted := [2]))" "interrupts s2 = 0"
    "thread_id_array s2 = [1, 0, 1, 1] @ X" "tcb_of s2 = exited s1 3"
    using thread_exit_self_ok [OF s1(2), of 3 "[5]"] s1(1,3) a1 by auto
  have k: "assign_thread_id s2 = int 1" "1 < length (thread_id_array s2)" "thread_id_array s2 ! 1 = 0" by (simp_all add: assign_thread_id_def s2(4))
  let ?n = "next_cell (tcbs s2)"
  obtain s3 where s3: "threads_wf s3 (demo_lists(Ready := [5, ?n], Deleted := [2]))" "relinked (created s2 1 9 9) s3"
    using thread_create_ready [OF s2(2) k, of 9 9] s2(3) by (auto simp: fun_upd_twist)
  have t2: "tcb_of s2 5 = Some (thread_at 0 0 (After 1 2 1 []) NEW_STATE 0)" "tcb_of s2 3 = Some (thread_at 0 2 (Start 7 9) RECOVER_STATE 3)"
    using s2(5) s1(4) by (simp_all add: exited_def switched_def demo_tcbs thread_at_def)
  have "tcb_of s2 ?n = None" using lists_okD(1) [OF wf_atD(1) [OF s2(2)]] by (simp add: tcb_of_def)
  then have n: "?n \<noteq> 5" "?n \<noteq> 3" using t2 by auto
  have t3: "tcb_of s3 5 = tcb_of s2 5" "tcb_of s3 3 = tcb_of s2 3" "RUNNING_THREAD s3 = 3" "thread_id_array s3 = [1, 1, 1, 1] @ X"
    using s3(2) n s2(1,4) by (simp_all add: relinked_def tcb_of_def)
  have f3: "flag_of s3 (RUNNING_THREAD s3) = 0" "tid_of s3 5 = 0" using t3 t2 by (simp_all add: attr_defs thread_at_def)
  obtain s4 where s4: "RUNNING_THREAD s4 = 5" "threads_wf s4 (demo_lists(Ready := [?n, 3], Deleted := []))"
    "thread_id_array s4 = [1, 1, 1, 1] @ X" "tcb_of s4 = switched s3 {2} 5 (After 0 5 (interrupts s3) [])"
    using thread_yield_any_ok [OF s3(1) f3(1), of 5 "[?n]" "[]"] t3(3,4) f3(2) by auto
  show thesis
    by (rule that [of s4 "demo_lists(Ready := [?n, 3], Deleted := [])"])
      (use s4 t3 t2 in \<open>simp_all add: attr_defs ctx_of_def switched_def thread_at_def\<close>)
qed

theorem resume_after_yield_witness:
  "\<exists>s L. threads_wf s L \<and> RUNNING_THREAD s = 5 \<and> ctx_of s 5 = After 1 2 1 [] \<and> resume 0 s = Inl Bad_access"
proof (rule reused_identifier)
  fix s L assume s: "threads_wf s L" "RUNNING_THREAD s = 5" "flag_of s 5 = 0" "state_of s 5 = RECOVER_STATE"
    "ctx_of s 5 = After 1 2 1 []" "thread_id_array s ! 1 \<noteq> 0" "tcb_of s 2 = None"
  have "resume 0 s = Inl Bad_access" using resume_after_yield [OF s(1), of 1 2 1 0] s by simp
  then show ?thesis using s by blast
qed

section \<open>The first state\<close>

lemma thread_init_wf:
  assumes "cells_wf (tcbs s)" "cells_wf (stacks s)" "\<forall>a. cell (tcbs s) a = None" "\<forall>i. head_of s i = 0"
  shows "threads_wf (thread_init s) (\<lambda>_. [])"
proof -
  let ?n = "next_cell (tcbs s)" and ?s = "thread_init s"
  have h: "head_of ?s i = 0" for i using assms(4) by (simp add: thread_init_def new_cell_def head_of_def split: list_id.splits)
  have c: "cell (tcbs ?s) = [?n \<mapsto> \<lparr>t_context = Captured, t_tid = 0, t_state = NEW_STATE, t_next = 0, t_sp = 0, t_flag = 0\<rparr>]"
    using assms(3) by (auto simp: thread_init_def new_cell_def fun_eq_iff)
  have r: "RUNNING_THREAD ?s = ?n" "stacks ?s = stacks s" "thread_id_array ?s = (replicate 1024 0)[0 := 1]" "cells_wf (tcbs ?s)"
    using assms(1) by (auto simp: thread_init_def new_cell_def)
  have t: "tcb_of ?s a = (if a = ?n then Some \<lparr>t_context = Captured, t_tid = 0, t_state = NEW_STATE, t_next = 0, t_sp = 0, t_flag = 0\<rparr> else None)" for a
    by (simp add: tcb_of_def c)
  show ?thesis
    using assms(2) by (simp add: wf_at_def lists_ok_def single_def ids_ok_def stacks_ok_def listed_def h c r t attr_defs)
qed

definition start_state :: threads where
  "start_state = \<lparr>READY_HEAD = 0, RUNNING_THREAD = 0, TO_DELETE_THREAD = 0, thread_id_array = replicate THREAD_MAX_THREADS 0,
     tcbs = no_cells, stacks = no_cells, queues = no_cells, locks = no_cells, cvs = no_cells, interrupts = 1\<rparr>"

fun calls :: "(threads \<Rightarrow> outcome) list \<Rightarrow> threads \<Rightarrow> threads res" where
  "calls [] s = Inr s"
| "calls (f # fs) s = rbind (f s) (\<lambda>(_, s). calls fs s)"

definition create :: "nat \<Rightarrow> threads \<Rightarrow> outcome" where
  "create fn s = rbind (thread_create True True fn 0 s) (\<lambda>(i, s). Inr (Returns i, s))"

text \<open>Thread 0 creates 1 and kills it before it has run; 1 starts and yields.\<close>

abbreviation kill_before_start :: "(threads \<Rightarrow> outcome) list" where
  "kill_before_start \<equiv> [create 7, thread_exit 1, thread_yield THREAD_ANY [], resume 0, thread_yield THREAD_ANY []]"

lemma kill_before_start_run:
  "case calls kill_before_start (thread_init start_state) of Inr s \<Rightarrow> (case resume 0 s of Inl Bad_access \<Rightarrow> True | _ \<Rightarrow> False) | Inl _ \<Rightarrow> False"
  by code_simp

end
