(* ===== verification/Sorted_Points.thy ===== *)
theory Sorted_Points
  imports Slist
begin

text \<open>
  The sorted points of warmup/sorted_points.c: a linked list of nodes behind a head, each with a pointer to its point, over the heap of theory Slist (one
  map of addresses for the nodes, one for the points; malloc succeeds). The code only compares the doubles and computes one from two
  of them, \<open>sqrt(x*x+y*y)\<close>: they are a type \<open>'d\<close> with a linear order (no NaN, and -0.0 the same as 0.0), and the computation, with its rounding, is a parameter
  \<open>dist\<close>. \<open>junk\<close> is what malloc leaves in the memory.
\<close>

record 'd point =
  px :: 'd
  py :: 'd

record 'd sorted_points =
  sp_next :: nat
  sp_p :: nat
  distance :: 'd

record 'd sp_heap =
  nodes :: "'d sorted_points cells"
  points :: "'d point cells"

section \<open>Operations\<close>

definition sp_init :: "'d \<Rightarrow> 'd sp_heap \<Rightarrow> nat \<times> 'd sp_heap" where
  "sp_init junk h = (case new_cell (nodes h) \<lparr>sp_next = 0, sp_p = 0, distance = junk\<rparr> of (sp, m) \<Rightarrow> (sp, h\<lparr>nodes := m\<rparr>))"

text \<open>\<open>a->next = b\<close>\<close>

definition set_next :: "'d sp_heap \<Rightarrow> nat \<Rightarrow> nat \<Rightarrow> 'd sp_heap res" where
  "set_next h a b = rbind (put_cell (nodes h) a (\<lambda>t. t\<lparr>sp_next := b\<rparr>)) (\<lambda>m. Inr (h\<lparr>nodes := m\<rparr>))"

text \<open>\<open>free(temp->p); temp->p = NULL; free(temp);\<close>\<close>

definition free_node :: "'d sp_heap \<Rightarrow> nat \<Rightarrow> 'd sp_heap res" where
  "free_node h temp =
     rbind (cell_at (nodes h) temp) (\<lambda>t.
     rbind (free_cell (points h) (sp_p t)) (\<lambda>ps.
     rbind (put_cell (nodes h) temp (\<lambda>t. t\<lparr>sp_p := 0\<rparr>)) (\<lambda>m.
     rbind (free_cell m temp) (\<lambda>m. Inr (h\<lparr>nodes := m, points := ps\<rparr>)))))"

text \<open>The point of a node, \<open>*temp->p\<close>.\<close>

definition node_point :: "'d sp_heap \<Rightarrow> nat \<Rightarrow> 'd point res" where
  "node_point h temp = rbind (cell_at (nodes h) temp) (\<lambda>t. cell_at (points h) (sp_p t))"

text \<open>The loop of \<open>sp_destroy\<close>.\<close>

fun destroy_from :: "nat \<Rightarrow> 'd sp_heap \<Rightarrow> nat \<Rightarrow> 'd sp_heap res" where
  "destroy_from fuel h temp =
     (if temp = 0 then Inr h
      else case fuel of 0 \<Rightarrow> Inl Out_of_fuel | Suc fuel \<Rightarrow>
        rbind (cell_at (nodes h) temp) (\<lambda>t.
        rbind (free_node h temp) (\<lambda>h. destroy_from fuel h (sp_next t))))"

definition sp_destroy :: "nat \<Rightarrow> 'd sp_heap \<Rightarrow> nat \<Rightarrow> 'd sp_heap res" where
  "sp_destroy fuel h sp =
     rbind (cell_at (nodes h) sp) (\<lambda>s.
     rbind (if sp_next s = 0 then Inr h else destroy_from fuel h (sp_next s)) (\<lambda>h.
     rbind (free_cell (nodes h) sp) (\<lambda>m. Inr (h\<lparr>nodes := m\<rparr>))))"

text \<open>The loop of \<open>sp_add_point\<close>: where it stops, \<open>prev\<close> and \<open>temp\<close>.\<close>

fun add_from :: "nat \<Rightarrow> 'd :: linorder sp_heap \<Rightarrow> 'd \<Rightarrow> 'd \<Rightarrow> 'd \<Rightarrow> nat \<Rightarrow> nat \<Rightarrow> (nat \<times> nat) res" where
  "add_from fuel h dst x y prev temp =
     (if temp = 0 then Inr (prev, temp)
      else
        rbind (cell_at (nodes h) temp) (\<lambda>t.
        if distance t \<le> dst then
          rbind (if distance t = dst then
                   rbind (node_point h temp) (\<lambda>q. Inr (x < px q \<or> x = px q \<and> y < py q))
                 else Inr False) (\<lambda>stop.
          if stop then Inr (prev, temp)
          else case fuel of 0 \<Rightarrow> Inl Out_of_fuel | Suc fuel \<Rightarrow> add_from fuel h dst x y temp (sp_next t))
        else Inr (prev, temp)))"

text \<open>\<open>sp_add_point\<close> from its test of \<open>sp->next\<close> on.\<close>

definition link_point :: "nat \<Rightarrow> 'd :: linorder sp_heap \<Rightarrow> nat \<Rightarrow> nat \<Rightarrow> 'd \<Rightarrow> 'd \<Rightarrow> 'd \<Rightarrow> (int \<times> 'd sp_heap) res" where
  "link_point fuel h sp new_sp dst x y =
     rbind (cell_at (nodes h) sp) (\<lambda>s.
     if sp_next s = 0 then rbind (set_next h sp new_sp) (\<lambda>h. Inr (1, h))
     else
       rbind (cell_at (nodes h) (sp_next s)) (\<lambda>t.
       rbind (if distance t > dst then Inr True
              else if dst = distance t then rbind (node_point h (sp_next s)) (\<lambda>q. Inr (x < px q))
              else Inr False) (\<lambda>first.
       if first then
         rbind (set_next h new_sp (sp_next s)) (\<lambda>h. rbind (set_next h sp new_sp) (\<lambda>h. Inr (1, h)))
       else
         rbind (add_from fuel h dst x y sp (sp_next s)) (\<lambda>(prev, temp).
         rbind (set_next h new_sp temp) (\<lambda>h. rbind (set_next h prev new_sp) (\<lambda>h. Inr (1, h)))))))"

definition sp_add_point :: "('d :: linorder \<Rightarrow> 'd \<Rightarrow> 'd) \<Rightarrow> 'd \<Rightarrow> nat \<Rightarrow> 'd sp_heap \<Rightarrow> nat \<Rightarrow> 'd \<Rightarrow> 'd \<Rightarrow> (int \<times> 'd sp_heap) res" where
  "sp_add_point dist junk fuel h sp x y =
     (case sp_init junk h of (new_sp, h) \<Rightarrow>
      case new_cell (points h) \<lparr>px = x, py = y\<rparr> of (p, ps) \<Rightarrow>
      rbind (put_cell (nodes h) new_sp (\<lambda>t. t\<lparr>sp_p := p, distance := dist x y\<rparr>)) (\<lambda>m.
      link_point fuel (h\<lparr>nodes := m, points := ps\<rparr>) sp new_sp (dist x y) x y))"

text \<open>The operations that remove a point return the int and what they have stored in \<open>ret\<close>.\<close>

definition sp_remove_first :: "'d sp_heap \<Rightarrow> nat \<Rightarrow> 'd point \<Rightarrow> (int \<times> 'd point \<times> 'd sp_heap) res" where
  "sp_remove_first h sp ret =
     rbind (cell_at (nodes h) sp) (\<lambda>s.
     if sp_next s = 0 then Inr (0, ret, h)
     else
       let temp = sp_next s in
       rbind (node_point h temp) (\<lambda>ret.
       rbind (cell_at (nodes h) temp) (\<lambda>t.
       rbind (set_next h sp (sp_next t)) (\<lambda>h.
       rbind (free_node h temp) (\<lambda>h. Inr (1, ret, h))))))"

text \<open>\<open>while (temp->next != NULL) { prev = temp; temp = temp->next; }\<close>\<close>

fun last_two :: "nat \<Rightarrow> 'd sp_heap \<Rightarrow> nat \<Rightarrow> nat \<Rightarrow> (nat \<times> nat) res" where
  "last_two fuel h prev temp =
     rbind (cell_at (nodes h) temp) (\<lambda>t.
     if sp_next t \<noteq> 0 then (case fuel of 0 \<Rightarrow> Inl Out_of_fuel | Suc fuel \<Rightarrow> last_two fuel h temp (sp_next t)) else Inr (prev, temp))"

definition sp_remove_last :: "nat \<Rightarrow> 'd sp_heap \<Rightarrow> nat \<Rightarrow> 'd point \<Rightarrow> (int \<times> 'd point \<times> 'd sp_heap) res" where
  "sp_remove_last fuel h sp ret =
     rbind (cell_at (nodes h) sp) (\<lambda>s.
     if sp_next s = 0 then Inr (0, ret, h)
     else
       rbind (last_two fuel h sp (sp_next s)) (\<lambda>(prev, temp).
       rbind (node_point h temp) (\<lambda>ret.
       rbind (free_node h temp) (\<lambda>h.
       rbind (if prev \<noteq> 0 then set_next h prev 0 else Inr h) (\<lambda>h. Inr (1, ret, h))))))"

text \<open>The loop of \<open>sp_remove_by_index\<close>; \<open>k\<close> is \<open>index - i\<close>, and \<open>None\<close> its return of 0.\<close>

fun index_from :: "nat \<Rightarrow> 'd sp_heap \<Rightarrow> nat \<Rightarrow> nat \<Rightarrow> (nat \<times> nat) option res" where
  "index_from 0 h prev temp = Inr (Some (prev, temp))"
| "index_from (Suc k) h prev temp =
     rbind (cell_at (nodes h) temp) (\<lambda>t. if sp_next t = 0 then Inr None else index_from k h temp (sp_next t))"

definition sp_remove_by_index :: "'d sp_heap \<Rightarrow> nat \<Rightarrow> int \<Rightarrow> 'd point \<Rightarrow> (int \<times> 'd point \<times> 'd sp_heap) res" where
  "sp_remove_by_index h sp index ret =
     rbind (cell_at (nodes h) sp) (\<lambda>s.
     if sp_next s = 0 then Inr (0, ret, h)
     else if index = 0 then rbind (sp_remove_first h sp ret) (\<lambda>(_, ret, h). Inr (1, ret, h))
     else
       rbind (index_from (nat index) h sp (sp_next s)) (\<lambda>r.
       case r of
         None \<Rightarrow> Inr (0, ret, h)
       | Some (prev, temp) \<Rightarrow>
           rbind (cell_at (nodes h) temp) (\<lambda>t.
           rbind (set_next h prev (sp_next t)) (\<lambda>h.
           rbind (node_point h temp) (\<lambda>ret.
           rbind (set_next h temp 0) (\<lambda>h.
           rbind (free_node h temp) (\<lambda>h. Inr (1, ret, h))))))))"

text \<open>The loop of \<open>sp_delete_duplicates\<close>; \<open>temp\<close> is not NULL.\<close>

fun duplicates_from :: "nat \<Rightarrow> 'd sp_heap \<Rightarrow> nat \<Rightarrow> int \<Rightarrow> (int \<times> 'd sp_heap) res" where
  "duplicates_from fuel h prev record_count =
     rbind (cell_at (nodes h) prev) (\<lambda>t.
     let temp = sp_next t in
     if temp = 0 then Inr (record_count, h)
     else
       rbind (node_point h prev) (\<lambda>p.
       rbind (node_point h temp) (\<lambda>q.
       case fuel of 0 \<Rightarrow> Inl Out_of_fuel | Suc fuel \<Rightarrow>
         if px p = px q \<and> py p = py q then
           rbind (cell_at (nodes h) temp) (\<lambda>t.
           rbind (set_next h prev (sp_next t)) (\<lambda>h.
           rbind (free_node h temp) (\<lambda>h. duplicates_from fuel h prev (record_count + 1))))
         else duplicates_from fuel h temp record_count)))"

definition sp_delete_duplicates :: "nat \<Rightarrow> 'd sp_heap \<Rightarrow> nat \<Rightarrow> (int \<times> 'd sp_heap) res" where
  "sp_delete_duplicates fuel h sp =
     rbind (cell_at (nodes h) sp) (\<lambda>s. if sp_next s = 0 then Inr (0, h) else duplicates_from fuel h (sp_next s) 0)"

declare destroy_from.simps [simp del] add_from.simps [simp del] last_two.simps [simp del] duplicates_from.simps [simp del]

section \<open>warmup/point.c\<close>

definition point_compare :: "('d :: linorder \<Rightarrow> 'd \<Rightarrow> 'd) \<Rightarrow> 'd point \<Rightarrow> 'd point \<Rightarrow> int" where
  "point_compare dist p1 p2 =
     (let distance1 = dist (px p1) (py p1); distance2 = dist (px p2) (py p2) in
      if distance1 > distance2 then 1 else if distance1 < distance2 then - 1 else 0)"

end
