(* ===== verification/Sorted_Points_Spec.thy ===== *)
theory Sorted_Points_Spec
  imports Sorted_Points "HOL-Library.Multiset" "HOL-Library.Product_Lexorder"
begin

text \<open>
  The sorted points of warmup/sorted_points.c as lists of points: what each operation does to the list, that adding keeps it sorted, and that the
  heap never holds anything but the nodes of the list and their points, so that nothing leaks and nothing is used after it has been freed.
\<close>

section \<open>What the heap stands for\<close>

definition owner :: "'d sp_heap \<Rightarrow> nat \<Rightarrow> nat" where
  "owner h a = sp_p (the (cell (nodes h) a))"

definition pt :: "'d sp_heap \<Rightarrow> nat \<Rightarrow> 'd point" where
  "pt h a = the (cell (points h) (owner h a))"

text \<open>The head \<open>sp\<close> and the nodes \<open>as\<close> behind it, with a point each; there is nothing else in the heap.\<close>

definition sp_rep :: "('d \<Rightarrow> 'd \<Rightarrow> 'd) \<Rightarrow> 'd sp_heap \<Rightarrow> nat \<Rightarrow> nat list \<Rightarrow> bool" where
  "sp_rep dist h sp as \<longleftrightarrow> cells_wf (nodes h) \<and> cells_wf (points h) \<and> chain sp_next (cell (nodes h)) sp (sp # as) 0 \<and>
     dom (cell (nodes h)) = set (sp # as) \<and> inj_on (owner h) (set as) \<and> dom (cell (points h)) = owner h ` set as \<and>
     (\<forall>a\<in>set as. distance (the (cell (nodes h) a)) = dist (px (pt h a)) (py (pt h a)))"

definition sp_list :: "('d \<Rightarrow> 'd \<Rightarrow> 'd) \<Rightarrow> 'd sp_heap \<Rightarrow> nat \<Rightarrow> 'd point list \<Rightarrow> bool" where
  "sp_list dist h sp L \<longleftrightarrow> (\<exists>as. sp_rep dist h sp as \<and> map (pt h) as = L)"

lemma sp_repD:
  assumes "sp_rep dist h sp as"
  shows "cells_wf (nodes h)" "cells_wf (points h)" "chain sp_next (cell (nodes h)) sp (sp # as) 0" "dom (cell (nodes h)) = set (sp # as)"
    "inj_on (owner h) (set as)" "dom (cell (points h)) = owner h ` set as"
    "\<And>a. a \<in> set as \<Longrightarrow> distance (the (cell (nodes h) a)) = dist (px (pt h a)) (py (pt h a))" "distinct (sp # as)"
  using assms chain_distinct [of sp_next "cell (nodes h)" sp "sp # as"] unfolding sp_rep_def by blast+

lemma sp_rep_node:
  assumes "sp_rep dist h sp as" "a \<in> set (sp # as)"
  obtains t where "cell (nodes h) a = Some t" "a \<noteq> 0"
  using sp_repD(4) [OF assms(1)] assms(2) cells_wf_none(1) [OF sp_repD(1) [OF assms(1)]] by (metis domD option.distinct(1))

lemma sp_rep_point:
  assumes "sp_rep dist h sp as" "a \<in> set as" "cell (nodes h) a = Some t"
  shows "cell (points h) (sp_p t) = Some (pt h a)" "node_point h a = Inr (pt h a)" "distance t = dist (px (pt h a)) (py (pt h a))" "sp_p t = owner h a"
proof -
  have o: "sp_p t = owner h a" using assms(3) by (simp add: owner_def)
  have "owner h a \<in> dom (cell (points h))" using sp_repD(6) [OF assms(1)] assms(2) by simp
  then show p: "cell (points h) (sp_p t) = Some (pt h a)" by (auto simp: o pt_def)
  then show "node_point h a = Inr (pt h a)" using assms(3) by (simp add: node_point_def)
  show "distance t = dist (px (pt h a)) (py (pt h a))" using sp_repD(7) [OF assms(1,2)] assms(3) by simp
  show "sp_p t = owner h a" by (rule o)
qed

text \<open>The node behind the first \<open>xs\<close> and what comes next.\<close>

lemma sp_rep_next:
  assumes "sp_rep dist h sp (xs @ vs)"
  obtains t where "cell (nodes h) (last (sp # xs)) = Some t" "last (sp # xs) \<noteq> 0" "chain sp_next (cell (nodes h)) (sp_next t) vs 0"
    "sp_next t = (case vs of [] \<Rightarrow> 0 | c # _ \<Rightarrow> c)"
proof -
  have l: "sp # xs @ vs = butlast (sp # xs) @ last (sp # xs) # vs" using append_butlast_last_id [of "sp # xs"] by simp
  have "chain sp_next (cell (nodes h)) sp (butlast (sp # xs) @ last (sp # xs) # vs) 0" using sp_repD(3) [OF assms] unfolding l .
  then obtain t where t: "cell (nodes h) (last (sp # xs)) = Some t" "last (sp # xs) \<noteq> 0" "chain sp_next (cell (nodes h)) (sp_next t) vs 0"
    using chain_split by metis
  moreover have "sp_next t = (case vs of [] \<Rightarrow> 0 | c # _ \<Rightarrow> c)" using t(3) by (cases vs) auto
  ultimately show ?thesis by (rule that)
qed

lemma sp_init_rep:
  assumes "nodes h = no_cells" "points h = no_cells"
  shows "sp_rep dist (snd (sp_init junk h)) (fst (sp_init junk h)) []"
  using assms by (simp add: sp_init_def new_cell_def sp_rep_def no_cells_def cells_wf_def)

section \<open>Linking and unlinking a node\<close>

lemma chain_insert:
  assumes "chain nx h p (as @ b # bs) 0" "h b = Some eb" "n \<notin> set (as @ b # bs)" "n \<noteq> 0" "nx eb' = n" "nx en = nx eb"
  shows "chain nx (h(n \<mapsto> en, b \<mapsto> eb')) p (as @ b # n # bs) 0"
proof -
  have "b \<notin> set as" "b \<notin> set bs" using chain_distinct [OF assms(1)] by auto
  then show ?thesis using assms by (auto simp: chain_append)
qed

lemma insert_node:
  assumes R: "sp_rep dist h sp (xs @ vs)" and b: "b = last (sp # xs)" "cell (nodes h) b = Some eb"
    and n: "n = next_cell (nodes h)" "p = next_cell (points h)" and q: "dst = dist (px q) (py q)"
    and h': "h' = \<lparr>nodes = \<lparr>cell = (cell (nodes h))(n \<mapsto> \<lparr>sp_next = sp_next eb, sp_p = p, distance = dst\<rparr>, b \<mapsto> eb\<lparr>sp_next := n\<rparr>), next_cell = Suc n\<rparr>,
      points = \<lparr>cell = (cell (points h))(p \<mapsto> q), next_cell = Suc p\<rparr>\<rparr>"
  shows "sp_rep dist h' sp (xs @ n # vs)" "map (pt h') (xs @ n # vs) = map (pt h) xs @ q # map (pt h) vs"
proof -
  note D = sp_repD [OF R]
  have fresh: "n \<notin> set (sp # xs @ vs)" "n \<noteq> 0" "p \<notin> owner h ` set (xs @ vs)" "p \<noteq> 0"
    using D(4,6) cells_wf_none(2) [OF D(1)] cells_wf_none(2) [OF D(2)] D(1,2) n unfolding cells_wf_def by auto
  have bn: "b \<noteq> n" using fresh(1) b(1) last_in_set [of "sp # xs"] by auto
  have own: "owner h' a = owner h a" if "a \<in> set (xs @ vs)" for a
    using that fresh(1) b(2) unfolding h' owner_def by auto
  have own_n: "owner h' n = p" using bn unfolding h' owner_def by simp
  have pt_old: "pt h' a = pt h a" if "a \<in> set (xs @ vs)" for a
  proof -
    have "owner h a \<noteq> p" using fresh(3) that by auto
    then show ?thesis using own [OF that] unfolding pt_def by (simp add: h')
  qed
  have pt_n: "pt h' n = q" using own_n unfolding pt_def by (simp add: h')
  show "map (pt h') (xs @ n # vs) = map (pt h) xs @ q # map (pt h) vs" using pt_old pt_n by simp
  have l: "sp # xs @ vs = butlast (sp # xs) @ b # vs" "sp # xs @ n # vs = butlast (sp # xs) @ b # n # vs"
    using append_butlast_last_id [of "sp # xs"] b(1) by simp_all
  have c: "chain sp_next (cell (nodes h')) sp (sp # xs @ n # vs) 0"
    unfolding l(2) h' by (simp only: sp_heap.simps cells.simps) (rule chain_insert [OF D(3) [unfolded l(1)] b(2)], use fresh l(1) in auto)
  have wf: "cells_wf (nodes h')" "cells_wf (points h')"
    using cells_wf_new [OF D(2), of q] cells_wf_upd [OF cells_wf_new [OF D(1), of "\<lparr>sp_next = sp_next eb, sp_p = p, distance = dst\<rparr>"], of b eb]
      b(2) bn n unfolding h' by (simp_all add: fun_upd_twist)
  have dn: "dom (cell (nodes h')) = set (sp # xs @ n # vs)"
    using D(4) last_in_set [of "sp # xs"] b(1) unfolding h' by auto
  have "owner h' ` set (xs @ n # vs) = insert p (owner h ` set (xs @ vs))" using own own_n by auto
  then have dp: "dom (cell (points h')) = owner h' ` set (xs @ n # vs)" using D(6) unfolding h' by auto
  have "inj_on (owner h') (insert n (set (xs @ vs)))"
  proof -
    have "inj_on (owner h') (set (xs @ vs))" using D(5) inj_on_cong [of "set (xs @ vs)" "owner h'" "owner h"] own by blast
    moreover have "owner h' ` (set (xs @ vs) - {n}) \<subseteq> owner h ` set (xs @ vs)" using own by auto
    ultimately show ?thesis using own_n fresh(3) unfolding inj_on_insert by blast
  qed
  then have inj: "inj_on (owner h') (set (xs @ n # vs))" by simp
  have "distance (the (cell (nodes h') a)) = dist (px (pt h' a)) (py (pt h' a))" if a: "a \<in> set (xs @ n # vs)" for a
  proof (cases "a = n")
    case True
    then show ?thesis using pt_n bn q unfolding h' by simp
  next
    case False
    then have m: "a \<in> set (xs @ vs)" using a by auto
    then have "distance (the (cell (nodes h') a)) = distance (the (cell (nodes h) a))" using False b(2) unfolding h' by auto
    then show ?thesis using D(7) [OF m] pt_old [OF m] by simp
  qed
  then show "sp_rep dist h' sp (xs @ n # vs)" unfolding sp_rep_def using wf c dn inj dp by blast
qed

lemma remove_node:
  assumes R: "sp_rep dist h sp (xs @ c # vs)" and b: "b = last (sp # xs)" "cell (nodes h) b = Some eb" and c: "cell (nodes h) c = Some ec"
    and h': "h' = h\<lparr>nodes := (nodes h)\<lparr>cell := (cell (nodes h))(b \<mapsto> eb\<lparr>sp_next := sp_next ec\<rparr>, c := None)\<rparr>,
      points := (points h)\<lparr>cell := (cell (points h))(owner h c := None)\<rparr>\<rparr>"
  shows "sp_rep dist h' sp (xs @ vs)" "map (pt h') (xs @ vs) = map (pt h) (xs @ vs)"
proof -
  note D = sp_repD [OF R]
  have cn: "c \<notin> set (xs @ vs)" "c \<noteq> sp" using D(8) by auto
  have bc: "b \<noteq> c" using cn b(1) last_in_set [of "sp # xs"] by auto
  have oc: "owner h c \<notin> owner h ` set (xs @ vs)" using D(5) cn(1) by (auto simp: inj_on_def)
  have own: "owner h' a = owner h a" if "a \<in> set (xs @ vs)" for a
    using that cn(1) b(2) unfolding h' owner_def by auto
  have pt_old: "pt h' a = pt h a" if "a \<in> set (xs @ vs)" for a
  proof -
    have "owner h a \<noteq> owner h c" using oc that by (metis image_eqI)
    then show ?thesis using own [OF that] unfolding pt_def by (simp add: h')
  qed
  then show "map (pt h') (xs @ vs) = map (pt h) (xs @ vs)" by simp
  have l: "sp # xs @ c # vs = butlast (sp # xs) @ b # c # vs" "sp # xs @ vs = butlast (sp # xs) @ b # vs"
    using append_butlast_last_id [of "sp # xs"] b(1) by simp_all
  have "chain sp_next ((cell (nodes h))(b \<mapsto> eb\<lparr>sp_next := sp_next ec\<rparr>)) sp (sp # xs @ vs) 0"
    unfolding l(2) by (rule chain_unlink [OF D(3) [unfolded l(1)] b(2) c]) simp
  then have ch: "chain sp_next (cell (nodes h')) sp (sp # xs @ vs) 0" using cn unfolding h' by (simp del: chain.simps)
  have wf: "cells_wf (nodes h')" "cells_wf (points h')"
  proof -
    have "cells_wf ((nodes h)\<lparr>cell := (cell (nodes h))(b \<mapsto> eb\<lparr>sp_next := sp_next ec\<rparr>)\<rparr>)" by (rule cells_wf_upd [OF D(1) b(2)])
    from cells_wf_upd [OF this, of c ec None] show "cells_wf (nodes h')" using c bc unfolding h' by simp
    have "owner h c \<in> dom (cell (points h))" using D(6) by auto
    then show "cells_wf (points h')" using D(2) cells_wf_upd unfolding h' by fastforce
  qed
  have dn: "dom (cell (nodes h')) = set (sp # xs @ vs)"
    using D(4) cn bc last_in_set [of "sp # xs"] b(1) unfolding h' by auto
  have "owner h' ` set (xs @ vs) = owner h ` set (xs @ vs)" using own by auto
  then have dp: "dom (cell (points h')) = owner h' ` set (xs @ vs)" using D(6) oc unfolding h' by auto
  have inj: "inj_on (owner h') (set (xs @ vs))" using D(5) own by (auto simp: inj_on_def)
  have "distance (the (cell (nodes h') a)) = dist (px (pt h' a)) (py (pt h' a))" if a: "a \<in> set (xs @ vs)" for a
  proof -
    have "distance (the (cell (nodes h') a)) = distance (the (cell (nodes h) a))" using a cn(1) b(2) unfolding h' by auto
    then show ?thesis using D(7) [of a] a pt_old [OF a] by simp
  qed
  then show "sp_rep dist h' sp (xs @ vs)" unfolding sp_rep_def using wf ch dn inj dp by blast
qed

section \<open>The order of the points\<close>

definition before :: "('d :: linorder \<Rightarrow> 'd \<Rightarrow> 'd) \<Rightarrow> 'd point \<Rightarrow> 'd point \<Rightarrow> bool" where
  "before dist p q \<longleftrightarrow> dist (px p) (py p) < dist (px q) (py q) \<or>
     dist (px p) (py p) = dist (px q) (py q) \<and> (px p < px q \<or> px p = px q \<and> py p < py q)"

definition sorted_list :: "('d :: linorder \<Rightarrow> 'd \<Rightarrow> 'd) \<Rightarrow> 'd point list \<Rightarrow> bool" where
  "sorted_list dist L \<longleftrightarrow> sorted_wrt (\<lambda>p q. \<not> before dist q p) L"

definition insert_point :: "('d :: linorder \<Rightarrow> 'd \<Rightarrow> 'd) \<Rightarrow> 'd point \<Rightarrow> 'd point list \<Rightarrow> 'd point list" where
  "insert_point dist p L = takeWhile (\<lambda>q. \<not> before dist p q) L @ p # dropWhile (\<lambda>q. \<not> before dist p q) L"

text \<open>The order is the one of the triples of the distance and the coordinates.\<close>

definition key :: "('d \<Rightarrow> 'd \<Rightarrow> 'd) \<Rightarrow> 'd point \<Rightarrow> 'd \<times> 'd \<times> 'd" where
  "key dist p = (dist (px p) (py p), px p, py p)"

lemma before_key: "before dist p q \<longleftrightarrow> key dist p < key dist q"
  by (cases rule: linorder_cases [of "dist (px p) (py p)" "dist (px q) (py q)"]; cases rule: linorder_cases [of "px p" "px q"])
    (auto simp: before_def key_def)

lemma key_inj: "key dist p = key dist q \<longleftrightarrow> p = q"
  by (cases p; cases q) (auto simp: key_def)

lemma before_order:
  "\<not> before dist p p" "before dist p q \<Longrightarrow> \<not> before dist q p" "before dist p q \<Longrightarrow> \<not> before dist r q \<Longrightarrow> before dist p r"
  unfolding before_key by (auto intro: less_le_trans)

lemma before_trans: "\<not> before dist q p \<Longrightarrow> \<not> before dist r q \<Longrightarrow> \<not> before dist r p"
  unfolding before_key by (meson not_less order_trans)

lemma insert_point_sorted:
  assumes "sorted_list dist L"
  shows "sorted_list dist (insert_point dist p L)" "mset (insert_point dist p L) = add_mset p (mset L)"
proof -
  let ?P = "\<lambda>q. \<not> before dist p q"
  have t: "\<forall>q\<in>set (takeWhile ?P L). ?P q" by (auto dest: set_takeWhileD)
  have td: "sorted_wrt (\<lambda>p q. \<not> before dist q p) (takeWhile ?P L @ dropWhile ?P L)" using assms by (simp add: sorted_list_def)
  have d: "\<forall>q\<in>set (dropWhile ?P L). before dist p q"
  proof
    fix q assume q: "q \<in> set (dropWhile ?P L)"
    then obtain a as where as: "dropWhile ?P L = a # as" by (cases "dropWhile ?P L") auto
    then have a: "before dist p a" by (simp add: dropWhile_eq_Cons_conv)
    have "sorted_wrt (\<lambda>p q. \<not> before dist q p) (dropWhile ?P L)" using td unfolding sorted_wrt_append by blast
    then have "q = a \<or> \<not> before dist q a" using q as by auto
    then show "before dist p q" using a before_order(3) by blast
  qed
  have "\<forall>q\<in>set (dropWhile ?P L). \<not> before dist q p" using d before_order(2) by blast
  moreover note td' = td [unfolded sorted_wrt_append]
  ultimately have "sorted_wrt (\<lambda>p q. \<not> before dist q p) (p # dropWhile ?P L)" unfolding sorted_wrt.simps by blast
  moreover have "\<forall>q\<in>set (takeWhile ?P L). \<forall>r\<in>set (p # dropWhile ?P L). \<not> before dist r q"
    using t td' unfolding list.set by blast
  ultimately show "sorted_list dist (insert_point dist p L)"
    using td' unfolding sorted_list_def insert_point_def sorted_wrt_append by blast
  have "mset (takeWhile ?P L) + mset (dropWhile ?P L) = mset L" by (metis mset_append takeWhile_dropWhile_id)
  then show "mset (insert_point dist p L) = add_mset p (mset L)" by (simp add: insert_point_def)
qed

text \<open>A sorted list is one in the order of \<open>point_compare\<close>, with ties broken by the coordinates.\<close>

lemma point_compare_before:
  "point_compare dist p q = - 1 \<Longrightarrow> before dist p q" "before dist p q \<Longrightarrow> point_compare dist p q \<le> 0"
  by (auto simp: point_compare_def before_def Let_def split: if_splits)

section \<open>Adding a point\<close>

abbreviation (input) first_node :: "nat list \<Rightarrow> nat" where
  "first_node vs \<equiv> (case vs of [] \<Rightarrow> 0 | c # _ \<Rightarrow> c)"

lemma add_from_ok:
  assumes "chain sp_next (cell (nodes h)) temp vs 0" "length vs \<le> fuel"
    and "\<And>a. a \<in> set vs \<Longrightarrow> node_point h a = Inr (P a) \<and> distance (the (cell (nodes h) a)) = dist (px (P a)) (py (P a))"
  shows "add_from fuel h (dist x y) x y prev temp =
    Inr (last (prev # takeWhile (\<lambda>a. \<not> before dist \<lparr>px = x, py = y\<rparr> (P a)) vs), first_node (dropWhile (\<lambda>a. \<not> before dist \<lparr>px = x, py = y\<rparr> (P a)) vs))"
  using assms
proof (induction vs arbitrary: prev temp fuel)
  case Nil
  then show ?case by (subst add_from.simps) simp
next
  case (Cons a vs)
  obtain t where t: "temp = a" "a \<noteq> 0" "cell (nodes h) a = Some t" "chain sp_next (cell (nodes h)) (sp_next t) vs 0"
    using Cons.prems(1) by (auto split: option.splits)
  obtain f where f: "fuel = Suc f" "length vs \<le> f" using Cons.prems(2) by (cases fuel) auto
  have p: "node_point h a = Inr (P a)" "distance t = dist (px (P a)) (py (P a))" using Cons.prems(3) [of a] t(3) by simp_all
  have IH: "add_from f h (dist x y) x y a (sp_next t) =
    Inr (last (a # takeWhile (\<lambda>a. \<not> before dist \<lparr>px = x, py = y\<rparr> (P a)) vs), first_node (dropWhile (\<lambda>a. \<not> before dist \<lparr>px = x, py = y\<rparr> (P a)) vs))"
    by (rule Cons.IH [OF t(4) f(2)]) (use Cons.prems(3) in simp)
  show ?case
  proof (cases "before dist \<lparr>px = x, py = y\<rparr> (P a)")
    case True
    then show ?thesis using t p f(1) by (subst add_from.simps) (auto simp: before_def)
  next
    case False
    then have "distance t \<le> dist x y" "distance t = dist x y \<longrightarrow> \<not> (x < px (P a) \<or> x = px (P a) \<and> y < py (P a))"
      using p(2) by (auto simp: before_def)
    then have "add_from fuel h (dist x y) x y prev temp = add_from f h (dist x y) x y a (sp_next t)"
      using t p(1) f(1) by (subst add_from.simps) auto
    then show ?thesis using IH False by simp
  qed
qed

definition with_node :: "'d sp_heap \<Rightarrow> 'd sorted_points \<Rightarrow> 'd point \<Rightarrow> 'd sp_heap" where
  "with_node h t q = \<lparr>nodes = \<lparr>cell = (cell (nodes h))(next_cell (nodes h) \<mapsto> t), next_cell = Suc (next_cell (nodes h))\<rparr>,
     points = \<lparr>cell = (cell (points h))(next_cell (points h) \<mapsto> q), next_cell = Suc (next_cell (points h))\<rparr>\<rparr>"

lemma link_new:
  assumes R: "sp_rep dist h sp (xs @ vs)" and n: "n = next_cell (nodes h)" "p = next_cell (points h)" and d: "dst = dist (px q) (py q)"
  obtains h' where "rbind (set_next (with_node h \<lparr>sp_next = k, sp_p = p, distance = dst\<rparr> q) n (first_node vs)) (\<lambda>h.
      rbind (set_next h (last (sp # xs)) n) (\<lambda>h. Inr (1, h))) = Inr (1 :: int, h')"
    "sp_rep dist h' sp (xs @ n # vs)" "map (pt h') (xs @ n # vs) = map (pt h) xs @ q # map (pt h) vs"
    "vs = [] \<and> k = 0 \<longrightarrow> set_next (with_node h \<lparr>sp_next = k, sp_p = p, distance = dst\<rparr> q) (last (sp # xs)) n = Inr h'"
proof (rule sp_rep_next [OF R])
  fix eb assume eb: "cell (nodes h) (last (sp # xs)) = Some eb" "sp_next eb = first_node vs"
  let ?h' = "\<lparr>nodes = \<lparr>cell = (cell (nodes h))(n \<mapsto> \<lparr>sp_next = sp_next eb, sp_p = p, distance = dst\<rparr>, last (sp # xs) \<mapsto> eb\<lparr>sp_next := n\<rparr>), next_cell = Suc n\<rparr>,
      points = \<lparr>cell = (cell (points h))(p \<mapsto> q), next_cell = Suc p\<rparr>\<rparr>"
  have bn: "last (sp # xs) \<noteq> n" using eb(1) n(1) sp_repD(1) [OF R] by auto
  have "sp_rep dist ?h' sp (xs @ n # vs)" "map (pt ?h') (xs @ n # vs) = map (pt h) xs @ q # map (pt h) vs"
    by (rule insert_node [OF R refl eb(1) n d refl])+
  then show ?thesis
    by (rule that [rotated]) (use eb bn n in \<open>simp_all add: with_node_def set_next_def del: last.simps\<close>)
qed

lemma sp_add_point_ok:
  assumes R: "sp_rep dist h sp as" and fuel: "length as \<le> fuel"
  shows "\<exists>h'. sp_add_point dist junk fuel h sp x y = Inr (1, h') \<and> sp_list dist h' sp (insert_point dist \<lparr>px = x, py = y\<rparr> (map (pt h) as))"
proof -
  let ?n = "next_cell (nodes h)" and ?p = "next_cell (points h)" and ?q = "\<lparr>px = x, py = y\<rparr>"
  let ?h1 = "with_node h \<lparr>sp_next = 0, sp_p = ?p, distance = dist x y\<rparr> ?q"
  define xs vs where "xs = takeWhile (\<lambda>a. \<not> before dist ?q (pt h a)) as" and "vs = dropWhile (\<lambda>a. \<not> before dist ?q (pt h a)) as"
  have as: "as = xs @ vs" by (simp add: xs_def vs_def)
  have dst: "dist x y = dist (px ?q) (py ?q)" by simp
  obtain h' where h': "rbind (set_next ?h1 ?n (first_node vs)) (\<lambda>h. rbind (set_next h (last (sp # xs)) ?n) (\<lambda>h. Inr (1, h))) = Inr (1 :: int, h')"
    "sp_rep dist h' sp (xs @ ?n # vs)" "map (pt h') (xs @ ?n # vs) = map (pt h) xs @ ?q # map (pt h) vs"
    "vs = [] \<longrightarrow> set_next ?h1 (last (sp # xs)) ?n = Inr h'"
    by (rule link_new [where k = 0, OF R [unfolded as] refl refl dst]) simp
  have L: "sp_list dist h' sp (insert_point dist ?q (map (pt h) as))"
    using h'(2,3) unfolding sp_list_def insert_point_def xs_def vs_def by (auto simp: takeWhile_map dropWhile_map comp_def)
  note D = sp_repD [OF R]
  obtain s where s: "cell (nodes h) sp = Some s" "chain sp_next (cell (nodes h)) (sp_next s) as 0" "sp_next s = first_node as"
    using sp_rep_next [of dist h sp "[]" as] R by auto
  have fresh: "cell (nodes h) ?n = None" "cell (points h) ?p = None" using D(1,2) by simp_all
  have old: "cell (nodes ?h1) a = cell (nodes h) a" if "a \<in> set (sp # as)" for a
  proof -
    have "a \<noteq> ?n" using that D(4) fresh(1) by auto
    then show ?thesis by (simp add: with_node_def)
  qed
  have P: "node_point ?h1 a = Inr (pt h a)" "distance (the (cell (nodes ?h1) a)) = dist (px (pt h a)) (py (pt h a))" if a: "a \<in> set as" for a
  proof -
    obtain t where t: "cell (nodes h) a = Some t" using sp_rep_node [OF R, of a] a by auto
    note tp = sp_rep_point [OF R a t]
    have "sp_p t \<noteq> ?p" using tp(1) fresh(2) by auto
    then show "node_point ?h1 a = Inr (pt h a)" using old [of a] a t tp(1) by (simp add: node_point_def) (simp add: with_node_def)
    show "distance (the (cell (nodes ?h1) a)) = dist (px (pt h a)) (py (pt h a))" using old [of a] a t tp(3) by simp
  qed
  have "chain sp_next (cell (nodes ?h1)) (sp_next s) as 0"
    using s(2) chain_cong [of as sp_next "cell (nodes ?h1)" "cell (nodes h)" "sp_next s" 0] old by simp
  then have af: "add_from fuel ?h1 (dist x y) x y sp (sp_next s) = Inr (last (sp # xs), first_node vs)"
    unfolding xs_def vs_def by (rule add_from_ok [OF _ fuel]) (use P in blast)
  have n0: "?n \<noteq> sp" using s(1) fresh(1) by auto
  have h1: "sp_add_point dist junk fuel h sp x y = link_point fuel ?h1 sp ?n (dist x y) x y"
    by (cases h) (simp add: sp_add_point_def sp_init_def new_cell_def with_node_def)
  have "sp_add_point dist junk fuel h sp x y = Inr (1, h')"
  proof (cases as)
    case Nil
    then have "xs = []" "vs = []" by (simp_all add: xs_def vs_def)
    then show ?thesis unfolding h1 link_point_def using s old [of sp] h'(4) Nil by simp
  next
    case (Cons a bs)
    obtain t where t: "cell (nodes h) a = Some t" "a \<noteq> 0" using sp_rep_node [OF R, of a] Cons by auto
    have ca: "cell (nodes ?h1) a = Some t" using old [of a] Cons t(1) by simp
    have cs: "cell (nodes ?h1) sp = Some s" using old [of sp] s(1) by simp
    have sn: "sp_next s = a" using s(3) Cons by simp
    have pa: "node_point ?h1 a = Inr (pt h a)" "distance t = dist (px (pt h a)) (py (pt h a))" using P [of a] Cons ca by simp_all
    show ?thesis
    proof (cases "distance t > dist x y \<or> dist x y = distance t \<and> x < px (pt h a)")
      case True
      then have b: "before dist ?q (pt h a)" using pa(2) by (auto simp: before_def)
      have "xs = []" "vs = as" using b Cons by (simp_all add: xs_def vs_def)
      then show ?thesis unfolding h1 link_point_def using cs sn t(2) ca pa(1) True h'(1) Cons by (cases "distance t > dist x y") auto
    next
      case False
      then show ?thesis unfolding h1 link_point_def using cs sn t(2) ca pa(1) af h'(1) by (cases "dist x y = distance t") auto
    qed
  qed
  then show ?thesis using L by blast
qed

section \<open>Removing points\<close>

lemma unlink_node:
  assumes R: "sp_rep dist h sp (xs @ c # vs)" and b: "b = last (sp # xs)"
  obtains ec h' where "cell (nodes h) c = Some ec" "sp_next ec = first_node vs" "node_point h c = Inr (pt h c)"
    "rbind (set_next h b (sp_next ec)) (\<lambda>h. free_node h c) = Inr h'"
    "rbind (set_next h b (sp_next ec)) (\<lambda>h. rbind (node_point h c) (\<lambda>r. rbind (set_next h c 0) (\<lambda>h. rbind (free_node h c) (\<lambda>h. Inr (r, h))))) = Inr (pt h c, h')"
    "vs = [] \<longrightarrow> rbind (free_node h c) (\<lambda>h. set_next h b 0) = Inr h'" "b \<noteq> 0"
    "sp_rep dist h' sp (xs @ vs)" "map (pt h') (xs @ vs) = map (pt h) (xs @ vs)"
proof -
  obtain eb where eb: "cell (nodes h) b = Some eb" "b \<noteq> 0" using sp_rep_next [OF R] b by metis
  have R': "sp_rep dist h sp ((xs @ [c]) @ vs)" using R by simp
  obtain ec where ec: "cell (nodes h) c = Some ec" "sp_next ec = first_node vs" using sp_rep_next [OF R'] by (metis last.simps last_snoc append_Cons snoc_eq_iff_butlast)
  have cm: "c \<in> set (xs @ c # vs)" by simp
  note P = sp_rep_point [OF R cm ec(1)]
  have bc: "b \<noteq> c" using sp_repD(8) [OF R] b last_in_set [of "sp # xs"] by auto
  let ?h' = "h\<lparr>nodes := (nodes h)\<lparr>cell := (cell (nodes h))(b \<mapsto> eb\<lparr>sp_next := sp_next ec\<rparr>, c := None)\<rparr>,
      points := (points h)\<lparr>cell := (cell (points h))(owner h c := None)\<rparr>\<rparr>"
  have fr: "sp_rep dist ?h' sp (xs @ vs)" "map (pt ?h') (xs @ vs) = map (pt h) (xs @ vs)"
    by (rule remove_node [OF R b eb(1) ec(1) refl])+
  have 1: "rbind (set_next h b (sp_next ec)) (\<lambda>h. free_node h c) = Inr ?h'"
    using eb(1) ec(1) P bc by (simp add: set_next_def free_node_def)
  have 2: "rbind (set_next h b (sp_next ec)) (\<lambda>h. rbind (node_point h c) (\<lambda>r. rbind (set_next h c 0) (\<lambda>h. rbind (free_node h c) (\<lambda>h. Inr (r, h))))) = Inr (pt h c, ?h')"
    using eb(1) ec(1) P bc by (simp add: set_next_def free_node_def node_point_def)
  have 3: "rbind (free_node h c) (\<lambda>h. set_next h b 0) = Inr ?h'" if "vs = []"
    using eb(1) ec P bc that by (simp add: set_next_def free_node_def fun_upd_twist)
  show ?thesis using that [OF ec P(2) 1 2 _ eb(2) fr] 3 by blast
qed

lemma sp_rep_first: "sp_rep dist h sp as \<Longrightarrow> \<exists>s. cell (nodes h) sp = Some s \<and> sp_next s = first_node as"
  using sp_rep_next [of dist h sp "[]" as] by auto

lemma sp_rep_nonzero: "sp_rep dist h sp as \<Longrightarrow> a \<in> set (sp # as) \<Longrightarrow> a \<noteq> 0"
  by (metis sp_rep_node)

lemma sp_remove_first_ok:
  assumes R: "sp_rep dist h sp (a # vs)"
  shows "\<exists>h'. sp_remove_first h sp ret = Inr (1, pt h a, h') \<and> sp_rep dist h' sp vs \<and> map (pt h') vs = map (pt h) vs"
proof -
  obtain s where s: "cell (nodes h) sp = Some s" "sp_next s = a" using sp_rep_first [OF R] by auto
  have a0: "a \<noteq> 0" by (rule sp_rep_nonzero [OF R]) simp
  obtain ec h' where U: "cell (nodes h) a = Some ec" "node_point h a = Inr (pt h a)" "rbind (set_next h sp (sp_next ec)) (\<lambda>h. free_node h a) = Inr h'"
    "sp_rep dist h' sp vs" "map (pt h') vs = map (pt h) vs"
    by (rule unlink_node [of dist h sp "[]" a vs sp]) (use R in simp_all)
  obtain h1 where "set_next h sp (sp_next ec) = Inr h1" "free_node h1 a = Inr h'" using U(3) by (auto simp: rbind_eq_Inr)
  then show ?thesis using s a0 U by (simp add: sp_remove_first_def)
qed

lemma last_two_ok:
  assumes "sp_rep dist h sp (xs @ a # vs)" "length vs \<le> fuel"
  shows "last_two fuel h (last (sp # xs)) a = Inr (last (sp # xs @ butlast (a # vs)), last (a # vs))"
  using assms
proof (induction vs arbitrary: xs a fuel)
  case Nil
  have "sp_rep dist h sp ((xs @ [a]) @ [])" using Nil by simp
  then obtain t where "cell (nodes h) a = Some t" "sp_next t = 0" by (rule sp_rep_next) simp
  then show ?case by (subst last_two.simps) simp
next
  case (Cons c vs)
  obtain f where f: "fuel = Suc f" "length vs \<le> f" using Cons.prems(2) by (cases fuel) auto
  have R: "sp_rep dist h sp ((xs @ [a]) @ c # vs)" using Cons.prems(1) by simp
  then obtain t where t: "cell (nodes h) a = Some t" "sp_next t = c" by (rule sp_rep_next) simp
  have "c \<noteq> 0" by (rule sp_rep_nonzero [OF Cons.prems(1)]) simp
  then have "last_two fuel h (last (sp # xs)) a = last_two f h a c" using t f(1) by (subst last_two.simps) simp
  then show ?case using Cons.IH [OF R f(2)] by simp
qed

lemma sp_remove_last_ok:
  assumes R: "sp_rep dist h sp (xs @ [c])" and fuel: "length xs \<le> fuel"
  shows "\<exists>h'. sp_remove_last fuel h sp ret = Inr (1, pt h c, h') \<and> sp_rep dist h' sp xs \<and> map (pt h') xs = map (pt h) xs"
proof -
  obtain s where s: "cell (nodes h) sp = Some s" "sp_next s = first_node (xs @ [c])" using sp_rep_first [OF R] by auto
  obtain a vs where av: "xs @ [c] = a # vs" by (cases "xs @ [c]") auto
  have a0: "a \<noteq> 0" by (rule sp_rep_nonzero [OF R]) (simp add: av)
  have "length xs = length vs" using arg_cong [OF av, of length] by simp
  then have "sp_rep dist h sp ([] @ a # vs)" "length vs \<le> fuel" using R av fuel by simp_all
  from last_two_ok [OF this] have l: "last_two fuel h sp a = Inr (last (sp # xs), c)" unfolding av [symmetric] by simp
  obtain h' where U: "node_point h c = Inr (pt h c)" "rbind (free_node h c) (\<lambda>h. set_next h (last (sp # xs)) 0) = Inr h'" "last (sp # xs) \<noteq> 0"
    "sp_rep dist h' sp xs" "map (pt h') xs = map (pt h) xs"
    by (rule unlink_node [OF R refl]) simp
  obtain h1 where "free_node h c = Inr h1" "set_next h1 (last (sp # xs)) 0 = Inr h'" using U(2) by (auto simp: rbind_eq_Inr)
  then show ?thesis using s av a0 l U by (simp add: sp_remove_last_def)
qed

lemma index_from_ok:
  assumes "sp_rep dist h sp (xs @ a # vs)"
  shows "index_from k h (last (sp # xs)) a = Inr (if k \<le> length vs then Some (last (sp # xs @ take k (a # vs)), (a # vs) ! k) else None)"
  using assms
proof (induction k arbitrary: xs a vs)
  case 0
  then show ?case by simp
next
  case (Suc k)
  have R: "sp_rep dist h sp ((xs @ [a]) @ vs)" using Suc.prems by simp
  then obtain t where t: "cell (nodes h) a = Some t" "sp_next t = first_node vs" by (rule sp_rep_next) simp
  show ?case
  proof (cases vs)
    case Nil
    then show ?thesis using t by simp
  next
    case (Cons c ws)
    have "c \<noteq> 0" by (rule sp_rep_nonzero [OF R]) (simp add: Cons)
    then show ?thesis using Suc.IH [OF R [unfolded Cons]] t Cons by simp
  qed
qed

lemma sp_remove_by_index_ok:
  assumes R: "sp_rep dist h sp as" and i: "nat index < length as"
  shows "\<exists>h'. sp_remove_by_index h sp index ret = Inr (1, pt h (as ! nat index), h') \<and>
    sp_list dist h' sp (take (nat index) (map (pt h) as) @ drop (Suc (nat index)) (map (pt h) as))"
proof -
  obtain a vs where av: "as = a # vs" using i by (cases as) auto
  obtain s where s: "cell (nodes h) sp = Some s" "sp_next s = a" using sp_rep_first [OF R] av by auto
  have a0: "a \<noteq> 0" by (rule sp_rep_nonzero [OF R]) (simp add: av)
  show ?thesis
  proof (cases "index = 0")
    case True
    obtain h' where "sp_remove_first h sp ret = Inr (1, pt h a, h')" "sp_rep dist h' sp vs" "map (pt h') vs = map (pt h) vs"
      using sp_remove_first_ok [OF R [unfolded av]] by blast
    then show ?thesis using s a0 True av by (auto simp: sp_remove_by_index_def sp_list_def)
  next
    case False
    define xs c ws where "xs = take (nat index) as" and "c = as ! nat index" and "ws = drop (Suc (nat index)) as"
    have as: "as = xs @ c # ws" using i by (simp add: xs_def c_def ws_def id_take_nth_drop)
    have "index_from (nat index) h sp a = Inr (Some (last (sp # xs), c))"
      using index_from_ok [of dist h sp "[]" a vs "nat index"] R av i by (simp add: xs_def c_def)
    moreover obtain ec h' where U: "cell (nodes h) c = Some ec"
      "rbind (set_next h (last (sp # xs)) (sp_next ec)) (\<lambda>h. rbind (node_point h c) (\<lambda>r. rbind (set_next h c 0) (\<lambda>h. rbind (free_node h c) (\<lambda>h. Inr (r, h))))) = Inr (pt h c, h')"
      "sp_rep dist h' sp (xs @ ws)" "map (pt h') (xs @ ws) = map (pt h) (xs @ ws)"
      by (rule unlink_node [OF R [unfolded as] refl]) simp
    moreover have "rbind (set_next h (last (sp # xs)) (sp_next ec)) (\<lambda>h. rbind (node_point h c) (\<lambda>r. rbind (set_next h c 0) (\<lambda>h. rbind (free_node h c) (\<lambda>h. Inr (1 :: int, r, h))))) =
        Inr (1, pt h c, h')"
      using U(2) by (auto simp: rbind_eq_Inr)
    ultimately have "sp_remove_by_index h sp index ret = Inr (1, pt h c, h')" using s a0 False by (simp add: sp_remove_by_index_def)
    moreover have "map (pt h') (xs @ ws) = take (nat index) (map (pt h) as) @ drop (Suc (nat index)) (map (pt h) as)"
      using U(4) by (simp add: xs_def ws_def take_map drop_map)
    ultimately show ?thesis using U(3) unfolding sp_list_def c_def by blast
  qed
qed

lemma sp_remove_by_index_short:
  assumes R: "sp_rep dist h sp as" and i: "length as \<le> nat index"
  shows "sp_remove_by_index h sp index ret = Inr (0, ret, h)"
proof (cases as)
  case Nil
  then show ?thesis using sp_rep_first [OF R] by (auto simp: sp_remove_by_index_def)
next
  case (Cons a vs)
  obtain s where s: "cell (nodes h) sp = Some s" "sp_next s = a" using sp_rep_first [OF R] Cons by auto
  have a0: "a \<noteq> 0" by (rule sp_rep_nonzero [OF R]) (simp add: Cons)
  have "index_from (nat index) h sp a = Inr None" using index_from_ok [of dist h sp "[]" a vs "nat index"] R Cons i by simp
  moreover have "index \<noteq> 0" using i Cons by auto
  ultimately show ?thesis using s a0 by (simp add: sp_remove_by_index_def)
qed

section \<open>Duplicates\<close>

lemma duplicates_from_ok:
  assumes "sp_rep dist h sp (xs @ a # vs)" "length vs \<le> fuel"
  shows "\<exists>h' as. duplicates_from fuel h a k = Inr (k + int (Suc (length vs)) - int (length (remdups_adj (map (pt h) (a # vs)))), h') \<and>
    sp_rep dist h' sp (xs @ a # as) \<and> map (pt h') xs = map (pt h) xs \<and> map (pt h') (a # as) = remdups_adj (map (pt h) (a # vs))"
  using assms
proof (induction vs arbitrary: xs a h k fuel)
  case Nil
  have "sp_rep dist h sp ((xs @ [a]) @ [])" using Nil by simp
  then obtain t where "cell (nodes h) a = Some t" "sp_next t = 0" by (rule sp_rep_next) simp
  then have "duplicates_from fuel h a k = Inr (k, h)" by (subst duplicates_from.simps) simp
  then show ?case using Nil(1) by auto
next
  case (Cons c vs)
  obtain f where f: "fuel = Suc f" "length vs \<le> f" using Cons.prems(2) by (cases fuel) auto
  have R: "sp_rep dist h sp ((xs @ [a]) @ c # vs)" using Cons.prems(1) by simp
  then obtain t where t: "cell (nodes h) a = Some t" "sp_next t = c" by (rule sp_rep_next) simp
  have c0: "c \<noteq> 0" by (rule sp_rep_nonzero [OF Cons.prems(1)]) simp
  have pa: "node_point h a = Inr (pt h a)" by (rule sp_rep_point(2) [OF Cons.prems(1) _ t(1)]) simp
  obtain ec h1 where U: "cell (nodes h) c = Some ec" "node_point h c = Inr (pt h c)"
    "rbind (set_next h a (sp_next ec)) (\<lambda>h. free_node h c) = Inr h1" "sp_rep dist h1 sp ((xs @ [a]) @ vs)"
    "map (pt h1) ((xs @ [a]) @ vs) = map (pt h) ((xs @ [a]) @ vs)"
    by (rule unlink_node [OF R, of a]) simp_all
  have eq: "px (pt h a) = px (pt h c) \<and> py (pt h a) = py (pt h c) \<longleftrightarrow> pt h a = pt h c" by (cases "pt h a"; cases "pt h c") simp
  show ?case
  proof (cases "pt h a = pt h c")
    case True
    obtain h2 where h2: "set_next h a (sp_next ec) = Inr h2" "free_node h2 c = Inr h1" using U(3) by (auto simp: rbind_eq_Inr)
    have s: "duplicates_from fuel h a k = duplicates_from f h1 a (k + 1)"
      using t c0 pa U(1,2) h2 True f(1) by (subst duplicates_from.simps) simp
    have R1: "sp_rep dist h1 sp (xs @ a # vs)" using U(4) by simp
    have m: "map (pt h1) xs = map (pt h) xs" "map (pt h1) (a # vs) = map (pt h) (a # vs)" using U(5) by simp_all
    have rd: "remdups_adj (map (pt h) (a # c # vs)) = remdups_adj (map (pt h) (a # vs))" using True by simp
    obtain h' as where "duplicates_from f h1 a (k + 1) = Inr (k + 1 + int (Suc (length vs)) - int (length (remdups_adj (map (pt h1) (a # vs)))), h')"
      "sp_rep dist h' sp (xs @ a # as)" "map (pt h') xs = map (pt h1) xs" "map (pt h') (a # as) = remdups_adj (map (pt h1) (a # vs))"
      using Cons.IH [OF R1 f(2), of "k + 1"] by blast
    then show ?thesis unfolding s rd m by (intro exI [of _ h'] exI [of _ as]) (simp add: ac_simps)
  next
    case False
    have s: "duplicates_from fuel h a k = duplicates_from f h c k"
      using t c0 pa U(2) False eq f(1) by (subst duplicates_from.simps) auto
    obtain h' as where "duplicates_from f h c k = Inr (k + int (Suc (length vs)) - int (length (remdups_adj (map (pt h) (c # vs)))), h')"
      "sp_rep dist h' sp ((xs @ [a]) @ c # as)" "map (pt h') (xs @ [a]) = map (pt h) (xs @ [a])" "map (pt h') (c # as) = remdups_adj (map (pt h) (c # vs))"
      using Cons.IH [OF R f(2), of k] by blast
    then show ?thesis unfolding s using False by (intro exI [of _ h'] exI [of _ "c # as"]) simp
  qed
qed

text \<open>On a sorted list the duplicates are next to each other.\<close>

lemma sorted_remdups_adj_distinct: "sorted xs \<Longrightarrow> distinct (remdups_adj (xs :: 'a :: linorder list))"
  by (induction xs rule: remdups_adj.induct) fastforce+

lemma remdups_adj_sorted:
  assumes "sorted_list dist L"
  shows "distinct (remdups_adj L)" "sorted_list dist (remdups_adj L)"
proof -
  have k: "inj (key dist)" by (rule injI) (simp add: key_inj)
  have m: "map (key dist) (remdups_adj L) = remdups_adj (map (key dist) L)" by (rule remdups_adj_map_injective [OF k, symmetric])
  have s: "sorted (map (key dist) L)" using assms by (simp add: sorted_list_def before_key not_less sorted_wrt_map)
  have "sorted (map (key dist) (remdups_adj L))" unfolding m using s by (rule sorted_remdups_adj)
  then show "sorted_list dist (remdups_adj L)" by (simp add: sorted_list_def before_key not_less sorted_wrt_map)
  have "distinct (map (key dist) (remdups_adj L))" unfolding m using s by (rule sorted_remdups_adj_distinct)
  then show "distinct (remdups_adj L)" by (simp add: distinct_map)
qed

section \<open>Freeing the list\<close>

lemma destroy_from_ok:
  assumes "chain sp_next (cell (nodes h)) temp as 0" "inj_on (owner h) (set as)" "owner h ` set as \<subseteq> dom (cell (points h))" "length as \<le> fuel"
  shows "\<exists>h'. destroy_from fuel h temp = Inr h' \<and> cell (nodes h') = (cell (nodes h)) |` (- set as) \<and> cell (points h') = (cell (points h)) |` (- (owner h ` set as))"
  using assms
proof (induction as arbitrary: h temp fuel)
  case Nil
  then show ?case by (subst destroy_from.simps) (simp add: restrict_map_def)
next
  case (Cons a as)
  obtain t where t: "temp = a" "a \<noteq> 0" "cell (nodes h) a = Some t" "chain sp_next (cell (nodes h)) (sp_next t) as 0"
    using Cons.prems(1) by (auto split: option.splits)
  obtain f where f: "fuel = Suc f" "length as \<le> f" using Cons.prems(4) by (cases fuel) auto
  have o: "sp_p t = owner h a" using t(3) by (simp add: owner_def)
  obtain q where q: "cell (points h) (owner h a) = Some q" using Cons.prems(3) by auto
  have an: "a \<notin> set as" using chain_distinct [OF Cons.prems(1)] by simp
  let ?h = "h\<lparr>nodes := (nodes h)\<lparr>cell := (cell (nodes h))(a := None)\<rparr>, points := (points h)\<lparr>cell := (cell (points h))(owner h a := None)\<rparr>\<rparr>"
  have fr: "free_node h a = Inr ?h" using t(3) o q by (simp add: free_node_def)
  have own: "owner ?h b = owner h b" if "b \<in> set as" for b using that an by (auto simp: owner_def)
  have img: "owner ?h ` set as = owner h ` set as" using own by auto
  have na: "owner h a \<notin> owner h ` set as" using Cons.prems(2) an by (auto simp: inj_on_def)
  have "\<exists>h'. destroy_from f ?h (sp_next t) = Inr h' \<and> cell (nodes h') = (cell (nodes ?h)) |` (- set as) \<and>
      cell (points h') = (cell (points ?h)) |` (- (owner ?h ` set as))"
  proof (rule Cons.IH [OF _ _ _ f(2)])
    show "chain sp_next (cell (nodes ?h)) (sp_next t) as 0" using t(4) an by simp
    have "inj_on (owner h) (set as)" using Cons.prems(2) by (rule inj_on_subset) auto
    then show "inj_on (owner ?h) (set as)" using inj_on_cong [of "set as" "owner ?h" "owner h"] own by blast
    show "owner ?h ` set as \<subseteq> dom (cell (points ?h))" unfolding img using Cons.prems(3) na by (simp add: subset_Diff_insert)
  qed
  then obtain h' where h': "destroy_from f ?h (sp_next t) = Inr h'" "cell (nodes h') = (cell (nodes ?h)) |` (- set as)"
    "cell (points h') = (cell (points ?h)) |` (- (owner ?h ` set as))" by blast
  have "destroy_from fuel h temp = Inr h'" using t fr h'(1) f(1) by (subst destroy_from.simps) simp
  moreover have "cell (nodes h') = (cell (nodes h)) |` (- set (a # as))" unfolding h'(2) by (auto simp: restrict_map_def)
  moreover have "cell (points h') = (cell (points h)) |` (- (owner h ` set (a # as)))" unfolding h'(3) img by (auto simp: restrict_map_def)
  ultimately show ?case by blast
qed

lemma sp_destroy_ok:
  assumes R: "sp_rep dist h sp as" and fuel: "length as \<le> fuel"
  shows "\<exists>h'. sp_destroy fuel h sp = Inr h' \<and> cell (nodes h') = Map.empty \<and> cell (points h') = Map.empty"
proof -
  note D = sp_repD [OF R]
  obtain s where s: "cell (nodes h) sp = Some s" "sp_next s = first_node as" "chain sp_next (cell (nodes h)) (sp_next s) as 0"
    using sp_rep_next [of dist h sp "[]" as] R by auto
  obtain h1 where h1: "destroy_from fuel h (sp_next s) = Inr h1" "cell (nodes h1) = (cell (nodes h)) |` (- set as)"
    "cell (points h1) = (cell (points h)) |` (- (owner h ` set as))"
    using destroy_from_ok [OF s(3) D(5) _ fuel] D(6) by auto
  have sp: "cell (nodes h1) sp = Some s" using h1(2) s(1) D(8) by simp
  have "(if sp_next s = 0 then Inr h else destroy_from fuel h (sp_next s)) = Inr h1"
    using h1(1) by (cases "sp_next s = 0") (simp_all add: destroy_from.simps [of fuel h 0])
  then have "sp_destroy fuel h sp = Inr (h1\<lparr>nodes := (nodes h1)\<lparr>cell := (cell (nodes h1))(sp := None)\<rparr>\<rparr>)"
    using s(1) sp by (simp add: sp_destroy_def)
  moreover have "(cell (nodes h1))(sp := None) = Map.empty"
  proof
    fix a show "((cell (nodes h1))(sp := None)) a = Map.empty a"
      using D(4) h1(2) by (cases "a \<in> set as") (auto simp: restrict_map_def)
  qed
  moreover have "cell (points h1) = Map.empty"
  proof
    fix a show "cell (points h1) a = Map.empty a" using D(6) h1(3) by (cases "a \<in> owner h ` set as") (auto simp: restrict_map_def)
  qed
  ultimately show ?thesis by simp
qed

section \<open>The properties\<close>

definition sum_squares :: "int \<Rightarrow> int \<Rightarrow> int" where
  "sum_squares x y = x * x + y * y"

definition empty_sp :: "int sp_heap" where
  "empty_sp = snd (sp_init 0 \<lparr>nodes = no_cells, points = no_cells\<rparr>)"

lemma empty_sp_list: "sp_list sum_squares empty_sp 1 []"
proof -
  have "fst (sp_init (0 :: int) \<lparr>nodes = no_cells, points = no_cells\<rparr>) = 1" by (simp add: sp_init_def new_cell_def no_cells_def)
  then show ?thesis using sp_init_rep [of "\<lparr>nodes = no_cells, points = no_cells\<rparr>" sum_squares 0] by (auto simp: sp_list_def empty_sp_def)
qed

lemma one_more:
  assumes "sp_list sum_squares h 1 L"
  obtains h' where "sp_list sum_squares h' 1 (insert_point sum_squares \<lparr>px = x, py = y\<rparr> L)"
  using assms sp_add_point_ok [of sum_squares h 1 _ _ 0 x y] unfolding sp_list_def by (metis order_refl)

lemma two_points:
  obtains h where "sp_list sum_squares h 1 [\<lparr>px = 1, py = 0\<rparr>, \<lparr>px = 1, py = 0\<rparr>]"
proof (rule one_more [OF empty_sp_list, of 1 0])
  fix h1 assume "sp_list sum_squares h1 1 (insert_point sum_squares \<lparr>px = 1, py = 0\<rparr> [])"
  then show ?thesis by (rule one_more [of h1 _ 1 0]) (rule that, simp add: insert_point_def before_def)
qed

text \<open>C37.
  Adding a point to a sorted list: \<open>sp_add_point\<close> returns 1, the list has the new point and the old ones, at the place that the header file asks for, by distance, then by
  x, then by y, and is sorted again. This holds for any function \<open>dist\<close> for the distance, so whatever its rounding; nothing leaks.\<close>

theorem sp_add_point_spec:
  assumes "sp_list dist h sp L" "sorted_list dist L" "length L \<le> fuel"
  shows "\<exists>h' L'. sp_add_point dist junk fuel h sp x y = Inr (1, h') \<and> sp_list dist h' sp L' \<and> sorted_list dist L' \<and>
    mset L' = add_mset \<lparr>px = x, py = y\<rparr> (mset L)"
proof -
  obtain as where as: "sp_rep dist h sp as" "map (pt h) as = L" using assms(1) by (auto simp: sp_list_def)
  then have "length as \<le> fuel" using assms(3) by auto
  then show ?thesis using sp_add_point_ok [OF as(1)] insert_point_sorted [OF assms(2)] as(2) by blast
qed

theorem sp_add_point_spec_witness:
  "\<exists>h' L'. sp_add_point sum_squares 0 0 empty_sp 1 3 4 = Inr (1, h') \<and> sp_list sum_squares h' 1 L' \<and> L' = [\<lparr>px = 3, py = 4\<rparr>]"
  using sp_add_point_spec [OF empty_sp_list, of 0 0 3 4] by (auto simp: sorted_list_def)

text \<open>Deleting duplicates from a sorted list: \<open>sp_delete_duplicates\<close> leaves every point once, sorted, and returns how many were deleted.\<close>

theorem sp_delete_duplicates_spec:
  assumes "sp_list dist h sp L" "sorted_list dist L" "length L \<le> fuel"
  shows "\<exists>h' L'. sp_delete_duplicates fuel h sp = Inr (int (length L) - int (length L'), h') \<and> sp_list dist h' sp L' \<and>
    set L' = set L \<and> distinct L' \<and> sorted_list dist L'"
proof -
  obtain as where as: "sp_rep dist h sp as" "map (pt h) as = L" using assms(1) by (auto simp: sp_list_def)
  obtain s where s: "cell (nodes h) sp = Some s" "sp_next s = first_node as" using sp_rep_first [OF as(1)] by auto
  show ?thesis
  proof (cases as)
    case Nil
    then show ?thesis using as s by (intro exI [of _ h] exI [of _ "[]"]) (auto simp: sp_delete_duplicates_def sp_list_def sorted_list_def)
  next
    case (Cons a vs)
    have "sp_rep dist h sp ([] @ a # vs)" "length vs \<le> fuel" using as assms(3) Cons by auto
    from duplicates_from_ok [OF this, of 0] obtain h' bs where d: "duplicates_from fuel h a 0 = Inr (int (Suc (length vs)) - int (length (remdups_adj L)), h')"
      "sp_rep dist h' sp (a # bs)" "map (pt h') (a # bs) = remdups_adj L"
      using as(2) Cons by auto
    have a0: "a \<noteq> 0" by (rule sp_rep_nonzero [OF as(1)]) (simp add: Cons)
    have len: "length L = Suc (length vs)" using as(2) Cons by auto
    have "sp_delete_duplicates fuel h sp = Inr (int (length L) - int (length (remdups_adj L)), h')"
      using s a0 d(1) Cons len by (simp add: sp_delete_duplicates_def)
    moreover have "sp_list dist h' sp (remdups_adj L)" using d(2,3) unfolding sp_list_def by blast
    ultimately show ?thesis using remdups_adj_sorted [OF assms(2)] by (intro exI [of _ h'] exI [of _ "remdups_adj L"]) simp
  qed
qed

theorem sp_delete_duplicates_spec_witness:
  "\<exists>h h' n. sp_list sum_squares h 1 [\<lparr>px = 1, py = 0\<rparr>, \<lparr>px = 1, py = 0\<rparr>] \<and> sp_delete_duplicates 2 h 1 = Inr (n, h')"
proof (rule two_points)
  fix h assume h: "sp_list sum_squares h 1 [\<lparr>px = 1, py = 0\<rparr>, \<lparr>px = 1, py = 0\<rparr>]"
  have "sorted_list sum_squares [\<lparr>px = 1, py = 0\<rparr>, \<lparr>px = 1, py = 0\<rparr>]" by (simp add: sorted_list_def before_def)
  then show ?thesis using h sp_delete_duplicates_spec [OF h, of 2] by auto
qed

text \<open>C40.
  Removing by index: with an index within the list \<open>sp_remove_by_index\<close> removes that point, stores it in \<open>ret\<close> and returns 1; beyond the list it returns 0 and changes nothing. A negative index is not refused: it removes the
  first point, as if it were 0.\<close>

theorem sp_remove_by_index_spec:
  assumes "sp_list dist h sp L"
  shows "if nat index < length L
    then \<exists>h'. sp_remove_by_index h sp index ret = Inr (1, L ! nat index, h') \<and> sp_list dist h' sp (take (nat index) L @ drop (Suc (nat index)) L)
    else sp_remove_by_index h sp index ret = Inr (0, ret, h)"
proof -
  obtain as where as: "sp_rep dist h sp as" "map (pt h) as = L" using assms(1) by (auto simp: sp_list_def)
  show ?thesis
  proof (cases "nat index < length L")
    case True
    then have "nat index < length as" using as(2) by auto
    then show ?thesis using sp_remove_by_index_ok [OF as(1), of index ret] as(2) by auto
  next
    case False
    then have "length as \<le> nat index" using as(2) by auto
    then show ?thesis using sp_remove_by_index_short [OF as(1)] False by simp
  qed
qed

theorem sp_remove_by_index_spec_witness:
  "\<exists>h h'. sp_list sum_squares h 1 [\<lparr>px = 1, py = 0\<rparr>, \<lparr>px = 1, py = 0\<rparr>] \<and>
    sp_remove_by_index h 1 (- 5) \<lparr>px = 0, py = 0\<rparr> = Inr (1, \<lparr>px = 1, py = 0\<rparr>, h') \<and> sp_list sum_squares h' 1 [\<lparr>px = 1, py = 0\<rparr>]"
proof (rule two_points)
  fix h assume h: "sp_list sum_squares h 1 [\<lparr>px = 1, py = 0\<rparr>, \<lparr>px = 1, py = 0\<rparr>]"
  then show ?thesis using sp_remove_by_index_spec [OF h, of "- 5" "\<lparr>px = 0, py = 0\<rparr>"] by auto
qed

end
