(* ===== verification/Word_Count.thy ===== *)
theory Word_Count
  imports C_String
begin

unbundle bit_operations_syntax

text \<open>
  The word count of warmup/wc.c: a hash table of chains of entries. A chain is the list of its entries, which are only appended and counted up; a table is
  what its array gives for an index. malloc succeeds. \<open>word_array\<close> is the list of its bytes, and reading behind it is the fault \<open>Bad_access\<close>.
\<close>

abbreviation HASHTABLE_SIZE :: nat where "HASHTABLE_SIZE \<equiv> 100000000"

record wc_entry =
  wc_word :: "u8 list"
  num_seen :: int

type_synonym wc_table = "nat \<Rightarrow> wc_entry list"

text \<open>\<open>hash = ((hash<<5) + hash) + c\<close> with \<open>c\<close> a char, which is signed.\<close>

definition wc_hash :: "u8 list \<Rightarrow> nat" where
  "wc_hash str = unat (foldl (\<lambda>hash c. (push_bit 5 hash + hash) + (scast c :: u64)) 5381 str mod of_nat HASHTABLE_SIZE)"

definition entry_init :: "u8 list \<Rightarrow> wc_entry" where
  "entry_init word = \<lparr>wc_word = word, num_seen = 1\<rparr>"

text \<open>\<open>insertEntry\<close> on the chain of the bucket.\<close>

fun insert_chain :: "u8 list \<Rightarrow> wc_entry list \<Rightarrow> wc_entry list" where
  "insert_chain single_word [] = [entry_init single_word]"
| "insert_chain single_word (temp # nxt) =
     (if nxt \<noteq> [] \<and> single_word \<noteq> wc_word temp then temp # insert_chain single_word nxt
      else if nxt \<noteq> [] \<or> single_word = wc_word temp then temp\<lparr>num_seen := c_int (num_seen temp + 1)\<rparr> # nxt
      else temp # [entry_init single_word])"

definition insertEntry :: "nat \<Rightarrow> u8 list \<Rightarrow> wc_table \<Rightarrow> wc_table" where
  "insertEntry hash_num single_word table = table(hash_num := insert_chain single_word (table hash_num))"

text \<open>\<open>strncpy(single_word, p, n); single_word[n] = 0;\<close> with \<open>p\<close> the address of the index \<open>off\<close>: the string that it stores.\<close>

definition copy_word :: "u8 list \<Rightarrow> nat \<Rightarrow> nat \<Rightarrow> u8 list res" where
  "copy_word word_array off n =
     (if off + n \<le> length word_array then Inr (takeWhile (\<lambda>c. c \<noteq> 0) (bslice off n word_array)) else Inl Bad_access)"

text \<open>The loop of \<open>wc_init\<close> with \<open>k\<close> turns left, \<open>i = size - k\<close>.\<close>

fun wc_from :: "u8 list \<Rightarrow> nat \<Rightarrow> nat \<Rightarrow> nat \<Rightarrow> nat \<Rightarrow> nat \<Rightarrow> wc_table \<Rightarrow> wc_table res" where
  "wc_from word_array 0 i char_count more_space moving_word_head table = Inr table"
| "wc_from word_array (Suc k) i char_count more_space moving_word_head table =
     (if length word_array \<le> i then Inl Bad_access
      else if char_count \<noteq> 0 \<and> (is_space (word_array ! i) \<or> k = 0) then
        rbind (copy_word word_array (moving_word_head + more_space) char_count) (\<lambda>single_word.
        wc_from word_array k (Suc i) 0 0 (moving_word_head + (char_count + 1 + more_space)) (insertEntry (wc_hash single_word) single_word table))
      else if char_count = 0 \<and> is_space (word_array ! i) then wc_from word_array k (Suc i) char_count (more_space + 1) moving_word_head table
      else wc_from word_array k (Suc i) (char_count + 1) more_space moving_word_head table)"

definition wc_init :: "u8 list \<Rightarrow> nat \<Rightarrow> wc_table res" where
  "wc_init word_array n = wc_from word_array n 0 0 0 0 (\<lambda>_. [])"

definition wc_output :: "wc_table \<Rightarrow> u8 list" where
  "wc_output table = concat (map (\<lambda>i. concat (map (\<lambda>e. wc_word e @ lit '':'' @ dec (num_seen e) @ [10]) (table i))) [0..<HASHTABLE_SIZE])"

end
