(* ===== verification/Word_Count_Spec.thy ===== *)
theory Word_Count_Spec
  imports Word_Count
begin

text \<open>
  The word count of warmup/wc.c against a definition of the words of a text: the table that \<open>wc_init\<close> builds has every word once, with its number.
\<close>

section \<open>Words\<close>

function words_of :: "u8 list \<Rightarrow> u8 list list" where
  "words_of s =
     (let t = dropWhile is_space s in
      if t = [] then [] else takeWhile (\<lambda>c. \<not> is_space c) t # words_of (dropWhile (\<lambda>c. \<not> is_space c) t))"
  by pat_completeness auto
termination
proof (relation "measure length")
  fix s t :: "u8 list" assume t: "t = dropWhile is_space s" "t \<noteq> []"
  then have "\<not> is_space (hd t)" by (metis hd_dropWhile)
  then have "length (dropWhile (\<lambda>c. \<not> is_space c) t) < length t"
    using t(2) by (cases t) (auto simp: less_Suc_eq_le intro: length_dropWhile_le)
  moreover have "length t \<le> length s" unfolding t(1) by (rule length_dropWhile_le)
  ultimately show "(dropWhile (\<lambda>c. \<not> is_space c) t, s) \<in> measure length" by simp
qed simp

declare words_of.simps [simp del]

lemma words_of_Nil [simp]: "words_of [] = []"
  by (simp add: words_of.simps)

lemma words_of_space [simp]: "is_space c \<Longrightarrow> words_of (c # s) = words_of s"
  by (subst (1 2) words_of.simps) simp

lemma words_of_word:
  assumes "w \<noteq> []" "\<forall>c\<in>set w. \<not> is_space c" "r = [] \<or> is_space (hd r)"
  shows "words_of (w @ r) = w # words_of r"
proof -
  obtain a v where w: "w = a # v" "\<not> is_space a" using assms(1,2) by (cases w) auto
  have d: "dropWhile is_space (w @ r) = w @ r" using w by simp
  have "takeWhile (\<lambda>c. \<not> is_space c) (w @ r) = w" "dropWhile (\<lambda>c. \<not> is_space c) (w @ r) = r"
    using assms(2,3) by (cases r; auto simp: takeWhile_append2 dropWhile_append2)+
  then show ?thesis using assms(1) by (subst words_of.simps) (simp add: d)
qed

lemma words_of_split:
  assumes "is_space c"
  shows "words_of (s @ c # r) = words_of s @ words_of r"
proof (induction s rule: length_induct)
  case (1 s)
  show ?case
  proof (cases s)
    case Nil
    then show ?thesis using assms by simp
  next
    case (Cons a t)
    show ?thesis
    proof (cases "is_space a")
      case True
      then show ?thesis using 1 Cons by simp
    next
      case False
      define w u where "w = takeWhile (\<lambda>c. \<not> is_space c) s" and "u = dropWhile (\<lambda>c. \<not> is_space c) s"
      have s: "s = w @ u" by (simp add: w_def u_def)
      have w: "w \<noteq> []" "\<forall>c\<in>set w. \<not> is_space c" using Cons False by (auto simp: w_def dest: set_takeWhileD)
      have u: "u = [] \<or> is_space (hd u)" using hd_dropWhile [of "\<lambda>c. \<not> is_space c" s] by (auto simp: u_def)
      have "length u < length s" using w(1) s by simp
      then have IH: "words_of (u @ c # r) = words_of u @ words_of r" using 1 by simp
      have "words_of (w @ u @ c # r) = w # words_of (u @ c # r)" by (rule words_of_word [OF w]) (use u assms in \<open>cases u; simp\<close>)
      moreover have "words_of (w @ u) = w # words_of u" by (rule words_of_word [OF w u])
      ultimately show ?thesis using IH s by simp
    qed
  qed
qed

section \<open>The table\<close>

text \<open>The table of a list of words: every word has one entry, in its bucket, with the number of times it is in the list.\<close>

definition counts :: "wc_table \<Rightarrow> u8 list list \<Rightarrow> bool" where
  "counts table ws \<longleftrightarrow> (\<forall>h. distinct (map wc_word (table h)) \<and>
     (\<forall>e\<in>set (table h). wc_hash (wc_word e) = h \<and> wc_word e \<in> set ws \<and> num_seen e = int (count_list ws (wc_word e)))) \<and>
     (\<forall>w\<in>set ws. w \<in> wc_word ` set (table (wc_hash w)))"

text \<open>The insertion without its tests of the end of the chain.\<close>

lemma insert_chain_eq:
  "insert_chain w es = (if w \<in> wc_word ` set es
     then map (\<lambda>e. if e = hd (filter (\<lambda>e. wc_word e = w) es) then e\<lparr>num_seen := c_int (num_seen e + 1)\<rparr> else e) es else es @ [entry_init w])"
  if "distinct (map wc_word es)"
  using that
proof (induction w es rule: insert_chain.induct)
  case (1 w)
  then show ?case by simp
next
  case (2 w e es)
  have d: "distinct (map wc_word es)" "wc_word e \<notin> wc_word ` set es" using 2(2) by simp_all
  show ?case
  proof (cases "w = wc_word e")
    case True
    have "(if x = e then x\<lparr>num_seen := c_int (num_seen x + 1)\<rparr> else x) = x" if "x \<in> set es" for x using d(2) that by auto
    then have "map (\<lambda>x. if x = e then x\<lparr>num_seen := c_int (num_seen x + 1)\<rparr> else x) es = es" by (rule map_idI)
    then show ?thesis using True by simp
  next
    case False
    have "e \<noteq> hd (filter (\<lambda>e. wc_word e = w) es)" if "w \<in> wc_word ` set es"
    proof -
      have "filter (\<lambda>e. wc_word e = w) es \<noteq> []" using that by (auto simp: filter_empty_conv)
      then have "wc_word (hd (filter (\<lambda>e. wc_word e = w) es)) = w" using hd_in_set by fastforce
      then show ?thesis using False by auto
    qed
    then show ?thesis using 2(1) d(1) False by (cases "es = []") auto
  qed
qed

lemma insert_chain_props:
  assumes d: "distinct (map wc_word es)"
  shows "wc_word ` set (insert_chain w es) = insert w (wc_word ` set es)" "distinct (map wc_word (insert_chain w es))"
    "\<And>e. e \<in> set (insert_chain w es) \<Longrightarrow> \<exists>e'. (e = e' \<and> e' \<in> set es \<and> wc_word e' \<noteq> w) \<or>
      (e = e'\<lparr>num_seen := c_int (num_seen e' + 1)\<rparr> \<and> e' \<in> set es \<and> wc_word e' = w) \<or> (e = entry_init w \<and> w \<notin> wc_word ` set es)"
proof -
  let ?x = "hd (filter (\<lambda>e. wc_word e = w) es)"
  let ?f = "\<lambda>e. if e = ?x then e\<lparr>num_seen := c_int (num_seen e + 1)\<rparr> else e"
  have mw: "map wc_word (map ?f es) = map wc_word es" by simp
  have x: "wc_word ?x = w" "?x \<in> set es" if "w \<in> wc_word ` set es"
  proof -
    have "filter (\<lambda>e. wc_word e = w) es \<noteq> []" using that by (auto simp: filter_empty_conv)
    then show "wc_word ?x = w" "?x \<in> set es" using hd_in_set by fastforce+
  qed
  note e = insert_chain_eq [OF d, of w]
  show "wc_word ` set (insert_chain w es) = insert w (wc_word ` set es)"
  proof (cases "w \<in> wc_word ` set es")
    case True
    have "wc_word ` set (map ?f es) = wc_word ` set es" unfolding set_map [symmetric] mw ..
    then show ?thesis using True by (simp only: e if_True insert_absorb)
  qed (simp add: e entry_init_def)
  show "distinct (map wc_word (insert_chain w es))"
    using d unfolding e by (cases "w \<in> wc_word ` set es") (simp_all only: if_True if_False mw, auto simp: entry_init_def)
  fix a assume a: "a \<in> set (insert_chain w es)"
  show "\<exists>e'. (a = e' \<and> e' \<in> set es \<and> wc_word e' \<noteq> w) \<or>
      (a = e'\<lparr>num_seen := c_int (num_seen e' + 1)\<rparr> \<and> e' \<in> set es \<and> wc_word e' = w) \<or> (a = entry_init w \<and> w \<notin> wc_word ` set es)"
  proof (cases "w \<in> wc_word ` set es")
    case True
    then obtain b where b: "b \<in> set es" "a = ?f b" using a e by auto
    have inj: "inj_on wc_word (set es)" using d by (simp add: distinct_map)
    have u: "b = ?x" if "wc_word b = w" by (rule inj_onD [OF inj _ b(1) x(2) [OF True]]) (simp only: that x(1) [OF True])
    show ?thesis
    proof (cases "b = ?x")
      case True
      then have "a = b\<lparr>num_seen := c_int (num_seen b + 1)\<rparr>" using b(2) by (simp only: refl if_True)
      moreover have "wc_word b = w" using True x(1) [OF \<open>w \<in> wc_word ` set es\<close>] by (simp only:)
      ultimately show ?thesis using b(1) by blast
    next
      case False
      then have "a = b" "wc_word b \<noteq> w" using b(2) u by auto
      then show ?thesis using b(1) by blast
    qed
  next
    case False
    then show ?thesis using a e by auto
  qed
qed

lemma insertEntry_counts:
  assumes C: "counts table ws" and len: "length ws < 2 ^ 31 - 1"
  shows "counts (insertEntry (wc_hash w) w table) (ws @ [w])"
proof -
  have d: "distinct (map wc_word (table h))" for h using C by (simp add: counts_def)
  have ent: "wc_hash (wc_word e) = h \<and> wc_word e \<in> set ws \<and> num_seen e = int (count_list ws (wc_word e))" if "e \<in> set (table h)" for e h
    using C that by (simp add: counts_def)
  have all: "v \<in> wc_word ` set (table (wc_hash v))" if "v \<in> set ws" for v using C that by (simp add: counts_def)
  let ?t = "insertEntry (wc_hash w) w table"
  have t: "?t h = (if h = wc_hash w then insert_chain w (table h) else table h)" for h by (simp add: insertEntry_def)
  note P = insert_chain_props [OF d, where w = w]
  show ?thesis
    unfolding counts_def
  proof (intro conjI allI ballI)
    fix h
    show "distinct (map wc_word (?t h))" using P(2) d by (simp add: t)
    fix e assume e: "e \<in> set (?t h)"
    have "wc_hash (wc_word e) = h \<and> wc_word e \<in> set (ws @ [w]) \<and> num_seen e = int (count_list (ws @ [w]) (wc_word e))"
    proof (cases "h = wc_hash w")
      case False
      then have "e \<in> set (table h)" using e t by simp
      then show ?thesis using ent [of e h] False by auto
    next
      case True
      then have "e \<in> set (insert_chain w (table h))" using e t by simp
      then obtain e' where "(e = e' \<and> e' \<in> set (table h) \<and> wc_word e' \<noteq> w) \<or>
          (e = e'\<lparr>num_seen := c_int (num_seen e' + 1)\<rparr> \<and> e' \<in> set (table h) \<and> wc_word e' = w) \<or> (e = entry_init w \<and> w \<notin> wc_word ` set (table h))"
        using P(3) by blast
      then show ?thesis
      proof (elim disjE conjE)
        assume a: "e = e'\<lparr>num_seen := c_int (num_seen e' + 1)\<rparr>" "e' \<in> set (table h)" "wc_word e' = w"
        have "count_list ws w \<le> length ws" by (rule count_le_length)
        then have "c_int (num_seen e' + 1) = num_seen e' + 1" using ent [OF a(2)] a(3) len by (intro c_int_id) auto
        then show ?thesis using a ent [OF a(2)] by simp
      next
        assume a: "e = entry_init w" "w \<notin> wc_word ` set (table h)"
        then have "w \<notin> set ws" using all True by blast
        then show ?thesis using a True by (simp add: entry_init_def count_notin)
      qed (use ent in auto)
    qed
    then show "wc_hash (wc_word e) = h" "wc_word e \<in> set (ws @ [w])" "num_seen e = int (count_list (ws @ [w]) (wc_word e))" by blast+
  next
    fix v assume "v \<in> set (ws @ [w])"
    then have "v = w \<or> v \<in> wc_word ` set (table (wc_hash v))" using all by auto
    then show "v \<in> wc_word ` set (?t (wc_hash v))" using P(1) [of "wc_hash w"] unfolding t by (cases "wc_hash v = wc_hash w") force+
  qed
qed

section \<open>The array\<close>


lemma words_take:
  assumes "l \<le> i" "i < length arr" "l = 0 \<or> is_space (arr ! (l - 1))" "\<forall>j. l \<le> j \<and> j < i \<longrightarrow> \<not> is_space (arr ! j)" "l < i"
  shows "words_of (take i arr) = words_of (take l arr) @ [bslice l (i - l) arr]"
proof -
  let ?w = "bslice l (i - l) arr"
  have s: "take i arr = take l arr @ ?w" using assms(1) take_add [of l "i - l" arr] by (simp add: bslice_def)
  have n: "?w \<noteq> []" using assms(2,5) by (simp add: bslice_def)
  have ns: "\<forall>c\<in>set ?w. \<not> is_space c"
  proof
    fix c assume "c \<in> set ?w"
    then obtain j where "j < i - l" "c = arr ! (l + j)" using assms(2) by (auto simp: bslice_def in_set_conv_nth)
    then show "\<not> is_space c" using assms(4) by simp
  qed
  have w: "words_of ?w = [?w]" using words_of_word [OF n ns, of "[]"] by simp
  show ?thesis
  proof (cases "l = 0")
    case True
    then show ?thesis using s w by simp
  next
    case False
    then obtain m where m: "l = Suc m" by (cases l) auto
    then have t: "take l arr = take m arr @ [arr ! m]" using assms(1,2) by (simp add: take_Suc_conv_app_nth)
    have sp: "is_space (arr ! m)" using assms(3) m by simp
    show ?thesis unfolding s t using words_of_split [OF sp, of "take m arr" ?w] words_of_split [OF sp, of "take m arr" "[]"] w by simp
  qed
qed

lemma words_take_Suc:
  assumes "i < length arr" "is_space (arr ! i)"
  shows "words_of (take (Suc i) arr) = words_of (take i arr)"
  using words_of_split [OF assms(2), of "take i arr" "[]"] assms(1) by (simp add: take_Suc_conv_app_nth)

lemma length_words_of: "length (words_of s) \<le> length s"
proof (induction s rule: words_of.induct)
  case (1 s)
  let ?t = "dropWhile is_space s"
  show ?case
  proof (cases "?t = []")
    case True
    then show ?thesis by (subst words_of.simps) simp
  next
    case False
    let ?d = "dropWhile (\<lambda>c. \<not> is_space c) ?t"
    have "\<not> is_space (hd ?t)" using hd_dropWhile False by blast
    then have "?d = dropWhile (\<lambda>c. \<not> is_space c) (tl ?t)" using False by (cases ?t) auto
    then have "length ?d < length ?t" using length_dropWhile_le [of "\<lambda>c. \<not> is_space c" "tl ?t"] False by (cases ?t) auto
    then have "length ?d < length s" using length_dropWhile_le [of is_space s] by linarith
    moreover have "length (words_of s) = Suc (length (words_of ?d))" using False by (subst words_of.simps) (simp add: Let_def)
    ultimately show ?thesis using 1 [OF refl False] by linarith
  qed
qed

lemma wc_from_ok:
  assumes "length arr = i + k" "head + ms + cc = i" "c_string arr" "counts table (words_of (take (i - cc) arr))"
    and "i - cc = 0 \<or> is_space (arr ! (i - cc - 1))" "\<forall>j. i - cc \<le> j \<and> j < i \<longrightarrow> \<not> is_space (arr ! j)" "length arr < 2 ^ 31 - 1"
  shows "\<exists>table'. wc_from arr k i cc ms head table = Inr table' \<and>
    counts table' (words_of (if k = 0 then take (i - cc) arr else butlast arr))"
  using assms
proof (induction k arbitrary: i cc ms head table)
  case 0
  then show ?case by simp
next
  case (Suc k)
  have i: "i < length arr" "\<not> length arr \<le> i" using Suc.prems(1) by simp_all
  let ?l = "i - cc"
  have len: "length (words_of (take ?l arr)) < 2 ^ 31 - 1" using length_words_of [of "take ?l arr"] Suc.prems(7) by simp
  have last: "butlast arr = take i arr" if "k = 0" using Suc.prems(1) that by (simp add: butlast_conv_take)
  show ?case
  proof (cases "cc \<noteq> 0 \<and> (is_space (arr ! i) \<or> k = 0)")
    case True
    let ?w = "bslice ?l cc arr"
    have le: "cc \<le> i" using Suc.prems(2) by simp
    have lt: "?l < i" "?l \<le> i" "i - ?l = cc" using True le by simp_all
    have "c_string ?w" using Suc.prems(3) by (auto simp: c_string_def bslice_def dest: in_set_takeD in_set_dropD)
    then have "takeWhile (\<lambda>c. c \<noteq> 0) ?w = ?w" by (auto simp: c_string_def takeWhile_eq_all_conv)
    moreover have "head + ms = ?l" "?l + cc \<le> length arr" using Suc.prems(2) i by simp_all
    ultimately have cp: "copy_word arr (head + ms) cc = Inr ?w" by (simp add: copy_word_def)
    let ?t = "insertEntry (wc_hash ?w) ?w table"
    have ws: "words_of (take i arr) = words_of (take ?l arr) @ [?w]"
      using words_take [OF lt(2) i(1) Suc.prems(5,6) lt(1)] lt(3) by simp
    have C: "counts ?t (words_of (take i arr))" unfolding ws by (rule insertEntry_counts [OF Suc.prems(4) len])
    have r: "wc_from arr (Suc k) i cc ms head table = wc_from arr k (Suc i) 0 0 (head + (cc + 1 + ms)) ?t"
      using i(2) True cp by simp
    show ?thesis
    proof (cases "k = 0")
      case True
      then show ?thesis using r C last by simp
    next
      case False
      then have sp: "is_space (arr ! i)" using True by simp
      have "\<exists>table'. wc_from arr k (Suc i) 0 0 (head + (cc + 1 + ms)) ?t = Inr table' \<and>
          counts table' (words_of (if k = 0 then take (Suc i - 0) arr else butlast arr))"
        by (rule Suc.IH) (use Suc.prems(1-3,7) C sp words_take_Suc [OF i(1) sp] in auto)
      then show ?thesis unfolding r using False by simp
    qed
  next
    case no: False
    show ?thesis
    proof (cases "cc = 0 \<and> is_space (arr ! i)")
      case True
      have r: "wc_from arr (Suc k) i cc ms head table = wc_from arr k (Suc i) cc (ms + 1) head table" using i(2) True by simp
      have "\<exists>table'. wc_from arr k (Suc i) cc (ms + 1) head table = Inr table' \<and>
          counts table' (words_of (if k = 0 then take (Suc i - cc) arr else butlast arr))"
        by (rule Suc.IH) (use Suc.prems(1-4,7) True words_take_Suc [OF i(1)] in auto)
      then show ?thesis unfolding r using True words_take_Suc [OF i(1)] last by (cases "k = 0") simp_all
    next
      case False
      then have ns: "\<not> is_space (arr ! i)" using no by auto
      have r: "wc_from arr (Suc k) i cc ms head table = wc_from arr k (Suc i) (cc + 1) ms head table" using i(2) no False by auto
      have l: "Suc i - (cc + 1) = ?l" using Suc.prems(2) by simp
      have ih: "\<exists>table'. wc_from arr k (Suc i) (cc + 1) ms head table = Inr table' \<and>
          counts table' (words_of (if k = 0 then take (Suc i - (cc + 1)) arr else butlast arr))"
        by (rule Suc.IH) (use Suc.prems ns in \<open>auto simp: less_Suc_eq\<close>)
      show ?thesis
      proof (cases "k = 0")
        case True
        then have "cc = 0" using no by simp
        then show ?thesis using ih r l True last by simp
      next
        case False
        then show ?thesis using ih r by simp
      qed
    qed
  qed
qed

lemma wc_init_ok:
  assumes "arr \<noteq> []" "c_string arr" "length arr < 2 ^ 31 - 1"
  shows "\<exists>table. wc_init arr (length arr) = Inr table \<and> counts table (words_of (butlast arr))"
  using wc_from_ok [of arr 0 "length arr" 0 0 0 "\<lambda>_. []"] assms by (simp add: wc_init_def counts_def)

lemma counts_words:
  assumes "counts table ws"
  shows "(\<exists>e\<in>set (table h). wc_word e = w \<and> num_seen e = n) \<longleftrightarrow> w \<in> set ws \<and> h = wc_hash w \<and> n = int (count_list ws w)"
proof
  assume "\<exists>e\<in>set (table h). wc_word e = w \<and> num_seen e = n"
  then obtain e where e: "e \<in> set (table h)" "wc_word e = w" "num_seen e = n" by blast
  then have "wc_hash (wc_word e) = h \<and> wc_word e \<in> set ws \<and> num_seen e = int (count_list ws (wc_word e))" using assms unfolding counts_def by blast
  then show "w \<in> set ws \<and> h = wc_hash w \<and> n = int (count_list ws w)" using e(2,3) by simp
next
  assume r: "w \<in> set ws \<and> h = wc_hash w \<and> n = int (count_list ws w)"
  then have "w \<in> wc_word ` set (table h)" using assms unfolding counts_def by blast
  then obtain e where "e \<in> set (table h)" "wc_word e = w" by blast
  moreover from this have "num_seen e = int (count_list ws (wc_word e))" using assms unfolding counts_def by blast
  then have "num_seen e = n" using r \<open>wc_word e = w\<close> by simp
  ultimately show "\<exists>e\<in>set (table h). wc_word e = w \<and> num_seen e = n" by blast
qed

lemma words_butlast: "arr \<noteq> [] \<Longrightarrow> is_space (last arr) \<Longrightarrow> words_of (butlast arr) = words_of arr"
  by (metis append_butlast_last_id append_Nil2 words_of_Nil words_of_split)

section \<open>The property\<close>

text \<open>C38.
  \<open>wc_init\<close> against the definition of words: for an array that ends with a space, as a text file does, the table has an entry for exactly the words of the array, each in
  the bucket of its hash and with the number of times it occurs. When the array does not end with a space its last character is lost, so the last word is counted without it.\<close>

theorem wc_init_counts:
  assumes "arr \<noteq> []" "c_string arr" "length arr < 2 ^ 31 - 1" "ws = words_of (if is_space (last arr) then arr else butlast arr)"
  shows "\<exists>table. wc_init arr (length arr) = Inr table \<and> (\<forall>h. distinct (map wc_word (table h))) \<and>
    (\<forall>h w n. (\<exists>e\<in>set (table h). wc_word e = w \<and> num_seen e = n) \<longleftrightarrow> w \<in> set ws \<and> h = wc_hash w \<and> n = int (count_list ws w))"
proof -
  have ws: "words_of (butlast arr) = ws" using assms(1,4) words_butlast by simp
  obtain table where t: "wc_init arr (length arr) = Inr table" "counts table ws" using wc_init_ok [OF assms(1-3)] unfolding ws by blast
  have "\<forall>h. distinct (map wc_word (table h))" using t(2) by (simp add: counts_def)
  then show ?thesis using t(1) counts_words [OF t(2)] by (intro exI [of _ table]) simp
qed

theorem wc_init_counts_witness:
  "\<exists>table. wc_init [97, 32, 98, 32, 97, 10] (length [97, 32, 98, 32, 97, 10 :: u8]) = Inr table \<and>
    (\<exists>e\<in>set (table (wc_hash [97])). wc_word e = [97] \<and> num_seen e = 2)"
proof -
  have w: "words_of [97, 32, 98, 32, 97, 10] = [[97], [98], [97]]"
    by (simp add: words_of.simps is_space_def Let_def)
  show ?thesis
    using wc_init_counts [of "[97, 32, 98, 32, 97, 10]" "[[97], [98], [97]]"] w by (force simp: c_string_def is_space_def)
qed

end
