(* ===== verification/Warmup_Fact.thy ===== *)
theory Warmup_Fact
  imports C_Prelude
begin

text \<open>
  The factorial of warmup/fact.c. An int that overflows wraps around; \<open>factorial\<close> has fuel, as it does not return for a value below 1.
  \<open>fact_main\<close> is \<open>main\<close> with one argument, \<open>converted\<close> what atoi makes of it and \<open>whole\<close> whether atof gives a whole number; it returns what is printed, a number or a word.
\<close>

fun factorial :: "nat \<Rightarrow> int \<Rightarrow> int res" where
  "factorial fuel value =
     (if value \<noteq> 1 then
        case fuel of 0 \<Rightarrow> Inl Out_of_fuel | Suc fuel \<Rightarrow> rbind (factorial fuel (c_int (value - 1))) (\<lambda>r. Inr (c_int (value * r)))
      else Inr value)"

declare factorial.simps [simp del]

definition fact_main :: "nat \<Rightarrow> int \<Rightarrow> bool \<Rightarrow> (string + int) res" where
  "fact_main fuel converted whole =
     (if converted = 0 \<or> \<not> whole then Inr (Inl ''Huh?'')
      else if converted > 12 then Inr (Inl ''Overflow'')
      else rbind (factorial fuel converted) (\<lambda>result. Inr (Inr result)))"

lemma factorial_value:
  "n \<le> 11 \<Longrightarrow> n \<le> fuel \<Longrightarrow> factorial fuel (int (Suc n)) = Inr (int (fact (Suc n)))"
proof (induction n arbitrary: fuel)
  case 0
  then show ?case by (subst factorial.simps) simp
next
  case (Suc n)
  obtain f where f: "fuel = Suc f" "n \<le> f" using Suc.prems(2) by (cases fuel) auto
  have "fact (Suc (Suc n)) \<le> (fact 12 :: nat)" by (rule fact_mono) (use Suc.prems(1) in simp)
  also have "(fact 12 :: nat) < 2 ^ 31" by (simp add: fact_numeral)
  finally have "int (fact (Suc (Suc n))) < int (2 ^ 31)" by (simp only: of_nat_less_iff)
  then have c: "c_int (int (fact (Suc (Suc n)))) = int (fact (Suc (Suc n)))" by (intro c_int_id) (simp_all del: of_nat_fact fact_Suc)
  have d: "c_int (int (Suc (Suc n)) - 1) = int (Suc n)" using Suc.prems(1) by (subst c_int_id) auto
  have "int (Suc (Suc n)) * int (fact (Suc n)) = int (fact (Suc (Suc n)))" unfolding of_nat_mult [symmetric] by (simp only: fact_Suc of_nat_id)
  then show ?case using Suc.IH [OF _ f(2)] Suc.prems(1) f(1) c d by (subst factorial.simps) simp
qed

text \<open>A negative number passes the tests of \<open>main\<close>, and the recursion, which only stops at 1, goes down from it: no depth up to 2147483648 less the number is enough.\<close>

lemma factorial_negative:
  "value < 1 \<Longrightarrow> int fuel < value + 2 ^ 31 \<Longrightarrow> - (2 ^ 31) \<le> value \<Longrightarrow> factorial fuel value = Inl Out_of_fuel"
proof (induction fuel arbitrary: "value")
  case 0
  then show ?case by (subst factorial.simps) simp
next
  case (Suc f)
  have c: "c_int (value - 1) = value - 1" using Suc.prems by (intro c_int_id) auto
  have "factorial f (value - 1) = Inl Out_of_fuel" by (rule Suc.IH) (use Suc.prems in auto)
  then show ?case using Suc.prems(1) c by (subst factorial.simps) simp
qed

lemma fact_main_spec:
  "fact_main fuel converted whole = Inr (Inl ''Huh?'')" if "converted = 0 \<or> \<not> whole"
  using that by (simp add: fact_main_def)

lemma fact_main_value:
  assumes "1 \<le> converted" "converted \<le> 12" "12 \<le> fuel"
  shows "fact_main fuel converted True = Inr (Inr (int (fact (nat converted))))"
proof -
  define n where "n = nat converted - 1"
  have n: "converted = int (Suc n)" "n \<le> 11" "n \<le> fuel" using assms by (auto simp: n_def)
  have "factorial fuel converted = Inr (int (fact (Suc n)))" unfolding n(1) by (rule factorial_value [OF n(2,3)])
  moreover have "nat converted = Suc n" using n(1) by simp
  ultimately show ?thesis using assms(1,2) by (simp add: fact_main_def)
qed

end
