(* ===== verification/Spec2Isabelle.thy ===== *)
theory Spec2Isabelle
  imports Shell_Spec Server_Steps Client_Spec Thread_Use Sorted_Points_Spec Word_Count_Spec Warmup_Fact
begin

text \<open>
  The programs of an operating systems course, verified: a file system in a file with the shell that works on it (fs/), user-level
  threads (threads/), a web server with its client (webserver/), and the first exercises (warmup/). The theories are translations of the C code
  and theorems about them; this one joins them.

  \<^bold>\<open>The file system, fs/.\<close> A device is a list of bytes, in blocks of 8192 (theory Block: block.c). The super block counts inodes and
  blocks and has two bitmaps of what is in use (Bitmap: bitmap.c; Super: super.c). An inode is 64 bytes on the device (Inode) and, while somebody
  uses it, a structure in memory, found through a hash table and counted (Inode_Cache: the rest of inode.c, with the linked lists of list.h in List_H).
  A file is a tree of direct, indirect and double indirect blocks (Read_Write: read_write.c), a directory is a file of names and inode
  numbers (Dir: dir.c), and the commands (Commands: the \<open>cmd_\<close> functions of dir.c, file.c and super.c, with the numbers of common.c in C_String) work on the current
  directory. Shell is testfs.c: lines of words, the table of commands, the loop over the input; Mount_Spec has mktestfs.c, which makes a file system.
  The state is a record \<open>super_block\<close> (device, bitmaps, counters) within a record \<open>fs\<close> (inodes by address, the hash table); every function takes and returns it.

  What is proved about it, from the bottom up: the bitmap and the free maps are sets of numbers (locale of Free_Map); blocks, indirect blocks and
  inode blocks are containers of cells (locale of Cell_Store); the lists keep their chains (locale of Chains). Block_Tree, File_Data and File_Free have the tree of a
  file as a function from offsets to bytes: a read gives the bytes, a write changes the range that it names and no other file, freeing gives back
  exactly the blocks of the file. Fs_Invariant has the invariant of everything, \<open>fs_wf\<close>: every inode in use has a well-formed tree, no block belongs to two
  files, every used block to one; getting, putting, creating, writing and removing keep it. Dir_Entries and Dir_Spec make a directory
  a list of names that is a dictionary (locale of Dictionary); Command_Spec, Walk_Spec and File_Spec say for the commands, in a session (\<open>session\<close>: the current directory is
  in memory and is the list \<open>es\<close>), what they answer on every branch and change. Mount_Spec: what is unmounted and mounted again is
  the same. Shell_Spec puts it all together, from mktestfs to the words that a later run of the shell prints.

  \<^bold>\<open>The threads, threads/.\<close> Threads is thread.c and the part of interrupt.c it uses. A thread control block is an allocated cell; what getcontext saves is
  a value of \<open>saved\<close>, the point where the thread continues with its locals, and setcontext is the running of that continuation
  (\<open>resume\<close>). Thread_Lists, Thread_Spec and Thread_Switch have the invariant: the ready threads, those to delete and the wait queues are
  disjoint chains, identifiers and control blocks agree, interrupts are off while they change. Thread_Queue, Thread_Life, Thread_Rounds and Thread_Locks prove sleeping and waking,
  creation and exit, that threads that only yield run in turn, and that a lock has one holder; Thread_Use holds the properties and an example state.

  \<^bold>\<open>The web server, webserver/.\<close> Rio is the robust I/O of common.c: a descriptor is the list of what read(2) will meet on it, chunks, signals and failures, so a theorem
  over all lists covers all the ways in which the bytes arrive (Rio_Spec). Request is request.c and \<open>do_server_request\<close>; Cache is the document cache of
  server_thread.c, entries and buckets being allocated cells (Slist); Request_Queue has its ring buffer and Server_Steps the steps of the main thread and the workers as a step
  relation. Lru_List, Cache_Spec, Cache_Evict and Cache_Use prove that the cache is one with least-recently-used eviction (locale of Lru_Cache) and a dictionary; Request_Queue
  that the ring buffer is a bounded queue (locale of Bounded_Queue); Server_Steps, by rule induction, that no connection is lost or reordered, that the main thread misses no wake-up, and which workers are not woken; Request_Spec, Serve_Spec
  and Serve what the server answers. Client is client.c with fileset.c, which makes the files and their index; Client_Spec has the way from the index through the
  client and the server and back.

  \<^bold>\<open>The exercises, warmup/.\<close> Sorted_Points is the sorted list of sorted_points.c (and the comparison of point.c) over a heap, Sorted_Points_Spec its refinement to lists of points;
  Word_Count is wc.c, proved in Word_Count_Spec against a definition of the words of a text; Warmup_Fact is fact.c.

  \<^bold>\<open>Conventions\<close> (C_Prelude). A call returns \<open>Inr\<close> its results, or \<open>Inl\<close> how the process ends or the machine fails: a message and exit, a failed
  assertion, an access outside an object or to one that has been freed, a loop out of fuel. Error codes are ordinary results. Integers have their width, as words or with \<open>c_int\<close>,
  \<open>c_long\<close>, \<open>c_ulong\<close> for the conversions; counts that memory bounds (the references of an inode, the threads of a queue) are unbounded; where the code stores an int in a wider or narrower field the conversion is written out. Addresses are natural numbers, 0 is
  NULL, and malloc gives one that was never used.

  \<^bold>\<open>Fuel.\<close> Loops over linked structures and recursions that the data bounds take fuel, and running out is the fault \<open>Out_of_fuel\<close>, so \<open>Inr\<close> always means that the code
  returns. The theorems say how much is enough: the length of a chain (list.h, the cache, the sorted points), \<open>k + 1\<close> for pwd in a directory at depth \<open>k\<close>, depth and width of the tree for ls and
  lsr (Walk_Spec), one unit for each line of a request or of an index and each byte of a body (Serve, Client_Spec). Where the code does not return, no fuel is enough, and that is a theorem: a request without an empty line
  (Serve), acquiring a lock that no ready thread can release (Thread_Locks), the factorial of a negative number as far as an int goes (Warmup_Fact).

  \<^bold>\<open>Bounds.\<close> Reading and writing are proved within the largest file; the bytes read through a hole are zero only in the direct and indirect part, because the code does not zero the
  buffer for a hole of the double indirect part (a finding, Read_Write_Spec). Writes need \<open>room\<close>: free blocks for the data and the blocks of pointers, three for each block of data
  at the most. The theorem from mktestfs to the second run of the shell takes at most 200000 bytes of data, which fit on the smallest device. The queue of the server is proved for \<open>max_requests\<close> below \<open>2 ^ 30\<close>; from there on its arithmetic overflows (\<open>queue_full_overflow\<close>). The
  cache is proved where no file that has to leave shares its bucket with another one, because there \<open>delete_entry\<close> frees an entry that stays linked, and the client
  where no line fills its buffer.

  \<^bold>\<open>Not modelled.\<close> The libraries that the sources only call are written as far as they are used (strtok_r, strtoll, sscanf, sprintf) or are parameters: popt, the clock, malloc
  where the code tests its result, the random numbers, the file systems below the server. Calls of the system without state of the program are left out: sockets, signals and timers of interrupt.c beyond the handler that
  preempts, pthread_create, fflush, posix_fadvise, usleep. The functions of common.c for random distributions and those of point.c for translation and distance only compute with doubles. The main programs of server.c,
  client.c and client_simple.c read arguments and open sockets; the programs test_*.c, show_*.c, hello.c, hi.c, words.c and gg.c have no state; threads/os-150 and "sorted_points (copy).c" are earlier states of
  files that are modelled. A failing fwrite, the report of mktestfs, and the assertions on mallinfo at the end of testfs.c are not in the model; that nothing leaks is proved where a heap is explicit (the sorted points), and
  for the inodes by \<open>inode_hash_destroy\<close>, which asserts it.
\<close>

end
